(* ===== verification/Prelude.thy ===== *)
theory Prelude
  imports Main "HOL-Library.Word" "HOL-Library.List_Lexorder"
begin

text \<open>
  Shared vocabulary of the development: the machine types of the Rust sources, the
  engine's error type (\<^verbatim>\<open>src/crates/inlaysql-core/src/error.rs\<close>), the outcome of a
  fallible Rust computation (a value, an \<open>Err\<close>, or a panic), checked and unchecked slice
  access, fixed-width integer byte codecs, and the byte-lexicographic key order. Generic
  lemmas the component theories share are collected in \<open>result_simps\<close>,
  \<open>codec_simps\<close> and \<open>slice_simps\<close>.

  Conventions: \<open>usize\<close> is \<open>nat\<close> (the sources run on 64-bit targets and every sum the
  model writes is bounded by a few 32-bit quantities, so it cannot wrap); \<open>u8\<close>, \<open>u32\<close>,
  \<open>u64\<close> are words of that width; \<open>n as u32\<close> is \<open>of_nat n\<close>, which truncates.
  \<open>&[u8]\<close> and \<open>Vec<u8>\<close> are lists of bytes; their \<open>Ord\<close> is the list order of
  \<open>HOL-Library.List_Lexorder\<close>.
\<close>

named_theorems result_simps \<open>computation rules of the result type\<close>
named_theorems codec_simps \<open>round trips and lengths of the integer byte codecs\<close>
named_theorems slice_simps \<open>slice access inside and outside its bounds\<close>

section \<open>Machine types\<close>

type_synonym u8 = "8 word"
type_synonym u16 = "16 word"
type_synonym u32 = "32 word"
type_synonym u64 = "64 word"
type_synonym bytes = "8 word list"

text \<open>\<open>core::cmp::Ordering\<close> and the comparison \<open>Ord::cmp\<close> gives.\<close>

datatype ordering = Less | Equal | Greater

definition cmp :: "'a::linorder \<Rightarrow> 'a \<Rightarrow> ordering" where
  "cmp a b = (if a < b then Less else if a = b then Equal else Greater)"

lemma cmp_simps [simp]:
  "cmp a b = Less \<longleftrightarrow> a < b"
  "cmp a b = Equal \<longleftrightarrow> a = b"
  "cmp a b = Greater \<longleftrightarrow> b < a"
  by (auto simp: cmp_def)

lemma cmp_refl [simp]: "cmp a a = Equal"
  by (simp add: cmp_def)

section \<open>Errors and outcomes\<close>

text \<open>\<open>traits::Stopped\<close>, carried by \<open>Error::Cancelled\<close>.\<close>

datatype stopped = Timeout | Killed

datatype db_error =
    Parse string | Unsupported string | Catalog string | Type string | Constraint string
  | Bind string | Stale string | Storage string | Conflict | Transaction string
  | Index string | Corrupt string | FormatVersion string | TooBig string
  | Memory string | Cancelled stopped

text \<open>
  What running a Rust function of type \<open>Result<T>\<close> can do: return \<open>Ok\<close>, return
  \<open>Err\<close>, or panic (an index or slice out of bounds). Keeping the panic as a value lets the
  development state that the decoders never panic, whatever bytes they are given.
\<close>

datatype 'a result = Ok 'a | Err db_error | Panic

fun rbind :: "'a result \<Rightarrow> ('a \<Rightarrow> 'b result) \<Rightarrow> 'b result" where
  "rbind (Ok x) f = f x"
| "rbind (Err e) f = Err e"
| "rbind Panic f = Panic"

declare rbind.simps [result_simps]

lemma rbind_cong [fundef_cong]:
  "m = n \<Longrightarrow> (\<And>x. n = Ok x \<Longrightarrow> f x = g x) \<Longrightarrow> rbind m f = rbind n g"
  by (cases n) auto

lemma rbind_assoc [result_simps]: "rbind (rbind m f) g = rbind m (\<lambda>x. rbind (f x) g)"
  by (cases m) auto

lemma rbind_right_Ok [simp]: "rbind m Ok = m"
  by (cases m) auto

lemma rbind_eq_Ok [simp]: "rbind m f = Ok y \<longleftrightarrow> (\<exists>x. m = Ok x \<and> f x = Ok y)"
  by (cases m) auto

lemma Ok_eq_rbind [simp]: "Ok y = rbind m f \<longleftrightarrow> (\<exists>x. m = Ok x \<and> f x = Ok y)"
  by (cases m) auto

lemma rbind_eq_Panic [simp]: "rbind m f = Panic \<longleftrightarrow> m = Panic \<or> (\<exists>x. m = Ok x \<and> f x = Panic)"
  by (cases m) auto

lemma rbind_eq_Err [simp]:
  "rbind m f = Err e \<longleftrightarrow> m = Err e \<or> (\<exists>x. m = Ok x \<and> f x = Err e)"
  by (cases m) auto

text \<open>\<open>Option::ok_or_else\<close> and the implicit \<open>unwrap\<close> of an index expression.\<close>

definition ok_or :: "'a option \<Rightarrow> db_error \<Rightarrow> 'a result" where
  "ok_or x e = (case x of Some v \<Rightarrow> Ok v | None \<Rightarrow> Err e)"

definition or_panic :: "'a option \<Rightarrow> 'a result" where
  "or_panic x = (case x of Some v \<Rightarrow> Ok v | None \<Rightarrow> Panic)"

lemma ok_or_simps [simp]: "ok_or (Some v) e = Ok v" "ok_or None e = Err e"
  by (simp_all add: ok_or_def)

lemma ok_or_not_Panic [simp]: "ok_or x e \<noteq> Panic"
  by (cases x) auto

lemma ok_or_eq_Ok [simp]: "ok_or x e = Ok v \<longleftrightarrow> x = Some v"
  by (cases x) auto

lemma or_panic_simps [simp]: "or_panic (Some v) = Ok v" "or_panic None = Panic"
  by (simp_all add: or_panic_def)

lemma or_panic_eq_Ok [simp]: "or_panic x = Ok v \<longleftrightarrow> x = Some v"
  by (cases x) auto

text \<open>\<open>for x in xs { f(x)? }\<close> collecting the results.\<close>

fun rmapM :: "('a \<Rightarrow> 'b result) \<Rightarrow> 'a list \<Rightarrow> 'b list result" where
  "rmapM f [] = Ok []"
| "rmapM f (x # xs) = rbind (f x) (\<lambda>y. rbind (rmapM f xs) (\<lambda>ys. Ok (y # ys)))"

lemma rmapM_cong [fundef_cong]:
  "xs = ys \<Longrightarrow> (\<And>x. x \<in> set ys \<Longrightarrow> f x = g x) \<Longrightarrow> rmapM f xs = rmapM g ys"
  by (induction ys arbitrary: xs) auto

lemma rmapM_Ok_iff: "rmapM f xs = Ok ys \<longleftrightarrow> list_all2 (\<lambda>x y. f x = Ok y) xs ys"
  by (induction xs arbitrary: ys) (auto simp: list_all2_Cons1)

lemma rmapM_not_Panic: "(\<And>x. x \<in> set xs \<Longrightarrow> f x \<noteq> Panic) \<Longrightarrow> rmapM f xs \<noteq> Panic"
  by (induction xs) auto

lemma rmapM_Ok_all:
  assumes "rmapM f xs = Ok ys" and "\<And>x y. f x = Ok y \<Longrightarrow> P y"
  shows "\<forall>y \<in> set ys. P y"
  using assms by (induction xs arbitrary: ys) auto

lemma rmapM_Ok_length: "rmapM f xs = Ok ys \<Longrightarrow> length ys = length xs"
  by (induction xs arbitrary: ys) auto

lemma rmapM_all_Ok: "(\<And>x. x \<in> set xs \<Longrightarrow> f x = Ok (g x)) \<Longrightarrow> rmapM f xs = Ok (map g xs)"
  by (induction xs) auto

section \<open>Slices\<close>

text \<open>\<open>xs[a..b]\<close> as a list, \<open>xs.get(a..b)\<close>, and the panicking index forms.\<close>

definition slice :: "nat \<Rightarrow> nat \<Rightarrow> 'a list \<Rightarrow> 'a list" where
  "slice a b xs = take (b - a) (drop a xs)"

definition get_range :: "'a list \<Rightarrow> nat \<Rightarrow> nat \<Rightarrow> 'a list option" where
  "get_range xs a b = (if a \<le> b \<and> b \<le> length xs then Some (slice a b xs) else None)"

definition get_at :: "'a list \<Rightarrow> nat \<Rightarrow> 'a option" where
  "get_at xs i = (if i < length xs then Some (xs ! i) else None)"

definition index_range :: "'a list \<Rightarrow> nat \<Rightarrow> nat \<Rightarrow> 'a list result" where
  "index_range xs a b = or_panic (get_range xs a b)"

definition index_at :: "'a list \<Rightarrow> nat \<Rightarrow> 'a result" where
  "index_at xs i = or_panic (get_at xs i)"

lemma length_slice [simp, slice_simps]: "b \<le> length xs \<Longrightarrow> length (slice a b xs) = b - a"
  by (simp add: slice_def)

lemma slice_self [simp]: "slice a a xs = []"
  by (simp add: slice_def)

lemma slice_full [simp]: "slice 0 (length xs) xs = xs"
  by (simp add: slice_def)

lemma slice_one: "i < length xs \<Longrightarrow> slice i (Suc i) xs = [xs ! i]"
  by (simp add: slice_def take_Suc hd_drop_conv_nth)

lemma slice_append_skip: "length xs = a \<Longrightarrow> slice (a + i) (a + j) (xs @ ys) = slice i j ys"
  by (simp add: slice_def)

lemma slice_append_here:
  "length xs = a \<Longrightarrow> length ys = b - a \<Longrightarrow> a \<le> b \<Longrightarrow> slice a b (xs @ ys @ zs) = ys"
  by (simp add: slice_def)

lemma slice_append_left: "b \<le> length xs \<Longrightarrow> slice a b (xs @ ys) = slice a b xs"
  by (simp add: slice_def)

lemma slice_slice_append: "a \<le> b \<Longrightarrow> b \<le> c \<Longrightarrow> slice a b xs @ slice b c xs = slice a c xs"
proof -
  assume "a \<le> b" "b \<le> c"
  then obtain i j where b: "b = a + i" and c: "c = a + i + j"
    by (metis le_iff_add)
  have "take (i + j) (drop a xs) = take i (drop a xs) @ take j (drop i (drop a xs))"
    by (rule take_add)
  then show ?thesis
    by (simp add: slice_def b c add.commute)
qed

lemma get_range_Some_iff [simp]:
  "get_range xs a b = Some ys \<longleftrightarrow> a \<le> b \<and> b \<le> length xs \<and> ys = slice a b xs"
  by (auto simp: get_range_def)

lemma get_range_None_iff [simp]: "get_range xs a b = None \<longleftrightarrow> \<not> (a \<le> b \<and> b \<le> length xs)"
  by (auto simp: get_range_def)

lemma get_at_Some_iff [simp]: "get_at xs i = Some x \<longleftrightarrow> i < length xs \<and> x = xs ! i"
  by (auto simp: get_at_def)

lemma get_at_None_iff [simp]: "get_at xs i = None \<longleftrightarrow> length xs \<le> i"
  by (auto simp: get_at_def)

lemma index_range_in [slice_simps]: "a \<le> b \<Longrightarrow> b \<le> length xs \<Longrightarrow> index_range xs a b = Ok (slice a b xs)"
  by (simp add: index_range_def get_range_def)

lemma index_range_Ok_iff [simp]:
  "index_range xs a b = Ok ys \<longleftrightarrow> a \<le> b \<and> b \<le> length xs \<and> ys = slice a b xs"
  by (auto simp: index_range_def)

lemma or_panic_not_Err [simp]: "or_panic x \<noteq> Err e"
  by (cases x) auto

lemma or_panic_eq_Panic [simp]: "or_panic x = Panic \<longleftrightarrow> x = None"
  by (cases x) auto

lemma index_range_not_Err [simp]: "index_range xs a b \<noteq> Err e"
  by (simp add: index_range_def)

lemma index_range_Panic_iff [simp]: "index_range xs a b = Panic \<longleftrightarrow> \<not> (a \<le> b \<and> b \<le> length xs)"
  by (simp add: index_range_def)

lemma index_at_not_Err [simp]: "index_at xs i \<noteq> Err e"
  by (simp add: index_at_def)

lemma index_at_Panic_iff [simp]: "index_at xs i = Panic \<longleftrightarrow> length xs \<le> i"
  by (simp add: index_at_def)

lemma index_at_in [slice_simps]: "i < length xs \<Longrightarrow> index_at xs i = Ok (xs ! i)"
  by (simp add: index_at_def get_at_def)

lemma index_at_Ok_iff [simp]: "index_at xs i = Ok x \<longleftrightarrow> i < length xs \<and> x = xs ! i"
  by (auto simp: index_at_def)

text \<open>\<open>buf[a..a+n].copy_from_slice(ys)\<close>: replace a range in place.\<close>

definition splice :: "nat \<Rightarrow> 'a list \<Rightarrow> 'a list \<Rightarrow> 'a list" where
  "splice a ys xs = take a xs @ ys @ drop (a + length ys) xs"

definition copy_at :: "'a list \<Rightarrow> nat \<Rightarrow> 'a list \<Rightarrow> 'a list result" where
  "copy_at xs a ys = (if a + length ys \<le> length xs then Ok (splice a ys xs) else Panic)"

lemma length_splice [simp, slice_simps]: "a + length ys \<le> length xs \<Longrightarrow> length (splice a ys xs) = length xs"
  by (simp add: splice_def)

lemma copy_at_in [slice_simps]: "a + length ys \<le> length xs \<Longrightarrow> copy_at xs a ys = Ok (splice a ys xs)"
  by (simp add: copy_at_def)

lemma nth_splice:
  "a + length ys \<le> length xs \<Longrightarrow> i < length xs \<Longrightarrow>
   splice a ys xs ! i = (if a \<le> i \<and> i < a + length ys then ys ! (i - a) else xs ! i)"
  by (auto simp: splice_def nth_append)

lemma slice_nth_eqI:
  "b \<le> length xs \<Longrightarrow> b \<le> length ys \<Longrightarrow> (\<And>i. a \<le> i \<Longrightarrow> i < b \<Longrightarrow> xs ! i = ys ! i) \<Longrightarrow>
   slice a b xs = slice a b ys"
  by (auto simp: slice_def list_eq_iff_nth_eq)

lemma slice_splice_same: "a + length ys \<le> length xs \<Longrightarrow> slice a (a + length ys) (splice a ys xs) = ys"
  by (simp add: slice_def splice_def)

lemma slice_splice_other:
  assumes "a + length ys \<le> length xs" "j \<le> length xs" "j \<le> a \<or> a + length ys \<le> i"
  shows "slice i j (splice a ys xs) = slice i j xs"
  by (rule slice_nth_eqI) (use assms in \<open>auto simp: nth_splice\<close>)

text \<open>Slices of slices.\<close>

lemma slice_of_slice: "b \<le> d - c \<Longrightarrow> slice a b (slice c d xs) = slice (c + a) (c + b) xs"
  by (simp add: slice_def drop_take min_def add.commute)

lemma nth_slice: "i < b - a \<Longrightarrow> b \<le> length xs \<Longrightarrow> slice a b xs ! i = xs ! (a + i)"
  by (simp add: slice_def)

lemma slice_mid:
  assumes "slice a (a + n) bs = xs @ ys @ zs" "a + n \<le> length bs" "length xs = i" "length ys = m"
  shows "slice (a + i) (a + i + m) bs = ys"
proof -
  from assms(1) have e: "take n (drop a bs) = xs @ ys @ zs" by (simp add: slice_def)
  have "length (take n (drop a bs)) = n" using assms(2) by simp
  then have n: "n = i + m + length zs" using assms(3,4) unfolding e by simp
  have "take m (drop i (take n (drop a bs))) = ys" using assms(3,4) unfolding e by simp
  moreover have "drop i (take n (drop a bs)) = take (n - i) (drop (i + a) bs)"
    by (simp add: drop_take)
  ultimately show ?thesis using n by (simp add: slice_def add.commute)
qed

lemma slice_first:
  assumes "slice a (a + n) bs = ys @ zs" "a + n \<le> length bs" "length ys = m"
  shows "slice a (a + m) bs = ys"
  using slice_mid [of a n bs "[]" ys zs 0 m] assms by simp

lemma slice_last:
  assumes "slice a (a + n) bs = xs @ ys @ zs" "a + n \<le> length bs" "length xs = i" "length ys = j" "length zs = m"
  shows "slice (a + i + j) (a + i + j + m) bs = zs"
  using slice_mid [of a n bs "xs @ ys" zs "[]" "i + j" m] assms by (simp add: add.assoc)

lemma slice_chunks:
  assumes "\<And>x. length (f x) = 2" "i < length xs"
  shows "slice (2 * i) (2 * i + 2) (concat (map f xs)) = f (xs ! i)"
  using assms(2)
proof (induction xs arbitrary: i)
  case Nil
  then show ?case by simp
next
  case (Cons x xs)
  show ?case
  proof (cases i)
    case 0
    then show ?thesis using assms(1) by (simp add: slice_def)
  next
    case (Suc j)
    then show ?thesis
      using Cons slice_append_skip [of "f x" 2 "2 * j" "2 * j + 2" "concat (map f xs)"] assms(1) by simp
  qed
qed

text \<open>\<open>iter().rposition(p)\<close>: the index of the last element that satisfies \<open>p\<close>.\<close>

fun rposition :: "('a \<Rightarrow> bool) \<Rightarrow> 'a list \<Rightarrow> nat option" where
  "rposition p [] = None"
| "rposition p (x # xs) =
     (case rposition p xs of Some i \<Rightarrow> Some (i + 1) | None \<Rightarrow> if p x then Some 0 else None)"

lemma rposition_take: "xs \<noteq> [] \<Longrightarrow> p (last xs) \<Longrightarrow> rposition p xs = Some (length xs - 1)"
  by (induction xs) (auto split: if_splits)

lemma rposition_bound: "rposition p xs = Some i \<Longrightarrow> i < length xs \<and> p (xs ! i)"
  by (induction xs arbitrary: i) (auto split: option.splits if_splits)

lemma rposition_None: "rposition p xs = None \<longleftrightarrow> (\<forall>x \<in> set xs. \<not> p x)"
  by (induction xs) (auto split: option.splits)

lemma rposition_last: "rposition p xs = Some i \<Longrightarrow> i < j \<Longrightarrow> j < length xs \<Longrightarrow> \<not> p (xs ! j)"
proof (induction xs arbitrary: i j)
  case (Cons x xs)
  then show ?case by (cases j) (auto split: option.splits if_splits simp: rposition_None)
qed simp

end
