(* ===== verification/Byte_Codec.thy ===== *)
theory Byte_Codec
  imports Prelude
begin

text \<open>
  The fixed-width integer codecs of the Rust core library the sources use
  (\<open>to_le_bytes\<close>, \<open>from_le_bytes\<close>, \<open>to_be_bytes\<close>, \<open>from_be_bytes\<close>), decimal
  formatting of integers (\<open>Display\<close>), and ASCII case folding of bytes. The facts every
  on-disk structure rests on: the codecs are inverse to each other, and big-endian
  encoding preserves and reflects the numeric order.
\<close>

section \<open>Little-endian and big-endian digits\<close>

fun nat_to_le :: "nat \<Rightarrow> nat \<Rightarrow> bytes" where
  "nat_to_le 0 k = []"
| "nat_to_le (Suc n) k = of_nat (k mod 256) # nat_to_le n (k div 256)"

fun le_to_nat :: "bytes \<Rightarrow> nat" where
  "le_to_nat [] = 0"
| "le_to_nat (b # bs) = unat b + 256 * le_to_nat bs"

lemma length_nat_to_le [simp, codec_simps]: "length (nat_to_le n k) = n"
  by (induction n arbitrary: k) auto

lemma unat_u8_bound: "unat (b :: u8) < 256"
  using unsigned_less [of b, where ?'a = nat] by simp

lemma unat_of_nat_u8 [simp]: "unat (of_nat (k mod 256) :: u8) = k mod 256"
  by (simp add: unat_of_nat)

lemma le_to_nat_nat_to_le: "le_to_nat (nat_to_le n k) = k mod 256 ^ n"
proof (induction n arbitrary: k)
  case 0
  then show ?case by simp
next
  case (Suc n)
  have "k mod 256 ^ Suc n = k mod 256 + 256 * (k div 256 mod 256 ^ n)"
    by (simp add: mod_mult2_eq)
  then show ?case by (simp add: Suc.IH)
qed

lemma le_to_nat_bound: "le_to_nat bs < 256 ^ length bs"
proof (induction bs)
  case Nil
  then show ?case by simp
next
  case (Cons b bs)
  from Cons.IH have "Suc (le_to_nat bs) \<le> 256 ^ length bs" by simp
  then have "256 * Suc (le_to_nat bs) \<le> 256 * 256 ^ length bs"
    by (rule mult_le_mono2)
  then show ?case using unat_u8_bound [of b] by simp
qed

lemma nat_to_le_le_to_nat: "length bs = n \<Longrightarrow> nat_to_le n (le_to_nat bs) = bs"
proof (induction bs arbitrary: n)
  case Nil
  then show ?case by simp
next
  case (Cons b bs)
  have "(unat b + 256 * le_to_nat bs) mod 256 = unat b"
    and "(unat b + 256 * le_to_nat bs) div 256 = le_to_nat bs"
    using unat_u8_bound [of b] by simp_all
  then show ?case using Cons by auto
qed

text \<open>
  Big-endian is the reversal; on equally long strings its byte order is the numeric order.
  A key ending in a big-endian row id therefore sorts by row id.
\<close>

definition nat_to_be :: "nat \<Rightarrow> nat \<Rightarrow> bytes" where
  "nat_to_be n k = rev (nat_to_le n k)"

definition be_to_nat :: "bytes \<Rightarrow> nat" where
  "be_to_nat bs = le_to_nat (rev bs)"

lemma length_nat_to_be [simp, codec_simps]: "length (nat_to_be n k) = n"
  by (simp add: nat_to_be_def)

lemma be_to_nat_nat_to_be: "be_to_nat (nat_to_be n k) = k mod 256 ^ n"
  by (simp add: be_to_nat_def nat_to_be_def le_to_nat_nat_to_le)

lemma nat_to_be_be_to_nat: "length bs = n \<Longrightarrow> nat_to_be n (be_to_nat bs) = bs"
  by (simp add: be_to_nat_def nat_to_be_def nat_to_le_le_to_nat)

lemma be_to_nat_bound: "be_to_nat bs < 256 ^ length bs"
  using le_to_nat_bound [of "rev bs"] by (simp add: be_to_nat_def)

lemma le_to_nat_append: "le_to_nat (xs @ ys) = le_to_nat xs + 256 ^ length xs * le_to_nat ys"
  by (induction xs) (auto simp: algebra_simps)

lemma be_to_nat_Cons: "be_to_nat (b # bs) = unat b * 256 ^ length bs + be_to_nat bs"
  by (simp add: be_to_nat_def le_to_nat_append)

lemma be_to_nat_Nil [simp]: "be_to_nat [] = 0"
  by (simp add: be_to_nat_def)

lemma be_to_nat_less_iff:
  "length xs = length ys \<Longrightarrow> be_to_nat xs < be_to_nat ys \<longleftrightarrow> xs < ys"
proof (induction xs ys rule: list_induct2)
  case Nil
  then show ?case by simp
next
  case (Cons x xs y ys)
  let ?P = "256 ^ length xs :: nat"
  have bx: "be_to_nat xs < ?P" and by': "be_to_nat ys < ?P"
    using be_to_nat_bound [of xs] be_to_nat_bound [of ys] Cons.hyps by simp_all
  have carry: "a * ?P + r < b * ?P + s" if "a < b" "r < ?P" for a b r s :: nat
  proof -
    from that(1) have "Suc a * ?P \<le> b * ?P" by (intro mult_le_mono1) simp
    with that(2) show ?thesis by simp
  qed
  consider "unat x < unat y" | "unat y < unat x" | "unat x = unat y" by linarith
  then show ?case
  proof cases
    case 1
    then show ?thesis using carry [OF 1 bx, of "be_to_nat ys"] Cons.hyps
      by (simp add: be_to_nat_Cons word_less_nat_alt)
  next
    case 2
    then show ?thesis using carry [OF 2 by', of "be_to_nat xs"] Cons.hyps
      by (auto simp: be_to_nat_Cons word_less_nat_alt)
  next
    case 3
    then have "x = y" by (simp add: word_unat_eq_iff)
    then show ?thesis using Cons by (simp add: be_to_nat_Cons)
  qed
qed

lemma nat_to_be_less_iff:
  "j < 256 ^ n \<Longrightarrow> k < 256 ^ n \<Longrightarrow> nat_to_be n j < nat_to_be n k \<longleftrightarrow> j < k"
  using be_to_nat_less_iff [of "nat_to_be n j" "nat_to_be n k"]
  by (simp add: be_to_nat_nat_to_be)

section \<open>The codecs at their widths\<close>

definition u16_to_le :: "u16 \<Rightarrow> bytes" where "u16_to_le w = nat_to_le 2 (unat w)"
definition u32_to_le :: "u32 \<Rightarrow> bytes" where "u32_to_le w = nat_to_le 4 (unat w)"
definition u64_to_le :: "u64 \<Rightarrow> bytes" where "u64_to_le w = nat_to_le 8 (unat w)"
definition u64_to_be :: "u64 \<Rightarrow> bytes" where "u64_to_be w = nat_to_be 8 (unat w)"

definition u16_from_le :: "bytes \<Rightarrow> u16" where "u16_from_le bs = of_nat (le_to_nat bs)"
definition u32_from_le :: "bytes \<Rightarrow> u32" where "u32_from_le bs = of_nat (le_to_nat bs)"
definition u64_from_le :: "bytes \<Rightarrow> u64" where "u64_from_le bs = of_nat (le_to_nat bs)"
definition u64_from_be :: "bytes \<Rightarrow> u64" where "u64_from_be bs = of_nat (be_to_nat bs)"

lemma unat_u16_bound: "unat (w :: u16) < 256 ^ 2"
  using unsigned_less [of w, where ?'a = nat] by simp

lemma unat_u32_bound: "unat (w :: u32) < 256 ^ 4"
  using unsigned_less [of w, where ?'a = nat] by simp

lemma unat_u64_bound: "unat (w :: u64) < 256 ^ 8"
  using unsigned_less [of w, where ?'a = nat] by simp

lemma unat_u64_lt [simp]: "unat (w :: u64) < 18446744073709551616"
  using unat_u64_bound [of w] by simp

lemma u16_codec [simp, codec_simps]: "u16_from_le (u16_to_le w) = w"
  using unat_u16_bound [of w] by (simp add: u16_from_le_def u16_to_le_def le_to_nat_nat_to_le)

lemma u32_codec [simp, codec_simps]: "u32_from_le (u32_to_le w) = w"
  using unat_u32_bound [of w] by (simp add: u32_from_le_def u32_to_le_def le_to_nat_nat_to_le)

lemma u64_codec [simp, codec_simps]: "u64_from_le (u64_to_le w) = w"
  using unat_u64_bound [of w] by (simp add: u64_from_le_def u64_to_le_def le_to_nat_nat_to_le)

lemma u64_be_codec [simp, codec_simps]: "u64_from_be (u64_to_be w) = w"
  using unat_u64_bound [of w] by (simp add: u64_from_be_def u64_to_be_def be_to_nat_nat_to_be)

lemma u64_le_codec_inv [codec_simps]: "length bs = 8 \<Longrightarrow> u64_to_le (u64_from_le bs) = bs"
  using le_to_nat_bound [of bs]
  by (simp add: u64_from_le_def u64_to_le_def unat_of_nat nat_to_le_le_to_nat)

lemma u64_be_codec_inv [codec_simps]: "length bs = 8 \<Longrightarrow> u64_to_be (u64_from_be bs) = bs"
  using be_to_nat_bound [of bs]
  by (simp add: u64_from_be_def u64_to_be_def unat_of_nat nat_to_be_be_to_nat)

lemma codec_lengths [simp, codec_simps]:
  "length (u16_to_le a) = 2" "length (u32_to_le b) = 4"
  "length (u64_to_le c) = 8" "length (u64_to_be d) = 8"
  by (simp_all add: u16_to_le_def u32_to_le_def u64_to_le_def u64_to_be_def)

lemma u64_to_be_less_iff: "u64_to_be a < u64_to_be b \<longleftrightarrow> a < b"
  using nat_to_be_less_iff [OF unat_u64_bound unat_u64_bound, of a b]
  by (simp add: u64_to_be_def word_less_nat_alt)

lemma u64_to_be_eq_iff [simp]: "u64_to_be a = u64_to_be b \<longleftrightarrow> a = b"
  by (metis u64_be_codec)

lemma u64_to_le_eq_iff [simp]: "u64_to_le a = u64_to_le b \<longleftrightarrow> a = b"
  by (metis u64_codec)

lemma unat_of_nat_u16: "n < 65536 \<Longrightarrow> unat (of_nat n :: u16) = n"
  by (simp add: unat_of_nat)

lemma unat_of_nat_u32: "n < 4294967296 \<Longrightarrow> unat (of_nat n :: u32) = n"
  by (simp add: unat_of_nat)

lemma unat_of_nat_u64: "n < 18446744073709551616 \<Longrightarrow> unat (of_nat n :: u64) = n"
  by (simp add: unat_of_nat)

text \<open>\<open>u16::try_from\<close> and \<open>u32::try_from\<close> of a \<open>usize\<close>.\<close>

definition u16_try_from :: "nat \<Rightarrow> u16 option" where
  "u16_try_from n = (if n < 65536 then Some (of_nat n) else None)"

definition u32_try_from :: "nat \<Rightarrow> u32 option" where
  "u32_try_from n = (if n < 4294967296 then Some (of_nat n) else None)"

section \<open>Decimal formatting\<close>

definition digit_char :: "nat \<Rightarrow> char" where
  "digit_char d = char_of (48 + d)"

fun show_nat :: "nat \<Rightarrow> string" where
  "show_nat n = (if n < 10 then [digit_char n] else show_nat (n div 10) @ [digit_char (n mod 10)])"

declare show_nat.simps [simp del]

section \<open>ASCII case folding of bytes\<close>

text \<open>\<open>u8::is_ascii_uppercase\<close> and \<open>u8::to_ascii_lowercase\<close>.\<close>

definition is_ascii_uppercase :: "u8 \<Rightarrow> bool" where
  "is_ascii_uppercase b \<longleftrightarrow> 65 \<le> b \<and> b \<le> 90"

definition to_ascii_lowercase :: "u8 \<Rightarrow> u8" where
  "to_ascii_lowercase b = (if is_ascii_uppercase b then b + 32 else b)"

lemma to_ascii_lowercase_small [simp]: "b < 65 \<Longrightarrow> to_ascii_lowercase b = b"
  by (auto simp: to_ascii_lowercase_def is_ascii_uppercase_def)

lemma unat_to_ascii_lowercase:
  "unat (to_ascii_lowercase b) = (if 65 \<le> unat b \<and> unat b \<le> 90 then unat b + 32 else unat b)"
  by (auto simp: to_ascii_lowercase_def is_ascii_uppercase_def word_le_nat_alt unat_word_ariths)

lemma to_ascii_lowercase_idem [simp]: "to_ascii_lowercase (to_ascii_lowercase b) = to_ascii_lowercase b"
  by (simp add: word_unat_eq_iff unat_to_ascii_lowercase)

lemma to_ascii_lowercase_eq_small: "unat c < 65 \<Longrightarrow> to_ascii_lowercase b = c \<longleftrightarrow> b = c"
  by (auto simp: word_unat_eq_iff unat_to_ascii_lowercase)

text \<open>The bytes of an ASCII string literal \<open>b"..."\<close>.\<close>

definition ascii :: "string \<Rightarrow> bytes" where
  "ascii s = map (\<lambda>c. of_nat (of_char c)) s"

end
