(* ===== verification/Checksum.thy ===== *)
theory Checksum
  imports Byte_Codec
begin

text \<open>
  The checksum every on-disk structure carries
  (\<^verbatim>\<open>src/crates/inlaysql-core/src/checksum.rs\<close>): FNV-1a over 64 bits. It is asked to detect
  torn writes, never to resist an attacker; what it does guarantee is proved here: each
  round is a bijection of the running hash, so two byte strings of the same length that
  differ in exactly one position never collide.
\<close>

unbundle bit_operations_syntax

definition fnv_offset :: u64 where "fnv_offset = 0xcbf29ce484222325"
definition fnv_prime :: u64 where "fnv_prime = 0x00000100000001B3"

text \<open>The loop body and the loop.\<close>

definition fnv_step :: "u8 \<Rightarrow> u64 \<Rightarrow> u64" where
  "fnv_step b hash = (hash XOR ucast b) * fnv_prime"

definition fnv1a :: "bytes \<Rightarrow> u64" where
  "fnv1a bs = fold fnv_step bs fnv_offset"

text \<open>The inverse of the odd multiplier modulo \<open>2 ^ 64\<close>, which makes every round invertible.\<close>

definition fnv_prime_inv :: u64 where "fnv_prime_inv = 0xce965057aff6957b"

lemma fnv_prime_inverse: "fnv_prime * fnv_prime_inv = 1"
  by (simp add: fnv_prime_def fnv_prime_inv_def)

lemma fnv_prime_cancel: "a * fnv_prime = b * fnv_prime \<Longrightarrow> a = b"
proof -
  assume "a * fnv_prime = b * fnv_prime"
  then have "a * (fnv_prime * fnv_prime_inv) = b * (fnv_prime * fnv_prime_inv)"
    by (simp only: mult.assoc [symmetric])
  then show ?thesis by (simp only: fnv_prime_inverse mult_1_right)
qed

lemma xor_u64_cancel: "(a :: u64) XOR c = b XOR c \<Longrightarrow> a = b"
proof -
  assume "a XOR c = b XOR c"
  then have "(a XOR c) XOR c = (b XOR c) XOR c" by simp
  then show ?thesis by (simp add: xor.assoc)
qed

lemma fnv_step_inj_hash: "fnv_step b h = fnv_step b h' \<Longrightarrow> h = h'"
  unfolding fnv_step_def by (drule fnv_prime_cancel) (rule xor_u64_cancel)

lemma ucast_u8_u64_inj: "(ucast (a :: u8) :: u64) = ucast b \<Longrightarrow> a = b"
proof -
  assume "(ucast a :: u64) = ucast b"
  then have "(ucast (ucast a :: u64) :: u8) = ucast (ucast b :: u64)" by simp
  then show ?thesis by (simp add: ucast_up_ucast_id is_up)
qed

lemma fnv_step_inj_byte: "fnv_step b h = fnv_step b' h \<Longrightarrow> b = b'"
  unfolding fnv_step_def
  by (drule fnv_prime_cancel, rule ucast_u8_u64_inj, rule xor_u64_cancel [of _ h])
    (simp add: xor.commute)

lemma fold_fnv_inj: "fold fnv_step bs h = fold fnv_step bs h' \<Longrightarrow> h = h'"
  by (induction bs arbitrary: h h') (auto dest: fnv_step_inj_hash)

lemma fnv1a_append: "fnv1a (xs @ ys) = fold fnv_step ys (fnv1a xs)"
  by (simp add: fnv1a_def)

lemma fnv1a_single_byte: "b \<noteq> b' \<Longrightarrow> fnv1a (xs @ b # ys) \<noteq> fnv1a (xs @ b' # ys)"
  using fold_fnv_inj fnv_step_inj_byte by (fastforce simp: fnv1a_append)

end
