(* ===== verification/Key_Cmp.thy ===== *)
theory Key_Cmp
  imports Byte_Codec
begin

text \<open>
  The key comparison of the B-tree (\<open>key_cmp\<close>, \<open>word_cmp\<close>, \<open>word_at\<close> of
  \<^verbatim>\<open>src/crates/inlaysql-core/src/btree/page.rs\<close>): eight bytes at a time as big-endian
  words, an overlapping last word, a byte loop for short keys, and \<open>memcmp\<close> past
  \<open>INLINE_CMP_LIMIT\<close>. The claim its comment makes, that it is identical in verdict to
  \<open>Ord\<close> on every pair of inputs, is \<open>key_cmp_eq_cmp\<close>; it also says the comparison never
  reads out of bounds.
\<close>

section \<open>Lexicographic order and common prefixes\<close>

lemma append_less_same [simp]: "(xs @ ys < xs @ (zs :: 'a::linorder list)) \<longleftrightarrow> ys < zs"
  by (induction xs) auto

lemma append_less_decided:
  "length p = length q \<Longrightarrow> p \<noteq> q \<Longrightarrow> (p @ r < q @ (s :: 'a::linorder list)) \<longleftrightarrow> p < q"
  by (induction p q rule: list_induct2) auto

lemma cmp_append_same [simp]: "cmp (xs @ ys) (xs @ zs) = cmp ys zs"
  by (simp add: cmp_def)

lemma cmp_append_decided:
  assumes "length p = length q" "p \<noteq> q"
  shows "cmp (p @ r) (q @ s) = cmp p q"
  using append_less_decided [OF assms, of r s] assms by (simp add: cmp_def)

lemma cmp_slice_decides:
  assumes pre: "take i a = take i b" and ij: "i \<le> j" "j \<le> length a" "j \<le> length b"
    and diff: "slice i j a \<noteq> slice i j b"
  shows "cmp a b = cmp (slice i j a) (slice i j b)"
proof -
  have split: "xs = take i xs @ slice i j xs @ drop j xs" if "j \<le> length xs" for xs :: "'a list"
    using that ij(1) by (metis append_take_drop_id drop_drop le_add_diff_inverse2 slice_def)
  have "cmp a b = cmp (take i a @ slice i j a @ drop j a) (take i b @ slice i j b @ drop j b)"
    using split [OF ij(2)] split [OF ij(3)] by simp
  also have "\<dots> = cmp (slice i j a) (slice i j b)"
    using diff ij by (simp add: pre cmp_append_decided)
  finally show ?thesis .
qed

lemma cmp_Cons_same [simp]: "cmp (x # a) (x # b) = cmp a b"
  by (simp add: cmp_def)

lemma cmp_Suc [simp]: "cmp (Suc m) (Suc n) = cmp m n"
  by (simp add: cmp_def)

lemma cmp_prefix:
  "take (min (length a) (length b)) a = take (min (length a) (length b)) b \<Longrightarrow>
   cmp a b = cmp (length a) (length b)"
proof (induction a arbitrary: b)
  case Nil
  then show ?case by (cases b) (auto simp: cmp_def)
next
  case (Cons x a)
  show ?case
  proof (cases b)
    case Nil
    then show ?thesis by (simp add: cmp_def)
  next
    case (Cons y b')
    with Cons.prems have "x = y" and "cmp a b' = cmp (length a) (length b')"
      by (auto intro: Cons.IH)
    with Cons show ?thesis by simp
  qed
qed

lemma take_slice_extend:
  assumes "take i a = take i b" "slice i j a = slice i j b" "i \<le> j"
  shows "take j a = take j b"
proof -
  have "take j xs = take i xs @ slice i j xs" for xs :: "'a list"
    using assms(3) by (metis le_add_diff_inverse slice_def take_add)
  then show ?thesis using assms by simp
qed

section \<open>The comparison\<close>

definition inline_cmp_limit :: nat where "inline_cmp_limit = 128"

definition word_at :: "bytes \<Rightarrow> nat \<Rightarrow> u64 result" where
  "word_at s at = rbind (index_range s at (at + 8)) (\<lambda>w. Ok (u64_from_be w))"

text \<open>The word loop of \<open>word_cmp\<close>: a verdict, or the offset where it stopped.\<close>

function word_cmp_words :: "bytes \<Rightarrow> bytes \<Rightarrow> nat \<Rightarrow> nat \<Rightarrow> (ordering + nat) result" where
  "word_cmp_words a b n i =
     (if i + 8 \<le> n
      then rbind (word_at a i) (\<lambda>x. rbind (word_at b i) (\<lambda>y.
             if x \<noteq> y then Ok (Inl (cmp x y)) else word_cmp_words a b n (i + 8)))
      else Ok (Inr i))"
  by pat_completeness auto
termination
  by (relation "measure (\<lambda>(a, b, n, i). n - i)") auto

text \<open>The byte loop, for keys with fewer than eight bytes in common.\<close>

function word_cmp_bytes :: "bytes \<Rightarrow> bytes \<Rightarrow> nat \<Rightarrow> nat \<Rightarrow> ordering option result" where
  "word_cmp_bytes a b n i =
     (if i < n
      then rbind (index_at a i) (\<lambda>x. rbind (index_at b i) (\<lambda>y.
             if x \<noteq> y then Ok (Some (cmp x y)) else word_cmp_bytes a b n (i + 1)))
      else Ok None)"
  by pat_completeness auto
termination
  by (relation "measure (\<lambda>(a, b, n, i). n - i)") auto

declare word_cmp_words.simps [simp del] word_cmp_bytes.simps [simp del]

definition word_cmp :: "bytes \<Rightarrow> bytes \<Rightarrow> nat \<Rightarrow> ordering option result" where
  "word_cmp a b n = rbind (word_cmp_words a b n 0) (\<lambda>r. case r of
     Inl d \<Rightarrow> Ok (Some d)
   | Inr i \<Rightarrow>
       if i < n
       then if 8 \<le> n
            then rbind (word_at a (n - 8)) (\<lambda>x. rbind (word_at b (n - 8)) (\<lambda>y.
                   if x \<noteq> y then Ok (Some (cmp x y)) else Ok None))
            else word_cmp_bytes a b n i
       else Ok None)"

definition key_cmp :: "bytes \<Rightarrow> bytes \<Rightarrow> ordering result" where
  "key_cmp a b =
     (let n = min (length a) (length b) in
      if n > inline_cmp_limit then Ok (cmp a b)
      else rbind (word_cmp a b n) (\<lambda>decided. case decided of
             Some d \<Rightarrow> Ok d
           | None \<Rightarrow> Ok (cmp (length a) (length b))))"

section \<open>Verdicts of the loops\<close>

lemma word_at_in: "i + 8 \<le> length s \<Longrightarrow> word_at s i = Ok (u64_from_be (slice i (i + 8) s))"
  by (simp add: word_at_def slice_simps)

lemma u64_from_be_cmp:
  assumes "length x = 8" "length y = 8"
  shows "cmp (u64_from_be x) (u64_from_be y) = cmp x y"
  using assms u64_to_be_less_iff [of "u64_from_be x" "u64_from_be y"]
  by (auto simp: cmp_def codec_simps) (metis u64_be_codec_inv)

lemma u64_from_be_eq_iff: "length x = 8 \<Longrightarrow> length y = 8 \<Longrightarrow> u64_from_be x = u64_from_be y \<longleftrightarrow> x = y"
  by (metis u64_be_codec_inv)

definition decided_by :: "bytes \<Rightarrow> bytes \<Rightarrow> nat \<Rightarrow> ordering option \<Rightarrow> bool" where
  "decided_by a b n d \<longleftrightarrow>
     (case d of Some v \<Rightarrow> v = cmp a b | None \<Rightarrow> take n a = take n b)"

lemma word_verdict:
  assumes "take i a = take i b" "i + 8 \<le> length a" "i + 8 \<le> length b"
    and "slice i (i + 8) a \<noteq> slice i (i + 8) b"
  shows "cmp (u64_from_be (slice i (i + 8) a)) (u64_from_be (slice i (i + 8) b)) = cmp a b"
  using assms cmp_slice_decides [of i a b "i + 8"] by (simp add: u64_from_be_cmp)

lemma word_cmp_words_spec:
  assumes "n \<le> length a" "n \<le> length b" "take i a = take i b" "i \<le> n"
  shows "\<exists>r. word_cmp_words a b n i = Ok r \<and>
           (case r of Inl d \<Rightarrow> d = cmp a b
            | Inr j \<Rightarrow> i \<le> j \<and> j \<le> n \<and> n < j + 8 \<and> take j a = take j b)"
  using assms
proof (induction a b n i rule: word_cmp_words.induct)
  case (1 a b n i)
  show ?case
  proof (cases "i + 8 \<le> n")
    case True
    then have at: "word_at a i = Ok (u64_from_be (slice i (i + 8) a))"
      "word_at b i = Ok (u64_from_be (slice i (i + 8) b))"
      using "1.prems" by (simp_all add: word_at_in)
    show ?thesis
    proof (cases "slice i (i + 8) a = slice i (i + 8) b")
      case same: True
      then have "take (i + 8) a = take (i + 8) b"
        by (rule take_slice_extend [OF "1.prems"(3)]) (rule le_add1)
      then have "\<exists>r. word_cmp_words a b n (i + 8) = Ok r \<and>
           (case r of Inl d \<Rightarrow> d = cmp a b
            | Inr j \<Rightarrow> i + 8 \<le> j \<and> j \<le> n \<and> n < j + 8 \<and> take j a = take j b)"
        by (intro "1.IH" [OF True at]) (use same "1.prems" True in auto)
      then show ?thesis
        using True at same by (auto simp: word_cmp_words.simps [of a b n i] split: sum.splits)
    next
      case diff: False
      then show ?thesis
        using True at word_verdict [of i a b] "1.prems"
        by (simp add: word_cmp_words.simps [of a b n i] u64_from_be_eq_iff)
    qed
  next
    case False
    then show ?thesis using "1.prems" by (simp add: word_cmp_words.simps [of a b n i])
  qed
qed

lemma word_cmp_bytes_spec:
  assumes "n \<le> length a" "n \<le> length b" "take i a = take i b" "i \<le> n"
  shows "\<exists>d. word_cmp_bytes a b n i = Ok d \<and> decided_by a b n d"
  using assms
proof (induction a b n i rule: word_cmp_bytes.induct)
  case (1 a b n i)
  show ?case
  proof (cases "i < n")
    case True
    then have at: "index_at a i = Ok (a ! i)" "index_at b i = Ok (b ! i)"
      using "1.prems" by (simp_all add: slice_simps)
    show ?thesis
    proof (cases "a ! i = b ! i")
      case same: True
      then have "slice i (Suc i) a = slice i (Suc i) b"
        using "1.prems" True by (simp add: slice_one)
      with "1.prems"(3) have "take (Suc i) a = take (Suc i) b"
        by (rule take_slice_extend) simp
      then have "\<exists>d. word_cmp_bytes a b n (i + 1) = Ok d \<and> decided_by a b n d"
        by (intro "1.IH" [OF True at]) (use same "1.prems" True in auto)
      then show ?thesis
        using True at same by (simp add: word_cmp_bytes.simps [of a b n i])
    next
      case diff: False
      then have "cmp (a ! i) (b ! i) = cmp a b"
        using cmp_slice_decides [of i a b "Suc i"] "1.prems" True
        by (simp add: slice_one) (simp add: cmp_def)
      then show ?thesis
        using True at diff
        by (simp add: word_cmp_bytes.simps [of a b n i] decided_by_def)
    qed
  next
    case False
    then show ?thesis
      using "1.prems" by (subst word_cmp_bytes.simps) (simp add: decided_by_def)
  qed
qed

lemma word_cmp_spec:
  assumes n: "n \<le> length a" "n \<le> length b"
  shows "\<exists>d. word_cmp a b n = Ok d \<and> decided_by a b n d"
proof -
  obtain r where r: "word_cmp_words a b n 0 = Ok r"
    and spec: "case r of Inl d \<Rightarrow> d = cmp a b
       | Inr j \<Rightarrow> 0 \<le> j \<and> j \<le> n \<and> n < j + 8 \<and> take j a = take j b"
    using word_cmp_words_spec [of n a b 0] n by auto
  show ?thesis
  proof (cases r)
    case (Inl d)
    then show ?thesis using r spec by (simp add: word_cmp_def decided_by_def)
  next
    case (Inr j)
    with spec have j: "j \<le> n" "n < j + 8" "take j a = take j b" by auto
    consider "j = n" | "j < n" "n < 8" | "j < n" "8 \<le> n" using j(1) by linarith
    then show ?thesis
    proof cases
      case 1
      then show ?thesis using r Inr j by (simp add: word_cmp_def decided_by_def)
    next
      case 2
      then show ?thesis
        using r Inr word_cmp_bytes_spec [OF n j(3,1)] by (simp add: word_cmp_def)
    next
      case 3
      then have pre: "take (n - 8) a = take (n - 8) b"
        using j by (metis min.absorb1 take_take less_diff_conv2 less_imp_le)
      have at: "word_at a (n - 8) = Ok (u64_from_be (slice (n - 8) n a))"
        "word_at b (n - 8) = Ok (u64_from_be (slice (n - 8) n b))"
        using 3 n word_at_in [of "n - 8"] by simp_all
      show ?thesis
      proof (cases "slice (n - 8) n a = slice (n - 8) n b")
        case True
        then have "take n a = take n b" using pre by (rule_tac take_slice_extend) auto
        then show ?thesis using True r Inr 3 at by (simp add: word_cmp_def decided_by_def)
      next
        case False
        then show ?thesis
          using r Inr 3 at n word_verdict [of "n - 8" a b] pre
          by (simp add: word_cmp_def decided_by_def u64_from_be_eq_iff)
      qed
    qed
  qed
qed

lemma key_cmp_eq_cmp: "key_cmp a b = Ok (cmp a b)"
proof (cases "min (length a) (length b) > inline_cmp_limit")
  case True
  then show ?thesis by (simp add: key_cmp_def)
next
  case False
  obtain d where "word_cmp a b (min (length a) (length b)) = Ok d"
    and "decided_by a b (min (length a) (length b)) d"
    using word_cmp_spec [of "min (length a) (length b)" a b] by auto
  then show ?thesis
    using False cmp_prefix [of a b]
    by (cases d) (simp_all add: key_cmp_def decided_by_def)
qed

section \<open>Properties\<close>

text \<open>
  comparing two keys a machine word at a time, with the call-free path for short keys,
  gives the byte-lexicographic order of the keys and never reads out of bounds.
\<close>

theorem key_cmp_lexicographic: "key_cmp a b = Ok (cmp a b)"
  by (rule key_cmp_eq_cmp)

end
