(* ===== verification/Page.thy ===== *)
theory Page
  imports Key_Cmp
begin

text \<open>
  The on-page layout of the copy-on-write B-tree
  (\<^verbatim>\<open>src/crates/inlaysql-core/src/btree/page.rs\<close>): header, slot directory growing forward,
  cells packed backwards from the end of the page. Leaf cells hold a key and an inline value
  or an overflow pointer, internal cells a separator key and a child page, overflow pages one
  slice of a long value. Modelled here: the node types with their borrowed and owned keys,
  the size functions and split points, the page writer and the two encoders, the decoder and
  the raw leaf scan with every corruption check, overflow pages, and the two binary searches.
  \<open>Page_Codec\<close> proves that decoding inverts encoding.

  A borrowed key or value is a byte range into the page buffer; \<open>&source[range]\<close> panics when
  the range does not fit, which the model keeps as \<open>Panic\<close>. \<open>key_ok\<close> and \<open>value_ok\<close>
  say that a range is inside its buffer; every decoded entry satisfies them.
\<close>

section \<open>Layout constants and node types\<close>

type_synonym page_id = u64

definition min_page_size :: nat where "min_page_size = 64"

definition off_kind :: nat where "off_kind = 0"
definition off_cell_count :: nat where "off_cell_count = 2"
definition off_free_start :: nat where "off_free_start = 4"
definition off_leftmost :: nat where "off_leftmost = 8"
definition header_size :: nat where "header_size = 16"
definition slot_size :: nat where "slot_size = 2"
definition value_inline :: u8 where "value_inline = 0"
definition value_overflow :: u8 where "value_overflow = 1"
definition off_overflow_next :: nat where "off_overflow_next = 1"
definition overflow_header_size :: nat where "overflow_header_size = 9"
definition kind_leaf :: u8 where "kind_leaf = 0"
definition kind_internal :: u8 where "kind_internal = 1"
definition kind_overflow :: u8 where "kind_overflow = 2"

lemmas page_consts = off_kind_def off_cell_count_def off_free_start_def off_leftmost_def
  header_size_def slot_size_def value_inline_def value_overflow_def off_overflow_next_def
  overflow_header_size_def kind_leaf_def kind_internal_def kind_overflow_def

text \<open>A range \<open>start..end\<close> is its two bounds.\<close>

datatype value_ref = Inline nat nat | Owned_Value bytes | Overflow page_id nat

datatype key = Borrowed nat nat | Owned_Key bytes

record entry =
  ekey :: key
  evalue :: value_ref

record separator =
  skey :: key
  schild :: page_id

datatype node = Leaf bytes "entry list" | Internal bytes page_id "separator list"

fun node_bytes :: "node \<Rightarrow> bytes" where
  "node_bytes (Leaf bs es) = bs"
| "node_bytes (Internal bs l cs) = bs"

definition inline_bytes :: "value_ref \<Rightarrow> bytes \<Rightarrow> bytes option result" where
  "inline_bytes v source = (case v of
     Inline a b \<Rightarrow> rbind (index_range source a b) (\<lambda>s. Ok (Some s))
   | Owned_Value x \<Rightarrow> Ok (Some x)
   | Overflow p n \<Rightarrow> Ok None)"

definition inline_len :: "value_ref \<Rightarrow> nat" where
  "inline_len v = (case v of Inline a b \<Rightarrow> b - a | Owned_Value x \<Rightarrow> length x | Overflow p n \<Rightarrow> 0)"

definition key_bytes :: "bytes \<Rightarrow> key \<Rightarrow> bytes result" where
  "key_bytes source k = (case k of Borrowed a b \<Rightarrow> index_range source a b | Owned_Key x \<Rightarrow> Ok x)"

section \<open>Sizes and split points\<close>

definition leaf_cell_size :: "bytes \<Rightarrow> value_ref \<Rightarrow> nat" where
  "leaf_cell_size k v = 2 + length k + 1 +
     (case v of Overflow p n \<Rightarrow> 16 | _ \<Rightarrow> 4 + inline_len v)"

definition internal_cell_size :: "bytes \<Rightarrow> nat" where
  "internal_cell_size k = 2 + length k + 8"

definition entry_size :: "bytes \<Rightarrow> entry \<Rightarrow> nat result" where
  "entry_size source e = rbind (key_bytes source (ekey e)) (\<lambda>k. Ok (leaf_cell_size k (evalue e)))"

definition separator_size :: "bytes \<Rightarrow> separator \<Rightarrow> nat result" where
  "separator_size source c = rbind (key_bytes source (skey c)) (\<lambda>k. Ok (internal_cell_size k))"

definition cells_size :: "('c \<Rightarrow> nat result) \<Rightarrow> 'c list \<Rightarrow> nat result" where
  "cells_size cell_size cells = rbind (rmapM cell_size cells)
     (\<lambda>ss. Ok (header_size + slot_size * length cells + sum_list ss))"

definition leaf_size :: "bytes \<Rightarrow> entry list \<Rightarrow> nat result" where
  "leaf_size source entries = cells_size (entry_size source) entries"

definition internal_size :: "bytes \<Rightarrow> separator list \<Rightarrow> nat result" where
  "internal_size source cells = cells_size (separator_size source) cells"

definition inline_entry_fits :: "nat \<Rightarrow> bytes \<Rightarrow> bytes \<Rightarrow> bool" where
  "inline_entry_fits page_size k v \<longleftrightarrow>
     header_size + slot_size + leaf_cell_size k (Owned_Value v) \<le> page_size div 2"

text \<open>The loop of \<open>split_point\<close> over \<open>cells[..len - 1]\<close>.\<close>

fun split_loop :: "nat \<Rightarrow> ('c \<Rightarrow> nat result) \<Rightarrow> nat \<Rightarrow> nat \<Rightarrow> 'c list \<Rightarrow> nat result" where
  "split_loop page_size cell_size sz split [] = Ok split"
| "split_loop page_size cell_size sz split (c # cs) =
     rbind (cell_size c) (\<lambda>n.
       let sz' = sz + (slot_size + n) in
       if sz' > page_size then Ok split
       else split_loop page_size cell_size sz' (split + 1) cs)"

definition split_point :: "nat \<Rightarrow> 'c list \<Rightarrow> ('c \<Rightarrow> nat result) \<Rightarrow> nat result" where
  "split_point page_size cells cell_size =
     split_loop page_size cell_size header_size 0 (take (length cells - 1) cells)"

definition leaf_split_point :: "bytes \<Rightarrow> entry list \<Rightarrow> nat \<Rightarrow> nat result" where
  "leaf_split_point source entries page_size = split_point page_size entries (entry_size source)"

definition internal_split_point :: "bytes \<Rightarrow> separator list \<Rightarrow> nat \<Rightarrow> nat result" where
  "internal_split_point source cells page_size = split_point page_size cells (separator_size source)"

section \<open>The page writer and the encoders\<close>

definition write_u16 :: "nat \<Rightarrow> bytes result" where
  "write_u16 n = (case u16_try_from n of
     Some w \<Rightarrow> Ok (u16_to_le w) | None \<Rightarrow> Err (Corrupt ''value exceeds u16''))"

record page_writer =
  pw_buf :: bytes
  cell_cursor :: nat
  slot_cursor :: nat

text \<open>A cell writer borrows exactly its own bytes of the page: \<open>cw_buf\<close> is that sub-slice.\<close>

record cell_writer =
  cw_buf :: bytes
  cw_at :: nat

definition page_writer_new :: "nat \<Rightarrow> u8 \<Rightarrow> page_id \<Rightarrow> nat \<Rightarrow> nat \<Rightarrow> page_writer result" where
  "page_writer_new page_size kind leftmost count total_len =
     (if total_len > page_size
      then Err (Storage (''node needs '' @ show_nat total_len @ '' bytes, page holds '' @ show_nat page_size))
      else rbind (copy_at (replicate page_size 0) off_kind [kind]) (\<lambda>b1.
           rbind (index_range b1 off_cell_count (off_cell_count + 2)) (\<lambda>_.
           rbind (write_u16 count) (\<lambda>w.
           rbind (copy_at b1 off_cell_count w) (\<lambda>b2.
           rbind (copy_at b2 off_leftmost (u64_to_le leftmost)) (\<lambda>b3.
           Ok \<lparr>pw_buf = b3, cell_cursor = page_size, slot_cursor = header_size\<rparr>))))))"

definition page_writer_cell :: "page_writer \<Rightarrow> nat \<Rightarrow> (page_writer \<times> cell_writer) result" where
  "page_writer_cell w sz =
     (if cell_cursor w < sz then Panic
      else let cc = cell_cursor w - sz in
           rbind (index_range (pw_buf w) (slot_cursor w) (slot_cursor w + slot_size)) (\<lambda>_.
           rbind (write_u16 cc) (\<lambda>s.
           rbind (copy_at (pw_buf w) (slot_cursor w) s) (\<lambda>b.
           rbind (index_range b cc (cc + sz)) (\<lambda>cell.
           Ok (\<lparr>pw_buf = b, cell_cursor = cc, slot_cursor = slot_cursor w + slot_size\<rparr>,
               \<lparr>cw_buf = cell, cw_at = 0\<rparr>))))))"

definition page_writer_finish :: "page_writer \<Rightarrow> bytes result" where
  "page_writer_finish w =
     rbind (index_range (pw_buf w) off_free_start (off_free_start + 2)) (\<lambda>_.
     rbind (write_u16 (cell_cursor w)) (\<lambda>s. copy_at (pw_buf w) off_free_start s))"

definition cell_bytes :: "cell_writer \<Rightarrow> bytes \<Rightarrow> cell_writer result" where
  "cell_bytes c bs = rbind (copy_at (cw_buf c) (cw_at c) bs)
     (\<lambda>b. Ok \<lparr>cw_buf = b, cw_at = cw_at c + length bs\<rparr>)"

definition cell_u8 :: "cell_writer \<Rightarrow> u8 \<Rightarrow> cell_writer result" where
  "cell_u8 c v = cell_bytes c [v]"

definition cell_u16 :: "cell_writer \<Rightarrow> nat \<Rightarrow> cell_writer result" where
  "cell_u16 c n = (case u16_try_from n of
     Some w \<Rightarrow> cell_bytes c (u16_to_le w) | None \<Rightarrow> Err (Corrupt ''value exceeds u16''))"

definition cell_u32 :: "cell_writer \<Rightarrow> nat \<Rightarrow> cell_writer result" where
  "cell_u32 c n = (case u32_try_from n of
     Some w \<Rightarrow> cell_bytes c (u32_to_le w) | None \<Rightarrow> Err (Corrupt ''value exceeds u32''))"

definition cell_u64 :: "cell_writer \<Rightarrow> u64 \<Rightarrow> cell_writer result" where
  "cell_u64 c v = cell_bytes c (u64_to_le v)"

text \<open>
  The end of a cell's scope: the \<open>debug_assert_eq\<close> of \<open>CellWriter::drop\<close>, and the borrowed
  bytes back in the page.
\<close>

definition cell_drop :: "page_writer \<Rightarrow> cell_writer \<Rightarrow> page_writer result" where
  "cell_drop w c = (if cw_at c = length (cw_buf c)
     then rbind (copy_at (pw_buf w) (cell_cursor w) (cw_buf c)) (\<lambda>b. Ok (w\<lparr>pw_buf := b\<rparr>))
     else Panic)"

definition write_leaf_cell :: "bytes \<Rightarrow> bytes \<Rightarrow> value_ref \<Rightarrow> cell_writer \<Rightarrow> cell_writer result" where
  "write_leaf_cell source k v c0 =
     rbind (cell_u16 c0 (length k)) (\<lambda>c1. rbind (cell_bytes c1 k) (\<lambda>c2.
       case v of
         Inline a b \<Rightarrow> rbind (index_range source a b) (\<lambda>x.
           rbind (cell_u8 c2 value_inline) (\<lambda>c3. rbind (cell_u32 c3 (length x)) (\<lambda>c4. cell_bytes c4 x)))
       | Owned_Value x \<Rightarrow>
           rbind (cell_u8 c2 value_inline) (\<lambda>c3. rbind (cell_u32 c3 (length x)) (\<lambda>c4. cell_bytes c4 x))
       | Overflow first len \<Rightarrow>
           rbind (cell_u8 c2 value_overflow) (\<lambda>c3. rbind (cell_u64 c3 first) (\<lambda>c4. cell_u64 c4 (of_nat len)))))"

definition encode_leaf_entry :: "bytes \<Rightarrow> page_writer \<Rightarrow> entry \<Rightarrow> page_writer result" where
  "encode_leaf_entry source w e =
     rbind (key_bytes source (ekey e)) (\<lambda>k.
     rbind (page_writer_cell w (leaf_cell_size k (evalue e))) (\<lambda>(w1, c).
     rbind (write_leaf_cell source k (evalue e) c) (\<lambda>c'. cell_drop w1 c')))"

fun rfold :: "('s \<Rightarrow> 'x \<Rightarrow> 's result) \<Rightarrow> 's \<Rightarrow> 'x list \<Rightarrow> 's result" where
  "rfold f s [] = Ok s"
| "rfold f s (x # xs) = rbind (f s x) (\<lambda>s'. rfold f s' xs)"

definition encode_leaf :: "nat \<Rightarrow> bytes \<Rightarrow> entry list \<Rightarrow> bytes result" where
  "encode_leaf page_size source entries =
     rbind (leaf_size source entries) (\<lambda>total_len.
     rbind (page_writer_new page_size kind_leaf 0 (length entries) total_len) (\<lambda>w0.
     rbind (rfold (encode_leaf_entry source) w0 entries) page_writer_finish))"

text \<open>
  \<open>cell.u16(...).expect(...)\<close> turns the error of an oversized separator key into a panic.
\<close>

definition expect_ok :: "'a result \<Rightarrow> 'a result" where
  "expect_ok r = (case r of Err e \<Rightarrow> Panic | _ \<Rightarrow> r)"

definition encode_internal_cell :: "bytes \<Rightarrow> page_writer \<Rightarrow> separator \<Rightarrow> page_writer result" where
  "encode_internal_cell source w s =
     rbind (key_bytes source (skey s)) (\<lambda>k.
     rbind (page_writer_cell w (internal_cell_size k)) (\<lambda>(w1, c0).
     rbind (expect_ok (cell_u16 c0 (length k))) (\<lambda>c1.
     rbind (cell_bytes c1 k) (\<lambda>c2.
     rbind (cell_u64 c2 (schild s)) (\<lambda>c3. cell_drop w1 c3)))))"

definition encode_internal :: "nat \<Rightarrow> bytes \<Rightarrow> page_id \<Rightarrow> separator list \<Rightarrow> bytes result" where
  "encode_internal page_size source leftmost cells =
     rbind (internal_size source cells) (\<lambda>total_len.
     rbind (page_writer_new page_size kind_internal leftmost (length cells) total_len) (\<lambda>w0.
     rbind (rfold (encode_internal_cell source) w0 cells) page_writer_finish))"

section \<open>The decoder\<close>

definition get_u16 :: "bytes \<Rightarrow> nat \<Rightarrow> u16 result" where
  "get_u16 bs offset = rbind (ok_or (get_range bs offset (offset + 2)) (Corrupt ''short read for u16''))
     (\<lambda>s. Ok (u16_from_le s))"

definition get_u64 :: "bytes \<Rightarrow> nat \<Rightarrow> u64 result" where
  "get_u64 bs offset = rbind (ok_or (get_range bs offset (offset + 8)) (Corrupt ''short read for u64''))
     (\<lambda>s. Ok (u64_from_le s))"

definition parse_leaf_cell :: "bytes \<Rightarrow> nat \<Rightarrow> ((nat \<times> nat) \<times> value_ref) result" where
  "parse_leaf_cell bs slot =
     (case get_range bs slot (slot + 2) of
        None \<Rightarrow> Err (Corrupt ''leaf cell runs past end of page'')
      | Some head \<Rightarrow>
          let key_len = unat (u16_from_le head); key_start = slot + 2; key_end = key_start + key_len in
          (case get_at bs key_end of
             None \<Rightarrow> Err (Corrupt ''leaf key runs past end of page'')
           | Some tag \<Rightarrow>
               if tag = value_inline then
                 (case get_range bs (key_end + 1) (key_end + 5) of
                    None \<Rightarrow> Err (Corrupt ''leaf value length runs past end of page'')
                  | Some len \<Rightarrow>
                      let value_end = key_end + 5 + unat (u32_from_le len) in
                      if value_end > length bs then Err (Corrupt ''leaf value runs past end of page'')
                      else Ok ((key_start, key_end), Inline (key_end + 5) value_end))
               else if tag = value_overflow then
                 (case get_range bs (key_end + 1) (key_end + 17) of
                    None \<Rightarrow> Err (Corrupt ''overflow pointer runs past end of page'')
                  | Some pointer \<Rightarrow>
                      Ok ((key_start, key_end),
                          Overflow (u64_from_le (take 8 pointer)) (unat (u64_from_le (drop 8 pointer)))))
               else Err (Corrupt (''unknown leaf value tag '' @ show_nat (unat tag)))))"

definition leaf_key_at :: "bytes \<Rightarrow> nat \<Rightarrow> bytes result" where
  "leaf_key_at bs at = rbind (get_u16 bs at) (\<lambda>s.
     let slot = unat s in
     (case get_range bs slot (slot + 2) of
        None \<Rightarrow> Err (Corrupt ''leaf cell runs past end of page'')
      | Some head \<Rightarrow>
          let key_len = unat (u16_from_le head) in
          ok_or (get_range bs (slot + 2) (slot + 2 + key_len)) (Corrupt ''leaf key runs past end of page'')))"

definition decode_leaf_cell :: "bytes \<Rightarrow> nat \<Rightarrow> entry result" where
  "decode_leaf_cell bs slot = rbind (parse_leaf_cell bs slot)
     (\<lambda>((a, b), v). Ok \<lparr>ekey = Borrowed a b, evalue = v\<rparr>)"

definition decode_internal_cell :: "bytes \<Rightarrow> nat \<Rightarrow> nat \<Rightarrow> separator result" where
  "decode_internal_cell bs page_size slot =
     (if slot + 2 > page_size then Err (Corrupt ''internal cell runs past end of page'')
      else rbind (get_u16 bs slot) (\<lambda>len.
        let key_end = slot + 2 + unat len in
        if key_end + 8 > page_size then Err (Corrupt ''internal key runs past end of page'')
        else rbind (get_u64 bs key_end) (\<lambda>child.
          Ok \<lparr>skey = Borrowed (slot + 2) key_end, schild = child\<rparr>)))"

text \<open>The length check shared by the decoders, as the source repeats it.\<close>

definition page_len_error :: "bytes \<Rightarrow> nat \<Rightarrow> db_error" where
  "page_len_error bs page_size =
     Corrupt (''page is '' @ show_nat (length bs) @ '' bytes, expected '' @ show_nat page_size)"

definition decode_with :: "nat \<Rightarrow> bytes \<Rightarrow> node result" where
  "decode_with page_size bs =
     (if length bs \<noteq> page_size then Err (page_len_error bs page_size)
      else rbind (index_at bs off_kind) (\<lambda>kind.
        rbind (get_u16 bs off_cell_count) (\<lambda>count16.
        rbind (get_u16 bs off_free_start) (\<lambda>free16.
        rbind (get_u64 bs off_leftmost) (\<lambda>leftmost.
        let count = unat count16; free_start = unat free16 in
        if free_start > page_size then Err (Corrupt ''free start past end of page'')
        else if header_size + slot_size * count > free_start
          then Err (Corrupt ''slot directory overlaps cell area'')
        else rbind (rmapM (\<lambda>i. rbind (get_u16 bs (header_size + slot_size * i)) (\<lambda>s. Ok (unat s))) [0..<count])
          (\<lambda>slots.
            if kind = kind_leaf
              then rbind (rmapM (decode_leaf_cell bs) slots) (\<lambda>entries. Ok (Leaf bs entries))
            else if kind = kind_internal
              then rbind (rmapM (decode_internal_cell bs page_size) slots)
                     (\<lambda>cells. Ok (Internal bs leftmost cells))
            else Err (Corrupt (''unknown node kind '' @ show_nat (unat kind)))))))))"

text \<open>
  \<open>decode\<close> copies the bytes into the node's buffer, \<open>decode_shared\<close> shares them: the same
  node either way.
\<close>

definition decode :: "nat \<Rightarrow> bytes \<Rightarrow> node result" where
  "decode page_size bs = decode_with page_size bs"

definition decode_shared :: "nat \<Rightarrow> bytes \<Rightarrow> node result" where
  "decode_shared page_size bs = decode_with page_size bs"

section \<open>The raw leaf scan\<close>

definition check_leaf_header :: "bytes \<Rightarrow> nat \<Rightarrow> nat result" where
  "check_leaf_header bs page_size =
     (if length bs \<noteq> page_size then Err (page_len_error bs page_size)
      else rbind (get_u16 bs off_cell_count) (\<lambda>count16.
        rbind (get_u16 bs off_free_start) (\<lambda>free16.
        let count = unat count16; free_start = unat free16 in
        if free_start > page_size then Err (Corrupt ''free start past end of page'')
        else if header_size + slot_size * count > free_start
          then Err (Corrupt ''slot directory overlaps cell area'')
        else Ok count)))"

definition leaf_cell_count :: "bytes \<Rightarrow> nat \<Rightarrow> nat result" where
  "leaf_cell_count bs page_size = check_leaf_header bs page_size"

definition leaf_edge_keys :: "bytes \<Rightarrow> nat \<Rightarrow> (bytes \<times> bytes) option result" where
  "leaf_edge_keys bs page_size = rbind (check_leaf_header bs page_size) (\<lambda>count.
     if count = 0 then Ok None
     else rbind (leaf_key_at bs header_size) (\<lambda>first.
          rbind (leaf_key_at bs (header_size + slot_size * (count - 1))) (\<lambda>last.
          Ok (Some (first, last)))))"

definition decode_leaf_cell_ref :: "bytes \<Rightarrow> nat \<Rightarrow> (bytes \<times> value_ref) result" where
  "decode_leaf_cell_ref bs slot = rbind (parse_leaf_cell bs slot)
     (\<lambda>((a, b), v). rbind (index_range bs a b) (\<lambda>k. Ok (k, v)))"

text \<open>\<open>as_chunks::<SLOT_SIZE>().0\<close>: the whole chunks, a trailing remainder dropped.\<close>

fun chunks2 :: "bytes \<Rightarrow> bytes list" where
  "chunks2 (a # b # xs) = [a, b] # chunks2 xs"
| "chunks2 _ = []"

text \<open>The callback \<open>f\<close> threads its own state \<open>st\<close>.\<close>

definition scan_leaf_cells ::
  "bytes \<Rightarrow> nat \<Rightarrow> ('s \<Rightarrow> bytes \<Rightarrow> value_ref \<Rightarrow> 's result) \<Rightarrow> 's \<Rightarrow> 's result" where
  "scan_leaf_cells bs page_size f st = rbind (check_leaf_header bs page_size) (\<lambda>count.
     rbind (index_range bs header_size (header_size + slot_size * count)) (\<lambda>slots.
     rfold (\<lambda>s slot. rbind (decode_leaf_cell_ref bs (unat (u16_from_le slot))) (\<lambda>(k, v). f s k v))
       st (chunks2 slots)))"

section \<open>Overflow pages\<close>

definition overflow_payload_size :: "nat \<Rightarrow> nat" where
  "overflow_payload_size page_size = page_size - overflow_header_size"

definition encode_overflow :: "nat \<Rightarrow> page_id \<Rightarrow> bytes \<Rightarrow> bytes result" where
  "encode_overflow page_size next_page data =
     (if overflow_header_size + length data > page_size
      then Err (Storage (''overflow payload needs '' @ show_nat (overflow_header_size + length data) @
                         '' bytes, page holds '' @ show_nat page_size))
      else rbind (copy_at (replicate page_size 0) off_kind [kind_overflow]) (\<lambda>b1.
           rbind (copy_at b1 off_overflow_next (u64_to_le next_page)) (\<lambda>b2.
           copy_at b2 overflow_header_size data)))"

definition overflow_next :: "nat \<Rightarrow> bytes \<Rightarrow> page_id result" where
  "overflow_next page_size bs =
     (if length bs \<noteq> page_size
      then Err (Corrupt (''overflow page is '' @ show_nat (length bs) @ '' bytes, expected '' @ show_nat page_size))
      else rbind (index_at bs off_kind) (\<lambda>kind.
        if kind \<noteq> kind_overflow then Err (Corrupt ''expected an overflow page'')
        else get_u64 bs off_overflow_next))"

definition decode_overflow :: "nat \<Rightarrow> bytes \<Rightarrow> (page_id \<times> bytes) result" where
  "decode_overflow page_size bs = rbind (overflow_next page_size bs) (\<lambda>n.
     rbind (index_range bs overflow_header_size (length bs)) (\<lambda>payload. Ok (n, payload)))"

section \<open>Searching a node\<close>

text \<open>\<open>Result<usize, usize>\<close> of a binary search: the index found, or where to insert.\<close>

datatype found = Found nat | Insert_At nat

function search_loop :: "bytes \<Rightarrow> entry list \<Rightarrow> bytes \<Rightarrow> nat \<Rightarrow> nat \<Rightarrow> found result" where
  "search_loop source entries k low high =
     (if low < high
      then let mid = low + (high - low) div 2 in
           rbind (index_at entries mid) (\<lambda>e.
           rbind (key_bytes source (ekey e)) (\<lambda>cell.
           rbind (key_cmp cell k) (\<lambda>ord. case ord of
             Less \<Rightarrow> search_loop source entries k (mid + 1) high
           | Greater \<Rightarrow> search_loop source entries k low mid
           | Equal \<Rightarrow> Ok (Found mid))))
      else Ok (Insert_At low))"
  by pat_completeness auto
termination
  by (relation "measure (\<lambda>(s, es, k, low, high). high - low)") (auto simp: Let_def)

definition search_entries :: "bytes \<Rightarrow> entry list \<Rightarrow> bytes \<Rightarrow> found result" where
  "search_entries source entries k = search_loop source entries k 0 (length entries)"

function route_loop :: "bytes \<Rightarrow> separator list \<Rightarrow> bytes \<Rightarrow> nat \<Rightarrow> nat \<Rightarrow> nat result" where
  "route_loop source cells k low high =
     (if low < high
      then let mid = low + (high - low) div 2 in
           rbind (index_at cells mid) (\<lambda>c.
           rbind (key_bytes source (skey c)) (\<lambda>cell.
           rbind (key_cmp cell k) (\<lambda>ord.
             if ord \<noteq> Greater then route_loop source cells k (mid + 1) high
             else route_loop source cells k low mid)))
      else Ok low)"
  by pat_completeness auto
termination
  by (relation "measure (\<lambda>(s, cs, k, low, high). high - low)") (auto simp: Let_def)

definition route_separators :: "bytes \<Rightarrow> separator list \<Rightarrow> bytes \<Rightarrow> nat result" where
  "route_separators source cells k = route_loop source cells k 0 (length cells)"

declare search_loop.simps [simp del] route_loop.simps [simp del]

end
