(* ===== verification/Page_Search.thy ===== *)
theory Page_Search
  imports Page
begin

text \<open>
  Correctness of the searches and split points of \<open>Page\<close>: on a node whose keys are in
  strictly increasing order, \<open>search_entries\<close> finds the key or its insertion point,
  \<open>route_separators\<close> counts the separators at or below the key, and splitting an overfull
  node at its split point yields two halves that fit a page.
\<close>

section \<open>Keys of a node\<close>

definition key_ok :: "bytes \<Rightarrow> key \<Rightarrow> bool" where
  "key_ok source k = (case k of Borrowed a b \<Rightarrow> a \<le> b \<and> b \<le> length source | Owned_Key x \<Rightarrow> True)"

definition the_key :: "bytes \<Rightarrow> key \<Rightarrow> bytes" where
  "the_key source k = (case k of Borrowed a b \<Rightarrow> slice a b source | Owned_Key x \<Rightarrow> x)"

text \<open>An inline value is a range of the buffer; an overflow length is a \<open>usize\<close>, below \<open>2\<^sup>64\<close>.\<close>

definition value_ok :: "bytes \<Rightarrow> value_ref \<Rightarrow> bool" where
  "value_ok source v = (case v of Inline a b \<Rightarrow> a \<le> b \<and> b \<le> length source
     | Owned_Value x \<Rightarrow> True | Overflow p n \<Rightarrow> n < 18446744073709551616)"

text \<open>The logical content of a value reference: inline bytes, or an overflow pointer.\<close>

definition the_value :: "bytes \<Rightarrow> value_ref \<Rightarrow> bytes + page_id \<times> nat" where
  "the_value source v = (case v of Inline a b \<Rightarrow> Inl (slice a b source)
     | Owned_Value x \<Rightarrow> Inl x | Overflow p n \<Rightarrow> Inr (p, n))"

definition entry_ok :: "bytes \<Rightarrow> entry \<Rightarrow> bool" where
  "entry_ok source e \<longleftrightarrow> key_ok source (ekey e) \<and> value_ok source (evalue e)"

definition sep_ok :: "bytes \<Rightarrow> separator \<Rightarrow> bool" where
  "sep_ok source c \<longleftrightarrow> key_ok source (skey c)"

abbreviation entry_key :: "bytes \<Rightarrow> entry \<Rightarrow> bytes" where
  "entry_key source e \<equiv> the_key source (ekey e)"

abbreviation sep_key :: "bytes \<Rightarrow> separator \<Rightarrow> bytes" where
  "sep_key source c \<equiv> the_key source (skey c)"

lemma key_bytes_ok: "key_ok source k \<Longrightarrow> key_bytes source k = Ok (the_key source k)"
  by (cases k) (auto simp: key_ok_def key_bytes_def the_key_def slice_simps)

lemma key_bytes_Ok_iff: "key_bytes source k = Ok x \<longleftrightarrow> key_ok source k \<and> x = the_key source k"
  by (cases k) (auto simp: key_ok_def key_bytes_def the_key_def)

lemma key_bytes_not_Err [simp]: "key_bytes source k \<noteq> Err e"
  by (cases k) (auto simp: key_bytes_def)

section \<open>Binary search\<close>

abbreviation keys_sorted :: "bytes list \<Rightarrow> bool" where
  "keys_sorted ks \<equiv> sorted_wrt (<) ks"

lemma sorted_nth_less: "keys_sorted ks \<Longrightarrow> i < j \<Longrightarrow> j < length ks \<Longrightarrow> ks ! i < ks ! j"
  by (simp add: sorted_wrt_iff_nth_less)

text \<open>
  What a search result means for the sorted keys \<open>ks\<close>: the position of \<open>k\<close>, or the point
  that splits \<open>ks\<close> into the keys below and the keys above \<open>k\<close>.
\<close>

definition search_result :: "bytes list \<Rightarrow> bytes \<Rightarrow> found \<Rightarrow> bool" where
  "search_result ks k r = (case r of
     Found i \<Rightarrow> i < length ks \<and> ks ! i = k
   | Insert_At i \<Rightarrow> i \<le> length ks \<and> (\<forall>j < i. ks ! j < k) \<and> (\<forall>j. i \<le> j \<longrightarrow> j < length ks \<longrightarrow> k < ks ! j))"

lemma search_loop_spec:
  assumes ok: "\<forall>e \<in> set entries. key_ok source (ekey e)"
    and sorted: "keys_sorted (map (entry_key source) entries)"
    and "low \<le> high" "high \<le> length entries"
    and "\<forall>j < low. entry_key source (entries ! j) < k"
    and "\<forall>j. high \<le> j \<longrightarrow> j < length entries \<longrightarrow> k < entry_key source (entries ! j)"
  shows "\<exists>r. search_loop source entries k low high = Ok r \<and>
           search_result (map (entry_key source) entries) k r"
  using assms(3-)
proof (induction "high - low" arbitrary: low high rule: less_induct)
  case less
  show ?case
  proof (cases "low < high")
    case True
    define mid where "mid = low + (high - low) div 2"
    define cell where "cell = entry_key source (entries ! mid)"
    have mid: "low \<le> mid" "mid < high" "mid < length entries"
      using True less.prems(2) unfolding mid_def by linarith+
    have step: "search_loop source entries k low high =
      (if cell < k then search_loop source entries k (mid + 1) high
       else if cell = k then Ok (Found mid) else search_loop source entries k low mid)"
      using True mid ok
      by (subst search_loop.simps)
        (simp add: mid_def [symmetric] cell_def slice_simps key_bytes_ok key_cmp_eq_cmp cmp_def)
    have mono: "entry_key source (entries ! i) < entry_key source (entries ! j)"
      if "i < j" "j < length entries" for i j
      using sorted_nth_less [OF sorted that(1)] that by simp
    consider "cell < k" | "cell = k" | "k < cell" by (rule linorder_cases)
    then show ?thesis
    proof cases
      case 1
      have "\<forall>j < mid + 1. entry_key source (entries ! j) < k"
        using 1 mono mid unfolding cell_def
        by (metis less_SucE Suc_eq_plus1 less_trans)
      then show ?thesis
        using 1 less.hyps [of high "mid + 1"] less.prems mid by (simp add: step)
    next
      case 2
      then show ?thesis using mid by (simp add: step search_result_def cell_def)
    next
      case 3
      have "\<forall>j. mid \<le> j \<longrightarrow> j < length entries \<longrightarrow> k < entry_key source (entries ! j)"
        using 3 mono mid unfolding cell_def by (metis le_neq_implies_less less_trans)
      then show ?thesis
        using 3 less.hyps [of mid low] less.prems mid by (auto simp: step)
    qed
  next
    case False
    then show ?thesis
      using less.prems by (subst search_loop.simps) (simp add: search_result_def)
  qed
qed

lemma search_entries_spec:
  assumes "\<forall>e \<in> set entries. key_ok source (ekey e)"
    and "keys_sorted (map (entry_key source) entries)"
  shows "\<exists>r. search_entries source entries k = Ok r \<and>
           search_result (map (entry_key source) entries) k r"
  unfolding search_entries_def using assms by (intro search_loop_spec) auto

lemma route_loop_spec:
  assumes ok: "\<forall>c \<in> set cells. key_ok source (skey c)"
    and sorted: "keys_sorted (map (sep_key source) cells)"
    and "low \<le> high" "high \<le> length cells"
    and "\<forall>j < low. sep_key source (cells ! j) \<le> k"
    and "\<forall>j. high \<le> j \<longrightarrow> j < length cells \<longrightarrow> k < sep_key source (cells ! j)"
  shows "\<exists>i. route_loop source cells k low high = Ok i \<and> i \<le> length cells \<and>
           (\<forall>j < i. sep_key source (cells ! j) \<le> k) \<and>
           (\<forall>j. i \<le> j \<longrightarrow> j < length cells \<longrightarrow> k < sep_key source (cells ! j))"
  using assms(3-)
proof (induction "high - low" arbitrary: low high rule: less_induct)
  case less
  show ?case
  proof (cases "low < high")
    case True
    define mid where "mid = low + (high - low) div 2"
    define cell where "cell = sep_key source (cells ! mid)"
    have mid: "low \<le> mid" "mid < high" "mid < length cells"
      using True less.prems(2) unfolding mid_def by linarith+
    have step: "route_loop source cells k low high =
      (if cell \<le> k then route_loop source cells k (mid + 1) high else route_loop source cells k low mid)"
      using True mid ok
      by (subst route_loop.simps)
        (simp add: mid_def [symmetric] cell_def slice_simps key_bytes_ok key_cmp_eq_cmp not_less)
    have mono: "sep_key source (cells ! i) < sep_key source (cells ! j)"
      if "i < j" "j < length cells" for i j
      using sorted_nth_less [OF sorted that(1)] that by simp
    show ?thesis
    proof (cases "cell \<le> k")
      case le: True
      have "\<forall>j < mid + 1. sep_key source (cells ! j) \<le> k"
        using le mono mid unfolding cell_def
        by (metis less_SucE Suc_eq_plus1 less_imp_le order.trans)
      then show ?thesis
        using le less.hyps [of high "mid + 1"] less.prems mid by (simp add: step)
    next
      case gt: False
      have "\<forall>j. mid \<le> j \<longrightarrow> j < length cells \<longrightarrow> k < sep_key source (cells ! j)"
        using gt mono mid unfolding cell_def by (metis le_neq_implies_less less_trans not_le)
      then show ?thesis
        using gt less.hyps [of mid low] less.prems mid by (simp add: step)
    qed
  next
    case False
    then show ?thesis
      using less.prems by (subst route_loop.simps) simp
  qed
qed

lemma count_below:
  fixes ks :: "'a::linorder list"
  assumes "i \<le> length ks" "\<forall>j < i. P (ks ! j)" "\<forall>j. i \<le> j \<longrightarrow> j < length ks \<longrightarrow> \<not> P (ks ! j)"
  shows "length (filter P ks) = i"
proof -
  have "filter P (take i ks) = take i ks"
    using assms(1,2) by (auto simp: filter_id_conv in_set_conv_nth)
  moreover have "filter P (drop i ks) = []"
    using assms(3) by (auto simp: filter_empty_conv in_set_conv_nth)
  moreover have "filter P ks = filter P (take i ks) @ filter P (drop i ks)"
    by (metis append_take_drop_id filter_append)
  ultimately show ?thesis using assms(1) by simp
qed

lemma route_separators_spec:
  assumes "\<forall>c \<in> set cells. key_ok source (skey c)"
    and "keys_sorted (map (sep_key source) cells)"
  shows "route_separators source cells k =
           Ok (length (filter (\<lambda>s. s \<le> k) (map (sep_key source) cells)))"
proof -
  obtain i where "route_separators source cells k = Ok i" "i \<le> length cells"
    "\<forall>j < i. sep_key source (cells ! j) \<le> k"
    "\<forall>j. i \<le> j \<longrightarrow> j < length cells \<longrightarrow> k < sep_key source (cells ! j)"
    unfolding route_separators_def
    using route_loop_spec [OF assms, of 0 "length cells" k] by auto
  then show ?thesis
    using count_below [of i "map (sep_key source) cells" "\<lambda>s. s \<le> k"] by (auto simp: not_le)
qed

section \<open>Split points\<close>

definition cells_total :: "('c \<Rightarrow> nat) \<Rightarrow> 'c list \<Rightarrow> nat" where
  "cells_total f cs = (\<Sum>c\<leftarrow>cs. slot_size + f c)"

lemma cells_total_simps [simp]:
  "cells_total f [] = 0"
  "cells_total f (c # cs) = slot_size + f c + cells_total f cs"
  "cells_total f (xs @ ys) = cells_total f xs + cells_total f ys"
  by (simp_all add: cells_total_def)

lemma cells_total_split: "cells_total f (take n cs) + cells_total f (drop n cs) = cells_total f cs"
  by (metis append_take_drop_id cells_total_simps(3))

lemma cells_size_total:
  assumes "\<And>c. c \<in> set cs \<Longrightarrow> cell_size c = Ok (f c)"
  shows "cells_size cell_size cs = Ok (header_size + cells_total f cs)"
proof -
  have "sum_list (map f cs) + slot_size * length cs = cells_total f cs"
    by (induction cs) (auto simp: algebra_simps)
  then show ?thesis
    using assms by (simp add: cells_size_def rmapM_all_Ok [of cs cell_size f] algebra_simps)
qed

lemma split_loop_spec:
  assumes "\<And>c. c \<in> set cs \<Longrightarrow> cell_size c = Ok (f c)" "sz \<le> ps"
  shows "\<exists>n. split_loop ps cell_size sz sp cs = Ok (sp + n) \<and> n \<le> length cs \<and>
           sz + cells_total f (take n cs) \<le> ps \<and>
           (n < length cs \<longrightarrow> ps < sz + cells_total f (take (Suc n) cs))"
  using assms
proof (induction cs arbitrary: sz sp)
  case Nil
  then show ?case by simp
next
  case (Cons c cs)
  show ?case
  proof (cases "sz + (slot_size + f c) > ps")
    case True
    then show ?thesis using Cons.prems by (intro exI [of _ 0]) simp
  next
    case False
    then obtain n where "split_loop ps cell_size (sz + (slot_size + f c)) (sp + 1) cs = Ok (sp + 1 + n)"
      "n \<le> length cs" "sz + (slot_size + f c) + cells_total f (take n cs) \<le> ps"
      "n < length cs \<longrightarrow> ps < sz + (slot_size + f c) + cells_total f (take (Suc n) cs)"
      using Cons.IH [of "sz + (slot_size + f c)" "sp + 1"] Cons.prems by auto
    then show ?thesis using False Cons.prems by (intro exI [of _ "Suc n"]) (simp add: add.assoc)
  qed
qed

text \<open>
  The argument behind \<open>inline_entry_fits\<close> and \<open>key_fits\<close>: when every cell fits in half a
  page, and the node was at most one cell over, both halves of the greedy split fit.
\<close>

lemma split_point_halves:
  assumes sizes: "\<And>c. c \<in> set cs \<Longrightarrow> cell_size c = Ok (f c)"
    and half: "\<And>c. c \<in> set cs \<Longrightarrow> header_size + slot_size + f c \<le> ps div 2"
    and two: "2 \<le> length cs"
    and slack: "2 * header_size + cells_total f cs \<le> ps + ps div 2"
  shows "\<exists>n. split_point ps cs cell_size = Ok n \<and> 0 < n \<and> n < length cs \<and>
           header_size + cells_total f (take n cs) \<le> ps \<and>
           header_size + cells_total f (drop n cs) \<le> ps"
proof -
  let ?xs = "take (length cs - 1) cs"
  have "cs ! 0 \<in> set cs" using two by (intro nth_mem) linarith
  from half [OF this] have h: "header_size \<le> ps" by simp
  have ne: "0 < length cs" "0 < length ?xs" using two by auto
  have sz: "cell_size c = Ok (f c)" if "c \<in> set ?xs" for c
    using that by (intro sizes) (rule in_set_takeD)
  obtain n where n: "split_point ps cs cell_size = Ok n" "n \<le> length ?xs"
    "header_size + cells_total f (take n ?xs) \<le> ps"
    "n < length ?xs \<longrightarrow> ps < header_size + cells_total f (take (Suc n) ?xs)"
    using split_loop_spec [of ?xs cell_size f header_size ps 0, OF sz h]
    unfolding split_point_def by auto
  have tk: "take m ?xs = take m cs" if "m \<le> length ?xs" for m
    using that by (auto simp: min_def split: if_splits)
  have cell: "slot_size + f (cs ! m) + header_size \<le> ps div 2" if "m < length cs" for m
    using half [OF nth_mem [OF that]] by simp
  have next_cell: "cells_total f (take (Suc m) cs) = cells_total f (take m cs) + (slot_size + f (cs ! m))"
    if "m < length cs" for m
    using that by (simp add: take_Suc_conv_app_nth)
  have "0 < n"
  proof (rule ccontr)
    assume "\<not> 0 < n"
    then have "ps < header_size + cells_total f (take (Suc 0) cs)"
      using n(4) ne tk [of "Suc 0"] by simp
    then show False using cell [OF ne(1)] next_cell [OF ne(1)] by simp
  qed
  moreover have lt: "n < length cs" using n(2) two by simp
  moreover have "header_size + cells_total f (take n cs) \<le> ps"
    using n(2,3) tk [of n] by simp
  moreover have "header_size + cells_total f (drop n cs) \<le> ps"
  proof (cases "n < length ?xs")
    case True
    then have "ps < header_size + cells_total f (take n cs) + (slot_size + f (cs ! n))"
      using n(4) tk [of "Suc n"] next_cell [OF lt] by simp
    then show ?thesis
      using cell [OF lt] cells_total_split [of f n cs] slack by linarith
  next
    case False
    then have "Suc n = length cs" using n(2) two by simp
    then have "drop n cs = [cs ! n]"
      using Cons_nth_drop_Suc [OF lt] by simp
    then show ?thesis using cell [OF lt] by simp
  qed
  ultimately show ?thesis using n(1) by blast
qed

section \<open>Properties\<close>

text \<open>
  \<open>search_entries\<close> on the entries of a leaf in strictly increasing key order never panics and
  returns the position of the key, or the position that separates the smaller from the larger
  keys.
\<close>

theorem search_entries_correct:
  assumes "\<forall>e \<in> set entries. key_ok source (ekey e)" "keys_sorted (map (entry_key source) entries)"
  shows "\<exists>r. search_entries source entries k = Ok r \<and> search_result (map (entry_key source) entries) k r"
  using search_entries_spec [OF assms] .

theorem search_entries_correct_witness:
  "\<exists>r. search_entries [] [\<lparr>ekey = Owned_Key [1], evalue = Owned_Value []\<rparr>, \<lparr>ekey = Owned_Key [1, 0], evalue = Owned_Value []\<rparr>] [1, 0] = Ok r \<and>
     search_result [[1], [1, 0]] [1, 0] r"
  using search_entries_correct [of "[\<lparr>ekey = Owned_Key [1], evalue = Owned_Value []\<rparr>, \<lparr>ekey = Owned_Key [1, 0], evalue = Owned_Value []\<rparr>]"
      "[]" "[1, 0]"]
  by (simp add: key_ok_def the_key_def)

text \<open>
  \<open>route_separators\<close> on separators in strictly increasing order never panics and returns the
  number of separators at or below the key, the index of the child to descend into.
\<close>

theorem route_separators_correct:
  assumes "\<forall>c \<in> set cells. key_ok source (skey c)" "keys_sorted (map (sep_key source) cells)"
  shows "route_separators source cells k = Ok (length (filter (\<lambda>s. s \<le> k) (map (sep_key source) cells)))"
  using route_separators_spec [OF assms] .

theorem route_separators_correct_witness:
  "route_separators [] [\<lparr>skey = Owned_Key [5], schild = 8\<rparr>, \<lparr>skey = Owned_Key [9], schild = 2\<rparr>] [5, 1] = Ok 1"
  using route_separators_correct [of "[\<lparr>skey = Owned_Key [5], schild = 8\<rparr>, \<lparr>skey = Owned_Key [9], schild = 2\<rparr>]" "[]" "[5, 1]"]
  by (simp add: key_ok_def the_key_def)

definition entry_len :: "bytes \<Rightarrow> entry \<Rightarrow> nat" where
  "entry_len source e = leaf_cell_size (entry_key source e) (evalue e)"

text \<open>
  when every entry of an overfull leaf fits in half a page and the leaf is at most one such entry
  over, its split point leaves two non-empty halves that both fit a page.
\<close>

theorem leaf_split_fits:
  assumes ok: "\<forall>e \<in> set es. key_ok source (ekey e)"
    and half: "\<forall>e \<in> set es. header_size + slot_size + entry_len source e \<le> ps div 2"
    and two: "2 \<le> length es" and size: "leaf_size source es = Ok n" and over: "n + header_size \<le> ps + ps div 2"
  shows "\<exists>i a b. leaf_split_point source es ps = Ok i \<and> 0 < i \<and> i < length es \<and>
    leaf_size source (take i es) = Ok a \<and> a \<le> ps \<and> leaf_size source (drop i es) = Ok b \<and> b \<le> ps"
proof -
  have sz: "e \<in> set es \<Longrightarrow> entry_size source e = Ok (entry_len source e)" for e
    using ok by (simp add: entry_size_def entry_len_def key_bytes_ok)
  have tot: "set xs \<subseteq> set es \<Longrightarrow> leaf_size source xs = Ok (header_size + cells_total (entry_len source) xs)" for xs
    unfolding leaf_size_def using sz by (intro cells_size_total) auto
  have "2 * header_size + cells_total (entry_len source) es \<le> ps + ps div 2"
    using tot [of es] size over by simp
  from split_point_halves [of es "entry_size source" "entry_len source", OF sz _ two this] half
  obtain i where i: "split_point ps es (entry_size source) = Ok i" "0 < i" "i < length es"
    "header_size + cells_total (entry_len source) (take i es) \<le> ps"
    "header_size + cells_total (entry_len source) (drop i es) \<le> ps" by blast
  show ?thesis
    using i tot [OF set_take_subset, of i] tot [OF set_drop_subset, of i] by (simp add: leaf_split_point_def)
qed

definition split_sample :: "entry list" where
  "split_sample = [\<lparr>ekey = Owned_Key [1, 2], evalue = Owned_Value [0,0,0,0,0,0,0,0,0,0,0,0]\<rparr>,
     \<lparr>ekey = Owned_Key [1, 3], evalue = Owned_Value [0,0,0,0,0,0,0,0,0,0,0,0]\<rparr>,
     \<lparr>ekey = Owned_Key [1, 4], evalue = Owned_Value [0,0,0,0,0,0,0,0,0,0,0,0]\<rparr>]"

theorem leaf_split_fits_witness:
  "\<exists>i a b. leaf_split_point [] split_sample 80 = Ok i \<and> 0 < i \<and> i < length split_sample \<and>
    leaf_size [] (take i split_sample) = Ok a \<and> a \<le> 80 \<and> leaf_size [] (drop i split_sample) = Ok b \<and> b \<le> 80"
  by (rule leaf_split_fits [where n = 85]; code_simp)

end
