(* ===== verification/Page_Codec.thy ===== *)
theory Page_Codec
  imports Page_Search
begin

text \<open>
  Round trips and safety of the page codec: a page \<open>encode_leaf\<close> or \<open>encode_internal\<close>
  returns decodes to the same keys, values and children; encoding succeeds exactly when the
  node fits; the decoder and the raw leaf scan never panic, whatever bytes the page holds,
  and agree with each other.
\<close>

section \<open>Decoding never panics\<close>

lemma get_u16_not_Panic [simp]: "get_u16 bs i \<noteq> Panic"
  by (auto simp: get_u16_def)

lemma get_u64_not_Panic [simp]: "get_u64 bs i \<noteq> Panic"
  by (auto simp: get_u64_def)

lemma parse_leaf_cell_not_Panic [simp]: "parse_leaf_cell bs slot \<noteq> Panic"
  by (auto simp: parse_leaf_cell_def Let_def split: option.splits)

lemma decode_leaf_cell_not_Panic [simp]: "decode_leaf_cell bs slot \<noteq> Panic"
  by (auto simp: decode_leaf_cell_def)

lemma decode_internal_cell_not_Panic [simp]: "decode_internal_cell bs ps slot \<noteq> Panic"
  by (auto simp: decode_internal_cell_def Let_def)

lemma decode_with_not_Panic: "0 < ps \<Longrightarrow> decode_with ps bs \<noteq> Panic"
  by (auto simp: decode_with_def Let_def off_kind_def intro!: rmapM_not_Panic dest!: rmapM_not_Panic [rotated]
      split: if_splits)

text \<open>A parsed cell's ranges are inside the page.\<close>

lemma parse_leaf_cell_ok:
  assumes "parse_leaf_cell bs slot = Ok ((a, b), v)"
  shows "a \<le> b \<and> b < length bs \<and> value_ok bs v"
  using assms by (auto simp: parse_leaf_cell_def Let_def value_ok_def split: option.splits if_splits)

lemma decode_leaf_cell_ok: "decode_leaf_cell bs slot = Ok e \<Longrightarrow> entry_ok bs e"
  by (auto simp: decode_leaf_cell_def entry_ok_def key_ok_def dest!: parse_leaf_cell_ok)

lemma decode_internal_cell_ok:
  "decode_internal_cell bs (length bs) slot = Ok c \<Longrightarrow> sep_ok bs c"
  by (auto simp: decode_internal_cell_def sep_ok_def key_ok_def Let_def split: if_splits)

lemma decode_leaf_cell_ref_not_Panic [simp]: "decode_leaf_cell_ref bs slot \<noteq> Panic"
  by (auto simp: decode_leaf_cell_ref_def dest!: parse_leaf_cell_ok)

text \<open>\<open>node_ok\<close>: every borrowed range of a node is inside its buffer.\<close>

fun node_ok :: "node \<Rightarrow> bool" where
  "node_ok (Leaf bs es) = (\<forall>e \<in> set es. entry_ok bs e)"
| "node_ok (Internal bs l cs) = (\<forall>c \<in> set cs. sep_ok bs c)"

lemma decode_with_ok:
  assumes "decode_with ps bs = Ok n"
  shows "node_ok n" and "node_bytes n = bs"
  using assms
  by (auto simp: decode_with_def Let_def split: if_splits
      dest: rmapM_Ok_all [where P = "entry_ok bs", OF _ decode_leaf_cell_ok]
        rmapM_Ok_all [where P = "sep_ok bs", OF _ decode_internal_cell_ok])

section \<open>Cells\<close>

text \<open>A cell writer over \<open>n\<close> zero bytes that has written \<open>pre\<close>.\<close>

definition written :: "nat \<Rightarrow> bytes \<Rightarrow> cell_writer" where
  "written n pre = \<lparr>cw_buf = pre @ replicate (n - length pre) 0, cw_at = length pre\<rparr>"

lemma cell_bytes_written:
  assumes "length pre + length bs \<le> n"
  shows "cell_bytes (written n pre) bs = Ok (written n (pre @ bs))"
  using assms by (simp add: written_def cell_bytes_def copy_at_def splice_def)

lemma cell_int_written:
  "length pre + 1 \<le> n \<Longrightarrow> cell_u8 (written n pre) b = Ok (written n (pre @ [b]))"
  "length pre + 2 \<le> n \<Longrightarrow> l < 65536 \<Longrightarrow>
     cell_u16 (written n pre) l = Ok (written n (pre @ u16_to_le (of_nat l)))"
  "length pre + 4 \<le> n \<Longrightarrow> m < 4294967296 \<Longrightarrow>
     cell_u32 (written n pre) m = Ok (written n (pre @ u32_to_le (of_nat m)))"
  "length pre + 8 \<le> n \<Longrightarrow> cell_u64 (written n pre) w = Ok (written n (pre @ u64_to_le w))"
  by (simp_all add: cell_bytes_written cell_u8_def cell_u16_def cell_u32_def cell_u64_def
      u16_try_from_def u32_try_from_def)

text \<open>The bytes of a leaf cell and of an internal cell.\<close>

definition leaf_cell_image :: "bytes \<Rightarrow> bytes + page_id \<times> nat \<Rightarrow> bytes" where
  "leaf_cell_image k v = u16_to_le (of_nat (length k)) @ k @
     (case v of Inl x \<Rightarrow> [value_inline] @ u32_to_le (of_nat (length x)) @ x
      | Inr (p, n) \<Rightarrow> [value_overflow] @ u64_to_le p @ u64_to_le (of_nat n))"

definition internal_cell_image :: "bytes \<Rightarrow> page_id \<Rightarrow> bytes" where
  "internal_cell_image k child = u16_to_le (of_nat (length k)) @ k @ u64_to_le child"

lemma length_leaf_cell_image:
  "value_ok source v \<Longrightarrow> length (leaf_cell_image k (the_value source v)) = leaf_cell_size k v"
  by (cases v) (auto simp: leaf_cell_image_def leaf_cell_size_def the_value_def value_ok_def inline_len_def)

lemma length_internal_cell_image: "length (internal_cell_image k c) = internal_cell_size k"
  by (simp add: internal_cell_image_def internal_cell_size_def)

lemma write_leaf_cell_written:
  assumes "value_ok source v" "leaf_cell_size k v < 65536" "n = leaf_cell_size k v"
  shows "write_leaf_cell source k v (written n []) = Ok (written n (leaf_cell_image k (the_value source v)))"
proof (cases v)
  case (Inline a b)
  then obtain d where "b = a + d" using assms(1) by (auto simp: value_ok_def le_iff_add)
  then show ?thesis using assms Inline
    by (simp add: write_leaf_cell_def cell_int_written cell_bytes_written leaf_cell_size_def inline_len_def
        value_ok_def index_range_in the_value_def leaf_cell_image_def)
next
  case (Owned_Value x)
  then show ?thesis using assms
    by (simp add: write_leaf_cell_def cell_int_written cell_bytes_written leaf_cell_size_def inline_len_def
        the_value_def leaf_cell_image_def)
next
  case (Overflow p m)
  then show ?thesis using assms
    by (simp add: write_leaf_cell_def cell_int_written cell_bytes_written leaf_cell_size_def
        the_value_def leaf_cell_image_def)
qed

section \<open>Pages\<close>

text \<open>
  The image of a page: header, slot directory, free space, and the cells with the first one
  last. \<open>cell_start\<close> is the offset of cell \<open>i\<close>.
\<close>

definition cell_start :: "nat \<Rightarrow> bytes list \<Rightarrow> nat \<Rightarrow> nat" where
  "cell_start ps imgs i = ps - length (concat (take (Suc i) imgs))"

definition page_header :: "u8 \<Rightarrow> nat \<Rightarrow> nat \<Rightarrow> page_id \<Rightarrow> bytes" where
  "page_header kind count free leftmost =
     [kind, 0] @ u16_to_le (of_nat count) @ u16_to_le (of_nat free) @ [0, 0] @ u64_to_le leftmost"

definition slot_dir :: "nat \<Rightarrow> bytes list \<Rightarrow> bytes" where
  "slot_dir ps imgs = concat (map (\<lambda>i. u16_to_le (of_nat (cell_start ps imgs i))) [0..<length imgs])"

definition gap :: "nat \<Rightarrow> bytes list \<Rightarrow> nat" where
  "gap ps imgs = ps - (16 + 2 * length imgs + length (concat imgs))"

definition page_body :: "nat \<Rightarrow> bytes list \<Rightarrow> bytes" where
  "page_body ps imgs = slot_dir ps imgs @ replicate (gap ps imgs) 0 @ concat (rev imgs)"

definition fits :: "nat \<Rightarrow> bytes list \<Rightarrow> bool" where
  "fits ps imgs \<longleftrightarrow> 16 + 2 * length imgs + length (concat imgs) \<le> ps"

lemma length_page_header [simp]: "length (page_header kind count free l) = 16"
  by (simp add: page_header_def)

lemma length_slot_dir [simp]: "length (slot_dir ps imgs) = 2 * length imgs"
  by (simp add: slot_dir_def length_concat comp_def sum_list_triv)

lemma length_concat_rev [simp]: "length (concat (rev imgs)) = length (concat imgs)"
  by (induction imgs) simp_all

lemma length_page_body: "fits ps imgs \<Longrightarrow> length (page_body ps imgs) + 16 = ps"
  by (simp add: page_body_def fits_def gap_def)

lemma cell_start_snoc: "i < length imgs \<Longrightarrow> cell_start ps (imgs @ [img]) i = cell_start ps imgs i"
  by (simp add: cell_start_def)

lemma slot_dir_snoc:
  "slot_dir ps (imgs @ [img]) = slot_dir ps imgs @ u16_to_le (of_nat (ps - length (concat (imgs @ [img]))))"
proof -
  have "map (\<lambda>i. u16_to_le (of_nat (cell_start ps (imgs @ [img]) i))) [0..<length imgs] =
        map (\<lambda>i. u16_to_le (of_nat (cell_start ps imgs i))) [0..<length imgs]"
    by (intro map_cong) (simp_all add: cell_start_snoc)
  then show ?thesis
    by (simp add: slot_dir_def cell_start_def [of _ _ "length imgs"] del: map_eq_conv)
qed

definition writer_at :: "nat \<Rightarrow> bytes \<Rightarrow> bytes list \<Rightarrow> page_writer" where
  "writer_at ps hdr imgs = \<lparr>pw_buf = hdr @ page_body ps imgs,
     cell_cursor = ps - length (concat imgs), slot_cursor = 16 + 2 * length imgs\<rparr>"

lemma splice_append: "length xs = a \<Longrightarrow> length ys = length zs \<Longrightarrow> splice a ys (xs @ zs @ ws) = xs @ ys @ ws"
  by (simp add: splice_def)

lemma fits_snoc: "fits ps (imgs @ [img]) \<longleftrightarrow> 16 + 2 * length imgs + 2 + length (concat imgs) + length img \<le> ps"
  by (auto simp: fits_def)

lemma page_writer_cell_step:
  assumes hdr: "length hdr = 16" and fits: "fits ps (imgs @ [img])" and "ps < 65536"
  shows "\<exists>w c. page_writer_cell (writer_at ps hdr imgs) (length img) = Ok (w, c) \<and> c = written (length img) [] \<and>
    cell_drop w (written (length img) img) = Ok (writer_at ps hdr (imgs @ [img]))"
proof -
  let ?n = "length imgs" and ?t = "length (concat imgs)" and ?m = "length img"
  define g where "g = gap ps (imgs @ [img])"
  have ps: "ps = 18 + 2 * ?n + ?t + ?m + g" and gp: "gap ps imgs = 2 + g + ?m"
    using fits unfolding g_def fits_snoc gap_def by simp_all
  define cc where "cc = ps - ?t - ?m"
  have cc: "cc < 65536" "cc = 18 + 2 * ?n + g" using assms(3) ps unfolding cc_def by auto
  define s where "s = u16_to_le (of_nat cc)"
  have ls: "length s = 2" by (simp add: s_def)
  let ?b1 = "hdr @ (slot_dir ps imgs @ s) @ replicate g 0 @ replicate ?m 0 @ concat (rev imgs)"
  have b0: "hdr @ page_body ps imgs =
      (hdr @ slot_dir ps imgs) @ [0, 0] @ replicate g 0 @ replicate ?m 0 @ concat (rev imgs)"
    by (simp add: page_body_def gp replicate_add [symmetric])
  have l: "length (hdr @ page_body ps imgs) = ps"
    using hdr fits by (simp add: page_body_def gap_def fits_snoc)
  have s1: "splice (16 + 2 * ?n) s (hdr @ page_body ps imgs) = ?b1"
    unfolding b0 by (subst splice_append) (simp_all add: hdr ls)
  have lb: "length ?b1 = ps" using ps hdr ls by simp
  have sl: "slice cc (cc + ?m) ?b1 = replicate ?m 0"
    unfolding cc(2) using slice_append_here [of "hdr @ (slot_dir ps imgs @ s) @ replicate g 0" "18 + 2 * ?n + g"
        "replicate ?m 0" "18 + 2 * ?n + g + ?m" "concat (rev imgs)"] hdr ls by simp
  have s2: "splice cc img ?b1 = hdr @ page_body ps (imgs @ [img])"
    unfolding cc(2) using splice_append [of "hdr @ (slot_dir ps imgs @ s) @ replicate g 0" "18 + 2 * ?n + g" img
        "replicate ?m 0" "concat (rev imgs)"] hdr ls cc(2)
    by (simp add: page_body_def slot_dir_snoc g_def [symmetric] cc_def s_def)
  define b0 where "b0 = hdr @ page_body ps imgs"
  define b1 where "b1 = ?b1"
  note f = l [folded b0_def] s1 [folded b0_def b1_def] lb [folded b1_def] sl [folded b1_def] s2 [folded b1_def]
  have ar: "16 + 2 * ?n + 2 \<le> ps" "cc + ?m \<le> ps" "ps - ?t - ?m = cc" "\<not> ps - ?t < ?m"
    using ps cc(2) cc_def by simp_all
  have wr: "write_u16 cc = Ok s" using cc(1) by (simp add: write_u16_def u16_try_from_def s_def)
  have d1: "page_writer_cell (writer_at ps hdr imgs) ?m =
      Ok (\<lparr>pw_buf = b1, cell_cursor = cc, slot_cursor = 16 + 2 * ?n + 2\<rparr>, written ?m [])"
    using f ar wr ls
    by (simp add: page_writer_cell_def writer_at_def b0_def [symmetric] Let_def copy_at_def index_range_in
        slot_size_def written_def)
  have d2: "cell_drop \<lparr>pw_buf = b1, cell_cursor = cc, slot_cursor = 16 + 2 * ?n + 2\<rparr> (written ?m img) =
      Ok (writer_at ps hdr (imgs @ [img]))"
    using f ar by (simp add: cell_drop_def written_def copy_at_def writer_at_def)
  from d1 d2 show ?thesis by blast
qed

lemma page_writer_new_at:
  assumes "n \<le> ps" "16 \<le> ps" "count < 65536"
  shows "page_writer_new ps kind l count n = Ok (writer_at ps (page_header kind count 0 l) [])"
proof -
  obtain r where r: "ps = 16 + r" using assms(2) by (auto simp: le_iff_add)
  have z: "replicate ps 0 = replicate 16 (0 :: u8) @ replicate r 0"
    by (simp only: r replicate_add)
  have "replicate 16 (0 :: u8) = [0,0,0,0,0,0,0,0,0,0,0,0,0,0,0,0]" by (simp add: eval_nat_numeral)
  then have b: "splice 8 (u64_to_le l) (splice 2 (u16_to_le (of_nat count)) (splice 0 [kind] (replicate ps 0))) =
      page_header kind count 0 l @ replicate r 0"
    unfolding z by (simp add: splice_def page_header_def u16_to_le_def numeral_2_eq_2)
  show ?thesis
    using assms b
    by (simp add: page_writer_new_def page_consts write_u16_def u16_try_from_def copy_at_def index_range_in
        writer_at_def page_body_def slot_dir_def gap_def r)
qed

lemma page_writer_finish_at:
  assumes "fits ps imgs" "ps < 65536"
  shows "page_writer_finish (writer_at ps (page_header kind count 0 l) imgs) =
    Ok (page_header kind count (ps - length (concat imgs)) l @ page_body ps imgs)"
proof -
  have "length (page_body ps imgs) = ps - 16" "16 \<le> ps"
    using length_page_body [OF assms(1)] by linarith+
  then show ?thesis
    using assms(2)
    by (auto simp: page_writer_finish_def writer_at_def off_free_start_def write_u16_def u16_try_from_def
        index_range_in copy_at_def splice_def page_header_def u16_to_le_def u64_to_le_def)
qed

lemma rfold_writer:
  assumes "\<And>e imgs. e \<in> set es \<Longrightarrow> fits ps (imgs @ [g e]) \<Longrightarrow>
      step (writer_at ps hdr imgs) e = Ok (writer_at ps hdr (imgs @ [g e]))"
    and "fits ps (imgs @ map g es)"
  shows "rfold step (writer_at ps hdr imgs) es = Ok (writer_at ps hdr (imgs @ map g es))"
  using assms
proof (induction es arbitrary: imgs)
  case Nil
  then show ?case by simp
next
  case (Cons e es)
  have "fits ps (imgs @ [g e])" using Cons.prems(2) by (auto simp: fits_def)
  moreover have "rfold step (writer_at ps hdr (imgs @ [g e])) es = Ok (writer_at ps hdr ((imgs @ [g e]) @ map g es))"
    using Cons.prems by (intro Cons.IH) auto
  ultimately show ?case using Cons.prems(1) by simp
qed

definition page_image :: "nat \<Rightarrow> u8 \<Rightarrow> page_id \<Rightarrow> bytes list \<Rightarrow> bytes" where
  "page_image ps kind l imgs = page_header kind (length imgs) (ps - length (concat imgs)) l @ page_body ps imgs"

definition entry_image :: "bytes \<Rightarrow> entry \<Rightarrow> bytes" where
  "entry_image source e = leaf_cell_image (entry_key source e) (the_value source (evalue e))"

definition separator_image :: "bytes \<Rightarrow> separator \<Rightarrow> bytes" where
  "separator_image source c = internal_cell_image (sep_key source c) (schild c)"

lemma entry_size_ok: "entry_ok source e \<Longrightarrow> entry_size source e = Ok (length (entry_image source e))"
  by (simp add: entry_size_def entry_ok_def key_bytes_ok entry_image_def length_leaf_cell_image)

lemma separator_size_ok: "sep_ok source c \<Longrightarrow> separator_size source c = Ok (length (separator_image source c))"
  by (simp add: separator_size_def sep_ok_def key_bytes_ok separator_image_def length_internal_cell_image)

lemma encode_leaf_entry_step:
  assumes "entry_ok source e" "length hdr = 16" "ps < 65536" "fits ps (imgs @ [entry_image source e])"
  shows "encode_leaf_entry source (writer_at ps hdr imgs) e = Ok (writer_at ps hdr (imgs @ [entry_image source e]))"
proof -
  let ?img = "entry_image source e"
  let ?n = "leaf_cell_size (entry_key source e) (evalue e)"
  have n: "length ?img = ?n" using assms(1)
    by (simp add: entry_ok_def entry_image_def length_leaf_cell_image)
  have "?n < 65536" using assms(3,4) n by (simp add: fits_snoc)
  then have "write_leaf_cell source (entry_key source e) (evalue e) (written ?n []) = Ok (written ?n ?img)"
    using assms(1) unfolding entry_image_def by (intro write_leaf_cell_written) (auto simp: entry_ok_def)
  with page_writer_cell_step [OF assms(2,4,3)] n show ?thesis
    using assms(1) by (auto simp: encode_leaf_entry_def entry_ok_def key_bytes_ok)
qed

lemma encode_internal_cell_step:
  assumes "sep_ok source c" "length hdr = 16" "ps < 65536" "fits ps (imgs @ [separator_image source c])"
  shows "encode_internal_cell source (writer_at ps hdr imgs) c =
    Ok (writer_at ps hdr (imgs @ [separator_image source c]))"
proof -
  let ?k = "sep_key source c"
  have n: "length (separator_image source c) = 2 + length ?k + 8"
    by (simp add: separator_image_def length_internal_cell_image internal_cell_size_def)
  have "length ?k < 65536" using assms(3,4) n by (simp add: fits_snoc)
  with page_writer_cell_step [OF assms(2,4,3)] show ?thesis
    using assms(1) n
    by (auto simp: encode_internal_cell_def sep_ok_def key_bytes_ok internal_cell_size_def cell_int_written
        cell_bytes_written expect_ok_def separator_image_def internal_cell_image_def)
qed

lemma total_image: "cells_total (\<lambda>e. length (g e)) es = 2 * length es + length (concat (map g es))"
  by (induction es) (auto simp: slot_size_def)

lemma leaf_size_ok:
  assumes "\<forall>e \<in> set es. entry_ok source e"
  shows "leaf_size source es = Ok (16 + 2 * length es + length (concat (map (entry_image source) es)))"
  unfolding leaf_size_def using assms
  by (subst cells_size_total [where f = "\<lambda>e. length (entry_image source e)"])
    (simp_all add: entry_size_ok total_image header_size_def)

lemma internal_size_ok:
  assumes "\<forall>c \<in> set cs. sep_ok source c"
  shows "internal_size source cs = Ok (16 + 2 * length cs + length (concat (map (separator_image source) cs)))"
  unfolding internal_size_def using assms
  by (subst cells_size_total [where f = "\<lambda>e. length (separator_image source e)"])
    (simp_all add: separator_size_ok total_image header_size_def)

text \<open>What the encoders write, exactly.\<close>

lemma encode_leaf_image:
  assumes "\<forall>e \<in> set es. entry_ok source e" "fits ps (map (entry_image source) es)" "ps < 65536"
  shows "encode_leaf ps source es = Ok (page_image ps kind_leaf 0 (map (entry_image source) es))"
proof -
  let ?g = "entry_image source" and ?h = "page_header kind_leaf (length es) 0 0"
  have "rfold (encode_leaf_entry source) (writer_at ps ?h []) es = Ok (writer_at ps ?h ([] @ map ?g es))"
    using assms by (intro rfold_writer encode_leaf_entry_step) auto
  moreover have "16 + 2 * length es + length (concat (map ?g es)) \<le> ps" using assms(2) by (simp add: fits_def)
  ultimately show ?thesis
    using assms leaf_size_ok [OF assms(1)]
    by (simp add: encode_leaf_def page_writer_new_at page_writer_finish_at page_image_def)
qed

lemma encode_internal_image:
  assumes "\<forall>c \<in> set cs. sep_ok source c" "fits ps (map (separator_image source) cs)" "ps < 65536"
  shows "encode_internal ps source l cs = Ok (page_image ps kind_internal l (map (separator_image source) cs))"
proof -
  let ?g = "separator_image source" and ?h = "page_header kind_internal (length cs) 0 l"
  have "rfold (encode_internal_cell source) (writer_at ps ?h []) cs = Ok (writer_at ps ?h ([] @ map ?g cs))"
    using assms by (intro rfold_writer encode_internal_cell_step) auto
  moreover have "16 + 2 * length cs + length (concat (map ?g cs)) \<le> ps" using assms(2) by (simp add: fits_def)
  ultimately show ?thesis
    using assms internal_size_ok [OF assms(1)]
    by (simp add: encode_internal_def page_writer_new_at page_writer_finish_at page_image_def)
qed

lemma encode_too_large:
  "leaf_size source es = Ok n \<Longrightarrow> ps < n \<Longrightarrow> \<exists>m. encode_leaf ps source es = Err (Storage m)"
  "internal_size source cs = Ok n \<Longrightarrow> ps < n \<Longrightarrow> \<exists>m. encode_internal ps source l cs = Err (Storage m)"
  by (simp_all add: encode_leaf_def encode_internal_def page_writer_new_def)

section \<open>Decoding an encoded page\<close>

lemma slot_dir_slice:
  "i < length imgs \<Longrightarrow>
   slice (2 * i) (2 * i + 2) (slot_dir ps imgs) = u16_to_le (of_nat (cell_start ps imgs i))"
  unfolding slot_dir_def by (subst slice_chunks) simp_all

lemma get_u16_slot:
  assumes "i < length imgs" "fits ps imgs" "ps < 65536" "length hdr = 16"
  shows "get_u16 (hdr @ page_body ps imgs) (16 + 2 * i) = Ok (of_nat (cell_start ps imgs i))"
proof -
  have "slice (16 + 2 * i) (16 + (2 * i + 2)) (hdr @ page_body ps imgs) =
      slice (2 * i) (2 * i + 2) (slot_dir ps imgs)"
    using assms(1) by (simp only: slice_append_skip [OF assms(4)] page_body_def) (simp add: slice_append_left)
  then show ?thesis
    using assms length_page_body [OF assms(2)] slot_dir_slice [OF assms(1), of ps]
    by (simp add: get_u16_def ok_or_def get_range_def fits_def)
qed

lemma cell_start_bound:
  "cell_start ps imgs i \<le> ps"
  by (simp add: cell_start_def)

lemma cell_start_slice:
  assumes "i < length imgs" "fits ps imgs" "length hdr = 16"
  shows "cell_start ps imgs i + length (imgs ! i) \<le> ps" (is ?le)
    and "slice (cell_start ps imgs i) (cell_start ps imgs i + length (imgs ! i)) (hdr @ page_body ps imgs) = imgs ! i"
proof -
  let ?pre = "hdr @ slot_dir ps imgs @ replicate (gap ps imgs) 0 @ concat (rev (drop (Suc i) imgs))"
  have im: "imgs = take i imgs @ [imgs ! i] @ drop (Suc i) imgs"
    using assms(1) by (simp add: id_take_nth_drop [symmetric])
  have split: "concat (rev imgs) = concat (rev (drop (Suc i) imgs)) @ imgs ! i @ concat (rev (take i imgs))"
    by (subst im) (simp only: rev_append concat_append, simp)
  have lens: "length (concat imgs) =
      length (concat (take (Suc i) imgs)) + length (concat (drop (Suc i) imgs))"
    by (metis append_take_drop_id concat_append length_append)
  have tk: "length (concat (take (Suc i) imgs)) = length (concat (take i imgs)) + length (imgs ! i)"
    using assms(1) by (simp add: take_Suc_conv_app_nth)
  show ?le using assms(2) lens tk by (simp add: cell_start_def fits_def)
  have "length ?pre = cell_start ps imgs i"
    using assms lens by (simp add: cell_start_def gap_def fits_def)
  then show "slice (cell_start ps imgs i) (cell_start ps imgs i + length (imgs ! i)) (hdr @ page_body ps imgs) = imgs ! i"
    using slice_append_here [of ?pre "cell_start ps imgs i" "imgs ! i" "cell_start ps imgs i + length (imgs ! i)"
        "concat (rev (take i imgs))"]
    by (simp add: page_body_def split)
qed

lemma parse_leaf_cell_image:
  assumes sl: "slice slot (slot + length (leaf_cell_image k v)) bs = leaf_cell_image k v"
    and len: "slot + length (leaf_cell_image k v) \<le> length bs" and small: "length bs < 65536"
    and big: "case v of Inl x \<Rightarrow> True | Inr (p, n) \<Rightarrow> n < 18446744073709551616"
  shows "\<exists>r. parse_leaf_cell bs slot = Ok ((slot + 2, slot + 2 + length k), r) \<and>
    slice (slot + 2) (slot + 2 + length k) bs = k \<and> the_value bs r = v"
proof -
  define tl where "tl = (case v of Inl x \<Rightarrow> [value_inline] @ u32_to_le (of_nat (length x)) @ x
      | Inr (p, n) \<Rightarrow> [value_overflow] @ u64_to_le p @ u64_to_le (of_nat n))"
  have img: "leaf_cell_image k v = u16_to_le (of_nat (length k)) @ k @ tl"
    by (simp add: leaf_cell_image_def tl_def)
  have n: "length (leaf_cell_image k v) = 2 + length k + length tl" by (simp add: img)
  have tl1: "0 < length tl" by (auto simp: tl_def split: sum.splits)
  note mid = slice_mid [OF sl [unfolded img] len [unfolded img]]
  have head: "slice slot (slot + 2) bs = u16_to_le (of_nat (length k))"
    by (rule slice_first [OF sl [unfolded img] len [unfolded img]]) simp
  have key: "slice (slot + 2) (slot + 2 + length k) bs = k"
    by (rule mid) simp_all
  have tls: "slice (slot + 2 + length k) (slot + 2 + length k + length tl) bs = tl"
    by (rule slice_last [OF sl [unfolded img] len [unfolded img]]) simp_all
  let ?e = "slot + 2 + length k"
  have kl: "unat (of_nat (length k) :: u16) = length k"
    using len small n by (intro unat_of_nat_u16) simp
  have le: "?e + length tl \<le> length bs" using len n by simp
  have tag: "bs ! ?e = hd tl" "?e < length bs"
    using nth_slice [of 0 "?e + length tl" ?e bs] le tl1 tls by (simp_all add: hd_conv_nth, linarith)
  have tmid: "tl = xs @ ys @ zs \<Longrightarrow> slice (?e + length xs) (?e + length xs + length ys) bs = ys" for xs ys zs
    using slice_mid [of ?e "length tl" bs xs ys zs] tls le by simp
  show ?thesis
  proof (cases v)
    case (Inl x)
    then have t: "tl = [value_inline] @ u32_to_le (of_nat (length x)) @ x" by (simp add: tl_def)
    have "slice (?e + 1) (?e + 5) bs = u32_to_le (of_nat (length x))"
      using tmid [OF t] by simp
    moreover have "slice (?e + 5) (?e + 5 + length x) bs = x"
      using tmid [of "[value_inline] @ u32_to_le (of_nat (length x))" x "[]"] t by simp
    moreover have "unat (of_nat (length x) :: u32) = length x"
      using le t small by (intro unat_of_nat_u32) simp
    ultimately show ?thesis
      using head key kl tag t le Inl
      by (simp add: parse_leaf_cell_def get_range_def get_at_def Let_def value_ok_def the_value_def
          value_inline_def)
  next
    case (Inr pn)
    obtain p m where pn: "pn = (p, m)" by (cases pn)
    then have t: "tl = [value_overflow] @ (u64_to_le p @ u64_to_le (of_nat m))" using Inr by (simp add: tl_def)
    have "slice (?e + 1) (?e + 17) bs = u64_to_le p @ u64_to_le (of_nat m)"
      using tmid [of "[value_overflow]" "u64_to_le p @ u64_to_le (of_nat m)" "[]"] t by simp
    then show ?thesis
      using head key kl tag t le Inr pn big
      by (simp add: unat_of_nat_u64 parse_leaf_cell_def get_range_def get_at_def Let_def value_ok_def the_value_def
          value_inline_def value_overflow_def)
  qed
qed

lemma decode_internal_cell_image:
  assumes sl: "slice slot (slot + length (internal_cell_image k c)) bs = internal_cell_image k c"
    and len: "slot + length (internal_cell_image k c) \<le> length bs" and small: "length bs < 65536"
  shows "decode_internal_cell bs (length bs) slot = Ok \<lparr>skey = Borrowed (slot + 2) (slot + 2 + length k), schild = c\<rparr>"
    and "slice (slot + 2) (slot + 2 + length k) bs = k"
proof -
  have img: "internal_cell_image k c = u16_to_le (of_nat (length k)) @ k @ u64_to_le c"
    by (simp add: internal_cell_image_def)
  have n: "length (internal_cell_image k c) = 2 + length k + 8" by (simp add: img)
  have "slice slot (slot + 2) bs = u16_to_le (of_nat (length k))"
    by (rule slice_first [OF sl [unfolded img] len [unfolded img]]) simp
  moreover have "slice (slot + 2 + length k) (slot + 2 + length k + 8) bs = u64_to_le c"
    by (rule slice_last [OF sl [unfolded img] len [unfolded img]]) simp_all
  moreover have "unat (of_nat (length k) :: u16) = length k"
    using len small n by (intro unat_of_nat_u16) simp
  ultimately show "decode_internal_cell bs (length bs) slot =
      Ok \<lparr>skey = Borrowed (slot + 2) (slot + 2 + length k), schild = c\<rparr>"
    using len n by (simp add: decode_internal_cell_def get_u16_def get_u64_def get_range_def Let_def)
  show "slice (slot + 2) (slot + 2 + length k) bs = k"
    using slice_mid [OF sl [unfolded img] len [unfolded img]] by simp
qed

definition entry_content :: "bytes \<Rightarrow> entry \<Rightarrow> bytes \<times> (bytes + page_id \<times> nat)" where
  "entry_content source e = (entry_key source e, the_value source (evalue e))"

definition sep_content :: "bytes \<Rightarrow> separator \<Rightarrow> bytes \<times> page_id" where
  "sep_content source c = (sep_key source c, schild c)"

lemma map_nth_cong:
  assumes "length ys = length xs" "\<And>i. i < length xs \<Longrightarrow> f (ys ! i) = g (xs ! i)"
  shows "map f ys = map g xs"
  using assms by (intro nth_equalityI) auto

lemma rmapM_index:
  assumes "\<And>i. i < n \<Longrightarrow> \<exists>y. f (s i) = Ok y \<and> P i y"
  shows "\<exists>ys. rmapM f (map s [0..<n]) = Ok ys \<and> length ys = n \<and> (\<forall>i < n. P i (ys ! i))"
proof -
  obtain g where g: "\<And>i. i < n \<Longrightarrow> f (s i) = Ok (g i) \<and> P i (g i)" using assms by metis
  have "rmapM f (map s [0..<n]) = Ok (map g [0..<n])"
    using g by (auto simp: rmapM_Ok_iff list_all2_conv_all_nth)
  then show ?thesis using g by (intro exI [of _ "map g [0..<n]"]) auto
qed

lemma page_image_header:
  assumes "fits ps imgs" "ps < 65536" and bs: "bs = page_image ps kind l imgs"
  shows "length bs = ps" "index_at bs 0 = Ok kind" "get_u16 bs 2 = Ok (of_nat (length imgs))"
    "get_u16 bs 4 = Ok (of_nat (ps - length (concat imgs)))" "get_u64 bs 8 = Ok l"
  using assms(1,2) length_page_body [OF assms(1)] unfolding bs
  by (simp_all add: page_image_def page_header_def get_u16_def get_u64_def get_range_def slice_def index_at_def
      get_at_def fits_def drop_Cons')

lemma decode_page_image:
  assumes fits: "fits ps imgs" and ps: "ps < 65536" and bs: "bs = page_image ps kind l imgs"
  shows "decode_with ps bs =
    (if kind = kind_leaf
       then rbind (rmapM (decode_leaf_cell bs) (map (cell_start ps imgs) [0..<length imgs])) (\<lambda>es. Ok (Leaf bs es))
     else if kind = kind_internal
       then rbind (rmapM (decode_internal_cell bs ps) (map (cell_start ps imgs) [0..<length imgs]))
              (\<lambda>cs. Ok (Internal bs l cs))
     else Err (Corrupt (''unknown node kind '' @ show_nat (unat kind))))"
proof -
  have cnt: "unat (of_nat (length imgs) :: u16) = length imgs"
    "unat (of_nat (ps - length (concat imgs)) :: u16) = ps - length (concat imgs)"
    using fits ps by (intro unat_of_nat_u16, simp add: fits_def)+
  have slot: "get_u16 bs (16 + 2 * i) = Ok (of_nat (cell_start ps imgs i))" if "i < length imgs" for i
    unfolding bs page_image_def using that fits ps by (intro get_u16_slot) auto
  have st: "unat (of_nat (cell_start ps imgs i) :: u16) = cell_start ps imgs i" for i
    using ps cell_start_bound [of ps imgs i] by (intro unat_of_nat_u16) simp
  have "rmapM (\<lambda>i. rbind (get_u16 bs (16 + 2 * i)) (\<lambda>s. Ok (unat s))) [0..<length imgs] =
      Ok (map (cell_start ps imgs) [0..<length imgs])"
    by (rule rmapM_all_Ok) (simp add: slot st)
  moreover have "\<not> ps - length (concat imgs) < 16 + 2 * length imgs" "\<not> ps < ps - length (concat imgs)"
    using fits by (auto simp: fits_def)
  ultimately show ?thesis
    by (simp add: decode_with_def page_consts Let_def cnt page_image_header [OF fits ps bs] del: of_nat_diff)
qed

lemma decode_leaf_image:
  assumes ok: "\<forall>e \<in> set es. entry_ok source e" and fits: "fits ps (map (entry_image source) es)" and ps: "ps < 65536"
    and bs: "bs = page_image ps kind_leaf 0 (map (entry_image source) es)"
  shows "\<exists>es'. decode_with ps bs = Ok (Leaf bs es') \<and> map (entry_content bs) es' = map (entry_content source) es"
proof -
  let ?imgs = "map (entry_image source) es"
  have len: "length bs = ps" using page_image_header [OF fits ps bs] by simp
  have "\<exists>e'. decode_leaf_cell bs (cell_start ps ?imgs i) = Ok e' \<and> entry_content bs e' = entry_content source (es ! i)"
    if i: "i < length es" for i
  proof -
    let ?k = "entry_key source (es ! i)" and ?v = "the_value source (evalue (es ! i))"
    have e: "entry_ok source (es ! i)" using ok i by simp
    have nth: "?imgs ! i = leaf_cell_image ?k ?v" using i by (simp add: entry_image_def)
    have big: "case ?v of Inl x \<Rightarrow> True | Inr (p, n) \<Rightarrow> n < 18446744073709551616"
      using e by (auto simp: entry_ok_def value_ok_def the_value_def split: value_ref.splits)
    obtain h where h: "bs = h @ page_body ps ?imgs" "length h = 16" by (simp add: bs page_image_def)
    have i': "i < length ?imgs" using i by simp
    note c = cell_start_slice [OF i' fits h(2), folded h(1), unfolded nth]
    from parse_leaf_cell_image [OF c(2) _ _ big] c(1) len ps show ?thesis
      by (auto simp: decode_leaf_cell_def entry_content_def the_key_def)
  qed
  from rmapM_index [of "length es" "decode_leaf_cell bs" "cell_start ps ?imgs", OF this] obtain es' where
    "rmapM (decode_leaf_cell bs) (map (cell_start ps ?imgs) [0..<length es]) = Ok es'" "length es' = length es"
    "\<forall>i < length es. entry_content bs (es' ! i) = entry_content source (es ! i)" by blast
  then show ?thesis
    using decode_page_image [OF fits ps bs] map_nth_cong [of es' es] by auto
qed

lemma decode_internal_image:
  assumes fits: "fits ps (map (separator_image source) cs)" and ps: "ps < 65536"
    and bs: "bs = page_image ps kind_internal l (map (separator_image source) cs)"
  shows "\<exists>cs'. decode_with ps bs = Ok (Internal bs l cs') \<and> map (sep_content bs) cs' = map (sep_content source) cs"
proof -
  let ?imgs = "map (separator_image source) cs"
  have len: "length bs = ps" using page_image_header [OF fits ps bs] by simp
  have "\<exists>c'. decode_internal_cell bs ps (cell_start ps ?imgs i) = Ok c' \<and> sep_content bs c' = sep_content source (cs ! i)"
    if i: "i < length cs" for i
  proof -
    let ?k = "sep_key source (cs ! i)" and ?c = "schild (cs ! i)"
    have nth: "?imgs ! i = internal_cell_image ?k ?c" using i by (simp add: separator_image_def)
    obtain h where h: "bs = h @ page_body ps ?imgs" "length h = 16" by (simp add: bs page_image_def)
    have i': "i < length ?imgs" using i by simp
    note c = cell_start_slice [OF i' fits h(2), folded h(1), unfolded nth]
    from decode_internal_cell_image [OF c(2)] c(1) len ps show ?thesis
      by (auto simp: sep_content_def the_key_def)
  qed
  from rmapM_index [of "length cs" "decode_internal_cell bs ps" "cell_start ps ?imgs", OF this] obtain cs' where
    "rmapM (decode_internal_cell bs ps) (map (cell_start ps ?imgs) [0..<length cs]) = Ok cs'" "length cs' = length cs"
    "\<forall>i < length cs. sep_content bs (cs' ! i) = sep_content source (cs ! i)" by blast
  then show ?thesis
    using decode_page_image [OF fits ps bs] map_nth_cong [of cs' cs] by (auto simp: kind_leaf_def kind_internal_def)
qed

section \<open>The raw leaf scan\<close>

lemma chunks2_slices: "chunks2 xs = map (\<lambda>i. slice (2 * i) (2 * i + 2) xs) [0..<length xs div 2]"
proof (induction xs rule: chunks2.induct)
  case (1 a b xs)
  have e: "slice (2 * Suc i) (2 * Suc i + 2) (a # b # xs) = slice (2 * i) (2 * i + 2) xs" for i
    by (simp add: slice_def)
  have "[0..<length (a # b # xs) div 2] = 0 # map Suc [0..<length xs div 2]"
    by (simp add: upt_conv_Cons map_Suc_upt del: upt_Suc)
  then show ?case using 1 by (simp only: list.map map_map comp_def e chunks2.simps) (simp add: slice_def)
qed auto

lemma rfold_map: "rfold f st (map g xs) = rfold (\<lambda>s x. f s (g x)) st xs"
  by (induction xs arbitrary: st) (auto intro: rbind_cong)

lemma rfold_rmapM:
  assumes "rmapM g xs = Ok ys"
  shows "rfold (\<lambda>s x. rbind (g x) (f s)) st xs = rfold f st ys"
  using assms by (induction xs arbitrary: ys st) (auto intro: rbind_cong)

lemma rfold_cong:
  assumes "\<And>s x. x \<in> set xs \<Longrightarrow> f s x = g s x"
  shows "rfold f st xs = rfold g st xs"
  using assms by (induction xs arbitrary: st) (auto intro: rbind_cong)

lemma rmapM_comp:
  "rmapM g (map h xs) = rmapM (\<lambda>x. g (h x)) xs"
  by (induction xs) auto

lemma check_leaf_header_decode:
  assumes "decode_with ps bs = Ok n"
  shows "\<exists>count. check_leaf_header bs ps = Ok count \<and> 16 + 2 * count \<le> length bs \<and>
    (\<forall>bs' es. n = Leaf bs' es \<longrightarrow>
      rmapM (\<lambda>i. rbind (get_u16 bs (16 + 2 * i)) (\<lambda>s. decode_leaf_cell bs (unat s))) [0..<count] = Ok es)"
proof -
  have r: "rmapM (\<lambda>i. rbind (get_u16 bs (16 + 2 * i)) (\<lambda>s. decode_leaf_cell bs (unat s))) xs = Ok es"
    if "rmapM (\<lambda>i. rbind (get_u16 bs (16 + 2 * i)) (\<lambda>s. Ok (unat s))) xs = Ok slots"
      "rmapM (decode_leaf_cell bs) slots = Ok es" for xs slots es
    using that by (induction xs arbitrary: slots es) auto
  show ?thesis
    using assms r
    by (auto simp: decode_with_def check_leaf_header_def Let_def page_consts split: if_splits)
qed

lemma leaf_ref_of_cell:
  assumes "decode_leaf_cell bs slot = Ok e"
  shows "decode_leaf_cell_ref bs slot = Ok (entry_key bs e, evalue e)"
  using assms
  by (force simp: decode_leaf_cell_def decode_leaf_cell_ref_def the_key_def dest: parse_leaf_cell_ok)

lemma scan_agrees:
  assumes "decode_with ps bs = Ok (Leaf bs' es)"
  shows "scan_leaf_cells bs ps f st = rfold (\<lambda>s e. f s (entry_key bs e) (evalue e)) st es"
proof -
  obtain count where c: "check_leaf_header bs ps = Ok count" "16 + 2 * count \<le> length bs"
    "rmapM (\<lambda>i. rbind (get_u16 bs (16 + 2 * i)) (\<lambda>s. decode_leaf_cell bs (unat s))) [0..<count] = Ok es"
    using check_leaf_header_decode [OF assms] by blast
  let ?d = "\<lambda>i. decode_leaf_cell_ref bs (unat (u16_from_le (slice (16 + 2 * i) (16 + 2 * i + 2) bs)))"
  have ch: "chunks2 (slice 16 (16 + 2 * count) bs) = map (\<lambda>i. slice (16 + 2 * i) (16 + 2 * i + 2) bs) [0..<count]"
    using c(2) by (simp add: chunks2_slices slice_of_slice)
  have "list_all2 (\<lambda>i e. ?d i = Ok (entry_key bs e, evalue e)) [0..<count] es"
    using c(3) unfolding rmapM_Ok_iff
    by (rule list_all2_mono) (auto simp: get_u16_def leaf_ref_of_cell)
  then have "rmapM ?d [0..<count] = Ok (map (\<lambda>e. (entry_key bs e, evalue e)) es)"
    by (simp add: rmapM_Ok_iff list_all2_map2)
  from rfold_rmapM [OF this, of "\<lambda>s (k, v). f s k v" st] show ?thesis
    using c(1,2) ch by (simp add: scan_leaf_cells_def header_size_def slot_size_def index_range_in rfold_map)
qed

section \<open>Overflow pages\<close>

lemma overflow_image:
  assumes "overflow_header_size + length data \<le> ps"
  shows "encode_overflow ps nxt data =
    Ok ([kind_overflow] @ u64_to_le nxt @ data @ replicate (ps - 9 - length data) 0)"
proof -
  obtain r where r: "ps = 9 + (length data + r)" using assms by (auto simp: overflow_header_size_def le_iff_add)
  have z: "replicate ps 0 = replicate 9 (0 :: u8) @ replicate (length data + r) 0"
    by (simp only: r replicate_add)
  have "replicate 9 (0 :: u8) = [0,0,0,0,0,0,0,0,0]" by (simp add: eval_nat_numeral)
  then have "splice 9 data (splice 1 (u64_to_le nxt) (splice 0 [kind_overflow] (replicate ps 0))) =
      [kind_overflow] @ u64_to_le nxt @ data @ replicate r 0"
    unfolding z by (simp add: splice_def replicate_add drop_Cons')
  then show ?thesis using assms r
    by (simp add: encode_overflow_def copy_at_def page_consts)
qed

lemma overflow_roundtrip:
  assumes "overflow_header_size + length data \<le> ps"
  shows "\<exists>page. encode_overflow ps nxt data = Ok page \<and> length page = ps \<and>
    decode_overflow ps page = Ok (nxt, data @ replicate (overflow_payload_size ps - length data) 0)"
  using assms
  by (simp add: overflow_image decode_overflow_def overflow_next_def index_at_def get_at_def
      get_u64_def get_range_def page_consts slice_def index_range_def overflow_payload_size_def)

lemma decode_overflow_not_Panic: "0 < ps \<Longrightarrow> ps \<ge> 9 \<Longrightarrow> decode_overflow ps bs \<noteq> Panic"
  by (auto simp: decode_overflow_def overflow_next_def page_consts)

section \<open>Properties\<close>

text \<open>
  a leaf whose entries fit a page encodes to a page of exactly the page size, and decoding
  that page gives back the same keys in the same order with the same values or overflow
  pointers.
\<close>

theorem leaf_roundtrip:
  assumes "\<forall>e \<in> set es. entry_ok source e" "leaf_size source es = Ok n" "n \<le> ps" "ps < 65536"
  shows "\<exists>page es'. encode_leaf ps source es = Ok page \<and> length page = ps \<and>
    decode ps page = Ok (Leaf page es') \<and> map (entry_content page) es' = map (entry_content source) es"
proof -
  have fits: "fits ps (map (entry_image source) es)"
    using assms(2,3) leaf_size_ok [OF assms(1)] by (simp add: fits_def)
  show ?thesis
    using encode_leaf_image [OF assms(1) fits assms(4)] page_image_header(1) [OF fits assms(4) refl]
      decode_leaf_image [OF assms(1) fits assms(4) refl]
    unfolding decode_def by blast
qed

definition sample_entries :: "entry list" where
  "sample_entries = [\<lparr>ekey = Owned_Key [1, 2], evalue = Owned_Value [7]\<rparr>,
     \<lparr>ekey = Borrowed 0 2, evalue = Overflow 9 5000\<rparr>]"

theorem leaf_roundtrip_witness:
  "\<exists>page es'. encode_leaf 80 [3, 4] sample_entries = Ok page \<and> length page = 80 \<and>
    decode 80 page = Ok (Leaf page es') \<and>
    map (entry_content page) es' = [([1, 2], Inl [7]), ([3, 4], Inr (9, 5000))]"
  using leaf_roundtrip [of sample_entries "[3, 4]" 51 80]
  by (simp add: sample_entries_def entry_ok_def key_ok_def value_ok_def leaf_size_def cells_size_def entry_size_def
      key_bytes_def index_range_def get_range_def slice_def leaf_cell_size_def inline_len_def header_size_def
      slot_size_def entry_content_def the_key_def the_value_def)

text \<open>
  an internal node that fits a page encodes to a page of exactly the page size, and
  decoding it gives back the leftmost child and the same separators with the same children.
\<close>

theorem internal_roundtrip:
  assumes "\<forall>c \<in> set cs. sep_ok source c" "internal_size source cs = Ok n" "n \<le> ps" "ps < 65536"
  shows "\<exists>page cs'. encode_internal ps source l cs = Ok page \<and> length page = ps \<and>
    decode ps page = Ok (Internal page l cs') \<and> map (sep_content page) cs' = map (sep_content source) cs"
proof -
  have fits: "fits ps (map (separator_image source) cs)"
    using assms(2,3) internal_size_ok [OF assms(1)] by (simp add: fits_def)
  show ?thesis
    using encode_internal_image [OF assms(1) fits assms(4)] page_image_header(1) [OF fits assms(4) refl]
      decode_internal_image [OF fits assms(4) refl]
    unfolding decode_def by blast
qed

theorem internal_roundtrip_witness:
  "\<exists>page cs'. encode_internal 64 [] 3 [\<lparr>skey = Owned_Key [5], schild = 8\<rparr>] = Ok page \<and> length page = 64 \<and>
    decode 64 page = Ok (Internal page 3 cs') \<and> map (sep_content page) cs' = [([5], 8)]"
  using internal_roundtrip [of "[\<lparr>skey = Owned_Key [5], schild = 8\<rparr>]" "[]" 29 64 3]
  by (simp add: sep_ok_def key_ok_def internal_size_def cells_size_def separator_size_def key_bytes_def
      internal_cell_size_def header_size_def slot_size_def sep_content_def the_key_def)

text \<open>
  a node larger than the page is refused with a storage error, never written truncated.
\<close>

theorem oversized_node_refused:
  assumes "leaf_size source es = Ok n" "internal_size source cs = Ok m" "ps < n" "ps < m"
  shows "(\<exists>msg. encode_leaf ps source es = Err (Storage msg)) \<and>
    (\<exists>msg. encode_internal ps source l cs = Err (Storage msg))"
  using encode_too_large(1) [OF assms(1,3)] encode_too_large(2) [OF assms(2,4)] by blast

theorem oversized_node_refused_witness:
  "(\<exists>msg. encode_leaf 10 [] [] = Err (Storage msg)) \<and> (\<exists>msg. encode_internal 10 [] 0 [] = Err (Storage msg))"
  using oversized_node_refused [of "[]" "[]" 16 "[]" 16 10 0]
  by (simp add: leaf_size_def internal_size_def cells_size_def header_size_def)

text \<open>
  whatever bytes a page holds, decoding it returns a node or an error and never panics;
  every key and value range of a decoded node lies inside the page.
\<close>

theorem decode_safe:
  assumes "0 < ps"
  shows "decode ps bs \<noteq> Panic \<and> (\<forall>n. decode ps bs = Ok n \<longrightarrow> node_ok n \<and> node_bytes n = bs)"
  using decode_with_not_Panic [OF assms] decode_with_ok unfolding decode_def by blast

theorem decode_safe_witness:
  "decode 64 [1, 2, 3] \<noteq> Panic"
  using decode_safe [of 64 "[1, 2, 3]"] by simp

text \<open>
  the raw leaf scan visits exactly the entries decoding the page gives, in the same order,
  stopping at the callback's first error.
\<close>

theorem scan_leaf_matches_decode:
  assumes "decode ps bs = Ok (Leaf bs es)"
  shows "scan_leaf_cells bs ps f st = rfold (\<lambda>s e. f s (entry_key bs e) (evalue e)) st es"
  by (rule scan_agrees [OF assms [unfolded decode_def]])

definition empty_leaf_page :: bytes where
  "empty_leaf_page = page_image 64 kind_leaf 0 []"

theorem scan_leaf_matches_decode_witness:
  "scan_leaf_cells empty_leaf_page 64 (\<lambda>s k v. Ok (s + 1)) (0 :: nat) = Ok 0"
proof -
  have "decode 64 empty_leaf_page = Ok (Leaf empty_leaf_page [])"
    using decode_page_image [of 64 "[]" empty_leaf_page kind_leaf 0]
    by (simp add: decode_def empty_leaf_page_def fits_def)
  from scan_leaf_matches_decode [OF this] show ?thesis by simp
qed

text \<open>
  an overflow page keeps its slice of a long value, zero-padded to the payload size, and
  the link to the next page; a slice that does not fit is refused.
\<close>

theorem overflow_page_roundtrip:
  "(overflow_header_size + length data \<le> ps \<longrightarrow>
     (\<exists>page. encode_overflow ps nxt data = Ok page \<and> length page = ps \<and>
       decode_overflow ps page = Ok (nxt, data @ replicate (overflow_payload_size ps - length data) 0))) \<and>
   (ps < overflow_header_size + length data \<longrightarrow> (\<exists>msg. encode_overflow ps nxt data = Err (Storage msg)))"
  using overflow_roundtrip [of data ps nxt] by (auto simp: encode_overflow_def)

theorem overflow_page_roundtrip_witness:
  "\<exists>page. encode_overflow 12 7 [1, 2] = Ok page \<and> length page = 12 \<and> decode_overflow 12 page = Ok (7, [1, 2, 0])"
  using overflow_page_roundtrip [of "[1, 2]" 12 7] by (simp add: overflow_header_size_def overflow_payload_size_def)

end
