(* ===== verification/Wal.thy ===== *)
theory Wal
  imports Checksum Page
begin

text \<open>
  The write-ahead log (\<^verbatim>\<open>src/crates/inlaysql-core/src/wal.rs\<close>): the geometry of the file,
  the commit record in its three layouts (single-region v2--v4, multi-region v5, hole-eliding
  v6), its encoder and decoder, and the scan of a writer region. A device is its read
  operation, \<open>read offset len\<close>.
\<close>

section \<open>Geometry\<close>

definition wal_blocks :: nat where "wal_blocks = 256"
definition wal_regions :: nat where "wal_regions = 4"
definition multi_region_format_version :: u32 where "multi_region_format_version = 5"
definition hole_elided_format_version :: u32 where "hole_elided_format_version = 6"
definition max_page_image_len :: nat where "max_page_image_len = 1048576"

definition region_count :: "u32 \<Rightarrow> nat" where
  "region_count format_version = (if format_version \<ge> multi_region_format_version then wal_regions else 1)"

definition wal_region_len :: "nat \<Rightarrow> nat" where
  "wal_region_len page_size = wal_blocks * page_size"

definition header_offset :: nat where "header_offset = 0"

definition state_offset :: "nat \<Rightarrow> nat" where "state_offset page_size = page_size"

definition wal_start :: "nat \<Rightarrow> nat" where "wal_start page_size = 2 * page_size"

definition wal_end :: "nat \<Rightarrow> nat" where
  "wal_end page_size = wal_start page_size + wal_region_len page_size"

definition region_start :: "nat \<Rightarrow> u32 \<Rightarrow> nat \<Rightarrow> nat" where
  "region_start page_size format_version region = wal_start page_size + region * wal_region_len page_size"

definition region_end :: "nat \<Rightarrow> u32 \<Rightarrow> nat \<Rightarrow> nat" where
  "region_end page_size format_version region =
     region_start page_size format_version region + wal_region_len page_size"

definition all_regions_end :: "nat \<Rightarrow> u32 \<Rightarrow> nat" where
  "all_regions_end page_size format_version =
     wal_start page_size + region_count format_version * wal_region_len page_size"

definition data_offset :: "nat \<Rightarrow> page_id \<Rightarrow> nat" where
  "data_offset page_size pid = (wal_blocks + 1 + unat pid) * page_size"

definition data_offset_for :: "nat \<Rightarrow> u32 \<Rightarrow> page_id \<Rightarrow> nat" where
  "data_offset_for page_size format_version pid =
     (region_count format_version * wal_blocks + 1 + unat pid) * page_size"

definition max_record_len :: "nat \<Rightarrow> nat" where
  "max_record_len page_size = wal_region_len page_size"

section \<open>Commit records\<close>

record wal_record =
  rec_seq :: u64
  rec_prev_seq :: u64
  rec_prev_root :: page_id
  rec_root :: page_id
  rec_next :: page_id
  rec_pages :: "(page_id \<times> bytes) list"

record record_meta =
  meta_seq :: u64
  meta_prev_seq :: u64
  meta_prev_root :: page_id
  meta_root :: page_id
  meta_next :: page_id

definition r_len :: nat where "r_len = 0"
definition r_seq :: nat where "r_seq = 4"
definition r_prev_seq :: nat where "r_prev_seq = 12"
definition r_prev_root :: nat where "r_prev_root = 20"
definition r_root :: nat where "r_root = 28"
definition r_next :: nat where "r_next = 36"
definition r_count :: nat where "r_count = 44"
definition r_pages :: nat where "r_pages = 48"
definition legacy_r_root :: nat where "legacy_r_root = 12"
definition legacy_r_next :: nat where "legacy_r_next = 20"
definition legacy_r_count :: nat where "legacy_r_count = 28"
definition legacy_r_pages :: nat where "legacy_r_pages = 32"

lemmas record_layout = r_len_def r_seq_def r_prev_seq_def r_prev_root_def r_root_def r_next_def r_count_def
  r_pages_def legacy_r_root_def legacy_r_next_def legacy_r_count_def legacy_r_pages_def

definition multi_region :: "u32 \<Rightarrow> bool" where
  "multi_region format_version \<longleftrightarrow> format_version \<ge> multi_region_format_version"

definition elides :: "u32 \<Rightarrow> bool" where
  "elides format_version \<longleftrightarrow> format_version \<ge> hole_elided_format_version"

text \<open>\<open>Iterator::position\<close> over a slice.\<close>

fun position :: "('a \<Rightarrow> bool) \<Rightarrow> 'a list \<Rightarrow> nat option" where
  "position P [] = None"
| "position P (x # xs) = (if P x then Some 0 else map_option Suc (position P xs))"

lemma position_Some:
  "position P xs = Some n \<Longrightarrow> n < length xs \<and> P (xs ! n) \<and> (\<forall>i < n. \<not> P (xs ! i))"
  by (induction xs arbitrary: n) (auto simp: nth_Cons' less_Suc_eq_0_disj split: if_splits)

lemma position_None: "position P xs = None \<longleftrightarrow> (\<forall>x \<in> set xs. \<not> P x)"
  by (induction xs) auto

lemma position_pos: "xs \<noteq> [] \<Longrightarrow> \<not> P (hd xs) \<Longrightarrow> position P xs = Some n \<Longrightarrow> 0 < n"
  by (cases xs) auto

definition zero_run_from :: "bytes \<Rightarrow> nat \<Rightarrow> nat" where
  "zero_run_from bs start = (case position (\<lambda>b. b \<noteq> 0) (drop start bs) of
     Some n \<Rightarrow> n | None \<Rightarrow> length bs - start)"

lemma zero_run_from_pos: "start < length bs \<Longrightarrow> bs ! start = 0 \<Longrightarrow> 0 < zero_run_from bs start"
  using position_pos [of "drop start bs" "\<lambda>b. b \<noteq> 0"]
  by (auto simp: zero_run_from_def hd_drop_conv_nth split: option.splits)

function zero_run_loop :: "bytes \<Rightarrow> nat \<Rightarrow> nat \<Rightarrow> nat \<Rightarrow> nat \<times> nat" where
  "zero_run_loop bs at best_at best_len =
     (if at < length bs then
        (case position (\<lambda>b. b = 0) (drop at bs) of
           None \<Rightarrow> (best_at, best_len)
         | Some offset \<Rightarrow>
             let start = at + offset; len = zero_run_from bs start in
             if len > best_len then zero_run_loop bs (start + len) start len
             else zero_run_loop bs (start + len) best_at best_len)
      else (best_at, best_len))"
  by pat_completeness auto
termination
proof (relation "measure (\<lambda>(bs, at, _, _). length bs - at)", goal_cases)
  case 1
  then show ?case by simp
next
  case (2 bs at best_at best_len offset start len)
  then have "start < length bs" "bs ! start = 0" by (auto dest!: position_Some)
  from zero_run_from_pos [OF this] 2 \<open>start < length bs\<close> show ?case by simp
next
  case (3 bs at best_at best_len offset start len)
  then have "start < length bs" "bs ! start = 0" by (auto dest!: position_Some)
  from zero_run_from_pos [OF this] 3 \<open>start < length bs\<close> show ?case by simp
qed

declare zero_run_loop.simps [simp del]

definition longest_zero_run :: "bytes \<Rightarrow> nat \<times> nat" where
  "longest_zero_run bs = zero_run_loop bs 0 0 0"

definition page_entry_header_len :: "u32 \<Rightarrow> nat" where
  "page_entry_header_len format_version = (if elides format_version then 20 else 12)"

definition page_entry_len :: "u32 \<Rightarrow> bytes \<Rightarrow> nat" where
  "page_entry_len format_version bs =
     (let hole = (if elides format_version then snd (longest_zero_run bs) else 0) in
      page_entry_header_len format_version + length bs - hole)"

section \<open>The encoder\<close>

definition push_u32 :: "bytes \<Rightarrow> u32 \<Rightarrow> bytes" where "push_u32 buf v = buf @ u32_to_le v"

definition push_u64 :: "bytes \<Rightarrow> u64 \<Rightarrow> bytes" where "push_u64 buf v = buf @ u64_to_le v"

text \<open>One iteration of the page loop of \<open>encode_record_onto\<close>.\<close>

definition push_page_entry :: "u32 \<Rightarrow> bytes \<Rightarrow> page_id \<times> bytes \<Rightarrow> bytes result" where
  "push_page_entry format_version out e = (case e of (pid, bs) \<Rightarrow>
     let out = push_u64 out pid in
     if elides format_version then
       (case longest_zero_run bs of (hole_at, hole_len) \<Rightarrow>
          if hole_len > length bs then Panic
          else let out = push_u32 out (of_nat (length bs - hole_len));
                   out = push_u32 out (of_nat hole_at);
                   out = push_u32 out (of_nat hole_len) in
               rbind (index_range bs 0 hole_at) (\<lambda>pre.
               rbind (index_range bs (hole_at + hole_len) (length bs)) (\<lambda>post.
               Ok (out @ pre @ post))))
     else Ok (push_u32 out (of_nat (length bs)) @ bs))"

definition encode_record_onto ::
  "bytes \<Rightarrow> u32 \<Rightarrow> record_meta \<Rightarrow> (page_id \<times> bytes) list \<Rightarrow> bytes result" where
  "encode_record_onto out0 format_version meta pages =
     (let start = length out0;
          out = push_u32 out0 0;
          out = push_u64 out (meta_seq meta);
          out = (if multi_region format_version
                 then push_u64 (push_u64 out (meta_prev_seq meta)) (meta_prev_root meta) else out);
          out = push_u64 out (meta_root meta);
          out = push_u64 out (meta_next meta);
          out = push_u32 out (of_nat (length pages)) in
      rbind (rfold (push_page_entry format_version) out pages) (\<lambda>out.
      let total_len = of_nat (length out - start + 8) :: u32 in
      rbind (copy_at out (start + r_len) (u32_to_le total_len)) (\<lambda>out.
      rbind (index_range out start (length out)) (\<lambda>body.
      Ok (push_u64 out (fnv1a body))))))"

definition encode_record_into ::
  "bytes \<Rightarrow> u32 \<Rightarrow> record_meta \<Rightarrow> (page_id \<times> bytes) list \<Rightarrow> bytes result" where
  "encode_record_into out format_version meta pages = encode_record_onto [] format_version meta pages"

definition meta_of :: "wal_record \<Rightarrow> record_meta" where
  "meta_of r = \<lparr>meta_seq = rec_seq r, meta_prev_seq = rec_prev_seq r, meta_prev_root = rec_prev_root r,
     meta_root = rec_root r, meta_next = rec_next r\<rparr>"

definition encode_owned :: "wal_record \<Rightarrow> u32 \<Rightarrow> bytes result" where
  "encode_owned r format_version = encode_record_into [] format_version (meta_of r) (rec_pages r)"

definition encode_record :: "wal_record \<Rightarrow> bytes result" where
  "encode_record r = encode_owned r hole_elided_format_version"

definition encode_multi_region_record :: "wal_record \<Rightarrow> bytes result" where
  "encode_multi_region_record r = encode_owned r multi_region_format_version"

definition encode_legacy_record :: "wal_record \<Rightarrow> bytes result" where
  "encode_legacy_record r = encode_owned r (multi_region_format_version - 1)"

section \<open>The decoder\<close>

definition read_u64 :: "bytes \<Rightarrow> nat \<Rightarrow> u64 result" where
  "read_u64 bs offset = rbind (index_range bs offset (offset + 8)) (\<lambda>s. Ok (u64_from_le s))"

definition read_u32 :: "bytes \<Rightarrow> nat \<Rightarrow> u32 result" where
  "read_u32 bs offset = rbind (index_at bs offset) (\<lambda>a. rbind (index_at bs (offset + 1)) (\<lambda>b.
     rbind (index_at bs (offset + 2)) (\<lambda>c. rbind (index_at bs (offset + 3)) (\<lambda>d.
     Ok (u32_from_le [a, b, c, d])))))"

text \<open>The page loop: the decoded pages and the offset after the last one.\<close>

fun decode_pages :: "bytes \<Rightarrow> bool \<Rightarrow> nat \<Rightarrow> nat \<Rightarrow> nat \<Rightarrow> ((page_id \<times> bytes) list \<times> nat) option result" where
  "decode_pages bs elide checksum_offset 0 offset = Ok (Some ([], offset))"
| "decode_pages bs elide checksum_offset (Suc n) offset =
     (let entry_header = (if elide then 20 else 12) in
      if offset + entry_header > checksum_offset then Ok None
      else rbind (read_u64 bs offset) (\<lambda>pid.
        rbind (read_u32 bs (offset + 8)) (\<lambda>stored32.
        let stored = unat stored32 in
        rbind (if elide
               then rbind (read_u32 bs (offset + 12)) (\<lambda>a. rbind (read_u32 bs (offset + 16)) (\<lambda>l. Ok (unat a, unat l)))
               else Ok (stored, 0)) (\<lambda>(hole_at, hole_len).
        let offset = offset + entry_header in
        if offset + stored > checksum_offset \<or> hole_at > stored \<or> stored + hole_len > max_page_image_len
        then Ok None
        else rbind (index_range bs offset (offset + hole_at)) (\<lambda>pre.
          rbind (index_range bs (offset + hole_at) (offset + stored)) (\<lambda>post.
          rbind (decode_pages bs elide checksum_offset n (offset + stored)) (\<lambda>rest.
          Ok (map_option (\<lambda>(ps, e). ((pid, pre @ replicate hole_len 0 @ post) # ps, e)) rest))))))))"

definition decode_record_for_version :: "bytes \<Rightarrow> u32 \<Rightarrow> wal_record option result" where
  "decode_record_for_version bs format_version =
     (let multi = multi_region format_version;
          (root_offset, next_offset, count_offset, pages_offset) =
            (if multi then (r_root, r_next, r_count, r_pages)
             else (legacy_r_root, legacy_r_next, legacy_r_count, legacy_r_pages)) in
      if length bs < pages_offset + 8 then Ok None
      else rbind (read_u32 bs r_len) (\<lambda>total32.
        let total_len = unat total32 in
        if total_len \<noteq> length bs \<or> total_len < pages_offset + 8 then Ok None
        else let checksum_offset = total_len - 8 in
          rbind (index_range bs 0 checksum_offset) (\<lambda>body.
          rbind (read_u64 bs checksum_offset) (\<lambda>stored_sum.
          if fnv1a body \<noteq> stored_sum then Ok None
          else rbind (read_u64 bs r_seq) (\<lambda>seq.
            if seq = 0 then Ok None
            else rbind (if multi then read_u64 bs r_prev_seq else Ok (seq - 1)) (\<lambda>prev_seq.
              rbind (if multi then read_u64 bs r_prev_root else Ok 0) (\<lambda>prev_root.
              rbind (read_u64 bs root_offset) (\<lambda>root.
              rbind (read_u64 bs next_offset) (\<lambda>nxt.
              rbind (read_u32 bs count_offset) (\<lambda>count32.
              rbind (decode_pages bs (elides format_version) checksum_offset (unat count32) pages_offset) (\<lambda>r.
              case r of
                None \<Rightarrow> Ok None
              | Some (pages, offset) \<Rightarrow>
                  if offset \<noteq> checksum_offset then Ok None
                  else Ok (Some \<lparr>rec_seq = seq, rec_prev_seq = prev_seq, rec_prev_root = prev_root,
                                 rec_root = root, rec_next = nxt, rec_pages = pages\<rparr>))))))))))))"

definition decode_record :: "bytes \<Rightarrow> wal_record option result" where
  "decode_record bs = decode_record_for_version bs hole_elided_format_version"

section \<open>Scanning a region\<close>

record region_scan =
  scan_records :: "wal_record list"
  append_offset :: nat

definition record_minimum :: "u32 \<Rightarrow> nat" where
  "record_minimum format_version = (if multi_region format_version then r_pages + 8 else legacy_r_pages + 8)"

function scan_loop ::
  "(nat \<Rightarrow> nat \<Rightarrow> bytes result) \<Rightarrow> u32 \<Rightarrow> nat \<Rightarrow> wal_record list \<Rightarrow> nat \<Rightarrow> region_scan result" where
  "scan_loop rd format_version region_end_offset records offset =
     (if offset + 12 \<le> region_end_offset then
        rbind (rd offset 4) (\<lambda>header.
        rbind (read_u32 header 0) (\<lambda>total32.
        let total_len = unat total32 in
        if total_len = 0 \<or> total_len < record_minimum format_version \<or> offset + total_len > region_end_offset
        then Ok \<lparr>scan_records = records, append_offset = offset\<rparr>
        else rbind (rd offset total_len) (\<lambda>buf.
          rbind (decode_record_for_version buf format_version) (\<lambda>d.
          case d of
            Some r \<Rightarrow> scan_loop rd format_version region_end_offset (records @ [r]) (offset + total_len)
          | None \<Rightarrow> Ok \<lparr>scan_records = records, append_offset = offset\<rparr>))))
      else Ok \<lparr>scan_records = records, append_offset = offset\<rparr>)"
  by pat_completeness auto
termination
  by (relation "measure (\<lambda>(_, _, e, _, offset). e - offset)") auto

declare scan_loop.simps [simp del]

definition scan_region :: "(nat \<Rightarrow> nat \<Rightarrow> bytes result) \<Rightarrow> nat \<Rightarrow> u32 \<Rightarrow> nat \<Rightarrow> region_scan result" where
  "scan_region rd page_size format_version region =
     scan_loop rd format_version (region_end page_size format_version region) []
       (region_start page_size format_version region)"

definition scan_all :: "(nat \<Rightarrow> nat \<Rightarrow> bytes result) \<Rightarrow> nat \<Rightarrow> u32 \<Rightarrow> wal_record list result" where
  "scan_all rd page_size format_version =
     rbind (rmapM (\<lambda>region. rbind (scan_region rd page_size format_version region) (\<lambda>s. Ok (scan_records s)))
       [0..<region_count format_version])
     (\<lambda>rs. Ok (sort_key rec_seq (concat rs)))"

text \<open>\<open>Iterator::max_by_key\<close>: the last of the greatest elements.\<close>

definition max_by_key :: "('a \<Rightarrow> 'b::linorder) \<Rightarrow> 'a list \<Rightarrow> 'a option" where
  "max_by_key f xs = fold (\<lambda>x best. case best of None \<Rightarrow> Some x
     | Some b \<Rightarrow> if f b \<le> f x then Some x else Some b) xs None"

definition scan :: "(nat \<Rightarrow> nat \<Rightarrow> bytes result) \<Rightarrow> nat \<Rightarrow> wal_record option result" where
  "scan rd page_size = rbind (scan_region rd page_size 4 0) (\<lambda>s. Ok (max_by_key rec_seq (scan_records s)))"

end
