(* ===== verification/Wal_Codec.thy ===== *)
theory Wal_Codec
  imports Wal
begin

text \<open>
  The commit-record codec is exact: the encoder writes the record image, the decoder inverts
  it in every layout, rejects every single-byte corruption, and never panics on any bytes;
  the elided hole is the longest run of zeros.
\<close>

section \<open>The longest zero run\<close>

definition zero_run :: "bytes \<Rightarrow> nat \<Rightarrow> nat \<Rightarrow> bool" where
  "zero_run bs a n \<longleftrightarrow> a + n \<le> length bs \<and> (\<forall>i. a \<le> i \<longrightarrow> i < a + n \<longrightarrow> bs ! i = 0)"

lemma zero_run_from_spec:
  assumes "start \<le> length bs"
  shows "zero_run bs start (zero_run_from bs start)"
    and "start + zero_run_from bs start < length bs \<Longrightarrow> bs ! (start + zero_run_from bs start) \<noteq> 0"
proof -
  let ?p = "position (\<lambda>b. b \<noteq> 0) (drop start bs)"
  have "zero_run bs start (zero_run_from bs start) \<and>
    (start + zero_run_from bs start < length bs \<longrightarrow> bs ! (start + zero_run_from bs start) \<noteq> 0)"
  proof (cases ?p)
    case None
    then have "bs ! i = 0" if "start \<le> i" "i < length bs" for i
      using that nth_mem [of "i - start" "drop start bs"] by (auto simp: position_None)
    then show ?thesis using assms None by (simp add: zero_run_def zero_run_from_def)
  next
    case (Some n)
    then have n: "start + n < length bs" "bs ! (start + n) \<noteq> 0" "\<forall>i < n. bs ! (start + i) = 0"
      using position_Some [OF Some] by auto
    have "bs ! i = 0" if "start \<le> i" "i < start + n" for i
      using n(3) that by (auto dest: spec [of _ "i - start"])
    then show ?thesis using n Some by (simp add: zero_run_def zero_run_from_def)
  qed
  then show "zero_run bs start (zero_run_from bs start)"
    and "start + zero_run_from bs start < length bs \<Longrightarrow> bs ! (start + zero_run_from bs start) \<noteq> 0"
    by blast+
qed

text \<open>
  The loop's invariant: the best run so far is a run, and every run that starts before
  \<open>at\<close> is at most as long.
\<close>

lemma zero_run_loop_spec:
  assumes "at \<le> length bs" "zero_run bs ba bl" "\<And>s n. s < at \<Longrightarrow> zero_run bs s n \<Longrightarrow> n \<le> bl"
  shows "\<exists>a l. zero_run_loop bs at ba bl = (a, l) \<and> zero_run bs a l \<and> (\<forall>s n. zero_run bs s n \<longrightarrow> n \<le> l)"
  using assms
proof (induction bs at ba bl rule: zero_run_loop.induct)
  case (1 bs at ba bl)
  have last: "n \<le> bl" if "at \<ge> length bs \<or> (\<forall>i. at \<le> i \<longrightarrow> i < length bs \<longrightarrow> bs ! i \<noteq> 0)" "zero_run bs s n" for s n
  proof (cases "s < at")
    case True
    then show ?thesis using "1.prems"(3) that(2) by blast
  next
    case False
    have "bs ! s = 0 \<and> s < length bs" if "0 < n" using \<open>zero_run bs s n\<close> that by (auto simp: zero_run_def)
    then have "n = 0" using that(1) False by (cases "n = 0") auto
    then show ?thesis by simp
  qed
  show ?case
  proof (cases "at < length bs")
    case False
    then show ?thesis using "1.prems" last by (subst zero_run_loop.simps) auto
  next
    case lt: True
    show ?thesis
    proof (cases "position (\<lambda>b. b = 0) (drop at bs)")
      case None
      have "bs ! i \<noteq> 0" if "at \<le> i" "i < length bs" for i
        using that None nth_mem [of "i - at" "drop at bs"] by (auto simp: position_None)
      then show ?thesis using "1.prems" lt None last by (subst zero_run_loop.simps) auto
    next
      case (Some off)
      define start where "start = at + off"
      define len where "len = zero_run_from bs start"
      from position_Some [OF Some] have st: "start < length bs" "bs ! start = 0"
        and bf: "\<forall>i < off. bs ! (at + i) \<noteq> 0"
        using lt by (auto simp: start_def)
      have before: "bs ! i \<noteq> 0" if "at \<le> i" "i < start" for i
        using bf that by (auto simp: start_def dest!: spec [of _ "i - at"])
      have run: "zero_run bs start len" and stop: "start + len < length bs \<Longrightarrow> bs ! (start + len) \<noteq> 0"
        using zero_run_from_spec [of start bs] st unfolding len_def by auto
      have new: "n \<le> max bl len" if "s < start + len" "zero_run bs s n" for s n
      proof (cases "s < at")
        case True
        then show ?thesis using "1.prems"(3) that(2) by fastforce
      next
        case False
        have "s + n \<le> start + len" if "0 < n"
        proof (rule ccontr)
          assume "\<not> s + n \<le> start + len"
          then have "bs ! (start + len) = 0" "start + len < length bs"
            using \<open>zero_run bs s n\<close> \<open>s < start + len\<close> by (auto simp: zero_run_def)
          then show False using stop by blast
        qed
        moreover have "start \<le> s" if "0 < n"
          using before [of s] False \<open>zero_run bs s n\<close> that by (fastforce simp: zero_run_def not_less)
        ultimately show ?thesis by (cases n) auto
      qed
      have le: "start + len \<le> length bs" using run by (simp add: zero_run_def)
      show ?thesis
      proof (cases "len > bl")
        case True
        have "\<exists>a l. zero_run_loop bs (start + len) start len = (a, l) \<and> zero_run bs a l \<and> (\<forall>s n. zero_run bs s n \<longrightarrow> n \<le> l)"
          by (rule "1.IH"(1) [OF lt Some start_def len_def True])
            (use le run new True in \<open>auto simp: max_def\<close>)
        then show ?thesis using lt Some True
          by (subst zero_run_loop.simps) (simp add: start_def [symmetric] len_def [symmetric] Let_def)
      next
        case False
        have "\<exists>a l. zero_run_loop bs (start + len) ba bl = (a, l) \<and> zero_run bs a l \<and> (\<forall>s n. zero_run bs s n \<longrightarrow> n \<le> l)"
          by (rule "1.IH"(2) [OF lt Some start_def len_def False])
            (use le "1.prems" new False in \<open>auto simp: max_def\<close>)
        then show ?thesis using lt Some False
          by (subst zero_run_loop.simps) (simp add: start_def [symmetric] len_def [symmetric] Let_def)
      qed
    qed
  qed
qed

lemma longest_zero_run_spec:
  assumes "longest_zero_run bs = (a, l)"
  shows "zero_run bs a l" "zero_run bs s n \<Longrightarrow> n \<le> l"
  using zero_run_loop_spec [of 0 bs 0 0] assms by (auto simp: longest_zero_run_def zero_run_def)

lemma zero_run_restore:
  assumes "zero_run bs a l"
  shows "take a bs @ replicate l 0 @ drop (a + l) bs = bs"
proof -
  have "take l (drop a bs) = replicate l 0"
    using assms by (intro nth_equalityI) (auto simp: zero_run_def)
  then have "take a bs @ replicate l 0 @ drop (a + l) bs = take a bs @ take l (drop a bs) @ drop l (drop a bs)"
    by (simp add: add.commute)
  then show ?thesis by (simp only: append_take_drop_id)
qed

section \<open>The image of a record\<close>

definition page_entry_image :: "u32 \<Rightarrow> page_id \<times> bytes \<Rightarrow> bytes" where
  "page_entry_image fv e = u64_to_le (fst e) @
     (if elides fv
      then (case longest_zero_run (snd e) of (a, l) \<Rightarrow>
        u32_to_le (of_nat (length (snd e) - l)) @ u32_to_le (of_nat a) @ u32_to_le (of_nat l) @
        take a (snd e) @ drop (a + l) (snd e))
      else u32_to_le (of_nat (length (snd e))) @ snd e)"

definition record_head :: "u32 \<Rightarrow> record_meta \<Rightarrow> nat \<Rightarrow> bytes" where
  "record_head fv m n = u64_to_le (meta_seq m) @
     (if multi_region fv then u64_to_le (meta_prev_seq m) @ u64_to_le (meta_prev_root m) else []) @
     u64_to_le (meta_root m) @ u64_to_le (meta_next m) @ u32_to_le (of_nat n)"

definition record_len :: "u32 \<Rightarrow> (page_id \<times> bytes) list \<Rightarrow> nat" where
  "record_len fv pages = record_minimum fv + length (concat (map (page_entry_image fv) pages))"

definition record_body :: "u32 \<Rightarrow> record_meta \<Rightarrow> (page_id \<times> bytes) list \<Rightarrow> bytes" where
  "record_body fv m pages = u32_to_le (of_nat (record_len fv pages)) @ record_head fv m (length pages) @
     concat (map (page_entry_image fv) pages)"

definition record_image :: "u32 \<Rightarrow> record_meta \<Rightarrow> (page_id \<times> bytes) list \<Rightarrow> bytes" where
  "record_image fv m pages = record_body fv m pages @ u64_to_le (fnv1a (record_body fv m pages))"

lemma push_page_entry_image: "push_page_entry fv out e = Ok (out @ page_entry_image fv e)"
proof (cases "elides fv")
  case True
  obtain pid bs where e: "e = (pid, bs)" by (cases e)
  obtain a l where al: "longest_zero_run bs = (a, l)" by fastforce
  have "a + l \<le> length bs" using longest_zero_run_spec(1) [OF al] by (simp add: zero_run_def)
  then show ?thesis using True al e
    by (simp add: push_page_entry_def page_entry_image_def push_u32_def push_u64_def index_range_in slice_def)
next
  case False
  then show ?thesis
    by (cases e) (simp add: push_page_entry_def page_entry_image_def push_u32_def push_u64_def)
qed

lemma rfold_push: "rfold (push_page_entry fv) out pages = Ok (out @ concat (map (page_entry_image fv) pages))"
  by (induction pages arbitrary: out) (auto simp: push_page_entry_image)

lemma length_record_head: "length (record_head fv m n) + 12 = record_minimum fv"
  by (simp add: record_head_def record_minimum_def record_layout)

lemma length_record_body: "length (record_body fv m pages) + 8 = record_len fv pages"
  using length_record_head [of fv m "length pages"] by (simp add: record_body_def record_len_def)

lemma length_record_image: "length (record_image fv m pages) = record_len fv pages"
  using length_record_body [of fv m pages] by (simp add: record_image_def)

lemma encode_record_onto_image:
  "encode_record_onto out fv m pages = Ok (out @ record_image fv m pages)"
proof -
  define tl where "tl = record_head fv m (length pages) @ concat (map (page_entry_image fv) pages)"
  define pre where "pre = out @ u32_to_le 0 @ tl"
  have pages: "rfold (push_page_entry fv) (out @ u32_to_le 0 @ record_head fv m (length pages)) pages = Ok pre"
    by (simp add: rfold_push pre_def tl_def)
  have body: "record_body fv m pages = u32_to_le (of_nat (record_len fv pages)) @ tl"
    by (simp add: record_body_def tl_def)
  have total_len: "length pre - length out + 8 = record_len fv pages"
    using length_record_body [of fv m pages] by (simp add: pre_def body)
  have sp: "splice (length out) (u32_to_le (of_nat (record_len fv pages))) pre = out @ record_body fv m pages"
    unfolding pre_def body by (simp add: splice_def)
  have lp: "length out + 4 \<le> length pre" by (simp add: pre_def)
  have "encode_record_onto out fv m pages =
      rbind (rfold (push_page_entry fv) (out @ u32_to_le 0 @ record_head fv m (length pages)) pages) (\<lambda>out'.
      rbind (copy_at out' (length out) (u32_to_le (of_nat (length out' - length out + 8)))) (\<lambda>out'.
      rbind (index_range out' (length out) (length out')) (\<lambda>body. Ok (out' @ u64_to_le (fnv1a body)))))"
    by (simp add: encode_record_onto_def push_u32_def push_u64_def record_head_def r_len_def Let_def)
  also have "\<dots> = Ok (out @ record_image fv m pages)"
    using lp sp unfolding pages
    by (simp add: total_len copy_at_def index_range_in slice_def record_image_def del: of_nat_add of_nat_diff)
  finally show ?thesis .
qed

lemma page_entry_image_len: "length (page_entry_image fv e) = page_entry_len fv (snd e)"
proof -
  obtain a l where al: "longest_zero_run (snd e) = (a, l)" by fastforce
  have "a + l \<le> length (snd e)" using longest_zero_run_spec(1) [OF al] by (simp add: zero_run_def)
  then show ?thesis
    using al by (simp add: page_entry_image_def page_entry_len_def page_entry_header_len_def)
qed

section \<open>Decoding an encoded record\<close>

lemma read_u64_at: "length xs = n \<Longrightarrow> read_u64 (xs @ u64_to_le w @ ys) n = Ok w"
  by (simp add: read_u64_def index_range_in slice_def)

lemma list4: "length xs = 4 \<Longrightarrow> [xs ! 0, xs ! 1, xs ! 2, xs ! 3] = xs"
  by (auto simp: eval_nat_numeral length_Suc_conv)

lemma read_u32_eq:
  assumes "n + 4 \<le> length bs"
  shows "read_u32 bs n = Ok (u32_from_le (slice n (n + 4) bs))"
proof -
  have "[bs ! n, bs ! (n + 1), bs ! (n + 2), bs ! (n + 3)] = slice n (n + 4) bs"
    using assms list4 [of "slice n (n + 4) bs"] by (simp add: slice_def)
  then show ?thesis using assms by (simp add: read_u32_def index_at_in)
qed

lemma read_u32_at: "length xs = n \<Longrightarrow> read_u32 (xs @ u32_to_le w @ ys) n = Ok w"
  by (subst read_u32_eq) (simp_all add: slice_def)

definition page_ok :: "page_id \<times> bytes \<Rightarrow> bool" where
  "page_ok e \<longleftrightarrow> length (snd e) \<le> max_page_image_len"

lemma decode_pages_step_elided:
  assumes bs: "bs = pre @ page_entry_image fv (pid, img) @ post" and el: "elides fv"
    and ok: "length img \<le> max_page_image_len" and co: "length pre + length (page_entry_image fv (pid, img)) \<le> co" "co \<le> length bs"
  shows "decode_pages bs True co (Suc n) (length pre) =
    rbind (decode_pages bs True co n (length pre + length (page_entry_image fv (pid, img))))
      (\<lambda>rest. Ok (map_option (\<lambda>(ps, e). ((pid, img) # ps, e)) rest))"
proof -
  obtain a l where al: "longest_zero_run img = (a, l)" by fastforce
  have run: "zero_run img a l" by (rule longest_zero_run_spec(1) [OF al])
  then have le: "a + l \<le> length img" by (simp add: zero_run_def)
  obtain s where s: "length img = s + l" "a \<le> s" using le by (metis add_le_imp_le_right le_add_diff_inverse2 le_trans le_add2)
  have small: "unat (of_nat s :: u32) = s" "unat (of_nat a :: u32) = a" "unat (of_nat l :: u32) = l"
    using ok s by (intro unat_of_nat_u32, simp add: max_page_image_len_def)+
  let ?st = "take a img" and ?en = "drop (a + l) img"
  have e: "bs = pre @ u64_to_le pid @ u32_to_le (of_nat s) @ u32_to_le (of_nat a) @ u32_to_le (of_nat l) @ ?st @ ?en @ post"
    using el al s by (simp add: bs page_entry_image_def)
  have len: "length (page_entry_image fv (pid, img)) = 20 + s"
    using el al s by (simp add: page_entry_image_def)
  have r1: "read_u64 bs (length pre) = Ok pid" unfolding e by (rule read_u64_at) simp
  have r2: "read_u32 bs (length pre + 8) = Ok (of_nat s)"
    unfolding e using read_u32_at [of "pre @ u64_to_le pid"] by simp
  have r3: "read_u32 bs (length pre + 12) = Ok (of_nat a)"
    unfolding e using read_u32_at [of "pre @ u64_to_le pid @ u32_to_le (of_nat s)"] by simp
  have r4: "read_u32 bs (length pre + 16) = Ok (of_nat l)"
    unfolding e using read_u32_at [of "pre @ u64_to_le pid @ u32_to_le (of_nat s) @ u32_to_le (of_nat a)"] by simp
  let ?hd = "pre @ u64_to_le pid @ u32_to_le (of_nat s) @ u32_to_le (of_nat a) @ u32_to_le (of_nat l)"
  have s1: "slice (length pre + 20) (length pre + 20 + a) bs = ?st"
    unfolding e using s slice_append_here [of ?hd "length pre + 20" ?st "length pre + 20 + a" "?en @ post"] by simp
  have s2: "slice (length pre + 20 + a) (length pre + 20 + s) bs = ?en"
    unfolding e using s slice_append_here [of "?hd @ ?st" "length pre + 20 + a" ?en "length pre + 20 + s" post] by simp
  have b: "length pre + 20 + s \<le> co" "co \<le> length bs" using co len by simp_all
  have "?st @ replicate l 0 @ ?en = img" by (rule zero_run_restore [OF run])
  then show ?thesis
    using b ok s
    by (simp add: r1 r2 r3 r4 Let_def small len s1 s2 index_range_in add.assoc [symmetric] del: of_nat_diff)
qed

lemma decode_pages_step_plain:
  assumes bs: "bs = pre @ page_entry_image fv (pid, img) @ post" and el: "\<not> elides fv"
    and ok: "length img \<le> max_page_image_len" and co: "length pre + length (page_entry_image fv (pid, img)) \<le> co" "co \<le> length bs"
  shows "decode_pages bs False co (Suc n) (length pre) =
    rbind (decode_pages bs False co n (length pre + length (page_entry_image fv (pid, img))))
      (\<lambda>rest. Ok (map_option (\<lambda>(ps, e). ((pid, img) # ps, e)) rest))"
proof -
  have small: "unat (of_nat (length img) :: u32) = length img"
    using ok by (intro unat_of_nat_u32, simp add: max_page_image_len_def)
  have e: "bs = pre @ u64_to_le pid @ u32_to_le (of_nat (length img)) @ img @ post"
    using el by (simp add: bs page_entry_image_def)
  have len: "length (page_entry_image fv (pid, img)) = 12 + length img"
    using el by (simp add: page_entry_image_def)
  have r1: "read_u64 bs (length pre) = Ok pid" unfolding e by (rule read_u64_at) simp
  have r2: "read_u32 bs (length pre + 8) = Ok (of_nat (length img))"
    unfolding e using read_u32_at [of "pre @ u64_to_le pid"] by simp
  have s1: "slice (length pre + 12) (length pre + 12 + length img) bs = img"
    unfolding e using slice_append_here [of "pre @ u64_to_le pid @ u32_to_le (of_nat (length img))" "length pre + 12" img
        "length pre + 12 + length img" post] by simp
  have b: "length pre + 12 + length img \<le> co" "co \<le> length bs" using co len by simp_all
  then show ?thesis
    using ok by (simp add: r1 r2 Let_def small len s1 index_range_in add.assoc [symmetric])
qed

lemma decode_pages_image:
  assumes "bs = pre @ concat (map (page_entry_image fv) pages) @ post" "\<forall>e \<in> set pages. page_ok e"
    and "co = length pre + length (concat (map (page_entry_image fv) pages))"
  shows "decode_pages bs (elides fv) co (length pages) (length pre) = Ok (Some (pages, co))"
  using assms
proof (induction pages arbitrary: pre)
  case Nil
  then show ?case by simp
next
  case (Cons e pages)
  obtain pid img where e: "e = (pid, img)" by (cases e)
  let ?r = "concat (map (page_entry_image fv) pages)"
  have bs: "bs = pre @ page_entry_image fv (pid, img) @ (?r @ post)" using Cons.prems(1) e by simp
  have IH: "decode_pages bs (elides fv) co (length pages) (length pre + length (page_entry_image fv (pid, img))) =
      Ok (Some (pages, co))"
    using Cons.IH [of "pre @ page_entry_image fv (pid, img)"] Cons.prems e by simp
  have c: "length pre + length (page_entry_image fv (pid, img)) \<le> co" "co \<le> length bs" "length img \<le> max_page_image_len"
    using Cons.prems e by (simp_all add: page_ok_def)
  show ?case
    using decode_pages_step_elided [OF bs _ c(3,1,2)] decode_pages_step_plain [OF bs _ c(3,1,2)] IH
    by (cases "elides fv") (simp_all add: e del: decode_pages.simps)
qed

text \<open>
  A record that can be written: a non-zero sequence number, page images the decoder accepts,
  a length that fits its 32-bit field, and, in the single-region layout, the implied
  predecessor.
\<close>

definition record_ok :: "u32 \<Rightarrow> wal_record \<Rightarrow> bool" where
  "record_ok fv r \<longleftrightarrow> rec_seq r \<noteq> 0 \<and> (\<forall>e \<in> set (rec_pages r). page_ok e) \<and>
     record_len fv (rec_pages r) < 4294967296 \<and>
     (multi_region fv \<or> (rec_prev_seq r = rec_seq r - 1 \<and> rec_prev_root r = 0))"

lemma record_len_pages: "length pages \<le> record_len fv pages"
proof -
  have "length pages \<le> length (concat (map (page_entry_image fv) pages))"
    by (induction pages) (auto simp: page_entry_image_def)
  then show ?thesis by (simp add: record_len_def)
qed

lemma decode_record_image:
  assumes "record_ok fv r"
  shows "decode_record_for_version (record_image fv (meta_of r) (rec_pages r)) fv = Ok (Some r)"
proof -
  define pages where "pages = rec_pages r"
  define m where "m = meta_of r"
  define body where "body = record_body fv m pages"
  define bs where "bs = record_image fv m pages"
  define L where "L = record_len fv pages"
  have bs: "bs = body @ u64_to_le (fnv1a body)" by (simp add: bs_def record_image_def body_def)
  have lens: "length bs = L" "length body = L - 8" "8 \<le> L"
    using length_record_image [of fv m pages] length_record_body [of fv m pages]
    by (simp_all add: bs_def body_def L_def)
  have Lmin: "record_minimum fv \<le> L" by (simp add: L_def record_len_def)
  have L32: "L < 4294967296" using assms by (simp add: record_ok_def L_def pages_def)
  have cnt: "unat (of_nat (length pages) :: u32) = length pages"
    using L32 record_len_pages [of pages fv] by (intro unat_of_nat_u32) (simp add: L_def)
  have tot: "unat (of_nat L :: u32) = L" using L32 by (rule unat_of_nat_u32)
  let ?ent = "concat (map (page_entry_image fv) pages)"
  let ?head = "u32_to_le (of_nat L) @ record_head fv m (length pages)"
  have e: "bs = ?head @ ?ent @ u64_to_le (fnv1a body)"
    by (simp add: bs body_def record_body_def L_def)
  have hl: "length ?head + 8 = record_minimum fv" using length_record_head [of fv m "length pages"] by simp
  have co: "L - 8 = length ?head + length ?ent"
    using hl by (simp add: L_def record_len_def)
  have pg: "decode_pages bs (elides fv) (L - 8) (length pages) (record_minimum fv - 8) = Ok (Some (pages, L - 8))"
    using decode_pages_image [OF e _ co] assms hl
    by (simp add: record_ok_def pages_def add.commute [of _ 12] diff_add_inverse2 flip: hl)
  have r0: "read_u32 bs 0 = Ok (of_nat L)" unfolding e using read_u32_at [of "[]" 0] by simp
  have ck: "read_u64 bs (L - 8) = Ok (fnv1a body)" unfolding bs
    using read_u64_at [of body "L - 8" "fnv1a body" "[]"] lens by simp
  have bd: "slice 0 (L - 8) bs = body" by (simp add: bs slice_def lens)
  have sq: "read_u64 bs 4 = Ok (rec_seq r)"
    unfolding e record_head_def using read_u64_at [of "u32_to_le (of_nat L)" 4] by (simp add: m_def meta_of_def)
  show ?thesis
  proof (cases "multi_region fv")
    case True
    have f: "read_u64 bs 12 = Ok (rec_prev_seq r)" "read_u64 bs 20 = Ok (rec_prev_root r)"
      "read_u64 bs 28 = Ok (rec_root r)" "read_u64 bs 36 = Ok (rec_next r)"
      "read_u32 bs 44 = Ok (of_nat (length pages))"
      unfolding e record_head_def
      using True
        read_u64_at [of "u32_to_le (of_nat L) @ u64_to_le (rec_seq r)" 12]
        read_u64_at [of "u32_to_le (of_nat L) @ u64_to_le (rec_seq r) @ u64_to_le (rec_prev_seq r)" 20]
        read_u64_at [of "u32_to_le (of_nat L) @ u64_to_le (rec_seq r) @ u64_to_le (rec_prev_seq r) @
          u64_to_le (rec_prev_root r)" 28]
        read_u64_at [of "u32_to_le (of_nat L) @ u64_to_le (rec_seq r) @ u64_to_le (rec_prev_seq r) @
          u64_to_le (rec_prev_root r) @ u64_to_le (rec_root r)" 36]
        read_u32_at [of "u32_to_le (of_nat L) @ u64_to_le (rec_seq r) @ u64_to_le (rec_prev_seq r) @
          u64_to_le (rec_prev_root r) @ u64_to_le (rec_root r) @ u64_to_le (rec_next r)" 44]
      by (simp_all add: m_def meta_of_def)
    show ?thesis
      using True assms Lmin pg lens
      unfolding m_def [symmetric] pages_def [symmetric] bs_def [symmetric]
      by (simp add: decode_record_for_version_def record_layout record_minimum_def record_ok_def Let_def r0 tot ck bd
          sq f cnt [unfolded pages_def] index_range_in pages_def)
  next
    case False
    have f: "read_u64 bs 12 = Ok (rec_root r)" "read_u64 bs 20 = Ok (rec_next r)"
      "read_u32 bs 28 = Ok (of_nat (length pages))"
      unfolding e record_head_def
      using False
        read_u64_at [of "u32_to_le (of_nat L) @ u64_to_le (rec_seq r)" 12]
        read_u64_at [of "u32_to_le (of_nat L) @ u64_to_le (rec_seq r) @ u64_to_le (rec_root r)" 20]
        read_u32_at [of "u32_to_le (of_nat L) @ u64_to_le (rec_seq r) @ u64_to_le (rec_root r) @
          u64_to_le (rec_next r)" 28]
      by (simp_all add: m_def meta_of_def)
    show ?thesis
      using False assms Lmin pg lens
      unfolding m_def [symmetric] pages_def [symmetric] bs_def [symmetric]
      by (simp add: decode_record_for_version_def record_layout record_minimum_def record_ok_def Let_def r0 tot ck bd
          sq f cnt [unfolded pages_def] index_range_in pages_def)
  qed
qed

section \<open>Safety of the decoder\<close>

lemma read_u64_not_Panic [simp]: "read_u64 bs n = Panic \<longleftrightarrow> \<not> n + 8 \<le> length bs"
  by (auto simp: read_u64_def)

lemma read_u32_not_Panic [simp]: "read_u32 bs n = Panic \<longleftrightarrow> \<not> n + 4 \<le> length bs"
  by (auto simp: read_u32_def)

lemma read_not_Err [simp]: "read_u64 bs n \<noteq> Err e" "read_u32 bs n \<noteq> Err e"
  by (auto simp: read_u64_def read_u32_def)

lemma decode_pages_not_Panic: "co \<le> length bs \<Longrightarrow> decode_pages bs el co n offset \<noteq> Panic"
proof (induction n arbitrary: offset)
  case (Suc n)
  then show ?case by (auto simp: Let_def split: if_splits)
qed simp

lemma decode_pages_not_Err: "decode_pages bs el co n offset \<noteq> Err e"
  by (induction n arbitrary: offset) (auto simp: Let_def split: if_splits)

lemma decode_record_not_Panic: "decode_record_for_version bs fv \<noteq> Panic"
  by (auto simp: decode_record_for_version_def record_layout Let_def
      dest: decode_pages_not_Panic [THEN notE, rotated] split: if_splits option.splits)

lemma decode_record_not_Err: "decode_record_for_version bs fv \<noteq> Err e"
  by (auto simp: decode_record_for_version_def Let_def decode_pages_not_Err split: if_splits option.splits)

lemma decode_record_total: "\<exists>r. decode_record_for_version bs fv = Ok r"
  using decode_record_not_Panic decode_record_not_Err by (metis result.exhaust)

text \<open>What an accepted record guarantees: its length field and its checksum.\<close>

lemma decode_record_SomeD:
  assumes "decode_record_for_version bs fv = Ok (Some r)"
  shows "record_minimum fv \<le> length bs" "unat (u32_from_le (take 4 bs)) = length bs"
    "fnv1a (take (length bs - 8) bs) = u64_from_le (drop (length bs - 8) bs)" "rec_seq r \<noteq> 0"
proof -
  have m: "record_minimum fv \<le> length bs" "length bs \<ge> 40"
    using assms by (auto simp: decode_record_for_version_def record_minimum_def record_layout Let_def split: if_splits)
  have "read_u32 bs 0 = Ok (u32_from_le (take 4 bs))" using m(2) by (simp add: read_u32_eq slice_def)
  moreover have "read_u64 bs (length bs - 8) = Ok (u64_from_le (drop (length bs - 8) bs))"
    using m(2) by (simp add: read_u64_def index_range_in slice_def)
  ultimately have "unat (u32_from_le (take 4 bs)) = length bs \<and>
    fnv1a (take (length bs - 8) bs) = u64_from_le (drop (length bs - 8) bs) \<and> rec_seq r \<noteq> 0"
    using assms m
    by (auto simp: decode_record_for_version_def r_len_def slice_def Let_def
        split: if_split_asm option.split_asm prod.split_asm) (metis wal_record.select_convs(1))+
  then show "unat (u32_from_le (take 4 bs)) = length bs"
    "fnv1a (take (length bs - 8) bs) = u64_from_le (drop (length bs - 8) bs)" "rec_seq r \<noteq> 0"
    by blast+
qed (use assms in \<open>auto simp: decode_record_for_version_def record_minimum_def record_layout Let_def split: if_splits\<close>)

lemma u64_from_le_inj: "length xs = 8 \<Longrightarrow> length ys = 8 \<Longrightarrow> u64_from_le xs = u64_from_le ys \<Longrightarrow> xs = ys"
  by (metis u64_le_codec_inv)

lemma fnv1a_update: "i < length xs \<Longrightarrow> b \<noteq> xs ! i \<Longrightarrow> fnv1a (xs[i := b]) \<noteq> fnv1a xs"
  using fnv1a_single_byte [of b "xs ! i" "take i xs" "drop (Suc i) xs"]
  by (simp add: upd_conv_take_nth_drop id_take_nth_drop [symmetric])

text \<open>Changing one byte of an accepted record makes the decoder reject it.\<close>

lemma decode_record_single_byte:
  assumes ok: "decode_record_for_version bs fv = Ok (Some r)" and i: "i < length bs" and b: "b \<noteq> bs ! i"
  shows "decode_record_for_version (bs[i := b]) fv = Ok None"
proof -
  note D = decode_record_SomeD [OF ok]
  let ?n = "length bs - 8"
  have False if "decode_record_for_version (bs[i := b]) fv = Ok (Some r')" for r'
  proof -
    note D' = decode_record_SomeD [OF that]
    have n: "8 \<le> length bs" using D(1) by (simp add: record_minimum_def record_layout split: if_splits)
    show False
    proof (cases "i < ?n")
      case True
      then have "drop ?n (bs[i := b]) = drop ?n bs" by simp
      then have "fnv1a ((take ?n bs)[i := b]) = fnv1a (take ?n bs)"
        using D(3) D'(3) by (simp add: take_update_swap)
      then show False using fnv1a_update [of i "take ?n bs" b] True b by simp
    next
      case False
      then have "take ?n (bs[i := b]) = take ?n bs" by simp
      then have "u64_from_le (drop ?n (bs[i := b])) = u64_from_le (drop ?n bs)"
        using D(3) D'(3) by simp
      then have "drop ?n (bs[i := b]) = drop ?n bs" using n by (intro u64_from_le_inj) auto
      then have "drop ?n (bs[i := b]) ! (i - ?n) = drop ?n bs ! (i - ?n)" by simp
      then show False using False i b by simp
    qed
  qed
  then show ?thesis using decode_record_total [of "bs[i := b]" fv] by (metis not_None_eq)
qed

section \<open>Scanning a region\<close>

lemma scan_loop_record:
  assumes rd4: "rd offset 4 = Ok (take 4 bs)" and rdn: "rd offset (length bs) = Ok bs"
    and dec: "decode_record_for_version bs fv = Ok (Some r)" and fit: "offset + length bs \<le> e"
  shows "scan_loop rd fv e acc offset = scan_loop rd fv e (acc @ [r]) (offset + length bs)"
proof -
  note D = decode_record_SomeD [OF dec]
  have m: "40 \<le> record_minimum fv" by (simp add: record_minimum_def record_layout)
  have "read_u32 (take 4 bs) 0 = Ok (u32_from_le (take 4 bs))"
    using D(1) m by (simp add: read_u32_eq slice_def)
  then show ?thesis
    using assms D m by (subst scan_loop.simps) (auto simp: Let_def)
qed

text \<open>
  A region whose bytes are the images of \<open>rs\<close> one after the other and then something the
  decoder does not accept scans to exactly \<open>rs\<close>: the scan stops at the first empty or
  torn record and appending continues there.
\<close>

definition region_stops :: "(nat \<Rightarrow> nat \<Rightarrow> bytes result) \<Rightarrow> u32 \<Rightarrow> nat \<Rightarrow> nat \<Rightarrow> bool" where
  "region_stops rd fv e offset \<longleftrightarrow> scan_loop rd fv e [] offset = Ok \<lparr>scan_records = [], append_offset = offset\<rparr>"

lemma scan_loop_acc:
  "scan_loop rd fv e (pre @ acc) offset =
     rbind (scan_loop rd fv e acc offset) (\<lambda>s. Ok (s\<lparr>scan_records := pre @ scan_records s\<rparr>))"
proof (induction rd fv e acc offset rule: scan_loop.induct)
  case (1 rd fv e acc offset)
  show ?case
    by (subst (1 2) scan_loop.simps)
      (auto simp: Let_def rbind_assoc "1.IH" [unfolded Let_def, simplified] intro!: rbind_cong split: option.splits)
qed

lemma scan_loop_images:
  assumes "\<And>a n. offset \<le> a \<Longrightarrow> a + n \<le> offset + length (concat (map (\<lambda>r. record_image fv (meta_of r) (rec_pages r)) rs)) \<Longrightarrow>
      rd a n = Ok (slice (a - offset) (a - offset + n) (concat (map (\<lambda>r. record_image fv (meta_of r) (rec_pages r)) rs)))"
    and "\<forall>r \<in> set rs. record_ok fv r"
    and "offset + length (concat (map (\<lambda>r. record_image fv (meta_of r) (rec_pages r)) rs)) \<le> e"
  shows "scan_loop rd fv e acc offset = scan_loop rd fv e (acc @ rs)
    (offset + length (concat (map (\<lambda>r. record_image fv (meta_of r) (rec_pages r)) rs)))"
  using assms
proof (induction rs arbitrary: acc offset)
  case Nil
  then show ?case by simp
next
  case (Cons r rs)
  let ?img = "\<lambda>r. record_image fv (meta_of r) (rec_pages r)"
  let ?b = "?img r" and ?t = "concat (map ?img rs)"
  have dec: "decode_record_for_version ?b fv = Ok (Some r)" using Cons.prems(2) by (intro decode_record_image) simp
  note D = decode_record_SomeD [OF dec]
  have m: "40 \<le> record_minimum fv" by (simp add: record_minimum_def record_layout)
  have rd: "rd a n = Ok (slice (a - offset) (a - offset + n) (?b @ ?t))"
    if "offset \<le> a" "a + n \<le> offset + length ?b + length ?t" for a n
    using Cons.prems(1) [of a n] that by simp
  have "scan_loop rd fv e acc offset = scan_loop rd fv e (acc @ [r]) (offset + length ?b)"
    using rd [of offset 4] rd [of offset "length ?b"] D(1) m Cons.prems(3)
    by (intro scan_loop_record [OF _ _ dec]) (simp_all add: slice_def)
  also have "\<dots> = scan_loop rd fv e ((acc @ [r]) @ rs) (offset + length ?b + length ?t)"
  proof (rule Cons.IH)
    fix a n
    assume a: "offset + length ?b \<le> a" "a + n \<le> offset + length ?b + length ?t"
    have "slice (a - offset) (a - offset + n) (?b @ ?t) =
        slice (a - (offset + length ?b)) (a - (offset + length ?b) + n) ?t"
      using slice_append_skip [of ?b "length ?b" "a - (offset + length ?b)" "a - (offset + length ?b) + n" ?t] a(1)
      by (simp add: add.commute)
    then show "rd a n = Ok (slice (a - (offset + length ?b)) (a - (offset + length ?b) + n) ?t)"
      using rd [of a n] a by simp
  qed (use Cons.prems in auto)
  finally show ?case by (simp add: add.assoc)
qed

section \<open>Properties\<close>

text \<open>
  C28: a commit record round-trips through its encoding in every format version: the bytes the
  encoder writes decode to the record itself, elided holes restored.
\<close>

theorem wal_record_roundtrip:
  assumes "record_ok fv r"
  shows "\<exists>img. encode_owned r fv = Ok img \<and> decode_record_for_version img fv = Ok (Some r)"
  using decode_record_image [OF assms]
  by (simp add: encode_owned_def encode_record_into_def encode_record_onto_image)

text \<open>A v4 record with one page.\<close>

definition legacy_sample :: wal_record where
  "legacy_sample = \<lparr>rec_seq = 8, rec_prev_seq = 7, rec_prev_root = 0, rec_root = 5, rec_next = 6,
     rec_pages = [(5, [1, 2])]\<rparr>"

lemma legacy_sample_ok: "record_ok 4 legacy_sample"
  by (simp add: record_ok_def legacy_sample_def page_ok_def max_page_image_len_def record_len_def page_entry_image_def
      elides_def hole_elided_format_version_def record_minimum_def multi_region_def multi_region_format_version_def
      record_layout)

theorem wal_record_roundtrip_witness:
  "\<exists>img. encode_owned legacy_sample 4 = Ok img \<and> decode_record_for_version img 4 = Ok (Some legacy_sample)"
  using wal_record_roundtrip [OF legacy_sample_ok] .

text \<open>
  a cohort of records appended into one buffer is, byte for byte, the concatenation of the
  records encoded one by one, and each occupies exactly the length the page-entry arithmetic
  predicts.
\<close>

theorem absorbed_records_concatenate:
  "encode_record_onto out fv m pages = rbind (encode_record_into buf fv m pages) (\<lambda>img. Ok (out @ img)) \<and>
   (\<exists>img. encode_record_into buf fv m pages = Ok img \<and>
     length img = record_minimum fv + (\<Sum>p\<leftarrow>pages. page_entry_len fv (snd p)))"
proof -
  have "length (concat (map (page_entry_image fv) pages)) = (\<Sum>p\<leftarrow>pages. page_entry_len fv (snd p))"
    by (induction pages) (simp_all add: page_entry_image_len)
  then show ?thesis
    by (simp add: encode_record_into_def encode_record_onto_image length_record_image record_len_def)
qed

text \<open>
  decoding arbitrary bytes as a commit record returns a record or nothing in every format
  version; it never panics and never fails.
\<close>

theorem wal_decode_safe: "\<exists>r. decode_record_for_version bs fv = Ok r"
  by (rule decode_record_total)

text \<open>
  a commit record with a single corrupted byte, wherever it is, is rejected, so the log
  ends before it and it is never replayed.
\<close>

theorem corrupt_record_rejected:
  assumes "decode_record_for_version bs fv = Ok (Some r)" "i < length bs" "b \<noteq> bs ! i"
  shows "decode_record_for_version (bs[i := b]) fv = Ok None"
  by (rule decode_record_single_byte [OF assms])

theorem corrupt_record_rejected_witness:
  "decode_record_for_version ((record_image 4 (meta_of legacy_sample) (rec_pages legacy_sample))[0 := 0]) 4 = Ok None"
proof -
  have l: "record_len 4 (rec_pages legacy_sample) = 54"
    by (simp add: legacy_sample_def record_len_def page_entry_image_def elides_def hole_elided_format_version_def
        record_minimum_def multi_region_def multi_region_format_version_def record_layout)
  have b: "u32_to_le 54 ! 0 = 54" by code_simp
  show ?thesis
    by (rule corrupt_record_rejected [OF decode_record_image [OF legacy_sample_ok]])
      (simp_all add: length_record_image l record_image_def record_body_def nth_append b)
qed

text \<open>
  the hole a v6 page entry elides is a run of zero bytes inside the page, no longer run
  exists, and putting the zeros back restores the page.
\<close>

theorem elided_hole_longest:
  assumes "longest_zero_run bs = (a, l)"
  shows "zero_run bs a l \<and> (\<forall>s n. zero_run bs s n \<longrightarrow> n \<le> l) \<and>
    take a bs @ replicate l 0 @ drop (a + l) bs = bs"
  using longest_zero_run_spec [OF assms] zero_run_restore by blast

theorem elided_hole_longest_witness:
  "zero_run [1, 0, 0, 7, 0] 1 2 \<and>
    [1] @ replicate 2 0 @ [7, 0] = [1, 0, 0, 7, 0 :: u8]"
proof -
  have "longest_zero_run [1, 0, 0, 7, 0] = (1, 2)" by code_simp
  from elided_hole_longest [OF this] show ?thesis by simp
qed

text \<open>
  the header, the state block, the log regions and the data pages of a file never
  overlap, and distinct data pages occupy distinct blocks.
\<close>

theorem file_areas_disjoint:
  assumes "region < region_count fv" "region' < region_count fv" "region < region'"
    and "pid \<noteq> 0" "unat pid < unat pid'"
  shows "header_offset + ps \<le> state_offset ps \<and> state_offset ps + ps \<le> region_start ps fv 0 \<and>
    region_end ps fv region \<le> region_start ps fv region' \<and> region_end ps fv region' \<le> all_regions_end ps fv \<and>
    all_regions_end ps fv \<le> data_offset_for ps fv pid \<and>
    data_offset_for ps fv pid + ps \<le> data_offset_for ps fv pid'"
proof -
  have 1: "Suc region * (wal_blocks * ps) \<le> region' * (wal_blocks * ps)"
    "Suc region' * (wal_blocks * ps) \<le> region_count fv * (wal_blocks * ps)"
    using assms by (intro mult_le_mono1; simp)+
  have "1 \<le> unat pid" using assms(4) by (simp add: Suc_leI unat_gt_0)
  then have 2: "(region_count fv * wal_blocks + 1 + 1) * ps \<le> (region_count fv * wal_blocks + 1 + unat pid) * ps"
    by (intro mult_le_mono1) simp
  have 3: "(region_count fv * wal_blocks + 1 + unat pid + 1) * ps \<le> (region_count fv * wal_blocks + 1 + unat pid') * ps"
    using assms(5) by (intro mult_le_mono1) simp
  from 1 2 3 show ?thesis
    by (simp add: header_offset_def state_offset_def region_start_def region_end_def all_regions_end_def
        data_offset_for_def wal_start_def wal_region_len_def algebra_simps)
qed

theorem file_areas_disjoint_witness:
  "region_end 4096 6 0 \<le> region_start 4096 6 1 \<and> data_offset_for 4096 6 1 + 4096 \<le> data_offset_for 4096 6 2"
  using file_areas_disjoint [of 0 6 1 1 2 4096]
  by (simp add: region_count_def multi_region_format_version_def wal_regions_def)

definition log_image :: "u32 \<Rightarrow> wal_record list \<Rightarrow> bytes" where
  "log_image fv rs = concat (map (\<lambda>r. record_image fv (meta_of r) (rec_pages r)) rs)"

definition region_holds :: "(nat \<Rightarrow> nat \<Rightarrow> bytes result) \<Rightarrow> nat \<Rightarrow> bytes \<Rightarrow> bool" where
  "region_holds rd offset img \<longleftrightarrow> (\<forall>a n. offset \<le> a \<longrightarrow> a + n \<le> offset + length img \<longrightarrow>
     rd a n = Ok (slice (a - offset) (a - offset + n) img))"

text \<open>
  a region that holds the images of a sequence of records, followed by bytes the scan
  stops at, scans to exactly those records, in order, with the append offset after the last.
\<close>

theorem scan_region_exact:
  assumes "\<forall>r \<in> set rs. record_ok fv r" "region_holds rd (region_start ps fv region) (log_image fv rs)"
    and "region_start ps fv region + length (log_image fv rs) \<le> region_end ps fv region"
    and "region_stops rd fv (region_end ps fv region) (region_start ps fv region + length (log_image fv rs))"
  shows "scan_region rd ps fv region =
    Ok \<lparr>scan_records = rs, append_offset = region_start ps fv region + length (log_image fv rs)\<rparr>"
proof -
  have "scan_loop rd fv (region_end ps fv region) [] (region_start ps fv region) =
      scan_loop rd fv (region_end ps fv region) ([] @ rs) (region_start ps fv region + length (log_image fv rs))"
    unfolding log_image_def
    by (rule scan_loop_images) (use assms(1-3) in \<open>auto simp: region_holds_def log_image_def\<close>)
  then show ?thesis
    using assms(4) scan_loop_acc [of rd fv _ rs "[]"] by (simp add: scan_region_def region_stops_def)
qed

text \<open>A device that holds one record and zeros.\<close>

definition one_record_device :: "nat \<Rightarrow> nat \<Rightarrow> bytes result" where
  "one_record_device a n = Ok (slice a (a + n)
     (replicate 128 0 @ log_image 4 [legacy_sample] @ replicate 20000 0))"

lemma slice_skip_here: "a + n \<le> k + length ys \<Longrightarrow> k \<le> a \<Longrightarrow> length xs = k \<Longrightarrow>
  slice a (a + n) (xs @ ys @ zs) = slice (a - k) (a - k + n) ys"
  by (simp add: slice_def)

theorem scan_region_exact_witness:
  "scan_region one_record_device 64 4 0 = Ok \<lparr>scan_records = [legacy_sample], append_offset = 128 + 54\<rparr>"
proof -
  have e: "region_end 64 4 0 = 16512" "region_start 64 4 0 = 128"
    by (simp_all add: region_end_def region_start_def wal_start_def wal_region_len_def wal_blocks_def)
  have l: "length (log_image 4 [legacy_sample]) = 54"
    by (simp add: log_image_def length_record_image legacy_sample_def record_len_def page_entry_image_def elides_def
        hole_elided_format_version_def record_minimum_def multi_region_def multi_region_format_version_def record_layout)
  have h: "region_holds one_record_device 128 (log_image 4 [legacy_sample])"
    unfolding region_holds_def one_record_device_def 
    by (intro allI impI, simp only: result.inject, rule slice_skip_here) simp_all
  have z: "one_record_device 182 4 = Ok (replicate 4 0)"
    using l by (simp add: one_record_device_def slice_def)
  have "read_u32 (replicate 4 0) 0 = Ok 0" by (simp add: read_u32_eq u32_from_le_def slice_def eval_nat_numeral)
  then have "region_stops one_record_device 4 16512 182"
    using z unfolding region_stops_def by (subst scan_loop.simps) (simp add: Let_def)
  then show ?thesis
    using scan_region_exact [of "[legacy_sample]" 4 one_record_device 64 0] legacy_sample_ok h e l by simp
qed

end
