(* ===== verification/Device.thy ===== *)
theory Device
  imports Wal_Codec
begin

text \<open>
  The contract of the engine's block device (trait \<open>Device\<close> of
  \<^verbatim>\<open>src/crates/inlaysql-core/src/btree/device.rs\<close>) as the write-ahead log relies on it, and
  what follows for the log: appending a record at the append offset leaves every earlier
  record of the region in place and adds the new one.
\<close>

locale device =
  fixes dinv :: "'d \<Rightarrow> bool" and cap :: "'d \<Rightarrow> nat"
    and rd :: "'d \<Rightarrow> nat \<Rightarrow> nat \<Rightarrow> bytes result" and wr :: "'d \<Rightarrow> nat \<Rightarrow> bytes \<Rightarrow> 'd result"
  assumes rd_slice: "dinv d \<Longrightarrow> rd d off n = Ok bs \<Longrightarrow> i + m \<le> n \<Longrightarrow> rd d (off + i) m = Ok (slice i (i + m) bs)"
    and rd_length: "dinv d \<Longrightarrow> rd d off n = Ok bs \<Longrightarrow> length bs = n"
    and wr_inside: "dinv d \<Longrightarrow> off + length bs \<le> cap d \<Longrightarrow> \<exists>d'. wr d off bs = Ok d'"
    and wr_keeps: "dinv d \<Longrightarrow> wr d off bs = Ok d' \<Longrightarrow> dinv d' \<and> cap d' = cap d"
    and rd_wr_same: "dinv d \<Longrightarrow> wr d off bs = Ok d' \<Longrightarrow> rd d' off (length bs) = Ok bs"
    and rd_wr_other: "dinv d \<Longrightarrow> wr d off bs = Ok d' \<Longrightarrow> a + n \<le> off \<or> off + length bs \<le> a \<Longrightarrow>
      rd d' a n = rd d a n"

text \<open>The scan only depends on the bytes it accepted.\<close>

lemma scan_loop_grows: "scan_loop rd fv e acc off = Ok s \<Longrightarrow> off \<le> append_offset s"
proof (induction rd fv e acc off rule: scan_loop.induct)
  case (1 rd fv e acc off)
  from "1.prems" show ?case
    by (subst (asm) scan_loop.simps) (auto simp: Let_def split: if_splits option.splits dest!: "1.IH" [rotated -1])
qed

lemma scan_loop_prefix:
  assumes "scan_loop rd fv e acc off = Ok s"
    and "\<And>a n. off \<le> a \<Longrightarrow> a + n \<le> append_offset s \<Longrightarrow> rd' a n = rd a n"
  shows "scan_loop rd' fv e acc off = scan_loop rd' fv e (scan_records s) (append_offset s)"
  using assms
proof (induction rd fv e acc off rule: scan_loop.induct)
  case (1 rd fv e acc off)
  let ?stop = "\<lparr>scan_records = acc, append_offset = off\<rparr>"
  show ?case
  proof (cases "s = ?stop")
    case True
    then show ?thesis by simp
  next
    case False
    obtain header t buf r where step: "off + 12 \<le> e" "rd off 4 = Ok header" "read_u32 header 0 = Ok t"
      "\<not> (unat t = 0 \<or> unat t < record_minimum fv \<or> off + unat t > e)" "rd off (unat t) = Ok buf"
      "decode_record_for_version buf fv = Ok (Some r)"
      "scan_loop rd fv e (acc @ [r]) (off + unat t) = Ok s"
      using "1.prems"(1) False
      by (subst (asm) scan_loop.simps) (auto simp: Let_def split: if_splits option.splits)
    have g: "off + unat t \<le> append_offset s" by (rule scan_loop_grows [OF step(7)])
    have m: "4 \<le> unat t" using step(4) by (auto simp: record_minimum_def record_layout split: if_splits)
    have "scan_loop rd' fv e (acc @ [r]) (off + unat t) = scan_loop rd' fv e (scan_records s) (append_offset s)"
      by (rule "1.IH" [OF step(1-3) refl step(4-6) refl step(7)]) (use "1.prems"(2) g in auto)
    moreover have "rd' off 4 = Ok header" "rd' off (unat t) = Ok buf"
      using "1.prems"(2) [of off 4] "1.prems"(2) [of off "unat t"] g m step(2,5) by auto
    ultimately show ?thesis using step by (subst scan_loop.simps) (auto simp: Let_def)
  qed
qed

context device
begin

lemma wr_rd_same_slice:
  assumes "dinv d" "wr d off bs = Ok d'" "i + m \<le> length bs"
  shows "rd d' (off + i) m = Ok (slice i (i + m) bs)"
  using rd_slice [OF _ rd_wr_same [OF assms(1,2)] assms(3)] wr_keeps [OF assms(1,2)] by blast

text \<open>Appending a record to a scanned region.\<close>

lemma append_record:
  assumes d: "dinv d" and scan: "scan_loop (rd d) fv e [] start = Ok s" and ok: "record_ok fv r"
    and w: "wr d (append_offset s) (record_image fv (meta_of r) (rec_pages r)) = Ok d'"
    and fit: "append_offset s + record_len fv (rec_pages r) \<le> e"
  shows "scan_loop (rd d') fv e [] start =
    scan_loop (rd d') fv e (scan_records s @ [r]) (append_offset s + record_len fv (rec_pages r))"
proof -
  let ?b = "record_image fv (meta_of r) (rec_pages r)" and ?o = "append_offset s"
  have dec: "decode_record_for_version ?b fv = Ok (Some r)" by (rule decode_record_image [OF ok])
  have len: "length ?b = record_len fv (rec_pages r)" by (rule length_record_image)
  have "40 \<le> length ?b" using decode_record_SomeD(1) [OF dec] by (simp add: record_minimum_def record_layout split: if_splits)
  then have "rd d' ?o 4 = Ok (take 4 ?b)" using wr_rd_same_slice [OF d w, of 0 4] by (simp add: slice_def)
  moreover have "rd d' ?o (length ?b) = Ok ?b" by (rule rd_wr_same [OF d w])
  ultimately have "scan_loop (rd d') fv e (scan_records s) ?o = scan_loop (rd d') fv e (scan_records s @ [r]) (?o + length ?b)"
    using fit len by (intro scan_loop_record [OF _ _ dec]) auto
  moreover have "scan_loop (rd d') fv e [] start = scan_loop (rd d') fv e (scan_records s) ?o"
    by (rule scan_loop_prefix [OF scan]) (use rd_wr_other [OF d w] in auto)
  ultimately show ?thesis by (simp add: len)
qed

text \<open>A write elsewhere leaves the accepted records of a region accepted.\<close>

lemma write_outside:
  assumes d: "dinv d" and scan: "scan_loop (rd d) fv e [] start = Ok s" and w: "wr d off bs = Ok d'"
    and "off + length bs \<le> start \<or> append_offset s \<le> off"
  shows "scan_loop (rd d') fv e [] start = scan_loop (rd d') fv e (scan_records s) (append_offset s)"
  by (rule scan_loop_prefix [OF scan]) (use rd_wr_other [OF d w] assms(4) in force)

end

end
