(* ===== verification/Sim_Disk.thy ===== *)
theory Sim_Disk
  imports Device
begin

text \<open>
  The simulated block device (\<^verbatim>\<open>src/crates/inlaysql-core/src/sim/disk.rs\<close>): a volatile image
  every read sees, a durable image that survives power loss, and the writes in between. A
  \<open>sync\<close> takes the fault the schedule injects. The theory shows the device contract for it
  and what survives each fault.
\<close>

section \<open>State\<close>

datatype fault = No_Fault | Crash | Torn_Write nat | Reordered_Sync nat

datatype sync_outcome = Committed | Crashed

datatype trace_event = Write_Event nat nat | Sync_Event fault sync_outcome

record pending_write =
  pw_offset :: nat
  pw_data :: bytes

record sim_disk =
  block_size :: nat
  durable :: bytes
  volatile :: bytes
  pending :: "pending_write list"
  sync_history :: "bytes list"
  history_limit :: nat
  trace :: "trace_event list"
  writes :: u64
  syncs :: u64
  reuse_enabled :: bool

definition default_block_size :: nat where "default_block_size = 4096"
definition default_sync_history :: nat where "default_sync_history = 16"

section \<open>Operations\<close>

definition disk_of_image :: "nat \<Rightarrow> bytes \<Rightarrow> sim_disk" where
  "disk_of_image bsize img = \<lparr>block_size = bsize, durable = img, volatile = img, pending = [],
     sync_history = [], history_limit = default_sync_history, trace = [], writes = 0, syncs = 0,
     reuse_enabled = False\<rparr>"

text \<open>\<open>capacity.div_ceil(block_size) * block_size\<close> zero bytes; the assertion on the block size.\<close>

definition with_block_size :: "nat \<Rightarrow> nat \<Rightarrow> sim_disk result" where
  "with_block_size bsize capacity =
     (if bsize > 0
      then Ok (disk_of_image bsize (replicate ((capacity + bsize - 1) div bsize * bsize) 0))
      else Panic)"

definition disk_new :: "nat \<Rightarrow> sim_disk result" where
  "disk_new capacity = with_block_size default_block_size capacity"

definition with_image :: "nat \<Rightarrow> bytes \<Rightarrow> sim_disk result" where
  "with_image bsize img = (if bsize > 0 then Ok (disk_of_image bsize img) else Panic)"

definition capacity :: "sim_disk \<Rightarrow> nat" where "capacity d = length (durable d)"

definition disk_read :: "sim_disk \<Rightarrow> nat \<Rightarrow> nat \<Rightarrow> bytes result" where
  "disk_read d offset n =
     (if offset + n > length (volatile d)
      then Err (Storage (''read past end of disk: offset '' @ show_nat offset @ '' + '' @ show_nat n @
             '' > '' @ show_nat (length (volatile d))))
      else index_range (volatile d) offset (offset + n))"

definition disk_write :: "sim_disk \<Rightarrow> nat \<Rightarrow> bytes \<Rightarrow> sim_disk result" where
  "disk_write d offset data =
     (if offset + length data > length (volatile d)
      then Err (Storage (''write past end of disk: offset '' @ show_nat offset @ '' + '' @ show_nat (length data) @
             '' > '' @ show_nat (length (volatile d))))
      else rbind (copy_at (volatile d) offset data) (\<lambda>v.
        Ok (d\<lparr>volatile := v, pending := pending d @ [\<lparr>pw_offset = offset, pw_data = data\<rparr>],
              trace := trace d @ [Write_Event offset (length data)], writes := writes d + 1\<rparr>)))"

fun apply_writes :: "bytes \<Rightarrow> pending_write list \<Rightarrow> bytes result" where
  "apply_writes img [] = Ok img"
| "apply_writes img (w # ws) = rbind (copy_at img (pw_offset w) (pw_data w)) (\<lambda>img'. apply_writes img' ws)"

definition apply_pending :: "sim_disk \<Rightarrow> sim_disk result" where
  "apply_pending d = rbind (apply_writes (durable d) (pending d)) (\<lambda>img.
     let h = sync_history d @ [img] in
     Ok (d\<lparr>durable := img, pending := [],
           sync_history := (if length h > history_limit d then tl h else h)\<rparr>))"

definition torn_write :: "sim_disk \<Rightarrow> nat \<Rightarrow> bytes result" where
  "torn_write d prefix =
     (if pending d = [] then Ok (durable d)
      else let l = last (pending d); keep = min prefix (length (pw_data l)) in
           copy_at (durable d) (pw_offset l) (take keep (pw_data l)))"

definition disk_sync :: "sim_disk \<Rightarrow> fault \<Rightarrow> (sync_outcome \<times> sim_disk) result" where
  "disk_sync d0 f =
     (let d = d0\<lparr>syncs := syncs d0 + 1\<rparr> in
      rbind (case f of
          No_Fault \<Rightarrow> rbind (apply_pending d) (\<lambda>d'. Ok (Committed, d'))
        | Crash \<Rightarrow> Ok (Crashed, d\<lparr>pending := []\<rparr>)
        | Torn_Write prefix \<Rightarrow> rbind (torn_write d prefix) (\<lambda>img. Ok (Crashed, d\<lparr>durable := img, pending := []\<rparr>))
        | Reordered_Sync syncs_ago \<Rightarrow>
            if syncs_ago < length (sync_history d)
            then rbind (index_at (sync_history d) (length (sync_history d) - 1 - syncs_ago)) (\<lambda>img.
              Ok (Committed, d\<lparr>durable := img, pending := []\<rparr>))
            else Ok (Committed, d\<lparr>pending := []\<rparr>))
        (\<lambda>(outcome, d'). Ok (outcome, d'\<lparr>volatile := durable d', trace := trace d' @ [Sync_Event f outcome]\<rparr>)))"

section \<open>Invariant\<close>

text \<open>
  The volatile image is the durable one with the pending writes applied, every pending write
  is inside the disk, and every snapshot has the disk's size.
\<close>

definition disk_inv :: "sim_disk \<Rightarrow> bool" where
  "disk_inv d \<longleftrightarrow> apply_writes (durable d) (pending d) = Ok (volatile d) \<and>
     (\<forall>w \<in> set (pending d). pw_offset w + length (pw_data w) \<le> length (durable d)) \<and>
     (\<forall>h \<in> set (sync_history d). length h = length (durable d))"

lemma copy_at_Ok_iff [simp]: "copy_at xs a ys = Ok zs \<longleftrightarrow> a + length ys \<le> length xs \<and> zs = splice a ys xs"
  by (auto simp: copy_at_def)

lemma copy_at_not_Err [simp]: "copy_at xs a ys \<noteq> Err e"
  by (simp add: copy_at_def)

lemma apply_writes_length: "apply_writes img ws = Ok img' \<Longrightarrow> length img' = length img"
  by (induction ws arbitrary: img) auto

lemma apply_writes_append:
  "apply_writes img (ws @ vs) = rbind (apply_writes img ws) (\<lambda>img'. apply_writes img' vs)"
  by (induction ws arbitrary: img) (auto simp: rbind_assoc intro!: rbind_cong)

lemma disk_inv_lengths: "disk_inv d \<Longrightarrow> length (volatile d) = length (durable d)"
  unfolding disk_inv_def using apply_writes_length by blast

lemma disk_inv_image: "disk_inv (disk_of_image b img)"
  by (simp add: disk_inv_def disk_of_image_def)

lemma disk_read_Ok_iff:
  "disk_read d off n = Ok bs \<longleftrightarrow> off + n \<le> length (volatile d) \<and> bs = slice off (off + n) (volatile d)"
  by (auto simp: disk_read_def)

lemma disk_write_Ok_iff:
  "disk_write d off bs = Ok d' \<longleftrightarrow> off + length bs \<le> length (volatile d) \<and>
     d' = d\<lparr>volatile := splice off bs (volatile d), pending := pending d @ [\<lparr>pw_offset = off, pw_data = bs\<rparr>],
            trace := trace d @ [Write_Event off (length bs)], writes := writes d + 1\<rparr>"
  by (auto simp: disk_write_def)

lemma disk_write_inv:
  assumes "disk_inv d" "disk_write d off bs = Ok d'"
  shows "disk_inv d' \<and> capacity d' = capacity d"
  using assms disk_inv_lengths [OF assms(1)]
  by (auto simp: disk_write_Ok_iff disk_inv_def apply_writes_append capacity_def)

text \<open>The simulated disk meets the device contract.\<close>

interpretation sim: device disk_inv capacity disk_read disk_write
proof
  show "rd_slice": "disk_inv d \<Longrightarrow> disk_read d off n = Ok bs \<Longrightarrow> i + m \<le> n \<Longrightarrow>
      disk_read d (off + i) m = Ok (slice i (i + m) bs)" for d off n bs i m
    by (auto simp: disk_read_Ok_iff slice_of_slice add.assoc)
  show "disk_inv d \<Longrightarrow> disk_read d off n = Ok bs \<Longrightarrow> length bs = n" for d off n bs
    by (auto simp: disk_read_Ok_iff)
  show "disk_inv d \<Longrightarrow> off + length bs \<le> capacity d \<Longrightarrow> \<exists>d'. disk_write d off bs = Ok d'" for d off bs
    using disk_inv_lengths [of d] by (simp add: disk_write_Ok_iff capacity_def)
  show "disk_inv d \<Longrightarrow> disk_write d off bs = Ok d' \<Longrightarrow> disk_inv d' \<and> capacity d' = capacity d" for d off bs d'
    by (rule disk_write_inv)
  show "disk_inv d \<Longrightarrow> disk_write d off bs = Ok d' \<Longrightarrow> disk_read d' off (length bs) = Ok bs" for d off bs d'
    by (auto simp: disk_read_Ok_iff disk_write_Ok_iff slice_splice_same)
  show "disk_inv d \<Longrightarrow> disk_write d off bs = Ok d' \<Longrightarrow> a + n \<le> off \<or> off + length bs \<le> a \<Longrightarrow>
      disk_read d' a n = disk_read d a n" for d off bs d' a n
    by (auto simp: disk_read_def disk_write_Ok_iff slice_splice_other index_range_in)
qed

section \<open>Faults\<close>

lemma last_pending_ok:
  "disk_inv d \<Longrightarrow> pending d \<noteq> [] \<Longrightarrow>
   pw_offset (last (pending d)) + length (pw_data (last (pending d))) \<le> length (durable d)"
  unfolding disk_inv_def using last_in_set by blast

lemma torn_write_ok:
  assumes "disk_inv d"
  shows "\<exists>img. torn_write d p = Ok img \<and> length img = length (durable d)"
proof (cases "pending d = []")
  case True
  then show ?thesis by (simp add: torn_write_def)
next
  case False
  let ?l = "last (pending d)"
  have "pw_offset ?l + length (take (min p (length (pw_data ?l))) (pw_data ?l)) \<le> length (durable d)"
    using last_pending_ok [OF assms False] by simp
  then show ?thesis using False by (simp add: torn_write_def copy_at_in Let_def)
qed

lemma tl_subset: "x \<in> set (tl xs) \<Longrightarrow> x \<in> set xs"
  by (cases xs) auto

lemma disk_sync_total:
  assumes "disk_inv d"
  shows "\<exists>out d'. disk_sync d f = Ok (out, d') \<and> disk_inv d' \<and> capacity d' = capacity d \<and>
    pending d' = [] \<and> volatile d' = durable d'"
proof (cases f)
  case No_Fault
  then show ?thesis
    using assms disk_inv_lengths [OF assms]
    by (auto simp: disk_sync_def apply_pending_def disk_inv_def capacity_def Let_def dest!: tl_subset)
next
  case Crash
  then show ?thesis using assms by (auto simp: disk_sync_def disk_inv_def capacity_def)
next
  case (Torn_Write p)
  have "torn_write (d\<lparr>syncs := syncs d + 1\<rparr>) p = torn_write d p" by (simp add: torn_write_def)
  with torn_write_ok [OF assms, of p] Torn_Write show ?thesis
    using assms by (auto simp: disk_sync_def disk_inv_def capacity_def)
next
  case (Reordered_Sync k)
  show ?thesis
  proof (cases "k < length (sync_history d)")
    case True
    have "sync_history d ! (length (sync_history d) - Suc k) \<in> set (sync_history d)" using True by simp
    then show ?thesis
      using assms Reordered_Sync True by (auto simp: disk_sync_def disk_inv_def capacity_def index_at_in)
  next
    case False
    then show ?thesis using assms Reordered_Sync by (auto simp: disk_sync_def disk_inv_def capacity_def)
  qed
qed

text \<open>What is durable after each fault.\<close>

lemma disk_sync_committed:
  "disk_inv d \<Longrightarrow> disk_sync d No_Fault = Ok (out, d') \<Longrightarrow> out = Committed \<and> durable d' = volatile d"
  by (auto simp: disk_sync_def apply_pending_def disk_inv_def Let_def)

lemma disk_sync_crashed:
  "disk_sync d Crash = Ok (out, d') \<Longrightarrow> out = Crashed \<and> durable d' = durable d"
  by (auto simp: disk_sync_def)

lemma disk_sync_torn:
  assumes "disk_inv d" "disk_sync d (Torn_Write p) = Ok (out, d')"
  shows "out = Crashed \<and> durable d' = (if pending d = [] then durable d
    else splice (pw_offset (last (pending d))) (take p (pw_data (last (pending d)))) (durable d))"
proof -
  have "torn_write (d\<lparr>syncs := syncs d + 1\<rparr>) p = torn_write d p" by (simp add: torn_write_def)
  moreover have "take (min p (length xs)) xs = take p xs" for xs :: bytes by (simp add: min_def)
  ultimately show ?thesis
    using assms(2) by (auto simp: disk_sync_def torn_write_def Let_def split: if_splits)
qed

text \<open>A power loss changes nothing outside the last pending write.\<close>

lemma crash_preserves:
  assumes inv: "disk_inv d" and f: "f = Crash \<or> f = Torn_Write p" and s: "disk_sync d f = Ok (out, d')"
    and j: "j \<le> length (durable d)"
    and away: "pending d \<noteq> [] \<Longrightarrow> j \<le> pw_offset (last (pending d)) \<or>
      pw_offset (last (pending d)) + length (pw_data (last (pending d))) \<le> i"
  shows "slice i j (volatile d') = slice i j (durable d)"
proof -
  have v: "volatile d' = durable d'" using disk_sync_total [OF inv, of f] s by auto
  show ?thesis
  proof (cases "f = Crash \<or> pending d = []")
    case True
    then show ?thesis using disk_sync_crashed [of d out d'] disk_sync_torn [OF inv] s f v by auto
  next
    case False
    let ?l = "last (pending d)"
    have t: "f = Torn_Write p" "pending d \<noteq> []" using False f by auto
    have "durable d' = splice (pw_offset ?l) (take p (pw_data ?l)) (durable d)"
      using disk_sync_torn [OF inv] s t by simp
    moreover have "slice i j (splice (pw_offset ?l) (take p (pw_data ?l)) (durable d)) = slice i j (durable d)"
      using last_pending_ok [OF inv t(2)] away [OF t(2)] j by (intro slice_splice_other) auto
    ultimately show ?thesis using v by simp
  qed
qed

section \<open>Properties\<close>

text \<open>
  appending a commit record at the append offset of a scanned region of the simulated
  disk leaves every record already accepted in place, in order, and adds the new one.
\<close>

theorem append_extends_log:
  assumes "disk_inv d" "scan_region (disk_read d) ps fv region = Ok s" "record_ok fv r"
    and "append_offset s + record_len fv (rec_pages r) \<le> region_end ps fv region"
    and "encode_owned r fv = Ok img" "disk_write d (append_offset s) img = Ok d'"
  shows "scan_region (disk_read d') ps fv region =
    scan_loop (disk_read d') fv (region_end ps fv region) (scan_records s @ [r]) (append_offset s + length img)"
proof -
  have img: "img = record_image fv (meta_of r) (rec_pages r)"
    using assms(5) by (simp add: encode_owned_def encode_record_into_def encode_record_onto_image)
  show ?thesis
    using sim.append_record [OF assms(1) assms(2) [unfolded scan_region_def] assms(3) _ assms(4)] assms(6)
    unfolding scan_region_def img by (simp add: length_record_image)
qed

definition sample_record :: wal_record where
  "sample_record = \<lparr>rec_seq = 1, rec_prev_seq = 0, rec_prev_root = 0, rec_root = 5, rec_next = 6,
     rec_pages = [(5, [1, 0, 0, 0, 2])]\<rparr>"

definition sample_disk :: sim_disk where
  "sample_disk = disk_of_image 1 (replicate (1026 * 64) 0)"

lemma sample_zero_run: "longest_zero_run [1, 0, 0, 0, 2] = (1, 3)"
  by code_simp

lemma sample_record_len: "record_len 6 (rec_pages sample_record) = 78"
  by (simp add: record_len_def sample_record_def page_entry_image_len page_entry_len_def page_entry_header_len_def
      sample_zero_run elides_def hole_elided_format_version_def record_minimum_def multi_region_def
      multi_region_format_version_def record_layout)

lemma record_ok_sample: "record_ok 6 sample_record"
  using sample_record_len
  by (simp add: record_ok_def page_ok_def max_page_image_len_def multi_region_def multi_region_format_version_def)
    (simp add: sample_record_def)

lemma slice_replicate: "b \<le> n \<Longrightarrow> slice a b (replicate n x) = replicate (b - a) x"
  by (simp add: slice_def)

lemma scan_zero_disk:
  assumes "region_end ps fv region \<le> n"
  shows "scan_region (disk_read (disk_of_image b (replicate n 0))) ps fv region =
    Ok \<lparr>scan_records = [], append_offset = region_start ps fv region\<rparr>"
proof -
  have "read_u32 (replicate 4 0) 0 = Ok 0"
    by (simp add: read_u32_eq slice_replicate u32_from_le_def slice_def eval_nat_numeral)
  then show ?thesis
    using assms unfolding scan_region_def
    by (subst scan_loop.simps) (simp add: disk_read_def disk_of_image_def index_range_in slice_replicate Let_def)
qed

theorem append_extends_log_witness:
  "\<exists>img d'. encode_owned sample_record 6 = Ok img \<and> disk_write sample_disk 128 img = Ok d' \<and>
    scan_region (disk_read d') 64 6 0 = scan_loop (disk_read d') 6 (128 + 16384) [sample_record] (128 + length img)"
proof -
  have e: "region_end 64 6 0 = 16512" "region_start 64 6 0 = 128"
    by (simp_all add: region_end_def region_start_def wal_start_def wal_region_len_def wal_blocks_def)
  have s: "scan_region (disk_read sample_disk) 64 6 0 = Ok \<lparr>scan_records = [], append_offset = 128\<rparr>"
    unfolding sample_disk_def by (subst scan_zero_disk) (simp_all add: e)
  obtain img where img: "encode_owned sample_record 6 = Ok img" "length img = record_len 6 (rec_pages sample_record)"
    by (simp add: encode_owned_def encode_record_into_def encode_record_onto_image length_record_image)
  note l = sample_record_len
  obtain d' where w: "disk_write sample_disk 128 img = Ok d'"
    using img(2) l by (auto simp: disk_write_Ok_iff sample_disk_def disk_of_image_def)
  show ?thesis
    using append_extends_log [OF _ s record_ok_sample _ img(1), of d'] w img e l
    by (simp add: sample_disk_def disk_inv_image)
qed

text \<open>
  a power loss after a completed sync, plain or tearing the last write, leaves every byte
  outside the last unsynced write as the sync made it durable: a commit record that was synced
  is read back unchanged after recovery.
\<close>

theorem synced_bytes_survive_crash:
  assumes "disk_inv d" "disk_sync d No_Fault = Ok (out1, d1)" "disk_write d1 off data = Ok d2"
    and "f = Crash \<or> f = Torn_Write p" "disk_sync d2 f = Ok (out2, d3)"
    and "a + n \<le> capacity d" "a + n \<le> off \<or> off + length data \<le> a"
  shows "out1 = Committed \<and> out2 = Crashed \<and> disk_read d3 a n = disk_read d a n"
proof -
  have d1: "disk_inv d1" "pending d1 = []" "volatile d1 = durable d1" "capacity d1 = capacity d"
    using disk_sync_total [OF assms(1), of No_Fault] assms(2) by auto
  have du: "out1 = Committed" "durable d1 = volatile d" using disk_sync_committed [OF assms(1,2)] by auto
  have d2: "disk_inv d2" "capacity d2 = capacity d1" using disk_write_inv [OF d1(1) assms(3)] by auto
  have p2: "durable d2 = durable d1" "last (pending d2) = \<lparr>pw_offset = off, pw_data = data\<rparr>"
    using assms(3) by (auto simp: disk_write_Ok_iff)
  have "slice a (a + n) (volatile d3) = slice a (a + n) (durable d2)"
    using assms(6,7) d1(4) d2(2) p2
    by (intro crash_preserves [OF d2(1) assms(4,5)]) (auto simp: capacity_def)
  moreover have "length (volatile d3) = length (volatile d)"
    using disk_sync_total [OF d2(1), of f] assms(5) d2(2) d1(4) disk_inv_lengths [OF assms(1)]
    by (auto simp: capacity_def)
  moreover have "out2 = Crashed"
    using assms(4,5) disk_sync_crashed [of d2 out2 d3] disk_sync_torn [OF d2(1)] by blast
  ultimately show ?thesis
    using du p2(1) assms(6) disk_inv_lengths [OF assms(1)] by (simp add: disk_read_def index_range_in capacity_def)
qed

theorem synced_bytes_survive_crash_witness:
  "\<exists>out1 d1 d2 out2 d3. disk_sync (disk_of_image 1 [1, 2, 3, 4]) No_Fault = Ok (out1, d1) \<and>
    disk_write d1 2 [9, 9] = Ok d2 \<and> disk_sync d2 (Torn_Write 1) = Ok (out2, d3) \<and>
    out1 = Committed \<and> out2 = Crashed \<and> disk_read d3 0 2 = Ok [1, 2]"
proof -
  let ?d = "disk_of_image 1 [1, 2, 3, 4]"
  have c: "capacity ?d = 4" "disk_read ?d 0 2 = Ok [1, 2]" by code_simp+
  obtain out1 d1 where 1: "disk_sync ?d No_Fault = Ok (out1, d1)" "disk_inv d1" "capacity d1 = 4"
    using disk_sync_total [OF disk_inv_image, of 1 "[1, 2, 3, 4]" No_Fault] c by auto
  obtain d2 where 2: "disk_write d1 2 [9, 9] = Ok d2" using sim.wr_inside [OF 1(2), of 2 "[9, 9]"] 1(3) by auto
  have "disk_inv d2" using disk_write_inv [OF 1(2) 2] by blast
  then obtain out2 d3 where 3: "disk_sync d2 (Torn_Write 1) = Ok (out2, d3)"
    using disk_sync_total [of d2 "Torn_Write 1"] by auto
  show ?thesis
    using synced_bytes_survive_crash [OF disk_inv_image 1(1) 2 _ 3, of 1 0 2] 1(1) 2 3 c by auto
qed

text \<open>
  every operation of the simulated disk keeps its invariant (the volatile image is the
  durable one with the pending writes applied), and a sync never panics, empties the pending
  list and leaves the two images equal, whatever fault is injected.
\<close>

theorem sim_disk_invariant:
  "disk_inv (disk_of_image b img) \<and>
   (disk_inv d \<longrightarrow> disk_write d off bs = Ok d' \<longrightarrow> disk_inv d' \<and> capacity d' = capacity d) \<and>
   (disk_inv d \<longrightarrow> (\<exists>out d'. disk_sync d f = Ok (out, d') \<and> disk_inv d' \<and> capacity d' = capacity d \<and>
      pending d' = [] \<and> volatile d' = durable d'))"
  using disk_inv_image disk_write_inv disk_sync_total by blast

theorem sim_disk_invariant_witness:
  "\<exists>out d'. disk_sync (disk_of_image 1 [1, 2]) (Reordered_Sync 3) = Ok (out, d') \<and> disk_inv d' \<and>
     capacity d' = 2 \<and> pending d' = [] \<and> volatile d' = durable d'"
  using sim_disk_invariant [of 1 "[1, 2]" "disk_of_image 1 [1, 2]" 0 "[]" "disk_of_image 1 [1, 2]" "Reordered_Sync 3"] disk_inv_image [of 1 "[1, 2]"]
  by (simp add: capacity_def disk_of_image_def numeral_2_eq_2)

end
