(* ===== verification/Recovery.thy ===== *)
theory Recovery
  imports Wal_Codec
begin

text \<open>
  The file header, the state block and recovery
  (\<^verbatim>\<open>src/crates/inlaysql-core/src/btree/tree.rs\<close>, from \<open>prefix_upper_bound\<close> to
  \<open>resolve_state_at_least\<close>): encoding and validation of the two metadata blocks, the choice
  of the committed state from the state block and the log, and the bookkeeping keys and
  counters the commit path merges.
\<close>

section \<open>Header and state block\<close>

definition magic :: bytes where "magic = ascii ''INLAYSQL''"
definition format_version :: u32 where "format_version = 6"
definition min_readable_format_version :: u32 where "min_readable_format_version = 3"
definition header_len :: nat where "header_len = 24"
definition h_page_size :: nat where "h_page_size = 8"
definition h_version :: nat where "h_version = 12"
definition h_checksum :: nat where "h_checksum = 16"
definition state_len :: nat where "state_len = 32"
definition s_root :: nat where "s_root = 0"
definition s_next :: nat where "s_next = 8"
definition s_seq :: nat where "s_seq = 16"
definition s_checksum :: nat where "s_checksum = 24"

lemmas block_layout = header_len_def h_page_size_def h_version_def h_checksum_def state_len_def s_root_def
  s_next_def s_seq_def s_checksum_def

definition encode_header_with_version :: "nat \<Rightarrow> u32 \<Rightarrow> bytes result" where
  "encode_header_with_version page_size version =
     rbind (copy_at (replicate header_len 0) 0 magic) (\<lambda>b.
     rbind (copy_at b h_page_size (u32_to_le (of_nat page_size))) (\<lambda>b.
     rbind (copy_at b h_version (u32_to_le version)) (\<lambda>b.
     rbind (index_range b 0 h_checksum) (\<lambda>body.
     copy_at b h_checksum (u64_to_le (fnv1a body))))))"

definition parse_header :: "bytes \<Rightarrow> (nat \<times> u32) result" where
  "parse_header bs =
     (if length bs < header_len then Err (Corrupt ''header is truncated'')
      else rbind (index_range bs 0 8) (\<lambda>m.
        if m \<noteq> magic then Err (Corrupt ''not an InlaySQL database'')
        else rbind (index_range bs 0 h_checksum) (\<lambda>body.
          rbind (read_u64 bs h_checksum) (\<lambda>stored.
          if fnv1a body \<noteq> stored then Err (Corrupt ''header checksum mismatch (torn write?)'')
          else rbind (read_u32 bs h_page_size) (\<lambda>ps32.
            rbind (read_u32 bs h_version) (\<lambda>version.
            let page_size = unat ps32 in
            if version > format_version
            then Err (FormatVersion (''file format version '' @ show_nat (unat version) @
                   '' is newer than this build supports ('' @ show_nat (unat format_version) @
                   ''); upgrade InlaySQL''))
            else if version < min_readable_format_version
            then Err (FormatVersion (''file format version '' @ show_nat (unat version) @
                   '' is older than this build supports ('' @ show_nat (unat min_readable_format_version) @
                   ''..='' @ show_nat (unat format_version) @ ''); recreate the database''))
            else if page_size < min_page_size
            then Err (Corrupt (''page size '' @ show_nat page_size @ '' below the minimum''))
            else Ok (page_size, version)))))))"

definition encode_state :: "page_id \<Rightarrow> page_id \<Rightarrow> u64 \<Rightarrow> bytes result" where
  "encode_state root nxt checkpoint_seq =
     rbind (copy_at (replicate state_len 0) s_root (u64_to_le root)) (\<lambda>b.
     rbind (copy_at b s_next (u64_to_le nxt)) (\<lambda>b.
     rbind (copy_at b s_seq (u64_to_le checkpoint_seq)) (\<lambda>b.
     rbind (index_range b 0 s_checksum) (\<lambda>body.
     copy_at b s_checksum (u64_to_le (fnv1a body))))))"

record state =
  st_root :: page_id
  st_next :: page_id
  st_checkpoint_seq :: u64

definition parse_state :: "bytes \<Rightarrow> state option result" where
  "parse_state bs =
     (if length bs < state_len then Ok None
      else rbind (index_range bs 0 s_checksum) (\<lambda>body.
        rbind (read_u64 bs s_checksum) (\<lambda>stored.
        if fnv1a body \<noteq> stored then Ok None
        else rbind (read_u64 bs s_root) (\<lambda>root. rbind (read_u64 bs s_next) (\<lambda>nxt.
          rbind (read_u64 bs s_seq) (\<lambda>seq.
          Ok (Some \<lparr>st_root = root, st_next = nxt, st_checkpoint_seq = seq\<rparr>)))))))"

definition read_state :: "(nat \<Rightarrow> nat \<Rightarrow> bytes result) \<Rightarrow> nat \<Rightarrow> state option result" where
  "read_state rd page_size = rbind (rd (state_offset page_size) state_len) parse_state"

section \<open>The committed state\<close>

text \<open>\<open>follows\<close>: the record continues the chain that ends at \<open>seq\<close> and \<open>root\<close>.\<close>

definition follows :: "u32 \<Rightarrow> u64 \<Rightarrow> page_id \<Rightarrow> wal_record \<Rightarrow> bool" where
  "follows fv seq root r \<longleftrightarrow> rec_seq r = seq + 1 \<and>
     (fv < multi_region_format_version \<or> (rec_prev_seq r = seq \<and> rec_prev_root r = root))"

fun follow_loop ::
  "u32 \<Rightarrow> page_id \<times> page_id \<times> u64 \<Rightarrow> wal_record list \<Rightarrow> wal_record list \<Rightarrow> page_id \<times> page_id \<times> u64 \<times> wal_record list" where
  "follow_loop fv (root, nxt, seq) replay [] = (root, nxt, seq, replay)"
| "follow_loop fv (root, nxt, seq) replay (r # rs) =
     (if \<not> follows fv seq root r then (root, nxt, seq, replay)
      else follow_loop fv (rec_root r, rec_next r, rec_seq r) (replay @ [r]) rs)"

text \<open>\<open>chain.last().is_some_and(|last| best.last().is_none_or(|winner| last.seq > winner.seq))\<close>\<close>

definition better_chain :: "wal_record list \<Rightarrow> wal_record list \<Rightarrow> bool" where
  "better_chain chain best \<longleftrightarrow> chain \<noteq> [] \<and> (best = [] \<or> rec_seq (last chain) > rec_seq (last best))"

definition chain_follows :: "u32 \<Rightarrow> wal_record list \<Rightarrow> wal_record \<Rightarrow> bool" where
  "chain_follows fv chain r \<longleftrightarrow> chain \<noteq> [] \<and> follows fv (rec_seq (last chain)) (rec_root (last chain)) r"

fun chain_loop :: "u32 \<Rightarrow> wal_record list \<Rightarrow> wal_record list \<Rightarrow> wal_record list \<Rightarrow> wal_record list" where
  "chain_loop fv best chain [] = (if better_chain chain best then chain else best)"
| "chain_loop fv best chain (r # rs) =
     (if chain_follows fv chain r then chain_loop fv best (chain @ [r]) rs
      else chain_loop fv (if better_chain chain best then chain else best) [r] rs)"

definition no_state_error :: db_error where
  "no_state_error = Corrupt ''no recoverable state: the state block is torn and every WAL region is empty''"

definition read_committed_state ::
  "(nat \<Rightarrow> nat \<Rightarrow> bytes result) \<Rightarrow> nat \<Rightarrow> u32 \<Rightarrow> (page_id \<times> page_id \<times> u64 \<times> wal_record list) result" where
  "read_committed_state rd page_size fv =
     rbind (read_state rd page_size) (\<lambda>st.
     rbind (scan_all rd page_size fv) (\<lambda>records.
     case st of
       Some s \<Rightarrow> Ok (follow_loop fv (st_root s, st_next s, st_checkpoint_seq s) []
                      (filter (\<lambda>r. rec_seq r > st_checkpoint_seq s) records))
     | None \<Rightarrow> let best = chain_loop fv [] [] records in
         if best = [] then Err no_state_error
         else Ok (rec_root (last best), rec_next (last best), rec_seq (last best), best)))"

definition resolve_at_least_retry_budget :: nat where "resolve_at_least_retry_budget = 64"

record commit_point =
  cp_root :: page_id
  cp_next :: page_id
  cp_seq :: u64
  cp_append_offset :: nat

text \<open>
  \<open>resolve_state_at_least\<close>: attempt \<open>n\<close> sees the device as it is then, its commit point
  \<open>cp n\<close> and its bytes \<open>rd n\<close>, because another writer may be committing.
\<close>

fun resolve_attempts ::
  "(nat \<Rightarrow> commit_point option) \<Rightarrow> (nat \<Rightarrow> nat \<Rightarrow> nat \<Rightarrow> bytes result) \<Rightarrow> nat \<Rightarrow> u32 \<Rightarrow> u64 \<Rightarrow> nat \<Rightarrow> nat \<Rightarrow>
   (page_id \<times> page_id \<times> u64) option result" where
  "resolve_attempts cp rd page_size fv floor_seq n 0 = Ok None"
| "resolve_attempts cp rd page_size fv floor_seq n (Suc k) =
     rbind (case cp n of
         Some p \<Rightarrow> Ok (cp_root p, cp_next p, cp_seq p)
       | None \<Rightarrow> rbind (read_committed_state (rd n) page_size fv) (\<lambda>(root, nxt, seq, _). Ok (root, nxt, seq)))
     (\<lambda>(root, nxt, seq).
       if seq \<ge> floor_seq then Ok (Some (root, nxt, seq))
       else resolve_attempts cp rd page_size fv floor_seq (n + 1) k)"

definition resolve_state_at_least ::
  "(nat \<Rightarrow> commit_point option) \<Rightarrow> (nat \<Rightarrow> nat \<Rightarrow> nat \<Rightarrow> bytes result) \<Rightarrow> nat \<Rightarrow> u32 \<Rightarrow> u64 \<Rightarrow>
   (page_id \<times> page_id \<times> u64) option result" where
  "resolve_state_at_least cp rd page_size fv floor_seq =
     resolve_attempts cp rd page_size fv floor_seq 0 (resolve_at_least_retry_budget + 1)"

section \<open>Bookkeeping keys\<close>

text \<open>Popping trailing \<open>0xff\<close> bytes and bumping the last other byte.\<close>

fun bump_last :: "bytes \<Rightarrow> bytes option" where
  "bump_last [] = None"
| "bump_last (b # rev_rest) = (if b \<noteq> 255 then Some (rev ((b + 1) # rev_rest)) else bump_last rev_rest)"

definition prefix_upper_bound :: "bytes \<Rightarrow> bytes option" where
  "prefix_upper_bound prefix = bump_last (rev prefix)"

definition next_row_id_meta :: bytes where "next_row_id_meta = 0 # ascii ''next_row_id''"
definition write_version_meta :: bytes where "write_version_meta = 0 # ascii ''write_version''"
definition cdc_floor_meta :: bytes where "cdc_floor_meta = 0 # ascii ''cdc_floor''"
definition cdc_meta_prefix :: bytes where "cdc_meta_prefix = 0 # ascii ''cdc:''"
definition free_list_prefix :: bytes where "free_list_prefix = 2 # ascii ''free'' @ [0]"

definition free_list_key :: "u64 \<Rightarrow> page_id \<Rightarrow> bytes" where
  "free_list_key freed_at pid = free_list_prefix @ u64_to_be freed_at @ u64_to_be pid"

definition starts_with :: "bytes \<Rightarrow> bytes \<Rightarrow> bool" where
  "starts_with k p \<longleftrightarrow> take (length p) k = p"

definition strip_prefix :: "bytes \<Rightarrow> bytes \<Rightarrow> bytes option" where
  "strip_prefix k p = (if starts_with k p then Some (drop (length p) k) else None)"

definition decode_free_list_key :: "bytes \<Rightarrow> (u64 \<times> page_id) option" where
  "decode_free_list_key k = (case strip_prefix k free_list_prefix of
     None \<Rightarrow> None
   | Some rest \<Rightarrow> if length rest \<noteq> 16 then None
                 else Some (u64_from_be (take 8 rest), u64_from_be (drop 8 rest)))"

definition mergeable_metadata_key :: "bytes \<Rightarrow> bool" where
  "mergeable_metadata_key k \<longleftrightarrow> k = next_row_id_meta \<or> k = write_version_meta \<or> k = cdc_floor_meta \<or>
     starts_with k cdc_meta_prefix"

section \<open>Merging the counters\<close>

definition decode_counter :: "bytes \<Rightarrow> u64 result" where
  "decode_counter bs = (if length bs = 8 then Ok (u64_from_le bs)
     else Err (Corrupt ''monotonic metadata counter is not eight bytes''))"

text \<open>\<open>Option::map(decode_counter).transpose()\<close>\<close>

definition decode_counter_opt :: "bytes option \<Rightarrow> u64 option result" where
  "decode_counter_opt v = (case v of None \<Rightarrow> Ok None | Some bs \<Rightarrow> rbind (decode_counter bs) (\<lambda>n. Ok (Some n)))"

type_synonym pending_ops = "bytes \<rightharpoonup> bytes option"

text \<open>\<open>get_current\<close> is \<open>tree.get_at(current_root, \<cdot>)\<close>.\<close>

definition merge_max_counter ::
  "(bytes \<Rightarrow> bytes option result) \<Rightarrow> pending_ops \<Rightarrow> bytes \<Rightarrow> pending_ops result" where
  "merge_max_counter get_current ops k =
     rbind (decode_counter_opt (Option.bind (ops k) id)) (\<lambda>p. case p of
       None \<Rightarrow> Ok ops
     | Some pend \<Rightarrow>
         rbind (get_current k) (\<lambda>cur.
         rbind (decode_counter_opt cur) (\<lambda>c.
         let current = (case c of None \<Rightarrow> 0 | Some n \<Rightarrow> n) in
         Ok (ops(k \<mapsto> Some (u64_to_le (max pend current)))))))"

text \<open>\<open>format!("\0cdc:{version:016x}")\<close>\<close>

definition hex_digit :: "nat \<Rightarrow> u8" where
  "hex_digit d = (if d < 10 then of_nat (48 + d) else of_nat (87 + d))"

fun hex_digits :: "nat \<Rightarrow> nat \<Rightarrow> bytes" where
  "hex_digits 0 n = []"
| "hex_digits (Suc k) n = hex_digits k (n div 16) @ [hex_digit (n mod 16)]"

definition cdc_key :: "u64 \<Rightarrow> bytes" where
  "cdc_key version = cdc_meta_prefix @ hex_digits 16 (unat version)"

definition merge_monotonic_metadata ::
  "(bytes \<Rightarrow> bytes option result) \<Rightarrow> pending_ops \<Rightarrow> pending_ops result" where
  "merge_monotonic_metadata get_current ops =
     rbind (merge_max_counter get_current ops next_row_id_meta) (\<lambda>ops.
     rbind (merge_max_counter get_current ops cdc_floor_meta) (\<lambda>ops.
     rbind (decode_counter_opt (Option.bind (ops write_version_meta) id)) (\<lambda>p. case p of
       None \<Rightarrow> Ok ops
     | Some pending_version \<Rightarrow>
         rbind (get_current write_version_meta) (\<lambda>cur.
         rbind (decode_counter_opt cur) (\<lambda>c.
         let current_version = (case c of None \<Rightarrow> 0 | Some n \<Rightarrow> n);
             rebased_version = current_version + 1;
             ops = ops(write_version_meta \<mapsto> Some (u64_to_le rebased_version));
             old_cdc_key = cdc_key pending_version in
         Ok (case ops old_cdc_key of
               None \<Rightarrow> ops
             | Some record \<Rightarrow> (ops(old_cdc_key := None))(cdc_key rebased_version \<mapsto> record)))))))"

section \<open>Blocks round-trip and detect corruption\<close>

definition header_body :: "nat \<Rightarrow> u32 \<Rightarrow> bytes" where
  "header_body ps v = magic @ u32_to_le (of_nat ps) @ u32_to_le v"

lemma length_magic [simp]: "length magic = 8"
  by (simp add: magic_def ascii_def)

lemma encode_header_image:
  "encode_header_with_version ps v = Ok (header_body ps v @ u64_to_le (fnv1a (header_body ps v)))"
proof -
  have "replicate 24 (0 :: u8) = replicate 8 0 @ replicate 4 0 @ replicate 4 0 @ replicate 8 0"
    by (simp flip: replicate_add)
  moreover have "splice 12 (u32_to_le v) (splice 8 (u32_to_le (of_nat ps)) (splice 0 magic
      (replicate 8 0 @ replicate 4 0 @ replicate 4 0 @ replicate 8 0))) = header_body ps v @ replicate 8 0"
    by (simp add: splice_def header_body_def)
  ultimately show ?thesis
    by (simp add: encode_header_with_version_def block_layout copy_at_def index_range_in slice_def)
      (simp add: header_body_def splice_def)
qed

lemma parse_header_image:
  assumes "min_readable_format_version \<le> v" "v \<le> format_version" "min_page_size \<le> ps" "ps < 4294967296"
  shows "parse_header (header_body ps v @ u64_to_le (fnv1a (header_body ps v)) @ rest) = Ok (ps, v)"
proof -
  let ?bs = "header_body ps v @ u64_to_le (fnv1a (header_body ps v)) @ rest"
  have l: "length (header_body ps v) = 16" by (simp add: header_body_def)
  have "read_u64 ?bs 16 = Ok (fnv1a (header_body ps v))" using l by (rule read_u64_at)
  moreover have "read_u32 ?bs 8 = Ok (of_nat ps)" "read_u32 ?bs 12 = Ok v"
    using read_u32_at [of magic 8] read_u32_at [of "magic @ u32_to_le (of_nat ps)" 12]
    by (simp_all add: header_body_def)
  moreover have "slice 0 8 ?bs = magic" "slice 0 16 ?bs = header_body ps v"
    using l by (simp_all add: slice_def header_body_def)
  ultimately show ?thesis
    using assms l by (simp add: parse_header_def block_layout index_range_in unat_of_nat_u32 not_less)
qed

lemma parse_header_OkD:
  assumes "parse_header bs = Ok (ps, v)"
  shows "24 \<le> length bs" "fnv1a (take 16 bs) = u64_from_le (take 8 (drop 16 bs))" "min_page_size \<le> ps"
    "min_readable_format_version \<le> v \<and> v \<le> format_version"
  using assms
  by (auto simp: parse_header_def block_layout read_u64_def slice_def Let_def split: if_splits)

lemma parse_header_not_Panic: "parse_header bs \<noteq> Panic"
  by (auto simp: parse_header_def block_layout Let_def split: if_splits)

lemma block_single_byte:
  assumes "fnv1a (take n bs) = u64_from_le (take 8 (drop n bs))" "n + 8 \<le> length bs" "i < n + 8" "b \<noteq> bs ! i"
  shows "fnv1a (take n (bs[i := b])) \<noteq> u64_from_le (take 8 (drop n (bs[i := b])))"
proof (cases "i < n")
  case True
  then have "drop n (bs[i := b]) = drop n bs" by simp
  then show ?thesis using True assms fnv1a_update [of i "take n bs" b] by (simp add: take_update_swap)
next
  case False
  then have t: "take n (bs[i := b]) = take n bs" by simp
  show ?thesis
  proof
    assume "fnv1a (take n (bs[i := b])) = u64_from_le (take 8 (drop n (bs[i := b])))"
    then have "take 8 (drop n (bs[i := b])) = take 8 (drop n bs)"
      using assms t by (intro u64_from_le_inj) auto
    then have "take 8 (drop n (bs[i := b])) ! (i - n) = take 8 (drop n bs) ! (i - n)" by simp
    then show False using False assms by simp
  qed
qed

definition state_body :: "page_id \<Rightarrow> page_id \<Rightarrow> u64 \<Rightarrow> bytes" where
  "state_body root nxt seq = u64_to_le root @ u64_to_le nxt @ u64_to_le seq"

lemma encode_state_image:
  "encode_state root nxt seq = Ok (state_body root nxt seq @ u64_to_le (fnv1a (state_body root nxt seq)))"
proof -
  have "replicate 32 (0 :: u8) = replicate 8 0 @ replicate 8 0 @ replicate 8 0 @ replicate 8 0"
    by (simp flip: replicate_add)
  moreover have "splice 16 (u64_to_le seq) (splice 8 (u64_to_le nxt) (splice 0 (u64_to_le root)
      (replicate 8 0 @ replicate 8 0 @ replicate 8 0 @ replicate 8 0))) = state_body root nxt seq @ replicate 8 0"
    by (simp add: splice_def state_body_def)
  ultimately show ?thesis
    by (simp add: encode_state_def block_layout copy_at_def index_range_in slice_def)
      (simp add: state_body_def splice_def)
qed

lemma parse_state_image:
  "parse_state (state_body root nxt seq @ u64_to_le (fnv1a (state_body root nxt seq))) =
     Ok (Some \<lparr>st_root = root, st_next = nxt, st_checkpoint_seq = seq\<rparr>)"
proof -
  let ?bs = "state_body root nxt seq @ u64_to_le (fnv1a (state_body root nxt seq))"
  have l: "length (state_body root nxt seq) = 24" by (simp add: state_body_def)
  have "read_u64 ?bs 24 = Ok (fnv1a (state_body root nxt seq))" using read_u64_at [OF l, of _ "[]"] by simp
  moreover have "read_u64 ?bs 0 = Ok root" "read_u64 ?bs 8 = Ok nxt" "read_u64 ?bs 16 = Ok seq"
    using read_u64_at [of "[]" 0] read_u64_at [of "u64_to_le root" 8]
      read_u64_at [of "u64_to_le root @ u64_to_le nxt" 16] by (simp_all add: state_body_def)
  moreover have "slice 0 24 ?bs = state_body root nxt seq" using l by (simp add: slice_def)
  ultimately show ?thesis using l by (simp add: parse_state_def block_layout index_range_in)
qed

lemma parse_state_SomeD:
  assumes "parse_state bs = Ok (Some s)"
  shows "32 \<le> length bs" "fnv1a (take 24 bs) = u64_from_le (take 8 (drop 24 bs))"
  using assms by (auto simp: parse_state_def block_layout read_u64_def slice_def split: if_splits)

lemma parse_state_total: "\<exists>r. parse_state bs = Ok r"
proof -
  have "parse_state bs \<noteq> Panic" "\<And>e. parse_state bs \<noteq> Err e"
    by (auto simp: parse_state_def block_layout split: if_splits)
  then show ?thesis by (metis result.exhaust)
qed

lemma parse_state_corrupt:
  assumes "parse_state b = Ok (Some s)" "i < 32" "c \<noteq> b ! i"
  shows "parse_state (b[i := c]) = Ok None"
proof -
  have "fnv1a (take 24 (b[i := c])) \<noteq> u64_from_le (take 8 (drop 24 (b[i := c])))"
    by (rule block_single_byte) (use parse_state_SomeD [OF assms(1)] assms(2,3) in auto)
  then have "parse_state (b[i := c]) \<noteq> Ok (Some s')" for s' using parse_state_SomeD(2) by blast
  then show ?thesis using parse_state_total [of "b[i := c]"] by (metis not_None_eq)
qed

section \<open>The recovery chain\<close>

text \<open>Each record links to the one before it.\<close>

fun linked :: "u32 \<Rightarrow> u64 \<Rightarrow> page_id \<Rightarrow> wal_record list \<Rightarrow> bool" where
  "linked fv seq root [] = True"
| "linked fv seq root (r # rs) = (follows fv seq root r \<and> linked fv (rec_seq r) (rec_root r) rs)"

definition chain_end :: "page_id \<times> page_id \<times> u64 \<Rightarrow> wal_record list \<Rightarrow> page_id \<times> page_id \<times> u64" where
  "chain_end s ch = (if ch = [] then s else (rec_root (last ch), rec_next (last ch), rec_seq (last ch)))"

lemma chain_end_Cons: "chain_end s (r # ch) = chain_end (rec_root r, rec_next r, rec_seq r) ch"
  by (simp add: chain_end_def)

lemma follow_loop_spec:
  "\<exists>ch rest. rs = ch @ rest \<and> linked fv seq root ch \<and>
     (case chain_end (root, nxt, seq) ch of (root', nxt', seq') \<Rightarrow>
        follow_loop fv (root, nxt, seq) replay rs = (root', nxt', seq', replay @ ch) \<and>
        (rest \<noteq> [] \<longrightarrow> \<not> follows fv seq' root' (hd rest)))"
proof (induction rs arbitrary: root nxt seq replay)
  case Nil
  then show ?case by (simp add: chain_end_def)
next
  case (Cons r rs)
  show ?case
  proof (cases "follows fv seq root r")
    case False
    then show ?thesis by (intro exI [of _ "[]"] exI [of _ "r # rs"]) (simp add: chain_end_def)
  next
    case True
    obtain ch rest where c: "rs = ch @ rest" "linked fv (rec_seq r) (rec_root r) ch"
      "case chain_end (rec_root r, rec_next r, rec_seq r) ch of (root', nxt', seq') \<Rightarrow>
        follow_loop fv (rec_root r, rec_next r, rec_seq r) (replay @ [r]) rs = (root', nxt', seq', (replay @ [r]) @ ch) \<and>
        (rest \<noteq> [] \<longrightarrow> \<not> follows fv seq' root' (hd rest))"
      using Cons.IH [of "rec_seq r" "rec_root r" "rec_next r" "replay @ [r]"]
      by - (elim exE conjE, rule that)
    obtain root' nxt' seq' where e: "chain_end (rec_root r, rec_next r, rec_seq r) ch = (root', nxt', seq')"
      using prod_cases3 by blast
    have "follow_loop fv (root, nxt, seq) replay (r # rs) = (root', nxt', seq', replay @ r # ch)"
      and "rest \<noteq> [] \<longrightarrow> \<not> follows fv seq' root' (hd rest)"
      using c(3) True unfolding e by simp_all
    moreover have "r # rs = (r # ch) @ rest" using c(1) by simp
    moreover have "linked fv seq root (r # ch)" using c(2) True by simp
    ultimately show ?thesis
      by (intro exI [of _ "r # ch"] exI [of _ rest]) (simp only: chain_end_Cons e case_prod_conv simp_thms)
  qed
qed

definition chain_ok :: "u32 \<Rightarrow> wal_record list \<Rightarrow> bool" where
  "chain_ok fv ch \<longleftrightarrow> ch = [] \<or> linked fv (rec_seq (hd ch)) (rec_root (hd ch)) (tl ch)"

lemma linked_snoc:
  "linked fv seq root (ch @ [r]) \<longleftrightarrow> linked fv seq root ch \<and>
     (case chain_end (root, 0, seq) ch of (root', _, seq') \<Rightarrow> follows fv seq' root' r)"
  by (induction ch arbitrary: seq root) (auto simp: chain_end_def)

lemma chain_ok_snoc: "chain_ok fv ch \<Longrightarrow> chain_follows fv ch r \<Longrightarrow> chain_ok fv (ch @ [r])"
  by (cases ch) (auto simp: chain_ok_def chain_follows_def linked_snoc chain_end_def)

lemma chain_loop_spec:
  assumes "chain_ok fv best" "chain_ok fv chain" "sorted (map rec_seq (chain @ rs))"
    and "\<forall>r \<in> set best. rec_seq r \<le> rec_seq (last best)"
    and "res = chain_loop fv best chain rs"
  shows "chain_ok fv res \<and> set res \<subseteq> set best \<union> set chain \<union> set rs \<and>
    (\<forall>r \<in> set best \<union> set chain \<union> set rs. res \<noteq> [] \<and> rec_seq r \<le> rec_seq (last res))"
  using assms
proof (induction rs arbitrary: best chain)
  case Nil
  have "\<forall>r \<in> set chain. rec_seq r \<le> rec_seq (last chain)"
    using Nil.prems(3) by (induction chain rule: rev_induct) (auto simp: sorted_append)
  then show ?case using Nil.prems
    by (auto simp: better_chain_def not_less dest: order_trans)
next
  case (Cons r rs)
  have last_max: "\<forall>q \<in> set chain. rec_seq q \<le> rec_seq (last chain)"
    using Cons.prems(3) by (induction chain rule: rev_induct) (auto simp: sorted_append)
  show ?case
  proof (cases "chain_follows fv chain r")
    case True
    then show ?thesis
      using Cons.IH [of best "chain @ [r]"] Cons.prems chain_ok_snoc [OF Cons.prems(2) True] by auto
  next
    case False
    let ?b = "if better_chain chain best then chain else best"
    have b: "chain_ok fv ?b" "\<forall>q \<in> set ?b. rec_seq q \<le> rec_seq (last ?b)"
      "\<forall>q \<in> set best \<union> set chain. ?b \<noteq> [] \<and> rec_seq q \<le> rec_seq (last ?b)"
      using Cons.prems last_max by (auto simp: better_chain_def not_less intro: order_trans less_imp_le)
    have "sorted (map rec_seq ([r] @ rs))" using Cons.prems(3) by (simp add: sorted_append)
    moreover have "chain_ok fv [r]" by (simp add: chain_ok_def)
    moreover have "res = chain_loop fv ?b [r] rs" using Cons.prems(5) False by simp
    ultimately have IH: "chain_ok fv res \<and> set res \<subseteq> set ?b \<union> set [r] \<union> set rs \<and>
      (\<forall>q \<in> set ?b \<union> set [r] \<union> set rs. res \<noteq> [] \<and> rec_seq q \<le> rec_seq (last res))"
      using Cons.IH [of ?b "[r]"] b(1,2) by blast
    have "?b \<noteq> [] \<Longrightarrow> last ?b \<in> set ?b" by simp
    with IH b(3) have "\<forall>q \<in> set best \<union> set chain. rec_seq q \<le> rec_seq (last res)"
      by (meson UnI1 order_trans)
    with IH show ?thesis by (auto split: if_splits)
  qed
qed

section \<open>Prefix ranges and bookkeeping keys\<close>

lemma starts_with_append [simp]: "starts_with (p @ r) p"
  by (simp add: starts_with_def)

lemma starts_withD: "starts_with k p \<Longrightarrow> \<exists>r. k = p @ r"
  unfolding starts_with_def by (metis append_take_drop_id)

lemma starts_with_snoc: "starts_with (q @ r) (q @ [b]) \<longleftrightarrow> (\<exists>r'. r = b # r')"
  by (cases r) (auto simp: starts_with_def)

lemma starts_with_weaken: "starts_with k (q @ [b]) \<Longrightarrow> starts_with k q"
  by (auto dest: starts_withD)

lemma less_outside_prefix:
  fixes k q :: bytes
  assumes "\<not> starts_with k q"
  shows "k < q @ x \<longleftrightarrow> k < q @ y"
  using assms
proof (induction q arbitrary: k)
  case Nil
  then show ?case by (simp add: starts_with_def)
next
  case (Cons b q)
  then show ?case by (cases k) (auto simp: starts_with_def)
qed

lemma word_between: "(b :: u8) \<noteq> 255 \<Longrightarrow> b \<le> c \<and> c < b + 1 \<longleftrightarrow> c = b"
proof -
  assume "b \<noteq> 255"
  then have "unat b \<noteq> 255" using word_unat_eq_iff [of b 255] by simp
  then show ?thesis using unat_u8_bound [of b]
    by (auto simp: word_le_nat_alt word_less_nat_alt unat_word_ariths word_unat_eq_iff)
qed

lemma prefix_range:
  "starts_with k p \<longleftrightarrow> p \<le> k \<and> (case prefix_upper_bound p of None \<Rightarrow> True | Some u \<Rightarrow> k < u)"
proof (induction p rule: rev_induct)
  case Nil
  then show ?case by (simp add: starts_with_def prefix_upper_bound_def)
next
  case (snoc b q)
  show ?case
  proof (cases "starts_with k q")
    case False
    then have ns: "\<not> starts_with k (q @ [b])" using starts_with_weaken by blast
    show ?thesis
    proof (cases "b = 255")
      case True
      then have "prefix_upper_bound (q @ [b]) = prefix_upper_bound q" by (simp add: prefix_upper_bound_def)
      moreover have "q @ [b] \<le> k \<Longrightarrow> q \<le> k"
        using less_outside_prefix [OF False, of "[b]" "[]"] by (auto simp: not_less [symmetric])
      ultimately show ?thesis using ns False snoc by auto
    next
      case nb: False
      then have "prefix_upper_bound (q @ [b]) = Some (q @ [b + 1])" by (simp add: prefix_upper_bound_def)
      then show ?thesis using ns less_outside_prefix [OF False, of "[b]" "[b + 1]"] by (auto simp: not_less)
    qed
  next
    case True
    then obtain r where k: "k = q @ r" by (blast dest: starts_withD)
    have le: "q @ [b] \<le> k \<longleftrightarrow> [b] \<le> r" by (simp add: k not_less [symmetric])
    show ?thesis
    proof (cases "b = 255")
      case b: True
      then have "prefix_upper_bound (q @ [b]) = prefix_upper_bound q" by (simp add: prefix_upper_bound_def)
      moreover have "[b] \<le> r \<longleftrightarrow> (\<exists>r'. r = b # r')"
      proof (cases r)
        case (Cons c r')
        have "c \<le> 255" using word_le_nat_alt unat_u8_bound [of c] by (simp add: word_le_nat_alt)
        then show ?thesis using Cons b by auto
      qed simp
      ultimately show ?thesis using True snoc le by (simp add: k starts_with_snoc)
    next
      case nb: False
      then have u: "prefix_upper_bound (q @ [b]) = Some (q @ [b + 1])" by (simp add: prefix_upper_bound_def)
      show ?thesis
      proof (cases r)
        case Nil
        then show ?thesis using le by (simp add: k u starts_with_def)
      next
        case (Cons c r')
        have "starts_with k (q @ [b]) \<longleftrightarrow> c = b" by (simp add: k starts_with_snoc Cons)
        also have "\<dots> \<longleftrightarrow> b \<le> c \<and> c < b + 1" using word_between [OF nb] by simp
        finally show ?thesis using le by (auto simp: u k Cons)
      qed
    qed
  qed
qed

lemma free_list_key_decode: "decode_free_list_key (free_list_key s p) = Some (s, p)"
  by (simp add: decode_free_list_key_def free_list_key_def strip_prefix_def starts_with_def)

lemma decode_free_list_key_SomeD:
  assumes "decode_free_list_key k = Some (s, p)"
  shows "k = free_list_key s p"
proof -
  obtain rest where r: "k = free_list_prefix @ rest" "length rest = 16" "s = u64_from_be (take 8 rest)"
    "p = u64_from_be (drop 8 rest)"
    using assms by (auto simp: decode_free_list_key_def strip_prefix_def split: option.splits if_splits dest!: starts_withD)
  then have "u64_to_be s @ u64_to_be p = take 8 rest @ drop 8 rest" by (simp add: u64_be_codec_inv)
  then show ?thesis using r(1) by (simp add: free_list_key_def)
qed

lemma free_list_key_less:
  "free_list_key s p < free_list_key s' p' \<longleftrightarrow> s < s' \<or> (s = s' \<and> p < p')"
proof (cases "s = s'")
  case True
  then show ?thesis by (simp add: free_list_key_def u64_to_be_less_iff)
next
  case False
  then show ?thesis
    using append_less_decided [of "u64_to_be s" "u64_to_be s'" "u64_to_be p" "u64_to_be p'"]
    by (simp add: free_list_key_def u64_to_be_less_iff)
qed

section \<open>Merged counters\<close>

lemma decode_counter_le [simp]: "decode_counter (u64_to_le n) = Ok n"
  by (simp add: decode_counter_def)

text \<open>The value a key holds before and after a merge.\<close>

definition counter_at :: "bytes option \<Rightarrow> u64" where
  "counter_at v = (case v of None \<Rightarrow> 0 | Some bs \<Rightarrow> u64_from_le bs)"

definition counter_ok :: "bytes option \<Rightarrow> bool" where
  "counter_ok v = (case v of None \<Rightarrow> True | Some bs \<Rightarrow> length bs = 8)"

lemma decode_counter_opt_ok:
  "counter_ok v \<Longrightarrow> decode_counter_opt v = Ok (map_option u64_from_le v)"
  by (auto simp: decode_counter_opt_def decode_counter_def counter_ok_def split: option.splits)

lemma merge_max_counter_some:
  assumes "ops k = Some (Some (u64_to_le p))" "get k = Ok cur" "counter_ok cur"
  shows "merge_max_counter get ops k = Ok (ops(k \<mapsto> Some (u64_to_le (max p (counter_at cur)))))"
  using assms
  by (cases cur)
    (simp_all add: merge_max_counter_def decode_counter_opt_def counter_at_def counter_ok_def decode_counter_def)

lemma merge_max_counter_none:
  "ops k = None \<or> ops k = Some None \<Longrightarrow> merge_max_counter get ops k = Ok ops"
  by (auto simp: merge_max_counter_def decode_counter_opt_def)

lemma hex_digit_inj: "a < 16 \<Longrightarrow> b < 16 \<Longrightarrow> hex_digit a = hex_digit b \<Longrightarrow> a = b"
  by (auto simp: hex_digit_def word_unat_eq_iff unat_of_nat unat_word_ariths split: if_splits)

lemma hex_digits_inj: "n < 16 ^ k \<Longrightarrow> m < 16 ^ k \<Longrightarrow> hex_digits k n = hex_digits k m \<Longrightarrow> n = m"
proof (induction k arbitrary: n m)
  case (Suc k)
  then have "n div 16 < 16 ^ k" "m div 16 < 16 ^ k" by (simp_all add: div_less_iff_less_mult mult.commute)
  with Suc have "n div 16 = m div 16" "n mod 16 = m mod 16" by (auto intro!: hex_digit_inj)
  then show ?case by (metis div_mult_mod_eq)
qed simp

lemma cdc_key_inj [simp]: "cdc_key a = cdc_key b \<longleftrightarrow> a = b"
  using hex_digits_inj [of "unat a" 16 "unat b"] unat_u64_lt [of a] unat_u64_lt [of b]
  by (auto simp: cdc_key_def word_unat_eq_iff)

lemma meta_keys_distinct:
  "next_row_id_meta \<noteq> write_version_meta" "next_row_id_meta \<noteq> cdc_floor_meta" "write_version_meta \<noteq> cdc_floor_meta"
  by code_simp+

lemma cdc_key_not_meta:
  "cdc_key v \<noteq> next_row_id_meta" "cdc_key v \<noteq> write_version_meta" "cdc_key v \<noteq> cdc_floor_meta"
proof -
  have n: "\<not> starts_with next_row_id_meta cdc_meta_prefix" "\<not> starts_with write_version_meta cdc_meta_prefix"
    "\<not> starts_with cdc_floor_meta cdc_meta_prefix" by code_simp+
  have "starts_with (cdc_key v) cdc_meta_prefix" by (simp add: cdc_key_def)
  then show "cdc_key v \<noteq> next_row_id_meta" "cdc_key v \<noteq> write_version_meta" "cdc_key v \<noteq> cdc_floor_meta"
    using n by auto
qed

section \<open>Properties\<close>

text \<open>
  the file header round-trips for every supported version and page size, never panics on
  any bytes, and a header with one corrupted byte is refused.
\<close>

theorem header_roundtrip:
  assumes "3 \<le> v" "v \<le> 6" "64 \<le> ps" "ps < 4294967296"
  shows "\<exists>h. encode_header_with_version ps v = Ok h \<and> length h = header_len \<and> parse_header h = Ok (ps, v) \<and>
    (\<forall>i < header_len. \<forall>b. b \<noteq> h ! i \<longrightarrow> (\<exists>e. parse_header (h[i := b]) = Err e))"
proof -
  let ?h = "header_body ps v @ u64_to_le (fnv1a (header_body ps v))"
  have l: "length ?h = 24" by (simp add: header_body_def)
  have p: "parse_header ?h = Ok (ps, v)"
    using parse_header_image [of v ps "[]"] assms
    by (simp add: min_readable_format_version_def format_version_def min_page_size_def)
  have "\<exists>e. parse_header (?h[i := b]) = Err e" if "i < 24" "b \<noteq> ?h ! i" for i b
  proof -
    have "fnv1a (take 16 (?h[i := b])) \<noteq> u64_from_le (take 8 (drop 16 (?h[i := b])))"
      by (rule block_single_byte) (use parse_header_OkD(2) [OF p] l that in auto)
    then have "parse_header (?h[i := b]) \<noteq> Ok r" for r
      using parse_header_OkD(2) [of "?h[i := b]" "fst r" "snd r"] by auto
    then show ?thesis using parse_header_not_Panic by (metis result.exhaust)
  qed
  then show ?thesis using p l by (simp add: encode_header_image header_len_def)
qed

theorem header_roundtrip_witness:
  "\<exists>h. encode_header_with_version 4096 6 = Ok h \<and> length h = header_len \<and> parse_header h = Ok (4096, 6)"
  using header_roundtrip [of 6 4096] by auto

text \<open>
  the state block round-trips, and a state block with one corrupted byte is recognised as
  torn instead of being trusted.
\<close>

theorem state_roundtrip:
  "\<exists>b. encode_state root nxt seq = Ok b \<and> length b = state_len \<and>
    parse_state b = Ok (Some \<lparr>st_root = root, st_next = nxt, st_checkpoint_seq = seq\<rparr>) \<and>
    (\<forall>i < state_len. \<forall>c. c \<noteq> b ! i \<longrightarrow> parse_state (b[i := c]) = Ok None)"
proof -
  let ?b = "state_body root nxt seq @ u64_to_le (fnv1a (state_body root nxt seq))"
  have l: "length ?b = 32" by (simp add: state_body_def)
  note p = parse_state_image [of root nxt seq]
  have "parse_state (?b[i := c]) = Ok None" if "i < 32" "c \<noteq> ?b ! i" for i c
    by (rule parse_state_corrupt [OF p that])
  then show ?thesis using p l by (simp add: encode_state_image state_len_def)
qed

theorem state_roundtrip_witness:
  "\<exists>b. encode_state 7 8 9 = Ok b \<and> parse_state b = Ok (Some \<lparr>st_root = 7, st_next = 8, st_checkpoint_seq = 9\<rparr>)"
  using state_roundtrip [of 7 8 9] by blast


definition state_block_device :: "nat \<Rightarrow> nat \<Rightarrow> bytes result" where
  "state_block_device a n = (if a = 64 \<and> n = 32
     then encode_state 7 8 9 else Ok (replicate n 0))"

lemma state_block_device_scan: "scan_all state_block_device 64 4 = Ok []"
proof -
  have z: "read_u32 (replicate 4 0) 0 = Ok 0" by (simp add: read_u32_eq u32_from_le_def slice_def eval_nat_numeral)
  have "scan_region state_block_device 64 4 0 = Ok \<lparr>scan_records = [], append_offset = 128\<rparr>"
    unfolding scan_region_def
    by (subst scan_loop.simps)
      (simp add: state_block_device_def region_end_def region_start_def wal_start_def wal_region_len_def wal_blocks_def z Let_def)
  then show ?thesis by (simp add: scan_all_def region_count_def multi_region_format_version_def)
qed


text \<open>
  with a torn state block, recovery uses a linked chain of surviving records that ends at
  the highest sequence number in the log, and reports corruption exactly when the log is
  empty.
\<close>

theorem torn_state_recovers_newest:
  assumes "read_state rd ps = Ok None" "scan_all rd ps fv = Ok records"
  shows "if records = [] then read_committed_state rd ps fv = Err no_state_error
    else \<exists>chain. chain \<noteq> [] \<and> chain_ok fv chain \<and> set chain \<subseteq> set records \<and>
      (\<forall>r \<in> set records. rec_seq r \<le> rec_seq (last chain)) \<and>
      read_committed_state rd ps fv = Ok (rec_root (last chain), rec_next (last chain), rec_seq (last chain), chain)"
proof -
  have sorted: "sorted (map rec_seq records)" using assms(2) by (auto simp: scan_all_def)
  let ?best = "chain_loop fv [] [] records"
  have s: "chain_ok fv ?best \<and> set ?best \<subseteq> set [] \<union> set [] \<union> set records \<and>
    (\<forall>r \<in> set [] \<union> set [] \<union> set records. ?best \<noteq> [] \<and> rec_seq r \<le> rec_seq (last ?best))"
    by (rule chain_loop_spec) (simp_all add: chain_ok_def sorted)
  show ?thesis
  proof (cases "records = []")
    case True
    then show ?thesis using assms by (simp add: read_committed_state_def better_chain_def)
  next
    case False
    then have "?best \<noteq> []" using s by (cases records) auto
    then show ?thesis using s False assms by (auto simp: read_committed_state_def Let_def intro!: exI [of _ ?best])
  qed
qed

definition torn_block_device :: "nat \<Rightarrow> nat \<Rightarrow> bytes result" where
  "torn_block_device a n = (if a = 64 \<and> n = 32
     then rbind (encode_state 7 8 9) (\<lambda>b. Ok (b[0 := 1])) else Ok (replicate n 0))"

lemma torn_block_device_scan: "scan_all torn_block_device 64 4 = Ok []"
proof -
  have "scan_loop torn_block_device 4 16512 [] 128 = scan_loop state_block_device 4 16512 [] 128"
    by (subst (1 2) scan_loop.simps)
      (simp add: state_block_device_def torn_block_device_def read_u32_eq u32_from_le_def slice_def eval_nat_numeral Let_def)
  then show ?thesis
    using state_block_device_scan
    by (simp add: scan_all_def scan_region_def region_count_def multi_region_format_version_def region_end_def
        region_start_def wal_start_def wal_region_len_def wal_blocks_def)
qed

theorem torn_state_recovers_newest_witness:
  "read_committed_state torn_block_device 64 4 = Err no_state_error"
proof -
  let ?b = "state_body 7 8 9 @ u64_to_le (fnv1a (state_body 7 8 9))"
  have "u64_to_le 7 ! 0 = 7" by code_simp
  then have "1 \<noteq> ?b ! 0" by (simp add: state_body_def nth_append)
  then have "parse_state (?b[0 := 1]) = Ok None" by (intro parse_state_corrupt [OF parse_state_image]) simp_all
  then have "read_state torn_block_device 64 = Ok None"
    by (simp add: read_state_def torn_block_device_def state_offset_def state_len_def encode_state_image)
  from torn_state_recovers_newest [OF this torn_block_device_scan] show ?thesis by simp
qed

text \<open>
  a reader that resolves the committed state with a floor never receives a state older
  than the floor, whatever the device shows at each attempt, and it receives the first state
  that is new enough.
\<close>

theorem resolve_never_below_floor:
  assumes "resolve_state_at_least cp rd ps fv floor_seq = Ok (Some (root, nxt, seq))"
  shows "floor_seq \<le> seq \<and> (\<exists>n \<le> resolve_at_least_retry_budget.
    (\<exists>p. cp n = Some p \<and> (root, nxt, seq) = (cp_root p, cp_next p, cp_seq p)) \<or>
    (cp n = None \<and> (\<exists>replay. read_committed_state (rd n) ps fv = Ok (root, nxt, seq, replay))))"
proof -
  have "floor_seq \<le> seq \<and> (\<exists>n < m + k.
      (\<exists>p. cp n = Some p \<and> (root, nxt, seq) = (cp_root p, cp_next p, cp_seq p)) \<or>
      (cp n = None \<and> (\<exists>replay. read_committed_state (rd n) ps fv = Ok (root, nxt, seq, replay))))"
    if "resolve_attempts cp rd ps fv floor_seq m k = Ok (Some (root, nxt, seq))" for m k
    using that
  proof (induction k arbitrary: m)
    case (Suc k)
    obtain root' nxt' seq' where a: "(case cp m of
         Some p \<Rightarrow> Ok (cp_root p, cp_next p, cp_seq p)
       | None \<Rightarrow> rbind (read_committed_state (rd m) ps fv) (\<lambda>(root, nxt, seq, _). Ok (root, nxt, seq))) = Ok (root', nxt', seq')"
      "(if seq' \<ge> floor_seq then Ok (Some (root', nxt', seq')) else resolve_attempts cp rd ps fv floor_seq (m + 1) k) =
        Ok (Some (root, nxt, seq))"
      using Suc.prems by auto
    show ?case
    proof (cases "seq' \<ge> floor_seq")
      case True
      then have "root' = root" "nxt' = nxt" "seq' = seq" using a(2) by auto
      then show ?thesis using a(1) True by (auto split: option.splits intro!: exI [of _ m])
    next
      case False
      then show ?thesis using a(2) Suc.IH [of "m + 1"] by auto
    qed
  qed simp
  from this [of 0 "resolve_at_least_retry_budget + 1"] assms show ?thesis
    unfolding resolve_state_at_least_def by (auto simp: less_Suc_eq_le)
qed

theorem resolve_never_below_floor_witness:
  "resolve_state_at_least (\<lambda>n. if n = 1 then Some \<lparr>cp_root = 5, cp_next = 6, cp_seq = 9, cp_append_offset = 0\<rparr> else
      Some \<lparr>cp_root = 4, cp_next = 5, cp_seq = 3, cp_append_offset = 0\<rparr>) (\<lambda>n a k. Ok []) 64 4 8 = Ok (Some (5, 6, 9)) \<and>
   (8 :: u64) \<le> 9"
proof -
  let ?cp = "\<lambda>n. if n = (1 :: nat) then Some \<lparr>cp_root = 5, cp_next = 6, cp_seq = 9, cp_append_offset = 0\<rparr> else
      Some \<lparr>cp_root = 4, cp_next = 5, cp_seq = 3, cp_append_offset = 0\<rparr>"
  have e: "resolve_state_at_least ?cp (\<lambda>n a k. Ok []) 64 4 8 = Ok (Some (5, 6, 9))"
  proof -
    have "resolve_at_least_retry_budget + 1 = Suc (Suc 63)" by (simp add: resolve_at_least_retry_budget_def)
    note b = this
    show ?thesis unfolding resolve_state_at_least_def b resolve_attempts.simps by simp
  qed
  from e resolve_never_below_floor [OF e] show ?thesis by simp
qed

text \<open>
  the half-open range from a prefix to its upper bound holds exactly the keys that start
  with the prefix.
\<close>

theorem prefix_range_exact:
  "starts_with k p \<longleftrightarrow> p \<le> k \<and> (case prefix_upper_bound p of None \<Rightarrow> True | Some u \<Rightarrow> k < u)"
  by (rule prefix_range)

text \<open>
  free-list rows decode to the page and sequence number they were made from, no other
  key decodes, and their key order is oldest-freed first.
\<close>

theorem free_list_keys_exact:
  "(decode_free_list_key k = Some (s, p) \<longleftrightarrow> k = free_list_key s p) \<and>
   (free_list_key s p < free_list_key s' p' \<longleftrightarrow> s < s' \<or> (s = s' \<and> p < p'))"
  using free_list_key_decode decode_free_list_key_SomeD free_list_key_less by blast

text \<open>
  rebasing a transaction's counters on the winner's never moves one backwards: the next
  row id and the CDC floor become the larger of the two, the write version becomes the
  winner's plus one, and the transaction's CDC record moves to the rebased version; every
  other operation is left as it was.
\<close>

theorem merged_counters_monotonic:
  assumes "ops next_row_id_meta = Some (Some (u64_to_le row))" "get next_row_id_meta = Ok cur_row" "counter_ok cur_row"
    and "ops cdc_floor_meta = Some (Some (u64_to_le flr))" "get cdc_floor_meta = Ok cur_flr" "counter_ok cur_flr"
    and "ops write_version_meta = Some (Some (u64_to_le v))" "get write_version_meta = Ok cur_v" "counter_ok cur_v"
    and "ops (cdc_key v) = Some rec"
  shows "\<exists>ops'. merge_monotonic_metadata get ops = Ok ops' \<and>
    ops' next_row_id_meta = Some (Some (u64_to_le (max row (counter_at cur_row)))) \<and>
    ops' cdc_floor_meta = Some (Some (u64_to_le (max flr (counter_at cur_flr)))) \<and>
    ops' write_version_meta = Some (Some (u64_to_le (counter_at cur_v + 1))) \<and>
    ops' (cdc_key (counter_at cur_v + 1)) = Some rec \<and>
    (\<forall>k. k \<notin> {next_row_id_meta, cdc_floor_meta, write_version_meta, cdc_key v, cdc_key (counter_at cur_v + 1)} \<longrightarrow>
       ops' k = ops k)"
proof -
  let ?ops1 = "ops(next_row_id_meta \<mapsto> Some (u64_to_le (max row (counter_at cur_row))))"
  let ?ops2 = "?ops1(cdc_floor_meta \<mapsto> Some (u64_to_le (max flr (counter_at cur_flr))))"
  have 1: "merge_max_counter get ops next_row_id_meta = Ok ?ops1"
    by (rule merge_max_counter_some) (use assms in auto)
  have 2: "merge_max_counter get ?ops1 cdc_floor_meta = Ok ?ops2"
    by (rule merge_max_counter_some) (use assms meta_keys_distinct in auto)
  have v: "?ops2 write_version_meta = Some (Some (u64_to_le v))" "?ops2 (cdc_key v) = Some rec"
    using assms meta_keys_distinct cdc_key_not_meta by auto
  obtain c where c: "decode_counter_opt cur_v = Ok c" "(case c of None \<Rightarrow> 0 | Some n \<Rightarrow> n) = counter_at cur_v"
    using decode_counter_opt_ok [OF assms(9)] by (cases cur_v) (auto simp: counter_at_def)
  define ops2 where "ops2 = ?ops2"
  have p: "decode_counter_opt (Some (u64_to_le v)) = Ok (Some v)" by (simp add: decode_counter_opt_def)
  have "merge_monotonic_metadata get ops = Ok
      (((ops2(write_version_meta \<mapsto> Some (u64_to_le (counter_at cur_v + 1))))(cdc_key v := None))
        (cdc_key (counter_at cur_v + 1) \<mapsto> rec))"
    using v [folded ops2_def] cdc_key_not_meta(2) [of v]
    by (simp add: merge_monotonic_metadata_def 1 2 ops2_def [symmetric] assms(8) p c Let_def)
  then show ?thesis
    unfolding ops2_def using meta_keys_distinct cdc_key_not_meta cdc_key_not_meta [THEN not_sym] by (auto intro: not_sym)
qed

definition sample_ops :: pending_ops where
  "sample_ops = [next_row_id_meta \<mapsto> Some (u64_to_le 12), cdc_floor_meta \<mapsto> Some (u64_to_le 1),
     write_version_meta \<mapsto> Some (u64_to_le 4), cdc_key 4 \<mapsto> Some [7]]"

theorem merged_counters_monotonic_witness:
  "\<exists>ops'. merge_monotonic_metadata (\<lambda>k. Ok (Some (u64_to_le 9))) sample_ops = Ok ops' \<and>
    ops' next_row_id_meta = Some (Some (u64_to_le 12)) \<and> ops' cdc_floor_meta = Some (Some (u64_to_le 9)) \<and>
    ops' write_version_meta = Some (Some (u64_to_le 10)) \<and> ops' (cdc_key 10) = Some (Some [7])"
proof -
  have o: "sample_ops next_row_id_meta = Some (Some (u64_to_le 12))" "sample_ops cdc_floor_meta = Some (Some (u64_to_le 1))"
    "sample_ops write_version_meta = Some (Some (u64_to_le 4))" "sample_ops (cdc_key 4) = Some (Some [7])"
    using meta_keys_distinct cdc_key_not_meta [of 4] by (auto simp: sample_ops_def)
  have c: "counter_ok (Some (u64_to_le 9))" "counter_at (Some (u64_to_le 9)) = 9"
    by (simp_all add: counter_ok_def counter_at_def)
  from merged_counters_monotonic [of sample_ops 12 "\<lambda>k. Ok (Some (u64_to_le 9))" "Some (u64_to_le 9)" 1
      "Some (u64_to_le 9)" 4 "Some (u64_to_le 9)", OF o(1) refl c(1) o(2) refl c(1) o(3) refl c(1) o(4)] c(2)
  show ?thesis by (auto simp: max_def)
qed

end
