(* ===== verification/Tree.thy ===== *)
theory Tree
  imports Recovery Page_Codec
begin

text \<open>
  The copy-on-write B+ tree (\<^verbatim>\<open>src/crates/inlaysql-core/src/btree/tree.rs\<close>, \<open>CowBTree\<close>): the
  transaction's dirty pages over the committed pages of the device, page allocation, point
  lookup, ordered scans, counts, insertion with splits, deletion, and overflow chains.

  \<open>BTreeMap\<close> fields are maps. A committed page is read from the device and decoded; the decoded
  page cache and the retained read cursors answer with the same nodes and are not part of the
  state. Recursion over page ids takes a stack depth; a descent that exceeds it (a cyclic page
  graph overflows the stack) is a \<open>Panic\<close>, and the theorems show that well-formed trees never
  reach it.
\<close>

section \<open>State\<close>

datatype dirty_page = Encoded bytes | Decoded node

record cow_btree =
  t_read :: "nat \<Rightarrow> nat \<Rightarrow> bytes result"
  t_wal_region :: nat
  t_commit_point :: "nat \<Rightarrow> commit_point option"
  t_min_reader_seq :: "u64 option"
  t_page_size :: nat
  t_format_version :: u32
  t_root :: page_id
  t_next_page_id :: page_id
  t_dirty :: "page_id \<rightharpoonup> dirty_page"
  t_pending_root :: page_id
  t_pending_next :: page_id
  t_has_pending :: bool
  t_pending_ops :: pending_ops
  t_reuse_enabled :: bool
  t_free_candidates :: "(u64 \<times> page_id) list"
  t_free_scan_cursor :: "bytes option"
  t_free_list_exhausted :: bool
  t_freed_this_txn :: "page_id list"
  t_consumed_this_txn :: "(u64 \<times> page_id) list"
  t_consumed_ever_this_txn :: "(u64 \<times> page_id) list"
  t_pages_reused :: u64
  t_free_list_scans :: u64

datatype descent = Descent_Leaf | Descent_Internal nat page_id

datatype insert_outcome = Replaced page_id | Split page_id page_id bytes

definition kind_changed :: "page_id \<Rightarrow> db_error" where
  "kind_changed pid = Corrupt (''page '' @ show_nat (unat pid) @ '' changed kind between the descent and the write'')"

section \<open>Reading pages\<close>

definition encode_node :: "nat \<Rightarrow> node \<Rightarrow> bytes result" where
  "encode_node ps n = (case n of
     Leaf bs es \<Rightarrow> encode_leaf ps bs es
   | Internal bs l cs \<Rightarrow> encode_internal ps bs l cs)"

definition committed_node :: "cow_btree \<Rightarrow> page_id \<Rightarrow> node result" where
  "committed_node t pid =
     rbind (t_read t (data_offset_for (t_page_size t) (t_format_version t) pid) (t_page_size t))
       (decode (t_page_size t))"

definition node_at :: "cow_btree \<Rightarrow> page_id \<Rightarrow> bool \<Rightarrow> node result" where
  "node_at t pid pend =
     (case (if pend then t_dirty t pid else None) of
        Some (Decoded n) \<Rightarrow> Ok n
      | Some (Encoded bs) \<Rightarrow> decode (t_page_size t) bs
      | None \<Rightarrow> committed_node t pid)"

definition read_root :: "cow_btree \<Rightarrow> page_id" where
  "read_root t = (if t_has_pending t then t_pending_root t else t_root t)"

definition take_node_for_write :: "cow_btree \<Rightarrow> page_id \<Rightarrow> ((node \<times> bool) \<times> cow_btree) result" where
  "take_node_for_write t pid = (case t_dirty t pid of
     Some (Encoded bs) \<Rightarrow> rbind (decode (t_page_size t) bs) (\<lambda>n.
       Ok ((n, True), t\<lparr>t_dirty := (t_dirty t)(pid := None)\<rparr>))
   | Some (Decoded n) \<Rightarrow> Ok ((n, True), t\<lparr>t_dirty := (t_dirty t)(pid := None)\<rparr>)
   | None \<Rightarrow> rbind (committed_node t pid) (\<lambda>n. Ok ((n, False), t)))"

definition read_overflow_page :: "cow_btree \<Rightarrow> page_id \<Rightarrow> bool \<Rightarrow> (page_id \<times> bytes) result" where
  "read_overflow_page t pid pend =
     (case (if pend then t_dirty t pid else None) of
        Some (Encoded bs) \<Rightarrow> decode_overflow (t_page_size t) bs
      | Some (Decoded n) \<Rightarrow> rbind (encode_node (t_page_size t) n) (decode_overflow (t_page_size t))
      | None \<Rightarrow> rbind (t_read t (data_offset_for (t_page_size t) (t_format_version t) pid) (t_page_size t))
                  (decode_overflow (t_page_size t)))"

text \<open>
  The chain loop of \<open>resolve_scanned_at\<close>. Every page read adds its payload, so \<open>len\<close> rounds are
  enough whenever the payload is not empty.
\<close>

fun read_chain :: "nat \<Rightarrow> cow_btree \<Rightarrow> bool \<Rightarrow> nat \<Rightarrow> page_id \<Rightarrow> bytes \<Rightarrow> bytes result" where
  "read_chain 0 t pend len pid out = (if length out < len then Panic else Ok out)"
| "read_chain (Suc fuel) t pend len pid out =
     (if length out < len then
        if pid = 0 then Err (Corrupt ''overflow chain ended before the value was complete'')
        else rbind (read_overflow_page t pid pend) (\<lambda>(nxt, data).
          let tk = min (len - length out) (length data) in
          rbind (index_range data 0 tk) (\<lambda>d. read_chain fuel t pend len nxt (out @ d)))
      else Ok out)"

definition resolve_value_at :: "cow_btree \<Rightarrow> bytes \<Rightarrow> value_ref \<Rightarrow> bool \<Rightarrow> bytes result" where
  "resolve_value_at t node_bs v pend = (case v of
     Inline a b \<Rightarrow> index_range node_bs a b
   | Owned_Value x \<Rightarrow> Ok x
   | Overflow first len \<Rightarrow>
       let mx = max_record_len (t_page_size t) in
       if len > mx then Err (Corrupt (''overflow value length '' @ show_nat len @
              '' exceeds the write-ahead log capacity '' @ show_nat mx))
       else read_chain len t pend len first [])"

section \<open>Routing\<close>

definition child_index :: "bytes \<Rightarrow> separator list \<Rightarrow> bytes \<Rightarrow> nat result" where
  "child_index bs cells k = route_separators bs cells k"

definition child_at :: "page_id \<Rightarrow> separator list \<Rightarrow> nat \<Rightarrow> page_id result" where
  "child_at leftmost cells idx =
     (if idx = 0 then Ok leftmost else rbind (index_at cells (idx - 1)) (\<lambda>c. Ok (schild c)))"

definition child_pointer :: "bytes \<Rightarrow> separator list \<Rightarrow> page_id \<Rightarrow> bytes \<Rightarrow> page_id result" where
  "child_pointer bs cells leftmost k = rbind (child_index bs cells k) (child_at leftmost cells)"

definition replace_child ::
  "separator list \<Rightarrow> page_id \<Rightarrow> nat \<Rightarrow> page_id \<Rightarrow> (separator list \<times> page_id) result" where
  "replace_child cells leftmost idx new_child =
     (if idx = 0 then Ok (cells, new_child)
      else rbind (index_at cells (idx - 1)) (\<lambda>c. Ok (cells[idx - 1 := c\<lparr>schild := new_child\<rparr>], leftmost)))"

definition key_fits :: "nat \<Rightarrow> bytes \<Rightarrow> bool" where
  "key_fits ps k \<longleftrightarrow> 16 + 2 + 2 + length k + 1 + 16 \<le> ps div 2 \<and> 16 + 2 + 2 + length k + 8 \<le> ps div 2"

definition descend :: "cow_btree \<Rightarrow> page_id \<Rightarrow> bytes \<Rightarrow> descent result" where
  "descend t pid k = rbind (node_at t pid True) (\<lambda>n. case n of
     Leaf bs es \<Rightarrow> Ok Descent_Leaf
   | Internal bs l cs \<Rightarrow> rbind (child_index bs cs k) (\<lambda>idx.
       rbind (child_pointer bs cs l k) (\<lambda>child. Ok (Descent_Internal idx child))))"

section \<open>Point lookup\<close>

fun descend_get :: "nat \<Rightarrow> cow_btree \<Rightarrow> page_id \<Rightarrow> bytes \<Rightarrow> bool \<Rightarrow> bytes option result" where
  "descend_get 0 t pid k pend = (if pid = 0 then Ok None else Panic)"
| "descend_get (Suc d) t pid k pend =
     (if pid = 0 then Ok None
      else rbind (node_at t pid pend) (\<lambda>n. case n of
          Leaf bs es \<Rightarrow> rbind (search_entries bs es k) (\<lambda>r. case r of
            Found i \<Rightarrow> rbind (index_at es i) (\<lambda>e.
              rbind (resolve_value_at t bs (evalue e) pend) (\<lambda>v. Ok (Some v)))
          | Insert_At i \<Rightarrow> Ok None)
        | Internal bs l cs \<Rightarrow> rbind (child_index bs cs k) (\<lambda>idx.
            rbind (child_at l cs idx) (\<lambda>c. descend_get d t c k pend))))"

definition get :: "nat \<Rightarrow> cow_btree \<Rightarrow> bytes \<Rightarrow> bytes option result" where
  "get depth t k = descend_get depth t (read_root t) k (t_has_pending t)"

definition get_from_root :: "nat \<Rightarrow> cow_btree \<Rightarrow> page_id \<Rightarrow> bytes \<Rightarrow> bytes option result" where
  "get_from_root depth t root k = descend_get depth t root k False"

section \<open>Range walks\<close>

record walk_bounds =
  wb_start :: bytes
  wb_end :: "bytes option"
  wb_after :: "bytes option"
  wb_limit :: "nat option"

text \<open>A limit of \<open>usize::MAX\<close> is \<open>None\<close>: no list is that long.\<close>

definition wb_full :: "walk_bounds \<Rightarrow> nat \<Rightarrow> bool" where
  "wb_full b n = (case wb_limit b of None \<Rightarrow> False | Some m \<Rightarrow> n \<ge> m)"

definition admits :: "walk_bounds \<Rightarrow> bytes \<Rightarrow> bool result" where
  "admits b k = rbind (key_cmp k (wb_start b)) (\<lambda>c.
     if c = Less then Ok False
     else rbind (case wb_end b of None \<Rightarrow> Ok False | Some e \<Rightarrow> rbind (key_cmp k e) (\<lambda>c. Ok (c \<noteq> Less))) (\<lambda>past.
       if past then Ok False
       else case wb_after b of
         None \<Rightarrow> Ok True
       | Some a \<Rightarrow> rbind (key_cmp k a) (\<lambda>c. Ok (c = Greater))))"

definition starts_below :: "walk_bounds \<Rightarrow> bytes \<Rightarrow> bool result" where
  "starts_below b edge = rbind (key_cmp (wb_start b) edge) (\<lambda>c.
     if c \<noteq> Less then Ok False
     else case wb_after b of
       None \<Rightarrow> Ok True
     | Some a \<Rightarrow> rbind (key_cmp a edge) (\<lambda>c. Ok (c = Less)))"

definition admits_whole_leaf :: "walk_bounds \<Rightarrow> bytes \<Rightarrow> nat \<Rightarrow> bool result" where
  "admits_whole_leaf b bs ps = rbind (leaf_edge_keys bs ps) (\<lambda>r. case r of
     None \<Rightarrow> Ok False
   | Some (fst_key, last_key) \<Rightarrow> rbind (admits b fst_key) (\<lambda>x. if x then admits b last_key else Ok False))"

text \<open>Whether the slot of \<open>c\<close>, whose right neighbour is \<open>rest\<close>, can hold a wanted key.\<close>

definition slot_wanted :: "bytes \<Rightarrow> walk_bounds \<Rightarrow> separator \<Rightarrow> separator list \<Rightarrow> bool result" where
  "slot_wanted bs b c rest =
     rbind (case wb_end b of None \<Rightarrow> Ok True | Some e \<Rightarrow> rbind (key_bytes bs (skey c)) (\<lambda>k. Ok (k < e))) (\<lambda>below_upper.
     rbind (case rest of [] \<Rightarrow> Ok True | n # _ \<Rightarrow> rbind (key_bytes bs (skey n)) (starts_below b)) (\<lambda>above_lower.
     Ok (below_upper \<and> above_lower)))"

definition leftmost_wanted :: "bytes \<Rightarrow> walk_bounds \<Rightarrow> separator list \<Rightarrow> bool result" where
  "leftmost_wanted bs b cells =
     (case cells of [] \<Rightarrow> Ok True | c # _ \<Rightarrow> rbind (key_bytes bs (skey c)) (starts_below b))"

fun walk_cells :: "(page_id \<Rightarrow> 'o \<Rightarrow> 'o result) \<Rightarrow> ('o \<Rightarrow> bool) \<Rightarrow> bytes \<Rightarrow> walk_bounds \<Rightarrow> separator list \<Rightarrow> 'o \<Rightarrow> 'o result" where
  "walk_cells visit full bs b [] out = Ok out"
| "walk_cells visit full bs b (c # cs) out =
     (if full out then Ok out
      else rbind (slot_wanted bs b c cs) (\<lambda>w.
        rbind (if w then visit (schild c) out else Ok out) (\<lambda>out'. walk_cells visit full bs b cs out')))"

fun walk_entries :: "cow_btree \<Rightarrow> bool \<Rightarrow> bytes \<Rightarrow> walk_bounds \<Rightarrow> entry list \<Rightarrow> (bytes \<times> bytes) list \<Rightarrow> (bytes \<times> bytes) list result" where
  "walk_entries t pend bs b [] out = Ok out"
| "walk_entries t pend bs b (e # es) out =
     (if wb_full b (length out) then Ok out
      else rbind (key_bytes bs (ekey e)) (\<lambda>k.
        rbind (admits b k) (\<lambda>a.
        if \<not> a then walk_entries t pend bs b es out
        else rbind (resolve_value_at t bs (evalue e) pend) (\<lambda>v. walk_entries t pend bs b es (out @ [(k, v)])))))"

fun walk :: "nat \<Rightarrow> cow_btree \<Rightarrow> walk_bounds \<Rightarrow> bool \<Rightarrow> page_id \<Rightarrow> (bytes \<times> bytes) list \<Rightarrow> (bytes \<times> bytes) list result" where
  "walk 0 t b pend pid out = (if pid = 0 \<or> wb_full b (length out) then Ok out else Panic)"
| "walk (Suc d) t b pend pid out =
     (if pid = 0 \<or> wb_full b (length out) then Ok out
      else rbind (node_at t pid pend) (\<lambda>n. case n of
          Leaf bs es \<Rightarrow> walk_entries t pend bs b es out
        | Internal bs l cs \<Rightarrow> rbind (leftmost_wanted bs b cs) (\<lambda>w.
            rbind (if w then walk d t b pend l out else Ok out) (\<lambda>out'.
            walk_cells (walk d t b pend) (\<lambda>acc. wb_full b (length acc)) bs b cs out'))))"

definition scan_range_from ::
  "nat \<Rightarrow> cow_btree \<Rightarrow> bytes \<Rightarrow> bytes option \<Rightarrow> bytes option \<Rightarrow> nat option \<Rightarrow> (bytes \<times> bytes) list result" where
  "scan_range_from depth t start en after limit =
     (if limit = Some 0 \<or> (case en of None \<Rightarrow> False | Some e \<Rightarrow> e \<le> start) then Ok []
      else walk depth t \<lparr>wb_start = start, wb_end = en, wb_after = after, wb_limit = limit\<rparr>
             (t_has_pending t) (read_root t) [])"

definition scan_prefix_from ::
  "nat \<Rightarrow> cow_btree \<Rightarrow> bytes \<Rightarrow> bytes option \<Rightarrow> nat option \<Rightarrow> (bytes \<times> bytes) list result" where
  "scan_prefix_from depth t prefix after limit =
     scan_range_from depth t prefix (prefix_upper_bound prefix) after limit"

definition scan_range :: "nat \<Rightarrow> cow_btree \<Rightarrow> bytes \<Rightarrow> bytes option \<Rightarrow> (bytes \<times> bytes) list result" where
  "scan_range depth t start en = scan_range_from depth t start en None None"

definition scan_prefix :: "nat \<Rightarrow> cow_btree \<Rightarrow> bytes \<Rightarrow> (bytes \<times> bytes) list result" where
  "scan_prefix depth t prefix = scan_range depth t prefix (prefix_upper_bound prefix)"

definition scan_tree :: "nat \<Rightarrow> cow_btree \<Rightarrow> (bytes \<times> bytes) list result" where
  "scan_tree depth t = scan_prefix depth t []"

text \<open>The greatest admitted entry: cells and entries are visited from the right.\<close>

fun last_entry :: "cow_btree \<Rightarrow> bool \<Rightarrow> bytes \<Rightarrow> walk_bounds \<Rightarrow> entry list \<Rightarrow> (bytes \<times> bytes) option result" where
  "last_entry t pend bs b [] = Ok None"
| "last_entry t pend bs b (e # rev_es) =
     rbind (key_bytes bs (ekey e)) (\<lambda>k. rbind (admits b k) (\<lambda>a.
       if a then rbind (resolve_value_at t bs (evalue e) pend) (\<lambda>v. Ok (Some (k, v)))
       else last_entry t pend bs b rev_es))"

text \<open>\<open>right\<close> holds the cells to the right of the one visited, nearest first.\<close>

fun last_cells :: "(page_id \<Rightarrow> (bytes \<times> bytes) option result) \<Rightarrow> bytes \<Rightarrow> walk_bounds \<Rightarrow> separator list \<Rightarrow> separator list \<Rightarrow>
    (bytes \<times> bytes) option result" where
  "last_cells visit bs b [] right = Ok None"
| "last_cells visit bs b (c # rev_cs) right =
     rbind (slot_wanted bs b c right) (\<lambda>w.
     rbind (if w then visit (schild c) else Ok None) (\<lambda>r. case r of
       Some x \<Rightarrow> Ok (Some x)
     | None \<Rightarrow> last_cells visit bs b rev_cs (c # right)))"

fun walk_last :: "nat \<Rightarrow> cow_btree \<Rightarrow> walk_bounds \<Rightarrow> bool \<Rightarrow> page_id \<Rightarrow> (bytes \<times> bytes) option result" where
  "walk_last 0 t b pend pid = (if pid = 0 then Ok None else Panic)"
| "walk_last (Suc d) t b pend pid =
     (if pid = 0 then Ok None
      else rbind (node_at t pid pend) (\<lambda>n. case n of
          Leaf bs es \<Rightarrow> last_entry t pend bs b (rev es)
        | Internal bs l cs \<Rightarrow> rbind (last_cells (walk_last d t b pend) bs b (rev cs) []) (\<lambda>r. case r of
            Some x \<Rightarrow> Ok (Some x)
          | None \<Rightarrow> rbind (leftmost_wanted bs b cs) (\<lambda>w. if w then walk_last d t b pend l else Ok None))))"

definition last_in_range :: "nat \<Rightarrow> cow_btree \<Rightarrow> bytes \<Rightarrow> bytes option \<Rightarrow> (bytes \<times> bytes) option result" where
  "last_in_range depth t start en =
     (if (case en of None \<Rightarrow> False | Some e \<Rightarrow> e \<le> start) then Ok None
      else walk_last depth t \<lparr>wb_start = start, wb_end = en, wb_after = None, wb_limit = None\<rparr>
             (t_has_pending t) (read_root t))"

definition last_in_prefix :: "nat \<Rightarrow> cow_btree \<Rightarrow> bytes \<Rightarrow> (bytes \<times> bytes) option result" where
  "last_in_prefix depth t prefix = last_in_range depth t prefix (prefix_upper_bound prefix)"

text \<open>Counting: an admitted edge pair admits the whole leaf.\<close>

definition count_entries :: "bytes \<Rightarrow> walk_bounds \<Rightarrow> entry list \<Rightarrow> nat result" where
  "count_entries bs b es =
     rbind (if es = [] then Ok False
            else rbind (key_bytes bs (ekey (hd es))) (\<lambda>f. rbind (admits b f) (\<lambda>x.
              if \<not> x then Ok False
              else rbind (key_bytes bs (ekey (last es))) (admits b)))) (\<lambda>whole.
     if whole then Ok (length es)
     else rfold (\<lambda>n e. rbind (key_bytes bs (ekey e)) (\<lambda>k. rbind (admits b k) (\<lambda>a. Ok (if a then n + 1 else n)))) 0 es)"

definition count_leaf :: "bytes \<Rightarrow> nat \<Rightarrow> walk_bounds \<Rightarrow> nat result" where
  "count_leaf bs ps b = rbind (leaf_cell_count bs ps) (\<lambda>count.
     if count = 0 then Ok 0
     else rbind (admits_whole_leaf b bs ps) (\<lambda>whole.
       if whole then Ok count
       else scan_leaf_cells bs ps (\<lambda>n k v. rbind (admits b k) (\<lambda>a. Ok (if a then n + 1 else n))) 0))"

text \<open>
  \<open>walk_count\<close> counts a dirty page from its cells and a committed page from its bytes: a leaf with
  \<open>count_leaf\<close>, an internal page by decoding it.
\<close>

definition count_page :: "cow_btree \<Rightarrow> walk_bounds \<Rightarrow> bool \<Rightarrow> page_id \<Rightarrow> (nat + node) result" where
  "count_page t b pend pid =
     (case (if pend then t_dirty t pid else None) of
        Some (Decoded n) \<Rightarrow> Ok (Inr n)
      | Some (Encoded bs) \<Rightarrow> rbind (decode (t_page_size t) bs) (\<lambda>n. Ok (Inr n))
      | None \<Rightarrow>
          rbind (t_read t (data_offset_for (t_page_size t) (t_format_version t) pid) (t_page_size t)) (\<lambda>bs.
          rbind (index_at bs off_kind) (\<lambda>kind.
          if kind = kind_leaf then rbind (count_leaf bs (t_page_size t) b) (\<lambda>n. Ok (Inl n))
          else if kind = kind_internal then rbind (decode (t_page_size t) bs) (\<lambda>n. Ok (Inr n))
          else Err (Corrupt (''unknown node kind '' @ show_nat (unat kind))))))"

fun walk_count :: "nat \<Rightarrow> cow_btree \<Rightarrow> walk_bounds \<Rightarrow> bool \<Rightarrow> page_id \<Rightarrow> nat \<Rightarrow> nat result" where
  "walk_count 0 t b pend pid acc = (if pid = 0 then Ok acc else Panic)"
| "walk_count (Suc d) t b pend pid acc =
     (if pid = 0 then Ok acc
      else rbind (count_page t b pend pid) (\<lambda>r. case r of
          Inl n \<Rightarrow> Ok (acc + n)
        | Inr (Leaf bs es) \<Rightarrow> rbind (count_entries bs b es) (\<lambda>n. Ok (acc + n))
        | Inr (Internal bs l cs) \<Rightarrow> rbind (leftmost_wanted bs b cs) (\<lambda>w.
            rbind (if w then walk_count d t b pend l acc else Ok acc) (\<lambda>acc'.
            walk_cells (walk_count d t b pend) (\<lambda>_. False) bs b cs acc'))))"

definition count_in_range :: "nat \<Rightarrow> cow_btree \<Rightarrow> bytes \<Rightarrow> bytes option \<Rightarrow> nat result" where
  "count_in_range depth t start en =
     (if (case en of None \<Rightarrow> False | Some e \<Rightarrow> e \<le> start) then Ok 0
      else walk_count depth t \<lparr>wb_start = start, wb_end = en, wb_after = None, wb_limit = None\<rparr>
             (t_has_pending t) (read_root t) 0)"

definition count_in_prefix :: "nat \<Rightarrow> cow_btree \<Rightarrow> bytes \<Rightarrow> nat result" where
  "count_in_prefix depth t prefix = count_in_range depth t prefix (prefix_upper_bound prefix)"

section \<open>Allocating pages\<close>

definition begin_txn :: "cow_btree \<Rightarrow> cow_btree" where
  "begin_txn t = (if t_has_pending t then t
     else t\<lparr>t_pending_root := t_root t, t_pending_next := t_next_page_id t, t_has_pending := True\<rparr>)"

definition free_candidate_batch :: nat where "free_candidate_batch = 64"

text \<open>
  The loop of \<open>refill_free_candidates\<close> over the scanned rows: the cursor, whether the eligibility
  boundary was hit, and the candidates found.
\<close>

fun refill_rows ::
  "(u64 \<times> page_id) list \<Rightarrow> u64 \<Rightarrow> (bytes \<times> bytes) list \<Rightarrow> bytes option \<Rightarrow> (u64 \<times> page_id) list \<Rightarrow>
   bytes option \<times> bool \<times> (u64 \<times> page_id) list" where
  "refill_rows consumed eligible [] cursor cands = (cursor, False, cands)"
| "refill_rows consumed eligible ((k, v) # rows) cursor cands =
     (case decode_free_list_key k of
        None \<Rightarrow> refill_rows consumed eligible rows (Some k) cands
      | Some (freed_at, pid) \<Rightarrow>
          if freed_at \<ge> eligible then (cursor, True, cands)
          else if (freed_at, pid) \<in> set consumed then refill_rows consumed eligible rows (Some k) cands
          else refill_rows consumed eligible rows (Some k) (cands @ [(freed_at, pid)]))"

text \<open>The new state even when the scan failed, with the failure beside it.\<close>

definition refill_free_candidates :: "nat \<Rightarrow> cow_btree \<Rightarrow> cow_btree \<times> unit result" where
  "refill_free_candidates depth t =
     (if t_free_list_exhausted t then (t, Ok ())
      else case t_commit_point t (t_wal_region t mod region_count (t_format_version t)) of
        None \<Rightarrow> (t, Ok ())
      | Some point \<Rightarrow> (case t_min_reader_seq t of
          None \<Rightarrow> (t, Ok ())
        | Some min_reader \<Rightarrow>
            let eligible_before = min (cp_seq point) min_reader;
                cursor = t_free_scan_cursor t;
                t1 = t\<lparr>t_free_scan_cursor := None\<rparr> in
            (case scan_prefix_from depth t1 free_list_prefix cursor (Some free_candidate_batch) of
               Ok rows \<Rightarrow>
                 (case refill_rows (t_consumed_ever_this_txn t1) eligible_before rows cursor (t_free_candidates t1) of
                    (cursor', hit_boundary, cands) \<Rightarrow>
                      (t1\<lparr>t_free_list_scans := t_free_list_scans t1 + 1, t_free_candidates := cands,
                          t_free_scan_cursor := cursor',
                          t_free_list_exhausted := (t_free_list_exhausted t1 \<or> hit_boundary \<or>
                             length rows < free_candidate_batch)\<rparr>, Ok ()))
             | Err e \<Rightarrow> (t1, Err e)
             | Panic \<Rightarrow> (t1, Panic))))"

definition alloc_page :: "nat \<Rightarrow> cow_btree \<Rightarrow> (page_id \<times> cow_btree) result" where
  "alloc_page depth t =
     rbind (if t_reuse_enabled t \<and> t_free_candidates t = []
            then (case refill_free_candidates depth t of (t', r) \<Rightarrow> if r = Panic then Panic else Ok t')
            else Ok t) (\<lambda>t.
     if t_reuse_enabled t \<and> t_free_candidates t \<noteq> []
     then let c = last (t_free_candidates t) in
       Ok (snd c, t\<lparr>t_free_candidates := butlast (t_free_candidates t),
                   t_consumed_this_txn := t_consumed_this_txn t @ [c],
                   t_consumed_ever_this_txn := t_consumed_ever_this_txn t @ [c],
                   t_pages_reused := t_pages_reused t + 1\<rparr>)
     else Ok (t_pending_next t, t\<lparr>t_pending_next := t_pending_next t + 1\<rparr>))"

definition supersede :: "cow_btree \<Rightarrow> page_id \<Rightarrow> cow_btree" where
  "supersede t pid =
     (if t_dirty t pid \<noteq> None then t\<lparr>t_dirty := (t_dirty t)(pid := None)\<rparr>
      else if t_reuse_enabled t then t\<lparr>t_freed_this_txn := t_freed_this_txn t @ [pid]\<rparr> else t)"

definition slot_for :: "nat \<Rightarrow> cow_btree \<Rightarrow> page_id \<Rightarrow> bool \<Rightarrow> (page_id \<times> cow_btree) result" where
  "slot_for depth t source was_dirty =
     (if was_dirty then Ok (source, t) else alloc_page depth (supersede t source))"

definition supersede_taken :: "cow_btree \<Rightarrow> page_id \<Rightarrow> bool \<Rightarrow> cow_btree" where
  "supersede_taken t pid was_dirty = (if was_dirty then t else supersede t pid)"

fun free_chain_loop :: "nat \<Rightarrow> cow_btree \<Rightarrow> page_id \<Rightarrow> cow_btree result" where
  "free_chain_loop 0 t pid = (if pid = 0 then Ok t else Panic)"
| "free_chain_loop (Suc fuel) t pid =
     (if pid = 0 then Ok t
      else rbind (read_overflow_page t pid True) (\<lambda>(nxt, _). free_chain_loop fuel (supersede t pid) nxt))"

definition free_overflow_chain :: "nat \<Rightarrow> cow_btree \<Rightarrow> page_id \<Rightarrow> cow_btree result" where
  "free_overflow_chain fuel t first = (if \<not> t_reuse_enabled t then Ok t else free_chain_loop fuel t first)"

definition put_page :: "cow_btree \<Rightarrow> page_id \<Rightarrow> dirty_page \<Rightarrow> cow_btree" where
  "put_page t pid p = t\<lparr>t_dirty := (t_dirty t)(pid \<mapsto> p)\<rparr>"

section \<open>Storing values\<close>

text \<open>\<open>slice.chunks(n)\<close>\<close>

function chunks :: "nat \<Rightarrow> 'a list \<Rightarrow> 'a list list" where
  "chunks n xs = (if n = 0 \<or> xs = [] then [] else take n xs # chunks n (drop n xs))"
  by pat_completeness auto
termination
  by (relation "measure (\<lambda>(n, xs). length xs)") auto

declare chunks.simps [simp del]

fun alloc_pages :: "nat \<Rightarrow> nat \<Rightarrow> cow_btree \<Rightarrow> (page_id list \<times> cow_btree) result" where
  "alloc_pages depth 0 t = Ok ([], t)"
| "alloc_pages depth (Suc n) t =
     rbind (alloc_page depth t) (\<lambda>(pid, t). rbind (alloc_pages depth n t) (\<lambda>(pids, t). Ok (pid # pids, t)))"

text \<open>The loop over \<open>value.chunks(payload).enumerate()\<close>; \<open>pids\<close> are the ids from this chunk on.\<close>

fun write_chain :: "cow_btree \<Rightarrow> page_id list \<Rightarrow> bytes list \<Rightarrow> cow_btree result" where
  "write_chain t pids [] = Ok t"
| "write_chain t pids (c # cs) =
     rbind (encode_overflow (t_page_size t) (case tl pids of [] \<Rightarrow> 0 | n # _ \<Rightarrow> n) c) (\<lambda>bs.
     rbind (index_at pids 0) (\<lambda>pid. write_chain (put_page t pid (Encoded bs)) (tl pids) cs))"

definition store_value :: "nat \<Rightarrow> cow_btree \<Rightarrow> bytes \<Rightarrow> bytes \<Rightarrow> (value_ref \<times> cow_btree) result" where
  "store_value depth t k v =
     (if inline_entry_fits (t_page_size t) k v then Ok (Owned_Value v, t)
      else let payload = overflow_payload_size (t_page_size t) in
        if payload = 0 then Panic
        else let count = (length v + payload - 1) div payload in
          rbind (alloc_pages depth count t) (\<lambda>(pids, t).
          rbind (write_chain t pids (chunks payload v)) (\<lambda>t.
          rbind (index_at pids 0) (\<lambda>first. Ok (Overflow first (length v), t)))))"

section \<open>Insertion\<close>

definition reserve_split_page :: "nat \<Rightarrow> cow_btree \<Rightarrow> page_id \<Rightarrow> node \<Rightarrow> ((page_id \<times> node) \<times> cow_btree) result" where
  "reserve_split_page depth t left_id n =
     rbind (alloc_page depth (put_page t left_id (Decoded n))) (\<lambda>(right_id, t).
     rbind (take_node_for_write t left_id) (\<lambda>((n, _), t). Ok ((right_id, n), t)))"

text \<open>\<open>Vec::insert\<close>, which panics past the end.\<close>

definition vec_insert :: "'a list \<Rightarrow> nat \<Rightarrow> 'a \<Rightarrow> 'a list result" where
  "vec_insert xs i x = (if i \<le> length xs then Ok (take i xs @ x # drop i xs) else Panic)"

text \<open>\<open>Vec::split_off\<close>, which panics past the end.\<close>

definition split_off :: "'a list \<Rightarrow> nat \<Rightarrow> ('a list \<times> 'a list) result" where
  "split_off xs i = (if i \<le> length xs then Ok (take i xs, drop i xs) else Panic)"

text \<open>The internal page absorbs the split of its child \<open>idx\<close>.\<close>

definition absorb_split :: "separator list \<Rightarrow> page_id \<Rightarrow> nat \<Rightarrow> page_id \<Rightarrow> page_id \<Rightarrow> bytes \<Rightarrow> (separator list \<times> page_id) result" where
  "absorb_split cells leftmost idx left right sep =
     (if idx = 0 then rbind (vec_insert cells 0 \<lparr>skey = Owned_Key sep, schild = right\<rparr>) (\<lambda>cs. Ok (cs, left))
      else rbind (index_at cells (idx - 1)) (\<lambda>c.
        rbind (vec_insert (cells[idx - 1 := c\<lparr>schild := left\<rparr>]) idx \<lparr>skey = Owned_Key sep, schild = right\<rparr>) (\<lambda>cs.
        Ok (cs, leftmost))))"

definition split_internal :: "nat \<Rightarrow> cow_btree \<Rightarrow> page_id \<Rightarrow> bool \<Rightarrow> bytes \<Rightarrow> page_id \<Rightarrow> separator list \<Rightarrow>
    (insert_outcome \<times> cow_btree) result" where
  "split_internal depth t pid was_dirty bs leftmost cells =
     rbind (slot_for depth t pid was_dirty) (\<lambda>(left_id, t).
     rbind (reserve_split_page depth t left_id (Internal bs leftmost cells)) (\<lambda>((right_id, n), t).
     case n of
       Leaf _ _ \<Rightarrow> Err (kind_changed left_id)
     | Internal bs leftmost cells \<Rightarrow>
         rbind (internal_split_point bs cells (t_page_size t)) (\<lambda>mid.
         rbind (split_off cells mid) (\<lambda>(left_cells, right_cells).
         rbind (index_at right_cells 0) (\<lambda>c.
         rbind (key_bytes bs (skey c)) (\<lambda>promoted.
         let t = put_page t left_id (Decoded (Internal bs leftmost left_cells));
             t = put_page t right_id (Decoded (Internal bs (schild c) (tl right_cells))) in
         Ok (Split left_id right_id promoted, t)))))))"

definition insert_internal :: "nat \<Rightarrow> cow_btree \<Rightarrow> page_id \<Rightarrow> nat \<Rightarrow> insert_outcome \<Rightarrow> (insert_outcome \<times> cow_btree) result" where
  "insert_internal depth t pid idx outcome =
     rbind (take_node_for_write t pid) (\<lambda>((n, was_dirty), t). case n of
       Leaf _ _ \<Rightarrow> Err (kind_changed pid)
     | Internal bs leftmost cells \<Rightarrow> (case outcome of
         Replaced new_child \<Rightarrow>
           rbind (replace_child cells leftmost idx new_child) (\<lambda>(cells, leftmost).
           rbind (slot_for depth t pid was_dirty) (\<lambda>(new_id, t).
           Ok (Replaced new_id, put_page t new_id (Decoded (Internal bs leftmost cells)))))
       | Split left right sep \<Rightarrow>
           rbind (absorb_split cells leftmost idx left right sep) (\<lambda>(cells, leftmost).
           rbind (internal_size bs cells) (\<lambda>sz.
           if sz \<le> t_page_size t
           then rbind (slot_for depth t pid was_dirty) (\<lambda>(new_id, t).
             Ok (Replaced new_id, put_page t new_id (Decoded (Internal bs leftmost cells))))
           else split_internal depth t pid was_dirty bs leftmost cells))))"

text \<open>The leaf's entries after the write and the overflow chain the old value used.\<close>

definition update_entries :: "bytes \<Rightarrow> entry list \<Rightarrow> bytes \<Rightarrow> value_ref \<Rightarrow> (entry list \<times> page_id option) result" where
  "update_entries bs es k v = rbind (search_entries bs es k) (\<lambda>r. case r of
     Found i \<Rightarrow> rbind (index_at es i) (\<lambda>e.
       Ok (es[i := e\<lparr>evalue := v\<rparr>], case evalue e of Overflow first _ \<Rightarrow> Some first | _ \<Rightarrow> None))
   | Insert_At i \<Rightarrow> rbind (vec_insert es i \<lparr>ekey = Owned_Key k, evalue = v\<rparr>) (\<lambda>es. Ok (es, None)))"

definition split_leaf :: "nat \<Rightarrow> cow_btree \<Rightarrow> page_id \<Rightarrow> bool \<Rightarrow> bytes \<Rightarrow> entry list \<Rightarrow>
    (insert_outcome \<times> cow_btree) result" where
  "split_leaf depth t pid was_dirty bs es =
     rbind (slot_for depth t pid was_dirty) (\<lambda>(left_id, t).
     rbind (reserve_split_page depth t left_id (Leaf bs es)) (\<lambda>((right_id, n), t).
     case n of
       Internal _ _ _ \<Rightarrow> Err (kind_changed left_id)
     | Leaf bs es \<Rightarrow>
         rbind (leaf_split_point bs es (t_page_size t)) (\<lambda>mid.
         rbind (split_off es mid) (\<lambda>(left, right).
         rbind (index_at right 0) (\<lambda>e.
         rbind (key_bytes bs (ekey e)) (\<lambda>sep.
         let t = put_page t left_id (Decoded (Leaf bs left));
             t = put_page t right_id (Decoded (Leaf bs right)) in
         Ok (Split left_id right_id sep, t)))))))"

definition insert_leaf :: "nat \<Rightarrow> cow_btree \<Rightarrow> page_id \<Rightarrow> bytes \<Rightarrow> bytes \<Rightarrow> (insert_outcome \<times> cow_btree) result" where
  "insert_leaf depth t pid k v =
     rbind (store_value depth t k v) (\<lambda>(new_value, t).
     rbind (take_node_for_write t pid) (\<lambda>((n, was_dirty), t). case n of
       Internal _ _ _ \<Rightarrow> Err (kind_changed pid)
     | Leaf bs es \<Rightarrow>
         rbind (update_entries bs es k new_value) (\<lambda>(es, superseded_chain).
         rbind (leaf_size bs es) (\<lambda>sz.
         rbind (if sz \<le> t_page_size t
                then rbind (slot_for depth t pid was_dirty) (\<lambda>(new_id, t).
                  Ok (Replaced new_id, put_page t new_id (Decoded (Leaf bs es))))
                else split_leaf depth t pid was_dirty bs es) (\<lambda>(outcome, t).
         case superseded_chain of
           None \<Rightarrow> Ok (outcome, t)
         | Some first \<Rightarrow> rbind (free_overflow_chain depth t first) (\<lambda>t. Ok (outcome, t)))))))"

fun insert_into :: "nat \<Rightarrow> cow_btree \<Rightarrow> page_id \<Rightarrow> bytes \<Rightarrow> bytes \<Rightarrow> (insert_outcome \<times> cow_btree) result" where
  "insert_into 0 t pid k v = Panic"
| "insert_into (Suc d) t pid k v =
     (if pid = 0 then
        rbind (store_value (Suc d) t k v) (\<lambda>(new_value, t).
        rbind (alloc_page (Suc d) t) (\<lambda>(new_id, t).
        Ok (Replaced new_id, put_page t new_id (Decoded (Leaf [] [\<lparr>ekey = Owned_Key k, evalue = new_value\<rparr>])))))
      else rbind (descend t pid k) (\<lambda>dsc. case dsc of
        Descent_Internal idx child \<Rightarrow>
          rbind (insert_into d t child k v) (\<lambda>(outcome, t). insert_internal (Suc d) t pid idx outcome)
      | Descent_Leaf \<Rightarrow> insert_leaf (Suc d) t pid k v))"

definition put :: "nat \<Rightarrow> cow_btree \<Rightarrow> bytes \<Rightarrow> bytes \<Rightarrow> cow_btree result" where
  "put depth t k v =
     (if \<not> key_fits (t_page_size t) k then Err (Storage ''key is too large for a page'')
      else let t = begin_txn t in
        rbind (insert_into depth t (t_pending_root t) k v) (\<lambda>(outcome, t).
        rbind (case outcome of
            Replaced pid \<Rightarrow> Ok (t\<lparr>t_pending_root := pid\<rparr>)
          | Split left right sep \<Rightarrow>
              rbind (alloc_page depth t) (\<lambda>(pid, t).
              Ok ((put_page t pid (Decoded (Internal [] left [\<lparr>skey = Owned_Key sep, schild = right\<rparr>])))\<lparr>t_pending_root := pid\<rparr>)))
          (\<lambda>t. Ok (t\<lparr>t_pending_ops := (t_pending_ops t)(k \<mapsto> Some v)\<rparr>))))"

section \<open>Deletion\<close>

text \<open>\<open>entries.remove(i)\<close> when the search found the key.\<close>

definition remove_entry :: "bytes \<Rightarrow> entry list \<Rightarrow> bytes \<Rightarrow> (entry list \<times> page_id option) result" where
  "remove_entry bs es k = rbind (search_entries bs es k) (\<lambda>r. case r of
     Insert_At _ \<Rightarrow> Ok (es, None)
   | Found i \<Rightarrow> rbind (index_at es i) (\<lambda>e.
       Ok (take i es @ drop (Suc i) es, case evalue e of Overflow first _ \<Rightarrow> Some first | _ \<Rightarrow> None)))"

definition delete_leaf :: "nat \<Rightarrow> cow_btree \<Rightarrow> page_id \<Rightarrow> bytes \<Rightarrow> (page_id \<times> cow_btree) result" where
  "delete_leaf depth t pid k =
     rbind (take_node_for_write t pid) (\<lambda>((n, was_dirty), t). case n of
       Internal _ _ _ \<Rightarrow> Err (kind_changed pid)
     | Leaf bs es \<Rightarrow>
         rbind (remove_entry bs es k) (\<lambda>(es, superseded_chain).
         rbind (if es = [] then Ok (0, supersede_taken t pid was_dirty)
                else rbind (slot_for depth t pid was_dirty) (\<lambda>(new_id, t).
                  Ok (new_id, put_page t new_id (Decoded (Leaf bs es))))) (\<lambda>(new_id, t).
         case superseded_chain of
           None \<Rightarrow> Ok (new_id, t)
         | Some first \<Rightarrow> rbind (free_overflow_chain depth t first) (\<lambda>t. Ok (new_id, t)))))"

fun delete_from :: "nat \<Rightarrow> cow_btree \<Rightarrow> page_id \<Rightarrow> bytes \<Rightarrow> (page_id \<times> cow_btree) result" where
  "delete_from 0 t pid k = (if pid = 0 then Ok (0, t) else Panic)"
| "delete_from (Suc d) t pid k =
     (if pid = 0 then Ok (0, t)
      else rbind (descend t pid k) (\<lambda>dsc. case dsc of
        Descent_Internal idx child \<Rightarrow>
          rbind (delete_from d t child k) (\<lambda>(new_child, t).
          rbind (take_node_for_write t pid) (\<lambda>((n, was_dirty), t). case n of
            Leaf _ _ \<Rightarrow> Err (kind_changed pid)
          | Internal bs leftmost cells \<Rightarrow>
              rbind (replace_child cells leftmost idx new_child) (\<lambda>(cells, leftmost).
              rbind (slot_for (Suc d) t pid was_dirty) (\<lambda>(new_id, t).
              Ok (new_id, put_page t new_id (Decoded (Internal bs leftmost cells)))))))
      | Descent_Leaf \<Rightarrow> delete_leaf (Suc d) t pid k))"

definition delete :: "nat \<Rightarrow> cow_btree \<Rightarrow> bytes \<Rightarrow> cow_btree result" where
  "delete depth t k =
     (let t = begin_txn t in
      rbind (delete_from depth t (t_pending_root t) k) (\<lambda>(pid, t).
      Ok (t\<lparr>t_pending_root := pid, t_pending_ops := (t_pending_ops t)(k \<mapsto> None)\<rparr>)))"

definition rollback :: "cow_btree \<Rightarrow> cow_btree" where
  "rollback t = t\<lparr>t_dirty := Map.empty, t_pending_ops := Map.empty, t_has_pending := False, t_free_candidates := [],
     t_free_scan_cursor := None, t_free_list_exhausted := False, t_freed_this_txn := [],
     t_consumed_this_txn := [], t_consumed_ever_this_txn := []\<rparr>"

end
