(* ===== verification/Tree_Query.thy ===== *)
theory Tree_Query
  imports Tree_Read
begin

text \<open>
  The queries of the tree on well-formed trees: the last entry of a range, the number of entries
  of a range (with the shortcuts that skip the cells of a leaf whose edges are both admitted),
  and the entry points \<open>get\<close>, \<open>scan_range_from\<close>, \<open>scan_prefix_from\<close>, \<open>last_in_range\<close> and
  \<open>count_in_range\<close>.
\<close>

section \<open>The last entry of a range\<close>

definition last_opt :: "'a list \<Rightarrow> 'a option" where
  "last_opt xs = (if xs = [] then None else Some (last xs))"

lemma last_opt_append: "last_opt (xs @ ys) = (case last_opt ys of None \<Rightarrow> last_opt xs | Some y \<Rightarrow> Some y)"
  by (auto simp: last_opt_def)

lemma last_opt_simps [simp]: "last_opt [] = None" "last_opt [x] = Some x"
  by (simp_all add: last_opt_def)

definition admitted :: "walk_bounds \<Rightarrow> (bytes \<times> bytes) list \<Rightarrow> (bytes \<times> bytes) list" where
  "admitted b xs = filter (\<lambda>kv. adm b (fst kv)) xs"

lemma admitted_simps [simp]:
  "admitted b [] = []" "admitted b (xs @ ys) = admitted b xs @ admitted b ys"
  "admitted b (x # xs) = (if adm b (fst x) then x # admitted b xs else admitted b xs)"
  by (simp_all add: admitted_def)

lemma admitted_none: "(\<And>k v. (k, v) \<in> set xs \<Longrightarrow> \<not> adm b k) \<Longrightarrow> admitted b xs = []"
  by (auto simp: admitted_def filter_empty_conv)

lemma last_entry_spec:
  assumes "\<forall>e \<in> set es. key_ok bs (ekey e) \<and> (\<exists>x. resolve_value_at t bs (evalue e) p = Ok x)"
  shows "last_entry t p bs b es = Ok (last_opt (admitted b (map (\<lambda>e. (entry_key bs e, the_val t p bs e)) (rev es))))"
  using assms
proof (induction es)
  case (Cons e es)
  then obtain x where "resolve_value_at t bs (evalue e) p = Ok x" "key_ok bs (ekey e)" by auto
  then show ?case using Cons by (auto simp: key_bytes_ok the_val_def last_opt_append)
qed simp

lemma last_cells_spec:
  assumes "\<forall>c \<in> set cs. sep_ok bs c" "\<forall>c \<in> set right. sep_ok bs c"
    and "\<And>c. c \<in> set cs \<Longrightarrow> visit (schild c) = Ok (last_opt (admitted b (f (schild c))))"
    and "\<And>pre c rest k v. rev cs @ right = pre @ c # rest \<Longrightarrow> \<not> slot_pred bs b c rest \<Longrightarrow> (k, v) \<in> set (f (schild c)) \<Longrightarrow> \<not> adm b k"
  shows "last_cells visit bs b cs right = Ok (last_opt (admitted b (concat (map (\<lambda>c. f (schild c)) (rev cs)))))"
  using assms
proof (induction cs arbitrary: right)
  case (Cons c cs)
  have IH: "last_cells visit bs b cs (c # right) = Ok (last_opt (admitted b (concat (map (\<lambda>c. f (schild c)) (rev cs)))))"
    using Cons.prems by (intro Cons.IH) auto
  have sw: "slot_wanted bs b c right = Ok (slot_pred bs b c right)" using Cons.prems(1,2) by (intro slot_wanted_pred) auto
  have none: "admitted b (f (schild c)) = []" if "\<not> slot_pred bs b c right"
    by (rule admitted_none) (use Cons.prems(4) [of "rev cs" c right] that in auto)
  have vis: "visit (schild c) = Ok (last_opt (admitted b (f (schild c))))" using Cons.prems(3) by simp
  show ?case using sw none vis IH by (auto simp: last_opt_append split: option.splits)
qed simp

lemma last_internal_spec:
  assumes seps: "seps_wf bs cs lo hi"
    and wf: "\<And>i. i \<le> length cs \<Longrightarrow> tree_wf t p h (kid l cs i) (klo bs lo cs i) (khi bs hi cs i)"
    and vis: "\<And>i. i \<le> length cs \<Longrightarrow> visit (kid l cs i) = Ok (last_opt (admitted b (contents t p h (kid l cs i))))"
  shows "rbind (last_cells visit bs b (rev cs) []) (\<lambda>r. case r of Some x \<Rightarrow> Ok (Some x)
      | None \<Rightarrow> rbind (leftmost_wanted bs b cs) (\<lambda>w. if w then visit l else Ok None)) =
    Ok (last_opt (admitted b (concat (map (\<lambda>i. contents t p h (kid l cs i)) [0..<Suc (length cs)]))))"
proof -
  let ?f = "contents t p h"
  have ok: "\<forall>c \<in> set cs. sep_ok bs c" using seps by (auto simp: seps_wf_def)
  have cells: "last_cells visit bs b (rev cs) [] = Ok (last_opt (admitted b (concat (map (\<lambda>c. ?f (schild c)) (rev (rev cs))))))"
  proof (rule last_cells_spec)
    fix c assume "c \<in> set (rev cs)"
    then obtain j where "j < length cs" "c = cs ! j" by (auto simp: in_set_conv_nth)
    then show "visit (schild c) = Ok (last_opt (admitted b (?f (schild c))))" using vis [of "Suc j"] by (simp add: kid_def)
  next
    fix pre c rest k v
    assume "rev (rev cs) @ [] = pre @ c # rest" "\<not> slot_pred bs b c rest" "(k, v) \<in> set (?f (schild c))"
    then show "\<not> adm b k" using pruned_slot [OF seps wf, of pre c rest b k v] by simp
  qed (use ok in auto)
  have left: "admitted b (?f l) = []" if "\<not> (cs = [] \<or> below_edge b (sep_key bs (hd cs)))"
    by (rule admitted_none) (rule pruned_leftmost [OF seps wf that])
  have "visit l = Ok (last_opt (admitted b (?f l)))" using vis [of 0] by (simp add: kid_def)
  then show ?thesis
    using cells left by (auto simp: leftmost_wanted_pred [OF ok] contents_internal last_opt_append simp del: upt_Suc split: option.splits)
qed

lemma walk_last_correct:
  "tree_wf t p h pid lo hi \<Longrightarrow> walk_last h t b p pid = Ok (last_opt (admitted b (contents t p h pid)))"
proof (induction h arbitrary: pid lo hi)
  case (Suc h)
  show ?case
  proof (cases "pid = 0")
    case nz: False
    from Suc.prems nz show ?thesis
    proof (cases rule: tree_wf_cases)
      case (leaf bs es)
      then show ?thesis using nz last_entry_spec [of "rev es" bs t p b] by (auto simp: leaf_wf_def entry_ok_def)
    next
      case (internal bs l cs)
      show ?thesis
        using nz internal(1) last_internal_spec [OF internal(2,3), of "walk_last h t b p" b] Suc.IH [OF internal(3)]
        by (simp del: upt_Suc)
    qed
  qed simp
qed simp

section \<open>Counting a range\<close>

lemma adm_convex: "adm b x \<Longrightarrow> adm b z \<Longrightarrow> x \<le> y \<Longrightarrow> y \<le> z \<Longrightarrow> adm b y"
  by (cases "wb_end b"; cases "wb_after b") (auto simp: adm_def)

lemma sorted_edges:
  assumes "keys_sorted ks" "k \<in> set ks"
  shows "hd ks \<le> k \<and> k \<le> last ks"
  using assms by (induction ks) (auto simp: less_imp_le split: if_splits)

lemma edges_admit_all:
  assumes "keys_sorted ks" "ks \<noteq> []" "adm b (hd ks)" "adm b (last ks)"
  shows "length (filter (adm b) ks) = length ks"
  using assms adm_convex [OF assms(3,4)] sorted_edges [OF assms(1)] by (simp add: filter_id_conv)

lemma rfold_count:
  assumes "\<And>e. e \<in> set es \<Longrightarrow> g e = Ok (f e)"
  shows "rfold (\<lambda>n e. rbind (g e) (\<lambda>k. rbind (admits b k) (\<lambda>a. Ok (if a then n + 1 else n)))) n es =
    Ok (n + length (filter (adm b) (map f es)))"
  using assms by (induction es arbitrary: n) auto

lemma count_entries_spec:
  assumes "keys_sorted (map (entry_key bs) es)" "\<forall>e \<in> set es. key_ok bs (ekey e)"
  shows "count_entries bs b es = Ok (length (filter (adm b) (map (entry_key bs) es)))"
proof (cases "es = []")
  case False
  let ?ks = "map (entry_key bs) es"
  have edges: "key_bytes bs (ekey (hd es)) = Ok (hd ?ks)" "key_bytes bs (ekey (last es)) = Ok (last ?ks)"
    using assms(2) False by (auto simp: key_bytes_ok hd_map last_map)
  have "rfold (\<lambda>n e. rbind (key_bytes bs (ekey e)) (\<lambda>k. rbind (admits b k) (\<lambda>a. Ok (if a then n + 1 else n)))) 0 es =
      Ok (length (filter (adm b) ?ks))"
    using rfold_count [of es "\<lambda>e. key_bytes bs (ekey e)" "entry_key bs" b 0] assms(2) by (simp add: key_bytes_ok)
  then show ?thesis
    using False edges edges_admit_all [OF assms(1), of b] by (auto simp: count_entries_def)
qed (simp add: count_entries_def)

text \<open>The count of a raw leaf and its edge keys are those of the decoded leaf.\<close>

lemma leaf_key_of_cell:
  assumes "get_u16 bs at = Ok s" "decode_leaf_cell bs (unat s) = Ok e"
  shows "leaf_key_at bs at = Ok (entry_key bs e)"
  using assms unfolding leaf_key_at_def decode_leaf_cell_def parse_leaf_cell_def
  by (auto simp: Let_def the_key_def less_imp_le split: option.splits if_splits)

lemma leaf_edges:
  assumes dec: "decode ps bs = Ok (Leaf bs es)"
  shows "leaf_edge_keys bs ps = Ok (if es = [] then None else Some (entry_key bs (hd es), entry_key bs (last es)))"
proof -
  obtain count where c: "check_leaf_header bs ps = Ok count"
    "rmapM (\<lambda>i. rbind (get_u16 bs (16 + 2 * i)) (\<lambda>s. decode_leaf_cell bs (unat s))) [0..<count] = Ok es"
    using check_leaf_header_decode [OF dec [unfolded decode_def]] by blast
  have len: "length es = count" using rmapM_Ok_length [OF c(2)] by simp
  have key: "leaf_key_at bs (16 + 2 * i) = Ok (entry_key bs (es ! i))" if "i < count" for i
    using list_all2_nthD [OF c(2) [unfolded rmapM_Ok_iff], of i] that leaf_key_of_cell by auto
  have "0 < count" if "es \<noteq> []" using len that by auto
  then show ?thesis
    using c(1) key [of 0] key [of "count - 1"] len
    by (cases "es = []") (simp_all add: leaf_edge_keys_def page_consts hd_conv_nth last_conv_nth)
qed

lemma count_leaf_spec:
  assumes dec: "decode ps bs = Ok (Leaf bs es)" and wf: "keys_sorted (map (entry_key bs) es)"
  shows "count_leaf bs ps b = Ok (length (filter (adm b) (map (entry_key bs) es)))"
proof -
  obtain count where c: "check_leaf_header bs ps = Ok count"
    "rmapM (\<lambda>i. rbind (get_u16 bs (16 + 2 * i)) (\<lambda>s. decode_leaf_cell bs (unat s))) [0..<count] = Ok es"
    using check_leaf_header_decode [OF dec [unfolded decode_def]] by blast
  have len: "length es = count" using rmapM_Ok_length [OF c(2)] by simp
  have scan: "scan_leaf_cells bs ps (\<lambda>n k v. rbind (admits b k) (\<lambda>a. Ok (if a then n + 1 else n))) 0 =
      Ok (length (filter (adm b) (map (entry_key bs) es)))"
    using rfold_count [of es "\<lambda>e. Ok (entry_key bs e)" "entry_key bs" b 0]
    by (simp add: scan_agrees [OF dec [unfolded decode_def]])
  show ?thesis
  proof (cases "es = []")
    case False
    then show ?thesis
      using c(1) scan edges_admit_all [OF wf, of b] leaf_edges [OF dec] len
      by (auto simp: count_leaf_def leaf_cell_count_def admits_whole_leaf_def hd_map last_map)
  qed (use c(1) len in \<open>simp add: count_leaf_def leaf_cell_count_def\<close>)
qed

lemma decode_leaf_kind:
  assumes "decode ps bs = Ok n"
  shows "index_at bs off_kind = Ok (case n of Leaf _ _ \<Rightarrow> kind_leaf | Internal _ _ _ \<Rightarrow> kind_internal)"
  using assms by (auto simp: decode_def decode_with_def Let_def split: if_splits)

lemma count_page_spec:
  assumes "node_at t pid p = Ok n" "0 < t_page_size t"
    and "\<And>bs es. n = Leaf bs es \<Longrightarrow> keys_sorted (map (entry_key bs) es)"
  shows "count_page t b p pid = Ok (Inr n) \<or>
    (\<exists>bs es. n = Leaf bs es \<and> count_page t b p pid = Ok (Inl (length (filter (adm b) (map (entry_key bs) es)))))"
proof (cases "if p then t_dirty t pid else None")
  case None
  then obtain raw where raw: "t_read t (data_offset_for (t_page_size t) (t_format_version t) pid) (t_page_size t) = Ok raw"
    "decode (t_page_size t) raw = Ok n"
    using assms(1) by (auto simp: node_at_def committed_node_def)
  have bytes: "node_bytes n = raw" using decode_with_ok raw(2) unfolding decode_def by blast
  show ?thesis
  proof (cases n)
    case (Leaf bs es)
    then have "count_leaf raw (t_page_size t) b = Ok (length (filter (adm b) (map (entry_key raw) es)))"
      using count_leaf_spec raw(2) bytes assms(3) by auto
    then show ?thesis
      using None raw(1) Leaf bytes decode_leaf_kind [OF raw(2)] by (simp add: count_page_def)
  next
    case (Internal bs l cs)
    then show ?thesis
      using None raw decode_leaf_kind [OF raw(2)] by (simp add: count_page_def kind_leaf_def kind_internal_def)
  qed
next
  case (Some d)
  then show ?thesis using assms(1) by (cases d) (auto simp: count_page_def node_at_def)
qed

lemma walk_count_correct:
  "tree_wf t p h pid lo hi \<Longrightarrow> 0 < t_page_size t \<Longrightarrow>
     walk_count h t b p pid acc = Ok (acc + length (admitted b (contents t p h pid)))"
proof (induction h arbitrary: pid lo hi acc)
  case (Suc h)
  show ?case
  proof (cases "pid = 0")
    case nz: False
    from Suc.prems(1) nz show ?thesis
    proof (cases rule: tree_wf_cases)
      case (leaf bs es)
      then have wf: "keys_sorted (map (entry_key bs) es)" "\<forall>e \<in> set es. key_ok bs (ekey e)"
        by (auto simp: leaf_wf_def entry_ok_def)
      let ?n = "length (filter (adm b) (map (entry_key bs) es))"
      have "count_page t b p pid = Ok (Inr (Leaf bs es)) \<or> count_page t b p pid = Ok (Inl ?n)"
        using count_page_spec [OF leaf(1) Suc.prems(2), of b] wf(1) by auto
      then have "walk_count (Suc h) t b p pid acc = Ok (acc + ?n)"
        using nz count_entries_spec [OF wf, of b] by auto
      moreover have "length (admitted b (contents t p (Suc h) pid)) = ?n"
        using nz leaf(1) by (simp add: admitted_def filter_map comp_def)
      ultimately show ?thesis by simp
    next
      case (internal bs l cs)
      have "rbind (leftmost_wanted bs b cs) (\<lambda>w. rbind (if w then walk_count h t b p l acc else Ok acc)
          (walk_cells (walk_count h t b p) (\<lambda>_. False) bs b cs)) =
        Ok (acc + length (filter (\<lambda>kv. adm b (fst kv)) (concat (map (\<lambda>i. contents t p h (kid l cs i)) [0..<Suc (length cs)]))))"
        by (rule count_walk.walk_internal_spec [OF _ internal(2,3)])
          (use Suc.IH [OF internal(3) Suc.prems(2)] in \<open>auto simp: admitted_def\<close>)
      moreover have "count_page t b p pid = Ok (Inr (Internal bs l cs))"
        using count_page_spec [OF internal(1) Suc.prems(2), of b] by auto
      ultimately show ?thesis using nz internal(1) by (simp add: admitted_def del: upt_Suc)
    qed
  qed simp
qed simp

section \<open>The entry points\<close>

definition tree_ok :: "nat \<Rightarrow> cow_btree \<Rightarrow> bool" where
  "tree_ok h t \<longleftrightarrow> tree_wf t (t_has_pending t) h (read_root t) [] None"

definition entries_of :: "nat \<Rightarrow> cow_btree \<Rightarrow> (bytes \<times> bytes) list" where
  "entries_of h t = contents t (t_has_pending t) h (read_root t)"

lemma tree_ok_deeper: "tree_ok h t \<Longrightarrow> h \<le> d \<Longrightarrow> tree_ok d t \<and> entries_of d t = entries_of h t"
  unfolding tree_ok_def entries_of_def using tree_wf_mono contents_mono by blast

lemma in_range_all [simp]: "in_range [] None k"
  by (simp add: in_range_def)

lemma scan_range_from_spec:
  assumes "tree_ok h t" "h \<le> d"
  shows "scan_range_from d t start en after limit =
    Ok (lim \<lparr>wb_start = start, wb_end = en, wb_after = after, wb_limit = limit\<rparr>
      (admitted \<lparr>wb_start = start, wb_end = en, wb_after = after, wb_limit = limit\<rparr> (entries_of h t)))"
proof (cases "limit = Some 0 \<or> (case en of None \<Rightarrow> False | Some e \<Rightarrow> e \<le> start)")
  case True
  then have "limit = Some 0 \<or> admitted \<lparr>wb_start = start, wb_end = en, wb_after = after, wb_limit = limit\<rparr> (entries_of h t) = []"
    by (auto simp: admitted_def adm_def filter_empty_conv split: option.splits)
  then show ?thesis using True by (auto simp: scan_range_from_def lim_def split: option.splits)
next
  case False
  then show ?thesis
    using walk_correct [OF tree_ok_deeper [OF assms, THEN conjunct1, unfolded tree_ok_def],
        of "\<lparr>wb_start = start, wb_end = en, wb_after = after, wb_limit = limit\<rparr>" "[]"] tree_ok_deeper [OF assms]
    by (auto simp: scan_range_from_def collect_def admitted_def entries_of_def under_limit_def split: option.splits)
qed

text \<open>A two-level tree of dirty pages, on which the queries are run.\<close>

definition sample_tree :: cow_btree where
  "sample_tree = \<lparr>t_read = (\<lambda>_ _. Err (Storage [])), t_wal_region = 0, t_commit_point = (\<lambda>_. None),
     t_min_reader_seq = None, t_page_size = 4096, t_format_version = 1, t_root = 0, t_next_page_id = 1,
     t_dirty = [1 \<mapsto> Decoded (Leaf [] [\<lparr>ekey = Owned_Key [1], evalue = Owned_Value [10]\<rparr>, \<lparr>ekey = Owned_Key [2, 7], evalue = Owned_Value [20]\<rparr>]),
       2 \<mapsto> Decoded (Leaf [] [\<lparr>ekey = Owned_Key [5], evalue = Owned_Value [50]\<rparr>]),
       3 \<mapsto> Decoded (Internal [] 1 [\<lparr>skey = Owned_Key [5], schild = 2\<rparr>])],
     t_pending_root = 3, t_pending_next = 4, t_has_pending = True,
     t_pending_ops = Map.empty, t_reuse_enabled = False, t_free_candidates = [], t_free_scan_cursor = None,
     t_free_list_exhausted = False, t_freed_this_txn = [], t_consumed_this_txn = [], t_consumed_ever_this_txn = [],
     t_pages_reused = 0, t_free_list_scans = 0\<rparr>"

lemma sample_tree_ok: "tree_ok 2 sample_tree"
  "entries_of 2 sample_tree = [([1], [10]), ([2, 7], [20]), ([5], [50])]"
  unfolding numeral_2_eq_2
  by (simp_all add: tree_ok_def entries_of_def sample_tree_def read_root_def node_at_def leaf_wf_def
      entry_ok_def key_ok_def value_ok_def the_key_def in_range_def resolve_value_at_def the_val_def
      seps_wf_def sep_ok_def kid_def klo_def khi_def less_Suc_eq_le le_Suc_eq all_conj_distrib)

text \<open>
  on a well-formed tree the point lookup is lookup in the tree's entries: it never fails
  and never panics, and the stack depth it needs is the height of the tree.
\<close>

theorem get_is_lookup:
  assumes "tree_ok h t" "h \<le> d"
  shows "get d t k = Ok (map_of (entries_of h t) k)"
  using descend_get_correct [OF tree_ok_deeper [OF assms, THEN conjunct1, unfolded tree_ok_def], of k] tree_ok_deeper [OF assms]
  by (simp add: get_def entries_of_def)

theorem get_is_lookup_witness:
  "get 2 sample_tree [2, 7] = Ok (Some [20])"
  using get_is_lookup [OF sample_tree_ok(1), of 2 "[2, 7]"] by (simp add: sample_tree_ok(2))

text \<open>
  C29: a range scan returns, in key order, the first \<open>limit\<close> entries of the half-open range that
  lie strictly after the cursor: pruning subtrees and stopping at the limit lose nothing.
\<close>

theorem scan_range_exact:
  assumes "tree_ok h t" "h \<le> d"
  shows "scan_range_from d t start en after (Some m) = Ok (take m (filter (\<lambda>(k, v). start \<le> k \<and>
      (case en of None \<Rightarrow> True | Some e \<Rightarrow> k < e) \<and> (case after of None \<Rightarrow> True | Some a \<Rightarrow> a < k)) (entries_of h t))) \<and>
    keys_sorted (map fst (entries_of h t))"
  using scan_range_from_spec [OF assms, of start en after "Some m"] contents_sorted [OF assms(1) [unfolded tree_ok_def]]
  by (simp add: lim_def admitted_def adm_def entries_of_def case_prod_unfold)

theorem scan_range_exact_witness:
  "scan_range_from 2 sample_tree [1] (Some [9]) (Some [1]) (Some 1) = Ok [([2, 7], [20])]"
  using scan_range_exact [OF sample_tree_ok(1), of 2 "[1]" "Some [9]" "Some [1]" 1] by (simp add: sample_tree_ok(2))

text \<open>
  a prefix scan returns exactly the entries whose keys start with the prefix.
\<close>

theorem scan_prefix_exact:
  assumes "tree_ok h t" "h \<le> d"
  shows "scan_prefix d t prefix = Ok (filter (\<lambda>(k, v). starts_with k prefix) (entries_of h t))"
  using scan_range_from_spec [OF assms, of prefix "prefix_upper_bound prefix" None None]
  by (simp add: scan_prefix_def scan_range_def lim_def admitted_def adm_def prefix_range case_prod_unfold)

theorem scan_prefix_exact_witness:
  "scan_prefix 2 sample_tree [2] = Ok [([2, 7], [20])]"
  using scan_prefix_exact [OF sample_tree_ok(1), of 2 "[2]"] by (simp add: sample_tree_ok(2) starts_with_def)

lemma count_last_scan:
  assumes "tree_ok h t" "h \<le> d" "0 < t_page_size t"
  shows "\<exists>es. scan_range d t start en = Ok es \<and> count_in_range d t start en = Ok (length es) \<and>
    last_in_range d t start en = Ok (if es = [] then None else Some (last es))"
proof -
  let ?b = "\<lparr>wb_start = start, wb_end = en, wb_after = None, wb_limit = None\<rparr>"
  let ?es = "admitted ?b (entries_of h t)"
  note deep = tree_ok_deeper [OF assms(1,2), THEN conjunct1, unfolded tree_ok_def]
  have "scan_range d t start en = Ok ?es"
    using scan_range_from_spec [OF assms(1,2), of start en None None] by (simp add: scan_range_def lim_def)
  moreover have "?es = []" if "case en of None \<Rightarrow> False | Some e \<Rightarrow> e \<le> start"
    using that by (auto simp: admitted_def adm_def filter_empty_conv split: option.splits)
  moreover have "walk_count d t ?b (t_has_pending t) (read_root t) 0 = Ok (length ?es)"
    "walk_last d t ?b (t_has_pending t) (read_root t) = Ok (last_opt ?es)"
    using walk_count_correct [OF deep assms(3), of ?b 0] walk_last_correct [OF deep, of ?b] tree_ok_deeper [OF assms(1,2)]
    by (simp_all add: entries_of_def)
  ultimately show ?thesis
    by (intro exI [of _ ?es]) (auto simp: count_in_range_def last_in_range_def last_opt_def)
qed

text \<open>
  counting a range and finding its last entry agree with scanning it, whether a page is
  counted from its decoded cells or from the raw bytes with the edge-key shortcut.
\<close>

theorem count_and_last_agree_with_scan:
  assumes "tree_ok h t" "h \<le> d" "0 < t_page_size t"
  shows "\<exists>es. scan_range d t start en = Ok es \<and> count_in_range d t start en = Ok (length es) \<and>
    last_in_range d t start en = Ok (if es = [] then None else Some (last es))"
  by (rule count_last_scan [OF assms])

theorem count_and_last_agree_with_scan_witness:
  "\<exists>es. scan_range 2 sample_tree [] None = Ok es \<and> count_in_range 2 sample_tree [] None = Ok (length es) \<and>
     last_in_range 2 sample_tree [] None = Ok (if es = [] then None else Some (last es))"
  using count_and_last_agree_with_scan [OF sample_tree_ok(1), of 2 "[]" None] by (simp add: sample_tree_def)

end
