(* ===== verification/Tree_Frame.thy ===== *)
theory Tree_Frame
  imports Tree_Query
begin

text \<open>
  Which pages a tree is read from, and the frame of the reads: a write to any other page leaves
  the tree, its entries and its values as they were. \<open>placed\<close> is what insertion keeps beside the
  search-tree shape of \<open>Tree_Read\<close>: subtrees share no page, and every node fits its page with each
  cell in half of it.
\<close>

section \<open>Pages of a subtree\<close>

fun chain_pages :: "nat \<Rightarrow> cow_btree \<Rightarrow> nat \<Rightarrow> page_id \<Rightarrow> page_id set" where
  "chain_pages 0 t need pid = {}"
| "chain_pages (Suc fuel) t need pid = (if need = 0 \<or> pid = 0 then {}
     else insert pid (case read_overflow_page t pid True of
       Ok (nxt, data) \<Rightarrow> chain_pages fuel t (need - length data) nxt | _ \<Rightarrow> {}))"

definition value_pages :: "cow_btree \<Rightarrow> value_ref \<Rightarrow> page_id set" where
  "value_pages t v = (case v of Overflow first len \<Rightarrow> chain_pages len t len first | _ \<Rightarrow> {})"

definition entries_pages :: "cow_btree \<Rightarrow> entry list \<Rightarrow> page_id set" where
  "entries_pages t es = (\<Union>e \<in> set es. value_pages t (evalue e))"

text \<open>No two entries share an overflow page.\<close>

definition entries_apart :: "cow_btree \<Rightarrow> entry list \<Rightarrow> bool" where
  "entries_apart t es = sorted_wrt (\<lambda>a b. value_pages t (evalue a) \<inter> value_pages t (evalue b) = {}) es"

fun pages :: "cow_btree \<Rightarrow> nat \<Rightarrow> page_id \<Rightarrow> page_id set" where
  "pages t 0 pid = {}"
| "pages t (Suc h) pid = (if pid = 0 then {} else insert pid (case node_at t pid True of
     Ok (Leaf bs es) \<Rightarrow> entries_pages t es
   | Ok (Internal bs l cs) \<Rightarrow> (\<Union>i \<in> {..length cs}. pages t h (kid l cs i))
   | _ \<Rightarrow> {}))"

definition sep_len :: "bytes \<Rightarrow> separator \<Rightarrow> nat" where
  "sep_len source c = internal_cell_size (sep_key source c)"

definition leaf_fits :: "nat \<Rightarrow> bytes \<Rightarrow> entry list \<Rightarrow> bool" where
  "leaf_fits ps bs es \<longleftrightarrow> header_size + cells_total (entry_len bs) es \<le> ps \<and>
     (\<forall>e \<in> set es. key_fits ps (entry_key bs e) \<and> header_size + slot_size + entry_len bs e \<le> ps div 2)"

definition seps_fit :: "nat \<Rightarrow> bytes \<Rightarrow> separator list \<Rightarrow> bool" where
  "seps_fit ps bs cs \<longleftrightarrow> header_size + cells_total (sep_len bs) cs \<le> ps \<and> (\<forall>c \<in> set cs. key_fits ps (sep_key bs c))"

fun placed :: "cow_btree \<Rightarrow> nat \<Rightarrow> page_id \<Rightarrow> bool" where
  "placed t 0 pid = False"
| "placed t (Suc h) pid = (pid = 0 \<or> (case node_at t pid True of
     Ok (Leaf bs es) \<Rightarrow> leaf_fits (t_page_size t) bs es \<and> pid \<notin> entries_pages t es \<and> entries_apart t es
   | Ok (Internal bs l cs) \<Rightarrow> seps_fit (t_page_size t) bs cs \<and>
       (\<forall>i \<le> length cs. placed t h (kid l cs i) \<and> pid \<notin> pages t h (kid l cs i)) \<and>
       (\<forall>i j. i < j \<longrightarrow> j \<le> length cs \<longrightarrow> pages t h (kid l cs i) \<inter> pages t h (kid l cs j) = {})
   | _ \<Rightarrow> False))"

lemma pages_0 [simp]: "pages t h 0 = {}"
  by (cases h) auto

lemma zero_not_page: "0 \<notin> pages t h pid"
proof (induction h arbitrary: pid)
  case (Suc h)
  have chain: "0 \<notin> chain_pages f t n q" for f n q
    by (induction f arbitrary: n q) (auto split: result.splits)
  then have "0 \<notin> entries_pages t es" for es
    by (auto simp: entries_pages_def value_pages_def split: value_ref.splits)
  then show ?case using Suc by (auto split: result.splits node.splits)
qed simp

section \<open>The frame\<close>

definition agree :: "cow_btree \<Rightarrow> cow_btree \<Rightarrow> page_id set \<Rightarrow> bool" where
  "agree t t' S \<longleftrightarrow> t_read t' = t_read t \<and> t_page_size t' = t_page_size t \<and> t_format_version t' = t_format_version t \<and>
     (\<forall>q \<in> S. t_dirty t' q = t_dirty t q)"

lemma agree_subset: "agree t t' S \<Longrightarrow> S' \<subseteq> S \<Longrightarrow> agree t t' S'"
  by (auto simp: agree_def)

lemma agree_node: "agree t t' S \<Longrightarrow> q \<in> S \<Longrightarrow> node_at t' q True = node_at t q True"
  by (cases "t_dirty t q") (auto simp: agree_def node_at_def committed_node_def split: dirty_page.splits)

lemma agree_overflow: "agree t t' S \<Longrightarrow> q \<in> S \<Longrightarrow> read_overflow_page t' q True = read_overflow_page t q True"
  by (cases "t_dirty t q") (auto simp: agree_def read_overflow_page_def split: dirty_page.splits)

lemma read_chain_done: "len \<le> length out \<Longrightarrow> read_chain f t p len pid out = Ok out"
  by (cases f) auto

text \<open>Values only depend on the overflow pages they are read from.\<close>

definition chains_agree :: "cow_btree \<Rightarrow> cow_btree \<Rightarrow> page_id set \<Rightarrow> bool" where
  "chains_agree t t' S \<longleftrightarrow> t_page_size t' = t_page_size t \<and> (\<forall>q \<in> S. read_overflow_page t' q True = read_overflow_page t q True)"

lemma chains_subset: "chains_agree t t' S \<Longrightarrow> S' \<subseteq> S \<Longrightarrow> chains_agree t t' S'"
  by (auto simp: chains_agree_def)

lemma agree_chains: "agree t t' S \<Longrightarrow> chains_agree t t' S"
  using agree_overflow by (auto simp: chains_agree_def agree_def)

lemma chains_chain:
  "chains_agree t t' (chain_pages f t (len - length out) pid) \<Longrightarrow>
     read_chain f t' True len pid out = read_chain f t True len pid out \<and>
     chain_pages f t' (len - length out) pid = chain_pages f t (len - length out) pid"
proof (induction f arbitrary: pid out)
  case (Suc f)
  show ?case
  proof (cases "length out < len \<and> pid \<noteq> 0")
    case True
    then have o: "read_overflow_page t' pid True = read_overflow_page t pid True"
      using Suc.prems by (auto simp: chains_agree_def)
    show ?thesis
    proof (cases "read_overflow_page t pid True")
      case (Ok r)
      obtain nxt data where r: "r = (nxt, data)" by (cases r)
      let ?out = "out @ take (min (len - length out) (length data)) data"
      have need: "len - length ?out = len - length out - length data" by simp
      have "chains_agree t t' (chain_pages f t (len - length ?out) nxt)"
        using Suc.prems True Ok r unfolding need by (auto intro: chains_subset)
      from Suc.IH [OF this] show ?thesis using True o Ok r unfolding need by (simp add: index_range_in slice_def)
    qed (use True o in auto)
  qed auto
qed simp

lemma chains_value:
  assumes "chains_agree t t' (value_pages t v)"
  shows "resolve_value_at t' bs v True = resolve_value_at t bs v True \<and> value_pages t' v = value_pages t v"
proof (cases v)
  case (Overflow first len)
  then have "chains_agree t t' (chain_pages len t len first)" using assms by (simp add: value_pages_def)
  moreover from this have "t_page_size t' = t_page_size t" by (simp add: chains_agree_def)
  ultimately show ?thesis
    using Overflow chains_chain [of t t' len len "[]" first] by (simp add: resolve_value_at_def value_pages_def Let_def)
qed (auto simp: resolve_value_at_def value_pages_def)

lemma chains_entries:
  assumes "chains_agree t t' (entries_pages t es)"
  shows "leaf_wf t' True bs es lo hi = leaf_wf t True bs es lo hi" "entries_pages t' es = entries_pages t es"
    "map (\<lambda>e. (entry_key bs e, the_val t' True bs e)) es = map (\<lambda>e. (entry_key bs e, the_val t True bs e)) es"
    "entries_apart t' es = entries_apart t es"
proof -
  have "resolve_value_at t' bs (evalue e) True = resolve_value_at t bs (evalue e) True \<and> value_pages t' (evalue e) = value_pages t (evalue e)"
    if "e \<in> set es" for e
    using that by (intro chains_value chains_subset [OF assms]) (auto simp: entries_pages_def)
  then show "leaf_wf t' True bs es lo hi = leaf_wf t True bs es lo hi" "entries_pages t' es = entries_pages t es"
    "map (\<lambda>e. (entry_key bs e, the_val t' True bs e)) es = map (\<lambda>e. (entry_key bs e, the_val t True bs e)) es"
    "entries_apart t' es = entries_apart t es"
    by (auto simp: leaf_wf_def entries_pages_def the_val_def entries_apart_def sorted_wrt_iff_nth_less)
qed

lemmas agree_value = chains_value [OF agree_chains]
lemmas agree_entries = chains_entries [OF agree_chains]

lemma agree_kid:
  assumes "agree t t' (pages t (Suc h) pid)" "pid \<noteq> 0" "node_at t pid True = Ok (Internal bs l cs)" "i \<le> length cs"
  shows "agree t t' (pages t h (kid l cs i))"
  using assms by (intro agree_subset [OF assms(1)]) auto

lemma agree_tree:
  "agree t t' (pages t h pid) \<Longrightarrow>
     tree_wf t' True h pid lo hi = tree_wf t True h pid lo hi \<and> contents t' True h pid = contents t True h pid \<and>
     pages t' h pid = pages t h pid \<and> placed t' h pid = placed t h pid"
proof (induction h arbitrary: pid lo hi)
  case (Suc h)
  show ?case
  proof (cases "pid = 0")
    case False
    then have n: "node_at t' pid True = node_at t pid True" using Suc.prems by (intro agree_node) auto
    have ps: "t_page_size t' = t_page_size t" using Suc.prems by (simp add: agree_def)
    show ?thesis
    proof (cases "node_at t pid True")
      case ok: (Ok nd)
      show ?thesis
      proof (cases nd)
        case (Leaf bs es)
        then have "agree t t' (entries_pages t es)" using Suc.prems False ok by (auto intro: agree_subset)
        from agree_entries [OF this] show ?thesis using False n ok Leaf ps by simp
      next
        case (Internal bs l cs)
        note IH = Suc.IH [OF agree_kid [OF Suc.prems False ok [unfolded Internal]]]
        have "concat (map (\<lambda>i. contents t' True h (kid l cs i)) [0..<Suc (length cs)]) =
            concat (map (\<lambda>i. contents t True h (kid l cs i)) [0..<Suc (length cs)])"
          using IH by (intro arg_cong [where f = concat] map_cong) auto
        then show ?thesis using False n ok Internal ps IH by (simp del: upt_Suc)
      qed
    qed (use False n in auto)
  qed auto
qed simp

section \<open>Assembling subtrees\<close>

definition good :: "cow_btree \<Rightarrow> nat \<Rightarrow> page_id \<Rightarrow> bytes \<Rightarrow> bytes option \<Rightarrow> bool" where
  "good t h pid lo hi \<longleftrightarrow> tree_wf t True h pid lo hi \<and> placed t h pid"

lemma good_frame:
  assumes "agree t t' (pages t h pid)"
  shows "good t' h pid lo hi = good t h pid lo hi" "contents t' True h pid = contents t True h pid"
    "pages t' h pid = pages t h pid"
  using agree_tree [OF assms] by (auto simp: good_def)

lemma good_0: "0 < h \<Longrightarrow> good t h 0 lo hi"
  by (cases h) (auto simp: good_def)

lemma good_leafI:
  assumes "node_at t pid True = Ok (Leaf bs es)" "leaf_wf t True bs es lo hi" "leaf_fits (t_page_size t) bs es"
    "pid \<notin> entries_pages t es" "entries_apart t es"
  shows "good t (Suc h) pid lo hi"
  using assms by (simp add: good_def)

lemma good_internalI:
  assumes "node_at t pid True = Ok (Internal bs l cs)" "seps_wf bs cs lo hi" "seps_fit (t_page_size t) bs cs"
    "\<And>i. i \<le> length cs \<Longrightarrow> good t h (kid l cs i) (klo bs lo cs i) (khi bs hi cs i)"
    "\<And>i. i \<le> length cs \<Longrightarrow> pid \<notin> pages t h (kid l cs i)"
    "\<And>i j. i < j \<Longrightarrow> j \<le> length cs \<Longrightarrow> pages t h (kid l cs i) \<inter> pages t h (kid l cs j) = {}"
  shows "good t (Suc h) pid lo hi"
  using assms by (simp add: good_def)

lemma good_cases:
  assumes "good t h pid lo hi" "pid \<noteq> 0"
  obtains (leaf) g bs es where "h = Suc g" "node_at t pid True = Ok (Leaf bs es)" "leaf_wf t True bs es lo hi"
      "leaf_fits (t_page_size t) bs es" "pid \<notin> entries_pages t es" "entries_apart t es"
  | (internal) g bs l cs where "h = Suc g" "node_at t pid True = Ok (Internal bs l cs)" "seps_wf bs cs lo hi"
      "seps_fit (t_page_size t) bs cs"
      "\<And>i. i \<le> length cs \<Longrightarrow> good t g (kid l cs i) (klo bs lo cs i) (khi bs hi cs i)"
      "\<And>i. i \<le> length cs \<Longrightarrow> pid \<notin> pages t g (kid l cs i)"
      "\<And>i j. i < j \<Longrightarrow> j \<le> length cs \<Longrightarrow> pages t g (kid l cs i) \<inter> pages t g (kid l cs j) = {}"
proof (cases h)
  case 0
  then show ?thesis using assms by (simp add: good_def)
next
  case (Suc g)
  have wf: "tree_wf t True (Suc g) pid lo hi" and pl: "placed t (Suc g) pid" using assms(1) Suc by (auto simp: good_def)
  from wf assms(2) show ?thesis
  proof (cases rule: tree_wf_cases)
    case (leaf bs es)
    then show ?thesis using pl assms(2) by (intro that(1) [OF Suc]) auto
  next
    case (internal bs l cs)
    then have p: "seps_fit (t_page_size t) bs cs"
      "\<forall>i \<le> length cs. placed t g (kid l cs i) \<and> pid \<notin> pages t g (kid l cs i)"
      "\<forall>i j. i < j \<longrightarrow> j \<le> length cs \<longrightarrow> pages t g (kid l cs i) \<inter> pages t g (kid l cs j) = {}"
      using pl assms(2) by simp_all
    then show ?thesis by (intro that(2) [OF Suc internal(1,2) p(1)]) (simp_all add: good_def internal(3))
  qed
qed

end
