(* ===== verification/Tree_Value.thy ===== *)
theory Tree_Value
  imports Tree_Frame
begin

text \<open>
  Storing a value and reading it back: a value that does not fit in half a page is cut into
  chunks, one overflow page each, and the chain of those pages reads back as the value.
\<close>

section \<open>Page allocation without reuse\<close>

definition fresh_ids :: "page_id \<Rightarrow> nat \<Rightarrow> page_id list" where
  "fresh_ids n c = map (\<lambda>i. n + of_nat i) [0..<c]"

lemma alloc_page_fresh:
  "\<not> t_reuse_enabled t \<Longrightarrow> alloc_page d t = Ok (t_pending_next t, t\<lparr>t_pending_next := t_pending_next t + 1\<rparr>)"
  by (simp add: alloc_page_def)

lemma fresh_ids_Suc: "fresh_ids n (Suc c) = n # fresh_ids (n + 1) c"
  unfolding fresh_ids_def by (simp add: upt_conv_Cons add.assoc comp_def del: upt_Suc flip: map_Suc_upt)

lemma alloc_pages_fresh:
  "\<not> t_reuse_enabled t \<Longrightarrow>
     alloc_pages d c t = Ok (fresh_ids (t_pending_next t) c, t\<lparr>t_pending_next := t_pending_next t + of_nat c\<rparr>)"
proof (induction c arbitrary: t)
  case (Suc c)
  then show ?case by (simp add: alloc_page_fresh fresh_ids_Suc add.assoc add.commute)
qed (simp add: fresh_ids_def)

text \<open>The ids of a transaction do not wrap: there is room for \<open>c\<close> more.\<close>

definition room :: "page_id \<Rightarrow> nat \<Rightarrow> bool" where
  "room n c \<longleftrightarrow> 0 < n \<and> unat n + c < 2 ^ 64"

lemma room_less: "room n c \<Longrightarrow> c' \<le> c \<Longrightarrow> room n c'"
  by (auto simp: room_def)

lemma room_unat: "room n c \<Longrightarrow> unat (n + of_nat c) = unat n + c"
  by (simp add: room_def unat_word_ariths unat_of_nat)

lemma room_add: "room n (a + b) \<Longrightarrow> room (n + of_nat a) b"
  using room_unat [of n a] room_less [of n "a + b" a] by (auto simp: room_def word_less_nat_alt)

lemma fresh_ids_bounds:
  assumes "room n c"
  shows "set (fresh_ids n c) = {q. n \<le> q \<and> q < n + of_nat c}" "distinct (fresh_ids n c)" "0 \<notin> set (fresh_ids n c)"
proof -
  have u: "unat (n + of_nat i) = unat n + i" if "i \<le> c" for i using room_unat [OF room_less [OF assms that]] .
  show "set (fresh_ids n c) = {q. n \<le> q \<and> q < n + of_nat c}"
  proof (intro equalityI subsetI)
    fix q assume "q \<in> set (fresh_ids n c)"
    then obtain i where "i < c" "q = n + of_nat i" by (auto simp: fresh_ids_def)
    then show "q \<in> {q. n \<le> q \<and> q < n + of_nat c}"
      using u [of i] u [of c] by (simp add: word_le_nat_alt word_less_nat_alt)
  next
    fix q assume "q \<in> {q. n \<le> q \<and> q < n + of_nat c}"
    then have q: "unat n \<le> unat q" "unat q < unat n + c" using u [of c] by (auto simp: word_le_nat_alt word_less_nat_alt)
    then have "unat q - unat n < c" by linarith
    moreover from this have "q = n + of_nat (unat q - unat n)"
      using u [of "unat q - unat n"] q by (intro word_unat_eq_iff [THEN iffD2]) simp
    ultimately show "q \<in> set (fresh_ids n c)" by (auto simp: fresh_ids_def)
  qed
  then show "0 \<notin> set (fresh_ids n c)" using assms by (auto simp: room_def)
  show "distinct (fresh_ids n c)"
    unfolding fresh_ids_def distinct_map
  proof (intro conjI inj_onI)
    fix i j assume "i \<in> set [0..<c]" "j \<in> set [0..<c]" "n + of_nat i = n + of_nat j"
    then have "unat n + i = unat n + j" using u [of i] u [of j] by (metis atLeastLessThan_iff less_imp_le set_upt)
    then show "i = j" by simp
  qed simp
qed

section \<open>Chunks\<close>

lemma chunks_concat: "0 < n \<Longrightarrow> concat (chunks n xs) = xs"
proof (induction n xs rule: chunks.induct)
  case (1 n xs)
  then show ?case by (subst chunks.simps) auto
qed

lemma chunks_Nil_iff: "0 < n \<Longrightarrow> chunks n xs = [] \<longleftrightarrow> xs = []"
  by (subst chunks.simps) simp

lemma length_chunks: "0 < n \<Longrightarrow> length (chunks n xs) = (length xs + n - 1) div n"
proof (induction n xs rule: chunks.induct)
  case (1 n xs)
  show ?case
  proof (cases "xs = []")
    case False
    have "length (chunks n (drop n xs)) = (length xs - n + n - 1) div n" using 1 False by simp
    moreover have "Suc ((length xs - n + n - 1) div n) = (length xs + n - 1) div n"
    proof (cases "n \<le> length xs")
      case True
      then have "length xs + n - 1 = (length xs - n + n - 1) + n" using 1(2) by simp
      then show ?thesis using 1(2) by (simp only: div_add_self2)
    next
      case lt: False
      have "length xs + n - 1 = (length xs - 1) + n" "length xs - 1 < n" "n - 1 < n" using lt 1(2) False by (auto simp: Suc_leI)
      then show ?thesis using lt 1(2) by (simp only: div_add_self2) simp
    qed
    ultimately show ?thesis using 1(2) False by (subst chunks.simps) simp
  qed (use 1 in \<open>subst chunks.simps, simp\<close>)
qed

fun chunked :: "nat \<Rightarrow> 'a list list \<Rightarrow> bool" where
  "chunked n [] = True"
| "chunked n (c # cs) = (c \<noteq> [] \<and> length c \<le> n \<and> (cs \<noteq> [] \<longrightarrow> length c = n) \<and> chunked n cs)"

lemma chunked_chunks: "0 < n \<Longrightarrow> chunked n (chunks n xs)"
proof (induction n xs rule: chunks.induct)
  case (1 n xs)
  show ?case
  proof (cases "xs = []")
    case False
    then have "chunks n xs = take n xs # chunks n (drop n xs)" using 1(2) by (subst chunks.simps) simp
    then show ?thesis using 1 False chunks_Nil_iff [OF 1(2), of "drop n xs"] by auto
  qed (use 1 in \<open>subst chunks.simps, simp\<close>)
qed

section \<open>Overflow chains\<close>

definition chain_start :: "page_id list \<Rightarrow> page_id" where
  "chain_start pids = (case pids of [] \<Rightarrow> 0 | p # _ \<Rightarrow> p)"

fun chain_at :: "cow_btree \<Rightarrow> page_id list \<Rightarrow> bytes list \<Rightarrow> bool" where
  "chain_at t (p # ps) (c # cs) = (read_overflow_page t p True =
       Ok (chain_start ps, c @ replicate (overflow_payload_size (t_page_size t) - length c) 0) \<and> chain_at t ps cs)"
| "chain_at t ps cs = (ps = [] \<and> cs = [])"

lemma chain_at_frame:
  "agree t t' (set ps) \<Longrightarrow> chain_at t' ps cs = chain_at t ps cs"
proof (induction t ps cs rule: chain_at.induct)
  case (1 t p ps c cs)
  have "read_overflow_page t' p True = read_overflow_page t p True" "t_page_size t' = t_page_size t"
    using agree_overflow [OF 1(2)] 1(2) by (auto simp: agree_def)
  then show ?case using 1 by (auto simp: agree_def)
qed auto

text \<open>A page of a transaction that can be written: a page of bytes, or cells that fit one.\<close>

definition page_fits :: "nat \<Rightarrow> dirty_page \<Rightarrow> bool" where
  "page_fits ps p = (case p of
     Encoded bs \<Rightarrow> length bs = ps
   | Decoded (Leaf bs es) \<Rightarrow> (\<forall>e \<in> set es. entry_ok bs e) \<and> header_size + cells_total (entry_len bs) es \<le> ps
   | Decoded (Internal bs l cs) \<Rightarrow> (\<forall>c \<in> set cs. sep_ok bs c) \<and> header_size + cells_total (sep_len bs) cs \<le> ps)"

lemma write_chain_spec:
  assumes "length pids = length cs" "distinct pids" "chunked (overflow_payload_size (t_page_size t)) cs"
    "0 < overflow_payload_size (t_page_size t)"
  shows "\<exists>D. write_chain t pids cs = Ok (t\<lparr>t_dirty := D\<rparr>) \<and> (\<forall>q. q \<notin> set pids \<longrightarrow> D q = t_dirty t q) \<and>
    chain_at (t\<lparr>t_dirty := D\<rparr>) pids cs \<and> (\<forall>q p. D q = Some p \<longrightarrow> t_dirty t q = Some p \<or> page_fits (t_page_size t) p)"
  using assms
proof (induction cs arbitrary: t pids)
  case Nil
  then show ?case by (intro exI [of _ "t_dirty t"]) simp
next
  case (Cons c cs)
  then obtain p ps where pids: "pids = p # ps" by (cases pids) auto
  let ?ps = "t_page_size t"
  have "overflow_header_size + length c \<le> ?ps" using Cons.prems(3,4) by (auto simp: overflow_payload_size_def)
  from overflow_roundtrip [OF this] obtain page where page: "encode_overflow ?ps (chain_start ps) c = Ok page" "length page = ?ps"
    "decode_overflow ?ps page = Ok (chain_start ps, c @ replicate (overflow_payload_size ?ps - length c) 0)" by blast
  let ?t = "put_page t p (Encoded page)"
  obtain D where D: "write_chain ?t ps cs = Ok (?t\<lparr>t_dirty := D\<rparr>)" "\<forall>q. q \<notin> set ps \<longrightarrow> D q = t_dirty ?t q"
    "chain_at (?t\<lparr>t_dirty := D\<rparr>) ps cs" "\<forall>q x. D q = Some x \<longrightarrow> t_dirty ?t q = Some x \<or> page_fits ?ps x"
    using Cons.IH [of ps ?t] Cons.prems pids by (auto simp: put_page_def)
  have st: "?t\<lparr>t_dirty := D\<rparr> = t\<lparr>t_dirty := D\<rparr>" by (simp add: put_page_def)
  have "D p = Some (Encoded page)" using D(2) Cons.prems(2) pids by (simp add: put_page_def)
  then have "read_overflow_page (t\<lparr>t_dirty := D\<rparr>) p True = decode_overflow ?ps page" by (simp add: read_overflow_page_def)
  moreover have "\<forall>q x. D q = Some x \<longrightarrow> t_dirty t q = Some x \<or> page_fits ?ps x"
  proof (intro allI impI)
    fix q x assume x: "D q = Some x"
    have "page_fits ?ps (Encoded page)" using page(2) by (simp add: page_fits_def)
    then show "t_dirty t q = Some x \<or> page_fits ?ps x"
      using D(4) [rule_format, OF x] by (auto simp: put_page_def split: if_splits)
  qed
  ultimately show ?case
    using D(1-3) page(1,3) pids st by (intro exI [of _ D]) (auto simp: chain_start_def put_page_def split: list.splits)
qed

lemma read_chain_written:
  assumes "chain_at t pids cs" "chunked (overflow_payload_size (t_page_size t)) cs" "0 \<notin> set pids"
    "length (concat cs) \<le> fuel"
  shows "read_chain fuel t True (length out + length (concat cs)) (chain_start pids) out = Ok (out @ concat cs) \<and>
    chain_pages fuel t (length (concat cs)) (chain_start pids) \<subseteq> set pids"
  using assms
proof (induction cs arbitrary: pids out fuel)
  case Nil
  then show ?case by (cases fuel) auto
next
  case (Cons c cs)
  then obtain p ps where pids: "pids = p # ps" by (cases pids) auto
  have c: "c \<noteq> []" "0 < length c" using Cons.prems(2) by auto
  then obtain f where fuel: "fuel = Suc f" using Cons.prems(4) by (cases fuel) auto
  let ?pl = "overflow_payload_size (t_page_size t)"
  let ?data = "c @ replicate (?pl - length c) 0"
  have rd: "read_overflow_page t p True = Ok (chain_start ps, ?data)" "chain_at t ps cs" using Cons.prems(1) pids by auto
  have pad: "min (length (concat (c # cs))) (length ?data) = length c" "length (concat (c # cs)) - length ?data = length (concat cs)"
    using Cons.prems(2) by (cases "cs = []"; simp)+
  have IH: "read_chain f t True (length (out @ c) + length (concat cs)) (chain_start ps) (out @ c) = Ok ((out @ c) @ concat cs) \<and>
      chain_pages f t (length (concat cs)) (chain_start ps) \<subseteq> set ps"
  proof (rule Cons.IH)
    show "length (concat cs) \<le> f" using Cons.prems(4) c(2) unfolding fuel concat.simps length_append by linarith
  qed (use Cons.prems rd pids in auto)
  have "read_chain fuel t True (length out + length (concat (c # cs))) p out =
      read_chain f t True (length (out @ c) + length (concat cs)) (chain_start ps) (out @ c)"
    using rd(1) pad c Cons.prems(3) pids unfolding fuel
    by (simp add: index_range_in slice_def add.assoc)
  moreover have "chain_pages fuel t (length (concat (c # cs))) p \<subseteq> insert p (set ps)"
    using rd(1) pad IH unfolding fuel by (auto split: if_splits)
  ultimately show ?case using IH pids by (simp add: chain_start_def)
qed

section \<open>Storing a value\<close>

definition chain_count :: "nat \<Rightarrow> bytes \<Rightarrow> nat" where
  "chain_count ps v = (length v + overflow_payload_size ps - 1) div overflow_payload_size ps"

definition value_storable :: "nat \<Rightarrow> bytes \<Rightarrow> bool" where
  "value_storable ps v \<longleftrightarrow> length v \<le> max_record_len ps \<and> length v < 18446744073709551616"

lemma store_value_spec:
  assumes "\<not> t_reuse_enabled t" "key_fits (t_page_size t) k" "value_storable (t_page_size t) v"
    "room (t_pending_next t) (chain_count (t_page_size t) v)"
  shows "\<exists>r D n. store_value d t k v = Ok (r, t\<lparr>t_dirty := D, t_pending_next := n\<rparr>) \<and>
    n = t_pending_next t + of_nat (if inline_entry_fits (t_page_size t) k v then 0 else chain_count (t_page_size t) v) \<and>
    (\<forall>q. \<not> (t_pending_next t \<le> q \<and> q < n) \<longrightarrow> D q = t_dirty t q) \<and>
    (\<forall>bs. resolve_value_at (t\<lparr>t_dirty := D, t_pending_next := n\<rparr>) bs r True = Ok v \<and> value_ok bs r) \<and>
    value_pages (t\<lparr>t_dirty := D, t_pending_next := n\<rparr>) r \<subseteq> {q. t_pending_next t \<le> q \<and> q < n} \<and>
    header_size + slot_size + leaf_cell_size k r \<le> t_page_size t div 2 \<and>
    (\<forall>q p. D q = Some p \<longrightarrow> t_dirty t q = Some p \<or> page_fits (t_page_size t) p)"
proof (cases "inline_entry_fits (t_page_size t) k v")
  case True
  then show ?thesis
    by (intro exI [of _ "Owned_Value v"] exI [of _ "t_dirty t"] exI [of _ "t_pending_next t"])
      (simp add: store_value_def resolve_value_at_def value_ok_def value_pages_def inline_entry_fits_def)
next
  case False
  let ?ps = "t_page_size t" and ?next = "t_pending_next t"
  let ?pl = "overflow_payload_size ?ps" and ?c = "chain_count ?ps v"
  let ?pids = "fresh_ids ?next ?c" and ?n = "?next + of_nat ?c"
  have pl: "0 < ?pl" using assms(2) by (auto simp: key_fits_def overflow_payload_size_def page_consts)
  have v: "v \<noteq> []" using False assms(2) by (auto simp: inline_entry_fits_def key_fits_def leaf_cell_size_def inline_len_def page_consts)
  have len: "length ?pids = length (chunks ?pl v)" unfolding length_chunks [OF pl] by (simp add: fresh_ids_def chain_count_def)
  note ids = fresh_ids_bounds [OF assms(4)]
  let ?t1 = "t\<lparr>t_pending_next := ?n\<rparr>"
  obtain D where D: "write_chain ?t1 ?pids (chunks ?pl v) = Ok (?t1\<lparr>t_dirty := D\<rparr>)" "\<forall>q. q \<notin> set ?pids \<longrightarrow> D q = t_dirty t q"
    "chain_at (?t1\<lparr>t_dirty := D\<rparr>) ?pids (chunks ?pl v)" "\<forall>q p. D q = Some p \<longrightarrow> t_dirty t q = Some p \<or> page_fits ?ps p"
    using write_chain_spec [of ?pids "chunks ?pl v" ?t1] len ids(2) chunked_chunks [OF pl] pl by auto
  have st: "?t1\<lparr>t_dirty := D\<rparr> = t\<lparr>t_dirty := D, t_pending_next := ?n\<rparr>" by simp
  have ne: "?pids \<noteq> []" using len chunks_Nil_iff [OF pl, of v] v by (metis length_0_conv)
  then have first: "index_at ?pids 0 = Ok (chain_start ?pids)" by (simp add: chain_start_def split: list.splits)
  have rd: "read_chain (length v) (t\<lparr>t_dirty := D, t_pending_next := ?n\<rparr>) True (length v) (chain_start ?pids) [] = Ok v \<and>
      chain_pages (length v) (t\<lparr>t_dirty := D, t_pending_next := ?n\<rparr>) (length v) (chain_start ?pids) \<subseteq> set ?pids"
    using read_chain_written [OF D(3), of "length v" "[]"] chunked_chunks [OF pl, of v] ids(3) chunks_concat [OF pl, of v] by (simp add: st)
  have "store_value d t k v = rbind (alloc_pages d ?c t) (\<lambda>(pids, t).
      rbind (write_chain t pids (chunks ?pl v)) (\<lambda>t.
      rbind (index_at pids 0) (\<lambda>first. Ok (Overflow first (length v), t))))"
    using False pl by (simp add: store_value_def chain_count_def Let_def)
  then have "store_value d t k v = Ok (Overflow (chain_start ?pids) (length v), t\<lparr>t_dirty := D, t_pending_next := ?n\<rparr>)"
    using D(1) first assms(1) by (simp add: alloc_pages_fresh st)
  moreover have "header_size + slot_size + leaf_cell_size k (Overflow (chain_start ?pids) (length v)) \<le> ?ps div 2"
    using assms(2) by (simp add: key_fits_def leaf_cell_size_def page_consts)
  ultimately show ?thesis
    using rd D(2,4) ids(1) False assms(3)
    by (intro exI [of _ "Overflow (chain_start ?pids) (length v)"] exI [of _ D] exI [of _ ?n])
      (simp add: resolve_value_at_def value_pages_def value_ok_def value_storable_def Let_def)
qed

end
