(* ===== verification/Tree_Nodes.thy ===== *)
theory Tree_Nodes
  imports Tree_Value
begin

text \<open>
  Rewriting one page: what taking a node, choosing its slot and putting the new node back does to
  the pages, and what replacing an entry, a child or a separator does to the entries below the
  node. Insertion and deletion are compositions of these steps.
\<close>

section \<open>States that grew\<close>

definition fresh :: "cow_btree \<Rightarrow> cow_btree \<Rightarrow> page_id set" where
  "fresh t t' = {q. t_pending_next t \<le> q \<and> q < t_pending_next t'}"

text \<open>
  Only the pages of \<open>S\<close> and at most \<open>c\<close> new pages were written, what was written fits, and no page
  became dirty that was not dirty or new.
\<close>

definition grown :: "nat \<Rightarrow> cow_btree \<Rightarrow> cow_btree \<Rightarrow> page_id set \<Rightarrow> bool" where
  "grown c t t' S \<longleftrightarrow> t' = t\<lparr>t_dirty := t_dirty t', t_pending_next := t_pending_next t'\<rparr> \<and>
     t_pending_next t \<le> t_pending_next t' \<and> unat (t_pending_next t') \<le> unat (t_pending_next t) + c \<and>
     (\<forall>q. q \<notin> S \<longrightarrow> q \<notin> fresh t t' \<longrightarrow> t_dirty t' q = t_dirty t q) \<and>
     (\<forall>q p. t_dirty t' q = Some p \<longrightarrow> t_dirty t q = Some p \<or> page_fits (t_page_size t) p) \<and>
     (\<forall>q. t_dirty t' q \<noteq> None \<longrightarrow> t_dirty t q \<noteq> None \<or> q \<in> fresh t t')"

lemma grown_base:
  assumes "grown c t t' S"
  shows "t_page_size t' = t_page_size t" "t_reuse_enabled t' = t_reuse_enabled t"
    "t_pending_next t \<le> t_pending_next t'" "t' = t\<lparr>t_dirty := t_dirty t', t_pending_next := t_pending_next t'\<rparr>"
proof -
  show eq: "t' = t\<lparr>t_dirty := t_dirty t', t_pending_next := t_pending_next t'\<rparr>" using assms by (simp add: grown_def)
  show "t_page_size t' = t_page_size t" "t_reuse_enabled t' = t_reuse_enabled t" by (subst eq, simp)+
  show "t_pending_next t \<le> t_pending_next t'" using assms by (simp add: grown_def)
qed

lemma fresh_mono: "t_pending_next t1 \<le> t_pending_next t2 \<Longrightarrow> fresh t t1 \<subseteq> fresh t t2"
  by (auto simp: fresh_def)

lemma fresh_sub: "t_pending_next t \<le> t_pending_next t1 \<Longrightarrow> fresh t1 t2 \<subseteq> fresh t t2"
  by (auto simp: fresh_def)

lemma grown_fresh_mono: "grown c t1 t2 S \<Longrightarrow> fresh t t1 \<subseteq> fresh t t2"
  by (rule fresh_mono) (rule grown_base)

lemma grown_fresh_sub: "grown c t t1 S \<Longrightarrow> fresh t1 t2 \<subseteq> fresh t t2"
  by (rule fresh_sub) (rule grown_base)

lemma grown_trans:
  assumes "grown a t t1 S" "grown b t1 t2 S'" "S' \<subseteq> S \<union> fresh t t1"
  shows "grown (a + b) t t2 S"
proof -
  note f = fresh_sub [OF grown_base(3) [OF assms(1)], of t2] fresh_mono [OF grown_base(3) [OF assms(2)], of t]
  show ?thesis unfolding grown_def
  proof (intro conjI allI impI)
    have "t2 = t\<lparr>t_dirty := t_dirty t1, t_pending_next := t_pending_next t1\<rparr>\<lparr>t_dirty := t_dirty t2, t_pending_next := t_pending_next t2\<rparr>"
      using grown_base(4) [OF assms(1)] grown_base(4) [OF assms(2)] by metis
    then show "t2 = t\<lparr>t_dirty := t_dirty t2, t_pending_next := t_pending_next t2\<rparr>" by simp
    show "t_pending_next t \<le> t_pending_next t2" using grown_base(3) [OF assms(1)] grown_base(3) [OF assms(2)] by simp
    show "unat (t_pending_next t2) \<le> unat (t_pending_next t) + (a + b)" using assms(1,2) by (auto simp: grown_def)
    fix q assume q: "q \<notin> S" "q \<notin> fresh t t2"
    then have "q \<notin> fresh t t1" "q \<notin> fresh t1 t2" "q \<notin> S'" using f assms(3) by auto
    then show "t_dirty t2 q = t_dirty t q" using assms(1,2) q(1) unfolding grown_def by metis
  next
    fix q p assume p: "t_dirty t2 q = Some p"
    have "t_dirty t1 q = Some p \<or> page_fits (t_page_size t1) p" using assms(2) p unfolding grown_def by blast
    moreover have "t_dirty t1 q = Some p \<Longrightarrow> t_dirty t q = Some p \<or> page_fits (t_page_size t) p"
      using assms(1) unfolding grown_def by blast
    ultimately show "t_dirty t q = Some p \<or> page_fits (t_page_size t) p" using grown_base(1) [OF assms(1)] by auto
  next
    fix q assume "t_dirty t2 q \<noteq> None"
    then have "t_dirty t1 q \<noteq> None \<or> q \<in> fresh t1 t2" using assms(2) unfolding grown_def by blast
    then show "t_dirty t q \<noteq> None \<or> q \<in> fresh t t2" using assms(1) f unfolding grown_def by blast
  qed
qed

lemma grown_mono: "grown c t t' S \<Longrightarrow> c \<le> c' \<Longrightarrow> S \<subseteq> S' \<Longrightarrow> grown c' t t' S'"
  by (auto simp: grown_def)

lemma grown_refl: "grown c t t S"
  by (simp add: grown_def)

text \<open>Allocated pages are below the next page id, so that what is fresh is nobody's.\<close>

definition below :: "cow_btree \<Rightarrow> page_id set \<Rightarrow> bool" where
  "below t S \<longleftrightarrow> (\<forall>q \<in> S. q < t_pending_next t)"

lemma below_fresh: "below t S \<Longrightarrow> S \<inter> fresh t t' = {}"
  by (auto simp: below_def fresh_def)

lemma below_mono: "below t S \<Longrightarrow> S' \<subseteq> S \<Longrightarrow> below t S'"
  by (auto simp: below_def)

lemma below_grown: "below t S \<Longrightarrow> grown c t t' S' \<Longrightarrow> below t' (S \<union> fresh t t')"
  using grown_base(3) by (fastforce simp: below_def fresh_def)

lemma grown_agree:
  assumes "grown c t t' S" "A \<inter> S = {}" "below t A"
  shows "agree t t' A"
proof -
  note eq = grown_base(4) [OF assms(1)]
  have "t_read t' = t_read t" "t_page_size t' = t_page_size t" "t_format_version t' = t_format_version t" by (subst eq, simp)+
  moreover have "t_dirty t' q = t_dirty t q" if "q \<in> A" for q
    using assms that below_fresh [OF assms(3), of t'] unfolding grown_def by blast
  ultimately show ?thesis by (simp add: agree_def)
qed

lemma grown_room: "grown a t t' S \<Longrightarrow> room (t_pending_next t) (a + b) \<Longrightarrow> room (t_pending_next t') b"
  using grown_base(3) [of a t t' S] by (auto simp: grown_def room_def)

section \<open>Rewriting one page\<close>

lemma node_at_dirty [simp]: "t_dirty t q = Some (Decoded n) \<Longrightarrow> node_at t q True = Ok n"
  by (simp add: node_at_def)

lemma take_node_spec:
  assumes "node_at t pid True = Ok n"
  shows "take_node_for_write t pid = Ok ((n, t_dirty t pid \<noteq> None), t\<lparr>t_dirty := (t_dirty t)(pid := None)\<rparr>)"
proof -
  have "(t_dirty t)(pid := None) = t_dirty t" if "t_dirty t pid = None" using that by (simp add: fun_upd_idem)
  then show ?thesis
    using assms by (auto simp: take_node_for_write_def node_at_def split: option.splits dirty_page.splits)
qed

text \<open>The slot of a rewritten page: the page itself when it is dirty, a new one otherwise.\<close>

definition slot_id :: "cow_btree \<Rightarrow> page_id \<Rightarrow> page_id" where
  "slot_id t pid = (if t_dirty t pid \<noteq> None then pid else t_pending_next t)"

definition slot_next :: "cow_btree \<Rightarrow> page_id \<Rightarrow> page_id" where
  "slot_next t pid = (if t_dirty t pid \<noteq> None then t_pending_next t else t_pending_next t + 1)"

lemma slot_for_spec:
  assumes "\<not> t_reuse_enabled t"
  shows "slot_for d (t\<lparr>t_dirty := (t_dirty t)(pid := None)\<rparr>) pid (t_dirty t pid \<noteq> None) =
    Ok (slot_id t pid, t\<lparr>t_dirty := (t_dirty t)(pid := None), t_pending_next := slot_next t pid\<rparr>)"
  using assms by (simp add: slot_for_def supersede_def alloc_page_fresh slot_id_def slot_next_def)

lemma next_succ: "room n 1 \<Longrightarrow> unat (n + 1) = Suc (unat n) \<and> n < n + 1"
  using room_unat [of n 1] by (simp add: word_less_nat_alt)

definition rewritten :: "cow_btree \<Rightarrow> page_id \<Rightarrow> node \<Rightarrow> cow_btree" where
  "rewritten t pid nd = put_page (t\<lparr>t_dirty := (t_dirty t)(pid := None), t_pending_next := slot_next t pid\<rparr>) (slot_id t pid) (Decoded nd)"

lemma rewrite_grown:
  assumes "room (t_pending_next t) 1" "below t {pid}" and t': "t' = rewritten t pid nd"
    and fits: "page_fits (t_page_size t) (Decoded nd)"
  shows "grown 1 t t' {pid}" "t_dirty t' (slot_id t pid) = Some (Decoded nd)" "slot_id t pid \<in> {pid} \<union> fresh t t'"
    "slot_id t pid \<noteq> 0 \<or> pid = 0"
proof -
  note n = next_succ [OF assms(1)]
  show "grown 1 t t' {pid}"
    unfolding grown_def t' rewritten_def put_page_def fresh_def slot_id_def slot_next_def
    using n fits by (auto intro: less_imp_le)
  show "t_dirty t' (slot_id t pid) = Some (Decoded nd)" by (simp add: t' rewritten_def put_page_def)
  show "slot_id t pid \<in> {pid} \<union> fresh t t'"
    unfolding t' rewritten_def put_page_def fresh_def slot_id_def slot_next_def using n by auto
  show "slot_id t pid \<noteq> 0 \<or> pid = 0" using assms(1) by (auto simp: slot_id_def room_def)
qed

lemma reserve_split_spec:
  assumes "\<not> t_reuse_enabled t" "q \<noteq> t_pending_next t"
  shows "reserve_split_page d t q n = Ok ((t_pending_next t, n),
    t\<lparr>t_dirty := (t_dirty t)(q := None), t_pending_next := t_pending_next t + 1\<rparr>)"
  using assms by (simp add: reserve_split_page_def put_page_def alloc_page_fresh take_node_for_write_def)

text \<open>A page rewritten as two: the left half in the page's slot, the right half in a new page.\<close>

definition rewritten_split :: "cow_btree \<Rightarrow> page_id \<Rightarrow> node \<Rightarrow> node \<Rightarrow> cow_btree" where
  "rewritten_split t pid nl nr = put_page (put_page (t\<lparr>t_dirty := ((t_dirty t)(pid := None))(slot_id t pid := None),
      t_pending_next := slot_next t pid + 1\<rparr>) (slot_id t pid) (Decoded nl)) (slot_next t pid) (Decoded nr)"

lemma slots_differ:
  assumes "room (t_pending_next t) 2" "below t {pid}"
  shows "slot_id t pid \<noteq> slot_next t pid"
  using next_succ [OF room_less [OF assms(1)]] assms(2) by (auto simp: slot_id_def slot_next_def below_def)

lemma split_grown:
  assumes "room (t_pending_next t) 2" "below t {pid}" and t': "t' = rewritten_split t pid nl nr"
    and fits: "page_fits (t_page_size t) (Decoded nl)" "page_fits (t_page_size t) (Decoded nr)"
  shows "grown 2 t t' {pid}" "slot_id t pid \<noteq> slot_next t pid"
    "t_dirty t' (slot_id t pid) = Some (Decoded nl)" "t_dirty t' (slot_next t pid) = Some (Decoded nr)"
    "slot_id t pid \<in> {pid} \<union> fresh t t'" "slot_next t pid \<in> fresh t t'" "slot_next t pid \<noteq> 0"
proof -
  have r: "room (t_pending_next t) 1" using assms(1) room_less by simp
  have r1: "room (t_pending_next t + 1) 1" using room_add [of "t_pending_next t" 1 1] assms(1) by (simp add: numeral_2_eq_2)
  note n = next_succ [OF r] next_succ [OF r1]
  show ne: "slot_id t pid \<noteq> slot_next t pid" by (rule slots_differ [OF assms(1,2)])
  show "grown 2 t t' {pid}"
    unfolding grown_def t' rewritten_split_def put_page_def fresh_def slot_id_def slot_next_def
    using n fits by (auto intro: less_imp_le less_trans)
  show "t_dirty t' (slot_id t pid) = Some (Decoded nl)" "t_dirty t' (slot_next t pid) = Some (Decoded nr)"
    using ne by (simp_all add: t' rewritten_split_def put_page_def)
  show "slot_id t pid \<in> {pid} \<union> fresh t t'" "slot_next t pid \<in> fresh t t'"
    unfolding t' rewritten_split_def put_page_def fresh_def slot_id_def slot_next_def using n by (auto intro: less_imp_le less_trans)
  show "slot_next t pid \<noteq> 0" using r r1 by (auto simp: slot_next_def room_def)
qed

section \<open>Updating sorted entries\<close>

text \<open>The entries after binding \<open>k\<close> to \<open>v\<close>, and after removing \<open>k\<close>.\<close>

definition upd :: "bytes \<Rightarrow> bytes \<Rightarrow> (bytes \<times> bytes) list \<Rightarrow> (bytes \<times> bytes) list" where
  "upd k v xs = filter (\<lambda>x. fst x < k) xs @ (k, v) # filter (\<lambda>x. k < fst x) xs"

definition del :: "bytes \<Rightarrow> (bytes \<times> bytes) list \<Rightarrow> (bytes \<times> bytes) list" where
  "del k xs = filter (\<lambda>x. fst x \<noteq> k) xs"

lemma filters_outside:
  fixes k :: bytes
  assumes "\<And>x. x \<in> set A \<Longrightarrow> fst x < k" "\<And>x. x \<in> set C \<Longrightarrow> k < fst x"
  shows "filter (\<lambda>x. fst x < k) A = A" "filter (\<lambda>x. k < fst x) A = []" "filter (\<lambda>x. fst x < k) C = []"
    "filter (\<lambda>x. k < fst x) C = C" "filter (\<lambda>x. fst x \<noteq> k) A = A" "filter (\<lambda>x. fst x \<noteq> k) C = C"
proof -
  have "fst x \<le> k" if "x \<in> set A" for x using assms(1) that by (simp add: less_imp_le)
  moreover have "k \<le> fst x" if "x \<in> set C" for x using assms(2) that by (simp add: less_imp_le)
  ultimately show "filter (\<lambda>x. fst x < k) A = A" "filter (\<lambda>x. k < fst x) A = []" "filter (\<lambda>x. fst x < k) C = []"
    "filter (\<lambda>x. k < fst x) C = C" "filter (\<lambda>x. fst x \<noteq> k) A = A" "filter (\<lambda>x. fst x \<noteq> k) C = C"
    using assms by (auto simp: filter_id_conv filter_empty_conv not_less) (metis fst_conv less_irrefl)+
qed

lemma upd_middle:
  assumes "\<And>x. x \<in> set A \<Longrightarrow> fst x < k" "\<And>x. x \<in> set C \<Longrightarrow> k < fst x"
  shows "upd k v (A @ B @ C) = A @ upd k v B @ C" "del k (A @ B @ C) = A @ del k B @ C"
  by (simp_all add: upd_def del_def filters_outside [OF assms])

lemma map_of_filter_fst: "map_of (filter (\<lambda>x. P (fst x)) xs) a = (if P a then map_of xs a else None)"
  by (induction xs) auto

lemma upd_lookup: "map_of (upd k v xs) a = (if a = k then Some v else map_of xs a)"
  using map_of_filter_fst [of "\<lambda>a. a < k" xs a] map_of_filter_fst [of "\<lambda>a. k < a" xs a]
  by (cases "a < k"; cases "k < a") (auto simp: upd_def map_add_def not_less split: option.splits)

lemma del_lookup: "map_of (del k xs) a = (if a = k then None else map_of xs a)"
  using map_of_filter_fst [of "\<lambda>a. a \<noteq> k" xs a] by (simp add: del_def)

lemma upd_sorted: "keys_sorted (map fst xs) \<Longrightarrow> keys_sorted (map fst (upd k v xs))"
  by (auto simp: upd_def sorted_wrt_append sorted_wrt_map intro: sorted_wrt_filter)

text \<open>Where a search splits the entries of a leaf.\<close>

lemma search_parts:
  assumes "\<forall>e \<in> set es. key_ok bs (ekey e)" "keys_sorted (map (entry_key bs) es)"
  obtains A M B r where "search_entries bs es k = Ok r" "es = A @ M @ B"
    "\<forall>e \<in> set A. entry_key bs e < k" "\<forall>e \<in> set B. k < entry_key bs e"
    "(r = Found (length A) \<and> (\<exists>e. M = [e] \<and> entry_key bs e = k)) \<or> (r = Insert_At (length A) \<and> M = [])"
proof -
  obtain r where r: "search_entries bs es k = Ok r" "search_result (map (entry_key bs) es) k r"
    using search_entries_spec [OF assms] by blast
  show ?thesis
  proof (cases r)
    case (Found i)
    then have i: "i < length es" "entry_key bs (es ! i) = k" using r(2) by (auto simp: search_result_def)
    have es: "es = take i es @ [es ! i] @ drop (Suc i) es" using i(1) by (simp add: id_take_nth_drop [symmetric])
    have "keys_sorted (map (entry_key bs) (take i es @ [es ! i] @ drop (Suc i) es))" using assms(2) es by metis
    then have "\<forall>e \<in> set (take i es). entry_key bs e < k" "\<forall>e \<in> set (drop (Suc i) es). k < entry_key bs e"
      unfolding map_append sorted_wrt_append using i(2) by auto
    then show ?thesis using that [OF r(1) es] Found i by auto
  next
    case (Insert_At i)
    then have i: "i \<le> length es" "\<forall>j < i. entry_key bs (es ! j) < k" "\<forall>j. i \<le> j \<longrightarrow> j < length es \<longrightarrow> k < entry_key bs (es ! j)"
      using r(2) by (auto simp: search_result_def)
    have "\<forall>e \<in> set (take i es). entry_key bs e < k" "\<forall>e \<in> set (drop i es). k < entry_key bs e"
      using i by (auto simp: in_set_conv_nth)
    then show ?thesis using that [OF r(1), of "take i es" "[]" "drop i es"] Insert_At i(1) by auto
  qed
qed

lemma update_entries_parts:
  assumes "\<forall>e \<in> set es. key_ok bs (ekey e)" "keys_sorted (map (entry_key bs) es)"
  obtains A M B x ch where "update_entries bs es k r = Ok (A @ x # B, ch)" "es = A @ M @ B"
    "\<forall>e \<in> set A. entry_key bs e < k" "\<forall>e \<in> set B. k < entry_key bs e" "\<forall>e \<in> set M. entry_key bs e = k"
    "entry_key bs x = k" "key_ok bs (ekey x)" "evalue x = r"
proof -
  obtain A M B s where p: "search_entries bs es k = Ok s" "es = A @ M @ B"
    "\<forall>e \<in> set A. entry_key bs e < k" "\<forall>e \<in> set B. k < entry_key bs e"
    "(s = Found (length A) \<and> (\<exists>e. M = [e] \<and> entry_key bs e = k)) \<or> (s = Insert_At (length A) \<and> M = [])"
    using search_parts [OF assms] .
  from p(5) show ?thesis
  proof (elim disjE conjE exE)
    fix e assume e: "s = Found (length A)" "M = [e]" "entry_key bs e = k"
    then show ?thesis
      using that [of A "e\<lparr>evalue := r\<rparr>" B _ M] p assms(1) by (simp add: update_entries_def index_at_in list_update_append)
  next
    assume "s = Insert_At (length A)" "M = []"
    then show ?thesis
      using that [of A "\<lparr>ekey = Owned_Key k, evalue = r\<rparr>" B _ M] p
      by (simp add: update_entries_def vec_insert_def the_key_def key_ok_def)
  qed
qed

lemma remove_entry_parts:
  assumes "\<forall>e \<in> set es. key_ok bs (ekey e)" "keys_sorted (map (entry_key bs) es)"
  obtains A M B ch where "remove_entry bs es k = Ok (A @ B, ch)" "es = A @ M @ B"
    "\<forall>e \<in> set A. entry_key bs e < k" "\<forall>e \<in> set B. k < entry_key bs e" "\<forall>e \<in> set M. entry_key bs e = k"
proof -
  obtain A M B s where p: "search_entries bs es k = Ok s" "es = A @ M @ B"
    "\<forall>e \<in> set A. entry_key bs e < k" "\<forall>e \<in> set B. k < entry_key bs e"
    "(s = Found (length A) \<and> (\<exists>e. M = [e] \<and> entry_key bs e = k)) \<or> (s = Insert_At (length A) \<and> M = [])"
    using search_parts [OF assms] .
  then show ?thesis using that [of A B _ M] by (auto simp: remove_entry_def index_at_in)
qed

lemma leaf_upd:
  assumes "\<forall>e \<in> set A. f e < k" "\<forall>e \<in> set B. k < f e" "\<forall>e \<in> set M. f e = k"
  shows "upd k v (map (\<lambda>e. (f e, g e)) (A @ M @ B)) = map (\<lambda>e. (f e, g e)) A @ (k, v) # map (\<lambda>e. (f e, g e)) B"
    "del k (map (\<lambda>e. (f e, g e)) (A @ M @ B)) = map (\<lambda>e. (f e, g e)) (A @ B)"
proof -
  let ?c = "\<lambda>e. (f e, g e)"
  have "upd k v (map ?c M) = [(k, v)]" "del k (map ?c M) = []"
    using assms(3) by (auto simp: upd_def del_def filter_empty_conv)
  moreover have "\<And>x. x \<in> set (map ?c A) \<Longrightarrow> fst x < k" "\<And>x. x \<in> set (map ?c B) \<Longrightarrow> k < fst x" using assms(1,2) by auto
  ultimately show "upd k v (map ?c (A @ M @ B)) = map ?c A @ (k, v) # map ?c B" "del k (map ?c (A @ M @ B)) = map ?c (A @ B)"
    using upd_middle [where A = "map ?c A" and C = "map ?c B" and B = "map ?c M" and k = k] by simp_all
qed

end
