(* ===== verification/Tree_Kids.thy ===== *)
theory Tree_Kids
  imports Tree_Nodes
begin

text \<open>
  The children of an internal node: replacing one, replacing one by two, and cutting the node in
  two keep the node a search-tree node and change the entries below it as expected.
\<close>

definition kids_pages :: "cow_btree \<Rightarrow> nat \<Rightarrow> page_id \<Rightarrow> separator list \<Rightarrow> page_id set" where
  "kids_pages t h l cs = (\<Union>i \<in> {..length cs}. pages t h (kid l cs i))"

definition kids_contents :: "cow_btree \<Rightarrow> nat \<Rightarrow> page_id \<Rightarrow> separator list \<Rightarrow> (bytes \<times> bytes) list" where
  "kids_contents t h l cs = concat (map (\<lambda>i. contents t True h (kid l cs i)) [0..<Suc (length cs)])"

definition kids_ok :: "cow_btree \<Rightarrow> nat \<Rightarrow> bytes \<Rightarrow> page_id \<Rightarrow> separator list \<Rightarrow> bytes \<Rightarrow> bytes option \<Rightarrow> bool" where
  "kids_ok t h bs l cs lo hi \<longleftrightarrow> seps_wf bs cs lo hi \<and> (\<forall>c \<in> set cs. key_fits (t_page_size t) (sep_key bs c)) \<and>
     (\<forall>i \<le> length cs. good t h (kid l cs i) (klo bs lo cs i) (khi bs hi cs i)) \<and>
     (\<forall>i j. i < j \<longrightarrow> j \<le> length cs \<longrightarrow> pages t h (kid l cs i) \<inter> pages t h (kid l cs j) = {})"

section \<open>Placing a node\<close>

lemma kids_frame:
  assumes "agree t t' (kids_pages t h l cs)"
  shows "kids_ok t' h bs l cs lo hi = kids_ok t h bs l cs lo hi" "kids_pages t' h l cs = kids_pages t h l cs"
    "kids_contents t' h l cs = kids_contents t h l cs"
proof -
  have a: "agree t t' (pages t h (kid l cs i))" if "i \<le> length cs" for i
    using that by (intro agree_subset [OF assms]) (auto simp: kids_pages_def)
  note f = good_frame [OF a]
  have ps: "t_page_size t' = t_page_size t" using assms by (simp add: agree_def)
  show "kids_ok t' h bs l cs lo hi = kids_ok t h bs l cs lo hi" using f ps by (simp add: kids_ok_def)
  show "kids_pages t' h l cs = kids_pages t h l cs" using f(3) by (simp add: kids_pages_def)
  show "kids_contents t' h l cs = kids_contents t h l cs"
    unfolding kids_contents_def using f(2) by (intro arg_cong [where f = concat] map_cong) auto
qed

lemma place_internal:
  assumes "kids_ok t h bs l cs lo hi" "node_at t pid True = Ok (Internal bs l cs)" "pid \<noteq> 0"
    "header_size + cells_total (sep_len bs) cs \<le> t_page_size t" "pid \<notin> kids_pages t h l cs"
  shows "good t (Suc h) pid lo hi" "pages t (Suc h) pid = insert pid (kids_pages t h l cs)"
    "contents t True (Suc h) pid = kids_contents t h l cs"
proof -
  show "good t (Suc h) pid lo hi"
    by (rule good_internalI [OF assms(2)]) (use assms in \<open>auto simp: kids_ok_def seps_fit_def kids_pages_def\<close>)
  show "pages t (Suc h) pid = insert pid (kids_pages t h l cs)" using assms(2,3) by (simp add: kids_pages_def)
  show "contents t True (Suc h) pid = kids_contents t h l cs" using assms(2,3) by (simp add: kids_contents_def del: upt_Suc)
qed

lemma place_leaf:
  assumes "node_at t pid True = Ok (Leaf bs es)" "pid \<noteq> 0" "leaf_wf t True bs es lo hi" "leaf_fits (t_page_size t) bs es"
    "pid \<notin> entries_pages t es" "entries_apart t es"
  shows "good t (Suc h) pid lo hi" "pages t (Suc h) pid = insert pid (entries_pages t es)"
    "contents t True (Suc h) pid = map (\<lambda>e. (entry_key bs e, the_val t True bs e)) es"
  using good_leafI [OF assms(1,3-)] assms(1,2) by simp_all

section \<open>Entries around a child\<close>

lemma upt_around: "i \<le> n \<Longrightarrow> [0..<Suc n] = [0..<i] @ i # [Suc i..<Suc n]"
  using upt_add_eq_append [of 0 i "Suc n - i"] by (simp add: upt_conv_Cons del: upt_Suc)

lemma kids_contents_around:
  assumes "i \<le> length cs"
  shows "kids_contents t h l cs = concat (map (\<lambda>j. contents t True h (kid l cs j)) [0..<i]) @
    contents t True h (kid l cs i) @ concat (map (\<lambda>j. contents t True h (kid l cs j)) [Suc i..<Suc (length cs)])"
  unfolding kids_contents_def upt_around [OF assms] by (simp del: upt_Suc)

lemma kids_contents_sides:
  assumes ok: "kids_ok t h bs l cs lo hi" and i: "i \<le> length cs" "in_range (klo bs lo cs i) (khi bs hi cs i) k"
  shows "x \<in> set (concat (map (\<lambda>j. contents t True h (kid l cs j)) [0..<i])) \<Longrightarrow> fst x < k"
    "x \<in> set (concat (map (\<lambda>j. contents t True h (kid l cs j)) [Suc i..<Suc (length cs)])) \<Longrightarrow> k < fst x"
proof -
  have seps: "seps_wf bs cs lo hi" and wf: "\<And>j. j \<le> length cs \<Longrightarrow> tree_wf t True h (kid l cs j) (klo bs lo cs j) (khi bs hi cs j)"
    using ok by (auto simp: kids_ok_def good_def)
  have r: "in_range (klo bs lo cs j) (khi bs hi cs j) (fst x)" if "j \<le> length cs" "x \<in> set (contents t True h (kid l cs j))" for j
    using contents_range [OF wf [OF that(1)], of "fst x" "snd x"] that(2) by simp
  show "fst x < k" if x: "x \<in> set (concat (map (\<lambda>j. contents t True h (kid l cs j)) [0..<i]))"
  proof -
    obtain j where "j < i" "x \<in> set (contents t True h (kid l cs j))" using x by auto
    then show ?thesis using kids_separated [OF seps _ i(1) r i(2), of j] i(1) by simp
  qed
  show "k < fst x" if x: "x \<in> set (concat (map (\<lambda>j. contents t True h (kid l cs j)) [Suc i..<Suc (length cs)]))"
  proof -
    obtain j where "i < j" "j \<le> length cs" "x \<in> set (contents t True h (kid l cs j))" using x by (auto simp: less_Suc_eq_le Suc_le_eq simp del: upt_Suc)
    then show ?thesis using kids_separated [OF seps _ _ i(2) r, of j] by simp
  qed
qed

text \<open>Updating one child updates the node.\<close>

lemma kids_upd:
  assumes "kids_ok t h bs l cs lo hi" "i \<le> length cs" "in_range (klo bs lo cs i) (khi bs hi cs i) k"
  shows "upd k v (kids_contents t h l cs) = concat (map (\<lambda>j. contents t True h (kid l cs j)) [0..<i]) @
      upd k v (contents t True h (kid l cs i)) @ concat (map (\<lambda>j. contents t True h (kid l cs j)) [Suc i..<Suc (length cs)])"
    "del k (kids_contents t h l cs) = concat (map (\<lambda>j. contents t True h (kid l cs j)) [0..<i]) @
      del k (contents t True h (kid l cs i)) @ concat (map (\<lambda>j. contents t True h (kid l cs j)) [Suc i..<Suc (length cs)])"
  unfolding kids_contents_around [OF assms(2)]
  by (rule upd_middle, erule kids_contents_sides(1) [OF assms], erule kids_contents_sides(2) [OF assms])+

section \<open>Replacing a child\<close>

definition replaced_cells :: "separator list \<Rightarrow> nat \<Rightarrow> page_id \<Rightarrow> separator list" where
  "replaced_cells cs i q = (if i = 0 then cs else cs[i - 1 := (cs ! (i - 1))\<lparr>schild := q\<rparr>])"

definition replaced_left :: "page_id \<Rightarrow> nat \<Rightarrow> page_id \<Rightarrow> page_id" where
  "replaced_left l i q = (if i = 0 then q else l)"

lemma replace_child_spec:
  "i \<le> length cs \<Longrightarrow> replace_child cs l i q = Ok (replaced_cells cs i q, replaced_left l i q)"
  by (auto simp: replace_child_def replaced_cells_def replaced_left_def index_at_in)

lemma replaced_length [simp]: "length (replaced_cells cs i q) = length cs"
  by (simp add: replaced_cells_def)

lemma replaced_nth: "j < length cs \<Longrightarrow> skey (replaced_cells cs i q ! j) = skey (cs ! j)"
  by (cases "i - 1 = j") (auto simp: replaced_cells_def)

lemma replaced_keys: "map f (map skey (replaced_cells cs i q)) = map f (map skey cs)"
  by (intro nth_equalityI) (auto simp: replaced_nth)

lemma replaced_bounds:
  assumes "j \<le> length cs"
  shows "klo bs lo (replaced_cells cs i q) j = klo bs lo cs j" "khi bs hi (replaced_cells cs i q) j = khi bs hi cs j"
  using assms replaced_nth [of "j - 1" cs i q] replaced_nth [of j cs i q] by (auto simp: klo_def khi_def)

lemma replaced_kid:
  "i \<le> length cs \<Longrightarrow> j \<le> length cs \<Longrightarrow> kid (replaced_left l i q) (replaced_cells cs i q) j = (if j = i then q else kid l cs j)"
  by (auto simp: kid_def replaced_left_def replaced_cells_def nth_list_update)

lemma replaced_set: "c' \<in> set (replaced_cells cs i q) \<Longrightarrow> \<exists>c \<in> set cs. skey c' = skey c"
  by (metis in_set_conv_nth replaced_length replaced_nth)

lemma replaced_seps:
  "seps_wf bs cs lo hi \<Longrightarrow> seps_wf bs (replaced_cells cs i q) lo hi"
  "cells_total (sep_len bs) (replaced_cells cs i q) = cells_total (sep_len bs) cs"
proof -
  have m: "map (\<lambda>c. g (skey c)) (replaced_cells cs i q) = map (\<lambda>c. g (skey c)) cs" for g :: "key \<Rightarrow> 'z"
    using replaced_keys [of g cs i q] by (simp add: comp_def)
  show "seps_wf bs (replaced_cells cs i q) lo hi" if "seps_wf bs cs lo hi"
    using that m [of "the_key bs"] unfolding seps_wf_def sep_ok_def by (metis replaced_set)
  show "cells_total (sep_len bs) (replaced_cells cs i q) = cells_total (sep_len bs) cs"
    using m [of "\<lambda>k. slot_size + internal_cell_size (the_key bs k)"] by (simp add: cells_total_def sep_len_def)
qed

text \<open>
  A write below child \<open>i\<close> leaves the other children alone, and its new pages are disjoint from
  theirs.
\<close>

lemma siblings:
  assumes ok: "kids_ok t h bs l cs lo hi" and i: "i \<le> length cs" and j: "j \<le> length cs" "j \<noteq> i"
    and g: "grown c t t' (pages t h (kid l cs i))" and b: "below t (kids_pages t h l cs)"
  shows "good t' h (kid l cs j) (klo bs lo cs j) (khi bs hi cs j)" "pages t' h (kid l cs j) = pages t h (kid l cs j)"
    "contents t' True h (kid l cs j) = contents t True h (kid l cs j)"
    "S \<subseteq> pages t h (kid l cs i) \<union> fresh t t' \<Longrightarrow> S \<inter> pages t h (kid l cs j) = {}"
proof -
  have disj: "pages t h (kid l cs j) \<inter> pages t h (kid l cs i) = {}"
  proof -
    have "pages t h (kid l cs a) \<inter> pages t h (kid l cs b) = {}" if "a < b" "b \<le> length cs" for a b
      using ok that by (simp add: kids_ok_def)
    from this [of i j] this [of j i] show ?thesis using i j by (cases "i < j") auto
  qed
  have bj: "below t (pages t h (kid l cs j))" using j by (intro below_mono [OF b]) (auto simp: kids_pages_def)
  from good_frame [OF grown_agree [OF g disj bj]] ok j(1)
  show "good t' h (kid l cs j) (klo bs lo cs j) (khi bs hi cs j)" "pages t' h (kid l cs j) = pages t h (kid l cs j)"
    "contents t' True h (kid l cs j) = contents t True h (kid l cs j)" by (simp_all add: kids_ok_def)
  show "S \<inter> pages t h (kid l cs j) = {}" if "S \<subseteq> pages t h (kid l cs i) \<union> fresh t t'"
    using that disj below_fresh [OF bj, of t'] by blast
qed

lemma siblings_contents:
  assumes ok: "kids_ok t h bs l cs lo hi" and i: "i \<le> length cs"
    and g: "grown c t t' (pages t h (kid l cs i))" and b: "below t (kids_pages t h l cs)"
  shows "map (\<lambda>j. contents t' True h (kid l cs j)) [0..<i] = map (\<lambda>j. contents t True h (kid l cs j)) [0..<i]"
    "map (\<lambda>j. contents t' True h (kid l cs j)) [Suc i..<Suc (length cs)] = map (\<lambda>j. contents t True h (kid l cs j)) [Suc i..<Suc (length cs)]"
  by (intro map_cong refl siblings(3) [OF ok i _ _ g b]; use i in auto)+

lemma kids_replaced:
  assumes ok: "kids_ok t h bs l cs lo hi" and i: "i \<le> length cs" and g: "grown c t t' (pages t h (kid l cs i))"
    and b: "below t (kids_pages t h l cs)" and q: "good t' h q (klo bs lo cs i) (khi bs hi cs i)"
    and pq: "pages t' h q \<subseteq> pages t h (kid l cs i) \<union> fresh t t'"
  shows "kids_ok t' h bs (replaced_left l i q) (replaced_cells cs i q) lo hi"
    "kids_pages t' h (replaced_left l i q) (replaced_cells cs i q) \<subseteq> kids_pages t h l cs \<union> fresh t t'"
    "kids_contents t' h (replaced_left l i q) (replaced_cells cs i q) =
      concat (map (\<lambda>j. contents t True h (kid l cs j)) [0..<i]) @ contents t' True h q @
      concat (map (\<lambda>j. contents t True h (kid l cs j)) [Suc i..<Suc (length cs)])"
proof -
  note sib = siblings [OF ok i _ _ g b]
  note kid = replaced_kid [OF i, of _ l q]
  have ps: "t_page_size t' = t_page_size t" using grown_base(1) [OF g] .
  show "kids_ok t' h bs (replaced_left l i q) (replaced_cells cs i q) lo hi"
    unfolding kids_ok_def
  proof (intro conjI allI impI ballI)
    show "seps_wf bs (replaced_cells cs i q) lo hi" using ok by (simp add: kids_ok_def replaced_seps)
    show "key_fits (t_page_size t') (sep_key bs c)" if "c \<in> set (replaced_cells cs i q)" for c
      using replaced_set [OF that] ok ps by (auto simp: kids_ok_def)
    show "good t' h (kid (replaced_left l i q) (replaced_cells cs i q) j) (klo bs lo (replaced_cells cs i q) j)
        (khi bs hi (replaced_cells cs i q) j)" if "j \<le> length (replaced_cells cs i q)" for j
      using that q sib(1) [of j] by (simp add: kid replaced_bounds)
    show "pages t' h (kid (replaced_left l i q) (replaced_cells cs i q) a) \<inter>
        pages t' h (kid (replaced_left l i q) (replaced_cells cs i q) b) = {}"
      if "a < b" "b \<le> length (replaced_cells cs i q)" for a b
    proof (cases "a = i \<or> b = i")
      case True
      then show ?thesis using that sib(4) [OF _ _ pq, of a] sib(4) [OF _ _ pq, of b] sib(2) [of a] sib(2) [of b] by (auto simp: kid)
    next
      case False
      then show ?thesis using that ok sib(2) [of a] sib(2) [of b] by (simp add: kid kids_ok_def)
    qed
  qed
  show "kids_pages t' h (replaced_left l i q) (replaced_cells cs i q) \<subseteq> kids_pages t h l cs \<union> fresh t t'"
  proof -
    have "pages t' h (kid (replaced_left l i q) (replaced_cells cs i q) j) \<subseteq> kids_pages t h l cs \<union> fresh t t'"
      if "j \<le> length cs" for j
      using that pq i sib(2) [of j] unfolding kids_pages_def by (cases "j = i") (auto simp: kid)
    then show ?thesis by (auto simp: kids_pages_def)
  qed
  have out: "map (\<lambda>j. contents t' True h (kid (replaced_left l i q) (replaced_cells cs i q) j)) js = map (\<lambda>j. contents t' True h (kid l cs j)) js"
    if "\<forall>j \<in> set js. j \<le> length cs \<and> j \<noteq> i" for js using that by (auto simp: kid)
  show "kids_contents t' h (replaced_left l i q) (replaced_cells cs i q) =
      concat (map (\<lambda>j. contents t True h (kid l cs j)) [0..<i]) @ contents t' True h q @
      concat (map (\<lambda>j. contents t True h (kid l cs j)) [Suc i..<Suc (length cs)])"
    using i kids_contents_around [of i "replaced_cells cs i q" t' h "replaced_left l i q"] siblings_contents [OF ok i g b]
      out [of "[0..<i]"] out [of "[Suc i..<Suc (length cs)]"]
    by (auto simp: kid simp del: upt_Suc)
qed

section \<open>Adding a child\<close>

definition ins_cell :: "'a list \<Rightarrow> nat \<Rightarrow> 'a \<Rightarrow> 'a list" where
  "ins_cell cs i c = take i cs @ c # drop i cs"

lemma ins_cell_nth:
  "i \<le> length cs \<Longrightarrow> j \<le> length cs \<Longrightarrow> ins_cell cs i c ! j = (if j < i then cs ! j else if j = i then c else cs ! (j - 1))"
  by (auto simp: ins_cell_def nth_append nth_Cons')

lemma length_ins_cell [simp]: "i \<le> length cs \<Longrightarrow> length (ins_cell cs i c) = Suc (length cs)"
  by (simp add: ins_cell_def)

lemma set_ins_cell: "set (ins_cell cs i c) = insert c (set cs)"
  using set_append [of "take i cs" "drop i cs"] by (auto simp: ins_cell_def)

lemma ins_cell_kid:
  assumes "i \<le> length cs" "j \<le> Suc (length cs)"
  shows "kid l (ins_cell cs i c) j = (if j \<le> i then kid l cs j else if j = Suc i then schild c else kid l cs (j - 1))"
    "klo bs lo (ins_cell cs i c) j = (if j \<le> i then klo bs lo cs j else if j = Suc i then sep_key bs c else klo bs lo cs (j - 1))"
    "khi bs hi (ins_cell cs i c) j = (if j < i then khi bs hi cs j else if j = i then Some (sep_key bs c) else khi bs hi cs (j - 1))"
  using assms ins_cell_nth [of i cs "j - 1" c] ins_cell_nth [of i cs j c]
  by (auto simp: kid_def klo_def khi_def)

lemma absorb_split_spec:
  assumes "i \<le> length cs"
  shows "absorb_split cs l i q q' s =
    Ok (ins_cell (replaced_cells cs i q) i \<lparr>skey = Owned_Key s, schild = q'\<rparr>, replaced_left l i q)"
  using assms by (auto simp: absorb_split_def vec_insert_def ins_cell_def replaced_cells_def replaced_left_def index_at_in)

lemma seps_around:
  assumes "seps_wf bs cs lo hi" "i \<le> length cs" "klo bs lo cs i < s \<or> i = 0" "in_range (klo bs lo cs i) (khi bs hi cs i) s"
  shows "seps_wf bs (ins_cell cs i \<lparr>skey = Owned_Key s, schild = q\<rparr>) lo hi"
proof -
  let ?k = "\<lambda>c. sep_key bs c"
  have sorted: "keys_sorted (map ?k cs)" and rng: "\<forall>c \<in> set cs. sep_ok bs c \<and> in_range lo hi (?k c)"
    using assms(1) by (auto simp: seps_wf_def)
  have nth: "map ?k cs ! a < map ?k cs ! b" if "a < b" "b < length cs" for a b using sorted_nth_less [OF sorted that(1)] that by simp
  have "?k c < s" if c: "c \<in> set (take i cs)" for c
  proof -
    obtain a where a: "a < i" "c = cs ! a" using c assms(2) by (auto simp: in_set_conv_nth)
    then have "?k c \<le> ?k (cs ! (i - 1))" using nth [of a "i - 1"] assms(2) by (cases "a = i - 1") (auto simp: less_imp_le)
    then show ?thesis using a assms(3) by (auto simp: klo_def)
  qed
  moreover have "s < ?k c" if c: "c \<in> set (drop i cs)" for c
  proof -
    obtain b where "b < length (drop i cs)" "c = drop i cs ! b" using c unfolding in_set_conv_nth by blast
    then have b: "i + b < length cs" "c = cs ! (i + b)" by auto
    have "s < ?k (cs ! i)" using assms(4) b by (simp add: in_range_def khi_def)
    also have "\<dots> \<le> ?k c" using nth [of i "i + b"] b by (cases "b = 0") (auto simp: less_imp_le)
    finally show ?thesis .
  qed
  moreover have "keys_sorted (map ?k (take i cs))" "keys_sorted (map ?k (drop i cs))"
    using sorted by (simp_all add: sorted_wrt_take sorted_wrt_drop flip: take_map drop_map)
  moreover have "in_range lo hi s" using kid_in_range [OF assms(1,2,4)] .
  ultimately have "keys_sorted (map ?k (take i cs) @ s # map ?k (drop i cs))"
    unfolding sorted_wrt_append using less_trans by fastforce
  then show ?thesis
    using rng \<open>in_range lo hi s\<close> by (simp add: seps_wf_def set_ins_cell sep_ok_def key_ok_def the_key_def) (simp add: ins_cell_def the_key_def)
qed

lemma upt_around2: "i \<le> n \<Longrightarrow> [0..<Suc (Suc n)] = [0..<i] @ i # Suc i # map Suc [Suc i..<Suc n]"
  using upt_around [of i "Suc n"] by (simp add: upt_conv_Cons map_Suc_upt del: upt_Suc)

lemma kids_absorbed:
  assumes ok: "kids_ok t h bs l cs lo hi" and i: "i \<le> length cs" and g: "grown c t t' (pages t h (kid l cs i))"
    and b: "below t (kids_pages t h l cs)"
    and q: "good t' h q (klo bs lo cs i) (Some s)" and q': "good t' h q' s (khi bs hi cs i)"
    and s: "klo bs lo cs i < s" "in_range (klo bs lo cs i) (khi bs hi cs i) s" "key_fits (t_page_size t) s"
    and pq: "pages t' h q \<subseteq> pages t h (kid l cs i) \<union> fresh t t'" "pages t' h q' \<subseteq> pages t h (kid l cs i) \<union> fresh t t'"
    and disj: "pages t' h q \<inter> pages t' h q' = {}"
  defines "cs' \<equiv> ins_cell (replaced_cells cs i q) i \<lparr>skey = Owned_Key s, schild = q'\<rparr>"
  shows "kids_ok t' h bs (replaced_left l i q) cs' lo hi"
    "kids_pages t' h (replaced_left l i q) cs' \<subseteq> kids_pages t h l cs \<union> fresh t t'"
    "kids_contents t' h (replaced_left l i q) cs' =
      concat (map (\<lambda>j. contents t True h (kid l cs j)) [0..<i]) @ (contents t' True h q @ contents t' True h q') @
      concat (map (\<lambda>j. contents t True h (kid l cs j)) [Suc i..<Suc (length cs)])"
proof -
  note sib = siblings [OF ok i _ _ g b]
  let ?R = "replaced_cells cs i q" and ?l = "replaced_left l i q"
  have iR: "i \<le> length ?R" using i by simp
  have len: "length cs' = Suc (length cs)" using i by (simp add: cs'_def)
  have kid: "kid ?l cs' j = (if j < i then kid l cs j else if j = i then q else if j = Suc i then q' else kid l cs (j - 1))"
    and klo: "klo bs lo cs' j = (if j \<le> i then klo bs lo cs j else if j = Suc i then s else klo bs lo cs (j - 1))"
    and khi: "khi bs hi cs' j = (if j < i then khi bs hi cs j else if j = i then Some s else khi bs hi cs (j - 1))"
    if "j \<le> Suc (length cs)" for j
  proof -
    have "j - 1 \<noteq> i" if "j \<noteq> Suc i" "\<not> j \<le> i" using that by linarith
    then show "kid ?l cs' j = (if j < i then kid l cs j else if j = i then q else if j = Suc i then q' else kid l cs (j - 1))"
      "klo bs lo cs' j = (if j \<le> i then klo bs lo cs j else if j = Suc i then s else klo bs lo cs (j - 1))"
      "khi bs hi cs' j = (if j < i then khi bs hi cs j else if j = i then Some s else khi bs hi cs (j - 1))"
      using that i ins_cell_kid [OF iR, of j] by (auto simp: cs'_def replaced_kid replaced_bounds the_key_def)
  qed
  have old: "(\<exists>m. m \<le> length cs \<and> m \<noteq> i \<and> kid ?l cs' j = kid l cs m \<and> klo bs lo cs' j = klo bs lo cs m \<and>
      khi bs hi cs' j = khi bs hi cs m \<and> (m < i \<and> j = m \<or> i < m \<and> j = Suc m))"
    if "j \<le> Suc (length cs)" "j \<noteq> i" "j \<noteq> Suc i" for j
    using that i by (intro exI [of _ "if j < i then j else j - 1"]) (auto simp: kid klo khi)
  have ps: "t_page_size t' = t_page_size t" using grown_base(1) [OF g] .
  have seps: "seps_wf bs cs' lo hi"
    unfolding cs'_def using ok i s by (intro seps_around) (auto simp: kids_ok_def replaced_seps replaced_bounds)
  show "kids_ok t' h bs ?l cs' lo hi"
    unfolding kids_ok_def
  proof (intro conjI allI impI ballI)
    show "seps_wf bs cs' lo hi" by (rule seps)
    show "key_fits (t_page_size t') (sep_key bs c)" if "c \<in> set cs'" for c
      using that replaced_set [of c cs i q] ok ps s(3) by (auto simp: kids_ok_def cs'_def set_ins_cell the_key_def)
    show "good t' h (kid ?l cs' j) (klo bs lo cs' j) (khi bs hi cs' j)" if "j \<le> length cs'" for j
    proof (cases "j = i \<or> j = Suc i")
      case True
      then show ?thesis using q q' that by (auto simp: kid klo khi len)
    next
      case False
      then have "j \<noteq> i" "j \<noteq> Suc i" by simp_all
      from old [OF that [unfolded len] this] show ?thesis by (elim exE conjE) (simp add: sib(1))
    qed
    show "pages t' h (kid ?l cs' a) \<inter> pages t' h (kid ?l cs' b) = {}" if ab: "a < b" "b \<le> length cs'" for a b
    proof -
      have fr: "pages t' h (kid ?l cs' x) \<inter> pages t' h (kid ?l cs' y) = {}"
        if x: "x = i \<or> x = Suc i" and y: "y \<le> Suc (length cs)" "y \<noteq> i" "y \<noteq> Suc i" for x y
      proof -
        obtain m where m: "m \<le> length cs" "m \<noteq> i" "kid ?l cs' y = kid l cs m" using old [OF y] by (elim exE conjE) (rule that)
        have "pages t' h (kid ?l cs' x) \<subseteq> pages t h (kid l cs i) \<union> fresh t t'" using x pq i by (auto simp: kid)
        from sib(4) [OF m(1,2) this] show ?thesis using sib(2) [OF m(1,2)] m(3) by simp
      qed
      show ?thesis
      proof (cases "a = i \<or> a = Suc i"; cases "b = i \<or> b = Suc i")
        assume "a = i \<or> a = Suc i" "b = i \<or> b = Suc i"
        then show ?thesis using ab disj i by (auto simp: kid)
      next
        assume n: "\<not> (a = i \<or> a = Suc i)" "\<not> (b = i \<or> b = Suc i)"
        have na: "a \<le> Suc (length cs)" "a \<noteq> i" "a \<noteq> Suc i" and nb: "b \<le> Suc (length cs)" "b \<noteq> i" "b \<noteq> Suc i"
          using n ab len by simp_all
        obtain m where m: "m \<le> length cs" "m \<noteq> i" "kid ?l cs' a = kid l cs m" "m < i \<and> a = m \<or> i < m \<and> a = Suc m"
          using old [OF na] by (elim exE conjE) (rule that)
        obtain m' where m': "m' \<le> length cs" "m' \<noteq> i" "kid ?l cs' b = kid l cs m'" "m' < i \<and> b = m' \<or> i < m' \<and> b = Suc m'"
          using old [OF nb] by (elim exE conjE) (rule that)
        have "m < m'" using m(4) m'(4) ab(1) by linarith
        then show ?thesis using ok m m' sib(2) [OF m(1,2)] sib(2) [OF m'(1,2)] by (simp add: kids_ok_def)
      qed (use fr [of a b] fr [of b a] ab len in \<open>auto simp: Int_commute\<close>)
    qed
  qed
  have "pages t' h (kid ?l cs' j) \<subseteq> kids_pages t h l cs \<union> fresh t t'" if j: "j \<le> Suc (length cs)" for j
  proof (cases "j = i \<or> j = Suc i")
    case True
    then show ?thesis using pq i j unfolding kids_pages_def by (auto simp: kid)
  next
    case False
    then have nj: "j \<noteq> i" "j \<noteq> Suc i" by simp_all
    obtain m where m: "m \<le> length cs" "m \<noteq> i" "kid ?l cs' j = kid l cs m" using old [OF j nj] by (elim exE conjE) (rule that)
    then show ?thesis using sib(2) [of m] unfolding kids_pages_def by auto
  qed
  then show "kids_pages t' h ?l cs' \<subseteq> kids_pages t h l cs \<union> fresh t t'" by (auto simp: kids_pages_def len)
  have e: "map (\<lambda>j. contents t' True h (kid ?l cs' j)) [0..<i] = map (\<lambda>j. contents t True h (kid l cs j)) [0..<i]"
    "map (\<lambda>j. contents t' True h (kid ?l cs' j)) (map Suc [Suc i..<Suc (length cs)]) = map (\<lambda>j. contents t True h (kid l cs j)) [Suc i..<Suc (length cs)]"
    unfolding siblings_contents [OF ok i g b, symmetric] using i by (auto simp: kid)
  have k: "kid ?l cs' i = q" "kid ?l cs' (Suc i) = q'" using i by (simp_all add: kid)
  show "kids_contents t' h ?l cs' = concat (map (\<lambda>j. contents t True h (kid l cs j)) [0..<i]) @
      (contents t' True h q @ contents t' True h q') @ concat (map (\<lambda>j. contents t True h (kid l cs j)) [Suc i..<Suc (length cs)])"
    unfolding kids_contents_def len upt_around2 [OF i] by (simp only: map_append list.map concat_append concat.simps e k append_assoc)
qed

section \<open>Cutting a node\<close>

lemma cut_left:
  assumes "m < length cs" "j \<le> m"
  shows "kid l (take m cs) j = kid l cs j" "klo bs lo (take m cs) j = klo bs lo cs j"
    "khi bs (Some (sep_key bs (cs ! m))) (take m cs) j = khi bs hi cs j"
  using assms by (auto simp: kid_def klo_def khi_def)

lemma cut_right:
  assumes "Suc m + j \<le> length cs"
  shows "kid (schild (cs ! m)) (drop (Suc m) cs) j = kid l cs (Suc m + j)"
    "klo bs (sep_key bs (cs ! m)) (drop (Suc m) cs) j = klo bs lo cs (Suc m + j)"
    "khi bs hi (drop (Suc m) cs) j = khi bs hi cs (Suc m + j)"
  using assms by (cases j; auto simp: kid_def klo_def khi_def)+

lemma seps_cut:
  assumes "seps_wf bs cs lo hi" "m < length cs"
  shows "seps_wf bs (take m cs) lo (Some (sep_key bs (cs ! m)))" "seps_wf bs (drop (Suc m) cs) (sep_key bs (cs ! m)) hi"
proof -
  have sorted: "keys_sorted (map (sep_key bs) cs)" and rng: "\<forall>c \<in> set cs. sep_ok bs c \<and> in_range lo hi (sep_key bs c)"
    using assms(1) by (auto simp: seps_wf_def)
  have nth: "sep_key bs (cs ! a) < sep_key bs (cs ! b)" if "a < b" "b < length cs" for a b
    using sorted_nth_less [OF sorted that(1)] that by simp
  have "keys_sorted (map (sep_key bs) (take m cs))" "keys_sorted (map (sep_key bs) (drop (Suc m) cs))"
    using sorted by (simp_all add: sorted_wrt_take sorted_wrt_drop flip: take_map drop_map)
  moreover have "sep_key bs c < sep_key bs (cs ! m)" if c: "c \<in> set (take m cs)" for c
    using c assms(2) nth by (auto simp: in_set_conv_nth)
  moreover have "sep_key bs (cs ! m) \<le> sep_key bs c" if c: "c \<in> set (drop (Suc m) cs)" for c
    using c nth [of m] by (fastforce simp: in_set_conv_nth less_imp_le)
  ultimately show "seps_wf bs (take m cs) lo (Some (sep_key bs (cs ! m)))" "seps_wf bs (drop (Suc m) cs) (sep_key bs (cs ! m)) hi"
    using rng by (auto simp: seps_wf_def in_range_def dest: in_set_takeD in_set_dropD)
qed

lemma upt_cut: "m < n \<Longrightarrow> [0..<Suc n] = [0..<Suc m] @ map (\<lambda>j. Suc m + j) [0..<n - m]"
  using upt_add_eq_append [of 0 "Suc m" "n - m"] map_add_upt [of "Suc m" "n - m"] by (simp add: add.commute del: upt_Suc)

lemma kids_cut:
  assumes ok: "kids_ok t h bs l cs lo hi" and m: "m < length cs"
  defines "s \<equiv> sep_key bs (cs ! m)" and "r \<equiv> schild (cs ! m)"
  shows "kids_ok t h bs l (take m cs) lo (Some s)" "kids_ok t h bs r (drop (Suc m) cs) s hi"
    "kids_pages t h l (take m cs) \<subseteq> kids_pages t h l cs" "kids_pages t h r (drop (Suc m) cs) \<subseteq> kids_pages t h l cs"
    "kids_pages t h l (take m cs) \<inter> kids_pages t h r (drop (Suc m) cs) = {}"
    "kids_contents t h l (take m cs) @ kids_contents t h r (drop (Suc m) cs) = kids_contents t h l cs"
    "in_range lo hi s" "0 < m \<Longrightarrow> lo < s"
proof -
  have seps: "seps_wf bs cs lo hi" and disj: "\<And>i j. i < j \<Longrightarrow> j \<le> length cs \<Longrightarrow> pages t h (kid l cs i) \<inter> pages t h (kid l cs j) = {}"
    and kids: "\<And>i. i \<le> length cs \<Longrightarrow> good t h (kid l cs i) (klo bs lo cs i) (khi bs hi cs i)"
    and fits: "\<forall>c \<in> set cs. key_fits (t_page_size t) (sep_key bs c)"
    using ok by (simp_all add: kids_ok_def)
  note left = cut_left [OF m] and right = cut_right [where cs = cs and m = m]
  show "kids_ok t h bs l (take m cs) lo (Some s)"
    unfolding kids_ok_def s_def using seps_cut(1) [OF seps m] fits m kids disj
    by (auto simp: left(1,2) left(3) [where hi = hi] dest: in_set_takeD)
  show "kids_ok t h bs r (drop (Suc m) cs) s hi"
    unfolding kids_ok_def s_def r_def using seps_cut(2) [OF seps m] fits m kids disj
    by (auto simp: right(1) [where l = l] right(2) [where lo = lo] right(3) dest: in_set_dropD)
  show "kids_pages t h l (take m cs) \<subseteq> kids_pages t h l cs" using m by (fastforce simp: kids_pages_def left)
  show "kids_pages t h r (drop (Suc m) cs) \<subseteq> kids_pages t h l cs" using m by (fastforce simp: kids_pages_def r_def right(1) [where l = l])
  show "kids_pages t h l (take m cs) \<inter> kids_pages t h r (drop (Suc m) cs) = {}"
  proof -
    have "pages t h (kid l cs i) \<inter> pages t h (kid l cs (Suc m + j)) = {}" if "i \<le> m" "j \<le> length cs - Suc m" for i j
      using disj [of i "Suc m + j"] that m by simp
    moreover have "kids_pages t h l (take m cs) = (\<Union>i \<in> {..m}. pages t h (kid l cs i))"
      "kids_pages t h r (drop (Suc m) cs) = (\<Union>j \<in> {..length cs - Suc m}. pages t h (kid l cs (Suc m + j)))"
      using m by (auto simp: kids_pages_def r_def left right(1) [where l = l])
    ultimately show ?thesis by (simp add: UN_extend_simps(8) disjoint_iff) blast
  qed
  show "kids_contents t h l (take m cs) @ kids_contents t h r (drop (Suc m) cs) = kids_contents t h l cs"
  proof -
    have "kids_contents t h l (take m cs) = concat (map (\<lambda>j. contents t True h (kid l cs j)) [0..<Suc m])"
      unfolding kids_contents_def using m by (intro arg_cong [where f = concat] map_cong) (auto simp: left)
    moreover have "kids_contents t h r (drop (Suc m) cs) = concat (map (\<lambda>j. contents t True h (kid l cs j)) (map (\<lambda>j. Suc m + j) [0..<length cs - m]))"
      unfolding kids_contents_def r_def map_map comp_def using m by (intro arg_cong [where f = concat] map_cong) (auto simp: right(1) [where l = l] Suc_diff_Suc)
    ultimately show ?thesis
      by (simp only: kids_contents_def [of t h l cs] upt_cut [OF m] map_append concat_append)
  qed
  have m': "cs ! m \<in> set cs" using m by simp
  show "in_range lo hi s" using seps m' by (simp add: seps_wf_def s_def)
  show "lo < s" if "0 < m"
  proof -
    have "cs ! 0 \<in> set cs" using m that by (intro nth_mem) linarith
    then have "lo \<le> sep_key bs (cs ! 0)" using seps by (auto simp: seps_wf_def in_range_def)
    also have "\<dots> < s"
      using seps m that sorted_nth_less [of "map (sep_key bs) cs" 0 m] nth_map [of 0 cs "sep_key bs"] less_trans [OF that m] by (simp add: seps_wf_def s_def)
    finally show ?thesis .
  qed
qed

end
