(* ===== verification/Tree_Place.thy ===== *)
theory Tree_Place
  imports Tree_Kids
begin

text \<open>
  Where a rewritten node goes: in its page's slot, or as two halves in that slot and a new page.
  Each placement keeps the subtree well formed and its entries in order; the size arguments show
  that an overfull node always has a split point whose halves fit.
\<close>

section \<open>Placing rewritten nodes\<close>

lemma slot_fresh:
  assumes "slot_id t pid \<in> {pid} \<union> fresh t t'" "pid \<notin> S" "below t S"
  shows "slot_id t pid \<notin> S"
  using assms below_fresh [OF assms(3), of t'] by auto

lemma place_rewritten_leaf:
  assumes wf: "leaf_wf t True bs es lo hi" and fits: "leaf_fits (t_page_size t) bs es" and room: "room (t_pending_next t) 1"
    and b: "below t (insert pid (entries_pages t es))" and pid: "pid \<noteq> 0" "pid \<notin> entries_pages t es"
    and apart: "entries_apart t es" and t': "t' = rewritten t pid (Leaf bs es)"
  shows "grown 1 t t' {pid}" "good t' (Suc g) (slot_id t pid) lo hi"
    "pages t' (Suc g) (slot_id t pid) \<subseteq> insert pid (entries_pages t es) \<union> fresh t t'"
    "contents t' True (Suc g) (slot_id t pid) = map (\<lambda>e. (entry_key bs e, the_val t True bs e)) es"
proof -
  have bp: "below t {pid}" "below t (entries_pages t es)" using b by (auto simp: below_def)
  have pf: "page_fits (t_page_size t) (Decoded (Leaf bs es))" using wf fits by (auto simp: page_fits_def leaf_wf_def leaf_fits_def)
  note r = rewrite_grown [OF room bp(1) t' pf]
  have a: "agree t t' (entries_pages t es)" using grown_agree [OF r(1) _ bp(2)] pid by auto
  have nz: "slot_id t pid \<noteq> 0" using r(4) pid by simp
  have ns: "slot_id t pid \<notin> entries_pages t es" by (rule slot_fresh [OF r(3) pid(2) bp(2)])
  have p: "node_at t' (slot_id t pid) True = Ok (Leaf bs es)" "leaf_wf t' True bs es lo hi" "leaf_fits (t_page_size t') bs es"
    "slot_id t pid \<notin> entries_pages t' es" "entries_apart t' es"
    using agree_entries [OF a] wf fits ns r(2) apart grown_base(1) [OF r(1)] by simp_all
  note pl = place_leaf [OF p(1) nz p(2-)]
  show "grown 1 t t' {pid}" by (rule r(1))
  show "good t' (Suc g) (slot_id t pid) lo hi" by (rule pl(1))
  show "pages t' (Suc g) (slot_id t pid) \<subseteq> insert pid (entries_pages t es) \<union> fresh t t'"
    using pl(2) agree_entries(2) [OF a] r(3) by auto
  show "contents t' True (Suc g) (slot_id t pid) = map (\<lambda>e. (entry_key bs e, the_val t True bs e)) es"
    using pl(3) agree_entries(3) [OF a] by simp
qed

lemma place_rewritten_internal:
  assumes ok: "kids_ok t g bs l cs lo hi" and fits: "header_size + cells_total (sep_len bs) cs \<le> t_page_size t"
    and room: "room (t_pending_next t) 1" and b: "below t (insert pid (kids_pages t g l cs))"
    and pid: "pid \<noteq> 0" "pid \<notin> kids_pages t g l cs" and t': "t' = rewritten t pid (Internal bs l cs)"
  shows "grown 1 t t' {pid}" "good t' (Suc g) (slot_id t pid) lo hi"
    "pages t' (Suc g) (slot_id t pid) \<subseteq> insert pid (kids_pages t g l cs) \<union> fresh t t'"
    "contents t' True (Suc g) (slot_id t pid) = kids_contents t g l cs"
proof -
  have bp: "below t {pid}" "below t (kids_pages t g l cs)" using b by (auto simp: below_def)
  have pf: "page_fits (t_page_size t) (Decoded (Internal bs l cs))" using ok fits by (auto simp: page_fits_def kids_ok_def seps_wf_def)
  note r = rewrite_grown [OF room bp(1) t' pf]
  have a: "agree t t' (kids_pages t g l cs)" using grown_agree [OF r(1) _ bp(2)] pid by auto
  have nz: "slot_id t pid \<noteq> 0" using r(4) pid by simp
  have ns: "slot_id t pid \<notin> kids_pages t g l cs" by (rule slot_fresh [OF r(3) pid(2) bp(2)])
  have p: "kids_ok t' g bs l cs lo hi" "node_at t' (slot_id t pid) True = Ok (Internal bs l cs)"
    "header_size + cells_total (sep_len bs) cs \<le> t_page_size t'" "slot_id t pid \<notin> kids_pages t' g l cs"
    using kids_frame [OF a] ok fits ns r(2) grown_base(1) [OF r(1)] by simp_all
  note pl = place_internal [OF p(1,2) nz p(3,4)]
  show "grown 1 t t' {pid}" by (rule r(1))
  show "good t' (Suc g) (slot_id t pid) lo hi" by (rule pl(1))
  show "pages t' (Suc g) (slot_id t pid) \<subseteq> insert pid (kids_pages t g l cs) \<union> fresh t t'"
    using pl(2) kids_frame(2) [OF a] r(3) by auto
  show "contents t' True (Suc g) (slot_id t pid) = kids_contents t g l cs"
    using pl(3) kids_frame(3) [OF a] by simp
qed

text \<open>What an insertion promises about its outcome.\<close>

definition in_pages :: "cow_btree \<Rightarrow> cow_btree \<Rightarrow> page_id set \<Rightarrow> nat \<Rightarrow> page_id \<Rightarrow> bool" where
  "in_pages t t' S h q \<longleftrightarrow> pages t' h q \<subseteq> S \<union> fresh t t'"

definition outcome_ok :: "cow_btree \<Rightarrow> cow_btree \<Rightarrow> page_id set \<Rightarrow> nat \<Rightarrow> bytes \<Rightarrow> bytes option \<Rightarrow>
    (bytes \<times> bytes) list \<Rightarrow> insert_outcome \<Rightarrow> bool" where
  "outcome_ok t t' S h lo hi kvs outcome = (case outcome of
     Replaced q \<Rightarrow> good t' h q lo hi \<and> in_pages t t' S h q \<and> contents t' True h q = kvs
   | Split q q' s \<Rightarrow> good t' h q lo (Some s) \<and> good t' h q' s hi \<and> lo < s \<and> in_range lo hi s \<and> key_fits (t_page_size t) s \<and>
       in_pages t t' S h q \<and> in_pages t t' S h q' \<and> pages t' h q \<inter> pages t' h q' = {} \<and>
       contents t' True h q @ contents t' True h q' = kvs)"

lemma outcome_ok_weaken:
  assumes "outcome_ok t1 t' S' h lo hi kvs out" "S' \<subseteq> S \<union> fresh t t1" "grown c t t1 S''" "grown c' t1 t' S'''"
  shows "outcome_ok t t' S h lo hi kvs out"
proof -
  have "S' \<union> fresh t1 t' \<subseteq> S \<union> fresh t t'"
    using assms(2) grown_fresh_mono [OF assms(4), of t] grown_fresh_sub [OF assms(3), of t'] by blast
  then have "in_pages t1 t' S' h q \<Longrightarrow> in_pages t t' S h q" for q unfolding in_pages_def by blast
  then show ?thesis
    using assms(1) grown_base(1) [OF assms(3)] unfolding outcome_ok_def by (auto split: insert_outcome.splits)
qed

lemma entries_pages_append [simp]: "entries_pages t (xs @ ys) = entries_pages t xs \<union> entries_pages t ys"
  by (auto simp: entries_pages_def)

lemma entries_pages_Cons [simp]: "entries_pages t (x # xs) = value_pages t (evalue x) \<union> entries_pages t xs"
  by (auto simp: entries_pages_def)

lemma entries_pages_Nil [simp]: "entries_pages t [] = {}"
  by (simp add: entries_pages_def)

lemma entries_apart_append:
  "entries_apart t (xs @ ys) \<longleftrightarrow> entries_apart t xs \<and> entries_apart t ys \<and> entries_pages t xs \<inter> entries_pages t ys = {}"
  by (auto simp: entries_apart_def sorted_wrt_append entries_pages_def)

lemma entries_apart_Cons:
  "entries_apart t (x # xs) \<longleftrightarrow> value_pages t (evalue x) \<inter> entries_pages t xs = {} \<and> entries_apart t xs"
  by (auto simp: entries_apart_def entries_pages_def)

lemma leaf_wf_cut:
  assumes wf: "leaf_wf t p bs es lo hi" and m: "0 < m" "m < length es"
  defines "s \<equiv> entry_key bs (es ! m)"
  shows "leaf_wf t p bs (take m es) lo (Some s)" "leaf_wf t p bs (drop m es) s hi" "lo < s" "in_range lo hi s"
proof -
  have sorted: "keys_sorted (map (entry_key bs) es)"
    and ok: "\<forall>e \<in> set es. entry_ok bs e \<and> in_range lo hi (entry_key bs e) \<and> (\<exists>x. resolve_value_at t bs (evalue e) p = Ok x)"
    using wf by (simp_all add: leaf_wf_def)
  have nth: "entry_key bs (es ! a) < entry_key bs (es ! b)" if "a < b" "b < length es" for a b
    using sorted_nth_less [OF sorted that(1)] that by simp
  have "keys_sorted (map (entry_key bs) (take m es))" "keys_sorted (map (entry_key bs) (drop m es))"
    using sorted by (simp_all add: sorted_wrt_take sorted_wrt_drop flip: take_map drop_map)
  moreover have "entry_key bs e < s" if "e \<in> set (take m es)" for e
    using that m nth unfolding s_def by (auto simp: in_set_conv_nth)
  moreover have "s \<le> entry_key bs e" if e: "e \<in> set (drop m es)" for e
  proof -
    obtain j where "j < length (drop m es)" "e = drop m es ! j" using e unfolding in_set_conv_nth by blast
    then show ?thesis using nth [of m "m + j"] unfolding s_def by (cases "j = 0") (auto simp: less_imp_le)
  qed
  ultimately show "leaf_wf t p bs (take m es) lo (Some s)" "leaf_wf t p bs (drop m es) s hi"
    using ok unfolding leaf_wf_def in_range_def by (auto dest: in_set_takeD in_set_dropD)
  have m': "es ! m \<in> set es" "es ! 0 \<in> set es" using m by (intro nth_mem; linarith)+
  show "in_range lo hi s" using ok m'(1) by (simp add: s_def)
  have "lo \<le> entry_key bs (es ! 0)" using ok m'(2) by (auto simp: in_range_def)
  also have "\<dots> < s" using nth [OF m] by (simp add: s_def)
  finally show "lo < s" .
qed

lemma place_split_leaf:
  assumes wf: "leaf_wf t True bs es lo hi" and ok: "leaf_fits (t_page_size t) bs (take m es)" "leaf_fits (t_page_size t) bs (drop m es)"
    and m: "0 < m" "m < length es" and room: "room (t_pending_next t) 2" and b: "below t (insert pid (entries_pages t es))"
    and pid: "pid \<noteq> 0" "pid \<notin> entries_pages t es" and apart: "entries_apart t es"
    and t': "t' = rewritten_split t pid (Leaf bs (take m es)) (Leaf bs (drop m es))"
  shows "grown 2 t t' {pid}"
    "outcome_ok t t' (insert pid (entries_pages t es)) (Suc g) lo hi (map (\<lambda>e. (entry_key bs e, the_val t True bs e)) es)
      (Split (slot_id t pid) (slot_next t pid) (entry_key bs (es ! m)))"
proof -
  let ?L = "take m es" and ?R = "drop m es"
  have bp: "below t {pid}" "below t (entries_pages t es)" using b by (auto simp: below_def)
  have pf: "page_fits (t_page_size t) (Decoded (Leaf bs ?L))" "page_fits (t_page_size t) (Decoded (Leaf bs ?R))"
    using wf ok by (auto simp: page_fits_def leaf_wf_def leaf_fits_def dest: in_set_takeD in_set_dropD)
  note r = split_grown [OF room bp(1) t' pf]
  show "grown 2 t t' {pid}" by (rule r(1))
  have es: "entries_pages t es = entries_pages t ?L \<union> entries_pages t ?R" by (simp flip: entries_pages_append)
  have ap: "entries_apart t ?L" "entries_apart t ?R" "entries_pages t ?L \<inter> entries_pages t ?R = {}"
    using apart entries_apart_append [of t ?L ?R] by simp_all
  have ag: "agree t t' (entries_pages t es)" using grown_agree [OF r(1) _ bp(2)] pid by auto
  have aL: "agree t t' (entries_pages t ?L)" and aR: "agree t t' (entries_pages t ?R)" using ag es agree_subset by blast+
  have nz: "slot_id t pid \<noteq> 0" using room pid by (auto simp: slot_id_def room_def)
  have nl: "slot_id t pid \<notin> entries_pages t es" by (rule slot_fresh [OF r(5) pid(2) bp(2)])
  have nr: "slot_next t pid \<notin> entries_pages t es" using r(6) below_fresh [OF bp(2), of t'] by auto
  note cut = leaf_wf_cut [OF wf m] and ps = grown_base(1) [OF r(1)]
  have L: "node_at t' (slot_id t pid) True = Ok (Leaf bs ?L)" "leaf_wf t' True bs ?L lo (Some (entry_key bs (es ! m)))"
    "leaf_fits (t_page_size t') bs ?L" "slot_id t pid \<notin> entries_pages t' ?L" "entries_apart t' ?L"
    using r(3) agree_entries [OF aL] cut(1) ok(1) ps nl es ap(1) by simp_all
  have R: "node_at t' (slot_next t pid) True = Ok (Leaf bs ?R)" "leaf_wf t' True bs ?R (entry_key bs (es ! m)) hi"
    "leaf_fits (t_page_size t') bs ?R" "slot_next t pid \<notin> entries_pages t' ?R" "entries_apart t' ?R"
    using r(4) agree_entries [OF aR] cut(2) ok(2) ps nr es ap(2) by simp_all
  note pL = place_leaf [OF L(1) nz L(2-), of g] and pR = place_leaf [OF R(1) r(7) R(2-), of g]
  have "key_fits (t_page_size t) (entry_key bs (es ! m))"
    using ok(2) m(2) by (auto simp: leaf_fits_def simp flip: Cons_nth_drop_Suc)
  moreover have "in_pages t t' (insert pid (entries_pages t es)) (Suc g) (slot_id t pid)"
    "in_pages t t' (insert pid (entries_pages t es)) (Suc g) (slot_next t pid)"
    using pL(2) pR(2) agree_entries(2) [OF aL] agree_entries(2) [OF aR] r(5,6) es by (auto simp: in_pages_def)
  moreover have "pages t' (Suc g) (slot_id t pid) \<inter> pages t' (Suc g) (slot_next t pid) = {}"
    using pL(2) pR(2) agree_entries(2) [OF aL] agree_entries(2) [OF aR] r(2) nl nr es ap(3) by auto
  moreover have "contents t' True (Suc g) (slot_id t pid) @ contents t' True (Suc g) (slot_next t pid) =
      map (\<lambda>e. (entry_key bs e, the_val t True bs e)) es"
    using pL(3) pR(3) agree_entries(3) [OF aL] agree_entries(3) [OF aR] by (simp flip: map_append)
  ultimately show "outcome_ok t t' (insert pid (entries_pages t es)) (Suc g) lo hi
      (map (\<lambda>e. (entry_key bs e, the_val t True bs e)) es) (Split (slot_id t pid) (slot_next t pid) (entry_key bs (es ! m)))"
    using pL(1) pR(1) cut(3,4) by (simp add: outcome_ok_def)
qed

lemma place_split_internal:
  assumes ok: "kids_ok t g bs l cs lo hi" and fits: "header_size + cells_total (sep_len bs) (take m cs) \<le> t_page_size t"
      "header_size + cells_total (sep_len bs) (drop (Suc m) cs) \<le> t_page_size t"
    and m: "0 < m" "m < length cs" and room: "room (t_pending_next t) 2" and b: "below t (insert pid (kids_pages t g l cs))"
    and pid: "pid \<noteq> 0" "pid \<notin> kids_pages t g l cs"
    and t': "t' = rewritten_split t pid (Internal bs l (take m cs)) (Internal bs (schild (cs ! m)) (drop (Suc m) cs))"
  shows "grown 2 t t' {pid}"
    "outcome_ok t t' (insert pid (kids_pages t g l cs)) (Suc g) lo hi (kids_contents t g l cs)
      (Split (slot_id t pid) (slot_next t pid) (sep_key bs (cs ! m)))"
proof -
  let ?L = "take m cs" and ?R = "drop (Suc m) cs" and ?r = "schild (cs ! m)" and ?s = "sep_key bs (cs ! m)"
  have bp: "below t {pid}" "below t (kids_pages t g l cs)" using b by (auto simp: below_def)
  have pf: "page_fits (t_page_size t) (Decoded (Internal bs l ?L))" "page_fits (t_page_size t) (Decoded (Internal bs ?r ?R))"
    using ok fits by (auto simp: page_fits_def kids_ok_def seps_wf_def dest: in_set_takeD in_set_dropD)
  note r = split_grown [OF room bp(1) t' pf] and cut = kids_cut [OF ok m(2)]
  show "grown 2 t t' {pid}" by (rule r(1))
  have ag: "agree t t' (kids_pages t g l cs)" using grown_agree [OF r(1) _ bp(2)] pid by auto
  note aL = agree_subset [OF ag cut(3)] and aR = agree_subset [OF ag cut(4)]
  have nz: "slot_id t pid \<noteq> 0" using room pid by (auto simp: slot_id_def room_def)
  have nl: "slot_id t pid \<notin> kids_pages t g l cs" by (rule slot_fresh [OF r(5) pid(2) bp(2)])
  have nr: "slot_next t pid \<notin> kids_pages t g l cs" using r(6) below_fresh [OF bp(2), of t'] by auto
  note ps = grown_base(1) [OF r(1)] and fL = kids_frame [OF aL] and fR = kids_frame [OF aR]
  have L: "kids_ok t' g bs l ?L lo (Some ?s)" "node_at t' (slot_id t pid) True = Ok (Internal bs l ?L)"
    "header_size + cells_total (sep_len bs) ?L \<le> t_page_size t'" "slot_id t pid \<notin> kids_pages t' g l ?L"
    using r(3) fL cut(1,3) fits(1) ps nl by auto
  have R: "kids_ok t' g bs ?r ?R ?s hi" "node_at t' (slot_next t pid) True = Ok (Internal bs ?r ?R)"
    "header_size + cells_total (sep_len bs) ?R \<le> t_page_size t'" "slot_next t pid \<notin> kids_pages t' g ?r ?R"
    using r(4) fR cut(2,4) fits(2) ps nr by auto
  note pL = place_internal [OF L(1,2) nz L(3,4)] and pR = place_internal [OF R(1,2) r(7) R(3,4)]
  have "cs ! m \<in> set cs" using m(2) by simp
  then have "key_fits (t_page_size t) ?s" using ok by (simp add: kids_ok_def)
  moreover have "in_pages t t' (insert pid (kids_pages t g l cs)) (Suc g) (slot_id t pid)"
    "in_pages t t' (insert pid (kids_pages t g l cs)) (Suc g) (slot_next t pid)"
    unfolding in_pages_def pL(2) pR(2) fL(2) fR(2) using r(5,6) cut(3,4) by auto
  moreover have "pages t' (Suc g) (slot_id t pid) \<inter> pages t' (Suc g) (slot_next t pid) = {}"
    unfolding pL(2) pR(2) fL(2) fR(2) using r(2) nl nr cut(3-5) by auto
  moreover have "contents t' True (Suc g) (slot_id t pid) @ contents t' True (Suc g) (slot_next t pid) = kids_contents t g l cs"
    unfolding pL(3) pR(3) fL(3) fR(3) by (rule cut(6))
  ultimately show "outcome_ok t t' (insert pid (kids_pages t g l cs)) (Suc g) lo hi (kids_contents t g l cs)
      (Split (slot_id t pid) (slot_next t pid) ?s)"
    using pL(1) pR(1) cut(7) cut(8) [OF m(1)] by (simp add: outcome_ok_def)
qed

section \<open>Splitting pages\<close>

lemma split_leaf_spec:
  assumes m: "leaf_split_point bs es (t_page_size t) = Ok m" "m < length es" and ok: "\<forall>e \<in> set es. key_ok bs (ekey e)"
    and room: "room (t_pending_next t) 2" and b: "below t {pid}" and reuse: "\<not> t_reuse_enabled t"
  shows "split_leaf d (t\<lparr>t_dirty := (t_dirty t)(pid := None)\<rparr>) pid (t_dirty t pid \<noteq> None) bs es =
    Ok (Split (slot_id t pid) (slot_next t pid) (entry_key bs (es ! m)),
      rewritten_split t pid (Leaf bs (take m es)) (Leaf bs (drop m es)))"
proof -
  have ne: "slot_id t pid \<noteq> slot_next t pid" by (rule slots_differ [OF room b])
  have "key_bytes bs (ekey (es ! m)) = Ok (entry_key bs (es ! m))" using ok m(2) by (simp add: key_bytes_ok)
  then show ?thesis
    using m ne reuse slot_for_spec [OF reuse, of d pid]
    by (simp add: split_leaf_def reserve_split_spec split_off_def index_at_in rewritten_split_def put_page_def)
qed

lemma split_internal_spec:
  assumes m: "internal_split_point bs cs (t_page_size t) = Ok m" "m < length cs" and ok: "\<forall>c \<in> set cs. sep_ok bs c"
    and room: "room (t_pending_next t) 2" and b: "below t {pid}" and reuse: "\<not> t_reuse_enabled t"
  shows "split_internal d (t\<lparr>t_dirty := (t_dirty t)(pid := None)\<rparr>) pid (t_dirty t pid \<noteq> None) bs l cs =
    Ok (Split (slot_id t pid) (slot_next t pid) (sep_key bs (cs ! m)),
      rewritten_split t pid (Internal bs l (take m cs)) (Internal bs (schild (cs ! m)) (drop (Suc m) cs)))"
proof -
  have ne: "slot_id t pid \<noteq> slot_next t pid" by (rule slots_differ [OF room b])
  have "key_bytes bs (skey (cs ! m)) = Ok (sep_key bs (cs ! m))" using ok m(2) by (simp add: key_bytes_ok sep_ok_def)
  then show ?thesis
    using m ne reuse slot_for_spec [OF reuse, of d pid]
    by (simp add: split_internal_def reserve_split_spec split_off_def index_at_in rewritten_split_def put_page_def tl_drop drop_Suc)
qed

lemma leaf_size_total:
  assumes "\<forall>e \<in> set es. key_ok bs (ekey e)"
  shows "leaf_size bs es = Ok (header_size + cells_total (entry_len bs) es)"
  unfolding leaf_size_def using assms by (intro cells_size_total) (simp add: entry_size_def entry_len_def key_bytes_ok)

lemma internal_size_total:
  assumes "\<forall>c \<in> set cs. sep_ok bs c"
  shows "internal_size bs cs = Ok (header_size + cells_total (sep_len bs) cs)"
  unfolding internal_size_def using assms
  by (intro cells_size_total) (simp add: separator_size_def sep_len_def key_bytes_ok sep_ok_def)

text \<open>An overfull node has at least two cells, since each fits in half a page.\<close>

lemma overfull_two:
  assumes "ps < header_size + cells_total f cs" "\<And>c. c \<in> set cs \<Longrightarrow> header_size + slot_size + f c \<le> ps div 2" "header_size \<le> ps"
  shows "2 \<le> length cs"
proof (rule ccontr)
  assume "\<not> 2 \<le> length cs"
  then consider "cs = []" | c where "cs = [c]" by (cases cs; cases "tl cs") auto
  then show False using assms by cases (auto dest!: meta_spec)
qed

lemma leaf_halves:
  assumes ok: "\<forall>e \<in> set es. key_ok bs (ekey e)" and over: "ps < header_size + cells_total (entry_len bs) es"
    and half: "\<forall>e \<in> set es. key_fits ps (entry_key bs e) \<and> header_size + slot_size + entry_len bs e \<le> ps div 2"
    and slack: "2 * header_size + cells_total (entry_len bs) es \<le> ps + ps div 2"
  obtains m where "leaf_split_point bs es ps = Ok m" "0 < m" "m < length es" "leaf_fits ps bs (take m es)" "leaf_fits ps bs (drop m es)"
proof -
  have sz: "e \<in> set es \<Longrightarrow> entry_size bs e = Ok (entry_len bs e)" for e
    using ok by (simp add: entry_size_def entry_len_def key_bytes_ok)
  have "header_size \<le> ps" using slack over by linarith
  then have two: "2 \<le> length es" using overfull_two [OF over] half by blast
  from split_point_halves [of es "entry_size bs" "entry_len bs", OF sz _ two slack] half
  obtain m where "split_point ps es (entry_size bs) = Ok m" "0 < m" "m < length es"
    "header_size + cells_total (entry_len bs) (take m es) \<le> ps" "header_size + cells_total (entry_len bs) (drop m es) \<le> ps" by blast
  then show ?thesis
    using half by (intro that) (auto simp: leaf_split_point_def leaf_fits_def dest: in_set_takeD in_set_dropD)
qed

lemma internal_halves:
  assumes ok: "\<forall>c \<in> set cs. sep_ok bs c" and over: "ps < header_size + cells_total (sep_len bs) cs"
    and half: "\<forall>c \<in> set cs. key_fits ps (sep_key bs c)" and slack: "2 * header_size + cells_total (sep_len bs) cs \<le> ps + ps div 2"
  obtains m where "internal_split_point bs cs ps = Ok m" "0 < m" "m < length cs"
    "header_size + cells_total (sep_len bs) (take m cs) \<le> ps" "header_size + cells_total (sep_len bs) (drop (Suc m) cs) \<le> ps"
proof -
  have sz: "c \<in> set cs \<Longrightarrow> separator_size bs c = Ok (sep_len bs c)" for c
    using ok by (simp add: separator_size_def sep_len_def key_bytes_ok sep_ok_def)
  have hf: "c \<in> set cs \<Longrightarrow> header_size + slot_size + sep_len bs c \<le> ps div 2" for c
    using half by (auto simp: key_fits_def sep_len_def internal_cell_size_def page_consts)
  have "header_size \<le> ps" using slack over by linarith
  then have two: "2 \<le> length cs" using overfull_two [OF over hf] by blast
  from split_point_halves [of cs "separator_size bs" "sep_len bs", OF sz hf two slack]
  obtain m where m: "split_point ps cs (separator_size bs) = Ok m" "0 < m" "m < length cs"
    "header_size + cells_total (sep_len bs) (take m cs) \<le> ps" "header_size + cells_total (sep_len bs) (drop m cs) \<le> ps" by blast
  have "drop m cs = cs ! m # drop (Suc m) cs" using m(3) by (simp add: Cons_nth_drop_Suc)
  then show ?thesis using m by (intro that) (auto simp: internal_split_point_def)
qed

end
