(* ===== verification/Tree_Insert.thy ===== *)
theory Tree_Insert
  imports Tree_Place
begin

text \<open>
  Insertion on well-formed trees: it returns, keeps the tree well formed, writes only pages of
  the tree and new pages, and binds exactly the given key.
\<close>

section \<open>Inserting into a leaf\<close>

lemma store_value_grown:
  assumes "\<not> t_reuse_enabled t" "key_fits (t_page_size t) k" "value_storable (t_page_size t) v"
    "room (t_pending_next t) (chain_count (t_page_size t) v)"
  obtains r t1 where "store_value d t k v = Ok (r, t1)" "grown (chain_count (t_page_size t) v) t t1 {}"
    "\<And>bs. resolve_value_at t1 bs r True = Ok v" "\<And>bs. value_ok bs r" "value_pages t1 r \<subseteq> fresh t t1"
    "header_size + slot_size + leaf_cell_size k r \<le> t_page_size t div 2"
proof -
  let ?c = "if inline_entry_fits (t_page_size t) k v then 0 else chain_count (t_page_size t) v"
  obtain r D n where s: "store_value d t k v = Ok (r, t\<lparr>t_dirty := D, t_pending_next := n\<rparr>)"
    "n = t_pending_next t + of_nat ?c" "\<forall>q. \<not> (t_pending_next t \<le> q \<and> q < n) \<longrightarrow> D q = t_dirty t q"
    "\<forall>bs. resolve_value_at (t\<lparr>t_dirty := D, t_pending_next := n\<rparr>) bs r True = Ok v \<and> value_ok bs r"
    "value_pages (t\<lparr>t_dirty := D, t_pending_next := n\<rparr>) r \<subseteq> {q. t_pending_next t \<le> q \<and> q < n}"
    "header_size + slot_size + leaf_cell_size k r \<le> t_page_size t div 2"
    "\<forall>q p. D q = Some p \<longrightarrow> t_dirty t q = Some p \<or> page_fits (t_page_size t) p"
    using store_value_spec [OF assms] by blast
  have u: "unat n = unat (t_pending_next t) + ?c" using room_unat [OF room_less [OF assms(4), of ?c]] s(2) by simp
  show ?thesis
  proof (rule that [OF s(1)])
    show "grown (chain_count (t_page_size t) v) t (t\<lparr>t_dirty := D, t_pending_next := n\<rparr>) {}"
      using u s(3,7) by (auto simp: grown_def fresh_def word_le_nat_alt)
  qed (use s(4-) in \<open>auto simp: fresh_def\<close>)
qed

lemma leaf_wf_parts:
  assumes wf: "leaf_wf t True bs (A @ M @ B) lo hi" and A: "\<forall>e \<in> set A. entry_key bs e < k" and B: "\<forall>e \<in> set B. k < entry_key bs e"
    and x: "entry_key bs x = k" "key_ok bs (ekey x)" "value_ok bs (evalue x)" "resolve_value_at t bs (evalue x) True = Ok v" "in_range lo hi k"
  shows "leaf_wf t True bs (A @ x # B) lo hi" "leaf_wf t True bs (A @ B) lo hi"
  using assms by (auto simp: leaf_wf_def sorted_wrt_append entry_ok_def)

lemma leaf_sizes_parts:
  assumes fits: "leaf_fits ps bs (A @ M @ B)" and x: "key_fits ps (entry_key bs x)" "header_size + slot_size + entry_len bs x \<le> ps div 2"
  shows "\<forall>e \<in> set (A @ x # B). key_fits ps (entry_key bs e) \<and> header_size + slot_size + entry_len bs e \<le> ps div 2"
    "2 * header_size + cells_total (entry_len bs) (A @ x # B) \<le> ps + ps div 2" "leaf_fits ps bs (A @ B)"
  using assms by (auto simp: leaf_fits_def)

lemma insert_leaf_spec:
  assumes n: "node_at t pid True = Ok (Leaf bs es)" and wf: "leaf_wf t True bs es lo hi" and fits: "leaf_fits (t_page_size t) bs es"
    and pid: "pid \<noteq> 0" "pid \<notin> entries_pages t es" and apart: "entries_apart t es" and k: "in_range lo hi k" "key_fits (t_page_size t) k"
    and v: "value_storable (t_page_size t) v" and reuse: "\<not> t_reuse_enabled t" and b: "below t (insert pid (entries_pages t es))"
    and room: "room (t_pending_next t) (chain_count (t_page_size t) v + 2)"
  shows "\<exists>out t'. insert_leaf d t pid k v = Ok (out, t') \<and> grown (chain_count (t_page_size t) v + 2) t t' (insert pid (entries_pages t es)) \<and>
    outcome_ok t t' (insert pid (entries_pages t es)) (Suc g) lo hi (upd k v (map (\<lambda>e. (entry_key bs e, the_val t True bs e)) es)) out"
proof -
  let ?S = "insert pid (entries_pages t es)" and ?c = "chain_count (t_page_size t) v"
  obtain r t1 where st: "store_value d t k v = Ok (r, t1)" "grown ?c t t1 {}" "\<And>bs. resolve_value_at t1 bs r True = Ok v"
    "\<And>bs. value_ok bs r" "value_pages t1 r \<subseteq> fresh t t1" "header_size + slot_size + leaf_cell_size k r \<le> t_page_size t div 2"
    using store_value_grown [OF reuse k(2) v room_less [OF room]] by (metis le_add1)
  note base = grown_base [OF st(2)]
  have room1: "room (t_pending_next t1) 2" by (rule grown_room [OF st(2) room])
  have ag: "agree t t1 ?S" using grown_agree [OF st(2) _ b] by simp
  note e1 = agree_entries [OF agree_subset [OF ag subset_insertI]]
  have n1: "node_at t1 pid True = Ok (Leaf bs es)" using agree_node [OF ag, of pid] n by simp
  have wf1: "leaf_wf t1 True bs es lo hi" using e1(1) wf by simp
  then have ok: "\<forall>e \<in> set es. key_ok bs (ekey e)" "keys_sorted (map (entry_key bs) es)" by (auto simp: leaf_wf_def entry_ok_def)
  obtain A M B x ch where u: "update_entries bs es k r = Ok (A @ x # B, ch)" "es = A @ M @ B"
    "\<forall>e \<in> set A. entry_key bs e < k" "\<forall>e \<in> set B. k < entry_key bs e" "\<forall>e \<in> set M. entry_key bs e = k"
    "entry_key bs x = k" "key_ok bs (ekey x)" "evalue x = r"
    using update_entries_parts [OF ok] .
  let ?es = "A @ x # B"
  have vx: "value_ok bs (evalue x)" "resolve_value_at t1 bs (evalue x) True = Ok v" using st(3,4) u(8) by simp_all
  have wf': "leaf_wf t1 True bs ?es lo hi" using leaf_wf_parts(1) [OF wf1 [unfolded u(2)] u(3,4,6,7) vx k(1)] .
  then have ok': "\<forall>e \<in> set ?es. key_ok bs (ekey e)" by (auto simp: leaf_wf_def entry_ok_def)
  have "header_size + slot_size + entry_len bs x \<le> t_page_size t div 2" using st(6) u(6,8) by (simp add: entry_len_def)
  note sizes = leaf_sizes_parts [OF fits [unfolded u(2)] k(2) [folded u(6)] this]
  have pg: "entries_pages t1 ?es \<subseteq> entries_pages t es \<union> fresh t t1" using e1(2) st(5) u(2,8) by auto
  have bf: "entries_pages t es \<inter> fresh t t1 = {}" "pid \<notin> fresh t t1" using below_fresh [OF b, of t1] by auto
  have pid1: "pid \<notin> entries_pages t1 ?es" using pg pid(2) bf(2) by auto
  have ap1: "entries_apart t1 ?es"
    using e1(2,4) apart bf(1) st(5) u(2,8) by (auto simp: entries_apart_append entries_apart_Cons)
  have b1: "below t1 (insert pid (entries_pages t1 ?es))"
    by (rule below_mono [OF below_grown [OF b st(2)]]) (use pg in auto)
  have kvs: "map (\<lambda>e. (entry_key bs e, the_val t1 True bs e)) ?es = upd k v (map (\<lambda>e. (entry_key bs e, the_val t True bs e)) es)"
  proof -
    have "the_val t1 True bs x = v" using vx(2) by (simp add: the_val_def)
    then show ?thesis unfolding e1(3) [symmetric] unfolding u(2) unfolding leaf_upd(1) [OF u(3-5)] using u(6) by simp
  qed
  have fit: "?es \<noteq> []" "\<not> t_reuse_enabled t1" "below t1 {pid}" using reuse base(2) b1 by (auto simp: below_def)
  have fin: "\<exists>out t'. insert_leaf d t pid k v = Ok (out, t') \<and> grown (?c + 2) t t' ?S \<and>
      outcome_ok t t' ?S (Suc g) lo hi (upd k v (map (\<lambda>e. (entry_key bs e, the_val t True bs e)) es)) out"
    if i: "insert_leaf d t pid k v = Ok (out, t')" and g: "grown 2 t1 t' {pid}"
      and o: "outcome_ok t1 t' (insert pid (entries_pages t1 ?es)) (Suc g) lo hi
        (map (\<lambda>e. (entry_key bs e, the_val t1 True bs e)) ?es) out" for out t'
  proof (intro exI conjI)
    show "grown (?c + 2) t t' ?S" by (rule grown_trans [OF grown_mono [OF st(2)] g]) auto
    show "outcome_ok t t' ?S (Suc g) lo hi (upd k v (map (\<lambda>e. (entry_key bs e, the_val t True bs e)) es)) out"
      unfolding kvs [symmetric] by (rule outcome_ok_weaken [OF o _ st(2) g]) (use pg in auto)
  qed (rule i)
  note step = insert_leaf_def st(1) take_node_spec [OF n1] u(1) leaf_size_total [OF ok'] free_overflow_chain_def
  show ?thesis
  proof (cases "header_size + cells_total (entry_len bs) ?es \<le> t_page_size t1")
    case True
    have lf: "leaf_fits (t_page_size t1) bs ?es" using True sizes(1) base(1) by (simp add: leaf_fits_def)
    note p = place_rewritten_leaf [OF wf' lf room_less [OF room1] b1 pid(1) pid1 ap1 refl]
    have "insert_leaf d t pid k v = Ok (Replaced (slot_id t1 pid), rewritten t1 pid (Leaf bs ?es))"
      using True slot_for_spec [OF fit(2), of d pid] fit(2)
      by (simp add: step rewritten_def put_page_def split: option.splits)
    then show ?thesis
      by (rule fin) (use p in \<open>auto simp: outcome_ok_def in_pages_def intro: grown_mono\<close>)
  next
    case False
    obtain m where m: "leaf_split_point bs ?es (t_page_size t1) = Ok m" "0 < m" "m < length ?es"
      "leaf_fits (t_page_size t1) bs (take m ?es)" "leaf_fits (t_page_size t1) bs (drop m ?es)"
      using leaf_halves [OF ok', of "t_page_size t1"] False sizes base(1) by auto
    note p = place_split_leaf [OF wf' m(4,5,2,3) room1 b1 pid(1) pid1 ap1 refl]
    have "insert_leaf d t pid k v = Ok (Split (slot_id t1 pid) (slot_next t1 pid) (entry_key bs (?es ! m)),
        rewritten_split t1 pid (Leaf bs (take m ?es)) (Leaf bs (drop m ?es)))"
      using False split_leaf_spec [OF m(1,3) ok' room1 fit(3,2), of d] reuse fit(2) grown_base(2) [OF p(1)]
      by (simp add: step split: option.splits)
    then show ?thesis by (rule fin) (rule p)+
  qed
qed

section \<open>Inserting below an internal node\<close>

lemma write_internal:
  assumes ok: "kids_ok t g bs l cs lo hi" and b: "below t (insert pid (kids_pages t g l cs))" and pid: "pid \<noteq> 0" "pid \<notin> kids_pages t g l cs"
    and reuse: "\<not> t_reuse_enabled t" and room: "room (t_pending_next t) 2"
    and slack: "2 * header_size + cells_total (sep_len bs) cs \<le> t_page_size t + t_page_size t div 2"
  shows "\<exists>out t'. (if header_size + cells_total (sep_len bs) cs \<le> t_page_size t
      then rbind (slot_for d (t\<lparr>t_dirty := (t_dirty t)(pid := None)\<rparr>) pid (t_dirty t pid \<noteq> None)) (\<lambda>(new_id, t).
        Ok (Replaced new_id, put_page t new_id (Decoded (Internal bs l cs))))
      else split_internal d (t\<lparr>t_dirty := (t_dirty t)(pid := None)\<rparr>) pid (t_dirty t pid \<noteq> None) bs l cs) = Ok (out, t') \<and>
    grown 2 t t' {pid} \<and> outcome_ok t t' (insert pid (kids_pages t g l cs)) (Suc g) lo hi (kids_contents t g l cs) out \<and>
    (header_size + cells_total (sep_len bs) cs \<le> t_page_size t \<longrightarrow>
      (out, t') = (Replaced (slot_id t pid), rewritten t pid (Internal bs l cs)))"
proof (cases "header_size + cells_total (sep_len bs) cs \<le> t_page_size t")
  case True
  note p = place_rewritten_internal [OF ok True room_less [OF room] b pid refl]
  show ?thesis
    using True slot_for_spec [OF reuse, of d pid] p
    by (intro exI [of _ "Replaced (slot_id t pid)"] exI [of _ "rewritten t pid (Internal bs l cs)"])
      (auto simp: rewritten_def outcome_ok_def in_pages_def intro: grown_mono)
next
  case False
  have seps: "\<forall>c \<in> set cs. sep_ok bs c" "\<forall>c \<in> set cs. key_fits (t_page_size t) (sep_key bs c)"
    using ok by (auto simp: kids_ok_def seps_wf_def)
  obtain m where m: "internal_split_point bs cs (t_page_size t) = Ok m" "0 < m" "m < length cs"
    "header_size + cells_total (sep_len bs) (take m cs) \<le> t_page_size t" "header_size + cells_total (sep_len bs) (drop (Suc m) cs) \<le> t_page_size t"
    using internal_halves [OF seps(1), of "t_page_size t"] False slack seps(2) by auto
  have bp: "below t {pid}" using b by (auto simp: below_def)
  from place_split_internal [OF ok m(4,5,2,3) room b pid refl] split_internal_spec [OF m(1,3) seps(1) room bp reuse]
  show ?thesis using False by simp
qed

lemma absorbed_slack:
  assumes "header_size + cells_total (sep_len bs) cs \<le> ps" "key_fits ps s" "i \<le> length cs"
  shows "2 * header_size + cells_total (sep_len bs) (ins_cell (replaced_cells cs i q) i \<lparr>skey = Owned_Key s, schild = q'\<rparr>) \<le> ps + ps div 2"
proof -
  let ?R = "replaced_cells cs i q"
  have "cells_total (sep_len bs) (take i ?R) + cells_total (sep_len bs) (drop i ?R) = cells_total (sep_len bs) cs"
    by (simp only: cells_total_split replaced_seps(2))
  moreover have "header_size + slot_size + sep_len bs \<lparr>skey = Owned_Key s, schild = q'\<rparr> \<le> ps div 2"
    using assms(2) by (simp add: sep_len_def the_key_def key_fits_def internal_cell_size_def page_consts)
  ultimately show ?thesis using assms(1) by (simp add: ins_cell_def)
qed

text \<open>The parent's step, after the insertion below child \<open>i\<close> returned \<open>out\<close>.\<close>

lemma insert_internal_spec:
  assumes n: "node_at t pid True = Ok (Internal bs l cs)" and ok: "kids_ok t g bs l cs lo hi"
    and fits: "header_size + cells_total (sep_len bs) cs \<le> t_page_size t" and pid: "pid \<noteq> 0" "pid \<notin> kids_pages t g l cs"
    and b: "below t (insert pid (kids_pages t g l cs))" and i: "i \<le> length cs" "in_range (klo bs lo cs i) (khi bs hi cs i) k"
    and k: "key_fits (t_page_size t) k" and g1: "grown c t t1 (pages t g (kid l cs i))" and reuse: "\<not> t_reuse_enabled t" and room: "room (t_pending_next t) (c + 2)"
    and o: "outcome_ok t t1 (pages t g (kid l cs i)) g (klo bs lo cs i) (khi bs hi cs i) (upd k v (contents t True g (kid l cs i))) out"
  shows "\<exists>out' t'. insert_internal d t1 pid i out = Ok (out', t') \<and> grown (c + 2) t t' (insert pid (kids_pages t g l cs)) \<and>
    outcome_ok t t' (insert pid (kids_pages t g l cs)) (Suc g) lo hi (upd k v (kids_contents t g l cs)) out'"
proof -
  let ?S = "insert pid (kids_pages t g l cs)"
  have bk: "below t (kids_pages t g l cs)" and bp: "below t {pid}" using b by (auto simp: below_def)
  have kp: "pages t g (kid l cs i) \<subseteq> kids_pages t g l cs" using i(1) by (auto simp: kids_pages_def)
  have ag: "agree t t1 {pid}" using grown_agree [OF g1 _ bp] kp pid(2) by auto
  have n1: "node_at t1 pid True = Ok (Internal bs l cs)" using agree_node [OF ag] n by simp
  note base = grown_base [OF g1]
  have reuse1: "\<not> t_reuse_enabled t1" and room1: "room (t_pending_next t1) 2" using reuse base(2) grown_room [OF g1 room] by auto
  have np: "pid \<notin> fresh t t1" using below_fresh [OF bp, of t1] by auto
  text \<open>Any new cells whose children lie in the old and the new pages.\<close>
  have fin: ?thesis
    if ok': "kids_ok t1 g bs l' cs' lo hi" and kp': "kids_pages t1 g l' cs' \<subseteq> kids_pages t g l cs \<union> fresh t t1"
      and kc: "kids_contents t1 g l' cs' = upd k v (kids_contents t g l cs)"
      and sl: "2 * header_size + cells_total (sep_len bs) cs' \<le> t_page_size t1 + t_page_size t1 div 2"
      and eq: "insert_internal d t1 pid i out = (if header_size + cells_total (sep_len bs) cs' \<le> t_page_size t1
          then rbind (slot_for d (t1\<lparr>t_dirty := (t_dirty t1)(pid := None)\<rparr>) pid (t_dirty t1 pid \<noteq> None)) (\<lambda>(new_id, t).
            Ok (Replaced new_id, put_page t new_id (Decoded (Internal bs l' cs'))))
          else split_internal d (t1\<lparr>t_dirty := (t_dirty t1)(pid := None)\<rparr>) pid (t_dirty t1 pid \<noteq> None) bs l' cs')" for l' cs'
  proof -
    have b1: "below t1 (insert pid (kids_pages t1 g l' cs'))" by (rule below_mono [OF below_grown [OF b g1]]) (use kp' in auto)
    have pid1: "pid \<notin> kids_pages t1 g l' cs'" using kp' pid(2) np by auto
    obtain out' t' where w: "insert_internal d t1 pid i out = Ok (out', t')" "grown 2 t1 t' {pid}"
      "outcome_ok t1 t' (insert pid (kids_pages t1 g l' cs')) (Suc g) lo hi (kids_contents t1 g l' cs') out'"
      using write_internal [OF ok' b1 pid(1) pid1 reuse1 room1 sl, of d] unfolding eq by blast
    have "grown (c + 2) t t' ?S" by (rule grown_trans [OF grown_mono [OF g1] w(2)]) (use kp in auto)
    moreover have "outcome_ok t t' ?S (Suc g) lo hi (upd k v (kids_contents t g l cs)) out'"
      unfolding kc [symmetric] by (rule outcome_ok_weaken [OF w(3) _ g1 w(2)]) (use kp' in auto)
    ultimately show ?thesis using w(1) by blast
  qed
  show ?thesis
  proof (cases out)
    case (Replaced q)
    then have q: "good t1 g q (klo bs lo cs i) (khi bs hi cs i)" "pages t1 g q \<subseteq> pages t g (kid l cs i) \<union> fresh t t1"
      "contents t1 True g q = upd k v (contents t True g (kid l cs i))"
      using o by (simp_all add: outcome_ok_def in_pages_def)
    note r = kids_replaced [OF ok i(1) g1 bk q(1,2)]
    have sz: "header_size + cells_total (sep_len bs) (replaced_cells cs i q) \<le> t_page_size t1" using fits base(1) by (simp add: replaced_seps(2))
    show ?thesis
    proof (rule fin [OF r(1,2)])
      show "kids_contents t1 g (replaced_left l i q) (replaced_cells cs i q) = upd k v (kids_contents t g l cs)"
        using r(3) q(3) kids_upd(1) [OF ok i, of v] by simp
      show "2 * header_size + cells_total (sep_len bs) (replaced_cells cs i q) \<le> t_page_size t1 + t_page_size t1 div 2"
        using sz k base(1) by (simp add: key_fits_def page_consts)
    qed (use sz in \<open>simp add: insert_internal_def take_node_spec [OF n1] Replaced replace_child_spec [OF i(1)]\<close>)
  next
    case (Split q q' s)
    then have q: "good t1 g q (klo bs lo cs i) (Some s)" "good t1 g q' s (khi bs hi cs i)" "klo bs lo cs i < s"
      "in_range (klo bs lo cs i) (khi bs hi cs i) s" "key_fits (t_page_size t) s"
      "pages t1 g q \<subseteq> pages t g (kid l cs i) \<union> fresh t t1" "pages t1 g q' \<subseteq> pages t g (kid l cs i) \<union> fresh t t1"
      "pages t1 g q \<inter> pages t1 g q' = {}" "contents t1 True g q @ contents t1 True g q' = upd k v (contents t True g (kid l cs i))"
      using o by (simp_all add: outcome_ok_def in_pages_def)
    note r = kids_absorbed [OF ok i(1) g1 bk q(1-8)]
    have "\<forall>c \<in> set (ins_cell (replaced_cells cs i q) i \<lparr>skey = Owned_Key s, schild = q'\<rparr>). sep_ok bs c"
      using r(1) unfolding kids_ok_def seps_wf_def by blast
    note sz = internal_size_total [OF this]
    show ?thesis
    proof (rule fin [OF r(1,2)])
      show "kids_contents t1 g (replaced_left l i q) (ins_cell (replaced_cells cs i q) i \<lparr>skey = Owned_Key s, schild = q'\<rparr>) =
          upd k v (kids_contents t g l cs)"
        using r(3) q(9) kids_upd(1) [OF ok i, of v] by simp
      show "2 * header_size + cells_total (sep_len bs) (ins_cell (replaced_cells cs i q) i \<lparr>skey = Owned_Key s, schild = q'\<rparr>) \<le>
          t_page_size t1 + t_page_size t1 div 2"
        using absorbed_slack [OF fits q(5) i(1)] base(1) by simp
    qed (simp add: insert_internal_def take_node_spec [OF n1] Split absorb_split_spec [OF i(1)] sz)
  qed
qed

section \<open>The recursion\<close>

lemma insert_empty_spec:
  assumes k: "in_range lo hi k" "key_fits (t_page_size t) k" and v: "value_storable (t_page_size t) v" and reuse: "\<not> t_reuse_enabled t"
    and room: "room (t_pending_next t) (chain_count (t_page_size t) v + 2)"
  shows "\<exists>out t'. insert_into (Suc d) t 0 k v = Ok (out, t') \<and> grown (chain_count (t_page_size t) v + 2) t t' {} \<and>
    outcome_ok t t' {} (Suc g) lo hi [(k, v)] out"
proof -
  let ?c = "chain_count (t_page_size t) v"
  obtain r t1 where st: "store_value (Suc d) t k v = Ok (r, t1)" "grown ?c t t1 {}" "\<And>bs. resolve_value_at t1 bs r True = Ok v"
    "\<And>bs. value_ok bs r" "value_pages t1 r \<subseteq> fresh t t1" "header_size + slot_size + leaf_cell_size k r \<le> t_page_size t div 2"
    using store_value_grown [OF reuse k(2) v room_less [OF room]] by (metis le_add1)
  note base = grown_base [OF st(2)]
  have room1: "room (t_pending_next t1) 1" using grown_room [OF st(2) room] room_less by simp
  let ?x = "\<lparr>ekey = Owned_Key k, evalue = r\<rparr>" and ?q = "t_pending_next t1"
  let ?t = "put_page (t1\<lparr>t_pending_next := ?q + 1\<rparr>) ?q (Decoded (Leaf [] [?x]))"
  note nx = next_succ [OF room1]
  have "page_fits (t_page_size t1) (Decoded (Leaf [] [?x]))"
    using st(4,6) base(1) by (simp add: page_fits_def entry_ok_def key_ok_def entry_len_def the_key_def)
  then have g1: "grown 1 t1 ?t {}" using nx by (auto simp: grown_def put_page_def fresh_def less_imp_le)
  have bf: "below t1 (value_pages t1 r)" using st(5) by (auto simp: below_def fresh_def)
  have ag: "agree t1 ?t (value_pages t1 r)" using grown_agree [OF g1 _ bf] by simp
  note va = agree_value [OF ag]
  have n: "node_at ?t ?q True = Ok (Leaf [] [?x])" by (simp add: put_page_def)
  have "?q \<noteq> 0" using room1 by (auto simp: room_def)
  have wf: "leaf_wf ?t True [] [?x] lo hi"
    using k(1) st(3,4) va by (simp add: leaf_wf_def entry_ok_def key_ok_def the_key_def)
  have "leaf_fits (t_page_size ?t) [] [?x]"
    using st(6) k(2) base(1) by (simp add: leaf_fits_def entry_len_def the_key_def put_page_def)
  moreover have "?q \<notin> entries_pages ?t [?x]" using va bf by (auto simp: below_def)
  moreover have "entries_apart ?t [?x]" by (simp add: entries_apart_def)
  ultimately have p: "good ?t (Suc g) ?q lo hi" "pages ?t (Suc g) ?q = insert ?q (value_pages t1 r)" "contents ?t True (Suc g) ?q = [(k, v)]"
    using place_leaf [OF n \<open>?q \<noteq> 0\<close> wf, of g] va st(3) by (auto simp: the_key_def the_val_def)
  have gt: "grown (?c + 1) t ?t {}" by (rule grown_trans [OF st(2) g1]) simp
  have "?q \<in> fresh t ?t" using nx base(3) by (auto simp: fresh_def put_page_def)
  then have "in_pages t ?t {} (Suc g) ?q" unfolding in_pages_def p(2) using st(5) grown_fresh_mono [OF g1, of t] by auto
  then have "outcome_ok t ?t {} (Suc g) lo hi [(k, v)] (Replaced ?q)" using p by (simp add: outcome_ok_def)
  moreover have "insert_into (Suc d) t 0 k v = Ok (Replaced ?q, ?t)" using st(1) reuse base(2) by (simp add: alloc_page_fresh)
  ultimately show ?thesis using grown_mono [OF gt, of "?c + 2" "{}"] by auto
qed

lemma insert_into_spec:
  assumes "good t h pid lo hi" "below t (pages t h pid)" "in_range lo hi k" "key_fits (t_page_size t) k"
    "value_storable (t_page_size t) v" "\<not> t_reuse_enabled t" "room (t_pending_next t) (chain_count (t_page_size t) v + 2 * h)" "h \<le> d"
  shows "\<exists>out t'. insert_into d t pid k v = Ok (out, t') \<and> grown (chain_count (t_page_size t) v + 2 * h) t t' (pages t h pid) \<and>
    outcome_ok t t' (pages t h pid) h lo hi (upd k v (contents t True h pid)) out"
  using assms
proof (induction h arbitrary: d pid lo hi)
  case 0
  then show ?case by (simp add: good_def)
next
  case (Suc g)
  let ?c = "chain_count (t_page_size t) v"
  obtain e where d: "d = Suc e" "g \<le> e" using Suc.prems(8) by (cases d) auto
  have room2: "room (t_pending_next t) (?c + 2)" using Suc.prems(7) room_less by force
  note kv = Suc.prems(3-6)
  show ?case
  proof (cases "pid = 0")
    case True
    have "upd k v [] = [(k, v)]" by (simp add: upd_def)
    with insert_empty_spec [OF kv room2, of e g] show ?thesis
      using True d grown_mono [where c = "?c + 2" and c' = "?c + 2 * Suc g" and S = "{}" and S' = "{}" and t = t] by auto
  next
    case False
    from Suc.prems(1) False show ?thesis
    proof (cases rule: good_cases)
      case (leaf g' bs es)
      then have pg: "pages t (Suc g) pid = insert pid (entries_pages t es)" using False by simp
      have "descend t pid k = Ok Descent_Leaf" using leaf(2) by (simp add: descend_def)
      then have "insert_into d t pid k v = insert_leaf d t pid k v" using False d(1) by simp
      moreover have "contents t True (Suc g) pid = map (\<lambda>e. (entry_key bs e, the_val t True bs e)) es" using False leaf(2) by simp
      ultimately show ?thesis
        using insert_leaf_spec [OF leaf(2,3,4) False leaf(5,6) kv Suc.prems(2) [unfolded pg] room2, of d g] unfolding pg
        by (metis (no_types, lifting) add_left_mono grown_mono mult_le_mono2 nat_mult_1_right order_refl Suc_le_mono le0 One_nat_def)
    next
      case (internal g' bs l cs)
      then have pg: "pages t (Suc g) pid = insert pid (kids_pages t g l cs)" and ct: "contents t True (Suc g) pid = kids_contents t g l cs"
        using False by (simp_all add: kids_pages_def kids_contents_def del: upt_Suc)
      have ok: "kids_ok t g bs l cs lo hi" and fits: "header_size + cells_total (sep_len bs) cs \<le> t_page_size t"
        and pid: "pid \<notin> kids_pages t g l cs"
        using internal by (auto simp: kids_ok_def kids_pages_def seps_fit_def)
      obtain i where i: "child_index bs cs k = Ok i" "i \<le> length cs" "child_at l cs i = Ok (kid l cs i)"
        "in_range (klo bs lo cs i) (khi bs hi cs i) k"
        using route_index [OF internal(3), where l = l and k = k] kv(1) by metis
      have "below t (pages t g (kid l cs i))"
        by (rule below_mono [OF Suc.prems(2)]) (use i(2) pg in \<open>auto simp: kids_pages_def\<close>)
      moreover have "good t g (kid l cs i) (klo bs lo cs i) (khi bs hi cs i)" using internal(1) internal(5) [OF i(2)] by simp
      moreover have "room (t_pending_next t) (?c + 2 * g)" by (rule room_less [OF Suc.prems(7)]) simp
      ultimately obtain out t1 where r: "insert_into e t (kid l cs i) k v = Ok (out, t1)" "grown (?c + 2 * g) t t1 (pages t g (kid l cs i))"
        "outcome_ok t t1 (pages t g (kid l cs i)) g (klo bs lo cs i) (khi bs hi cs i) (upd k v (contents t True g (kid l cs i))) out"
        using Suc.IH [OF _ _ i(4) kv(2-4) _ d(2)] by blast
      have "descend t pid k = Ok (Descent_Internal i (kid l cs i))" using internal(2) i by (simp add: descend_def child_pointer_def)
      then have "insert_into d t pid k v = insert_internal d t1 pid i out" using False d(1) r(1) by simp
      moreover have "room (t_pending_next t) (?c + 2 * g + 2)" using Suc.prems(7) by (simp add: algebra_simps)
      ultimately show ?thesis
        using insert_internal_spec [OF internal(2) ok fits False pid Suc.prems(2) [unfolded pg] i(2,4) kv(2) r(2) kv(4) _ r(3), of d]
        unfolding pg ct by (auto simp: algebra_simps)
    qed
  qed
qed

end
