(* ===== verification/Tree_Write.thy ===== *)
theory Tree_Write
  imports Tree_Insert
begin

text \<open>
  Deletion, and the write operations of the tree: \<open>put\<close>, \<open>delete\<close> and \<open>rollback\<close> against the map of
  its entries, and the isolation of committed roots from an open transaction.
\<close>

section \<open>Deletion\<close>

lemma delete_leaf_spec:
  assumes n: "node_at t pid True = Ok (Leaf bs es)" and wf: "leaf_wf t True bs es lo hi" and fits: "leaf_fits (t_page_size t) bs es"
    and pid: "pid \<noteq> 0" "pid \<notin> entries_pages t es" and apart: "entries_apart t es"
    and reuse: "\<not> t_reuse_enabled t" and b: "below t (insert pid (entries_pages t es))" and room: "room (t_pending_next t) 1"
  shows "\<exists>q t'. delete_leaf d t pid k = Ok (q, t') \<and> grown 1 t t' {pid} \<and> good t' (Suc g) q lo hi \<and>
    in_pages t t' (insert pid (entries_pages t es)) (Suc g) q \<and>
    contents t' True (Suc g) q = del k (map (\<lambda>e. (entry_key bs e, the_val t True bs e)) es)"
proof -
  have ok: "\<forall>e \<in> set es. key_ok bs (ekey e)" "keys_sorted (map (entry_key bs) es)" using wf by (auto simp: leaf_wf_def entry_ok_def)
  obtain A M B ch where u: "remove_entry bs es k = Ok (A @ B, ch)" "es = A @ M @ B"
    "\<forall>e \<in> set A. entry_key bs e < k" "\<forall>e \<in> set B. k < entry_key bs e" "\<forall>e \<in> set M. entry_key bs e = k"
    using remove_entry_parts [OF ok] .
  let ?es = "A @ B" and ?t1 = "t\<lparr>t_dirty := (t_dirty t)(pid := None)\<rparr>"
  have kvs: "del k (map (\<lambda>e. (entry_key bs e, the_val t True bs e)) es) = map (\<lambda>e. (entry_key bs e, the_val t True bs e)) ?es"
    unfolding u(2) by (rule leaf_upd(2) [OF u(3-5)])
  show ?thesis
  proof (cases "?es = []")
    case True
    have "supersede_taken ?t1 pid (t_dirty t pid \<noteq> None) = ?t1" using reuse by (simp add: supersede_taken_def supersede_def)
    then have "delete_leaf d t pid k = Ok (0, ?t1)"
      using True u(1) reuse by (simp add: delete_leaf_def take_node_spec [OF n] free_overflow_chain_def split: option.splits)
    moreover have "grown 1 t ?t1 {pid}" by (simp add: grown_def)
    ultimately show ?thesis using good_0 [of "Suc g" ?t1 lo hi] True kvs by (auto simp: in_pages_def)
  next
    case False
    have wf': "leaf_wf t True bs ?es lo hi" using wf u(2) by (auto simp: leaf_wf_def sorted_wrt_append)
    have fits': "leaf_fits (t_page_size t) bs ?es" using fits u(2) by (auto simp: leaf_fits_def)
    have pg: "entries_pages t ?es \<subseteq> entries_pages t es" using u(2) by auto
    have b': "below t (insert pid (entries_pages t ?es))" by (rule below_mono [OF b]) (use pg in auto)
    have pid': "pid \<notin> entries_pages t ?es" using pg pid(2) by auto
    have ap: "entries_apart t ?es" using apart u(2) by (auto simp: entries_apart_append)
    note p = place_rewritten_leaf [OF wf' fits' room b' pid(1) pid' ap refl]
    have "delete_leaf d t pid k = Ok (slot_id t pid, rewritten t pid (Leaf bs ?es))"
      using False u(1) reuse slot_for_spec [OF reuse, of d pid]
      by (auto simp: delete_leaf_def take_node_spec [OF n] free_overflow_chain_def rewritten_def put_page_def split: option.splits)
    moreover have "in_pages t (rewritten t pid (Leaf bs ?es)) (insert pid (entries_pages t es)) (Suc g) (slot_id t pid)"
      unfolding in_pages_def using p(3) [of g] pg by blast
    ultimately show ?thesis using p(1,2,4) unfolding kvs by blast
  qed
qed

lemma delete_from_spec:
  assumes "good t h pid lo hi" "below t (pages t h pid)" "in_range lo hi k" "\<not> t_reuse_enabled t" "room (t_pending_next t) h" "h \<le> d"
  shows "\<exists>q t'. delete_from d t pid k = Ok (q, t') \<and> grown h t t' (pages t h pid) \<and> good t' h q lo hi \<and>
    in_pages t t' (pages t h pid) h q \<and> contents t' True h q = del k (contents t True h pid)"
  using assms
proof (induction h arbitrary: d pid lo hi)
  case 0
  then show ?case by (simp add: good_def)
next
  case (Suc g)
  obtain e where d: "d = Suc e" "g \<le> e" using Suc.prems(6) by (cases d) auto
  have room1: "room (t_pending_next t) 1" using Suc.prems(5) room_less by force
  show ?case
  proof (cases "pid = 0")
    case True
    then show ?thesis using d(1) good_0 [of "Suc g" t lo hi] by (auto simp: in_pages_def del_def grown_refl)
  next
    case False
    from Suc.prems(1) False show ?thesis
    proof (cases rule: good_cases)
      case (leaf g' bs es)
      then have pg: "pages t (Suc g) pid = insert pid (entries_pages t es)"
        and ct: "contents t True (Suc g) pid = map (\<lambda>e. (entry_key bs e, the_val t True bs e)) es" using False by simp_all
      have "descend t pid k = Ok Descent_Leaf" using leaf(2) by (simp add: descend_def)
      then have "delete_from d t pid k = delete_leaf d t pid k" using False d(1) by simp
      moreover have "grown 1 t t' {pid} \<Longrightarrow> grown (Suc g) t t' (insert pid (entries_pages t es))" for t'
        by (rule grown_mono) auto
      ultimately show ?thesis
        using delete_leaf_spec [OF leaf(2,3,4) False leaf(5,6) Suc.prems(4) Suc.prems(2) [unfolded pg] room1, of d k g] unfolding pg ct
        by metis
    next
      case (internal g' bs l cs)
      then have pg: "pages t (Suc g) pid = insert pid (kids_pages t g l cs)" and ct: "contents t True (Suc g) pid = kids_contents t g l cs"
        using False by (simp_all add: kids_pages_def kids_contents_def del: upt_Suc)
      have ok: "kids_ok t g bs l cs lo hi" and fits: "header_size + cells_total (sep_len bs) cs \<le> t_page_size t"
        and pid: "pid \<notin> kids_pages t g l cs"
        using internal by (auto simp: kids_ok_def kids_pages_def seps_fit_def)
      obtain i where i: "child_index bs cs k = Ok i" "i \<le> length cs" "child_at l cs i = Ok (kid l cs i)"
        "in_range (klo bs lo cs i) (khi bs hi cs i) k"
        using route_index [OF internal(3), where l = l and k = k] Suc.prems(3) by metis
      have bk: "below t (kids_pages t g l cs)" and bp: "below t {pid}" using Suc.prems(2) pg by (auto simp: below_def)
      have kp: "pages t g (kid l cs i) \<subseteq> kids_pages t g l cs" using i(2) by (auto simp: kids_pages_def)
      have "good t g (kid l cs i) (klo bs lo cs i) (khi bs hi cs i)" using internal(1) internal(5) [OF i(2)] by simp
      then obtain q t1 where r: "delete_from e t (kid l cs i) k = Ok (q, t1)" "grown g t t1 (pages t g (kid l cs i))"
        "good t1 g q (klo bs lo cs i) (khi bs hi cs i)" "pages t1 g q \<subseteq> pages t g (kid l cs i) \<union> fresh t t1"
        "contents t1 True g q = del k (contents t True g (kid l cs i))"
        using Suc.IH [OF _ below_mono [OF bk kp] i(4) Suc.prems(4) room_less [OF Suc.prems(5)] d(2)] unfolding in_pages_def by (metis le_SucI order_refl)
      have n1: "node_at t1 pid True = Ok (Internal bs l cs)"
        using agree_node [OF grown_agree [OF r(2) _ bp], of pid] kp pid internal(2) by auto
      note rep = kids_replaced [OF ok i(2) r(2) bk r(3,4)] and base = grown_base [OF r(2)]
      let ?l = "replaced_left l i q" and ?cs = "replaced_cells cs i q"
      have b1: "below t1 (insert pid (kids_pages t1 g ?l ?cs))"
        by (rule below_mono [OF below_grown [OF Suc.prems(2) r(2)]]) (use rep(2) pg in auto)
      have pid1: "pid \<notin> kids_pages t1 g ?l ?cs" using rep(2) pid below_fresh [OF bp, of t1] by auto
      have room': "room (t_pending_next t1) 1" using grown_room [OF r(2), of 1] Suc.prems(5) by simp
      have fits1: "header_size + cells_total (sep_len bs) ?cs \<le> t_page_size t1" using fits base(1) by (simp add: replaced_seps(2))
      note p = place_rewritten_internal [OF rep(1) fits1 room' b1 False pid1 refl]
      have "descend t pid k = Ok (Descent_Internal i (kid l cs i))" using internal(2) i by (simp add: descend_def child_pointer_def)
      then have "delete_from d t pid k = Ok (slot_id t1 pid, rewritten t1 pid (Internal bs ?l ?cs))"
        using False d(1) r(1) Suc.prems(4) base(2) slot_for_spec [of t1 d pid]
        by (simp add: take_node_spec [OF n1] replace_child_spec [OF i(2)] rewritten_def put_page_def)
      moreover have "grown (g + 1) t (rewritten t1 pid (Internal bs ?l ?cs)) (pages t (Suc g) pid)"
        by (rule grown_trans [OF grown_mono [OF r(2)] p(1)]) (use kp pg in auto)
      moreover have "in_pages t (rewritten t1 pid (Internal bs ?l ?cs)) (pages t (Suc g) pid) (Suc g) (slot_id t1 pid)"
        using p(3) rep(2) pg grown_fresh_mono [OF p(1), of t] grown_fresh_sub [OF r(2), of "rewritten t1 pid (Internal bs ?l ?cs)"]
        unfolding in_pages_def by blast
      moreover have "contents (rewritten t1 pid (Internal bs ?l ?cs)) True (Suc g) (slot_id t1 pid) = del k (contents t True (Suc g) pid)"
        unfolding p(4) rep(3) ct kids_upd(2) [OF ok i(2,4)] r(5) ..
      ultimately show ?thesis using p(2) by (intro exI conjI) (assumption | simp)+
    qed
  qed
qed

section \<open>The tree of a transaction\<close>

definition txn_tree :: "nat \<Rightarrow> cow_btree \<Rightarrow> bool" where
  "txn_tree h t \<longleftrightarrow> good t h (t_pending_root t) [] None \<and> below t (pages t h (t_pending_root t)) \<and> \<not> t_reuse_enabled t"

definition tree_inv :: "nat \<Rightarrow> cow_btree \<Rightarrow> bool" where
  "tree_inv h t \<longleftrightarrow> txn_tree h (begin_txn t) \<and> (t_has_pending t \<or> t_dirty t = Map.empty)"

text \<open>Two views of the pages that give the same nodes and values give the same tree.\<close>

lemma same_view:
  assumes "\<And>q. node_at t' q p' = node_at t q p" "\<And>bs v. resolve_value_at t' bs v p' = resolve_value_at t bs v p"
  shows "tree_wf t' p' h pid lo hi = tree_wf t p h pid lo hi" "contents t' p' h pid = contents t p h pid"
proof (induction h arbitrary: pid lo hi)
  case (Suc h)
  { case 1 then show ?case using assms Suc by (auto simp: leaf_wf_def split: result.splits node.splits) }
  { case 2 then show ?case using assms Suc by (simp add: the_val_def cong: result.case_cong node.case_cong) }
qed simp_all

lemma clean_view:
  assumes "t_dirty t = Map.empty"
  shows "node_at (begin_txn t) q True = node_at t q False" "resolve_value_at (begin_txn t) bs v True = resolve_value_at t bs v False"
proof -
  have ov: "read_overflow_page (begin_txn t) q True = read_overflow_page t q False" for q
    using assms by (simp add: read_overflow_page_def begin_txn_def)
  have "read_chain f (begin_txn t) True len q out = read_chain f t False len q out" for f len q out
    by (induction f arbitrary: q out) (auto simp: ov intro: rbind_cong)
  moreover have "t_page_size (begin_txn t) = t_page_size t" by (simp add: begin_txn_def)
  ultimately show "resolve_value_at (begin_txn t) bs v True = resolve_value_at t bs v False"
    by (simp add: resolve_value_at_def Let_def split: value_ref.splits)
  show "node_at (begin_txn t) q True = node_at t q False"
    using assms by (simp add: node_at_def committed_node_def begin_txn_def)
qed

lemma begin_txn_root: "t_pending_root (begin_txn t) = read_root t"
  by (simp add: begin_txn_def read_root_def)

lemma tree_inv_ok:
  assumes "tree_inv h t"
  shows "tree_ok h t" "contents (begin_txn t) True h (read_root t) = entries_of h t"
proof -
  have wf: "tree_wf (begin_txn t) True h (read_root t) [] None"
    using assms by (simp add: tree_inv_def txn_tree_def good_def begin_txn_root)
  have "tree_ok h t \<and> contents (begin_txn t) True h (read_root t) = entries_of h t"
  proof (cases "t_has_pending t")
    case True
    then have "begin_txn t = t" by (simp add: begin_txn_def)
    then show ?thesis using wf True by (simp add: tree_ok_def entries_of_def)
  next
    case False
    then have "t_dirty t = Map.empty" using assms by (simp add: tree_inv_def)
    note v = same_view [OF clean_view [OF this]]
    show ?thesis using wf False v by (simp add: tree_ok_def entries_of_def)
  qed
  then show "tree_ok h t" "contents (begin_txn t) True h (read_root t) = entries_of h t" by auto
qed

lemma txn_tree_inv: "t_has_pending t \<Longrightarrow> tree_inv h t = txn_tree h t"
  by (simp add: tree_inv_def begin_txn_def)

lemma txn_entries: "t_has_pending t \<Longrightarrow> entries_of h t = contents t True h (t_pending_root t)"
  by (simp add: entries_of_def read_root_def)

text \<open>Setting the root and the pending operations moves no page.\<close>

definition with_root :: "cow_btree \<Rightarrow> page_id \<Rightarrow> pending_ops \<Rightarrow> cow_btree" where
  "with_root t r ops = t\<lparr>t_pending_root := r, t_pending_ops := ops\<rparr>"

lemma set_root_view:
  "good (with_root t r ops) h q lo hi = good t h q lo hi" "pages (with_root t r ops) h q = pages t h q"
  "contents (with_root t r ops) True h q = contents t True h q"
proof -
  have "agree t (with_root t r ops) (pages t h q)" by (simp add: agree_def with_root_def)
  from good_frame [OF this] show "good (with_root t r ops) h q lo hi = good t h q lo hi" "pages (with_root t r ops) h q = pages t h q"
    "contents (with_root t r ops) True h q = contents t True h q" by auto
qed

lemma root_change:
  assumes "txn_tree h t" "good t' h' q [] None" "pages t' h' q \<subseteq> pages t h (t_pending_root t) \<union> fresh t t'"
    "grown c t t' (pages t h (t_pending_root t))" "t_has_pending t"
  shows "tree_inv h' (with_root t' q ops)" "entries_of h' (with_root t' q ops) = contents t' True h' q" "t_has_pending (with_root t' q ops)"
proof -
  note base = grown_base [OF assms(4)]
  have "t_has_pending t'" using assms(5) by (subst base(4)) simp
  then show pend: "t_has_pending (with_root t' q ops)" by (simp add: with_root_def)
  have "below t' (pages t h (t_pending_root t) \<union> fresh t t')"
    using below_grown assms(1,4) by (auto simp: txn_tree_def)
  then have "below (with_root t' q ops) (pages t' h' q)" using assms(3) by (auto simp: below_def with_root_def)
  moreover have "\<not> t_reuse_enabled (with_root t' q ops)" using assms(1) base(2) by (simp add: txn_tree_def with_root_def)
  moreover have "t_pending_root (with_root t' q ops) = q" by (simp add: with_root_def)
  ultimately show "tree_inv h' (with_root t' q ops)" "entries_of h' (with_root t' q ops) = contents t' True h' q"
    using assms(2) by (simp_all add: txn_tree_inv [OF pend] txn_entries [OF pend] txn_tree_def set_root_view)
qed

section \<open>Writes\<close>

text \<open>A split root gets a new root over its two halves.\<close>

lemma grow_root:
  assumes q: "good t h q [] (Some s)" "good t h q' s None" "pages t h q \<inter> pages t h q' = {}" "key_fits (t_page_size t) s"
    and b: "below t (pages t h q \<union> pages t h q')" and room: "room (t_pending_next t) 1"
    and t': "t' = put_page (t\<lparr>t_pending_next := t_pending_next t + 1\<rparr>) (t_pending_next t) (Decoded (Internal [] q [\<lparr>skey = Owned_Key s, schild = q'\<rparr>]))"
  shows "grown 1 t t' {}" "good t' (Suc h) (t_pending_next t) [] None"
    "pages t' (Suc h) (t_pending_next t) = insert (t_pending_next t) (pages t h q \<union> pages t h q')" "t_pending_next t \<in> fresh t t'"
    "contents t' True (Suc h) (t_pending_next t) = contents t True h q @ contents t True h q'"
proof -
  let ?cs = "[\<lparr>skey = Owned_Key s, schild = q'\<rparr>]" and ?r = "t_pending_next t"
  note nx = next_succ [OF room]
  have "page_fits (t_page_size t) (Decoded (Internal [] q ?cs))"
    using q(4) by (auto simp: page_fits_def sep_ok_def key_ok_def key_fits_def sep_len_def the_key_def internal_cell_size_def page_consts)
  then show g: "grown 1 t t' {}" using nx by (auto simp: grown_def t' put_page_def fresh_def less_imp_le)
  show "?r \<in> fresh t t'" using nx by (simp add: fresh_def t' put_page_def)
  have ag: "agree t t' (pages t h q)" "agree t t' (pages t h q')" using b by (intro grown_agree [OF g]; auto simp: below_def)+
  note f = good_frame [OF ag(1)] good_frame [OF ag(2)]
  have two: "{..length ?cs} = {0, 1}" "[0..<Suc (length ?cs)] = [0, 1]" by (auto simp: atMost_Suc)
  have kp: "kids_pages t' h q ?cs = pages t h q \<union> pages t h q'" unfolding kids_pages_def two using f by (simp add: kid_def)
  have kc: "kids_contents t' h q ?cs = contents t True h q @ contents t True h q'" unfolding kids_contents_def two using f by (simp add: kid_def)
  have ok: "kids_ok t' h [] q ?cs [] None"
    using q f grown_base(1) [OF g]
    by (auto simp: kids_ok_def seps_wf_def sep_ok_def key_ok_def the_key_def in_range_def kid_def klo_def khi_def le_Suc_eq less_Suc_eq)
  have n: "node_at t' ?r True = Ok (Internal [] q ?cs)" by (simp add: t' put_page_def)
  have nz: "?r \<noteq> 0" using room by (auto simp: room_def)
  have sz: "header_size + cells_total (sep_len []) ?cs \<le> t_page_size t'"
    using q(4) grown_base(1) [OF g] by (auto simp: key_fits_def sep_len_def the_key_def internal_cell_size_def page_consts)
  have nr: "?r \<notin> kids_pages t' h q ?cs" using b kp by (auto simp: below_def)
  from place_internal [OF ok n nz sz nr]
  show "good t' (Suc h) ?r [] None" "pages t' (Suc h) ?r = insert ?r (pages t h q \<union> pages t h q')"
    "contents t' True (Suc h) ?r = contents t True h q @ contents t True h q'" unfolding kp kc by auto
qed

text \<open>The pages a transaction has written so far: they fit, and their ids are its own.\<close>

definition dirty_ok :: "cow_btree \<Rightarrow> bool" where
  "dirty_ok t \<longleftrightarrow> 0 < t_next_page_id t \<and> t_next_page_id t \<le> t_pending_next t \<and>
     (\<forall>q p. t_dirty t q = Some p \<longrightarrow> page_fits (t_page_size t) p \<and> t_next_page_id t \<le> q \<and> q < t_pending_next t)"

lemma grown_dirty:
  assumes g: "grown c t t' S" and ok: "dirty_ok t"
  shows "dirty_ok t'"
proof -
  note base = grown_base [OF g]
  have n: "t_next_page_id t' = t_next_page_id t" by (subst base(4)) simp
  have "page_fits (t_page_size t') p \<and> t_next_page_id t \<le> q \<and> q < t_pending_next t'" if p: "t_dirty t' q = Some p" for q p
  proof -
    have "t_dirty t q = Some p \<or> page_fits (t_page_size t) p" using g p unfolding grown_def by blast
    then have "page_fits (t_page_size t') p" using ok base(1) by (auto simp: dirty_ok_def)
    moreover have "t_dirty t q \<noteq> None \<or> q \<in> fresh t t'" using g p unfolding grown_def by blast
    then have "t_next_page_id t \<le> q \<and> q < t_pending_next t'" using ok base(3) by (auto simp: dirty_ok_def fresh_def intro: less_le_trans)
    ultimately show ?thesis by simp
  qed
  then show ?thesis using ok base(3) n by (auto simp: dirty_ok_def)
qed

text \<open>What else a write changes: the dirty pages, the allocator, the root and the record of its operations.\<close>

definition written_by :: "cow_btree \<Rightarrow> bytes \<Rightarrow> bytes option \<Rightarrow> cow_btree \<Rightarrow> bool" where
  "written_by t k v t' \<longleftrightarrow> t' = (begin_txn t)\<lparr>t_dirty := t_dirty t', t_pending_next := t_pending_next t',
     t_pending_root := t_pending_root t', t_pending_ops := (t_pending_ops t)(k \<mapsto> v)\<rparr> \<and>
     (dirty_ok (begin_txn t) \<longrightarrow> dirty_ok t')"

lemma written_byI:
  assumes g: "grown c (begin_txn t) t1 S"
  shows "written_by t k v (with_root t1 r ((t_pending_ops t1)(k \<mapsto> v)))"
proof -
  let ?t' = "with_root t1 r ((t_pending_ops t1)(k \<mapsto> v))"
  obtain D n where t1: "t1 = (begin_txn t)\<lparr>t_dirty := D, t_pending_next := n\<rparr>" using grown_base(4) [OF g] by blast
  have "t_pending_ops (begin_txn t) = t_pending_ops t" by (simp add: begin_txn_def)
  then have "?t' = (begin_txn t)\<lparr>t_dirty := t_dirty ?t', t_pending_next := t_pending_next ?t',
      t_pending_root := t_pending_root ?t', t_pending_ops := (t_pending_ops t)(k \<mapsto> v)\<rparr>"
    unfolding t1 with_root_def by simp
  moreover have "dirty_ok ?t' = dirty_ok t1" by (simp add: dirty_ok_def with_root_def)
  ultimately show ?thesis
    unfolding written_by_def using grown_dirty [OF g] by blast
qed

lemma put_full:
  assumes inv: "tree_inv h t" and k: "key_fits (t_page_size t) k" and v: "value_storable (t_page_size t) v"
    and room: "room (t_pending_next (begin_txn t)) (chain_count (t_page_size t) v + 2 * h + 1)" and d: "h \<le> d"
  shows "\<exists>h' t'. put d t k v = Ok t' \<and> h' \<in> {h, Suc h} \<and> tree_inv h' t' \<and> entries_of h' t' = upd k v (entries_of h t) \<and>
    t_has_pending t' \<and> t_page_size t' = t_page_size t \<and>
    unat (t_pending_next t') \<le> unat (t_pending_next (begin_txn t)) + (chain_count (t_page_size t) v + 2 * h + 1) \<and> 0 < t_pending_next t' \<and>
    written_by t k (Some v) t'"
proof -
  let ?t = "begin_txn t" and ?c = "chain_count (t_page_size t) v"
  have ps: "t_page_size ?t = t_page_size t" and pend: "t_has_pending ?t" by (simp_all add: begin_txn_def)
  have tx: "txn_tree h ?t" and reuse: "\<not> t_reuse_enabled ?t" using inv by (auto simp: tree_inv_def txn_tree_def)
  note ent = tree_inv_ok(2) [OF inv, folded begin_txn_root]
  let ?S = "pages ?t h (t_pending_root ?t)"
  obtain out t1 where r: "insert_into d ?t (t_pending_root ?t) k v = Ok (out, t1)" "grown (?c + 2 * h) ?t t1 ?S"
    "outcome_ok ?t t1 ?S h [] None (upd k v (entries_of h t)) out"
    using insert_into_spec [of ?t h "t_pending_root ?t" "[]" None k v d] tx k v room_less [OF room] d reuse
    unfolding txn_tree_def ps ent by auto
  note base = grown_base [OF r(2)]
  have pos: "0 < t_pending_next t1" using base(3) room by (auto simp: room_def)
  have wb: "grown c ?t t2 ?S \<Longrightarrow> written_by t k (Some v) (with_root t2 q ((t_pending_ops t2)(k \<mapsto> Some v)))" for c t2 q
    by (rule written_byI)
  show ?thesis
  proof (cases out)
    case (Replaced q)
    note o = r(3) [unfolded Replaced outcome_ok_def in_pages_def, simplified]
    let ?t' = "with_root t1 q ((t_pending_ops t1)(k \<mapsto> Some v))"
    have "put d t k v = Ok ?t'" using k r(1) Replaced by (simp add: put_def with_root_def)
    moreover have "unat (t_pending_next t1) \<le> unat (t_pending_next ?t) + (?c + 2 * h + 1)" using r(2) by (simp add: grown_def)
    ultimately show ?thesis
      using root_change [OF tx _ _ r(2) pend, of h q] o base(1) ps pos wb [OF r(2), of q]
      by (intro exI [of _ h] exI [of _ ?t']) (auto simp: with_root_def)
  next
    case (Split q q' s)
    note o = r(3) [unfolded Split outcome_ok_def in_pages_def, simplified]
    have room1: "room (t_pending_next t1) 1" by (rule grown_room [OF r(2) room])
    have b1: "below t1 (?S \<union> fresh ?t t1)" using below_grown tx r(2) by (auto simp: txn_tree_def)
    have bq: "below t1 (pages t1 h q \<union> pages t1 h q')" by (rule below_mono [OF b1]) (use o in auto)
    let ?r = "t_pending_next t1"
    let ?t2 = "put_page (t1\<lparr>t_pending_next := ?r + 1\<rparr>) ?r (Decoded (Internal [] q [\<lparr>skey = Owned_Key s, schild = q'\<rparr>]))"
    have kf: "key_fits (t_page_size t1) s" using o base(1) by simp
    have g: "grown 1 t1 ?t2 {}" "good ?t2 (Suc h) ?r [] None" "pages ?t2 (Suc h) ?r = insert ?r (pages t1 h q \<union> pages t1 h q')"
      "?r \<in> fresh t1 ?t2" "contents ?t2 True (Suc h) ?r = contents t1 True h q @ contents t1 True h q'"
      using grow_root [OF _ _ _ kf bq room1 refl] o by auto
    have gt: "grown (?c + 2 * h + 1) ?t ?t2 ?S" by (rule grown_trans [OF r(2) g(1)]) simp
    have pg: "pages ?t2 (Suc h) ?r \<subseteq> ?S \<union> fresh ?t ?t2"
      using g(3,4) o grown_fresh_mono [OF g(1), of ?t] grown_fresh_sub [OF r(2), of ?t2] by auto
    let ?t' = "with_root ?t2 ?r ((t_pending_ops t1)(k \<mapsto> Some v))"
    have "put d t k v = Ok ?t'"
      using k r(1) Split reuse base(2) by (simp add: put_def alloc_page_fresh with_root_def put_page_def)
    moreover have "unat (t_pending_next ?t2) \<le> unat (t_pending_next ?t) + (?c + 2 * h + 1)" using gt by (simp add: grown_def)
    moreover have "0 < t_pending_next ?t2" using grown_base(3) [OF g(1)] pos by simp
    ultimately show ?thesis
      using root_change [OF tx g(2) pg gt pend, of "(t_pending_ops t1)(k \<mapsto> Some v)"] o g(5) grown_base(1) [OF gt] ps
        wb [OF gt, of ?r]
      by (intro exI [of _ "Suc h"] exI [of _ ?t']) (auto simp: with_root_def put_page_def)
  qed
qed

lemma put_spec:
  assumes "tree_inv h t" "key_fits (t_page_size t) k" "value_storable (t_page_size t) v"
    "room (t_pending_next (begin_txn t)) (chain_count (t_page_size t) v + 2 * h + 1)" "h \<le> d"
  shows "\<exists>h' t'. put d t k v = Ok t' \<and> h' \<in> {h, Suc h} \<and> tree_inv h' t' \<and> entries_of h' t' = upd k v (entries_of h t) \<and>
    t_has_pending t' \<and> t_page_size t' = t_page_size t \<and>
    unat (t_pending_next t') \<le> unat (t_pending_next (begin_txn t)) + (chain_count (t_page_size t) v + 2 * h + 1) \<and> 0 < t_pending_next t'"
  using put_full [OF assms] by blast

lemma delete_full:
  assumes inv: "tree_inv h t" and room: "room (t_pending_next (begin_txn t)) h" and d: "h \<le> d"
  shows "\<exists>t'. delete d t k = Ok t' \<and> tree_inv h t' \<and> entries_of h t' = del k (entries_of h t) \<and>
    t_has_pending t' \<and> t_page_size t' = t_page_size t \<and>
    unat (t_pending_next t') \<le> unat (t_pending_next (begin_txn t)) + h \<and> 0 < t_pending_next t' \<and> written_by t k None t'"
proof -
  let ?t = "begin_txn t"
  have ps: "t_page_size ?t = t_page_size t" and pend: "t_has_pending ?t" by (simp_all add: begin_txn_def)
  have tx: "txn_tree h ?t" and reuse: "\<not> t_reuse_enabled ?t" using inv by (auto simp: tree_inv_def txn_tree_def)
  note ent = tree_inv_ok(2) [OF inv, folded begin_txn_root]
  let ?S = "pages ?t h (t_pending_root ?t)"
  obtain q t1 where r: "delete_from d ?t (t_pending_root ?t) k = Ok (q, t1)" "grown h ?t t1 ?S" "good t1 h q [] None"
    "pages t1 h q \<subseteq> ?S \<union> fresh ?t t1" "contents t1 True h q = del k (entries_of h t)"
    using delete_from_spec [of ?t h "t_pending_root ?t" "[]" None k d] tx room d reuse unfolding txn_tree_def ent in_pages_def by auto
  have "delete d t k = Ok (with_root t1 q ((t_pending_ops t1)(k \<mapsto> None)))"
    using r(1) by (simp add: delete_def with_root_def Let_def)
  moreover have "unat (t_pending_next t1) \<le> unat (t_pending_next ?t) + h" "0 < t_pending_next t1"
    using r(2) grown_base(3) [OF r(2)] room by (auto simp: grown_def room_def)
  ultimately show ?thesis
    using root_change [OF tx r(3,4,2) pend] r(5) grown_base(1) [OF r(2)] ps written_byI [OF r(2), of k None q] tx room
    by (auto simp: with_root_def txn_tree_def room_def)
qed

lemma delete_spec:
  assumes "tree_inv h t" "room (t_pending_next (begin_txn t)) h" "h \<le> d"
  shows "\<exists>t'. delete d t k = Ok t' \<and> tree_inv h t' \<and> entries_of h t' = del k (entries_of h t) \<and>
    t_has_pending t' \<and> t_page_size t' = t_page_size t \<and>
    unat (t_pending_next t') \<le> unat (t_pending_next (begin_txn t)) + h \<and> 0 < t_pending_next t'"
  using delete_full [OF assms] by blast

end
