(* ===== verification/Tree_Store.thy ===== *)
theory Tree_Store
  imports Tree_Write
begin

text \<open>
  The tree as a key-value store. The locale \<open>kv_store\<close> states what a client of the tree relies on
  (a lookup after a write), and derives that any sequence of writes acts as the same sequence of
  map updates; the tree is an instance. Reads of a committed root are shown to be independent of
  whatever an open transaction writes, and rolling back restores them.
\<close>

section \<open>The interface\<close>

datatype write_op = Put bytes bytes | Remove bytes

fun spec_op :: "(bytes \<Rightarrow> bytes option) \<Rightarrow> write_op \<Rightarrow> (bytes \<Rightarrow> bytes option)" where
  "spec_op m (Put k v) = m(k \<mapsto> v)"
| "spec_op m (Remove k) = m(k := None)"

locale kv_store =
  fixes inv :: "nat \<Rightarrow> 's \<Rightarrow> bool" and lookup :: "'s \<Rightarrow> bytes \<Rightarrow> bytes option result"
    and store :: "'s \<Rightarrow> bytes \<Rightarrow> bytes \<Rightarrow> 's result" and remove :: "'s \<Rightarrow> bytes \<Rightarrow> 's result"
    and storable :: "bytes \<Rightarrow> bytes \<Rightarrow> bool"
  assumes store_law: "inv (Suc n) s \<Longrightarrow> storable k v \<Longrightarrow>
      \<exists>s'. store s k v = Ok s' \<and> inv n s' \<and> (\<forall>a. lookup s' a = (if a = k then Ok (Some v) else lookup s a))"
    and remove_law: "inv (Suc n) s \<Longrightarrow>
      \<exists>s'. remove s k = Ok s' \<and> inv n s' \<and> (\<forall>a. lookup s' a = (if a = k then Ok None else lookup s a))"
begin

definition run_op :: "'s \<Rightarrow> write_op \<Rightarrow> 's result" where
  "run_op s w = (case w of Put k v \<Rightarrow> store s k v | Remove k \<Rightarrow> remove s k)"

lemma run_op_refines:
  assumes "inv (Suc n) s" "\<forall>k v. w = Put k v \<longrightarrow> storable k v" "\<forall>a. lookup s a = Ok (m a)"
  obtains s' where "run_op s w = Ok s'" "inv n s'" "\<forall>a. lookup s' a = Ok (spec_op m w a)"
proof (cases w)
  case (Put k v)
  obtain s' where "store s k v = Ok s'" "inv n s'" "\<forall>a. lookup s' a = (if a = k then Ok (Some v) else lookup s a)"
    using store_law [OF assms(1), of k v] assms(2) Put by blast
  then show ?thesis using Put assms(3) by (intro that) (auto simp: run_op_def)
next
  case (Remove k)
  obtain s' where "remove s k = Ok s'" "inv n s'" "\<forall>a. lookup s' a = (if a = k then Ok None else lookup s a)"
    using remove_law [OF assms(1), of k] by blast
  then show ?thesis using Remove assms(3) by (intro that) (auto simp: run_op_def)
qed

lemma run_refines:
  assumes "inv n s" "length ws \<le> n" "\<forall>k v. Put k v \<in> set ws \<longrightarrow> storable k v" "\<forall>a. lookup s a = Ok (m a)"
  shows "\<exists>s'. rfold run_op s ws = Ok s' \<and> inv (n - length ws) s' \<and> (\<forall>a. lookup s' a = Ok (foldl spec_op m ws a))"
  using assms
proof (induction ws arbitrary: n s m)
  case (Cons w ws)
  then obtain n' where n: "n = Suc n'" by (cases n) auto
  obtain s' where s': "run_op s w = Ok s'" "inv n' s'" "\<forall>a. lookup s' a = Ok (spec_op m w a)"
    using run_op_refines [of n' s w m] Cons.prems n by auto
  show ?case using Cons.IH [OF s'(2) _ _ s'(3)] s'(1) Cons.prems n by auto
qed auto

end

section \<open>The tree as an instance\<close>

text \<open>
  \<open>n\<close> more writes fit: each adds at most one level and takes at most \<open>cap\<close> overflow pages, two
  pages per level and a new root.
\<close>

definition write_cost :: "nat \<Rightarrow> nat \<Rightarrow> nat" where
  "write_cost d cap = cap + 2 * d + 1"

definition store_inv :: "nat \<Rightarrow> nat \<Rightarrow> nat \<Rightarrow> nat \<Rightarrow> cow_btree \<Rightarrow> bool" where
  "store_inv ps d cap n t \<longleftrightarrow> t_page_size t = ps \<and> (\<exists>h. tree_inv h t \<and> h + n \<le> d) \<and>
     room (t_pending_next (begin_txn t)) (n * write_cost d cap)"

definition tree_storable :: "nat \<Rightarrow> nat \<Rightarrow> bytes \<Rightarrow> bytes \<Rightarrow> bool" where
  "tree_storable ps cap k v \<longleftrightarrow> key_fits ps k \<and> value_storable ps v \<and> chain_count ps v \<le> cap"

lemma get_entries: "tree_inv h t \<Longrightarrow> h \<le> d \<Longrightarrow> get d t a = Ok (map_of (entries_of h t) a)"
proof -
  assume "tree_inv h t" "h \<le> d"
  then have "tree_ok d t \<and> entries_of d t = entries_of h t" using tree_inv_ok(1) tree_ok_deeper by blast
  then show ?thesis using descend_get_correct [of t "t_has_pending t" d "read_root t" "[]" None a] by (simp add: get_def tree_ok_def entries_of_def)
qed

lemma room_after: "unat n' \<le> unat n + a \<Longrightarrow> 0 < n' \<Longrightarrow> a \<le> c \<Longrightarrow> room n (Suc m * c) \<Longrightarrow> room n' (m * c)"
  by (simp add: room_def)

interpretation tree: kv_store "store_inv ps d cap" "get d" "put d" "delete d" "tree_storable ps cap" for ps d cap
proof
  fix n t k v
  assume inv: "store_inv ps d cap (Suc n) t"
  then obtain h where h: "tree_inv h t" "h + Suc n \<le> d" "t_page_size t = ps" "room (t_pending_next (begin_txn t)) (Suc n * write_cost d cap)"
    by (auto simp: store_inv_def)
  have one: "room (t_pending_next (begin_txn t)) (write_cost d cap)" by (rule room_less [OF h(4)]) simp
  have hd: "h \<le> d" using h(2) by simp
  show "\<exists>t'. put d t k v = Ok t' \<and> store_inv ps d cap n t' \<and> (\<forall>a. get d t' a = (if a = k then Ok (Some v) else get d t a))"
    if s: "tree_storable ps cap k v"
  proof -
    have cost: "chain_count ps v + 2 * h + 1 \<le> write_cost d cap" using s h(2) by (simp add: write_cost_def tree_storable_def)
    obtain h' t' where t': "put d t k v = Ok t'" "h' \<in> {h, Suc h}" "tree_inv h' t'" "entries_of h' t' = upd k v (entries_of h t)"
      "t_has_pending t'" "t_page_size t' = ps" "unat (t_pending_next t') \<le> unat (t_pending_next (begin_txn t)) + (chain_count ps v + 2 * h + 1)"
      "0 < t_pending_next t'"
      using put_spec [OF h(1), of k v d] s h hd room_less [OF one cost] unfolding tree_storable_def by blast
    have "h' \<le> d" "h' + n \<le> d" using t'(2) h(2) by auto
    moreover have "store_inv ps d cap n t'"
      using t' h(2) room_after [OF t'(7,8) cost h(4)] by (auto simp: store_inv_def begin_txn_def)
    ultimately show ?thesis
      using t'(1,4) get_entries [OF t'(3)] get_entries [OF h(1) hd] by (auto simp: upd_lookup)
  qed
  show "\<exists>t'. delete d t k = Ok t' \<and> store_inv ps d cap n t' \<and> (\<forall>a. get d t' a = (if a = k then Ok None else get d t a))"
  proof -
    have cost: "h \<le> write_cost d cap" using h(2) by (simp add: write_cost_def)
    obtain t' where t': "delete d t k = Ok t'" "tree_inv h t'" "entries_of h t' = del k (entries_of h t)"
      "t_has_pending t'" "t_page_size t' = ps" "unat (t_pending_next t') \<le> unat (t_pending_next (begin_txn t)) + h" "0 < t_pending_next t'"
      using delete_spec [OF h(1) room_less [OF one cost] hd, of k] h(3) by auto
    have "store_inv ps d cap n t'"
      using t' h(2) room_after [OF t'(6,7) cost h(4)] by (auto simp: store_inv_def begin_txn_def intro: exI [of _ h])
    then show ?thesis
      using t'(1,3) get_entries [OF t'(2) hd] get_entries [OF h(1) hd] by (auto simp: del_lookup)
  qed
qed

definition run_write :: "nat \<Rightarrow> cow_btree \<Rightarrow> write_op \<Rightarrow> cow_btree result" where
  "run_write d t w = (case w of Put k v \<Rightarrow> put d t k v | Remove k \<Rightarrow> delete d t k)"

lemma run_write_op: "tree.run_op d = run_write d"
  by (simp add: fun_eq_iff tree.run_op_def run_write_def)

section \<open>Isolation of committed pages\<close>

text \<open>What a transaction never touches: the device, the geometry and the committed root.\<close>

definition kept :: "cow_btree \<Rightarrow> cow_btree \<Rightarrow> bool" where
  "kept t t' \<longleftrightarrow> t_read t' = t_read t \<and> t_page_size t' = t_page_size t \<and> t_format_version t' = t_format_version t \<and>
     t_root t' = t_root t \<and> t_next_page_id t' = t_next_page_id t"

lemma kept_refl [simp]: "kept t t"
  by (simp add: kept_def)

lemma kept_trans: "kept t t1 \<Longrightarrow> kept t1 t2 \<Longrightarrow> kept t t2"
  by (simp add: kept_def)

lemma kept_simple [simp]:
  "kept t (t\<lparr>t_dirty := D\<rparr>)" "kept t (put_page t q n)" "kept t (supersede t q)" "kept t (supersede_taken t q b)" "kept t (begin_txn t)"
  by (simp_all add: kept_def put_page_def supersede_def supersede_taken_def begin_txn_def)

lemma kept_refill: "refill_free_candidates d t = (t', r) \<Longrightarrow> kept t t'"
  by (auto simp: refill_free_candidates_def kept_def Let_def split: if_splits option.splits result.splits prod.splits)

lemma kept_alloc: "alloc_page d t = Ok (q, t') \<Longrightarrow> kept t t'"
  by (auto simp: alloc_page_def Let_def kept_def split: if_splits prod.splits dest!: kept_refill [unfolded kept_def])

text \<open>What holds of a result if the operation returns, and the rules that carry \<open>kept\<close> through a body.\<close>

definition wp :: "'a result \<Rightarrow> ('a \<Rightarrow> bool) \<Rightarrow> bool" where
  "wp r Q \<longleftrightarrow> (\<forall>x. r = Ok x \<longrightarrow> Q x)"

definition keeps :: "cow_btree \<Rightarrow> ('a \<times> cow_btree) result \<Rightarrow> bool" where
  "keeps t r \<longleftrightarrow> wp r (\<lambda>(a, t'). kept t t')"

definition keeps1 :: "cow_btree \<Rightarrow> cow_btree result \<Rightarrow> bool" where
  "keeps1 t r \<longleftrightarrow> wp r (kept t)"

lemma keeps_Ok: "kept t t' \<Longrightarrow> keeps t (Ok (a, t'))" "keeps t (Err e)" "keeps t Panic"
  by (simp_all add: keeps_def wp_def)

lemma keeps_bind:
  "keeps t mm \<Longrightarrow> (\<And>a b t1. kept t t1 \<Longrightarrow> keeps t (ff a b t1)) \<Longrightarrow> keeps t (rbind mm (\<lambda>((a, b), t1). ff a b t1))"
  "keeps t m \<Longrightarrow> (\<And>a t1. kept t t1 \<Longrightarrow> keeps t (f a t1)) \<Longrightarrow> keeps t (rbind m (\<lambda>(a, t1). f a t1))"
  "keeps1 t m1 \<Longrightarrow> (\<And>t1. kept t t1 \<Longrightarrow> keeps t (f1 t1)) \<Longrightarrow> keeps t (rbind m1 f1)"
  by (fastforce simp: keeps_def keeps1_def wp_def)+

lemma keeps_pure: "(\<And>x. keeps t (f x)) \<Longrightarrow> keeps t (rbind m f)"
  by (auto simp: keeps_def wp_def)

lemma keeps_case:
  "(b \<Longrightarrow> keeps t r) \<Longrightarrow> (\<not> b \<Longrightarrow> keeps t r') \<Longrightarrow> keeps t (if b then r else r')"
  "(\<And>bs es. keeps t (f bs es)) \<Longrightarrow> (\<And>bs l cs. keeps t (g bs l cs)) \<Longrightarrow> keeps t (case n of Leaf bs es \<Rightarrow> f bs es | Internal bs l cs \<Rightarrow> g bs l cs)"
  "(\<And>q. keeps t (f' q)) \<Longrightarrow> (\<And>q q' s. keeps t (g' q q' s)) \<Longrightarrow> keeps t (case out of Replaced q \<Rightarrow> f' q | Split q q' s \<Rightarrow> g' q q' s)"
  "keeps t n' \<Longrightarrow> (\<And>x. keeps t (s' x)) \<Longrightarrow> keeps t (case ox of None \<Rightarrow> n' | Some x \<Rightarrow> s' x)"
  "keeps t dl \<Longrightarrow> (\<And>i q. keeps t (di i q)) \<Longrightarrow> keeps t (case dd of Descent_Leaf \<Rightarrow> dl | Descent_Internal i q \<Rightarrow> di i q)"
  "(\<And>x y. keeps t (h x y)) \<Longrightarrow> keeps t (case xy of (x, y) \<Rightarrow> h x y)"
  by (auto split: node.split insert_outcome.split option.split descent.split prod.split)

lemma kept_put2: "kept t t1 \<Longrightarrow> kept t (put_page t1 q n)"
  by (erule kept_trans) (rule kept_simple)

lemma keeps_alloc: "kept t t1 \<Longrightarrow> keeps t (alloc_page d t1)"
  by (auto simp: keeps_def wp_def dest!: kept_alloc intro: kept_trans)

lemma keeps_take: "kept t t1 \<Longrightarrow> keeps t (take_node_for_write t1 q)"
  by (auto simp: keeps_def wp_def take_node_for_write_def intro: kept_trans [OF _ kept_simple(1)] split: option.splits dirty_page.splits)

lemma keeps_slot: "kept t t1 \<Longrightarrow> keeps t (slot_for d t1 q b)"
  unfolding slot_for_def by (intro keeps_case keeps_Ok keeps_alloc) (auto intro: kept_trans [OF _ kept_simple(3)])

lemma keeps_free: "kept t t1 \<Longrightarrow> keeps1 t (free_overflow_chain f t1 q)"
proof -
  have "kept t t1 \<Longrightarrow> free_chain_loop f t1 q = Ok t' \<Longrightarrow> kept t t'" for f t1 q t'
    by (induction f arbitrary: t1 q) (auto split: if_splits intro: kept_trans [OF _ kept_simple(3)])
  then show "kept t t1 \<Longrightarrow> keeps1 t (free_overflow_chain f t1 q)" by (auto simp: keeps1_def wp_def free_overflow_chain_def)
qed

lemma keeps_alloc_pages: "kept t t1 \<Longrightarrow> keeps t (alloc_pages d n t1)"
  by (induction n arbitrary: t1) (auto intro!: keeps_bind keeps_Ok keeps_alloc)

lemma keeps_chain: "kept t t1 \<Longrightarrow> keeps1 t (write_chain t1 qs cs)"
  by (induction cs arbitrary: t1 qs) (auto simp: keeps1_def wp_def intro: kept_put2)

lemma keeps_store: "kept t t1 \<Longrightarrow> keeps t (store_value d t1 k v)"
  unfolding store_value_def Let_def
  by (intro keeps_case keeps_bind keeps_Ok keeps_alloc_pages keeps_chain keeps_pure, assumption+)

lemma keeps_reserve: "kept t t1 \<Longrightarrow> keeps t (reserve_split_page d t1 q n)"
  unfolding reserve_split_page_def
  by (intro keeps_case keeps_bind keeps_Ok keeps_alloc keeps_take kept_put2, assumption+)

lemmas keeps_ops = keeps_alloc keeps_take keeps_slot keeps_free keeps_store keeps_reserve

lemmas keeps_rules = keeps_case keeps_ops keeps_bind keeps_pure keeps_Ok kept_put2

lemma keeps_split_leaf: "kept t t1 \<Longrightarrow> keeps t (split_leaf d t1 q b bs es)"
  unfolding split_leaf_def Let_def by (intro keeps_rules; assumption?)

lemma keeps_split_internal: "kept t t1 \<Longrightarrow> keeps t (split_internal d t1 q b bs l cs)"
  unfolding split_internal_def Let_def by (intro keeps_rules; assumption?)

lemma keeps_insert_internal: "kept t t1 \<Longrightarrow> keeps t (insert_internal d t1 q i out)"
  unfolding insert_internal_def by (intro keeps_split_internal keeps_rules; assumption?)

lemma keeps_insert_leaf: "kept t t1 \<Longrightarrow> keeps t (insert_leaf d t1 q k v)"
  unfolding insert_leaf_def by (intro keeps_split_leaf keeps_rules; assumption?)

lemma keeps_insert: "kept t t1 \<Longrightarrow> keeps t (insert_into d t1 q k v)"
proof (induction d arbitrary: t1 q)
  case (Suc d)
  show ?case unfolding insert_into.simps
    by (intro keeps_insert_leaf keeps_insert_internal Suc.IH keeps_rules; (rule Suc.prems | assumption)?)
qed (simp add: keeps_Ok)

lemma keeps_delete_leaf: "kept t t1 \<Longrightarrow> keeps t (delete_leaf d t1 q k)"
  unfolding delete_leaf_def by (intro keeps_rules; (assumption | erule kept_trans, rule kept_simple)?)

lemma keeps_delete: "kept t t1 \<Longrightarrow> keeps t (delete_from d t1 q k)"
proof (induction d arbitrary: t1 q)
  case (Suc d)
  show ?case unfolding delete_from.simps
    by (intro keeps_delete_leaf Suc.IH keeps_rules; (rule Suc.prems | assumption)?)
qed (auto intro: keeps_rules)

definition run_writes :: "nat \<Rightarrow> cow_btree \<Rightarrow> write_op list \<Rightarrow> cow_btree result" where
  "run_writes d t ws = rfold (run_write d) t ws"

lemma kept_put: "put d t k v = Ok t' \<Longrightarrow> kept t t'"
proof -
  assume p: "put d t k v = Ok t'"
  then obtain out t1 where i: "insert_into d (begin_txn t) (t_pending_root (begin_txn t)) k v = Ok (out, t1)"
    by (auto simp: put_def Let_def split: if_splits)
  have k1: "kept t t1" using keeps_insert [OF kept_simple(5), of t d _ k v] i by (fastforce simp: keeps_def wp_def)
  have "kept t1 t'"
    using p i by (auto simp: put_def Let_def kept_def put_page_def split: if_splits insert_outcome.split_asm dest!: kept_alloc)
  then show ?thesis using k1 kept_trans by blast
qed

lemma kept_delete: "delete d t k = Ok t' \<Longrightarrow> kept t t'"
  using keeps_delete [OF kept_simple(5), of t d "t_pending_root (begin_txn t)" k]
  by (auto simp: delete_def Let_def keeps_def wp_def kept_def)

lemma kept_run: "run_writes d t ws = Ok t' \<Longrightarrow> kept t t'"
  unfolding run_writes_def
proof (induction ws arbitrary: t)
  case (Cons w ws)
  then obtain t1 where t1: "run_write d t w = Ok t1" "rfold (run_write d) t1 ws = Ok t'" by auto
  have "kept t t1" using t1(1) kept_put kept_delete by (auto simp: run_write_def split: write_op.splits)
  then show ?case using Cons.IH [OF t1(2)] by (rule kept_trans)
qed simp

text \<open>Reads see only the nodes and the values.\<close>

lemma kept_view:
  assumes "kept t t'"
  shows "node_at t' q False = node_at t q False" "resolve_value_at t' bs v False = resolve_value_at t bs v False"
proof -
  have eq: "t_read t' = t_read t" "t_page_size t' = t_page_size t" "t_format_version t' = t_format_version t" using assms by (auto simp: kept_def)
  then show "node_at t' q False = node_at t q False" by (simp add: node_at_def committed_node_def)
  have "read_chain f t' False len q out = read_chain f t False len q out" for f len q out
    by (induction f arbitrary: q out) (auto simp: read_overflow_page_def eq intro: rbind_cong)
  then show "resolve_value_at t' bs v False = resolve_value_at t bs v False"
    by (simp add: resolve_value_at_def eq Let_def split: value_ref.splits)
qed

lemma same_view_reads:
  assumes "\<And>q. node_at t' q p' = node_at t q p" "\<And>bs v. resolve_value_at t' bs v p' = resolve_value_at t bs v p"
  shows "descend_get d t' q k p' = descend_get d t q k p" "walk d t' b p' q out = walk d t b p q out"
proof -
  show "descend_get d t' q k p' = descend_get d t q k p"
    by (induction d arbitrary: q) (auto simp: assms intro!: rbind_cong split: node.split found.split)
  have e: "walk_entries t' p' bs b es out = walk_entries t p bs b es out" for bs es out
    by (induction es arbitrary: out) (auto simp: assms intro!: rbind_cong)
  show "walk d t' b p' q out = walk d t b p q out"
  proof (induction d arbitrary: q out)
    case (Suc d)
    have "walk d t' b p' = walk d t b p" using Suc by (intro ext)
    then show ?case by (auto simp: assms e intro!: rbind_cong split: node.split)
  qed simp
qed

section \<open>Properties\<close>

text \<open>
  a put on a well-formed tree returns, and afterwards the key maps to the value and every
  other key to what it mapped to; the tree is at most one level higher and still well formed.
\<close>

theorem put_binds_key:
  assumes "tree_inv h t" "h \<le> d" "key_fits (t_page_size t) k" "value_storable (t_page_size t) v"
    "room (t_pending_next (begin_txn t)) (chain_count (t_page_size t) v + 2 * h + 1)"
  shows "\<exists>t' h'. put d t k v = Ok t' \<and> h' \<le> Suc h \<and> tree_inv h' t' \<and> entries_of h' t' = upd k v (entries_of h t) \<and>
    get (Suc d) t' a = (if a = k then Ok (Some v) else get d t a)"
proof -
  obtain h' t' where p: "put d t k v = Ok t'" "h' \<in> {h, Suc h}" "tree_inv h' t'" "entries_of h' t' = upd k v (entries_of h t)"
    using put_spec [OF assms(1,3,4,5,2)] by blast
  have "get (Suc d) t' a = Ok (map_of (upd k v (entries_of h t)) a)" using get_entries [OF p(3), of "Suc d" a] p(2,4) assms(2) by auto
  then show ?thesis using p get_entries [OF assms(1,2), of a] by (intro exI [of _ t'] exI [of _ h']) (auto simp: upd_lookup)
qed

definition empty_tree :: cow_btree where
  "empty_tree = sample_tree\<lparr>t_dirty := Map.empty, t_pending_root := 0, t_pending_next := 1, t_has_pending := False\<rparr>"

lemma empty_tree_inv: "tree_inv 1 empty_tree" "entries_of 1 empty_tree = []" "t_page_size empty_tree = 4096"
  "t_pending_next (begin_txn empty_tree) = 1"
  by (simp_all add: tree_inv_def txn_tree_def begin_txn_def empty_tree_def sample_tree_def good_def entries_of_def read_root_def below_def)

theorem put_binds_key_witness:
  "\<exists>t' h'. put 1 empty_tree [7] [8, 9] = Ok t' \<and> h' \<le> Suc 1 \<and> tree_inv h' t' \<and>
     entries_of h' t' = upd [7] [8, 9] (entries_of 1 empty_tree) \<and> get (Suc 1) t' [7] = (if [7 :: u8] = [7] then Ok (Some [8, 9]) else get 1 empty_tree [7])"
  by (rule put_binds_key) (simp_all add: empty_tree_inv key_fits_def value_storable_def max_record_len_def wal_region_len_def
      wal_blocks_def chain_count_def overflow_payload_size_def page_consts room_def del: One_nat_def)

text \<open>
  a delete on a well-formed tree returns, removes the key and nothing else, and keeps the
  tree well formed at the same height.
\<close>

theorem delete_removes_key:
  assumes "tree_inv h t" "h \<le> d" "room (t_pending_next (begin_txn t)) h"
  shows "\<exists>t'. delete d t k = Ok t' \<and> tree_inv h t' \<and> entries_of h t' = filter (\<lambda>x. fst x \<noteq> k) (entries_of h t) \<and>
    get d t' a = (if a = k then Ok None else get d t a)"
proof -
  obtain t' where p: "delete d t k = Ok t'" "tree_inv h t'" "entries_of h t' = del k (entries_of h t)"
    using delete_spec [OF assms(1,3,2)] by blast
  then show ?thesis
    using get_entries [OF p(2) assms(2), of a] get_entries [OF assms(1,2), of a] del_lookup [of k "entries_of h t" a]
    by (intro exI [of _ t']) (auto simp: del_def)
qed

theorem delete_removes_key_witness:
  "\<exists>t'. delete 1 empty_tree [7] = Ok t' \<and> tree_inv 1 t' \<and> entries_of 1 t' = filter (\<lambda>x. fst x \<noteq> [7]) (entries_of 1 empty_tree) \<and>
     get 1 t' [7] = (if [7 :: u8] = [7] then Ok None else get 1 empty_tree [7])"
  by (rule delete_removes_key) (simp_all add: empty_tree_inv room_def del: One_nat_def)

text \<open>
  C1: any sequence of writes to a well-formed tree succeeds and acts on lookups as the same
  sequence of updates acts on a finite map.
\<close>

theorem writes_refine_map:
  assumes "tree_inv h t" "h + length ws \<le> d" "\<forall>k v. Put k v \<in> set ws \<longrightarrow> tree_storable (t_page_size t) cap k v"
    "room (t_pending_next (begin_txn t)) (length ws * write_cost d cap)"
  shows "\<exists>t'. run_writes d t ws = Ok t' \<and> (\<forall>a. get d t' a = Ok (foldl spec_op (map_of (entries_of h t)) ws a))"
proof -
  have "store_inv (t_page_size t) d cap (length ws) t" using assms by (auto simp: store_inv_def)
  moreover have "\<forall>a. get d t a = Ok (map_of (entries_of h t) a)" using get_entries [OF assms(1)] assms(2) by simp
  ultimately show ?thesis using tree.run_refines [OF _ order_refl assms(3)] unfolding run_write_op run_writes_def by blast
qed

theorem writes_refine_map_witness:
  "\<exists>t'. run_writes 4 empty_tree [Put [1] [10], Put [2] [20], Remove [1]] = Ok t' \<and>
     (\<forall>a. get 4 t' a = Ok (foldl spec_op (map_of (entries_of 1 empty_tree)) [Put [1] [10], Put [2] [20], Remove [1]] a))"
  by (rule writes_refine_map [where cap = 1])
    (auto simp: empty_tree_inv tree_storable_def key_fits_def value_storable_def max_record_len_def wal_region_len_def write_cost_def
      wal_blocks_def chain_count_def overflow_payload_size_def page_consts room_def simp del: One_nat_def)

text \<open>
  C10: whatever a transaction writes, also when it recycles pages, reads of a committed root
  return what they returned before.
\<close>

theorem committed_reads_isolated:
  assumes "run_writes d t ws = Ok t'"
  shows "get_from_root e t' root k = get_from_root e t root k"
  unfolding get_from_root_def by (rule same_view_reads(1)) (rule kept_view [OF kept_run [OF assms]])+

theorem committed_reads_isolated_witness:
  "\<exists>t'. run_writes 2 empty_tree [Put [1] [10]] = Ok t' \<and> get_from_root 2 t' 0 [1] = get_from_root 2 empty_tree 0 [1]"
proof -
  obtain t' where "run_writes 2 empty_tree [Put [1] [10]] = Ok t'"
    using put_spec [OF empty_tree_inv(1), of "[1]" "[10]" 2]
    by (auto simp: run_writes_def run_write_def empty_tree_inv key_fits_def value_storable_def max_record_len_def wal_region_len_def
        wal_blocks_def chain_count_def overflow_payload_size_def page_consts room_def)
  with committed_reads_isolated [OF this] show ?thesis by blast
qed



text \<open>
  a value of any length within the log's capacity reads back unchanged after it is stored,
  inline or cut into a chain of overflow pages, without touching pages allocated before.
\<close>

theorem stored_value_reads_back:
  assumes "\<not> t_reuse_enabled t" "key_fits (t_page_size t) k" "value_storable (t_page_size t) v"
    "room (t_pending_next t) (chain_count (t_page_size t) v)"
  shows "\<exists>r t'. store_value d t k v = Ok (r, t') \<and> resolve_value_at t' bs r True = Ok v \<and>
    (\<forall>q < t_pending_next t. t_dirty t' q = t_dirty t q)"
proof -
  obtain r t1 where s: "store_value d t k v = Ok (r, t1)" "grown (chain_count (t_page_size t) v) t t1 {}" "resolve_value_at t1 bs r True = Ok v"
    using store_value_grown [OF assms] by metis
  have "\<forall>q < t_pending_next t. t_dirty t1 q = t_dirty t q" using s(2) by (auto simp: grown_def fresh_def not_less dest: leD)
  then show ?thesis using s by blast
qed

theorem stored_value_reads_back_witness:
  "\<exists>r t'. store_value 1 empty_tree [7] (replicate 5000 1) = Ok (r, t') \<and> resolve_value_at t' [] r True = Ok (replicate 5000 1) \<and>
     (\<forall>q < t_pending_next empty_tree. t_dirty t' q = t_dirty empty_tree q)"
  by (rule stored_value_reads_back)
    (simp_all add: empty_tree_inv key_fits_def value_storable_def max_record_len_def wal_region_len_def
      wal_blocks_def chain_count_def overflow_payload_size_def page_consts room_def, simp_all add: empty_tree_def sample_tree_def)

end
