(* ===== verification/Float64.thy ===== *)
theory Float64
  imports Byte_Codec
begin

text \<open>
  The \<open>f64\<close> of the sources as its 64-bit pattern (\<open>f64::to_bits\<close>): sign, exponent and
  fraction fields, \<open>is_nan\<close>, the IEEE comparison \<open>partial_cmp\<close>, and the conversion
  \<open>i64 as f64\<close> (round to nearest, ties to even). A non-NaN pattern denotes
  \<open>f64_scaled\<close> units of \<open>2^-1074\<close>, the spacing of the subnormals, so comparisons are
  comparisons of integers; the two infinities lie beyond every finite value. The facts the
  index encoding rests on: the denoted value grows strictly with the magnitude bits, the
  conversion of integers is monotone, and it is exact up to \<open>2^53\<close>.
\<close>

type_synonym f64 = "64 word"
type_synonym i64 = "64 word"
type_synonym f32 = "32 word"

section \<open>Fields and comparison\<close>

definition f64_negative :: "f64 \<Rightarrow> bool" where
  "f64_negative w \<longleftrightarrow> 2 ^ 63 \<le> unat w"

definition f64_magnitude :: "f64 \<Rightarrow> nat" where
  "f64_magnitude w = unat w mod 2 ^ 63"

definition f64_is_nan :: "f64 \<Rightarrow> bool" where
  "f64_is_nan w \<longleftrightarrow> f64_magnitude w div 2 ^ 52 = 2047 \<and> f64_magnitude w mod 2 ^ 52 \<noteq> 0"

definition f64_units :: "nat \<Rightarrow> nat" where
  "f64_units n = (let e = n div 2 ^ 52; m = n mod 2 ^ 52 in if e = 0 then m else (2 ^ 52 + m) * 2 ^ (e - 1))"

definition f64_scaled :: "f64 \<Rightarrow> int" where
  "f64_scaled w = (if f64_negative w then - int (f64_units (f64_magnitude w)) else int (f64_units (f64_magnitude w)))"

definition f64_partial_cmp :: "f64 \<Rightarrow> f64 \<Rightarrow> ordering option" where
  "f64_partial_cmp a b =
     (if f64_is_nan a \<or> f64_is_nan b then None else Some (cmp (f64_scaled a) (f64_scaled b)))"

definition f64_eq :: "f64 \<Rightarrow> f64 \<Rightarrow> bool" where
  "f64_eq a b \<longleftrightarrow> f64_partial_cmp a b = Some Equal"

section \<open>The value grows with the magnitude bits\<close>

lemma units_step:
  fixes P :: nat
  assumes "0 < P"
  defines "u \<equiv> \<lambda>n. if n div P = 0 then n mod P else (P + n mod P) * 2 ^ (n div P - 1)"
  shows "u n < u (Suc n)"
proof (cases "Suc (n mod P) = P")
  case False
  then have "Suc n mod P = Suc (n mod P)" "Suc n div P = n div P"
    by (auto simp: mod_Suc div_Suc)
  then show ?thesis by (simp add: u_def)
next
  case True
  then have s: "Suc n mod P = 0" "Suc n div P = Suc (n div P)"
    by (auto simp: mod_Suc div_Suc)
  show ?thesis
  proof (cases "n div P")
    case 0
    have "n mod P < P" using assms(1) by simp
    then show ?thesis using 0 s by (simp add: u_def)
  next
    case (Suc k)
    have "P + n mod P < 2 * P" using True by simp
    then have "(P + n mod P) * 2 ^ k < 2 * P * 2 ^ k"
      by (intro mult_strict_right_mono) auto
    then show ?thesis using Suc s by (simp add: u_def mult.commute mult.left_commute)
  qed
qed

lemma f64_units_eq:
  "f64_units = (\<lambda>n. if n div 2 ^ 52 = 0 then n mod 2 ^ 52 else (2 ^ 52 + n mod 2 ^ 52) * 2 ^ (n div 2 ^ 52 - 1))"
  by (rule ext) (simp only: f64_units_def Let_def)

lemma f64_units_strict_mono: "strict_mono f64_units"
  unfolding f64_units_eq strict_mono_Suc_iff
  by (rule allI, rule units_step) simp

lemma f64_units_less_iff [simp]: "f64_units a < f64_units b \<longleftrightarrow> a < b"
  using f64_units_strict_mono by (rule strict_mono_less)

lemma f64_units_eq_iff [simp]: "f64_units a = f64_units b \<longleftrightarrow> a = b"
  using f64_units_strict_mono by (rule strict_mono_eq)

lemma f64_units_zero [simp]: "f64_units 0 = 0"
  by (simp add: f64_units_def)

lemma f64_units_eq_0 [simp]: "f64_units a = 0 \<longleftrightarrow> a = 0"
  using f64_units_eq_iff [of a 0] by simp

lemma f64_magnitude_bound: "f64_magnitude w < 2 ^ 63"
  by (simp add: f64_magnitude_def)

lemma unat_f64: "unat w = (if f64_negative w then 2 ^ 63 + f64_magnitude w else f64_magnitude w)"
proof -
  have b: "unat w < 2 ^ 63 + 2 ^ 63" using unsigned_less [of w, where ?'a = nat] by simp
  show ?thesis
  proof (cases "2 ^ 63 \<le> unat w")
    case True
    then obtain k where k: "unat w = 2 ^ 63 + k" by (auto simp: le_iff_add)
    with b have "k < 2 ^ 63" by simp
    then show ?thesis using k by (simp add: f64_negative_def f64_magnitude_def)
  qed (simp add: f64_negative_def f64_magnitude_def)
qed

lemma f64_zero [simp]: "f64_magnitude 0 = 0" "\<not> f64_negative 0" "f64_scaled 0 = 0" "\<not> f64_is_nan 0"
  by (simp_all add: f64_magnitude_def f64_negative_def f64_scaled_def f64_is_nan_def)

lemma f64_eq_zero: "\<not> f64_is_nan v \<Longrightarrow> f64_eq v 0 \<longleftrightarrow> f64_magnitude v = 0"
  by (simp add: f64_eq_def f64_partial_cmp_def f64_scaled_def)

lemma f64_partial_cmp_num:
  "\<not> f64_is_nan a \<Longrightarrow> \<not> f64_is_nan b \<Longrightarrow> f64_partial_cmp a b = Some (cmp (f64_scaled a) (f64_scaled b))"
  by (simp add: f64_partial_cmp_def)

section \<open>Integers as floats\<close>

fun bit_length :: "nat \<Rightarrow> nat" where
  "bit_length n = (if n = 0 then 0 else Suc (bit_length (n div 2)))"

declare bit_length.simps [simp del]

text \<open>Shift right by \<open>s\<close>, rounding to the nearest and ties to the even quotient.\<close>

definition round_shift :: "nat \<Rightarrow> nat \<Rightarrow> nat" where
  "round_shift n s =
     (let q = n div 2 ^ s; r = n mod 2 ^ s; half = 2 ^ (s - 1)
      in if half < r \<or> (r = half \<and> odd q) then q + 1 else q)"

text \<open>
  The magnitude bits of the float nearest to \<open>n\<close>: with \<open>e + 1\<close> significant bits the
  exponent field is \<open>e + 1023\<close>; the significand, hidden bit included, is added to the field
  minus one, so that a significand rounded up to the next power of two carries into it.
\<close>

definition nat_to_f64 :: "nat \<Rightarrow> nat" where
  "nat_to_f64 n =
     (if n = 0 then 0
      else let e = bit_length n - 1
           in (e + 1022) * 2 ^ 52 + (if e \<le> 52 then n * 2 ^ (52 - e) else round_shift n (e - 52)))"

definition i64_to_f64 :: "i64 \<Rightarrow> f64" where
  "i64_to_f64 i =
     (if sint i < 0 then of_nat (2 ^ 63 + nat_to_f64 (nat (- sint i))) else of_nat (nat_to_f64 (nat (sint i))))"

lemma bit_length_bounds: "0 < n \<Longrightarrow> 2 ^ (bit_length n - 1) \<le> n \<and> n < 2 ^ bit_length n \<and> 0 < bit_length n"
proof (induction n rule: bit_length.induct)
  case (1 n)
  show ?case
  proof (cases "n div 2 = 0")
    case True
    with 1 have "n = 1" by simp
    then show ?thesis by (simp add: bit_length.simps)
  next
    case False
    with 1 have IH: "2 ^ (bit_length (n div 2) - 1) \<le> n div 2" "n div 2 < 2 ^ bit_length (n div 2)" "0 < bit_length (n div 2)"
      by auto
    have e: "bit_length n = Suc (bit_length (n div 2))" using 1 by (subst bit_length.simps) simp
    obtain k where k: "bit_length (n div 2) = Suc k" using IH(3) by (cases "bit_length (n div 2)") auto
    have "2 * 2 ^ k \<le> n" "n < 2 * 2 ^ Suc k" using IH k by auto
    then show ?thesis using e k by simp
  qed
qed

lemma bit_length_mono: "a \<le> b \<Longrightarrow> bit_length a \<le> bit_length b"
proof (induction a arbitrary: b rule: bit_length.induct)
  case (1 a)
  show ?case
  proof (cases "a = 0")
    case False
    with 1 have "b \<noteq> 0" "bit_length (a div 2) \<le> bit_length (b div 2)" by (auto simp: div_le_mono)
    then show ?thesis using False by (simp add: bit_length.simps [of a] bit_length.simps [of b])
  qed (simp add: bit_length.simps)
qed

lemma round_shift_mono: "a \<le> b \<Longrightarrow> round_shift a s \<le> round_shift b s"
proof -
  assume le: "a \<le> b"
  then have "a div 2 ^ s \<le> b div 2 ^ s" by (rule div_le_mono)
  then consider "a div 2 ^ s < b div 2 ^ s" | "a div 2 ^ s = b div 2 ^ s" by linarith
  then show ?thesis
  proof cases
    case 1
    then show ?thesis by (auto simp: round_shift_def Let_def)
  next
    case 2
    have "a div 2 ^ s * 2 ^ s + a mod 2 ^ s \<le> b div 2 ^ s * 2 ^ s + b mod 2 ^ s"
      using le by (simp only: div_mult_mod_eq)
    with 2 have "a mod 2 ^ s \<le> b mod 2 ^ s" by simp
    with 2 show ?thesis by (auto simp: round_shift_def Let_def)
  qed
qed

text \<open>The significand lies between \<open>2^52\<close> and \<open>2^53\<close>, both included.\<close>

lemma significand_bounds:
  assumes "2 ^ e \<le> n" "n < 2 ^ Suc e"
  shows "2 ^ 52 \<le> (if e \<le> 52 then n * 2 ^ (52 - e) else round_shift n (e - 52))
       \<and> (if e \<le> 52 then n * 2 ^ (52 - e) else round_shift n (e - 52)) \<le> (2 ^ 53 :: nat)"
proof (cases "e \<le> 52")
  case True
  have "2 ^ e * 2 ^ (52 - e) \<le> n * 2 ^ (52 - e)" "n * 2 ^ (52 - e) \<le> 2 ^ Suc e * 2 ^ (52 - e)"
    by (rule mult_le_mono1, use assms in simp)+
  moreover have "(2 :: nat) ^ e * 2 ^ (52 - e) = 2 ^ 52" "(2 :: nat) ^ Suc e * 2 ^ (52 - e) = 2 ^ 53"
    unfolding power_add [symmetric] using True by (auto intro: arg_cong [where f = "\<lambda>k. 2 ^ k"])
  ultimately show ?thesis using True by (simp only: if_True simp_thms)
next
  case False
  define s where "s = e - 52"
  have e: "e = 52 + s" using False by (simp add: s_def)
  have lo: "2 ^ 52 \<le> n div 2 ^ s"
    using div_le_mono [OF assms(1), of "2 ^ s"] by (simp add: e power_add)
  have "n < 2 ^ 53 * 2 ^ s" using assms(2) by (simp add: e power_add)
  then have hi: "n div 2 ^ s < 2 ^ 53" by (simp add: less_mult_imp_div_less)
  from lo hi show ?thesis using False by (auto simp: round_shift_def Let_def s_def)
qed

lemma nat_to_f64_mono: "a \<le> b \<Longrightarrow> nat_to_f64 a \<le> nat_to_f64 b"
proof (cases "a = 0")
  case True
  then show ?thesis by (simp add: nat_to_f64_def)
next
  case False
  assume le: "a \<le> b"
  define ea where "ea = bit_length a - 1"
  define eb where "eb = bit_length b - 1"
  define sig where "sig = (\<lambda>n e. if e \<le> 52 then n * 2 ^ (52 - e) else round_shift n (e - 52))"
  have a: "2 ^ ea \<le> a" "a < 2 ^ Suc ea" and b: "2 ^ eb \<le> b" "b < 2 ^ Suc eb"
    using bit_length_bounds [of a] bit_length_bounds [of b] False le by (auto simp: ea_def eb_def)
  have sa: "sig a ea \<le> 2 ^ 53" and sb: "2 ^ 52 \<le> sig b eb"
    using significand_bounds [OF a] significand_bounds [OF b] by (simp_all add: sig_def)
  have va: "nat_to_f64 a = (ea + 1022) * 2 ^ 52 + sig a ea" and vb: "nat_to_f64 b = (eb + 1022) * 2 ^ 52 + sig b eb"
    using False le by (simp_all add: nat_to_f64_def Let_def sig_def ea_def eb_def)
  have "ea \<le> eb" using bit_length_mono [OF le] by (simp add: ea_def eb_def)
  then consider "ea < eb" | "ea = eb" by linarith
  then show ?thesis
  proof cases
    case 1
    then have "(ea + 1022) * 2 ^ 52 + 2 ^ 52 \<le> (eb + 1022) * (2 ^ 52 :: nat)" by simp
    then show ?thesis using sa sb unfolding va vb by simp
  next
    case 2
    have "sig a eb \<le> sig b eb" using le by (simp add: sig_def round_shift_mono)
    then show ?thesis using 2 unfolding va vb by simp
  qed
qed

lemma nat_to_f64_bound: "n \<le> 2 ^ 63 \<Longrightarrow> nat_to_f64 n \<le> 1086 * 2 ^ 52"
proof -
  assume "n \<le> 2 ^ 63"
  then have "nat_to_f64 n \<le> nat_to_f64 (2 ^ 63)" by (rule nat_to_f64_mono)
  also have "nat_to_f64 (2 ^ 63) = 1086 * 2 ^ 52" by (simp add: nat_to_f64_def bit_length.simps round_shift_def)
  finally show ?thesis .
qed

text \<open>Up to \<open>2^53\<close> the conversion is exact.\<close>

lemma f64_units_nat_exact:
  assumes "n \<le> 2 ^ 53"
  shows "f64_units (nat_to_f64 n) = n * 2 ^ 1074"
proof (cases "n = 0 \<or> n = 2 ^ 53")
  case True
  have "nat_to_f64 (2 ^ 53) = 1076 * 2 ^ 52" by (simp add: nat_to_f64_def bit_length.simps round_shift_def)
  then have "f64_units (nat_to_f64 (2 ^ 53)) = 2 ^ 52 * 2 ^ 1075" by (simp add: f64_units_def del: power_numeral)
  also have "\<dots> = 2 ^ 53 * 2 ^ 1074"
    unfolding power_add [symmetric] by (intro arg_cong [where f = "\<lambda>k. 2 ^ k"]) simp
  finally show ?thesis using True by (auto simp: nat_to_f64_def simp del: power_numeral)
next
  case False
  define e where "e = bit_length n - 1"
  have b: "2 ^ e \<le> n" "n < 2 ^ Suc e" using bit_length_bounds [of n] False by (auto simp: e_def)
  have "(2 :: nat) ^ e < 2 ^ 53" using b(1) assms False by simp
  then have e: "e \<le> 52" by (simp only: power_strict_increasing_iff)
  define s where "s = n * 2 ^ (52 - e)"
  have "2 ^ 52 \<le> s \<and> s \<le> 2 ^ 53" using significand_bounds [OF b] e by (simp add: s_def)
  moreover have "s < 2 ^ Suc e * 2 ^ (52 - e)" using b by (simp add: s_def)
  moreover have "(2 :: nat) ^ Suc e * 2 ^ (52 - e) = 2 ^ 53"
    unfolding power_add [symmetric] using e by (auto intro: arg_cong [where f = "\<lambda>k. 2 ^ k"])
  ultimately obtain m where m: "s = 2 ^ 52 + m" "m < 2 ^ 52"
    by (metis le_iff_add nat_add_left_cancel_less numeral_Bit1 numeral_One One_nat_def power_Suc mult_2 numeral_eq_Suc pred_numeral_simps(3))
  have fields: "nat_to_f64 n = (e + 1022) * 2 ^ 52 + s"
    using False e by (simp add: nat_to_f64_def Let_def e_def s_def)
  have "nat_to_f64 n = (e + 1023) * 2 ^ 52 + m"
    using fields m(1) by simp
  then have "nat_to_f64 n div 2 ^ 52 = e + 1023" "nat_to_f64 n mod 2 ^ 52 = m"
    using m(2) by (simp_all only: div_mult_self3 mod_mult_self3) (simp_all)
  then have "f64_units (nat_to_f64 n) = (2 ^ 52 + m) * 2 ^ (e + 1022)"
    by (simp add: f64_units_def)
  also have "\<dots> = n * (2 ^ (52 - e) * 2 ^ (e + 1022))" using m(1) by (simp only: s_def [symmetric] mult.assoc [symmetric])
  also have "(2 :: nat) ^ (52 - e) * 2 ^ (e + 1022) = 2 ^ 1074"
    unfolding power_add [symmetric] using e by (intro arg_cong [where f = "\<lambda>k. 2 ^ k"]) simp
  finally show ?thesis .
qed

text \<open>Signed integers: the conversion keeps the sign and rounds the magnitude.\<close>

lemma sint_u64_range: "- (2 ^ 63) \<le> sint (i :: i64)" "sint (i :: i64) < 2 ^ 63"
  using sint_ge [of i] sint_lt [of i] by simp_all

lemma i64_magnitude: "nat \<bar>sint (i :: i64)\<bar> \<le> 2 ^ 63"
  using sint_u64_range [of i] by (simp add: nat_le_iff abs_le_iff)

lemma i64_to_f64_fields:
  shows "f64_negative (i64_to_f64 i) \<longleftrightarrow> sint i < 0"
    and "f64_magnitude (i64_to_f64 i) = nat_to_f64 (nat \<bar>sint i\<bar>)"
proof -
  have b: "nat_to_f64 (nat \<bar>sint i\<bar>) < 2 ^ 63" using nat_to_f64_bound [OF i64_magnitude [of i]] by simp
  have u: "unat (i64_to_f64 i) = (if sint i < 0 then 2 ^ 63 else 0) + nat_to_f64 (nat \<bar>sint i\<bar>)"
    unfolding i64_to_f64_def using b
    by (cases "sint i < 0") (simp_all only: if_True if_False, (subst unat_of_nat_u64; simp)+)
  show "f64_negative (i64_to_f64 i) \<longleftrightarrow> sint i < 0"
    using b u by (auto simp: f64_negative_def)
  show "f64_magnitude (i64_to_f64 i) = nat_to_f64 (nat \<bar>sint i\<bar>)"
    using b by (auto simp: f64_magnitude_def u)
qed

lemma i64_to_f64_not_nan [simp]: "\<not> f64_is_nan (i64_to_f64 i)"
proof -
  have "f64_magnitude (i64_to_f64 i) \<le> 1086 * 2 ^ 52"
    using nat_to_f64_bound [OF i64_magnitude [of i]] by (simp only: i64_to_f64_fields)
  then have "f64_magnitude (i64_to_f64 i) div 2 ^ 52 \<le> 1086 * 2 ^ 52 div 2 ^ 52" by (rule div_le_mono)
  then show ?thesis by (simp add: f64_is_nan_def)
qed

lemma f64_scaled_i64:
  "f64_scaled (i64_to_f64 i) =
     (if sint i < 0 then - int (f64_units (nat_to_f64 (nat \<bar>sint i\<bar>))) else int (f64_units (nat_to_f64 (nat \<bar>sint i\<bar>))))"
  by (simp add: f64_scaled_def i64_to_f64_fields)

lemma i64_to_f64_mono: "sint a \<le> sint b \<Longrightarrow> f64_scaled (i64_to_f64 a) \<le> f64_scaled (i64_to_f64 b)"
proof -
  assume le: "sint a \<le> sint b"
  have mono: "f64_units (nat_to_f64 m) \<le> f64_units (nat_to_f64 n)" if "m \<le> n" for m n
    using nat_to_f64_mono [OF that] by (simp add: le_less)
  show ?thesis
    using le mono [of "nat \<bar>sint a\<bar>" "nat \<bar>sint b\<bar>"] mono [of "nat \<bar>sint b\<bar>" "nat \<bar>sint a\<bar>"]
    by (auto simp: f64_scaled_i64)
qed

text \<open>The integers a double holds exactly.\<close>

definition f64_exact :: "i64 \<Rightarrow> bool" where
  "f64_exact i \<longleftrightarrow> \<bar>sint i\<bar> \<le> 2 ^ 53"

lemma f64_scaled_exact: "f64_exact i \<Longrightarrow> f64_scaled (i64_to_f64 i) = sint i * 2 ^ 1074"
proof -
  assume "f64_exact i"
  then have "nat \<bar>sint i\<bar> \<le> 2 ^ 53" by (simp add: f64_exact_def)
  then have "int (f64_units (nat_to_f64 (nat \<bar>sint i\<bar>))) = \<bar>sint i\<bar> * 2 ^ 1074"
    by (simp only: f64_units_nat_exact of_nat_mult of_nat_power) simp
  then show ?thesis by (simp only: f64_scaled_i64 split: if_split) (auto simp: abs_if)
qed

lemma f64_scaled_exact_less_iff:
  "f64_exact a \<Longrightarrow> f64_exact b \<Longrightarrow> f64_scaled (i64_to_f64 a) < f64_scaled (i64_to_f64 b) \<longleftrightarrow> sint a < sint b"
  by (simp only: f64_scaled_exact mult_less_cancel_right) simp

end
