(* ===== verification/Value.thy ===== *)
theory Value
  imports Float64
begin

text \<open>
  Column types and runtime values (\<^verbatim>\<open>src/crates/inlaysql-core/src/value.rs\<close>). A
  \<open>TEXT\<close> value is the UTF-8 bytes of its \<open>str\<close>; an \<open>i64\<close> and an \<open>f64\<close> are their
  64-bit patterns, an \<open>f32\<close> its 32-bit pattern. \<open>value_ref\<close> is the borrowed twin the row
  decoder builds; lifetimes are not modelled, so borrowing and owning differ only in their
  type. The UTF-8 check of \<open>core::str::from_utf8\<close> is written out.
\<close>

datatype data_type =
    DtInteger | DtReal | DtText | DtBlob | DtNumeric | DtVector nat | DtQuantizedVector nat | DtAny

fun vector_dim :: "data_type \<Rightarrow> nat option" where
  "vector_dim (DtVector dim) = Some dim"
| "vector_dim (DtQuantizedVector dim) = Some dim"
| "vector_dim _ = None"

fun is_quantized_vector :: "data_type \<Rightarrow> bool" where
  "is_quantized_vector (DtQuantizedVector _) = True"
| "is_quantized_vector _ = False"

datatype sql_value = Null | Integer i64 | Real f64 | Text bytes | Blob bytes | Vector "f32 list"

fun type_name :: "sql_value \<Rightarrow> string" where
  "type_name Null = ''NULL''"
| "type_name (Integer _) = ''INTEGER''"
| "type_name (Real _) = ''REAL''"
| "type_name (Text _) = ''TEXT''"
| "type_name (Blob _) = ''BLOB''"
| "type_name (Vector _) = ''VECTOR''"

text \<open>\<open>Value::as_str\<close>, \<open>as_vector\<close>, \<open>as_i64\<close> and \<open>as_f64\<close>, which widens integers.\<close>

fun as_str :: "sql_value \<Rightarrow> bytes option" where
  "as_str (Text s) = Some s"
| "as_str _ = None"

fun as_vector :: "sql_value \<Rightarrow> f32 list option" where
  "as_vector (Vector v) = Some v"
| "as_vector _ = None"

fun as_i64 :: "sql_value \<Rightarrow> i64 option" where
  "as_i64 (Integer i) = Some i"
| "as_i64 _ = None"

fun as_f64 :: "sql_value \<Rightarrow> f64 option" where
  "as_f64 (Integer i) = Some (i64_to_f64 i)"
| "as_f64 (Real r) = Some r"
| "as_f64 _ = None"

datatype value_ref = RNull | RInteger i64 | RReal f64 | RText bytes | RBlob bytes | RVector "f32 list"

fun to_owned_value :: "value_ref \<Rightarrow> sql_value" where
  "to_owned_value RNull = Null"
| "to_owned_value (RInteger i) = Integer i"
| "to_owned_value (RReal r) = Real r"
| "to_owned_value (RText s) = Text s"
| "to_owned_value (RBlob b) = Blob b"
| "to_owned_value (RVector v) = Vector v"

text \<open>\<open>impl From<&Value> for ValueRef\<close>.\<close>

fun value_ref_from :: "sql_value \<Rightarrow> value_ref" where
  "value_ref_from Null = RNull"
| "value_ref_from (Integer i) = RInteger i"
| "value_ref_from (Real r) = RReal r"
| "value_ref_from (Text s) = RText s"
| "value_ref_from (Blob b) = RBlob b"
| "value_ref_from (Vector v) = RVector v"

lemma to_owned_value_from [simp]: "to_owned_value (value_ref_from v) = v"
  by (cases v) simp_all

lemma value_ref_from_owned [simp]: "value_ref_from (to_owned_value r) = r"
  by (cases r) simp_all

section \<open>UTF-8\<close>

text \<open>
  \<open>core::str::from_utf8\<close>: the well-formed byte sequences of the Unicode standard (no
  overlong forms, no surrogates, nothing above \<open>U+10FFFF\<close>).
\<close>

definition in_range :: "nat \<Rightarrow> nat \<Rightarrow> u8 \<Rightarrow> bool" where
  "in_range lo hi b \<longleftrightarrow> lo \<le> unat b \<and> unat b \<le> hi"

abbreviation utf8_cont :: "u8 \<Rightarrow> bool" where
  "utf8_cont \<equiv> in_range 0x80 0xBF"

definition utf8_two :: "u8 \<Rightarrow> u8 \<Rightarrow> bool" where
  "utf8_two a b \<longleftrightarrow> in_range 0xC2 0xDF a \<and> utf8_cont b"

definition utf8_three :: "u8 \<Rightarrow> u8 \<Rightarrow> u8 \<Rightarrow> bool" where
  "utf8_three a b c \<longleftrightarrow>
     (unat a = 0xE0 \<and> in_range 0xA0 0xBF b \<or> in_range 0xE1 0xEC a \<and> utf8_cont b \<or>
      unat a = 0xED \<and> in_range 0x80 0x9F b \<or> in_range 0xEE 0xEF a \<and> utf8_cont b) \<and> utf8_cont c"

definition utf8_four :: "u8 \<Rightarrow> u8 \<Rightarrow> u8 \<Rightarrow> u8 \<Rightarrow> bool" where
  "utf8_four a b c d \<longleftrightarrow>
     (unat a = 0xF0 \<and> in_range 0x90 0xBF b \<or> in_range 0xF1 0xF3 a \<and> utf8_cont b \<or>
      unat a = 0xF4 \<and> in_range 0x80 0x8F b) \<and> utf8_cont c \<and> utf8_cont d"

fun utf8_valid :: "bytes \<Rightarrow> bool" where
  "utf8_valid [] \<longleftrightarrow> True"
| "utf8_valid (a # rest) \<longleftrightarrow>
     (if unat a < 0x80 then utf8_valid rest
      else case rest of
        b # rest2 \<Rightarrow>
          (if utf8_two a b then utf8_valid rest2
           else case rest2 of
             c # rest3 \<Rightarrow>
               (if utf8_three a b c then utf8_valid rest3
                else case rest3 of
                  d # rest4 \<Rightarrow> utf8_four a b c d \<and> utf8_valid rest4
                | [] \<Rightarrow> False)
           | [] \<Rightarrow> False)
      | [] \<Rightarrow> False)"

text \<open>A value whose text is a Rust \<open>str\<close>.\<close>

fun value_ok :: "sql_value \<Rightarrow> bool" where
  "value_ok (Text s) \<longleftrightarrow> utf8_valid s"
| "value_ok _ \<longleftrightarrow> True"

end
