(* ===== verification/Collation.thy ===== *)
theory Collation
  imports Value Key_Cmp
begin

text \<open>
  Collating sequences (\<^verbatim>\<open>src/crates/inlaysql-core/src/collation.rs\<close>): the three built-in
  collations, their names and catalog tags, the byte transform \<open>fold\<close> an index key is built
  with, and the comparison \<open>compare\<close> a scan uses. The property everything above rests on is
  that comparing folded bytes is comparing under the collation.
\<close>

datatype collation = Binary | NoCase | RTrim

definition eq_ignore_ascii_case :: "bytes \<Rightarrow> bytes \<Rightarrow> bool" where
  "eq_ignore_ascii_case a b \<longleftrightarrow>
     length a = length b \<and> list_all2 (\<lambda>x y. to_ascii_lowercase x = to_ascii_lowercase y) a b"

text \<open>The message names the collation as the statement spelled it.\<close>

definition no_such_collation :: "bytes \<Rightarrow> string" where
  "no_such_collation name =
     ''no such collation sequence: '' @ map (\<lambda>b. char_of (unat b)) name @
     ''; this engine has BINARY, NOCASE and RTRIM, and no way to register another''"

definition from_name :: "bytes \<Rightarrow> collation result" where
  "from_name name =
     (if eq_ignore_ascii_case name (ascii ''binary'') then Ok Binary
      else if eq_ignore_ascii_case name (ascii ''nocase'') then Ok NoCase
      else if eq_ignore_ascii_case name (ascii ''rtrim'') then Ok RTrim
      else Err (Unsupported (no_such_collation name)))"

fun collation_name :: "collation \<Rightarrow> string" where
  "collation_name Binary = ''BINARY''"
| "collation_name NoCase = ''NOCASE''"
| "collation_name RTrim = ''RTRIM''"

definition is_binary :: "collation \<Rightarrow> bool" where
  "is_binary c \<longleftrightarrow> c = Binary"

fun fold_bytes :: "collation \<Rightarrow> bytes \<Rightarrow> bytes" where
  "fold_bytes Binary bs = bs"
| "fold_bytes NoCase bs = (if list_ex is_ascii_uppercase bs then map to_ascii_lowercase bs else bs)"
| "fold_bytes RTrim bs =
     take (case rposition (\<lambda>b. b \<noteq> 32) bs of Some i \<Rightarrow> i + 1 | None \<Rightarrow> 0) bs"

text \<open>The zipped loop of the \<open>NOCASE\<close> comparison; \<open>lens\<close> are the full lengths.\<close>

fun nocase_loop :: "(u8 \<times> u8) list \<Rightarrow> nat \<times> nat \<Rightarrow> ordering" where
  "nocase_loop [] lens = cmp (fst lens) (snd lens)"
| "nocase_loop ((a, b) # rest) lens =
     (let ordering = cmp (to_ascii_lowercase a) (to_ascii_lowercase b)
      in if ordering \<noteq> Equal then ordering else nocase_loop rest lens)"

fun compare :: "collation \<Rightarrow> bytes \<Rightarrow> bytes \<Rightarrow> ordering" where
  "compare Binary l r = cmp l r"
| "compare NoCase l r = nocase_loop (zip l r) (length l, length r)"
| "compare RTrim l r = cmp (fold_bytes RTrim l) (fold_bytes RTrim r)"

definition TAG_BINARY :: u8 where "TAG_BINARY = 1"
definition TAG_NOCASE :: u8 where "TAG_NOCASE = 2"
definition TAG_RTRIM :: u8 where "TAG_RTRIM = 3"

fun collation_tag :: "collation \<Rightarrow> u8" where
  "collation_tag Binary = TAG_BINARY"
| "collation_tag NoCase = TAG_NOCASE"
| "collation_tag RTrim = TAG_RTRIM"

definition from_tag :: "u8 \<Rightarrow> collation result" where
  "from_tag tag =
     (if tag = TAG_BINARY then Ok Binary
      else if tag = TAG_NOCASE then Ok NoCase
      else if tag = TAG_RTRIM then Ok RTrim
      else Err (Corrupt (''unknown collation tag '' @ show_nat (unat tag))))"

text \<open>\<open>collation::at\<close>: positions the declaration does not reach are \<open>BINARY\<close>.\<close>

definition collation_at :: "collation list \<Rightarrow> nat \<Rightarrow> collation" where
  "collation_at cs position = (case get_at cs position of Some c \<Rightarrow> c | None \<Rightarrow> Binary)"

fun describe_loop :: "nat \<Rightarrow> collation list \<Rightarrow> string \<Rightarrow> string" where
  "describe_loop index [] out = out"
| "describe_loop index (c # cs) out =
     describe_loop (index + 1) cs ((if 0 < index then out @ '', '' else out) @ collation_name c)"

definition describe :: "collation list \<Rightarrow> string" where
  "describe cs = describe_loop 0 cs []"

section \<open>Folding\<close>

lemma fold_NoCase: "fold_bytes NoCase bs = map to_ascii_lowercase bs"
  by (auto simp: list_ex_iff to_ascii_lowercase_def intro!: map_idI [symmetric])

declare fold_bytes.simps(2) [simp del]

lemma nocase_loop_cmp:
  "length l = length l' + k \<Longrightarrow> length r = length r' + k \<Longrightarrow>
   nocase_loop (zip l' r') (length l, length r) = cmp (map to_ascii_lowercase l') (map to_ascii_lowercase r')"
proof (induction l' r' arbitrary: k rule: list_induct2')
  case 1
  then show ?case by simp
next
  case (2 x xs)
  then show ?case by (simp add: cmp_def)
next
  case (3 y ys)
  then show ?case by (simp add: cmp_def)
next
  case (4 x xs y ys)
  from 4 have IH: "nocase_loop (zip xs ys) (length l, length r) = cmp (map to_ascii_lowercase xs) (map to_ascii_lowercase ys)"
    using 4(1) [of "Suc k"] by simp
  show ?case
    by (cases "to_ascii_lowercase x = to_ascii_lowercase y") (auto simp: IH cmp_def)
qed

text \<open>Comparing the folded bytes is comparing under the collation.\<close>

lemma compare_eq_cmp_fold: "compare c l r = cmp (fold_bytes c l) (fold_bytes c r)"
  by (cases c) (simp_all add: fold_NoCase nocase_loop_cmp [of l l 0 r r])

lemma fold_bytes_idem [simp]: "fold_bytes c (fold_bytes c bs) = fold_bytes c bs"
proof (cases c)
  case RTrim
  show ?thesis
  proof (cases "rposition (\<lambda>b. b \<noteq> 32) bs")
    case (Some i)
    then have i: "i < length bs" "bs ! i \<noteq> 32" using rposition_bound [OF Some] by auto
    then have "take (i + 1) bs \<noteq> []" "last (take (i + 1) bs) = bs ! i" "length (take (i + 1) bs) = i + 1"
      by (auto simp: take_Suc_conv_app_nth)
    then show ?thesis using RTrim Some i rposition_take [of "take (i + 1) bs" "\<lambda>b. b \<noteq> 32"] by simp
  qed (simp add: RTrim)
qed (simp_all add: fold_NoCase)

text \<open>Folding keeps a string a string: it touches ASCII bytes only.\<close>

lemma in_range_lower [simp]: "128 \<le> lo \<Longrightarrow> in_range lo hi (to_ascii_lowercase b) \<longleftrightarrow> in_range lo hi b"
  by (auto simp: in_range_def unat_to_ascii_lowercase)

lemma unat_lower_eq [simp]: "128 \<le> n \<Longrightarrow> unat (to_ascii_lowercase b) = n \<longleftrightarrow> unat b = n"
  by (auto simp: unat_to_ascii_lowercase)

lemma unat_lower_less [simp]: "unat (to_ascii_lowercase b) < 128 \<longleftrightarrow> unat b < 128"
  by (auto simp: unat_to_ascii_lowercase)

lemma utf8_classes_lower [simp]:
  "utf8_two (to_ascii_lowercase a) (to_ascii_lowercase b) \<longleftrightarrow> utf8_two a b"
  "utf8_three (to_ascii_lowercase a) (to_ascii_lowercase b) (to_ascii_lowercase c) \<longleftrightarrow> utf8_three a b c"
  "utf8_four (to_ascii_lowercase a) (to_ascii_lowercase b) (to_ascii_lowercase c) (to_ascii_lowercase d) \<longleftrightarrow> utf8_four a b c d"
  by (simp_all add: utf8_two_def utf8_three_def utf8_four_def)

lemma utf8_valid_lower: "utf8_valid (map to_ascii_lowercase bs) = utf8_valid bs"
  by (induction bs rule: utf8_valid.induct) (auto split: list.splits)

lemma utf8_cont_not_ascii: "unat b < 128 \<Longrightarrow> \<not> utf8_two a b \<and> \<not> utf8_three a b c \<and> \<not> utf8_three a c b \<and> \<not> utf8_four a b c d \<and> \<not> utf8_four a c b d \<and> \<not> utf8_four a c d b"
  by (auto simp: utf8_two_def utf8_three_def utf8_four_def in_range_def)

lemma utf8_valid_drop_ascii: "unat b < 128 \<Longrightarrow> utf8_valid (bs @ [b]) \<longleftrightarrow> utf8_valid bs"
proof (induction bs rule: utf8_valid.induct)
  case (2 a rest)
  then show ?case by (auto split: list.splits simp: append_eq_Cons_conv Cons_eq_append_conv utf8_cont_not_ascii)
qed auto

lemma rtrim_append: "\<exists>n. bs = fold_bytes RTrim bs @ replicate n 32"
proof (induction bs)
  case (Cons b bs)
  then obtain n where n: "bs = fold_bytes RTrim bs @ replicate n 32" by blast
  show ?case
  proof (cases "rposition (\<lambda>b. b \<noteq> 32) bs")
    case None
    with n have "bs = replicate n 32" by simp
    then show ?thesis using None by (cases "b = 32") (auto intro: exI [of _ "Suc n"] exI [of _ n])
  next
    case (Some i)
    with n have "b # bs = (b # take (i + 1) bs) @ replicate n 32" by simp
    then show ?thesis using Some by auto
  qed
qed simp

lemma utf8_valid_drop_spaces: "utf8_valid (bs @ replicate n 32) \<longleftrightarrow> utf8_valid bs"
proof (induction n)
  case (Suc n)
  have "bs @ replicate (Suc n) 32 = (bs @ replicate n 32) @ [32]"
    by (simp add: replicate_append_same)
  then show ?case using utf8_valid_drop_ascii [of 32 "bs @ replicate n 32"] Suc by simp
qed simp

lemma fold_bytes_utf8: "utf8_valid (fold_bytes c bs) \<longleftrightarrow> utf8_valid bs"
proof (cases c)
  case RTrim
  obtain n where n: "bs = fold_bytes RTrim bs @ replicate n 32" using rtrim_append by blast
  show ?thesis unfolding RTrim using utf8_valid_drop_spaces [of "fold_bytes RTrim bs" n] n by metis
qed (simp_all add: fold_NoCase utf8_valid_lower)

lemma from_tag_tag [simp]: "from_tag (collation_tag c) = Ok c"
  by (cases c) (simp_all add: from_tag_def TAG_BINARY_def TAG_NOCASE_def TAG_RTRIM_def)

lemma tag_from_tag: "from_tag t = Ok c \<Longrightarrow> collation_tag c = t"
  by (auto simp: from_tag_def split: if_splits)

end
