(* ===== verification/Compare.thy ===== *)
theory Compare
  imports Collation
begin

text \<open>
  The comparison core of the evaluator (\<^verbatim>\<open>src/crates/inlaysql-core/src/eval.rs\<close>):
  \<open>mem_cmp\<close>, the order \<open>ORDER BY\<close>, \<open>DISTINCT\<close>, \<open>MIN\<close>/\<open>MAX\<close> and index keys share,
  and \<open>class_compare\<close>, stage two of the comparison operators. On every pair an operator
  can rank the two agree. The order is shown to be a total preorder on values without NaN
  whose integers a double holds exactly, and shown not to be transitive beyond them.
\<close>

datatype unary_op = Neg | Not | IsNull | IsNotNull

datatype binary_op =
    Add | Sub | Mul | Div | Mod | Eq | NotEq | Lt | LtEq | Gt | GtEq | And | Or | Concat
  | JsonExtractJson | JsonExtractText

text \<open>\<open>CompareAffinity\<close>: what stage one of a comparison converts.\<close>

datatype compare_affinity = AffNone | AffNumeric | AffText

section \<open>The storage-class order\<close>

fun mem_class :: "sql_value \<Rightarrow> nat" where
  "mem_class Null = 0"
| "mem_class (Integer _) = 1"
| "mem_class (Real _) = 1"
| "mem_class (Text _) = 2"
| "mem_class (Blob _) = 3"
| "mem_class (Vector _) = 4"

text \<open>\<open>a.partial_cmp(&b).unwrap_or(Ordering::Equal)\<close>.\<close>

definition f64_cmp :: "f64 \<Rightarrow> f64 \<Rightarrow> ordering" where
  "f64_cmp a b = (case f64_partial_cmp a b of Some o1 \<Rightarrow> o1 | None \<Rightarrow> Equal)"

definition mem_cmp :: "sql_value \<Rightarrow> sql_value \<Rightarrow> collation \<Rightarrow> ordering" where
  "mem_cmp left right c =
     (let ordering = cmp (mem_class left) (mem_class right)
      in if ordering \<noteq> Equal then ordering
         else case (left, right) of
           (Integer a, Integer b) \<Rightarrow> cmp (sint a) (sint b)
         | (Text a, Text b) \<Rightarrow> compare c a b
         | (Blob a, Blob b) \<Rightarrow> cmp a b
         | (Vector a, Vector b) \<Rightarrow> cmp (length a) (length b)
         | _ \<Rightarrow> (case (as_f64 left, as_f64 right) of
                  (Some a, Some b) \<Rightarrow> f64_cmp a b
                | _ \<Rightarrow> Equal))"

section \<open>Stage two of a comparison operator\<close>

text \<open>
  The trait \<open>Cell\<close> as the record of its methods, and its implementations for \<open>Value\<close> and
  \<open>ValueRef\<close>.
\<close>

record cell =
  is_null_cell :: bool
  as_text_cell :: "bytes option"
  as_blob_cell :: "bytes option"
  as_f64_cell :: "f64 option"
  as_i64_cell :: "i64 option"
  type_name_cell :: string

fun as_blob :: "sql_value \<Rightarrow> bytes option" where
  "as_blob (Blob b) = Some b"
| "as_blob _ = None"

definition value_cell :: "sql_value \<Rightarrow> cell" where
  "value_cell v =
     \<lparr>is_null_cell = (v = Null), as_text_cell = as_str v, as_blob_cell = as_blob v, as_f64_cell = as_f64 v,
      as_i64_cell = as_i64 v, type_name_cell = type_name v\<rparr>"

fun ref_cell :: "value_ref \<Rightarrow> cell" where
  "ref_cell RNull = \<lparr>is_null_cell = True, as_text_cell = None, as_blob_cell = None, as_f64_cell = None,
     as_i64_cell = None, type_name_cell = ''NULL''\<rparr>"
| "ref_cell (RInteger i) = \<lparr>is_null_cell = False, as_text_cell = None, as_blob_cell = None, as_f64_cell = Some (i64_to_f64 i),
     as_i64_cell = Some i, type_name_cell = ''INTEGER''\<rparr>"
| "ref_cell (RReal r) = \<lparr>is_null_cell = False, as_text_cell = None, as_blob_cell = None, as_f64_cell = Some r,
     as_i64_cell = None, type_name_cell = ''REAL''\<rparr>"
| "ref_cell (RText s) = \<lparr>is_null_cell = False, as_text_cell = Some s, as_blob_cell = None, as_f64_cell = None,
     as_i64_cell = None, type_name_cell = ''TEXT''\<rparr>"
| "ref_cell (RBlob b) = \<lparr>is_null_cell = False, as_text_cell = None, as_blob_cell = Some b, as_f64_cell = None,
     as_i64_cell = None, type_name_cell = ''BLOB''\<rparr>"
| "ref_cell (RVector v) = \<lparr>is_null_cell = False, as_text_cell = None, as_blob_cell = None, as_f64_cell = None,
     as_i64_cell = None, type_name_cell = ''VECTOR''\<rparr>"

text \<open>
  \<open>class\<close> inside \<open>class_compare\<close>; a vector, and \<open>NULL\<close>, which the callers rule out
  first, have no class. \<open>unreachable!\<close> is a panic.
\<close>

definition cell_class :: "cell \<Rightarrow> nat option" where
  "cell_class cell =
     (if as_f64_cell cell \<noteq> None then Some 1
      else if as_text_cell cell \<noteq> None then Some 2
      else if as_blob_cell cell \<noteq> None then Some 3
      else None)"

definition class_compare :: "cell \<Rightarrow> cell \<Rightarrow> collation \<Rightarrow> ordering result" where
  "class_compare left right c =
     (case (cell_class left, cell_class right) of
        (Some left_class, Some right_class) \<Rightarrow>
          (if cmp left_class right_class = Equal
           then case (as_text_cell left, as_text_cell right) of
               (Some a, Some b) \<Rightarrow> Ok (compare c a b)
             | _ \<Rightarrow> (case (as_blob_cell left, as_blob_cell right) of
                 (Some a, Some b) \<Rightarrow> Ok (cmp a b)
               | _ \<Rightarrow> (case (as_i64_cell left, as_i64_cell right) of
                   (Some a, Some b) \<Rightarrow> Ok (cmp (sint a) (sint b))
                 | _ \<Rightarrow> (case (as_f64_cell left, as_f64_cell right) of
                     (Some a, Some b) \<Rightarrow> Ok (f64_cmp a b)
                   | _ \<Rightarrow> Panic)))
           else Ok (cmp left_class right_class))
      | _ \<Rightarrow> Err (Type (''cannot compare '' @ type_name_cell left @ '' and '' @ type_name_cell right)))"

fun verdict :: "binary_op \<Rightarrow> ordering \<Rightarrow> bool result" where
  "verdict Eq ord = Ok (ord = Equal)"
| "verdict NotEq ord = Ok (ord \<noteq> Equal)"
| "verdict Lt ord = Ok (ord = Less)"
| "verdict LtEq ord = Ok (ord \<noteq> Greater)"
| "verdict Gt ord = Ok (ord = Greater)"
| "verdict GtEq ord = Ok (ord \<noteq> Less)"
| "verdict _ ord = Panic"

section \<open>The two orders agree\<close>

definition scalar :: "sql_value \<Rightarrow> bool" where
  "scalar v \<longleftrightarrow> v \<noteq> Null \<and> as_vector v = None"

lemma scalar_simps [simp]:
  "\<not> scalar Null" "scalar (Integer i)" "scalar (Real r)" "scalar (Text s)" "scalar (Blob b)" "\<not> scalar (Vector v)"
  by (simp_all add: scalar_def)

lemma ref_cell_owned: "ref_cell r = value_cell (to_owned_value r)"
  by (cases r) (simp_all add: value_cell_def)

lemma class_compare_mem_cmp:
  "scalar l \<Longrightarrow> scalar r \<Longrightarrow> class_compare (value_cell l) (value_cell r) c = Ok (mem_cmp l r c)"
  by (cases l; cases r) (simp_all add: class_compare_def mem_cmp_def cell_class_def value_cell_def)

lemma class_compare_rejects:
  "\<not> scalar l \<or> \<not> scalar r \<Longrightarrow>
   class_compare (value_cell l) (value_cell r) c = Err (Type (''cannot compare '' @ type_name l @ '' and '' @ type_name r))"
  by (cases l; cases r) (simp_all add: class_compare_def cell_class_def value_cell_def)

lemma class_compare_not_Panic [simp]: "class_compare (value_cell l) (value_cell r) c \<noteq> Panic"
  by (cases "scalar l \<and> scalar r") (auto simp: class_compare_mem_cmp class_compare_rejects)

section \<open>Laws of the order\<close>

lemma cmp_sym: "cmp a b = Less \<longleftrightarrow> cmp b a = Greater"
  by simp

lemma f64_cmp_sym: "f64_cmp a b = Less \<longleftrightarrow> f64_cmp b a = Greater" "f64_cmp a b = Equal \<longleftrightarrow> f64_cmp b a = Equal"
  by (auto simp: f64_cmp_def f64_partial_cmp_def)

lemma f64_cmp_num: "\<not> f64_is_nan a \<Longrightarrow> \<not> f64_is_nan b \<Longrightarrow> f64_cmp a b = cmp (f64_scaled a) (f64_scaled b)"
  by (simp add: f64_cmp_def f64_partial_cmp_num)

lemma mem_cmp_antisym:
  "mem_cmp a b c = Less \<longleftrightarrow> mem_cmp b a c = Greater" "mem_cmp a b c = Equal \<longleftrightarrow> mem_cmp b a c = Equal"
  by (cases a; cases b; auto simp: mem_cmp_def compare_eq_cmp_fold f64_cmp_sym split: option.splits)+

text \<open>
  A rank in a linear order that \<open>mem_cmp\<close> compares by, for the values it orders
  consistently: numbers by the value they denote, in units of \<open>2^-1074\<close>.
\<close>

definition consistent :: "sql_value \<Rightarrow> bool" where
  "consistent v \<longleftrightarrow> (case v of Integer i \<Rightarrow> f64_exact i | Real r \<Rightarrow> \<not> f64_is_nan r | _ \<Rightarrow> True)"

definition num_rank :: "sql_value \<Rightarrow> int" where
  "num_rank v = (case v of Vector x \<Rightarrow> int (length x)
     | _ \<Rightarrow> (case as_f64 v of Some f \<Rightarrow> f64_scaled f | None \<Rightarrow> 0))"

definition text_rank :: "collation \<Rightarrow> sql_value \<Rightarrow> bytes" where
  "text_rank c v = (case v of Text s \<Rightarrow> fold_bytes c s | Blob b \<Rightarrow> b | _ \<Rightarrow> [])"

lemma mem_cmp_rank:
  assumes "consistent a" "consistent b"
  shows "mem_cmp a b c =
     (if mem_class a \<noteq> mem_class b then cmp (mem_class a) (mem_class b)
      else if num_rank a \<noteq> num_rank b then cmp (num_rank a) (num_rank b)
      else cmp (text_rank c a) (text_rank c b))"
  using assms
  by (cases a; cases b)
     (auto simp: mem_cmp_def num_rank_def text_rank_def consistent_def compare_eq_cmp_fold f64_cmp_num
        cmp_def f64_scaled_exact_less_iff f64_scaled_exact)

lemma mem_cmp_consistent_trans:
  assumes "consistent a" "consistent b" "consistent d"
    and "mem_cmp a b c \<noteq> Greater" "mem_cmp b d c \<noteq> Greater"
  shows "mem_cmp a d c \<noteq> Greater \<and> (mem_cmp a d c = Equal \<longrightarrow> mem_cmp a b c = Equal \<and> mem_cmp b d c = Equal)"
  using assms by (auto simp: mem_cmp_rank split: if_splits)

lemma mem_cmp_refl [simp]: "mem_cmp a a c = Equal"
  by (cases a) (simp_all add: mem_cmp_def compare_eq_cmp_fold f64_cmp_def f64_partial_cmp_def)

end
