(* ===== verification/Index_Order.thy ===== *)
theory Index_Order
  imports Index_Key
begin

unbundle bit_operations_syntax

text \<open>
  The order of index keys. \<open>strict_below a b\<close> says that \<open>a\<close> and \<open>b\<close> differ at some byte
  and \<open>a\<close> has the smaller one there, so that anything may follow either; two encodings are
  equal or related by it one way or the other, which is both prefix freeness and the order.
\<close>

section \<open>Bytes decided inside\<close>

definition strict_below :: "bytes \<Rightarrow> bytes \<Rightarrow> bool" where
  "strict_below a b \<longleftrightarrow> (\<exists>p x y xs ys. a = p @ x # xs \<and> b = p @ y # ys \<and> x < y)"

lemma strict_belowI: "x < y \<Longrightarrow> strict_below (p @ x # xs) (p @ y # ys)"
  unfolding strict_below_def by blast

lemma strict_below_less: "strict_below a b \<Longrightarrow> a @ u < b @ v"
  unfolding strict_below_def by auto

lemma strict_below_append: "strict_below a b \<Longrightarrow> strict_below (a @ u) (b @ v)"
  unfolding strict_below_def by fastforce

lemma strict_below_prefix: "strict_below a b \<Longrightarrow> strict_below (p @ a) (p @ b)"
proof -
  assume "strict_below a b"
  then obtain q x y xs ys where "a = q @ x # xs" "b = q @ y # ys" "x < y" by (auto simp: strict_below_def)
  then show ?thesis using strict_belowI [of x y "p @ q" xs ys] by simp
qed

lemma strict_below_Cons: "strict_below (z # a) (z # b) \<longleftrightarrow> strict_below a b"
proof
  assume "strict_below (z # a) (z # b)"
  then obtain p x y xs ys where *: "z # a = p @ x # xs" "z # b = p @ y # ys" "x < y"
    by (auto simp: strict_below_def)
  then show "strict_below a b" by (cases p) (auto simp: strict_below_def)
qed (use strict_below_prefix [of a b "[z]"] in simp)

lemma strict_below_irrefl: "strict_below a b \<Longrightarrow> \<not> strict_below b a"
  using strict_below_less [of a b "[]" "[]"] strict_below_less [of b a "[]" "[]"] by auto

lemma strict_below_not_prefix: "strict_below a b \<Longrightarrow> a @ u \<noteq> b @ v"
  using strict_below_less [of a b u v] by auto

lemma less_same_length_below: "length a = length b \<Longrightarrow> a < b \<Longrightarrow> strict_below a b"
proof (induction a b rule: list_induct2)
  case (Cons x xs y ys)
  show ?case
  proof (cases "x = y")
    case True
    with Cons show ?thesis by (simp add: strict_below_Cons)
  next
    case False
    with Cons show ?thesis using strict_belowI [of x y "[]" xs ys] by auto
  qed
qed simp

text \<open>The relation a comparison of two encodings stands for.\<close>

fun ordered :: "ordering \<Rightarrow> bytes \<Rightarrow> bytes \<Rightarrow> bool" where
  "ordered Less a b \<longleftrightarrow> strict_below a b"
| "ordered Equal a b \<longleftrightarrow> a = b"
| "ordered Greater a b \<longleftrightarrow> strict_below b a"

lemma ordered_prefix: "ordered o1 a b \<Longrightarrow> ordered o1 (p @ a) (p @ b)"
  by (cases o1) (auto intro: strict_below_prefix)

lemma ordered_cmp: "ordered o1 a b \<Longrightarrow> o1 \<noteq> Equal \<Longrightarrow> cmp (a @ u) (b @ v) = o1"
  by (cases o1) (auto dest: strict_below_less)

section \<open>Numbers\<close>

lemma bit63: "bit (w :: u64) 63 \<longleftrightarrow> f64_negative w"
proof -
  have "bit w 63 \<longleftrightarrow> odd (unat w div 2 ^ 63)"
    using bit_unsigned_iff [where ?'a = nat, of w 63] by (simp add: bit_iff_odd)
  moreover have "unat w div 2 ^ 63 = (if f64_negative w then 1 else 0)"
    using f64_magnitude_bound [of w] by (auto simp: unat_f64 [of w] div_add_self1)
  ultimately show ?thesis by simp
qed

definition ordered_bits :: "f64 \<Rightarrow> nat" where
  "ordered_bits v =
     (if f64_negative v \<and> f64_magnitude v \<noteq> 0 then 2 ^ 63 - 1 - f64_magnitude v else 2 ^ 63 + f64_magnitude v)"

lemma unat_NOT_u64: "unat (NOT (w :: u64)) = 2 ^ 64 - 1 - unat w"
proof -
  have e: "NOT w = - 1 - w" by (simp add: not_eq_complement)
  have "unat (- 1 - w) = unat (- 1 :: u64) - unat w" by (rule unat_sub) simp
  then show ?thesis unfolding e by (simp add: unsigned_minus_1_eq_mask mask_eq_exp_minus_1)
qed

lemma bit_sign_bit: "bit sign_bit n \<longleftrightarrow> n = 63"
  unfolding sign_bit_def by (simp only: bit_push_bit_iff bit_1_iff) auto

lemma unat_sign_bit: "unat sign_bit = 2 ^ 63"
  by (simp add: sign_bit_def)

lemma unat_OR_top: "\<not> f64_negative w \<Longrightarrow> unat (w OR sign_bit) = 2 ^ 63 + unat w"
proof -
  assume n: "\<not> f64_negative w"
  then have nb: "\<not> bit w 63" by (simp add: bit63)
  have "w OR sign_bit = w + sign_bit"
    by (rule disjunctive_add_eq_or [symmetric]) (use nb in \<open>auto simp: bit_eq_iff [of "w AND sign_bit"] bit_and_iff bit_sign_bit\<close>)
  moreover have "unat w < 2 ^ 63" using n by (simp add: f64_negative_def)
  ultimately show ?thesis by (simp add: unat_word_ariths unat_sign_bit)
qed

lemma total_order_unat: "total_order v = Ok w \<Longrightarrow> unat w = ordered_bits v \<and> \<not> f64_is_nan v"
proof -
  assume tw: "total_order v = Ok w"
  then have nn: "\<not> f64_is_nan v" by (auto simp: total_order_def)
  define b where "b = (if f64_eq v 0 then 0 else v)"
  have bf: "f64_magnitude b = f64_magnitude v" "f64_negative b \<longleftrightarrow> f64_negative v \<and> f64_magnitude v \<noteq> 0"
    using f64_eq_zero [OF nn] by (auto simp: b_def f64_negative_def f64_magnitude_def)
  have w: "w = (if b AND sign_bit \<noteq> 0 then NOT b else b OR sign_bit)"
    using tw nn unfolding total_order_def b_def [symmetric] by (simp add: Let_def)
  have sgn: "b AND sign_bit \<noteq> 0 \<longleftrightarrow> f64_negative b"
    using bit63 [of b] by (auto simp: bit_eq_iff [of "b AND sign_bit"] bit_and_iff bit_sign_bit)
  show ?thesis
  proof (cases "f64_negative b")
    case True
    then show ?thesis using nn bf w sgn f64_magnitude_bound [of v]
      by (auto simp: unat_NOT_u64 unat_f64 [of b] ordered_bits_def)
  next
    case False
    then show ?thesis using nn bf w sgn by (auto simp: unat_OR_top unat_f64 [of b] ordered_bits_def)
  qed
qed

lemma ordered_bits_less:
  assumes "\<not> f64_is_nan a" "\<not> f64_is_nan b"
  shows "ordered_bits a < ordered_bits b \<longleftrightarrow> f64_scaled a < f64_scaled b"
    and "ordered_bits a = ordered_bits b \<longleftrightarrow> f64_scaled a = f64_scaled b"
proof -
  have pos: "0 < f64_units n \<longleftrightarrow> 0 < n" for n using f64_units_less_iff [of 0 n] by simp
  show "ordered_bits a < ordered_bits b \<longleftrightarrow> f64_scaled a < f64_scaled b"
    using f64_magnitude_bound [of a] f64_magnitude_bound [of b] pos [of "f64_magnitude a"] pos [of "f64_magnitude b"]
    by (auto simp: ordered_bits_def f64_scaled_def)
  show "ordered_bits a = ordered_bits b \<longleftrightarrow> f64_scaled a = f64_scaled b"
    using f64_magnitude_bound [of a] f64_magnitude_bound [of b] pos [of "f64_magnitude a"] pos [of "f64_magnitude b"]
    by (auto simp: ordered_bits_def f64_scaled_def)
qed

lemma total_order_ordered:
  assumes "total_order a = Ok wa" "total_order b = Ok wb"
  shows "ordered (cmp (f64_scaled a) (f64_scaled b)) (u64_to_be wa) (u64_to_be wb)"
proof -
  have l: "length (u64_to_be wa) = length (u64_to_be wb)" by simp
  have "unat wa = ordered_bits a" "unat wb = ordered_bits b" "\<not> f64_is_nan a" "\<not> f64_is_nan b"
    using assms by (auto dest: total_order_unat)
  then have "wa < wb \<longleftrightarrow> f64_scaled a < f64_scaled b" "wa = wb \<longleftrightarrow> f64_scaled a = f64_scaled b"
    by (auto simp: word_less_nat_alt word_unat_eq_iff ordered_bits_less)
  moreover from this have "wb < wa \<longleftrightarrow> f64_scaled b < f64_scaled a" by auto
  ultimately show ?thesis
    by (auto simp: cmp_def u64_to_be_less_iff intro: less_same_length_below)
qed

section \<open>Escaped bytes\<close>

fun escaped :: "bytes \<Rightarrow> bytes" where
  "escaped [] = [0, 1]"
| "escaped (b # bs) = (if b = 0 then 0 # 255 # escaped bs else b # escaped bs)"

lemma encode_bytes_escaped: "encode_bytes out bs = out @ escaped bs"
  by (induction bs arbitrary: out) (auto simp: index_consts)

lemma escaped_ordered: "ordered (cmp a b) (escaped a) (escaped b)"
proof (induction a b rule: list_induct2')
  case (2 x xs)
  have "strict_below ([0] @ 1 # []) ([0] @ 255 # escaped xs)" "0 < x \<Longrightarrow> strict_below ([] @ 0 # [1]) ([] @ x # escaped xs)"
    by (rule strict_belowI, simp)+
  then show ?case by (auto simp: cmp_def word_neq_0_conv)
next
  case (3 y ys)
  have "strict_below ([0] @ 1 # []) ([0] @ 255 # escaped ys)" "0 < y \<Longrightarrow> strict_below ([] @ 0 # [1]) ([] @ y # escaped ys)"
    by (rule strict_belowI, simp)+
  then show ?case by (auto simp: cmp_def word_neq_0_conv)
next
  case (4 x xs y ys)
  show ?case
  proof (cases "x = y")
    case True
    then show ?thesis using ordered_prefix [OF 4, of "[0, 255]"] ordered_prefix [OF 4, of "[x]"] by simp
  next
    case False
    have "strict_below (escaped (p # ps)) (escaped (q # qs))" if "p < q" for p q ps qs
      using that strict_belowI [of 0 q "[]" "255 # escaped ps" "escaped qs"] strict_belowI [of p q "[]" "escaped ps" "escaped qs"]
      by auto
    then have b: "x < y \<Longrightarrow> strict_below (escaped (x # xs)) (escaped (y # ys))"
      "y < x \<Longrightarrow> strict_below (escaped (y # ys)) (escaped (x # xs))" by blast+
    show ?thesis
    proof (cases "x < y")
      case True
      then have "cmp (x # xs) (y # ys) = Less" by simp
      then show ?thesis using b(1) [OF True] by (simp only: ordered.simps)
    next
      case nl: False
      with False have g: "y < x" by simp
      then have "cmp (x # xs) (y # ys) = Greater" by simp
      then show ?thesis using b(2) [OF g] by (simp only: ordered.simps)
    qed
  qed
qed simp

section \<open>Values\<close>

text \<open>What the encoding sees of a value: a number as the double it is widened to.\<close>

fun widen :: "sql_value \<Rightarrow> sql_value" where
  "widen (Integer i) = Real (i64_to_f64 i)"
| "widen v = v"

definition encodable :: "sql_value \<Rightarrow> bool" where
  "encodable v \<longleftrightarrow> (case v of Real r \<Rightarrow> \<not> f64_is_nan r | Vector _ \<Rightarrow> False | _ \<Rightarrow> True)"

fun value_key :: "sql_value \<Rightarrow> collation \<Rightarrow> bytes" where
  "value_key v c = (case index_encode_value [] v c of Ok k \<Rightarrow> k | _ \<Rightarrow> [])"

lemma total_order_Ok: "\<not> f64_is_nan r \<Longrightarrow> \<exists>w. total_order r = Ok w"
  by (simp add: total_order_def Let_def)

lemma total_order_i64: "\<exists>w. total_order (i64_to_f64 i) = Ok w"
  by (rule total_order_Ok) simp

lemma index_encode_value_Ok:
  "encodable v \<Longrightarrow> index_encode_value out v c = Ok (out @ value_key v c)"
proof (cases v)
  case (Integer i)
  then show ?thesis using total_order_i64 [of i] by auto
qed (auto simp: encodable_def encode_bytes_escaped dest!: total_order_Ok)

lemma index_encode_value_Ok_iff:
  "index_encode_value out v c = Ok k \<longleftrightarrow> encodable v \<and> k = out @ value_key v c"
proof (cases "encodable v")
  case True
  then show ?thesis using index_encode_value_Ok [OF True, of out c] by (simp only: result.inject) blast
next
  case False
  then have "\<exists>e. index_encode_value out v c = Err e" by (cases v) (simp_all add: encodable_def total_order_def)
  then show ?thesis using False by auto
qed

lemma tag_below: "s < t \<Longrightarrow> strict_below (s # a) (t # b)"
  using strict_belowI [of s t "[]" a b] by simp

text \<open>The encoding orders keys as \<open>mem_cmp\<close> orders the widened values.\<close>

lemma value_key_ordered:
  assumes "encodable a" "encodable b"
  shows "ordered (mem_cmp (widen a) (widen b) c) (value_key a c) (value_key b c)"
proof -
  have num: "ordered (cmp (f64_scaled x) (f64_scaled y)) (t # u64_to_be w) (t # u64_to_be w')"
    if "total_order x = Ok w" "total_order y = Ok w'" for x y w w' t
    using ordered_prefix [OF total_order_ordered [OF that], of "[t]"] by simp
  have bin: "ordered (cmp x y) (t # escaped x) (t # escaped y)" for x y t
    using ordered_prefix [OF escaped_ordered [of x y], of "[t]"] by simp
  have nc: "cmp m n = (if m < n then Less else if m = n then Equal else Greater)" for m n :: nat
    by (simp add: cmp_def)
  obtain f where f: "total_order (i64_to_f64 i) = Ok (f i)" for i using total_order_i64 by metis
  show ?thesis using assms
    by (cases a; cases b)
       (auto simp: encodable_def mem_cmp_def index_consts encode_bytes_escaped f64_cmp_num compare_eq_cmp_fold f nc
          intro!: num bin tag_below dest!: total_order_Ok)
qed

end
