(* ===== verification/Index_Range.thy ===== *)
theory Index_Range
  imports Index_Order
begin

text \<open>
  Entry keys and key ranges of a secondary index, over the order of the encoding: what an
  entry's position in the tree says about its row, and that the ranges a probe builds hold
  exactly the entries asked for.
\<close>

section \<open>Tuples\<close>

fun tuple_cmp :: "collation list \<Rightarrow> nat \<Rightarrow> sql_value list \<Rightarrow> sql_value list \<Rightarrow> ordering" where
  "tuple_cmp cs pos (v # vs) (w # ws) =
     (let o1 = mem_cmp (widen v) (widen w) (collation_at cs pos)
      in if o1 \<noteq> Equal then o1 else tuple_cmp cs (pos + 1) vs ws)"
| "tuple_cmp cs pos vs ws = cmp (length vs) (length ws)"

fun tuple_key :: "collation list \<Rightarrow> nat \<Rightarrow> sql_value list \<Rightarrow> bytes" where
  "tuple_key cs pos [] = []"
| "tuple_key cs pos (v # vs) = value_key v (collation_at cs pos) @ tuple_key cs (pos + 1) vs"

declare value_key.simps [simp del]

lemma encode_values_Ok_iff:
  "encode_values cs pos vs key = Ok k \<longleftrightarrow> list_all encodable vs \<and> k = key @ tuple_key cs pos vs"
  by (induction vs arbitrary: pos key) (auto simp: index_encode_value_Ok_iff)

lemma ordered_append: "ordered o1 a b \<Longrightarrow> o1 \<noteq> Equal \<Longrightarrow> ordered o1 (a @ u) (b @ v)"
  by (cases o1) (auto intro: strict_below_append)

lemma tuple_key_ordered:
  "length vs = length ws \<Longrightarrow> list_all encodable vs \<Longrightarrow> list_all encodable ws \<Longrightarrow>
   ordered (tuple_cmp cs pos vs ws) (tuple_key cs pos vs) (tuple_key cs pos ws)"
proof (induction vs ws arbitrary: pos rule: list_induct2)
  case (Cons v vs w ws)
  let ?c = "collation_at cs pos"
  have v: "ordered (mem_cmp (widen v) (widen w) ?c) (value_key v ?c) (value_key w ?c)"
    using Cons.prems by (intro value_key_ordered) auto
  have IH: "ordered (tuple_cmp cs (pos + 1) vs ws) (tuple_key cs (pos + 1) vs) (tuple_key cs (pos + 1) ws)"
    using Cons by simp
  show ?case
  proof (cases "mem_cmp (widen v) (widen w) ?c = Equal")
    case True
    with v have "value_key v ?c = value_key w ?c" by simp
    then show ?thesis using True ordered_prefix [OF IH] by simp
  next
    case False
    then show ?thesis using ordered_append [OF v False] by (simp add: Let_def)
  qed
qed simp

lemma tuple_cmp_append_Cons:
  "length vs = length ws \<Longrightarrow>
   tuple_cmp cs pos (vs @ v # vr) (ws @ w # wr) =
     (if tuple_cmp cs pos vs ws \<noteq> Equal then tuple_cmp cs pos vs ws
      else tuple_cmp cs (pos + length vs) (v # vr) (w # wr))"
  by (induction vs ws arbitrary: pos rule: list_induct2) (auto simp: Let_def)

lemma tuple_key_append: "tuple_key cs pos (vs @ ws) = tuple_key cs pos vs @ tuple_key cs (pos + length vs) ws"
  by (induction vs arbitrary: pos) auto

section \<open>Entry keys\<close>

lemma probe_prefix_Ok_iff:
  "probe_prefix index vs cs = Ok k \<longleftrightarrow> list_all encodable vs \<and> k = index_prefix index @ tuple_key cs 0 vs"
  by (simp add: probe_prefix_def encode_values_Ok_iff)

lemma entry_key_Ok_iff:
  "entry_key index vs cs i = Ok k \<longleftrightarrow>
     list_all encodable vs \<and> k = index_prefix index @ tuple_key cs 0 vs @ u64_to_be i"
  by (auto simp: entry_key_def probe_prefix_Ok_iff)

lemma entry_key_less_iff:
  assumes "entry_key index vs cs i = Ok k" "entry_key index ws cs j = Ok k'" "length vs = length ws"
  shows "cmp k k' = (if tuple_cmp cs 0 vs ws = Equal then cmp i j else tuple_cmp cs 0 vs ws)"
proof -
  have o: "ordered (tuple_cmp cs 0 vs ws) (tuple_key cs 0 vs) (tuple_key cs 0 ws)"
    using assms by (intro tuple_key_ordered) (auto simp: entry_key_Ok_iff)
  have k: "k = index_prefix index @ tuple_key cs 0 vs @ u64_to_be i"
    "k' = index_prefix index @ tuple_key cs 0 ws @ u64_to_be j"
    using assms by (auto simp: entry_key_Ok_iff)
  show ?thesis
  proof (cases "tuple_cmp cs 0 vs ws = Equal")
    case True
    with o have "tuple_key cs 0 vs = tuple_key cs 0 ws" by simp
    then show ?thesis using True by (simp add: k) (simp add: cmp_def u64_to_be_less_iff)
  next
    case False
    then show ?thesis using ordered_cmp [OF o False, of "u64_to_be i" "u64_to_be j"] by (simp add: k)
  qed
qed

lemma row_id_from_entry_key: "entry_key index vs cs i = Ok k \<Longrightarrow> row_id_from_entry k = Ok i"
  by (auto simp: entry_key_Ok_iff row_id_from_entry_def slice_def)

section \<open>Ranges\<close>

lemma upper_bound_eq: "upper_bound p = prefix_upper_bound p"
proof (induction p rule: rev_induct)
  case Nil
  then show ?case by (simp add: upper_bound.simps prefix_upper_bound_def)
next
  case (snoc b p)
  then show ?case by (subst upper_bound.simps) (auto simp: prefix_upper_bound_def)
qed

definition in_key_range :: "key_range \<Rightarrow> bytes \<Rightarrow> bool" where
  "in_key_range r k \<longleftrightarrow> kr_start r \<le> k \<and> (case kr_end r of None \<Rightarrow> True | Some e \<Rightarrow> k < e)"

definition below_end :: "bytes option \<Rightarrow> bytes \<Rightarrow> bool" where
  "below_end e k \<longleftrightarrow> (case e of None \<Rightarrow> True | Some u \<Rightarrow> k < u)"

lemma below_upper_bound: "below_end (upper_bound p) k \<longleftrightarrow> k < p \<or> starts_with k p"
proof -
  have "starts_with p p" by (simp add: starts_with_def)
  then show ?thesis using prefix_range [of k p] prefix_range [of p p]
    by (auto simp: below_end_def upper_bound_eq split: option.splits)
qed

lemma range_below_end: "in_key_range r k \<longleftrightarrow> kr_start r \<le> k \<and> below_end (kr_end r) k"
  by (simp add: in_key_range_def below_end_def)

lemma prefix_key_range: "in_key_range \<lparr>kr_start = p, kr_end = upper_bound p\<rparr> k \<longleftrightarrow> starts_with k p"
  using prefix_range [of k p] by (simp add: in_key_range_def upper_bound_eq)

lemma bump_in_place_eq:
  "bump_in_place p = (case upper_bound p of None \<Rightarrow> (False, []) | Some u \<Rightarrow> (True, u))"
proof (induction p rule: rev_induct)
  case Nil
  then show ?case by (simp add: upper_bound.simps bump_in_place.simps)
next
  case (snoc b p)
  then show ?case by (subst upper_bound.simps, subst bump_in_place.simps) auto
qed

lemma starts_with_same [simp]: "starts_with (p @ x) (p @ y) \<longleftrightarrow> starts_with x y"
  by (simp add: starts_with_def)

lemma ordered_starts_with:
  assumes "ordered o1 a b" "starts_with (a @ x) (b @ y)"
  shows "o1 = Equal"
proof -
  obtain r where "a @ x = b @ (y @ r)" using starts_withD [OF assms(2)] by auto
  then show ?thesis using assms(1) strict_below_not_prefix [of a b x "y @ r"] strict_below_not_prefix [of b a "y @ r" x]
    by (cases o1) auto
qed

lemma ordered_starts_with_iff: "ordered o1 a b \<Longrightarrow> starts_with (a @ x) b \<longleftrightarrow> o1 = Equal"
  using ordered_starts_with [of o1 a b x "[]"] by (cases o1) auto

lemma less_append_Cons: "p < p @ (a :: u8) # l"
  using append_less_same [of p "[]" "a # l"] by simp

lemma le_append: "p \<le> p @ (x :: bytes)"
  using less_append_Cons [of p] by (cases x) (auto intro: less_imp_le)

lemma ordered_le: "ordered o1 a b \<Longrightarrow> b \<le> a @ x \<longleftrightarrow> o1 \<noteq> Less"
  using strict_below_less [of a b x "[]"] strict_below_less [of b a "[]" x]
  by (cases o1) (auto simp: le_append less_imp_le)

lemma ordered_less: "ordered o1 a b \<Longrightarrow> a @ x < b \<or> starts_with (a @ x) b \<longleftrightarrow> o1 \<noteq> Greater"
  using strict_below_less [of a b x "[]"] strict_below_less [of b a "[]" x] ordered_starts_with_iff [of o1 a b x]
  by (cases o1) auto

text \<open>
  The range over a leading tuple and inclusive bounds on the next column: the keys between the
  two, the upper one with everything that starts with it.
\<close>

lemma bounded_range:
  assumes "equality index lead cs = Ok r0" "with_lower r0 index lead cs lo = Ok r1" "with_upper r1 index lead cs hi = Ok r2"
  shows "list_all encodable lead \<and> encodable lo \<and> encodable hi \<and>
    (let p = index_prefix index @ tuple_key cs 0 lead; c = collation_at cs (length lead)
     in in_key_range r2 k \<longleftrightarrow> p @ value_key lo c \<le> k \<and> starts_with k p \<and>
          (k < p @ value_key hi c \<or> starts_with k (p @ value_key hi c)))"
proof -
  define p where "p = index_prefix index @ tuple_key cs 0 lead"
  define c where "c = collation_at cs (length lead)"
  from assms(1) have r0: "r0 = \<lparr>kr_start = p, kr_end = upper_bound p\<rparr>" and l: "list_all encodable lead"
    by (auto simp: equality_def probe_prefix_Ok_iff p_def)
  from assms(2) r0 have lo: "encodable lo" and r1: "kr_end r1 = upper_bound p"
    "kr_start r1 = (if p < p @ value_key lo c then p @ value_key lo c else p)"
    by (auto simp: with_lower_def probe_prefix_Ok_iff index_encode_value_Ok_iff p_def [symmetric] c_def [symmetric])
  have "kr_start r1 = p @ value_key lo c" using r1(2) less_append_Cons [of p] by (cases "value_key lo c") auto
  moreover from assms(3) have hi: "encodable hi" and "kr_start r2 = kr_start r1"
    and "kr_end r2 = (case (kr_end r1, upper_bound (p @ value_key hi c)) of
       (Some a, Some b) \<Rightarrow> Some (min a b) | (Some a, None) \<Rightarrow> Some a | (None, b) \<Rightarrow> b)"
    by (auto simp: with_upper_def probe_prefix_Ok_iff index_encode_value_Ok_iff p_def [symmetric] c_def [symmetric])
  ultimately have s2: "kr_start r2 = p @ value_key lo c"
    and e2: "below_end (kr_end r2) k \<longleftrightarrow> below_end (upper_bound p) k \<and> below_end (upper_bound (p @ value_key hi c)) k"
    using r1(1) by (auto simp: below_end_def split: option.splits)
  have "p \<le> p @ value_key lo c" by (rule le_append)
  then have "in_key_range r2 k \<longleftrightarrow> p @ value_key lo c \<le> k \<and> starts_with k p \<and>
      (k < p @ value_key hi c \<or> starts_with k (p @ value_key hi c))"
    unfolding range_below_end s2 e2 below_upper_bound by auto
  then show ?thesis using l lo hi by (simp add: Let_def p_def c_def)
qed

lemma bounded_range_entries:
  assumes "equality index lead cs = Ok r0" "with_lower r0 index lead cs lo = Ok r1" "with_upper r1 index lead cs hi = Ok r2"
    and "entry_key index (vs @ v # rest) cs i = Ok k" "length vs = length lead"
  defines "c \<equiv> collation_at cs (length lead)"
  shows "in_key_range r2 k \<longleftrightarrow>
     tuple_cmp cs 0 vs lead = Equal \<and> mem_cmp (widen v) (widen lo) c \<noteq> Less \<and> mem_cmp (widen v) (widen hi) c \<noteq> Greater"
proof -
  define p where "p = index_prefix index @ tuple_key cs 0 lead"
  define x where "x = tuple_key cs (length lead + 1) rest @ u64_to_be i"
  have enc: "list_all encodable vs" "encodable v" and k: "k = index_prefix index @ tuple_key cs 0 vs @ value_key v c @ x"
    using assms(4,5) by (auto simp: entry_key_Ok_iff tuple_key_append x_def c_def)
  have r: "list_all encodable lead" "encodable lo" "encodable hi"
    "in_key_range r2 k \<longleftrightarrow> p @ value_key lo c \<le> k \<and> starts_with k p \<and>
       (k < p @ value_key hi c \<or> starts_with k (p @ value_key hi c))"
    using bounded_range [OF assms(1-3), of k] by (auto simp: Let_def p_def c_def)
  have ot: "ordered (tuple_cmp cs 0 vs lead) (tuple_key cs 0 vs) (tuple_key cs 0 lead)"
    by (rule tuple_key_ordered) (use assms(5) enc r in auto)
  have ol: "ordered (mem_cmp (widen v) (widen lo) c) (value_key v c) (value_key lo c)"
    and oh: "ordered (mem_cmp (widen v) (widen hi) c) (value_key v c) (value_key hi c)"
    using enc r by (auto intro: value_key_ordered)
  have sp: "starts_with k p \<longleftrightarrow> tuple_cmp cs 0 vs lead = Equal"
    using ordered_starts_with_iff [OF ot] by (simp add: k p_def)
  show ?thesis
  proof (cases "tuple_cmp cs 0 vs lead = Equal")
    case True
    with ot have kp: "k = p @ value_key v c @ x" by (simp add: k p_def)
    have "p @ value_key lo c \<le> k \<longleftrightarrow> value_key lo c \<le> value_key v c @ x"
      unfolding kp by (simp add: not_less [symmetric])
    then show ?thesis
      unfolding r(4) sp using True ordered_le [OF ol, of x] ordered_less [OF oh, of x] by (simp add: kp)
  qed (simp add: r(4) sp)
qed

text \<open>Widening only blurs the order: it never reverses it.\<close>

lemma widen_same:
  "as_i64 a = None \<or> as_i64 b = None \<Longrightarrow> mem_cmp (widen a) (widen b) c = mem_cmp a b c"
  by (cases a; cases b) (simp_all add: mem_cmp_def)

lemma widen_integers: "mem_cmp (widen (Integer i)) (widen (Integer j)) c = cmp (f64_scaled (i64_to_f64 i)) (f64_scaled (i64_to_f64 j))"
  by (simp add: mem_cmp_def f64_cmp_num)

lemma mem_cmp_integers: "mem_cmp (Integer i) (Integer j) c = cmp (sint i) (sint j)"
  by (simp add: mem_cmp_def)

lemma widen_blurs:
  shows "mem_cmp a b c = Less \<Longrightarrow> mem_cmp (widen a) (widen b) c \<noteq> Greater"
    and "mem_cmp a b c = Equal \<Longrightarrow> mem_cmp (widen a) (widen b) c = Equal"
    and "mem_cmp a b c = Greater \<Longrightarrow> mem_cmp (widen a) (widen b) c \<noteq> Less"
proof -
  have "(mem_cmp a b c = Less \<longrightarrow> mem_cmp (widen a) (widen b) c \<noteq> Greater) \<and>
    (mem_cmp a b c = Equal \<longrightarrow> mem_cmp (widen a) (widen b) c = Equal) \<and>
    (mem_cmp a b c = Greater \<longrightarrow> mem_cmp (widen a) (widen b) c \<noteq> Less)"
  proof (cases "as_i64 a = None \<or> as_i64 b = None")
    case True
    then show ?thesis by (simp add: widen_same)
  next
    case False
    then obtain i j where ij: "a = Integer i" "b = Integer j" by (cases a; cases b) auto
    show ?thesis unfolding ij widen_integers mem_cmp_integers
      using i64_to_f64_mono [of i j] i64_to_f64_mono [of j i] by auto
  qed
  then show "mem_cmp a b c = Less \<Longrightarrow> mem_cmp (widen a) (widen b) c \<noteq> Greater"
    "mem_cmp a b c = Equal \<Longrightarrow> mem_cmp (widen a) (widen b) c = Equal"
    "mem_cmp a b c = Greater \<Longrightarrow> mem_cmp (widen a) (widen b) c \<noteq> Less"
    by auto
qed

lemma widen_exact:
  "consistent a \<Longrightarrow> consistent b \<Longrightarrow> mem_cmp (widen a) (widen b) c = mem_cmp a b c"
proof (cases "as_i64 a = None \<or> as_i64 b = None")
  case True
  then show ?thesis by (simp add: widen_same)
next
  case False
  then obtain i j where ij: "a = Integer i" "b = Integer j" by (cases a; cases b) auto
  assume "consistent a" "consistent b"
  then have e: "f64_exact i" "f64_exact j" by (auto simp: ij consistent_def)
  have "f64_scaled (i64_to_f64 i) = f64_scaled (i64_to_f64 j) \<longleftrightarrow> sint i = sint j"
    using f64_scaled_exact_less_iff [OF e] f64_scaled_exact_less_iff [OF e(2,1)] by linarith
  then show ?thesis unfolding ij widen_integers mem_cmp_integers
    using f64_scaled_exact_less_iff [OF e] by (auto simp: cmp_def)
qed

section \<open>Properties\<close>

text \<open>
  two entries of one index sort by their columns, left to right, each under its collation
  with integers compared as doubles, and then by row id; two rows never share a key unless they
  are one row.
\<close>

theorem index_entries_ordered:
  assumes "entry_key index vs cs i = Ok k" "entry_key index ws cs j = Ok k'" "length vs = length ws"
  shows "(k < k' \<longleftrightarrow> tuple_cmp cs 0 vs ws = Less \<or> tuple_cmp cs 0 vs ws = Equal \<and> i < j) \<and>
         (k = k' \<longleftrightarrow> tuple_cmp cs 0 vs ws = Equal \<and> i = j)"
  using entry_key_less_iff [OF assms]
  by (cases "tuple_cmp cs 0 vs ws") (auto simp: cmp_def split: if_splits)

definition ada_bob :: "(sql_value list \<times> u64) \<times> (sql_value list \<times> u64)" where
  "ada_bob = (([Text (ascii ''ADA''), Null], 7), ([Text (ascii ''bob''), Blob [0, 1]], 3))"

theorem index_entries_ordered_witness:
  "\<exists>k k'. entry_key (ascii ''by_name'') (fst (fst ada_bob)) [NoCase] 7 = Ok k \<and>
          entry_key (ascii ''by_name'') (fst (snd ada_bob)) [NoCase] 3 = Ok k' \<and> k < k'"
proof -
  let ?k = "\<lambda>vs i. index_prefix (ascii ''by_name'') @ tuple_key [NoCase] 0 vs @ u64_to_be i"
  have e: "entry_key (ascii ''by_name'') (fst (fst ada_bob)) [NoCase] 7 = Ok (?k (fst (fst ada_bob)) 7)"
    "entry_key (ascii ''by_name'') (fst (snd ada_bob)) [NoCase] 3 = Ok (?k (fst (snd ada_bob)) 3)"
    by (auto simp: entry_key_Ok_iff ada_bob_def encodable_def)
  have l: "length (fst (fst ada_bob)) = length (fst (snd ada_bob))" by (simp add: ada_bob_def)
  have "tuple_cmp [NoCase] 0 (fst (fst ada_bob)) (fst (snd ada_bob)) = Less"
    by (simp add: ada_bob_def collation_at_def get_at_def mem_cmp_def compare_eq_cmp_fold fold_NoCase ascii_def
        to_ascii_lowercase_def is_ascii_uppercase_def cmp_def)
  then show ?thesis using index_entries_ordered [OF e l] e by blast
qed

text \<open>
  C19: the range built from leading values and inclusive bounds on the next column holds exactly
  the entries whose leading columns agree and whose next column lies between the bounds in the
  order of the encoding; in particular it misses no entry that the comparison operators accept.
\<close>

theorem index_range_exact:
  assumes "equality index lead cs = Ok r0" "with_lower r0 index lead cs lo = Ok r1" "with_upper r1 index lead cs hi = Ok r2"
    and "entry_key index (vs @ v # rest) cs i = Ok k" "length vs = length lead"
  shows "(in_key_range r2 k \<longleftrightarrow> tuple_cmp cs 0 vs lead = Equal \<and>
            mem_cmp (widen v) (widen lo) (collation_at cs (length lead)) \<noteq> Less \<and>
            mem_cmp (widen v) (widen hi) (collation_at cs (length lead)) \<noteq> Greater) \<and>
         (tuple_cmp cs 0 vs lead = Equal \<and> mem_cmp v lo (collation_at cs (length lead)) \<noteq> Less \<and>
            mem_cmp v hi (collation_at cs (length lead)) \<noteq> Greater \<longrightarrow> in_key_range r2 k)"
proof -
  let ?c = "collation_at cs (length lead)"
  have lo: "mem_cmp v lo ?c \<noteq> Less \<Longrightarrow> mem_cmp (widen v) (widen lo) ?c \<noteq> Less"
    using widen_blurs(2,3) [of v lo ?c] by (cases "mem_cmp v lo ?c") auto
  have hi: "mem_cmp v hi ?c \<noteq> Greater \<Longrightarrow> mem_cmp (widen v) (widen hi) ?c \<noteq> Greater"
    using widen_blurs(1,2) [of v hi ?c] by (cases "mem_cmp v hi ?c") auto
  show ?thesis using bounded_range_entries [OF assms] lo hi by blast
qed

theorem index_range_exact_witness:
  "\<exists>r0 r1 r2 k. equality [105] [] [] = Ok r0 \<and> with_lower r0 [105] [] [] (Integer 5) = Ok r1 \<and>
     with_upper r1 [105] [] [] (Integer 9) = Ok r2 \<and> entry_key [105] [Integer 7] [] 1 = Ok k \<and> in_key_range r2 k"
proof -
  have enc: "encodable (Integer i)" for i by (simp add: encodable_def)
  obtain r0 where r0: "equality [105] [] [] = Ok r0" by (auto simp: equality_def probe_prefix_def)
  obtain r1 where r1: "with_lower r0 [105] [] [] (Integer 5) = Ok r1"
    using index_encode_value_Ok [OF enc] by (auto simp: with_lower_def probe_prefix_def simp del: index_encode_value.simps)
  obtain r2 where r2: "with_upper r1 [105] [] [] (Integer 9) = Ok r2"
    using index_encode_value_Ok [OF enc] by (auto simp: with_upper_def probe_prefix_def simp del: index_encode_value.simps)
  obtain k where k: "entry_key [105] ([] @ [Integer 7]) [] 1 = Ok k"
    by (simp add: entry_key_Ok_iff enc)
  have "in_key_range r2 k"
    using index_range_exact [OF r0 r1 r2 k, THEN conjunct2] by (simp add: mem_cmp_integers)
  then show ?thesis using r0 r1 r2 k by auto
qed

lemma equality_range:
  assumes "equality index ws cs = Ok r" "entry_key index (vs @ rest) cs i = Ok k" "length vs = length ws"
  shows "(in_key_range r k \<longleftrightarrow> tuple_cmp cs 0 vs ws = Equal) \<and>
         equality_into index ws cs =
           Ok (kr_end r \<noteq> None, kr_start r, case kr_end r of Some e \<Rightarrow> e | None \<Rightarrow> [])"
proof -
  let ?p = "index_prefix index @ tuple_key cs 0 ws"
  have r: "r = \<lparr>kr_start = ?p, kr_end = upper_bound ?p\<rparr>" and e: "list_all encodable ws"
    using assms(1) by (auto simp: equality_def probe_prefix_Ok_iff)
  have k: "k = index_prefix index @ tuple_key cs 0 vs @ tuple_key cs (length vs) rest @ u64_to_be i"
    and ev: "list_all encodable vs"
    using assms(2) by (auto simp: entry_key_Ok_iff tuple_key_append)
  have "ordered (tuple_cmp cs 0 vs ws) (tuple_key cs 0 vs) (tuple_key cs 0 ws)"
    using assms(3) e ev by (intro tuple_key_ordered) auto
  then have "in_key_range r k \<longleftrightarrow> tuple_cmp cs 0 vs ws = Equal"
    unfolding r prefix_key_range k by (simp add: ordered_starts_with_iff)
  moreover have "encode_values cs 0 ws (index_prefix_into index []) = Ok ?p"
    using e by (simp add: encode_values_Ok_iff index_prefix_def)
  ultimately show ?thesis
    by (auto simp: equality_into_def r bump_in_place_eq split: option.splits)
qed

text \<open>
  an equality probe covers exactly the entries whose leading columns equal the probed values,
  whatever columns follow, and the buffer-reusing form produces the same bounds.
\<close>

theorem index_equality_exact:
  assumes "equality index ws cs = Ok r" "entry_key index (vs @ rest) cs i = Ok k" "length vs = length ws"
  shows "(in_key_range r k \<longleftrightarrow> tuple_cmp cs 0 vs ws = Equal) \<and>
         equality_into index ws cs =
           Ok (kr_end r \<noteq> None, kr_start r, case kr_end r of Some e \<Rightarrow> e | None \<Rightarrow> [])"
  by (rule equality_range [OF assms])

theorem index_equality_exact_witness:
  "\<exists>r k. equality [105] [Text [65]] [NoCase] = Ok r \<and> entry_key [105] [Text [97], Null] [NoCase] 9 = Ok k \<and> in_key_range r k"
proof -
  obtain r where r: "equality [105] [Text [65]] [NoCase] = Ok r"
    by (auto simp: equality_def probe_prefix_Ok_iff encodable_def)
  obtain k where k: "entry_key [105] ([Text [97]] @ [Null]) [NoCase] 9 = Ok k"
    by (auto simp: entry_key_Ok_iff encodable_def)
  have "tuple_cmp [NoCase] 0 [Text [97]] [Text [65]] = Equal"
    by (simp add: collation_at_def get_at_def mem_cmp_def compare_eq_cmp_fold fold_NoCase
        to_ascii_lowercase_def is_ascii_uppercase_def)
  then show ?thesis using index_equality_exact [OF r k] r k by auto
qed

text \<open>
  an entry key gives its row id back, and every entry of an index lies in the range over the
  whole index while no entry of an index with another name does; names hold no NUL byte and are
  compared without regard to ASCII case.
\<close>

theorem index_entry_owner:
  assumes "entry_key index vs cs i = Ok k" "0 \<notin> set index" "0 \<notin> set other"
  shows "row_id_from_entry k = Ok i \<and>
         (in_key_range (whole other) k \<longleftrightarrow> map to_ascii_lowercase other = map to_ascii_lowercase index)"
proof -
  have n: "0 \<notin> set (map to_ascii_lowercase xs)" if "0 \<notin> set xs" for xs
    using that by (metis (no_types, lifting) imageE list.set_map to_ascii_lowercase_eq_small unsigned_0 zero_less_numeral)
  have sep: "starts_with (xs @ 0 # r) (ys @ [0]) \<longleftrightarrow> xs = ys" if "0 \<notin> set xs" "0 \<notin> set ys" for xs ys r :: bytes
    using that by (induction xs ys rule: list_induct2') (auto simp: starts_with_def)
  have "in_key_range (whole other) k \<longleftrightarrow> starts_with k (index_prefix other)"
    by (simp add: whole_def Let_def prefix_key_range)
  also have "\<dots> \<longleftrightarrow> map to_ascii_lowercase index = map to_ascii_lowercase other"
    using assms(1) sep [OF n [OF assms(2)] n [OF assms(3)]]
    by (auto simp: entry_key_Ok_iff index_prefix_def index_prefix_into_def)
  finally show ?thesis using row_id_from_entry_key [OF assms(1)] by auto
qed

theorem index_entry_owner_witness:
  "\<exists>k. entry_key [105] [Null] [] 42 = Ok k \<and> row_id_from_entry k = Ok 42 \<and> \<not> in_key_range (whole [106]) k"
proof -
  obtain k where k: "entry_key [105] [Null] [] 42 = Ok k" by (auto simp: entry_key_Ok_iff encodable_def)
  show ?thesis using index_entry_owner [OF k, of "[106]"] k
    by (auto simp: to_ascii_lowercase_def is_ascii_uppercase_def)
qed

section \<open>Where the order and the keys part\<close>

text \<open>
  Beyond \<open>2^53\<close> the comparison operators tell two integers apart that share one key, and
  \<open>mem_cmp\<close> stops being transitive: \<open>2^53\<close> equals the real \<open>2^53\<close>, which equals
  \<open>2^53 + 1\<close>, which is greater than \<open>2^53\<close>.
\<close>

lemma f64_of_two53: "i64_to_f64 9007199254740992 = 4845873199050653696" "i64_to_f64 9007199254740993 = 4845873199050653696"
  by (simp_all add: i64_to_f64_def nat_to_f64_def bit_length.simps round_shift_def)

lemma big_integers_share_key:
  "class_compare (value_cell (Integer 9007199254740992)) (value_cell (Integer 9007199254740993)) c = Ok Less \<and>
   value_key (Integer 9007199254740992) c = value_key (Integer 9007199254740993) c"
  by (simp add: class_compare_mem_cmp mem_cmp_integers value_key.simps f64_of_two53)

lemma mem_cmp_not_transitive:
  "mem_cmp (Integer 9007199254740993) (Real 4845873199050653696) c = Equal \<and>
   mem_cmp (Real 4845873199050653696) (Integer 9007199254740992) c = Equal \<and>
   mem_cmp (Integer 9007199254740993) (Integer 9007199254740992) c = Greater"
  by (simp add: mem_cmp_def f64_of_two53 f64_cmp_def f64_partial_cmp_def f64_is_nan_def f64_magnitude_def)

end
