(* ===== verification/Storage.thy ===== *)
theory Storage
  imports Tree_Store Index_Range
begin

text \<open>
  The table store over the tree (\<^verbatim>\<open>src/crates/inlaysql-core/src/storage.rs\<close>): the keys rows,
  metadata and index entries live under, the reusable key buffer, and the operations of
  \<open>TreeStorage\<close>, whose only field is the tree. \<open>d\<close> bounds the depth of the tree's descent, as in
  the tree's own operations. Row batches by row id go through the raw leaf walks, which are not
  modelled; the keyed batches, counts, last rows and index scans are.
\<close>

section \<open>Keys\<close>

definition KEY_SEPARATOR :: u8 where "KEY_SEPARATOR = 0"
definition KEY_SUFFIX_LEN :: nat where "KEY_SUFFIX_LEN = 1 + 8"
definition INLINE_ROW_KEY :: nat where "INLINE_ROW_KEY = 64"

definition row_key :: "bytes \<Rightarrow> u64 \<Rightarrow> bytes" where
  "row_key table rid = map to_ascii_lowercase table @ [KEY_SEPARATOR] @ u64_to_be rid"

definition primary_key_bytes :: "sql_value list \<Rightarrow> collation list \<Rightarrow> bytes result" where
  "primary_key_bytes values cs = encode_values cs 0 values []"

record row_key_buf =
  rk_inline :: bytes
  rk_spilled :: bytes

definition row_key_buf_new :: row_key_buf where
  "row_key_buf_new = \<lparr>rk_inline = replicate INLINE_ROW_KEY 0, rk_spilled = []\<rparr>"

definition row_key_buf_key :: "row_key_buf \<Rightarrow> bytes \<Rightarrow> u64 \<Rightarrow> (bytes \<times> row_key_buf) result" where
  "row_key_buf_key buf table rid =
     (let len = length table + KEY_SUFFIX_LEN
      in if INLINE_ROW_KEY < len
         then let spilled = map to_ascii_lowercase table @ [KEY_SEPARATOR] @ u64_to_be rid
              in Ok (spilled, buf\<lparr>rk_spilled := spilled\<rparr>)
         else rbind (copy_at (rk_inline buf) 0 (map to_ascii_lowercase table)) (\<lambda>inline.
              rbind (copy_at inline (length table) [KEY_SEPARATOR]) (\<lambda>inline.
              rbind (copy_at inline (length table + 1) (u64_to_be rid)) (\<lambda>inline.
              rbind (index_range inline 0 len) (\<lambda>key. Ok (key, buf\<lparr>rk_inline := inline\<rparr>))))))"

definition meta_key :: "bytes \<Rightarrow> bytes" where
  "meta_key key = 0 # key"

definition table_prefix :: "bytes \<Rightarrow> bytes" where
  "table_prefix table = map to_ascii_lowercase table @ [KEY_SEPARATOR]"

definition row_id_from_key :: "bytes \<Rightarrow> u64 result" where
  "row_id_from_key key =
     rbind (ok_or (get_range key (length key - 8) (length key)) (Corrupt ''row key is too short'')) (\<lambda>bytes.
       if length bytes = 8 then Ok (u64_from_be bytes) else Err (Corrupt ''row key is too short''))"

section \<open>Operations\<close>

definition put_row :: "nat \<Rightarrow> cow_btree \<Rightarrow> bytes \<Rightarrow> u64 \<Rightarrow> bytes \<Rightarrow> cow_btree result" where
  "put_row d t table rid bytes = rbind (row_key_buf_key row_key_buf_new table rid) (\<lambda>(key, _). put d t key bytes)"

definition get_row :: "nat \<Rightarrow> cow_btree \<Rightarrow> bytes \<Rightarrow> u64 \<Rightarrow> bytes option result" where
  "get_row d t table rid = rbind (row_key_buf_key row_key_buf_new table rid) (\<lambda>(key, _). get d t key)"

definition delete_row :: "nat \<Rightarrow> cow_btree \<Rightarrow> bytes \<Rightarrow> u64 \<Rightarrow> cow_btree result" where
  "delete_row d t table rid = rbind (row_key_buf_key row_key_buf_new table rid) (\<lambda>(key, _). delete d t key)"

definition last_in_table :: "nat \<Rightarrow> cow_btree \<Rightarrow> bytes \<Rightarrow> (u64 \<times> bytes) option result" where
  "last_in_table d t table =
     rbind (last_in_prefix d t (table_prefix table)) (\<lambda>r. case r of
       None \<Rightarrow> Ok None
     | Some (key, v) \<Rightarrow> rbind (row_id_from_key key) (\<lambda>rid. Ok (Some (rid, v))))"

definition count_rows :: "nat \<Rightarrow> cow_btree \<Rightarrow> bytes \<Rightarrow> nat result" where
  "count_rows d t table = count_in_prefix d t (table_prefix table)"

definition put_row_keyed :: "nat \<Rightarrow> cow_btree \<Rightarrow> bytes \<Rightarrow> bytes \<Rightarrow> bytes \<Rightarrow> cow_btree result" where
  "put_row_keyed d t table key bytes = put d t (table_prefix table @ key) bytes"

definition get_row_keyed :: "nat \<Rightarrow> cow_btree \<Rightarrow> bytes \<Rightarrow> bytes \<Rightarrow> bytes option result" where
  "get_row_keyed d t table key = get d t (table_prefix table @ key)"

definition delete_row_keyed :: "nat \<Rightarrow> cow_btree \<Rightarrow> bytes \<Rightarrow> bytes \<Rightarrow> cow_btree result" where
  "delete_row_keyed d t table key = delete d t (table_prefix table @ key)"

definition scan_batch_keyed :: "nat \<Rightarrow> cow_btree \<Rightarrow> bytes \<Rightarrow> bytes option \<Rightarrow> nat \<Rightarrow> (bytes \<times> bytes) list result" where
  "scan_batch_keyed d t table after limit =
     rbind (scan_prefix_from d t (table_prefix table) (map_option (\<lambda>suffix. table_prefix table @ suffix) after) (Some limit)) (\<lambda>rows.
       rmapM (\<lambda>(key, v). rbind (index_range key (length (table_prefix table)) (length key)) (\<lambda>suffix. Ok (suffix, v))) rows)"

definition put_meta :: "nat \<Rightarrow> cow_btree \<Rightarrow> bytes \<Rightarrow> bytes \<Rightarrow> cow_btree result" where
  "put_meta d t key bytes = put d t (meta_key key) bytes"

definition get_meta :: "nat \<Rightarrow> cow_btree \<Rightarrow> bytes \<Rightarrow> bytes option result" where
  "get_meta d t key = get d t (meta_key key)"

definition put_index_entry :: "nat \<Rightarrow> cow_btree \<Rightarrow> bytes \<Rightarrow> cow_btree result" where
  "put_index_entry d t key = put d t key []"

definition delete_index_entry :: "nat \<Rightarrow> cow_btree \<Rightarrow> bytes \<Rightarrow> cow_btree result" where
  "delete_index_entry d t key = delete d t key"

definition scan_index_range :: "nat \<Rightarrow> cow_btree \<Rightarrow> bytes \<Rightarrow> bytes option \<Rightarrow> bytes list result" where
  "scan_index_range d t start en = rbind (scan_range d t start en) (\<lambda>rows. Ok (map fst rows))"

definition first_index_entry :: "nat \<Rightarrow> cow_btree \<Rightarrow> bytes \<Rightarrow> bytes option \<Rightarrow> bytes option result" where
  "first_index_entry d t start en =
     rbind (scan_range_from d t start en None (Some 1)) (\<lambda>rows. Ok (case rows of [] \<Rightarrow> None | (key, _) # _ \<Rightarrow> Some key))"

definition last_index_entry :: "nat \<Rightarrow> cow_btree \<Rightarrow> bytes \<Rightarrow> bytes option \<Rightarrow> bytes option result" where
  "last_index_entry d t start en = rbind (last_in_range d t start en) (\<lambda>r. Ok (map_option fst r))"

section \<open>Laws of the keys\<close>

text \<open>An identifier: not empty, no NUL, and not starting with the byte index keys start with.\<close>

definition table_name :: "bytes \<Rightarrow> bool" where
  "table_name n \<longleftrightarrow> n \<noteq> [] \<and> 0 \<notin> set n \<and> hd n \<noteq> 1"

lemma lower_zero: "0 \<in> set (map to_ascii_lowercase n) \<longleftrightarrow> 0 \<in> set n"
  using to_ascii_lowercase_eq_small [of "0 :: u8"] by force

lemma split_at_zero: "0 \<notin> set a \<Longrightarrow> 0 \<notin> set b \<Longrightarrow> a @ (0 :: u8) # x = b @ 0 # y \<longleftrightarrow> a = b \<and> x = y"
proof (induction a arbitrary: b)
  case Nil
  then show ?case by (cases b) auto
next
  case (Cons c a)
  then show ?case by (cases b) auto
qed

lemma row_key_eq: "0 \<notin> set a \<Longrightarrow> 0 \<notin> set b \<Longrightarrow>
    row_key a i = row_key b j \<longleftrightarrow> map to_ascii_lowercase a = map to_ascii_lowercase b \<and> i = j"
  using split_at_zero [of "map to_ascii_lowercase a" "map to_ascii_lowercase b"] lower_zero
  by (simp add: row_key_def KEY_SEPARATOR_def)

lemma row_key_prefix: "row_key table rid = table_prefix table @ u64_to_be rid"
  by (simp add: row_key_def table_prefix_def)

lemma hd_row_key: "table_name a \<Longrightarrow> hd (row_key a i) \<noteq> 0 \<and> hd (row_key a i) \<noteq> 1 \<and> row_key a i \<noteq> []"
  using to_ascii_lowercase_eq_small [of "0 :: u8"] to_ascii_lowercase_eq_small [of "1 :: u8"]
  by (cases a) (auto simp: table_name_def row_key_def)

lemma meta_key_neq: "table_name a \<Longrightarrow> meta_key m \<noteq> row_key a i"
  using hd_row_key [of a i] by (metis list.sel(1) meta_key_def)

lemma entry_key_hd: "entry_key index vs cs j = Ok k \<Longrightarrow> k \<noteq> [] \<and> hd k = 1"
  by (auto simp: entry_key_Ok_iff index_prefix_def index_prefix_into_def INDEX_PREFIX_def)

lemma entry_key_neq: "table_name a \<Longrightarrow> entry_key index vs cs j = Ok k \<Longrightarrow> k \<noteq> row_key a i \<and> k \<noteq> meta_key m"
  using hd_row_key [of a i] entry_key_hd [of index vs cs j k] by (auto simp: meta_key_def)

lemma row_key_buf_exact:
  assumes "length (rk_inline buf) = INLINE_ROW_KEY"
  shows "\<exists>buf'. row_key_buf_key buf table rid = Ok (row_key table rid, buf') \<and> length (rk_inline buf') = INLINE_ROW_KEY"
proof (cases "INLINE_ROW_KEY < length table + KEY_SUFFIX_LEN")
  case True
  then show ?thesis using assms by (simp add: row_key_buf_key_def row_key_def Let_def)
next
  case False
  then have fit: "length table + 9 \<le> length (rk_inline buf)" using assms by (simp add: KEY_SUFFIX_LEN_def)
  then show ?thesis using assms False
    by (simp add: row_key_buf_key_def copy_at_in splice_def row_key_def KEY_SUFFIX_LEN_def index_range_def slice_def)
qed

lemma row_key_buf_new_key: "\<exists>buf'. row_key_buf_key row_key_buf_new table rid = Ok (row_key table rid, buf')"
  using row_key_buf_exact [of row_key_buf_new table rid] by (auto simp: row_key_buf_new_def)

lemma row_ops_key [simp]:
  "put_row d t table rid bytes = put d t (row_key table rid) bytes"
  "get_row d t table rid = get d t (row_key table rid)"
  "delete_row d t table rid = delete d t (row_key table rid)"
  using row_key_buf_new_key [of table rid] by (auto simp: put_row_def get_row_def delete_row_def)

lemma row_id_from_row_key: "row_id_from_key (row_key table rid) = Ok rid"
  by (simp add: row_id_from_key_def row_key_def get_range_def slice_def)

section \<open>Rows as an abstract table\<close>

datatype row_op = PutRow bytes u64 bytes | DeleteRow bytes u64

definition run_row_op :: "nat \<Rightarrow> cow_btree \<Rightarrow> row_op \<Rightarrow> cow_btree result" where
  "run_row_op d t w = (case w of PutRow table rid bytes \<Rightarrow> put_row d t table rid bytes | DeleteRow table rid \<Rightarrow> delete_row d t table rid)"

text \<open>The specification: one row per table name, compared without case, and row id.\<close>

type_synonym tables = "bytes \<times> u64 \<Rightarrow> bytes option"

fun spec_row_op :: "tables \<Rightarrow> row_op \<Rightarrow> tables" where
  "spec_row_op T (PutRow table rid bytes) = T((map to_ascii_lowercase table, rid) \<mapsto> bytes)"
| "spec_row_op T (DeleteRow table rid) = T((map to_ascii_lowercase table, rid) := None)"

fun row_op_ok :: "nat \<Rightarrow> nat \<Rightarrow> row_op \<Rightarrow> bool" where
  "row_op_ok ps cap (PutRow table rid bytes) \<longleftrightarrow> table_name table \<and> tree_storable ps cap (row_key table rid) bytes"
| "row_op_ok ps cap (DeleteRow table rid) \<longleftrightarrow> table_name table"

definition holds_tables :: "nat \<Rightarrow> cow_btree \<Rightarrow> tables \<Rightarrow> bool" where
  "holds_tables d t T \<longleftrightarrow> (\<forall>table rid. table_name table \<longrightarrow> get_row d t table rid = Ok (T (map to_ascii_lowercase table, rid)))"

text \<open>A key no row of any table lives under.\<close>

definition outside_tables :: "bytes \<Rightarrow> bool" where
  "outside_tables k \<longleftrightarrow> (\<forall>table rid. table_name table \<longrightarrow> k \<noteq> row_key table rid)"

lemma outside_meta_entry: "outside_tables (meta_key m)" "entry_key index vs cs j = Ok k \<Longrightarrow> outside_tables k"
  using meta_key_neq entry_key_neq by (auto simp: outside_tables_def)

lemma holds_update:
  assumes "holds_tables d t T" "table_name table"
    "\<And>a. get d t' a = (if a = row_key table rid then Ok x else get d t a)"
  shows "holds_tables d t' (T((map to_ascii_lowercase table, rid) := x))"
  using assms row_key_eq [of _ table] unfolding holds_tables_def by (auto simp: table_name_def)

lemma run_row_op_refines:
  assumes "store_inv ps d cap (Suc n) t" "row_op_ok ps cap w" "holds_tables d t T"
  shows "\<exists>t'. run_row_op d t w = Ok t' \<and> store_inv ps d cap n t' \<and> holds_tables d t' (spec_row_op T w) \<and>
    (\<forall>k. outside_tables k \<longrightarrow> get d t' k = get d t k)"
proof (cases w)
  case (PutRow table rid bytes)
  obtain t' where t': "put d t (row_key table rid) bytes = Ok t'" "store_inv ps d cap n t'"
    "\<And>a. get d t' a = (if a = row_key table rid then Ok (Some bytes) else get d t a)"
    using tree.store_law [OF assms(1), of "row_key table rid" bytes] assms(2) PutRow by auto
  have "holds_tables d t' (spec_row_op T w)" using holds_update [OF assms(3) _ t'(3)] assms(2) PutRow by simp
  then show ?thesis using t' assms(2) PutRow by (auto simp: run_row_op_def outside_tables_def)
next
  case (DeleteRow table rid)
  obtain t' where t': "delete d t (row_key table rid) = Ok t'" "store_inv ps d cap n t'"
    "\<And>a. get d t' a = (if a = row_key table rid then Ok None else get d t a)"
    using tree.remove_law [OF assms(1), of "row_key table rid"] by auto
  have "holds_tables d t' (spec_row_op T w)" using holds_update [OF assms(3) _ t'(3)] assms(2) DeleteRow by simp
  then show ?thesis using t' assms(2) DeleteRow by (auto simp: run_row_op_def outside_tables_def)
qed

lemma run_row_ops_refines:
  assumes "store_inv ps d cap n t" "length ws \<le> n" "list_all (row_op_ok ps cap) ws" "holds_tables d t T"
  shows "\<exists>t'. rfold (run_row_op d) t ws = Ok t' \<and> store_inv ps d cap (n - length ws) t' \<and> holds_tables d t' (foldl spec_row_op T ws) \<and>
    (\<forall>k. outside_tables k \<longrightarrow> get d t' k = get d t k)"
  using assms
proof (induction ws arbitrary: n t T)
  case (Cons w ws)
  then obtain m where n: "n = Suc m" by (cases n) auto
  obtain t1 where t1: "run_row_op d t w = Ok t1" "store_inv ps d cap m t1" "holds_tables d t1 (spec_row_op T w)"
    "\<forall>k. outside_tables k \<longrightarrow> get d t1 k = get d t k"
    using run_row_op_refines [of ps d cap m t w T] Cons.prems n by auto
  show ?case using Cons.IH [OF t1(2) _ _ t1(3)] t1(1,4) Cons.prems n by auto
qed simp

section \<open>Scans\<close>

lemma scan_range_entries:
  assumes "tree_ok h t" "h \<le> d"
  shows "scan_range d t start en = Ok (filter (\<lambda>(k, v). start \<le> k \<and> (case en of None \<Rightarrow> True | Some e \<Rightarrow> k < e)) (entries_of h t))"
  using scan_range_from_spec [OF assms, of start en None None]
  by (simp add: scan_range_def lim_def admitted_def adm_def case_prod_unfold)

text \<open>The rows of a table as the tree holds them: key after the prefix, and value.\<close>

definition table_rows :: "nat \<Rightarrow> cow_btree \<Rightarrow> bytes \<Rightarrow> (bytes \<times> bytes) list" where
  "table_rows h t table = map (\<lambda>(k, v). (drop (length (table_prefix table)) k, v))
     (filter (\<lambda>(k, v). starts_with k (table_prefix table)) (entries_of h t))"

lemma prefix_cursor: "starts_with k p \<Longrightarrow> p @ a < k \<longleftrightarrow> a < drop (length p) k"
  by (auto dest!: starts_withD)

lemma strip_rows:
  "(\<And>k v. (k, v) \<in> set rows \<Longrightarrow> starts_with k p) \<Longrightarrow>
   rmapM (\<lambda>(key, v). rbind (index_range key (length p) (length key)) (\<lambda>suffix. Ok (suffix, v))) rows =
   Ok (map (\<lambda>(k, v). (drop (length p) k, v)) rows)"
proof (intro rmapM_all_Ok)
  fix x assume p: "\<And>k v. (k, v) \<in> set rows \<Longrightarrow> starts_with k p" and x: "x \<in> set rows"
  obtain k v where kv: "x = (k, v)" by (cases x)
  with p x obtain r where "k = p @ r" by (blast dest: starts_withD)
  with kv show "(case x of (key, v) \<Rightarrow> rbind (index_range key (length p) (length key)) (\<lambda>suffix. Ok (suffix, v))) =
      Ok (case x of (k, v) \<Rightarrow> (drop (length p) k, v))"
    by (simp add: index_range_def slice_def)
qed

lemma scan_batch_keyed_rows:
  assumes "tree_ok h t" "h \<le> d"
  shows "scan_batch_keyed d t table after limit =
    Ok (take limit (filter (\<lambda>(k, v). case after of None \<Rightarrow> True | Some a \<Rightarrow> a < k) (table_rows h t table)))"
proof -
  let ?p = "table_prefix table"
  let ?rows = "filter (\<lambda>(k, v). starts_with k ?p \<and> (case after of None \<Rightarrow> True | Some a \<Rightarrow> ?p @ a < k)) (entries_of h t)"
  have s: "scan_prefix_from d t ?p (map_option (\<lambda>s. ?p @ s) after) (Some limit) = Ok (take limit ?rows)"
    using scan_range_from_spec [OF assms, of ?p "prefix_upper_bound ?p" "map_option (\<lambda>s. ?p @ s) after" "Some limit"]
    by (cases after) (simp_all add: scan_prefix_from_def lim_def admitted_def adm_def prefix_range case_prod_unfold)
  have f: "filter (\<lambda>(k, v). case after of None \<Rightarrow> True | Some a \<Rightarrow> a < k) (table_rows h t table) =
      map (\<lambda>(k, v). (drop (length ?p) k, v)) ?rows"
    unfolding table_rows_def filter_map filter_filter
    by (rule arg_cong [where f = "map _"], rule filter_cong) (auto simp: prefix_cursor split: option.splits)
  have "\<And>k v. (k, v) \<in> set (take limit ?rows) \<Longrightarrow> starts_with k ?p" by (auto dest: in_set_takeD)
  then have "scan_batch_keyed d t table after limit = Ok (map (\<lambda>(k, v). (drop (length ?p) k, v)) (take limit ?rows))"
    unfolding scan_batch_keyed_def s rbind.simps by (intro strip_rows) blast
  with f show ?thesis by (simp only: take_map)
qed

lemma table_rows_sorted:
  assumes "tree_ok h t"
  shows "keys_sorted (map fst (table_rows h t table))"
proof -
  let ?rows = "filter (\<lambda>(k, v). starts_with k (table_prefix table)) (entries_of h t)"
  have "keys_sorted (map fst (entries_of h t))"
    using contents_sorted [OF assms [unfolded tree_ok_def]] by (simp add: entries_of_def)
  then have "sorted_wrt (\<lambda>x y. fst x < fst y) ?rows" by (simp add: sorted_wrt_map sorted_wrt_filter)
  then have "sorted_wrt (\<lambda>x y. drop (length (table_prefix table)) (fst x) < drop (length (table_prefix table)) (fst y)) ?rows"
    by (rule sorted_wrt_mono_rel [rotated]) (auto dest!: starts_withD)
  then show ?thesis by (simp add: table_rows_def sorted_wrt_map case_prod_unfold)
qed

lemma row_id_of_suffix: "length k = 8 \<Longrightarrow> row_id_from_key (p @ k) = Ok (u64_from_be k)"
  by (simp add: row_id_from_key_def get_range_def slice_def)

lemma count_last_rows:
  assumes "tree_ok h t" "h \<le> d" "0 < t_page_size t"
  shows "count_rows d t table = Ok (length (table_rows h t table))"
    "\<forall>(k, v) \<in> set (table_rows h t table). length k = 8 \<Longrightarrow>
     last_in_table d t table = Ok (if table_rows h t table = [] then None
       else Some (u64_from_be (fst (last (table_rows h t table))), snd (last (table_rows h t table))))"
proof -
  let ?p = "table_prefix table"
  let ?es = "filter (\<lambda>(k, v). starts_with k ?p) (entries_of h t)"
  have "scan_range d t ?p (prefix_upper_bound ?p) = Ok ?es"
    using scan_range_entries [OF assms(1,2), of ?p "prefix_upper_bound ?p"] by (simp add: prefix_range case_prod_unfold)
  with count_last_scan [OF assms, of ?p "prefix_upper_bound ?p"]
  have c: "count_in_prefix d t ?p = Ok (length ?es)" and l: "last_in_prefix d t ?p = Ok (if ?es = [] then None else Some (last ?es))"
    by (auto simp: count_in_prefix_def last_in_prefix_def)
  show "count_rows d t table = Ok (length (table_rows h t table))" using c by (simp add: count_rows_def table_rows_def)
  assume w: "\<forall>(k, v) \<in> set (table_rows h t table). length k = 8"
  show "last_in_table d t table = Ok (if table_rows h t table = [] then None
       else Some (u64_from_be (fst (last (table_rows h t table))), snd (last (table_rows h t table))))"
  proof (cases "?es = []")
    case True
    then show ?thesis using l by (simp add: last_in_table_def table_rows_def)
  next
    case False
    obtain k v where kv: "last ?es = (k, v)" by (cases "last ?es")
    have "(k, v) \<in> set ?es" using last_in_set [OF False] kv by simp
    then obtain r where r: "k = ?p @ r" by (auto dest!: starts_withD)
    have tr: "last (table_rows h t table) = (r, v)" "table_rows h t table \<noteq> []"
      unfolding table_rows_def using False kv r by (auto simp: last_map)
    then have "length r = 8" using w last_in_set [OF tr(2)] by auto
    then show ?thesis using l False kv r tr by (simp add: last_in_table_def row_id_of_suffix)
  qed
qed

section \<open>Properties\<close>

text \<open>
  C4: any sequence of row writes and deletes succeeds and acts as the same updates of a map from
  table names, compared without case, and row ids to rows; metadata and the entries of every index
  keep their values.
\<close>

theorem storage_refines_tables:
  assumes "store_inv ps d cap n t" "length ws \<le> n" "list_all (row_op_ok ps cap) ws" "holds_tables d t T"
  shows "\<exists>t'. rfold (run_row_op d) t ws = Ok t' \<and> holds_tables d t' (foldl spec_row_op T ws) \<and>
    (\<forall>m. get_meta d t' m = get_meta d t m) \<and>
    (\<forall>index vs cs j k. entry_key index vs cs j = Ok k \<longrightarrow> get d t' k = get d t k)"
  using run_row_ops_refines [OF assms] outside_meta_entry by (auto simp: get_meta_def)

theorem storage_refines_tables_witness:
  "\<exists>t'. rfold (run_row_op 4) empty_tree [PutRow [116] 1 [10], PutRow [84] 1 [11]] = Ok t' \<and>
     holds_tables 4 t' (foldl spec_row_op (\<lambda>_. None) [PutRow [116] 1 [10], PutRow [84] 1 [11]])"
proof -
  have i: "store_inv (t_page_size empty_tree) 4 1 2 empty_tree"
    using empty_tree_inv by (auto simp: store_inv_def room_def write_cost_def)
  have o: "list_all (row_op_ok (t_page_size empty_tree) 1) [PutRow [116] 1 [10], PutRow [84] 1 [11]]"
    by (auto simp: empty_tree_inv table_name_def row_key_def tree_storable_def key_fits_def value_storable_def max_record_len_def
        wal_region_len_def wal_blocks_def chain_count_def overflow_payload_size_def page_consts simp del: One_nat_def)
  have h: "holds_tables 4 empty_tree (\<lambda>_. None)"
    using get_entries [OF empty_tree_inv(1), of 4] by (simp add: holds_tables_def empty_tree_inv del: One_nat_def)
  from storage_refines_tables [OF i _ o h] show ?thesis by auto
qed

text \<open>
  counting a table, reading it in batches after a cursor, and finding its last row agree: the
  batches are the rows whose keys start with the table's prefix in strictly increasing key order,
  the count is their number, and the last row carries the greatest row id.
\<close>

theorem table_scans_agree:
  assumes "tree_ok h t" "h \<le> d" "0 < t_page_size t"
  shows "keys_sorted (map fst (table_rows h t table)) \<and> count_rows d t table = Ok (length (table_rows h t table)) \<and>
    scan_batch_keyed d t table after limit =
      Ok (take limit (filter (\<lambda>(k, v). case after of None \<Rightarrow> True | Some a \<Rightarrow> a < k) (table_rows h t table))) \<and>
    ((\<forall>(k, v) \<in> set (table_rows h t table). length k = 8) \<longrightarrow>
     last_in_table d t table = Ok (if table_rows h t table = [] then None
       else Some (u64_from_be (fst (last (table_rows h t table))), snd (last (table_rows h t table)))))"
  using table_rows_sorted [OF assms(1)] count_last_rows [OF assms, of table] scan_batch_keyed_rows [OF assms(1,2)] by blast

definition table_tree :: cow_btree where
  "table_tree = sample_tree\<lparr>t_dirty := [1 \<mapsto> Decoded (Leaf [] [\<lparr>ekey = Owned_Key (row_key [116] 7), evalue = Owned_Value [10]\<rparr>])],
     t_pending_root := 1\<rparr>"

lemma table_tree_ok: "tree_ok 1 table_tree" "entries_of 1 table_tree = [(row_key [116] 7, [10])]" "t_page_size table_tree = 4096"
  by (simp_all add: table_tree_def tree_ok_def entries_of_def sample_tree_def read_root_def node_at_def leaf_wf_def
      entry_ok_def key_ok_def value_ok_def the_key_def in_range_def resolve_value_at_def the_val_def)

lemma table_tree_rows: "table_rows 1 table_tree [84] = [(u64_to_be 7, [10])]"
proof -
  have "table_prefix [116] = table_prefix [84]" by (simp add: table_prefix_def to_ascii_lowercase_def is_ascii_uppercase_def)
  then show ?thesis by (simp add: table_rows_def table_tree_ok row_key_prefix del: One_nat_def)
qed

theorem table_scans_agree_witness:
  "count_rows 1 table_tree [84] = Ok 1 \<and> last_in_table 1 table_tree [84] = Ok (Some (7, [10])) \<and>
   scan_batch_keyed 1 table_tree [84] None 5 = Ok [(u64_to_be 7, [10])]"
  using table_scans_agree [OF table_tree_ok(1), of 1 "[84]" None 5]
  by (simp add: table_tree_rows table_tree_ok(3) del: One_nat_def)



text \<open>
  the reusable key buffer gives the key the allocating function gives, whatever it held before
  and on both sides of its inline size, without a panic; a row key gives its row id back, two row
  keys coincide only for the same table and row id, and neither metadata nor index entries share
  a key with a row.
\<close>

theorem row_keys_exact:
  assumes "length (rk_inline buf) = INLINE_ROW_KEY" "table_name a" "table_name b"
  shows "(\<exists>buf'. row_key_buf_key buf a i = Ok (row_key a i, buf') \<and> length (rk_inline buf') = INLINE_ROW_KEY) \<and>
    row_id_from_key (row_key a i) = Ok i \<and>
    (row_key a i = row_key b j \<longleftrightarrow> map to_ascii_lowercase a = map to_ascii_lowercase b \<and> i = j) \<and>
    (starts_with (row_key b j) (table_prefix a) \<longleftrightarrow> map to_ascii_lowercase a = map to_ascii_lowercase b) \<and>
    meta_key m \<noteq> row_key a i \<and> (\<forall>index vs cs k. entry_key index vs cs j = Ok k \<longrightarrow> k \<noteq> row_key a i \<and> k \<noteq> meta_key m)"
proof -
  have z: "0 \<notin> set (map to_ascii_lowercase a)" "0 \<notin> set (map to_ascii_lowercase b)"
    using assms(2,3) lower_zero by (auto simp: table_name_def)
  have "starts_with (row_key b j) (table_prefix a) \<longleftrightarrow> map to_ascii_lowercase a = map to_ascii_lowercase b"
  proof
    assume "starts_with (row_key b j) (table_prefix a)"
    then obtain r where "row_key b j = table_prefix a @ r" by (blast dest: starts_withD)
    then show "map to_ascii_lowercase a = map to_ascii_lowercase b"
      using split_at_zero [OF z, of r "u64_to_be j"] by (simp add: row_key_def table_prefix_def KEY_SEPARATOR_def)
  next
    assume "map to_ascii_lowercase a = map to_ascii_lowercase b"
    then have "row_key b j = table_prefix a @ u64_to_be j" by (simp add: row_key_def table_prefix_def)
    then show "starts_with (row_key b j) (table_prefix a)" by simp
  qed
  then show ?thesis
    using row_key_buf_exact [OF assms(1)] row_id_from_row_key row_key_eq [of a b] assms(2,3) meta_key_neq [OF assms(2)] entry_key_neq [OF assms(2)]
    by (auto simp: table_name_def)
qed

theorem row_keys_exact_witness:
  "\<exists>buf'. row_key_buf_key row_key_buf_new [84] 5 = Ok (row_key [84] 5, buf') \<and> row_key [84] 5 = row_key [116] 5"
proof -
  have "length (rk_inline row_key_buf_new) = INLINE_ROW_KEY" "table_name [84]" "table_name [116]"
    by (simp_all add: row_key_buf_new_def table_name_def)
  from row_keys_exact [OF this, of 5 5 "[]"] show ?thesis
    by (auto simp: to_ascii_lowercase_def is_ascii_uppercase_def)
qed

end
