(* ===== verification/Tree_Raw.thy ===== *)
theory Tree_Raw
  imports Tree_Store
begin

text \<open>
  The raw row walks of the tree (\<^verbatim>\<open>src/crates/inlaysql-core/src/btree/tree.rs\<close>): table scans and index
  probes read leaf pages in place instead of decoding them, hand the rows to a sink, and retain
  the last leaf with its key span as a cursor that answers the next range without a descent.

  A page is read as its raw bytes: a page the open transaction holds as cells is encoded for the
  reader. The decoded and raw page caches and the read-ahead window return these same bytes and
  are not part of the state; the two cursors are. \<open>walk_raw\<close> is the common form of
  \<open>walk_raw_row_values\<close> and \<open>walk_raw_row_ids\<close>, which differ in what they do with a leaf and in
  what they keep of it.
\<close>

section \<open>Sinks\<close>

text \<open>\<open>RowSink\<close>: how many rows were accepted, and how one more is taken.\<close>

record ('o, 'r) row_sink =
  rs_len :: "'o \<Rightarrow> nat"
  rs_push :: "'o \<Rightarrow> u64 \<Rightarrow> 'r \<Rightarrow> 'o result"

definition vec_sink :: "((u64 \<times> bytes) list, bytes) row_sink" where
  "vec_sink = \<lparr>rs_len = length, rs_push = (\<lambda>out i v. Ok (out @ [(i, v)]))\<rparr>"

text \<open>\<open>RowCallback\<close>: the caller's closure is a transformer of its captured state.\<close>

record 'c row_callback =
  rc_accepted :: nat
  rc_last :: "u64 option"
  rc_state :: 'c

definition callback_sink :: "('c \<Rightarrow> u64 \<Rightarrow> bytes \<Rightarrow> 'c result) \<Rightarrow> ('c row_callback, bytes) row_sink" where
  "callback_sink row = \<lparr>rs_len = rc_accepted, rs_push = (\<lambda>out i v.
     rbind (row (rc_state out) i v) (\<lambda>c. Ok \<lparr>rc_accepted = rc_accepted out + 1, rc_last = Some i, rc_state = c\<rparr>))\<rparr>"

definition trailing_row_id :: "bytes \<Rightarrow> u64 result" where
  "trailing_row_id k = (if length k < 8 then Err (Corrupt ''key is too short to carry a row id'')
     else Ok (u64_from_be (drop (length k - 8) k)))"

section \<open>Leaves in place\<close>

definition scan_leaf_into :: "cow_btree \<Rightarrow> ('o, bytes) row_sink \<Rightarrow> walk_bounds \<Rightarrow> bool \<Rightarrow> bytes \<Rightarrow> 'o \<Rightarrow> 'o result" where
  "scan_leaf_into t sink b pend bs out =
     rbind (admits_whole_leaf b bs (t_page_size t)) (\<lambda>whole.
     scan_leaf_cells bs (t_page_size t) (\<lambda>out k v.
       if wb_full b (rs_len sink out) then Ok out
       else rbind (if whole then Ok True else admits b k) (\<lambda>a.
         if \<not> a then Ok out
         else rbind (resolve_value_at t bs v pend) (\<lambda>row.
           rbind (trailing_row_id k) (\<lambda>i. rs_push sink out i row)))) out)"

definition scan_leaf_row_ids_into :: "nat \<Rightarrow> walk_bounds \<Rightarrow> bytes \<Rightarrow> u64 list \<Rightarrow> u64 list result" where
  "scan_leaf_row_ids_into ps b bs out =
     scan_leaf_cells bs ps (\<lambda>out k _.
       if wb_full b (length out) then Ok out
       else rbind (admits b k) (\<lambda>a.
         if \<not> a then Ok out else rbind (trailing_row_id k) (\<lambda>i. Ok (out @ [i])))) out"

definition raw_page :: "cow_btree \<Rightarrow> page_id \<Rightarrow> bool \<Rightarrow> bytes result" where
  "raw_page t pid pend =
     (case (if pend then t_dirty t pid else None) of
        Some (Encoded bs) \<Rightarrow> Ok bs
      | Some (Decoded n) \<Rightarrow> encode_node (t_page_size t) n
      | None \<Rightarrow> t_read t (data_offset_for (t_page_size t) (t_format_version t) pid) (t_page_size t))"

section \<open>The walk\<close>

text \<open>\<open>RangeSpanSources\<close>: the separators that bound a subtree, named by page and index.\<close>

type_synonym bound_source = "(node \<times> nat) option"

record span_sources =
  sp_low :: bound_source
  sp_high :: bound_source

definition no_span :: span_sources where
  "no_span = \<lparr>sp_low = None, sp_high = None\<rparr>"

definition bound_key :: "bound_source \<Rightarrow> bytes option result" where
  "bound_key source = (case source of
     Some (Internal bs l cs, idx) \<Rightarrow>
       (if idx < length cs then rbind (key_bytes bs (skey (cs ! idx))) (\<lambda>k. Ok (Some k)) else Ok None)
   | _ \<Rightarrow> Ok None)"

fun raw_cells :: "(page_id \<Rightarrow> span_sources \<Rightarrow> 'o \<times> 'c option \<Rightarrow> ('o \<times> 'c option) result) \<Rightarrow> ('o \<Rightarrow> nat) \<Rightarrow> bytes \<Rightarrow> walk_bounds
    \<Rightarrow> node \<Rightarrow> span_sources \<Rightarrow> nat \<Rightarrow> separator list \<Rightarrow> 'o \<times> 'c option \<Rightarrow> ('o \<times> 'c option) result" where
  "raw_cells visit len bs b n sp i [] st = Ok st"
| "raw_cells visit len bs b n sp i (c # cs) st =
     (if wb_full b (len (fst st)) then Ok st
      else rbind (slot_wanted bs b c cs) (\<lambda>w.
        rbind (if w then visit (schild c)
                 \<lparr>sp_low = Some (n, i), sp_high = (if cs = [] then sp_high sp else Some (n, i + 1))\<rparr> st
               else Ok st)
          (raw_cells visit len bs b n sp (i + 1) cs)))"

fun walk_raw :: "nat \<Rightarrow> cow_btree \<Rightarrow> (bytes \<Rightarrow> 'o \<Rightarrow> 'o result) \<Rightarrow> (page_id \<Rightarrow> span_sources \<Rightarrow> bytes \<Rightarrow> 'c) \<Rightarrow> ('o \<Rightarrow> nat)
    \<Rightarrow> walk_bounds \<Rightarrow> bool \<Rightarrow> page_id \<Rightarrow> span_sources \<Rightarrow> 'o \<times> 'c option \<Rightarrow> ('o \<times> 'c option) result" where
  "walk_raw 0 t leaf cand len b pend pid sp st = (if pid = 0 \<or> wb_full b (len (fst st)) then Ok st else Panic)"
| "walk_raw (Suc d) t leaf cand len b pend pid sp st =
     (if pid = 0 \<or> wb_full b (len (fst st)) then Ok st
      else rbind (raw_page t pid pend) (\<lambda>bs.
        rbind (index_at bs off_kind) (\<lambda>kind.
        if kind = kind_leaf then rbind (leaf bs (fst st)) (\<lambda>out. Ok (out, Some (cand pid sp bs)))
        else if kind = kind_internal then
          rbind (decode (t_page_size t) bs) (\<lambda>n. case n of
            Internal bs l cs \<Rightarrow>
              rbind (leftmost_wanted bs b cs) (\<lambda>w.
              rbind (if w then walk_raw d t leaf cand len b pend l
                       \<lparr>sp_low = sp_low sp, sp_high = (if cs = [] then sp_high sp else Some (n, 0))\<rparr> st
                     else Ok st)
                (raw_cells (walk_raw d t leaf cand len b pend) len bs b n sp 0 cs))
          | Leaf _ _ \<Rightarrow> Ok st)
        else Err (Corrupt (''unknown node kind '' @ show_nat (unat kind))))))"

section \<open>Table scans and their cursor\<close>

record raw_candidate =
  rk_low :: bound_source
  rk_high :: bound_source
  rk_bytes :: bytes

record raw_scan_cursor =
  rsc_root :: page_id
  rsc_generation :: u64
  rsc_low :: "bytes option"
  rsc_high :: "bytes option"
  rsc_bytes :: bytes

definition effective_lower :: "walk_bounds \<Rightarrow> bytes" where
  "effective_lower b = (case wb_after b of Some a \<Rightarrow> (if a > wb_start b then a else wb_start b) | None \<Rightarrow> wb_start b)"

definition lower_is_in_leaf :: "raw_scan_cursor \<Rightarrow> walk_bounds \<Rightarrow> bool" where
  "lower_is_in_leaf cur b =
     (let lower = effective_lower b in
      if (case rsc_low cur of Some low \<Rightarrow> lower < low | None \<Rightarrow> False) then False
      else (case rsc_high cur of None \<Rightarrow> True | Some high \<Rightarrow> lower < high))"

definition end_is_in_leaf :: "raw_scan_cursor \<Rightarrow> bytes option \<Rightarrow> bool" where
  "end_is_in_leaf cur en = (case (en, rsc_high cur) of
     (None, Some _) \<Rightarrow> False
   | (Some en, Some high) \<Rightarrow> en \<le> high
   | _ \<Rightarrow> True)"

definition walk_raw_row_values where
  "walk_raw_row_values d t (sink :: ('o, bytes) row_sink) b pend =
     walk_raw d t (scan_leaf_into t sink b pend)
       (\<lambda>_ sp bs. \<lparr>rk_low = sp_low sp, rk_high = sp_high sp, rk_bytes = bs\<rparr>) (rs_len sink) b pend"

definition retain_raw_scan_cursor :: "page_id \<Rightarrow> u64 \<Rightarrow> raw_candidate \<Rightarrow> raw_scan_cursor result" where
  "retain_raw_scan_cursor root gen c =
     rbind (bound_key (rk_low c)) (\<lambda>low. rbind (bound_key (rk_high c)) (\<lambda>high.
     Ok \<lparr>rsc_root = root, rsc_generation = gen, rsc_low = low, rsc_high = high, rsc_bytes = rk_bytes c\<rparr>))"

definition push_rows :: "('o, 'r) row_sink \<Rightarrow> 'o \<Rightarrow> (u64 \<times> 'r) list \<Rightarrow> 'o result" where
  "push_rows sink = rfold (\<lambda>out (i, v). rs_push sink out i v)"

text \<open>The rows reach the sink only when the leaf answers the whole request.\<close>

definition scan_row_values_from_cursor ::
  "cow_btree \<Rightarrow> ('o, bytes) row_sink \<Rightarrow> raw_scan_cursor \<Rightarrow> walk_bounds \<Rightarrow> 'o \<Rightarrow> (bool \<times> 'o) result" where
  "scan_row_values_from_cursor t sink cur b out =
     (if end_is_in_leaf cur (wb_end b) then
        rbind (scan_leaf_into t sink b False (rsc_bytes cur) out) (\<lambda>out. Ok (True, out))
      else rbind (scan_leaf_into t vec_sink b False (rsc_bytes cur) []) (\<lambda>rows.
        if wb_full b (length rows) then rbind (push_rows sink out rows) (\<lambda>out. Ok (True, out))
        else Ok (False, out)))"

definition scan_range_row_values_raw_into ::
  "nat \<Rightarrow> cow_btree \<Rightarrow> ('o, bytes) row_sink \<Rightarrow> u64 option \<Rightarrow> raw_scan_cursor option \<Rightarrow> bytes \<Rightarrow> bytes option \<Rightarrow> bytes option \<Rightarrow> nat
     \<Rightarrow> 'o \<Rightarrow> ('o \<times> raw_scan_cursor option) result" where
  "scan_range_row_values_raw_into d t sink commit_generation slot start en after limit out =
     (if limit = 0 \<or> (case en of None \<Rightarrow> False | Some e \<Rightarrow> e \<le> start) then Ok (out, slot)
      else
        let b = \<lparr>wb_start = start, wb_end = en, wb_after = after, wb_limit = Some limit\<rparr>;
            root = read_root t;
            pend = t_has_pending t;
            gen = (if \<not> pend \<and> \<not> t_reuse_enabled t then commit_generation else None)
        in rbind (case (gen, slot) of
             (Some g, Some cur) \<Rightarrow>
               (if rsc_root cur = root \<and> rsc_generation cur = g \<and> lower_is_in_leaf cur b
                then scan_row_values_from_cursor t sink cur b out else Ok (False, out))
           | _ \<Rightarrow> Ok (False, out)) (\<lambda>(answered, out).
           if answered then Ok (out, slot)
           else rbind (walk_raw_row_values d t sink b pend root no_span (out, None)) (\<lambda>(out, candidate).
             case (gen, candidate) of
               (Some g, Some c) \<Rightarrow> rbind (retain_raw_scan_cursor root g c) (\<lambda>cur. Ok (out, Some cur))
             | _ \<Rightarrow> Ok (out, slot))))"

definition scan_prefix_row_values_raw_from where
  "scan_prefix_row_values_raw_from d t gen slot prefix after limit =
     scan_range_row_values_raw_into d t vec_sink gen slot prefix (prefix_upper_bound prefix) after limit []"

definition scan_prefix_row_values_raw_with where
  "scan_prefix_row_values_raw_with d t gen slot prefix after limit row (c :: 'c) =
     rbind (scan_range_row_values_raw_into d t (callback_sink row) gen slot prefix (prefix_upper_bound prefix) after limit
              \<lparr>rc_accepted = 0, rc_last = None, rc_state = c\<rparr>)
       (\<lambda>(out, slot). Ok ((rc_accepted out, rc_last out), rc_state out, slot))"

section \<open>Index probes and their cursor\<close>

record range_candidate =
  gk_leaf :: page_id
  gk_low :: bound_source
  gk_high :: bound_source

record range_cursor =
  rgc_root :: page_id
  rgc_leaf :: page_id
  rgc_generation :: u64
  rgc_low :: "bytes option"
  rgc_high :: "bytes option"

definition covers :: "range_cursor \<Rightarrow> walk_bounds \<Rightarrow> bool" where
  "covers cur b =
     (let lower = effective_lower b in
      if (case rgc_low cur of Some low \<Rightarrow> lower < low | None \<Rightarrow> False) then False
      else if (case rgc_high cur of Some high \<Rightarrow> lower \<ge> high | None \<Rightarrow> False) then False
      else if (case (wb_end b, rgc_high cur) of (None, Some _) \<Rightarrow> True | (Some en, Some high) \<Rightarrow> en > high | _ \<Rightarrow> False) then False
      else True)"

definition walk_raw_row_ids where
  "walk_raw_row_ids d t b pend =
     walk_raw d t (scan_leaf_row_ids_into (t_page_size t) b)
       (\<lambda>pid sp _. \<lparr>gk_leaf = pid, gk_low = sp_low sp, gk_high = sp_high sp\<rparr>) length b pend"

definition retain_range_cursor :: "page_id \<Rightarrow> u64 \<Rightarrow> range_candidate \<Rightarrow> range_cursor result" where
  "retain_range_cursor root gen c =
     rbind (bound_key (gk_low c)) (\<lambda>low. rbind (bound_key (gk_high c)) (\<lambda>high.
     Ok \<lparr>rgc_root = root, rgc_leaf = gk_leaf c, rgc_generation = gen, rgc_low = low, rgc_high = high\<rparr>))"

definition scan_row_ids_from_range_cursor :: "cow_btree \<Rightarrow> range_cursor \<Rightarrow> walk_bounds \<Rightarrow> u64 list \<Rightarrow> (bool \<times> u64 list) result" where
  "scan_row_ids_from_range_cursor t cur b out =
     rbind (raw_page t (rgc_leaf cur) False) (\<lambda>bs.
     rbind (index_at bs off_kind) (\<lambda>kind.
     if kind = kind_leaf then rbind (scan_leaf_row_ids_into (t_page_size t) b bs out) (\<lambda>out. Ok (True, out))
     else if kind = kind_internal then rbind (decode (t_page_size t) bs) (\<lambda>_. Ok (False, out))
     else Err (Corrupt (''unknown node kind '' @ show_nat (unat kind)))))"

definition scan_range_row_ids_from_into ::
  "nat \<Rightarrow> cow_btree \<Rightarrow> u64 option \<Rightarrow> range_cursor option \<Rightarrow> bytes \<Rightarrow> bytes option \<Rightarrow> bytes option \<Rightarrow> nat option
     \<Rightarrow> (u64 list \<times> range_cursor option) result" where
  "scan_range_row_ids_from_into d t commit_generation slot start en after limit =
     (if limit = Some 0 \<or> (case en of None \<Rightarrow> False | Some e \<Rightarrow> e \<le> start) then Ok ([], slot)
      else
        let b = \<lparr>wb_start = start, wb_end = en, wb_after = after, wb_limit = limit\<rparr>;
            root = read_root t;
            pend = t_has_pending t;
            gen = (if \<not> pend \<and> \<not> t_reuse_enabled t then commit_generation else None)
        in rbind (case (gen, slot) of
             (Some g, Some cur) \<Rightarrow>
               (if rgc_root cur = root \<and> rgc_generation cur = g \<and> covers cur b
                then scan_row_ids_from_range_cursor t cur b [] else Ok (False, []))
           | _ \<Rightarrow> Ok (False, [])) (\<lambda>(answered, out).
           if answered then Ok (out, slot)
           else rbind (walk_raw_row_ids d t b pend root no_span (out, None)) (\<lambda>(out, candidate).
             case (gen, candidate) of
               (Some g, Some c) \<Rightarrow> rbind (retain_range_cursor root g c) (\<lambda>cur. Ok (out, Some cur))
             | _ \<Rightarrow> Ok (out, slot))))"


section \<open>Raw pages hold the tree's nodes\<close>

definition same_node :: "node \<Rightarrow> node \<Rightarrow> bool" where
  "same_node n m \<longleftrightarrow> (case (n, m) of
     (Leaf bs es, Leaf bs' es') \<Rightarrow> map (entry_content bs) es = map (entry_content bs') es'
   | (Internal bs l cs, Internal bs' l' cs') \<Rightarrow> l = l' \<and> map (sep_content bs) cs = map (sep_content bs') cs'
   | _ \<Rightarrow> False)"

definition node_fits :: "nat \<Rightarrow> node \<Rightarrow> bool" where
  "node_fits ps n \<longleftrightarrow> ps < 65536 \<and> page_fits ps (Decoded n)"

lemma same_node_refl: "same_node n n"
  by (cases n) (auto simp: same_node_def)

lemma encode_same:
  assumes "node_fits ps n"
  shows "\<exists>bs m. encode_node ps n = Ok bs \<and> decode ps bs = Ok m \<and> same_node m n"
proof (cases n)
  case (Leaf source es)
  then have ok: "\<forall>e \<in> set es. entry_ok source e" "ps < 65536" "16 + cells_total (entry_len source) es \<le> ps"
    using assms by (auto simp: node_fits_def page_fits_def header_size_def)
  have "leaf_size source es = Ok (16 + cells_total (entry_len source) es)"
    unfolding leaf_size_def using ok(1)
    by (subst cells_size_total [where f = "entry_len source"])
      (auto simp: entry_size_def entry_ok_def key_bytes_ok header_size_def entry_len_def)
  then have fits: "fits ps (map (entry_image source) es)" using ok(3) leaf_size_ok [OF ok(1)] by (simp add: fits_def)
  then show ?thesis
    using Leaf encode_leaf_image [OF ok(1) fits ok(2)] decode_leaf_image [OF ok(1) fits ok(2) refl]
    by (auto simp: encode_node_def decode_def same_node_def)
next
  case (Internal source l cs)
  then have ok: "\<forall>c \<in> set cs. sep_ok source c" "ps < 65536" "16 + cells_total (sep_len source) cs \<le> ps"
    using assms by (auto simp: node_fits_def page_fits_def header_size_def)
  have "internal_size source cs = Ok (16 + cells_total (sep_len source) cs)"
    unfolding internal_size_def using ok(1)
    by (subst cells_size_total [where f = "sep_len source"])
      (auto simp: separator_size_def sep_ok_def key_bytes_ok header_size_def sep_len_def)
  then have fits: "fits ps (map (separator_image source) cs)" using ok(3) internal_size_ok [OF ok(1)] by (simp add: fits_def)
  then show ?thesis
    using Internal encode_internal_image [OF ok(1) fits ok(2), of l] decode_internal_image [OF fits ok(2) refl, of l]
    by (force simp: encode_node_def decode_def same_node_def)
qed

lemma raw_page_same:
  assumes "node_at t pid p = Ok n" "p \<Longrightarrow> node_fits (t_page_size t) n"
  shows "\<exists>bs m. raw_page t pid p = Ok bs \<and> decode (t_page_size t) bs = Ok m \<and> node_bytes m = bs \<and>
    same_node m n \<and> (\<not> p \<longrightarrow> m = n)"
proof -
  have "\<exists>bs m. raw_page t pid p = Ok bs \<and> decode (t_page_size t) bs = Ok m \<and> same_node m n \<and> (\<not> p \<longrightarrow> m = n)"
    using assms encode_same [of "t_page_size t" n] same_node_refl [of n]
    by (cases "if p then t_dirty t pid else None")
      (auto simp: raw_page_def node_at_def committed_node_def split: if_splits dirty_page.splits)
  then show ?thesis using decode_with_ok unfolding decode_def by blast
qed

lemma decoded_ok: "decode ps bs = Ok m \<Longrightarrow> node_ok m"
  using decode_with_ok unfolding decode_def by blast

lemma resolve_content:
  assumes "value_ok bs v" "value_ok bs' v'" "the_value bs v = the_value bs' v'"
  shows "resolve_value_at t bs v p = resolve_value_at t bs' v' p"
  using assms
  by (cases v; cases v') (auto simp: resolve_value_at_def value_ok_def the_value_def index_range_in)

lemma same_leaf:
  assumes same: "same_node m (Leaf bs es)" and m: "node_ok m" and wf: "leaf_wf t p bs es lo hi"
  obtains bs' es' where "m = Leaf bs' es'" "leaf_wf t p bs' es' lo hi"
    "map (\<lambda>e. (entry_key bs' e, the_val t p bs' e)) es' = map (\<lambda>e. (entry_key bs e, the_val t p bs e)) es"
proof -
  obtain bs' es' where n: "m = Leaf bs' es'" and c: "map (entry_content bs') es' = map (entry_content bs) es"
    using same by (cases m) (auto simp: same_node_def)
  have len: "length es' = length es" using c by (metis length_map)
  have at: "entry_key bs' (es' ! i) = entry_key bs (es ! i)"
      "resolve_value_at t bs' (evalue (es' ! i)) p = resolve_value_at t bs (evalue (es ! i)) p" if "i < length es" for i
  proof -
    have e: "entry_content bs' (es' ! i) = entry_content bs (es ! i)" using c that len by (metis nth_map)
    then show "entry_key bs' (es' ! i) = entry_key bs (es ! i)" by (simp add: entry_content_def)
    have "value_ok bs' (evalue (es' ! i))" "value_ok bs (evalue (es ! i))"
      using m n wf that len by (auto simp: leaf_wf_def entry_ok_def)
    then show "resolve_value_at t bs' (evalue (es' ! i)) p = resolve_value_at t bs (evalue (es ! i)) p"
      using e by (intro resolve_content) (auto simp: entry_content_def)
  qed
  have keys: "map (entry_key bs') es' = map (entry_key bs) es" by (rule nth_equalityI) (auto simp: len at)
  have "leaf_wf t p bs' es' lo hi"
    using wf m n len at by (simp add: leaf_wf_def keys all_set_conv_all_nth [where xs = es] all_set_conv_all_nth [where xs = es'])
  moreover have "map (\<lambda>e. (entry_key bs' e, the_val t p bs' e)) es' = map (\<lambda>e. (entry_key bs e, the_val t p bs e)) es"
    by (rule nth_equalityI) (auto simp: len at the_val_def)
  ultimately show ?thesis using that n by blast
qed

lemma same_internal:
  assumes same: "same_node m (Internal bs l cs)" and m: "node_ok m" and wf: "seps_wf bs cs lo hi"
  obtains bs' cs' where "m = Internal bs' l cs'" "seps_wf bs' cs' lo hi" "length cs' = length cs"
    "\<And>i. i \<le> length cs \<Longrightarrow> kid l cs' i = kid l cs i \<and> klo bs' lo cs' i = klo bs lo cs i \<and> khi bs' hi cs' i = khi bs hi cs i"
proof -
  obtain bs' cs' where n: "m = Internal bs' l cs'" and c: "map (sep_content bs') cs' = map (sep_content bs) cs"
    using same by (cases m) (auto simp: same_node_def)
  have len: "length cs' = length cs" using c by (metis length_map)
  have at: "sep_key bs' (cs' ! i) = sep_key bs (cs ! i) \<and> schild (cs' ! i) = schild (cs ! i)" if "i < length cs" for i
  proof -
    have "sep_content bs' (cs' ! i) = sep_content bs (cs ! i)" using c that len by (metis nth_map)
    then show ?thesis by (simp add: sep_content_def)
  qed
  have keys: "map (sep_key bs') cs' = map (sep_key bs) cs" by (rule nth_equalityI) (auto simp: len at)
  have "seps_wf bs' cs' lo hi"
    using wf m n len at by (simp add: seps_wf_def keys all_set_conv_all_nth [where xs = cs] all_set_conv_all_nth [where xs = cs'])
  moreover have "kid l cs' i = kid l cs i \<and> klo bs' lo cs' i = klo bs lo cs i \<and> khi bs' hi cs' i = khi bs hi cs i" if "i \<le> length cs" for i
    using that at [of "i - 1"] at [of i] by (auto simp: kid_def klo_def khi_def len)
  ultimately show ?thesis using that n len by blast
qed

section \<open>Walking in the result type\<close>

lemma rfold_append: "rfold f s (xs @ ys) = rbind (rfold f s xs) (\<lambda>s. rfold f s ys)"
  by (induction xs arbitrary: s) (auto simp: rbind_assoc)

text \<open>
  \<open>runs P r m\<close>: the walk \<open>r\<close> ends as \<open>m\<close> does, and the leaf it keeps satisfies \<open>P\<close>.
\<close>

definition runs :: "('c option \<Rightarrow> bool) \<Rightarrow> ('o \<times> 'c option) result \<Rightarrow> 'o result \<Rightarrow> bool" where
  "runs P r m \<longleftrightarrow> (case m of Ok out \<Rightarrow> \<exists>c. r = Ok (out, c) \<and> P c | Err e \<Rightarrow> r = Err e | Panic \<Rightarrow> r = Panic)"

lemma runs_Ok: "runs P (Ok st) (Ok (fst st)) \<longleftrightarrow> P (snd st)"
  by (cases st) (simp add: runs_def)

lemma runs_bind:
  assumes "runs P r m" "\<And>out c. P c \<Longrightarrow> runs P (f (out, c)) (g out)"
  shows "runs P (rbind r f) (rbind m g)"
proof (cases m)
  case (Ok out)
  then obtain c where c: "r = Ok (out, c)" "P c" using assms(1) by (auto simp: runs_def)
  then show ?thesis using assms(2) [OF c(2), of out] Ok by simp
qed (use assms(1) in \<open>auto simp: runs_def\<close>)

definition span_ok :: "span_sources \<Rightarrow> bytes \<Rightarrow> bytes option \<Rightarrow> bool" where
  "span_ok sp lo hi \<longleftrightarrow> (\<exists>l. bound_key (sp_low sp) = Ok l \<and> lo = (case l of None \<Rightarrow> [] | Some k \<Rightarrow> k)) \<and>
     bound_key (sp_high sp) = Ok hi"

lemma bound_key_sep: "\<forall>c \<in> set cs. sep_ok bs c \<Longrightarrow> i < length cs \<Longrightarrow> bound_key (Some (Internal bs l cs, i)) = Ok (Some (sep_key bs (cs ! i)))"
  by (simp add: bound_key_def sep_ok_def key_bytes_ok)

lemma span_kid:
  assumes "span_ok sp lo hi" "\<forall>c \<in> set cs. sep_ok bs c" "i \<le> length cs"
  shows "span_ok \<lparr>sp_low = (if i = 0 then sp_low sp else Some (Internal bs l cs, i - 1)),
      sp_high = (if i < length cs then Some (Internal bs l cs, i) else sp_high sp)\<rparr> (klo bs lo cs i) (khi bs hi cs i)"
  using assms by (auto simp: span_ok_def klo_def khi_def bound_key_sep)

lemma filter_concat_one:
  assumes "i < n" "\<And>j x. j < n \<Longrightarrow> j \<noteq> i \<Longrightarrow> x \<in> set (f j) \<Longrightarrow> \<not> P x" "\<And>x. x \<in> set (f i) \<Longrightarrow> P x"
  shows "filter P (concat (map f [0..<n])) = f i"
proof -
  have "[0..<n] = [0..<i] @ i # [Suc i..<n]" using assms(1) by (metis le_add1 less_imp_add_positive upt_add_eq_append upt_conv_Cons add_0 zero_le less_or_eq_imp_le)
  moreover have "filter P (concat (map f [0..<i])) = []" "filter P (concat (map f [Suc i..<n])) = []"
    using assms(1) assms(2) [OF less_trans] assms(2) by (fastforce simp: filter_empty_conv)+
  moreover have "filter P (f i) = f i" using assms(3) by (simp add: filter_id_conv)
  ultimately show ?thesis by simp
qed

lemma kid_contents:
  assumes seps: "seps_wf bs cs lo hi" and wf: "\<And>i. i \<le> length cs \<Longrightarrow> tree_wf t p h (kid l cs i) (klo bs lo cs i) (khi bs hi cs i)"
    and i: "i \<le> length cs"
    and all: "concat (map (\<lambda>i. contents t p h (kid l cs i)) [0..<Suc (length cs)]) = filter (\<lambda>kv. in_range lo hi (fst kv)) X"
  shows "contents t p h (kid l cs i) = filter (\<lambda>kv. in_range (klo bs lo cs i) (khi bs hi cs i) (fst kv)) X"
proof -
  let ?P = "\<lambda>kv. in_range (klo bs lo cs i) (khi bs hi cs i) (fst kv)"
  have "filter ?P (concat (map (\<lambda>i. contents t p h (kid l cs i)) [0..<Suc (length cs)])) = contents t p h (kid l cs i)"
  proof (rule filter_concat_one)
    fix j x assume j: "j < Suc (length cs)" "j \<noteq> i" and x: "x \<in> set (contents t p h (kid l cs j))"
    have "in_range (klo bs lo cs j) (khi bs hi cs j) (fst x)"
      using contents_range [OF wf, of j "fst x" "snd x"] j(1) x by simp
    then show "\<not> ?P x"
      using kids_separated [OF seps, of i j "fst x" "fst x"] kids_separated [OF seps, of j i "fst x" "fst x"] i j
      by (cases "i < j") auto
  next
    fix x assume "x \<in> set (contents t p h (kid l cs i))"
    then show "?P x" using contents_range [OF wf [OF i], of "fst x" "snd x"] by simp
  qed (use i in simp)
  moreover have "filter ?P (filter (\<lambda>kv. in_range lo hi (fst kv)) X) = filter ?P X"
    using kid_in_range [OF seps i] by (auto intro!: filter_cong)
  ultimately show ?thesis unfolding all by simp
qed

text \<open>
  What a leaf that a walk of the committed tree keeps must be: a leaf page of the tree that holds
  exactly the entries of its span.
\<close>

definition leaf_of_span :: "cow_btree \<Rightarrow> (bytes \<times> bytes) list \<Rightarrow> page_id \<Rightarrow> span_sources \<Rightarrow> bytes \<Rightarrow> bool" where
  "leaf_of_span t X pid sp bs \<longleftrightarrow> (\<exists>es lo hi. raw_page t pid False = Ok bs \<and>
     decode (t_page_size t) bs = Ok (Leaf bs es) \<and> leaf_wf t False bs es lo hi \<and> span_ok sp lo hi \<and>
     map (\<lambda>e. (entry_key bs e, the_val t False bs e)) es = filter (\<lambda>kv. in_range lo hi (fst kv)) X)"

text \<open>
  A walk that hands every entry to \<open>step\<close>: \<open>leaf\<close> does so with the entries of a leaf page, and
  \<open>step\<close> ignores entries that are not admitted and everything once the sink is full.
\<close>

locale row_walk =
  fixes t :: cow_btree and p :: bool and b :: walk_bounds and leaf :: "bytes \<Rightarrow> 'o \<Rightarrow> 'o result"
    and len :: "'o \<Rightarrow> nat" and step :: "'o \<Rightarrow> bytes \<times> bytes \<Rightarrow> 'o result"
  assumes leaf_law: "decode (t_page_size t) bs = Ok (Leaf bs es) \<Longrightarrow> leaf_wf t p bs es lo hi \<Longrightarrow>
      leaf bs out = rfold step out (map (\<lambda>e. (entry_key bs e, the_val t p bs e)) es)"
    and step_skip: "\<not> adm b k \<Longrightarrow> step out (k, v) = Ok out"
    and step_full: "wb_full b (len out) \<Longrightarrow> step out kv = Ok out"
begin

lemma fold_skip: "(\<And>k v. (k, v) \<in> set xs \<Longrightarrow> \<not> adm b k) \<Longrightarrow> rfold step out xs = Ok out"
proof (induction xs)
  case (Cons x xs)
  have "\<not> adm b (fst x)" using Cons.prems [of "fst x" "snd x"] by simp
  then have "step out x = Ok out" using step_skip [of "fst x" out "snd x"] by simp
  moreover have "rfold step out xs = Ok out" by (rule Cons.IH, rule Cons.prems, rule list.set_intros(2))
  ultimately show ?case by simp
qed simp

lemma fold_full: "wb_full b (len out) \<Longrightarrow> rfold step out xs = Ok out"
  by (induction xs) (auto simp: step_full)

definition kept :: "(bytes \<times> bytes) list \<Rightarrow> (page_id \<Rightarrow> span_sources \<Rightarrow> bytes \<Rightarrow> 'c) \<Rightarrow> 'c option \<Rightarrow> bool" where
  "kept X cand c \<longleftrightarrow> p \<or> (\<forall>x. c = Some x \<longrightarrow> (\<exists>pid sp bs. x = cand pid sp bs \<and> leaf_of_span t X pid sp bs))"

lemma raw_cells_fold:
  assumes cs: "cs = pre @ rest" "\<forall>c \<in> set cs. sep_ok bs c" and st: "P (snd st)"
    and visit: "\<And>i st. 0 < i \<Longrightarrow> i \<le> length cs \<Longrightarrow> P (snd st) \<Longrightarrow>
      runs P (visit (kid l cs i) \<lparr>sp_low = Some (n, i - 1), sp_high = (if i < length cs then Some (n, i) else sp_high sp)\<rparr> st)
        (rfold step (fst st) (f (kid l cs i)))"
    and skip: "\<And>pre c rest k v. cs = pre @ c # rest \<Longrightarrow> \<not> slot_pred bs b c rest \<Longrightarrow> (k, v) \<in> set (f (schild c)) \<Longrightarrow> \<not> adm b k"
  shows "runs P (raw_cells visit len bs b n sp (length pre) rest st) (rfold step (fst st) (concat (map (\<lambda>c. f (schild c)) rest)))"
  using cs(1) st
proof (induction rest arbitrary: pre st)
  case Nil
  then show ?case by (simp add: runs_Ok)
next
  case (Cons c rest)
  show ?case
  proof (cases "wb_full b (len (fst st))")
    case True
    then show ?thesis using fold_full [OF True] Cons.prems(2) by (simp add: runs_Ok)
  next
    case False
    have sw: "slot_wanted bs b c rest = Ok (slot_pred bs b c rest)" using cs(2) Cons.prems(1) by (intro slot_wanted_pred) auto
    have kid: "kid l cs (Suc (length pre)) = schild c" using Cons.prems(1) by (simp add: kid_def)
    have hi: "(rest \<noteq> []) = (Suc (length pre) < length cs)" using Cons.prems(1) by auto
    let ?sp = "\<lparr>sp_low = Some (n, length pre), sp_high = (if rest = [] then sp_high sp else Some (n, length pre + 1))\<rparr>"
    have one: "runs P (if slot_pred bs b c rest then visit (schild c) ?sp st else Ok st) (rfold step (fst st) (f (schild c)))"
    proof (cases "slot_pred bs b c rest")
      case True
      have "Suc (length pre) \<le> length cs" using Cons.prems(1) by simp
      from visit [OF _ this Cons.prems(2)] have
        "runs P (visit (schild c) \<lparr>sp_low = Some (n, length pre), sp_high = (if rest \<noteq> [] then Some (n, length pre + 1) else sp_high sp)\<rparr> st)
          (rfold step (fst st) (f (schild c)))"
        unfolding hi kid by (cases "Suc (length pre) < length cs") simp_all
      then show ?thesis using True by (cases "rest = []") simp_all
    next
      case False
      have "rfold step (fst st) (f (schild c)) = Ok (fst st)"
        by (rule fold_skip) (rule skip [OF Cons.prems(1) False])
      then show ?thesis using False Cons.prems(2) by (simp add: runs_Ok)
    qed
    have rest: "runs P (raw_cells visit len bs b n sp (length pre + 1) rest (out, c')) (rfold step out (concat (map (\<lambda>c. f (schild c)) rest)))"
      if "P c'" for out c'
      using Cons.IH [of "pre @ [c]" "(out, c')"] Cons.prems(1) that by simp
    have "raw_cells visit len bs b n sp (length pre) (c # rest) st =
        rbind (if slot_pred bs b c rest then visit (schild c) ?sp st else Ok st) (raw_cells visit len bs b n sp (length pre + 1) rest)"
      using False sw by simp
    then show ?thesis by (simp only: rfold_append list.map concat.simps) (rule runs_bind [OF one], rule rest)
  qed
qed

lemma raw_internal_fold:
  assumes seps: "seps_wf bs cs lo hi" and st: "P (snd st)"
    and wf: "\<And>i. i \<le> length cs \<Longrightarrow> tree_wf t p h (kid l cs i) (klo bs lo cs i) (khi bs hi cs i)"
    and visit: "\<And>i st. i \<le> length cs \<Longrightarrow> P (snd st) \<Longrightarrow>
      runs P (visit (kid l cs i) \<lparr>sp_low = (if i = 0 then sp_low sp else Some (n, i - 1)),
          sp_high = (if i < length cs then Some (n, i) else sp_high sp)\<rparr> st)
        (rfold step (fst st) (contents t p h (kid l cs i)))"
  shows "runs P (rbind (leftmost_wanted bs b cs) (\<lambda>w. rbind
      (if w then visit l \<lparr>sp_low = sp_low sp, sp_high = (if cs = [] then sp_high sp else Some (n, 0))\<rparr> st else Ok st)
      (raw_cells visit len bs b n sp 0 cs)))
    (rfold step (fst st) (concat (map (\<lambda>i. contents t p h (kid l cs i)) [0..<Suc (length cs)])))"
proof -
  let ?f = "contents t p h"
  let ?w = "cs = [] \<or> below_edge b (sep_key bs (hd cs))"
  have ok: "\<forall>c \<in> set cs. sep_ok bs c" using seps by (auto simp: seps_wf_def)
  have left: "runs P (if ?w then visit l \<lparr>sp_low = sp_low sp, sp_high = (if cs = [] then sp_high sp else Some (n, 0))\<rparr> st else Ok st)
      (rfold step (fst st) (?f l))"
  proof (cases ?w)
    case True
    then show ?thesis using visit [of 0 st] st by (cases "cs = []") (simp_all add: kid_def)
  next
    case False
    have "rfold step (fst st) (?f l) = Ok (fst st)" by (rule fold_skip) (rule pruned_leftmost [OF seps wf False])
    then show ?thesis using False st by (simp add: runs_Ok)
  qed
  have cells: "runs P (raw_cells visit len bs b n sp 0 cs (out, c)) (rfold step out (concat (map (\<lambda>c. ?f (schild c)) cs)))" if "P c" for out c
  proof -
    have "runs P (raw_cells visit len bs b n sp (length ([] :: separator list)) cs (out, c))
        (rfold step (fst (out, c)) (concat (map (\<lambda>c. ?f (schild c)) cs)))"
    proof (rule raw_cells_fold [where cs = cs and l = l])
      show "runs P (visit (kid l cs i) \<lparr>sp_low = Some (n, i - 1), sp_high = (if i < length cs then Some (n, i) else sp_high sp)\<rparr> st')
          (rfold step (fst st') (?f (kid l cs i)))" if "0 < i" "i \<le> length cs" "P (snd st')" for i st'
        using visit [of i st'] that by simp
    qed (use ok that pruned_slot [OF seps wf] in auto)
    then show ?thesis by simp
  qed
  show ?thesis
    unfolding leftmost_wanted_pred [OF ok] contents_internal rbind.simps rfold_append
    by (rule runs_bind [OF left], rule cells)
qed

lemma raw_leaf:
  assumes n: "node_at t pid p = Ok (Leaf bs es)" "leaf_wf t p bs es lo hi" "p \<Longrightarrow> leaf_fits (t_page_size t) bs es" "t_page_size t < 65536"
    and sp: "\<not> p \<Longrightarrow> span_ok sp lo hi \<and> map (\<lambda>e. (entry_key bs e, the_val t p bs e)) es = filter (\<lambda>kv. in_range lo hi (fst kv)) X"
  obtains rb where "raw_page t pid p = Ok rb" "index_at rb off_kind = Ok kind_leaf" "kept X cand (Some (cand pid sp rb))"
    "\<And>out. leaf rb out = rfold step out (map (\<lambda>e. (entry_key bs e, the_val t p bs e)) es)"
proof -
  have "p \<Longrightarrow> node_fits (t_page_size t) (Leaf bs es)" using n(2-4) by (auto simp: node_fits_def page_fits_def leaf_fits_def leaf_wf_def)
  from raw_page_same [OF n(1) this] obtain rb m where raw: "raw_page t pid p = Ok rb" "decode (t_page_size t) rb = Ok m"
    "node_bytes m = rb" "same_node m (Leaf bs es)" by blast
  obtain es' where m: "m = Leaf rb es'" "leaf_wf t p rb es' lo hi"
    "map (\<lambda>e. (entry_key rb e, the_val t p rb e)) es' = map (\<lambda>e. (entry_key bs e, the_val t p bs e)) es"
    by (rule same_leaf [OF raw(4) decoded_ok [OF raw(2)] n(2)]) (use raw(3) in auto)
  have span: "leaf_of_span t X pid sp rb" if "\<not> p"
    unfolding leaf_of_span_def using sp raw(1,2) m that by (intro exI [of _ es'] exI [of _ lo] exI [of _ hi]) simp
  show ?thesis
  proof (rule that [OF raw(1)])
    show "index_at rb off_kind = Ok kind_leaf" by (simp only: decode_leaf_kind [OF raw(2)] m(1) node.case)
    show "kept X cand (Some (cand pid sp rb))" unfolding kept_def using span by blast
    show "leaf rb out = rfold step out (map (\<lambda>e. (entry_key bs e, the_val t p bs e)) es)" for out
      using leaf_law [OF raw(2) [unfolded m(1)] m(2)] m(3) by simp
  qed
qed

lemma raw_internal:
  assumes n: "node_at t pid p = Ok (Internal bs l cs)" "seps_wf bs cs lo hi" "p \<Longrightarrow> seps_fit (t_page_size t) bs cs" "t_page_size t < 65536"
  obtains rb cs' where "raw_page t pid p = Ok rb" "index_at rb off_kind = Ok kind_internal"
    "decode (t_page_size t) rb = Ok (Internal rb l cs')" "seps_wf rb cs' lo hi" "length cs' = length cs"
    "\<And>i. i \<le> length cs \<Longrightarrow> kid l cs' i = kid l cs i \<and> klo rb lo cs' i = klo bs lo cs i \<and> khi rb hi cs' i = khi bs hi cs i"
proof -
  have "p \<Longrightarrow> node_fits (t_page_size t) (Internal bs l cs)" using n(2-4) by (auto simp: node_fits_def page_fits_def seps_fit_def seps_wf_def)
  from raw_page_same [OF n(1) this] obtain rb m where raw: "raw_page t pid p = Ok rb" "decode (t_page_size t) rb = Ok m"
    "node_bytes m = rb" "same_node m (Internal bs l cs)" by blast
  obtain cs' where m: "m = Internal rb l cs'" "seps_wf rb cs' lo hi" "length cs' = length cs"
    "\<And>i. i \<le> length cs \<Longrightarrow> kid l cs' i = kid l cs i \<and> klo rb lo cs' i = klo bs lo cs i \<and> khi rb hi cs' i = khi bs hi cs i"
    by (rule same_internal [OF raw(4) decoded_ok [OF raw(2)] n(2)]) (use raw(3) in auto)
  have "index_at rb off_kind = Ok kind_internal" by (simp only: decode_leaf_kind [OF raw(2)] m(1) node.case)
  then show ?thesis using that raw(1,2) m by blast
qed

text \<open>The walk is the fold of its step over every entry below the page.\<close>

lemma walk_raw_fold:
  assumes "tree_wf t p h pid lo hi" "h \<le> d" "p \<Longrightarrow> placed t h pid" "t_page_size t < 65536" "kept X cand (snd st)"
    and "\<not> p \<Longrightarrow> span_ok sp lo hi \<and> contents t p h pid = filter (\<lambda>kv. in_range lo hi (fst kv)) X"
  shows "runs (kept X cand) (walk_raw d t leaf cand len b p pid sp st) (rfold step (fst st) (contents t p h pid))"
  using assms
proof (induction h arbitrary: pid lo hi d sp st)
  case 0
  then show ?case by (cases d) (simp_all add: runs_Ok)
next
  case (Suc h)
  then obtain g where g: "d = Suc g" "h \<le> g" by (cases d) auto
  consider "pid = 0" | "wb_full b (len (fst st))" | (read) "pid \<noteq> 0" "\<not> wb_full b (len (fst st))" by blast
  then show ?case
  proof cases
    case read
    from Suc.prems(1) read(1) show ?thesis
    proof (cases rule: tree_wf_cases)
      case (leaf bs es)
      then have c: "contents t p (Suc h) pid = map (\<lambda>e. (entry_key bs e, the_val t p bs e)) es" using read(1) by simp
      have "p \<Longrightarrow> leaf_fits (t_page_size t) bs es" using Suc.prems(3) leaf(1) read(1) by simp
      from raw_leaf [OF leaf this Suc.prems(4) Suc.prems(6) [unfolded c], of cand] obtain rb where rb:
        "raw_page t pid p = Ok rb" "index_at rb off_kind = Ok kind_leaf" "kept X cand (Some (cand pid sp rb))"
        "\<And>out. leaf rb out = rfold step out (contents t p (Suc h) pid)" unfolding c by blast
      have "walk_raw d t leaf cand len b p pid sp st =
          rbind (rfold step (fst st) (contents t p (Suc h) pid)) (\<lambda>out. Ok (out, Some (cand pid sp rb)))"
        using g read by (simp add: rb(1,2,4) del: contents.simps)
      then show ?thesis using rb(3) by (cases "rfold step (fst st) (contents t p (Suc h) pid)") (simp_all add: runs_def del: contents.simps)
    next
      case (internal bs l cs)
      have pl: "seps_fit (t_page_size t) bs cs \<and> (\<forall>i \<le> length cs. placed t h (kid l cs i))" if p
        using Suc.prems(3) internal(1) read(1) that by auto
      obtain rb cs' where m: "raw_page t pid p = Ok rb" "index_at rb off_kind = Ok kind_internal"
        "decode (t_page_size t) rb = Ok (Internal rb l cs')" "seps_wf rb cs' lo hi" "length cs' = length cs"
        "\<And>i. i \<le> length cs \<Longrightarrow> kid l cs' i = kid l cs i \<and> klo rb lo cs' i = klo bs lo cs i \<and> khi rb hi cs' i = khi bs hi cs i"
        by (rule raw_internal [OF internal(1,2) _ Suc.prems(4)]) (use pl in blast)+
      have wf: "tree_wf t p h (kid l cs' i) (klo rb lo cs' i) (khi rb hi cs' i)" if "i \<le> length cs'" for i
        using internal(3) m(5,6) that by simp
      have all: "contents t p (Suc h) pid = concat (map (\<lambda>i. contents t p h (kid l cs' i)) [0..<Suc (length cs')])"
        using read(1) internal(1) m(5,6) by (auto simp del: upt_Suc intro!: arg_cong [where f = concat])
      have ok: "\<forall>c \<in> set cs'. sep_ok rb c" using m(4) by (auto simp: seps_wf_def)
      have "runs (kept X cand) (rbind (leftmost_wanted rb b cs') (\<lambda>w. rbind
          (if w then walk_raw g t leaf cand len b p l \<lparr>sp_low = sp_low sp, sp_high = (if cs' = [] then sp_high sp else Some (Internal rb l cs', 0))\<rparr> st else Ok st)
          (raw_cells (walk_raw g t leaf cand len b p) len rb b (Internal rb l cs') sp 0 cs')))
        (rfold step (fst st) (contents t p (Suc h) pid))"
        unfolding all
      proof (rule raw_internal_fold [where P = "kept X cand", OF m(4) Suc.prems(5)])
        show "runs (kept X cand) (walk_raw g t leaf cand len b p (kid l cs' i)
            \<lparr>sp_low = (if i = 0 then sp_low sp else Some (Internal rb l cs', i - 1)),
              sp_high = (if i < length cs' then Some (Internal rb l cs', i) else sp_high sp)\<rparr> st')
          (rfold step (fst st') (contents t p h (kid l cs' i)))"
          if i: "i \<le> length cs'" and k: "kept X cand (snd st')" for i st'
          by (rule Suc.IH [OF wf [OF i] g(2) _ Suc.prems(4) k])
            (use pl m(5,6) i in simp, use span_kid [OF _ ok i] kid_contents [OF m(4) wf i] Suc.prems(6) [unfolded all] in blast)
      qed (rule wf)
      then show ?thesis
        using g read by (simp add: m(1,2,3) kind_leaf_def kind_internal_def del: contents.simps)
    qed
  qed (use Suc.prems(5) g in \<open>simp_all add: runs_Ok fold_full\<close>)
qed

end

section \<open>The two leaf scans\<close>

definition row_step :: "('o, bytes) row_sink \<Rightarrow> walk_bounds \<Rightarrow> 'o \<Rightarrow> bytes \<times> bytes \<Rightarrow> 'o result" where
  "row_step sink b out kv = (if wb_full b (rs_len sink out) \<or> \<not> adm b (fst kv) then Ok out
     else rbind (trailing_row_id (fst kv)) (\<lambda>i. rs_push sink out i (snd kv)))"

text \<open>An index probe keeps the row ids only.\<close>

definition id_sink :: "(u64 list, bytes) row_sink" where
  "id_sink = \<lparr>rs_len = length, rs_push = (\<lambda>out i _. Ok (out @ [i]))\<rparr>"

lemma whole_leaf:
  assumes "decode ps bs = Ok (Leaf bs es)" "keys_sorted (map (entry_key bs) es)"
  obtains w where "admits_whole_leaf b bs ps = Ok w" "\<And>e. w \<Longrightarrow> e \<in> set es \<Longrightarrow> adm b (entry_key bs e)"
proof
  let ?w = "es \<noteq> [] \<and> adm b (entry_key bs (hd es)) \<and> adm b (entry_key bs (last es))"
  show "admits_whole_leaf b bs ps = Ok ?w" by (auto simp: admits_whole_leaf_def leaf_edges [OF assms(1)])
  show "adm b (entry_key bs e)" if ?w "e \<in> set es" for e
    using adm_convex [of b "entry_key bs (hd es)" "entry_key bs (last es)" "entry_key bs e"] that
      sorted_edges [OF assms(2), of "entry_key bs e"] by (auto simp: hd_map last_map)
qed

interpretation value_walk: row_walk t p b "scan_leaf_into t sink b p" "rs_len sink" "row_step sink b" for t p b sink
proof
  fix bs es lo hi out
  assume dec: "decode (t_page_size t) bs = Ok (Leaf bs es)" and wf: "leaf_wf t p bs es lo hi"
  obtain w where w: "admits_whole_leaf b bs (t_page_size t) = Ok w" "\<And>e. w \<Longrightarrow> e \<in> set es \<Longrightarrow> adm b (entry_key bs e)"
    using whole_leaf [OF dec] wf by (auto simp: leaf_wf_def)
  show "scan_leaf_into t sink b p bs out = rfold (row_step sink b) out (map (\<lambda>e. (entry_key bs e, the_val t p bs e)) es)"
    unfolding scan_leaf_into_def w(1) rbind.simps scan_agrees [OF dec [unfolded decode_def]] rfold_map
  proof (rule rfold_cong)
    fix out e assume e: "e \<in> set es"
    then obtain x where "resolve_value_at t bs (evalue e) p = Ok x" using wf by (auto simp: leaf_wf_def)
    then show "(if wb_full b (rs_len sink out) then Ok out
        else rbind (if w then Ok True else admits b (entry_key bs e)) (\<lambda>a. if \<not> a then Ok out
          else rbind (resolve_value_at t bs (evalue e) p) (\<lambda>row. rbind (trailing_row_id (entry_key bs e)) (\<lambda>i. rs_push sink out i row)))) =
      row_step sink b out (entry_key bs e, the_val t p bs e)"
      using w(2) [OF _ e] by (auto simp: row_step_def the_val_def)
  qed
qed (simp_all add: row_step_def)

interpretation id_walk: row_walk t p b "scan_leaf_row_ids_into (t_page_size t) b" length "row_step id_sink b" for t p b
proof
  fix bs es lo hi out
  assume dec: "decode (t_page_size t) bs = Ok (Leaf bs es)" and wf: "leaf_wf t p bs es lo hi"
  show "scan_leaf_row_ids_into (t_page_size t) b bs out = rfold (row_step id_sink b) out (map (\<lambda>e. (entry_key bs e, the_val t p bs e)) es)"
    unfolding scan_leaf_row_ids_into_def scan_agrees [OF dec [unfolded decode_def]] rfold_map
    by (rule rfold_cong) (simp add: row_step_def id_sink_def)
qed (simp_all add: row_step_def id_sink_def)

section \<open>What reaches the sink\<close>

definition has_id :: "bytes \<Rightarrow> bool" where
  "has_id k \<longleftrightarrow> 8 \<le> length k"

definition as_row :: "bytes \<times> 'v \<Rightarrow> u64 \<times> 'v" where
  "as_row kv = (u64_from_be (drop (length (fst kv) - 8) (fst kv)), snd kv)"

definition space :: "walk_bounds \<Rightarrow> nat \<Rightarrow> 'a list \<Rightarrow> 'a list" where
  "space b n xs = (case wb_limit b of None \<Rightarrow> xs | Some m \<Rightarrow> take (m - n) xs)"

lemma space_simps [simp]:
  "space b n [] = []" "wb_full b n \<Longrightarrow> space b n xs = []"
  "\<not> wb_full b n \<Longrightarrow> space b n (x # xs) = x # space b (Suc n) xs" "space b 0 xs = lim b xs"
  by (auto simp: space_def wb_full_def lim_def take_Cons' split: option.splits)

lemma step_idle: "wb_full b (rs_len sink out) \<or> \<not> adm b (fst x) \<Longrightarrow> row_step sink b out x = Ok out"
  by (simp add: row_step_def)

definition ids_ok :: "walk_bounds \<Rightarrow> (bytes \<times> 'v) list \<Rightarrow> bool" where
  "ids_ok b xs \<longleftrightarrow> (\<forall>kv \<in> set xs. adm b (fst kv) \<longrightarrow> has_id (fst kv))"

lemma ids_ok_sub: "ids_ok b xs \<Longrightarrow> set ys \<subseteq> set xs \<Longrightarrow> ids_ok b ys"
  by (auto simp: ids_ok_def)

locale counted_sink =
  fixes sink :: "('o, bytes) row_sink"
  assumes push_len: "rs_push sink out i v = Ok out' \<Longrightarrow> rs_len sink out' = Suc (rs_len sink out)"
begin

lemma fold_rows:
  "ids_ok b xs \<Longrightarrow> rfold (row_step sink b) out xs = push_rows sink out (space b (rs_len sink out) (map as_row (admitted b xs)))"
proof (induction xs arbitrary: out)
  case Nil
  then show ?case by (simp add: push_rows_def)
next
  case (Cons x xs)
  have IH: "rfold (row_step sink b) out xs = push_rows sink out (space b (rs_len sink out) (map as_row (admitted b xs)))" for out
    by (rule Cons.IH, rule ids_ok_sub [OF Cons.prems]) auto
  consider "wb_full b (rs_len sink out)" | "\<not> wb_full b (rs_len sink out)" "\<not> adm b (fst x)" | (take) "\<not> wb_full b (rs_len sink out)" "adm b (fst x)" by blast
  then show ?case
  proof cases
    case take
    have id: "trailing_row_id (fst x) = Ok (fst (as_row x))" using Cons.prems take(2) by (simp add: ids_ok_def trailing_row_id_def has_id_def as_row_def)
    have "rfold (row_step sink b) out (x # xs) = rbind (rs_push sink out (fst (as_row x)) (snd x)) (\<lambda>out. rfold (row_step sink b) out xs)"
      using take by (simp add: row_step_def id)
    also have "\<dots> = rbind (rs_push sink out (fst (as_row x)) (snd x))
        (\<lambda>out'. push_rows sink out' (space b (Suc (rs_len sink out)) (map as_row (admitted b xs))))"
      by (rule rbind_cong) (simp_all add: IH push_len)
    also have "\<dots> = push_rows sink out (space b (rs_len sink out) (map as_row (admitted b (x # xs))))"
      using take by (simp add: push_rows_def as_row_def)
    finally show ?thesis .
  qed (use IH [of out] step_idle [of b sink out x] in simp_all)
qed

end

interpretation vec_rows: counted_sink vec_sink
  by unfold_locales (auto simp: vec_sink_def)

interpretation id_rows: counted_sink id_sink
  by unfold_locales (auto simp: id_sink_def)

interpretation callback_rows: counted_sink "callback_sink row" for row
  by unfold_locales (auto simp: callback_sink_def)

lemma sink_len [simp]: "rs_len vec_sink = length" "rs_len id_sink = length" "rs_len (callback_sink row) = rc_accepted"
  by (simp_all add: vec_sink_def id_sink_def callback_sink_def)

lemma push_vec: "push_rows vec_sink out rows = Ok (out @ rows)"
  by (induction rows arbitrary: out) (auto simp: push_rows_def vec_sink_def)

lemma push_ids: "push_rows id_sink out rows = Ok (out @ map fst rows)"
  by (induction rows arbitrary: out) (auto simp: push_rows_def id_sink_def)

section \<open>Cursors\<close>

text \<open>A span of the key space whose entries a leaf page holds.\<close>

definition spans :: "bytes option \<Rightarrow> bytes option \<Rightarrow> bytes \<Rightarrow> bool" where
  "spans low high k = in_range (case low of None \<Rightarrow> [] | Some l \<Rightarrow> l) high k"

definition leaf_holds :: "cow_btree \<Rightarrow> (bytes \<times> bytes) list \<Rightarrow> bytes option \<Rightarrow> bytes option \<Rightarrow> bytes \<Rightarrow> bool" where
  "leaf_holds t X low high bs \<longleftrightarrow> (\<exists>es lo hi. decode (t_page_size t) bs = Ok (Leaf bs es) \<and> leaf_wf t False bs es lo hi \<and>
     map (\<lambda>e. (entry_key bs e, the_val t False bs e)) es = filter (\<lambda>kv. spans low high (fst kv)) X)"

lemma span_bounds:
  assumes "leaf_of_span t X pid sp bs"
  obtains low high where "bound_key (sp_low sp) = Ok low" "bound_key (sp_high sp) = Ok high"
    "raw_page t pid False = Ok bs" "leaf_holds t X low high bs"
  using assms unfolding leaf_of_span_def leaf_holds_def span_ok_def spans_def by blast

lemma lower_admits:
  assumes "case low of Some l \<Rightarrow> l \<le> effective_lower b | None \<Rightarrow> True" "adm b k"
  shows "(case low of None \<Rightarrow> [] | Some l \<Rightarrow> l) \<le> k"
  using assms by (auto simp: effective_lower_def adm_def split: option.splits if_splits)

lemma leaf_scan_cursor:
  assumes "leaf_holds t X low high bs"
  shows "scan_leaf_into t sink b False bs out = rfold (row_step sink b) out (filter (\<lambda>kv. spans low high (fst kv)) X)"
    "scan_leaf_row_ids_into (t_page_size t) b bs ids = rfold (row_step id_sink b) ids (filter (\<lambda>kv. spans low high (fst kv)) X)"
    "index_at bs off_kind = Ok kind_leaf"
  using assms value_walk.leaf_law [of t bs _ False _ _ sink b out] id_walk.leaf_law [of t bs _ False _ _ b ids] decode_leaf_kind [of "t_page_size t" bs]
  by (auto simp: leaf_holds_def)

lemma admitted_span:
  assumes "\<And>k v. (k, v) \<in> set X \<Longrightarrow> adm b k \<Longrightarrow> spans low high k"
  shows "admitted b (filter (\<lambda>kv. spans low high (fst kv)) X) = admitted b X"
  using assms by (auto simp: admitted_def intro!: filter_cong)

text \<open>A span that is left on the right only: its admitted entries are the first ones.\<close>

lemma admitted_span_prefix:
  assumes "sorted_wrt (<) (map fst X)" "\<And>k v. (k, v) \<in> set X \<Longrightarrow> adm b k \<Longrightarrow> (case low of None \<Rightarrow> [] | Some l \<Rightarrow> l) \<le> k"
  shows "\<exists>ys. admitted b X = admitted b (filter (\<lambda>kv. spans low high (fst kv)) X) @ ys"
  using assms
proof (induction X)
  case (Cons x X)
  have IH: "\<exists>ys. admitted b X = admitted b (filter (\<lambda>kv. spans low high (fst kv)) X) @ ys"
    by (rule Cons.IH) (use Cons.prems in auto)
  show ?case
  proof (cases "adm b (fst x) \<and> \<not> spans low high (fst x)")
    case False
    then show ?thesis using IH by auto
  next
    case True
    then obtain hi where hi: "high = Some hi" "hi \<le> fst x"
      using Cons.prems(2) [of "fst x" "snd x"] by (auto simp: spans_def in_range_def not_less split: option.splits)
    have "\<not> spans low high (fst y)" if "y \<in> set X" for y
      using Cons.prems(1) that hi by (fastforce simp: spans_def in_range_def)
    then have "filter (\<lambda>kv. spans low high (fst kv)) (x # X) = []" using True by (auto simp: filter_empty_conv)
    then show ?thesis by simp
  qed
qed simp

lemma lim_full:
  "wb_full b (length (lim b xs)) \<Longrightarrow> lim b (xs @ ys) = lim b xs"
  by (auto simp: wb_full_def lim_def split: option.splits)

context counted_sink
begin

lemma cursor_answer:
  assumes holds: "leaf_holds t X (rsc_low cur) (rsc_high cur) (rsc_bytes cur)" and low: "lower_is_in_leaf cur b"
    and sorted: "sorted_wrt (<) (map fst X)" and ids: "ids_ok b X"
    and out: "rs_len sink out = 0"
  shows "scan_row_values_from_cursor t sink cur b out = Ok (False, out) \<or>
    scan_row_values_from_cursor t sink cur b out = rbind (push_rows sink out (lim b (map as_row (admitted b X)))) (\<lambda>out. Ok (True, out))"
proof -
  let ?F = "filter (\<lambda>kv. spans (rsc_low cur) (rsc_high cur) (fst kv)) X"
  have lo: "(case rsc_low cur of None \<Rightarrow> [] | Some l \<Rightarrow> l) \<le> k" if "adm b k" for k
    by (rule lower_admits [OF _ that]) (use low in \<open>auto simp: lower_is_in_leaf_def Let_def split: option.splits if_splits\<close>)
  have idsF: "ids_ok b ?F" by (rule ids_ok_sub [OF ids]) auto
  show ?thesis
  proof (cases "end_is_in_leaf cur (wb_end b)")
    case True
    have "admitted b ?F = admitted b X"
      by (rule admitted_span)
        (use lo True in \<open>auto simp: spans_def in_range_def end_is_in_leaf_def adm_def split: option.splits\<close>)
    then show ?thesis
      using True fold_rows [OF idsF, of out] out by (simp add: scan_row_values_from_cursor_def leaf_scan_cursor [OF holds])
  next
    case False
    obtain ys where ys: "admitted b X = admitted b ?F @ ys" using admitted_span_prefix [OF sorted, of b "rsc_low cur" "rsc_high cur"] lo by auto
    have rows: "scan_leaf_into t vec_sink b False (rsc_bytes cur) [] = Ok (lim b (map as_row (admitted b ?F)))"
      using vec_rows.fold_rows [OF idsF, of "[]"] by (simp add: leaf_scan_cursor [OF holds] push_vec)
    then show ?thesis
      using False ys lim_full [of b "map as_row (admitted b ?F)" "map as_row ys"] by (simp add: scan_row_values_from_cursor_def)
  qed
qed

end

text \<open>
  A retained leaf is good when, for the current root and generation, it holds the entries of its
  span.
\<close>

definition raw_slot_ok :: "nat \<Rightarrow> cow_btree \<Rightarrow> u64 option \<Rightarrow> raw_scan_cursor option \<Rightarrow> bool" where
  "raw_slot_ok h t gen slot \<longleftrightarrow> (\<forall>cur. slot = Some cur \<and> rsc_root cur = read_root t \<and> gen = Some (rsc_generation cur) \<and> \<not> t_has_pending t \<longrightarrow>
     leaf_holds t (entries_of h t) (rsc_low cur) (rsc_high cur) (rsc_bytes cur))"

definition range_slot_ok :: "nat \<Rightarrow> cow_btree \<Rightarrow> u64 option \<Rightarrow> range_cursor option \<Rightarrow> bool" where
  "range_slot_ok h t gen slot \<longleftrightarrow> (\<forall>cur. slot = Some cur \<and> rgc_root cur = read_root t \<and> gen = Some (rgc_generation cur) \<and> \<not> t_has_pending t \<longrightarrow>
     (\<exists>bs. raw_page t (rgc_leaf cur) False = Ok bs \<and> leaf_holds t (entries_of h t) (rgc_low cur) (rgc_high cur) bs))"

definition raw_ready :: "nat \<Rightarrow> nat \<Rightarrow> cow_btree \<Rightarrow> bool" where
  "raw_ready h d t \<longleftrightarrow> tree_ok h t \<and> h \<le> d \<and> (t_has_pending t \<longrightarrow> placed t h (read_root t)) \<and> t_page_size t < 65536"

lemma no_span_ok: "span_ok no_span [] None"
  by (simp add: span_ok_def no_span_def bound_key_def)

lemma whole_range: "filter (\<lambda>kv. in_range [] None (fst kv)) X = X"
  by simp

lemma value_walk_root:
  assumes "raw_ready h d t"
  shows "runs (value_walk.kept t (t_has_pending t) (entries_of h t) cand)
    (walk_raw d t (scan_leaf_into t sink b (t_has_pending t)) cand (rs_len sink) b (t_has_pending t) (read_root t) no_span (out, None))
    (rfold (row_step sink b) out (entries_of h t))"
  using assms value_walk.walk_raw_fold [of t "t_has_pending t" h "read_root t" "[]" None d "entries_of h t" cand "(out, None)" no_span sink b] no_span_ok
  by (simp add: raw_ready_def tree_ok_def entries_of_def value_walk.kept_def)

lemma id_walk_root:
  assumes "raw_ready h d t"
  shows "runs (id_walk.kept t (t_has_pending t) (entries_of h t) cand)
    (walk_raw d t (scan_leaf_row_ids_into (t_page_size t) b) cand length b (t_has_pending t) (read_root t) no_span (out, None))
    (rfold (row_step id_sink b) out (entries_of h t))"
  using assms id_walk.walk_raw_fold [of t "t_has_pending t" h "read_root t" "[]" None d "entries_of h t" cand "(out, None)" no_span b] no_span_ok
  by (simp add: raw_ready_def tree_ok_def entries_of_def id_walk.kept_def)

lemma retained_value_leaf:
  assumes "value_walk.kept t False X (\<lambda>_ sp bs. \<lparr>rk_low = sp_low sp, rk_high = sp_high sp, rk_bytes = bs\<rparr>) (Some c)"
  shows "\<exists>cur. retain_raw_scan_cursor root g c = Ok cur \<and> rsc_root cur = root \<and> rsc_generation cur = g \<and>
    leaf_holds t X (rsc_low cur) (rsc_high cur) (rsc_bytes cur)"
proof -
  obtain pid sp bs where c: "c = \<lparr>rk_low = sp_low sp, rk_high = sp_high sp, rk_bytes = bs\<rparr>" "leaf_of_span t X pid sp bs"
    using assms by (auto simp: value_walk.kept_def)
  obtain low high where "bound_key (sp_low sp) = Ok low" "bound_key (sp_high sp) = Ok high" "leaf_holds t X low high bs"
    using span_bounds [OF c(2)] by blast
  then show ?thesis by (simp add: c(1) retain_raw_scan_cursor_def)
qed

lemma retained_id_leaf:
  assumes "id_walk.kept t False X (\<lambda>pid sp _. \<lparr>gk_leaf = pid, gk_low = sp_low sp, gk_high = sp_high sp\<rparr>) (Some c)"
  shows "\<exists>cur bs. retain_range_cursor root g c = Ok cur \<and> rgc_root cur = root \<and> rgc_generation cur = g \<and>
    raw_page t (rgc_leaf cur) False = Ok bs \<and> leaf_holds t X (rgc_low cur) (rgc_high cur) bs"
proof -
  obtain pid sp bs where c: "c = \<lparr>gk_leaf = pid, gk_low = sp_low sp, gk_high = sp_high sp\<rparr>" "leaf_of_span t X pid sp bs"
    using assms by (auto simp: id_walk.kept_def)
  obtain low high where "bound_key (sp_low sp) = Ok low" "bound_key (sp_high sp) = Ok high" "raw_page t pid False = Ok bs" "leaf_holds t X low high bs"
    using span_bounds [OF c(2)] by blast
  then show ?thesis by (simp add: c(1) retain_range_cursor_def)
qed

lemma entries_sorted: "raw_ready h d t \<Longrightarrow> sorted_wrt (<) (map fst (entries_of h t))"
  using contents_sorted unfolding raw_ready_def tree_ok_def entries_of_def by blast

lemma empty_range: "(case en of None \<Rightarrow> False | Some e \<Rightarrow> e \<le> start) \<Longrightarrow>
    admitted \<lparr>wb_start = start, wb_end = en, wb_after = after, wb_limit = limit\<rparr> xs = []"
  by (auto simp: admitted_def adm_def filter_empty_conv split: option.splits)

context counted_sink
begin

lemma raw_scan_spec:
  fixes start en after limit
  defines "b \<equiv> \<lparr>wb_start = start, wb_end = en, wb_after = after, wb_limit = Some limit\<rparr>"
  assumes ready: "raw_ready h d t" and ids: "ids_ok b (entries_of h t)" and out: "rs_len sink out = 0" and slot: "raw_slot_ok h t gen slot"
  shows "\<exists>slot'. raw_slot_ok h t gen slot' \<and> scan_range_row_values_raw_into d t sink gen slot start en after limit out =
    rbind (push_rows sink out (take limit (map as_row (admitted b (entries_of h t))))) (\<lambda>out. Ok (out, slot'))"
proof (cases "limit = 0 \<or> (case en of None \<Rightarrow> False | Some e \<Rightarrow> e \<le> start)")
  case True
  then have e: "take limit (map as_row (admitted b (entries_of h t))) = []" using empty_range b_def by auto
  show ?thesis unfolding e using True slot by (intro exI [of _ slot]) (simp add: scan_range_row_values_raw_into_def push_rows_def)
next
  case False
  let ?X = "entries_of h t" and ?p = "t_has_pending t"
  define gn where "gn = (if \<not> t_has_pending t \<and> \<not> t_reuse_enabled t then gen else None)"
  have gn: "\<not> ?p \<and> gen = Some g" if "gn = Some g" for g using that by (auto simp: gn_def split: if_splits)
  let ?rows = "push_rows sink out (take limit (map as_row (admitted b ?X)))"
  let ?cand = "\<lambda>_ sp bs. \<lparr>rk_low = sp_low sp, rk_high = sp_high sp, rk_bytes = bs\<rparr>"
  let ?attempt = "case (gn, slot) of (Some g, Some cur) \<Rightarrow>
      (if rsc_root cur = read_root t \<and> rsc_generation cur = g \<and> lower_is_in_leaf cur b
       then scan_row_values_from_cursor t sink cur b out else Ok (False, out)) | _ \<Rightarrow> Ok (False, out)"
  let ?finish = "\<lambda>(o', candidate). case (gn, candidate) of
      (Some g, Some c) \<Rightarrow> rbind (retain_raw_scan_cursor (read_root t) g c) (\<lambda>cur. Ok (o', Some cur)) | _ \<Rightarrow> Ok (o', slot)"
  have eq: "scan_range_row_values_raw_into d t sink gen slot start en after limit out =
      rbind ?attempt (\<lambda>(answered, o'). if answered then Ok (o', slot)
        else rbind (walk_raw_row_values d t sink b ?p (read_root t) no_span (o', None)) ?finish)"
    unfolding scan_range_row_values_raw_into_def Let_def b_def [symmetric] gn_def [symmetric] using False by simp
  have lim: "lim b xs = take limit xs" for xs :: "(u64 \<times> bytes) list" by (simp add: lim_def b_def)
  have attempt: "?attempt = Ok (False, out) \<or> ?attempt = rbind ?rows (\<lambda>o'. Ok (True, o'))"
    using cursor_answer [OF _ _ entries_sorted [OF ready] ids out] slot
    by (auto simp: raw_slot_ok_def lim dest!: gn split: option.splits if_splits)
  have walk: "runs (value_walk.kept t ?p ?X ?cand) (walk_raw_row_values d t sink b ?p (read_root t) no_span (out, None)) ?rows"
    using value_walk_root [OF ready, of ?cand sink b out] fold_rows [OF ids, of out] out by (simp add: walk_raw_row_values_def lim)
  have finish: "\<exists>slot'. raw_slot_ok h t gen slot' \<and> ?finish (o', c) = Ok (o', slot')" if k: "value_walk.kept t ?p ?X ?cand c" for o' c
  proof (cases "\<exists>g x. gn = Some g \<and> c = Some x")
    case True
    then obtain g x where x: "gn = Some g" "c = Some x" by blast
    then obtain cur where "retain_raw_scan_cursor (read_root t) g x = Ok cur" "leaf_holds t ?X (rsc_low cur) (rsc_high cur) (rsc_bytes cur)"
      using retained_value_leaf [of t ?X x "read_root t" g] k gn by auto
    then show ?thesis using x by (intro exI [of _ "Some cur"]) (simp add: raw_slot_ok_def)
  next
    case False
    then show ?thesis using slot by (intro exI [of _ slot]) (auto split: option.splits)
  qed
  show ?thesis
    using attempt
  proof
    assume "?attempt = Ok (False, out)"
    then show ?thesis
      unfolding eq using walk finish slot by (cases ?rows) (auto simp: runs_def)
  next
    assume "?attempt = rbind ?rows (\<lambda>o'. Ok (True, o'))"
    then show ?thesis unfolding eq using slot by (intro exI [of _ slot]) (simp add: rbind_assoc)
  qed
qed

end

lemma id_cursor_answer:
  assumes page: "raw_page t (rgc_leaf cur) False = Ok bs" and holds: "leaf_holds t X (rgc_low cur) (rgc_high cur) bs"
    and cov: "covers cur b" and ids: "ids_ok b X"
  shows "scan_row_ids_from_range_cursor t cur b [] = Ok (True, map fst (lim b (map as_row (admitted b X))))"
proof -
  let ?F = "filter (\<lambda>kv. spans (rgc_low cur) (rgc_high cur) (fst kv)) X"
  have lo: "(case rgc_low cur of None \<Rightarrow> [] | Some l \<Rightarrow> l) \<le> k" if "adm b k" for k
    by (rule lower_admits [OF _ that]) (use cov in \<open>auto simp: covers_def Let_def split: option.splits if_splits\<close>)
  have "admitted b ?F = admitted b X"
    by (rule admitted_span)
      (use lo cov in \<open>auto simp: spans_def in_range_def covers_def Let_def adm_def split: option.splits if_splits\<close>)
  moreover have "ids_ok b ?F" by (rule ids_ok_sub [OF ids]) auto
  ultimately show ?thesis
    using id_rows.fold_rows [of b ?F "[]"]
    by (simp add: scan_row_ids_from_range_cursor_def page leaf_scan_cursor [OF holds] push_ids)
qed

lemma raw_ids_spec:
  fixes start en after limit
  defines "b \<equiv> \<lparr>wb_start = start, wb_end = en, wb_after = after, wb_limit = limit\<rparr>"
  assumes ready: "raw_ready h d t" and ids: "ids_ok b (entries_of h t)" and slot: "range_slot_ok h t gen slot"
  shows "\<exists>slot'. range_slot_ok h t gen slot' \<and> scan_range_row_ids_from_into d t gen slot start en after limit =
    Ok (map fst (lim b (map as_row (admitted b (entries_of h t)))), slot')"
proof (cases "limit = Some 0 \<or> (case en of None \<Rightarrow> False | Some e \<Rightarrow> e \<le> start)")
  case True
  then have e: "lim b (map as_row (admitted b (entries_of h t))) = []" using empty_range by (auto simp: b_def lim_def split: option.splits)
  show ?thesis unfolding e using True slot by (intro exI [of _ slot]) (simp add: scan_range_row_ids_from_into_def)
next
  case False
  let ?X = "entries_of h t" and ?p = "t_has_pending t"
  define gn where "gn = (if \<not> t_has_pending t \<and> \<not> t_reuse_enabled t then gen else None)"
  have gn: "\<not> ?p \<and> gen = Some g" if "gn = Some g" for g using that by (auto simp: gn_def split: if_splits)
  let ?ids = "map fst (lim b (map as_row (admitted b ?X)))"
  let ?cand = "\<lambda>pid sp _. \<lparr>gk_leaf = pid, gk_low = sp_low sp, gk_high = sp_high sp\<rparr>"
  let ?attempt = "case (gn, slot) of (Some g, Some cur) \<Rightarrow>
      (if rgc_root cur = read_root t \<and> rgc_generation cur = g \<and> covers cur b
       then scan_row_ids_from_range_cursor t cur b [] else Ok (False, [])) | _ \<Rightarrow> Ok (False, [])"
  let ?finish = "\<lambda>(o', candidate). case (gn, candidate) of
      (Some g, Some c) \<Rightarrow> rbind (retain_range_cursor (read_root t) g c) (\<lambda>cur. Ok (o', Some cur)) | _ \<Rightarrow> Ok (o', slot)"
  have eq: "scan_range_row_ids_from_into d t gen slot start en after limit =
      rbind ?attempt (\<lambda>(answered, o'). if answered then Ok (o', slot)
        else rbind (walk_raw_row_ids d t b ?p (read_root t) no_span (o', None)) ?finish)"
    unfolding scan_range_row_ids_from_into_def Let_def b_def [symmetric] gn_def [symmetric] using False by simp
  have attempt: "?attempt = Ok (False, []) \<or> ?attempt = Ok (True, ?ids)"
    using id_cursor_answer [OF _ _ _ ids] slot
    by (fastforce simp: range_slot_ok_def dest!: gn split: option.splits if_splits)
  have walk: "runs (id_walk.kept t ?p ?X ?cand) (walk_raw_row_ids d t b ?p (read_root t) no_span ([], None)) (Ok ?ids)"
    using id_walk_root [OF ready, of ?cand b "[]"] id_rows.fold_rows [OF ids, of "[]"] by (simp add: walk_raw_row_ids_def push_ids)
  have finish: "\<exists>slot'. range_slot_ok h t gen slot' \<and> ?finish (o', c) = Ok (o', slot')" if k: "id_walk.kept t ?p ?X ?cand c" for o' c
  proof (cases "\<exists>g x. gn = Some g \<and> c = Some x")
    case True
    then obtain g x where x: "gn = Some g" "c = Some x" by blast
    then obtain cur bs where "retain_range_cursor (read_root t) g x = Ok cur" "raw_page t (rgc_leaf cur) False = Ok bs"
        "leaf_holds t ?X (rgc_low cur) (rgc_high cur) bs"
      using retained_id_leaf [of t ?X x "read_root t" g] k gn by auto
    then show ?thesis using x by (intro exI [of _ "Some cur"]) (simp add: range_slot_ok_def)
  next
    case False
    then show ?thesis using slot by (intro exI [of _ slot]) (auto split: option.splits)
  qed
  show ?thesis
    using attempt
  proof
    assume "?attempt = Ok (False, [])"
    then show ?thesis unfolding eq using walk finish by (auto simp: runs_def)
  next
    assume "?attempt = Ok (True, ?ids)"
    then show ?thesis unfolding eq using slot by (intro exI [of _ slot]) simp
  qed
qed

section \<open>Properties\<close>

text \<open>The requests of a scan: start, end, resume key and limit.\<close>

type_synonym scan_request = "bytes \<times> bytes option \<times> bytes option \<times> nat"

fun request_bounds :: "scan_request \<Rightarrow> walk_bounds" where
  "request_bounds (start, en, after, limit) = \<lparr>wb_start = start, wb_end = en, wb_after = after, wb_limit = Some limit\<rparr>"

text \<open>A sequence of scans, each leaving its cursor to the next, and the same scans by the general walk.\<close>

fun raw_scans :: "nat \<Rightarrow> cow_btree \<Rightarrow> u64 option \<Rightarrow> raw_scan_cursor option \<Rightarrow> scan_request list \<Rightarrow> (u64 \<times> bytes) list list result" where
  "raw_scans d t gen slot [] = Ok []"
| "raw_scans d t gen slot ((start, en, after, limit) # qs) =
     rbind (scan_range_row_values_raw_into d t vec_sink gen slot start en after limit []) (\<lambda>(rows, slot).
     rbind (raw_scans d t gen slot qs) (\<lambda>rest. Ok (rows # rest)))"

fun raw_probes :: "nat \<Rightarrow> cow_btree \<Rightarrow> u64 option \<Rightarrow> range_cursor option \<Rightarrow> scan_request list \<Rightarrow> u64 list list result" where
  "raw_probes d t gen slot [] = Ok []"
| "raw_probes d t gen slot ((start, en, after, limit) # qs) =
     rbind (scan_range_row_ids_from_into d t gen slot start en after (Some limit)) (\<lambda>(ids, slot).
     rbind (raw_probes d t gen slot qs) (\<lambda>rest. Ok (ids # rest)))"

definition general_scan :: "nat \<Rightarrow> cow_btree \<Rightarrow> scan_request \<Rightarrow> (u64 \<times> bytes) list result" where
  "general_scan d t q = (case q of (start, en, after, limit) \<Rightarrow>
     rbind (scan_range_from d t start en after (Some limit)) (\<lambda>rows. Ok (map as_row rows)))"

lemma general_scan_rows:
  assumes "tree_ok h t" "h \<le> d"
  shows "general_scan d t (start, en, after, limit) =
    Ok (take limit (map as_row (admitted \<lparr>wb_start = start, wb_end = en, wb_after = after, wb_limit = Some limit\<rparr> (entries_of h t))))"
  by (simp add: general_scan_def scan_range_from_spec [OF assms] lim_def take_map)

lemma raw_scans_general:
  assumes ready: "raw_ready h d t"
  shows "raw_slot_ok h t gen slot \<Longrightarrow> \<forall>q \<in> set qs. ids_ok (request_bounds q) (entries_of h t) \<Longrightarrow>
    raw_scans d t gen slot qs = rmapM (general_scan d t) qs"
proof (induction qs arbitrary: slot)
  case (Cons q qs)
  obtain start en after limit where q: "q = (start, en, after, limit)" by (cases q)
  have ok: "tree_ok h t" "h \<le> d" using ready by (auto simp: raw_ready_def)
  obtain slot' where "raw_slot_ok h t gen slot'" "scan_range_row_values_raw_into d t vec_sink gen slot start en after limit [] =
      rbind (general_scan d t q) (\<lambda>out. Ok (out, slot'))"
    using vec_rows.raw_scan_spec [OF ready, of start en after limit "[]" gen slot] Cons.prems
    by (auto simp: q general_scan_rows [OF ok] push_vec)
  then show ?case using Cons.IH [of slot'] Cons.prems(2) by (simp add: q general_scan_rows [OF ok])
qed simp

lemma raw_probes_general:
  assumes ready: "raw_ready h d t"
  shows "range_slot_ok h t gen slot \<Longrightarrow> \<forall>q \<in> set qs. ids_ok (request_bounds q) (entries_of h t) \<Longrightarrow>
    raw_probes d t gen slot qs = rmapM (\<lambda>q. rbind (general_scan d t q) (\<lambda>rows. Ok (map fst rows))) qs"
proof (induction qs arbitrary: slot)
  case (Cons q qs)
  obtain start en after limit where q: "q = (start, en, after, limit)" by (cases q)
  have ok: "tree_ok h t" "h \<le> d" using ready by (auto simp: raw_ready_def)
  obtain slot' where "range_slot_ok h t gen slot'" "scan_range_row_ids_from_into d t gen slot start en after (Some limit) =
      rbind (general_scan d t q) (\<lambda>out. Ok (map fst out, slot'))"
    using raw_ids_spec [OF ready, of start en after "Some limit" gen slot] Cons.prems
    by (auto simp: q general_scan_rows [OF ok] lim_def)
  then show ?case using Cons.IH [of slot'] Cons.prems(2) by (simp add: q general_scan_rows [OF ok])
qed simp

text \<open>
  C9: on a well-formed tree whose pending pages fit their pages, any sequence of raw row scans
  and any sequence of raw index probes, each leaving its retained leaf to the next one, return
  exactly what the general range walk returns, as long as the keys they admit carry a row id:
  reading leaves in place and answering from a retained leaf change no answer.
\<close>

theorem raw_scans_exact:
  assumes "tree_ok h t" "h \<le> d" "t_has_pending t \<longrightarrow> placed t h (read_root t)" "t_page_size t < 65536"
    and "\<forall>q \<in> set qs. ids_ok (request_bounds q) (entries_of h t)"
  shows "raw_scans d t gen None qs = rmapM (general_scan d t) qs \<and>
    raw_probes d t gen None qs = rmapM (\<lambda>q. rbind (general_scan d t q) (\<lambda>rows. Ok (map fst rows))) qs"
proof -
  have "raw_ready h d t" using assms(1-4) by (simp add: raw_ready_def)
  then show ?thesis using raw_scans_general raw_probes_general assms(5) by (auto simp: raw_slot_ok_def range_slot_ok_def)
qed

text \<open>A committed tree of one leaf page, read three times: the later scans meet the retained leaf.\<close>

definition committed_rows :: "entry list" where
  "committed_rows = [\<lparr>ekey = Owned_Key [116, 0, 0, 0, 0, 0, 0, 0, 0, 7], evalue = Owned_Value [10]\<rparr>,
     \<lparr>ekey = Owned_Key [116, 0, 0, 0, 0, 0, 0, 0, 0, 9], evalue = Owned_Value [20]\<rparr>]"

definition committed_tree :: cow_btree where
  "committed_tree = sample_tree\<lparr>t_read := (\<lambda>_ _. encode_node 128 (Leaf [] committed_rows)), t_page_size := 128, t_root := 1,
     t_dirty := Map.empty, t_has_pending := False\<rparr>"

lemma committed_tree_ok: "tree_ok 1 committed_tree"
  "entries_of 1 committed_tree = [([116, 0, 0, 0, 0, 0, 0, 0, 0, 7], [10]), ([116, 0, 0, 0, 0, 0, 0, 0, 0, 9], [20])]"
proof -
  have fits: "node_fits 128 (Leaf [] committed_rows)"
    by (simp add: node_fits_def page_fits_def committed_rows_def entry_ok_def key_ok_def value_ok_def leaf_fits_def header_size_def
        cells_total_def slot_size_def entry_len_def leaf_cell_size_def inline_len_def key_fits_def the_key_def)
  obtain bs m where m: "encode_node 128 (Leaf [] committed_rows) = Ok bs" "decode 128 bs = Ok m" "same_node m (Leaf [] committed_rows)"
    using encode_same [OF fits] by blast
  have wf: "leaf_wf committed_tree False [] committed_rows [] None"
    by (simp add: leaf_wf_def committed_rows_def entry_ok_def key_ok_def value_ok_def the_key_def resolve_value_at_def)
  obtain bs' es' where l: "m = Leaf bs' es'" "leaf_wf committed_tree False bs' es' [] None"
    "map (\<lambda>e. (entry_key bs' e, the_val committed_tree False bs' e)) es' = map (\<lambda>e. (entry_key [] e, the_val committed_tree False [] e)) committed_rows"
    by (rule same_leaf [OF m(3) decoded_ok [OF m(2)] wf])
  have "node_at committed_tree 1 False = Ok (Leaf bs' es')"
    using m(1,2) l(1) by (simp add: node_at_def committed_node_def committed_tree_def sample_tree_def)
  moreover have "read_root committed_tree = 1" "\<not> t_has_pending committed_tree" by (simp_all add: read_root_def committed_tree_def)
  ultimately show "tree_ok 1 committed_tree"
    "entries_of 1 committed_tree = [([116, 0, 0, 0, 0, 0, 0, 0, 0, 7], [10]), ([116, 0, 0, 0, 0, 0, 0, 0, 0, 9], [20])]"
    using l(2,3) unfolding One_nat_def
    by (simp_all add: tree_ok_def entries_of_def committed_rows_def the_val_def resolve_value_at_def the_key_def)
qed

theorem raw_scans_exact_witness:
  "raw_scans 1 committed_tree (Some 5) None [([116, 0], None, None, 1), ([116, 0], None, Some [116, 0, 0, 0, 0, 0, 0, 0, 0, 7], 4)] =
    Ok [[(7, [10])], [(9, [20])]]"
proof -
  have "general_scan 1 committed_tree ([116, 0], None, None, 1) = Ok [(7, [10])]"
    "general_scan 1 committed_tree ([116, 0], None, Some [116, 0, 0, 0, 0, 0, 0, 0, 0, 7], 4) = Ok [(9, [20])]"
    unfolding general_scan_rows [OF committed_tree_ok(1) order_refl] committed_tree_ok(2)
    by (simp_all add: adm_def as_row_def u64_from_be_def be_to_nat_def)
  then show ?thesis
    using raw_scans_exact [of 1 committed_tree 1 "[([116, 0], None, None, 1), ([116, 0], None, Some [116, 0, 0, 0, 0, 0, 0, 0, 0, 7], 4)]" "Some 5"]
      committed_tree_ok(1)
    unfolding committed_tree_ok(2) by (simp add: ids_ok_def has_id_def committed_tree_def del: One_nat_def)
qed

end
