(* ===== verification/Storage_Trait.thy ===== *)
theory Storage_Trait
  imports Storage Tree_Raw
begin

text \<open>
  The walks over a whole table (\<^verbatim>\<open>src/crates/inlaysql-core/src/traits.rs\<close>): the default methods of the
  \<open>Storage\<close> trait, the streaming \<open>RowScan\<close> with its doubling batches, and the amortised cancellation
  check \<open>Interrupt\<close> every scan spends its rows against. They are defined over the batch scan of a
  backend, which takes the backend's state and returns it (a read may move a retained cursor); the
  locale \<open>batch_scan\<close> states the three obligations the trait documents, and is interpreted on the row
  and key scans of the table store over the tree.
\<close>

type_synonym ('k, 's) scanner = "'s \<Rightarrow> 'k option \<Rightarrow> nat \<Rightarrow> (('k \<times> bytes) list \<times> 's) result"

section \<open>Default methods\<close>

text \<open>The callback is a transformer of its captured state, run on each row of the batch in turn.\<close>

fun each_row :: "('c \<Rightarrow> 'k \<Rightarrow> bytes \<Rightarrow> 'c result) \<Rightarrow> 'c \<Rightarrow> ('k \<times> bytes) list \<Rightarrow> 'c result" where
  "each_row row c [] = Ok c"
| "each_row row c ((k, v) # rows) = rbind (row c k v) (\<lambda>c. each_row row c rows)"

definition scan_batch_with :: "('k, 's) scanner \<Rightarrow> 's \<Rightarrow> 'k option \<Rightarrow> nat
    \<Rightarrow> ('c \<Rightarrow> 'k \<Rightarrow> bytes \<Rightarrow> 'c result) \<Rightarrow> 'c \<Rightarrow> ((nat \<times> 'k option) \<times> 'c \<times> 's) result" where
  "scan_batch_with scanner s after limit row c =
     rbind (scanner s after limit) (\<lambda>(batch, s).
     let last_id = (if batch = [] then None else Some (fst (last batch)))
     in rbind (each_row row c batch) (\<lambda>c. Ok ((length batch, last_id), c, s)))"

definition first_in_table_default :: "('k, 's) scanner \<Rightarrow> 's \<Rightarrow> (('k \<times> bytes) option \<times> 's) result" where
  "first_in_table_default scanner s =
     rbind (scanner s None 1) (\<lambda>(batch, s). Ok (case batch of [] \<Rightarrow> None | r # _ \<Rightarrow> Some r, s))"

text \<open>Loops over batches; \<open>None\<close> is a loop that never ends.\<close>

partial_function (option) last_loop ::
  "('k, 's) scanner \<Rightarrow> 's \<Rightarrow> 'k option \<Rightarrow> ('k \<times> bytes) option \<Rightarrow> (('k \<times> bytes) option \<times> 's) result option" where
  "last_loop scanner s after found =
     (case scanner s after 4096 of
        Err e \<Rightarrow> Some (Err e)
      | Panic \<Rightarrow> Some Panic
      | Ok (batch, s) \<Rightarrow>
          (if batch = [] then Some (Ok (found, s))
           else last_loop scanner s (Some (fst (last batch))) (Some (last batch))))"

definition last_in_table_default where
  "last_in_table_default scanner s = last_loop scanner s None None"

partial_function (option) count_loop ::
  "('k, 's) scanner \<Rightarrow> 's \<Rightarrow> 'k option \<Rightarrow> u64 \<Rightarrow> (u64 \<times> 's) result option" where
  "count_loop scanner s after counted =
     (case scan_batch_with scanner s after 4096 (\<lambda>_ _ _. Ok ()) () of
        Err e \<Rightarrow> Some (Err e)
      | Panic \<Rightarrow> Some Panic
      | Ok ((seen, last_id), _, s) \<Rightarrow>
          (case last_id of
             Some k \<Rightarrow>
               (if seen = 4096 then count_loop scanner s (Some k) (counted + of_nat seen)
                else Some (Ok (counted + of_nat seen, s)))
           | None \<Rightarrow> Some (Ok (counted + of_nat seen, s))))"

definition count_rows_default where
  "count_rows_default scanner s = count_loop scanner s None 0"

text \<open>The default index methods over the backend's range scan.\<close>

definition first_index_entry_default :: "(bytes \<Rightarrow> bytes option \<Rightarrow> bytes list result) \<Rightarrow> bytes \<Rightarrow> bytes option \<Rightarrow> bytes option result" where
  "first_index_entry_default scanner start en = rbind (scanner start en) (\<lambda>ks. Ok (case ks of [] \<Rightarrow> None | k # _ \<Rightarrow> Some k))"

definition last_index_entry_default :: "(bytes \<Rightarrow> bytes option \<Rightarrow> bytes list result) \<Rightarrow> bytes \<Rightarrow> bytes option \<Rightarrow> bytes option result" where
  "last_index_entry_default scanner start en = rbind (scanner start en) (\<lambda>ks. Ok (if ks = [] then None else Some (last ks)))"

definition scan_index_row_ids_default :: "(bytes \<Rightarrow> bytes option \<Rightarrow> bytes list result) \<Rightarrow> bytes \<Rightarrow> bytes option \<Rightarrow> u64 list result" where
  "scan_index_row_ids_default scanner start en = rbind (scanner start en) (rmapM row_id_from_entry)"

section \<open>Cancellation\<close>

text \<open>
  The installed signal is an external object with its own state; \<open>stop\<close> is its answer when asked.
\<close>

definition CANCEL_STRIDE :: u32 where "CANCEL_STRIDE = 1024"

record 'w interrupt =
  in_signal :: "'w option"
  in_countdown :: u32

definition interrupt_none :: "'w interrupt" where
  "interrupt_none = \<lparr>in_signal = None, in_countdown = CANCEL_STRIDE\<rparr>"

definition interrupt_with :: "'w \<Rightarrow> 'w interrupt" where
  "interrupt_with w = \<lparr>in_signal = Some w, in_countdown = CANCEL_STRIDE\<rparr>"

definition begin_statement :: "('w \<Rightarrow> 'w) \<Rightarrow> 'w interrupt \<Rightarrow> 'w interrupt" where
  "begin_statement statement_began i = (case in_signal i of
     Some w \<Rightarrow> i\<lparr>in_countdown := CANCEL_STRIDE, in_signal := Some (statement_began w)\<rparr>
   | None \<Rightarrow> i)"

definition check_rows :: "('w \<Rightarrow> stopped option \<times> 'w) \<Rightarrow> 'w interrupt \<Rightarrow> nat \<Rightarrow> unit result \<times> 'w interrupt" where
  "check_rows stop i rows = (case in_signal i of
     None \<Rightarrow> (Ok (), i)
   | Some w \<Rightarrow>
       let spent = (if rows < 2 ^ 32 then of_nat rows else - 1);
           left = in_countdown i
       in if left > spent then (Ok (), i\<lparr>in_countdown := left - spent\<rparr>)
          else (case stop w of
             (Some reason, w) \<Rightarrow> (Err (Cancelled reason), i\<lparr>in_countdown := CANCEL_STRIDE, in_signal := Some w\<rparr>)
           | (None, w) \<Rightarrow> (Ok (), i\<lparr>in_countdown := CANCEL_STRIDE, in_signal := Some w\<rparr>)))"

definition check_one where
  "check_one stop i = check_rows stop i 1"

definition check_now where
  "check_now stop i = check_rows stop i (2 ^ 64 - 1)"

section \<open>Streaming scans\<close>

definition FIRST_SCAN_BATCH :: nat where "FIRST_SCAN_BATCH = 32"
definition MAX_SCAN_BATCH :: nat where "MAX_SCAN_BATCH = 512"

record ('k, 's, 'w) row_scan =
  sc_storage :: 's
  sc_after :: "'k option"
  sc_batch :: "('k \<times> bytes) list"
  sc_size :: nat
  sc_finished :: bool
  sc_interrupt :: "'w interrupt option"

definition row_scan_new :: "'s \<Rightarrow> ('k, 's, 'w) row_scan" where
  "row_scan_new s = \<lparr>sc_storage = s, sc_after = None, sc_batch = [], sc_size = FIRST_SCAN_BATCH, sc_finished = False, sc_interrupt = None\<rparr>"

definition with_first_batch :: "nat \<Rightarrow> ('k, 's, 'w) row_scan \<Rightarrow> ('k, 's, 'w) row_scan" where
  "with_first_batch rows r = r\<lparr>sc_size := max 1 (min rows MAX_SCAN_BATCH)\<rparr>"

definition row_scan_watched :: "'s \<Rightarrow> 'w interrupt \<Rightarrow> ('k, 's, 'w) row_scan" where
  "row_scan_watched s i = (row_scan_new s)\<lparr>sc_interrupt := Some i\<rparr>"

text \<open>The check before each batch, and the size of the next one (\<open>saturating_mul\<close> cannot saturate below 512).\<close>

definition check_scan :: "('w \<Rightarrow> stopped option \<times> 'w) \<Rightarrow> ('k, 's, 'w) row_scan \<Rightarrow> unit result \<times> ('k, 's, 'w) row_scan" where
  "check_scan stop r = (case sc_interrupt r of
     None \<Rightarrow> (Ok (), r)
   | Some i \<Rightarrow> (case check_rows stop i (sc_size r) of (x, i) \<Rightarrow> (x, r\<lparr>sc_interrupt := Some i\<rparr>)))"

definition next_size :: "nat \<Rightarrow> nat" where
  "next_size n = min (n * 2) MAX_SCAN_BATCH"

partial_function (option) row_scan_next ::
  "('k, 's) scanner \<Rightarrow> ('w \<Rightarrow> stopped option \<times> 'w) \<Rightarrow> ('k, 's, 'w) row_scan
     \<Rightarrow> (('k \<times> bytes) result option \<times> ('k, 's, 'w) row_scan) option" where
  "row_scan_next scanner stop r =
     (case sc_batch r of
        x # rest \<Rightarrow> Some (Some (Ok x), r\<lparr>sc_batch := rest, sc_after := Some (fst x)\<rparr>)
      | [] \<Rightarrow>
          (if sc_finished r then Some (None, r)
           else (case check_scan stop r of (answer, r) \<Rightarrow>
             (case answer of
                Err e \<Rightarrow> Some (Some (Err e), r\<lparr>sc_finished := True\<rparr>)
              | Panic \<Rightarrow> Some (Some Panic, r)
              | Ok _ \<Rightarrow>
                  (case scanner (sc_storage r) (sc_after r) (sc_size r) of
                     Err e \<Rightarrow> Some (Some (Err e), r\<lparr>sc_finished := True\<rparr>)
                   | Panic \<Rightarrow> Some (Some Panic, r)
                   | Ok (batch, s) \<Rightarrow>
                       (let r = r\<lparr>sc_storage := s, sc_finished := (length batch < sc_size r \<or> sc_finished r)\<rparr> in
                        if batch = [] then Some (None, r)
                        else row_scan_next scanner stop (r\<lparr>sc_size := next_size (sc_size r), sc_batch := batch\<rparr>)))))))"

text \<open>\<open>collect::<Result<Vec<_>>>()\<close>: rows until the end or the first error.\<close>

partial_function (option) collect_rows ::
  "('k, 's) scanner \<Rightarrow> ('w \<Rightarrow> stopped option \<times> 'w) \<Rightarrow> ('k, 's, 'w) row_scan \<Rightarrow> ('k \<times> bytes) list \<Rightarrow> ('k \<times> bytes) list result option" where
  "collect_rows scanner stop r out =
     Option.bind (row_scan_next scanner stop r) (\<lambda>(item, r).
       case item of
         None \<Rightarrow> Some (Ok out)
       | Some (Ok x) \<Rightarrow> collect_rows scanner stop r (out @ [x])
       | Some (Err e) \<Rightarrow> Some (Err e)
       | Some Panic \<Rightarrow> Some Panic)"

definition scan_all_rows :: "('k, 's) scanner \<Rightarrow> 's \<Rightarrow> ('k \<times> bytes) list result option" where
  "scan_all_rows scanner s = collect_rows scanner (\<lambda>w :: unit. (None, w)) (row_scan_new s) []"

definition scan_all_watched :: "('k, 's) scanner \<Rightarrow> ('w \<Rightarrow> stopped option \<times> 'w) \<Rightarrow> 's \<Rightarrow> 'w interrupt \<Rightarrow> ('k \<times> bytes) list result option" where
  "scan_all_watched scanner stop s i = collect_rows scanner stop (row_scan_watched s i) []"

text \<open>\<open>for_each_row\<close>: the rows already pulled are drained, then each batch goes straight to the callback.\<close>

partial_function (option) for_each_batch ::
  "('k, 's) scanner \<Rightarrow> ('w \<Rightarrow> stopped option \<times> 'w) \<Rightarrow> ('c \<Rightarrow> 'k \<Rightarrow> bytes \<Rightarrow> 'c result) \<Rightarrow> ('k, 's, 'w) row_scan \<Rightarrow> 'c \<Rightarrow> 'c result option" where
  "for_each_batch scanner stop row r c =
     (if sc_finished r then Some (Ok c)
      else (case check_scan stop r of (answer, r) \<Rightarrow>
        (case answer of
           Err e \<Rightarrow> Some (Err e)
         | Panic \<Rightarrow> Some Panic
         | Ok _ \<Rightarrow>
             (case scan_batch_with scanner (sc_storage r) (sc_after r) (sc_size r) row c of
                Err e \<Rightarrow> Some (Err e)
              | Panic \<Rightarrow> Some Panic
              | Ok ((count, last_id), c, s) \<Rightarrow>
                  (let r = r\<lparr>sc_storage := s, sc_finished := (count < sc_size r \<or> sc_finished r)\<rparr> in
                   if count = 0 then Some (Ok c)
                   else for_each_batch scanner stop row (r\<lparr>sc_after := last_id, sc_size := next_size (sc_size r)\<rparr>) c)))))"

definition for_each_row where
  "for_each_row scanner stop row r c =
     (case each_row row c (sc_batch r) of
        Err e \<Rightarrow> Some (Err e)
      | Panic \<Rightarrow> Some Panic
      | Ok c \<Rightarrow> for_each_batch scanner stop row
          (if sc_batch r = [] then r else r\<lparr>sc_after := Some (fst (last (sc_batch r))), sc_batch := []\<rparr>) c)"

partial_function (option) scan_all_keyed_loop ::
  "('k, 's) scanner \<Rightarrow> 's \<Rightarrow> 'k option \<Rightarrow> ('k \<times> bytes) list \<Rightarrow> ('k \<times> bytes) list result option" where
  "scan_all_keyed_loop scanner s after out =
     (case scanner s after MAX_SCAN_BATCH of
        Err e \<Rightarrow> Some (Err e)
      | Panic \<Rightarrow> Some Panic
      | Ok (batch, s) \<Rightarrow>
          (if length batch < MAX_SCAN_BATCH then Some (Ok (out @ batch))
           else scan_all_keyed_loop scanner s (if batch = [] then after else Some (fst (last batch))) (out @ batch)))"

definition scan_all_keyed where
  "scan_all_keyed scanner s = scan_all_keyed_loop scanner s None []"

section \<open>The row scan of the table store\<close>

definition scan_batch :: "nat \<Rightarrow> cow_btree \<Rightarrow> u64 option \<Rightarrow> bytes \<Rightarrow> (u64, raw_scan_cursor option) scanner" where
  "scan_batch d t gen table slot after limit =
     rbind (case after of None \<Rightarrow> Ok None
            | Some rid \<Rightarrow> rbind (row_key_buf_key row_key_buf_new table rid) (\<lambda>(k, _). Ok (Some k))) (\<lambda>resume.
     scan_prefix_row_values_raw_from d t gen slot (table_prefix table) resume limit)"

definition tree_scan_batch_with where
  "tree_scan_batch_with d t gen table slot after limit row c =
     rbind (case after of None \<Rightarrow> Ok None
            | Some rid \<Rightarrow> rbind (row_key_buf_key row_key_buf_new table rid) (\<lambda>(k, _). Ok (Some k))) (\<lambda>resume.
     scan_prefix_row_values_raw_with d t gen slot (table_prefix table) resume limit row c)"

definition scan_index_row_ids :: "nat \<Rightarrow> cow_btree \<Rightarrow> u64 option \<Rightarrow> range_cursor option \<Rightarrow> bytes \<Rightarrow> bytes option \<Rightarrow> (u64 list \<times> range_cursor option) result" where
  "scan_index_row_ids d t gen slot start en = scan_range_row_ids_from_into d t gen slot start en None None"

section \<open>What the walks rely on\<close>

definition after_key :: "'k::linorder option \<Rightarrow> 'k \<Rightarrow> bool" where
  "after_key after k \<longleftrightarrow> (case after of None \<Rightarrow> True | Some a \<Rightarrow> a < k)"

lemma each_row_unit: "each_row (\<lambda>_ _ _. Ok ()) () rows = Ok ()"
  by (induction rows) auto

lemma each_row_append: "each_row row c (xs @ ys) = rbind (each_row row c xs) (\<lambda>c. each_row row c ys)"
  by (induction xs arbitrary: c) (auto simp: rbind_assoc)

text \<open>Rows strictly after the key, at most \<open>limit\<close>, fewer only at the end, in key order, from one snapshot.\<close>

locale batch_scan =
  fixes scanner :: "('k::linorder, 's) scanner" and inv :: "'s \<Rightarrow> bool" and rows :: "('k \<times> bytes) list"
  assumes scan_law: "inv s \<Longrightarrow> \<exists>s'. inv s' \<and> scanner s after limit = Ok (take limit (filter (\<lambda>(k, v). after_key after k) rows), s')"
    and rows_sorted: "inv s \<Longrightarrow> sorted_wrt (<) (map fst rows)"
begin

lemma rest_after:
  assumes "inv st" "rows = pre @ suf" "pre \<noteq> []"
  shows "filter (\<lambda>(k, v). after_key (Some (fst (last pre))) k) rows = suf"
proof -
  have s: "sorted_wrt (<) (map fst pre @ map fst suf)" using rows_sorted [OF assms(1)] assms(2) by simp
  have "fst r \<le> fst (last pre)" if "r \<in> set pre" for r
  proof -
    from assms(3) obtain p l where pl: "pre = p @ [l]" by (cases pre rule: rev_cases) auto
    then have "\<forall>x \<in> set p. fst x < fst l" using s by (auto simp: sorted_wrt_append)
    then show ?thesis using that pl by (auto simp: less_imp_le)
  qed
  then have "filter (\<lambda>(k, v). after_key (Some (fst (last pre))) k) pre = []"
    by (fastforce simp: filter_empty_conv after_key_def)
  moreover have "filter (\<lambda>(k, v). after_key (Some (fst (last pre))) k) suf = suf"
    using s last_in_set [OF assms(3)] by (fastforce simp: filter_id_conv after_key_def sorted_wrt_append)
  ultimately show ?thesis using assms(2) by simp
qed

definition resumes :: "'k option \<Rightarrow> ('k \<times> bytes) list \<Rightarrow> ('k \<times> bytes) list \<Rightarrow> bool" where
  "resumes after pre suf \<longleftrightarrow> rows = pre @ suf \<and> after = (if pre = [] then None else Some (fst (last pre)))"

lemma scan_resumes:
  assumes "inv s" "resumes after pre suf"
  obtains s' where "inv s'" "scanner s after limit = Ok (take limit suf, s')"
proof -
  have "filter (\<lambda>(k, v). after_key after k) rows = suf"
  proof (cases "pre = []")
    case True
    then show ?thesis using assms(2) by (simp add: resumes_def after_key_def case_prod_unfold)
  next
    case False
    then show ?thesis using assms(2) rest_after [OF assms(1) _ False, of suf] by (simp only: resumes_def if_False)
  qed
  then show ?thesis using scan_law [OF assms(1), of after limit] that by auto
qed

lemma resumes_step:
  assumes "resumes after pre suf" "take limit suf \<noteq> []"
  shows "resumes (Some (fst (last (take limit suf)))) (pre @ take limit suf) (drop limit suf)"
  using assms unfolding resumes_def by (simp add: last_append)

lemma resumes_one: "resumes after pre (x # suf) \<Longrightarrow> resumes (Some (fst x)) (pre @ [x]) suf"
  unfolding resumes_def by simp

lemma resumes_all: "resumes None [] rows"
  by (simp add: resumes_def)

lemma last_loop_ends:
  "inv s \<Longrightarrow> resumes after pre suf \<Longrightarrow>
    \<exists>s'. inv s' \<and> last_loop scanner s after found = Some (Ok (if suf = [] then found else Some (last suf), s'))"
proof (induction "length suf" arbitrary: s after pre suf found rule: less_induct)
  case less
  obtain s1 where s1: "inv s1" "scanner s after 4096 = Ok (take 4096 suf, s1)" using scan_resumes [OF less.prems] by blast
  show ?case
  proof (cases "suf = []")
    case True
    then show ?thesis using s1 by (subst last_loop.simps) simp
  next
    case False
    let ?b = "take 4096 suf"
    have b: "?b \<noteq> []" "length (drop 4096 suf) < length suf" using False by auto
    have "last_loop scanner s after found = last_loop scanner s1 (Some (fst (last ?b))) (Some (last ?b))"
      using s1 b(1) by (subst last_loop.simps) simp
    moreover have "(if drop 4096 suf = [] then Some (last ?b) else Some (last (drop 4096 suf))) = Some (last suf)"
      by (auto simp: last_drop)
    ultimately show ?thesis
      using less.hyps [OF b(2) s1(1) resumes_step [OF less.prems(2) b(1)], of "Some (last ?b)"] False by simp
  qed
qed

lemma batch_with_resumes:
  assumes "inv s" "resumes after pre suf"
  obtains s' where "inv s'" "scan_batch_with scanner s after limit row c =
    rbind (each_row row c (take limit suf)) (\<lambda>c. Ok ((length (take limit suf),
      if take limit suf = [] then None else Some (fst (last (take limit suf)))), c, s'))"
proof -
  obtain s' where "inv s'" "scanner s after limit = Ok (take limit suf, s')" using scan_resumes [OF assms] by blast
  then show ?thesis by (intro that [of s']) (simp_all add: scan_batch_with_def Let_def)
qed

lemma count_loop_ends:
  "inv s \<Longrightarrow> resumes after pre suf \<Longrightarrow>
    \<exists>s'. inv s' \<and> count_loop scanner s after counted = Some (Ok (counted + of_nat (length suf), s'))"
proof (induction "length suf" arbitrary: s after pre suf counted rule: less_induct)
  case less
  let ?b = "take 4096 suf"
  obtain s1 where s: "inv s1" "scan_batch_with scanner s after 4096 (\<lambda>_ _ _. Ok ()) () =
      Ok ((length ?b, if ?b = [] then None else Some (fst (last ?b))), (), s1)"
    using batch_with_resumes [OF less.prems, of 4096 "\<lambda>_ _ _. Ok ()" "()"] by (auto simp: each_row_unit)
  show ?case
  proof (cases "length ?b = 4096")
    case True
    have b: "?b \<noteq> []" "length (drop 4096 suf) < length suf" using True by auto
    have "count_loop scanner s after counted = count_loop scanner s1 (Some (fst (last ?b))) (counted + of_nat 4096)"
      using s(2) True b(1) by (subst count_loop.simps) simp
    moreover have "counted + of_nat 4096 + of_nat (length (drop 4096 suf)) = counted + (of_nat (length suf) :: u64)"
      using True by (simp add: min_def split: if_splits)
    ultimately show ?thesis
      using less.hyps [OF b(2) s(1) resumes_step [OF less.prems(2) b(1)], of "counted + of_nat 4096"] by (simp add: add.assoc)
  next
    case False
    then have "length ?b = length suf" by (simp add: min_def split: if_splits)
    then show ?thesis using s False by (subst count_loop.simps) (auto split: if_splits)
  qed
qed

lemma keyed_loop_ends:
  "inv s \<Longrightarrow> resumes after pre suf \<Longrightarrow> scan_all_keyed_loop scanner s after out = Some (Ok (out @ suf))"
proof (induction "length suf" arbitrary: s after pre suf out rule: less_induct)
  case less
  let ?b = "take MAX_SCAN_BATCH suf"
  obtain s1 where s1: "inv s1" "scanner s after MAX_SCAN_BATCH = Ok (?b, s1)" using scan_resumes [OF less.prems] by blast
  show ?case
  proof (cases "length ?b < MAX_SCAN_BATCH")
    case True
    then have "?b = suf" by (simp add: min_def split: if_splits)
    then show ?thesis using s1 True by (subst scan_all_keyed_loop.simps) simp
  next
    case False
    have b: "?b \<noteq> []" "length (drop MAX_SCAN_BATCH suf) < length suf" using False by (auto simp: MAX_SCAN_BATCH_def)
    have "scan_all_keyed_loop scanner s after out = scan_all_keyed_loop scanner s1 (Some (fst (last ?b))) (out @ ?b)"
      using s1 False b(1) by (subst scan_all_keyed_loop.simps) simp
    then show ?thesis
      using less.hyps [OF b(2) s1(1) resumes_step [OF less.prems(2) b(1)], of "out @ ?b"] by simp
  qed
qed

lemma walks_see_all:
  assumes "inv s"
  shows "\<exists>s'. count_rows_default scanner s = Some (Ok (of_nat (length rows), s'))"
    "\<exists>s'. last_in_table_default scanner s = Some (Ok (if rows = [] then None else Some (last rows), s'))"
    "\<exists>s'. first_in_table_default scanner s = Ok (if rows = [] then None else Some (hd rows), s')"
    "scan_all_keyed scanner s = Some (Ok rows)"
proof -
  show "\<exists>s'. count_rows_default scanner s = Some (Ok (of_nat (length rows), s'))"
    using count_loop_ends [OF assms resumes_all, of 0] by (auto simp: count_rows_default_def)
  show "\<exists>s'. last_in_table_default scanner s = Some (Ok (if rows = [] then None else Some (last rows), s'))"
    using last_loop_ends [OF assms resumes_all, of None] by (auto simp: last_in_table_default_def)
  show "\<exists>s'. first_in_table_default scanner s = Ok (if rows = [] then None else Some (hd rows), s')"
  proof -
    obtain s' where "scanner s None 1 = Ok (take 1 rows, s')" using scan_resumes [OF assms resumes_all] by blast
    then show ?thesis by (cases "take 1 rows") (auto simp: first_in_table_default_def take_Suc)
  qed
  show "scan_all_keyed scanner s = Some (Ok rows)"
    using keyed_loop_ends [OF assms resumes_all] by (simp add: scan_all_keyed_def)
qed

text \<open>A streaming scan that has handed out \<open>pre\<close> and still owes \<open>suf\<close>.\<close>

definition scan_at :: "('k, 's, 'w) row_scan \<Rightarrow> ('k \<times> bytes) list \<Rightarrow> ('k \<times> bytes) list \<Rightarrow> bool" where
  "scan_at r pre suf \<longleftrightarrow> inv (sc_storage r) \<and> resumes (sc_after r) pre suf \<and> 0 < sc_size r \<and>
     (\<exists>rest. suf = sc_batch r @ rest \<and> (sc_finished r \<longrightarrow> rest = []))"

lemma check_scan_keeps:
  "check_scan stop r = (x, r') \<Longrightarrow> (x = Ok () \<or> (\<exists>e. x = Err (Cancelled e))) \<and>
     (sc_interrupt r = None \<longrightarrow> x = Ok ()) \<and> (sc_interrupt r' = None) = (sc_interrupt r = None) \<and> (\<exists>i. r' = r\<lparr>sc_interrupt := i\<rparr>)"
  by (cases "sc_interrupt r")
    (auto simp: check_scan_def check_rows_def Let_def split: option.splits prod.splits if_splits intro: exI [of _ "sc_interrupt r"])

lemma next_pulled:
  assumes "scan_at r pre (x # suf)" "sc_batch r \<noteq> []"
  shows "\<exists>r'. row_scan_next scanner stop r = Some (Some (Ok x), r') \<and> scan_at r' (pre @ [x]) suf \<and> sc_interrupt r' = sc_interrupt r"
proof -
  obtain b where b: "sc_batch r = x # b" using assms by (cases "sc_batch r") (auto simp: scan_at_def)
  then have "scan_at (r\<lparr>sc_batch := b, sc_after := Some (fst x)\<rparr>) (pre @ [x]) suf"
    using assms(1) resumes_one [of "sc_after r" pre x suf] by (simp add: scan_at_def)
  then show ?thesis using b by (subst row_scan_next.simps) simp
qed

lemma fetched_at:
  assumes "scan_at r pre suf" "\<not> sc_finished r" "inv s"
  shows "scan_at (r\<lparr>sc_interrupt := i, sc_storage := s, sc_finished := (length (take (sc_size r) suf) < sc_size r \<or> sc_finished r),
    sc_size := next_size (sc_size r), sc_batch := take (sc_size r) suf\<rparr>) pre suf"
proof -
  have "drop (sc_size r) suf = []" if "length (take (sc_size r) suf) < sc_size r" using that by simp
  then have "\<exists>rest. suf = take (sc_size r) suf @ rest \<and> (length (take (sc_size r) suf) < sc_size r \<longrightarrow> rest = [])"
    by (intro exI [of _ "drop (sc_size r) suf"] conjI impI) (simp only: append_take_drop_id)
  moreover have "resumes (sc_after r) pre suf" "0 < sc_size r" using assms(1) by (simp_all add: scan_at_def)
  ultimately show ?thesis using assms(2,3) by (simp add: scan_at_def next_size_def MAX_SCAN_BATCH_def)
qed

text \<open>One pull: the next row, the end when none is owed, or the cancellation of a watched scan.\<close>

lemma next_spec:
  assumes "scan_at r pre suf"
  shows "\<exists>item r'. row_scan_next scanner stop r = Some (item, r') \<and> (sc_interrupt r' = None) = (sc_interrupt r = None) \<and>
    ((item = None \<and> suf = []) \<or> (\<exists>x rest. item = Some (Ok x) \<and> suf = x # rest \<and> scan_at r' (pre @ [x]) rest) \<or>
     (\<exists>e. item = Some (Err (Cancelled e)) \<and> sc_interrupt r \<noteq> None))"
proof (cases "sc_batch r = []")
  case False
  then obtain x rest where x: "suf = x # rest" using assms by (cases suf) (auto simp: scan_at_def)
  obtain r' where "row_scan_next scanner stop r = Some (Some (Ok x), r')" "scan_at r' (pre @ [x]) rest" "sc_interrupt r' = sc_interrupt r"
    using next_pulled [OF assms [unfolded x] False] by blast
  then show ?thesis using x by (intro exI [of _ "Some (Ok x)"] exI [of _ r']) simp
next
  case empty: True
  show ?thesis
  proof (cases "sc_finished r")
    case True
    then have "suf = []" using assms empty by (auto simp: scan_at_def)
    then show ?thesis using empty True by (subst row_scan_next.simps) simp
  next
    case False
    obtain a r1 where c: "check_scan stop r = (a, r1)" by (cases "check_scan stop r")
    note keeps = check_scan_keeps [OF c]
    then obtain i where r1: "r1 = r\<lparr>sc_interrupt := i\<rparr>" by blast
    show ?thesis
    proof (cases "a = Ok ()")
      case no: False
      then show ?thesis using keeps empty False c by (subst row_scan_next.simps) auto
    next
      case True
      let ?b = "take (sc_size r) suf"
      obtain s2 where s2: "inv s2" "scanner (sc_storage r) (sc_after r) (sc_size r) = Ok (?b, s2)"
        using scan_resumes [of "sc_storage r" "sc_after r" pre suf "sc_size r"] assms by (auto simp: scan_at_def)
      let ?r = "r1\<lparr>sc_storage := s2, sc_finished := (length ?b < sc_size r1 \<or> sc_finished r1)\<rparr>"
      have step: "row_scan_next scanner stop r = (if ?b = [] then Some (None, ?r)
          else row_scan_next scanner stop (?r\<lparr>sc_size := next_size (sc_size r), sc_batch := ?b\<rparr>))"
        using empty False c True s2(2) r1 by (subst row_scan_next.simps) (simp add: Let_def)
      show ?thesis
      proof (cases suf)
        case Nil
        then show ?thesis using step keeps r1 by simp
      next
        case (Cons x rest)
        let ?n = "?r\<lparr>sc_size := next_size (sc_size r), sc_batch := ?b\<rparr>"
        have pos: "0 < sc_size r" using assms by (simp add: scan_at_def)
        then have b: "?b \<noteq> []" using Cons by simp
        have at: "scan_at ?n pre (x # rest)"
          using fetched_at [OF assms False s2(1), of i] r1 Cons by simp
        have "sc_batch ?n \<noteq> []" using b by simp
        then obtain r' where r': "row_scan_next scanner stop ?n = Some (Some (Ok x), r')" "scan_at r' (pre @ [x]) rest" "sc_interrupt r' = sc_interrupt ?n"
          using next_pulled [OF at] by blast
        then show ?thesis
          using step b keeps r1 Cons by (intro exI [of _ "Some (Ok x)"] exI [of _ r']) simp
      qed
    qed
  qed
qed

text \<open>A stream ends, with every row it owed or, when it is watched, with its cancellation.\<close>

lemma collect_ends:
  "scan_at r pre suf \<Longrightarrow> \<exists>x. collect_rows scanner stop r out = Some x \<and>
     (x = Ok (out @ suf) \<or> (\<exists>e. x = Err (Cancelled e)) \<and> sc_interrupt r \<noteq> None)"
proof (induction suf arbitrary: r pre out)
  case Nil
  obtain item r' where n: "row_scan_next scanner stop r = Some (item, r')"
    "item = None \<or> (\<exists>e. item = Some (Err (Cancelled e)) \<and> sc_interrupt r \<noteq> None)"
    using next_spec [OF Nil, of stop] by auto
  then show ?case by (subst collect_rows.simps) auto
next
  case (Cons x suf)
  obtain item r' where n: "row_scan_next scanner stop r = Some (item, r')" "(sc_interrupt r' = None) = (sc_interrupt r = None)"
    "item = Some (Ok x) \<and> scan_at r' (pre @ [x]) suf \<or> (\<exists>e. item = Some (Err (Cancelled e)) \<and> sc_interrupt r \<noteq> None)"
    using next_spec [OF Cons.prems, of stop] by fastforce
  show ?case
  proof (cases "item = Some (Ok x)")
    case True
    then have "collect_rows scanner stop r out = collect_rows scanner stop r' (out @ [x])"
      using n(1) by (subst collect_rows.simps) simp
    then show ?thesis using Cons.IH [of r' "pre @ [x]" "out @ [x]"] n(2,3) True by auto
  next
    case False
    then show ?thesis using n by (subst collect_rows.simps) auto
  qed
qed

lemma drained_at:
  assumes "scan_at r pre suf" "sc_batch r = []" "\<not> sc_finished r" "inv s" "take (sc_size r) suf \<noteq> []"
  shows "scan_at (r\<lparr>sc_interrupt := i, sc_storage := s, sc_finished := (length (take (sc_size r) suf) < sc_size r \<or> sc_finished r),
    sc_after := Some (fst (last (take (sc_size r) suf))), sc_size := next_size (sc_size r)\<rparr>) (pre @ take (sc_size r) suf) (drop (sc_size r) suf)"
  using assms resumes_step [of "sc_after r" pre suf "sc_size r"] by (auto simp: scan_at_def next_size_def MAX_SCAN_BATCH_def)

lemma for_each_ends:
  "scan_at r pre suf \<Longrightarrow> sc_batch r = [] \<Longrightarrow> \<exists>x. for_each_batch scanner stop row r c = Some x \<and>
     (x = each_row row c suf \<or> (\<exists>e. x = Err (Cancelled e)) \<and> sc_interrupt r \<noteq> None)"
proof (induction "length suf" arbitrary: r pre suf c rule: less_induct)
  case less
  show ?case
  proof (cases "sc_finished r")
    case True
    then have "suf = []" using less.prems by (auto simp: scan_at_def)
    then show ?thesis using True by (subst for_each_batch.simps) simp
  next
    case False
    let ?b = "take (sc_size r) suf"
    have at: "inv (sc_storage r)" "resumes (sc_after r) pre suf" "0 < sc_size r" using less.prems by (simp_all add: scan_at_def)
    obtain s1 where s1: "inv s1" "scan_batch_with scanner (sc_storage r) (sc_after r) (sc_size r) row c =
        rbind (each_row row c ?b) (\<lambda>c. Ok ((length ?b, if ?b = [] then None else Some (fst (last ?b))), c, s1))"
      by (rule batch_with_resumes [OF at(1,2)])
    obtain a r1 where ck: "check_scan stop r = (a, r1)" by (cases "check_scan stop r")
    note keeps = check_scan_keeps [OF ck]
    then obtain i where r1: "r1 = r\<lparr>sc_interrupt := i\<rparr>" by blast
    have split: "each_row row c suf = rbind (each_row row c ?b) (\<lambda>c. each_row row c (drop (sc_size r) suf))"
      using each_row_append [of row c ?b "drop (sc_size r) suf"] by simp
    let ?n = "r\<lparr>sc_interrupt := i, sc_storage := s1, sc_finished := (length ?b < sc_size r \<or> sc_finished r),
        sc_after := Some (fst (last ?b)), sc_size := next_size (sc_size r)\<rparr>"
    consider (stop) "a \<noteq> Ok ()" | (bad) e where "a = Ok ()" "each_row row c ?b = Err e"
      | (panic) "a = Ok ()" "each_row row c ?b = Panic" | (ended) "a = Ok ()" "suf = []" | (more) c' where "a = Ok ()" "each_row row c ?b = Ok c'" "suf \<noteq> []"
      by (cases "each_row row c ?b") auto
    then show ?thesis
    proof cases
      case stop
      then show ?thesis using keeps False ck by (subst for_each_batch.simps) auto
    next
      case bad
      then show ?thesis using False ck r1 s1(2) split by (subst for_each_batch.simps) simp
    next
      case panic
      then show ?thesis using False ck r1 s1(2) split by (subst for_each_batch.simps) simp
    next
      case ended
      then show ?thesis using False ck r1 s1(2) by (subst for_each_batch.simps) (simp add: Let_def)
    next
      case more
      have b: "?b \<noteq> []" "length (drop (sc_size r) suf) < length suf" using more(3) at(3) by auto
      have n: "scan_at ?n (pre @ ?b) (drop (sc_size r) suf)"
        by (rule drained_at [OF less.prems False s1(1) b(1)])
      have "for_each_batch scanner stop row r c = for_each_batch scanner stop row ?n c'"
        using False ck r1 s1(2) more b(1) by (subst for_each_batch.simps) (auto simp: Let_def min_def)
      then show ?thesis
        using less.hyps [OF b(2) n, of c'] less.prems(2) keeps r1 split more(2) by auto
    qed
  qed
qed

lemma new_scan_at: "inv s \<Longrightarrow> scan_at (row_scan_new s) [] rows"
  "inv s \<Longrightarrow> scan_at (row_scan_watched s i) [] rows"
  "scan_at r pre suf \<Longrightarrow> scan_at (with_first_batch n r) pre suf"
  by (auto simp: scan_at_def row_scan_new_def row_scan_watched_def with_first_batch_def FIRST_SCAN_BATCH_def resumes_all)

lemma streams_see_all:
  assumes "inv s"
  shows "scan_all_rows scanner s = Some (Ok rows)"
    "scan_all_watched scanner stop s i = Some (Ok rows) \<or> (\<exists>e. scan_all_watched scanner stop s i = Some (Err (Cancelled e)))"
    "for_each_row scanner stop row (with_first_batch n (row_scan_new s)) c = Some (each_row row c rows)"
proof -
  show "scan_all_rows scanner s = Some (Ok rows)"
    using collect_ends [OF new_scan_at(1) [OF assms], of "\<lambda>w :: unit. (None, w)" "[]"] by (auto simp: scan_all_rows_def row_scan_new_def)
  show "scan_all_watched scanner stop s i = Some (Ok rows) \<or> (\<exists>e. scan_all_watched scanner stop s i = Some (Err (Cancelled e)))"
    using collect_ends [OF new_scan_at(2) [OF assms], of stop i "[]"] by (auto simp: scan_all_watched_def)
  show "for_each_row scanner stop row (with_first_batch n (row_scan_new s)) c = Some (each_row row c rows)"
    using for_each_ends [OF new_scan_at(3) [OF new_scan_at(1) [OF assms]], of n stop row c]
    by (auto simp: for_each_row_def row_scan_new_def with_first_batch_def)
qed

end

section \<open>The table store\<close>

definition id_rows :: "nat \<Rightarrow> cow_btree \<Rightarrow> bytes \<Rightarrow> (u64 \<times> bytes) list" where
  "id_rows h t table = map (\<lambda>(k, v). (u64_from_be k, v)) (table_rows h t table)"

definition row_id_table :: "nat \<Rightarrow> cow_btree \<Rightarrow> bytes \<Rightarrow> bool" where
  "row_id_table h t table \<longleftrightarrow> (\<forall>(k, v) \<in> set (table_rows h t table). length k = 8)"

lemma be_id_order: "length k = 8 \<Longrightarrow> u64_to_be a < k \<longleftrightarrow> a < u64_from_be k"
  using u64_to_be_less_iff [of a "u64_from_be k"] by (simp add: u64_be_codec_inv)

lemma id_rows_sorted:
  assumes "tree_ok h t" "row_id_table h t table"
  shows "sorted_wrt (<) (map fst (id_rows h t table))"
proof -
  have "sorted_wrt (\<lambda>x y. fst x < fst y) (table_rows h t table)" using table_rows_sorted [OF assms(1)] by (simp add: sorted_wrt_map)
  then have "sorted_wrt (\<lambda>x y. u64_from_be (fst x) < u64_from_be (fst y)) (table_rows h t table)"
    by (rule sorted_wrt_mono_rel [rotated])
      (use assms(2) be_id_order in \<open>fastforce simp: row_id_table_def u64_be_codec_inv\<close>)
  then show ?thesis by (simp add: id_rows_def sorted_wrt_map case_prod_unfold)
qed

text \<open>The admitted entries of a table scan are the table's rows after the resume id.\<close>

lemma table_scan_rows:
  fixes after :: "u64 option" and table limit
  defines "b \<equiv> \<lparr>wb_start = table_prefix table, wb_end = prefix_upper_bound (table_prefix table),
      wb_after = map_option (row_key table) after, wb_limit = Some limit\<rparr>"
  assumes "row_id_table h t table"
  shows "map as_row (admitted b (entries_of h t)) = filter (\<lambda>(k, v). after_key after k) (id_rows h t table)" "ids_ok b (entries_of h t)"
proof -
  let ?p = "table_prefix table"
  let ?E = "filter (\<lambda>(k, v). starts_with k ?p) (entries_of h t)"
  have len: "length (drop (length ?p) k) = 8" if "(k, v) \<in> set (entries_of h t)" "starts_with k ?p" for k v
    using assms(2) that unfolding row_id_table_def table_rows_def by fastforce
  have adm: "adm b k \<longleftrightarrow> starts_with k ?p \<and> after_key after (u64_from_be (drop (length ?p) k))" if "(k, v) \<in> set (entries_of h t)" for k v
    using len [OF that] be_id_order prefix_cursor [of k ?p]
    by (cases after) (auto simp: b_def adm_def prefix_range [of k ?p] after_key_def row_key_prefix simp del: length_drop)
  show "ids_ok b (entries_of h t)" using adm len by (fastforce simp: ids_ok_def has_id_def)
  have row: "as_row (k, v) = (u64_from_be (drop (length ?p) k), v)" if "(k, v) \<in> set (entries_of h t)" "starts_with k ?p" for k and v :: bytes
    using len [OF that] that(2) by (auto simp: as_row_def dest!: starts_withD)
  have "admitted b (entries_of h t) = filter (\<lambda>kv. after_key after (fst (as_row kv))) ?E"
    unfolding admitted_def filter_filter using adm row by (intro filter_cong) auto
  then have "map as_row (admitted b (entries_of h t)) = filter (\<lambda>kv. after_key after (fst kv)) (map as_row ?E)"
    by (simp add: filter_map comp_def)
  moreover have "map as_row ?E = id_rows h t table"
    unfolding id_rows_def table_rows_def using row by (auto simp: comp_def)
  ultimately show "map as_row (admitted b (entries_of h t)) = filter (\<lambda>(k, v). after_key after k) (id_rows h t table)"
    by (simp add: case_prod_unfold)
qed

lemma resume_key: "(case after of None \<Rightarrow> Ok None | Some rid \<Rightarrow> rbind (row_key_buf_key row_key_buf_new table rid) (\<lambda>(k, _). Ok (Some k))) =
    Ok (map_option (row_key table) after)"
  using row_key_buf_new_key [of table] by (cases after) (fastforce split: option.splits)+

text \<open>The store's state as a scan sees it: the tree and the retained leaf.\<close>

definition tree_scanner :: "nat \<Rightarrow> u64 option \<Rightarrow> bytes \<Rightarrow> (u64, cow_btree \<times> raw_scan_cursor option) scanner" where
  "tree_scanner d gen table s after limit =
     rbind (scan_batch d (fst s) gen table (snd s) after limit) (\<lambda>(rows, slot). Ok (rows, fst s, slot))"

definition keyed_scanner :: "nat \<Rightarrow> bytes \<Rightarrow> (bytes, cow_btree) scanner" where
  "keyed_scanner d table t after limit = rbind (scan_batch_keyed d t table after limit) (\<lambda>rows. Ok (rows, t))"

definition tree_scan_inv :: "nat \<Rightarrow> nat \<Rightarrow> u64 option \<Rightarrow> bytes \<Rightarrow> (u64 \<times> bytes) list \<Rightarrow> cow_btree \<times> raw_scan_cursor option \<Rightarrow> bool" where
  "tree_scan_inv h d gen table rows s \<longleftrightarrow> raw_ready h d (fst s) \<and> row_id_table h (fst s) table \<and>
     raw_slot_ok h (fst s) gen (snd s) \<and> id_rows h (fst s) table = rows"

lemma scan_batch_rows:
  assumes ready: "raw_ready h d t" and tbl: "row_id_table h t table" and slot: "raw_slot_ok h t gen slot"
  shows "\<exists>slot'. raw_slot_ok h t gen slot' \<and>
    scan_batch d t gen table slot after limit = Ok (take limit (filter (\<lambda>(k, v). after_key after k) (id_rows h t table)), slot')"
  using vec_rows.raw_scan_spec [OF ready table_scan_rows(2) [OF tbl], of "[]" gen slot after limit] slot
  unfolding scan_batch_def resume_key scan_prefix_row_values_raw_from_def
  by (simp add: table_scan_rows(1) [OF tbl] push_vec)

text \<open>The store's own callback scan agrees with the default one.\<close>

lemma push_callback:
  "push_rows (callback_sink row) out rows = rbind (each_row row (rc_state out) rows) (\<lambda>c.
     Ok \<lparr>rc_accepted = rc_accepted out + length rows, rc_last = (if rows = [] then rc_last out else Some (fst (last rows))), rc_state = c\<rparr>)"
proof (induction rows arbitrary: out)
  case Nil
  then show ?case by (simp add: push_rows_def)
next
  case (Cons r rows)
  obtain i v where r: "r = (i, v)" by (cases r)
  show ?case
    using Cons.IH by (cases "row (rc_state out) i v") (auto simp: r push_rows_def callback_sink_def)
qed

lemma callback_scan_rows:
  assumes ready: "raw_ready h d t" and tbl: "row_id_table h t table" and slot: "raw_slot_ok h t gen slot"
  shows "\<exists>slot'. tree_scan_batch_with d t gen table slot after limit row c =
    rbind (scan_batch_with (tree_scanner d gen table) (t, slot) after limit row c) (\<lambda>(r, c, _). Ok (r, c, slot'))"
proof -
  obtain s1 where s1: "scan_batch d t gen table slot after limit = Ok (take limit (filter (\<lambda>(k, v). after_key after k) (id_rows h t table)), s1)"
    using scan_batch_rows [OF assms] by blast
  obtain s2 where s2: "scan_range_row_values_raw_into d t (callback_sink row) gen slot (table_prefix table) (prefix_upper_bound (table_prefix table))
        (map_option (row_key table) after) limit \<lparr>rc_accepted = 0, rc_last = None, rc_state = c\<rparr> =
      rbind (push_rows (callback_sink row) \<lparr>rc_accepted = 0, rc_last = None, rc_state = c\<rparr>
        (take limit (filter (\<lambda>(k, v). after_key after k) (id_rows h t table)))) (\<lambda>out. Ok (out, s2))"
    using callback_rows.raw_scan_spec [OF ready table_scan_rows(2) [OF tbl], of row "\<lparr>rc_accepted = 0, rc_last = None, rc_state = c\<rparr>" gen slot after limit] slot
    unfolding table_scan_rows(1) [OF tbl] by auto
  show ?thesis
    unfolding tree_scan_batch_with_def resume_key scan_prefix_row_values_raw_with_def rbind.simps s2 push_callback
    by (intro exI [of _ s2]) (simp add: scan_batch_with_def tree_scanner_def s1 Let_def rbind_assoc)
qed

interpretation tree_rows: batch_scan "tree_scanner d gen table" "tree_scan_inv h d gen table rows" rows for d gen table h rows
proof
  show "sorted_wrt (<) (map fst rows)" if "tree_scan_inv h d gen table rows s" for s
    using that id_rows_sorted by (auto simp: tree_scan_inv_def raw_ready_def)
  show "\<exists>s'. tree_scan_inv h d gen table rows s' \<and>
      tree_scanner d gen table s after limit = Ok (take limit (filter (\<lambda>(k, v). after_key after k) rows), s')"
    if inv: "tree_scan_inv h d gen table rows s" for s after limit
  proof -
    obtain slot' where "raw_slot_ok h (fst s) gen slot'"
      "scan_batch d (fst s) gen table (snd s) after limit = Ok (take limit (filter (\<lambda>(k, v). after_key after k) rows), slot')"
      using scan_batch_rows [of h d "fst s" table gen "snd s" after limit] inv by (auto simp: tree_scan_inv_def)
    then show ?thesis using that by (intro exI [of _ "(fst s, slot')"]) (simp add: tree_scanner_def tree_scan_inv_def)
  qed
qed

interpretation tree_keys: batch_scan "keyed_scanner d table" "\<lambda>t. tree_ok h t \<and> h \<le> d \<and> table_rows h t table = rows" rows for d table h rows
  by unfold_locales (auto simp: keyed_scanner_def scan_batch_keyed_rows after_key_def table_rows_sorted)

section \<open>Cancellation is noticed\<close>

text \<open>A sequence of checks that ends at the first error, as the loops of the engine do.\<close>

fun check_all :: "('w \<Rightarrow> stopped option \<times> 'w) \<Rightarrow> 'w interrupt \<Rightarrow> nat list \<Rightarrow> unit result \<times> 'w interrupt" where
  "check_all stop i [] = (Ok (), i)"
| "check_all stop i (n # ns) = (case check_rows stop i n of
     (Ok _, i) \<Rightarrow> check_all stop i ns
   | (x, i) \<Rightarrow> (x, i))"

lemma check_rows_spends:
  assumes "in_signal i = Some w" "stop w = (Some reason, w)" "0 < in_countdown i"
  shows "if unat (in_countdown i) \<le> rows then fst (check_rows stop i rows) = Err (Cancelled reason)
    else \<exists>i'. check_rows stop i rows = (Ok (), i') \<and> in_signal i' = Some w \<and> unat (in_countdown i') = unat (in_countdown i) - rows"
proof (cases "rows < 2 ^ 32")
  case True
  then have "unat (word_of_nat rows :: u32) = rows" by (simp add: unat_of_nat)
  moreover have "unat (in_countdown i - word_of_nat rows) = unat (in_countdown i) - rows" if "rows < unat (in_countdown i)"
    using that True calculation by (simp add: unat_sub_if')
  ultimately show ?thesis using assms True
    by (auto simp: check_rows_def Let_def word_less_nat_alt)
next
  case False
  have "unat (in_countdown i) < 2 ^ LENGTH(32)" by (rule unsigned_less)
  moreover have "\<not> in_countdown i > (- 1 :: u32)" by (simp add: not_less)
  ultimately show ?thesis using assms False by (simp add: check_rows_def Let_def)
qed

lemma check_all_stops:
  assumes "stop w = (Some reason, w)"
  shows "in_signal i = Some w \<Longrightarrow> 0 < in_countdown i \<Longrightarrow> unat (in_countdown i) \<le> sum_list ns \<Longrightarrow>
    fst (check_all stop i ns) = Err (Cancelled reason)"
proof (induction ns arbitrary: i)
  case Nil
  then show ?case by (simp add: word_less_nat_alt)
next
  case (Cons n ns)
  note one = check_rows_spends [of i w stop reason n, OF Cons.prems(1) assms Cons.prems(2)]
  show ?case
  proof (cases "unat (in_countdown i) \<le> n")
    case True
    then have "fst (check_rows stop i n) = Err (Cancelled reason)" using one by simp
    then show ?thesis by (cases "check_rows stop i n") auto
  next
    case False
    then obtain i' where i': "check_rows stop i n = (Ok (), i')" "in_signal i' = Some w" "unat (in_countdown i') = unat (in_countdown i) - n"
      using one by auto
    have "0 < in_countdown i'" using i'(3) False by (simp add: word_less_nat_alt)
    then show ?thesis using Cons.IH [OF i'(2)] i' Cons.prems(3) by simp
  qed
qed

section \<open>Properties\<close>



text \<open>
  C24: a walk over a whole table in batches ends and sees every row once, whatever the retained
  cursor: the stream collects the rows of the table in row id order, the callback form folds over
  the same rows, the default row count and last row are those of the table, and a watched scan gives
  either all rows or a cancellation, never a shorter answer; and the store's own callback scan hands
  out what the collected batch holds.
\<close>

theorem table_streams_complete:
  assumes "tree_ok h t" "h \<le> d" "t_has_pending t \<longrightarrow> placed t h (read_root t)" "t_page_size t < 65536" "row_id_table h t table"
  shows "scan_all_rows (tree_scanner d gen table) (t, None) = Some (Ok (id_rows h t table)) \<and>
    for_each_row (tree_scanner d gen table) stop row (with_first_batch n (row_scan_new (t, None))) c = Some (each_row row c (id_rows h t table)) \<and>
    (\<exists>s. count_rows_default (tree_scanner d gen table) (t, None) = Some (Ok (of_nat (length (id_rows h t table)), s))) \<and>
    (\<exists>s. last_in_table_default (tree_scanner d gen table) (t, None) =
       Some (Ok (if id_rows h t table = [] then None else Some (last (id_rows h t table)), s))) \<and>
    (scan_all_watched (tree_scanner d gen table) stop (t, None) i = Some (Ok (id_rows h t table)) \<or>
     (\<exists>e. scan_all_watched (tree_scanner d gen table) stop (t, None) i = Some (Err (Cancelled e)))) \<and>
    (\<exists>slot. tree_scan_batch_with d t gen table None after limit row c =
       rbind (scan_batch_with (tree_scanner d gen table) (t, None) after limit row c) (\<lambda>(r, c, _). Ok (r, c, slot)))"
proof -
  have "tree_scan_inv h d gen table (id_rows h t table) (t, None)"
    using assms by (simp add: tree_scan_inv_def raw_ready_def raw_slot_ok_def)
  note inv = this
  show ?thesis
    using inv by (intro conjI tree_rows.streams_see_all [OF inv] tree_rows.walks_see_all(1,2) [OF inv] callback_scan_rows [of h])
      (simp_all add: tree_scan_inv_def)
qed

lemma committed_table: "id_rows 1 committed_tree [84] = [(7, [10]), (9, [20])]" "row_id_table 1 committed_tree [84]"
proof -
  have r: "table_rows 1 committed_tree [84] = [([0, 0, 0, 0, 0, 0, 0, 7], [10]), ([0, 0, 0, 0, 0, 0, 0, 9], [20])]"
    unfolding table_rows_def committed_tree_ok(2)
    by (simp add: table_prefix_def to_ascii_lowercase_def starts_with_def KEY_SEPARATOR_def is_ascii_uppercase_def)
  show "id_rows 1 committed_tree [84] = [(7, [10]), (9, [20])]" "row_id_table 1 committed_tree [84]"
    unfolding id_rows_def row_id_table_def r by (simp_all add: u64_from_be_def be_to_nat_def)
qed

theorem table_streams_complete_witness:
  "scan_all_rows (tree_scanner 1 (Some 3) [84]) (committed_tree, None) = Some (Ok [(7, [10]), (9, [20])])"
proof -
  have "\<not> t_has_pending committed_tree" "t_page_size committed_tree < 65536" by (simp_all add: committed_tree_def)
  then show ?thesis
    using table_streams_complete [THEN conjunct1, of 1 committed_tree 1 "[84]" "Some 3"] committed_tree_ok(1) committed_table
    by (simp del: One_nat_def)
qed

end
