(* ===== verification/Quantize.thy ===== *)
theory Quantize
  imports Float64
begin

text \<open>
  Symmetric int8 quantisation of a vector (\<^verbatim>\<open>src/crates/inlaysql-core/src/quantize.rs\<close>):
  \<open>from_f32\<close> and \<open>to_f32\<close>. An \<open>f32\<close> is its 32-bit pattern; its comparisons, \<open>abs\<close>,
  \<open>max\<close>, \<open>clamp\<close> and the conversions to and from \<open>i8\<close> are written out, in units of
  \<open>2^-149\<close>. The rounding operations, division and multiplication of \<open>f32\<close> and the
  \<open>roundf\<close> of the external crate \<open>libm\<close>, are the fields of \<open>f32_ops\<close>, an argument.
\<close>

record f32_ops =
  f32_mul :: "f32 \<Rightarrow> f32 \<Rightarrow> f32"
  f32_div :: "f32 \<Rightarrow> f32 \<Rightarrow> f32"
  roundf :: "f32 \<Rightarrow> f32"

definition f32_negative :: "f32 \<Rightarrow> bool" where
  "f32_negative w \<longleftrightarrow> 2 ^ 31 \<le> unat w"

definition f32_magnitude :: "f32 \<Rightarrow> nat" where
  "f32_magnitude w = unat w mod 2 ^ 31"

definition f32_is_nan :: "f32 \<Rightarrow> bool" where
  "f32_is_nan w \<longleftrightarrow> f32_magnitude w div 2 ^ 23 = 255 \<and> f32_magnitude w mod 2 ^ 23 \<noteq> 0"

definition f32_is_finite :: "f32 \<Rightarrow> bool" where
  "f32_is_finite w \<longleftrightarrow> f32_magnitude w div 2 ^ 23 \<noteq> 255"

definition f32_scaled :: "f32 \<Rightarrow> int" where
  "f32_scaled w =
     (let e = f32_magnitude w div 2 ^ 23; m = f32_magnitude w mod 2 ^ 23;
          u = int (if e = 0 then m else (2 ^ 23 + m) * 2 ^ (e - 1))
      in if f32_negative w then - u else u)"

definition f32_less :: "f32 \<Rightarrow> f32 \<Rightarrow> bool" where
  "f32_less a b \<longleftrightarrow> \<not> f32_is_nan a \<and> \<not> f32_is_nan b \<and> f32_scaled a < f32_scaled b"

definition f32_eq :: "f32 \<Rightarrow> f32 \<Rightarrow> bool" where
  "f32_eq a b \<longleftrightarrow> \<not> f32_is_nan a \<and> \<not> f32_is_nan b \<and> f32_scaled a = f32_scaled b"

text \<open>\<open>f32::abs\<close>, \<open>f32::max\<close> (which ignores a NaN operand), \<open>f32::clamp\<close> (which keeps NaN).\<close>

definition f32_abs :: "f32 \<Rightarrow> f32" where
  "f32_abs w = of_nat (f32_magnitude w)"

definition f32_max :: "f32 \<Rightarrow> f32 \<Rightarrow> f32" where
  "f32_max a b = (if f32_is_nan a then b else if f32_is_nan b then a else if f32_less a b then b else a)"

definition f32_clamp :: "f32 \<Rightarrow> f32 \<Rightarrow> f32 \<Rightarrow> f32" where
  "f32_clamp lo hi w = (if f32_less w lo then lo else if f32_less hi w then hi else w)"

text \<open>\<open>as i8\<close>: truncation towards zero, saturating, NaN to zero; and \<open>i8 as f32\<close>, which is exact.\<close>

definition f32_to_i8 :: "f32 \<Rightarrow> u8" where
  "f32_to_i8 w =
     (if f32_is_nan w then 0
      else let t = (if f32_scaled w < 0 then - ((- f32_scaled w) div 2 ^ 149) else f32_scaled w div 2 ^ 149)
           in of_int (max (- 128) (min 127 t)))"

definition i8_to_f32 :: "u8 \<Rightarrow> f32" where
  "i8_to_f32 b =
     (let n = nat \<bar>sint b\<bar>; e = bit_length n - 1;
          m = (if n = 0 then 0 else (e + 126) * 2 ^ 23 + n * 2 ^ (23 - e))
      in of_nat (if sint b < 0 then 2 ^ 31 + m else m))"

definition F32_ONE :: f32 where "F32_ONE = 0x3F800000"
definition F32_127 :: f32 where "F32_127 = 0x42FE0000"
definition F32_MINUS_127 :: f32 where "F32_MINUS_127 = 0xC2FE0000"

section \<open>The quantised vector\<close>

record q8_vector =
  q8_scale :: f32
  q8_values :: "u8 list"

definition from_f32 :: "f32_ops \<Rightarrow> f32 list \<Rightarrow> q8_vector" where
  "from_f32 ops vs =
     (let max_abs = foldl (\<lambda>largest v. f32_max largest (f32_abs v)) 0 vs;
          sc = (if f32_eq max_abs 0 \<or> \<not> f32_is_finite max_abs then F32_ONE else f32_div ops max_abs F32_127)
      in \<lparr>q8_scale = sc,
          q8_values = map (\<lambda>v. f32_to_i8 (f32_clamp F32_MINUS_127 F32_127 (roundf ops (f32_div ops v sc)))) vs\<rparr>)"

definition to_f32 :: "f32_ops \<Rightarrow> q8_vector \<Rightarrow> f32 list" where
  "to_f32 ops q = map (\<lambda>v. f32_mul ops (i8_to_f32 v) (q8_scale q)) (q8_values q)"

section \<open>The range of the codes\<close>

lemma f32_consts:
  "f32_scaled F32_127 = 127 * 2 ^ 149" "f32_scaled F32_MINUS_127 = - (127 * 2 ^ 149)"
  "\<not> f32_is_nan F32_127" "\<not> f32_is_nan F32_MINUS_127"
  by (simp_all add: F32_127_def F32_MINUS_127_def f32_scaled_def f32_magnitude_def f32_negative_def f32_is_nan_def)

lemma clamp_range:
  assumes "\<not> f32_is_nan (f32_clamp F32_MINUS_127 F32_127 w)"
  shows "\<bar>f32_scaled (f32_clamp F32_MINUS_127 F32_127 w)\<bar> \<le> 127 * 2 ^ 149"
proof -
  consider "f32_clamp F32_MINUS_127 F32_127 w = F32_MINUS_127" | "f32_clamp F32_MINUS_127 F32_127 w = F32_127"
    | "f32_clamp F32_MINUS_127 F32_127 w = w" "\<not> f32_less w F32_MINUS_127" "\<not> f32_less F32_127 w"
    unfolding f32_clamp_def by metis
  then show ?thesis
  proof cases
    case 3
    then show ?thesis using assms by (auto simp: f32_less_def f32_consts abs_le_iff not_less)
  qed (simp_all add: f32_consts)
qed

lemma f32_to_i8_range: "sint (f32_to_i8 (f32_clamp F32_MINUS_127 F32_127 w)) \<in> {- 127..127}"
proof -
  define x where "x = f32_scaled (f32_clamp F32_MINUS_127 F32_127 w)"
  define t where "t = (if x < 0 then - ((- x) div 2 ^ 149) else x div 2 ^ 149)"
  have "sint (of_int t :: u8) = t" if "- 127 \<le> t" "t \<le> 127"
    using that by (simp add: signed_of_int signed_take_bit_int_eq_self)
  moreover have "- 127 \<le> t \<and> t \<le> 127" if nn: "\<not> f32_is_nan (f32_clamp F32_MINUS_127 F32_127 w)"
  proof -
    have b: "\<bar>x\<bar> \<le> 127 * 2 ^ 149" using clamp_range [OF nn] by (simp add: x_def)
    then have "x div 2 ^ 149 \<le> 127 * 2 ^ 149 div 2 ^ 149" "(- x) div 2 ^ 149 \<le> 127 * 2 ^ 149 div 2 ^ 149"
      by (auto intro!: zdiv_mono1)
    then show ?thesis by (auto simp: t_def pos_imp_zdiv_nonneg_iff)
  qed
  moreover have "f32_to_i8 (f32_clamp F32_MINUS_127 F32_127 w) =
      (if f32_is_nan (f32_clamp F32_MINUS_127 F32_127 w) then 0 else of_int (max (- 128) (min 127 t)))"
    unfolding f32_to_i8_def x_def [symmetric] t_def Let_def ..
  ultimately show ?thesis
    by (cases "f32_is_nan (f32_clamp F32_MINUS_127 F32_127 w)") (simp_all add: max_def min_def)
qed

text \<open>
  quantising keeps the dimension and never produces the code \<open>-128\<close>, whatever the
  components are, infinities and NaN included, and whatever the division and the rounding
  return; so the code range is symmetric. Decoding keeps the dimension too.
\<close>

theorem quantized_codes_symmetric:
  "length (q8_values (from_f32 ops vs)) = length vs \<and>
   list_all (\<lambda>code. - 127 \<le> sint code \<and> sint code \<le> 127) (q8_values (from_f32 ops vs)) \<and>
   length (to_f32 ops (from_f32 ops vs)) = length vs"
  using f32_to_i8_range by (auto simp: from_f32_def to_f32_def Let_def list_all_iff)

end
