(* ===== verification/Row.thy ===== *)
theory Row
  imports Value Quantize
begin

unbundle bit_operations_syntax

text \<open>
  The row codec (\<^verbatim>\<open>src/crates/inlaysql-core/src/row.rs\<close>): the bounds-checked cursor, the
  encoders, the owned and the borrowed decoders with their column masks, and the early-exit
  variants. A decoder returns the cells it pushed; the partial contents of a caller's buffer
  after an error are not modelled, every caller drops them. \<open>usize\<close> is 64 bits wide: the
  checked and saturating operations of the cursor are written out.
\<close>

definition ROW_TAG_NULL :: u8 where "ROW_TAG_NULL = 0"
definition ROW_TAG_INTEGER :: u8 where "ROW_TAG_INTEGER = 1"
definition ROW_TAG_REAL :: u8 where "ROW_TAG_REAL = 2"
definition ROW_TAG_TEXT :: u8 where "ROW_TAG_TEXT = 3"
definition ROW_TAG_BLOB :: u8 where "ROW_TAG_BLOB = 4"
definition ROW_TAG_VECTOR :: u8 where "ROW_TAG_VECTOR = 5"
definition ROW_TAG_VECTOR_Q8 :: u8 where "ROW_TAG_VECTOR_Q8 = 6"

lemmas row_tags = ROW_TAG_NULL_def ROW_TAG_INTEGER_def ROW_TAG_REAL_def ROW_TAG_TEXT_def
  ROW_TAG_BLOB_def ROW_TAG_VECTOR_def ROW_TAG_VECTOR_Q8_def

definition USIZE_MAX :: nat where "USIZE_MAX = 2 ^ 64 - 1"

definition saturating_mul :: "nat \<Rightarrow> nat \<Rightarrow> nat" where
  "saturating_mul a b = min (a * b) USIZE_MAX"

definition saturating_add :: "nat \<Rightarrow> nat \<Rightarrow> nat" where
  "saturating_add a b = min (a + b) USIZE_MAX"

section \<open>The cursor\<close>

record cursor =
  cur_bytes :: bytes
  cur_pos :: nat

definition cursor_new :: "bytes \<Rightarrow> cursor" where
  "cursor_new bs = \<lparr>cur_bytes = bs, cur_pos = 0\<rparr>"

definition cur_take :: "cursor \<Rightarrow> nat \<Rightarrow> (bytes \<times> cursor) result" where
  "cur_take cur len =
     (if USIZE_MAX < cur_pos cur + len then Err (Corrupt ''length overflow'')
      else let en = cur_pos cur + len
           in if length (cur_bytes cur) < en then Err (Corrupt ''unexpected end of buffer'')
              else rbind (index_range (cur_bytes cur) (cur_pos cur) en) (\<lambda>s. Ok (s, cur\<lparr>cur_pos := en\<rparr>)))"

definition cur_remaining :: "cursor \<Rightarrow> nat" where
  "cur_remaining cur = length (cur_bytes cur) - cur_pos cur"

definition cur_u8 :: "cursor \<Rightarrow> (u8 \<times> cursor) result" where
  "cur_u8 cur = rbind (cur_take cur 1) (\<lambda>(s, cur). rbind (index_at s 0) (\<lambda>b. Ok (b, cur)))"

definition cur_array4 :: "cursor \<Rightarrow> (bytes \<times> cursor) result" where
  "cur_array4 cur = cur_take cur 4"

definition cur_array8 :: "cursor \<Rightarrow> (bytes \<times> cursor) result" where
  "cur_array8 cur = cur_take cur 8"

definition cur_u32 :: "cursor \<Rightarrow> (u32 \<times> cursor) result" where
  "cur_u32 cur = rbind (cur_array4 cur) (\<lambda>(s, cur). Ok (u32_from_le s, cur))"

definition cur_count :: "cursor \<Rightarrow> nat \<Rightarrow> (nat \<times> cursor) result" where
  "cur_count cur bytes_per_item =
     rbind (cur_u32 cur) (\<lambda>(w, cur).
       let n = unat w; smallest = saturating_mul n (max bytes_per_item 1)
       in if cur_remaining cur < smallest
          then Err (Corrupt (''declared '' @ show_nat n @ '' item(s) but only '' @ show_nat (cur_remaining cur) @ '' byte(s) remain''))
          else Ok (n, cur))"

definition cur_string :: "cursor \<Rightarrow> (bytes \<times> cursor) result" where
  "cur_string cur =
     rbind (cur_u32 cur) (\<lambda>(len, cur). rbind (cur_take cur (unat len)) (\<lambda>(s, cur).
       if utf8_valid s then Ok (s, cur) else Err (Corrupt ''string is not valid UTF-8'')))"

section \<open>Encoding\<close>

definition put_u32 :: "bytes \<Rightarrow> u32 \<Rightarrow> bytes" where
  "put_u32 out n = out @ u32_to_le n"

definition put_string :: "bytes \<Rightarrow> bytes \<Rightarrow> bytes" where
  "put_string out s = put_u32 out (of_nat (length s)) @ s"

definition put_len :: "bytes \<Rightarrow> nat \<Rightarrow> bytes" where
  "put_len out n = put_u32 out (of_nat n)"

fun row_encode_value :: "bytes \<Rightarrow> sql_value \<Rightarrow> bytes" where
  "row_encode_value out Null = out @ [ROW_TAG_NULL]"
| "row_encode_value out (Integer i) = out @ [ROW_TAG_INTEGER] @ u64_to_le i"
| "row_encode_value out (Real r) = out @ [ROW_TAG_REAL] @ u64_to_le r"
| "row_encode_value out (Text s) = put_u32 (out @ [ROW_TAG_TEXT]) (of_nat (length s)) @ s"
| "row_encode_value out (Blob b) = put_u32 (out @ [ROW_TAG_BLOB]) (of_nat (length b)) @ b"
| "row_encode_value out (Vector v) =
     put_u32 (out @ [ROW_TAG_VECTOR]) (of_nat (length v)) @ concat (map u32_to_le v)"

definition encode_row :: "sql_value list \<Rightarrow> bytes" where
  "encode_row values = foldl row_encode_value (put_u32 [] (of_nat (length values))) values"

definition encode_q8_vector :: "f32_ops \<Rightarrow> bytes \<Rightarrow> f32 list \<Rightarrow> bytes" where
  "encode_q8_vector ops out v =
     (let q = from_f32 ops v
      in put_u32 (out @ [ROW_TAG_VECTOR_Q8]) (of_nat (length (q8_values q))) @ u32_to_le (q8_scale q) @ q8_values q)"

fun encode_typed_cells :: "f32_ops \<Rightarrow> data_type list \<Rightarrow> nat \<Rightarrow> bytes \<Rightarrow> sql_value list \<Rightarrow> bytes" where
  "encode_typed_cells ops types ordinal out [] = out"
| "encode_typed_cells ops types ordinal out (v # vs) =
     encode_typed_cells ops types (ordinal + 1)
       (case (get_at types ordinal, v) of
          (Some (DtQuantizedVector _), Vector x) \<Rightarrow> encode_q8_vector ops out x
        | _ \<Rightarrow> row_encode_value out v) vs"

definition encode_typed_row :: "f32_ops \<Rightarrow> sql_value list \<Rightarrow> data_type list \<Rightarrow> bytes" where
  "encode_typed_row ops values types =
     encode_typed_cells ops types 0 (put_u32 [] (of_nat (length values))) values"

section \<open>Decoding one value\<close>

definition unknown_tag :: "u8 \<Rightarrow> db_error" where
  "unknown_tag tag = Corrupt (''unknown value tag '' @ show_nat (unat tag))"

text \<open>\<open>for _ in 0..dim \<open>{\<close> v.push(f32::from_bits(u32::from_le_bytes(cursor.array4()?))) \<open>}\<close>\<close>.\<close>

fun decode_components :: "nat \<Rightarrow> cursor \<Rightarrow> (f32 list \<times> cursor) result" where
  "decode_components 0 cur = Ok ([], cur)"
| "decode_components (Suc n) cur =
     rbind (cur_array4 cur) (\<lambda>(s, cur). rbind (decode_components n cur) (\<lambda>(v, cur). Ok (u32_from_le s # v, cur)))"

definition decode_value :: "f32_ops \<Rightarrow> cursor \<Rightarrow> (sql_value \<times> cursor) result" where
  "decode_value ops cur =
     rbind (cur_u8 cur) (\<lambda>(tag, cur).
       if tag = ROW_TAG_NULL then Ok (Null, cur)
       else if tag = ROW_TAG_INTEGER then rbind (cur_array8 cur) (\<lambda>(s, cur). Ok (Integer (u64_from_le s), cur))
       else if tag = ROW_TAG_REAL then rbind (cur_array8 cur) (\<lambda>(s, cur). Ok (Real (u64_from_le s), cur))
       else if tag = ROW_TAG_TEXT then
         rbind (cur_u32 cur) (\<lambda>(len, cur). rbind (cur_take cur (unat len)) (\<lambda>(s, cur).
           if utf8_valid s then Ok (Text s, cur) else Err (Corrupt ''text column is not valid UTF-8'')))
       else if tag = ROW_TAG_BLOB then
         rbind (cur_u32 cur) (\<lambda>(len, cur). rbind (cur_take cur (unat len)) (\<lambda>(s, cur). Ok (Blob s, cur)))
       else if tag = ROW_TAG_VECTOR then
         rbind (cur_count cur 4) (\<lambda>(dim, cur). rbind (decode_components dim cur) (\<lambda>(v, cur). Ok (Vector v, cur)))
       else if tag = ROW_TAG_VECTOR_Q8 then
         rbind (cur_count cur 1) (\<lambda>(dim, cur). rbind (cur_array4 cur) (\<lambda>(sc, cur). rbind (cur_take cur dim) (\<lambda>(codes, cur).
           Ok (Vector (to_f32 ops \<lparr>q8_scale = u32_from_le sc, q8_values = codes\<rparr>), cur))))
       else Err (unknown_tag tag))"

definition decode_value_ref :: "f32_ops \<Rightarrow> cursor \<Rightarrow> (value_ref \<times> cursor) result" where
  "decode_value_ref ops cur =
     rbind (cur_u8 cur) (\<lambda>(tag, cur).
       if tag = ROW_TAG_NULL then Ok (RNull, cur)
       else if tag = ROW_TAG_INTEGER then rbind (cur_array8 cur) (\<lambda>(s, cur). Ok (RInteger (u64_from_le s), cur))
       else if tag = ROW_TAG_REAL then rbind (cur_array8 cur) (\<lambda>(s, cur). Ok (RReal (u64_from_le s), cur))
       else if tag = ROW_TAG_TEXT then
         rbind (cur_u32 cur) (\<lambda>(len, cur). rbind (cur_take cur (unat len)) (\<lambda>(s, cur).
           if utf8_valid s then Ok (RText s, cur) else Err (Corrupt ''text column is not valid UTF-8'')))
       else if tag = ROW_TAG_BLOB then
         rbind (cur_u32 cur) (\<lambda>(len, cur). rbind (cur_take cur (unat len)) (\<lambda>(s, cur). Ok (RBlob s, cur)))
       else if tag = ROW_TAG_VECTOR then
         rbind (cur_count cur 4) (\<lambda>(dim, cur). rbind (decode_components dim cur) (\<lambda>(v, cur). Ok (RVector v, cur)))
       else if tag = ROW_TAG_VECTOR_Q8 then
         rbind (cur_count cur 1) (\<lambda>(dim, cur). rbind (cur_array4 cur) (\<lambda>(sc, cur). rbind (cur_take cur dim) (\<lambda>(codes, cur).
           Ok (RVector (to_f32 ops \<lparr>q8_scale = u32_from_le sc, q8_values = codes\<rparr>), cur))))
       else Err (unknown_tag tag))"

text \<open>Step the cursor past one value without materialising it.\<close>

definition skip_value :: "cursor \<Rightarrow> cursor result" where
  "skip_value cur =
     rbind (cur_u8 cur) (\<lambda>(tag, cur).
     rbind (if tag = ROW_TAG_NULL then Ok (0, cur)
            else if tag = ROW_TAG_INTEGER \<or> tag = ROW_TAG_REAL then Ok (8, cur)
            else if tag = ROW_TAG_TEXT \<or> tag = ROW_TAG_BLOB then rbind (cur_u32 cur) (\<lambda>(len, cur). Ok (unat len, cur))
            else if tag = ROW_TAG_VECTOR then rbind (cur_count cur 4) (\<lambda>(dim, cur). Ok (saturating_mul dim 4, cur))
            else if tag = ROW_TAG_VECTOR_Q8 then rbind (cur_count cur 1) (\<lambda>(dim, cur). Ok (saturating_add dim 4, cur))
            else Err (unknown_tag tag)) (\<lambda>(len, cur).
     rbind (cur_take cur len) (\<lambda>(_, cur). Ok cur)))"

section \<open>Column masks\<close>

definition INLINE_COLUMNS :: nat where "INLINE_COLUMNS = 128"

record column_mask =
  cm_everything :: bool
  cm_width :: nat
  cm_inline :: "128 word"
  cm_spilled :: "bool list"

definition MASK_ALL :: column_mask where
  "MASK_ALL = \<lparr>cm_everything = True, cm_width = 0, cm_inline = 0, cm_spilled = []\<rparr>"

definition mask_none :: "nat \<Rightarrow> column_mask" where
  "mask_none width =
     \<lparr>cm_everything = False, cm_width = width, cm_inline = 0,
      cm_spilled = (if INLINE_COLUMNS \<le> width then replicate (width - INLINE_COLUMNS) False else [])\<rparr>"

definition mask_widen :: "column_mask \<Rightarrow> column_mask" where
  "mask_widen m = m\<lparr>cm_everything := True, cm_width := 0, cm_inline := 0, cm_spilled := []\<rparr>"

definition mask_add :: "column_mask \<Rightarrow> nat \<Rightarrow> column_mask result" where
  "mask_add m ordinal =
     (if cm_everything m then Ok m
      else if cm_width m \<le> ordinal then Ok (mask_widen m)
      else if INLINE_COLUMNS \<le> ordinal
      then (if ordinal - INLINE_COLUMNS < length (cm_spilled m)
            then Ok (m\<lparr>cm_spilled := (cm_spilled m)[ordinal - INLINE_COLUMNS := True]\<rparr>) else Panic)
      else Ok (m\<lparr>cm_inline := cm_inline m OR push_bit ordinal 1\<rparr>))"

definition mask_is_all :: "column_mask \<Rightarrow> bool" where
  "mask_is_all m = cm_everything m"

definition mask_wants :: "column_mask \<Rightarrow> nat \<Rightarrow> bool result" where
  "mask_wants m ordinal =
     (if cm_everything m \<or> cm_width m \<le> ordinal then Ok True
      else if INLINE_COLUMNS \<le> ordinal then index_at (cm_spilled m) (ordinal - INLINE_COLUMNS)
      else Ok (cm_inline m AND push_bit ordinal 1 \<noteq> 0))"

text \<open>\<open>u128::BITS - leading_zeros\<close>: one more than the highest set bit.\<close>

fun significant_bits :: "nat \<Rightarrow> 128 word \<Rightarrow> nat" where
  "significant_bits 0 w = 0"
| "significant_bits (Suc n) w = (if bit w n then Suc n else significant_bits n w)"

definition walk_len :: "column_mask \<Rightarrow> nat \<Rightarrow> nat" where
  "walk_len m n =
     (if cm_everything m \<or> cm_width m < n then n
      else case rposition (\<lambda>wanted. wanted) (cm_spilled m) of
        Some l \<Rightarrow> min (INLINE_COLUMNS + l + 1) n
      | None \<Rightarrow> min (significant_bits 128 (cm_inline m)) n)"

fun slice_loop :: "column_mask \<Rightarrow> nat \<Rightarrow> nat \<Rightarrow> nat \<Rightarrow> column_mask \<Rightarrow> column_mask result" where
  "slice_loop m start ordinal 0 out = Ok out"
| "slice_loop m start ordinal (Suc n) out =
     rbind (mask_wants m (start + ordinal)) (\<lambda>w.
     rbind (if w then mask_add out ordinal else Ok out) (\<lambda>out. slice_loop m start (ordinal + 1) n out))"

definition mask_slice :: "column_mask \<Rightarrow> nat \<Rightarrow> nat \<Rightarrow> column_mask result" where
  "mask_slice m start width =
     (if cm_everything m then Ok MASK_ALL else slice_loop m start 0 width (mask_none width))"

section \<open>Decoding rows\<close>

fun decode_cells :: "f32_ops \<Rightarrow> column_mask \<Rightarrow> nat \<Rightarrow> nat \<Rightarrow> cursor \<Rightarrow> sql_value list \<Rightarrow> (sql_value list \<times> cursor) result" where
  "decode_cells ops m ordinal 0 cur out = Ok (out, cur)"
| "decode_cells ops m ordinal (Suc n) cur out =
     rbind (mask_wants m ordinal) (\<lambda>w.
     rbind (if w then decode_value ops cur else rbind (skip_value cur) (\<lambda>cur. Ok (Null, cur))) (\<lambda>(v, cur).
     decode_cells ops m (ordinal + 1) n cur (out @ [v])))"

definition decode_row_masked_onto :: "f32_ops \<Rightarrow> bytes \<Rightarrow> column_mask \<Rightarrow> sql_value list \<Rightarrow> sql_value list result" where
  "decode_row_masked_onto ops bs m out =
     rbind (cur_count (cursor_new bs) 1) (\<lambda>(n, cur). rbind (decode_cells ops m 0 n cur out) (\<lambda>(out, _). Ok out))"

definition decode_row_masked :: "f32_ops \<Rightarrow> bytes \<Rightarrow> column_mask \<Rightarrow> sql_value list result" where
  "decode_row_masked ops bs m = decode_row_masked_onto ops bs m []"

definition decode_row :: "f32_ops \<Rightarrow> bytes \<Rightarrow> sql_value list result" where
  "decode_row ops bs = decode_row_masked ops bs MASK_ALL"

fun decode_ref_cells :: "f32_ops \<Rightarrow> column_mask \<Rightarrow> nat \<Rightarrow> nat \<Rightarrow> cursor \<Rightarrow> value_ref list \<Rightarrow> (value_ref list \<times> cursor) result" where
  "decode_ref_cells ops m ordinal 0 cur out = Ok (out, cur)"
| "decode_ref_cells ops m ordinal (Suc n) cur out =
     rbind (mask_wants m ordinal) (\<lambda>w.
     rbind (if w then decode_value_ref ops cur else rbind (skip_value cur) (\<lambda>cur. Ok (RNull, cur))) (\<lambda>(v, cur).
     decode_ref_cells ops m (ordinal + 1) n cur (out @ [v])))"

definition decode_row_ref_masked_onto :: "f32_ops \<Rightarrow> bytes \<Rightarrow> column_mask \<Rightarrow> value_ref list \<Rightarrow> value_ref list result" where
  "decode_row_ref_masked_onto ops bs m out =
     rbind (cur_count (cursor_new bs) 1) (\<lambda>(n, cur). rbind (decode_ref_cells ops m 0 n cur out) (\<lambda>(out, _). Ok out))"

text \<open>The buffer is cleared first, so its previous contents are not an argument.\<close>

definition decode_row_ref_masked_into :: "f32_ops \<Rightarrow> bytes \<Rightarrow> column_mask \<Rightarrow> value_ref list result" where
  "decode_row_ref_masked_into ops bs m = decode_row_ref_masked_onto ops bs m []"

definition decode_row_ref_masked :: "f32_ops \<Rightarrow> bytes \<Rightarrow> column_mask \<Rightarrow> value_ref list result" where
  "decode_row_ref_masked ops bs m = decode_row_ref_masked_into ops bs m"

definition decode_row_ref_wanted_into :: "f32_ops \<Rightarrow> bytes \<Rightarrow> column_mask \<Rightarrow> value_ref list result" where
  "decode_row_ref_wanted_into ops bs m =
     rbind (cur_count (cursor_new bs) 1) (\<lambda>(n, cur).
       let walk = walk_len m n
       in rbind (decode_ref_cells ops m 0 walk cur []) (\<lambda>(out, _). Ok (out @ replicate (n - walk) RNull)))"

fun skip_values :: "nat \<Rightarrow> cursor \<Rightarrow> cursor result" where
  "skip_values 0 cur = Ok cur"
| "skip_values (Suc n) cur = rbind (skip_value cur) (skip_values n)"

definition decode_value_at :: "f32_ops \<Rightarrow> bytes \<Rightarrow> nat \<Rightarrow> sql_value result" where
  "decode_value_at ops bs ordinal =
     rbind (cur_count (cursor_new bs) 1) (\<lambda>(n, cur).
       if n \<le> ordinal then Err (Corrupt ''column ordinal past the end of the row'')
       else rbind (skip_values ordinal cur) (\<lambda>cur. rbind (decode_value ops cur) (\<lambda>(v, _). Ok v)))"

end
