(* ===== verification/Row_Mask.thy ===== *)
theory Row_Mask
  imports Row_Codec
begin

unbundle bit_operations_syntax

text \<open>
  Column masks and the partial decoders: the mask as a set of ordinals, skipping against
  decoding, masked against full decoding, borrowed against owned, and the early exit after the
  last wanted column.
\<close>

section \<open>Masks as sets\<close>

definition mask_ok :: "column_mask \<Rightarrow> bool" where
  "mask_ok m \<longleftrightarrow> cm_everything m \<or> length (cm_spilled m) = cm_width m - INLINE_COLUMNS"

definition wanted :: "column_mask \<Rightarrow> nat \<Rightarrow> bool" where
  "wanted m i \<longleftrightarrow> mask_wants m i = Ok True"

lemma mask_wants_ok: "mask_ok m \<Longrightarrow> mask_wants m i = Ok (wanted m i)"
  by (auto simp: wanted_def mask_wants_def mask_ok_def index_at_def get_at_def INLINE_COLUMNS_def)

lemma bit_single: "bit (2 ^ i :: 128 word) j \<longleftrightarrow> j = i \<and> i < 128"
  by (auto simp: bit_exp_iff possible_bit_def)

lemma and_single: "i < 128 \<Longrightarrow> (w :: 128 word) AND 2 ^ i \<noteq> 0 \<longleftrightarrow> bit w i"
  by (auto simp: bit_eq_iff [of "w AND 2 ^ i"] bit_and_iff bit_single)

lemma wanted_cases:
  assumes "mask_ok m" "\<not> cm_everything m"
  shows "wanted m i \<longleftrightarrow> cm_width m \<le> i \<or> (if i < 128 then bit (cm_inline m) i else cm_spilled m ! (i - 128))"
  using assms and_single [of i "cm_inline m"]
  by (auto simp: wanted_def mask_wants_def mask_ok_def INLINE_COLUMNS_def index_at_def get_at_def)

lemma mask_all_ok [simp]: "mask_ok MASK_ALL" "wanted MASK_ALL i"
  by (simp_all add: mask_ok_def MASK_ALL_def wanted_def mask_wants_def)

lemma mask_none_ok: "mask_ok (mask_none w)" "wanted (mask_none w) i \<longleftrightarrow> w \<le> i"
  by (auto simp: mask_ok_def mask_none_def INLINE_COLUMNS_def wanted_def mask_wants_def index_at_def get_at_def)

lemma mask_add_spec:
  assumes "mask_ok m"
  obtains m' where "mask_add m i = Ok m'" "mask_ok m'" "cm_everything m' \<longleftrightarrow> cm_everything m \<or> cm_width m \<le> i"
    "\<not> cm_everything m' \<Longrightarrow> cm_width m' = cm_width m"
    "\<And>j. wanted m' j \<longleftrightarrow> wanted m j \<or> j = i \<or> cm_width m \<le> i"
proof (cases "cm_everything m \<or> cm_width m \<le> i")
  case True
  then show ?thesis
    by (intro that [of "if cm_everything m then m else mask_widen m"])
       (use assms in \<open>auto simp: mask_add_def mask_widen_def mask_ok_def wanted_def mask_wants_def\<close>)
next
  case False
  define m' where "m' = (if i < 128 then m\<lparr>cm_inline := cm_inline m OR push_bit i 1\<rparr>
                         else m\<lparr>cm_spilled := (cm_spilled m)[i - 128 := True]\<rparr>)"
  have l: "length (cm_spilled m) = cm_width m - 128" using assms False by (simp add: mask_ok_def INLINE_COLUMNS_def)
  have ok: "mask_ok m'" using assms by (auto simp: mask_ok_def m'_def)
  show ?thesis
  proof (rule that [of m'])
    show "mask_add m i = Ok m'" using False l by (auto simp: mask_add_def m'_def INLINE_COLUMNS_def)
    show "wanted m' j \<longleftrightarrow> wanted m j \<or> j = i \<or> cm_width m \<le> i" for j
    proof -
      have "\<not> cm_everything m'" "cm_width m' = cm_width m" using False by (auto simp: m'_def)
      then show ?thesis using False l
        by (subst wanted_cases [OF ok], simp, subst wanted_cases [OF assms], simp)
           (cases "i < 128"; cases "j < 128"; auto simp: m'_def bit_or_iff bit_single nth_list_update)
    qed
  qed (use ok False in \<open>auto simp: m'_def\<close>)
qed

lemma slice_loop_spec:
  assumes "mask_ok m" "mask_ok out" "\<not> cm_everything out" "k + n = cm_width out"
    "\<And>j. j < cm_width out \<Longrightarrow> wanted out j \<longleftrightarrow> j < k \<and> wanted m (start + j)"
  shows "\<exists>r. slice_loop m start k n out = Ok r \<and> mask_ok r \<and> \<not> cm_everything r \<and> cm_width r = cm_width out \<and>
    (\<forall>j < cm_width out. wanted r j \<longleftrightarrow> wanted m (start + j))"
  using assms
proof (induction n arbitrary: k out)
  case (Suc n)
  obtain m' where m': "(if wanted m (start + k) then mask_add out k else Ok out) = Ok m'" "mask_ok m'" "\<not> cm_everything m'"
    "cm_width m' = cm_width out" "\<And>j. wanted m' j \<longleftrightarrow> wanted out j \<or> j = k \<and> wanted m (start + k)"
  proof (cases "wanted m (start + k)")
    case True
    from mask_add_spec [OF Suc.prems(2), of k] obtain x where "mask_add out k = Ok x" "mask_ok x"
      "cm_everything x \<longleftrightarrow> cm_everything out \<or> cm_width out \<le> k" "\<not> cm_everything x \<Longrightarrow> cm_width x = cm_width out"
      "\<And>j. wanted x j \<longleftrightarrow> wanted out j \<or> j = k \<or> cm_width out \<le> k" by metis
    then show ?thesis using True Suc.prems(3,4) by (intro that [of x]) auto
  qed (use Suc.prems in \<open>auto intro: that [of out]\<close>)
  have "\<exists>r. slice_loop m start (k + 1) n m' = Ok r \<and> mask_ok r \<and> \<not> cm_everything r \<and> cm_width r = cm_width m' \<and>
    (\<forall>j < cm_width m'. wanted r j \<longleftrightarrow> wanted m (start + j))"
    by (rule Suc.IH) (use Suc.prems m' in \<open>auto simp: less_Suc_eq\<close>)
  then show ?case using m'(1,4) by (simp add: mask_wants_ok [OF assms(1)])
qed auto

lemma mask_slice_spec:
  assumes "mask_ok m"
  shows "\<exists>r. mask_slice m start w = Ok r \<and> mask_ok r \<and> (\<forall>j. wanted r j \<longleftrightarrow> w \<le> j \<or> wanted m (start + j))"
proof (cases "cm_everything m")
  case True
  then have "wanted m i" for i by (simp add: wanted_def mask_wants_def)
  then show ?thesis using True by (auto simp: mask_slice_def)
next
  case False
  have "\<exists>r. slice_loop m start 0 w (mask_none w) = Ok r \<and> mask_ok r \<and> \<not> cm_everything r \<and> cm_width r = cm_width (mask_none w) \<and>
    (\<forall>j < cm_width (mask_none w). wanted r j \<longleftrightarrow> wanted m (start + j))"
    by (rule slice_loop_spec [OF assms mask_none_ok(1)]) (auto simp: mask_none_def mask_none_ok(2) [unfolded mask_none_def])
  then obtain r where r: "slice_loop m start 0 w (mask_none w) = Ok r" "mask_ok r" "\<not> cm_everything r" "cm_width r = w"
    "\<And>j. j < w \<Longrightarrow> wanted r j \<longleftrightarrow> wanted m (start + j)" by (auto simp: mask_none_def)
  moreover have "wanted r j" if "w \<le> j" for j using that r(4) by (simp add: wanted_def mask_wants_def)
  ultimately show ?thesis using False by (intro exI [of _ r]) (metis linorder_not_le mask_slice_def)
qed

lemma significant_bits_zero: "significant_bits n w \<le> i \<Longrightarrow> i < n \<Longrightarrow> \<not> bit w i"
  by (induction n) (auto split: if_splits simp: less_Suc_eq)

lemma walk_len_spec:
  assumes "mask_ok m"
  shows "walk_len m n \<le> n \<and> (\<forall>i. walk_len m n \<le> i \<and> i < n \<longrightarrow> \<not> wanted m i)"
proof (cases "cm_everything m \<or> cm_width m < n")
  case True
  then show ?thesis by (auto simp: walk_len_def)
next
  case False
  have l: "length (cm_spilled m) = cm_width m - 128" using assms False by (simp add: mask_ok_def INLINE_COLUMNS_def)
  show ?thesis
  proof (cases "rposition (\<lambda>wanted. wanted) (cm_spilled m)")
    case None
    have "\<not> wanted m i" if i: "significant_bits 128 (cm_inline m) \<le> i" "i < n" for i
    proof (cases "i < 128")
      case True
      then show ?thesis using significant_bits_zero [OF i(1)] i(2) False by (simp add: wanted_cases [OF assms])
    next
      case big: False
      then have "cm_spilled m ! (i - 128) \<in> set (cm_spilled m)" using False i(2) l by (intro nth_mem) linarith
      then show ?thesis using None big i(2) False by (auto simp: wanted_cases [OF assms] rposition_None)
    qed
    then show ?thesis using False None by (auto simp: walk_len_def)
  next
    case (Some x)
    have "\<not> wanted m i" if i: "128 + x + 1 \<le> i" "i < n" for i
    proof -
      have "x < i - 128" "i - 128 < length (cm_spilled m)" using i False l by linarith+
      from rposition_last [OF Some this] show ?thesis using i False by (auto simp: wanted_cases [OF assms])
    qed
    then show ?thesis using False Some by (auto simp: walk_len_def INLINE_COLUMNS_def)
  qed
qed

section \<open>Skipping\<close>

definition cur_valid :: "cursor \<Rightarrow> bool" where
  "cur_valid cur \<longleftrightarrow> cur_pos cur \<le> USIZE_MAX \<and> cur_pos cur \<le> length (cur_bytes cur)"

lemma cur_take_valid: "cur_take cur n = Ok (s, cur') \<Longrightarrow> cur_valid cur'"
  by (auto simp: cur_take_Ok_iff cur_valid_def)

lemma cur_u32_valid: "cur_u32 cur = Ok (w, cur') \<Longrightarrow> cur_valid cur'"
  by (auto simp: cur_u32_def cur_array4_def dest: cur_take_valid)

lemma cur_count_Ok: "cur_count cur k = Ok (n, cur') \<Longrightarrow> cur_valid cur' \<and> n < 2 ^ 32"
  by (auto simp: cur_count_def Let_def split: if_splits dest: cur_u32_valid)
     (use unsigned_less [where ?'a = nat and ?'b = 32] in \<open>simp add: power_numeral\<close>)

lemma decode_components_take:
  "decode_components n cur = Ok (v, cur') \<Longrightarrow> cur_valid cur \<Longrightarrow> \<exists>s. cur_take cur (n * 4) = Ok (s, cur')"
proof (induction n arbitrary: cur v)
  case 0
  then show ?case by (auto simp: cur_take_Ok_iff cur_valid_def)
next
  case (Suc n)
  then obtain a b where *: "cur_take cur 4 = Ok a" "decode_components n (snd a) = Ok (b, cur')"
    by (auto simp: cur_array4_def)
  then have "cur_valid (snd a)" using cur_take_valid [of cur 4 "fst a" "snd a"] by simp
  from Suc.IH [OF *(2) this] *(1) show ?case
    by (cases a) (auto simp: cur_take_Ok_iff)
qed

lemma take_take:
  "cur_take cur a = Ok (s, cur1) \<Longrightarrow> cur_take cur1 b = Ok (t, cur2) \<Longrightarrow> \<exists>u. cur_take cur (b + a) = Ok (u, cur2)"
  by (auto simp: cur_take_Ok_iff)

lemma no_saturation: "n < 2 ^ 32 \<Longrightarrow> saturating_mul n 4 = n * 4" "n < 2 ^ 32 \<Longrightarrow> saturating_add n 4 = n + 4"
  by (simp_all add: saturating_mul_def saturating_add_def USIZE_MAX_def)

lemma skip_decoded: "decode_value ops cur = Ok (v, cur') \<Longrightarrow> skip_value cur = Ok cur'"
proof -
  assume d: "decode_value ops cur = Ok (v, cur')"
  then obtain tag c where c: "cur_u8 cur = Ok (tag, c)" by (auto simp: decode_value_def)
  have cv: "cur_valid c" using c by (auto simp: cur_u8_def dest: cur_take_valid)
  consider "tag = ROW_TAG_NULL" | "tag = ROW_TAG_INTEGER" | "tag = ROW_TAG_REAL" | "tag = ROW_TAG_TEXT" | "tag = ROW_TAG_BLOB"
    | "tag = ROW_TAG_VECTOR" | "tag = ROW_TAG_VECTOR_Q8"
    using d c by (auto simp: decode_value_def split: if_splits)
  then show ?thesis
  proof cases
    case 1
    then show ?thesis using d c cv by (auto simp: decode_value_def skip_value_def row_tags cur_take_Ok_iff cur_valid_def)
  next
    case 6
    then obtain dim c1 where n: "cur_count c 4 = Ok (dim, c1)" "decode_components dim c1 = Ok (case v of Vector x \<Rightarrow> x, cur')"
      using d c by (auto simp: decode_value_def row_tags)
    then obtain s where "cur_take c1 (dim * 4) = Ok (s, cur')"
      using decode_components_take cur_count_Ok by blast
    then show ?thesis using 6 c n cur_count_Ok [OF n(1)] by (simp add: skip_value_def row_tags no_saturation)
  next
    case 7
    then obtain dim c1 sc c2 codes where n: "cur_count c 1 = Ok (dim, c1)" "cur_take c1 4 = Ok (sc, c2)" "cur_take c2 dim = Ok (codes, cur')"
      using d c by (auto simp: decode_value_def row_tags cur_array4_def)
    then obtain u where "cur_take c1 (dim + 4) = Ok (u, cur')" using take_take by blast
    then show ?thesis using 7 c n cur_count_Ok [OF n(1)] by (simp add: skip_value_def row_tags no_saturation)
  qed (use d c in \<open>auto simp: decode_value_def skip_value_def row_tags cur_array8_def split: if_splits\<close>)
qed

section \<open>Masked decoding\<close>

fun masked :: "column_mask \<Rightarrow> nat \<Rightarrow> sql_value list \<Rightarrow> sql_value list" where
  "masked m i [] = []"
| "masked m i (v # vs) = (if wanted m i then v else Null) # masked m (i + 1) vs"

lemma decode_cells_masked:
  assumes "decode_cells ops MASK_ALL i n cur out = Ok (res, cur')" "mask_ok m"
  shows "\<exists>vs. length vs = n \<and> res = out @ vs \<and> decode_cells ops m i n cur out' = Ok (out' @ masked m i vs, cur')"
  using assms(1)
proof (induction n arbitrary: i cur out out')
  case (Suc n)
  then obtain v c where v: "decode_value ops cur = Ok (v, c)" and r: "decode_cells ops MASK_ALL (i + 1) n c (out @ [v]) = Ok (res, cur')"
    by auto
  let ?v = "if wanted m i then v else Null"
  from Suc.IH [OF r, of "out' @ [?v]"] obtain vs where "length vs = n" "res = (out @ [v]) @ vs"
    "decode_cells ops m (i + 1) n c (out' @ [?v]) = Ok ((out' @ [?v]) @ masked m (i + 1) vs, cur')" by blast
  then show ?case
    using v skip_decoded [OF v] by (intro exI [of _ "v # vs"]) (auto simp: mask_wants_ok [OF assms(2)])
qed simp

lemma decode_row_masked_spec:
  assumes "decode_row ops bs = Ok vs" "mask_ok m"
  shows "decode_row_masked ops bs m = Ok (masked m 0 vs)"
proof -
  from assms(1) obtain n c c' where n: "cur_count (cursor_new bs) 1 = Ok (n, c)" "decode_cells ops MASK_ALL 0 n c [] = Ok (vs, c')"
    by (auto simp: decode_row_def decode_row_masked_def decode_row_masked_onto_def)
  then show ?thesis using decode_cells_masked [OF n(2) assms(2), of "[]"]
    by (auto simp: decode_row_masked_def decode_row_masked_onto_def)
qed

lemma decode_cells_not_Panic: "mask_ok m \<Longrightarrow> decode_cells ops m i n cur out \<noteq> Panic"
  by (induction n arbitrary: i cur out) (auto simp: mask_wants_ok)

lemma skip_values_nth:
  "decode_cells ops MASK_ALL i n cur out = Ok (res, cur') \<Longrightarrow> k < n \<Longrightarrow>
   \<exists>c c'. skip_values k cur = Ok c \<and> decode_value ops c = Ok (res ! (length out + k), c')"
proof (induction n arbitrary: i cur out k)
  case (Suc n)
  then obtain v c where v: "decode_value ops cur = Ok (v, c)" and r: "decode_cells ops MASK_ALL (i + 1) n c (out @ [v]) = Ok (res, cur')"
    by auto
  show ?case
  proof (cases k)
    case 0
    from decode_cells_masked [OF r mask_all_ok(1)] obtain vs where "res = (out @ [v]) @ vs" by blast
    then show ?thesis using v 0 by simp
  next
    case (Suc j)
    then show ?thesis using Suc.IH [OF r, of j] Suc.prems skip_decoded [OF v] by (simp)
  qed
qed simp

section \<open>Borrowed cells\<close>

lemma if_rbind: "rbind (if b then x else y) f = (if b then rbind x f else rbind y f)"
  by simp

lemma decode_value_ref_eq:
  "decode_value_ref ops cur = rbind (decode_value ops cur) (\<lambda>(v, c). Ok (value_ref_from v, c))"
  unfolding decode_value_ref_def decode_value_def rbind_assoc
  by (rule rbind_cong [OF refl]) (auto simp: rbind_assoc if_rbind split: prod.splits intro!: rbind_cong)

lemma decode_ref_cells_eq:
  "decode_ref_cells ops m i n cur (map value_ref_from out) =
   rbind (decode_cells ops m i n cur out) (\<lambda>(vs, c). Ok (map value_ref_from vs, c))"
proof (induction n arbitrary: i cur out)
  case (Suc n)
  have IH: "decode_ref_cells ops m (i + 1) n c (map value_ref_from out @ [value_ref_from v]) =
    rbind (decode_cells ops m (i + 1) n c (out @ [v])) (\<lambda>(vs, c). Ok (map value_ref_from vs, c))" for c v
    using Suc.IH [of "i + 1" c "out @ [v]"] by simp
  show ?case
    by (cases "mask_wants m i"; cases "skip_value cur"; cases "decode_value ops cur")
       (use IH IH [where v = Null] in \<open>auto simp: decode_value_ref_eq split: prod.splits\<close>)
qed simp

lemma decode_ref_cells_not_Panic: "mask_ok m \<Longrightarrow> decode_ref_cells ops m i n cur (map value_ref_from out) \<noteq> Panic"
  using decode_cells_not_Panic [of m ops i n cur out] by (auto simp: decode_ref_cells_eq)

lemma decode_row_ref_eq:
  "decode_row_ref_masked ops bs m = rbind (decode_row_masked ops bs m) (\<lambda>vs. Ok (map value_ref_from vs))"
  using decode_ref_cells_eq [of ops m 0 _ _ "[]"]
  by (auto simp: decode_row_ref_masked_def decode_row_ref_masked_into_def decode_row_ref_masked_onto_def
      decode_row_masked_def decode_row_masked_onto_def rbind_assoc split: prod.splits intro!: rbind_cong)

lemma decode_ref_cells_split:
  "decode_ref_cells ops m i (a + b) cur out =
   rbind (decode_ref_cells ops m i a cur out) (\<lambda>(out, cur). decode_ref_cells ops m (i + a) b cur out)"
  by (induction a arbitrary: i cur out) (auto simp: rbind_assoc split: prod.splits intro!: rbind_cong)

lemma decode_ref_cells_unwanted:
  assumes "mask_ok m" "\<And>j. i \<le> j \<Longrightarrow> j < i + n \<Longrightarrow> \<not> wanted m j" "decode_ref_cells ops m i n cur out = Ok (res, c)"
  shows "res = out @ replicate n RNull"
  using assms(2,3)
proof (induction n arbitrary: i cur out)
  case (Suc n)
  then obtain c1 where "decode_ref_cells ops m (i + 1) n c1 (out @ [RNull]) = Ok (res, c)"
    by (auto simp: mask_wants_ok [OF assms(1)])
  then have "res = (out @ [RNull]) @ replicate n RNull" by (rule Suc.IH [rotated]) (use Suc.prems in auto)
  then show ?case by simp
qed simp

lemma decode_row_ref_wanted_spec:
  assumes "mask_ok m" "decode_row_ref_masked ops bs m = Ok rs"
  shows "decode_row_ref_wanted_into ops bs m = Ok rs"
proof -
  obtain n c c' where n: "cur_count (cursor_new bs) 1 = Ok (n, c)" "decode_ref_cells ops m 0 n c [] = Ok (rs, c')"
    using assms(2) by (auto simp: decode_row_ref_masked_def decode_row_ref_masked_into_def decode_row_ref_masked_onto_def)
  define w where "w = walk_len m n"
  have w: "w \<le> n" "\<And>i. w \<le> i \<Longrightarrow> i < n \<Longrightarrow> \<not> wanted m i" using walk_len_spec [OF assms(1), of n] by (auto simp: w_def)
  from w(1) n(2) obtain out d where o: "decode_ref_cells ops m 0 w c [] = Ok (out, d)" "decode_ref_cells ops m w (n - w) d out = Ok (rs, c')"
    using decode_ref_cells_split [of ops m 0 w "n - w" c "[]"] by auto
  have "rs = out @ replicate (n - w) RNull" by (rule decode_ref_cells_unwanted [OF assms(1) _ o(2)]) (use w in auto)
  then show ?thesis using n(1) o(1) by (simp add: decode_row_ref_wanted_into_def w_def)
qed

section \<open>Properties\<close>

text \<open>
  C21: a row whose values fit the format decodes to the row that was written; a vector of a
  quantised column decodes to its quantised approximation, every other cell exactly.
\<close>

theorem row_roundtrip:
  assumes "list_all value_fits vs" "length vs < 2 ^ 32" "length (encode_typed_row ops vs types) \<le> USIZE_MAX"
  shows "decode_row ops (encode_typed_row ops vs types) = Ok (stored_cells ops types 0 vs) \<and>
         encode_row vs = encode_typed_row ops vs [] \<and> stored_cells ops [] 0 vs = vs"
  using decode_encode_typed [OF assms] encode_row_typed stored_cells_untyped by metis

definition unit_ops :: f32_ops where
  "unit_ops = \<lparr>f32_mul = (\<lambda>a b. a), f32_div = (\<lambda>a b. a), roundf = (\<lambda>a. a)\<rparr>"

theorem row_roundtrip_witness:
  "decode_row unit_ops (encode_typed_row unit_ops [Null, Integer 7, Text [195, 169], Blob [], Vector [1]] []) =
     Ok [Null, Integer 7, Text [195, 169], Blob [], Vector [1]]"
  using row_roundtrip [of "[Null, Integer 7, Text [195, 169], Blob [], Vector [1]]" unit_ops "[]"]
  by (simp add: stored_cells_untyped utf8_two_def in_range_def encode_typed_row_def encode_typed_cells_bytes
      typed_cell_def put_u32_def USIZE_MAX_def get_at_def)

text \<open>
  no byte string makes a decoder panic: every decoder, on any input and any mask the
  constructors build, returns cells or an error.
\<close>

theorem decoders_never_panic:
  assumes "mask_ok m"
  shows "decode_row_masked ops bs m \<noteq> Panic \<and> decode_row ops bs \<noteq> Panic \<and> decode_row_ref_masked ops bs m \<noteq> Panic \<and>
         decode_row_ref_wanted_into ops bs m \<noteq> Panic \<and> decode_value_at ops bs i \<noteq> Panic \<and> cur_string cur \<noteq> Panic"
proof -
  have d: "decode_row_masked ops bs m' \<noteq> Panic" if "mask_ok m'" for m'
    using decode_cells_not_Panic [OF that] by (auto simp: decode_row_masked_def decode_row_masked_onto_def)
  have "decode_row_ref_wanted_into ops bs m \<noteq> Panic"
    using decode_ref_cells_not_Panic [OF assms, of ops 0 _ _ "[]"] by (auto simp: decode_row_ref_wanted_into_def Let_def)
  moreover have "cur_string cur \<noteq> Panic" by (auto simp: cur_string_def split: if_splits)
  moreover have "decode_value_at ops bs i \<noteq> Panic" by (auto simp: decode_value_at_def split: if_splits)
  ultimately show ?thesis using d [OF assms] d [of MASK_ALL] by (auto simp: decode_row_def decode_row_ref_eq)
qed

theorem decoders_never_panic_witness:
  "mask_ok (mask_none 200) \<and> decode_row_masked unit_ops [1, 0, 0] (mask_none 200) \<noteq> Panic"
  using decoders_never_panic [OF mask_none_ok(1) [of 200]] mask_none_ok(1) by blast

text \<open>
  decoding under a mask gives the full row with the unwanted cells replaced by \<open>NULL\<close>, and
  reading one column alone gives the cell the full decode has there.
\<close>

theorem masked_decode_agrees:
  assumes "decode_row ops bs = Ok vs" "mask_ok m" "i < length vs"
  shows "\<exists>ws. decode_row_masked ops bs m = Ok ws \<and> length ws = length vs \<and>
           ws ! i = (if wanted m i then vs ! i else Null) \<and> decode_value_at ops bs i = Ok (vs ! i)"
proof -
  have len: "length (masked m k xs) = length xs" for k xs by (induction xs arbitrary: k) auto
  have nth: "j < length xs \<Longrightarrow> masked m k xs ! j = (if wanted m (k + j) then xs ! j else Null)" for j k xs
    by (induction xs arbitrary: k j) (auto simp: nth_Cons split: nat.split)
  obtain n c c' where n: "cur_count (cursor_new bs) 1 = Ok (n, c)" "decode_cells ops MASK_ALL 0 n c [] = Ok (vs, c')"
    using assms(1) by (auto simp: decode_row_def decode_row_masked_def decode_row_masked_onto_def)
  have "length vs = n" using decode_cells_masked [OF n(2) mask_all_ok(1), of "[]"] by auto
  then have "decode_value_at ops bs i = Ok (vs ! i)"
    using n(1) skip_values_nth [OF n(2), of i] assms(3) by (auto simp: decode_value_at_def)
  then show ?thesis using decode_row_masked_spec [OF assms(1,2)] len nth assms(3) by auto
qed

definition sample_row :: "sql_value list" where
  "sample_row = [Integer 1, Text [97], Null]"

lemma sample_row_decodes: "decode_row unit_ops (encode_row sample_row) = Ok sample_row"
proof -
  have "decode_row unit_ops (encode_typed_row unit_ops sample_row []) = Ok (stored_cells unit_ops [] 0 sample_row)"
    by (rule decode_encode_typed)
       (simp_all add: sample_row_def encode_typed_row_def encode_typed_cells_bytes typed_cell_def put_u32_def USIZE_MAX_def get_at_def)
  then show ?thesis using encode_row_typed [of sample_row unit_ops] by (simp add: stored_cells_untyped)
qed

theorem masked_decode_agrees_witness:
  "\<exists>ws. decode_row_masked unit_ops (encode_row sample_row) (mask_none 3) = Ok ws \<and> length ws = 3 \<and>
     ws ! 1 = Null \<and> decode_value_at unit_ops (encode_row sample_row) 1 = Ok (Text [97])"
  using masked_decode_agrees [OF sample_row_decodes mask_none_ok(1) [of 3], of 1]
  by (auto simp: sample_row_def mask_none_ok(2))

text \<open>
  the decoder that borrows from the row bytes answers exactly as the owning one, errors
  included, and on a row it accepts the variant that stops after the last wanted column gives
  the same cells.
\<close>

theorem borrowed_decode_agrees:
  assumes "mask_ok m"
  shows "decode_row_ref_masked ops bs m = rbind (decode_row_masked ops bs m) (\<lambda>vs. Ok (map value_ref_from vs)) \<and>
         (\<forall>vs. decode_row_masked ops bs m = Ok vs \<longrightarrow> decode_row_ref_wanted_into ops bs m = Ok (map value_ref_from vs))"
  using decode_row_ref_wanted_spec [OF assms] by (auto simp: decode_row_ref_eq)

theorem borrowed_decode_agrees_witness:
  "mask_ok MASK_ALL \<and> decode_row_ref_wanted_into unit_ops (encode_row sample_row) MASK_ALL = Ok (map value_ref_from sample_row)"
  using borrowed_decode_agrees [OF mask_all_ok(1), of unit_ops "encode_row sample_row"] sample_row_decodes
  by (simp add: decode_row_def)

text \<open>
  a mask is a set of ordinals: nothing inside an empty mask is wanted, adding an ordinal adds
  exactly that one, or everything when it lies past the width, slicing translates ordinals, and
  no wanted column lies past the walk.
\<close>

theorem mask_is_a_set:
  assumes "mask_ok m"
  shows "mask_ok (mask_none w) \<and> (wanted (mask_none w) j \<longleftrightarrow> w \<le> j) \<and>
         (\<exists>a. mask_add m i = Ok a \<and> mask_ok a \<and> (wanted a j \<longleftrightarrow> wanted m j \<or> j = i \<or> cm_width m \<le> i)) \<and>
         (\<exists>s. mask_slice m start w = Ok s \<and> mask_ok s \<and> (wanted s j \<longleftrightarrow> w \<le> j \<or> wanted m (start + j))) \<and>
         (walk_len m n \<le> j \<and> j < n \<longrightarrow> \<not> wanted m j)"
proof -
  obtain a where "mask_add m i = Ok a" "mask_ok a" "wanted a j \<longleftrightarrow> wanted m j \<or> j = i \<or> cm_width m \<le> i"
    using mask_add_spec [OF assms, of i] by metis
  then show ?thesis using mask_none_ok [of w] mask_slice_spec [OF assms, of start w] walk_len_spec [OF assms, of n] by blast
qed

theorem mask_is_a_set_witness:
  "\<exists>a. mask_add (mask_none 130) 129 = Ok a \<and> wanted a 129 \<and> \<not> wanted a 5"
proof -
  have "cm_width (mask_none 130) = 130" by (simp add: mask_none_def)
  then show ?thesis
    using mask_is_a_set [OF mask_none_ok(1) [of 130], of 1 129 129 0 0] mask_is_a_set [OF mask_none_ok(1) [of 130], of 1 5 129 0 0]
    by (auto simp: mask_none_ok(2))
qed

end
