(* ===== verification/Change_Log.thy ===== *)
theory Change_Log
  imports Storage Row_Mask
begin

text \<open>
  The change log: the record codec of \<^verbatim>\<open>src/crates/inlaysql-core/src/cdc.rs\<close> and the part of the
  engine (\<^verbatim>\<open>engine.rs\<close>) that writes, trims and reads it. The engine sees storage through the two
  metadata operations of the \<open>Storage\<close> trait, so they are arguments here; the locale \<open>meta_store\<close>
  states what the engine relies on, and the table store over the tree is its instance. \<open>u64\<close>
  additions wrap, as they do in a release build.
\<close>

section \<open>Records\<close>

definition CDC_KEY_PREFIX :: bytes where "CDC_KEY_PREFIX = ascii ''cdc:''"
definition CDC_FLOOR_KEY :: bytes where "CDC_FLOOR_KEY = ascii ''cdc_floor''"
definition WRITE_VERSION_KEY :: bytes where "WRITE_VERSION_KEY = ascii ''write_version''"
definition CDC_RETENTION :: u64 where "CDC_RETENTION = 4096"
definition CDC_TRIM_BATCH :: u64 where "CDC_TRIM_BATCH = 64"

datatype change_kind = Inserted | Updated | Deleted

fun kind_tag :: "change_kind \<Rightarrow> u8" where
  "kind_tag Inserted = 1"
| "kind_tag Updated = 2"
| "kind_tag Deleted = 3"

definition kind_from_tag :: "u8 \<Rightarrow> change_kind result" where
  "kind_from_tag tag =
     (if tag = 1 then Ok Inserted else if tag = 2 then Ok Updated else if tag = 3 then Ok Deleted
      else Err (Corrupt (''unknown change kind tag '' @ show_nat (unat tag))))"

fun kind_as_str :: "change_kind \<Rightarrow> string" where
  "kind_as_str Inserted = ''insert''"
| "kind_as_str Updated = ''update''"
| "kind_as_str Deleted = ''delete''"

record change =
  ch_version :: u64
  ch_table :: bytes
  ch_id :: u64
  ch_kind :: change_kind

record changes =
  chs_changes :: "change list"
  chs_version :: u64
  chs_floor :: u64

definition changes_lost :: "changes \<Rightarrow> u64 \<Rightarrow> bool" where
  "changes_lost c requested_from \<longleftrightarrow> chs_floor c > requested_from"

type_synonym log_entry = "bytes \<times> u64 \<times> change_kind"

fun put_change :: "bytes \<Rightarrow> log_entry \<Rightarrow> bytes" where
  "put_change out (table, rid, kind) = put_string out table @ u64_to_le rid @ [kind_tag kind]"

definition cdc_encode_record :: "log_entry list \<Rightarrow> bytes" where
  "cdc_encode_record entries = foldl put_change (put_len [] (length entries)) entries"

fun decode_changes :: "u64 \<Rightarrow> nat \<Rightarrow> cursor \<Rightarrow> change list \<Rightarrow> change list result" where
  "decode_changes version 0 cur out = Ok out"
| "decode_changes version (Suc n) cur out =
     rbind (cur_string cur) (\<lambda>(table, cur).
     rbind (cur_array8 cur) (\<lambda>(rid, cur).
     rbind (cur_u8 cur) (\<lambda>(tag, cur).
     rbind (kind_from_tag tag) (\<lambda>kind.
       decode_changes version n cur
         (out @ [\<lparr>ch_version = version, ch_table = table, ch_id = u64_from_le rid, ch_kind = kind\<rparr>])))))"

definition cdc_decode_record :: "u64 \<Rightarrow> bytes \<Rightarrow> change list result" where
  "cdc_decode_record version bytes =
     rbind (cur_count (cursor_new bytes) 13) (\<lambda>(count, cur). decode_changes version count cur [])"

definition record_key :: "u64 \<Rightarrow> bytes" where
  "record_key version = CDC_KEY_PREFIX @ hex_digits 16 (unat version)"

section \<open>The engine's side\<close>

record 's meta_ops =
  mo_put :: "'s \<Rightarrow> bytes \<Rightarrow> bytes \<Rightarrow> 's result"
  mo_get :: "'s \<Rightarrow> bytes \<Rightarrow> bytes option result"

record 's log_engine =
  le_storage :: 's
  le_write_version :: u64
  le_cdc_floor :: u64
  le_pending :: "log_entry list"

definition read_counter :: "'s meta_ops \<Rightarrow> 's \<Rightarrow> bytes \<Rightarrow> string \<Rightarrow> u64 option result" where
  "read_counter ops s key what =
     rbind (mo_get ops s key) (\<lambda>r. case r of
       Some bytes \<Rightarrow> (if length bytes = 8 then Ok (Some (u64_from_le bytes)) else Err (Corrupt (what @ '' is malformed'')))
     | None \<Rightarrow> Ok None)"

definition note_change :: "'s log_engine \<Rightarrow> bytes \<Rightarrow> u64 \<Rightarrow> change_kind \<Rightarrow> 's log_engine" where
  "note_change e table rid kind = e\<lparr>le_pending := le_pending e @ [(table, rid, kind)]\<rparr>"

text \<open>The inclusive range \<open>a..=b\<close>.\<close>

definition versions :: "u64 \<Rightarrow> u64 \<Rightarrow> u64 list" where
  "versions a b = map of_nat [unat a..<Suc (unat b)]"

fun expire :: "'s meta_ops \<Rightarrow> 's \<Rightarrow> u64 list \<Rightarrow> 's result" where
  "expire ops s [] = Ok s"
| "expire ops s (v # vs) = rbind (mo_put ops s (record_key v) []) (\<lambda>s. expire ops s vs)"

definition trim_changes :: "'s meta_ops \<Rightarrow> 's log_engine \<Rightarrow> 's log_engine result" where
  "trim_changes ops e =
     (if le_write_version e < CDC_RETENTION then Ok e
      else let expired = le_write_version e - CDC_RETENTION
           in if expired < le_cdc_floor e + CDC_TRIM_BATCH then Ok e
              else rbind (expire ops (le_storage e) (versions (le_cdc_floor e + 1) expired)) (\<lambda>s.
                   rbind (mo_put ops s CDC_FLOOR_KEY (u64_to_le expired)) (\<lambda>s.
                     Ok (e\<lparr>le_storage := s, le_cdc_floor := expired\<rparr>))))"

definition bump_write_version :: "'s meta_ops \<Rightarrow> 's log_engine \<Rightarrow> 's log_engine result" where
  "bump_write_version ops e =
     (if le_pending e = [] then Ok e
      else let v = le_write_version e + 1
           in rbind (mo_put ops (le_storage e) WRITE_VERSION_KEY (u64_to_le v)) (\<lambda>s.
              rbind (mo_put ops s (record_key v) (cdc_encode_record (le_pending e))) (\<lambda>s.
                trim_changes ops (e\<lparr>le_storage := s, le_write_version := v, le_pending := []\<rparr>))))"

fun changes_loop :: "'s meta_ops \<Rightarrow> 's \<Rightarrow> u64 list \<Rightarrow> change list \<Rightarrow> change list result" where
  "changes_loop ops s [] out = Ok out"
| "changes_loop ops s (v # vs) out =
     rbind (mo_get ops s (record_key v)) (\<lambda>r. case r of
       None \<Rightarrow> changes_loop ops s vs out
     | Some bytes \<Rightarrow>
         (if bytes = [] then changes_loop ops s vs out
          else rbind (cdc_decode_record v bytes) (\<lambda>cs. changes_loop ops s vs (out @ cs))))"

definition changes_since :: "'s meta_ops \<Rightarrow> 's log_engine \<Rightarrow> u64 \<Rightarrow> changes result" where
  "changes_since ops e from =
     rbind (changes_loop ops (le_storage e) (versions (max from (le_cdc_floor e) + 1) (le_write_version e)) []) (\<lambda>cs.
       Ok \<lparr>chs_changes = cs, chs_version = le_write_version e, chs_floor = le_cdc_floor e\<rparr>)"

definition change_version :: "'s log_engine \<Rightarrow> u64" where
  "change_version e = le_write_version e"

text \<open>Reading both counters back, as opening a database and refreshing a snapshot do.\<close>

definition load_counters :: "'s meta_ops \<Rightarrow> 's \<Rightarrow> (u64 \<times> u64) result" where
  "load_counters ops s =
     rbind (read_counter ops s WRITE_VERSION_KEY ''write version'') (\<lambda>w.
     rbind (read_counter ops s CDC_FLOOR_KEY ''change floor'') (\<lambda>f.
       Ok (case w of Some n \<Rightarrow> n | None \<Rightarrow> 0, case f of Some n \<Rightarrow> n | None \<Rightarrow> 0)))"

section \<open>Round trip of a record\<close>

fun entry_fits :: "log_entry \<Rightarrow> bool" where
  "entry_fits (table, rid, kind) \<longleftrightarrow> utf8_valid table \<and> length table < 2 ^ 32"

definition record_fits :: "log_entry list \<Rightarrow> bool" where
  "record_fits es \<longleftrightarrow> list_all entry_fits es \<and> length es < 2 ^ 32 \<and> length (cdc_encode_record es) \<le> USIZE_MAX"

fun entry_bytes :: "log_entry \<Rightarrow> bytes" where
  "entry_bytes (table, rid, kind) = u32_to_le (of_nat (length table)) @ table @ u64_to_le rid @ [kind_tag kind]"

fun to_change :: "u64 \<Rightarrow> log_entry \<Rightarrow> change" where
  "to_change version (table, rid, kind) = \<lparr>ch_version = version, ch_table = table, ch_id = rid, ch_kind = kind\<rparr>"

lemma kind_roundtrip [simp]: "kind_from_tag (kind_tag k) = Ok k"
  by (cases k) (simp_all add: kind_from_tag_def)

lemma encode_record_bytes: "cdc_encode_record es = u32_to_le (of_nat (length es)) @ concat (map entry_bytes es)"
proof -
  have "foldl put_change out es = out @ concat (map entry_bytes es)" for out
    by (induction es arbitrary: out) (auto simp: put_string_def put_u32_def)
  then show ?thesis by (simp add: cdc_encode_record_def put_len_def put_u32_def)
qed

lemma decode_changes_at:
  "list_all entry_fits es \<Longrightarrow> length (pre @ concat (map entry_bytes es)) \<le> USIZE_MAX \<Longrightarrow>
   decode_changes v (length es) (at pre (concat (map entry_bytes es))) out = Ok (out @ map (to_change v) es)"
proof (induction es arbitrary: pre out)
  case (Cons e es)
  obtain t i k where e: "e = (t, i, k)" by (cases e)
  let ?n = "u32_to_le (of_nat (length t))" and ?r = "concat (map entry_bytes es)"
  have n: "unat (of_nat (length t) :: u32) = length t" using Cons.prems e by (simp add: unat_of_nat_u32)
  have "cur_string (at pre (?n @ t @ u64_to_le i @ [kind_tag k] @ ?r)) = Ok (t, at (pre @ ?n @ t) (u64_to_le i @ [kind_tag k] @ ?r))"
    using u32_at [of pre "of_nat (length t)" "t @ u64_to_le i @ [kind_tag k] @ ?r"] Cons.prems n
      take_at [of "pre @ ?n" t "u64_to_le i @ [kind_tag k] @ ?r" "length t"] e
    by (simp add: cur_string_def)
  moreover have "cur_array8 (at (pre @ ?n @ t) (u64_to_le i @ [kind_tag k] @ ?r)) =
      Ok (u64_to_le i, at (pre @ ?n @ t @ u64_to_le i) ([kind_tag k] @ ?r))"
    using array8_at [of "pre @ ?n @ t" "u64_to_le i" "[kind_tag k] @ ?r"] Cons.prems e by simp
  moreover have "cur_u8 (at (pre @ ?n @ t @ u64_to_le i) ([kind_tag k] @ ?r)) = Ok (kind_tag k, at (pre @ entry_bytes e) ?r)"
    using u8_at [of "pre @ ?n @ t @ u64_to_le i" "kind_tag k" ?r] Cons.prems e by simp
  moreover have "decode_changes v (length es) (at (pre @ entry_bytes e) ?r) out' = Ok (out' @ map (to_change v) es)" for out'
    using Cons.prems by (intro Cons.IH) auto
  ultimately show ?case by (simp add: e)
qed simp

lemma decode_encoded: "record_fits es \<Longrightarrow> cdc_decode_record v (cdc_encode_record es) = Ok (map (to_change v) es)"
proof -
  assume f: "record_fits es"
  have len: "length es * 13 \<le> length (concat (map entry_bytes es))" by (induction es) auto
  have "cur_count (at [] (cdc_encode_record es)) 13 =
      Ok (length es, at (u32_to_le (of_nat (length es))) (concat (map entry_bytes es)))"
    using count_at [of "[]" "length es" "concat (map entry_bytes es)" 13] f len
    by (simp add: record_fits_def encode_record_bytes)
  moreover have "cursor_new bs = at [] bs" for bs by (simp add: cursor_new_def at_def)
  ultimately show ?thesis
    using decode_changes_at [of es "u32_to_le (of_nat (length es))" v "[]"] f
    by (simp add: cdc_decode_record_def record_fits_def encode_record_bytes)
qed

lemma encode_record_not_empty [simp]: "cdc_encode_record es \<noteq> []"
proof -
  have "length (cdc_encode_record es) \<noteq> 0" by (simp add: encode_record_bytes)
  then show ?thesis by auto
qed

section \<open>Keys and versions\<close>

lemma record_key_meta: "0 # record_key v = cdc_key v"
  by (simp add: record_key_def cdc_key_def CDC_KEY_PREFIX_def cdc_meta_prefix_def)

lemma record_key_inj [simp]: "record_key a = record_key b \<longleftrightarrow> a = b"
  using record_key_meta [of a] record_key_meta [of b] cdc_key_inj [of a b] by (metis list.inject)

lemma counter_keys [simp]:
  "WRITE_VERSION_KEY \<noteq> record_key v" "CDC_FLOOR_KEY \<noteq> record_key v" "WRITE_VERSION_KEY \<noteq> CDC_FLOOR_KEY"
  "record_key v \<noteq> WRITE_VERSION_KEY" "record_key v \<noteq> CDC_FLOOR_KEY" "CDC_FLOOR_KEY \<noteq> WRITE_VERSION_KEY"
  by (simp_all add: record_key_def WRITE_VERSION_KEY_def CDC_FLOOR_KEY_def CDC_KEY_PREFIX_def ascii_def)

lemma unat_lt64: "unat (v :: u64) < 2 ^ 64"
  using unsigned_less [of v] by simp

lemma unat_max64: "unat (- 1 :: u64) = 2 ^ 64 - 1"
  by (simp add: unsigned_minus_1_eq_mask mask_eq_exp_minus_1)

lemma unat_plus_one: "(v :: u64) \<noteq> - 1 \<Longrightarrow> unat (v + 1) = unat v + 1"
  by (metis Suc_eq_plus1 add.commute add_eq_0_iff unatSuc)

lemma unat_of_nat_self: "of_nat (unat v) = (v :: u64)"
  by simp

lemma set_versions: "v \<in> set (versions a b) \<longleftrightarrow> a \<le> v \<and> v \<le> b"
proof
  assume "v \<in> set (versions a b)"
  then obtain n where n: "v = of_nat n" "unat a \<le> n" "n \<le> unat b" by (auto simp: versions_def less_Suc_eq_le)
  then have "unat v = n" using le_less_trans [OF n(3) unat_lt64 [of b]] by (simp add: unat_of_nat)
  then show "a \<le> v \<and> v \<le> b" using n by (simp add: word_le_nat_alt)
next
  assume "a \<le> v \<and> v \<le> b"
  then have "unat v \<in> set [unat a..<Suc (unat b)]" by (auto simp: word_le_nat_alt less_Suc_eq_le simp del: upt_Suc)
  then show "v \<in> set (versions a b)" unfolding versions_def by (metis image_eqI list.set_map unat_of_nat_self)
qed

lemma length_versions: "length (versions a b) = Suc (unat b) - unat a"
  by (simp add: versions_def del: upt_Suc)

section \<open>What the engine relies on\<close>

locale meta_store =
  fixes ops :: "'s meta_ops" and inv :: "nat \<Rightarrow> 's \<Rightarrow> bool" and accepts :: "bytes \<Rightarrow> bytes \<Rightarrow> bool"
  assumes put_law: "inv (Suc n) s \<Longrightarrow> accepts k v \<Longrightarrow>
      \<exists>s'. mo_put ops s k v = Ok s' \<and> inv n s' \<and> (\<forall>a. mo_get ops s' a = (if a = k then Ok (Some v) else mo_get ops s a))"
    and fewer: "inv (Suc n) s \<Longrightarrow> inv n s"

definition log_fits :: "(bytes \<Rightarrow> bytes \<Rightarrow> bool) \<Rightarrow> bool" where
  "log_fits accepts \<longleftrightarrow> (\<forall>v. accepts (record_key v) []) \<and> (\<forall>x. accepts WRITE_VERSION_KEY (u64_to_le x)) \<and> (\<forall>x. accepts CDC_FLOOR_KEY (u64_to_le x))"

text \<open>
  The log invariant: \<open>H\<close> is what each version changed. Every version above the floor is readable,
  at most 4096 plus a batch of them are retained, never fewer than 4096 once the log was trimmed, and
  the stored counters are the engine's.
\<close>

definition window_ok :: "u64 \<Rightarrow> u64 \<Rightarrow> nat \<Rightarrow> bool" where
  "window_ok w f slack \<longleftrightarrow> unat f \<le> unat w \<and> unat w < unat f + 4096 + 64 + slack \<and> (f = 0 \<or> unat f + 4096 \<le> unat w)"

lemma window_floor: "window_ok w f k \<Longrightarrow> f \<noteq> - 1"
proof
  assume w: "window_ok w f k" and f: "f = - 1"
  then have "unat f + 4096 \<le> unat w" by (auto simp: window_ok_def)
  moreover have "unat f = 2 ^ 64 - 1" using f unat_max64 by simp
  ultimately show False using unat_lt64 [of w] by linarith
qed

definition records_ok :: "'s meta_ops \<Rightarrow> 's \<Rightarrow> u64 \<Rightarrow> u64 \<Rightarrow> (u64 \<Rightarrow> log_entry list) \<Rightarrow> bool" where
  "records_ok ops s w f H \<longleftrightarrow>
     (\<forall>v. f < v \<and> v \<le> w \<longrightarrow> record_fits (H v) \<and> mo_get ops s (record_key v) = Ok (Some (cdc_encode_record (H v))))"

definition log_ok :: "'s meta_ops \<Rightarrow> 's log_engine \<Rightarrow> (u64 \<Rightarrow> log_entry list) \<Rightarrow> bool" where
  "log_ok ops e H \<longleftrightarrow> window_ok (le_write_version e) (le_cdc_floor e) 0 \<and>
     records_ok ops (le_storage e) (le_write_version e) (le_cdc_floor e) H \<and>
     load_counters ops (le_storage e) = Ok (le_write_version e, le_cdc_floor e)"

lemma load_counters_eq:
  "mo_get ops s WRITE_VERSION_KEY = Ok (Some (u64_to_le w)) \<Longrightarrow>
   load_counters ops s = rbind (read_counter ops s CDC_FLOOR_KEY ''change floor'') (\<lambda>f. Ok (w, case f of Some n \<Rightarrow> n | None \<Rightarrow> 0))"
  by (simp add: load_counters_def read_counter_def)

lemma load_counters_floor: "load_counters ops s = Ok (w, f) \<Longrightarrow>
    \<exists>x. read_counter ops s CDC_FLOOR_KEY ''change floor'' = Ok x \<and> (case x of Some n \<Rightarrow> n | None \<Rightarrow> 0) = f"
  by (auto simp: load_counters_def)

context meta_store
begin

lemma fewer_many: "inv (n + k) s \<Longrightarrow> inv n s"
  by (induction k) (auto intro: fewer)

lemma expire_spec:
  "log_fits accepts \<Longrightarrow> inv (n + length vs) s \<Longrightarrow> \<exists>s'. expire ops s vs = Ok s' \<and> inv n s' \<and>
     (\<forall>a. a \<notin> record_key ` set vs \<longrightarrow> mo_get ops s' a = mo_get ops s a)"
proof (induction vs arbitrary: s)
  case (Cons v vs)
  then obtain s1 where s1: "mo_put ops s (record_key v) [] = Ok s1" "inv (n + length vs) s1"
    "\<forall>a. mo_get ops s1 a = (if a = record_key v then Ok (Some []) else mo_get ops s a)"
    using put_law [of "n + length vs" s "record_key v" "[]"] by (auto simp: log_fits_def)
  from Cons.IH [OF Cons.prems(1) s1(2)] show ?case using s1 by auto
qed simp

lemma trim_spec:
  assumes "log_fits accepts" "inv (n + 65) (le_storage e)" "window_ok (le_write_version e) (le_cdc_floor e) 1"
    "records_ok ops (le_storage e) (le_write_version e) (le_cdc_floor e) H"
    "load_counters ops (le_storage e) = Ok (le_write_version e, le_cdc_floor e)"
    "mo_get ops (le_storage e) WRITE_VERSION_KEY = Ok (Some (u64_to_le (le_write_version e)))"
  shows "\<exists>e'. trim_changes ops e = Ok e' \<and> inv n (le_storage e') \<and> log_ok ops e' H \<and>
    le_write_version e' = le_write_version e \<and> le_pending e' = le_pending e"
proof -
  let ?w = "le_write_version e" and ?f = "le_cdc_floor e"
  define expired where "expired = ?w - CDC_RETENTION"
  have "unat ?f + 64 < 2 ^ 64"
    using assms(3) unat_lt64 [of ?w] unfolding window_ok_def by (elim conjE disjE) (simp, linarith)
  then have f64: "unat (?f + CDC_TRIM_BATCH) = unat ?f + 64"
    by (simp add: CDC_TRIM_BATCH_def unat_word_ariths)
  have ex: "unat expired = unat ?w - 4096" if "\<not> ?w < CDC_RETENTION"
    using that by (simp add: expired_def CDC_RETENTION_def unat_sub word_le_nat_alt not_less)
  show ?thesis
  proof (cases "?w < CDC_RETENTION \<or> expired < ?f + CDC_TRIM_BATCH")
    case True
    then have "trim_changes ops e = Ok e" by (auto simp: trim_changes_def expired_def)
    moreover have "unat ?w < unat ?f + 4096 + 64"
    proof (cases "?w < CDC_RETENTION")
      case True
      then show ?thesis by (simp add: word_less_nat_alt CDC_RETENTION_def)
    next
      case False
      then have "unat expired < unat ?f + 64" using True f64 by (simp add: word_less_nat_alt)
      then show ?thesis using ex [OF False] by linarith
    qed
    then have "window_ok ?w ?f 0" using assms(3) by (simp add: window_ok_def)
    ultimately show ?thesis using assms fewer_many [of n 65] by (simp add: log_ok_def)
  next
    case False
    then have e1: "unat expired = unat ?w - 4096" "4096 \<le> unat ?w" "unat ?f + 64 \<le> unat expired"
      using ex f64 by (auto simp: word_less_nat_alt not_less CDC_RETENTION_def word_le_nat_alt)
    have e2: "unat expired \<le> unat ?f + 64" using assms(3) e1 by (auto simp: window_ok_def)
    have "?f \<noteq> - 1" by (rule window_floor [OF assms(3)])
    then have f1: "unat (?f + 1) = unat ?f + 1" by (rule unat_plus_one)
    let ?vs = "versions (?f + 1) expired"
    have "length ?vs = 64" using e1 e2 f1 by (simp add: length_versions)
    then obtain s1 where s1: "expire ops (le_storage e) ?vs = Ok s1" "inv (Suc n) s1"
      "\<And>a. a \<notin> record_key ` set ?vs \<Longrightarrow> mo_get ops s1 a = mo_get ops (le_storage e) a"
      using expire_spec [OF assms(1), of "Suc n" ?vs "le_storage e"] assms(2) by (auto simp: add.commute)
    obtain s2 where s2: "mo_put ops s1 CDC_FLOOR_KEY (u64_to_le expired) = Ok s2" "inv n s2"
      "\<And>a. mo_get ops s2 a = (if a = CDC_FLOOR_KEY then Ok (Some (u64_to_le expired)) else mo_get ops s1 a)"
      using put_law [OF s1(2), of CDC_FLOOR_KEY "u64_to_le expired"] assms(1) by (auto simp: log_fits_def)
    let ?e = "e\<lparr>le_storage := s2, le_cdc_floor := expired\<rparr>"
    have "trim_changes ops e = Ok ?e" using False s1 s2 by (simp add: trim_changes_def Let_def flip: expired_def)
    moreover have "records_ok ops s2 ?w expired H"
    proof -
      have "record_key v \<notin> record_key ` set ?vs" if "expired < v" for v using that by (auto simp: set_versions)
      moreover have "?f < v" if "expired < v" for v using that e1 by (simp add: word_less_nat_alt)
      ultimately show ?thesis using assms(4) s1(3) s2(3) by (auto simp: records_ok_def)
    qed
    moreover have "load_counters ops s2 = Ok (?w, expired)"
    proof -
      have "WRITE_VERSION_KEY \<notin> record_key ` set ?vs" by auto
      then have "mo_get ops s2 WRITE_VERSION_KEY = Ok (Some (u64_to_le ?w))" using assms(6) s1(3) s2(3) by simp
      from load_counters_eq [OF this] show ?thesis using s2(3) by (simp add: read_counter_def)
    qed
    moreover have "window_ok ?w expired 0" using e1 by (auto simp: window_ok_def)
    ultimately show ?thesis using s2(2) by (simp add: log_ok_def)
  qed
qed

lemma bump_spec:
  assumes "log_fits accepts" "inv (n + 67) (le_storage e)" "log_ok ops e H" "unat (le_write_version e) + 1 < 2 ^ 64"
    "record_fits (le_pending e)" "accepts (record_key (le_write_version e + 1)) (cdc_encode_record (le_pending e))"
  shows "\<exists>e'. bump_write_version ops e = Ok e' \<and> inv n (le_storage e') \<and>
    log_ok ops e' (if le_pending e = [] then H else H(le_write_version e + 1 := le_pending e)) \<and>
    le_write_version e' = (if le_pending e = [] then le_write_version e else le_write_version e + 1) \<and> le_pending e' = []"
proof (cases "le_pending e = []")
  case True
  then show ?thesis using assms(2,3) fewer_many [of n 67] by (simp add: bump_write_version_def)
next
  case False
  let ?v = "le_write_version e + 1" and ?H = "H(le_write_version e + 1 := le_pending e)"
  have "le_write_version e \<noteq> - 1" using assms(4) unat_max64 by auto
  then have v: "unat ?v = unat (le_write_version e) + 1" by (rule unat_plus_one)
  obtain s1 where s1: "mo_put ops (le_storage e) WRITE_VERSION_KEY (u64_to_le ?v) = Ok s1" "inv (n + 66) s1"
    "\<And>a. mo_get ops s1 a = (if a = WRITE_VERSION_KEY then Ok (Some (u64_to_le ?v)) else mo_get ops (le_storage e) a)"
    using put_law [of "n + 66" "le_storage e" WRITE_VERSION_KEY "u64_to_le ?v"] assms(1,2) by (auto simp: log_fits_def add.commute)
  obtain s2 where s2: "mo_put ops s1 (record_key ?v) (cdc_encode_record (le_pending e)) = Ok s2" "inv (n + 65) s2"
    "\<And>a. mo_get ops s2 a = (if a = record_key ?v then Ok (Some (cdc_encode_record (le_pending e))) else mo_get ops s1 a)"
    using put_law [of "n + 65" s1 "record_key ?v" "cdc_encode_record (le_pending e)"] s1(2) assms(6) by (auto simp: add.commute)
  let ?e = "e\<lparr>le_storage := s2, le_write_version := ?v, le_pending := []\<rparr>"
  have w: "window_ok ?v (le_cdc_floor e) 1" using assms(3) v by (auto simp: log_ok_def window_ok_def)
  have g: "mo_get ops s2 WRITE_VERSION_KEY = Ok (Some (u64_to_le ?v))" using s2(3) s1(3) by simp
  have "read_counter ops s2 CDC_FLOOR_KEY ''change floor'' = read_counter ops (le_storage e) CDC_FLOOR_KEY ''change floor''"
    using s2(3) s1(3) by (simp add: read_counter_def)
  then have c: "load_counters ops s2 = Ok (?v, le_cdc_floor e)"
    using load_counters_eq [OF g] load_counters_floor [of ops "le_storage e"] assms(3) by (auto simp: log_ok_def)
  have r: "records_ok ops s2 ?v (le_cdc_floor e) ?H"
    unfolding records_ok_def
  proof (intro allI impI)
    fix u assume u: "le_cdc_floor e < u \<and> u \<le> ?v"
    show "record_fits (?H u) \<and> mo_get ops s2 (record_key u) = Ok (Some (cdc_encode_record (?H u)))"
    proof (cases "u = ?v")
      case True
      then show ?thesis using assms(5) s2(3) by simp
    next
      case False
      then have "u \<le> le_write_version e" using u v by (simp add: word_le_nat_alt word_unat_eq_iff)
      then show ?thesis using False u assms(3) s2(3) s1(3) by (simp add: log_ok_def records_ok_def)
    qed
  qed
  obtain e' where e': "trim_changes ops ?e = Ok e'" "inv n (le_storage e')" "log_ok ops e' ?H" "le_write_version e' = ?v" "le_pending e' = []"
    using trim_spec [OF assms(1), of n ?e ?H] s2(2) w g c r by auto
  then have "bump_write_version ops e = Ok e'" using False s1(1) s2(1) by (simp add: bump_write_version_def)
  with e' False show ?thesis by simp
qed

lemma changes_loop_spec:
  "(\<And>v. v \<in> set vs \<Longrightarrow> record_fits (H v) \<and> mo_get ops s (record_key v) = Ok (Some (cdc_encode_record (H v)))) \<Longrightarrow>
   changes_loop ops s vs out = Ok (out @ concat (map (\<lambda>v. map (to_change v) (H v)) vs))"
  by (induction vs arbitrary: out) (auto simp: decode_encoded)

lemma changes_spec:
  assumes "log_ok ops e H" "from \<noteq> - 1"
  shows "changes_since ops e from = Ok \<lparr>chs_changes = concat (map (\<lambda>v. map (to_change v) (H v))
      (versions (max from (le_cdc_floor e) + 1) (le_write_version e))),
    chs_version = le_write_version e, chs_floor = le_cdc_floor e\<rparr>"
proof -
  have "le_cdc_floor e < v \<and> v \<le> le_write_version e"
    if "v \<in> set (versions (max from (le_cdc_floor e) + 1) (le_write_version e))" for v
  proof -
    have f: "le_cdc_floor e \<noteq> - 1" using assms(1) window_floor by (auto simp: log_ok_def)
    have "unat (max from (le_cdc_floor e) + 1) = unat (max from (le_cdc_floor e)) + 1"
      using assms(2) f by (intro unat_plus_one) (auto simp: max_def)
    then show ?thesis using that by (auto simp: set_versions word_le_nat_alt word_less_nat_alt max_def split: if_splits)
  qed
  then show ?thesis using assms(1) changes_loop_spec [of _ H "le_storage e" "[]"]
    by (simp add: changes_since_def log_ok_def records_ok_def)
qed

end

section \<open>The table store as an instance\<close>

definition tree_meta :: "nat \<Rightarrow> cow_btree meta_ops" where
  "tree_meta d = \<lparr>mo_put = put_meta d, mo_get = get_meta d\<rparr>"

definition meta_storable :: "nat \<Rightarrow> nat \<Rightarrow> bytes \<Rightarrow> bytes \<Rightarrow> bool" where
  "meta_storable ps cap k v \<longleftrightarrow> tree_storable ps cap (meta_key k) v"

lemma store_inv_fewer: "store_inv ps d cap (Suc n) t \<Longrightarrow> store_inv ps d cap n t"
  by (auto simp: store_inv_def room_def)

interpretation tree_log: meta_store "tree_meta d" "store_inv ps d cap" "meta_storable ps cap" for ps d cap
proof
  fix n t k v
  assume "store_inv ps d cap (Suc n) t" "meta_storable ps cap k v"
  from tree.store_law [OF this(1), of "meta_key k" v] this(2)
  show "\<exists>s'. mo_put (tree_meta d) t k v = Ok s' \<and> store_inv ps d cap n s' \<and>
      (\<forall>a. mo_get (tree_meta d) s' a = (if a = k then Ok (Some v) else mo_get (tree_meta d) t a))"
    by (auto simp: tree_meta_def meta_storable_def put_meta_def get_meta_def meta_key_def)
qed (rule store_inv_fewer)

section \<open>Runs of the engine\<close>

text \<open>
  What statements do to the log: note changes, bump the version at their commit, and read the
  counters back when the database is opened again or refreshed. \<open>n\<close> counts the writes storage
  still takes, \<open>H\<close> is the history.
\<close>

inductive log_run :: "nat \<Rightarrow> nat \<Rightarrow> nat \<Rightarrow> nat \<Rightarrow> cow_btree log_engine \<Rightarrow> (u64 \<Rightarrow> log_entry list) \<Rightarrow> bool" for ps d cap where
  run_start: "store_inv ps d cap n t \<Longrightarrow> load_counters (tree_meta d) t = Ok (0, 0) \<Longrightarrow>
     log_run ps d cap n \<lparr>le_storage = t, le_write_version = 0, le_cdc_floor = 0, le_pending = []\<rparr> (\<lambda>_. [])"
| run_note: "log_run ps d cap n e H \<Longrightarrow> log_run ps d cap n (note_change e table rid kind) H"
| run_bump: "log_run ps d cap (n + 67) e H \<Longrightarrow> unat (le_write_version e) + 1 < 2 ^ 64 \<Longrightarrow> record_fits (le_pending e) \<Longrightarrow>
     meta_storable ps cap (record_key (le_write_version e + 1)) (cdc_encode_record (le_pending e)) \<Longrightarrow>
     bump_write_version (tree_meta d) e = Ok e' \<Longrightarrow>
     log_run ps d cap n e' (if le_pending e = [] then H else H(le_write_version e + 1 := le_pending e))"
| run_reopen: "log_run ps d cap n e H \<Longrightarrow> load_counters (tree_meta d) (le_storage e) = Ok (w, f) \<Longrightarrow>
     log_run ps d cap n \<lparr>le_storage = le_storage e, le_write_version = w, le_cdc_floor = f, le_pending = []\<rparr> H"

lemma log_ok_note [simp]: "log_ok ops (note_change e table rid kind) H = log_ok ops e H"
  by (simp add: log_ok_def note_change_def)

lemma run_ok:
  assumes "log_run ps d cap n e H" "log_fits (meta_storable ps cap)"
  shows "store_inv ps d cap n (le_storage e) \<and> log_ok (tree_meta d) e H"
  using assms
proof (induction rule: log_run.induct)
  case (run_start n t)
  then show ?case by (auto simp: log_ok_def window_ok_def records_ok_def word_le_nat_alt word_less_nat_alt)
next
  case (run_note n e H table rid kind)
  then show ?case by (simp add: note_change_def [of e]) (simp add: log_ok_def)
next
  case (run_bump n e H e')
  then show ?case using tree_log.bump_spec [of ps cap d n e H] by auto
next
  case (run_reopen n e H w f)
  then show ?case by (auto simp: log_ok_def)
qed

section \<open>Properties\<close>

text \<open>
  C22: after any run of statements, reopenings and trims, reading the change log from a version
  returns, in commit order, exactly the changes of every retained version after it; at least the
  last 4096 versions are retained, so a consumer no further behind is never told it lost changes
  and receives all of them, and never more than a batch beyond that is kept.
\<close>

theorem change_log_complete:
  assumes "log_run ps d cap n e H" "log_fits (meta_storable ps cap)" "from \<noteq> - 1"
  shows "\<exists>c. changes_since (tree_meta d) e from = Ok c \<and> chs_version c = le_write_version e \<and>
    chs_changes c = concat (map (\<lambda>v. map (to_change v) (H v)) (versions (max from (chs_floor c) + 1) (le_write_version e))) \<and>
    unat (le_write_version e) < unat (chs_floor c) + 4160 \<and>
    (unat (le_write_version e) \<le> unat from + 4096 \<longrightarrow> \<not> changes_lost c from \<and>
      chs_changes c = concat (map (\<lambda>v. map (to_change v) (H v)) (versions (from + 1) (le_write_version e))))"
proof -
  have ok: "log_ok (tree_meta d) e H" using run_ok [OF assms(1,2)] by simp
  have w: "window_ok (le_write_version e) (le_cdc_floor e) 0" using ok by (simp add: log_ok_def)
  have "le_cdc_floor e \<le> from" if "unat (le_write_version e) \<le> unat from + 4096"
    using w that by (auto simp: window_ok_def word_le_nat_alt)
  then show ?thesis using tree_log.changes_spec [OF ok assms(3)] w
    by (auto simp: changes_lost_def window_ok_def max_absorb1 not_less)
qed

lemma small_meta_storable: "length k \<le> 32 \<Longrightarrow> length v \<le> 64 \<Longrightarrow> meta_storable 4096 1 k v"
  by (auto simp: meta_storable_def meta_key_def tree_storable_def key_fits_def value_storable_def max_record_len_def
      wal_region_len_def wal_blocks_def chain_count_def overflow_payload_size_def page_consts simp del: One_nat_def)

lemma length_record_key: "length (record_key v) = 20"
proof -
  have "length (hex_digits k n) = k" for k n by (induction k arbitrary: n) auto
  then show ?thesis by (simp add: record_key_def CDC_KEY_PREFIX_def ascii_def)
qed

lemma log_fits_4096: "log_fits (meta_storable 4096 1)"
  unfolding log_fits_def
  by (intro conjI allI small_meta_storable) (simp_all add: length_record_key WRITE_VERSION_KEY_def CDC_FLOOR_KEY_def ascii_def)

definition empty_log :: "cow_btree log_engine" where
  "empty_log = \<lparr>le_storage = empty_tree, le_write_version = 0, le_cdc_floor = 0, le_pending = []\<rparr>"

lemma empty_log_run: "log_run 4096 200 1 67 empty_log (\<lambda>_. [])"
proof -
  have "store_inv 4096 200 1 67 empty_tree"
    using empty_tree_inv by (auto simp: store_inv_def room_def write_cost_def)
  moreover have "load_counters (tree_meta 200) empty_tree = Ok (0, 0)"
    using get_entries [OF empty_tree_inv(1), of 200]
    by (simp add: load_counters_def read_counter_def tree_meta_def get_meta_def empty_tree_inv del: One_nat_def)
  ultimately show ?thesis unfolding empty_log_def by (rule run_start)
qed

definition one_noted :: "cow_btree log_engine" where
  "one_noted = note_change empty_log [116] 1 Inserted"

lemma one_noted_run:
  "log_run 4096 200 1 (0 + 67) one_noted (\<lambda>_. [])" "le_pending one_noted = [([116], 1, Inserted)]" "le_write_version one_noted = 0"
  "record_fits [([116], 1, Inserted)]" "meta_storable 4096 1 (record_key 1) (cdc_encode_record [([116], 1, Inserted)])"
proof -
  show "log_run 4096 200 1 (0 + 67) one_noted (\<lambda>_. [])" using run_note [OF empty_log_run, of "[116]" 1 Inserted] by (simp add: one_noted_def)
  show "le_pending one_noted = [([116], 1, Inserted)]" "le_write_version one_noted = 0"
    by (simp_all add: one_noted_def note_change_def empty_log_def)
  show "record_fits [([116], 1, Inserted)]" by (simp add: record_fits_def encode_record_bytes USIZE_MAX_def)
  show "meta_storable 4096 1 (record_key 1) (cdc_encode_record [([116], 1, Inserted)])"
    by (rule small_meta_storable) (simp_all add: length_record_key encode_record_bytes)
qed

lemma one_change_run: "\<exists>e. log_run 4096 200 1 0 e ((\<lambda>_. [])(1 := [([116], 1, Inserted)])) \<and> le_write_version e = 1"
proof -
  have "\<exists>e'. bump_write_version (tree_meta 200) one_noted = Ok e' \<and> le_write_version e' = 1"
    using tree_log.bump_spec [of 4096 1 200 0 one_noted "\<lambda>_. []"] run_ok [OF one_noted_run(1) log_fits_4096] log_fits_4096 one_noted_run(2-)
    by auto
  then show ?thesis using run_bump [OF one_noted_run(1)] one_noted_run(2-) by auto
qed

theorem change_log_complete_witness:
  "\<exists>e c. le_write_version e = 1 \<and> changes_since (tree_meta 200) e 0 = Ok c \<and> \<not> changes_lost c 0 \<and>
     chs_changes c = [\<lparr>ch_version = 1, ch_table = [116], ch_id = 1, ch_kind = Inserted\<rparr>]"
proof -
  obtain e where e: "log_run 4096 200 1 0 e ((\<lambda>_. [])(1 := [([116], 1, Inserted)]))" "le_write_version e = 1"
    using one_change_run by blast
  have "versions 1 1 = [1]" by (simp add: versions_def)
  then show ?thesis using change_log_complete [OF e(1) log_fits_4096, of 0] e(2) by auto
qed

text \<open>
  C23: a commit of noted changes always succeeds while storage takes the writes (at most 67: the
  version, the record, a batch of expirations and the floor), raises the version by one, leaves no
  change pending and keeps every earlier retained version readable.
\<close>

theorem change_commit_proceeds:
  assumes "log_run ps d cap (n + 67) e H" "log_fits (meta_storable ps cap)" "le_pending e \<noteq> []"
    "unat (le_write_version e) + 1 < 2 ^ 64" "record_fits (le_pending e)"
    "meta_storable ps cap (record_key (le_write_version e + 1)) (cdc_encode_record (le_pending e))"
  shows "\<exists>e'. bump_write_version (tree_meta d) e = Ok e' \<and> le_write_version e' = le_write_version e + 1 \<and> le_pending e' = [] \<and>
    log_run ps d cap n e' (H(le_write_version e + 1 := le_pending e))"
  using tree_log.bump_spec [of ps cap d n e H] run_ok [OF assms(1,2)] run_bump [OF assms(1,4,5,6)] assms by auto

theorem change_commit_proceeds_witness:
  "\<exists>e'. bump_write_version (tree_meta 200) one_noted = Ok e' \<and> le_write_version e' = 1 \<and>
     log_run 4096 200 1 0 e' ((\<lambda>_. [])(1 := [([116], 1, Inserted)]))"
  using change_commit_proceeds [OF one_noted_run(1) log_fits_4096] one_noted_run(2-) by auto



end
