(* ===== verification/Mem_Storage.thy ===== *)
theory Mem_Storage
  imports Storage_Trait Change_Log
begin

text \<open>
  The in-memory backend (\<^verbatim>\<open>src/crates/inlaysql-core/src/mem/storage.rs\<close>, \<open>MemStorage\<close>): committed maps, an
  overlay of buffered writes in which a deletion is a mark, and scans that merge the two as they
  read. A \<open>BTreeMap\<close> is its sorted list of entries. The backend is an instance of the same
  interfaces as the store over the tree (\<open>batch_scan\<close>, \<open>meta_store\<close>), and the two agree on every
  sequence of row writes.
\<close>

section \<open>Ordered maps\<close>

type_synonym ('k, 'v) btm = "('k \<times> 'v) list"

fun btm_insert :: "'k::linorder \<Rightarrow> 'v \<Rightarrow> ('k, 'v) btm \<Rightarrow> ('k, 'v) btm" where
  "btm_insert k v [] = [(k, v)]"
| "btm_insert k v ((a, b) # xs) =
     (if k < a then (k, v) # (a, b) # xs else if k = a then (k, v) # xs else (a, b) # btm_insert k v xs)"

definition btm_remove :: "'k \<Rightarrow> ('k, 'v) btm \<Rightarrow> ('k, 'v) btm" where
  "btm_remove k xs = filter (\<lambda>(a, b). a \<noteq> k) xs"

definition or_default :: "'v list option \<Rightarrow> 'v list" where
  "or_default m = (case m of None \<Rightarrow> [] | Some rows \<Rightarrow> rows)"

text \<open>\<open>entry(key).or_default()\<close> followed by an update of the entry.\<close>

definition update_entry :: "'k::linorder \<Rightarrow> ('v list \<Rightarrow> 'v list) \<Rightarrow> ('k, 'v list) btm \<Rightarrow> ('k, 'v list) btm" where
  "update_entry k f m = btm_insert k (f (or_default (map_of m k))) m"

definition range_after :: "'k::linorder option \<Rightarrow> ('k, 'v) btm \<Rightarrow> ('k, 'v) btm" where
  "range_after after m = filter (\<lambda>(k, v). after_key after k) m"

section \<open>State\<close>

record mem_storage =
  ms_tables :: "(bytes, (u64 \<times> bytes) list) btm"
  ms_meta :: "(bytes, bytes) btm"
  ms_pending_rows :: "(bytes, (u64 \<times> bytes option) list) btm"
  ms_pending_meta :: "(bytes, bytes) btm"
  ms_tables_keyed :: "(bytes, (bytes \<times> bytes) list) btm"
  ms_pending_rows_keyed :: "(bytes, (bytes \<times> bytes option) list) btm"
  ms_index :: "(bytes, unit) btm"
  ms_pending_index :: "(bytes, unit option) btm"
  ms_commits :: u64

definition mem_new :: mem_storage where
  "mem_new = \<lparr>ms_tables = [], ms_meta = [], ms_pending_rows = [], ms_pending_meta = [], ms_tables_keyed = [],
     ms_pending_rows_keyed = [], ms_index = [], ms_pending_index = [], ms_commits = 0\<rparr>"

definition lower_table :: "bytes \<Rightarrow> bytes" where
  "lower_table table = (if \<exists>b \<in> set table. is_ascii_uppercase b then map to_ascii_lowercase table else table)"

section \<open>Operations\<close>

definition mem_put_row :: "mem_storage \<Rightarrow> bytes \<Rightarrow> u64 \<Rightarrow> bytes \<Rightarrow> mem_storage result" where
  "mem_put_row m table rid bytes = Ok (m\<lparr>ms_pending_rows :=
     update_entry (map to_ascii_lowercase table) (btm_insert rid (Some bytes)) (ms_pending_rows m)\<rparr>)"

definition mem_get_row :: "mem_storage \<Rightarrow> bytes \<Rightarrow> u64 \<Rightarrow> bytes option result" where
  "mem_get_row m table rid =
     (let table = lower_table table in
      case Option.bind (map_of (ms_pending_rows m) table) (\<lambda>rows. map_of rows rid) of
        Some pending \<Rightarrow> Ok pending
      | None \<Rightarrow> Ok (Option.bind (map_of (ms_tables m) table) (\<lambda>rows. map_of rows rid)))"

definition mem_delete_row :: "mem_storage \<Rightarrow> bytes \<Rightarrow> u64 \<Rightarrow> mem_storage result" where
  "mem_delete_row m table rid = Ok (m\<lparr>ms_pending_rows :=
     update_entry (map to_ascii_lowercase table) (btm_insert rid None) (ms_pending_rows m)\<rparr>)"

text \<open>
  The merge loop of the two scans: the smaller key comes next, and where both sides hold it the
  pending write is the one that counts.
\<close>

definition next_if :: "'k \<Rightarrow> ('k \<times> 'v) list \<Rightarrow> 'v option \<times> ('k \<times> 'v) list" where
  "next_if k xs = (case xs of (a, v) # rest \<Rightarrow> (if a = k then (Some v, rest) else (None, xs)) | [] \<Rightarrow> (None, []))"

definition next_key :: "('k::linorder \<times> 'v) list \<Rightarrow> ('k \<times> 'w) list \<Rightarrow> 'k option" where
  "next_key committed pending = (case (committed, pending) of
     ([], []) \<Rightarrow> None
   | ((i, _) # _, []) \<Rightarrow> Some i
   | ([], (i, _) # _) \<Rightarrow> Some i
   | ((l, _) # _, (r, _) # _) \<Rightarrow> Some (min l r))"

function merge_batch :: "nat \<Rightarrow> ('k::linorder \<times> bytes) list \<Rightarrow> ('k \<times> bytes option) list \<Rightarrow> ('k \<times> bytes) list \<Rightarrow> ('k \<times> bytes) list" where
  "merge_batch limit committed pending out =
     (if length out < limit then
        (case next_key committed pending of
           None \<Rightarrow> out
         | Some k \<Rightarrow>
             (case next_if k pending of (overlay, pending) \<Rightarrow>
               (case next_if k committed of (stored, committed) \<Rightarrow>
                 merge_batch limit committed pending
                   (case overlay of
                      Some (Some bytes) \<Rightarrow> out @ [(k, bytes)]
                    | Some None \<Rightarrow> out
                    | None \<Rightarrow> (case stored of Some bytes \<Rightarrow> out @ [(k, bytes)] | None \<Rightarrow> out)))))
      else out)"
  by pat_completeness auto
termination
  by (relation "measure (\<lambda>(_, c, p, _). length c + length p)")
    (auto simp: next_key_def next_if_def min_def split: list.splits if_splits)

definition mem_scan_batch :: "mem_storage \<Rightarrow> bytes \<Rightarrow> u64 option \<Rightarrow> nat \<Rightarrow> (u64 \<times> bytes) list result" where
  "mem_scan_batch m table after limit =
     (let table = lower_table table in
      Ok (merge_batch limit (range_after after (or_default (map_of (ms_tables m) table)))
        (range_after after (or_default (map_of (ms_pending_rows m) table))) []))"

definition mem_put_row_keyed :: "mem_storage \<Rightarrow> bytes \<Rightarrow> bytes \<Rightarrow> bytes \<Rightarrow> mem_storage result" where
  "mem_put_row_keyed m table key bytes = Ok (m\<lparr>ms_pending_rows_keyed :=
     update_entry (map to_ascii_lowercase table) (btm_insert key (Some bytes)) (ms_pending_rows_keyed m)\<rparr>)"

definition mem_get_row_keyed :: "mem_storage \<Rightarrow> bytes \<Rightarrow> bytes \<Rightarrow> bytes option result" where
  "mem_get_row_keyed m table key =
     (let table = lower_table table in
      case Option.bind (map_of (ms_pending_rows_keyed m) table) (\<lambda>rows. map_of rows key) of
        Some pending \<Rightarrow> Ok pending
      | None \<Rightarrow> Ok (Option.bind (map_of (ms_tables_keyed m) table) (\<lambda>rows. map_of rows key)))"

definition mem_delete_row_keyed :: "mem_storage \<Rightarrow> bytes \<Rightarrow> bytes \<Rightarrow> mem_storage result" where
  "mem_delete_row_keyed m table key = Ok (m\<lparr>ms_pending_rows_keyed :=
     update_entry (map to_ascii_lowercase table) (btm_insert key None) (ms_pending_rows_keyed m)\<rparr>)"

definition mem_scan_batch_keyed :: "mem_storage \<Rightarrow> bytes \<Rightarrow> bytes option \<Rightarrow> nat \<Rightarrow> (bytes \<times> bytes) list result" where
  "mem_scan_batch_keyed m table after limit =
     (let table = lower_table table in
      Ok (merge_batch limit (range_after after (or_default (map_of (ms_tables_keyed m) table)))
        (range_after after (or_default (map_of (ms_pending_rows_keyed m) table))) []))"

definition mem_put_meta :: "mem_storage \<Rightarrow> bytes \<Rightarrow> bytes \<Rightarrow> mem_storage result" where
  "mem_put_meta m key bytes = Ok (m\<lparr>ms_pending_meta := btm_insert key bytes (ms_pending_meta m)\<rparr>)"

definition mem_get_meta :: "mem_storage \<Rightarrow> bytes \<Rightarrow> bytes option result" where
  "mem_get_meta m key = (case map_of (ms_pending_meta m) key of
     Some pending \<Rightarrow> Ok (Some pending)
   | None \<Rightarrow> Ok (map_of (ms_meta m) key))"

definition mem_put_index_entry :: "mem_storage \<Rightarrow> bytes \<Rightarrow> mem_storage result" where
  "mem_put_index_entry m key = Ok (m\<lparr>ms_pending_index := btm_insert key (Some ()) (ms_pending_index m)\<rparr>)"

definition mem_delete_index_entry :: "mem_storage \<Rightarrow> bytes \<Rightarrow> mem_storage result" where
  "mem_delete_index_entry m key = Ok (m\<lparr>ms_pending_index := btm_insert key None (ms_pending_index m)\<rparr>)"

text \<open>One buffered write folded into a map: a value is stored, a mark removes the key.\<close>

definition fold_write :: "('k::linorder, 'v) btm \<Rightarrow> 'k \<times> 'v option \<Rightarrow> ('k, 'v) btm" where
  "fold_write m w = (case w of (k, Some v) \<Rightarrow> btm_insert k v m | (k, None) \<Rightarrow> btm_remove k m)"

definition mem_scan_index_range :: "mem_storage \<Rightarrow> bytes \<Rightarrow> bytes option \<Rightarrow> bytes list result" where
  "mem_scan_index_range m start en =
     (let within = (\<lambda>key. key \<ge> start \<and> (case en of None \<Rightarrow> True | Some en \<Rightarrow> key < en));
          keys = filter (\<lambda>(k, _). within k) (ms_index m)
      in Ok (map fst (foldl (\<lambda>keys (k, present). if \<not> within k then keys else fold_write keys (k, present)) keys (ms_pending_index m))))"

definition fold_table :: "(bytes, ('k::linorder \<times> 'v) list) btm \<Rightarrow> bytes \<times> ('k \<times> 'v option) list \<Rightarrow> (bytes, ('k \<times> 'v) list) btm" where
  "fold_table tables w = (case w of (table, rows) \<Rightarrow> update_entry table (\<lambda>committed. foldl fold_write committed rows) tables)"

definition mem_commit :: "mem_storage \<Rightarrow> mem_storage result" where
  "mem_commit m = Ok (m\<lparr>ms_commits := ms_commits m + 1,
     ms_index := foldl fold_write (ms_index m) (ms_pending_index m), ms_pending_index := [],
     ms_tables := foldl fold_table (ms_tables m) (ms_pending_rows m), ms_pending_rows := [],
     ms_tables_keyed := foldl fold_table (ms_tables_keyed m) (ms_pending_rows_keyed m), ms_pending_rows_keyed := [],
     ms_meta := foldl (\<lambda>meta (k, v). btm_insert k v meta) (ms_meta m) (ms_pending_meta m), ms_pending_meta := []\<rparr>)"

definition mem_rollback :: "mem_storage \<Rightarrow> mem_storage result" where
  "mem_rollback m = Ok (m\<lparr>ms_pending_rows := [], ms_pending_rows_keyed := [], ms_pending_meta := [], ms_pending_index := []\<rparr>)"

declare merge_batch.simps [simp del]

section \<open>Ordered maps behave as maps\<close>

definition btm_ok :: "('k::linorder, 'v) btm \<Rightarrow> bool" where
  "btm_ok m \<longleftrightarrow> sorted_wrt (<) (map fst m)"

lemma btm_ok_simps [simp]: "btm_ok []" "btm_ok ((k, v) # m) \<longleftrightarrow> (\<forall>(a, b) \<in> set m. k < a) \<and> btm_ok m"
  by (auto simp: btm_ok_def)

lemma insert_keys: "fst ` set (btm_insert k v m) = insert k (fst ` set m)"
  by (induction k v m rule: btm_insert.induct) auto

lemma insert_ok: "btm_ok m \<Longrightarrow> btm_ok (btm_insert k v m)"
proof (induction k v m rule: btm_insert.induct)
  case (2 k v a b xs)
  have "\<forall>x \<in> fst ` set (btm_insert k v xs). a < x" if "a < k" using 2(2) that by (auto simp: insert_keys)
  then show ?case using 2 by (fastforce split: if_splits)
qed simp

lemma remove_ok: "btm_ok m \<Longrightarrow> btm_ok (btm_remove k m)"
  by (induction m) (auto simp: btm_remove_def)

lemma insert_lookup: "btm_ok m \<Longrightarrow> map_of (btm_insert k v m) = (map_of m)(k \<mapsto> v)"
  by (induction k v m rule: btm_insert.induct) (auto simp: fun_eq_iff)

lemma remove_lookup: "map_of (btm_remove k m) = (map_of m)(k := None)"
  by (induction m) (auto simp: btm_remove_def fun_eq_iff)

lemma fold_write_ok: "btm_ok m \<Longrightarrow> btm_ok (fold_write m w)"
  by (auto simp: fold_write_def insert_ok remove_ok split: prod.splits option.splits)

lemma fold_writes_ok: "btm_ok m \<Longrightarrow> btm_ok (foldl fold_write m ws)"
  by (induction ws arbitrary: m) (auto simp: fold_write_ok)

lemma fold_write_lookup: "btm_ok m \<Longrightarrow> map_of (fold_write m (k, x)) = (map_of m)(k := x)"
  by (cases x) (auto simp: fold_write_def insert_lookup remove_lookup)

text \<open>What a reader sees through the overlay.\<close>

definition overlaid :: "('k \<Rightarrow> 'v option) \<Rightarrow> ('k \<times> 'v option) list \<Rightarrow> 'k \<Rightarrow> 'v option" where
  "overlaid com pending k = (case map_of pending k of Some x \<Rightarrow> x | None \<Rightarrow> com k)"

lemma fold_writes_lookup:
  "btm_ok m \<Longrightarrow> btm_ok ws \<Longrightarrow> map_of (foldl fold_write m ws) = overlaid (map_of m) ws"
proof (induction ws arbitrary: m)
  case (Cons w ws)
  obtain k x where w: "w = (k, x)" by (cases w)
  have "map_of ws k = None" using Cons.prems(2) w by (auto simp: map_of_eq_None_iff)
  then show ?case
    using Cons.IH [OF fold_write_ok [OF Cons.prems(1)], of w] Cons.prems w
    by (auto simp: fold_write_lookup overlaid_def fun_eq_iff split: option.splits)
qed (simp add: overlaid_def fun_eq_iff)

lemma first_key: "btm_ok ((k, v) # m) \<Longrightarrow> map_of ((k, v) # m) a = Some x \<Longrightarrow> k \<le> a"
  by (auto dest!: map_of_SomeD split: if_splits)

lemma btm_tail: "btm_ok ((k, v) # m) \<Longrightarrow> map_of m = (map_of ((k, v) # m))(k := None)"
  by (auto simp: fun_eq_iff map_of_eq_None_iff)

lemma btm_eqI: "btm_ok a \<Longrightarrow> btm_ok b \<Longrightarrow> map_of a = map_of b \<Longrightarrow> a = b"
proof (induction a arbitrary: b)
  case Nil
  then have "map_of b = Map.empty" by simp
  then show ?case by (simp only: map_of_eq_empty_iff)
next
  case (Cons x a)
  obtain k v where x: "x = (k, v)" by (cases x)
  have "map_of b k = Some v" using Cons.prems(3) x by (metis map_of_Cons_code(2))
  then obtain k' v' b' where b: "b = (k', v') # b'" by (cases b) auto
  have "map_of (x # a) k' = Some v'" using Cons.prems(3) b by (metis map_of_Cons_code(2) option.simps(3))
  then have "k \<le> k'" using first_key [of k v a k' v'] Cons.prems(1) x by blast
  moreover have "k' \<le> k" using first_key [of k' v' b' k v] Cons.prems(2) b \<open>map_of b k = Some v\<close> by blast
  ultimately have k: "k = k'" by simp
  then have "v = v'" using \<open>map_of b k = Some v\<close> b by simp
  moreover have "map_of a = map_of b'"
  proof -
    have "map_of a = (map_of (x # a))(k := None)" using btm_tail [of k v a] Cons.prems(1) x by blast
    moreover have "map_of b' = (map_of b)(k := None)" using btm_tail [of k' v' b'] Cons.prems(2) b k by blast
    ultimately show ?thesis by (simp only: Cons.prems(3))
  qed
  ultimately show ?case using Cons.IH [of b'] Cons.prems x b k by simp
qed

section \<open>The merge is the folded map\<close>

lemma fold_behind:
  "\<forall>(k, x) \<in> set ws. l < k \<Longrightarrow> foldl fold_write ((l, v) # m) ws = (l, v) # foldl fold_write m ws"
proof (induction ws arbitrary: m)
  case (Cons w ws)
  obtain k x where w: "w = (k, x)" by (cases w)
  have "fold_write ((l, v) # m) w = (l, v) # fold_write m w"
    using Cons.prems w by (cases x) (auto simp: fold_write_def btm_remove_def)
  then show ?case using Cons by simp
qed simp

lemma remove_absent: "(\<forall>(a, b) \<in> set m. k < a) \<Longrightarrow> btm_remove (k :: 'k::linorder) m = m"
  by (induction m) (auto simp: btm_remove_def)

lemma insert_front: "(\<forall>(a, b) \<in> set m. k < a) \<Longrightarrow> btm_insert k v m = (k, v) # m"
  by (cases m) auto

lemma merge_both:
  assumes "btm_ok ((l, v) # c)" "btm_ok ((r, y) # p)"
  shows "foldl fold_write ((l, v) # c) ((r, y) # p) =
    (if l < r then (l, v) # foldl fold_write c ((r, y) # p)
     else case y of Some w \<Rightarrow> (r, w) # foldl fold_write (if l = r then c else (l, v) # c) p
       | None \<Rightarrow> foldl fold_write (if l = r then c else (l, v) # c) p)"
proof (cases "l < r")
  case True
  then have "\<forall>(k, x) \<in> set ((r, y) # p). l < k" using assms(2) by auto
  from fold_behind [OF this, of v c] show ?thesis using True by simp
next
  case False
  have p: "\<forall>(k, x) \<in> set p. r < k" using assms(2) by auto
  have "btm_remove r ((l, v) # c) = (if l = r then c else (l, v) # c)"
    using assms(1) False remove_absent [of c r] by (fastforce simp: btm_remove_def not_less)
  moreover have "btm_insert r w ((l, v) # c) = (r, w) # (if l = r then c else (l, v) # c)" for w
    using assms(1) False by auto
  ultimately show ?thesis using False fold_behind [OF p] by (cases y) (auto simp: fold_write_def)
qed

lemma merge_steps:
  assumes "length out < limit"
  shows "merge_batch limit [] [] out = out"
    "merge_batch limit ((l, v) # c) [] out = merge_batch limit c [] (out @ [(l, v)])"
    "merge_batch limit [] ((r, y) # p) out = merge_batch limit [] p (case y of Some w \<Rightarrow> out @ [(r, w)] | None \<Rightarrow> out)"
    "merge_batch limit ((l, v) # c) ((r, y) # p) out =
      (if l < r then merge_batch limit c ((r, y) # p) (out @ [(l, v)])
       else merge_batch limit (if l = r then c else (l, v) # c) p (case y of Some w \<Rightarrow> out @ [(r, w)] | None \<Rightarrow> out))"
  using assms
  by (subst merge_batch.simps; auto simp: next_key_def next_if_def min_def not_less split: option.splits)+

lemma merge_spec:
  "btm_ok committed \<Longrightarrow> btm_ok pending \<Longrightarrow>
   merge_batch limit committed pending out = out @ take (limit - length out) (foldl fold_write committed pending)"
proof (induction "length committed + length pending" arbitrary: committed pending out rule: less_induct)
  case less
  show ?case
  proof (cases "length out < limit")
    case True
    then obtain n where n: "limit - length out = Suc n" "limit - Suc (length out) = n" by (metis Suc_diff_Suc)
    note step = merge_steps [OF True]
    consider "committed = []" "pending = []"
      | (left) l v c where "committed = (l, v) # c" "pending = []"
      | (right) r y p where "committed = []" "pending = (r, y) # p"
      | (both) l v c r y p where "committed = (l, v) # c" "pending = (r, y) # p"
      by (cases committed; cases pending) auto
    then show ?thesis
    proof cases
      case left
      then show ?thesis using n less.prems less.hyps [of c "[]" "out @ [(l, v)]"] by (simp add: step)
    next
      case right
      have p: "\<forall>(k, x) \<in> set p. r < k" using less.prems(2) right by auto
      show ?thesis
        using n less.prems less.hyps [of "[]" p] right fold_behind [OF p]
        by (auto simp: step fold_write_def btm_remove_def split: option.splits)
    next
      case both
      note ok = less.prems [unfolded both]
      show ?thesis
        unfolding both step merge_both [OF ok]
        using n ok both less.hyps [of c "(r, y) # p" "out @ [(l, v)]"] less.hyps [of "if l = r then c else (l, v) # c" p]
        by (auto split: option.splits)
    qed (simp add: step)
  qed (simp add: merge_batch.simps)
qed

lemma filter_insert:
  "btm_ok m \<Longrightarrow> filter (\<lambda>(a, b). P a) (btm_insert k v m) =
    (if P k then btm_insert k v (filter (\<lambda>(a, b). P a) m) else filter (\<lambda>(a, b). P a) m)"
proof (induction k v m rule: btm_insert.induct)
  case (2 k v a b xs)
  have "\<forall>(c, d) \<in> set (filter (\<lambda>(a, b). P a) xs). k < c" if "k \<le> a" using 2(2) that by fastforce
  then show ?case using 2 insert_front [of "filter (\<lambda>(a, b). P a) xs" k v] by auto
qed simp

lemma filter_fold_write:
  assumes "btm_ok m"
  shows "filter (\<lambda>(a, b). P a) (fold_write m (k, x)) =
    (if P k then fold_write (filter (\<lambda>(a, b). P a) m) (k, x) else filter (\<lambda>(a, b). P a) m)"
  using filter_insert [OF assms, of P k]
  by (cases x) (auto simp: fold_write_def btm_remove_def intro!: filter_cong)

lemma filter_fold_writes:
  "btm_ok m \<Longrightarrow> filter (\<lambda>(a, b). P a) (foldl fold_write m ws) =
    foldl fold_write (filter (\<lambda>(a, b). P a) m) (filter (\<lambda>(a, b). P a) ws)"
proof (induction ws arbitrary: m)
  case (Cons w ws)
  then show ?case using Cons.IH [OF fold_write_ok [OF Cons.prems], of w] by (cases w) (auto simp: filter_fold_write)
qed simp

section \<open>What a reader sees\<close>

definition seen :: "(bytes, ('k::linorder \<times> 'v) list) btm \<Rightarrow> (bytes, ('k \<times> 'v option) list) btm \<Rightarrow> bytes \<Rightarrow> ('k, 'v) btm" where
  "seen tables pending table = foldl fold_write (or_default (map_of tables table)) (or_default (map_of pending table))"

definition tables_ok :: "(bytes, ('k::linorder \<times> 'v) list) btm \<Rightarrow> bool" where
  "tables_ok tables \<longleftrightarrow> btm_ok tables \<and> (\<forall>(table, rows) \<in> set tables. btm_ok rows)"

definition mem_ok :: "mem_storage \<Rightarrow> bool" where
  "mem_ok m \<longleftrightarrow> tables_ok (ms_tables m) \<and> tables_ok (ms_pending_rows m) \<and> tables_ok (ms_tables_keyed m) \<and> tables_ok (ms_pending_rows_keyed m) \<and>
     btm_ok (ms_meta m) \<and> btm_ok (ms_pending_meta m) \<and> btm_ok (ms_index m) \<and> btm_ok (ms_pending_index m)"

lemma entry_ok: "tables_ok tables \<Longrightarrow> btm_ok (or_default (map_of tables table))"
  by (auto simp: tables_ok_def or_default_def dest!: map_of_SomeD split: option.splits)

lemma seen_ok: "tables_ok tables \<Longrightarrow> btm_ok (seen tables pending table)"
  by (simp add: seen_def fold_writes_ok entry_ok)

lemma seen_lookup:
  "tables_ok tables \<Longrightarrow> tables_ok pending \<Longrightarrow>
    map_of (seen tables pending table) = overlaid (map_of (or_default (map_of tables table))) (or_default (map_of pending table))"
  by (simp add: seen_def fold_writes_lookup entry_ok)

lemma update_entry_ok: "tables_ok m \<Longrightarrow> (\<And>rows. btm_ok rows \<Longrightarrow> btm_ok (f rows)) \<Longrightarrow> tables_ok (update_entry k f m)"
proof -
  have "set (btm_insert k v m) \<subseteq> insert (k, v) (set m)" for v
    by (induction k v m rule: btm_insert.induct) auto
  then show "tables_ok m \<Longrightarrow> (\<And>rows. btm_ok rows \<Longrightarrow> btm_ok (f rows)) \<Longrightarrow> tables_ok (update_entry k f m)"
    using entry_ok [of m k] by (fastforce simp: tables_ok_def update_entry_def insert_ok)
qed

lemma update_entry_lookup: "tables_ok m \<Longrightarrow> or_default (map_of (update_entry k f m) a) = (if a = k then f (or_default (map_of m k)) else or_default (map_of m a))"
  by (simp add: tables_ok_def update_entry_def insert_lookup or_default_def)

lemma lower_table_lower [simp]: "lower_table table = map to_ascii_lowercase table"
proof -
  have "map to_ascii_lowercase table = table" if "\<not> (\<exists>b \<in> set table. is_ascii_uppercase b)"
    using that by (induction table) (auto simp: to_ascii_lowercase_def)
  then show ?thesis by (simp add: lower_table_def)
qed

text \<open>A write to the overlay: the named entry changes, every other stays.\<close>

lemma seen_write:
  assumes "tables_ok tables" "tables_ok pending"
  shows "map_of (seen tables (update_entry table (btm_insert k x) pending) a) =
    (if a = table then (map_of (seen tables pending a))(k := x) else map_of (seen tables pending a))"
proof -
  have ok: "tables_ok (update_entry table (btm_insert k x) pending)" by (rule update_entry_ok [OF assms(2) insert_ok])
  show ?thesis
    unfolding seen_lookup [OF assms(1) ok] seen_lookup [OF assms] update_entry_lookup [OF assms(2)]
    using entry_ok [OF assms(2)] by (auto simp: overlaid_def insert_lookup fun_eq_iff)
qed

lemma read_overlay:
  assumes "tables_ok tables" "tables_ok pending"
  shows "(case Option.bind (map_of pending table) (\<lambda>rows. map_of rows k) of Some x \<Rightarrow> Ok x
      | None \<Rightarrow> Ok (Option.bind (map_of tables table) (\<lambda>rows. map_of rows k))) = Ok (map_of (seen tables pending table) k)"
  unfolding seen_lookup [OF assms]
  by (cases "map_of pending table"; cases "map_of tables table") (auto simp: or_default_def overlaid_def split: option.splits)

lemma range_after_ok: "btm_ok m \<Longrightarrow> btm_ok (range_after after m)"
  by (auto simp: range_after_def btm_ok_def sorted_wrt_map sorted_wrt_filter)

lemma scan_overlay:
  assumes "tables_ok tables" "tables_ok pending"
  shows "merge_batch limit (range_after after (or_default (map_of tables table))) (range_after after (or_default (map_of pending table))) [] =
    take limit (range_after after (seen tables pending table))"
proof -
  show ?thesis
    using entry_ok [OF assms(1), of table] entry_ok [OF assms(2), of table]
    by (subst merge_spec) (auto simp: range_after_ok seen_def filter_fold_writes [of _ "after_key after", folded range_after_def])
qed

text \<open>Folding the overlay: every table becomes what was seen of it.\<close>

lemma fold_table_ok: "tables_ok tables \<Longrightarrow> tables_ok (fold_table tables w)"
  by (cases w) (simp add: fold_table_def fold_writes_ok update_entry_ok)

lemma fold_tables_ok: "tables_ok tables \<Longrightarrow> tables_ok (foldl fold_table tables ws)"
  by (induction ws arbitrary: tables) (auto simp: fold_table_ok)

lemma fold_tables_lookup:
  "tables_ok tables \<Longrightarrow> btm_ok ws \<Longrightarrow> or_default (map_of (foldl fold_table tables ws) a) = seen tables ws a"
proof (induction ws arbitrary: tables)
  case Nil
  then show ?case by (simp add: seen_def or_default_def)
next
  case (Cons w ws)
  obtain table rows where w: "w = (table, rows)" by (cases w)
  have ok: "tables_ok (fold_table tables w)" by (rule fold_table_ok [OF Cons.prems(1)])
  have "map_of ws table = None" using Cons.prems(2) w by (auto simp: map_of_eq_None_iff)
  then show ?case
    using Cons.IH [OF ok] Cons.prems w
    by (auto simp: seen_def fold_table_def update_entry_lookup or_default_def [where m = None] or_default_def [where m = "Some rows"])
qed

lemma seen_nothing [simp]: "seen tables [] a = or_default (map_of tables a)"
  by (simp add: seen_def or_default_def)

section \<open>The contract: a visible and a committed state\<close>

record mem_view =
  mv_rows :: "bytes \<Rightarrow> u64 \<Rightarrow> bytes option"
  mv_keyed :: "bytes \<Rightarrow> bytes \<Rightarrow> bytes option"
  mv_meta :: "bytes \<Rightarrow> bytes option"
  mv_index :: "bytes \<Rightarrow> unit option"

definition empty_view :: mem_view where
  "empty_view = \<lparr>mv_rows = (\<lambda>_ _. None), mv_keyed = (\<lambda>_ _. None), mv_meta = (\<lambda>_. None), mv_index = (\<lambda>_. None)\<rparr>"

definition visible :: "mem_storage \<Rightarrow> mem_view" where
  "visible m = \<lparr>mv_rows = (\<lambda>a. map_of (seen (ms_tables m) (ms_pending_rows m) a)),
     mv_keyed = (\<lambda>a. map_of (seen (ms_tables_keyed m) (ms_pending_rows_keyed m) a)),
     mv_meta = (\<lambda>k. case map_of (ms_pending_meta m) k of Some v \<Rightarrow> Some v | None \<Rightarrow> map_of (ms_meta m) k),
     mv_index = overlaid (map_of (ms_index m)) (ms_pending_index m)\<rparr>"

definition committed_view :: "mem_storage \<Rightarrow> mem_view" where
  "committed_view m = \<lparr>mv_rows = (\<lambda>a. map_of (or_default (map_of (ms_tables m) a))),
     mv_keyed = (\<lambda>a. map_of (or_default (map_of (ms_tables_keyed m) a))),
     mv_meta = map_of (ms_meta m), mv_index = map_of (ms_index m)\<rparr>"

datatype mem_op =
    MPutRow bytes u64 bytes | MDeleteRow bytes u64
  | MPutKeyed bytes bytes bytes | MDeleteKeyed bytes bytes
  | MPutMeta bytes bytes | MPutIndex bytes | MDeleteIndex bytes | MCommit | MRollback

fun run_mem_op :: "mem_storage \<Rightarrow> mem_op \<Rightarrow> mem_storage result" where
  "run_mem_op m (MPutRow table rid v) = mem_put_row m table rid v"
| "run_mem_op m (MDeleteRow table rid) = mem_delete_row m table rid"
| "run_mem_op m (MPutKeyed table key v) = mem_put_row_keyed m table key v"
| "run_mem_op m (MDeleteKeyed table key) = mem_delete_row_keyed m table key"
| "run_mem_op m (MPutMeta key v) = mem_put_meta m key v"
| "run_mem_op m (MPutIndex key) = mem_put_index_entry m key"
| "run_mem_op m (MDeleteIndex key) = mem_delete_index_entry m key"
| "run_mem_op m MCommit = mem_commit m"
| "run_mem_op m MRollback = mem_rollback m"

abbreviation set_cell :: "('a \<Rightarrow> 'b \<Rightarrow> 'c) \<Rightarrow> 'a \<Rightarrow> 'b \<Rightarrow> 'c \<Rightarrow> 'a \<Rightarrow> 'b \<Rightarrow> 'c" where
  "set_cell f a b x \<equiv> f(a := (f a)(b := x))"

text \<open>The specification: writes change the visible state, a commit publishes it, a rollback returns to the published one.\<close>

fun spec_mem_op :: "mem_view \<times> mem_view \<Rightarrow> mem_op \<Rightarrow> mem_view \<times> mem_view" where
  "spec_mem_op (cur, com) (MPutRow table rid v) = (cur\<lparr>mv_rows := set_cell (mv_rows cur) (map to_ascii_lowercase table) rid (Some v)\<rparr>, com)"
| "spec_mem_op (cur, com) (MDeleteRow table rid) = (cur\<lparr>mv_rows := set_cell (mv_rows cur) (map to_ascii_lowercase table) rid None\<rparr>, com)"
| "spec_mem_op (cur, com) (MPutKeyed table key v) = (cur\<lparr>mv_keyed := set_cell (mv_keyed cur) (map to_ascii_lowercase table) key (Some v)\<rparr>, com)"
| "spec_mem_op (cur, com) (MDeleteKeyed table key) = (cur\<lparr>mv_keyed := set_cell (mv_keyed cur) (map to_ascii_lowercase table) key None\<rparr>, com)"
| "spec_mem_op (cur, com) (MPutMeta key v) = (cur\<lparr>mv_meta := (mv_meta cur)(key \<mapsto> v)\<rparr>, com)"
| "spec_mem_op (cur, com) (MPutIndex key) = (cur\<lparr>mv_index := (mv_index cur)(key \<mapsto> ())\<rparr>, com)"
| "spec_mem_op (cur, com) (MDeleteIndex key) = (cur\<lparr>mv_index := (mv_index cur)(key := None)\<rparr>, com)"
| "spec_mem_op (cur, com) MCommit = (cur, cur)"
| "spec_mem_op (cur, com) MRollback = (com, com)"

lemma fold_meta:
  "btm_ok m \<Longrightarrow> btm_ok ws \<Longrightarrow> btm_ok (foldl (\<lambda>m (k, v). btm_insert k v m) m ws) \<and>
    map_of (foldl (\<lambda>m (k, v). btm_insert k v m) m ws) = (\<lambda>k. case map_of ws k of Some v \<Rightarrow> Some v | None \<Rightarrow> map_of m k)"
proof (induction ws arbitrary: m)
  case (Cons w ws)
  obtain k v where w: "w = (k, v)" by (cases w)
  have "map_of ws k = None" using Cons.prems(2) w by (auto simp: map_of_eq_None_iff)
  then show ?case
    using Cons.IH [of "btm_insert k v m"] Cons.prems w by (auto simp: insert_ok insert_lookup fun_eq_iff split: option.splits)
qed simp

lemma run_mem_op_refines:
  assumes "mem_ok m"
  shows "\<exists>m'. run_mem_op m w = Ok m' \<and> mem_ok m' \<and> (visible m', committed_view m') = spec_mem_op (visible m, committed_view m) w"
proof (cases w)
  case MCommit
  have "mem_ok (m\<lparr>ms_commits := ms_commits m + 1,
     ms_index := foldl fold_write (ms_index m) (ms_pending_index m), ms_pending_index := [],
     ms_tables := foldl fold_table (ms_tables m) (ms_pending_rows m), ms_pending_rows := [],
     ms_tables_keyed := foldl fold_table (ms_tables_keyed m) (ms_pending_rows_keyed m), ms_pending_rows_keyed := [],
     ms_meta := foldl (\<lambda>meta (k, v). btm_insert k v meta) (ms_meta m) (ms_pending_meta m), ms_pending_meta := []\<rparr>)"
    using assms fold_meta [of "ms_meta m" "ms_pending_meta m"] by (auto simp: mem_ok_def fold_tables_ok fold_writes_ok) (simp_all add: tables_ok_def)
  then show ?thesis
    using MCommit assms fold_meta [of "ms_meta m" "ms_pending_meta m"]
    by (auto simp: mem_commit_def visible_def committed_view_def mem_ok_def fold_tables_lookup tables_ok_def fold_writes_lookup
        overlaid_def [where pending = "[]"] fun_eq_iff)
qed (use assms in \<open>auto simp: mem_ok_def mem_put_row_def mem_delete_row_def mem_put_row_keyed_def mem_delete_row_keyed_def mem_put_meta_def
    mem_put_index_entry_def mem_delete_index_entry_def mem_rollback_def visible_def committed_view_def seen_write update_entry_ok insert_ok
    insert_lookup overlaid_def fun_eq_iff tables_ok_def [where tables = "[]"] split: option.splits\<close>)

lemma run_mem_ops_refine:
  "mem_ok m \<Longrightarrow> \<exists>m'. rfold run_mem_op m ws = Ok m' \<and> mem_ok m' \<and>
     (visible m', committed_view m') = foldl spec_mem_op (visible m, committed_view m) ws"
proof (induction ws arbitrary: m)
  case (Cons w ws)
  obtain m1 where m1: "run_mem_op m w = Ok m1" "mem_ok m1" "(visible m1, committed_view m1) = spec_mem_op (visible m, committed_view m) w"
    using run_mem_op_refines [OF Cons.prems] by blast
  show ?case using Cons.IH [OF m1(2)] by (simp only: m1(1,3) rfold.simps rbind.simps foldl.simps)
qed simp

lemma mem_new_ok: "mem_ok mem_new" "visible mem_new = empty_view" "committed_view mem_new = empty_view"
  by (simp_all add: mem_ok_def mem_new_def tables_ok_def visible_def committed_view_def empty_view_def or_default_def overlaid_def fun_eq_iff)

section \<open>Reads\<close>

definition mem_rows :: "mem_storage \<Rightarrow> bytes \<Rightarrow> (u64 \<times> bytes) list" where
  "mem_rows m table = seen (ms_tables m) (ms_pending_rows m) (map to_ascii_lowercase table)"

definition mem_keyed_rows :: "mem_storage \<Rightarrow> bytes \<Rightarrow> (bytes \<times> bytes) list" where
  "mem_keyed_rows m table = seen (ms_tables_keyed m) (ms_pending_rows_keyed m) (map to_ascii_lowercase table)"

definition mem_index :: "mem_storage \<Rightarrow> (bytes, unit) btm" where
  "mem_index m = foldl fold_write (ms_index m) (ms_pending_index m)"

lemma mem_scans:
  assumes "mem_ok m"
  shows "mem_scan_batch m table after limit = Ok (take limit (range_after after (mem_rows m table)))"
    "mem_scan_batch_keyed m table key limit = Ok (take limit (range_after key (mem_keyed_rows m table)))"
    "btm_ok (mem_rows m table)" "btm_ok (mem_keyed_rows m table)"
  using assms
  by (simp_all add: mem_ok_def mem_scan_batch_def mem_scan_batch_keyed_def mem_rows_def mem_keyed_rows_def scan_overlay seen_ok Let_def)

lemma mem_reads:
  assumes "mem_ok m"
  shows "mem_get_row m table rid = Ok (mv_rows (visible m) (map to_ascii_lowercase table) rid)"
    "mem_get_row_keyed m table key = Ok (mv_keyed (visible m) (map to_ascii_lowercase table) key)"
    "mem_get_meta m k = Ok (mv_meta (visible m) k)"
    "map_of (mem_rows m table) = mv_rows (visible m) (map to_ascii_lowercase table)"
    "map_of (mem_keyed_rows m table) = mv_keyed (visible m) (map to_ascii_lowercase table)"
  using assms read_overlay [of "ms_tables m" "ms_pending_rows m"] read_overlay [of "ms_tables_keyed m" "ms_pending_rows_keyed m"]
  by (auto simp: mem_ok_def mem_get_row_def mem_get_row_keyed_def mem_get_meta_def visible_def mem_rows_def mem_keyed_rows_def Let_def split: option.splits)

lemma fold_within: "foldl (\<lambda>keys (k, x). if \<not> P k then keys else fold_write keys (k, x)) m ws = foldl fold_write m (filter (\<lambda>(a, b). P a) ws)"
  by (induction ws arbitrary: m) auto

lemma mem_index_scan:
  assumes "mem_ok m"
  shows "mem_scan_index_range m start en = Ok (map fst (filter (\<lambda>(k, _). start \<le> k \<and> (case en of None \<Rightarrow> True | Some e \<Rightarrow> k < e)) (mem_index m)))"
    "btm_ok (mem_index m)" "map_of (mem_index m) = mv_index (visible m)"
proof -
  have ok: "btm_ok (ms_index m)" "btm_ok (ms_pending_index m)" using assms by (auto simp: mem_ok_def)
  show "btm_ok (mem_index m)" using ok by (simp add: mem_index_def fold_writes_ok)
  show "map_of (mem_index m) = mv_index (visible m)" using ok by (simp add: mem_index_def visible_def fold_writes_lookup)
  let ?P = "\<lambda>k. start \<le> k \<and> (case en of None \<Rightarrow> True | Some e \<Rightarrow> k < e)"
  show "mem_scan_index_range m start en = Ok (map fst (filter (\<lambda>(k, _). ?P k) (mem_index m)))"
    unfolding mem_scan_index_range_def Let_def fold_within mem_index_def filter_fold_writes [OF ok(1), of ?P] ..
qed

section \<open>The interfaces of the storage trait\<close>

definition mem_scanner :: "bytes \<Rightarrow> (u64, mem_storage) scanner" where
  "mem_scanner table m after limit = rbind (mem_scan_batch m table after limit) (\<lambda>rows. Ok (rows, m))"

definition mem_keyed_scanner :: "bytes \<Rightarrow> (bytes, mem_storage) scanner" where
  "mem_keyed_scanner table m after limit = rbind (mem_scan_batch_keyed m table after limit) (\<lambda>rows. Ok (rows, m))"

interpretation mem_ids: batch_scan "mem_scanner table" "\<lambda>m. mem_ok m \<and> mem_rows m table = rows" rows for table rows
  by unfold_locales (auto simp: mem_scanner_def mem_scans range_after_def mem_scans(3) [unfolded btm_ok_def])

interpretation mem_keys: batch_scan "mem_keyed_scanner table" "\<lambda>m. mem_ok m \<and> mem_keyed_rows m table = rows" rows for table rows
  by unfold_locales (auto simp: mem_keyed_scanner_def mem_scans range_after_def mem_scans(4) [unfolded btm_ok_def])

definition mem_meta :: "mem_storage meta_ops" where
  "mem_meta = \<lparr>mo_put = mem_put_meta, mo_get = mem_get_meta\<rparr>"

interpretation mem_log: meta_store mem_meta "\<lambda>_ :: nat. mem_ok" "\<lambda>_ _. True"
proof
  fix n m k v
  assume "mem_ok m"
  from run_mem_op_refines [OF this, of "MPutMeta k v"] obtain m' where m': "mem_put_meta m k v = Ok m'" "mem_ok m'"
    "visible m' = (visible m)\<lparr>mv_meta := (mv_meta (visible m))(k \<mapsto> v)\<rparr>" by auto
  then show "\<exists>s'. mo_put mem_meta m k v = Ok s' \<and> mem_ok s' \<and> (\<forall>a. mo_get mem_meta s' a = (if a = k then Ok (Some v) else mo_get mem_meta m a))"
    using mem_reads(3) [OF \<open>mem_ok m\<close>] mem_reads(3) [OF m'(2)] by (auto simp: mem_meta_def m'(3))
qed auto

section \<open>The two backends\<close>

fun mem_of_row :: "row_op \<Rightarrow> mem_op" where
  "mem_of_row (PutRow table rid v) = MPutRow table rid v"
| "mem_of_row (DeleteRow table rid) = MDeleteRow table rid"

lemma mem_rows_spec:
  "(\<And>a rid. mv_rows cur a rid = T (a, rid)) \<Longrightarrow>
   mv_rows (fst (foldl spec_mem_op (cur, com) (map mem_of_row ws))) a rid = foldl spec_row_op T ws (a, rid)"
proof (induction ws arbitrary: cur T)
  case (Cons w ws)
  obtain cur' where c: "spec_mem_op (cur, com) (mem_of_row w) = (cur', com)" by (cases w) auto
  have "mv_rows cur' a rid = spec_row_op T w (a, rid)" for a rid
    using c Cons.prems by (cases w) auto
  then show ?case using Cons.IH [of cur' "spec_row_op T w"] c by simp
qed simp

lemma strip_lookup:
  "\<forall>(k, v) \<in> set es. starts_with k p \<longrightarrow> length (drop (length p) k) = 8 \<Longrightarrow>
   map_of (map (\<lambda>(k, v). (u64_from_be (drop (length p) k), v)) (filter (\<lambda>(k, v). starts_with k p) es)) rid = map_of es (p @ u64_to_be rid)"
proof (induction es)
  case (Cons e es)
  obtain k v where e: "e = (k, v)" by (cases e)
  show ?case
  proof (cases "starts_with k p")
    case True
    then obtain r where r: "k = p @ r" by (auto dest: starts_withD)
    then have "length r = 8" using Cons.prems e True by simp
    then have "u64_from_be r = rid \<longleftrightarrow> r = u64_to_be rid" by (auto simp: u64_be_codec_inv)
    then show ?thesis using Cons r e True by auto
  next
    case False
    then have "k \<noteq> p @ u64_to_be rid" by (auto simp: starts_with_def)
    then show ?thesis using Cons e False by simp
  qed
qed simp

lemma id_rows_lookup:
  assumes "row_id_table h t table"
  shows "map_of (id_rows h t table) rid = map_of (entries_of h t) (row_key table rid)"
proof -
  have "\<forall>(k, v) \<in> set (entries_of h t). starts_with k (table_prefix table) \<longrightarrow> length (drop (length (table_prefix table)) k) = 8"
    using assms unfolding row_id_table_def table_rows_def by fastforce
  from strip_lookup [OF this, of rid] show ?thesis
    by (simp add: id_rows_def table_rows_def row_key_prefix comp_def case_prod_unfold)
qed

text \<open>After row writes on an empty tree every key of a table is a row key.\<close>

lemma rows_only:
  assumes get: "\<And>k. outside_tables k \<Longrightarrow> get d t k = Ok None" and ok: "tree_ok h t" "h \<le> d" and name: "table_name table"
  shows "row_id_table h t table"
  unfolding row_id_table_def table_rows_def
proof clarsimp
  fix k v
  assume kv: "(k, v) \<in> set (entries_of h t)" "starts_with k (table_prefix table)"
  then obtain r where r: "k = map to_ascii_lowercase table @ 0 # r" by (auto simp: table_prefix_def KEY_SEPARATOR_def dest!: starts_withD)
  have "get d t k = Ok (Some v)"
    using descend_get_correct [OF tree_ok_deeper [OF ok, THEN conjunct1, unfolded tree_ok_def], of k] tree_ok_deeper [OF ok] kv(1)
      contents_sorted [OF ok(1) [unfolded tree_ok_def]]
    by (auto simp: get_def entries_of_def strict_sorted_iff intro!: map_of_is_SomeI)
  then have "\<not> outside_tables k" using get [of k] by auto
  then obtain table' rid where t': "table_name table'" "k = row_key table' rid" by (auto simp: outside_tables_def)
  have "0 \<notin> set (map to_ascii_lowercase table)" "0 \<notin> set (map to_ascii_lowercase table')"
    using name t'(1) by (auto simp: table_name_def lower_zero simp del: set_map)
  then have "r = u64_to_be rid" using r t'(2) split_at_zero by (auto simp: row_key_def KEY_SEPARATOR_def)
  then show "length k - length (table_prefix table) = 8" using r by (simp add: table_prefix_def)
qed

lemma inv_ready: "tree_inv h t \<Longrightarrow> h \<le> d \<Longrightarrow> t_page_size t < 65536 \<Longrightarrow> raw_ready h d t"
  using tree_inv_ok(1) [of h t]
  by (auto simp: raw_ready_def tree_inv_def txn_tree_def good_def begin_txn_def read_root_def)

section \<open>Properties\<close>

text \<open>
  C26: the in-memory store is a pair of states: every sequence of row, keyed row, metadata and
  index writes, commits and rollbacks succeeds; reads answer from the visible state, a commit
  publishes it and a rollback returns to the last published one.
\<close>

theorem mem_storage_refines:
  "\<exists>m. rfold run_mem_op mem_new ws = Ok m \<and>
    (visible m, committed_view m) = foldl spec_mem_op (empty_view, empty_view) ws \<and>
    (\<forall>table rid. mem_get_row m table rid = Ok (mv_rows (visible m) (map to_ascii_lowercase table) rid)) \<and>
    (\<forall>table key. mem_get_row_keyed m table key = Ok (mv_keyed (visible m) (map to_ascii_lowercase table) key)) \<and>
    (\<forall>key. mem_get_meta m key = Ok (mv_meta (visible m) key))"
proof -
  obtain m where m: "rfold run_mem_op mem_new ws = Ok m" "mem_ok m" "(visible m, committed_view m) = foldl spec_mem_op (empty_view, empty_view) ws"
    using run_mem_ops_refine [OF mem_new_ok(1), of ws] mem_new_ok by auto
  then show ?thesis using mem_reads(1,2,3) [OF m(2)] by blast
qed

text \<open>
  scans of the in-memory store merge the overlay in order: after any operations a batch is the
  first rows after the resume key of the visible rows in strictly increasing key order, a row being
  visible exactly when reading it finds it, and an index scan lists exactly the visible entries of
  the range in order.
\<close>

theorem mem_scans_exact:
  assumes "rfold run_mem_op mem_new ws = Ok m"
  shows "\<exists>rows keyed keys.
    mem_scan_batch m table after limit = Ok (take limit (filter (\<lambda>(k, v). after_key after k) rows)) \<and>
    sorted_wrt (<) (map fst rows) \<and> (\<forall>rid. mem_get_row m table rid = Ok (map_of rows rid)) \<and>
    mem_scan_batch_keyed m table key limit = Ok (take limit (filter (\<lambda>(k, v). after_key key k) keyed)) \<and>
    sorted_wrt (<) (map fst keyed) \<and> (\<forall>k. mem_get_row_keyed m table k = Ok (map_of keyed k)) \<and>
    mem_scan_index_range m start en = Ok (filter (\<lambda>k. start \<le> k \<and> (case en of None \<Rightarrow> True | Some e \<Rightarrow> k < e)) keys) \<and>
    sorted_wrt (<) keys \<and> (\<forall>k. k \<in> set keys \<longleftrightarrow> mv_index (visible m) k = Some ())"
proof -
  have ok: "mem_ok m" using run_mem_ops_refine [OF mem_new_ok(1), of ws] assms by auto
  have keys: "k \<in> set (map fst (mem_index m)) \<longleftrightarrow> mv_index (visible m) k = Some ()" for k
    using mem_index_scan(3) [OF ok] by (metis (full_types) domD domI dom_map_of_conv_image_fst list.set_map old.unit.exhaust)
  show ?thesis
    using mem_scans [OF ok] mem_reads [OF ok] mem_index_scan(1,2) [OF ok] keys
    by (intro exI [of _ "mem_rows m table"] exI [of _ "mem_keyed_rows m table"] exI [of _ "map fst (mem_index m)"])
      (simp add: range_after_def btm_ok_def filter_map comp_def case_prod_unfold)
qed

theorem mem_scans_exact_witness:
  "\<exists>m rows. rfold run_mem_op mem_new [MPutRow [116] 2 [5], MCommit, MPutRow [84] 1 [6], MDeleteRow [116] 2] = Ok m \<and>
     mem_scan_batch m [116] None 8 = Ok (take 8 (filter (\<lambda>(k, v). after_key None k) rows)) \<and>
     sorted_wrt (<) (map fst rows) \<and> map_of rows 1 = Some [6] \<and> map_of rows 2 = None"
proof -
  let ?ws = "[MPutRow [116] 2 [5], MCommit, MPutRow [84] 1 [6], MDeleteRow [116] 2]"
  obtain m where m: "rfold run_mem_op mem_new ?ws = Ok m" "mem_ok m"
    "(visible m, committed_view m) = foldl spec_mem_op (visible mem_new, committed_view mem_new) ?ws"
    using run_mem_ops_refine [OF mem_new_ok(1)] by blast
  have "visible m = fst (foldl spec_mem_op (visible mem_new, committed_view mem_new) ?ws)" by (simp only: m(3) [symmetric] fst_conv)
  then have "mem_get_row m [116] 1 = Ok (Some [6])" "mem_get_row m [116] 2 = Ok None"
    by (simp_all add: mem_reads [OF m(2)] to_ascii_lowercase_def is_ascii_uppercase_def)
  then show ?thesis using mem_scans_exact [OF m(1), of "[116]" None 8 None "[]" None] m(1) by fastforce
qed

text \<open>
  C5: the in-memory store and the store over the tree are the same store to a reader of rows: after
  the same row writes, point reads and whole-table scans of every table agree, in content and
  in order.
\<close>

theorem backends_agree:
  assumes inv: "store_inv ps d cap n t" "length ws \<le> n" "list_all (row_op_ok ps cap) ws" and empty: "\<forall>k. get d t k = Ok None" and ps: "ps < 65536"
  shows "\<exists>t' m. rfold (run_row_op d) t ws = Ok t' \<and> rfold run_mem_op mem_new (map mem_of_row ws) = Ok m \<and>
    (\<forall>table. table_name table \<longrightarrow> (\<forall>rid. mem_get_row m table rid = get_row d t' table rid) \<and>
      scan_all_rows (mem_scanner table) m = scan_all_rows (tree_scanner d gen table) (t', None))"
proof -
  have "holds_tables d t (\<lambda>_. None)" using empty by (simp add: holds_tables_def)
  from run_row_ops_refines [OF inv this] obtain t' where t': "rfold (run_row_op d) t ws = Ok t'" "store_inv ps d cap (n - length ws) t'"
    "holds_tables d t' (foldl spec_row_op (\<lambda>_. None) ws)" "\<And>k. outside_tables k \<Longrightarrow> get d t' k = Ok None" using empty by auto
  obtain m where m: "rfold run_mem_op mem_new (map mem_of_row ws) = Ok m" "mem_ok m"
    "visible m = fst (foldl spec_mem_op (empty_view, empty_view) (map mem_of_row ws))"
    using run_mem_ops_refine [OF mem_new_ok(1), of "map mem_of_row ws"] mem_new_ok(2,3) by (metis fst_conv)
  obtain h where h: "tree_inv h t'" "h \<le> d" "t_page_size t' = ps" using t'(2) by (auto simp: store_inv_def)
  have ready: "raw_ready h d t'" using inv_ready [OF h(1,2)] h(3) ps by simp
  have rows: "mv_rows (visible m) a rid = foldl spec_row_op (\<lambda>_. None) ws (a, rid)" for a rid
    unfolding m(3) by (rule mem_rows_spec) (simp add: empty_view_def)
  have get: "mem_get_row m table rid = get_row d t' table rid" if "table_name table" for table rid
    using t'(3) that by (simp add: holds_tables_def mem_reads [OF m(2)] rows)
  have "mem_rows m table = id_rows h t' table" if name: "table_name table" for table
  proof (rule btm_eqI [OF mem_scans(3) [OF m(2)]])
    have tbl: "row_id_table h t' table" using rows_only [OF t'(4) _ h(2) name] ready by (simp add: raw_ready_def)
    show "btm_ok (id_rows h t' table)" using id_rows_sorted [OF _ tbl] ready by (simp add: btm_ok_def raw_ready_def)
    have "get_row d t' table rid = Ok (map_of (id_rows h t' table) rid)" for rid
      using get_entries [OF h(1,2)] by (simp add: id_rows_lookup [OF tbl])
    then show "map_of (mem_rows m table) = map_of (id_rows h t' table)"
      using get [OF name] by (auto simp: fun_eq_iff mem_reads [OF m(2)])
  qed
  then have "scan_all_rows (mem_scanner table) m = scan_all_rows (tree_scanner d gen table) (t', None)" if "table_name table" for table
    using mem_ids.streams_see_all(1) [of m table "mem_rows m table"] m(2) that
      tree_rows.streams_see_all(1) [of h d gen table "id_rows h t' table" "(t', None)"] ready
      rows_only [OF t'(4) _ h(2) that] by (simp add: tree_scan_inv_def raw_slot_ok_def raw_ready_def)
  then show ?thesis using t'(1) m(1) get by blast
qed

theorem backends_agree_witness:
  "\<exists>t' m. rfold (run_row_op 4) empty_tree [PutRow [116] 1 [10], PutRow [84] 1 [11]] = Ok t' \<and>
     rfold run_mem_op mem_new [MPutRow [116] 1 [10], MPutRow [84] 1 [11]] = Ok m \<and>
     scan_all_rows (mem_scanner [116]) m = scan_all_rows (tree_scanner 4 None [116]) (t', None)"
proof -
  have i: "store_inv 4096 4 1 2 empty_tree"
    using empty_tree_inv by (auto simp: store_inv_def room_def write_cost_def)
  have o: "list_all (row_op_ok 4096 1) [PutRow [116] 1 [10], PutRow [84] 1 [11]]"
    by (auto simp: table_name_def row_key_def tree_storable_def key_fits_def value_storable_def max_record_len_def
        wal_region_len_def wal_blocks_def chain_count_def overflow_payload_size_def page_consts simp del: One_nat_def)
  have h: "\<forall>k. get 4 empty_tree k = Ok None"
    using get_entries [OF empty_tree_inv(1), of 4] by (simp add: empty_tree_inv del: One_nat_def)
  have "table_name [116]" by (simp add: table_name_def)
  then show ?thesis using backends_agree [OF i _ o h, of None] by auto
qed

end
