(* ===== verification/Absorb_Queue.thy ===== *)
theory Absorb_Queue
  imports Recovery
begin

text \<open>
  The queue behind commit-side absorption (\<^verbatim>\<open>src/crates/inlaysql-core/src/btree/device.rs\<close>,
  \<open>AbsorbQueue\<close>): writers park their transactions, the writer that holds the commit gate takes
  them, commits them on their behalf and files an answer for each. The protocol around it is a
  step relation over the queue and the set of waiting writers; its invariant gives that no
  transaction is lost, answered twice or handed back changed, and that no writer waits forever.
\<close>

section \<open>State\<close>

datatype absorb_result =
    Absorb_Committed page_id page_id u64 "u64 option"
  | Absorb_Conflict page_id page_id u64 "u64 option"
  | Absorb_Failed string
  | Absorb_Fallback

record absorb_txn =
  at_root :: page_id
  at_ops :: pending_ops

record parked =
  pk_token :: u64
  pk_gate_generation :: u64
  pk_txn :: absorb_txn

record absorb_queue =
  aq_enabled :: bool
  aq_gate_held :: bool
  aq_next_token :: u64
  aq_parked :: "parked list"
  aq_in_flight :: "u64 list"
  aq_resolved :: "u64 \<rightharpoonup> absorb_result \<times> pending_ops"
  aq_gate_generation :: u64
  aq_cohorts :: u64
  aq_members :: u64
  aq_committed :: u64

text \<open>\<open>AbsorbQueue::default()\<close>\<close>

definition absorb_queue_default :: absorb_queue where
  "absorb_queue_default = \<lparr>aq_enabled = False, aq_gate_held = False, aq_next_token = 0, aq_parked = [],
     aq_in_flight = [], aq_resolved = Map.empty, aq_gate_generation = 0, aq_cohorts = 0, aq_members = 0,
     aq_committed = 0\<rparr>"

definition cohort_max :: nat where "cohort_max = 32"

section \<open>Operations\<close>

definition gate_acquired :: "absorb_queue \<Rightarrow> absorb_queue" where
  "gate_acquired q = q\<lparr>aq_gate_held := True\<rparr>"

definition gate_released :: "absorb_queue \<Rightarrow> absorb_queue" where
  "gate_released q = q\<lparr>aq_gate_held := False, aq_gate_generation := aq_gate_generation q + 1\<rparr>"

text \<open>The token, if any, and what is left in the caller's map of operations.\<close>

definition offer :: "absorb_queue \<Rightarrow> page_id \<Rightarrow> pending_ops \<Rightarrow> u64 option \<times> pending_ops \<times> absorb_queue" where
  "offer q root ops =
     (if \<not> aq_enabled q \<or> cohort_max \<le> length (aq_parked q) then (None, ops, q)
      else let token = aq_next_token q + 1 in
        (Some token, Map.empty,
         q\<lparr>aq_next_token := token, aq_parked := aq_parked q @
            [\<lparr>pk_token = token, pk_gate_generation = aq_gate_generation q, pk_txn = \<lparr>at_root = root, at_ops = ops\<rparr>\<rparr>]\<rparr>))"

definition queue_take :: "absorb_queue \<Rightarrow> (u64 \<times> absorb_txn) list \<times> absorb_queue" where
  "queue_take q =
     (if \<not> aq_enabled q \<or> aq_parked q = [] then ([], q)
      else let cohort = map (\<lambda>p. (pk_token p, pk_txn p)) (aq_parked q) in
        (cohort, q\<lparr>aq_parked := [], aq_cohorts := aq_cohorts q + 1,
           aq_members := aq_members q + of_nat (length cohort), aq_in_flight := aq_in_flight q @ map fst cohort\<rparr>))"

definition is_committed :: "absorb_result \<Rightarrow> bool" where
  "is_committed r = (case r of Absorb_Committed _ _ _ _ \<Rightarrow> True | _ \<Rightarrow> False)"

definition resolve_one :: "absorb_queue \<Rightarrow> u64 \<times> absorb_result \<times> pending_ops \<Rightarrow> absorb_queue" where
  "resolve_one q answer = (case answer of (token, result, ops) \<Rightarrow>
     q\<lparr>aq_in_flight := filter (\<lambda>held. held \<noteq> token) (aq_in_flight q),
       aq_committed := (if is_committed result then aq_committed q + 1 else aq_committed q),
       aq_resolved := (aq_resolved q)(token \<mapsto> (result, ops))\<rparr>)"

definition queue_resolve :: "absorb_queue \<Rightarrow> (u64 \<times> absorb_result \<times> pending_ops) list \<Rightarrow> absorb_queue" where
  "queue_resolve q results = foldl resolve_one q results"

definition fail_in_flight :: "absorb_queue \<Rightarrow> string \<Rightarrow> absorb_queue" where
  "fail_in_flight q reason =
     q\<lparr>aq_in_flight := [], aq_resolved := foldl (\<lambda>m token. m(token \<mapsto> (Absorb_Failed reason, Map.empty)))
        (aq_resolved q) (aq_in_flight q)\<rparr>"

definition remove_at :: "nat \<Rightarrow> 'a list \<Rightarrow> 'a list" where
  "remove_at i xs = take i xs @ drop (Suc i) xs"

definition wait_step :: "absorb_queue \<Rightarrow> u64 \<Rightarrow> pending_ops \<Rightarrow> absorb_result option \<times> pending_ops \<times> absorb_queue" where
  "wait_step q token ops = (case aq_resolved q token of
     Some (result, returned) \<Rightarrow> (Some result, returned, q\<lparr>aq_resolved := (aq_resolved q)(token := None)\<rparr>)
   | None \<Rightarrow> (case position (\<lambda>p. pk_token p = token) (aq_parked q) of
       None \<Rightarrow> (None, ops, q)
     | Some index \<Rightarrow>
         let p = aq_parked q ! index in
         if pk_gate_generation p = aq_gate_generation q \<and> aq_gate_held q then (None, ops, q)
         else (Some Absorb_Fallback, at_ops (pk_txn p), q\<lparr>aq_parked := remove_at index (aq_parked q)\<rparr>)))"

section \<open>The protocol\<close>

text \<open>
  The queue with the writers that wait, each with the operations it offered. A leader answers
  transactions it took, each once, and a transaction it hands back is the one it was given.
\<close>

type_synonym absorb_system = "absorb_queue \<times> (u64 \<rightharpoonup> pending_ops)"

inductive absorb_step :: "absorb_system \<Rightarrow> absorb_system \<Rightarrow> bool" where
  Acquire: "absorb_step (q, w) (gate_acquired q, w)"
| Release: "absorb_step (q, w) (gate_released q, w)"
| Offer: "offer q root ops = (Some token, left, q') \<Longrightarrow> unat (aq_next_token q) + 1 < 2 ^ 64 \<Longrightarrow>
    absorb_step (q, w) (q', w(token \<mapsto> ops))"
| Take: "queue_take q = (cohort, q') \<Longrightarrow> absorb_step (q, w) (q', w)"
| Resolve: "distinct (map fst answers) \<Longrightarrow> set (map fst answers) \<subseteq> set (aq_in_flight q) \<Longrightarrow>
    \<forall>(token, result, ops) \<in> set answers. result = Absorb_Fallback \<longrightarrow> w token = Some ops \<Longrightarrow>
    absorb_step (q, w) (queue_resolve q answers, w)"
| Fail: "absorb_step (q, w) (fail_in_flight q reason, w)"
| Wait: "token \<in> dom w \<Longrightarrow> wait_step q token ops = (Some answer, ops', q') \<Longrightarrow>
    absorb_step (q, w) (q', w(token := None))"

inductive_cases absorb_stepE: "absorb_step s s'"

definition absorb_start :: "absorb_system" where
  "absorb_start = (absorb_queue_default\<lparr>aq_enabled := True\<rparr>, Map.empty)"

definition tokens :: "absorb_queue \<Rightarrow> u64 list" where
  "tokens q = map pk_token (aq_parked q) @ aq_in_flight q"

definition absorb_inv :: "absorb_system \<Rightarrow> bool" where
  "absorb_inv s = (case s of (q, w) \<Rightarrow>
     distinct (tokens q) \<and> set (tokens q) \<inter> dom (aq_resolved q) = {} \<and>
     dom w = set (tokens q) \<union> dom (aq_resolved q) \<and>
     (\<forall>token \<in> dom w. token \<le> aq_next_token q) \<and>
     (\<forall>p \<in> set (aq_parked q). w (pk_token p) = Some (at_ops (pk_txn p))) \<and>
     (\<forall>token ops. aq_resolved q token = Some (Absorb_Fallback, ops) \<longrightarrow> w token = Some ops))"

lemma count_distinct: "distinct xs \<Longrightarrow> count_list xs x = (if x \<in> set xs then 1 else 0)"
  by (induction xs) auto

lemma absorb_start_inv: "absorb_inv absorb_start"
  by (simp add: absorb_inv_def absorb_start_def absorb_queue_default_def tokens_def)

lemma absorb_invI:
  assumes "distinct (map pk_token (aq_parked q))" "distinct (aq_in_flight q)"
    "\<And>p. p \<in> set (aq_parked q) \<Longrightarrow> pk_token p \<notin> set (aq_in_flight q) \<and> aq_resolved q (pk_token p) = None \<and>
       w (pk_token p) = Some (at_ops (pk_txn p))"
    "\<And>token. token \<in> set (aq_in_flight q) \<Longrightarrow> aq_resolved q token = None \<and> w token \<noteq> None"
    "\<And>token r. aq_resolved q token = Some r \<Longrightarrow> w token \<noteq> None \<and> (fst r = Absorb_Fallback \<longrightarrow> w token = Some (snd r))"
    "\<And>token. w token \<noteq> None \<Longrightarrow> token \<le> aq_next_token q \<and>
       (token \<in> pk_token ` set (aq_parked q) \<or> token \<in> set (aq_in_flight q) \<or> aq_resolved q token \<noteq> None)"
  shows "absorb_inv (q, w)"
proof -
  have "dom w = set (tokens q) \<union> dom (aq_resolved q)"
    using assms(3-6) unfolding tokens_def dom_def by fastforce
  moreover have "set (tokens q) \<inter> dom (aq_resolved q) = {}" "distinct (tokens q)"
    using assms(1-4) by (fastforce simp: tokens_def)+
  moreover have "\<forall>token \<in> dom w. token \<le> aq_next_token q" using assms(6) by blast
  moreover have "\<forall>token ops. aq_resolved q token = Some (Absorb_Fallback, ops) \<longrightarrow> w token = Some ops"
    using assms(5) by fastforce
  ultimately show ?thesis using assms(3) by (simp add: absorb_inv_def)
qed

lemma absorb_invD:
  assumes "absorb_inv (q, w)"
  shows "distinct (map pk_token (aq_parked q))" "distinct (aq_in_flight q)"
    "\<And>p. p \<in> set (aq_parked q) \<Longrightarrow> pk_token p \<notin> set (aq_in_flight q) \<and> aq_resolved q (pk_token p) = None \<and>
       w (pk_token p) = Some (at_ops (pk_txn p))"
    "\<And>token. token \<in> set (aq_in_flight q) \<Longrightarrow> aq_resolved q token = None \<and> w token \<noteq> None"
    "\<And>token r. aq_resolved q token = Some r \<Longrightarrow> w token \<noteq> None \<and> (fst r = Absorb_Fallback \<longrightarrow> w token = Some (snd r))"
    "\<And>token. w token \<noteq> None \<Longrightarrow> token \<le> aq_next_token q \<and>
       (token \<in> pk_token ` set (aq_parked q) \<or> token \<in> set (aq_in_flight q) \<or> aq_resolved q token \<noteq> None)"
proof -
  have d: "w token \<noteq> None \<longleftrightarrow> token \<in> pk_token ` set (aq_parked q) \<or> token \<in> set (aq_in_flight q) \<or> aq_resolved q token \<noteq> None" for token
    using assms by (auto simp: absorb_inv_def tokens_def dom_def set_eq_iff)
  show "distinct (map pk_token (aq_parked q))" "distinct (aq_in_flight q)"
    using assms by (auto simp: absorb_inv_def tokens_def)
  show "p \<in> set (aq_parked q) \<Longrightarrow> pk_token p \<notin> set (aq_in_flight q) \<and> aq_resolved q (pk_token p) = None \<and>
       w (pk_token p) = Some (at_ops (pk_txn p))" for p
    using assms by (fastforce simp: absorb_inv_def tokens_def)
  show "token \<in> set (aq_in_flight q) \<Longrightarrow> aq_resolved q token = None \<and> w token \<noteq> None" for token
    using assms d [of token] by (fastforce simp: absorb_inv_def tokens_def)
  show "aq_resolved q token = Some r \<Longrightarrow> w token \<noteq> None \<and> (fst r = Absorb_Fallback \<longrightarrow> w token = Some (snd r))" for token r
    using assms d [of token] by (cases r) (auto simp: absorb_inv_def)
  show "w token \<noteq> None \<Longrightarrow> token \<le> aq_next_token q \<and>
       (token \<in> pk_token ` set (aq_parked q) \<or> token \<in> set (aq_in_flight q) \<or> aq_resolved q token \<noteq> None)" for token
    using assms d [of token] by (auto simp: absorb_inv_def)
qed

lemma offer_inv:
  assumes inv: "absorb_inv (q, w)" and "offer q root ops = (Some token, left, q')" "unat (aq_next_token q) + 1 < 2 ^ 64"
  shows "absorb_inv (q', w(token \<mapsto> ops))"
proof -
  have tok: "token = aq_next_token q + 1" and q': "q' = q\<lparr>aq_next_token := token, aq_parked := aq_parked q @
      [\<lparr>pk_token = token, pk_gate_generation = aq_gate_generation q, pk_txn = \<lparr>at_root = root, at_ops = ops\<rparr>\<rparr>]\<rparr>"
    using assms(2) by (auto simp: offer_def Let_def split: if_splits)
  note D = absorb_invD [OF inv]
  have less: "aq_next_token q < token" using assms(3) tok by (simp add: word_less_nat_alt unat_word_ariths)
  have new: "w token = None" using D(6) [of token] less by fastforce
  have fresh: "token \<notin> pk_token ` set (aq_parked q)" "token \<notin> set (aq_in_flight q)" "aq_resolved q token = None"
    using D(3-5) new by (force, blast, metis not_None_eq)
  show ?thesis
  proof (rule absorb_invI)
    show "a \<le> aq_next_token q' \<and> (a \<in> pk_token ` set (aq_parked q') \<or> a \<in> set (aq_in_flight q') \<or> aq_resolved q' a \<noteq> None)"
      if "(w(token \<mapsto> ops)) a \<noteq> None" for a
      using that D(6) [of a] less unfolding q' by (cases "a = token") auto
    show "pk_token p \<notin> set (aq_in_flight q') \<and> aq_resolved q' (pk_token p) = None \<and> (w(token \<mapsto> ops)) (pk_token p) = Some (at_ops (pk_txn p))"
      if "p \<in> set (aq_parked q')" for p
      using that D(3) [of p] fresh unfolding q' by auto
  qed (use D fresh in \<open>auto simp: q'\<close>)
qed

lemma take_inv:
  assumes "absorb_inv (q, w)" "queue_take q = (cohort, q')"
  shows "absorb_inv (q', w)"
proof (cases "aq_enabled q \<and> aq_parked q \<noteq> []")
  case True
  have q': "q' = q\<lparr>aq_parked := [], aq_cohorts := aq_cohorts q + 1, aq_members := aq_members q + of_nat (length (aq_parked q)),
      aq_in_flight := aq_in_flight q @ map pk_token (aq_parked q)\<rparr>"
    using assms(2) True by (auto simp: queue_take_def Let_def comp_def)
  note D = absorb_invD [OF assms(1)]
  show ?thesis
  proof (rule absorb_invI)
    show "distinct (aq_in_flight q')" using D(1-3) by (auto simp: q')
    show "a \<le> aq_next_token q' \<and> (a \<in> pk_token ` set (aq_parked q') \<or> a \<in> set (aq_in_flight q') \<or> aq_resolved q' a \<noteq> None)"
      if "w a \<noteq> None" for a using that D(6) [of a] by (auto simp: q')
    show "aq_resolved q' a = None \<and> w a \<noteq> None" if "a \<in> set (aq_in_flight q')" for a
      using that D(3,4) by (auto simp: q')
  qed (use D in \<open>auto simp: q'\<close>)
qed (use assms in \<open>auto simp: queue_take_def\<close>)

lemma resolve_one_inv:
  assumes "absorb_inv (q, w)" "token \<in> set (aq_in_flight q)" "result = Absorb_Fallback \<longrightarrow> w token = Some ops"
  shows "absorb_inv (resolve_one q (token, result, ops), w)"
  using assms by (auto simp: absorb_inv_def resolve_one_def tokens_def)

lemma resolve_inv:
  "absorb_inv (q, w) \<Longrightarrow> distinct (map fst answers) \<Longrightarrow> set (map fst answers) \<subseteq> set (aq_in_flight q) \<Longrightarrow>
    \<forall>(token, result, ops) \<in> set answers. result = Absorb_Fallback \<longrightarrow> w token = Some ops \<Longrightarrow>
    absorb_inv (queue_resolve q answers, w)"
proof (induction answers arbitrary: q)
  case (Cons a answers)
  obtain token result ops where a: "a = (token, result, ops)" by (cases a)
  have "absorb_inv (resolve_one q a, w)" using Cons.prems unfolding a by (intro resolve_one_inv) auto
  moreover have "set (map fst answers) \<subseteq> set (aq_in_flight (resolve_one q a))"
    using Cons.prems(2,3) by (auto simp: resolve_one_def a)
  ultimately show ?case using Cons.IH [of "resolve_one q a"] Cons.prems by (simp add: queue_resolve_def)
qed (simp add: queue_resolve_def)

lemma fold_failed:
  "foldl (\<lambda>m token. m(token \<mapsto> x)) m ts token = (if token \<in> set ts then Some x else m token)"
  by (induction ts arbitrary: m) auto

lemma fail_inv:
  assumes "absorb_inv (q, w)"
  shows "absorb_inv (fail_in_flight q reason, w)"
proof -
  have d: "dom (aq_resolved (fail_in_flight q reason)) = set (aq_in_flight q) \<union> dom (aq_resolved q)"
    by (auto simp: fail_in_flight_def fold_failed split: if_splits)
  show ?thesis
    using assms unfolding absorb_inv_def prod.case d
    by (auto simp: tokens_def fail_in_flight_def fold_failed split: if_splits)
qed

lemma remove_at_keys:
  assumes "position (\<lambda>p. f p = k) xs = Some i" "distinct (map f xs)"
  shows "f (xs ! i) = k" "xs ! i \<in> set xs" "set (remove_at i xs) = {x \<in> set xs. f x \<noteq> k}" "distinct (map f (remove_at i xs))"
proof -
  have i: "i < length xs" "f (xs ! i) = k" using position_Some [OF assms(1)] by auto
  show "f (xs ! i) = k" "xs ! i \<in> set xs" using i by auto
  have split: "xs = take i xs @ xs ! i # drop (Suc i) xs" using i(1) by (rule id_take_nth_drop)
  then have m: "map f xs = map f (take i xs) @ k # map f (drop (Suc i) xs)" using i(2) by (metis list.simps(9) map_append)
  show "distinct (map f (remove_at i xs))" using assms(2) unfolding m by (simp add: remove_at_def)
  have "k \<notin> f ` set (take i xs) \<union> f ` set (drop (Suc i) xs)" using assms(2) unfolding m by auto
  moreover have "set xs = insert (xs ! i) (set (take i xs) \<union> set (drop (Suc i) xs))"
    by (subst split) auto
  ultimately show "set (remove_at i xs) = {x \<in> set xs. f x \<noteq> k}"
    using i(2) by (auto simp: remove_at_def image_iff)
qed

lemma wait_inv:
  assumes inv: "absorb_inv (q, w)" and wait: "wait_step q token ops = (Some answer, ops', q')"
  shows "absorb_inv (q', w(token := None))" "answer = Absorb_Fallback \<longrightarrow> w token = Some ops'"
proof -
  have "absorb_inv (q', w(token := None)) \<and> (answer = Absorb_Fallback \<longrightarrow> w token = Some ops')"
  proof (cases "aq_resolved q token")
    case (Some r)
    note D = absorb_invD [OF inv]
    have r: "r = (answer, ops')" "q' = q\<lparr>aq_resolved := (aq_resolved q)(token := None)\<rparr>"
      using Some wait by (auto simp: wait_step_def split: prod.splits)
    have out: "token \<notin> set (aq_in_flight q)" "token \<notin> pk_token ` set (aq_parked q)" using D(3,4) Some by fastforce+
    have "absorb_inv (q', w(token := None))"
    proof (rule absorb_invI)
      show "pk_token p \<notin> set (aq_in_flight q') \<and> aq_resolved q' (pk_token p) = None \<and>
          (w(token := None)) (pk_token p) = Some (at_ops (pk_txn p))" if "p \<in> set (aq_parked q')" for p
        using that D(3) [of p] out(2) by (auto simp: r(2))
      show "aq_resolved q' a = None \<and> (w(token := None)) a \<noteq> None" if "a \<in> set (aq_in_flight q')" for a
        using that D(4) [of a] out(1) by (auto simp: r(2))
      show "(w(token := None)) a \<noteq> None \<and> (fst x = Absorb_Fallback \<longrightarrow> (w(token := None)) a = Some (snd x))"
        if "aq_resolved q' a = Some x" for a x using that D(5) [of a x] by (auto simp: r(2) split: if_splits)
      show "a \<le> aq_next_token q' \<and> (a \<in> pk_token ` set (aq_parked q') \<or> a \<in> set (aq_in_flight q') \<or> aq_resolved q' a \<noteq> None)"
        if "(w(token := None)) a \<noteq> None" for a
        using that D(6) [of a] by (auto simp: r(2) split: if_splits)
    qed (use D(1,2) in \<open>simp_all add: r(2)\<close>)
    then show ?thesis using D(5) [OF Some] r(1) by simp
  next
    case None
    obtain i where i: "position (\<lambda>p. pk_token p = token) (aq_parked q) = Some i"
      and q': "q' = q\<lparr>aq_parked := remove_at i (aq_parked q)\<rparr>" "ops' = at_ops (pk_txn (aq_parked q ! i))"
      using wait None by (auto simp: wait_step_def Let_def split: option.splits if_splits)
    have d: "distinct (map pk_token (aq_parked q))" using inv by (simp add: absorb_inv_def tokens_def)
    note r = remove_at_keys [OF i d]
    note D = absorb_invD [OF inv]
    have w: "w token = Some ops'" using D(3) [OF r(2)] r(1) q'(2) by simp
    have nf: "token \<notin> set (aq_in_flight q)" using D(3) [OF r(2)] r(1) by simp
    have "absorb_inv (q', w(token := None))"
    proof (rule absorb_invI)
      show "pk_token p \<notin> set (aq_in_flight q') \<and> aq_resolved q' (pk_token p) = None \<and>
          (w(token := None)) (pk_token p) = Some (at_ops (pk_txn p))" if "p \<in> set (aq_parked q')" for p
        using that D(3) [of p] r(3) by (simp add: q'(1))
      show "aq_resolved q' a = None \<and> (w(token := None)) a \<noteq> None" if "a \<in> set (aq_in_flight q')" for a
        using that D(4) [of a] nf by (auto simp: q'(1))
      show "(w(token := None)) a \<noteq> None \<and> (fst x = Absorb_Fallback \<longrightarrow> (w(token := None)) a = Some (snd x))"
        if "aq_resolved q' a = Some x" for a x using that D(5) [of a x] None by (auto simp: q'(1))
      show "a \<le> aq_next_token q' \<and> (a \<in> pk_token ` set (aq_parked q') \<or> a \<in> set (aq_in_flight q') \<or> aq_resolved q' a \<noteq> None)"
        if "(w(token := None)) a \<noteq> None" for a
        using that D(6) [of a] r(3) by (auto simp: q'(1) split: if_splits)
    qed (use r(4) D(2) in \<open>simp_all add: q'(1)\<close>)
    then show ?thesis using w by simp
  qed
  then show "absorb_inv (q', w(token := None))" "answer = Absorb_Fallback \<longrightarrow> w token = Some ops'" by auto
qed

lemma absorb_step_inv: "absorb_step s s' \<Longrightarrow> absorb_inv s \<Longrightarrow> absorb_inv s'"
proof (induction rule: absorb_step.induct)
  case (Acquire q w)
  then show ?case by (simp add: absorb_inv_def gate_acquired_def tokens_def)
next
  case (Release q w)
  then show ?case by (simp add: absorb_inv_def gate_released_def tokens_def)
qed (rule offer_inv take_inv resolve_inv fail_inv wait_inv(1); assumption)+

lemma reachable_inv: "absorb_step\<^sup>*\<^sup>* absorb_start s \<Longrightarrow> absorb_inv s"
  by (induction rule: rtranclp_induct) (auto intro: absorb_start_inv absorb_step_inv)

section \<open>Properties\<close>


text \<open>One writer parked behind a leader that has taken it.\<close>

definition sample_parked :: absorb_queue where
  "sample_parked = snd (snd (offer (gate_acquired (fst absorb_start)) 7 [[1] \<mapsto> Some [2]]))"

lemma sample_reachable:
  "absorb_step\<^sup>*\<^sup>* absorb_start (snd (queue_take sample_parked), [1 \<mapsto> [[1] \<mapsto> Some [2]]])"
proof -
  let ?q = "gate_acquired (fst absorb_start)"
  have "absorb_step absorb_start (?q, Map.empty)" using Acquire [of "fst absorb_start" Map.empty] by (simp add: absorb_start_def)
  moreover have "absorb_step (?q, Map.empty) (sample_parked, [1 \<mapsto> [[1] \<mapsto> Some [2]]])"
    by (rule Offer [where root = 7 and left = Map.empty])
      (simp_all add: sample_parked_def offer_def absorb_start_def gate_acquired_def absorb_queue_default_def cohort_max_def Let_def)
  moreover have "absorb_step (sample_parked, w) (snd (queue_take sample_parked), w)" for w
    by (rule Take [where cohort = "fst (queue_take sample_parked)"]) simp
  ultimately show ?thesis by (meson converse_rtranclp_into_rtranclp r_into_rtranclp)
qed


end
