(* ===== verification/Commit.thy ===== *)
theory Commit
  imports Absorb_Queue Tree_Store Sim_Disk
begin

text \<open>
  The commit protocol of the tree (\<^verbatim>\<open>src/crates/inlaysql-core/src/btree/tree.rs\<close>, \<open>CowBTree\<close>, over the
  trait \<open>Device\<close> of \<^verbatim>\<open>btree/device.rs\<close>): creating and opening a file, rebasing a transaction onto the
  committed state, the free-list rows, encoding and writing the dirty pages and the record, region
  wrap, the cohort a leader commits on behalf of parked writers, checkpoint and refresh.

  A device is a record of its operations over a state. A run of an operation is its result with the
  device it leaves; a handle is only returned with a successful result, because the callers of a
  failed commit discard the transaction. Phase marks and buffer capacities have no effect on either
  and are left out, as are the caches, which hold what a read returns.
\<close>

section \<open>The device\<close>

record 'd device_ops =
  dv_read :: "'d \<Rightarrow> nat \<Rightarrow> nat \<Rightarrow> bytes result"
  dv_write :: "'d \<Rightarrow> nat \<Rightarrow> bytes \<Rightarrow> unit result \<times> 'd"
  dv_sync :: "'d \<Rightarrow> unit result \<times> 'd"
  dv_commit_ready :: "'d \<Rightarrow> 'd"
  dv_sync_commit :: "'d \<Rightarrow> unit result \<times> 'd"
  dv_begin_commit :: "'d \<Rightarrow> unit result \<times> 'd"
  dv_begin_normal_commit :: "'d \<Rightarrow> unit result \<times> 'd"
  dv_end_commit :: "'d \<Rightarrow> u64 option \<times> 'd"
  dv_end_normal_commit :: "'d \<Rightarrow> u64 option \<times> 'd"
  dv_commit_generation :: "'d \<Rightarrow> u64 option"
  dv_commit_point :: "'d \<Rightarrow> nat \<Rightarrow> commit_point option"
  dv_set_commit_point :: "'d \<Rightarrow> nat \<Rightarrow> commit_point option \<Rightarrow> 'd"
  dv_forget_append_offset :: "'d \<Rightarrow> nat \<Rightarrow> 'd"
  dv_create_format_version :: "'d \<Rightarrow> u32"
  dv_wal_region :: "'d \<Rightarrow> nat"
  dv_is_read_only :: "'d \<Rightarrow> bool"
  dv_register_reader :: "'d \<Rightarrow> u64 option \<times> 'd"
  dv_update_reader :: "'d \<Rightarrow> u64 \<Rightarrow> u64 \<Rightarrow> 'd"
  dv_min_reader_seq :: "'d \<Rightarrow> u64 option"
  dv_absorb_offer :: "'d \<Rightarrow> page_id \<Rightarrow> pending_ops \<Rightarrow> u64 option \<times> pending_ops \<times> 'd"
  dv_absorb_wait :: "'d \<Rightarrow> u64 \<Rightarrow> pending_ops \<Rightarrow> absorb_result \<times> pending_ops \<times> 'd"
  dv_absorb_take :: "'d \<Rightarrow> (u64 \<times> absorb_txn) list \<times> 'd"
  dv_absorb_resolve :: "'d \<Rightarrow> (u64 \<times> absorb_result \<times> pending_ops) list \<Rightarrow> 'd"

text \<open>The trait's default methods around the three a device must supply.\<close>

definition default_device ::
  "('d \<Rightarrow> nat \<Rightarrow> nat \<Rightarrow> bytes result) \<Rightarrow> ('d \<Rightarrow> nat \<Rightarrow> bytes \<Rightarrow> unit result \<times> 'd) \<Rightarrow> ('d \<Rightarrow> unit result \<times> 'd) \<Rightarrow> 'd device_ops" where
  "default_device rd wr sy = \<lparr>dv_read = rd, dv_write = wr, dv_sync = sy, dv_commit_ready = (\<lambda>d. d), dv_sync_commit = sy,
     dv_begin_commit = (\<lambda>d. (Ok (), d)), dv_begin_normal_commit = (\<lambda>d. (Ok (), d)), dv_end_commit = (\<lambda>d. (None, d)),
     dv_end_normal_commit = (\<lambda>d. (None, d)), dv_commit_generation = (\<lambda>_. None), dv_commit_point = (\<lambda>_ _. None),
     dv_set_commit_point = (\<lambda>d _ _. d), dv_forget_append_offset = (\<lambda>d _. d), dv_create_format_version = (\<lambda>_. format_version),
     dv_wal_region = (\<lambda>_. 0), dv_is_read_only = (\<lambda>_. False), dv_register_reader = (\<lambda>d. (None, d)),
     dv_update_reader = (\<lambda>d _ _. d), dv_min_reader_seq = (\<lambda>_. None), dv_absorb_offer = (\<lambda>d _ ops. (None, ops, d)),
     dv_absorb_wait = (\<lambda>d _ ops. (Absorb_Fallback, ops, d)), dv_absorb_take = (\<lambda>d. ([], d)), dv_absorb_resolve = (\<lambda>d _. d)\<rparr>"

text \<open>\<open>impl Device for SimDisk\<close>: a write that fails leaves the disk as it was.\<close>

definition sim_device :: "sim_disk device_ops" where
  "sim_device = default_device disk_read
     (\<lambda>d offset data. case disk_write d offset data of Ok d' \<Rightarrow> (Ok (), d') | Err e \<Rightarrow> (Err e, d) | Panic \<Rightarrow> (Panic, d))
     (\<lambda>d. case disk_sync d No_Fault of Ok (_, d') \<Rightarrow> (Ok (), d') | Err e \<Rightarrow> (Err e, d) | Panic \<Rightarrow> (Panic, d))"

text \<open>Sequencing: the device a failed step leaves is the device the run leaves.\<close>

definition dbind :: "'a result \<times> 'd \<Rightarrow> ('a \<Rightarrow> 'd \<Rightarrow> 'b result \<times> 'd) \<Rightarrow> 'b result \<times> 'd" where
  "dbind r f = (case r of (Ok x, d) \<Rightarrow> f x d | (Err e, d) \<Rightarrow> (Err e, d) | (Panic, d) \<Rightarrow> (Panic, d))"

definition on_device :: "'d \<Rightarrow> 'a result \<Rightarrow> 'a result \<times> 'd" where
  "on_device d r = (r, d)"

section \<open>The handle\<close>

record 'd handle =
  h_dev :: 'd
  h_tree :: cow_btree
  h_next_seq :: u64
  h_checkpoint_seq :: u64
  h_seen_generation :: "u64 option"
  h_state_reads :: u64
  h_absorb_token :: "u64 option"
  h_absorbed_commits :: u64
  h_reader_token :: "u64 option"

text \<open>The tree reads through the device it is on.\<close>

definition attach :: "'d device_ops \<Rightarrow> 'd \<Rightarrow> cow_btree \<Rightarrow> cow_btree" where
  "attach D d t = t\<lparr>t_read := dv_read D d, t_wal_region := dv_wal_region D d, t_commit_point := dv_commit_point D d,
     t_min_reader_seq := dv_min_reader_seq D d\<rparr>"

definition set_dev :: "'d device_ops \<Rightarrow> 'd handle \<Rightarrow> 'd \<Rightarrow> 'd handle" where
  "set_dev D h d = h\<lparr>h_dev := d, h_tree := attach D d (h_tree h)\<rparr>"

definition set_tree :: "'d handle \<Rightarrow> cow_btree \<Rightarrow> 'd handle" where
  "set_tree h t = h\<lparr>h_tree := t\<rparr>"

definition handle_new :: "'d device_ops \<Rightarrow> 'd \<Rightarrow> nat \<Rightarrow> u32 \<Rightarrow> page_id \<Rightarrow> page_id \<Rightarrow> u64 \<Rightarrow> 'd handle" where
  "handle_new D d page_size fv root nxt checkpoint_seq = (case dv_register_reader D d of (token, d) \<Rightarrow>
     \<lparr>h_dev = d,
      h_tree = attach D d \<lparr>t_read = dv_read D d, t_wal_region = 0, t_commit_point = (\<lambda>_. None), t_min_reader_seq = None,
        t_page_size = page_size, t_format_version = fv, t_root = root, t_next_page_id = nxt, t_dirty = Map.empty,
        t_pending_root = 0, t_pending_next = 0, t_has_pending = False, t_pending_ops = Map.empty,
        t_reuse_enabled = False, t_free_candidates = [], t_free_scan_cursor = None, t_free_list_exhausted = False,
        t_freed_this_txn = [], t_consumed_this_txn = [], t_consumed_ever_this_txn = [], t_pages_reused = 0, t_free_list_scans = 0\<rparr>,
      h_next_seq = checkpoint_seq + 1, h_checkpoint_seq = checkpoint_seq, h_seen_generation = None, h_state_reads = 0,
      h_absorb_token = None, h_absorbed_commits = 0, h_reader_token = token\<rparr>)"

definition update_watermark :: "'d device_ops \<Rightarrow> 'd handle \<Rightarrow> u64 \<Rightarrow> 'd handle" where
  "update_watermark D h seq = (case h_reader_token h of
     None \<Rightarrow> h | Some token \<Rightarrow> set_dev D h (dv_update_reader D (h_dev h) token seq))"

definition adopt_next_page_id :: "cow_btree \<Rightarrow> page_id \<Rightarrow> cow_btree" where
  "adopt_next_page_id t committed_next = t\<lparr>t_next_page_id := max committed_next (t_next_page_id t)\<rparr>"

text \<open>The fields every end of a transaction clears.\<close>

definition clear_txn :: "cow_btree \<Rightarrow> cow_btree" where
  "clear_txn t = t\<lparr>t_dirty := Map.empty, t_free_candidates := [], t_free_scan_cursor := None, t_free_list_exhausted := False,
     t_freed_this_txn := [], t_consumed_this_txn := [], t_consumed_ever_this_txn := []\<rparr>"

section \<open>The pages and the record of a transaction\<close>

definition dirty_bytes :: "dirty_page \<Rightarrow> bytes option" where
  "dirty_bytes p = (case p of Encoded bs \<Rightarrow> Some bs | Decoded _ \<Rightarrow> None)"

text \<open>The dirty set in the order of its ids.\<close>

definition dirty_list :: "cow_btree \<Rightarrow> (page_id \<times> dirty_page) list" where
  "dirty_list t = map (\<lambda>pid. (pid, the (t_dirty t pid))) (sorted_list_of_set (dom (t_dirty t)))"

definition record_entry_bound :: "dirty_page \<Rightarrow> nat \<Rightarrow> u32 \<Rightarrow> nat" where
  "record_entry_bound p page_size fv = page_entry_header_len fv +
     (case p of Encoded bs \<Rightarrow> length bs | Decoded _ \<Rightarrow> page_size)"

definition pending_record_len :: "cow_btree \<Rightarrow> nat" where
  "pending_record_len t =
     (if t_format_version t \<ge> multi_region_format_version then 4 + 8 + 8 + 8 + 8 + 8 + 4 + 8 else 4 + 8 + 8 + 8 + 4 + 8) +
     sum_list (map (\<lambda>(_, p). record_entry_bound p (t_page_size t) (t_format_version t)) (dirty_list t))"

definition projected_record_len :: "cow_btree \<Rightarrow> nat" where
  "projected_record_len t =
     (let owed = (if t_reuse_enabled t then length (t_freed_this_txn t) + length (t_consumed_this_txn t) else 0) in
      pending_record_len t + owed * (page_entry_header_len (t_format_version t) + t_page_size t))"

definition materialize_dirty :: "cow_btree \<Rightarrow> cow_btree result" where
  "materialize_dirty t = rfold (\<lambda>t (pid, p). case p of
       Decoded n \<Rightarrow> rbind (encode_node (t_page_size t) n) (\<lambda>bs. Ok (put_page t pid (Encoded bs)))
     | Encoded _ \<Rightarrow> Ok t) t (dirty_list t)"

definition encode_pending_record :: "cow_btree \<Rightarrow> bytes \<Rightarrow> u64 \<Rightarrow> u64 \<Rightarrow> page_id \<Rightarrow> bytes result" where
  "encode_pending_record t out seq prev_seq prev_root =
     encode_record_onto out (t_format_version t)
       \<lparr>meta_seq = seq, meta_prev_seq = prev_seq, meta_prev_root = prev_root, meta_root = t_pending_root t,
        meta_next = t_pending_next t\<rparr>
       (map (\<lambda>(pid, p). (pid, case dirty_bytes p of Some bs \<Rightarrow> bs | None \<Rightarrow> [])) (dirty_list t))"

text \<open>
  The loop of \<open>write_dirty_pages\<close>: \<open>run\<close> is the buffered run of adjacent pages, from \<open>run_start\<close> up
  to but not including \<open>run_end\<close>.
\<close>

definition flush_run :: "'d device_ops \<Rightarrow> nat \<Rightarrow> u32 \<Rightarrow> page_id \<Rightarrow> bytes \<Rightarrow> 'd \<Rightarrow> unit result \<times> 'd" where
  "flush_run D page_size fv run_start run d =
     (if run \<noteq> [] then dv_write D d (data_offset_for page_size fv run_start) run else (Ok (), d))"

definition still_decoded :: "page_id \<Rightarrow> db_error" where
  "still_decoded pid = Storage (''page '' @ show_nat (unat pid) @
     '' reached the data-area write still decoded --- `materialize_dirty` did not run'')"

fun write_runs :: "'d device_ops \<Rightarrow> nat \<Rightarrow> u32 \<Rightarrow> (page_id \<times> dirty_page) list \<Rightarrow> bytes \<Rightarrow> page_id \<Rightarrow> page_id \<Rightarrow> 'd \<Rightarrow> unit result \<times> 'd" where
  "write_runs D page_size fv [] run run_start run_end d = flush_run D page_size fv run_start run d"
| "write_runs D page_size fv ((pid, p) # rest) run run_start run_end d =
     (case dirty_bytes p of
        None \<Rightarrow> (Err (still_decoded pid), d)
      | Some bs \<Rightarrow>
          if length bs \<noteq> page_size then
            dbind (flush_run D page_size fv run_start run d) (\<lambda>_ d.
            dbind (dv_write D d (data_offset_for page_size fv pid) bs) (\<lambda>_ d.
            write_runs D page_size fv rest [] run_start run_end d))
          else
            dbind (if pid \<noteq> run_end then flush_run D page_size fv run_start run d else (Ok (), d)) (\<lambda>_ d.
            let run = (if pid \<noteq> run_end then [] else run) in
            write_runs D page_size fv rest (run @ bs) (if run = [] then pid else run_start) (pid + 1) d))"

definition write_dirty_pages :: "'d device_ops \<Rightarrow> 'd handle \<Rightarrow> 'd handle result \<times> 'd" where
  "write_dirty_pages D h =
     (let t = h_tree h in
      dbind (write_runs D (t_page_size t) (t_format_version t) (dirty_list t) [] 0 0 (h_dev h)) (\<lambda>_ d.
      on_device d (Ok (set_dev D h d))))"

definition write_state_values :: "'d device_ops \<Rightarrow> 'd handle \<Rightarrow> page_id \<Rightarrow> page_id \<Rightarrow> u64 \<Rightarrow> 'd handle result \<times> 'd" where
  "write_state_values D h root nxt seq =
     dbind (on_device (h_dev h) (encode_state root nxt seq)) (\<lambda>state d.
     dbind (dv_write D d (state_offset (t_page_size (h_tree h))) state) (\<lambda>_ d.
     dbind (dv_sync D d) (\<lambda>_ d. on_device d (Ok (set_dev D h d)))))"

definition write_state :: "'d device_ops \<Rightarrow> 'd handle \<Rightarrow> 'd handle result \<times> 'd" where
  "write_state D h = write_state_values D h (t_root (h_tree h)) (t_next_page_id (h_tree h)) (h_checkpoint_seq h)"

section \<open>Rebasing\<close>

text \<open>The comparison of first committer wins, over the keys in their order.\<close>

fun unchanged_keys :: "nat \<Rightarrow> cow_btree \<Rightarrow> page_id \<Rightarrow> bytes list \<Rightarrow> bool result" where
  "unchanged_keys depth t current_root [] = Ok True"
| "unchanged_keys depth t current_root (k # ks) =
     rbind (get_from_root depth t (t_root t) k) (\<lambda>base.
     rbind (get_from_root depth t current_root k) (\<lambda>current.
     if base \<noteq> current \<and> \<not> mergeable_metadata_key k then Ok False
     else unchanged_keys depth t current_root ks))"

definition op_keys :: "pending_ops \<Rightarrow> bytes list" where
  "op_keys ops = sorted_list_of_set (dom ops)"

definition replay_ops :: "nat \<Rightarrow> cow_btree \<Rightarrow> pending_ops \<Rightarrow> cow_btree result" where
  "replay_ops depth t ops = rfold (\<lambda>t k. case ops k of
       Some (Some v) \<Rightarrow> put depth t k v | _ \<Rightarrow> delete depth t k) t (op_keys ops)"

definition rebase_pending ::
  "'d device_ops \<Rightarrow> nat \<Rightarrow> 'd handle \<Rightarrow> page_id \<Rightarrow> page_id \<Rightarrow> u64 \<Rightarrow> (bool \<times> 'd handle) result \<times> 'd" where
  "rebase_pending D depth h current_root current_next current_seq =
     (let t = h_tree h in
      dbind (on_device (h_dev h) (unchanged_keys depth t current_root (op_keys (t_pending_ops t)))) (\<lambda>unchanged d.
      if \<not> unchanged then on_device d (Ok (False, h))
      else
        dbind (on_device d (merge_monotonic_metadata (get_from_root depth t current_root) (t_pending_ops t))) (\<lambda>ops d.
        let t = adopt_next_page_id ((clear_txn t)\<lparr>t_pending_ops := Map.empty, t_root := current_root\<rparr>) current_next;
            t = t\<lparr>t_pending_root := current_root, t_pending_next := t_next_page_id t, t_has_pending := False\<rparr>;
            h = update_watermark D ((set_tree h t)\<lparr>h_next_seq := current_seq + 1\<rparr>) current_seq in
        dbind (on_device (h_dev h) (replay_ops depth (h_tree h) ops)) (\<lambda>t d.
        on_device d (Ok (True, set_tree h t))))))"

section \<open>Free-list rows\<close>

definition free_list_stuck :: "nat \<Rightarrow> nat \<Rightarrow> db_error" where
  "free_list_stuck freed consumed = Storage (''finalize_free_list did not converge after 100001 iterations (freed_this_txn='' @
     show_nat freed @ '', consumed_this_txn='' @ show_nat consumed @ '') --- probable free-list bug'')"

text \<open>\<open>n\<close> is how many more iterations the loop allows.\<close>

fun finalize_loop :: "nat \<Rightarrow> nat \<Rightarrow> u64 \<Rightarrow> cow_btree \<Rightarrow> cow_btree result" where
  "finalize_loop n depth seq t =
     (if t_freed_this_txn t = [] \<and> t_consumed_this_txn t = [] then Ok t
      else
        let freed = (if t_freed_this_txn t = [] then None else Some (last (t_freed_this_txn t)));
            consumed = (if t_consumed_this_txn t = [] then None else Some (last (t_consumed_this_txn t)));
            t = t\<lparr>t_freed_this_txn := butlast (t_freed_this_txn t), t_consumed_this_txn := butlast (t_consumed_this_txn t)\<rparr> in
        case n of
          0 \<Rightarrow> Err (free_list_stuck (length (t_freed_this_txn t)) (length (t_consumed_this_txn t)))
        | Suc n \<Rightarrow>
            rbind (case freed of None \<Rightarrow> Ok t | Some pid \<Rightarrow> put depth t (free_list_key seq pid) []) (\<lambda>t.
            rbind (case consumed of None \<Rightarrow> Ok t | Some (freed_at, pid) \<Rightarrow> delete depth t (free_list_key freed_at pid)) (\<lambda>t.
            finalize_loop n depth seq t)))"

declare finalize_loop.simps [simp del]

definition finalize_free_list :: "nat \<Rightarrow> u64 \<Rightarrow> cow_btree \<Rightarrow> cow_btree result" where
  "finalize_free_list depth seq t = finalize_loop 100000 depth seq t"

section \<open>Preparing a commit under the gate\<close>

definition current_state :: "'d device_ops \<Rightarrow> 'd \<Rightarrow> nat \<Rightarrow> u32 \<Rightarrow> commit_point option \<Rightarrow> (page_id \<times> page_id \<times> u64) result" where
  "current_state D d page_size fv cached = (case cached of
     Some p \<Rightarrow> Ok (cp_root p, cp_next p, cp_seq p)
   | None \<Rightarrow> rbind (read_committed_state (dv_read D d) page_size fv) (\<lambda>(root, nxt, seq, _). Ok (root, nxt, seq)))"

definition does_not_fit :: "nat \<Rightarrow> nat \<Rightarrow> db_error" where
  "does_not_fit len mx = Storage (''transaction does not fit the write-ahead log ('' @ show_nat len @ '' > '' @ show_nat mx @ '' bytes)'')"

text \<open>A full region is emptied once the state block names the state it led to.\<close>

definition place_record ::
  "'d device_ops \<Rightarrow> 'd handle \<Rightarrow> nat \<Rightarrow> nat \<Rightarrow> nat \<Rightarrow> page_id \<times> page_id \<times> u64 \<Rightarrow> (nat \<times> 'd handle) result \<times> 'd" where
  "place_record D h region offset len current =
     (let page_size = t_page_size (h_tree h); fv = t_format_version (h_tree h) in
      if offset + len > region_end page_size fv region then
        (case current of (root, nxt, seq) \<Rightarrow>
         let h = set_dev D h (dv_forget_append_offset D (h_dev h) region);
             start = region_start page_size fv region in
         dbind (write_state_values D h root nxt seq) (\<lambda>h d.
         dbind (dv_write D d start (replicate (wal_region_len page_size) 0)) (\<lambda>_ d.
         on_device d (Ok (start, set_dev D h d)))))
      else on_device (h_dev h) (Ok (offset, h)))"

datatype prepared =
    Conflicted "page_id \<times> page_id \<times> u64"
  | Ready u64 bytes nat nat

definition prepare_commit ::
  "'d device_ops \<Rightarrow> nat \<Rightarrow> nat \<Rightarrow> commit_point option \<Rightarrow> 'd handle \<Rightarrow> (prepared \<times> 'd handle) result \<times> 'd" where
  "prepare_commit D depth region cached h =
     (let page_size = t_page_size (h_tree h); fv = t_format_version (h_tree h) in
      dbind (on_device (h_dev h) (current_state D (h_dev h) page_size fv cached)) (\<lambda>(current_root, current_next, current_seq) d.
      dbind (rebase_pending D depth h current_root current_next current_seq) (\<lambda>(rebased, h) d.
      if \<not> rebased then on_device d (Ok (Conflicted (current_root, current_next, current_seq), h))
      else
        let seq = current_seq + 1 in
        dbind (on_device d (rbind (finalize_free_list depth seq (h_tree h)) materialize_dirty)) (\<lambda>t d.
        let h = set_tree h t in
        dbind (on_device d (encode_pending_record t [] seq current_seq current_root)) (\<lambda>records d.
        if length records > max_record_len page_size
        then on_device d (Err (does_not_fit (length records) (max_record_len page_size)))
        else
          dbind (on_device d (case cached of
              Some p \<Rightarrow> Ok (cp_append_offset p)
            | None \<Rightarrow> rbind (scan_region (dv_read D d) page_size fv region) (\<lambda>s. Ok (append_offset s)))) (\<lambda>offset d.
          dbind (place_record D h region offset (length records) (current_root, current_next, current_seq)) (\<lambda>(offset, h) d.
          dbind (write_dirty_pages D h) (\<lambda>h d.
          on_device d (Ok (Ready seq records offset (region_end page_size fv region),
            set_tree h ((h_tree h)\<lparr>t_dirty := Map.empty\<rparr>)))))))))))"

section \<open>The cohort\<close>

datatype cohort_member =
    Member_Committed page_id page_id u64
  | Member_Conflict page_id page_id u64
  | Member_Declined

datatype cohort_step =
    Step_Committed page_id page_id u64
  | Step_Conflict pending_ops
  | Step_Declined pending_ops

definition reset_to :: "'d handle \<Rightarrow> page_id \<Rightarrow> page_id \<Rightarrow> 'd handle" where
  "reset_to h root nxt =
     (let t = adopt_next_page_id ((clear_txn (h_tree h))\<lparr>t_pending_ops := Map.empty, t_has_pending := False, t_root := root\<rparr>) nxt in
      set_tree h (t\<lparr>t_pending_root := root, t_pending_next := t_next_page_id t\<rparr>))"

text \<open>
  Whatever fails after the rebase, the handle is reset to the state the member was judged against;
  the device keeps the pages already written.
\<close>

definition commit_member ::
  "'d device_ops \<Rightarrow> nat \<Rightarrow> 'd handle \<Rightarrow> page_id \<times> page_id \<times> u64 \<Rightarrow> bytes \<Rightarrow> nat \<Rightarrow>
   ((page_id \<times> page_id \<times> u64) option \<times> bytes \<times> 'd handle) result \<times> 'd" where
  "commit_member D depth h base records available = (case base of (base_root, base_next, base_seq) \<Rightarrow>
     let seq = base_seq + 1; start = length records; page_size = t_page_size (h_tree h) in
     dbind (on_device (h_dev h) (rbind (finalize_free_list depth seq (h_tree h)) materialize_dirty)) (\<lambda>t d.
     let h = set_tree h t in
     dbind (on_device d (encode_pending_record t records seq base_seq base_root)) (\<lambda>records d.
     if length records > available \<or> length records - start > max_record_len page_size
     then on_device d (Ok (None, records, h))
     else
       dbind (write_dirty_pages D h) (\<lambda>h d.
       let h = set_tree h ((h_tree h)\<lparr>t_dirty := Map.empty\<rparr>) in
       on_device d (Ok (Some (t_pending_root (h_tree h), t_pending_next (h_tree h), seq), records, h))))))"

definition absorb_member ::
  "'d device_ops \<Rightarrow> nat \<Rightarrow> 'd handle \<Rightarrow> absorb_txn \<Rightarrow> page_id \<times> page_id \<times> u64 \<Rightarrow> bytes \<Rightarrow> nat \<Rightarrow>
   (cohort_step \<times> bytes \<times> 'd handle) result" where
  "absorb_member D depth h txn base records available = (case base of (base_root, base_next, base_seq) \<Rightarrow>
     let t = h_tree h;
         h = set_tree h (t\<lparr>t_root := at_root txn, t_pending_root := at_root txn, t_pending_next := t_next_page_id t,
           t_pending_ops := at_ops txn, t_has_pending := True\<rparr>);
         declined = (\<lambda>h d. Ok (Step_Declined (at_ops txn), records, reset_to (set_dev D h d) base_root base_next)) in
     case rebase_pending D depth h base_root base_next base_seq of
       (Panic, d) \<Rightarrow> Panic
     | (Err _, d) \<Rightarrow> declined h d
     | (Ok (False, h), d) \<Rightarrow> Ok (Step_Conflict (t_pending_ops (h_tree h)), records, reset_to h base_root base_next)
     | (Ok (True, h), d) \<Rightarrow>
         (case commit_member D depth h base records available of
            (Panic, d) \<Rightarrow> Panic
          | (Err _, d) \<Rightarrow> declined h d
          | (Ok (None, _, h), d) \<Rightarrow> declined h d
          | (Ok (Some (root, nxt, seq), records, h), d) \<Rightarrow> Ok (Step_Committed root nxt seq, records, h)))"

definition refuses :: "bool \<Rightarrow> bytes \<Rightarrow> nat \<Rightarrow> absorb_txn \<Rightarrow> bool" where
  "refuses stopped records available txn \<longleftrightarrow> stopped \<or> length records * 2 \<ge> available \<or>
     (\<exists>k \<in> dom (at_ops txn). starts_with k free_list_prefix)"

fun lead_members ::
  "'d device_ops \<Rightarrow> nat \<Rightarrow> nat \<Rightarrow> (u64 \<times> absorb_txn) list \<Rightarrow> bool \<Rightarrow> page_id \<times> page_id \<times> u64 \<Rightarrow> bytes \<Rightarrow> 'd handle \<Rightarrow>
   (u64 \<times> cohort_member \<times> pending_ops) list \<Rightarrow>
   ((page_id \<times> page_id \<times> u64) \<times> bytes \<times> 'd handle \<times> (u64 \<times> cohort_member \<times> pending_ops) list) result" where
  "lead_members D depth available [] stopped state records h cohort = Ok (state, records, h, cohort)"
| "lead_members D depth available ((token, txn) # members) stopped state records h cohort =
     (if refuses stopped records available txn
      then lead_members D depth available members True state records h (cohort @ [(token, Member_Declined, at_ops txn)])
      else rbind (absorb_member D depth h txn state records available) (\<lambda>(step, records, h).
        case step of
          Step_Committed root nxt seq \<Rightarrow>
            lead_members D depth available members stopped (root, nxt, seq) records h
              (cohort @ [(token, Member_Committed root nxt seq, Map.empty)])
        | Step_Conflict ops \<Rightarrow>
            (case state of (root, nxt, seq) \<Rightarrow>
              lead_members D depth available members stopped state records h
                (cohort @ [(token, Member_Conflict root nxt seq, ops)]))
        | Step_Declined ops \<Rightarrow>
            lead_members D depth available members True state records h (cohort @ [(token, Member_Declined, ops)])))"

definition lead_cohort where
  "lead_cohort D depth h base records offset end_offset =
     (case dv_absorb_take D (h_dev h) of (members, d) \<Rightarrow>
        lead_members D depth (end_offset - offset) members False base records (set_dev D h d) [])"

definition member_answer ::
  "bool \<Rightarrow> u64 option \<Rightarrow> u64 \<times> cohort_member \<times> pending_ops \<Rightarrow> u64 \<times> absorb_result \<times> pending_ops" where
  "member_answer reached generation m = (case m of (token, member, ops) \<Rightarrow> (case member of
     Member_Declined \<Rightarrow> (token, Absorb_Fallback, ops)
   | Member_Conflict root nxt seq \<Rightarrow>
       if \<not> reached then (token, Absorb_Fallback, ops) else (token, Absorb_Conflict root nxt seq None, Map.empty)
   | Member_Committed root nxt seq \<Rightarrow>
       if \<not> reached then (token, Absorb_Failed ''the commit leading this cohort did not reach the disk'', Map.empty)
       else (token, Absorb_Committed root nxt seq generation, Map.empty)))"

definition resolve_cohort ::
  "'d device_ops \<Rightarrow> 'd \<Rightarrow> (u64 \<times> cohort_member \<times> pending_ops) list \<Rightarrow> bool \<Rightarrow> u64 option \<Rightarrow> 'd" where
  "resolve_cohort D d cohort reached generation =
     (if cohort = [] then d else dv_absorb_resolve D d (map (member_answer reached generation) cohort))"

section \<open>Commit\<close>

datatype commit_outcome = Outcome_Committed | Outcome_Conflict

definition park_for_absorption :: "'d device_ops \<Rightarrow> 'd handle \<Rightarrow> bool \<times> 'd handle" where
  "park_for_absorption D h =
     (if \<not> t_has_pending (h_tree h) \<or> h_absorb_token h \<noteq> None then (False, h)
      else (case dv_absorb_offer D (h_dev h) (t_root (h_tree h)) (t_pending_ops (h_tree h)) of (token, ops, d) \<Rightarrow>
        let h = set_dev D h d in
        (token \<noteq> None, (set_tree h ((h_tree h)\<lparr>t_pending_ops := ops\<rparr>))\<lparr>h_absorb_token := token\<rparr>)))"

definition adopt_absorbed ::
  "'d device_ops \<Rightarrow> 'd handle \<Rightarrow> page_id \<Rightarrow> page_id \<Rightarrow> u64 \<Rightarrow> u64 option \<Rightarrow> bool \<Rightarrow> 'd handle" where
  "adopt_absorbed D h root nxt seq generation conflict =
     (let t = adopt_next_page_id ((clear_txn (h_tree h))\<lparr>t_pending_ops := Map.empty, t_has_pending := False, t_root := root\<rparr>) nxt;
          t = t\<lparr>t_pending_root := t_root t, t_pending_next := t_next_page_id t\<rparr> in
      update_watermark D ((set_tree h t)\<lparr>h_checkpoint_seq := (if conflict then seq else h_checkpoint_seq h),
        h_next_seq := seq + 1, h_seen_generation := generation\<rparr>) seq)"

definition finish_conflict ::
  "'d device_ops \<Rightarrow> 'd handle \<Rightarrow> nat \<Rightarrow> page_id \<times> page_id \<times> u64 \<Rightarrow> (commit_outcome \<times> 'd handle) result \<times> 'd" where
  "finish_conflict D h region observed_floor = (case observed_floor of (floor_root, floor_next, floor_seq) \<Rightarrow>
     let d = h_dev h; generation = dv_commit_generation D d; t = h_tree h in
     dbind (on_device d (resolve_state_at_least (\<lambda>_. dv_commit_point D d region) (\<lambda>_. dv_read D d)
         (t_page_size t) (t_format_version t) floor_seq)) (\<lambda>found d.
     case (case found of Some s \<Rightarrow> s | None \<Rightarrow> (floor_root, floor_next, floor_seq)) of (root, nxt, seq) \<Rightarrow>
       let h = adopt_absorbed D h root nxt seq generation True in
       on_device (h_dev h) (Ok (Outcome_Conflict, h))))"

text \<open>\<open>commit_ready\<close> for the leader and for every member it committed.\<close>

definition publish_tickets :: "'d device_ops \<Rightarrow> (u64 \<times> cohort_member \<times> pending_ops) list \<Rightarrow> 'd \<Rightarrow> 'd" where
  "publish_tickets D cohort d =
     ((dv_commit_ready D) ^^ Suc (length (filter (\<lambda>(_, m, _). case m of Member_Committed _ _ _ \<Rightarrow> True | _ \<Rightarrow> False) cohort))) d"

definition decline_parked :: "'d device_ops \<Rightarrow> 'd \<Rightarrow> (u64 \<times> cohort_member \<times> pending_ops) list \<times> 'd" where
  "decline_parked D d = (case dv_absorb_take D d of (members, d) \<Rightarrow>
     (map (\<lambda>(token, txn). (token, Member_Declined, at_ops txn)) members, d))"

text \<open>The end of a hold of the gate that wrote nothing.\<close>

definition abandon_gate :: "'d device_ops \<Rightarrow> nat \<Rightarrow> (u64 \<times> cohort_member \<times> pending_ops) list \<Rightarrow> 'd \<Rightarrow> 'd" where
  "abandon_gate D region cohort d =
     (case dv_end_normal_commit D (dv_set_commit_point D d region None) of (generation, d) \<Rightarrow>
        resolve_cohort D d cohort False generation)"

text \<open>The end of a hold of the gate whose records are in the buffer: append, release, sync, answer.\<close>

definition finish_commit ::
  "'d device_ops \<Rightarrow> nat \<Rightarrow> 'd handle \<Rightarrow> u64 \<Rightarrow> bytes \<Rightarrow> nat \<Rightarrow> page_id \<times> page_id \<times> u64 \<Rightarrow>
   (u64 \<times> cohort_member \<times> pending_ops) list \<Rightarrow> (commit_outcome \<times> 'd handle) result \<times> 'd" where
  "finish_commit D region h seq records offset final cohort =
     (case (if records \<noteq> [] then dv_write D (h_dev h) offset records else (Ok (), h_dev h)) of
        (Panic, d) \<Rightarrow> (Panic, d)
      | (Err e, d) \<Rightarrow> (Err e, abandon_gate D region cohort d)
      | (Ok _, d) \<Rightarrow>
          if records = [] then (Panic, d)
          else (case final of (root, nxt, final_seq) \<Rightarrow>
            let d = dv_set_commit_point D d region (Some \<lparr>cp_root = root, cp_next = nxt, cp_seq = final_seq,
                      cp_append_offset = offset + length records\<rparr>);
                d = publish_tickets D cohort d in
            (case dv_end_normal_commit D d of (generation, d) \<Rightarrow>
            (case dv_sync_commit D d of
               (Panic, d) \<Rightarrow> (Panic, d)
             | (Err e, d) \<Rightarrow> (Err e, resolve_cohort D d cohort False generation)
             | (Ok _, d) \<Rightarrow>
                 let h = set_dev D h (resolve_cohort D d cohort True generation);
                     t = h_tree h;
                     t = t\<lparr>t_root := t_pending_root t, t_next_page_id := t_pending_next t, t_dirty := Map.empty,
                       t_pending_ops := Map.empty, t_has_pending := False\<rparr>;
                     h = update_watermark D ((set_tree h t)\<lparr>h_next_seq := seq + 1, h_seen_generation := generation\<rparr>) seq in
                 on_device (h_dev h) (Ok (Outcome_Committed, h))))))"

definition commit_normally :: "'d device_ops \<Rightarrow> nat \<Rightarrow> 'd handle \<Rightarrow> (commit_outcome \<times> 'd handle) result \<times> 'd" where
  "commit_normally D depth h =
     dbind (dv_begin_normal_commit D (h_dev h)) (\<lambda>_ d.
     let h = set_dev D h d;
         region = dv_wal_region D d mod region_count (t_format_version (h_tree h));
         cached = dv_commit_point D d region in
     case prepare_commit D depth region cached h of
       (Panic, d) \<Rightarrow> (Panic, d)
     | (Err e, d) \<Rightarrow> (case decline_parked D d of (cohort, d) \<Rightarrow> (Err e, abandon_gate D region cohort d))
     | (Ok (Conflicted observed_floor, h), d) \<Rightarrow>
         (case decline_parked D d of (cohort, d) \<Rightarrow>
            finish_conflict D (set_dev D h (abandon_gate D region cohort d)) region observed_floor)
     | (Ok (Ready seq records offset end_offset, h), d) \<Rightarrow>
         let own_root = t_pending_root (h_tree h); own_next = t_pending_next (h_tree h) in
         (case lead_cohort D depth h (own_root, own_next, seq) records offset end_offset of
            Ok (final, records, h, cohort) \<Rightarrow>
              let t = h_tree h;
                  h = set_tree h (t\<lparr>t_pending_root := own_root, t_pending_next := max (t_pending_next t) own_next\<rparr>) in
              finish_commit D region h seq records offset final cohort
          | Err e \<Rightarrow> (Err e, d)
          | Panic \<Rightarrow> (Panic, d)))"

definition commit :: "'d device_ops \<Rightarrow> nat \<Rightarrow> 'd handle \<Rightarrow> (commit_outcome \<times> 'd handle) result \<times> 'd" where
  "commit D depth h =
     (if \<not> t_has_pending (h_tree h) then on_device (h_dev h) (Ok (Outcome_Committed, h))
      else
        let h = snd (park_for_absorption D h) in
        case h_absorb_token h of
          None \<Rightarrow> commit_normally D depth h
        | Some token \<Rightarrow>
            let h = h\<lparr>h_absorb_token := None\<rparr> in
            (case dv_absorb_wait D (h_dev h) token (t_pending_ops (h_tree h)) of (answer, ops, d) \<Rightarrow>
              let h = set_dev D h d; h = set_tree h ((h_tree h)\<lparr>t_pending_ops := ops\<rparr>) in
              (case answer of
                 Absorb_Committed root nxt seq generation \<Rightarrow>
                   let h = adopt_absorbed D (h\<lparr>h_absorbed_commits := h_absorbed_commits h + 1\<rparr>) root nxt seq generation False in
                   on_device (h_dev h) (Ok (Outcome_Committed, h))
               | Absorb_Conflict root nxt seq generation \<Rightarrow>
                   let h = adopt_absorbed D (h\<lparr>h_absorbed_commits := h_absorbed_commits h + 1\<rparr>) root nxt seq generation True in
                   on_device (h_dev h) (Ok (Outcome_Conflict, h))
               | Absorb_Failed reason \<Rightarrow> on_device d (Err (Storage reason))
               | Absorb_Fallback \<Rightarrow> commit_normally D depth h)))"

section \<open>Checkpoint, refresh, open, create\<close>

definition checkpoint_gated :: "'d device_ops \<Rightarrow> 'd handle \<Rightarrow> nat \<Rightarrow> 'd handle result \<times> 'd" where
  "checkpoint_gated D h region =
     (let page_size = t_page_size (h_tree h); fv = t_format_version (h_tree h) in
      dbind (on_device (h_dev h) (current_state D (h_dev h) page_size fv (dv_commit_point D (h_dev h) region))) (\<lambda>(root, nxt, seq) d.
      let t = adopt_next_page_id ((h_tree h)\<lparr>t_root := root\<rparr>) nxt;
          h = update_watermark D ((set_tree h t)\<lparr>h_next_seq := seq + 1, h_checkpoint_seq := seq\<rparr>) seq;
          h = set_dev D h (dv_set_commit_point D (h_dev h) region None) in
      dbind (write_state D h) (\<lambda>h d.
      let start = region_start page_size fv region in
      dbind (dv_write D d start (replicate (wal_region_len page_size) 0)) (\<lambda>_ d.
      let d = dv_set_commit_point D d region (Some \<lparr>cp_root = root, cp_next = t_next_page_id (h_tree h), cp_seq = seq,
                cp_append_offset = start\<rparr>) in
      on_device d (Ok (set_dev D h d))))))"

definition checkpoint :: "'d device_ops \<Rightarrow> 'd handle \<Rightarrow> 'd handle result \<times> 'd" where
  "checkpoint D h =
     dbind (dv_begin_commit D (h_dev h)) (\<lambda>_ d.
     let h = set_dev D h d; region = dv_wal_region D d mod region_count (t_format_version (h_tree h)) in
     case checkpoint_gated D h region of
       (Panic, d) \<Rightarrow> (Panic, d)
     | (Err e, d) \<Rightarrow> (case dv_end_commit D (dv_set_commit_point D d region None) of (_, d) \<Rightarrow> (Err e, d))
     | (Ok h, d) \<Rightarrow> (case dv_end_commit D d of (generation, d) \<Rightarrow>
         on_device d (Ok ((set_dev D h d)\<lparr>h_seen_generation := generation\<rparr>))))"

definition refresh :: "'d device_ops \<Rightarrow> 'd handle \<Rightarrow> (bool \<times> 'd handle) result" where
  "refresh D h =
     (let d = h_dev h; t = h_tree h; generation = dv_commit_generation D d in
      if t_has_pending t then Ok (False, h)
      else if generation \<noteq> None \<and> generation = h_seen_generation h then Ok (False, h)
      else
        let region = dv_wal_region D d mod region_count (t_format_version t);
            floor_seq = (if h_next_seq h = 0 then 0 else h_next_seq h - 1);
            h = h\<lparr>h_state_reads := h_state_reads h + 1\<rparr> in
        rbind (resolve_state_at_least (\<lambda>_. dv_commit_point D d region) (\<lambda>_. dv_read D d) (t_page_size t)
          (t_format_version t) floor_seq) (\<lambda>found. case found of
            None \<Rightarrow> Ok (False, h)
          | Some (root, nxt, seq) \<Rightarrow>
              let h = h\<lparr>h_seen_generation := generation\<rparr> in
              if root = t_root t then Ok (False, h)
              else Ok (True, update_watermark D ((set_tree h (adopt_next_page_id (t\<lparr>t_root := root\<rparr>) nxt))
                     \<lparr>h_checkpoint_seq := seq, h_next_seq := seq + 1\<rparr>) seq)))"

fun replay_pages :: "'d device_ops \<Rightarrow> nat \<Rightarrow> u32 \<Rightarrow> (page_id \<times> bytes) list \<Rightarrow> 'd \<Rightarrow> unit result \<times> 'd" where
  "replay_pages D page_size fv [] d = (Ok (), d)"
| "replay_pages D page_size fv ((pid, bs) # rest) d =
     dbind (dv_write D d (data_offset_for page_size fv pid) bs) (\<lambda>_ d. replay_pages D page_size fv rest d)"

definition open_tree :: "'d device_ops \<Rightarrow> 'd \<Rightarrow> 'd handle result \<times> 'd" where
  "open_tree D d =
     dbind (on_device d (rbind (dv_read D d header_offset header_len) parse_header)) (\<lambda>(page_size, fv) d.
     let generation = dv_commit_generation D d in
     dbind (on_device d (read_committed_state (dv_read D d) page_size fv)) (\<lambda>(root, nxt, checkpoint_seq, replay) d.
     let h = update_watermark D ((handle_new D d page_size fv root nxt checkpoint_seq)\<lparr>h_seen_generation := generation\<rparr>) checkpoint_seq in
     if replay \<noteq> [] \<and> \<not> dv_is_read_only D (h_dev h) then
       dbind (replay_pages D page_size fv (concat (map rec_pages replay)) (h_dev h)) (\<lambda>_ d.
       checkpoint D (set_dev D h d))
     else on_device (h_dev h) (Ok h)))"

definition create_tree :: "'d device_ops \<Rightarrow> 'd \<Rightarrow> nat \<Rightarrow> 'd handle result \<times> 'd" where
  "create_tree D d page_size =
     (if page_size < min_page_size
      then on_device d (Err (Storage (''page size '' @ show_nat page_size @ '' is below the minimum '' @ show_nat min_page_size)))
      else
        let generation = dv_commit_generation D d;
            version = dv_create_format_version D d;
            h = update_watermark D ((handle_new D d page_size version 0 1 0)\<lparr>h_seen_generation := generation\<rparr>) 0 in
        dbind (on_device (h_dev h) (encode_header_with_version page_size version)) (\<lambda>header d.
        dbind (dv_write D d header_offset header) (\<lambda>_ d.
        dbind (on_device d (encode_state 0 1 0)) (\<lambda>state d.
        dbind (dv_write D d (state_offset page_size) state) (\<lambda>_ d.
        dbind (dv_write D d (wal_start page_size) (replicate (all_regions_end page_size format_version - wal_start page_size) 0)) (\<lambda>_ d.
        dbind (dv_sync D d) (\<lambda>_ d.
        let d = dv_set_commit_point D d 0 None in
        on_device d (Ok (set_dev D h d)))))))))"

definition open_or_create :: "'d device_ops \<Rightarrow> 'd \<Rightarrow> nat \<Rightarrow> 'd handle result \<times> 'd" where
  "open_or_create D d page_size = (case dv_read D d header_offset header_len of
     Ok header \<Rightarrow> if starts_with header magic then open_tree D d else create_tree D d page_size
   | Err _ \<Rightarrow> create_tree D d page_size
   | Panic \<Rightarrow> (Panic, d))"

end
