(* ===== verification/Commit_File.thy ===== *)
theory Commit_File
  imports Commit Tree_Raw
begin

text \<open>
  What a database file holds: the header, the state block, the log regions and the pages of the
  records recovery would replay. Appending a record, emptying a region behind a new state block and
  replaying the pages are shown to lead from one such file to another.
\<close>

section \<open>Regions\<close>

definition zeros_at :: "(nat \<Rightarrow> nat \<Rightarrow> bytes result) \<Rightarrow> nat \<Rightarrow> nat \<Rightarrow> bool" where
  "zeros_at rd a b \<longleftrightarrow> (\<forall>x n. a \<le> x \<longrightarrow> x + n \<le> b \<longrightarrow> rd x n = Ok (replicate n 0))"

definition log_at :: "(nat \<Rightarrow> nat \<Rightarrow> bytes result) \<Rightarrow> nat \<Rightarrow> u32 \<Rightarrow> nat \<Rightarrow> wal_record list \<Rightarrow> nat \<Rightarrow> bool" where
  "log_at rd ps fv r rs off \<longleftrightarrow> scan_region rd ps fv r = Ok \<lparr>scan_records = rs, append_offset = off\<rparr> \<and>
     region_start ps fv r \<le> off \<and> off \<le> region_end ps fv r \<and> zeros_at rd off (region_end ps fv r)"

lemma scan_loop_cong:
  "(\<And>a n. off \<le> a \<Longrightarrow> a + n \<le> e \<Longrightarrow> rd' a n = rd a n) \<Longrightarrow> scan_loop rd' fv e acc off = scan_loop rd fv e acc off"
proof (induction rd fv e acc off rule: scan_loop.induct)
  case (1 rd fv e acc off)
  show ?case
  proof (cases "off + 12 \<le> e")
    case True
    have h: "rd' off 4 = rd off 4" using 1(2) [of off 4] True by simp
    have b: "rd' off n = rd off n" if "\<not> off + n > e" for n using 1(2) [of off n] that by simp
    have rec: "scan_loop rd' fv e (acc @ [r]) (off + unat t) = scan_loop rd fv e (acc @ [r]) (off + unat t)"
      if "rd off 4 = Ok header" "read_u32 header 0 = Ok t" "\<not> (unat t = 0 \<or> unat t < record_minimum fv \<or> off + unat t > e)"
        "rd off (unat t) = Ok buf" "decode_record_for_version buf fv = Ok (Some r)" for header t buf r
      by (rule "1.IH" [OF True that(1,2) refl that(3-5) refl]) (use "1.prems" in auto)
    show ?thesis
      by (subst (1 2) scan_loop.simps) (auto simp: True h b rec Let_def intro!: rbind_cong split: option.split)
  next
    case False
    then show ?thesis by (subst (1 2) scan_loop.simps) simp
  qed
qed

lemma scan_loop_zeros:
  assumes "zeros_at rd off e"
  shows "scan_loop rd fv e acc off = Ok \<lparr>scan_records = acc, append_offset = off\<rparr>"
proof (cases "off + 12 \<le> e")
  case True
  then have "rd off 4 = Ok (replicate 4 0)" using assms by (simp add: zeros_at_def)
  moreover have "read_u32 (replicate 4 0) 0 = Ok 0"
    by (simp add: read_u32_eq slice_replicate u32_from_le_def slice_def eval_nat_numeral)
  ultimately show ?thesis using True by (subst scan_loop.simps) simp
next
  case False
  then show ?thesis by (subst scan_loop.simps) simp
qed

lemma log_at_cong:
  assumes "\<And>a n. region_start ps fv r \<le> a \<Longrightarrow> a + n \<le> region_end ps fv r \<Longrightarrow> rd' a n = rd a n" "log_at rd ps fv r rs off"
  shows "log_at rd' ps fv r rs off"
  using assms scan_loop_cong [of "region_start ps fv r" "region_end ps fv r" rd' rd fv "[]"]
  by (auto simp: log_at_def scan_region_def zeros_at_def)

lemma log_at_zeros:
  assumes "zeros_at rd (region_start ps fv r) (region_end ps fv r)"
  shows "log_at rd ps fv r [] (region_start ps fv r)"
  using assms scan_loop_zeros [OF assms] by (simp add: log_at_def scan_region_def region_end_def)

context device
begin

lemma zeros_written:
  assumes "dinv d" "wr d off (replicate n 0) = Ok d'"
  shows "zeros_at (rd d') off (off + n)"
  unfolding zeros_at_def
proof (intro allI impI)
  fix x m assume x: "off \<le> x" "x + m \<le> off + n"
  then show "rd d' x m = Ok (replicate m 0)"
    using wr_rd_same_slice [OF assms, of "x - off" m] by (simp add: slice_def)
qed

lemma log_at_append:
  assumes d: "dinv d" and log: "log_at (rd d) ps fv r rs off" and ok: "record_ok fv x"
    and w: "wr d off (record_image fv (meta_of x) (rec_pages x)) = Ok d'"
    and fit: "off + record_len fv (rec_pages x) \<le> region_end ps fv r"
  shows "log_at (rd d') ps fv r (rs @ [x]) (off + record_len fv (rec_pages x))"
proof -
  let ?l = "record_len fv (rec_pages x)"
  have z: "zeros_at (rd d') (off + ?l) (region_end ps fv r)"
    unfolding zeros_at_def
  proof (intro allI impI)
    fix a n assume "off + ?l \<le> a" "a + n \<le> region_end ps fv r"
    then show "rd d' a n = Ok (replicate n 0)"
      using rd_wr_other [OF d w, of a n] log by (auto simp: log_at_def zeros_at_def length_record_image)
  qed
  have "scan_loop (rd d') fv (region_end ps fv r) [] (region_start ps fv r) =
      scan_loop (rd d') fv (region_end ps fv r) (rs @ [x]) (off + ?l)"
    using append_record [OF d _ ok, of "region_end ps fv r" "region_start ps fv r" "\<lparr>scan_records = rs, append_offset = off\<rparr>" d'] log w fit
    by (simp add: log_at_def scan_region_def)
  then show ?thesis using log fit z scan_loop_zeros [OF z] by (auto simp: log_at_def scan_region_def)
qed

end

section \<open>Records in order\<close>

lemma insort_last: "\<forall>x \<in> set xs. f x < f a \<Longrightarrow> insort_key f a xs = xs @ [a]"
  by (induction xs) auto

lemma insort_before: "f x < f a \<Longrightarrow> insort_key f x (xs @ [a]) = insort_key f x xs @ [a]"
  by (induction xs) auto

lemma sort_key_last: "\<forall>x \<in> set (xs @ ys). f x < f a \<Longrightarrow> sort_key f (xs @ a # ys) = sort_key f (xs @ ys) @ [a]"
  by (induction xs) (auto simp: insort_last insort_before)

section \<open>The file\<close>

definition region_records :: "u32 \<Rightarrow> (nat \<Rightarrow> wal_record list \<times> nat) \<Rightarrow> wal_record list" where
  "region_records fv logs = concat (map (\<lambda>r. fst (logs r)) [0..<region_count fv])"

definition file_blocks :: "(nat \<Rightarrow> nat \<Rightarrow> bytes result) \<Rightarrow> nat \<Rightarrow> u32 \<Rightarrow> state \<Rightarrow> (nat \<Rightarrow> wal_record list \<times> nat) \<Rightarrow> bool" where
  "file_blocks rd ps fv st logs \<longleftrightarrow> min_page_size \<le> ps \<and> ps < 65536 \<and> multi_region fv \<and>
     rbind (rd header_offset header_len) parse_header = Ok (ps, fv) \<and> read_state rd ps = Ok (Some st) \<and>
     (\<forall>r < region_count fv. log_at rd ps fv r (fst (logs r)) (snd (logs r)))"

text \<open>The last image a list of records gives a page is the one in the data area.\<close>

definition pages_in_place :: "(nat \<Rightarrow> nat \<Rightarrow> bytes result) \<Rightarrow> nat \<Rightarrow> u32 \<Rightarrow> (page_id \<times> bytes) list \<Rightarrow> bool" where
  "pages_in_place rd ps fv pgs \<longleftrightarrow> (\<forall>q bs. (q, bs) \<in> set pgs \<longrightarrow> 0 < q \<and> length bs = ps) \<and>
     (\<forall>q bs. map_of (rev pgs) q = Some bs \<longrightarrow> rd (data_offset_for ps fv q) ps = Ok bs)"

definition file_chain :: "u32 \<Rightarrow> state \<Rightarrow> (nat \<Rightarrow> wal_record list \<times> nat) \<Rightarrow> page_id \<Rightarrow> page_id \<Rightarrow> u64 \<Rightarrow> wal_record list \<Rightarrow> bool" where
  "file_chain fv st logs root nxt seq replay \<longleftrightarrow>
     filter (\<lambda>x. rec_seq x > st_checkpoint_seq st) (sort_key rec_seq (region_records fv logs)) = replay \<and>
     linked fv (st_checkpoint_seq st) (st_root st) replay \<and>
     chain_end (st_root st, st_next st, st_checkpoint_seq st) replay = (root, nxt, seq) \<and>
     st_checkpoint_seq st \<le> seq \<and> (\<forall>x \<in> set (region_records fv logs). rec_seq x \<le> seq)"

definition file_ok :: "(nat \<Rightarrow> nat \<Rightarrow> bytes result) \<Rightarrow> nat \<Rightarrow> u32 \<Rightarrow> page_id \<Rightarrow> page_id \<Rightarrow> u64 \<Rightarrow> wal_record list \<Rightarrow> bool" where
  "file_ok rd ps fv root nxt seq replay \<longleftrightarrow> (\<exists>st logs. file_blocks rd ps fv st logs \<and> file_chain fv st logs root nxt seq replay \<and>
     pages_in_place rd ps fv (concat (map rec_pages replay)))"

lemma follow_linked:
  "linked fv seq root rs \<Longrightarrow> follow_loop fv (root, nxt, seq) replay rs =
     (case chain_end (root, nxt, seq) rs of (a, b, c) \<Rightarrow> (a, b, c, replay @ rs))"
proof (induction rs arbitrary: root nxt seq replay)
  case (Cons r rs)
  then show ?case using Cons.IH [of "rec_seq r" "rec_root r" "rec_next r" "replay @ [r]"] by (simp add: chain_end_Cons)
qed (simp add: chain_end_def)

lemma file_scan_all:
  assumes "file_blocks rd ps fv st logs"
  shows "scan_all rd ps fv = Ok (sort_key rec_seq (region_records fv logs))"
proof -
  have "rmapM (\<lambda>r. rbind (scan_region rd ps fv r) (\<lambda>s. Ok (scan_records s))) [0..<region_count fv] =
      Ok (map (\<lambda>r. fst (logs r)) [0..<region_count fv])"
    by (rule rmapM_all_Ok) (use assms in \<open>auto simp: file_blocks_def log_at_def\<close>)
  then show ?thesis by (simp add: scan_all_def region_records_def)
qed

lemma file_committed:
  assumes "file_ok rd ps fv root nxt seq replay"
  shows "read_committed_state rd ps fv = Ok (root, nxt, seq, replay)"
proof -
  obtain st logs where f: "file_blocks rd ps fv st logs" "file_chain fv st logs root nxt seq replay"
    using assms by (auto simp: file_ok_def)
  have "read_state rd ps = Ok (Some st)" using f(1) by (simp add: file_blocks_def)
  moreover have "follow_loop fv (st_root st, st_next st, st_checkpoint_seq st) [] replay = (root, nxt, seq, replay)"
    using f(2) follow_linked [of fv "st_checkpoint_seq st" "st_root st" replay "st_next st" "[]"] by (simp add: file_chain_def)
  ultimately show ?thesis
    using file_scan_all [OF f(1)] f(2) unfolding read_committed_state_def file_chain_def by (simp only: rbind.simps option.case)
qed

lemma file_region:
  assumes "file_ok rd ps fv root nxt seq replay" "r < region_count fv"
  obtains rs off where "scan_region rd ps fv r = Ok \<lparr>scan_records = rs, append_offset = off\<rparr>" "log_at rd ps fv r rs off"
  using assms unfolding file_ok_def file_blocks_def log_at_def by blast

text \<open>Where things are.\<close>

lemma blocks_below:
  assumes "min_page_size \<le> ps" "r < region_count fv"
  shows "header_offset + header_len \<le> state_offset ps" "state_offset ps + state_len \<le> region_start ps fv r"
    "region_end ps fv r \<le> all_regions_end ps fv" "state_offset ps + state_len \<le> all_regions_end ps fv"
    "header_offset + header_len \<le> all_regions_end ps fv"
proof -
  have "Suc r * (wal_blocks * ps) \<le> region_count fv * (wal_blocks * ps)" using assms(2) by (intro mult_le_mono1) simp
  moreover have "header_len \<le> ps" "state_len \<le> ps" using assms(1) by (simp_all add: block_layout min_page_size_def)
  ultimately show "header_offset + header_len \<le> state_offset ps" "state_offset ps + state_len \<le> region_start ps fv r"
    "region_end ps fv r \<le> all_regions_end ps fv" "state_offset ps + state_len \<le> all_regions_end ps fv"
    "header_offset + header_len \<le> all_regions_end ps fv"
    by (simp_all add: header_offset_def state_offset_def region_start_def region_end_def wal_start_def wal_region_len_def all_regions_end_def)
qed

lemma data_above: "0 < q \<Longrightarrow> all_regions_end ps fv \<le> data_offset_for ps fv q"
proof -
  assume "0 < q"
  then have "1 \<le> unat q" by (simp add: Suc_leI unat_gt_0 word_gt_0)
  then have "(region_count fv * wal_blocks + 2) * ps \<le> (region_count fv * wal_blocks + 1 + unat q) * ps" by (intro mult_le_mono1) simp
  then show ?thesis by (simp add: all_regions_end_def data_offset_for_def wal_start_def wal_region_len_def algebra_simps)
qed

lemma data_apart: "p \<noteq> q \<Longrightarrow> data_offset_for ps fv p + ps \<le> data_offset_for ps fv q \<or> data_offset_for ps fv q + ps \<le> data_offset_for ps fv p"
proof -
  have *: "data_offset_for ps fv p + ps \<le> data_offset_for ps fv q" if "unat p < unat q" for p q
  proof -
    have "(region_count fv * wal_blocks + 1 + unat p + 1) * ps \<le> (region_count fv * wal_blocks + 1 + unat q) * ps"
      using that by (intro mult_le_mono1) simp
    then show ?thesis by (simp add: data_offset_for_def algebra_simps)
  qed
  assume "p \<noteq> q"
  then have "unat p < unat q \<or> unat q < unat p" by (metis linorder_neqE_nat word_unat_eq_iff)
  then show ?thesis using * by blast
qed

lemma regions_apart:
  assumes "r < r'"
  shows "region_end ps fv r \<le> region_start ps fv r'"
proof -
  have "Suc r * (wal_blocks * ps) \<le> r' * (wal_blocks * ps)" using assms by (intro mult_le_mono1) simp
  then show ?thesis by (simp add: region_start_def region_end_def wal_region_len_def)
qed

text \<open>A change outside the blocks of the file.\<close>

lemma file_blocks_cong:
  assumes "\<And>a n. a + n \<le> all_regions_end ps fv \<Longrightarrow> rd' a n = rd a n" "file_blocks rd ps fv st logs"
  shows "file_blocks rd' ps fv st logs"
proof -
  have ps: "min_page_size \<le> ps" using assms(2) by (simp add: file_blocks_def)
  have z: "0 < region_count fv" by (simp add: region_count_def wal_regions_def)
  note b = blocks_below [OF ps]
  have "rd' header_offset header_len = rd header_offset header_len" "rd' (state_offset ps) state_len = rd (state_offset ps) state_len"
    using assms(1) b(4,5) [OF z] by auto
  moreover have "log_at rd' ps fv r rs off" if "log_at rd ps fv r rs off" "r < region_count fv" for r rs off
    using that b(3) [OF that(2)] by (intro log_at_cong [OF assms(1)]) auto
  ultimately show ?thesis using assms(2) by (simp add: file_blocks_def read_state_def)
qed

section \<open>Appending a commit\<close>

lemma chain_append:
  assumes c: "file_chain fv st logs root nxt seq replay" and r: "r < region_count fv" and x: "rec_seq x = seq + 1"
      "rec_prev_seq x = seq" "rec_prev_root x = root" and s: "unat seq + 1 < 2 ^ 64"
  shows "file_chain fv st (logs(r := (fst (logs r) @ [x], off))) (rec_root x) (rec_next x) (seq + 1) (replay @ [x])"
proof -
  let ?f = "\<lambda>r. fst (logs r)"
  have up: "[0..<region_count fv] = [0..<r] @ r # [Suc r..<region_count fv]" using r upt_add_eq_append [of 0 r "region_count fv - r"] by (simp add: upt_conv_Cons)
  define A B where "A = concat (map ?f [0..<r]) @ ?f r" and "B = concat (map ?f [Suc r..<region_count fv])"
  have old: "region_records fv logs = A @ B" by (simp add: region_records_def up A_def B_def)
  have new: "region_records fv (logs(r := (?f r @ [x], off))) = A @ x # B"
  proof -
    let ?g = "\<lambda>i. fst ((logs(r := (?f r @ [x], off))) i)"
    have "map ?g [0..<r] = map ?f [0..<r]" "map ?g [Suc r..<region_count fv] = map ?f [Suc r..<region_count fv]" "?g r = ?f r @ [x]" by auto
    then show ?thesis unfolding region_records_def up A_def B_def map_append list.map concat_append concat.simps by (simp only: append_assoc append.simps)
  qed
  have seq: "seq < seq + 1" using s by (simp add: word_less_nat_alt unat_word_ariths)
  have "\<forall>y \<in> set (A @ B). rec_seq y < rec_seq x" using c seq unfolding file_chain_def old x(1) by fastforce
  note srt = sort_key_last [OF this]
  have ck: "st_checkpoint_seq st \<le> seq" using c by (simp add: file_chain_def)
  then have ck': "st_checkpoint_seq st < rec_seq x" using seq x(1) by simp
  have "linked fv (st_checkpoint_seq st) (st_root st) (replay @ [x])"
    using c linked_snoc [of fv "st_checkpoint_seq st" "st_root st" replay x] x unfolding file_chain_def chain_end_def follows_def
    by (cases "replay = []") auto
  moreover have "chain_end (st_root st, st_next st, st_checkpoint_seq st) (replay @ [x]) = (rec_root x, rec_next x, seq + 1)"
    using x(1) by (simp add: chain_end_def)
  moreover have "\<forall>y \<in> set (A @ x # B). rec_seq y \<le> seq + 1" using c seq x(1) unfolding file_chain_def old by force
  moreover have "filter (\<lambda>y. rec_seq y > st_checkpoint_seq st) (sort_key rec_seq (A @ x # B)) = replay @ [x]"
    using c ck' unfolding file_chain_def old srt by simp
  ultimately show ?thesis using ck seq unfolding file_chain_def new by simp
qed

lemma pages_appended:
  assumes old: "pages_in_place rd ps fv pgs" and new: "\<forall>(q, bs) \<in> set xs. 0 < q \<and> length bs = ps \<and> rd' (data_offset_for ps fv q) ps = Ok bs"
    and d: "distinct (map fst xs)"
    and same: "\<And>q. 0 < q \<Longrightarrow> q \<notin> fst ` set xs \<Longrightarrow> rd' (data_offset_for ps fv q) ps = rd (data_offset_for ps fv q) ps"
  shows "pages_in_place rd' ps fv (pgs @ xs)"
  unfolding pages_in_place_def
proof (intro conjI allI impI)
  fix q bs
  show "0 < q" "length bs = ps" if "(q, bs) \<in> set (pgs @ xs)" using that old new by (auto simp: pages_in_place_def)
  assume m: "map_of (rev (pgs @ xs)) q = Some bs"
  show "rd' (data_offset_for ps fv q) ps = Ok bs"
  proof (cases "q \<in> fst ` set xs")
    case True
    then obtain bs' where "map_of (rev xs) q = Some bs'" by (metis map_of_eq_None_iff not_None_eq set_rev)
    then have "(q, bs) \<in> set xs" using m map_of_SomeD [of "rev xs" q bs'] by simp
    then show ?thesis using new by auto
  next
    case False
    then have "map_of (rev xs) q = None" by (simp add: map_of_eq_None_iff)
    then have p: "map_of (rev pgs) q = Some bs" using m by (simp add: map_add_def)
    then have "(q, bs) \<in> set pgs" by (auto dest: map_of_SomeD)
    then show ?thesis using same [of q] False p old by (auto simp: pages_in_place_def)
  qed
qed

context device
begin

lemma file_append:
  assumes f: "file_ok (rd d) ps fv root nxt seq replay" and d1: "dinv d1" and r: "r < region_count fv"
    and meta: "\<And>a n. a + n \<le> all_regions_end ps fv \<Longrightarrow> rd d1 a n = rd d a n"
    and new: "\<forall>(q, bs) \<in> set (rec_pages x). 0 < q \<and> length bs = ps \<and> rd d1 (data_offset_for ps fv q) ps = Ok bs"
    and dist: "distinct (map fst (rec_pages x))"
    and same: "\<And>q. 0 < q \<Longrightarrow> q \<notin> fst ` set (rec_pages x) \<Longrightarrow> rd d1 (data_offset_for ps fv q) ps = rd d (data_offset_for ps fv q) ps"
    and scan: "scan_region (rd d) ps fv r = Ok s" and fit: "append_offset s + record_len fv (rec_pages x) \<le> region_end ps fv r"
    and x: "rec_seq x = seq + 1" "rec_prev_seq x = seq" "rec_prev_root x = root" and sq: "unat seq + 1 < 2 ^ 64"
    and ok: "record_ok fv x" and w: "wr d1 (append_offset s) (record_image fv (meta_of x) (rec_pages x)) = Ok d2"
  shows "file_ok (rd d2) ps fv (rec_root x) (rec_next x) (seq + 1) (replay @ [x])"
    "\<And>a n. all_regions_end ps fv \<le> a \<Longrightarrow> rd d2 a n = rd d1 a n"
proof -
  obtain st logs where b: "file_blocks (rd d) ps fv st logs" and c: "file_chain fv st logs root nxt seq replay"
    and p: "pages_in_place (rd d) ps fv (concat (map rec_pages replay))" using f by (auto simp: file_ok_def)
  have b1: "file_blocks (rd d1) ps fv st logs" by (rule file_blocks_cong [OF meta b])
  then have ps: "min_page_size \<le> ps" by (simp add: file_blocks_def)
  note bl = blocks_below [OF ps r]
  have lg: "log_at (rd d1) ps fv r (fst (logs r)) (snd (logs r))" using b1 r by (simp add: file_blocks_def)
  have off: "append_offset s = snd (logs r)" using b r scan by (auto simp: file_blocks_def log_at_def)
  let ?l = "record_len fv (rec_pages x)"
  let ?logs = "logs(r := (fst (logs r) @ [x], snd (logs r) + ?l))"
  have len: "length (record_image fv (meta_of x) (rec_pages x)) = ?l" by (rule length_record_image)
  have inside: "region_start ps fv r \<le> append_offset s" using lg off by (simp add: log_at_def)
  have away: "rd d2 a n = rd d1 a n" if "a + n \<le> region_start ps fv r \<or> region_end ps fv r \<le> a" for a n
    using that inside fit by (intro rd_wr_other [OF d1 w]) (auto simp: len)
  show hi: "rd d2 a n = rd d1 a n" if "all_regions_end ps fv \<le> a" for a n using that bl(3) by (intro away) auto
  have "log_at (rd d2) ps fv r' (fst (?logs r')) (snd (?logs r'))" if "r' < region_count fv" for r'
  proof (cases "r' = r")
    case True
    then show ?thesis using log_at_append [OF d1 lg ok] w fit off by simp
  next
    case False
    have "rd d2 a n = rd d1 a n" if "region_start ps fv r' \<le> a" "a + n \<le> region_end ps fv r'" for a n
      using that regions_apart [of r r' ps fv] regions_apart [of r' r ps fv] False by (intro away) (cases "r < r'"; auto)
    then show ?thesis using b1 that False by (intro log_at_cong [of ps fv r' "rd d2" "rd d1"]) (auto simp: file_blocks_def)
  qed
  moreover have "rd d2 header_offset header_len = rd d1 header_offset header_len"
    "rd d2 (state_offset ps) state_len = rd d1 (state_offset ps) state_len" using bl by (auto intro!: away)
  ultimately have "file_blocks (rd d2) ps fv st ?logs" using b1 by (simp add: file_blocks_def read_state_def)
  moreover have "file_chain fv st ?logs (rec_root x) (rec_next x) (seq + 1) (replay @ [x])" by (rule chain_append [OF c r x sq])
  moreover have "pages_in_place (rd d2) ps fv (concat (map rec_pages replay) @ rec_pages x)"
  proof (rule pages_appended [OF p _ dist])
    show "\<forall>(q, bs) \<in> set (rec_pages x). 0 < q \<and> length bs = ps \<and> rd d2 (data_offset_for ps fv q) ps = Ok bs"
      using new data_above hi by auto
  qed (use same data_above hi in auto)
  ultimately show "file_ok (rd d2) ps fv (rec_root x) (rec_next x) (seq + 1) (replay @ [x])" unfolding file_ok_def by auto
qed

end

section \<open>A new state block\<close>

text \<open>Once the state block names the committed state, no record is newer than it.\<close>

lemma chain_checkpoint:
  assumes "file_chain fv st logs root nxt seq replay"
  shows "file_chain fv \<lparr>st_root = root, st_next = nxt', st_checkpoint_seq = seq\<rparr> (logs(r := ([], off))) root nxt' seq []"
proof -
  have "set (region_records fv (logs(r := ([], off)))) \<subseteq> set (region_records fv logs)"
    by (auto simp: region_records_def split: if_splits)
  then have "\<forall>x \<in> set (region_records fv (logs(r := ([], off)))). rec_seq x \<le> seq" using assms by (auto simp: file_chain_def)
  then show ?thesis by (auto simp: file_chain_def chain_end_def filter_empty_conv)
qed

context device
begin

lemma file_checkpoint:
  assumes f: "file_ok (rd d) ps fv root nxt seq replay" and d: "dinv d" and r: "r < region_count fv"
    and img: "encode_state root nxt' seq = Ok img" and w1: "wr d (state_offset ps) img = Ok d1"
    and d2: "dinv d2" "rd d2 = rd d1" and w2: "wr d2 (region_start ps fv r) (replicate (wal_region_len ps) 0) = Ok d3"
  shows "file_ok (rd d3) ps fv root nxt' seq []"
    "scan_region (rd d3) ps fv r = Ok \<lparr>scan_records = [], append_offset = region_start ps fv r\<rparr>"
    "\<And>a n. all_regions_end ps fv \<le> a \<Longrightarrow> rd d3 a n = rd d a n"
proof -
  obtain st logs where b: "file_blocks (rd d) ps fv st logs" and c: "file_chain fv st logs root nxt seq replay"
    using f by (auto simp: file_ok_def)
  then have ps: "min_page_size \<le> ps" by (simp add: file_blocks_def)
  note bl = blocks_below [OF ps r]
  let ?st = "\<lparr>st_root = root, st_next = nxt', st_checkpoint_seq = seq\<rparr>"
  have image: "img = state_body root nxt' seq @ u64_to_le (fnv1a (state_body root nxt' seq))"
    using img encode_state_image [of root nxt' seq] by simp
  then have len: "length img = state_len" by (simp add: state_body_def state_len_def)
  have e: "region_start ps fv r + wal_region_len ps = region_end ps fv r" by (simp add: region_end_def)
  have a2: "rd d3 a n = rd d2 a n" if "a + n \<le> region_start ps fv r \<or> region_end ps fv r \<le> a" for a n
    using that e by (intro rd_wr_other [OF d2(1) w2]) auto
  have a1: "rd d1 a n = rd d a n" if "a + n \<le> state_offset ps \<or> state_offset ps + state_len \<le> a" for a n
    using that len by (intro rd_wr_other [OF d w1]) auto
  have z: "zeros_at (rd d3) (region_start ps fv r) (region_end ps fv r)" using zeros_written [OF d2(1) w2] e by simp
  note empty = log_at_zeros [OF z]
  show "scan_region (rd d3) ps fv r = Ok \<lparr>scan_records = [], append_offset = region_start ps fv r\<rparr>"
    using empty by (simp add: log_at_def)
  show "rd d3 a n = rd d a n" if "all_regions_end ps fv \<le> a" for a n using that bl(3,4) a1 a2 d2(2) by auto
  have "read_state (rd d3) ps = Ok (Some ?st)"
    using a2 [of "state_offset ps" state_len] bl(2) d2(2) rd_wr_same [OF d w1] len parse_state_image [of root nxt' seq] image
    by (simp add: read_state_def)
  moreover have "rd d3 header_offset header_len = rd d header_offset header_len"
    using a2 [of header_offset header_len] a1 [of header_offset header_len] bl(1,2) d2(2) by simp
  moreover have "log_at (rd d3) ps fv r' (fst ((logs(r := ([], region_start ps fv r))) r')) (snd ((logs(r := ([], region_start ps fv r))) r'))"
    if rc: "r' < region_count fv" for r'
  proof (cases "r' = r")
    case False
    have "rd d3 a n = rd d a n" if x: "region_start ps fv r' \<le> a" "a + n \<le> region_end ps fv r'" for a n
      using x regions_apart [of r r' ps fv] regions_apart [of r' r ps fv] False blocks_below(2) [OF ps rc] a1 [of a n] a2 [of a n] d2(2)
      by (cases "r < r'") auto
    then show ?thesis using b rc False by (intro log_at_cong [of ps fv r' "rd d3" "rd d"]) (auto simp: file_blocks_def)
  qed (use empty in simp)
  ultimately have "file_blocks (rd d3) ps fv ?st (logs(r := ([], region_start ps fv r)))" using b by (simp add: file_blocks_def)
  then show "file_ok (rd d3) ps fv root nxt' seq []"
    using chain_checkpoint [OF c, of nxt' r] unfolding file_ok_def pages_in_place_def by fastforce
qed

end

end
