(* ===== verification/Commit_View.thy ===== *)
theory Commit_View
  imports Commit_File
begin

text \<open>
  A tree read through the pages an open transaction keeps in memory and the same tree read from the
  bytes those pages encode to: the nodes may differ in where they borrow their keys from, but the
  search-tree shape, the entries and the pages of the tree are the same.
\<close>

section \<open>Nodes with the same content\<close>

lemma content_size:
  assumes "value_ok bs v" "value_ok bs' v'" "the_value bs v = the_value bs' v'"
  shows "leaf_cell_size k v' = leaf_cell_size k v" "value_pages t v' = value_pages t v"
  using assms
  by (cases v; cases v'; auto simp: value_ok_def the_value_def leaf_cell_size_def inline_len_def value_pages_def dest!: arg_cong [where f = length])+

lemma cells_total_map: "cells_total f xs = sum_list (map (\<lambda>n. slot_size + n) (map f xs))"
  by (simp add: cells_total_def comp_def)

lemma same_leaf_size:
  assumes same: "same_node (Leaf bs' es') (Leaf bs es)" and ok: "\<forall>e \<in> set es'. entry_ok bs' e" "\<forall>e \<in> set es. entry_ok bs e"
  shows "entries_pages t es' = entries_pages t es" "entries_apart t es' = entries_apart t es" "leaf_fits ps bs' es' = leaf_fits ps bs es"
proof -
  have c: "map (entry_content bs') es' = map (entry_content bs) es" using same by (simp add: same_node_def)
  have len: "length es' = length es" using c by (metis length_map)
  have at: "entry_key bs' (es' ! i) = entry_key bs (es ! i)" "value_pages t (evalue (es' ! i)) = value_pages t (evalue (es ! i))"
      "entry_len bs' (es' ! i) = entry_len bs (es ! i)" if "i < length es" for i
  proof -
    have e: "entry_content bs' (es' ! i) = entry_content bs (es ! i)" using c that len by (metis nth_map)
    then show k: "entry_key bs' (es' ! i) = entry_key bs (es ! i)" by (simp add: entry_content_def)
    have "value_ok bs' (evalue (es' ! i))" "value_ok bs (evalue (es ! i))" using ok that len by (auto simp: entry_ok_def)
    then show "value_pages t (evalue (es' ! i)) = value_pages t (evalue (es ! i))" "entry_len bs' (es' ! i) = entry_len bs (es ! i)"
      using e k content_size [of bs "evalue (es ! i)" bs' "evalue (es' ! i)"] by (auto simp: entry_content_def entry_len_def)
  qed
  show "entries_apart t es' = entries_apart t es" by (simp add: entries_apart_def sorted_wrt_iff_nth_less len at)
  have "map (\<lambda>e. value_pages t (evalue e)) es' = map (\<lambda>e. value_pages t (evalue e)) es" by (rule nth_equalityI) (auto simp: len at)
  from arg_cong [where f = "\<lambda>xs. \<Union> (set xs)", OF this] show "entries_pages t es' = entries_pages t es" by (simp add: entries_pages_def)
  have "map (entry_len bs') es' = map (entry_len bs) es" by (rule nth_equalityI) (auto simp: len at)
  then have "cells_total (entry_len bs') es' = cells_total (entry_len bs) es" by (simp add: cells_total_map)
  then show "leaf_fits ps bs' es' = leaf_fits ps bs es"
    unfolding leaf_fits_def by (simp add: all_set_conv_all_nth [where xs = es] all_set_conv_all_nth [where xs = es'] len at)
qed

lemma same_seps_size:
  assumes same: "same_node (Internal bs' l' cs') (Internal bs l cs)"
  shows "seps_fit ps bs' cs' = seps_fit ps bs cs"
proof -
  have c: "map (sep_content bs') cs' = map (sep_content bs) cs" using same by (simp add: same_node_def)
  have "map (sep_key bs') cs' = map (sep_key bs) cs" using arg_cong [where f = "map fst", OF c] by (simp add: sep_content_def comp_def)
  from arg_cong [where f = "map internal_cell_size", OF this] arg_cong [where f = set, OF this]
  have "map (sep_len bs') cs' = map (sep_len bs) cs" "sep_key bs' ` set cs' = sep_key bs ` set cs" by (simp_all add: sep_len_def comp_def cong: map_cong)
  then show ?thesis unfolding seps_fit_def cells_total_map by (metis (no_types, lifting) image_iff)
qed

section \<open>Trees with the same pages\<close>

definition mirrors :: "cow_btree \<Rightarrow> cow_btree \<Rightarrow> page_id set \<Rightarrow> bool" where
  "mirrors t t' S \<longleftrightarrow> chains_agree t t' S \<and>
     (\<forall>q \<in> S. \<forall>n. node_at t q True = Ok n \<longrightarrow> node_ok n \<longrightarrow> (\<exists>m. node_at t' q True = Ok m \<and> same_node m n \<and> node_ok m))"

lemma mirrors_subset: "mirrors t t' S \<Longrightarrow> S' \<subseteq> S \<Longrightarrow> mirrors t t' S'"
  by (auto simp: mirrors_def chains_agree_def)

lemma mirror_tree:
  "mirrors t t' (pages t h pid) \<Longrightarrow> good t h pid lo hi \<Longrightarrow>
     good t' h pid lo hi \<and> contents t' True h pid = contents t True h pid \<and> pages t' h pid = pages t h pid"
proof (induction h arbitrary: pid lo hi)
  case (Suc h)
  have ps: "t_page_size t' = t_page_size t" using Suc.prems by (simp add: mirrors_def chains_agree_def)
  show ?case
  proof (cases "pid = 0")
    case False
    from Suc.prems(2) False show ?thesis
    proof (cases rule: good_cases)
      case (leaf g bs es)
      have pg: "pages t (Suc h) pid = insert pid (entries_pages t es)" using leaf(2) False by simp
      have ok: "\<forall>e \<in> set es. entry_ok bs e" using leaf(3) by (simp add: leaf_wf_def)
      then obtain m where m: "node_at t' pid True = Ok m" "same_node m (Leaf bs es)" "node_ok m"
        using Suc.prems(1) leaf(2) pg unfolding mirrors_def by fastforce
      note ch = chains_entries [of t t' es, OF chains_subset]
      have cs: "chains_agree t t' (pages t (Suc h) pid)" "entries_pages t es \<subseteq> pages t (Suc h) pid" using Suc.prems(1) pg by (auto simp: mirrors_def)
      note ch = chains_entries [OF chains_subset [OF cs]]
      obtain bs' es' where n: "m = Leaf bs' es'" "leaf_wf t' True bs' es' lo hi"
        "map (\<lambda>e. (entry_key bs' e, the_val t' True bs' e)) es' = map (\<lambda>e. (entry_key bs e, the_val t' True bs e)) es"
        using same_leaf [OF m(2,3), of t' True lo hi] leaf(3) ch(1) by blast
      note sz = same_leaf_size [OF m(2) [unfolded n(1)] _ ok]
      have "good t' (Suc h) pid lo hi"
        by (rule good_leafI [OF m(1) [unfolded n(1)] n(2)]) (use m(3) n(1) sz ps leaf ch in auto)
      moreover have "contents t' True (Suc h) pid = contents t True (Suc h) pid" using False m(1) n leaf(2) ch(3) by simp
      moreover have "pages t' (Suc h) pid = pages t (Suc h) pid" using False m(1,3) n(1) sz(1) ch(2) pg by simp
      ultimately show ?thesis by simp
    next
      case (internal g bs l cs)
      have g: "g = h" using internal(1) by simp
      have pg: "pages t (Suc h) pid = insert pid (\<Union>i \<in> {..length cs}. pages t h (kid l cs i))" using internal(2) False by simp
      have ok: "node_ok (Internal bs l cs)" using internal(3) by (simp add: seps_wf_def)
      then obtain m where m: "node_at t' pid True = Ok m" "same_node m (Internal bs l cs)" "node_ok m"
        using Suc.prems(1) internal(2) pg unfolding mirrors_def by fastforce
      obtain bs' cs' where n: "m = Internal bs' l cs'" "seps_wf bs' cs' lo hi" "length cs' = length cs"
        "\<And>i. i \<le> length cs \<Longrightarrow> kid l cs' i = kid l cs i \<and> klo bs' lo cs' i = klo bs lo cs i \<and> khi bs' hi cs' i = khi bs hi cs i"
        using same_internal [OF m(2,3) internal(3)] by blast
      have IH: "good t' h (kid l cs i) (klo bs lo cs i) (khi bs hi cs i) \<and> contents t' True h (kid l cs i) = contents t True h (kid l cs i) \<and>
          pages t' h (kid l cs i) = pages t h (kid l cs i)" if "i \<le> length cs" for i
        using internal(5) [OF that] that pg g by (intro Suc.IH mirrors_subset [OF Suc.prems(1)]) auto
      have "good t' (Suc h) pid lo hi"
        by (rule good_internalI [OF m(1) [unfolded n(1)] n(2)])
          (use same_seps_size [OF m(2) [unfolded n(1)]] internal(4,6,7) ps n(3,4) IH g in auto)
      moreover have "map (\<lambda>i. contents t' True h (kid l cs' i)) [0..<Suc (length cs')] = map (\<lambda>i. contents t True h (kid l cs i)) [0..<Suc (length cs)]"
        using n(3,4) IH by (intro map_cong) auto
      then have "contents t' True (Suc h) pid = contents t True (Suc h) pid" using False m(1) n(1) internal(2) by (simp del: upt_Suc)
      moreover have "pages t' (Suc h) pid = pages t (Suc h) pid" using False m(1) n pg IH by auto
      ultimately show ?thesis by simp
    qed
  qed (simp add: good_0)
qed (simp add: good_def)

text \<open>The same raw pages, read back from the device.\<close>

lemma mirror_raw:
  assumes "t_page_size t' = t_page_size t" "t_page_size t < 65536" "t_dirty t' = Map.empty"
    "\<And>q. q \<in> S \<Longrightarrow> raw_page t' q True = raw_page t q True" "\<And>q p. q \<in> S \<Longrightarrow> t_dirty t q = Some p \<Longrightarrow> page_fits (t_page_size t) p"
  shows "mirrors t t' S"
  unfolding mirrors_def chains_agree_def
proof (intro conjI ballI allI impI)
  show "t_page_size t' = t_page_size t" by (rule assms(1))
  fix q assume q: "q \<in> S"
  have raw: "t_read t' (data_offset_for (t_page_size t) (t_format_version t') q) (t_page_size t) = raw_page t q True"
    using assms(4) [OF q] assms(1,3) by (simp add: raw_page_def)
  show "read_overflow_page t' q True = read_overflow_page t q True"
    using raw assms(1,3) by (simp add: read_overflow_page_def raw_page_def split: option.splits dirty_page.splits)
  fix n assume n: "node_at t q True = Ok n" "node_ok n"
  have nd: "node_at t' q True = rbind (raw_page t q True) (decode (t_page_size t))"
    using raw assms(1,3) by (simp add: node_at_def committed_node_def)
  show "\<exists>m. node_at t' q True = Ok m \<and> same_node m n \<and> node_ok m"
  proof (cases "t_dirty t q")
    case None
    then have "rbind (raw_page t q True) (decode (t_page_size t)) = Ok n" using n(1) by (simp add: raw_page_def node_at_def committed_node_def)
    then show ?thesis using nd n(2) same_node_refl by auto
  next
    case (Some p)
    show ?thesis
    proof (cases p)
      case (Encoded bs)
      then have "rbind (raw_page t q True) (decode (t_page_size t)) = Ok n" using n(1) Some by (simp add: raw_page_def node_at_def)
      then show ?thesis using nd n(2) same_node_refl by auto
    next
      case (Decoded n')
      then have "node_fits (t_page_size t) n" "n' = n" using assms(2) assms(5) [OF q Some] Some n(1) by (auto simp: node_fits_def node_at_def)
      then show ?thesis using encode_same [of "t_page_size t" n] nd Some Decoded decoded_ok by (fastforce simp: raw_page_def)
    qed
  qed
qed

end
