(* ===== verification/Commit_Device.thy ===== *)
theory Commit_Device
  imports Commit_View
begin

text \<open>
  A device that supplies only the three methods the trait \<open>Device\<close> requires, as the commit protocol
  relies on it: a locale over the device's operations, the pages a run-coalescing write puts in
  place, and the interpretation on the simulated disk.
\<close>

definition dev_write :: "'d device_ops \<Rightarrow> 'd \<Rightarrow> nat \<Rightarrow> bytes \<Rightarrow> 'd result" where
  "dev_write D d off bs = (case dv_write D d off bs of (Ok _, d') \<Rightarrow> Ok d' | (Err e, _) \<Rightarrow> Err e | (Panic, _) \<Rightarrow> Panic)"

lemma dev_write_Ok: "dev_write D d off bs = Ok d' \<longleftrightarrow> dv_write D d off bs = (Ok (), d')"
  by (auto simp: dev_write_def split: prod.splits result.splits)

lemma dbind_simps [simp]:
  "dbind (Ok x, d) f = f x d" "dbind (Err e, d) f = (Err e, d)" "dbind (Panic, d) f = (Panic, d)" "dbind (on_device d r) f = dbind (r, d) f"
  by (simp_all add: dbind_def on_device_def)

section \<open>The contract\<close>

locale solitary_device = device dinv cap "dv_read D" "dev_write D" for D :: "'d device_ops" and dinv cap +
  assumes defaults: "D = default_device (dv_read D) (dv_write D) (dv_sync D)"
    and sync_ok: "dinv d \<Longrightarrow> \<exists>d'. dv_sync D d = (Ok (), d') \<and> dinv d' \<and> cap d' = cap d \<and> dv_read D d' = dv_read D d"
    and read_inside: "dinv d \<Longrightarrow> dv_read D d off n = Ok bs \<Longrightarrow> off + n \<le> cap d"
begin

lemma gate_ops [simp]:
  "dv_commit_ready D = (\<lambda>d. d)" "dv_sync_commit D = dv_sync D" "dv_begin_commit D d = (Ok (), d)" "dv_begin_normal_commit D d = (Ok (), d)"
  "dv_end_commit D d = (None, d)" "dv_end_normal_commit D d = (None, d)" "dv_commit_generation D d = None" "dv_commit_point D d r = None"
  "dv_set_commit_point D d r p = d" "dv_forget_append_offset D d r = d" "dv_create_format_version D d = format_version" "dv_wal_region D d = 0"
  "\<not> dv_is_read_only D d" "dv_register_reader D d = (None, d)" "dv_update_reader D d tok s = d" "dv_min_reader_seq D d = None"
  "dv_absorb_offer D d root ops = (None, ops, d)" "dv_absorb_take D d = ([], d)"
  by (subst defaults, simp add: default_device_def)+

end

section \<open>Pages in the data area\<close>

text \<open>A read that meets none of the pages \<open>S\<close>: below the data area, or another page.\<close>

definition elsewhere :: "nat \<Rightarrow> u32 \<Rightarrow> page_id set \<Rightarrow> nat \<Rightarrow> nat \<Rightarrow> bool" where
  "elsewhere ps fv S a n \<longleftrightarrow> a + n \<le> all_regions_end ps fv \<or> (\<exists>q. 0 < q \<and> q \<notin> S \<and> a = data_offset_for ps fv q \<and> n = ps)"

lemma elsewhere_mono: "elsewhere ps fv S a n \<Longrightarrow> S' \<subseteq> S \<Longrightarrow> elsewhere ps fv S' a n"
  by (auto simp: elsewhere_def)

lemma data_offset_linear: "data_offset_for ps fv q = (region_count fv * wal_blocks + 1) * ps + unat q * ps"
  by (simp add: data_offset_for_def algebra_simps)

text \<open>Consecutive pages buffered for one write.\<close>

definition run_of :: "page_id \<Rightarrow> (page_id \<times> bytes) list \<Rightarrow> page_id \<Rightarrow> bool" where
  "run_of rs pgs re \<longleftrightarrow> map fst pgs = map (\<lambda>i. rs + of_nat i) [0..<length pgs] \<and> unat rs + length pgs \<le> 2 ^ 64 \<and>
     (pgs \<noteq> [] \<longrightarrow> re = rs + of_nat (length pgs))"

lemma run_nth: "run_of rs pgs re \<Longrightarrow> i < length pgs \<Longrightarrow> unat (fst (pgs ! i)) = unat rs + i"
proof -
  assume r: "run_of rs pgs re" "i < length pgs"
  have "fst (pgs ! i) = map (\<lambda>i. rs + of_nat i) [0..<length pgs] ! i" using r by (metis nth_map run_of_def)
  then have "fst (pgs ! i) = rs + of_nat i" using r(2) by simp
  moreover have "unat rs + i < 2 ^ 64" using r by (simp add: run_of_def)
  ultimately show ?thesis by (simp add: unat_word_ariths unat_of_nat)
qed

lemma slice_concat:
  "\<forall>x \<in> set xs. length x = n \<Longrightarrow> i < length xs \<Longrightarrow> slice (i * n) (i * n + n) (concat xs) = xs ! i"
proof (induction xs arbitrary: i)
  case (Cons x xs)
  then show ?case by (cases i) (auto simp: slice_def)
qed simp

context device
begin

definition puts :: "nat \<Rightarrow> u32 \<Rightarrow> (page_id \<times> bytes) list \<Rightarrow> 'd \<Rightarrow> 'd \<Rightarrow> bool" where
  "puts ps fv pgs d d' \<longleftrightarrow> dinv d' \<and> cap d' = cap d \<and> (\<forall>(q, bs) \<in> set pgs. rd d' (data_offset_for ps fv q) ps = Ok bs) \<and>
     (\<forall>a n. elsewhere ps fv (fst ` set pgs) a n \<longrightarrow> rd d' a n = rd d a n)"

lemma puts_Nil: "dinv d \<Longrightarrow> puts ps fv [] d d"
  by (simp add: puts_def)

lemma puts_trans:
  assumes "puts ps fv A d d1" "puts ps fv B d1 d2" "fst ` set A \<inter> fst ` set B = {}" "\<forall>q \<in> fst ` set A. 0 < q"
  shows "puts ps fv (A @ B) d d2"
proof -
  have "rd d2 (data_offset_for ps fv q) ps = Ok bs" if "(q, bs) \<in> set A" for q bs
  proof -
    have "0 < q" "q \<notin> fst ` set B" using that assms(3,4) by force+
    then have "rd d2 (data_offset_for ps fv q) ps = rd d1 (data_offset_for ps fv q) ps"
      using assms(2) unfolding puts_def elsewhere_def by blast
    then show ?thesis using assms(1) that by (auto simp: puts_def)
  qed
  moreover have "rd d2 a n = rd d a n" if "elsewhere ps fv (fst ` set (A @ B)) a n" for a n
    using elsewhere_mono [OF that, of "fst ` set A"] elsewhere_mono [OF that, of "fst ` set B"] assms(1,2)
    by (simp add: puts_def image_Un)
  ultimately show ?thesis using assms(1,2) unfolding puts_def by auto
qed

lemma run_written:
  assumes d: "dinv d" and run: "run_of rs pgs re" and ps: "0 < ps" and len: "\<forall>x \<in> set pgs. 0 < fst x \<and> length (snd x) = ps"
    and w: "wr d (data_offset_for ps fv rs) (concat (map snd pgs)) = Ok d'" and ne: "pgs \<noteq> []"
  shows "puts ps fv pgs d d'"
proof -
  note nth = run_nth [OF run]
  have L: "length (concat (map snd pgs)) = length pgs * ps" using len
    by (induction pgs) auto
  have rs: "0 < rs" using nth [of 0] ne len by (metis add_0_right length_greater_0_conv nth_mem word_neq_0_conv unat_eq_0)
  have "rd d' (data_offset_for ps fv q) ps = Ok bs" if "(q, bs) \<in> set pgs" for q bs
  proof -
    from that obtain i where i: "i < length pgs" "pgs ! i = (q, bs)" by (auto simp: in_set_conv_nth)
    have o: "data_offset_for ps fv q = data_offset_for ps fv rs + i * ps"
      using nth [OF i(1)] i(2) by (simp add: data_offset_linear algebra_simps)
    have "i * ps + ps \<le> length pgs * ps" using i(1) by (metis Suc_leI mult.commute mult_Suc_right mult_le_mono2 add.commute)
    then have "rd d' (data_offset_for ps fv q) ps = Ok (slice (i * ps) (i * ps + ps) (concat (map snd pgs)))"
      unfolding o by (intro wr_rd_same_slice [OF d w]) (simp add: L)
    then show ?thesis using slice_concat [of "map snd pgs" ps i] len i by simp
  qed
  moreover have "rd d' a n = rd d a n" if "elsewhere ps fv (fst ` set pgs) a n" for a n
  proof (rule rd_wr_other [OF d w])
    show "a + n \<le> data_offset_for ps fv rs \<or> data_offset_for ps fv rs + length (concat (map snd pgs)) \<le> a"
    proof (cases "a + n \<le> all_regions_end ps fv")
      case True
      then show ?thesis using data_above [OF rs, of ps fv] by simp
    next
      case False
      with that obtain q where q: "q \<notin> fst ` set pgs" "a = data_offset_for ps fv q" "n = ps" by (auto simp: elsewhere_def)
      have "unat q < unat rs \<or> unat rs + length pgs \<le> unat q"
      proof (rule ccontr)
        assume "\<not> ?thesis"
        then have i: "unat q - unat rs < length pgs" "unat rs + (unat q - unat rs) = unat q" by auto
        then have "fst (pgs ! (unat q - unat rs)) = q" using nth [OF i(1)] by (simp add: word_unat_eq_iff)
        then show False using q(1) i(1) by (metis image_eqI nth_mem)
      qed
      then show ?thesis
      proof
        assume "unat q < unat rs"
        then have "(unat q + 1) * ps \<le> unat rs * ps" by (intro mult_le_mono1) simp
        then show ?thesis using q(2,3) by (simp add: data_offset_linear algebra_simps)
      next
        assume "unat rs + length pgs \<le> unat q"
        then have "(unat rs + length pgs) * ps \<le> unat q * ps" by (intro mult_le_mono1)
        then show ?thesis using q(2) L by (simp add: data_offset_linear algebra_simps)
      qed
    qed
  qed
  ultimately show ?thesis using wr_keeps [OF d w] by (auto simp: puts_def)
qed

end

context solitary_device
begin

definition pages_inside :: "nat \<Rightarrow> u32 \<Rightarrow> 'd \<Rightarrow> (page_id \<times> bytes) list \<Rightarrow> bool" where
  "pages_inside ps fv d pgs \<longleftrightarrow> (\<forall>x \<in> set pgs. 0 < fst x \<and> length (snd x) = ps \<and> data_offset_for ps fv (fst x) + ps \<le> cap d)"

lemma flush_spec:
  assumes d: "dinv d" and run: "run_of rs pgs re" and ps: "0 < ps" and ok: "pages_inside ps fv d pgs"
  shows "\<exists>d'. flush_run D ps fv rs (concat (map snd pgs)) d = (Ok (), d') \<and> puts ps fv pgs d d'"
proof (cases "pgs = []")
  case False
  have L: "length (concat (map snd pgs)) = length pgs * ps" using ok unfolding pages_inside_def by (induction pgs) auto
  let ?i = "length pgs - 1"
  have i: "?i < length pgs" using False by simp
  have "data_offset_for ps fv rs + length pgs * ps = data_offset_for ps fv (fst (pgs ! ?i)) + ps"
  proof -
    have "unat (fst (pgs ! ?i)) + 1 = unat rs + length pgs" using run_nth [OF run i] False by (cases pgs) auto
    then have "(unat (fst (pgs ! ?i)) + 1) * ps = (unat rs + length pgs) * ps" by (rule arg_cong)
    then show ?thesis by (simp add: data_offset_linear algebra_simps)
  qed
  moreover have "data_offset_for ps fv (fst (pgs ! ?i)) + ps \<le> cap d" using ok nth_mem [OF i] by (simp add: pages_inside_def)
  ultimately obtain d' where w: "dev_write D d (data_offset_for ps fv rs) (concat (map snd pgs)) = Ok d'" using wr_inside [OF d] L by metis
  have len: "\<forall>x \<in> set pgs. 0 < fst x \<and> length (snd x) = ps" using ok by (simp add: pages_inside_def)
  have "concat (map snd pgs) \<noteq> []" using L False ps by (metis length_0_conv mult_is_0 not_gr_zero)
  then have "flush_run D ps fv rs (concat (map snd pgs)) d = (Ok (), d')" using w by (simp only: flush_run_def if_True dev_write_Ok not_False_eq_True)
  then show ?thesis using run_written [OF d run ps len w False] by blast
qed (use d puts_Nil in \<open>simp add: flush_run_def\<close>)

lemma write_runs_spec:
  assumes "dinv d" "run_of rs pgs re" "0 < ps" "pages_inside ps fv d (pgs @ xs)" "distinct (map fst (pgs @ xs))"
  shows "\<exists>d'. write_runs D ps fv (map (\<lambda>(q, bs). (q, Encoded bs)) xs) (concat (map snd pgs)) rs re d = (Ok (), d') \<and> puts ps fv (pgs @ xs) d d'"
  using assms
proof (induction xs arbitrary: pgs rs re d)
  case Nil
  then show ?case using flush_spec [OF Nil.prems(1,2,3)] by simp
next
  case (Cons x xs)
  obtain q bs where x: "x = (q, bs)" by (cases x)
  have q: "0 < q" "length bs = ps" using Cons.prems(4) x by (auto simp: pages_inside_def)
  have "unat q < 2 ^ 64" by (rule order_less_le_trans [OF unsigned_less]) simp
  then have "unat q + length [(q, bs)] \<le> 2 ^ 64" by (simp only: list.size)
  then have one: "run_of q [(q, bs)] (q + 1)" unfolding run_of_def by simp
  show ?case
  proof (cases "q = re \<and> pgs \<noteq> []")
    case True
    then have ne: "concat (map snd pgs) \<noteq> []" using Cons.prems(3,4) by (cases pgs) (auto simp: pages_inside_def)
    have "unat rs + length pgs \<noteq> 2 ^ 64"
    proof
      assume e: "unat rs + length pgs = 2 ^ 64"
      have "re = of_nat (unat rs + length pgs)" using True Cons.prems(2) by (simp add: run_of_def)
      also have "\<dots> = 0" unfolding e by simp
      finally show False using True q(1) by simp
    qed
    then have run: "run_of rs (pgs @ [(q, bs)]) (q + 1)" using True Cons.prems(2) by (auto simp: run_of_def)
    from Cons.IH [OF Cons.prems(1) run Cons.prems(3)] show ?thesis using Cons.prems(4,5) True ne x q(2) by (auto simp: dirty_bytes_def)
  next
    case False
    have ins: "pages_inside ps fv d pgs" using Cons.prems(4) by (simp add: pages_inside_def)
    obtain d1 where d1: "flush_run D ps fv rs (concat (map snd pgs)) d = (Ok (), d1)" "puts ps fv pgs d d1"
      using flush_spec [OF Cons.prems(1-3) ins] by blast
    then have "dinv d1" "cap d1 = cap d" by (auto simp: puts_def)
    moreover have "pages_inside ps fv d1 ([(q, bs)] @ xs)" using Cons.prems(4) x calculation(2) by (simp add: pages_inside_def)
    ultimately obtain d2 where d2: "write_runs D ps fv (map (\<lambda>(q, bs). (q, Encoded bs)) xs) (concat (map snd [(q, bs)])) q (q + 1) d1 = (Ok (), d2)"
      "puts ps fv ([(q, bs)] @ xs) d1 d2"
      using Cons.IH [OF _ one Cons.prems(3)] Cons.prems(5) x by fastforce
    have "puts ps fv (pgs @ ([(q, bs)] @ xs)) d d2"
      by (rule puts_trans [OF d1(2) d2(2)]) (use Cons.prems(4,5) x in \<open>auto simp: pages_inside_def\<close>)
    moreover have "write_runs D ps fv (map (\<lambda>(q, bs). (q, Encoded bs)) (x # xs)) (concat (map snd pgs)) rs re d = (Ok (), d2)"
    proof (cases "pgs = []")
      case True
      then show ?thesis using d1(1) d2(1) q(2) x by (auto simp: dirty_bytes_def flush_run_def)
    next
      case pn: False
      then show ?thesis using False d1(1) d2(1) q(2) x by (simp add: dirty_bytes_def)
    qed
    ultimately show ?thesis using x by auto
  qed
qed

end

section \<open>The simulated disk\<close>

lemma sim_ops: "dv_read sim_device = disk_read" "dev_write sim_device = disk_write"
proof -
  show "dv_read sim_device = disk_read" by (simp add: sim_device_def default_device_def)
  show "dev_write sim_device = disk_write"
    by (auto simp: fun_eq_iff dev_write_def sim_device_def default_device_def split: result.splits prod.splits)
qed

lemma sim_sync:
  assumes "disk_inv d"
  obtains d' where "dv_sync sim_device d = (Ok (), d')" "disk_sync d No_Fault = Ok (Committed, d')" "disk_inv d'" "capacity d' = capacity d"
    "volatile d' = volatile d" "durable d' = volatile d" "pending d' = []"
proof -
  obtain out d' where s: "disk_sync d No_Fault = Ok (out, d')" "disk_inv d'" using disk_sync_total [OF assms, of No_Fault] by auto
  have o: "out = Committed" "durable d' = volatile d" using disk_sync_committed [OF assms s(1)] by auto
  have v: "volatile d' = durable d'" "pending d' = []" using s(1) by (auto simp: disk_sync_def apply_pending_def Let_def)
  have "length (volatile d) = length (durable d)" by (rule disk_inv_lengths [OF assms])
  then show ?thesis using that [of d'] s o v by (simp add: sim_device_def default_device_def capacity_def)
qed

interpretation sim_dev: solitary_device sim_device disk_inv capacity
proof
  note laws = sim.rd_slice sim.rd_length sim.wr_inside sim.wr_keeps sim.rd_wr_same sim.rd_wr_other
  show "disk_inv d \<Longrightarrow> dv_read sim_device d off n = Ok bs \<Longrightarrow> i + m \<le> n \<Longrightarrow> dv_read sim_device d (off + i) m = Ok (slice i (i + m) bs)"
    "disk_inv d \<Longrightarrow> dv_read sim_device d off n = Ok bs \<Longrightarrow> length bs = n"
    "disk_inv d \<Longrightarrow> off + length bs \<le> capacity d \<Longrightarrow> \<exists>d'. dev_write sim_device d off bs = Ok d'"
    "disk_inv d \<Longrightarrow> dev_write sim_device d off bs = Ok d' \<Longrightarrow> disk_inv d' \<and> capacity d' = capacity d"
    "disk_inv d \<Longrightarrow> dev_write sim_device d off bs = Ok d' \<Longrightarrow> dv_read sim_device d' off (length bs) = Ok bs"
    "disk_inv d \<Longrightarrow> dev_write sim_device d off bs = Ok d' \<Longrightarrow> a + n \<le> off \<or> off + length bs \<le> a \<Longrightarrow>
      dv_read sim_device d' a n = dv_read sim_device d a n" for d d' off n bs i m a
    unfolding sim_ops by (fact laws)+
  show "sim_device = default_device (dv_read sim_device) (dv_write sim_device) (dv_sync sim_device)"
    by (simp add: sim_device_def default_device_def)
  show "\<exists>d'. dv_sync sim_device d = (Ok (), d') \<and> disk_inv d' \<and> capacity d' = capacity d \<and> dv_read sim_device d' = dv_read sim_device d"
    if i: "disk_inv d" for d
  proof -
    obtain d' where "dv_sync sim_device d = (Ok (), d')" "disk_inv d'" "capacity d' = capacity d" "volatile d' = volatile d" using sim_sync [OF i] by metis
    then show ?thesis by (auto simp: sim_ops disk_read_def fun_eq_iff)
  qed
  show "off + n \<le> capacity d" if "disk_inv d" "dv_read sim_device d off n = Ok bs" for d off n bs
    using that disk_inv_lengths by (simp add: sim_ops disk_read_Ok_iff capacity_def)
qed

end
