(* ===== verification/Commit_Txn.thy ===== *)
theory Commit_Txn
  imports Commit_Device
begin

text \<open>
  A transaction on a committed state: snapshots of the tree on the device, the replay of a
  transaction's operations on one, and the pages the result is written as.
\<close>

section \<open>Encoding the dirty pages\<close>

lemma decode_length: "decode ps bs = Ok m \<Longrightarrow> length bs = ps"
  by (auto simp: decode_def decode_with_def split: if_splits)

definition page_bytes :: "nat \<Rightarrow> dirty_page \<Rightarrow> bytes" where
  "page_bytes ps p = (case p of Encoded bs \<Rightarrow> bs | Decoded n \<Rightarrow> (case encode_node ps n of Ok bs \<Rightarrow> bs | _ \<Rightarrow> []))"

lemma page_bytes_fit:
  assumes "page_fits ps p" "ps < 65536"
  shows "length (page_bytes ps p) = ps" "p = Decoded n \<Longrightarrow> encode_node ps n = Ok (page_bytes ps p)"
proof -
  have enc: "\<exists>bs. encode_node ps n = Ok bs \<and> length bs = ps" if "p = Decoded n" for n
    using encode_same [of ps n] decode_length assms that unfolding node_fits_def by blast
  then show "length (page_bytes ps p) = ps" using assms(1) by (cases p) (auto simp: page_bytes_def page_fits_def)
  show "p = Decoded n \<Longrightarrow> encode_node ps n = Ok (page_bytes ps p)" using enc [of n] by (auto simp: page_bytes_def)
qed

definition written_pages :: "cow_btree \<Rightarrow> (page_id \<times> bytes) list" where
  "written_pages t = map (\<lambda>(q, p). (q, page_bytes (t_page_size t) p)) (dirty_list t)"

definition materialized :: "cow_btree \<Rightarrow> cow_btree" where
  "materialized t = t\<lparr>t_dirty := \<lambda>q. map_option (\<lambda>p. Encoded (page_bytes (t_page_size t) p)) (t_dirty t q)\<rparr>"

lemma dirty_list_props [simp]:
  "distinct (map fst (dirty_list t))" "map_of (dirty_list t) = t_dirty t" "(q, p) \<in> set (dirty_list t) \<longleftrightarrow> t_dirty t q = Some p"
proof -
  have fst: "map fst (dirty_list t) = sorted_list_of_set (dom (t_dirty t))" by (simp add: dirty_list_def comp_def)
  then show d: "distinct (map fst (dirty_list t))" by simp
  show mem: "(q, p) \<in> set (dirty_list t) \<longleftrightarrow> t_dirty t q = Some p" for q p by (auto simp: dirty_list_def image_iff)
  show "map_of (dirty_list t) = t_dirty t"
  proof
    fix q show "map_of (dirty_list t) q = t_dirty t q"
      using map_of_is_SomeI [OF d, of q] mem [of q] map_of_eq_None_iff [of "dirty_list t" q] fst
      by (cases "t_dirty t q") (auto simp: domIff)
  qed
qed

lemma dirty_list_materialized: "dirty_list (materialized t) = map (\<lambda>(q, p). (q, Encoded (page_bytes (t_page_size t) p))) (dirty_list t)"
proof -
  have "dom (t_dirty (materialized t)) = dom (t_dirty t)" by (auto simp: materialized_def)
  then show ?thesis unfolding dirty_list_def by (auto simp: materialized_def)
qed

definition encoded_over :: "nat \<Rightarrow> (page_id \<times> dirty_page) list \<Rightarrow> (page_id \<rightharpoonup> dirty_page) \<Rightarrow> (page_id \<rightharpoonup> dirty_page)" where
  "encoded_over ps xs m = (\<lambda>q. case map_of xs q of Some (Decoded n) \<Rightarrow> Some (Encoded (page_bytes ps (Decoded n))) | _ \<Rightarrow> m q)"

lemma encoded_over_Cons:
  assumes "q \<notin> fst ` set xs"
  shows "encoded_over ps ((q, Encoded bs) # xs) m = encoded_over ps xs m"
    "encoded_over ps ((q, Decoded n) # xs) m = encoded_over ps xs (m(q \<mapsto> Encoded (page_bytes ps (Decoded n))))"
proof -
  have "map_of xs q = None" using assms by (simp add: map_of_eq_None_iff)
  then show "encoded_over ps ((q, Encoded bs) # xs) m = encoded_over ps xs m"
    "encoded_over ps ((q, Decoded n) # xs) m = encoded_over ps xs (m(q \<mapsto> Encoded (page_bytes ps (Decoded n))))"
    by (auto simp: encoded_over_def fun_eq_iff split: option.split dirty_page.split)
qed

lemma materialize_fold:
  assumes "\<forall>(q, p) \<in> set xs. page_fits (t_page_size t) p" "t_page_size t < 65536" "distinct (map fst xs)"
  shows "rfold (\<lambda>t (pid, p). case p of
       Decoded n \<Rightarrow> rbind (encode_node (t_page_size t) n) (\<lambda>bs. Ok (put_page t pid (Encoded bs)))
     | Encoded _ \<Rightarrow> Ok t) t xs = Ok (t\<lparr>t_dirty := encoded_over (t_page_size t) xs (t_dirty t)\<rparr>)"
  using assms
proof (induction xs arbitrary: t)
  case (Cons x xs)
  obtain q p where x: "x = (q, p)" by (cases x)
  have nq: "q \<notin> fst ` set xs" using Cons.prems(3) x by simp
  show ?case
  proof (cases p)
    case (Encoded bs)
    then show ?thesis using Cons x encoded_over_Cons(1) [OF nq] by simp
  next
    case (Decoded n)
    have "encode_node (t_page_size t) n = Ok (page_bytes (t_page_size t) p)"
      using page_bytes_fit(2) [of "t_page_size t" p n] Cons.prems(1,2) x Decoded by simp
    then show ?thesis
      using Cons.IH [of "put_page t q (Encoded (page_bytes (t_page_size t) p))"] Cons.prems x Decoded encoded_over_Cons(2) [OF nq]
      by (simp add: put_page_def fun_upd_def)
  qed
qed (simp add: encoded_over_def)

lemma materialize_dirty_spec:
  assumes "dirty_ok t" "t_page_size t < 65536"
  shows "materialize_dirty t = Ok (materialized t)"
proof -
  have "\<forall>(q, p) \<in> set (dirty_list t). page_fits (t_page_size t) p" using assms(1) by (auto simp: dirty_ok_def)
  then have "materialize_dirty t = Ok (t\<lparr>t_dirty := encoded_over (t_page_size t) (dirty_list t) (t_dirty t)\<rparr>)"
    unfolding materialize_dirty_def by (rule materialize_fold [OF _ assms(2)]) simp
  moreover have "encoded_over (t_page_size t) (dirty_list t) (t_dirty t) = (\<lambda>q. map_option (\<lambda>p. Encoded (page_bytes (t_page_size t) p)) (t_dirty t q))"
    by (auto simp: fun_eq_iff encoded_over_def page_bytes_def split: option.split dirty_page.split)
  ultimately show ?thesis by (simp add: materialized_def)
qed

lemma encode_pending_spec:
  "encode_pending_record (materialized t) out seq prev_seq prev_root =
     Ok (out @ record_image (t_format_version t) \<lparr>meta_seq = seq, meta_prev_seq = prev_seq, meta_prev_root = prev_root,
       meta_root = t_pending_root t, meta_next = t_pending_next t\<rparr> (written_pages t))"
proof -
  have "map (\<lambda>(pid, p). (pid, case dirty_bytes p of Some bs \<Rightarrow> bs | None \<Rightarrow> [])) (dirty_list (materialized t)) = written_pages t"
    by (auto simp: dirty_list_materialized written_pages_def dirty_bytes_def)
  then show ?thesis by (simp add: encode_pending_record_def encode_record_onto_image materialized_def)
qed

section \<open>Snapshots\<close>

definition disk_tree :: "(nat \<Rightarrow> nat \<Rightarrow> bytes result) \<Rightarrow> nat \<Rightarrow> u32 \<Rightarrow> cow_btree" where
  "disk_tree rd ps fv = \<lparr>t_read = rd, t_wal_region = 0, t_commit_point = (\<lambda>_. None), t_min_reader_seq = None,
     t_page_size = ps, t_format_version = fv, t_root = 0, t_next_page_id = 0, t_dirty = Map.empty,
     t_pending_root = 0, t_pending_next = 0, t_has_pending = False, t_pending_ops = Map.empty,
     t_reuse_enabled = False, t_free_candidates = [], t_free_scan_cursor = None, t_free_list_exhausted = False,
     t_freed_this_txn = [], t_consumed_this_txn = [], t_consumed_ever_this_txn = [], t_pages_reused = 0, t_free_list_scans = 0\<rparr>"

lemma disk_tree_simps [simp]:
  "t_read (disk_tree rd ps fv) = rd" "t_page_size (disk_tree rd ps fv) = ps" "t_format_version (disk_tree rd ps fv) = fv"
  "t_dirty (disk_tree rd ps fv) = Map.empty"
  by (simp_all add: disk_tree_def)

text \<open>The tree under \<open>root\<close>, at most \<open>h\<close> levels deep, holds the entries \<open>es\<close> in pages below \<open>nxt\<close>.\<close>

definition snapshot :: "(nat \<Rightarrow> nat \<Rightarrow> bytes result) \<Rightarrow> nat \<Rightarrow> u32 \<Rightarrow> page_id \<Rightarrow> nat \<Rightarrow> page_id \<Rightarrow> (bytes \<times> bytes) list \<Rightarrow> bool" where
  "snapshot rd ps fv nxt h root es \<longleftrightarrow> good (disk_tree rd ps fv) h root [] None \<and>
     (\<forall>q \<in> pages (disk_tree rd ps fv) h root. q < nxt) \<and> contents (disk_tree rd ps fv) True h root = es"

lemma snapshot_mono: "snapshot rd ps fv nxt h root es \<Longrightarrow> nxt \<le> nxt' \<Longrightarrow> snapshot rd ps fv nxt' h root es"
  by (auto simp: snapshot_def)

lemma snapshot_empty: "0 < h \<Longrightarrow> snapshot rd ps fv nxt h 0 []"
  by (cases h) (auto simp: snapshot_def good_0)

lemma disk_view:
  "node_at (disk_tree (t_read t) (t_page_size t) (t_format_version t)) q True = node_at t q False"
  "resolve_value_at (disk_tree (t_read t) (t_page_size t) (t_format_version t)) bs v True = resolve_value_at t bs v False"
proof -
  let ?t = "disk_tree (t_read t) (t_page_size t) (t_format_version t)"
  have ov: "read_overflow_page ?t q True = read_overflow_page t q False" for q by (simp add: read_overflow_page_def)
  have "read_chain f ?t True len q out = read_chain f t False len q out" for f len q out
    by (induction f arbitrary: q out) (auto simp: ov intro: rbind_cong)
  then show "resolve_value_at ?t bs v True = resolve_value_at t bs v False"
    by (simp add: resolve_value_at_def Let_def split: value_ref.splits)
  show "node_at ?t q True = node_at t q False" by (simp add: node_at_def committed_node_def)
qed

lemma snapshot_get:
  assumes "snapshot (t_read t) (t_page_size t) (t_format_version t) nxt h root es" "h \<le> d"
  shows "get_from_root d t root k = Ok (map_of es k)"
proof -
  note v = same_view [OF disk_view, of t]
  have wf: "tree_wf t False h root [] None" and c: "contents t False h root = es"
    using assms(1) v by (auto simp: snapshot_def good_def)
  have "tree_wf t False d root [] None" "contents t False d root = es" using tree_wf_mono [OF wf assms(2)] contents_mono [OF wf assms(2)] c by auto
  then show ?thesis using descend_get_correct [of t False d root "[]" None k] by (simp add: get_from_root_def)
qed

lemma snapshot_cong:
  assumes s: "snapshot rd ps fv nxt h root es" and ps: "ps < 65536"
    and same: "\<And>q. 0 < q \<Longrightarrow> q < nxt \<Longrightarrow> rd' (data_offset_for ps fv q) ps = rd (data_offset_for ps fv q) ps"
  shows "snapshot rd' ps fv nxt h root es"
proof -
  have "raw_page (disk_tree rd' ps fv) q True = raw_page (disk_tree rd ps fv) q True" if "q \<in> pages (disk_tree rd ps fv) h root" for q
  proof -
    have "q \<noteq> 0" using that zero_not_page by metis
    then show ?thesis using that s same [of q] by (auto simp: snapshot_def raw_page_def word_gt_0)
  qed
  then have "mirrors (disk_tree rd ps fv) (disk_tree rd' ps fv) (pages (disk_tree rd ps fv) h root)" using ps by (intro mirror_raw) auto
  then show ?thesis using mirror_tree [of "disk_tree rd ps fv" "disk_tree rd' ps fv" h root "[]" None] s by (auto simp: snapshot_def)
qed

text \<open>A clean tree on a snapshot is ready for writes.\<close>

definition clean_on :: "cow_btree \<Rightarrow> page_id \<Rightarrow> page_id \<Rightarrow> bool" where
  "clean_on t nxt root \<longleftrightarrow> t_dirty t = Map.empty \<and> \<not> t_has_pending t \<and> \<not> t_reuse_enabled t \<and> t_root t = root \<and> nxt \<le> t_next_page_id t"

lemma snapshot_inv:
  assumes s: "snapshot (t_read t) (t_page_size t) (t_format_version t) nxt h root es" and t: "clean_on t nxt root"
  shows "tree_inv h t" "entries_of h t = es" "0 < t_next_page_id t \<Longrightarrow> dirty_ok (begin_txn t)"
proof -
  let ?t = "disk_tree (t_read t) (t_page_size t) (t_format_version t)"
  have ag: "agree ?t (begin_txn t) (pages ?t h root)" using t by (simp add: agree_def clean_on_def begin_txn_def)
  note f = good_frame [OF ag]
  have "txn_tree h (begin_txn t)"
    using s t f by (auto simp: txn_tree_def snapshot_def clean_on_def begin_txn_def below_def intro: less_le_trans)
  then show inv: "tree_inv h t" using t by (simp add: tree_inv_def clean_on_def)
  show "entries_of h t = es" using tree_inv_ok(2) [OF inv] f(2) s t by (simp add: snapshot_def read_root_def clean_on_def)
  show "0 < t_next_page_id t \<Longrightarrow> dirty_ok (begin_txn t)" using t by (auto simp: dirty_ok_def begin_txn_def clean_on_def)
qed

text \<open>The tree of a transaction, once its pages are on the device.\<close>

lemma commit_snapshot:
  assumes inv: "txn_tree h t" and ok: "dirty_ok t" and ps: "t_page_size t < 65536"
    and new: "\<And>q bs. (q, bs) \<in> set (written_pages t) \<Longrightarrow> rd (data_offset_for (t_page_size t) (t_format_version t) q) (t_page_size t) = Ok bs"
    and old: "\<And>q. 0 < q \<Longrightarrow> t_dirty t q = None \<Longrightarrow> rd (data_offset_for (t_page_size t) (t_format_version t) q) (t_page_size t) =
      t_read t (data_offset_for (t_page_size t) (t_format_version t) q) (t_page_size t)"
  shows "snapshot rd (t_page_size t) (t_format_version t) (t_pending_next t) h (t_pending_root t) (contents t True h (t_pending_root t))"
proof -
  let ?t = "disk_tree rd (t_page_size t) (t_format_version t)" and ?S = "pages t h (t_pending_root t)"
  have "raw_page ?t q True = raw_page t q True" if q: "q \<in> ?S" for q
  proof (cases "t_dirty t q")
    case None
    have "0 < q" using q zero_not_page by (metis word_neq_0_conv)
    then show ?thesis using old None by (simp add: raw_page_def)
  next
    case (Some p)
    then have fits: "page_fits (t_page_size t) p" using ok by (auto simp: dirty_ok_def)
    have "(q, page_bytes (t_page_size t) p) \<in> set (written_pages t)" unfolding written_pages_def set_map by (rule image_eqI [of _ _ "(q, p)"]) (use Some in simp_all)
    then have "raw_page ?t q True = Ok (page_bytes (t_page_size t) p)" using new by (simp add: raw_page_def)
    moreover have "raw_page t q True = Ok (page_bytes (t_page_size t) p)"
    proof (cases p)
      case (Encoded bs)
      then show ?thesis using Some by (simp add: raw_page_def page_bytes_def)
    next
      case (Decoded n)
      then show ?thesis using Some page_bytes_fit(2) [OF fits ps Decoded] by (simp add: raw_page_def)
    qed
    ultimately show ?thesis by simp
  qed
  then have "mirrors t ?t ?S" using ok ps by (intro mirror_raw) (auto simp: dirty_ok_def)
  from mirror_tree [OF this, of "[]" None] show ?thesis using inv by (auto simp: txn_tree_def snapshot_def below_def)
qed

section \<open>Replaying the operations of a transaction\<close>

text \<open>What a sequence of writes leaves alone.\<close>

definition txn_frame :: "cow_btree \<Rightarrow> cow_btree \<Rightarrow> bool" where
  "txn_frame t t' \<longleftrightarrow> t' = t\<lparr>t_dirty := t_dirty t', t_pending_next := t_pending_next t', t_pending_root := t_pending_root t',
     t_has_pending := t_has_pending t', t_pending_ops := t_pending_ops t'\<rparr>"

lemma txn_frame_fields:
  assumes "txn_frame t t'"
  shows "t_read t' = t_read t" "t_page_size t' = t_page_size t" "t_format_version t' = t_format_version t" "t_root t' = t_root t"
    "t_next_page_id t' = t_next_page_id t" "t_reuse_enabled t' = t_reuse_enabled t" "t_freed_this_txn t' = t_freed_this_txn t"
    "t_consumed_this_txn t' = t_consumed_this_txn t" "attach D d t = t \<Longrightarrow> attach D d t' = t'"
proof -
  note eq = assms [unfolded txn_frame_def]
  show "t_read t' = t_read t" "t_page_size t' = t_page_size t" "t_format_version t' = t_format_version t" "t_root t' = t_root t"
    "t_next_page_id t' = t_next_page_id t" "t_reuse_enabled t' = t_reuse_enabled t" "t_freed_this_txn t' = t_freed_this_txn t"
    "t_consumed_this_txn t' = t_consumed_this_txn t"
    by (subst eq, simp)+
  assume a: "attach D d t = t"
  have "dv_read D d = t_read t" "dv_wal_region D d = t_wal_region t" "dv_commit_point D d = t_commit_point t" "dv_min_reader_seq D d = t_min_reader_seq t"
    using arg_cong [OF a, of t_read] arg_cong [OF a, of t_wal_region] arg_cong [OF a, of t_commit_point] arg_cong [OF a, of t_min_reader_seq]
    by (simp_all add: attach_def)
  then show "attach D d t' = t'" by (subst (1 2) eq) (simp add: attach_def)
qed

lemma txn_frame_refl: "txn_frame t t"
  by (simp add: txn_frame_def)

lemma txn_frame_trans:
  assumes "txn_frame t t1" "txn_frame t1 t2"
  shows "txn_frame t t2"
proof -
  obtain a b c e f where 1: "t1 = t\<lparr>t_dirty := a, t_pending_next := b, t_pending_root := c, t_has_pending := e, t_pending_ops := f\<rparr>"
    using assms(1) unfolding txn_frame_def by blast
  obtain a' b' c' e' f' where 2: "t2 = t1\<lparr>t_dirty := a', t_pending_next := b', t_pending_root := c', t_has_pending := e', t_pending_ops := f'\<rparr>"
    using assms(2) unfolding txn_frame_def by blast
  show ?thesis unfolding txn_frame_def 2 1 by simp
qed

lemma written_frame: "written_by t k v t' \<Longrightarrow> txn_frame t t'"
proof -
  assume "written_by t k v t'"
  then obtain a b c f where "t' = (begin_txn t)\<lparr>t_dirty := a, t_pending_next := b, t_pending_root := c, t_pending_ops := f\<rparr>"
    unfolding written_by_def by blast
  then show ?thesis by (simp add: txn_frame_def begin_txn_def)
qed

text \<open>One write and a sequence of writes, with everything a commit needs to know of the result.\<close>

definition write_ok :: "nat \<Rightarrow> nat \<Rightarrow> write_op \<Rightarrow> bool" where
  "write_ok ps cap w \<longleftrightarrow> (\<forall>k v. w = Put k v \<longrightarrow> tree_storable ps cap k v)"

lemma write_full:
  assumes inv: "tree_inv h t" and d: "h \<le> d" and w: "write_ok (t_page_size t) cap w"
    and room: "room (t_pending_next (begin_txn t)) (write_cost d cap)" and ok: "dirty_ok (begin_txn t)"
  shows "\<exists>h' t'. run_write d t w = Ok t' \<and> tree_inv h' t' \<and> h' \<le> Suc h \<and> map_of (entries_of h' t') = spec_op (map_of (entries_of h t)) w \<and>
    dirty_ok (begin_txn t') \<and> unat (t_pending_next (begin_txn t')) \<le> unat (t_pending_next (begin_txn t)) + write_cost d cap \<and>
    0 < t_pending_next (begin_txn t') \<and> txn_frame t t' \<and> t_has_pending t'"
proof (cases w)
  case (Put k v)
  then have s: "key_fits (t_page_size t) k" "value_storable (t_page_size t) v" "chain_count (t_page_size t) v \<le> cap"
    using w by (auto simp: write_ok_def tree_storable_def)
  let ?c = "chain_count (t_page_size t) v + 2 * h + 1"
  have c: "?c \<le> write_cost d cap" using s(3) d by (simp add: write_cost_def)
  obtain h' t' where p: "put d t k v = Ok t'" "h' \<in> {h, Suc h}" "tree_inv h' t'" "entries_of h' t' = upd k v (entries_of h t)" "t_has_pending t'"
    "unat (t_pending_next t') \<le> unat (t_pending_next (begin_txn t)) + ?c" "0 < t_pending_next t'" "written_by t k (Some v) t'"
    using put_full [OF inv s(1,2) room_less [OF room c] d] by blast
  have b: "begin_txn t' = t'" using p(5) by (simp add: begin_txn_def)
  have "map_of (entries_of h' t') = spec_op (map_of (entries_of h t)) w" using p(4) Put by (auto simp: fun_eq_iff upd_lookup)
  then show ?thesis
    using p c b ok Put written_frame [OF p(8)] by (intro exI [of _ h'] exI [of _ t']) (auto simp: run_write_def written_by_def)
next
  case (Remove k)
  have c: "h \<le> write_cost d cap" using d by (simp add: write_cost_def)
  obtain t' where p: "delete d t k = Ok t'" "tree_inv h t'" "entries_of h t' = del k (entries_of h t)" "t_has_pending t'"
    "unat (t_pending_next t') \<le> unat (t_pending_next (begin_txn t)) + h" "0 < t_pending_next t'" "written_by t k None t'"
    using delete_full [OF inv room_less [OF room c] d] by blast
  have b: "begin_txn t' = t'" using p(4) by (simp add: begin_txn_def)
  have "map_of (entries_of h t') = spec_op (map_of (entries_of h t)) w" using p(3) Remove by (auto simp: fun_eq_iff del_lookup)
  then show ?thesis
    using p c b ok Remove written_frame [OF p(7)] by (intro exI [of _ h] exI [of _ t']) (auto simp: run_write_def written_by_def)
qed

lemma writes_full:
  assumes "tree_inv h t" "h + length ws \<le> d" "\<forall>w \<in> set ws. write_ok (t_page_size t) cap w"
    "room (t_pending_next (begin_txn t)) (length ws * write_cost d cap)" "dirty_ok (begin_txn t)"
  shows "\<exists>h' t'. run_writes d t ws = Ok t' \<and> tree_inv h' t' \<and> h' \<le> h + length ws \<and>
    map_of (entries_of h' t') = foldl spec_op (map_of (entries_of h t)) ws \<and> dirty_ok (begin_txn t') \<and>
    unat (t_pending_next (begin_txn t')) \<le> unat (t_pending_next (begin_txn t)) + length ws * write_cost d cap \<and> txn_frame t t' \<and>
    (ws = [] \<and> t' = t \<or> t_has_pending t')"
  using assms
proof (induction ws arbitrary: h t)
  case Nil
  then show ?case by (intro exI [of _ h] exI [of _ t]) (simp add: run_writes_def txn_frame_refl)
next
  case (Cons w ws)
  let ?c = "write_cost d cap"
  have r1: "room (t_pending_next (begin_txn t)) ?c" by (rule room_less [OF Cons.prems(4)]) simp
  obtain h1 t1 where s: "run_write d t w = Ok t1" "tree_inv h1 t1" "h1 \<le> Suc h" "map_of (entries_of h1 t1) = spec_op (map_of (entries_of h t)) w"
    "dirty_ok (begin_txn t1)" "unat (t_pending_next (begin_txn t1)) \<le> unat (t_pending_next (begin_txn t)) + ?c" "0 < t_pending_next (begin_txn t1)"
    "txn_frame t t1" "t_has_pending t1"
    using write_full [OF Cons.prems(1) _ _ r1 Cons.prems(5), of w] Cons.prems(2,3) by auto
  have r2: "room (t_pending_next (begin_txn t1)) (length ws * ?c)" using room_after [OF s(6,7)] Cons.prems(4) by simp
  have ok: "\<forall>w \<in> set ws. write_ok (t_page_size t1) cap w" using Cons.prems(3) txn_frame_fields(2) [OF s(8)] by simp
  obtain h' t' where t': "run_writes d t1 ws = Ok t'" "tree_inv h' t'" "h' \<le> h1 + length ws"
    "map_of (entries_of h' t') = foldl spec_op (map_of (entries_of h1 t1)) ws" "dirty_ok (begin_txn t')"
    "unat (t_pending_next (begin_txn t')) \<le> unat (t_pending_next (begin_txn t1)) + length ws * ?c" "txn_frame t1 t'" "ws = [] \<and> t' = t1 \<or> t_has_pending t'"
    using Cons.IH [OF s(2) _ ok r2 s(5)] s(3) Cons.prems(2) by auto
  show ?case
    using s t' txn_frame_trans [OF s(8) t'(7)] by (intro exI [of _ h'] exI [of _ t']) (auto simp: run_writes_def)
qed

end
