(* ===== verification/Commit_Rebase.thy ===== *)
theory Commit_Rebase
  imports Commit_Txn
begin

text \<open>
  Rebasing a transaction onto the committed state: first committer wins, and a transaction that is
  not beaten applies its operations to the state it finds, counters merged.
\<close>

definition overlay :: "(bytes \<rightharpoonup> bytes) \<Rightarrow> pending_ops \<Rightarrow> (bytes \<rightharpoonup> bytes)" where
  "overlay m ops = (\<lambda>k. case ops k of None \<Rightarrow> m k | Some x \<Rightarrow> x)"

definition ops_writes :: "pending_ops \<Rightarrow> write_op list" where
  "ops_writes ops = map (\<lambda>k. case ops k of Some (Some v) \<Rightarrow> Put k v | _ \<Rightarrow> Remove k) (op_keys ops)"

lemma set_op_keys: "finite (dom ops) \<Longrightarrow> set (op_keys ops) = dom ops"
  by (simp add: op_keys_def)

lemma replay_ops_writes: "replay_ops d t ops = run_writes d t (ops_writes ops)"
proof -
  have "rfold (\<lambda>t k. case ops k of Some (Some v) \<Rightarrow> put d t k v | _ \<Rightarrow> delete d t k) t ks =
      rfold (run_write d) t (map (\<lambda>k. case ops k of Some (Some v) \<Rightarrow> Put k v | _ \<Rightarrow> Remove k) ks)" for ks
    by (induction ks arbitrary: t) (auto simp: run_write_def split: option.splits intro!: rbind_cong)
  then show ?thesis by (simp add: replay_ops_def run_writes_def ops_writes_def)
qed

lemma overlay_writes:
  assumes "finite (dom ops)"
  shows "foldl spec_op m (ops_writes ops) = overlay m ops"
proof -
  have "foldl spec_op m (map (\<lambda>k. case ops k of Some (Some v) \<Rightarrow> Put k v | _ \<Rightarrow> Remove k) ks) =
      (\<lambda>k. if k \<in> set ks then (case ops k of Some x \<Rightarrow> x | None \<Rightarrow> None) else m k)" for ks
    by (induction ks arbitrary: m) (auto simp: fun_eq_iff split: option.splits)
  then show ?thesis using set_op_keys [OF assms] by (auto simp: ops_writes_def overlay_def fun_eq_iff split: option.splits)
qed

lemma length_ops_writes: "finite (dom ops) \<Longrightarrow> length (ops_writes ops) = card (dom ops)"
  by (simp add: ops_writes_def op_keys_def)

definition ops_ok :: "nat \<Rightarrow> nat \<Rightarrow> pending_ops \<Rightarrow> bool" where
  "ops_ok ps cap ops \<longleftrightarrow> finite (dom ops) \<and> (\<forall>k v. ops k = Some (Some v) \<longrightarrow> tree_storable ps cap k v)"

lemma ops_writes_ok: "ops_ok ps cap ops \<Longrightarrow> \<forall>w \<in> set (ops_writes ops). write_ok ps cap w"
  by (auto simp: ops_ok_def ops_writes_def write_ok_def split: option.splits)

section \<open>The comparison\<close>

definition beaten :: "pending_ops \<Rightarrow> (bytes \<rightharpoonup> bytes) \<Rightarrow> (bytes \<rightharpoonup> bytes) \<Rightarrow> bool" where
  "beaten ops base current \<longleftrightarrow> (\<exists>k \<in> dom ops. base k \<noteq> current k \<and> \<not> mergeable_metadata_key k)"

lemma unchanged_keys_spec:
  assumes "\<And>k. get_from_root d t (t_root t) k = Ok (base k)" "\<And>k. get_from_root d t root k = Ok (current k)"
  shows "unchanged_keys d t root ks = Ok (\<forall>k \<in> set ks. base k = current k \<or> mergeable_metadata_key k)"
  by (induction ks) (auto simp: assms)

section \<open>The rebased tree\<close>

text \<open>A tree that holds \<open>m\<close> in pages written since \<open>nx\<close>, at most \<open>n\<close> of them, over the pages \<open>t\<close> reads.\<close>

definition rebased :: "cow_btree \<Rightarrow> page_id \<Rightarrow> nat \<Rightarrow> (bytes \<rightharpoonup> bytes) \<Rightarrow> nat \<Rightarrow> cow_btree \<Rightarrow> bool" where
  "rebased t nx n m h t' \<longleftrightarrow> txn_tree h t' \<and> dirty_ok t' \<and> map_of (contents t' True h (t_pending_root t')) = m \<and>
     unat (t_pending_next t') \<le> unat nx + n \<and> t_read t' = t_read t \<and> t_page_size t' = t_page_size t \<and>
     t_format_version t' = t_format_version t \<and> t_next_page_id t' = nx \<and> t_freed_this_txn t' = [] \<and> t_consumed_this_txn t' = []"

lemma pending_flag:
  "txn_tree h (t\<lparr>t_has_pending := b\<rparr>) = txn_tree h t" "dirty_ok (t\<lparr>t_has_pending := b\<rparr>) = dirty_ok t"
  "contents (t\<lparr>t_has_pending := b\<rparr>) True h q = contents t True h q"
proof -
  have "agree t (t\<lparr>t_has_pending := b\<rparr>) S" for S by (simp add: agree_def)
  note f = good_frame [OF this]
  show "txn_tree h (t\<lparr>t_has_pending := b\<rparr>) = txn_tree h t" by (simp add: txn_tree_def f below_def)
  show "contents (t\<lparr>t_has_pending := b\<rparr>) True h q = contents t True h q" by (rule f)
  show "dirty_ok (t\<lparr>t_has_pending := b\<rparr>) = dirty_ok t" by (simp add: dirty_ok_def)
qed

definition rebase_start :: "cow_btree \<Rightarrow> page_id \<Rightarrow> page_id \<Rightarrow> cow_btree" where
  "rebase_start t root nxt =
     (let t = adopt_next_page_id ((clear_txn t)\<lparr>t_pending_ops := Map.empty, t_root := root\<rparr>) nxt in
      t\<lparr>t_pending_root := root, t_pending_next := t_next_page_id t, t_has_pending := False\<rparr>)"

lemma rebase_start_fields [simp]:
  "t_read (rebase_start t root nxt) = t_read t" "t_page_size (rebase_start t root nxt) = t_page_size t"
  "t_format_version (rebase_start t root nxt) = t_format_version t" "t_next_page_id (rebase_start t root nxt) = max nxt (t_next_page_id t)"
  "t_freed_this_txn (rebase_start t root nxt) = []" "t_consumed_this_txn (rebase_start t root nxt) = []"
  "t_pending_root (rebase_start t root nxt) = root" "t_pending_next (rebase_start t root nxt) = max nxt (t_next_page_id t)"
  "\<not> t_has_pending (rebase_start t root nxt)" "t_root (rebase_start t root nxt) = root"
  "begin_txn (rebase_start t root nxt) = (rebase_start t root nxt)\<lparr>t_has_pending := True\<rparr>"
  by (simp_all add: rebase_start_def clear_txn_def adopt_next_page_id_def Let_def begin_txn_def)

lemma rebase_start_clean: "\<not> t_reuse_enabled t \<Longrightarrow> clean_on (rebase_start t root nxt) nxt root"
  by (simp add: clean_on_def rebase_start_def clear_txn_def adopt_next_page_id_def Let_def)

lemma replay_rebased:
  assumes snap: "snapshot (t_read t) (t_page_size t) (t_format_version t) nxt h root es" and reuse: "\<not> t_reuse_enabled t"
    and ops: "ops_ok (t_page_size t) cap ops" and d: "h + card (dom ops) \<le> d" and nxt: "0 < nxt"
    and room: "room (max nxt (t_next_page_id t)) (card (dom ops) * write_cost d cap)"
  shows "\<exists>h' t'. replay_ops d (rebase_start t root nxt) ops = Ok t' \<and> txn_frame (rebase_start t root nxt) t' \<and> h' \<le> h + card (dom ops) \<and>
    rebased t (max nxt (t_next_page_id t)) (card (dom ops) * write_cost d cap) (overlay (map_of es) ops) h' t'"
proof -
  let ?t = "rebase_start t root nxt" and ?nx = "max nxt (t_next_page_id t)"
  have fin: "finite (dom ops)" using ops by (simp add: ops_ok_def)
  have s: "snapshot (t_read ?t) (t_page_size ?t) (t_format_version ?t) nxt h root es" using snap by simp
  have pos: "0 < t_next_page_id ?t" using nxt by (simp add: less_max_iff_disj)
  note si = snapshot_inv [OF s rebase_start_clean [OF reuse]]
  obtain h' t' where t': "run_writes d ?t (ops_writes ops) = Ok t'" "tree_inv h' t'" "h' \<le> h + card (dom ops)"
    "map_of (entries_of h' t') = foldl spec_op (map_of (entries_of h ?t)) (ops_writes ops)" "dirty_ok (begin_txn t')"
    "unat (t_pending_next (begin_txn t')) \<le> unat (t_pending_next (begin_txn ?t)) + card (dom ops) * write_cost d cap" "txn_frame ?t t'"
    "ops_writes ops = [] \<and> t' = ?t \<or> t_has_pending t'"
    using writes_full [OF si(1) _ _ _ si(3) [OF pos], of "ops_writes ops" d cap] d room ops_writes_ok [OF ops] length_ops_writes [OF fin] by auto
  have b: "begin_txn t' = t'\<lparr>t_has_pending := True\<rparr>" using t'(8) by (auto simp: begin_txn_def)
  have "txn_tree h' t'" using t'(2) b pending_flag(1) by (simp add: tree_inv_def)
  moreover have "dirty_ok t'" using t'(5) b pending_flag(2) by simp
  moreover have "entries_of h' t' = contents t' True h' (t_pending_root t')"
  proof -
    have "read_root t' = t_pending_root (begin_txn t')" by (rule begin_txn_root [symmetric])
    then show ?thesis using tree_inv_ok(2) [OF t'(2)] b pending_flag(3) [where t = t'] by simp
  qed
  moreover have "map_of (entries_of h' t') = overlay (map_of es) ops" using t'(4) si(2) overlay_writes [OF fin] by simp
  moreover have "unat (t_pending_next t') \<le> unat ?nx + card (dom ops) * write_cost d cap" using t'(6) b by simp
  ultimately show ?thesis
    using t'(1,3,7) txn_frame_fields [OF t'(7)] unfolding rebased_def replay_ops_writes by auto
qed

end
