(* ===== verification/Commit_Protocol.thy ===== *)
theory Commit_Protocol
  imports Commit_Rebase
begin

text \<open>
  One commit on a device shared by handles that do not overlap: what it leaves on the device, what
  it answers, and which older states stay readable.
\<close>

section \<open>A database on a device\<close>

definition holds :: "(nat \<Rightarrow> nat \<Rightarrow> bytes result) \<Rightarrow> nat \<Rightarrow> u32 \<Rightarrow> page_id \<Rightarrow> page_id \<Rightarrow> u64 \<Rightarrow> nat \<Rightarrow> (bytes \<times> bytes) list \<Rightarrow> bool" where
  "holds rd ps fv root nxt seq h es \<longleftrightarrow> (\<exists>replay. file_ok rd ps fv root nxt seq replay) \<and> snapshot rd ps fv nxt h root es \<and> 0 < nxt"

lemma region_zero: "0 < region_count fv"
  by (simp add: region_count_def wal_regions_def)

lemma holds_sizes: "holds rd ps fv root nxt seq h es \<Longrightarrow> min_page_size \<le> ps \<and> ps < 65536 \<and> multi_region fv"
  by (auto simp: holds_def file_ok_def file_blocks_def)

text \<open>The file up to page \<open>nx\<close> with \<open>n\<close> more pages lies inside the device.\<close>

definition fits_device :: "nat \<Rightarrow> u32 \<Rightarrow> page_id \<Rightarrow> nat \<Rightarrow> nat \<Rightarrow> bool" where
  "fits_device ps fv nx n c \<longleftrightarrow> (region_count fv * wal_blocks + 1 + unat nx + n) * ps \<le> c"

lemma fits_page:
  assumes "fits_device ps fv nx n c" "unat q < unat nx + n"
  shows "data_offset_for ps fv q + ps \<le> c"
proof -
  have "(region_count fv * wal_blocks + 1 + (unat q + 1)) * ps \<le> (region_count fv * wal_blocks + 1 + unat nx + n) * ps"
    using assms(2) by (intro mult_le_mono1) simp
  then show ?thesis using assms(1) by (simp add: fits_device_def data_offset_for_def algebra_simps)
qed

lemma fits_regions: "fits_device ps fv nx n c \<Longrightarrow> 0 < nx \<Longrightarrow> all_regions_end ps fv \<le> c"
proof -
  assume a: "fits_device ps fv nx n c" "0 < nx"
  then have "1 \<le> unat nx" by (simp add: Suc_leI unat_gt_0 word_gt_0)
  then have "(region_count fv * wal_blocks + 2) * ps \<le> (region_count fv * wal_blocks + 1 + unat nx + n) * ps" by (intro mult_le_mono1) simp
  then show ?thesis using a(1) by (simp add: fits_device_def all_regions_end_def wal_start_def wal_region_len_def algebra_simps)
qed

text \<open>An attached handle sees the device it is on.\<close>

definition attached :: "'d device_ops \<Rightarrow> 'd handle \<Rightarrow> bool" where
  "attached D h \<longleftrightarrow> attach D (h_dev h) (h_tree h) = h_tree h"

lemma attached_read: "attached D h \<Longrightarrow> t_read (h_tree h) = dv_read D (h_dev h)"
  unfolding attached_def by (drule arg_cong [where f = t_read]) (simp add: attach_def)

lemma attach_fields [simp]:
  "t_page_size (attach D d t) = t_page_size t" "t_format_version (attach D d t) = t_format_version t" "t_root (attach D d t) = t_root t"
  "t_next_page_id (attach D d t) = t_next_page_id t" "t_dirty (attach D d t) = t_dirty t" "t_pending_root (attach D d t) = t_pending_root t"
  "t_pending_next (attach D d t) = t_pending_next t" "t_has_pending (attach D d t) = t_has_pending t" "t_pending_ops (attach D d t) = t_pending_ops t"
  "t_reuse_enabled (attach D d t) = t_reuse_enabled t" "t_read (attach D d t) = dv_read D d" "attach D d (attach D d' t) = attach D d t"
  "dirty_list (attach D d t) = dirty_list t"
  by (simp_all add: attach_def dirty_list_def)

lemma set_dev_fields [simp]:
  "h_dev (set_dev D h d) = d" "h_tree (set_dev D h d) = attach D d (h_tree h)" "attached D (set_dev D h d)"
  by (simp_all add: set_dev_def attached_def)

lemma set_tree_fields [simp]: "h_dev (set_tree h t) = h_dev h" "h_tree (set_tree h t) = t"
  by (simp_all add: set_tree_def)

lemma set_dev_same: "attached D h \<Longrightarrow> set_dev D h (h_dev h) = h"
  by (simp add: set_dev_def attached_def)

text \<open>A handle with an open transaction.\<close>

definition in_txn :: "'d device_ops \<Rightarrow> 'd handle \<Rightarrow> nat \<Rightarrow> u32 \<Rightarrow> bool" where
  "in_txn D h ps fv \<longleftrightarrow> attached D h \<and> t_page_size (h_tree h) = ps \<and> t_format_version (h_tree h) = fv \<and>
     \<not> t_reuse_enabled (h_tree h) \<and> t_has_pending (h_tree h) \<and> h_absorb_token h = None"

text \<open>A handle between transactions, on the committed state.\<close>

definition idle_on :: "'d device_ops \<Rightarrow> 'd handle \<Rightarrow> nat \<Rightarrow> u32 \<Rightarrow> page_id \<Rightarrow> page_id \<Rightarrow> u64 \<Rightarrow> bool" where
  "idle_on D h ps fv root nxt seq \<longleftrightarrow> attached D h \<and> t_page_size (h_tree h) = ps \<and> t_format_version (h_tree h) = fv \<and>
     clean_on (h_tree h) nxt root \<and> t_pending_ops (h_tree h) = Map.empty \<and> h_absorb_token h = None \<and> h_next_seq h = seq + 1"

text \<open>
  A transaction that may commit: the handle's snapshot \<open>eb\<close> and the committed state \<open>es\<close> are on the
  device, its counters merge into \<open>ops\<close>, and the pages those operations can take (\<open>cc\<close> overflow pages
  a value at most) exist as page ids and fit the device.
\<close>

definition commit_pages :: "nat \<Rightarrow> nat \<Rightarrow> pending_ops \<Rightarrow> nat" where
  "commit_pages depth cc ops = card (dom ops) * write_cost depth cc"

definition can_commit ::
  "'d device_ops \<Rightarrow> ('d \<Rightarrow> bool) \<Rightarrow> ('d \<Rightarrow> nat) \<Rightarrow> nat \<Rightarrow> nat \<Rightarrow> 'd handle \<Rightarrow> nat \<Rightarrow> u32 \<Rightarrow> nat \<Rightarrow> (bytes \<times> bytes) list \<Rightarrow>
   page_id \<Rightarrow> page_id \<Rightarrow> u64 \<Rightarrow> nat \<Rightarrow> (bytes \<times> bytes) list \<Rightarrow> pending_ops \<Rightarrow> bool" where
  "can_commit D dinv cap depth cc h ps fv hb eb root nxt seq hc es ops \<longleftrightarrow>
     in_txn D h ps fv \<and> dinv (h_dev h) \<and> (\<exists>nb. snapshot (dv_read D (h_dev h)) ps fv nb hb (t_root (h_tree h)) eb) \<and>
     holds (dv_read D (h_dev h)) ps fv root nxt seq hc es \<and> hb \<le> depth \<and> hc + card (dom ops) \<le> depth \<and>
     merge_monotonic_metadata (\<lambda>k. Ok (map_of es k)) (t_pending_ops (h_tree h)) = Ok ops \<and>
     finite (dom (t_pending_ops (h_tree h))) \<and> ops_ok ps cc ops \<and> unat seq + 1 < 2 ^ 64 \<and>
     room (max nxt (t_next_page_id (h_tree h))) (commit_pages depth cc ops) \<and>
     fits_device ps fv (max nxt (t_next_page_id (h_tree h))) (commit_pages depth cc ops) (cap (h_dev h))"

definition commit_record :: "cow_btree \<Rightarrow> page_id \<Rightarrow> u64 \<Rightarrow> wal_record" where
  "commit_record t root seq = \<lparr>rec_seq = seq + 1, rec_prev_seq = seq, rec_prev_root = root, rec_root = t_pending_root t,
     rec_next = t_pending_next t, rec_pages = written_pages t\<rparr>"

context solitary_device
begin

lemma watermark_same: "attached D h \<Longrightarrow> update_watermark D h s = h"
  by (simp add: update_watermark_def set_dev_same split: option.split)

section \<open>Rebase\<close>

lemma rebase_spec:
  assumes h: "in_txn D h ps fv"
    and base: "snapshot (dv_read D (h_dev h)) ps fv nb hb (t_root (h_tree h)) eb" "hb \<le> depth"
    and cur: "snapshot (dv_read D (h_dev h)) ps fv nxt hc root es" "0 < nxt" "hc + card (dom ops) \<le> depth"
    and merge: "merge_monotonic_metadata (\<lambda>k. Ok (map_of es k)) (t_pending_ops (h_tree h)) = Ok ops"
    and fin: "finite (dom (t_pending_ops (h_tree h)))" and ops: "ops_ok ps cc ops"
    and nx: "nx = max nxt (t_next_page_id (h_tree h))" and room: "room nx (card (dom ops) * write_cost depth cc)"
  shows "beaten (t_pending_ops (h_tree h)) (map_of eb) (map_of es) \<Longrightarrow> rebase_pending D depth h root nxt seq = (Ok (False, h), h_dev h)"
    "\<not> beaten (t_pending_ops (h_tree h)) (map_of eb) (map_of es) \<Longrightarrow>
      \<exists>hh t'. rebase_pending D depth h root nxt seq = (Ok (True, (set_tree h t')\<lparr>h_next_seq := seq + 1\<rparr>), h_dev h) \<and>
        attach D (h_dev h) t' = t' \<and> \<not> t_reuse_enabled t' \<and> hh \<le> hc + card (dom ops) \<and>
        rebased (h_tree h) nx (card (dom ops) * write_cost depth cc) (overlay (map_of es) ops) hh t'"
proof -
  let ?t = "h_tree h" and ?ks = "op_keys (t_pending_ops (h_tree h))"
  have at: "attached D h" "t_page_size ?t = ps" "t_format_version ?t = fv" "\<not> t_reuse_enabled ?t" using h by (auto simp: in_txn_def)
  note rd = attached_read [OF at(1)]
  have g: "get_from_root depth ?t (t_root ?t) k = Ok (map_of eb k)" "get_from_root depth ?t root k = Ok (map_of es k)" for k
    using snapshot_get [of ?t nb hb "t_root ?t" eb depth k] snapshot_get [of ?t nxt hc root es depth k] base cur at rd by auto
  have u: "unchanged_keys depth ?t root ?ks = Ok (\<not> beaten (t_pending_ops ?t) (map_of eb) (map_of es))"
    unfolding unchanged_keys_spec [where base = "map_of eb" and current = "map_of es", OF g] by (auto simp: beaten_def set_op_keys [OF fin])
  show "beaten (t_pending_ops ?t) (map_of eb) (map_of es) \<Longrightarrow> rebase_pending D depth h root nxt seq = (Ok (False, h), h_dev h)"
    using u by (simp add: rebase_pending_def on_device_def Let_def)
  assume nb: "\<not> beaten (t_pending_ops ?t) (map_of eb) (map_of es)"
  have m: "merge_monotonic_metadata (get_from_root depth ?t root) (t_pending_ops ?t) = Ok ops"
  proof -
    have "get_from_root depth ?t root = (\<lambda>k. Ok (map_of es k))" using g(2) by blast
    then show ?thesis using merge by simp
  qed
  let ?s = "rebase_start ?t root nxt"
  have as: "attach D (h_dev h) ?s = ?s"
  proof -
    have "attach D (h_dev h) (rebase_start t root nxt) = rebase_start (attach D (h_dev h) t) root nxt" for t
      by (simp add: attach_def rebase_start_def clear_txn_def adopt_next_page_id_def Let_def)
    then show ?thesis using at(1) by (simp add: attached_def)
  qed
  have w: "update_watermark D ((set_tree h ?s)\<lparr>h_next_seq := seq + 1\<rparr>) seq = (set_tree h ?s)\<lparr>h_next_seq := seq + 1\<rparr>"
    by (rule watermark_same) (simp add: attached_def set_tree_def as)
  obtain hh t' where t': "replay_ops depth ?s ops = Ok t'" "txn_frame ?s t'" "hh \<le> hc + card (dom ops)"
    "rebased ?t nx (card (dom ops) * write_cost depth cc) (overlay (map_of es) ops) hh t'"
    using replay_rebased [of ?t nxt hc root es cc ops depth] cur ops room at rd nx by auto
  have "rebase_pending D depth h root nxt seq = (Ok (True, set_tree ((set_tree h ?s)\<lparr>h_next_seq := seq + 1\<rparr>) t'), h_dev h)"
    unfolding rebase_pending_def Let_def
    using u nb m w t'(1) by (simp add: on_device_def rebase_start_def Let_def set_tree_def)
  moreover have "set_tree ((set_tree h ?s)\<lparr>h_next_seq := seq + 1\<rparr>) t' = (set_tree h t')\<lparr>h_next_seq := seq + 1\<rparr>" by (simp add: set_tree_def)
  moreover have "\<not> t_reuse_enabled t'" using t'(4) by (simp add: rebased_def txn_tree_def)
  ultimately show "\<exists>hh t'. rebase_pending D depth h root nxt seq = (Ok (True, (set_tree h t')\<lparr>h_next_seq := seq + 1\<rparr>), h_dev h) \<and>
        attach D (h_dev h) t' = t' \<and> \<not> t_reuse_enabled t' \<and> hh \<le> hc + card (dom ops) \<and>
        rebased (h_tree h) nx (card (dom ops) * write_cost depth cc) (overlay (map_of es) ops) hh t'"
    using t'(3,4) txn_frame_fields(9) [OF t'(2) as] by auto
qed

section \<open>Placing the record\<close>

lemma write_at:
  assumes "dinv d" "off + length bs \<le> cap d"
  obtains d' where "dv_write D d off bs = (Ok (), d')" "dinv d'" "cap d' = cap d" "dev_write D d off bs = Ok d'"
  using wr_inside [OF assms] wr_keeps [OF assms(1)] dev_write_Ok by metis

text \<open>The state block names the committed state, and then the log region behind it is emptied.\<close>

lemma region_emptied:
  assumes h: "attached D h" "t_page_size (h_tree h) = ps" and d: "dinv (h_dev h)"
    and f: "file_ok (dv_read D (h_dev h)) ps fv root nxt seq replay" and c: "all_regions_end ps fv \<le> cap (h_dev h)"
  shows "\<exists>d2 d3. write_state_values D h root nxt' seq = (Ok (set_dev D h d2), d2) \<and>
    dv_write D d2 (region_start ps fv 0) (replicate (wal_region_len ps) 0) = (Ok (), d3) \<and> dinv d3 \<and> cap d3 = cap (h_dev h) \<and>
    file_ok (dv_read D d3) ps fv root nxt' seq [] \<and>
    scan_region (dv_read D d3) ps fv 0 = Ok \<lparr>scan_records = [], append_offset = region_start ps fv 0\<rparr> \<and>
    (\<forall>a n. all_regions_end ps fv \<le> a \<longrightarrow> dv_read D d3 a n = dv_read D (h_dev h) a n)"
proof -
  note r = region_zero [of fv]
  have ps: "min_page_size \<le> ps" using f by (auto simp: file_ok_def file_blocks_def)
  note bl = blocks_below [OF ps r]
  let ?img = "state_body root nxt' seq @ u64_to_le (fnv1a (state_body root nxt' seq))"
  have img: "encode_state root nxt' seq = Ok ?img" by (rule encode_state_image)
  have il: "length ?img = state_len" by (simp add: state_body_def state_len_def)
  obtain d1 where d1: "dv_write D (h_dev h) (state_offset ps) ?img = (Ok (), d1)" "dinv d1" "cap d1 = cap (h_dev h)" "dev_write D (h_dev h) (state_offset ps) ?img = Ok d1"
    using write_at [OF d, of "state_offset ps" ?img] il bl(4) c by auto
  obtain d2 where d2: "dv_sync D d1 = (Ok (), d2)" "dinv d2" "cap d2 = cap d1" "dv_read D d2 = dv_read D d1" using sync_ok [OF d1(2)] by blast
  have e: "region_start ps fv 0 + wal_region_len ps = region_end ps fv 0" by (simp add: region_end_def)
  obtain d3 where d3: "dv_write D d2 (region_start ps fv 0) (replicate (wal_region_len ps) 0) = (Ok (), d3)" "dinv d3" "cap d3 = cap d2"
    "dev_write D d2 (region_start ps fv 0) (replicate (wal_region_len ps) 0) = Ok d3"
    using write_at [OF d2(2), of "region_start ps fv 0" "replicate (wal_region_len ps) 0"] e bl(3) c d1(3) d2(3) by auto
  note fc = file_checkpoint [OF f d r img d1(4) d2(2,4) d3(4)]
  have "write_state_values D h root nxt' seq = (Ok (set_dev D h d2), d2)"
    using h d1(1) d2(1) img by (simp add: write_state_values_def on_device_def)
  then show ?thesis using d3 d2(3) d1(3) fc by (intro exI conjI) (assumption | simp)+
qed

lemma place_spec:
  assumes h: "attached D h" "t_page_size (h_tree h) = ps" "t_format_version (h_tree h) = fv" and d: "dinv (h_dev h)"
    and f: "file_ok (dv_read D (h_dev h)) ps fv root nxt seq replay" and scan: "scan_region (dv_read D (h_dev h)) ps fv 0 = Ok s"
    and len: "len \<le> max_record_len ps" and c: "all_regions_end ps fv \<le> cap (h_dev h)"
  shows "\<exists>off d' replay' s'. place_record D h 0 (append_offset s) len (root, nxt, seq) = (Ok (off, set_dev D h d'), d') \<and>
    dinv d' \<and> cap d' = cap (h_dev h) \<and> file_ok (dv_read D d') ps fv root nxt seq replay' \<and>
    scan_region (dv_read D d') ps fv 0 = Ok s' \<and> append_offset s' = off \<and> off + len \<le> region_end ps fv 0 \<and>
    (\<forall>a n. all_regions_end ps fv \<le> a \<longrightarrow> dv_read D d' a n = dv_read D (h_dev h) a n)"
proof (cases "append_offset s + len > region_end ps fv 0")
  case False
  then have "place_record D h 0 (append_offset s) len (root, nxt, seq) = (Ok (append_offset s, set_dev D h (h_dev h)), h_dev h)"
    using h by (simp add: place_record_def on_device_def set_dev_same)
  then show ?thesis using d f scan False by (intro exI conjI) (assumption | simp)+
next
  case True
  obtain d2 d3 where w: "write_state_values D h root nxt seq = (Ok (set_dev D h d2), d2)"
    "dv_write D d2 (region_start ps fv 0) (replicate (wal_region_len ps) 0) = (Ok (), d3)" "dinv d3" "cap d3 = cap (h_dev h)"
    "file_ok (dv_read D d3) ps fv root nxt seq []"
    "scan_region (dv_read D d3) ps fv 0 = Ok \<lparr>scan_records = [], append_offset = region_start ps fv 0\<rparr>"
    "\<forall>a n. all_regions_end ps fv \<le> a \<longrightarrow> dv_read D d3 a n = dv_read D (h_dev h) a n"
    using region_emptied [OF h(1,2) d f c] by blast
  have "place_record D h 0 (append_offset s) len (root, nxt, seq) = (Ok (region_start ps fv 0, set_dev D h d3), d3)"
    using True h w(1,2) by (simp add: place_record_def on_device_def Let_def set_dev_same) (simp add: set_dev_def)
  moreover have "region_start ps fv 0 + len \<le> region_end ps fv 0" using len by (simp add: max_record_len_def region_end_def)
  ultimately show ?thesis using w(3-7) by (intro exI conjI) (assumption | simp)+
qed

section \<open>Writing the pages\<close>

lemma written_fst: "map fst (written_pages t) = map fst (dirty_list t)"
  by (auto simp: written_pages_def)

lemma written_props:
  assumes "dirty_ok t" "t_page_size t < 65536"
  shows "distinct (map fst (written_pages t))" "fst ` set (written_pages t) = dom (t_dirty t)"
    "\<forall>x \<in> set (written_pages t). t_next_page_id t \<le> fst x \<and> fst x < t_pending_next t \<and> length (snd x) = t_page_size t"
proof -
  show "distinct (map fst (written_pages t))" by (simp add: written_fst)
  show "\<forall>x \<in> set (written_pages t). t_next_page_id t \<le> fst x \<and> fst x < t_pending_next t \<and> length (snd x) = t_page_size t"
    using assms page_bytes_fit(1) by (auto simp: written_pages_def dirty_ok_def)
  have "fst ` set (written_pages t) = fst ` set (dirty_list t)" using arg_cong [OF written_fst [of t], of set] by simp
  then show "fst ` set (written_pages t) = dom (t_dirty t)" by (auto simp: image_iff) (metis dirty_list_props(3) fst_conv)
qed

lemma write_dirty_spec:
  assumes h: "dinv (h_dev h)" "dirty_list (h_tree h) = map (\<lambda>(q, bs). (q, Encoded bs)) (written_pages t)" "t_page_size (h_tree h) = t_page_size t"
      "t_format_version (h_tree h) = t_format_version t"
    and t: "dirty_ok t" "t_page_size t < 65536" "min_page_size \<le> t_page_size t"
    and c: "fits_device (t_page_size t) (t_format_version t) nx n (cap (h_dev h))" "unat (t_pending_next t) \<le> unat nx + n"
  shows "\<exists>d'. write_dirty_pages D h = (Ok (set_dev D h d'), d') \<and> puts (t_page_size t) (t_format_version t) (written_pages t) (h_dev h) d'"
proof -
  let ?ps = "t_page_size t" and ?fv = "t_format_version t"
  note wp = written_props [OF t(1,2)]
  have pos: "0 < t_next_page_id t" using t(1) by (simp add: dirty_ok_def)
  have "pages_inside ?ps ?fv (h_dev h) ([] @ written_pages t)"
    unfolding pages_inside_def
  proof (intro ballI conjI)
    fix x assume "x \<in> set ([] @ written_pages t)"
    then have x: "t_next_page_id t \<le> fst x" "fst x < t_pending_next t" "length (snd x) = ?ps" using wp(3) by auto
    then show "0 < fst x" "length (snd x) = ?ps" using pos by auto
    show "data_offset_for ?ps ?fv (fst x) + ?ps \<le> cap (h_dev h)"
      using x(2) c(2) by (intro fits_page [OF c(1)]) (simp add: word_less_nat_alt)
  qed
  moreover have "run_of 0 [] 0" by (simp add: run_of_def)
  moreover have "0 < ?ps" using t(3) by (simp add: min_page_size_def)
  ultimately obtain d' where "write_runs D ?ps ?fv (map (\<lambda>(q, bs). (q, Encoded bs)) (written_pages t)) [] 0 0 (h_dev h) = (Ok (), d')"
      "puts ?ps ?fv (written_pages t) (h_dev h) d'"
    using write_runs_spec [OF h(1), of 0 "[]" 0 ?ps ?fv "written_pages t"] wp(1) by auto
  then show ?thesis using h by (auto simp: write_dirty_pages_def on_device_def Let_def)
qed

section \<open>Preparing\<close>

lemma committed_now:
  "holds (dv_read D d) ps fv root nxt seq h es \<Longrightarrow> current_state D d ps fv None = Ok (root, nxt, seq)"
  using file_committed by (auto simp: holds_def current_state_def)

lemma prepare_beaten:
  assumes c: "can_commit D dinv cap depth cc h ps fv hb eb root nxt seq hc es ops"
    and b: "beaten (t_pending_ops (h_tree h)) (map_of eb) (map_of es)"
  shows "prepare_commit D depth 0 None h = (Ok (Conflicted (root, nxt, seq), h), h_dev h)"
proof -
  from c have h: "in_txn D h ps fv" and cur: "holds (dv_read D (h_dev h)) ps fv root nxt seq hc es" by (auto simp: can_commit_def)
  obtain nb where nb: "snapshot (dv_read D (h_dev h)) ps fv nb hb (t_root (h_tree h)) eb" using c by (auto simp: can_commit_def)
  have "rebase_pending D depth h root nxt seq = (Ok (False, h), h_dev h)"
    using rebase_spec(1) [OF h nb, where nxt = nxt and hc = hc and root = root and es = es and ops = ops and cc = cc and depth = depth] c b
    by (auto simp: can_commit_def holds_def commit_pages_def)
  then show ?thesis using committed_now [OF cur] h by (simp add: prepare_commit_def on_device_def in_txn_def Let_def)
qed

text \<open>What a prepared commit has put on the device: every page, and room for its record.\<close>

definition ready_on :: "'d \<Rightarrow> nat \<Rightarrow> u32 \<Rightarrow> page_id \<Rightarrow> page_id \<Rightarrow> u64 \<Rightarrow> cow_btree \<Rightarrow> nat \<Rightarrow> 'd \<Rightarrow> 'd \<Rightarrow> bool" where
  "ready_on d0 ps fv root nxt seq t off d1 d2 \<longleftrightarrow> dinv d1 \<and> cap d1 = cap d0 \<and> puts ps fv (written_pages t) d1 d2 \<and>
     (\<exists>replay s. file_ok (dv_read D d1) ps fv root nxt seq replay \<and> scan_region (dv_read D d1) ps fv 0 = Ok s \<and> append_offset s = off) \<and>
     off + record_len fv (written_pages t) \<le> region_end ps fv 0 \<and>
     (\<forall>a n. all_regions_end ps fv \<le> a \<longrightarrow> dv_read D d1 a n = dv_read D d0 a n)"

lemma prepare_spec:
  assumes c: "can_commit D dinv cap depth cc h ps fv hb eb root nxt seq hc es ops"
    and b: "\<not> beaten (t_pending_ops (h_tree h)) (map_of eb) (map_of es)" and nx: "nx = max nxt (t_next_page_id (h_tree h))"
  shows "\<exists>hh t'. rebased (h_tree h) nx (commit_pages depth cc ops) (overlay (map_of es) ops) hh t' \<and> attach D (h_dev h) t' = t' \<and>
    \<not> t_reuse_enabled t' \<and> hh \<le> hc + card (dom ops) \<and>
    (if record_len fv (written_pages t') > max_record_len ps
     then prepare_commit D depth 0 None h = (Err (does_not_fit (record_len fv (written_pages t')) (max_record_len ps)), h_dev h)
     else \<exists>off d1 d2. ready_on (h_dev h) ps fv root nxt seq t' off d1 d2 \<and>
       prepare_commit D depth 0 None h =
         (Ok (Ready (seq + 1) (record_image fv (meta_of (commit_record t' root seq)) (written_pages t')) off (region_end ps fv 0),
            (set_tree h (attach D d2 (t'\<lparr>t_dirty := Map.empty\<rparr>)))\<lparr>h_next_seq := seq + 1, h_dev := d2\<rparr>), d2))"
proof -
  let ?n = "commit_pages depth cc ops"
  from c have h: "in_txn D h ps fv" and d: "dinv (h_dev h)" and cur: "holds (dv_read D (h_dev h)) ps fv root nxt seq hc es"
    and sz: "fits_device ps fv nx ?n (cap (h_dev h))" by (auto simp: can_commit_def nx)
  obtain nb where nb: "snapshot (dv_read D (h_dev h)) ps fv nb hb (t_root (h_tree h)) eb" using c by (auto simp: can_commit_def)
  have at: "attached D h" "t_page_size (h_tree h) = ps" "t_format_version (h_tree h) = fv" using h by (auto simp: in_txn_def)
  note szs = holds_sizes [OF cur]
  have pos: "0 < nx" using cur by (simp add: holds_def nx less_max_iff_disj)
  obtain hh t' where r: "rebase_pending D depth h root nxt seq = (Ok (True, (set_tree h t')\<lparr>h_next_seq := seq + 1\<rparr>), h_dev h)"
      "attach D (h_dev h) t' = t'" "\<not> t_reuse_enabled t'" "hh \<le> hc + card (dom ops)"
      "rebased (h_tree h) nx ?n (overlay (map_of es) ops) hh t'"
    using rebase_spec(2) [OF h nb, where nxt = nxt and hc = hc and root = root and es = es and ops = ops and cc = cc and depth = depth and seq = seq] c b nx
    by (auto simp: can_commit_def holds_def commit_pages_def)
  have t': "dirty_ok t'" "t_page_size t' = ps" "t_format_version t' = fv" "t_freed_this_txn t' = []" "t_consumed_this_txn t' = []"
    "unat (t_pending_next t') \<le> unat nx + ?n" using r(5) at by (auto simp: rebased_def)
  have fm: "finalize_free_list depth (seq + 1) t' = Ok t'" "materialize_dirty t' = Ok (materialized t')"
    using t' materialize_dirty_spec [of t'] szs by (simp_all add: finalize_free_list_def finalize_loop.simps)
  let ?x = "commit_record t' root seq" and ?m = "materialized t'"
  let ?img = "record_image fv (meta_of ?x) (written_pages t')"
  have enc: "encode_pending_record ?m [] (seq + 1) seq root = Ok ?img"
    using encode_pending_spec [of t' "[]" "seq + 1" seq root] t'(3) by (simp add: meta_of_def commit_record_def)
  note len = length_record_image [of fv "meta_of ?x" "written_pages t'"]
  let ?h = "set_tree (h\<lparr>h_next_seq := seq + 1\<rparr>) ?m"
  have am: "attach D d (materialized t) = materialized (attach D d t)" for d t by (simp add: materialized_def attach_def)
  have ath: "attached D ?h" using am r(2) by (simp add: attached_def set_tree_def)
  have pre: "prepare_commit D depth 0 None h = (if record_len fv (written_pages t') > max_record_len ps
      then on_device (h_dev h) (Err (does_not_fit (record_len fv (written_pages t')) (max_record_len ps)))
      else dbind (on_device (h_dev h) (rbind (scan_region (dv_read D (h_dev h)) ps fv 0) (\<lambda>s. Ok (append_offset s)))) (\<lambda>offset d.
          dbind (place_record D ?h 0 offset (record_len fv (written_pages t')) (root, nxt, seq)) (\<lambda>(offset, h) d.
          dbind (write_dirty_pages D h) (\<lambda>h d.
          on_device d (Ok (Ready (seq + 1) ?img offset (region_end ps fv 0),
            set_tree h ((h_tree h)\<lparr>t_dirty := Map.empty\<rparr>)))))))"
    unfolding prepare_commit_def using committed_now [OF cur] r(1) fm enc at len
    by (simp add: on_device_def Let_def set_tree_def)
  show ?thesis
  proof (cases "record_len fv (written_pages t') > max_record_len ps")
    case True
    then show ?thesis using pre r by (intro exI [of _ hh] exI [of _ t']) (simp add: on_device_def)
  next
    case False
    obtain replay where f: "file_ok (dv_read D (h_dev ?h)) ps fv root nxt seq replay" using cur by (auto simp: holds_def set_tree_def)
    obtain rs off where scan: "scan_region (dv_read D (h_dev ?h)) ps fv 0 = Ok \<lparr>scan_records = rs, append_offset = off\<rparr>"
      using file_region [OF f, of 0] region_zero by blast
    have hd: "h_dev ?h = h_dev h" "t_page_size (h_tree ?h) = ps" "t_format_version (h_tree ?h) = fv"
      using t' by (simp_all add: set_tree_def materialized_def)
    obtain off' d1 replay' s' where p: "place_record D ?h 0 off (record_len fv (written_pages t')) (root, nxt, seq) = (Ok (off', set_dev D ?h d1), d1)"
      "dinv d1" "cap d1 = cap (h_dev h)" "file_ok (dv_read D d1) ps fv root nxt seq replay'" "scan_region (dv_read D d1) ps fv 0 = Ok s'"
      "append_offset s' = off'" "off' + record_len fv (written_pages t') \<le> region_end ps fv 0"
      "\<forall>a n. all_regions_end ps fv \<le> a \<longrightarrow> dv_read D d1 a n = dv_read D (h_dev h) a n"
      using place_spec [OF ath hd(2,3) _ f scan, of "record_len fv (written_pages t')"] hd(1) d False fits_regions [OF sz pos] by auto
    have "dirty_list (h_tree (set_dev D ?h d1)) = map (\<lambda>(q, bs). (q, Encoded bs)) (written_pages t')"
      by (simp add: set_tree_def dirty_list_materialized written_pages_def comp_def split_def)
    then obtain d2 where w: "write_dirty_pages D (set_dev D ?h d1) = (Ok (set_dev D (set_dev D ?h d1) d2), d2)" "puts ps fv (written_pages t') d1 d2"
      using write_dirty_spec [of "set_dev D ?h d1" t' nx ?n] p(2,3) t' szs sz hd by auto
    have "set_tree (set_dev D (set_dev D ?h d1) d2) ((h_tree (set_dev D (set_dev D ?h d1) d2))\<lparr>t_dirty := Map.empty\<rparr>) =
        (set_tree h (attach D d2 (t'\<lparr>t_dirty := Map.empty\<rparr>)))\<lparr>h_next_seq := seq + 1, h_dev := d2\<rparr>"
      by (simp add: set_dev_def set_tree_def attach_def materialized_def)
    then have "prepare_commit D depth 0 None h = (Ok (Ready (seq + 1) ?img off' (region_end ps fv 0),
            (set_tree h (attach D d2 (t'\<lparr>t_dirty := Map.empty\<rparr>)))\<lparr>h_next_seq := seq + 1, h_dev := d2\<rparr>), d2)"
      using pre False scan p(1) w(1) hd(1) by (simp add: on_device_def)
    moreover have "ready_on (h_dev h) ps fv root nxt seq t' off' d1 d2" unfolding ready_on_def using p w(2) by blast
    ultimately show ?thesis using r False by (intro exI [of _ hh] exI [of _ t']) auto
  qed
qed

text \<open>The length of the record is bounded by the pages the transaction could take.\<close>

lemma rebased_record:
  assumes "rebased t0 nx n m hh t" "t_page_size t0 < 65536"
  shows "record_len (t_format_version t0) (written_pages t) \<le>
    record_minimum (t_format_version t0) + n * (page_entry_header_len (t_format_version t0) + t_page_size t0)"
proof -
  let ?fv = "t_format_version t0" and ?ps = "t_page_size t0"
  have t: "dirty_ok t" "t_page_size t = ?ps" "t_next_page_id t = nx" "unat (t_pending_next t) \<le> unat nx + n" using assms(1) by (auto simp: rebased_def)
  note wp = written_props [OF t(1)]
  have "inj_on unat (dom (t_dirty t))" by (simp add: inj_on_def word_unat_eq_iff)
  from card_image [OF this] have "length (written_pages t) = card (unat ` dom (t_dirty t))"
    using wp(1,2) t(2) assms(2) by (metis distinct_card length_map list.set_map)
  also have "\<dots> \<le> card {unat nx..<unat nx + n}"
  proof (rule card_mono)
    have "unat nx \<le> unat q \<and> unat q < unat nx + n" if "t_dirty t q \<noteq> None" for q
    proof -
      have "nx \<le> q" "q < t_pending_next t" using that t(1,3) by (auto simp: dirty_ok_def)
      then show ?thesis using t(4) by (simp add: word_le_nat_alt word_less_nat_alt)
    qed
    then show "unat ` dom (t_dirty t) \<subseteq> {unat nx..<unat nx + n}" by auto
  qed simp
  finally have n: "length (written_pages t) \<le> n" by simp
  have "length (page_entry_image ?fv x) \<le> page_entry_header_len ?fv + ?ps" if "x \<in> set (written_pages t)" for x
    using wp(3) t(2) assms(2) that by (auto simp: page_entry_image_len page_entry_len_def split: prod.split)
  then have "length (concat (map (page_entry_image ?fv) xs)) \<le> length xs * (page_entry_header_len ?fv + ?ps)"
    if "set xs \<subseteq> set (written_pages t)" for xs using that by (induction xs) (auto intro: add_mono)
  from this [of "written_pages t"] n show ?thesis
    unfolding record_len_def by (meson add_left_mono mult_le_mono1 order.refl order_trans)
qed

section \<open>Committing\<close>

lemma commit_solitary:
  assumes "in_txn D h ps fv"
  shows "commit D depth h = commit_normally D depth h"
proof -
  have a: "attached D h" "t_has_pending (h_tree h)" "h_absorb_token h = None" using assms by (auto simp: in_txn_def)
  have "h\<lparr>h_tree := (h_tree h)\<lparr>t_pending_ops := t_pending_ops (h_tree h)\<rparr>, h_absorb_token := None\<rparr> = h" using a(3) by simp
  then have "snd (park_for_absorption D h) = h" using a by (simp add: park_for_absorption_def set_dev_def set_tree_def attached_def)
  then show ?thesis using a by (simp add: commit_def)
qed

lemma abandon_same: "abandon_gate D r [] d = d"
  by (simp add: abandon_gate_def resolve_cohort_def)

lemma no_parked: "decline_parked D d = ([], d)"
  by (simp add: decline_parked_def)

lemma adopt_idle:
  assumes "in_txn D h ps fv"
  shows "idle_on D (adopt_absorbed D h root nxt seq gen c) ps fv root nxt seq" "h_dev (adopt_absorbed D h root nxt seq gen c) = h_dev h"
proof -
  have at: "attach D (h_dev h) (h_tree h) = h_tree h" using assms by (simp add: in_txn_def attached_def)
  let ?t = "adopt_next_page_id ((clear_txn (h_tree h))\<lparr>t_pending_ops := Map.empty, t_has_pending := False, t_root := root\<rparr>) nxt"
  let ?t' = "?t\<lparr>t_pending_root := t_root ?t, t_pending_next := t_next_page_id ?t\<rparr>"
  let ?h = "(set_tree h ?t')\<lparr>h_checkpoint_seq := (if c then seq else h_checkpoint_seq h), h_next_seq := seq + 1, h_seen_generation := gen\<rparr>"
  have "attach D (h_dev h) ?t' = (let t = attach D (h_dev h) (h_tree h);
      t = adopt_next_page_id ((clear_txn t)\<lparr>t_pending_ops := Map.empty, t_has_pending := False, t_root := root\<rparr>) nxt in
      t\<lparr>t_pending_root := t_root t, t_pending_next := t_next_page_id t\<rparr>)"
    by (simp add: attach_def clear_txn_def adopt_next_page_id_def Let_def)
  then have att: "attached D ?h" using at by (simp add: attached_def set_tree_def Let_def)
  have "adopt_absorbed D h root nxt seq gen c = ?h" unfolding adopt_absorbed_def Let_def by (rule watermark_same [OF att])
  then show "idle_on D (adopt_absorbed D h root nxt seq gen c) ps fv root nxt seq" "h_dev (adopt_absorbed D h root nxt seq gen c) = h_dev h"
    using att assms by (simp_all add: idle_on_def clean_on_def in_txn_def set_tree_def clear_txn_def adopt_next_page_id_def)
qed

lemma commit_beaten:
  assumes c: "can_commit D dinv cap depth cc h ps fv hb eb root nxt seq hc es ops"
    and b: "beaten (t_pending_ops (h_tree h)) (map_of eb) (map_of es)"
  shows "\<exists>h'. commit D depth h = (Ok (Outcome_Conflict, h'), h_dev h) \<and> h_dev h' = h_dev h \<and> idle_on D h' ps fv root nxt seq"
proof -
  from c have h: "in_txn D h ps fv" and cur: "holds (dv_read D (h_dev h)) ps fv root nxt seq hc es" by (auto simp: can_commit_def)
  have at: "attached D h" "t_page_size (h_tree h) = ps" "t_format_version (h_tree h) = fv" using h by (auto simp: in_txn_def)
  obtain replay where "read_committed_state (dv_read D (h_dev h)) ps fv = Ok (root, nxt, seq, replay)"
    using cur file_committed by (auto simp: holds_def)
  then have "resolve_state_at_least (\<lambda>_. None) (\<lambda>_. dv_read D (h_dev h)) ps fv seq = Ok (Some (root, nxt, seq))"
    by (simp add: resolve_state_at_least_def)
  then have "commit D depth h = (Ok (Outcome_Conflict, adopt_absorbed D h root nxt seq None True), h_dev h)"
    using prepare_beaten [OF c b] at adopt_idle(2) [OF h]
    by (simp add: commit_solitary [OF h] commit_normally_def set_dev_same no_parked abandon_same finish_conflict_def on_device_def Let_def)
  then show ?thesis using adopt_idle [OF h] by blast
qed

text \<open>The end of a commit that led no cohort.\<close>

lemma finish_spec:
  assumes w: "dv_write D (h_dev h) off rec = (Ok (), d3)" and s: "dv_sync D d3 = (Ok (), d4)" and ne: "rec \<noteq> []"
  shows "finish_commit D region h seq rec off final [] =
    (let t = attach D d4 (h_tree h) in
     (Ok (Outcome_Committed, (set_tree h (t\<lparr>t_root := t_pending_root t, t_next_page_id := t_pending_next t, t_dirty := Map.empty,
        t_pending_ops := Map.empty, t_has_pending := False\<rparr>))\<lparr>h_dev := d4, h_next_seq := seq + 1, h_seen_generation := None\<rparr>), d4))"
proof -
  let ?t = "attach D d4 (h_tree h)"
  let ?t' = "?t\<lparr>t_root := t_pending_root ?t, t_next_page_id := t_pending_next ?t, t_dirty := Map.empty, t_pending_ops := Map.empty, t_has_pending := False\<rparr>"
  let ?h = "(set_tree (set_dev D h d4) ?t')\<lparr>h_next_seq := seq + 1, h_seen_generation := None\<rparr>"
  have "attached D ?h" by (simp add: attached_def set_tree_def set_dev_def attach_def)
  note u = watermark_same [OF this, of seq]
  have p: "publish_tickets D [] d3 = d3" by (simp add: publish_tickets_def)
  obtain r n q where f: "final = (r, n, q)" by (metis prod_cases3)
  have "finish_commit D region h seq rec off final [] = (Ok (Outcome_Committed, update_watermark D ?h seq), h_dev (update_watermark D ?h seq))"
    using w s ne f p by (simp add: finish_commit_def resolve_cohort_def on_device_def Let_def)
  then show ?thesis unfolding u by (simp add: set_tree_def set_dev_def Let_def)
qed

text \<open>The record of a prepared commit, once appended, leads to the transaction's tree.\<close>

lemma record_appended:
  assumes r: "ready_on d0 ps fv root nxt seq t off d1 d2" and t: "txn_tree hh t" "dirty_ok t" "t_page_size t = ps" "t_format_version t = fv"
      "t_read t = dv_read D d0" "nxt \<le> t_next_page_id t"
    and sz: "ps < 65536" "multi_region fv" and sq: "unat seq + 1 < 2 ^ 64" and len: "record_len fv (written_pages t) \<le> max_record_len ps"
    and w: "dev_write D d2 off (record_image fv (meta_of (commit_record t root seq)) (written_pages t)) = Ok d3"
  shows "holds (dv_read D d3) ps fv (t_pending_root t) (t_pending_next t) (seq + 1) hh (contents t True hh (t_pending_root t))"
    "snapshot (dv_read D d0) ps fv nb hb r e \<Longrightarrow> nb \<le> nxt \<Longrightarrow> snapshot (dv_read D d3) ps fv nb hb r e"
proof -
  let ?x = "commit_record t root seq" and ?W = "written_pages t"
  obtain replay s where f: "file_ok (dv_read D d1) ps fv root nxt seq replay" "scan_region (dv_read D d1) ps fv 0 = Ok s" "append_offset s = off"
    using r by (auto simp: ready_on_def)
  have p: "puts ps fv ?W d1 d2" and d1: "\<And>a n. all_regions_end ps fv \<le> a \<Longrightarrow> dv_read D d1 a n = dv_read D d0 a n"
    and fit: "off + record_len fv ?W \<le> region_end ps fv 0" using r by (auto simp: ready_on_def)
  note wp = written_props [OF t(2)]
  have pos: "0 < t_next_page_id t" using t(2) by (simp add: dirty_ok_def)
  have new: "\<forall>(q, bs) \<in> set ?W. 0 < q \<and> length bs = ps \<and> dv_read D d2 (data_offset_for ps fv q) ps = Ok bs"
    using wp(3) p pos t(3) sz(1) by (fastforce simp: puts_def)
  have same: "dv_read D d2 (data_offset_for ps fv q) ps = dv_read D d1 (data_offset_for ps fv q) ps" if "0 < q" "q \<notin> fst ` set ?W" for q
    using p that unfolding puts_def elsewhere_def by blast
  have meta: "dv_read D d2 a n = dv_read D d1 a n" if "a + n \<le> all_regions_end ps fv" for a n
    using p that unfolding puts_def elsewhere_def by blast
  have m: "max_record_len ps < 4294967296" using sz(1) by (simp add: max_record_len_def wal_region_len_def wal_blocks_def)
  have "unat (seq + 1) = unat seq + 1" using sq by (simp add: unat_word_ariths)
  then have sn: "seq + 1 \<noteq> 0" by (metis add_is_0 one_neq_zero unat_0)
  have ok: "record_ok fv ?x"
    using wp(3) t(3) sz m len sn by (auto simp: record_ok_def commit_record_def page_ok_def max_page_image_len_def)
  have a: "file_ok (dv_read D d3) ps fv (rec_root ?x) (rec_next ?x) (seq + 1) (replay @ [?x])"
    "\<And>a n. all_regions_end ps fv \<le> a \<Longrightarrow> dv_read D d3 a n = dv_read D d2 a n"
    using file_append [where ?d1.0 = d2 and r = 0 and x = ?x and s = s and ?d2.0 = d3, OF f(1)] region_zero meta p new same wp(1) f(2,3) fit sq ok w t(3) sz(1)
    by (auto simp: commit_record_def puts_def)
  have pg: "dv_read D d3 (data_offset_for ps fv q) ps = dv_read D d0 (data_offset_for ps fv q) ps" if "0 < q" "t_dirty t q = None" for q
    using that a(2) d1 same data_above [OF that(1)] wp(2) t(3) sz(1) by (auto simp: domIff)
  have "snapshot (dv_read D d3) (t_page_size t) (t_format_version t) (t_pending_next t) hh (t_pending_root t) (contents t True hh (t_pending_root t))"
    by (rule commit_snapshot [OF t(1,2)]) (use new a(2) data_above pg t sz in auto)
  moreover have "0 < t_pending_next t" using t(2) by (auto simp: dirty_ok_def)
  ultimately show "holds (dv_read D d3) ps fv (t_pending_root t) (t_pending_next t) (seq + 1) hh (contents t True hh (t_pending_root t))"
    using a(1) t(3,4) by (auto simp: holds_def commit_record_def)
  assume e: "snapshot (dv_read D d0) ps fv nb hb r e" "nb \<le> nxt"
  have "t_dirty t q = None" if "q < nb" for q
  proof (rule ccontr)
    assume "t_dirty t q \<noteq> None"
    then have "t_next_page_id t \<le> q" using t(2) by (auto simp: dirty_ok_def)
    then show False using that e(2) t(6) by simp
  qed
  then show "snapshot (dv_read D d3) ps fv nb hb r e" using pg by (intro snapshot_cong [OF e(1) sz(1)]) auto
qed

text \<open>What a commit that took effect leaves.\<close>

definition committed_as :: "'d handle \<Rightarrow> nat \<Rightarrow> u32 \<Rightarrow> page_id \<Rightarrow> u64 \<Rightarrow> nat \<Rightarrow> (bytes \<rightharpoonup> bytes) \<Rightarrow> 'd handle \<Rightarrow> bool" where
  "committed_as h ps fv nxt seq levels m h' \<longleftrightarrow> dinv (h_dev h') \<and> cap (h_dev h') = cap (h_dev h) \<and>
     (\<exists>d. dinv d \<and> dv_sync D d = (Ok (), h_dev h')) \<and>
     (\<exists>root' nxt' hh es'. holds (dv_read D (h_dev h')) ps fv root' nxt' (seq + 1) hh es' \<and> map_of es' = m \<and> hh \<le> levels \<and>
        nxt \<le> nxt' \<and> idle_on D h' ps fv root' nxt' (seq + 1)) \<and>
     (\<forall>nb hb r e. snapshot (dv_read D (h_dev h)) ps fv nb hb r e \<longrightarrow> nb \<le> nxt \<longrightarrow> snapshot (dv_read D (h_dev h')) ps fv nb hb r e)"

lemma commit_ready:
  assumes c: "can_commit D dinv cap depth cc h ps fv hb eb root nxt seq hc es ops"
    and nx: "nx = max nxt (t_next_page_id (h_tree h))" and t: "rebased (h_tree h) nx n m hh t"
    and len: "record_len fv (written_pages t) \<le> max_record_len ps" and r: "ready_on (h_dev h) ps fv root nxt seq t off d1 d2"
    and p: "prepare_commit D depth 0 None h =
         (Ok (Ready (seq + 1) (record_image fv (meta_of (commit_record t root seq)) (written_pages t)) off (region_end ps fv 0),
            (set_tree h (attach D d2 (t\<lparr>t_dirty := Map.empty\<rparr>)))\<lparr>h_next_seq := seq + 1, h_dev := d2\<rparr>), d2)"
    and lv: "hh \<le> levels"
  shows "\<exists>h'. commit D depth h = (Ok (Outcome_Committed, h'), h_dev h') \<and> committed_as h ps fv nxt seq levels m h'"
proof -
  from c have h: "in_txn D h ps fv" and cur: "holds (dv_read D (h_dev h)) ps fv root nxt seq hc es"
    and sz: "fits_device ps fv nx (commit_pages depth cc ops) (cap (h_dev h))" and sq: "unat seq + 1 < 2 ^ 64" by (auto simp: can_commit_def nx)
  have at: "attached D h" "t_page_size (h_tree h) = ps" "t_format_version (h_tree h) = fv" using h by (auto simp: in_txn_def)
  note szs = holds_sizes [OF cur]
  have pos: "0 < nx" using cur by (simp add: holds_def nx less_max_iff_disj)
  have t': "txn_tree hh t" "dirty_ok t" "t_page_size t = ps" "t_format_version t = fv" "t_read t = dv_read D (h_dev h)" "nxt \<le> t_next_page_id t"
    "map_of (contents t True hh (t_pending_root t)) = m"
    using t at attached_read [OF at(1)] nx by (auto simp: rebased_def)
  let ?img = "record_image fv (meta_of (commit_record t root seq)) (written_pages t)"
  let ?h2 = "(set_tree h (attach D d2 (t\<lparr>t_dirty := Map.empty\<rparr>)))\<lparr>h_next_seq := seq + 1, h_dev := d2\<rparr>"
  note il = length_record_image [of fv "meta_of (commit_record t root seq)" "written_pages t"]
  have ne: "?img \<noteq> []" using il by (auto simp: record_len_def record_minimum_def split: if_splits)
  have d2: "dinv d2" "cap d2 = cap (h_dev h)" using r by (auto simp: ready_on_def puts_def)
  have "off + length ?img \<le> cap d2"
    using r il fits_regions [OF sz pos] blocks_below(3) [of ps 0 fv] szs region_zero d2(2) by (auto simp: ready_on_def intro: order_trans)
  then obtain d3 where d3: "dv_write D d2 off ?img = (Ok (), d3)" "dinv d3" "cap d3 = cap d2" "dev_write D d2 off ?img = Ok d3"
    using write_at [OF d2(1)] by blast
  obtain d4 where d4: "dv_sync D d3 = (Ok (), d4)" "dinv d4" "cap d4 = cap d3" "dv_read D d4 = dv_read D d3" using sync_ok [OF d3(2)] by blast
  have ra: "holds (dv_read D d4) ps fv (t_pending_root t) (t_pending_next t) (seq + 1) hh (contents t True hh (t_pending_root t))"
    "\<And>nb hb r e. snapshot (dv_read D (h_dev h)) ps fv nb hb r e \<Longrightarrow> nb \<le> nxt \<Longrightarrow> snapshot (dv_read D d4) ps fv nb hb r e"
    using record_appended [OF r t'(1-6) _ _ sq len d3(4)] szs d4(4) by auto
  define h2 where "h2 = ?h2"
  have h2: "h_dev h2 = d2" "h_tree h2 = attach D d2 (t\<lparr>t_dirty := Map.empty\<rparr>)" by (simp_all add: h2_def set_tree_def)
  have "set_dev D h2 (h_dev h2) = h2" by (rule set_dev_same) (simp add: attached_def h2)
  then have lead: "lead_cohort D depth h2 base rec off e = Ok (base, rec, h2, [])" for base rec e
    unfolding lead_cohort_def by simp
  have same: "set_tree h2 ((h_tree h2)\<lparr>t_pending_root := t_pending_root (h_tree h2), t_pending_next := t_pending_next (h_tree h2)\<rparr>) = h2"
    by (simp add: set_tree_def)
  let ?t4 = "attach D d4 t"
  let ?h' = "(set_tree h (?t4\<lparr>t_root := t_pending_root t, t_next_page_id := t_pending_next t, t_dirty := Map.empty,
        t_pending_ops := Map.empty, t_has_pending := False\<rparr>))\<lparr>h_dev := d4, h_next_seq := seq + 1 + 1, h_seen_generation := None\<rparr>"
  have "commit_normally D depth h = finish_commit D 0 h2 (seq + 1) ?img off (t_pending_root (h_tree h2), t_pending_next (h_tree h2), seq + 1) []"
    unfolding commit_normally_def using p [folded h2_def] set_dev_same [OF at(1)] lead same by (simp add: Let_def)
  also have "\<dots> = (Ok (Outcome_Committed, ?h'), d4)"
    using finish_spec [of h2 off ?img d3 d4 0 "seq + 1"] d3(1) d4(1) ne h2 by (simp add: Let_def) (simp add: h2_def set_tree_def attach_def)
  finally have "commit_normally D depth h = (Ok (Outcome_Committed, ?h'), d4)" .
  then have "commit D depth h = (Ok (Outcome_Committed, ?h'), h_dev ?h')" using commit_solitary [OF h] by (simp add: set_tree_def)
  moreover have "idle_on D ?h' ps fv (t_pending_root t) (t_pending_next t) (seq + 1)"
    using h t'(1,3,4) by (simp add: idle_on_def attached_def set_tree_def attach_def clean_on_def txn_tree_def in_txn_def)
  moreover have "nxt \<le> t_pending_next t" using t'(2,6) by (auto simp: dirty_ok_def)
  ultimately show ?thesis
    using ra t'(7) lv d4 d3 d2 by (intro exI [of _ ?h']) (auto simp: committed_as_def set_tree_def)
qed

lemma commit_unbeaten:
  assumes c: "can_commit D dinv cap depth cc h ps fv hb eb root nxt seq hc es ops"
    and b: "\<not> beaten (t_pending_ops (h_tree h)) (map_of eb) (map_of es)"
  shows "(\<exists>h'. commit D depth h = (Ok (Outcome_Committed, h'), h_dev h') \<and>
      committed_as h ps fv nxt seq (hc + card (dom ops)) (overlay (map_of es) ops) h') \<or>
    (\<exists>n > max_record_len ps. commit D depth h = (Err (does_not_fit n (max_record_len ps)), h_dev h) \<and>
      n \<le> record_minimum fv + commit_pages depth cc ops * (page_entry_header_len fv + ps))"
proof -
  from c have h: "in_txn D h ps fv" and cur: "holds (dv_read D (h_dev h)) ps fv root nxt seq hc es" by (auto simp: can_commit_def)
  have at: "attached D h" "t_page_size (h_tree h) = ps" "t_format_version (h_tree h) = fv" using h by (auto simp: in_txn_def)
  obtain hh t where r: "rebased (h_tree h) (max nxt (t_next_page_id (h_tree h))) (commit_pages depth cc ops) (overlay (map_of es) ops) hh t"
      "hh \<le> hc + card (dom ops)"
    and p: "if record_len fv (written_pages t) > max_record_len ps
     then prepare_commit D depth 0 None h = (Err (does_not_fit (record_len fv (written_pages t)) (max_record_len ps)), h_dev h)
     else \<exists>off d1 d2. ready_on (h_dev h) ps fv root nxt seq t off d1 d2 \<and>
       prepare_commit D depth 0 None h =
         (Ok (Ready (seq + 1) (record_image fv (meta_of (commit_record t root seq)) (written_pages t)) off (region_end ps fv 0),
            (set_tree h (attach D d2 (t\<lparr>t_dirty := Map.empty\<rparr>)))\<lparr>h_next_seq := seq + 1, h_dev := d2\<rparr>), d2)"
    using prepare_spec [OF c b refl] by blast
  show ?thesis
  proof (cases "record_len fv (written_pages t) > max_record_len ps")
    case True
    then have "commit D depth h = (Err (does_not_fit (record_len fv (written_pages t)) (max_record_len ps)), h_dev h)"
      using p by (simp add: commit_solitary [OF h] commit_normally_def set_dev_same [OF at(1)] no_parked abandon_same Let_def)
    moreover have "record_len fv (written_pages t) \<le> record_minimum fv + commit_pages depth cc ops * (page_entry_header_len fv + ps)"
      using rebased_record [OF r(1)] holds_sizes [OF cur] at by simp
    ultimately show ?thesis using True by blast
  next
    case False
    then show ?thesis using p commit_ready [OF c refl r(1) _ _ _ r(2)] by (meson not_less)
  qed
qed

end

end
