(* ===== verification/Commit_Open.thy ===== *)
theory Commit_Open
  imports Commit_Protocol
begin

text \<open>
  Creating, checkpointing and opening a database: each ends in a handle on the committed state, and
  opening a file replays its records without changing what any page holds.
\<close>

context solitary_device
begin

section \<open>Checkpoint\<close>

lemma checkpoint_spec:
  assumes h: "attached D h" "t_page_size (h_tree h) = ps" "t_format_version (h_tree h) = fv" and d: "dinv (h_dev h)"
    and f: "file_ok (dv_read D (h_dev h)) ps fv root nxt seq replay" and c: "all_regions_end ps fv \<le> cap (h_dev h)"
    and nx: "nx = max nxt (t_next_page_id (h_tree h))"
  shows "\<exists>d'. checkpoint D h = (Ok ((set_tree h (attach D d' ((h_tree h)\<lparr>t_root := root, t_next_page_id := nx\<rparr>)))
      \<lparr>h_next_seq := seq + 1, h_checkpoint_seq := seq, h_dev := d', h_seen_generation := None\<rparr>), d') \<and>
    dinv d' \<and> cap d' = cap (h_dev h) \<and> file_ok (dv_read D d') ps fv root nx seq [] \<and>
    (\<forall>a n. all_regions_end ps fv \<le> a \<longrightarrow> dv_read D d' a n = dv_read D (h_dev h) a n)"
proof -
  let ?t = "(h_tree h)\<lparr>t_root := root, t_next_page_id := nx\<rparr>"
  let ?h = "(set_tree h ?t)\<lparr>h_next_seq := seq + 1, h_checkpoint_seq := seq\<rparr>"
  have at: "attached D ?h"
  proof -
    have "attach D (h_dev h) ?t = (attach D (h_dev h) (h_tree h))\<lparr>t_root := root, t_next_page_id := nx\<rparr>" by (simp add: attach_def)
    then show ?thesis using h(1) by (simp add: attached_def set_tree_def)
  qed
  have hd: "h_dev ?h = h_dev h" "t_page_size (h_tree ?h) = ps" "t_root (h_tree ?h) = root" "t_next_page_id (h_tree ?h) = nx" "h_checkpoint_seq ?h = seq"
    using h by (simp_all add: set_tree_def)
  obtain d2 d3 where w: "write_state_values D ?h root nx seq = (Ok (set_dev D ?h d2), d2)"
    "dv_write D d2 (region_start ps fv 0) (replicate (wal_region_len ps) 0) = (Ok (), d3)" "dinv d3" "cap d3 = cap (h_dev h)"
    "file_ok (dv_read D d3) ps fv root nx seq []" "\<forall>a n. all_regions_end ps fv \<le> a \<longrightarrow> dv_read D d3 a n = dv_read D (h_dev h) a n"
    using region_emptied [OF at hd(2), of fv root nxt seq replay nx] d f c hd(1) by auto
  have cs: "current_state D (h_dev h) ps fv None = Ok (root, nxt, seq)" using file_committed [OF f] by (simp add: current_state_def)
  have ad: "adopt_next_page_id ((h_tree h)\<lparr>t_root := root\<rparr>) nxt = ?t" by (simp add: adopt_next_page_id_def nx)
  have ws: "write_state D ?h = (Ok (set_dev D ?h d2), d2)" using w(1) hd(3-5) by (simp add: write_state_def)
  have "checkpoint_gated D h 0 = (Ok (set_dev D (set_dev D ?h d2) d3), d3)"
    unfolding checkpoint_gated_def Let_def
    using cs ad h w(2) ws watermark_same [OF at] set_dev_same [OF at] hd(1) by (simp add: on_device_def)
  then have "checkpoint D h = (Ok ((set_dev D (set_dev D (set_dev D ?h d2) d3) d3)\<lparr>h_seen_generation := None\<rparr>), d3)"
    using set_dev_same [OF h(1)] by (simp add: checkpoint_def on_device_def Let_def)
  moreover have "(set_dev D (set_dev D (set_dev D ?h d2) d3) d3)\<lparr>h_seen_generation := None\<rparr> =
      (set_tree h (attach D d3 ?t))\<lparr>h_next_seq := seq + 1, h_checkpoint_seq := seq, h_dev := d3, h_seen_generation := None\<rparr>"
    by (simp add: set_dev_def set_tree_def)
  ultimately show ?thesis using w(3-6) by auto
qed

section \<open>Replay\<close>

lemma replay_spec:
  assumes "dinv d" "\<forall>x \<in> set pgs. 0 < fst x \<and> length (snd x) = ps \<and> data_offset_for ps fv (fst x) + ps \<le> cap d"
  shows "\<exists>d'. replay_pages D ps fv pgs d = (Ok (), d') \<and> dinv d' \<and> cap d' = cap d \<and>
    (\<forall>q. 0 < q \<longrightarrow> dv_read D d' (data_offset_for ps fv q) ps = (case map_of (rev pgs) q of Some bs \<Rightarrow> Ok bs | None \<Rightarrow> dv_read D d (data_offset_for ps fv q) ps)) \<and>
    (\<forall>a n. a + n \<le> all_regions_end ps fv \<longrightarrow> dv_read D d' a n = dv_read D d a n)"
  using assms
proof (induction pgs arbitrary: d)
  case (Cons x pgs)
  obtain q bs where x: "x = (q, bs)" by (cases x)
  have q: "0 < q" "length bs = ps" "data_offset_for ps fv q + length bs \<le> cap d" using Cons.prems(2) x by auto
  obtain d1 where d1: "dv_write D d (data_offset_for ps fv q) bs = (Ok (), d1)" "dinv d1" "cap d1 = cap d" "dev_write D d (data_offset_for ps fv q) bs = Ok d1"
    using write_at [OF Cons.prems(1) q(3)] by blast
  have rd1: "dv_read D d1 (data_offset_for ps fv p) ps = (if p = q then Ok bs else dv_read D d (data_offset_for ps fv p) ps)" for p
    using rd_wr_same [OF Cons.prems(1) d1(4)] rd_wr_other [OF Cons.prems(1) d1(4), of "data_offset_for ps fv p" ps] data_apart [of p q ps fv] q(2) by auto
  have low: "dv_read D d1 a n = dv_read D d a n" if "a + n \<le> all_regions_end ps fv" for a n
    using that data_above [OF q(1), of ps fv] by (intro rd_wr_other [OF Cons.prems(1) d1(4)]) auto
  obtain d' where d': "replay_pages D ps fv pgs d1 = (Ok (), d')" "dinv d'" "cap d' = cap d1"
    "\<forall>q. 0 < q \<longrightarrow> dv_read D d' (data_offset_for ps fv q) ps = (case map_of (rev pgs) q of Some bs \<Rightarrow> Ok bs | None \<Rightarrow> dv_read D d1 (data_offset_for ps fv q) ps)"
    "\<forall>a n. a + n \<le> all_regions_end ps fv \<longrightarrow> dv_read D d' a n = dv_read D d1 a n"
    using Cons.IH [OF d1(2)] Cons.prems(2) d1(3) by auto
  then show ?case using x d1(1,3) rd1 low
    by (intro exI [of _ d']) (auto simp: map_add_def split: option.splits)
qed simp

lemma replay_keeps:
  assumes d: "dinv d" and f: "file_ok (dv_read D d) ps fv root nxt seq replay"
  shows "\<exists>d'. replay_pages D ps fv (concat (map rec_pages replay)) d = (Ok (), d') \<and> dinv d' \<and> cap d' = cap d \<and>
    file_ok (dv_read D d') ps fv root nxt seq replay \<and> (\<forall>q. 0 < q \<longrightarrow> dv_read D d' (data_offset_for ps fv q) ps = dv_read D d (data_offset_for ps fv q) ps)"
proof -
  let ?P = "concat (map rec_pages replay)"
  obtain st logs where b: "file_blocks (dv_read D d) ps fv st logs" "file_chain fv st logs root nxt seq replay" "pages_in_place (dv_read D d) ps fv ?P"
    using f by (auto simp: file_ok_def)
  have "0 < fst x \<and> length (snd x) = ps \<and> data_offset_for ps fv (fst x) + ps \<le> cap d" if x: "x \<in> set ?P" for x
  proof -
    have "0 < fst x \<and> length (snd x) = ps" using b(3) x unfolding pages_in_place_def by (metis prod.collapse)
    moreover obtain bs where "map_of (rev ?P) (fst x) = Some bs" using x by (metis image_eqI map_of_eq_None_iff not_None_eq set_rev)
    then have "dv_read D d (data_offset_for ps fv (fst x)) ps = Ok bs" using b(3) unfolding pages_in_place_def by blast
    ultimately show ?thesis using read_inside [OF d] by blast
  qed
  then obtain d' where d': "replay_pages D ps fv ?P d = (Ok (), d')" "dinv d'" "cap d' = cap d"
    "\<And>q. 0 < q \<Longrightarrow> dv_read D d' (data_offset_for ps fv q) ps = (case map_of (rev ?P) q of Some bs \<Rightarrow> Ok bs | None \<Rightarrow> dv_read D d (data_offset_for ps fv q) ps)"
    "\<And>a n. a + n \<le> all_regions_end ps fv \<Longrightarrow> dv_read D d' a n = dv_read D d a n"
    using replay_spec [OF d, of ?P ps fv] by auto
  have same: "dv_read D d' (data_offset_for ps fv q) ps = dv_read D d (data_offset_for ps fv q) ps" if "0 < q" for q
    using d'(4) [OF that] b(3) by (cases "map_of (rev ?P) q") (auto simp: pages_in_place_def)
  have "file_blocks (dv_read D d') ps fv st logs" by (rule file_blocks_cong [OF d'(5) b(1)])
  moreover have "pages_in_place (dv_read D d') ps fv ?P"
    unfolding pages_in_place_def
  proof (intro conjI allI impI)
    fix q bs
    show "0 < q" "length bs = ps" if "(q, bs) \<in> set ?P" using that b(3) unfolding pages_in_place_def by blast+
    assume m: "map_of (rev ?P) q = Some bs"
    then have "(q, bs) \<in> set ?P" using map_of_SomeD [OF m] by simp
    then show "dv_read D d' (data_offset_for ps fv q) ps = Ok bs" using m b(3) same [of q] unfolding pages_in_place_def by metis
  qed
  ultimately show ?thesis using d'(1-3) b(2) same unfolding file_ok_def by blast
qed

section \<open>Open\<close>

lemma open_spec:
  assumes d: "dinv d" and f: "holds (dv_read D d) ps fv root nxt seq hh es" and c: "all_regions_end ps fv \<le> cap d"
  shows "\<exists>h. open_tree D d = (Ok h, h_dev h) \<and> dinv (h_dev h) \<and> cap (h_dev h) = cap d \<and>
    holds (dv_read D (h_dev h)) ps fv root nxt seq hh es \<and> idle_on D h ps fv root nxt seq"
proof -
  obtain replay where r: "file_ok (dv_read D d) ps fv root nxt seq replay" and s: "snapshot (dv_read D d) ps fv nxt hh root es" "0 < nxt"
    using f by (auto simp: holds_def)
  obtain hb where hdr: "dv_read D d header_offset header_len = Ok hb" "parse_header hb = Ok (ps, fv)"
    using r by (auto simp: file_ok_def file_blocks_def)
  note sz = holds_sizes [OF f]
  let ?h = "(handle_new D d ps fv root nxt seq)\<lparr>h_seen_generation := None\<rparr>"
  have new: "h_dev ?h = d" "attached D ?h" "t_page_size (h_tree ?h) = ps" "t_format_version (h_tree ?h) = fv" "clean_on (h_tree ?h) nxt root"
    "t_pending_ops (h_tree ?h) = Map.empty" "h_absorb_token ?h = None" "h_next_seq ?h = seq + 1" "t_next_page_id (h_tree ?h) = nxt"
    by (simp_all add: handle_new_def attached_def attach_def clean_on_def)
  note w = watermark_same [OF new(2)]
  show ?thesis
  proof (cases "replay = []")
    case True
    then have "open_tree D d = (Ok ?h, d)"
      using hdr file_committed [OF r] w new(1) by (simp add: open_tree_def on_device_def Let_def)
    then show ?thesis using new d f by (intro exI [of _ ?h]) (simp add: idle_on_def)
  next
    case False
    obtain d1 where d1: "replay_pages D ps fv (concat (map rec_pages replay)) d = (Ok (), d1)" "dinv d1" "cap d1 = cap d"
      "file_ok (dv_read D d1) ps fv root nxt seq replay" "\<And>q. 0 < q \<Longrightarrow> dv_read D d1 (data_offset_for ps fv q) ps = dv_read D d (data_offset_for ps fv q) ps"
      using replay_keeps [OF d r] by blast
    let ?h1 = "set_dev D ?h d1"
    have h1: "t_page_size (h_tree ?h1) = ps" "t_format_version (h_tree ?h1) = fv" "t_next_page_id (h_tree ?h1) = nxt" using new by simp_all
    obtain d2 where c2: "checkpoint D ?h1 = (Ok ((set_tree ?h1 (attach D d2 ((h_tree ?h1)\<lparr>t_root := root, t_next_page_id := nxt\<rparr>)))
      \<lparr>h_next_seq := seq + 1, h_checkpoint_seq := seq, h_dev := d2, h_seen_generation := None\<rparr>), d2)"
      "dinv d2" "cap d2 = cap d1" "file_ok (dv_read D d2) ps fv root nxt seq []" "\<forall>a n. all_regions_end ps fv \<le> a \<longrightarrow> dv_read D d2 a n = dv_read D d1 a n"
      using checkpoint_spec [of ?h1 ps fv root nxt seq replay nxt] h1 d1 c by auto
    let ?h2 = "(set_tree ?h1 (attach D d2 ((h_tree ?h1)\<lparr>t_root := root, t_next_page_id := nxt\<rparr>)))
      \<lparr>h_next_seq := seq + 1, h_checkpoint_seq := seq, h_dev := d2, h_seen_generation := None\<rparr>"
    have "open_tree D d = (Ok ?h2, d2)"
      using hdr file_committed [OF r] w new(1) False d1(1) c2(1) by (simp add: open_tree_def on_device_def Let_def)
    moreover have "snapshot (dv_read D d2) ps fv nxt hh root es"
      by (rule snapshot_cong [OF s(1)]) (use sz d1(5) c2(5) data_above in auto)
    moreover have "idle_on D ?h2 ps fv root nxt seq"
      using new by (simp add: idle_on_def attached_def set_tree_def set_dev_def clean_on_def attach_def)
    ultimately show ?thesis using c2(2-4) d1(3) s(2) by (intro exI [of _ ?h2]) (auto simp: holds_def set_tree_def)
  qed
qed

section \<open>Create\<close>

lemma create_spec:
  assumes d: "dinv d" and ps: "min_page_size \<le> ps" "ps < 65536" and c: "all_regions_end ps format_version \<le> cap d"
  shows "\<exists>h. create_tree D d ps = (Ok h, h_dev h) \<and> dinv (h_dev h) \<and> cap (h_dev h) = cap d \<and> (\<exists>d0. dinv d0 \<and> dv_sync D d0 = (Ok (), h_dev h)) \<and>
    holds (dv_read D (h_dev h)) ps format_version 0 1 0 1 [] \<and> idle_on D h ps format_version 0 1 0 \<and> t_next_page_id (h_tree h) = 1"
proof -
  let ?fv = format_version
  note bl = blocks_below [OF ps(1) region_zero [of ?fv]]
  have fv: "multi_region ?fv" "min_readable_format_version \<le> ?fv"
    by (simp_all add: multi_region_def format_version_def multi_region_format_version_def min_readable_format_version_def)
  let ?hdr = "header_body ps ?fv @ u64_to_le (fnv1a (header_body ps ?fv))" and ?st = "state_body 0 1 0 @ u64_to_le (fnv1a (state_body 0 1 0))"
  let ?z = "replicate (all_regions_end ps ?fv - wal_start ps) (0 :: u8)"
  have len: "length ?hdr = header_len" "length ?st = state_len" by (simp_all add: header_body_def header_len_def state_body_def state_len_def)
  obtain d1 where d1: "dv_write D d header_offset ?hdr = (Ok (), d1)" "dinv d1" "cap d1 = cap d" "dev_write D d header_offset ?hdr = Ok d1"
    using write_at [OF d, of header_offset ?hdr] len bl(5) c by auto
  obtain d2 where d2: "dv_write D d1 (state_offset ps) ?st = (Ok (), d2)" "dinv d2" "cap d2 = cap d" "dev_write D d1 (state_offset ps) ?st = Ok d2"
    using write_at [OF d1(2), of "state_offset ps" ?st] len bl(4) c d1(3) by auto
  have we: "wal_start ps + length ?z = all_regions_end ps ?fv" by (simp add: all_regions_end_def)
  obtain d3 where d3: "dv_write D d2 (wal_start ps) ?z = (Ok (), d3)" "dinv d3" "cap d3 = cap d" "dev_write D d2 (wal_start ps) ?z = Ok d3"
    using write_at [OF d2(2), of "wal_start ps" ?z] we c d2(3) by auto
  obtain d4 where d4: "dv_sync D d3 = (Ok (), d4)" "dinv d4" "cap d4 = cap d3" "dv_read D d4 = dv_read D d3" using sync_ok [OF d3(2)] by blast
  have rs: "region_start ps ?fv 0 = wal_start ps" by (simp add: region_start_def)
  have h: "dv_read D d3 header_offset header_len = Ok ?hdr"
    using rd_wr_same [OF d d1(4)] rd_wr_other [OF d1(2) d2(4), of header_offset header_len] rd_wr_other [OF d2(2) d3(4), of header_offset header_len] bl rs len by auto
  have st: "dv_read D d3 (state_offset ps) state_len = Ok ?st"
    using rd_wr_same [OF d1(2) d2(4)] rd_wr_other [OF d2(2) d3(4), of "state_offset ps" state_len] bl rs len by auto
  have z: "zeros_at (dv_read D d3) (wal_start ps) (all_regions_end ps ?fv)" using zeros_written [OF d2(2) d3(4)] we by simp
  let ?s = "\<lparr>st_root = 0, st_next = 1, st_checkpoint_seq = 0\<rparr>" and ?logs = "\<lambda>r. ([] :: wal_record list, region_start ps ?fv r)"
  have "log_at (dv_read D d3) ps ?fv r [] (region_start ps ?fv r)" if "r < region_count ?fv" for r
  proof (rule log_at_zeros)
    have "wal_start ps \<le> region_start ps ?fv r" by (simp add: region_start_def)
    then show "zeros_at (dv_read D d3) (region_start ps ?fv r) (region_end ps ?fv r)"
      using z blocks_below(3) [OF ps(1) that] by (auto simp: zeros_at_def)
  qed
  then have "file_blocks (dv_read D d4) ps ?fv ?s ?logs"
    using h st fv ps d4(4) parse_header_image [OF fv(2) order_refl ps(1), of "[]"] parse_state_image [of 0 1 0]
    by (simp add: file_blocks_def read_state_def)
  moreover have "concat (map (\<lambda>r. [] :: wal_record list) rs) = []" for rs :: "nat list" by simp
  then have "file_chain ?fv ?s ?logs 0 1 0 []" by (simp add: file_chain_def region_records_def chain_end_def del: concat_eq_Nil_conv)
  ultimately have "file_ok (dv_read D d4) ps ?fv 0 1 0 []" unfolding file_ok_def pages_in_place_def by fastforce
  then have hl: "holds (dv_read D d4) ps ?fv 0 1 0 1 []" using snapshot_empty [of 1] by (auto simp: holds_def)
  let ?h = "(handle_new D d ps ?fv 0 1 0)\<lparr>h_seen_generation := None\<rparr>"
  have new: "h_dev ?h = d" "attached D ?h" "idle_on D (set_dev D ?h d4) ps ?fv 0 1 0" "t_next_page_id (h_tree ?h) = 1"
    by (simp_all add: handle_new_def attached_def attach_def clean_on_def idle_on_def set_dev_def)
  have "create_tree D d ps = (Ok (set_dev D ?h d4), d4)"
    using watermark_same [OF new(2)] new(1) ps(1) encode_header_image encode_state_image d1(1) d2(1) d3(1) d4(1)
    by (simp add: create_tree_def on_device_def Let_def)
  then show ?thesis using d3 d4 hl new(3,4) by (intro exI [of _ "set_dev D ?h d4"]) auto
qed

section \<open>Reading and refreshing\<close>

lemma idle_get:
  assumes "idle_on D h ps fv root nxt seq" "snapshot (dv_read D (h_dev h)) ps fv n hh root es" "hh \<le> depth"
  shows "get depth (h_tree h) k = Ok (map_of es k)"
proof -
  let ?t = "h_tree h"
  have a: "t_read ?t = dv_read D (h_dev h)" "t_page_size ?t = ps" "t_format_version ?t = fv" "\<not> t_has_pending ?t" "t_root ?t = root"
    using assms(1) attached_read by (auto simp: idle_on_def clean_on_def)
  have "get_from_root depth ?t root k = Ok (map_of es k)" using assms(2,3) a by (intro snapshot_get) auto
  then show ?thesis using a(4,5) by (simp add: get_def get_from_root_def read_root_def)
qed

lemma refresh_spec:
  assumes h: "idle_on D h ps fv r0 n0 s0" and f: "holds (dv_read D (h_dev h)) ps fv root nxt seq hh es" and s: "s0 \<le> seq" "unat s0 + 1 < 2 ^ 64"
  shows "\<exists>h'. refresh D h = Ok (root \<noteq> r0, h') \<and> h_dev h' = h_dev h \<and> t_root (h_tree h') = root \<and>
    (hh \<le> depth \<longrightarrow> get depth (h_tree h') k = Ok (map_of es k))"
proof -
  have at: "attached D h" "t_page_size (h_tree h) = ps" "t_format_version (h_tree h) = fv" "\<not> t_has_pending (h_tree h)" "t_root (h_tree h) = r0"
    "h_next_seq h = s0 + 1" using h by (auto simp: idle_on_def clean_on_def)
  have u: "unat (s0 + 1) = unat s0 + 1" using s(2) by (simp add: unat_word_ariths)
  then have fl: "(if h_next_seq h = 0 then 0 else h_next_seq h - 1) = s0" using at(6) by (metis add_diff_cancel_right' add_is_0 one_neq_zero unat_0)
  obtain replay where "read_committed_state (dv_read D (h_dev h)) ps fv = Ok (root, nxt, seq, replay)"
    using f file_committed by (auto simp: holds_def)
  then have r: "resolve_state_at_least (\<lambda>_. None) (\<lambda>_. dv_read D (h_dev h)) ps fv s0 = Ok (Some (root, nxt, seq))"
    using s(1) by (simp add: resolve_state_at_least_def)
  have sn: "snapshot (dv_read D (h_dev h)) ps fv nxt hh root es" using f by (simp add: holds_def)
  show ?thesis
  proof (cases "root = r0")
    case True
    let ?h = "h\<lparr>h_state_reads := h_state_reads h + 1, h_seen_generation := None\<rparr>"
    have "refresh D h = Ok (False, ?h)" using at r fl True unfolding refresh_def by (simp add: Let_def)
    moreover have "idle_on D ?h ps fv r0 n0 s0" using h by (simp add: idle_on_def attached_def)
    ultimately show ?thesis using True idle_get [of ?h ps fv root n0 s0 nxt hh es depth k] sn at(5) by auto
  next
    case False
    let ?t = "adopt_next_page_id ((h_tree h)\<lparr>t_root := root\<rparr>) nxt"
    let ?h = "(set_tree (h\<lparr>h_state_reads := h_state_reads h + 1, h_seen_generation := None\<rparr>) ?t)\<lparr>h_checkpoint_seq := seq, h_next_seq := seq + 1\<rparr>"
    have "attach D (h_dev h) ?t = adopt_next_page_id ((attach D (h_dev h) (h_tree h))\<lparr>t_root := root\<rparr>) nxt"
      by (simp add: attach_def adopt_next_page_id_def)
    then have a: "attached D ?h" using at(1) by (simp add: attached_def set_tree_def)
    have "refresh D h = Ok (True, ?h)" using at r fl False watermark_same [OF a] unfolding refresh_def by (simp add: Let_def)
    moreover have "idle_on D ?h ps fv root nxt seq"
      using h a by (simp add: idle_on_def set_tree_def clean_on_def adopt_next_page_id_def)
    ultimately show ?thesis
      using False idle_get [of ?h ps fv root nxt seq nxt hh es depth k] sn by (auto simp: set_tree_def adopt_next_page_id_def)
  qed
qed

end

end
