(* ===== verification/Commit_Cohort.thy ===== *)
theory Commit_Cohort
  imports Commit_Protocol
begin

text \<open>
  The leader of a cohort, on any device: every transaction it took is answered once and in order, a
  transaction it does not commit is handed back as it was offered, and its answers are a step of the
  queue's protocol.
\<close>

definition member_committed :: "u64 \<times> cohort_member \<times> pending_ops \<Rightarrow> bool" where
  "member_committed m = (case m of (_, Member_Committed _ _ _, _) \<Rightarrow> True | _ \<Rightarrow> False)"

lemma member_committed_simps [simp]:
  "member_committed (t, Member_Committed r n s, ops)" "\<not> member_committed (t, Member_Conflict r n s, ops)" "\<not> member_committed (t, Member_Declined, ops)"
  by (simp_all add: member_committed_def)

lemma dbind_Ok: "dbind r f = (Ok y, d') \<longleftrightarrow> (\<exists>x d. r = (Ok x, d) \<and> f x d = (Ok y, d'))"
  by (auto simp: dbind_def split: prod.splits result.splits)

lemma rebase_refused: "rebase_pending D depth h root nxt seq = (Ok (False, h'), d) \<Longrightarrow> h' = h"
  by (auto simp: rebase_pending_def dbind_Ok on_device_def Let_def split: if_splits)

lemma commit_member_seq:
  assumes "commit_member D depth h (root, nxt, seq) records available = (Ok (Some (root', nxt', seq'), records', h'), d)"
  shows "seq' = seq + 1 \<and> (\<exists>img. img \<noteq> [] \<and> records' = records @ img) \<and> length records' \<le> available"
proof -
  obtain t dd where e: "encode_pending_record t records (seq + 1) seq root = Ok records'" "length records' \<le> available" "seq' = seq + 1"
    using assms by (auto simp: commit_member_def dbind_Ok on_device_def Let_def split: if_splits)
  let ?m = "\<lparr>meta_seq = seq + 1, meta_prev_seq = seq, meta_prev_root = root, meta_root = t_pending_root t, meta_next = t_pending_next t\<rparr>"
  obtain pgs where p: "records' = records @ record_image (t_format_version t) ?m pgs"
    using e(1) by (auto simp: encode_pending_record_def encode_record_onto_image)
  moreover have "length (record_image (t_format_version t) ?m pgs) \<noteq> 0"
    by (auto simp: length_record_image record_len_def record_minimum_def split: if_splits)
  ultimately show ?thesis using e(2,3) by auto
qed

text \<open>What one step does to the buffer of records and to the state it builds on.\<close>

lemma absorb_member_cases:
  assumes "absorb_member D depth h txn (root, nxt, seq) records available = Ok (step, records', h')"
  shows "(\<exists>r n. step = Step_Committed r n (seq + 1) \<and> (\<exists>img. img \<noteq> [] \<and> records' = records @ img) \<and> length records' \<le> available) \<or>
    (step = Step_Conflict (at_ops txn) \<and> records' = records) \<or> (step = Step_Declined (at_ops txn) \<and> records' = records)"
proof -
  let ?t = "h_tree h"
  let ?h = "set_tree h (?t\<lparr>t_root := at_root txn, t_pending_root := at_root txn, t_pending_next := t_next_page_id ?t,
           t_pending_ops := at_ops txn, t_has_pending := True\<rparr>)"
  define h0 where "h0 = ?h"
  have h0: "t_pending_ops (h_tree h0) = at_ops txn" by (simp add: h0_def set_tree_def)
  obtain r d where r: "rebase_pending D depth h0 root nxt seq = (r, d)" by fastforce
  note def = assms [unfolded absorb_member_def Let_def prod.case, folded h0_def, unfolded r]
  show ?thesis
  proof (cases r)
    case (Ok x)
    obtain b h1 where x: "x = (b, h1)" by (cases x)
    show ?thesis
    proof (cases b)
      case False
      then have "h1 = h0" using rebase_refused [of D depth h0 root nxt seq h1 d] r Ok x by simp
      then show ?thesis using def Ok x False h0 by auto
    next
      case True
      obtain c d1 where c: "commit_member D depth h1 (root, nxt, seq) records available = (c, d1)" by fastforce
      show ?thesis
      proof (cases c)
        case cOk: (Ok y)
        obtain s recs h2 where y: "y = (s, recs, h2)" by (cases y)
        show ?thesis
        proof (cases s)
          case (Some st)
          obtain r1 n1 s1 where st: "st = (r1, n1, s1)" by (cases st)
          show ?thesis using def Ok x True c cOk y Some st commit_member_seq [of D depth h1 root nxt seq records available r1 n1 s1 recs h2 d1] by auto
        qed (use def Ok x True c cOk y in auto)
      qed (use def Ok x True c in auto)
    qed
  qed (use def in auto)
qed

text \<open>The whole cohort: every member once, in order, and nothing lost.\<close>

definition answers :: "(u64 \<times> absorb_txn) \<Rightarrow> (u64 \<times> cohort_member \<times> pending_ops) \<Rightarrow> bool" where
  "answers offered answer \<longleftrightarrow> fst answer = fst offered \<and> (member_committed answer \<or> snd (snd answer) = at_ops (snd offered))"

lemma answers_pair [simp]: "answers (t, x) (t', m, ops) \<longleftrightarrow> t' = t \<and> (member_committed (t', m, ops) \<or> ops = at_ops x)"
  by (simp add: answers_def)

lemma lead_members_spec:
  assumes "lead_members D depth available members stopped (root, nxt, seq) records h cohort = Ok ((root', nxt', seq'), records', h', cohort')"
  shows "\<exists>new. cohort' = cohort @ new \<and> list_all2 answers members new \<and> seq' = seq + of_nat (length (filter member_committed new)) \<and>
    (\<exists>img. records' = records @ img) \<and> length records' \<le> max available (length records)"
  using assms
proof (induction members arbitrary: stopped root nxt seq records h cohort)
  case Nil
  then show ?case by simp
next
  case (Cons m members)
  obtain token txn where m: "m = (token, txn)" by (cases m)
  show ?case
  proof (cases "refuses stopped records available txn")
    case True
    then obtain new where "cohort' = (cohort @ [(token, Member_Declined, at_ops txn)]) @ new" "list_all2 answers members new"
      "seq' = seq + of_nat (length (filter member_committed new))" "\<exists>img. records' = records @ img" "length records' \<le> max available (length records)"
      using Cons.IH [of True root nxt seq records h "cohort @ [(token, Member_Declined, at_ops txn)]"] Cons.prems m by auto
    then show ?thesis using m
      by (intro exI [of _ "(token, Member_Declined, at_ops txn) # new"]) auto
  next
    case False
    obtain step recs h1 where s: "absorb_member D depth h txn (root, nxt, seq) records available = Ok (step, recs, h1)"
      and rest: "(case step of
          Step_Committed root nxt seq \<Rightarrow> lead_members D depth available members stopped (root, nxt, seq) recs h1 (cohort @ [(token, Member_Committed root nxt seq, Map.empty)])
        | Step_Conflict ops \<Rightarrow> lead_members D depth available members stopped (root, nxt, seq) recs h1 (cohort @ [(token, Member_Conflict root nxt seq, ops)])
        | Step_Declined ops \<Rightarrow> lead_members D depth available members True (root, nxt, seq) recs h1 (cohort @ [(token, Member_Declined, ops)])) =
        Ok ((root', nxt', seq'), records', h', cohort')"
      using Cons.prems False m by auto
    from absorb_member_cases [OF s] show ?thesis
    proof (elim disjE exE conjE)
      fix r n img assume c: "step = Step_Committed r n (seq + 1)" "recs = records @ img" "length recs \<le> available"
      then obtain new where "cohort' = (cohort @ [(token, Member_Committed r n (seq + 1), Map.empty)]) @ new" "list_all2 answers members new"
        "seq' = seq + 1 + of_nat (length (filter member_committed new))" "\<exists>img. records' = recs @ img" "length records' \<le> max available (length recs)"
        using Cons.IH [of stopped r n "seq + 1" recs h1 "cohort @ [(token, Member_Committed r n (seq + 1), Map.empty)]"] rest by auto
      then show ?thesis using m c
        by (intro exI [of _ "(token, Member_Committed r n (seq + 1), Map.empty) # new"]) auto
    next
      assume c: "step = Step_Conflict (at_ops txn)" "recs = records"
      then obtain new where "cohort' = (cohort @ [(token, Member_Conflict root nxt seq, at_ops txn)]) @ new" "list_all2 answers members new"
        "seq' = seq + of_nat (length (filter member_committed new))" "\<exists>img. records' = records @ img" "length records' \<le> max available (length records)"
        using Cons.IH [of stopped root nxt seq records h1 "cohort @ [(token, Member_Conflict root nxt seq, at_ops txn)]"] rest by auto
      then show ?thesis using m
        by (intro exI [of _ "(token, Member_Conflict root nxt seq, at_ops txn) # new"]) auto
    next
      assume c: "step = Step_Declined (at_ops txn)" "recs = records"
      then obtain new where "cohort' = (cohort @ [(token, Member_Declined, at_ops txn)]) @ new" "list_all2 answers members new"
        "seq' = seq + of_nat (length (filter member_committed new))" "\<exists>img. records' = records @ img" "length records' \<le> max available (length records)"
        using Cons.IH [of True root nxt seq records h1 "cohort @ [(token, Member_Declined, at_ops txn)]"] rest by auto
      then show ?thesis using m
        by (intro exI [of _ "(token, Member_Declined, at_ops txn) # new"]) auto
    qed
  qed
qed

lemma answer_facts:
  assumes "answers offered a"
  shows "fst (member_answer reached gen a) = fst offered"
    "member_answer reached gen a = (token, Absorb_Fallback, ops) \<Longrightarrow> ops = at_ops (snd offered)"
    "\<not> reached \<Longrightarrow> \<not> is_committed (fst (snd (member_answer reached gen a)))"
  using assms
  by (cases a; auto simp: answers_def member_answer_def member_committed_def is_committed_def split: cohort_member.splits if_splits)+

section \<open>Properties\<close>

text \<open>
  C8: the answers of a leader are a legal step of the queue's protocol: whatever cohort it took, each
  transaction is answered exactly once and in order, one it does not commit is handed back as it was
  offered, every committed member advances the sequence by one, the records only grow and never past
  the space of the region, and when they do not reach the disk no member is told it committed.
\<close>

theorem leader_answers_legally:
  assumes "absorb_step\<^sup>*\<^sup>* absorb_start (q, w)" "queue_take q = (members, q')"
    and "lead_members D depth available members False (root, nxt, seq) records h [] = Ok ((root', nxt', seq'), records', h', cohort)"
  shows "absorb_step (q', w) (queue_resolve q' (map (member_answer reached gen) cohort), w) \<and>
    map fst cohort = map fst members \<and> seq' = seq + of_nat (length (filter member_committed cohort)) \<and>
    (\<exists>img. records' = records @ img) \<and> length records' \<le> max available (length records) \<and>
    (\<not> reached \<longrightarrow> (\<forall>a \<in> set cohort. \<not> is_committed (fst (snd (member_answer reached gen a)))))"
proof -
  have inv: "absorb_inv (q, w)" by (rule reachable_inv [OF assms(1)])
  have l: "list_all2 answers members cohort" "seq' = seq + of_nat (length (filter member_committed cohort))" "\<exists>img. records' = records @ img"
    "length records' \<le> max available (length records)" using lead_members_spec [OF assms(3)] by auto
  have fst: "map (\<lambda>a. fst (member_answer reached gen a)) cohort = map fst members" "map fst cohort = map fst members"
    using l(1) by (induction rule: list_all2_induct) (auto simp: answer_facts answers_def)
  have mem: "\<exists>m \<in> set members. answers m a" if "a \<in> set cohort" for a using l(1) that by (metis in_set_conv_nth list_all2_conv_all_nth)
  have "distinct (map fst members) \<and> set (map fst members) \<subseteq> set (aq_in_flight q') \<and> (\<forall>m \<in> set members. w (fst m) = Some (at_ops (snd m)))"
  proof (cases "members = []")
    case False
    then have t: "members = map (\<lambda>p. (pk_token p, pk_txn p)) (aq_parked q)" "aq_in_flight q' = aq_in_flight q @ map fst members"
      using assms(2) by (auto simp: queue_take_def Let_def split: if_splits)
    then show ?thesis using inv by (auto simp: absorb_inv_def tokens_def comp_def)
  qed simp
  moreover have "w token = Some ops" if "(token, Absorb_Fallback, ops) \<in> member_answer reached gen ` set cohort" for token ops
  proof -
    from that obtain a where a: "a \<in> set cohort" "member_answer reached gen a = (token, Absorb_Fallback, ops)" by auto
    obtain m where m: "m \<in> set members" "answers m a" using mem [OF a(1)] by blast
    show ?thesis using answer_facts(1,2) [OF m(2), of reached gen] a(2) m(1) calculation by force
  qed
  ultimately have "absorb_step (q', w) (queue_resolve q' (map (member_answer reached gen) cohort), w)"
    by (intro absorb_step.Resolve) (use fst in \<open>auto simp: comp_def image_image simp flip: set_map\<close>)
  then show ?thesis using l fst(2) answer_facts(3) mem by blast
qed

text \<open>A leader on an empty tree that commits for a parked writer, which deletes a key nobody holds.\<close>

definition parked_delete :: absorb_queue where
  "parked_delete = snd (snd (offer (gate_acquired (fst absorb_start)) 0 [[1] \<mapsto> None]))"

definition leader :: "sim_disk handle" where
  "leader = (handle_new sim_device (disk_of_image 0 []) 64 format_version 0 1 0)"

lemma parked_delete_reachable: "absorb_step\<^sup>*\<^sup>* absorb_start (parked_delete, [1 \<mapsto> [[1] \<mapsto> None]])"
proof -
  let ?q = "gate_acquired (fst absorb_start)"
  have "absorb_step absorb_start (?q, Map.empty)" using Acquire [of "fst absorb_start" Map.empty] by (simp add: absorb_start_def)
  moreover have "absorb_step (?q, Map.empty) (parked_delete, [1 \<mapsto> [[1] \<mapsto> None]])"
    by (rule Offer [where root = 0 and left = Map.empty])
      (simp_all add: parked_delete_def offer_def absorb_start_def gate_acquired_def absorb_queue_default_def cohort_max_def Let_def)
  ultimately show ?thesis by (meson converse_rtranclp_into_rtranclp r_into_rtranclp)
qed

lemma parked_delete_taken:
  "queue_take parked_delete = ([(1, \<lparr>at_root = 0, at_ops = [[1] \<mapsto> None]\<rparr>)], snd (queue_take parked_delete))"
  by (simp add: parked_delete_def queue_take_def offer_def absorb_start_def gate_acquired_def absorb_queue_default_def cohort_max_def Let_def)

lemma parked_delete_led:
  "\<exists>h records cohort. lead_members sim_device 1 100 [(1, \<lparr>at_root = 0, at_ops = [[1] \<mapsto> None]\<rparr>)] False (0, 1, 0) [] leader [] =
     Ok ((0, 1, 1), records, h, cohort)"
proof -
  have k: "op_keys [[1 :: u8] \<mapsto> None] = [[1]]" by (simp add: op_keys_def)
  have m: "merge_monotonic_metadata g [[1 :: u8] \<mapsto> None] = Ok [[1] \<mapsto> None]" for g
    by (simp add: merge_monotonic_metadata_def merge_max_counter_def decode_counter_opt_def next_row_id_meta_def cdc_floor_meta_def write_version_meta_def)
  show ?thesis
    by (simp add: refuses_def starts_with_def free_list_prefix_def absorb_member_def leader_def handle_new_def Let_def rebase_pending_def k m
        get_from_root_def on_device_def update_watermark_def set_tree_def attach_def clear_txn_def adopt_next_page_id_def replay_ops_def
        delete_def begin_txn_def commit_member_def finalize_free_list_def finalize_loop.simps materialize_dirty_def dirty_list_def
        encode_pending_record_def encode_record_onto_image length_record_image record_len_def record_minimum_def format_version_def
        multi_region_def multi_region_format_version_def record_layout max_record_len_def wal_region_len_def wal_blocks_def
        write_dirty_pages_def flush_run_def set_dev_def)
qed

theorem leader_answers_legally_witness:
  "\<exists>cohort. absorb_step (snd (queue_take parked_delete), [1 \<mapsto> [[1] \<mapsto> None]])
      (queue_resolve (snd (queue_take parked_delete)) (map (member_answer True None) cohort), [1 \<mapsto> [[1] \<mapsto> None]]) \<and>
    map fst cohort = [1] \<and> (1 :: u64) = 0 + of_nat (length (filter member_committed cohort))"
proof -
  obtain h records cohort where "lead_members sim_device 1 100 [(1, \<lparr>at_root = 0, at_ops = [[1] \<mapsto> None]\<rparr>)] False (0, 1, 0) [] leader [] =
     Ok ((0, 1, 1), records, h, cohort)" using parked_delete_led by blast
  from leader_answers_legally [OF parked_delete_reachable parked_delete_taken this, of True None] show ?thesis
    by (intro exI [of _ cohort]) simp
qed

end
