(* ===== verification/Commit_Props.thy ===== *)
theory Commit_Props
  imports Commit_Open Commit_Cohort
begin

text \<open>
  The commit protocol on the simulated disk: serialisation of transactions, progress, durability
  across a power loss, isolation of older states, and the bound on the log record. The facts come
  from the locale of single-handle devices, interpreted on the disk.
\<close>

abbreviation sim_can_commit where
  "sim_can_commit \<equiv> can_commit sim_device disk_inv capacity"

text \<open>Nothing synced is lost by a power loss.\<close>

lemma synced_then_crash:
  assumes "disk_inv d" "dv_sync sim_device d = (Ok (), d1)" "f = Crash \<or> f = Torn_Write p" "disk_sync d1 f = Ok (out, d2)"
  shows "disk_inv d2" "capacity d2 = capacity d1" "disk_read d2 = disk_read d1"
proof -
  obtain d' where s: "dv_sync sim_device d = (Ok (), d')" "disk_inv d'" "volatile d' = volatile d" "durable d' = volatile d" "pending d' = []"
    using sim_sync [OF assms(1)] by metis
  then have d1: "disk_inv d1" "volatile d1 = durable d1" "pending d1 = []" using assms(2) by auto
  show "disk_inv d2" "capacity d2 = capacity d1" using disk_sync_total [OF d1(1), of f] assms(4) by auto
  then have l: "length (volatile d2) = length (durable d1)" using disk_inv_lengths [of d2] by (simp add: capacity_def)
  have "slice 0 (length (durable d1)) (volatile d2) = slice 0 (length (durable d1)) (durable d1)"
    by (rule crash_preserves [OF d1(1) assms(3,4)]) (use d1 in auto)
  then show "disk_read d2 = disk_read d1" using l d1(2) by (simp add: slice_def disk_read_def fun_eq_iff)
qed

section \<open>A first transaction\<close>

text \<open>A transaction that writes one key into a database just created.\<close>

definition blank_disk :: sim_disk where
  "blank_disk = disk_of_image 128 (replicate (2048 * 128) 0)"

lemma blank_disk_ok: "disk_inv blank_disk" "capacity blank_disk = 2048 * 128" "all_regions_end 128 format_version \<le> capacity blank_disk"
  by (simp_all add: blank_disk_def disk_inv_image) (simp_all add: capacity_def disk_of_image_def all_regions_end_def wal_start_def region_count_def
      wal_regions_def wal_region_len_def wal_blocks_def format_version_def multi_region_def multi_region_format_version_def)

lemma blank_created:
  obtains h where "create_tree sim_device blank_disk 128 = (Ok h, h_dev h)" "disk_inv (h_dev h)" "capacity (h_dev h) = 2048 * 128"
    "holds (disk_read (h_dev h)) 128 format_version 0 1 0 1 []" "idle_on sim_device h 128 format_version 0 1 0" "t_next_page_id (h_tree h) = 1"
  using sim_dev.create_spec [OF blank_disk_ok(1), of 128] blank_disk_ok by (auto simp: min_page_size_def sim_ops)

definition one_key :: pending_ops where
  "one_key = [[7] \<mapsto> Some [1]]"

lemma one_key_ok: "dom one_key = {[7]}" "ops_ok 128 1 one_key" "merge_monotonic_metadata g one_key = Ok one_key" "\<not> beaten one_key m m"
  "record_minimum format_version + commit_pages 2 1 one_key * (page_entry_header_len format_version + 128) \<le> max_record_len 128"
     apply (simp add: one_key_def)
    apply (auto simp: one_key_def ops_ok_def tree_storable_def key_fits_def value_storable_def max_record_len_def wal_region_len_def
      wal_blocks_def chain_count_def overflow_payload_size_def page_consts split: if_splits)[1]
   apply (simp add: one_key_def merge_monotonic_metadata_def merge_max_counter_def decode_counter_opt_def next_row_id_meta_def cdc_floor_meta_def write_version_meta_def)
  apply (simp add: beaten_def)
  apply (simp add: one_key_def commit_pages_def write_cost_def max_record_len_def wal_region_len_def
      wal_blocks_def record_minimum_def page_entry_header_len_def format_version_def multi_region_def multi_region_format_version_def record_layout)
  done

lemma one_key_pending:
  obtains h where "sim_can_commit 2 1 h 128 format_version 1 [] 0 1 0 1 [] one_key" "t_pending_ops (h_tree h) = one_key"
proof -
  obtain h where h: "disk_inv (h_dev h)" "capacity (h_dev h) = 2048 * 128" "holds (disk_read (h_dev h)) 128 format_version 0 1 0 1 []"
    "idle_on sim_device h 128 format_version 0 1 0" "t_next_page_id (h_tree h) = 1" using blank_created by metis
  let ?t = "h_tree h"
  have t: "attached sim_device h" "t_page_size ?t = 128" "t_format_version ?t = format_version" "clean_on ?t 1 0" "t_pending_ops ?t = Map.empty" "h_absorb_token h = None"
    using h(4) by (auto simp: idle_on_def)
  have sn: "snapshot (t_read ?t) 128 format_version 1 1 0 []" by (simp add: snapshot_empty)
  have i: "tree_inv 1 ?t" "entries_of 1 ?t = []" "dirty_ok (begin_txn ?t)"
    using snapshot_inv [of ?t 1 1 0 "[]"] sn t h(5) by simp_all
  have pn: "t_pending_next (begin_txn ?t) = 1" using t(4) h(5) by (simp add: begin_txn_def clean_on_def)
  obtain t' where t': "t_has_pending t'" "written_by ?t [7] (Some [1]) t'"
    using put_full [OF i(1), of "[7]" "[1]" 2] pn t(2)
    by (auto simp: key_fits_def value_storable_def max_record_len_def wal_region_len_def wal_blocks_def chain_count_def overflow_payload_size_def page_consts room_def)
  have "t_pending_ops t' = (t_pending_ops ?t)([7] \<mapsto> Some [1])"
    using arg_cong [OF conjunct1 [OF t'(2) [unfolded written_by_def]], of t_pending_ops] by simp
  then have wf: "txn_frame ?t t'" "t_pending_ops t' = one_key" using written_frame [OF t'(2)] t(5) by (auto simp: one_key_def)
  note f = txn_frame_fields [OF wf(1)]
  let ?h = "set_tree h t'"
  have "in_txn sim_device ?h 128 format_version"
    using f t t'(1) by (auto simp: in_txn_def attached_def clean_on_def set_tree_def)
  moreover have "t_root t' = 0" "t_next_page_id t' = 1" using f t(4) h(5) by (auto simp: clean_on_def)
  ultimately have "sim_can_commit 2 1 ?h 128 format_version 1 [] 0 1 0 1 [] one_key"
    using h wf(2) one_key_ok snapshot_empty
    by (auto simp: can_commit_def sim_ops room_def commit_pages_def write_cost_def fits_device_def region_count_def wal_regions_def wal_blocks_def
      multi_region_def format_version_def multi_region_format_version_def)
  then show thesis using wf(2) by (intro that [of ?h]) auto
qed

lemma one_key_commits:
  obtains h h' where "sim_can_commit 2 1 h 128 format_version 1 [] 0 1 0 1 [] one_key" "\<not> beaten (t_pending_ops (h_tree h)) Map.empty Map.empty"
    "commit sim_device 2 h = (Ok (Outcome_Committed, h'), h_dev h')" "disk_inv (h_dev h')"
proof -
  obtain h where h: "sim_can_commit 2 1 h 128 format_version 1 [] 0 1 0 1 [] one_key" "t_pending_ops (h_tree h) = one_key" using one_key_pending .
  have nb: "\<not> beaten (t_pending_ops (h_tree h)) Map.empty Map.empty" using h(2) one_key_ok(4) by simp
  show thesis using sim_dev.commit_unbeaten [OF h(1)] nb one_key_ok(5) that [OF h(1) nb] by (force simp: sim_dev.committed_as_def)
qed

section \<open>Properties\<close>

text \<open>
  C2: transactions commit as if one after the other. A transaction is refused with a conflict exactly
  when the committed state differs from its snapshot in a key it wrote (merged counters apart), and
  the device is untouched; otherwise the committed state becomes the state found at commit time with
  the transaction's operations applied, unless the record outgrows a log region, which leaves the
  device untouched too.
\<close>

theorem commits_serialise:
  assumes "sim_can_commit depth cc h ps fv hb eb root nxt seq hc es ops"
  shows "if beaten (t_pending_ops (h_tree h)) (map_of eb) (map_of es)
    then \<exists>h'. commit sim_device depth h = (Ok (Outcome_Conflict, h'), h_dev h) \<and> idle_on sim_device h' ps fv root nxt seq
    else (\<exists>h' root' nxt' hh es'. commit sim_device depth h = (Ok (Outcome_Committed, h'), h_dev h') \<and>
        holds (disk_read (h_dev h')) ps fv root' nxt' (seq + 1) hh es' \<and> map_of es' = overlay (map_of es) ops \<and>
        idle_on sim_device h' ps fv root' nxt' (seq + 1)) \<or>
      (\<exists>n > max_record_len ps. commit sim_device depth h = (Err (does_not_fit n (max_record_len ps)), h_dev h))"
  using sim_dev.commit_beaten [OF assms] sim_dev.commit_unbeaten [OF assms] unfolding sim_dev.committed_as_def sim_ops by metis

theorem commits_serialise_witness:
  "\<exists>h. t_pending_ops (h_tree h) = one_key \<and>
    (if beaten one_key Map.empty Map.empty
     then \<exists>h'. commit sim_device 2 h = (Ok (Outcome_Conflict, h'), h_dev h) \<and> idle_on sim_device h' 128 format_version 0 1 0
     else (\<exists>h' root' nxt' hh es'. commit sim_device 2 h = (Ok (Outcome_Committed, h'), h_dev h') \<and>
         holds (disk_read (h_dev h')) 128 format_version root' nxt' (0 + 1) hh es' \<and> map_of es' = overlay Map.empty one_key \<and>
         idle_on sim_device h' 128 format_version root' nxt' (0 + 1)) \<or>
       (\<exists>n > max_record_len 128. commit sim_device 2 h = (Err (does_not_fit n (max_record_len 128)), h_dev h)))"
proof -
  obtain h where h: "sim_can_commit 2 1 h 128 format_version 1 [] 0 1 0 1 [] one_key" "t_pending_ops (h_tree h) = one_key" using one_key_pending .
  from commits_serialise [OF h(1), unfolded h(2) map_of.simps(1)] h(2) show ?thesis by (intro exI conjI)
qed

text \<open>
  C7: a transaction that wrote nothing another one changed, and whose pages at their largest fit one
  log record, commits.
\<close>

theorem small_transaction_commits:
  assumes "sim_can_commit depth cc h ps fv hb eb root nxt seq hc es ops" "\<not> beaten (t_pending_ops (h_tree h)) (map_of eb) (map_of es)"
    "record_minimum fv + commit_pages depth cc ops * (page_entry_header_len fv + ps) \<le> max_record_len ps"
  shows "\<exists>h'. commit sim_device depth h = (Ok (Outcome_Committed, h'), h_dev h')"
  using sim_dev.commit_unbeaten [OF assms(1,2)] assms(3) by auto

theorem small_transaction_commits_witness:
  "\<exists>h h'. sim_can_commit 2 1 h 128 format_version 1 [] 0 1 0 1 [] one_key \<and> commit sim_device 2 h = (Ok (Outcome_Committed, h'), h_dev h')"
proof -
  obtain h where h: "sim_can_commit 2 1 h 128 format_version 1 [] 0 1 0 1 [] one_key" "t_pending_ops (h_tree h) = one_key" using one_key_pending .
  from small_transaction_commits [OF h(1)] h one_key_ok(4,5) show ?thesis by auto
qed

text \<open>
  C3: what is committed stays committed. After a commit that reported success, a power loss, torn
  write included, and reopening the file give a handle that reads exactly the committed state.
\<close>

theorem commit_durable:
  assumes "sim_can_commit depth cc h ps fv hb eb root nxt seq hc es ops"
    "commit sim_device depth h = (Ok (Outcome_Committed, h'), d')" "f = Crash \<or> f = Torn_Write p" "disk_sync d' f = Ok (out, d'')"
  shows "\<exists>h2. open_tree sim_device d'' = (Ok h2, h_dev h2) \<and> (\<forall>k. get depth (h_tree h2) k = Ok (overlay (map_of es) ops k))"
proof -
  have nb: "\<not> beaten (t_pending_ops (h_tree h)) (map_of eb) (map_of es)"
    using sim_dev.commit_beaten [OF assms(1)] assms(2) by auto
  have h': "h_dev h' = d'" and c: "sim_dev.committed_as h ps fv nxt seq (hc + card (dom ops)) (overlay (map_of es) ops) h'"
    using sim_dev.commit_unbeaten [OF assms(1) nb] assms(2) by auto
  then obtain d0 root' nxt' hh es' where s: "disk_inv d0" "dv_sync sim_device d0 = (Ok (), d')" "capacity d' = capacity (h_dev h)"
      "holds (disk_read d') ps fv root' nxt' (seq + 1) hh es'" "map_of es' = overlay (map_of es) ops" "hh \<le> hc + card (dom ops)"
    by (auto simp: sim_dev.committed_as_def sim_ops)
  note cr = synced_then_crash [OF s(1,2) assms(3,4)]
  have "fits_device ps fv (max nxt (t_next_page_id (h_tree h))) (commit_pages depth cc ops) (capacity (h_dev h))" "0 < nxt" "hh \<le> depth"
    using assms(1) s(6) by (auto simp: can_commit_def holds_def)
  then have "all_regions_end ps fv \<le> capacity d''" using fits_regions cr(2) s(3) by (metis less_max_iff_disj)
  then obtain h2 where o: "open_tree sim_device d'' = (Ok h2, h_dev h2)" "holds (dv_read sim_device (h_dev h2)) ps fv root' nxt' (seq + 1) hh es'"
      "idle_on sim_device h2 ps fv root' nxt' (seq + 1)"
    using sim_dev.open_spec [OF cr(1), of ps fv root' nxt' "seq + 1" hh es'] s(4) cr(3) by (auto simp: sim_ops)
  have "get depth (h_tree h2) k = Ok (map_of es' k)" for k
    using sim_dev.idle_get [OF o(3)] o(2) \<open>hh \<le> depth\<close> by (auto simp: holds_def)
  then show ?thesis using o(1) s(5) by auto
qed

theorem commit_durable_witness:
  "\<exists>h h' out d2 h2. commit sim_device 2 h = (Ok (Outcome_Committed, h'), h_dev h') \<and> disk_sync (h_dev h') (Torn_Write 9) = Ok (out, d2) \<and>
     open_tree sim_device d2 = (Ok h2, h_dev h2) \<and> get 2 (h_tree h2) [7] = Ok (Some [1])"
proof -
  obtain h h' where h: "sim_can_commit 2 1 h 128 format_version 1 [] 0 1 0 1 [] one_key" "commit sim_device 2 h = (Ok (Outcome_Committed, h'), h_dev h')"
    "disk_inv (h_dev h')" using one_key_commits by metis
  obtain out d2 where s: "disk_sync (h_dev h') (Torn_Write 9) = Ok (out, d2)" using disk_sync_total [OF h(3), of "Torn_Write 9"] by blast
  have "overlay (map_of []) one_key [7] = Some [1]" by (simp add: overlay_def one_key_def)
  with commit_durable [OF h(1,2) _ s, of 9] obtain h2 where "open_tree sim_device d2 = (Ok h2, h_dev h2)" "get 2 (h_tree h2) [7] = Ok (Some [1])" by auto
  with h(2) s show ?thesis by blast
qed

text \<open>
  C6: a commit leaves every older committed state readable: a reader that stays on its root gets the
  same answers after any number of pages were written by others.
\<close>

theorem snapshots_survive_commit:
  assumes "sim_can_commit depth cc h ps fv hb eb root nxt seq hc es ops" "commit sim_device depth h = (Ok (Outcome_Committed, h'), d')"
    "snapshot (disk_read (h_dev h)) ps fv older levels pinned entries" "older \<le> nxt" "levels \<le> d"
    "t_read t = disk_read d'" "t_page_size t = ps" "t_format_version t = fv"
  shows "get_from_root d t pinned k = Ok (map_of entries k)"
proof -
  have nb: "\<not> beaten (t_pending_ops (h_tree h)) (map_of eb) (map_of es)"
    using sim_dev.commit_beaten [OF assms(1)] assms(2) by auto
  have h': "h_dev h' = d'" and c: "sim_dev.committed_as h ps fv nxt seq (hc + card (dom ops)) (overlay (map_of es) ops) h'"
    using sim_dev.commit_unbeaten [OF assms(1) nb] assms(2) by auto
  then have "snapshot (disk_read d') ps fv older levels pinned entries"
    using assms(3,4) by (auto simp: sim_dev.committed_as_def sim_ops)
  then show ?thesis using assms(5-8) by (intro snapshot_get) auto
qed

theorem snapshots_survive_commit_witness:
  "\<exists>h h' t. commit sim_device 2 h = (Ok (Outcome_Committed, h'), h_dev h') \<and> t_read t = disk_read (h_dev h') \<and>
     get_from_root 1 t 0 [7] = Ok (map_of [] ([7] :: bytes))"
proof -
  obtain h h' where h: "sim_can_commit 2 1 h 128 format_version 1 [] 0 1 0 1 [] one_key" "commit sim_device 2 h = (Ok (Outcome_Committed, h'), h_dev h')"
    using one_key_commits by metis
  let ?t = "empty_tree\<lparr>t_read := disk_read (h_dev h'), t_page_size := 128, t_format_version := format_version\<rparr>"
  have "get_from_root 1 ?t 0 [7] = Ok (map_of [] ([7] :: bytes))"
    by (rule snapshots_survive_commit [OF h, of 1 1]) (simp_all add: snapshot_empty)
  with h(2) show ?thesis by (intro exI [of _ h] exI [of _ h'] exI [of _ ?t]) simp
qed

text \<open>
  C14: a created database is empty, durable at once, and opens after a power loss with the page size
  and format version it was created with.
\<close>

theorem create_then_open:
  assumes "disk_inv d" "min_page_size \<le> ps" "ps < 65536" "all_regions_end ps format_version \<le> capacity d" "f = Crash \<or> f = Torn_Write p"
  shows "\<exists>h d1 out d2 h2. create_tree sim_device d ps = (Ok h, d1) \<and> disk_sync d1 f = Ok (out, d2) \<and> open_tree sim_device d2 = (Ok h2, h_dev h2) \<and>
    t_page_size (h_tree h2) = ps \<and> t_format_version (h_tree h2) = format_version \<and> (\<forall>k. get (Suc depth) (h_tree h2) k = Ok None)"
proof -
  obtain h d0 where h: "create_tree sim_device d ps = (Ok h, h_dev h)" "disk_inv (h_dev h)" "capacity (h_dev h) = capacity d" "disk_inv d0"
      "dv_sync sim_device d0 = (Ok (), h_dev h)" "holds (dv_read sim_device (h_dev h)) ps format_version 0 1 0 1 []"
    using sim_dev.create_spec [OF assms(1-4)] by blast
  obtain out d2 where s: "disk_sync (h_dev h) f = Ok (out, d2)" using disk_sync_total [OF h(2), of f] by blast
  note cr = synced_then_crash [OF h(4,5) assms(5) s]
  obtain h2 where o: "open_tree sim_device d2 = (Ok h2, h_dev h2)" "holds (dv_read sim_device (h_dev h2)) ps format_version 0 1 0 1 []"
      "idle_on sim_device h2 ps format_version 0 1 0"
    using sim_dev.open_spec [OF cr(1), of ps format_version 0 1 0 1 "[]"] h(3,6) cr(2,3) assms(4) by (auto simp: sim_ops)
  have "get (Suc depth) (h_tree h2) k = Ok None" for k
    using sim_dev.idle_get [OF o(3), of 1 1 "[]" "Suc depth" k] o(2) by (auto simp: holds_def)
  then show ?thesis using h(1) s o(1,3) by (auto simp: idle_on_def)
qed

theorem create_then_open_witness:
  "\<exists>h d1 out d2 h2. create_tree sim_device blank_disk 128 = (Ok h, d1) \<and> disk_sync d1 Crash = Ok (out, d2) \<and>
    open_tree sim_device d2 = (Ok h2, h_dev h2) \<and> t_page_size (h_tree h2) = 128 \<and> t_format_version (h_tree h2) = format_version \<and>
    (\<forall>k. get (Suc 0) (h_tree h2) k = Ok None)"
  by (rule create_then_open) (use blank_disk_ok in \<open>simp_all add: min_page_size_def\<close>)

text \<open>
  C15: a checkpoint keeps the committed state and leaves recovery nothing to replay.
\<close>

theorem checkpoint_keeps_state:
  assumes "idle_on sim_device h ps fv r0 n0 s0" "disk_inv (h_dev h)" "holds (disk_read (h_dev h)) ps fv root nxt seq hh es"
    "all_regions_end ps fv \<le> capacity (h_dev h)" "hh \<le> depth"
  shows "\<exists>h' nxt'. checkpoint sim_device h = (Ok h', h_dev h') \<and>
    read_committed_state (disk_read (h_dev h')) ps fv = Ok (root, nxt', seq, []) \<and> nxt \<le> nxt' \<and>
    (\<forall>k. get depth (h_tree h') k = Ok (map_of es k))"
proof -
  have a: "attached sim_device h" "t_page_size (h_tree h) = ps" "t_format_version (h_tree h) = fv" "clean_on (h_tree h) n0 r0"
    using assms(1) by (auto simp: idle_on_def)
  obtain replay where f: "file_ok (dv_read sim_device (h_dev h)) ps fv root nxt seq replay" and sn: "snapshot (disk_read (h_dev h)) ps fv nxt hh root es"
    using assms(3) by (auto simp: holds_def sim_ops)
  let ?nx = "max nxt (t_next_page_id (h_tree h))"
  obtain d' where d': "checkpoint sim_device h = (Ok ((set_tree h (attach sim_device d' ((h_tree h)\<lparr>t_root := root, t_next_page_id := ?nx\<rparr>)))
      \<lparr>h_next_seq := seq + 1, h_checkpoint_seq := seq, h_dev := d', h_seen_generation := None\<rparr>), d')"
    "file_ok (disk_read d') ps fv root ?nx seq []" "\<forall>a n. all_regions_end ps fv \<le> a \<longrightarrow> disk_read d' a n = disk_read (h_dev h) a n"
    using sim_dev.checkpoint_spec [OF a(1-3) assms(2) f assms(4) refl] by (auto simp: sim_ops)
  let ?h = "(set_tree h (attach sim_device d' ((h_tree h)\<lparr>t_root := root, t_next_page_id := ?nx\<rparr>)))
      \<lparr>h_next_seq := seq + 1, h_checkpoint_seq := seq, h_dev := d', h_seen_generation := None\<rparr>"
  have "snapshot (disk_read d') ps fv nxt hh root es"
    by (rule snapshot_cong [OF sn]) (use holds_sizes [OF assms(3)] d'(3) data_above in auto)
  moreover have "idle_on sim_device ?h ps fv root nxt seq"
    using assms(1) a by (simp add: idle_on_def attached_def set_tree_def clean_on_def)
  ultimately have "get depth (h_tree ?h) k = Ok (map_of es k)" for k
    using sim_dev.idle_get [of ?h ps fv root nxt seq nxt hh es depth k] assms(5) by (simp add: set_tree_def sim_ops)
  then show ?thesis using d'(1) file_committed [OF d'(2)] by (intro exI [of _ ?h] exI [of _ ?nx]) (simp add: set_tree_def)
qed

theorem checkpoint_keeps_state_witness:
  "\<exists>h h' nxt'. create_tree sim_device blank_disk 128 = (Ok h, h_dev h) \<and> checkpoint sim_device h = (Ok h', h_dev h') \<and>
    read_committed_state (disk_read (h_dev h')) 128 format_version = Ok (0, nxt', 0, []) \<and> 1 \<le> nxt' \<and> (\<forall>k. get 1 (h_tree h') k = Ok (map_of [] k))"
proof -
  obtain h where h: "create_tree sim_device blank_disk 128 = (Ok h, h_dev h)" "disk_inv (h_dev h)" "capacity (h_dev h) = 2048 * 128"
    "holds (disk_read (h_dev h)) 128 format_version 0 1 0 1 []" "idle_on sim_device h 128 format_version 0 1 0" using blank_created by metis
  from checkpoint_keeps_state [OF h(5,2,4), of 1] blank_disk_ok h(1,3) show ?thesis by auto
qed

text \<open>
  C16: a handle between transactions that refreshes reads the newest committed state, and says whether
  its root moved.
\<close>

theorem refresh_reads_newest:
  assumes "idle_on sim_device h ps fv r0 n0 s0" "holds (disk_read (h_dev h)) ps fv root nxt seq hh es" "s0 \<le> seq" "unat s0 + 1 < 2 ^ 64" "hh \<le> depth"
  shows "\<exists>h'. refresh sim_device h = Ok (root \<noteq> r0, h') \<and> t_root (h_tree h') = root \<and> get depth (h_tree h') k = Ok (map_of es k)"
  using sim_dev.refresh_spec [OF assms(1), of root nxt seq hh es depth k] assms(2-5) by (auto simp: sim_ops)

theorem refresh_reads_newest_witness:
  "\<exists>h h'. create_tree sim_device blank_disk 128 = (Ok h, h_dev h) \<and> refresh sim_device h = Ok (0 \<noteq> (0 :: page_id), h') \<and>
    t_root (h_tree h') = 0 \<and> get 1 (h_tree h') [7] = Ok (map_of [] ([7] :: bytes))"
proof -
  obtain h where h: "create_tree sim_device blank_disk 128 = (Ok h, h_dev h)"
    "holds (disk_read (h_dev h)) 128 format_version 0 1 0 1 []" "idle_on sim_device h 128 format_version 0 1 0" using blank_created by metis
  from refresh_reads_newest [OF h(3,2), of 1 "[7]"] h(1) show ?thesis by auto
qed



end
