(* ===== verification/Like.thy ===== *)
theory Like
  imports Value
begin

text \<open>
  The \<open>LIKE\<close> matcher (\<^verbatim>\<open>src/crates/inlaysql-core/src/eval.rs\<close>): compiling a pattern with
  its escape character, ASCII case folding, and the iterative backtracking loop. A \<open>str\<close> is
  the list of code points \<open>chars()\<close> yields. The loop is a partial function whose value
  \<open>None\<close> would mean that it never returns; it is shown to return, without panicking, what the
  recursive definition of wildcard matching says.
\<close>

section \<open>Characters\<close>

definition low6 :: "u8 \<Rightarrow> nat" where
  "low6 b = unat b mod 64"

fun utf8_chars :: "bytes \<Rightarrow> nat list" where
  "utf8_chars [] = []"
| "utf8_chars (a # rest) =
     (if unat a < 0x80 then unat a # utf8_chars rest
      else case rest of
        b # rest2 \<Rightarrow>
          (if utf8_two a b then (unat a mod 32 * 64 + low6 b) # utf8_chars rest2
           else case rest2 of
             c # rest3 \<Rightarrow>
               (if utf8_three a b c then ((unat a mod 16 * 64 + low6 b) * 64 + low6 c) # utf8_chars rest3
                else case rest3 of
                  d # rest4 \<Rightarrow> (((unat a mod 8 * 64 + low6 b) * 64 + low6 c) * 64 + low6 d) # utf8_chars rest4
                | [] \<Rightarrow> [])
           | [] \<Rightarrow> [])
      | [] \<Rightarrow> [])"

text \<open>\<open>char::eq_ignore_ascii_case\<close>.\<close>

definition char_lower :: "nat \<Rightarrow> nat" where
  "char_lower c = (if 65 \<le> c \<and> c \<le> 90 then c + 32 else c)"

definition like_char_eq :: "nat \<Rightarrow> nat \<Rightarrow> bool" where
  "like_char_eq pattern t \<longleftrightarrow> pattern = t \<or> char_lower pattern = char_lower t"

section \<open>Patterns\<close>

datatype like_token = Any | One | Literal nat

fun compile_pattern :: "nat list \<Rightarrow> nat option \<Rightarrow> like_token list option" where
  "compile_pattern [] escape = Some []"
| "compile_pattern (c # cs) escape =
     (if Some c = escape then
        (case cs of
           [] \<Rightarrow> None
         | d # ds \<Rightarrow> map_option ((#) (Literal d)) (compile_pattern ds escape))
      else if c = 37 then map_option ((#) Any) (compile_pattern cs escape)
      else if c = 95 then map_option ((#) One) (compile_pattern cs escape)
      else map_option ((#) (Literal c)) (compile_pattern cs escape))"

section \<open>The matching loop\<close>

partial_function (option) like_loop ::
  "like_token list \<Rightarrow> nat list \<Rightarrow> nat \<Rightarrow> nat \<Rightarrow> (nat \<times> nat) option \<Rightarrow> bool result option" where
  "like_loop tokens str token pos wildcard =
     (if pos < length str
      then (case get_at tokens token of
              Some Any \<Rightarrow> like_loop tokens str (token + 1) pos (Some (token, pos))
            | Some One \<Rightarrow> like_loop tokens str (token + 1) (pos + 1) wildcard
            | other \<Rightarrow>
                (if (case other of Some (Literal c) \<Rightarrow> like_char_eq c (str ! pos) | _ \<Rightarrow> False)
                 then like_loop tokens str (token + 1) (pos + 1) wildcard
                 else case wildcard of
                   Some (wt, wp) \<Rightarrow> like_loop tokens str (wt + 1) (wp + 1) (Some (wt, wp + 1))
                 | None \<Rightarrow> Some (Ok False)))
      else Some (rbind (index_range tokens token (length tokens)) (\<lambda>rest. Ok (list_all (\<lambda>t. t = Any) rest))))"

declare like_loop.simps [simp del]

definition like_matches :: "bytes \<Rightarrow> bytes \<Rightarrow> nat option \<Rightarrow> bool result option" where
  "like_matches pattern t escape =
     (case compile_pattern (utf8_chars pattern) escape of
        None \<Rightarrow> Some (Ok False)
      | Some tokens \<Rightarrow> like_loop tokens (utf8_chars t) 0 0 None)"

section \<open>Wildcard matching\<close>

fun like_ref :: "like_token list \<Rightarrow> nat list \<Rightarrow> bool" where
  "like_ref [] cs \<longleftrightarrow> cs = []"
| "like_ref (Any # ts) cs \<longleftrightarrow> like_ref ts cs \<or> (case cs of [] \<Rightarrow> False | _ # rest \<Rightarrow> like_ref (Any # ts) rest)"
| "like_ref (One # ts) cs \<longleftrightarrow> (case cs of [] \<Rightarrow> False | _ # rest \<Rightarrow> like_ref ts rest)"
| "like_ref (Literal l # ts) cs \<longleftrightarrow> (case cs of [] \<Rightarrow> False | c # rest \<Rightarrow> like_char_eq l c \<and> like_ref ts rest)"

lemma like_ref_Any: "like_ref (Any # ts) cs \<longleftrightarrow> (\<exists>n \<le> length cs. like_ref ts (drop n cs))"
proof (induction cs)
  case (Cons c cs)
  have "like_ref (Any # ts) (c # cs) \<longleftrightarrow> like_ref ts (c # cs) \<or> (\<exists>n \<le> length cs. like_ref ts (drop n cs))"
    using Cons by simp
  also have "\<dots> \<longleftrightarrow> (\<exists>n \<le> Suc (length cs). like_ref ts (drop n (c # cs)))"
  proof
    assume "\<exists>n \<le> Suc (length cs). like_ref ts (drop n (c # cs))"
    then obtain n where "n \<le> Suc (length cs)" "like_ref ts (drop n (c # cs))" by blast
    then show "like_ref ts (c # cs) \<or> (\<exists>n \<le> length cs. like_ref ts (drop n cs))" by (cases n) auto
  next
    assume "like_ref ts (c # cs) \<or> (\<exists>n \<le> length cs. like_ref ts (drop n cs))"
    then show "\<exists>n \<le> Suc (length cs). like_ref ts (drop n (c # cs))"
      by (auto intro: exI [of _ 0] exI [of _ "Suc _"])
  qed
  finally show ?case by simp
qed simp

lemma like_ref_Nil: "like_ref ts [] \<longleftrightarrow> list_all (\<lambda>t. t = Any) ts"
proof (induction ts)
  case (Cons t ts)
  then show ?case by (cases t) auto
qed simp

text \<open>Tokens other than \<open>%\<close> consume one character each.\<close>

lemma like_ref_segment:
  "Any \<notin> set seg \<Longrightarrow> like_ref (seg @ ts) cs \<Longrightarrow> length seg \<le> length cs \<and> like_ref ts (drop (length seg) cs)"
proof (induction seg arbitrary: cs)
  case (Cons t seg)
  then show ?case by (cases t; cases cs) auto
qed simp

section \<open>The loop computes it\<close>

definition like_inv :: "like_token list \<Rightarrow> nat list \<Rightarrow> nat \<Rightarrow> nat \<Rightarrow> (nat \<times> nat) option \<Rightarrow> bool" where
  "like_inv tokens str token pos wildcard \<longleftrightarrow>
     token \<le> length tokens \<and> pos \<le> length str \<and>
     (case wildcard of None \<Rightarrow> True
      | Some (wt, wp) \<Rightarrow> wt < token \<and> wp \<le> pos \<and> token = wt + 1 + (pos - wp) \<and> Any \<notin> set (slice (wt + 1) token tokens))"

text \<open>What is still possible: a match from here, or one that gives the last \<open>%\<close> more characters.\<close>

definition like_ans :: "like_token list \<Rightarrow> nat list \<Rightarrow> nat \<Rightarrow> nat \<Rightarrow> (nat \<times> nat) option \<Rightarrow> bool" where
  "like_ans tokens str token pos wildcard \<longleftrightarrow>
     like_ref (drop token tokens) (drop pos str) \<or>
     (case wildcard of None \<Rightarrow> False
      | Some (wt, wp) \<Rightarrow> \<exists>p. wp < p \<and> p \<le> length str \<and> like_ref (drop (wt + 1) tokens) (drop p str))"

lemma drop_slice: "a \<le> b \<Longrightarrow> drop a xs = slice a b xs @ drop b xs"
  by (simp add: slice_def) (metis append_take_drop_id drop_drop le_add_diff_inverse2)

lemma retry_past_segment:
  assumes "like_inv tokens str token pos (Some (wt, wp))" "wp < p" "p \<le> length str" "like_ref (drop (wt + 1) tokens) (drop p str)"
  shows "\<exists>q. pos < q \<and> q \<le> length str \<and> like_ref (drop token tokens) (drop q str)"
proof -
  have i: "wt + 1 \<le> token" "token = wt + 1 + (pos - wp)" "wp \<le> pos" "Any \<notin> set (slice (wt + 1) token tokens)" "token \<le> length tokens"
    using assms(1) by (auto simp: like_inv_def)
  have l: "length (slice (wt + 1) token tokens) = pos - wp" using i by simp
  have "like_ref (slice (wt + 1) token tokens @ drop token tokens) (drop p str)"
    using assms(4) drop_slice [OF i(1), of tokens] by simp
  from like_ref_segment [OF i(4) this] l assms(3) i(3)
  have "pos - wp \<le> length str - p" "like_ref (drop token tokens) (drop (p + (pos - wp)) str)"
    by (auto simp: add.commute)
  then show ?thesis using assms(2,3) i(3) by (intro exI [of _ "p + (pos - wp)"]) auto
qed

lemma slice_snoc: "a \<le> b \<Longrightarrow> b < length xs \<Longrightarrow> slice a (Suc b) xs = slice a b xs @ [xs ! b]"
  using slice_slice_append [of a b "Suc b" xs] slice_one [of b xs] by simp

lemma like_inv_step:
  assumes "like_inv tokens str token pos w" "token < length tokens" "pos < length str" "tokens ! token \<noteq> Any"
  shows "like_inv tokens str (token + 1) (pos + 1) w"
  using assms slice_snoc [of "fst (the w) + 1" token tokens]
  by (auto simp: like_inv_def split: option.splits)

definition like_measure :: "like_token list \<Rightarrow> nat list \<Rightarrow> nat \<times> nat \<times> (nat \<times> nat) option \<Rightarrow> nat \<times> nat \<times> nat" where
  "like_measure tokens str = (\<lambda>(token, pos, w).
     (case w of None \<Rightarrow> Suc (length tokens) | Some (wt, _) \<Rightarrow> length tokens - wt,
      case w of None \<Rightarrow> 0 | Some (_, wp) \<Rightarrow> length str - wp,
      length tokens - token))"

text \<open>One lemma per kind of step: the answer is unchanged.\<close>

lemma no_retry_past_end: "like_inv tokens str token (length str) (Some (wt, wp)) \<Longrightarrow> wp < p \<Longrightarrow> p \<le> length str \<Longrightarrow> \<not> like_ref (drop (wt + 1) tokens) (drop p str)"
  using retry_past_segment [of tokens str token "length str" wt wp p] by auto

lemma ans_end:
  "like_inv tokens str token (length str) w \<Longrightarrow>
   like_ans tokens str token (length str) w \<longleftrightarrow> list_all (\<lambda>t. t = Any) (drop token tokens)"
  using no_retry_past_end [of tokens str token] by (auto simp: like_ans_def like_ref_Nil split: option.splits)

lemma ans_any:
  assumes "like_inv tokens str token pos w" "token < length tokens" "tokens ! token = Any"
  shows "like_ans tokens str (token + 1) pos (Some (token, pos)) \<longleftrightarrow> like_ans tokens str token pos w"
proof -
  have d: "drop token tokens = Any # drop (token + 1) tokens" using assms(2,3) by (simp add: Cons_nth_drop_Suc [symmetric])
  have pos: "pos \<le> length str" using assms(1) by (simp add: like_inv_def)
  have from_pos: "like_ref (drop token tokens) (drop pos str) \<longleftrightarrow>
      (\<exists>p. pos \<le> p \<and> p \<le> length str \<and> like_ref (drop (token + 1) tokens) (drop p str))"
  proof
    assume "like_ref (drop token tokens) (drop pos str)"
    then obtain n where "n \<le> length str - pos" "like_ref (drop (token + 1) tokens) (drop (n + pos) str)"
      unfolding d like_ref_Any by auto
    then show "\<exists>p. pos \<le> p \<and> p \<le> length str \<and> like_ref (drop (token + 1) tokens) (drop p str)"
      using pos by (intro exI [of _ "n + pos"]) auto
  next
    assume "\<exists>p. pos \<le> p \<and> p \<le> length str \<and> like_ref (drop (token + 1) tokens) (drop p str)"
    then obtain p where "pos \<le> p" "p \<le> length str" "like_ref (drop (token + 1) tokens) (drop p str)" by blast
    then show "like_ref (drop token tokens) (drop pos str)"
      unfolding d like_ref_Any by (intro exI [of _ "p - pos"]) auto
  qed
  have later: "like_ref (drop token tokens) (drop pos str)"
    if "pos < q" "q \<le> length str" "like_ref (drop token tokens) (drop q str)" for q
  proof -
    from that(2,3) obtain n where "n \<le> length str - q" "like_ref (drop (token + 1) tokens) (drop (n + q) str)"
      unfolding d like_ref_Any by auto
    then show ?thesis using that(1,2) unfolding from_pos by (intro exI [of _ "n + q"]) auto
  qed
  have "like_ans tokens str token pos w \<longleftrightarrow> like_ref (drop token tokens) (drop pos str)"
    using retry_past_segment [of tokens str token pos] assms(1) later
    by (auto simp: like_ans_def split: option.splits)
  moreover have "like_ans tokens str (token + 1) pos (Some (token, pos)) \<longleftrightarrow> like_ref (drop token tokens) (drop pos str)"
    unfolding from_pos like_ans_def using pos by (auto simp: le_less)
  ultimately show ?thesis by simp
qed

lemma ans_consume:
  assumes "token < length tokens" "pos < length str" "tokens ! token = One \<or> (\<exists>c. tokens ! token = Literal c \<and> like_char_eq c (str ! pos))"
  shows "like_ans tokens str (token + 1) (pos + 1) w \<longleftrightarrow> like_ans tokens str token pos w"
  using assms by (auto simp: like_ans_def Cons_nth_drop_Suc [symmetric, of token tokens] Cons_nth_drop_Suc [symmetric, of pos str])

lemma ans_mismatch:
  assumes "pos < length str" "token \<le> length tokens"
    "\<not> (case get_at tokens token of Some (Literal c) \<Rightarrow> like_char_eq c (str ! pos) | None \<Rightarrow> False | _ \<Rightarrow> True)"
  shows "\<not> like_ref (drop token tokens) (drop pos str)"
proof (cases "token < length tokens")
  case True
  then show ?thesis using assms
    by (cases "tokens ! token")
       (auto simp: get_at_def Cons_nth_drop_Suc [symmetric, of token tokens] Cons_nth_drop_Suc [symmetric, of pos str])
qed (use assms in simp)

lemma ans_retry:
  assumes "like_inv tokens str token pos (Some (wt, wp))" "pos < length str" "\<not> like_ref (drop token tokens) (drop pos str)"
  shows "like_ans tokens str (wt + 1) (wp + 1) (Some (wt, wp + 1)) \<longleftrightarrow> like_ans tokens str token pos (Some (wt, wp))"
proof -
  have "wp + 1 \<le> length str" using assms(1,2) by (auto simp: like_inv_def)
  moreover have "(wp < p) \<longleftrightarrow> p = wp + 1 \<or> wp + 1 < p" for p by auto
  ultimately show ?thesis using assms(3) by (auto simp: like_ans_def)
qed

abbreviation like_less :: "like_token list \<Rightarrow> nat list \<Rightarrow> ((nat \<times> nat \<times> (nat \<times> nat) option) \<times> (nat \<times> nat \<times> (nat \<times> nat) option)) set" where
  "like_less tokens str \<equiv> inv_image (less_than <*lex*> less_than <*lex*> less_than) (like_measure tokens str)"

lemma wf_like_less: "wf (like_less tokens str)"
  by (intro wf_inv_image wf_lex_prod wf_less_than)

lemma like_loop_correct:
  "like_inv tokens str token pos w \<Longrightarrow> like_loop tokens str token pos w = Some (Ok (like_ans tokens str token pos w))"
proof (induction "(token, pos, w)" arbitrary: token pos w rule: wf_induct_rule [OF wf_like_less [of tokens str]])
  case (1 token pos w)
  note inv = "1.prems"
  have bounds: "token \<le> length tokens" "pos \<le> length str" using inv by (auto simp: like_inv_def)
  have consume: "like_loop tokens str (token + 1) (pos + 1) w = Some (Ok (like_ans tokens str token pos w))"
    if t: "token < length tokens" "pos < length str" "tokens ! token = One \<or> (\<exists>c. tokens ! token = Literal c \<and> like_char_eq c (str ! pos))"
  proof -
    have "like_inv tokens str (token + 1) (pos + 1) w" by (rule like_inv_step [OF inv t(1,2)]) (use t(3) in auto)
    moreover have "((token + 1, pos + 1, w), (token, pos, w)) \<in> like_less tokens str"
      using t(1) by (auto simp: like_measure_def)
    ultimately have "like_loop tokens str (token + 1) (pos + 1) w = Some (Ok (like_ans tokens str (token + 1) (pos + 1) w))"
      by (rule "1.hyps" [rotated])
    then show ?thesis by (simp only: ans_consume [OF t, of w])
  qed
  have retry: "(case w of Some (wt, wp) \<Rightarrow> like_loop tokens str (wt + 1) (wp + 1) (Some (wt, wp + 1)) | None \<Rightarrow> Some (Ok False)) =
      Some (Ok (like_ans tokens str token pos w))" if t: "pos < length str" "\<not> like_ref (drop token tokens) (drop pos str)"
  proof (cases w)
    case (Some x)
    obtain wt wp where x: "x = (wt, wp)" by force
    have "like_inv tokens str (wt + 1) (wp + 1) (Some (wt, wp + 1))"
      using inv t(1) by (auto simp: like_inv_def Some x)
    moreover have "((wt + 1, wp + 1, Some (wt, wp + 1)), (token, pos, w)) \<in> like_less tokens str"
      using inv t(1) by (auto simp: like_measure_def like_inv_def Some x)
    ultimately have "like_loop tokens str (wt + 1) (wp + 1) (Some (wt, wp + 1)) = Some (Ok (like_ans tokens str (wt + 1) (wp + 1) (Some (wt, wp + 1))))"
      by (rule "1.hyps" [rotated])
    then show ?thesis using ans_retry [of tokens str token pos wt wp] inv t by (simp add: Some x)
  qed (use t(2) in \<open>simp add: like_ans_def\<close>)
  show ?case
  proof (cases "pos < length str")
    case False
    with bounds have "pos = length str" by simp
    then show ?thesis using ans_end [of tokens str token w] inv bounds
      by (subst like_loop.simps) (simp add: slice_def index_range_in)
  next
    case True
    consider (any) "token < length tokens" "tokens ! token = Any"
      | (eat) "token < length tokens" "tokens ! token = One \<or> (\<exists>c. tokens ! token = Literal c \<and> like_char_eq c (str ! pos))"
      | (stuck) "\<not> (case get_at tokens token of Some (Literal c) \<Rightarrow> like_char_eq c (str ! pos) | None \<Rightarrow> False | _ \<Rightarrow> True)"
      by (cases "token < length tokens"; cases "tokens ! token") (auto simp: get_at_def)
    then show ?thesis
    proof cases
      case any
      have "like_inv tokens str (token + 1) pos (Some (token, pos))" using any True by (simp add: like_inv_def)
      moreover have "((token + 1, pos, Some (token, pos)), (token, pos, w)) \<in> like_less tokens str"
        using inv any by (auto simp: like_measure_def like_inv_def split: option.splits)
      ultimately have "like_loop tokens str (token + 1) pos (Some (token, pos)) = Some (Ok (like_ans tokens str (token + 1) pos (Some (token, pos))))"
        by (rule "1.hyps" [rotated])
      then show ?thesis using ans_any [OF inv any] any True by (subst like_loop.simps) (simp add: get_at_def)
    next
      case eat
      then show ?thesis using consume [OF eat(1) True eat(2)] True
        by (subst like_loop.simps) (auto simp: get_at_def)
    next
      case stuck
      have "\<not> like_ref (drop token tokens) (drop pos str)" by (rule ans_mismatch [OF True bounds(1) stuck])
      then show ?thesis using retry True stuck
        by (subst like_loop.simps) (auto split: option.splits like_token.splits simp: get_at_def)
    qed
  qed
qed

section \<open>Property\<close>

lemma like_matches_eq:
  "like_matches pattern t escape =
     Some (Ok (case compile_pattern (utf8_chars pattern) escape of
                 None \<Rightarrow> False
               | Some tokens \<Rightarrow> like_ref tokens (utf8_chars t)))"
proof (cases "compile_pattern (utf8_chars pattern) escape")
  case (Some tokens)
  have "like_inv tokens (utf8_chars t) 0 0 None" by (simp add: like_inv_def)
  from like_loop_correct [OF this] show ?thesis using Some by (simp add: like_matches_def like_ans_def)
qed (simp add: like_matches_def)

text \<open>
  C33: \<open>LIKE\<close> always returns, never panics, and answers what the recursive definition of
  wildcard matching says of the compiled pattern; a pattern that ends in a dangling escape
  matches nothing.
\<close>

theorem like_matches_correct:
  "like_matches pattern t escape =
     Some (Ok (case compile_pattern (utf8_chars pattern) escape of
                 None \<Rightarrow> False
               | Some tokens \<Rightarrow> like_ref tokens (utf8_chars t)))"
  by (rule like_matches_eq)

end
