(* ===== verification/Convert.thy ===== *)
theory Convert
  imports Like Compare
begin

text \<open>
  Conversions between text and numbers (\<^verbatim>\<open>src/crates/inlaysql-core/src/eval.rs\<close>): the
  numeric prefix of a text, \<open>CAST\<close>, the \<open>NUMERIC\<close> affinity, and the rendering of a value as
  text. The decimal conversions of the Rust standard library (\<open>str::parse::<f64>\<close>,
  \<open>{:.*e}\<close> and \<open>{:.*}\<close> formatting, \<open>String::from_utf8_lossy\<close>) and the four \<open>f64\<close>
  operations are the fields of \<open>float_lib\<close>, an argument: nothing here depends on how they round.
\<close>

record float_lib =
  parse_f64 :: "bytes \<Rightarrow> f64 option"
  fmt_sci :: "nat \<Rightarrow> f64 \<Rightarrow> bytes"
  fmt_fixed :: "nat \<Rightarrow> f64 \<Rightarrow> bytes"
  utf8_lossy :: "bytes \<Rightarrow> bytes"
  f64_add :: "f64 \<Rightarrow> f64 \<Rightarrow> f64"
  f64_sub :: "f64 \<Rightarrow> f64 \<Rightarrow> f64"
  f64_mul :: "f64 \<Rightarrow> f64 \<Rightarrow> f64"
  f64_div :: "f64 \<Rightarrow> f64 \<Rightarrow> f64"

section \<open>Library conversions\<close>

definition is_ascii_digit :: "u8 \<Rightarrow> bool" where
  "is_ascii_digit b \<longleftrightarrow> 48 \<le> unat b \<and> unat b \<le> 57"

definition is_ascii_whitespace :: "u8 \<Rightarrow> bool" where
  "is_ascii_whitespace b \<longleftrightarrow> unat b \<in> {32, 9, 10, 12, 13}"

definition is_sign :: "u8 \<Rightarrow> bool" where
  "is_sign b \<longleftrightarrow> b = 43 \<or> b = 45"

text \<open>\<open>char::is_whitespace\<close>: the code points of the Unicode property \<open>White_Space\<close>.\<close>

definition char_is_whitespace :: "nat \<Rightarrow> bool" where
  "char_is_whitespace c \<longleftrightarrow>
     9 \<le> c \<and> c \<le> 13 \<or> c \<in> {32, 0x85, 0xA0, 0x1680, 0x2028, 0x2029, 0x202F, 0x205F, 0x3000} \<or> 0x2000 \<le> c \<and> c \<le> 0x200A"

definition I64_MIN :: int where "I64_MIN = - (2 ^ 63)"
definition I64_MAX :: int where "I64_MAX = 2 ^ 63 - 1"

text \<open>\<open>real as i64\<close>: truncation towards zero, saturating, NaN to zero.\<close>

definition f64_to_i64 :: "f64 \<Rightarrow> i64" where
  "f64_to_i64 w =
     (if f64_is_nan w then 0
      else let t = (if f64_scaled w < 0 then - ((- f64_scaled w) div 2 ^ 1074) else f64_scaled w div 2 ^ 1074)
           in of_int (max I64_MIN (min I64_MAX t)))"

definition f64_is_finite :: "f64 \<Rightarrow> bool" where
  "f64_is_finite w \<longleftrightarrow> f64_magnitude w div 2 ^ 52 \<noteq> 2047"

definition digits_value :: "bytes \<Rightarrow> nat" where
  "digits_value ds = foldl (\<lambda>n d. n * 10 + (unat d - 48)) 0 ds"

text \<open>\<open>str::parse::<i64>\<close> and \<open>str::parse::<i32>\<close>.\<close>

definition parse_int :: "int \<Rightarrow> int \<Rightarrow> bytes \<Rightarrow> int option" where
  "parse_int lo hi s =
     (let neg = (s \<noteq> [] \<and> hd s = 45); ds = (if s \<noteq> [] \<and> is_sign (hd s) then tl s else s);
          n = (if neg then - int (digits_value ds) else int (digits_value ds))
      in if ds \<noteq> [] \<and> list_all is_ascii_digit ds \<and> lo \<le> n \<and> n \<le> hi then Some n else None)"

definition parse_i64 :: "bytes \<Rightarrow> i64 option" where
  "parse_i64 s = map_option of_int (parse_int I64_MIN I64_MAX s)"

definition parse_i32 :: "bytes \<Rightarrow> int option" where
  "parse_i32 s = parse_int (- (2 ^ 31)) (2 ^ 31 - 1) s"

definition i64_to_text :: "i64 \<Rightarrow> bytes" where
  "i64_to_text i = ascii ((if sint i < 0 then ''-'' else []) @ show_nat (nat \<bar>sint i\<bar>))"

text \<open>\<open>str::find\<close> and \<open>str::split_once\<close> with a one-byte separator.\<close>

fun find_sub :: "bytes \<Rightarrow> bytes \<Rightarrow> nat option" where
  "find_sub [] p = (if p = [] then Some 0 else None)"
| "find_sub (b # bs) p =
     (if take (length p) (b # bs) = p then Some 0 else map_option Suc (find_sub bs p))"

definition split_once :: "u8 \<Rightarrow> bytes \<Rightarrow> (bytes \<times> bytes) option" where
  "split_once c s =
     (let a = takeWhile (\<lambda>b. b \<noteq> c) s in if length a < length s then Some (a, drop (length a + 1) s) else None)"

section \<open>Reading numbers out of text\<close>

text \<open>The loop \<open>while index < len && p(bytes[index])\<close>: the index it stops at.\<close>

definition run_while :: "(u8 \<Rightarrow> bool) \<Rightarrow> bytes \<Rightarrow> nat \<Rightarrow> nat" where
  "run_while p bs i = i + length (takeWhile p (drop i bs))"

definition byte_is :: "bytes \<Rightarrow> nat \<Rightarrow> (u8 \<Rightarrow> bool) \<Rightarrow> bool" where
  "byte_is bs i p \<longleftrightarrow> i < length bs \<and> p (bs ! i)"

definition scan_number :: "bytes \<Rightarrow> (bytes \<times> bool) option" where
  "scan_number bs =
     (let start = run_while is_ascii_whitespace bs 0;
          i1 = (if byte_is bs start is_sign then start + 1 else start);
          i2 = run_while is_ascii_digit bs i1;
          digits = i2 - i1;
          (i3, digits, fractional) =
            (if byte_is bs i2 (\<lambda>b. b = 46)
             then let after = run_while is_ascii_digit bs (i2 + 1); fraction_digits = after - (i2 + 1)
                  in if 0 < digits \<or> 0 < fraction_digits then (after, digits + fraction_digits, True) else (i2, digits, False)
             else (i2, digits, False))
      in if digits = 0 then None
         else let (i4, fractional) =
                (if byte_is bs i3 (\<lambda>b. b = 101 \<or> b = 69)
                 then let a = (if byte_is bs (i3 + 1) is_sign then i3 + 2 else i3 + 1);
                          after = run_while is_ascii_digit bs a
                      in if a < after then (after, True) else (i3, fractional)
                 else (i3, fractional))
              in Some (slice start i4 bs, fractional))"

definition parse_or_zero :: "float_lib \<Rightarrow> bytes \<Rightarrow> f64" where
  "parse_or_zero fl s = (case parse_f64 fl s of Some r \<Rightarrow> r | None \<Rightarrow> 0)"

definition text_to_real :: "float_lib \<Rightarrow> bytes \<Rightarrow> f64" where
  "text_to_real fl s = (case scan_number s of Some (prefix, _) \<Rightarrow> parse_or_zero fl prefix | None \<Rightarrow> 0)"

text \<open>The digit loop: on overflow the magnitude stays and the flag is set.\<close>

fun magnitude_loop :: "bytes \<Rightarrow> nat \<Rightarrow> bool \<Rightarrow> nat \<times> bool" where
  "magnitude_loop [] m overflow = (m, overflow)"
| "magnitude_loop (b # bs) m overflow =
     (if is_ascii_digit b
      then let v = m * 10 + (unat b - 48)
           in if v < 2 ^ 64 then magnitude_loop bs v overflow else magnitude_loop bs m True
      else (m, overflow))"

definition text_to_integer :: "bytes \<Rightarrow> i64" where
  "text_to_integer bs =
     (let i = run_while is_ascii_whitespace bs 0;
          negative = byte_is bs i (\<lambda>b. b = 45);
          i = (if byte_is bs i is_sign then i + 1 else i);
          (m, overflow) = magnitude_loop (drop i bs) 0 False
      in if negative
         then (if overflow \<or> 2 ^ 63 < m then of_int I64_MIN else - of_nat m)
         else (if overflow \<or> 2 ^ 63 - 1 < m then of_int I64_MAX else of_nat m))"

definition text_to_numeric :: "float_lib \<Rightarrow> bytes \<Rightarrow> sql_value" where
  "text_to_numeric fl s =
     (case scan_number s of
        None \<Rightarrow> Integer 0
      | Some (prefix, fractional) \<Rightarrow>
          (if \<not> fractional
           then (case parse_i64 prefix of Some i \<Rightarrow> Integer i | None \<Rightarrow> Real (parse_or_zero fl prefix))
           else let real = parse_or_zero fl prefix; t = f64_to_i64 real
                in if f64_eq real (i64_to_f64 t) \<and> - (2 ^ 51) \<le> sint t \<and> sint t \<le> 2 ^ 51 then Integer t else Real real))"

text \<open>\<open>integer_affinity\<close>, \<open>whole_number\<close>, and the \<open>NUMERIC\<close> affinity of a text and of a value.\<close>

definition integer_affinity :: "f64 \<Rightarrow> sql_value" where
  "integer_affinity real =
     (if f64_is_finite real
      then let i = f64_to_i64 real
           in if f64_eq (i64_to_f64 i) real \<and> I64_MIN < sint i \<and> sint i < I64_MAX then Integer i else Real real
      else Real real)"

definition whole_number :: "bytes \<Rightarrow> bytes option" where
  "whole_number s =
     (case scan_number s of
        None \<Rightarrow> None
      | Some (prefix, _) \<Rightarrow>
          (case find_sub s prefix of
             None \<Rightarrow> None
           | Some start \<Rightarrow>
               if list_all char_is_whitespace (utf8_chars (drop (start + length prefix) s)) then Some prefix else None))"

definition numeric_affinity_of_text :: "float_lib \<Rightarrow> bytes \<Rightarrow> sql_value option" where
  "numeric_affinity_of_text fl s =
     (case whole_number s of
        None \<Rightarrow> None
      | Some prefix \<Rightarrow>
          (case parse_f64 fl prefix of
             None \<Rightarrow> None
           | Some real \<Rightarrow>
               (let narrow = f64_to_i64 real
                in if f64_eq real (i64_to_f64 narrow) \<and> - (2 ^ 51) \<le> sint narrow \<and> sint narrow < 2 ^ 51
                   then Some (Integer narrow)
                   else Some (case parse_i64 prefix of Some i \<Rightarrow> Integer i | None \<Rightarrow> integer_affinity real))))"

fun numeric_affinity :: "float_lib \<Rightarrow> sql_value \<Rightarrow> sql_value" where
  "numeric_affinity fl (Text s) = (case numeric_affinity_of_text fl s of Some v \<Rightarrow> v | None \<Rightarrow> Text s)"
| "numeric_affinity fl (Real r) = integer_affinity r"
| "numeric_affinity fl v = v"

section \<open>Rendering\<close>

definition trim_fraction :: "bytes \<Rightarrow> bool \<Rightarrow> bytes" where
  "trim_fraction s force_fraction =
     (case split_once 46 s of
        Some (whole, fraction) \<Rightarrow>
          (let fraction = rev (dropWhile (\<lambda>b. b = 48) (rev fraction))
           in if fraction = [] then (if force_fraction then whole @ ascii ''.0'' else whole)
              else whole @ [46] @ fraction)
      | None \<Rightarrow> (if force_fraction then s @ ascii ''.0'' else s))"

text \<open>\<open>{:02}\<close> of an unsigned exponent.\<close>

definition show_02 :: "nat \<Rightarrow> string" where
  "show_02 n = (if n < 10 then ''0'' @ show_nat n else show_nat n)"

definition format_g :: "float_lib \<Rightarrow> f64 \<Rightarrow> nat \<Rightarrow> bool \<Rightarrow> bytes" where
  "format_g fl v precision force_fraction =
     (if f64_is_nan v then ascii ''NaN''
      else if \<not> f64_is_finite v then (if 0 < f64_scaled v then ascii ''Inf'' else ascii ''-Inf'')
      else let scientific = fmt_sci fl (precision - 1) v;
               (mantissa, exponent) =
                 (case split_once 101 scientific of
                    Some (m, e) \<Rightarrow> (m, case parse_i32 e of Some i \<Rightarrow> i | None \<Rightarrow> 0)
                  | None \<Rightarrow> (scientific, 0))
           in if \<not> (- 4 \<le> exponent \<and> exponent < int precision)
              then trim_fraction mantissa force_fraction @ ascii ''e'' @ (if exponent < 0 then ascii ''-'' else ascii ''+'')
                     @ ascii (show_02 (nat \<bar>exponent\<bar>))
              else trim_fraction (fmt_fixed fl (nat (max (int precision - 1 - exponent) 0)) v) force_fraction)"

definition real_to_text :: "float_lib \<Rightarrow> f64 \<Rightarrow> bytes" where
  "real_to_text fl v = format_g fl v 15 True"

fun as_text :: "float_lib \<Rightarrow> sql_value \<Rightarrow> bytes result" where
  "as_text fl Null = Err (Type ''NULL has no text form; it propagates instead'')"
| "as_text fl (Integer i) = Ok (i64_to_text i)"
| "as_text fl (Real r) = Ok (real_to_text fl r)"
| "as_text fl (Text s) = Ok s"
| "as_text fl (Blob b) = Ok (utf8_lossy fl b)"
| "as_text fl (Vector v) = Err (Type ''a VECTOR value has no text form'')"

datatype cast_type = CastInteger | CastReal | CastText | CastBlob | CastNumeric

fun cast_debug :: "cast_type \<Rightarrow> string" where
  "cast_debug CastInteger = ''Integer''"
| "cast_debug CastReal = ''Real''"
| "cast_debug CastText = ''Text''"
| "cast_debug CastBlob = ''Blob''"
| "cast_debug CastNumeric = ''Numeric''"

text \<open>\<open>unreachable!\<close> is a panic; \<open>NULL\<close> and vectors are handled first.\<close>

definition cast :: "float_lib \<Rightarrow> sql_value \<Rightarrow> cast_type \<Rightarrow> sql_value result" where
  "cast fl v to_type =
     (if v = Null then Ok Null
      else if as_vector v \<noteq> None then Err (Type (''a VECTOR value cannot be CAST to '' @ cast_debug to_type))
      else case to_type of
        CastText \<Rightarrow> rbind (as_text fl v) (\<lambda>s. Ok (Text s))
      | CastBlob \<Rightarrow> (case v of Blob b \<Rightarrow> Ok (Blob b) | other \<Rightarrow> rbind (as_text fl other) (\<lambda>s. Ok (Blob s)))
      | CastInteger \<Rightarrow>
          (case v of Integer i \<Rightarrow> Ok (Integer i) | Real r \<Rightarrow> Ok (Integer (f64_to_i64 r))
           | Text s \<Rightarrow> Ok (Integer (text_to_integer s)) | Blob b \<Rightarrow> Ok (Integer (text_to_integer (utf8_lossy fl b)))
           | _ \<Rightarrow> Panic)
      | CastReal \<Rightarrow>
          (case v of Integer i \<Rightarrow> Ok (Real (i64_to_f64 i)) | Real r \<Rightarrow> Ok (Real r)
           | Text s \<Rightarrow> Ok (Real (text_to_real fl s)) | Blob b \<Rightarrow> Ok (Real (text_to_real fl (utf8_lossy fl b)))
           | _ \<Rightarrow> Panic)
      | CastNumeric \<Rightarrow>
          (case v of Integer i \<Rightarrow> Ok (Integer i) | Real r \<Rightarrow> Ok (Real r)
           | Text s \<Rightarrow> Ok (text_to_numeric fl s) | Blob b \<Rightarrow> Ok (text_to_numeric fl (utf8_lossy fl b))
           | _ \<Rightarrow> Panic))"

section \<open>Comparison operators\<close>

text \<open>Stage one: what a cell becomes under an affinity, \<open>None\<close> when nothing changes.\<close>

fun affinity_conversion :: "float_lib \<Rightarrow> cell \<Rightarrow> compare_affinity \<Rightarrow> sql_value option" where
  "affinity_conversion fl c AffNone = None"
| "affinity_conversion fl c AffNumeric =
     (case as_text_cell c of None \<Rightarrow> None | Some s \<Rightarrow> numeric_affinity_of_text fl s)"
| "affinity_conversion fl c AffText =
     (if as_text_cell c \<noteq> None \<or> as_blob_cell c \<noteq> None then None
      else case as_i64_cell c of
        Some i \<Rightarrow> Some (Text (i64_to_text i))
      | None \<Rightarrow> (case as_f64_cell c of None \<Rightarrow> None | Some r \<Rightarrow> Some (Text (real_to_text fl r))))"

definition bool_int :: "bool \<Rightarrow> sql_value" where
  "bool_int b = Integer (if b then 1 else 0)"

definition converted :: "cell \<Rightarrow> sql_value option \<Rightarrow> cell" where
  "converted c conversion = (case conversion of Some v \<Rightarrow> value_cell v | None \<Rightarrow> c)"

definition compare_cells :: "float_lib \<Rightarrow> binary_op \<Rightarrow> cell \<Rightarrow> cell \<Rightarrow> collation \<Rightarrow> compare_affinity \<Rightarrow> sql_value result" where
  "compare_cells fl oper left right c affinity =
     (if is_null_cell left \<or> is_null_cell right then Ok Null
      else rbind (class_compare (converted left (affinity_conversion fl left affinity))
                                (converted right (affinity_conversion fl right affinity)) c) (\<lambda>o1.
           rbind (verdict oper o1) (\<lambda>b. Ok (bool_int b))))"

definition comparison :: "float_lib \<Rightarrow> binary_op \<Rightarrow> sql_value \<Rightarrow> sql_value \<Rightarrow> collation \<Rightarrow> compare_affinity \<Rightarrow> sql_value result" where
  "comparison fl oper left right c affinity = compare_cells fl oper (value_cell left) (value_cell right) c affinity"

text \<open>Converting a second time changes nothing.\<close>

lemma numeric_affinity_of_text_number: "numeric_affinity_of_text fl s = Some v \<Longrightarrow> as_str v = None"
  by (auto simp: numeric_affinity_of_text_def integer_affinity_def Let_def split: option.splits if_splits)

lemma affinity_conversion_idem: "affinity_conversion fl c a = Some v \<Longrightarrow> affinity_conversion fl (value_cell v) a = None"
proof (cases a)
  case AffNumeric
  assume "affinity_conversion fl c a = Some v"
  then have "as_str v = None" using AffNumeric by (auto split: option.splits dest: numeric_affinity_of_text_number)
  then show ?thesis using AffNumeric by (simp add: value_cell_def)
next
  case AffText
  assume "affinity_conversion fl c a = Some v"
  then obtain s where "v = Text s" using AffText by (auto split: option.splits if_splits)
  then show ?thesis using AffText by (simp add: value_cell_def)
qed simp

lemma affinity_conversion_not_null: "affinity_conversion fl c a = Some v \<Longrightarrow> v \<noteq> Null"
  by (cases a)
     (auto simp: numeric_affinity_of_text_def integer_affinity_def Let_def split: option.splits if_splits)

end
