(* ===== verification/Eval.thy ===== *)
theory Eval
  imports Convert Row_Mask
begin

text \<open>
  The expression evaluator (\<^verbatim>\<open>src/crates/inlaysql-core/src/eval.rs\<close> and the expression type
  of \<^verbatim>\<open>plan.rs\<close>): three-valued logic, arithmetic, \<open>evaluate\<close> over owned rows,
  \<open>evaluate_ref\<close> over borrowed rows, the compiled filter, and \<open>columns_read\<close>. The scalar
  function library (\<open>call\<close>), the JSON arrows and the subquery runner are fields of the
  environment: the first receives the outcome of each argument, so that a function that skips
  an argument skips its error. The memo of uncorrelated subqueries is not modelled.
\<close>

section \<open>Logic and arithmetic\<close>

fun truth :: "float_lib \<Rightarrow> sql_value \<Rightarrow> bool option" where
  "truth fl Null = None"
| "truth fl (Integer i) = Some (i \<noteq> 0)"
| "truth fl (Real r) = Some (\<not> f64_eq r 0)"
| "truth fl (Text s) = Some (\<not> f64_eq (text_to_real fl s) 0)"
| "truth fl (Blob b) = Some (\<not> f64_eq (text_to_real fl (utf8_lossy fl b)) 0)"
| "truth fl (Vector _) = Some True"

definition is_truthy :: "float_lib \<Rightarrow> sql_value \<Rightarrow> bool" where
  "is_truthy fl v \<longleftrightarrow> truth fl v = Some True"

definition logical_not :: "float_lib \<Rightarrow> sql_value \<Rightarrow> sql_value" where
  "logical_not fl v = (case truth fl v of Some t \<Rightarrow> bool_int (\<not> t) | None \<Rightarrow> Null)"

definition logical_and :: "float_lib \<Rightarrow> sql_value \<Rightarrow> sql_value \<Rightarrow> sql_value" where
  "logical_and fl l r =
     (if truth fl l = Some False \<or> truth fl r = Some False then Integer 0
      else if truth fl l = Some True \<and> truth fl r = Some True then Integer 1
      else Null)"

definition logical_or :: "float_lib \<Rightarrow> sql_value \<Rightarrow> sql_value \<Rightarrow> sql_value" where
  "logical_or fl l r =
     (if truth fl l = Some True \<or> truth fl r = Some True then Integer 1
      else if truth fl l = Some False \<and> truth fl r = Some False then Integer 0
      else Null)"

text \<open>\<open>i64\<close> arithmetic: \<open>checked\<close> is the mathematical result when it fits.\<close>

definition checked :: "int \<Rightarrow> i64 option" where
  "checked n = (if I64_MIN \<le> n \<and> n \<le> I64_MAX then Some (of_int n) else None)"

definition trunc_div :: "int \<Rightarrow> int \<Rightarrow> int" where
  "trunc_div a b = sgn a * sgn b * (\<bar>a\<bar> div \<bar>b\<bar>)"

definition trunc_rem :: "int \<Rightarrow> int \<Rightarrow> int" where
  "trunc_rem a b = a - b * trunc_div a b"

text \<open>Negating a float flips its sign bit.\<close>

definition f64_neg :: "f64 \<Rightarrow> f64" where
  "f64_neg r = (if f64_negative r then of_nat (f64_magnitude r) else of_nat (2 ^ 63 + f64_magnitude r))"

fun negate :: "sql_value \<Rightarrow> sql_value result" where
  "negate Null = Ok Null"
| "negate (Integer i) = Ok (case checked (- sint i) of Some n \<Rightarrow> Integer n | None \<Rightarrow> Real (f64_neg (i64_to_f64 i)))"
| "negate (Real r) = Ok (Real (f64_neg r))"
| "negate v = Err (Type (''cannot negate a '' @ type_name v @ '' value''))"

definition int_mod :: "i64 \<Rightarrow> i64 \<Rightarrow> sql_value" where
  "int_mod a b = (if b = 0 then Null else if sint b = - 1 then Integer 0 else Integer (of_int (trunc_rem (sint a) (sint b))))"

fun real_arithmetic :: "float_lib \<Rightarrow> binary_op \<Rightarrow> f64 \<Rightarrow> f64 \<Rightarrow> sql_value result" where
  "real_arithmetic fl Add a b = Ok (Real (f64_add fl a b))"
| "real_arithmetic fl Sub a b = Ok (Real (f64_sub fl a b))"
| "real_arithmetic fl Mul a b = Ok (Real (f64_mul fl a b))"
| "real_arithmetic fl Div a b = Ok (if f64_eq b 0 then Null else Real (f64_div fl a b))"
| "real_arithmetic fl _ a b = Panic"

definition int_arithmetic :: "float_lib \<Rightarrow> binary_op \<Rightarrow> i64 \<Rightarrow> i64 \<Rightarrow> sql_value result" where
  "int_arithmetic fl oper a b =
     (let finish = (\<lambda>c. case c of Some n \<Rightarrow> Ok (Integer n) | None \<Rightarrow> real_arithmetic fl oper (i64_to_f64 a) (i64_to_f64 b))
      in case oper of
        Add \<Rightarrow> finish (checked (sint a + sint b))
      | Sub \<Rightarrow> finish (checked (sint a - sint b))
      | Mul \<Rightarrow> finish (checked (sint a * sint b))
      | Div \<Rightarrow> (if b = 0 then Ok Null else finish (checked (trunc_div (sint a) (sint b))))
      | Mod \<Rightarrow> Ok (int_mod a b)
      | _ \<Rightarrow> Panic)"

definition arithmetic :: "float_lib \<Rightarrow> binary_op \<Rightarrow> sql_value \<Rightarrow> sql_value \<Rightarrow> sql_value result" where
  "arithmetic fl oper l r =
     (if l = Null \<or> r = Null then Ok Null
      else case (l, r) of
        (Integer a, Integer b) \<Rightarrow> int_arithmetic fl oper a b
      | _ \<Rightarrow> (case (as_f64 l, as_f64 r) of
            (Some a, Some b) \<Rightarrow>
              (if oper = Mod then Ok (int_mod (f64_to_i64 a) (f64_to_i64 b)) else real_arithmetic fl oper a b)
          | _ \<Rightarrow> Err (Type ''arithmetic operands must be numeric'')))"

definition MAX_LENGTH :: nat where "MAX_LENGTH = 1000000000"

definition check_length :: "nat \<Rightarrow> string \<Rightarrow> unit result" where
  "check_length n what =
     (if MAX_LENGTH < n
      then Err (TooBig (what @ '' would produce '' @ show_nat n @ '' bytes, over the '' @ show_nat MAX_LENGTH @ ''-byte limit''))
      else Ok ())"

definition concat_values :: "float_lib \<Rightarrow> sql_value \<Rightarrow> sql_value \<Rightarrow> sql_value result" where
  "concat_values fl l r =
     (if l = Null \<or> r = Null then Ok Null
      else rbind (as_text fl l) (\<lambda>a. rbind (as_text fl r) (\<lambda>b.
           rbind (check_length (length a + length b) ''||'') (\<lambda>_. Ok (Text (a @ b))))))"

definition single_escape_char :: "float_lib \<Rightarrow> sql_value \<Rightarrow> nat result" where
  "single_escape_char fl v =
     rbind (as_text fl v) (\<lambda>s. case utf8_chars s of
        [c] \<Rightarrow> Ok c
      | _ \<Rightarrow> Err (Type ''ESCAPE expression must be a single character''))"

section \<open>Expressions\<close>

datatype expr =
    ELiteral sql_value
  | EParam nat
  | EColumn nat
  | EOuter nat
  | EUnary unary_op expr
  | EBinary binary_op expr expr collation compare_affinity
  | ECollate expr collation
  | EAgg nat
  | EWindow nat
  | ELike bool expr expr "expr option"
  | EInList bool expr "expr list" collation compare_affinity
  | EBetween bool expr expr expr collation collation compare_affinity compare_affinity
  | ECase "expr option" "(expr \<times> expr) list" "expr option" "collation list" "compare_affinity list"
  | ECast expr cast_type
  | EFunc nat "expr list" collation
  | ESubScalar nat "expr list"
  | ESubExists bool nat "expr list"
  | ESubIn bool expr collation compare_affinity nat "expr list"

text \<open>
  \<open>Env\<close> and \<open>Computed\<close>: bound parameters, captured outer values, the aggregates and window
  values of the current group, the subquery runner (given the subquery's identity, the captured
  values and a row limit), the scalar functions and the JSON arrows.
\<close>

record env =
  e_lib :: float_lib
  e_params :: "sql_value list"
  e_outer :: "sql_value list"
  e_aggregates :: "sql_value list"
  e_windows :: "sql_value list"
  e_runner :: "(nat \<Rightarrow> sql_value list \<Rightarrow> nat option \<Rightarrow> sql_value list list result) option"
  e_call :: "nat \<Rightarrow> sql_value result list \<Rightarrow> collation \<Rightarrow> sql_value result"
  e_json_arrow :: "binary_op \<Rightarrow> sql_value \<Rightarrow> sql_value \<Rightarrow> sql_value result"

text \<open>\<open>Computed::NONE\<close>: no aggregates and no window values.\<close>

definition no_computed :: "env \<Rightarrow> env" where
  "no_computed env = env\<lparr>e_aggregates := [], e_windows := []\<rparr>"

lemma no_computed_simps [simp]:
  "e_lib (no_computed env) = e_lib env" "e_params (no_computed env) = e_params env"
  "e_runner (no_computed env) = e_runner env" "e_call (no_computed env) = e_call env"
  "e_json_arrow (no_computed env) = e_json_arrow env" "no_computed (no_computed env) = no_computed env"
  by (simp_all add: no_computed_def)

definition missing_column :: "nat \<Rightarrow> nat \<Rightarrow> db_error" where
  "missing_column index width =
     Corrupt (''expression references column '' @ show_nat index @ '', but the row has '' @ show_nat width @ '' value(s)'')"

definition missing_param :: "nat \<Rightarrow> nat \<Rightarrow> db_error" where
  "missing_param index bound =
     Bind (''statement needs a parameter at position '' @ show_nat (index + 1) @ '', but only '' @ show_nat bound @ '' were bound'')"

definition missing_outer :: "nat \<Rightarrow> nat \<Rightarrow> db_error" where
  "missing_outer index n =
     Corrupt (''a subquery reads outer value '' @ show_nat index @ '', but only '' @ show_nat n @ '' were captured'')"

definition missing_aggregate :: "nat \<Rightarrow> nat \<Rightarrow> db_error" where
  "missing_aggregate index n =
     Corrupt (''expression references aggregate '' @ show_nat index @ '', but only '' @ show_nat n @ '' were computed'')"

definition missing_window :: "nat \<Rightarrow> nat \<Rightarrow> db_error" where
  "missing_window index n =
     Corrupt (''expression references window function '' @ show_nat index @ '', but only '' @ show_nat n @ '' were computed'')"

definition no_runner :: db_error where
  "no_runner = Unsupported (''a subquery cannot be evaluated here; subqueries are supported in SELECT (including '' @
     ''the query of an INSERT ... SELECT), not in UPDATE, DELETE or INSERT ... VALUES'')"

definition is_comparison :: "binary_op \<Rightarrow> bool" where
  "is_comparison oper \<longleftrightarrow> oper \<in> {Eq, NotEq, Lt, LtEq, Gt, GtEq}"

text \<open>The operator dispatch of \<open>Expr::Unary\<close> and \<open>Expr::Binary\<close>, over evaluated operands.\<close>

fun apply_unary :: "env \<Rightarrow> unary_op \<Rightarrow> sql_value \<Rightarrow> sql_value result" where
  "apply_unary env Neg v = negate v"
| "apply_unary env Not v = Ok (logical_not (e_lib env) v)"
| "apply_unary env IsNull v = Ok (bool_int (v = Null))"
| "apply_unary env IsNotNull v = Ok (bool_int (v \<noteq> Null))"

definition apply_binary :: "env \<Rightarrow> binary_op \<Rightarrow> sql_value \<Rightarrow> sql_value \<Rightarrow> collation \<Rightarrow> compare_affinity \<Rightarrow> sql_value result" where
  "apply_binary env oper l r c a =
     (if oper \<in> {Add, Sub, Mul, Div, Mod} then arithmetic (e_lib env) oper l r
      else if is_comparison oper then comparison (e_lib env) oper l r c a
      else if oper = And then Ok (logical_and (e_lib env) l r)
      else if oper = Or then Ok (logical_or (e_lib env) l r)
      else if oper = Concat then concat_values (e_lib env) l r
      else e_json_arrow env oper l r)"

text \<open>\<open>LIKE\<close> over evaluated operands; the matcher's \<open>None\<close> would be a loop that never ends.\<close>

definition apply_like :: "env \<Rightarrow> bool \<Rightarrow> sql_value \<Rightarrow> sql_value \<Rightarrow> nat option \<Rightarrow> sql_value result" where
  "apply_like env negated v pattern escape =
     (if v = Null \<or> pattern = Null then Ok Null
      else rbind (as_text (e_lib env) pattern) (\<lambda>p. rbind (as_text (e_lib env) v) (\<lambda>s.
           rbind (or_panic (like_matches p s escape)) (\<lambda>outcome. rbind outcome (\<lambda>matched.
             Ok (bool_int (matched \<noteq> negated)))))))"

text \<open>The candidates of \<open>IN (SELECT ...)\<close>, one row each.\<close>

fun in_rows :: "env \<Rightarrow> bool \<Rightarrow> sql_value \<Rightarrow> collation \<Rightarrow> compare_affinity \<Rightarrow> sql_value list list \<Rightarrow> bool \<Rightarrow> sql_value result" where
  "in_rows env negated v c a [] saw_null = Ok (if saw_null then Null else bool_int negated)"
| "in_rows env negated v c a (row # rows) saw_null =
     (case row of
        [] \<Rightarrow> Ok Null
      | candidate # _ \<Rightarrow>
          (if candidate = Null then in_rows env negated v c a rows True
           else rbind (comparison (e_lib env) Eq v candidate c a) (\<lambda>eq.
             if eq = Integer 1 then Ok (bool_int (\<not> negated)) else in_rows env negated v c a rows saw_null)))"

definition run_subquery :: "env \<Rightarrow> nat \<Rightarrow> sql_value list \<Rightarrow> nat option \<Rightarrow> sql_value list list result" where
  "run_subquery env i captured max_rows = rbind (ok_or (e_runner env) no_runner) (\<lambda>run. run i captured max_rows)"

section \<open>Evaluation\<close>

text \<open>
  The loops of \<open>IN\<close> and \<open>CASE\<close> over the outcomes of their operands, which are consulted one at
  a time: an outcome the loop does not reach is not evaluated by the code, and its error is not
  raised here.
\<close>

fun in_list :: "env \<Rightarrow> bool \<Rightarrow> sql_value \<Rightarrow> collation \<Rightarrow> compare_affinity \<Rightarrow> sql_value result list \<Rightarrow> bool \<Rightarrow> sql_value result" where
  "in_list env negated v c a [] saw_null = Ok (if saw_null then Null else bool_int negated)"
| "in_list env negated v c a (x # xs) saw_null =
     rbind x (\<lambda>candidate.
       if candidate = Null then in_list env negated v c a xs True
       else rbind (comparison (e_lib env) Eq v candidate c a) (\<lambda>eq.
         if eq = Integer 1 then Ok (bool_int (\<not> negated)) else in_list env negated v c a xs saw_null))"

fun case_branches :: "env \<Rightarrow> sql_value option \<Rightarrow> collation list \<Rightarrow> compare_affinity list \<Rightarrow> nat
    \<Rightarrow> (sql_value result \<times> sql_value result) list \<Rightarrow> sql_value result option \<Rightarrow> sql_value result" where
  "case_branches env operand cs as n [] else_result = (case else_result of Some r \<Rightarrow> r | None \<Rightarrow> Ok Null)"
| "case_branches env operand cs as n ((w, r) # bs) else_result =
     rbind w (\<lambda>condition.
     rbind (case operand of
              Some v \<Rightarrow> rbind (comparison (e_lib env) Eq v condition (collation_at cs n)
                  (case get_at as n of Some a \<Rightarrow> a | None \<Rightarrow> AffNone)) (\<lambda>eq. Ok (eq = Integer 1))
            | None \<Rightarrow> Ok (is_truthy (e_lib env) condition)) (\<lambda>matched.
       if matched then r else case_branches env operand cs as (n + 1) bs else_result))"

definition like_escape :: "env \<Rightarrow> bool \<Rightarrow> sql_value \<Rightarrow> sql_value \<Rightarrow> sql_value result option \<Rightarrow> sql_value result" where
  "like_escape env negated v p escape =
     (case escape of
        None \<Rightarrow> apply_like env negated v p None
      | Some x \<Rightarrow> rbind x (\<lambda>esc.
          if esc = Null then Ok Null
          else rbind (single_escape_char (e_lib env) esc) (\<lambda>c. apply_like env negated v p (Some c))))"

definition between :: "env \<Rightarrow> bool \<Rightarrow> sql_value \<Rightarrow> sql_value \<Rightarrow> sql_value \<Rightarrow> collation \<Rightarrow> collation \<Rightarrow> compare_affinity \<Rightarrow> compare_affinity \<Rightarrow> sql_value result" where
  "between env negated v l h lc hc la ha =
     rbind (comparison (e_lib env) GtEq v l lc la) (\<lambda>lower. rbind (comparison (e_lib env) LtEq v h hc ha) (\<lambda>upper.
       let within = logical_and (e_lib env) lower upper
       in Ok (if negated then logical_not (e_lib env) within else within)))"

text \<open>\<open>subquery_rows\<close>: the captures are evaluated first, then the runner is called.\<close>

definition subquery_rows :: "env \<Rightarrow> nat \<Rightarrow> sql_value result list \<Rightarrow> nat option \<Rightarrow> sql_value list list result" where
  "subquery_rows env i captures max_rows = rbind (rmapM (\<lambda>x. x) captures) (\<lambda>captured. run_subquery env i captured max_rows)"

fun evaluate :: "env \<Rightarrow> sql_value list \<Rightarrow> expr \<Rightarrow> sql_value result" where
  "evaluate env row (ELiteral v) = Ok v"
| "evaluate env row (EParam i) = ok_or (get_at (e_params env) i) (missing_param i (length (e_params env)))"
| "evaluate env row (EColumn i) = ok_or (get_at row i) (missing_column i (length row))"
| "evaluate env row (EOuter i) = ok_or (get_at (e_outer env) i) (missing_outer i (length (e_outer env)))"
| "evaluate env row (EAgg i) = ok_or (get_at (e_aggregates env) i) (missing_aggregate i (length (e_aggregates env)))"
| "evaluate env row (EWindow i) = ok_or (get_at (e_windows env) i) (missing_window i (length (e_windows env)))"
| "evaluate env row (EUnary oper e) = rbind (evaluate env row e) (apply_unary env oper)"
| "evaluate env row (EBinary oper l r c a) =
     rbind (evaluate env row l) (\<lambda>x. rbind (evaluate env row r) (\<lambda>y. apply_binary env oper x y c a))"
| "evaluate env row (ELike negated e pattern escape) =
     rbind (evaluate env row e) (\<lambda>v. rbind (evaluate env row pattern) (\<lambda>p.
       like_escape env negated v p (map_option (evaluate env row) escape)))"
| "evaluate env row (EInList negated e list c a) =
     (if list = [] then Ok (bool_int negated)
      else rbind (evaluate env row e) (\<lambda>v.
        if v = Null then Ok Null else in_list env negated v c a (map (evaluate env row) list) False))"
| "evaluate env row (EBetween negated e low high lc hc la ha) =
     rbind (evaluate env row e) (\<lambda>v. rbind (evaluate env row low) (\<lambda>l. rbind (evaluate env row high) (\<lambda>h.
       between env negated v l h lc hc la ha)))"
| "evaluate env row (ECase operand branches else_result cs as) =
     rbind (case map_option (evaluate env row) operand of None \<Rightarrow> Ok None | Some x \<Rightarrow> rbind x (\<lambda>v. Ok (Some v))) (\<lambda>v.
       case_branches env v cs as 0 (map (map_prod (evaluate env row) (evaluate env row)) branches)
         (map_option (evaluate env row) else_result))"
| "evaluate env row (ECast e t) = rbind (evaluate env row e) (\<lambda>v. cast (e_lib env) v t)"
| "evaluate env row (ECollate e c) = evaluate env row e"
| "evaluate env row (EFunc f args c) = e_call env f (map (evaluate env row) args) c"
| "evaluate env row (ESubScalar i captures) =
     rbind (subquery_rows env i (map (evaluate env row) captures) (Some 1)) (\<lambda>rows.
       Ok (case rows of (v # _) # _ \<Rightarrow> v | _ \<Rightarrow> Null))"
| "evaluate env row (ESubExists negated i captures) =
     rbind (subquery_rows env i (map (evaluate env row) captures) (Some 1)) (\<lambda>rows.
       Ok (bool_int ((rows \<noteq> []) \<noteq> negated)))"
| "evaluate env row (ESubIn negated probe c a i captures) =
     rbind (subquery_rows env i (map (evaluate env row) captures) None) (\<lambda>rows.
       if rows = [] then Ok (bool_int negated)
       else rbind (evaluate env row probe) (\<lambda>v. if v = Null then Ok Null else in_rows env negated v c a rows False))"

section \<open>Borrowed rows\<close>

datatype operand = ORef value_ref | OOwned sql_value

fun operand_cell :: "operand \<Rightarrow> cell" where
  "operand_cell (ORef r) = ref_cell r"
| "operand_cell (OOwned v) = value_cell v"

text \<open>\<open>eval_operand\<close>, given how its other expressions are evaluated.\<close>

definition eval_operand :: "value_ref list \<Rightarrow> expr \<Rightarrow> sql_value result \<Rightarrow> operand result" where
  "eval_operand row e other =
     (case e of
        EColumn i \<Rightarrow> rbind (ok_or (get_at row i) (missing_column i (length row))) (\<lambda>r. Ok (ORef r))
      | _ \<Rightarrow> rbind other (\<lambda>v. Ok (OOwned v)))"

fun evaluate_ref :: "env \<Rightarrow> value_ref list \<Rightarrow> expr \<Rightarrow> sql_value result" where
  "evaluate_ref env row (ELiteral v) = Ok v"
| "evaluate_ref env row (EParam i) = ok_or (get_at (e_params env) i) (missing_param i (length (e_params env)))"
| "evaluate_ref env row (EColumn i) =
     rbind (ok_or (get_at row i) (missing_column i (length row))) (\<lambda>r. Ok (to_owned_value r))"
| "evaluate_ref env row (EOuter i) = ok_or (get_at (e_outer env) i) (missing_outer i (length (e_outer env)))"
| "evaluate_ref env row (EAgg i) = ok_or (get_at (e_aggregates env) i) (missing_aggregate i (length (e_aggregates env)))"
| "evaluate_ref env row (EWindow i) = ok_or (get_at (e_windows env) i) (missing_window i (length (e_windows env)))"
| "evaluate_ref env row (EUnary oper e) =
     (if oper = Not then rbind (evaluate_ref env row e) (\<lambda>v. Ok (logical_not (e_lib env) v))
      else if oper = IsNull then
        rbind (eval_operand row e (evaluate_ref env row e)) (\<lambda>x. Ok (bool_int (is_null_cell (operand_cell x))))
      else if oper = IsNotNull then
        rbind (eval_operand row e (evaluate_ref env row e)) (\<lambda>x. Ok (bool_int (\<not> is_null_cell (operand_cell x))))
      else evaluate env (map to_owned_value row) (EUnary oper e))"
| "evaluate_ref env row (EBinary oper l r c a) =
     (if is_comparison oper then
        rbind (eval_operand row l (evaluate_ref env row l)) (\<lambda>x. rbind (eval_operand row r (evaluate_ref env row r)) (\<lambda>y.
          compare_cells (e_lib env) oper (operand_cell x) (operand_cell y) c a))
      else if oper = And then
        rbind (evaluate_ref env row l) (\<lambda>x. rbind (evaluate_ref env row r) (\<lambda>y. Ok (logical_and (e_lib env) x y)))
      else if oper = Or then
        rbind (evaluate_ref env row l) (\<lambda>x. rbind (evaluate_ref env row r) (\<lambda>y. Ok (logical_or (e_lib env) x y)))
      else evaluate env (map to_owned_value row) (EBinary oper l r c a))"
| "evaluate_ref env row e = evaluate env (map to_owned_value row) e"

section \<open>The compiled filter\<close>

datatype conjunct =
    CCompare nat binary_op bool operand collation compare_affinity
  | CIsNull nat bool
  | CGeneral expr

definition constant_of :: "env \<Rightarrow> expr \<Rightarrow> sql_value option" where
  "constant_of env e = (case e of ELiteral v \<Rightarrow> Some v | EParam i \<Rightarrow> get_at (e_params env) i | _ \<Rightarrow> None)"

definition compile_constant :: "env \<Rightarrow> sql_value \<Rightarrow> compare_affinity \<Rightarrow> operand" where
  "compile_constant env v a =
     (case affinity_conversion (e_lib env) (value_cell v) a of
        Some w \<Rightarrow> OOwned w
      | None \<Rightarrow> ORef (value_ref_from v))"

definition compile_comparison :: "env \<Rightarrow> expr \<Rightarrow> binary_op \<Rightarrow> expr \<Rightarrow> expr \<Rightarrow> collation \<Rightarrow> compare_affinity \<Rightarrow> conjunct" where
  "compile_comparison env e oper l r c a =
     (case (l, r) of
        (EColumn ordinal, other) \<Rightarrow>
          (case constant_of env other of
             Some v \<Rightarrow> CCompare ordinal oper True (compile_constant env v a) c a
           | None \<Rightarrow> CGeneral e)
      | (other, EColumn ordinal) \<Rightarrow>
          (case constant_of env other of
             Some v \<Rightarrow> CCompare ordinal oper False (compile_constant env v a) c a
           | None \<Rightarrow> CGeneral e)
      | _ \<Rightarrow> CGeneral e)"

definition compile_conjunct :: "env \<Rightarrow> expr \<Rightarrow> conjunct" where
  "compile_conjunct env e =
     (case e of
        EBinary oper l r c a \<Rightarrow> (if is_comparison oper then compile_comparison env e oper l r c a else CGeneral e)
      | EUnary oper inner \<Rightarrow>
          (if oper = IsNull \<or> oper = IsNotNull
           then (case inner of EColumn ordinal \<Rightarrow> CIsNull ordinal (oper = IsNotNull) | _ \<Rightarrow> CGeneral e)
           else CGeneral e)
      | _ \<Rightarrow> CGeneral e)"

fun flatten :: "env \<Rightarrow> expr \<Rightarrow> conjunct list \<Rightarrow> conjunct list" where
  "flatten env (EBinary oper l r c a) out =
     (if oper = And then flatten env r (flatten env l out)
      else out @ [compile_conjunct env (EBinary oper l r c a)])"
| "flatten env e out = out @ [compile_conjunct env e]"

definition compile_filter :: "env \<Rightarrow> expr \<Rightarrow> conjunct list" where
  "compile_filter env e = flatten env e []"

definition compare_compiled :: "env \<Rightarrow> binary_op \<Rightarrow> bool \<Rightarrow> value_ref \<Rightarrow> operand \<Rightarrow> collation \<Rightarrow> compare_affinity \<Rightarrow> bool option result" where
  "compare_compiled env oper column_on_left cell const c a =
     (if is_null_cell (ref_cell cell) \<or> is_null_cell (operand_cell const) then Ok None
      else let cell' = converted (ref_cell cell) (affinity_conversion (e_lib env) (ref_cell cell) a)
           in rbind (if column_on_left then class_compare cell' (operand_cell const) c
                     else class_compare (operand_cell const) cell' c) (\<lambda>o1.
              rbind (verdict oper o1) (\<lambda>b. Ok (Some b))))"

fun conjunct_truth :: "env \<Rightarrow> value_ref list \<Rightarrow> conjunct \<Rightarrow> bool option result" where
  "conjunct_truth env row (CCompare ordinal oper column_on_left const c a) =
     rbind (ok_or (get_at row ordinal) (missing_column ordinal (length row))) (\<lambda>cell.
       compare_compiled env oper column_on_left cell const c a)"
| "conjunct_truth env row (CIsNull ordinal negated) =
     rbind (ok_or (get_at row ordinal) (missing_column ordinal (length row))) (\<lambda>cell.
       Ok (Some (is_null_cell (ref_cell cell) \<noteq> negated)))"
| "conjunct_truth env row (CGeneral e) = rbind (evaluate_ref (no_computed env) row e) (\<lambda>v. Ok (truth (e_lib env) v))"

fun admits_loop :: "env \<Rightarrow> value_ref list \<Rightarrow> conjunct list \<Rightarrow> bool \<Rightarrow> bool result" where
  "admits_loop env row [] all_true = Ok all_true"
| "admits_loop env row (x # xs) all_true =
     rbind (conjunct_truth env row x) (\<lambda>t. admits_loop env row xs (all_true \<and> t = Some True))"

definition filter_admits :: "env \<Rightarrow> conjunct list \<Rightarrow> value_ref list \<Rightarrow> bool result" where
  "filter_admits env conjuncts row = admits_loop env row conjuncts True"

section \<open>Columns read\<close>

text \<open>One mask transformer after another.\<close>

fun seqM :: "(column_mask \<Rightarrow> column_mask result) list \<Rightarrow> column_mask \<Rightarrow> column_mask result" where
  "seqM [] m = Ok m"
| "seqM (f # fs) m = rbind (f m) (seqM fs)"

fun columns_read :: "expr \<Rightarrow> column_mask \<Rightarrow> column_mask result" where
  "columns_read (ELiteral v) m = Ok m"
| "columns_read (EParam i) m = Ok m"
| "columns_read (EAgg i) m = Ok m"
| "columns_read (EWindow i) m = Ok m"
| "columns_read (EOuter i) m = Ok m"
| "columns_read (EColumn i) m = mask_add m i"
| "columns_read (EUnary oper e) m = columns_read e m"
| "columns_read (ECast e t) m = columns_read e m"
| "columns_read (ECollate e c) m = columns_read e m"
| "columns_read (EBinary oper l r c a) m = seqM [\<lambda>m. columns_read l m, \<lambda>m. columns_read r m] m"
| "columns_read (ELike negated e pattern escape) m =
     seqM ([\<lambda>m. columns_read e m, \<lambda>m. columns_read pattern m] @
           (case map_option (\<lambda>x m. columns_read x m) escape of None \<Rightarrow> [] | Some f \<Rightarrow> [f])) m"
| "columns_read (EInList negated e list c a) m =
     seqM ((\<lambda>m. columns_read e m) # map (\<lambda>x m. columns_read x m) list) m"
| "columns_read (EBetween negated e low high lc hc la ha) m =
     seqM [\<lambda>m. columns_read e m, \<lambda>m. columns_read low m, \<lambda>m. columns_read high m] m"
| "columns_read (ECase operand branches else_result cs as) m =
     seqM ((case map_option (\<lambda>x m. columns_read x m) operand of None \<Rightarrow> [] | Some f \<Rightarrow> [f]) @
           concat (map ((\<lambda>(w, t). [w, t]) \<circ> map_prod (\<lambda>x m. columns_read x m) (\<lambda>x m. columns_read x m)) branches) @
           (case map_option (\<lambda>x m. columns_read x m) else_result of None \<Rightarrow> [] | Some f \<Rightarrow> [f])) m"
| "columns_read (EFunc f args c) m = seqM (map (\<lambda>x m. columns_read x m) args) m"
| "columns_read (ESubScalar i captures) m = seqM (map (\<lambda>x m. columns_read x m) captures) m"
| "columns_read (ESubExists negated i captures) m = seqM (map (\<lambda>x m. columns_read x m) captures) m"
| "columns_read (ESubIn negated probe c a i captures) m =
     seqM ((\<lambda>m. columns_read probe m) # map (\<lambda>x m. columns_read x m) captures) m"

end
