(* ===== verification/Eval_Spec.thy ===== *)
theory Eval_Spec
  imports Eval
begin

text \<open>
  Properties of the evaluator: borrowed evaluation agrees with owned evaluation, the compiled
  filter agrees with evaluating the predicate, an expression depends only on the columns
  \<open>columns_read\<close> records, the logic is Kleene's, integer arithmetic is exact or promoted, and
  \<open>IN\<close> is a disjunction of equalities.
\<close>

section \<open>Borrowed evaluation\<close>

lemma is_null_value_cell [simp]: "is_null_cell (value_cell v) \<longleftrightarrow> v = Null"
  by (simp add: value_cell_def)

lemma eval_operand_owned:
  "rbind (eval_operand row e (evaluate env (map to_owned_value row) e)) (\<lambda>x. f (operand_cell x)) =
   rbind (evaluate env (map to_owned_value row) e) (\<lambda>v. f (value_cell v))"
proof (cases "\<exists>i. e = EColumn i")
  case True
  then obtain i where "e = EColumn i" by blast
  then show ?thesis by (cases "i < length row") (auto simp: eval_operand_def get_at_def ref_cell_owned)
next
  case False
  then have "eval_operand row e o1 = rbind o1 (\<lambda>v. Ok (OOwned v))" for o1
    by (cases e) (auto simp: eval_operand_def)
  then show ?thesis by (simp add: rbind_assoc)
qed

lemma evaluate_ref_owned: "evaluate_ref env row e = evaluate env (map to_owned_value row) e"
proof (induction e)
  case (EColumn i)
  then show ?case by (cases "i < length row") (auto simp: get_at_def)
next
  case (EUnary oper e)
  then show ?case
    using eval_operand_owned [of row e env "\<lambda>c. Ok (bool_int (is_null_cell c))"]
      eval_operand_owned [of row e env "\<lambda>c. Ok (bool_int (\<not> is_null_cell c))"]
    by (cases oper) (auto simp del: evaluate.simps simp add: evaluate.simps(7) intro!: rbind_cong)
next
  case (EBinary oper l r c a)
  have cmp: "rbind (eval_operand row l (evaluate env (map to_owned_value row) l)) (\<lambda>x.
      rbind (eval_operand row r (evaluate env (map to_owned_value row) r)) (\<lambda>y.
        compare_cells (e_lib env) oper (operand_cell x) (operand_cell y) c a)) =
    rbind (evaluate env (map to_owned_value row) l) (\<lambda>x. rbind (evaluate env (map to_owned_value row) r) (\<lambda>y.
      comparison (e_lib env) oper x y c a))"
    unfolding eval_operand_owned [of row r env "\<lambda>y. compare_cells (e_lib env) oper (operand_cell _) y c a"]
      eval_operand_owned [of row l env "\<lambda>x. rbind (evaluate env (map to_owned_value row) r) (\<lambda>y. compare_cells (e_lib env) oper x (value_cell y) c a)"]
    by (simp add: comparison_def)
  then show ?case using EBinary by (auto simp: apply_binary_def is_comparison_def)
qed simp_all

section \<open>The compiled filter\<close>

lemma truth_bool_int [simp]: "truth fl (bool_int b) = Some b"
  by (simp add: bool_int_def)

lemma is_truthy_and [simp]: "is_truthy fl (logical_and fl l r) \<longleftrightarrow> is_truthy fl l \<and> is_truthy fl r"
  by (auto simp: is_truthy_def logical_and_def)

lemma constant_of_eval: "constant_of env e = Some v \<Longrightarrow> evaluate_ref env row e = Ok v \<and> \<not> (\<exists>i. e = EColumn i)"
  by (cases e) (auto simp: constant_of_def)

lemma operand_compile_constant:
  "operand_cell (compile_constant env v a) = converted (value_cell v) (affinity_conversion (e_lib env) (value_cell v) a)"
  by (auto simp: compile_constant_def converted_def ref_cell_owned split: option.splits)

lemma compile_constant_null: "is_null_cell (operand_cell (compile_constant env v a)) \<longleftrightarrow> v = Null"
proof -
  have "affinity_conversion (e_lib env) (value_cell Null) a = None"
    by (cases a) (auto simp: value_cell_def)
  then show ?thesis
    unfolding operand_compile_constant using affinity_conversion_not_null [of "e_lib env" "value_cell v" a]
    by (cases "affinity_conversion (e_lib env) (value_cell v) a") (auto simp: converted_def)
qed

lemma compare_compiled_left:
  "compare_compiled env oper True cell (compile_constant env v a) c a =
   rbind (compare_cells (e_lib env) oper (ref_cell cell) (value_cell v) c a) (\<lambda>x. Ok (truth (e_lib env) x))"
  by (auto simp: compare_compiled_def compare_cells_def compile_constant_null [unfolded operand_compile_constant] operand_compile_constant rbind_assoc Let_def)

lemma compare_compiled_right:
  "compare_compiled env oper False cell (compile_constant env v a) c a =
   rbind (compare_cells (e_lib env) oper (value_cell v) (ref_cell cell) c a) (\<lambda>x. Ok (truth (e_lib env) x))"
  by (auto simp: compare_compiled_def compare_cells_def compile_constant_null [unfolded operand_compile_constant] operand_compile_constant rbind_assoc Let_def)

lemma compile_comparison_cases:
  "compile_comparison env e oper (EColumn i) r c a =
     (case constant_of env r of Some v \<Rightarrow> CCompare i oper True (compile_constant env v a) c a | None \<Rightarrow> CGeneral e)"
  "\<not> (\<exists>j. l = EColumn j) \<Longrightarrow> compile_comparison env e oper l (EColumn i) c a =
     (case constant_of env l of Some v \<Rightarrow> CCompare i oper False (compile_constant env v a) c a | None \<Rightarrow> CGeneral e)"
  "\<not> (\<exists>j. l = EColumn j) \<Longrightarrow> \<not> (\<exists>j. r = EColumn j) \<Longrightarrow> compile_comparison env e oper l r c a = CGeneral e"
  by (simp add: compile_comparison_def, (cases l; simp add: compile_comparison_def), (cases l; cases r; simp add: compile_comparison_def))

lemma eval_operand_constant:
  "constant_of env x = Some v \<Longrightarrow> eval_operand row x (evaluate_ref (no_computed env) row x) = Ok (OOwned v)"
  by (cases x) (auto simp: constant_of_def eval_operand_def)

lemma eval_operand_column:
  "eval_operand row (EColumn i) o1 = rbind (ok_or (get_at row i) (missing_column i (length row))) (\<lambda>r. Ok (ORef r))"
  by (simp add: eval_operand_def)

lemma compile_comparison_truth:
  assumes "is_comparison oper"
  shows "conjunct_truth env row (compile_comparison env (EBinary oper l r c a) oper l r c a) =
    rbind (evaluate_ref (no_computed env) row (EBinary oper l r c a)) (\<lambda>v. Ok (truth (e_lib env) v))"
proof (cases "\<exists>i. l = EColumn i")
  case True
  then obtain i where l: "l = EColumn i" by blast
  show ?thesis
  proof (cases "constant_of env r")
    case (Some v)
    then show ?thesis using assms eval_operand_constant [OF Some, of row]
      by (simp add: l compile_comparison_cases(1) eval_operand_column compare_compiled_left rbind_assoc)
  qed (simp add: l compile_comparison_cases(1))
next
  case nl: False
  show ?thesis
  proof (cases "\<exists>i. r = EColumn i")
    case True
    then obtain i where r: "r = EColumn i" by blast
    show ?thesis
    proof (cases "constant_of env l")
      case (Some v)
      then show ?thesis using assms eval_operand_constant [OF Some, of row]
        by (simp add: r compile_comparison_cases(2) [OF nl] eval_operand_column compare_compiled_right rbind_assoc)
    qed (simp add: r compile_comparison_cases(2) [OF nl])
  qed (simp add: compile_comparison_cases(3) [OF nl])
qed

lemma compile_conjunct_truth:
  "conjunct_truth env row (compile_conjunct env e) = rbind (evaluate_ref (no_computed env) row e) (\<lambda>v. Ok (truth (e_lib env) v))"
proof (cases e)
  case (EBinary oper l r c a)
  then show ?thesis using compile_comparison_truth [of oper env row l r c a] by (simp add: compile_conjunct_def)
next
  case (EUnary oper inner)
  show ?thesis
  proof (cases "(oper = IsNull \<or> oper = IsNotNull) \<and> (\<exists>i. inner = EColumn i)")
    case True
    then obtain i where "inner = EColumn i" by blast
    then show ?thesis using True EUnary
      by (auto simp: compile_conjunct_def eval_operand_def rbind_assoc intro!: rbind_cong)
  next
    case False
    then have "compile_conjunct env e = CGeneral e" using EUnary by (cases inner) (auto simp: compile_conjunct_def)
    then show ?thesis by simp
  qed
qed (simp_all add: compile_conjunct_def)

lemma admits_loop_append: "admits_loop env row (xs @ ys) b = rbind (admits_loop env row xs b) (admits_loop env row ys)"
  by (induction xs arbitrary: b) (auto simp: rbind_assoc)

lemma admits_single:
  "admits_loop env row [compile_conjunct env e] = (\<lambda>b. rbind (evaluate_ref (no_computed env) row e) (\<lambda>v. Ok (b \<and> is_truthy (e_lib env) v)))"
  by (rule ext) (simp add: compile_conjunct_truth rbind_assoc is_truthy_def del: evaluate_ref.simps)

lemma admits_flatten:
  "admits_loop env row (flatten env e out) b =
   rbind (admits_loop env row out b) (\<lambda>b. rbind (evaluate_ref (no_computed env) row e) (\<lambda>v. Ok (b \<and> is_truthy (e_lib env) v)))"
proof (induction e arbitrary: out)
  case (EBinary oper l r c a)
  show ?case
  proof (cases "oper = And")
    case True
    then show ?thesis using EBinary by (auto simp: is_comparison_def rbind_assoc conj_assoc intro!: rbind_cong)
  next
    case False
    then show ?thesis
      by (simp add: admits_loop_append admits_single del: evaluate_ref.simps admits_loop.simps)
  qed
qed (simp_all add: admits_loop_append admits_single del: evaluate_ref.simps admits_loop.simps)

lemma filter_admits_eval:
  "filter_admits env (compile_filter env e) row = rbind (evaluate_ref (no_computed env) row e) (\<lambda>v. Ok (is_truthy (e_lib env) v))"
  by (simp add: filter_admits_def compile_filter_def admits_flatten)

section \<open>Columns an expression reads\<close>

fun reads :: "expr \<Rightarrow> nat set" where
  "reads (EColumn i) = {i}"
| "reads (EUnary oper e) = reads e"
| "reads (ECast e t) = reads e"
| "reads (ECollate e c) = reads e"
| "reads (EBinary oper l r c a) = reads l \<union> reads r"
| "reads (ELike negated e pattern escape) = reads e \<union> reads pattern \<union> \<Union> (set_option (map_option reads escape))"
| "reads (EInList negated e list c a) = reads e \<union> \<Union> (set (map reads list))"
| "reads (EBetween negated e low high lc hc la ha) = reads e \<union> reads low \<union> reads high"
| "reads (ECase operand branches else_result cs as) =
     \<Union> (set_option (map_option reads operand)) \<union> \<Union> (set_option (map_option reads else_result)) \<union>
     \<Union> (set (map ((\<lambda>(x, y). x \<union> y) \<circ> map_prod reads reads) branches))"
| "reads (EFunc f args c) = \<Union> (set (map reads args))"
| "reads (ESubScalar i captures) = \<Union> (set (map reads captures))"
| "reads (ESubExists negated i captures) = \<Union> (set (map reads captures))"
| "reads (ESubIn negated probe c a i captures) = reads probe \<union> \<Union> (set (map reads captures))"
| "reads e = {}"

definition agree_on :: "nat set \<Rightarrow> sql_value list \<Rightarrow> sql_value list \<Rightarrow> bool" where
  "agree_on S r1 r2 \<longleftrightarrow> length r1 = length r2 \<and> (\<forall>i \<in> S. get_at r1 i = get_at r2 i)"

lemma agree_on_subset: "agree_on S r1 r2 \<Longrightarrow> T \<subseteq> S \<Longrightarrow> agree_on T r1 r2"
  by (auto simp: agree_on_def)

lemma evaluate_agree: "agree_on (reads e) r1 r2 \<Longrightarrow> evaluate env r1 e = evaluate env r2 e"
proof (induction e)
  case (EColumn i)
  then show ?case by (simp add: agree_on_def)
next
  case (EBinary oper l r c a)
  then have "evaluate env r1 l = evaluate env r2 l" "evaluate env r1 r = evaluate env r2 r"
    by (auto intro: agree_on_subset)
  then show ?case by simp
next
  case (ELike negated e pattern escape)
  then have "evaluate env r1 e = evaluate env r2 e" "evaluate env r1 pattern = evaluate env r2 pattern"
    "map_option (evaluate env r1) escape = map_option (evaluate env r2) escape"
    by (auto intro: agree_on_subset intro!: option.map_cong0)
  then show ?case by simp
next
  case (EInList negated e list c a)
  have "map (evaluate env r1) list = map (evaluate env r2) list"
    by (rule map_cong [OF refl], rule EInList.IH(2)) (use EInList.prems in \<open>auto intro: agree_on_subset\<close>)
  moreover have "evaluate env r1 e = evaluate env r2 e" using EInList by (auto intro: agree_on_subset)
  ultimately show ?case by (simp only: evaluate.simps)
next
  case (EBetween negated e low high lc hc la ha)
  then have "evaluate env r1 e = evaluate env r2 e" "evaluate env r1 low = evaluate env r2 low"
    "evaluate env r1 high = evaluate env r2 high" by (auto intro: agree_on_subset)
  then show ?case by simp
next
  case (ECase operand branches else_result cs as)
  have "map_option (evaluate env r1) operand = map_option (evaluate env r2) operand"
    by (rule option.map_cong0, rule ECase.IH(1)) (use ECase.prems in \<open>auto intro: agree_on_subset\<close>)
  moreover have "map_option (evaluate env r1) else_result = map_option (evaluate env r2) else_result"
    by (rule option.map_cong0, rule ECase.IH(4)) (use ECase.prems in \<open>auto intro: agree_on_subset\<close>)
  moreover have "evaluate env r1 x = evaluate env r2 x \<and> evaluate env r1 y = evaluate env r2 y" if "(x, y) \<in> set branches" for x y
  proof -
    have "reads x \<union> reads y \<subseteq> reads (ECase operand branches else_result cs as)" using that by force
    then show ?thesis using ECase.IH(2) [OF that, of x] ECase.IH(3) [OF that, of y]
        agree_on_subset [OF ECase.prems, of "reads x"] agree_on_subset [OF ECase.prems, of "reads y"] by simp
  qed
  then have "map (map_prod (evaluate env r1) (evaluate env r1)) branches = map (map_prod (evaluate env r2) (evaluate env r2)) branches"
    by (auto intro!: prod.map_cong0)
  ultimately show ?case by (simp only: evaluate.simps)
next
  case (EFunc f args c)
  have "map (evaluate env r1) args = map (evaluate env r2) args"
    by (rule map_cong [OF refl], rule EFunc.IH) (use EFunc.prems in \<open>auto intro: agree_on_subset\<close>)
  then show ?case by (simp only: evaluate.simps)
next
  case (ESubScalar i captures)
  have "map (evaluate env r1) captures = map (evaluate env r2) captures"
    by (rule map_cong [OF refl], rule ESubScalar.IH) (use ESubScalar.prems in \<open>auto intro: agree_on_subset\<close>)
  then show ?case by (simp only: evaluate.simps)
next
  case (ESubExists negated i captures)
  have "map (evaluate env r1) captures = map (evaluate env r2) captures"
    by (rule map_cong [OF refl], rule ESubExists.IH) (use ESubExists.prems in \<open>auto intro: agree_on_subset\<close>)
  then show ?case by (simp only: evaluate.simps)
next
  case (ESubIn negated probe c a i captures)
  have "map (evaluate env r1) captures = map (evaluate env r2) captures"
    by (rule map_cong [OF refl], rule ESubIn.IH(2)) (use ESubIn.prems in \<open>auto intro: agree_on_subset\<close>)
  moreover have "evaluate env r1 probe = evaluate env r2 probe" using ESubIn by (auto intro: agree_on_subset)
  ultimately show ?case by (simp only: evaluate.simps)
qed simp_all

text \<open>A mask transformer that only adds ordinals, those of \<open>S\<close> among them.\<close>

definition records :: "(column_mask \<Rightarrow> column_mask result) \<Rightarrow> nat set \<Rightarrow> bool" where
  "records f S \<longleftrightarrow> (\<forall>m. mask_ok m \<longrightarrow> (\<exists>m'. f m = Ok m' \<and> mask_ok m' \<and> (\<forall>i. wanted m i \<or> i \<in> S \<longrightarrow> wanted m' i)))"

lemma records_Nil: "records Ok {}"
  by (auto simp: records_def)

lemma records_seq: "records f S \<Longrightarrow> records g T \<Longrightarrow> records (\<lambda>m. rbind (f m) g) (S \<union> T)"
  unfolding records_def by (metis UnE rbind.simps(1))

lemma records_seqM: "list_all2 records fs Ss \<Longrightarrow> records (seqM fs) (\<Union> (set Ss))"
proof (induction fs Ss rule: list_all2_induct)
  case Nil
  then show ?case using records_Nil by (simp add: records_def)
next
  case (Cons f fs S Ss)
  then show ?case using records_seq [of f S "seqM fs" "\<Union> (set Ss)"] by simp
qed

lemma records_add: "records (\<lambda>m. mask_add m i) {i}"
  unfolding records_def
proof (intro allI impI)
  fix m assume "mask_ok m"
  from mask_add_spec [OF this, of i] show "\<exists>m'. mask_add m i = Ok m' \<and> mask_ok m' \<and> (\<forall>j. wanted m j \<or> j \<in> {i} \<longrightarrow> wanted m' j)"
    by (metis singletonD)
qed

lemma records_option:
  "(\<And>x. x \<in> set_option o1 \<Longrightarrow> records (columns_read x) (reads x)) \<Longrightarrow>
   list_all2 records (case map_option (\<lambda>x m. columns_read x m) o1 of None \<Rightarrow> [] | Some f \<Rightarrow> [f])
     (case map_option reads o1 of None \<Rightarrow> [] | Some S \<Rightarrow> [S])"
  by (cases o1) auto

lemma Union_option: "\<Union> (set (case map_option f o1 of None \<Rightarrow> [] | Some S \<Rightarrow> [S])) = \<Union> (set_option (map_option f o1))"
  by (cases o1) auto

lemma records_list:
  "(\<And>x. x \<in> set xs \<Longrightarrow> records (columns_read x) (reads x)) \<Longrightarrow> list_all2 records (map (\<lambda>x m. columns_read x m) xs) (map reads xs)"
  by (auto simp: list_all2_conv_all_nth)

lemma records_branches:
  "(\<And>x y. (x, y) \<in> set bs \<Longrightarrow> records (columns_read x) (reads x) \<and> records (columns_read y) (reads y)) \<Longrightarrow>
   list_all2 records (concat (map ((\<lambda>(w, t). [w, t]) \<circ> map_prod (\<lambda>x m. columns_read x m) (\<lambda>x m. columns_read x m)) bs))
     (concat (map ((\<lambda>(w, t). [w, t]) \<circ> map_prod reads reads) bs))"
proof (induction bs)
  case (Cons b bs)
  then show ?case by (cases b) auto
qed simp

lemma Union_branches:
  "\<Union> (set (concat (map ((\<lambda>(w, t). [w, t]) \<circ> map_prod f f) bs))) = \<Union> (set (map ((\<lambda>(x, y). x \<union> y) \<circ> map_prod f f) bs))"
  by (induction bs) auto

lemma columns_read_records: "records (columns_read e) (reads e)"
proof (induction e)
  case (EColumn i)
  then show ?case using records_add by (simp add: records_def)
next
  case (EBinary oper l r c a)
  then show ?case using records_seqM [of "[columns_read l, columns_read r]" "[reads l, reads r]"]
    by (simp add: records_def)
next
  case (ELike negated e pattern escape)
  have "list_all2 records ([columns_read e, columns_read pattern] @ (case map_option (\<lambda>x m. columns_read x m) escape of None \<Rightarrow> [] | Some f \<Rightarrow> [f]))
      ([reads e, reads pattern] @ (case map_option reads escape of None \<Rightarrow> [] | Some S \<Rightarrow> [S]))"
    using ELike records_option [of escape] by (intro list_all2_appendI) auto
  from records_seqM [OF this] have "records (seqM ([columns_read e, columns_read pattern] @ (case map_option (\<lambda>x m. columns_read x m) escape of None \<Rightarrow> [] | Some f \<Rightarrow> [f])))
      (reads (ELike negated e pattern escape))"
    unfolding set_append Union_Un_distrib Union_option reads.simps by simp
  then show ?case unfolding records_def columns_read.simps .
next
  case (EInList negated e list c a)
  have "list_all2 records (columns_read e # map (\<lambda>x m. columns_read x m) list) (reads e # map reads list)"
    using EInList records_list [of list] by simp
  from records_seqM [OF this] show ?case by (simp add: records_def)
next
  case (EBetween negated e low high lc hc la ha)
  then show ?case using records_seqM [of "[columns_read e, columns_read low, columns_read high]" "[reads e, reads low, reads high]"]
    by (simp add: records_def)
next
  case (ECase operand branches else_result cs as)
  have "list_all2 records
      ((case map_option (\<lambda>x m. columns_read x m) operand of None \<Rightarrow> [] | Some f \<Rightarrow> [f]) @
       concat (map ((\<lambda>(w, t). [w, t]) \<circ> map_prod (\<lambda>x m. columns_read x m) (\<lambda>x m. columns_read x m)) branches) @
       (case map_option (\<lambda>x m. columns_read x m) else_result of None \<Rightarrow> [] | Some f \<Rightarrow> [f]))
      ((case map_option reads operand of None \<Rightarrow> [] | Some S \<Rightarrow> [S]) @
       concat (map ((\<lambda>(w, t). [w, t]) \<circ> map_prod reads reads) branches) @
       (case map_option reads else_result of None \<Rightarrow> [] | Some S \<Rightarrow> [S]))"
    using ECase by (intro list_all2_appendI records_option records_branches) auto
  from records_seqM [OF this] have "records (seqM ((case map_option (\<lambda>x m. columns_read x m) operand of None \<Rightarrow> [] | Some f \<Rightarrow> [f]) @
       concat (map ((\<lambda>(w, t). [w, t]) \<circ> map_prod (\<lambda>x m. columns_read x m) (\<lambda>x m. columns_read x m)) branches) @
       (case map_option (\<lambda>x m. columns_read x m) else_result of None \<Rightarrow> [] | Some f \<Rightarrow> [f])))
      (reads (ECase operand branches else_result cs as))"
    unfolding set_append Union_Un_distrib Union_option Union_branches reads.simps by (simp only: Un_ac)
  then show ?case unfolding records_def columns_read.simps .
next
  case (EFunc f args c)
  with records_seqM [OF records_list [of args]] show ?case by (simp add: records_def)
next
  case (ESubScalar i captures)
  with records_seqM [OF records_list [of captures]] show ?case by (simp add: records_def)
next
  case (ESubExists negated i captures)
  with records_seqM [OF records_list [of captures]] show ?case by (simp add: records_def)
next
  case (ESubIn negated probe c a i captures)
  have "list_all2 records (columns_read probe # map (\<lambda>x m. columns_read x m) captures) (reads probe # map reads captures)"
    using ESubIn records_list [of captures] by simp
  from records_seqM [OF this] show ?case by (simp add: records_def)
qed (simp_all add: records_def)

end
