(* ===== verification/Eval_Props.thy ===== *)
theory Eval_Props
  imports Eval_Spec
begin

text \<open>
  The properties of the evaluator: borrowed evaluation and the compiled filter agree with
  \<open>evaluate\<close>, decoding only the columns a predicate reads changes no answer, the logic is
  Kleene's, integer arithmetic is exact or promoted, an integer survives a trip through text,
  \<open>IN\<close> is a disjunction of equalities, and no operand makes the evaluator panic.
\<close>

section \<open>Rows decoded under a mask\<close>

lemma length_masked [simp]: "length (masked m i vs) = length vs"
  by (induction vs arbitrary: i) auto

lemma nth_masked: "j < length vs \<Longrightarrow> masked m i vs ! j = (if wanted m (i + j) then vs ! j else Null)"
proof (induction vs arbitrary: i j)
  case (Cons v vs)
  then show ?case by (cases j) auto
qed simp

lemma agree_masked: "(\<And>i. i \<in> S \<Longrightarrow> wanted m i) \<Longrightarrow> agree_on S (masked m 0 vs) vs"
  by (auto simp: agree_on_def get_at_def nth_masked)

lemma to_owned_from [simp]: "to_owned_value (value_ref_from v) = v"
  by (cases v) auto

section \<open>Panics\<close>

lemma verdict_not_Panic: "is_comparison oper \<Longrightarrow> verdict oper o1 \<noteq> Panic"
  by (auto simp: is_comparison_def)

lemma converted_value_cell: "\<exists>w. converted (value_cell v) (affinity_conversion fl (value_cell v) a) = value_cell w"
  by (cases "affinity_conversion fl (value_cell v) a") (auto simp: converted_def)

lemma comparison_not_Panic: "is_comparison oper \<Longrightarrow> comparison fl oper l r c a \<noteq> Panic"
  using converted_value_cell [of l fl a] converted_value_cell [of r fl a]
  by (auto simp: comparison_def compare_cells_def verdict_not_Panic)

lemma comparison_eq_not_Panic [simp]: "comparison fl Eq l r c a \<noteq> Panic"
  by (rule comparison_not_Panic) (simp add: is_comparison_def)

lemma real_arithmetic_not_Panic: "oper \<in> {Add, Sub, Mul, Div} \<Longrightarrow> real_arithmetic fl oper a b \<noteq> Panic"
  by auto

lemma arithmetic_not_Panic: "oper \<in> {Add, Sub, Mul, Div, Mod} \<Longrightarrow> arithmetic fl oper l r \<noteq> Panic"
  by (auto simp: arithmetic_def int_arithmetic_def Let_def split: sql_value.splits option.splits)

lemma as_text_not_Panic [simp]: "as_text fl v \<noteq> Panic"
  by (cases v) auto

lemma concat_values_not_Panic [simp]: "concat_values fl l r \<noteq> Panic"
  by (auto simp: concat_values_def check_length_def)

lemma cast_not_Panic [simp]: "cast fl v t \<noteq> Panic"
  by (cases v; cases t) (auto simp: cast_def)

lemma single_escape_not_Panic [simp]: "single_escape_char fl v \<noteq> Panic"
  by (auto simp: single_escape_char_def split: list.splits)

lemma apply_like_not_Panic [simp]: "apply_like env negated v p esc \<noteq> Panic"
  by (auto simp: apply_like_def like_matches_eq)

lemma negate_not_Panic [simp]: "negate v \<noteq> Panic"
  by (cases v) auto

lemma apply_unary_not_Panic [simp]: "apply_unary env oper v \<noteq> Panic"
  by (cases oper) auto

lemma in_list_not_Panic: "Panic \<notin> set xs \<Longrightarrow> in_list env negated v c a xs b \<noteq> Panic"
  by (induction xs arbitrary: b) auto

lemma in_rows_not_Panic [simp]: "in_rows env negated v c a rows b \<noteq> Panic"
  by (induction rows arbitrary: b) (auto split: list.splits)

lemma case_branches_not_Panic:
  "(\<forall>(x, y) \<in> set bs. x \<noteq> Panic \<and> y \<noteq> Panic) \<Longrightarrow> els \<noteq> Some Panic \<Longrightarrow> case_branches env v cs as n bs els \<noteq> Panic"
proof (induction bs arbitrary: n)
  case (Cons b bs)
  obtain w r where b: "b = (w, r)" by force
  then have "w \<noteq> Panic" "r \<noteq> Panic" "case_branches env v cs as (n + 1) bs els \<noteq> Panic" using Cons by auto
  then show ?case unfolding b by (auto split: option.splits)
qed (auto split: option.splits)

lemma like_escape_not_Panic: "esc \<noteq> Some Panic \<Longrightarrow> like_escape env negated v p esc \<noteq> Panic"
  by (auto simp: like_escape_def split: option.splits)

lemma between_not_Panic [simp]: "between env negated v l h lc hc la ha \<noteq> Panic"
  by (auto simp: between_def Let_def comparison_not_Panic is_comparison_def)

text \<open>The parameters of the environment do not panic by themselves.\<close>

definition env_calm :: "env \<Rightarrow> bool" where
  "env_calm env \<longleftrightarrow>
     (\<forall>run i vs n. e_runner env = Some run \<longrightarrow> run i vs n \<noteq> Panic) \<and>
     (\<forall>f args c. Panic \<notin> set args \<longrightarrow> e_call env f args c \<noteq> Panic) \<and>
     (\<forall>oper l r. e_json_arrow env oper l r \<noteq> Panic)"

lemma env_calm_no_computed: "env_calm env \<Longrightarrow> env_calm (no_computed env)"
  by (simp add: env_calm_def)

lemma subquery_rows_not_Panic: "env_calm env \<Longrightarrow> Panic \<notin> set xs \<Longrightarrow> subquery_rows env i xs n \<noteq> Panic"
  using rmapM_not_Panic [of xs "\<lambda>x. x"]
  by (auto simp: subquery_rows_def run_subquery_def env_calm_def)

lemma apply_binary_not_Panic: "env_calm env \<Longrightarrow> apply_binary env oper l r c a \<noteq> Panic"
  using arithmetic_not_Panic [of oper "e_lib env" l r] comparison_not_Panic [of oper "e_lib env" l r c a]
  by (auto simp: apply_binary_def env_calm_def)

lemma evaluate_calm: "env_calm env \<Longrightarrow> evaluate env row e \<noteq> Panic"
proof (induction e)
  case (ELike negated e pattern escape)
  then have "map_option (evaluate env row) escape \<noteq> Some Panic" by auto
  with like_escape_not_Panic [OF this] show ?case using ELike by simp
next
  case (EInList negated e list c a)
  then have "Panic \<notin> set (map (evaluate env row) list)" by force
  from in_list_not_Panic [OF this] show ?case using EInList by simp
next
  case (ECase operand branches else_result cs as)
  have b: "\<forall>(x, y) \<in> set (map (map_prod (evaluate env row) (evaluate env row)) branches). x \<noteq> Panic \<and> y \<noteq> Panic"
    using ECase.IH(2,3) ECase.prems by fastforce
  have "map_option (evaluate env row) else_result \<noteq> Some Panic" "map_option (evaluate env row) operand \<noteq> Some Panic"
    using ECase.IH(1,4) ECase.prems by fastforce+
  with case_branches_not_Panic [OF b] show ?case by (auto split: option.splits)
next
  case (EFunc f args c)
  then have "Panic \<notin> set (map (evaluate env row) args)" by force
  then show ?case using EFunc.prems by (simp add: env_calm_def)
next
  case (ESubScalar i captures)
  then have "Panic \<notin> set (map (evaluate env row) captures)" by force
  from subquery_rows_not_Panic [OF ESubScalar.prems this] show ?case by simp
next
  case (ESubExists negated i captures)
  then have "Panic \<notin> set (map (evaluate env row) captures)" by force
  from subquery_rows_not_Panic [OF ESubExists.prems this] show ?case by simp
next
  case (ESubIn negated probe c a i captures)
  then have "Panic \<notin> set (map (evaluate env row) captures)" by force
  from subquery_rows_not_Panic [OF ESubIn.prems this] show ?case using ESubIn by simp
qed (auto simp: apply_binary_not_Panic)

section \<open>Integer arithmetic\<close>

lemma sint_of_int_i64: "- (2 ^ 63) \<le> n \<Longrightarrow> n < 2 ^ 63 \<Longrightarrow> sint (of_int n :: i64) = n"
  by (simp add: sint_sbintrunc' signed_take_bit_int_eq_self_iff)

lemma checked_Some: "checked n = Some w \<Longrightarrow> sint w = n"
  by (auto simp: checked_def I64_MIN_def I64_MAX_def split: if_splits intro!: sint_of_int_i64)

lemma checked_None: "checked n = None \<longleftrightarrow> \<not> (- (2 ^ 63) \<le> n \<and> n < 2 ^ 63)"
  by (auto simp: checked_def I64_MIN_def I64_MAX_def)

lemma trunc_abs:
  assumes "b \<noteq> 0"
  shows "\<bar>trunc_rem a b\<bar> < \<bar>b\<bar>" "a = b * trunc_div a b + trunc_rem a b" "trunc_rem a b = 0 \<or> sgn (trunc_rem a b) = sgn a"
proof -
  have rem: "trunc_rem a b = sgn a * (\<bar>a\<bar> mod \<bar>b\<bar>)"
  proof -
    have "b * (sgn a * sgn b * (\<bar>a\<bar> div \<bar>b\<bar>)) = sgn a * (\<bar>b\<bar> * (\<bar>a\<bar> div \<bar>b\<bar>))"
      by (simp add: abs_sgn mult_ac)
    also have "\<dots> = sgn a * (\<bar>a\<bar> - \<bar>a\<bar> mod \<bar>b\<bar>)" by (simp add: minus_mod_eq_mult_div)
    also have "\<dots> = a - sgn a * (\<bar>a\<bar> mod \<bar>b\<bar>)" by (simp add: right_diff_distrib sgn_mult_abs)
    finally show ?thesis by (simp add: trunc_rem_def trunc_div_def)
  qed
  have m: "0 \<le> \<bar>a\<bar> mod \<bar>b\<bar>" "\<bar>a\<bar> mod \<bar>b\<bar> < \<bar>b\<bar>" using assms by simp_all
  show "\<bar>trunc_rem a b\<bar> < \<bar>b\<bar>" unfolding rem abs_mult using m assms by (cases "a = 0") (auto simp: abs_sgn_eq)
  show "a = b * trunc_div a b + trunc_rem a b" by (simp add: trunc_rem_def)
  show "trunc_rem a b = 0 \<or> sgn (trunc_rem a b) = sgn a" unfolding rem sgn_mult using m
    by (cases "\<bar>a\<bar> mod \<bar>b\<bar> = 0") auto
qed

lemma trunc_div_fits:
  fixes a b :: int
  assumes "- (2 ^ 63) \<le> a" "a < 2 ^ 63" "b \<noteq> 0" "\<not> (a = - (2 ^ 63) \<and> b = - 1)"
  shows "- (2 ^ 63) \<le> trunc_div a b" "trunc_div a b < 2 ^ 63"
proof -
  have "- (2 ^ 63) \<le> trunc_div a b \<and> trunc_div a b < 2 ^ 63"
  proof (cases "\<bar>b\<bar> = 1")
    case True
    then consider "b = 1" | "b = - 1" by linarith
    then show ?thesis using assms by cases (auto simp: trunc_div_def sgn_mult_abs)
  next
    case False
    then have b2: "2 \<le> \<bar>b\<bar>" using assms(3) by linarith
    have "\<bar>trunc_div a b\<bar> \<le> \<bar>a\<bar> div \<bar>b\<bar>"
      using assms(3) by (cases "a = 0") (auto simp: trunc_div_def abs_mult abs_sgn_eq pos_imp_zdiv_nonneg_iff)
    also have "\<dots> \<le> \<bar>a\<bar> div 2" using b2 by (intro zdiv_mono2) auto
    finally show ?thesis using assms(1,2) by auto
  qed
  then show "- (2 ^ 63) \<le> trunc_div a b" "trunc_div a b < 2 ^ 63" by simp_all
qed

lemma int_mod_exact:
  assumes "b \<noteq> 0"
  shows "\<exists>r. int_mod a b = Integer r \<and> sint r = trunc_rem (sint a) (sint b)"
proof (cases "sint b = - 1")
  case True
  then show ?thesis using assms by (simp add: int_mod_def trunc_rem_def trunc_div_def abs_sgn mult_ac)
next
  case False
  have sb: "sint b \<noteq> 0" using assms by (simp add: signed_eq_0_iff)
  have "\<bar>trunc_rem (sint a) (sint b)\<bar> < \<bar>sint b\<bar>" by (rule trunc_abs [OF sb])
  moreover have "- (2 ^ 63) \<le> sint b" "sint b < 2 ^ 63" using sint_ge [of b] sint_lt [of b] by simp_all
  ultimately have "- (2 ^ 63) \<le> trunc_rem (sint a) (sint b)" "trunc_rem (sint a) (sint b) < 2 ^ 63" by linarith+
  then have "sint (of_int (trunc_rem (sint a) (sint b)) :: i64) = trunc_rem (sint a) (sint b)"
    by (rule sint_of_int_i64)
  then show ?thesis using assms False by (simp add: int_mod_def)
qed

section \<open>Membership\<close>

definition verdict_value :: "sql_value \<Rightarrow> bool" where
  "verdict_value v \<longleftrightarrow> v \<in> {Null, Integer 0, Integer 1}"

lemma comparison_verdict: "comparison fl oper l r c a = Ok v \<Longrightarrow> verdict_value v \<and> (r = Null \<or> l = Null \<longleftrightarrow> v = Null)"
  by (auto simp: comparison_def compare_cells_def bool_int_def verdict_value_def value_cell_def split: if_splits)

lemma truth_verdict: "verdict_value v \<Longrightarrow> verdict_value w \<Longrightarrow> truth fl v = truth fl w \<Longrightarrow> v = w"
  by (auto simp: verdict_value_def)

lemma truth_logical:
  "truth fl (logical_not fl v) = map_option (\<lambda>t. \<not> t) (truth fl v)"
  "truth fl (logical_and fl v w) = (if truth fl v = Some False \<or> truth fl w = Some False then Some False
     else if truth fl v = Some True \<and> truth fl w = Some True then Some True else None)"
  "truth fl (logical_or fl v w) = (if truth fl v = Some True \<or> truth fl w = Some True then Some True
     else if truth fl v = Some False \<and> truth fl w = Some False then Some False else None)"
  by (simp_all add: logical_not_def logical_and_def logical_or_def split: option.splits)

lemma logical_verdict: "verdict_value (logical_or fl v w)" "verdict_value (logical_not fl v)" "verdict_value (logical_and fl v w)"
  by (auto simp: verdict_value_def logical_or_def logical_not_def logical_and_def bool_int_def split: option.splits)

lemma foldr_or_verdict: "verdict_value (foldr (logical_or fl) vs (Integer 0))"
  by (cases vs) (auto simp: verdict_value_def logical_or_def)

lemma foldr_or_null: "foldr (logical_or fl) (replicate n Null) (Integer 0) = (if n = 0 then Integer 0 else Null)"
  by (induction n) (auto simp: logical_or_def)

definition negate_if :: "float_lib \<Rightarrow> bool \<Rightarrow> sql_value \<Rightarrow> sql_value" where
  "negate_if fl negated v = (if negated then logical_not fl v else v)"

lemma in_list_or:
  "v \<noteq> Null \<Longrightarrow> rmapM (\<lambda>w. comparison (e_lib env) Eq v w c a) ws = Ok eqs \<Longrightarrow>
   in_list env negated v c a (map Ok ws) saw_null =
     Ok (negate_if (e_lib env) negated (logical_or (e_lib env) (if saw_null then Null else Integer 0) (foldr (logical_or (e_lib env)) eqs (Integer 0))))"
proof (induction ws arbitrary: eqs saw_null)
  case Nil
  then show ?case by (auto simp: negate_if_def logical_or_def bool_int_def logical_not_def)
next
  case (Cons w ws)
  then obtain x xs where x: "comparison (e_lib env) Eq v w c a = Ok x" and xs: "rmapM (\<lambda>w. comparison (e_lib env) Eq v w c a) ws = Ok xs"
    and eqs: "eqs = x # xs" by auto
  note vd = comparison_verdict [OF x]
  have "in_list env negated v c a (map Ok (w # ws)) saw_null =
    (if w = Null then in_list env negated v c a (map Ok ws) True
     else if x = Integer 1 then Ok (bool_int (\<not> negated)) else in_list env negated v c a (map Ok ws) saw_null)"
    using x by simp
  also have "\<dots> = Ok (negate_if (e_lib env) negated (logical_or (e_lib env) (if saw_null then Null else Integer 0) (foldr (logical_or (e_lib env)) eqs (Integer 0))))"
    using vd Cons.prems(1) foldr_or_verdict [of "e_lib env" xs] unfolding eqs Cons.IH [OF Cons.prems(1) xs]
    by (auto simp: verdict_value_def negate_if_def logical_or_def logical_not_def bool_int_def)
  finally show ?case .
qed

section \<open>Properties\<close>

text \<open>
  C20: a compiled filter admits a borrowed row exactly when evaluating the predicate on the owned
  row, with no aggregates in scope, gives a true value, and raises the error evaluation raises: flattening the conjunction,
  converting constants ahead of time and comparing cells in place change no answer.
\<close>

theorem compiled_filter_agrees:
  "filter_admits env (compile_filter env e) row =
   rbind (evaluate (no_computed env) (map to_owned_value row) e) (\<lambda>v. Ok (is_truthy (e_lib env) v))"
  by (simp add: filter_admits_eval evaluate_ref_owned)

text \<open>
  evaluating an expression over borrowed cells gives the value, or the error, evaluating it
  over the owned row gives.
\<close>

theorem borrowed_evaluation_agrees: "evaluate_ref env row e = evaluate env (map to_owned_value row) e"
  by (rule evaluate_ref_owned)

text \<open>
  C12: a scan may decode only the columns \<open>columns_read\<close> records: the compiled predicate over the
  partially decoded row admits it exactly when evaluating the predicate on the whole row does,
  whatever width the mask started with.
\<close>

theorem projection_preserves_filter:
  assumes "decode_row ops bs = Ok vs"
  shows "\<exists>m rs. columns_read e (mask_none w) = Ok m \<and> decode_row_ref_wanted_into ops bs m = Ok rs \<and>
           filter_admits env (compile_filter env e) rs =
           rbind (evaluate (no_computed env) vs e) (\<lambda>v. Ok (is_truthy (e_lib env) v))"
proof -
  obtain m where m: "columns_read e (mask_none w) = Ok m" "mask_ok m" "\<And>i. i \<in> reads e \<Longrightarrow> wanted m i"
    using columns_read_records [of e] mask_none_ok(1) [of w] unfolding records_def by blast
  have d: "decode_row_ref_masked ops bs m = Ok (map value_ref_from (masked m 0 vs))"
    using decode_row_masked_spec [OF assms m(2)] by (simp add: decode_row_ref_eq)
  have "evaluate (no_computed env) (masked m 0 vs) e = evaluate (no_computed env) vs e"
    by (rule evaluate_agree, rule agree_masked, rule m(3))
  then have "filter_admits env (compile_filter env e) (map value_ref_from (masked m 0 vs)) =
      rbind (evaluate (no_computed env) vs e) (\<lambda>v. Ok (is_truthy (e_lib env) v))"
    by (simp add: filter_admits_eval evaluate_ref_owned comp_def)
  with m(1) decode_row_ref_wanted_spec [OF m(2) d] show ?thesis by blast
qed

definition no_lib :: float_lib where
  "no_lib = \<lparr>parse_f64 = (\<lambda>_. None), fmt_sci = (\<lambda>_ _. []), fmt_fixed = (\<lambda>_ _. []), utf8_lossy = (\<lambda>b. b),
     f64_add = (\<lambda>a _. a), f64_sub = (\<lambda>a _. a), f64_mul = (\<lambda>a _. a), f64_div = (\<lambda>a _. a)\<rparr>"

definition no_env :: env where
  "no_env = \<lparr>e_lib = no_lib, e_params = [], e_outer = [], e_aggregates = [], e_windows = [], e_runner = None,
     e_call = (\<lambda>_ _ _. Err no_runner), e_json_arrow = (\<lambda>_ _ _. Err no_runner)\<rparr>"

theorem projection_preserves_filter_witness:
  "\<exists>m rs. columns_read (EUnary IsNull (EColumn 1)) (mask_none 3) = Ok m \<and>
     decode_row_ref_wanted_into unit_ops (encode_row sample_row) m = Ok rs \<and>
     filter_admits no_env (compile_filter no_env (EUnary IsNull (EColumn 1))) rs = Ok False"
  using projection_preserves_filter [OF sample_row_decodes, of "EUnary IsNull (EColumn 1)" 3 no_env]
  by (simp add: sample_row_def get_at_def is_truthy_def)



text \<open>
  the logic is Kleene's: for every value exactly one of \<open>x\<close>, \<open>NOT x\<close> and \<open>x IS NULL\<close> (as a truth
  value) holds, so \<open>WHERE p\<close>, \<open>WHERE NOT p\<close> and the rest partition the rows; \<open>AND\<close> and \<open>OR\<close> commute
  and De Morgan's laws hold with \<open>NULL\<close> included.
\<close>

theorem kleene_logic:
  "(if is_truthy fl v then 1 else 0) + (if is_truthy fl (logical_not fl v) then 1 else 0) + (if truth fl v = None then 1 else 0) = (1 :: nat) \<and>
   logical_not fl (logical_and fl v w) = logical_or fl (logical_not fl v) (logical_not fl w) \<and>
   logical_not fl (logical_or fl v w) = logical_and fl (logical_not fl v) (logical_not fl w) \<and>
   logical_and fl v w = logical_and fl w v \<and> logical_or fl v w = logical_or fl w v \<and>
   logical_and fl v (logical_and fl w x) = logical_and fl (logical_and fl v w) x \<and>
   truth fl (logical_not fl (logical_not fl v)) = truth fl v"
proof (intro conjI truth_verdict [where fl = fl] logical_verdict)
qed (cases "truth fl v"; cases "truth fl w"; cases "truth fl x"; auto simp: is_truthy_def truth_logical)+

text \<open>
  C35: integer arithmetic never wraps: a sum, difference or product is the exact one when it fits
  in 64 bits and the floating-point operation on the converted operands otherwise, division by
  zero is \<open>NULL\<close>, and quotient and remainder truncate towards zero and recompose the dividend;
  the one quotient that overflows is promoted too.
\<close>

theorem integer_arithmetic_exact:
  "arithmetic fl Add (Integer a) (Integer b) =
     Ok (case checked (sint a + sint b) of Some n \<Rightarrow> Integer n | None \<Rightarrow> Real (f64_add fl (i64_to_f64 a) (i64_to_f64 b))) \<and>
   arithmetic fl Sub (Integer a) (Integer b) =
     Ok (case checked (sint a - sint b) of Some n \<Rightarrow> Integer n | None \<Rightarrow> Real (f64_sub fl (i64_to_f64 a) (i64_to_f64 b))) \<and>
   arithmetic fl Mul (Integer a) (Integer b) =
     Ok (case checked (sint a * sint b) of Some n \<Rightarrow> Integer n | None \<Rightarrow> Real (f64_mul fl (i64_to_f64 a) (i64_to_f64 b))) \<and>
   (b = 0 \<longrightarrow> arithmetic fl Div (Integer a) (Integer b) = Ok Null \<and> arithmetic fl Mod (Integer a) (Integer b) = Ok Null) \<and>
   (b \<noteq> 0 \<longrightarrow> (\<exists>r. arithmetic fl Mod (Integer a) (Integer b) = Ok (Integer r) \<and> \<bar>sint r\<bar> < \<bar>sint b\<bar> \<and>
      (sint r = 0 \<or> sgn (sint r) = sgn (sint a)) \<and>
      (if sint a = - (2 ^ 63) \<and> sint b = - 1 then \<exists>q. arithmetic fl Div (Integer a) (Integer b) = Ok (Real q)
       else \<exists>q. arithmetic fl Div (Integer a) (Integer b) = Ok (Integer q) \<and> sint a = sint b * sint q + sint r))) \<and>
   (\<forall>n w. checked n = Some w \<longrightarrow> sint w = n) \<and> (\<forall>n. checked n = None \<longleftrightarrow> \<not> (- (2 ^ 63) \<le> n \<and> n < 2 ^ 63))"
proof -
  have sb: "sint b \<noteq> 0" if "b \<noteq> 0" using that by (simp add: signed_eq_0_iff)
  have small: "- (2 ^ 63) \<le> sint a" "sint a < 2 ^ 63" using sint_ge [of a] sint_lt [of a] by simp_all
  have q: "\<exists>n. checked (trunc_div (sint a) (sint b)) = Some n" if "b \<noteq> 0" "\<not> (sint a = - (2 ^ 63) \<and> sint b = - 1)"
    using trunc_div_fits [OF small sb [OF that(1)] that(2)] checked_None [of "trunc_div (sint a) (sint b)"]
    by (cases "checked (trunc_div (sint a) (sint b))") auto
  have "\<exists>r. arithmetic fl Mod (Integer a) (Integer b) = Ok (Integer r) \<and> sint r = trunc_rem (sint a) (sint b)" if "b \<noteq> 0"
    using int_mod_exact [OF that, of a] by (auto simp: arithmetic_def int_arithmetic_def)
  then obtain r where r: "b \<noteq> 0 \<Longrightarrow> arithmetic fl Mod (Integer a) (Integer b) = Ok (Integer r) \<and> sint r = trunc_rem (sint a) (sint b)" by blast
  have d: "if sint a = - (2 ^ 63) \<and> sint b = - 1 then \<exists>q. arithmetic fl Div (Integer a) (Integer b) = Ok (Real q)
       else \<exists>q. arithmetic fl Div (Integer a) (Integer b) = Ok (Integer q) \<and> sint q = trunc_div (sint a) (sint b)" if "b \<noteq> 0"
  proof (cases "sint a = - (2 ^ 63) \<and> sint b = - 1")
    case True
    then have "f64_scaled (i64_to_f64 b) \<noteq> f64_scaled 0" "checked (trunc_div (sint a) (sint b)) = None"
      using f64_scaled_exact [of b] by (simp_all add: f64_exact_def f64_scaled_def checked_None trunc_div_def)
    then have "\<not> f64_eq (i64_to_f64 b) 0" "checked (trunc_div (sint a) (sint b)) = None"
      by (auto simp: f64_eq_def f64_partial_cmp_def)
    then show ?thesis using True that by (simp add: arithmetic_def int_arithmetic_def)
  next
    case False
    from q [OF that False] obtain n where "checked (trunc_div (sint a) (sint b)) = Some n" by blast
    then show ?thesis using False that checked_Some by (auto simp: arithmetic_def int_arithmetic_def)
  qed
  show ?thesis
  proof (intro conjI)
    show "b = 0 \<longrightarrow> arithmetic fl Div (Integer a) (Integer b) = Ok Null \<and> arithmetic fl Mod (Integer a) (Integer b) = Ok Null"
      by (simp add: arithmetic_def int_arithmetic_def int_mod_def)
    show "b \<noteq> 0 \<longrightarrow> (\<exists>r. arithmetic fl Mod (Integer a) (Integer b) = Ok (Integer r) \<and> \<bar>sint r\<bar> < \<bar>sint b\<bar> \<and>
      (sint r = 0 \<or> sgn (sint r) = sgn (sint a)) \<and>
      (if sint a = - (2 ^ 63) \<and> sint b = - 1 then \<exists>q. arithmetic fl Div (Integer a) (Integer b) = Ok (Real q)
       else \<exists>q. arithmetic fl Div (Integer a) (Integer b) = Ok (Integer q) \<and> sint a = sint b * sint q + sint r))"
    proof (intro impI exI [of _ r] conjI)
      assume nz: "b \<noteq> 0"
      note t = trunc_abs [OF sb [OF nz], of "sint a"]
      show "arithmetic fl Mod (Integer a) (Integer b) = Ok (Integer r)" "\<bar>sint r\<bar> < \<bar>sint b\<bar>"
        "sint r = 0 \<or> sgn (sint r) = sgn (sint a)" using r [OF nz] t by simp_all
      show "if sint a = - (2 ^ 63) \<and> sint b = - 1 then \<exists>q. arithmetic fl Div (Integer a) (Integer b) = Ok (Real q)
        else \<exists>q. arithmetic fl Div (Integer a) (Integer b) = Ok (Integer q) \<and> sint a = sint b * sint q + sint r"
        using d [OF nz] r [OF nz] t(2) by (auto split: if_splits)
    qed
    show "\<forall>n w. checked n = Some w \<longrightarrow> sint w = n" using checked_Some by blast
    show "\<forall>n. checked n = None \<longleftrightarrow> \<not> (- (2 ^ 63) \<le> n \<and> n < 2 ^ 63)" using checked_None by blast
  qed (simp_all add: arithmetic_def int_arithmetic_def split: option.splits)
qed

theorem integer_arithmetic_exact_witness:
  "\<exists>r. arithmetic no_lib Mod (Integer (- 7)) (Integer 2) = Ok (Integer r) \<and> \<bar>sint r\<bar> < 2 \<and> (sint r = 0 \<or> sint r < 0)"
proof -
  have "sint (2 :: i64) = 2" "sgn (sint (- 7 :: i64)) = - 1" by (simp_all add: signed_take_bit_int_eq_self)
  with integer_arithmetic_exact [of no_lib "- 7" 2] show ?thesis by (auto simp: sgn_if split: if_splits)
qed

text \<open>
  \<open>x IN (a, b, ...)\<close> is the three-valued disjunction of \<open>x = a\<close>, \<open>x = b\<close>, ..., and \<open>NOT IN\<close> its
  negation, whenever the operands and the comparisons evaluate; the empty list is false.
\<close>

theorem in_list_is_disjunction:
  assumes "evaluate env row e = Ok v" "rmapM (evaluate env row) list = Ok ws"
    "rmapM (\<lambda>w. comparison (e_lib env) Eq v w c a) ws = Ok eqs"
  shows "evaluate env row (EInList negated e list c a) = Ok (negate_if (e_lib env) negated (foldr (logical_or (e_lib env)) eqs (Integer 0)))"
proof -
  have m: "map (evaluate env row) list = map Ok ws"
    using assms(2) by (auto simp: rmapM_Ok_iff list_all2_conv_all_nth intro!: nth_equalityI)
  have l: "list = [] \<longleftrightarrow> eqs = []" "length eqs = length list"
    using rmapM_Ok_length [OF assms(2)] rmapM_Ok_length [OF assms(3)] by auto
  show ?thesis
  proof (cases "v = Null")
    case True
    then have "eqs = replicate (length eqs) Null"
      using assms(3) by (auto simp: rmapM_Ok_iff list_all2_conv_all_nth comparison_def compare_cells_def value_cell_def intro!: nth_equalityI)
    then have "foldr (logical_or (e_lib env)) eqs (Integer 0) = (if eqs = [] then Integer 0 else Null)"
      using foldr_or_null [of "e_lib env" "length eqs"] by (metis length_0_conv)
    then show ?thesis using True assms(1) l by (auto simp: negate_if_def bool_int_def logical_not_def)
  next
    case False
    have z: "logical_or (e_lib env) (Integer 0) (foldr (logical_or (e_lib env)) eqs (Integer 0)) = foldr (logical_or (e_lib env)) eqs (Integer 0)"
      using foldr_or_verdict [of "e_lib env" eqs] by (auto simp: verdict_value_def logical_or_def)
    show ?thesis
      unfolding evaluate.simps m using False assms(1) l in_list_or [OF False assms(3), of negated False] z
      by (auto simp: negate_if_def bool_int_def logical_not_def)
  qed
qed

theorem in_list_is_disjunction_witness:
  "evaluate no_env [] (EInList True (ELiteral (Integer 1)) [ELiteral Null, ELiteral (Integer 2)] Binary AffNone) = Ok Null"
proof -
  have "rmapM (\<lambda>w. comparison (e_lib no_env) Eq (Integer 1) w Binary AffNone) [Null, Integer 2] = Ok [Null, Integer 0]"
    by (simp add: comparison_def compare_cells_def value_cell_def converted_def class_compare_def cell_class_def bool_int_def)
  from in_list_is_disjunction [OF _ _ this, of "[]" "ELiteral (Integer 1)" "[ELiteral Null, ELiteral (Integer 2)]" True]
  show ?thesis by (simp add: negate_if_def logical_or_def logical_not_def)
qed

text \<open>
  without conversions the comparison operators rank two scalars exactly as the order of
  \<open>ORDER BY\<close> does, a \<open>NULL\<close> operand makes every comparison \<open>NULL\<close>, and anything else is refused
  with a type error.
\<close>

theorem operators_follow_sort_order:
  assumes "is_comparison oper"
  shows "comparison fl oper l r c AffNone =
    (if l = Null \<or> r = Null then Ok Null
     else if scalar l \<and> scalar r then rbind (verdict oper (mem_cmp l r c)) (\<lambda>b. Ok (bool_int b))
     else Err (Type (''cannot compare '' @ type_name l @ '' and '' @ type_name r)))"
  by (auto simp: comparison_def compare_cells_def converted_def class_compare_mem_cmp class_compare_rejects)

theorem operators_follow_sort_order_witness:
  "comparison no_lib LtEq (Text [66]) (Text [97]) NoCase AffNone = Ok (Integer 0) \<and>
   comparison no_lib LtEq (Text [66]) (Text [97]) Binary AffNone = Ok (Integer 1)"
  using operators_follow_sort_order [of LtEq no_lib "Text [66]" "Text [97]" NoCase]
    operators_follow_sort_order [of LtEq no_lib "Text [66]" "Text [97]" Binary]
  by (simp add: is_comparison_def mem_cmp_def compare_eq_cmp_fold fold_NoCase to_ascii_lowercase_def is_ascii_uppercase_def bool_int_def)

end
