(* ===== verification/Conv_Props.thy ===== *)
theory Conv_Props
  imports Eval_Spec
begin

text \<open>
  An integer rendered as text reads back as the same integer, through \<open>CAST\<close> to \<open>INTEGER\<close>, through
  \<open>CAST\<close> to \<open>NUMERIC\<close> and through the integer parser the \<open>NUMERIC\<close> affinity uses.
\<close>

definition digit_step :: "nat \<Rightarrow> u8 \<Rightarrow> nat" where
  "digit_step n d = n * 10 + (unat d - 48)"

lemma digits_value_step: "digits_value ds = foldl digit_step 0 ds"
  by (simp add: digits_value_def digit_step_def [abs_def])

lemma digit_step_grows: "m \<le> foldl digit_step m ds"
proof (induction ds arbitrary: m)
  case (Cons d ds)
  have "m \<le> digit_step m d" by (simp add: digit_step_def)
  also have "\<dots> \<le> foldl digit_step (digit_step m d) ds" by (rule Cons.IH)
  finally show ?case by simp
qed simp

lemma magnitude_loop_digits:
  "list_all is_ascii_digit ds \<Longrightarrow> foldl digit_step m ds < 2 ^ 64 \<Longrightarrow> magnitude_loop ds m b = (foldl digit_step m ds, b)"
proof (induction ds arbitrary: m)
  case (Cons d ds)
  have "digit_step m d < 2 ^ 64" using Cons.prems(2) digit_step_grows [of "digit_step m d" ds] by simp
  then show ?case using Cons by (simp add: Let_def digit_step_def)
qed simp

lemma digit_byte: "d < 10 \<Longrightarrow> unat (of_nat (of_char (digit_char d)) :: u8) = 48 + d"
proof -
  assume d: "d < 10"
  have "(of_char (digit_char d) :: nat) = 48 + d" using d by (simp add: digit_char_def)
  then show ?thesis using d by (simp only: unat_of_nat) simp
qed

lemma show_nat_digits:
  "list_all is_ascii_digit (ascii (show_nat n)) \<and> show_nat n \<noteq> [] \<and> foldl digit_step 0 (ascii (show_nat n)) = n"
proof (induction n rule: show_nat.induct)
  case (1 n)
  have d: "unat (of_nat (of_char (digit_char (n mod 10))) :: u8) = 48 + n mod 10" by (simp add: digit_byte)
  show ?case
  proof (cases "n < 10")
    case True
    then show ?thesis using digit_byte [OF True] by (subst (1 2 3) show_nat.simps) (simp add: ascii_def is_ascii_digit_def digit_step_def)
  next
    case False
    have "show_nat n = show_nat (n div 10) @ [digit_char (n mod 10)]" using False by (subst show_nat.simps) simp
    then show ?thesis using 1 [OF False] d
      by (simp add: ascii_def is_ascii_digit_def digit_step_def)
  qed
qed

lemma digit_not_space: "is_ascii_digit b \<Longrightarrow> \<not> is_ascii_whitespace b \<and> \<not> is_sign b \<and> b \<noteq> 45"
  by (auto simp: is_ascii_digit_def is_ascii_whitespace_def is_sign_def)

definition decimal :: "i64 \<Rightarrow> bytes" where
  "decimal i = ascii (show_nat (nat \<bar>sint i\<bar>))"

lemma i64_to_text_decimal: "i64_to_text i = (if sint i < 0 then 45 # decimal i else decimal i)"
  by (simp add: i64_to_text_def decimal_def ascii_def)

lemma decimal_spec:
  "list_all is_ascii_digit (decimal i)" "decimal i \<noteq> []" "foldl digit_step 0 (decimal i) = nat \<bar>sint i\<bar>"
  "is_ascii_digit (hd (decimal i))"
proof -
  show d: "list_all is_ascii_digit (decimal i)" and n: "decimal i \<noteq> []" and "foldl digit_step 0 (decimal i) = nat \<bar>sint i\<bar>"
    using show_nat_digits [of "nat \<bar>sint i\<bar>"] by (simp_all add: decimal_def) (simp add: ascii_def)
  from d n show "is_ascii_digit (hd (decimal i))" by (cases "decimal i") auto
qed

lemma decimal_bound: "nat \<bar>sint (i :: i64)\<bar> \<le> 2 ^ 63"
  using sint_ge [of i] sint_lt [of i] by simp

lemma of_nat_abs: "sint i < 0 \<Longrightarrow> - of_nat (nat \<bar>sint i\<bar>) = i" "\<not> sint i < 0 \<Longrightarrow> of_nat (nat \<bar>sint i\<bar>) = (i :: i64)"
proof -
  have e: "(of_nat (nat k) :: i64) = of_int k" if "0 \<le> k" for k using that of_int_of_nat_eq [of "nat k", where ?'a = i64] by simp
  show "sint i < 0 \<Longrightarrow> - of_nat (nat \<bar>sint i\<bar>) = i" using e [of "- sint i"] by (simp only: abs_of_neg) simp
  show "\<not> sint i < 0 \<Longrightarrow> of_nat (nat \<bar>sint i\<bar>) = i" using e [of "sint i"] by simp
qed

lemma run_while_none: "ds \<noteq> [] \<Longrightarrow> \<not> p (hd ds) \<Longrightarrow> run_while p ds 0 = 0"
  by (cases ds) (simp_all add: run_while_def)

lemma byte_is_hd: "byte_is (b # bs) 0 p \<longleftrightarrow> p b"
  by (simp add: byte_is_def)

lemma text_to_integer_roundtrip: "text_to_integer (i64_to_text i) = i"
proof -
  obtain d ds where dd: "decimal i = d # ds" using decimal_spec(2) by (cases "decimal i") auto
  have dig: "is_ascii_digit d" using decimal_spec(4) [of i] dd by simp
  have m: "magnitude_loop (decimal i) 0 False = (nat \<bar>sint i\<bar>, False)"
    using magnitude_loop_digits [OF decimal_spec(1), of 0 i False] decimal_spec(3) [of i] decimal_bound [of i] by simp
  show ?thesis
  proof (cases "sint i < 0")
    case True
    then show ?thesis using m decimal_bound [of i] of_nat_abs(1) [OF True]
      by (simp add: text_to_integer_def i64_to_text_decimal run_while_none is_ascii_whitespace_def byte_is_hd is_sign_def)
  next
    case False
    then have "nat (sint i) \<le> 2 ^ 63 - 1" using sint_lt [of i] by simp
    then show ?thesis using False m of_nat_abs(2) [OF False] digit_not_space [OF dig]
      by (simp del: magnitude_loop.simps add: text_to_integer_def i64_to_text_decimal dd run_while_none byte_is_hd)
  qed
qed

lemma parse_i64_roundtrip: "parse_i64 (i64_to_text i) = Some i"
proof -
  obtain d ds where dd: "decimal i = d # ds" using decimal_spec(2) by (cases "decimal i") auto
  have dig: "is_ascii_digit d" using decimal_spec(4) [of i] dd by simp
  have v: "digits_value (decimal i) = nat \<bar>sint i\<bar>" by (simp add: digits_value_step decimal_spec)
  show ?thesis
  proof (cases "sint i < 0")
    case True
    then show ?thesis using v decimal_spec [of i] sint_ge [of i] sint_lt [of i]
      by (simp add: parse_i64_def parse_int_def i64_to_text_decimal is_sign_def I64_MIN_def I64_MAX_def)
  next
    case False
    then show ?thesis using v decimal_spec [of i] sint_ge [of i] sint_lt [of i] digit_not_space [OF dig]
      by (simp add: parse_i64_def parse_int_def i64_to_text_decimal is_sign_def I64_MIN_def I64_MAX_def dd)
  qed
qed

lemma run_while_all: "list_all p (drop i ds) \<Longrightarrow> i \<le> length ds \<Longrightarrow> run_while p ds i = length ds"
  by (simp add: run_while_def list_all_iff takeWhile_eq_all_conv [THEN iffD2])

lemma scan_number_integer: "scan_number (i64_to_text i) = Some (i64_to_text i, False)"
proof -
  obtain d ds where dd: "decimal i = d # ds" using decimal_spec(2) by (cases "decimal i") auto
  have dig: "is_ascii_digit d" using decimal_spec(4) [of i] dd by simp
  define start where "start = (if sint i < 0 then 1 else 0 :: nat)"
  let ?s = "i64_to_text i"
  have r0: "run_while is_ascii_whitespace ?s 0 = 0"
    using digit_not_space [OF dig] by (auto simp: i64_to_text_decimal dd is_ascii_whitespace_def intro!: run_while_none)
  have b0: "byte_is ?s 0 is_sign \<longleftrightarrow> sint i < 0"
    using digit_not_space [OF dig] by (auto simp: i64_to_text_decimal dd byte_is_hd is_sign_def)
  have r1: "run_while is_ascii_digit ?s start = length ?s"
    using decimal_spec(1) [of i] by (intro run_while_all) (auto simp: i64_to_text_decimal start_def)
  have l: "start < length ?s" by (auto simp: i64_to_text_decimal start_def dd)
  have "\<not> byte_is ?s (length ?s) p" for p by (simp add: byte_is_def)
  then show ?thesis using r0 b0 r1 l by (cases "sint i < 0") (simp_all add: scan_number_def start_def slice_def Let_def)
qed

text \<open>
  \<open>CAST(CAST(i AS TEXT) AS INTEGER)\<close> and \<open>CAST(CAST(i AS TEXT) AS NUMERIC)\<close> are \<open>i\<close> for every
  64-bit integer, the smallest and the largest included, and so is the value the parser of the
  \<open>NUMERIC\<close> affinity reads.
\<close>

theorem integer_text_roundtrip:
  "rbind (cast fl (Integer i) CastText) (\<lambda>t. cast fl t CastInteger) = Ok (Integer i) \<and>
   rbind (cast fl (Integer i) CastText) (\<lambda>t. cast fl t CastNumeric) = Ok (Integer i) \<and>
   parse_i64 (i64_to_text i) = Some i"
  by (simp add: cast_def text_to_integer_roundtrip text_to_numeric_def scan_number_integer parse_i64_roundtrip)

end
