(* ===== verification/Json.thy ===== *)
theory Json
  imports Conv_Props
begin

text \<open>
  The JSON document model, its parser and serializer, and the path language
  (\<^verbatim>\<open>src/crates/inlaysql-core/src/json.rs\<close>). A \<open>str\<close> is its UTF-8 bytes and a \<open>char\<close> the bytes that
  encode it; slicing a \<open>str\<close> inside a character panics. The parser is a total function: every call
  it makes on the rest of the text starts further on.
\<close>

section \<open>Documents\<close>

datatype json = JNull | JBool bool | JInt i64 | JReal f64 bytes | JText bytes | JArray "json list" | JObject "(bytes \<times> json) list"

fun json_type_name :: "json \<Rightarrow> bytes" where
  "json_type_name JNull = ascii ''null''"
| "json_type_name (JBool True) = ascii ''true''"
| "json_type_name (JBool False) = ascii ''false''"
| "json_type_name (JInt _) = ascii ''integer''"
| "json_type_name (JReal _ _) = ascii ''real''"
| "json_type_name (JText _) = ascii ''text''"
| "json_type_name (JArray _) = ascii ''array''"
| "json_type_name (JObject _) = ascii ''object''"

text \<open>The result of a parser: a value, \<open>ParseError\<close>, or a panic.\<close>

datatype 'a parsed = Parsed 'a | Parse_Error | Parse_Panic

fun pbind :: "'a parsed \<Rightarrow> ('a \<Rightarrow> 'b parsed) \<Rightarrow> 'b parsed" where
  "pbind (Parsed x) f = f x"
| "pbind Parse_Error f = Parse_Error"
| "pbind Parse_Panic f = Parse_Panic"

lemma pbind_cong [fundef_cong]: "m = n \<Longrightarrow> (\<And>x. n = Parsed x \<Longrightarrow> f x = g x) \<Longrightarrow> pbind m f = pbind n g"
  by (cases n) auto

lemma pbind_eq [simp]:
  "pbind m f = Parsed y \<longleftrightarrow> (\<exists>x. m = Parsed x \<and> f x = Parsed y)"
  "pbind m f = Parse_Panic \<longleftrightarrow> m = Parse_Panic \<or> (\<exists>x. m = Parsed x \<and> f x = Parse_Panic)"
  by (cases m; auto)+

definition or_error :: "'a option \<Rightarrow> 'a parsed" where
  "or_error x = (case x of Some v \<Rightarrow> Parsed v | None \<Rightarrow> Parse_Error)"

lemma or_error_eq [simp]: "or_error x = Parsed v \<longleftrightarrow> x = Some v" "or_error x \<noteq> Parse_Panic"
  by (cases x; simp add: or_error_def)+

section \<open>Characters\<close>

definition char_boundary :: "bytes \<Rightarrow> nat \<Rightarrow> bool" where
  "char_boundary s i \<longleftrightarrow> i = 0 \<or> i = length s \<or> i < length s \<and> \<not> utf8_cont (s ! i)"

definition str_slice :: "bytes \<Rightarrow> nat \<Rightarrow> nat \<Rightarrow> bytes parsed" where
  "str_slice s a b = (if a \<le> b \<and> b \<le> length s \<and> char_boundary s a \<and> char_boundary s b then Parsed (slice a b s) else Parse_Panic)"

definition char_width :: "u8 \<Rightarrow> nat" where
  "char_width b = (if unat b < 0x80 then 1 else if unat b < 0xE0 then 2 else if unat b < 0xF0 then 3 else 4)"

text \<open>\<open>chars().next()\<close> and \<open>chars()\<close>.\<close>

definition next_char :: "bytes \<Rightarrow> bytes option" where
  "next_char s = (case s of [] \<Rightarrow> None | b # _ \<Rightarrow> Some (take (char_width b) s))"

lemma next_char_some: "next_char s = Some ch \<Longrightarrow> 0 < length ch \<and> length ch \<le> length s"
  by (cases s) (auto simp: next_char_def char_width_def split: if_splits)

function str_chars :: "bytes \<Rightarrow> bytes list" where
  "str_chars s = (case s of [] \<Rightarrow> [] | b # _ \<Rightarrow> take (char_width b) s # str_chars (drop (char_width b) s))"
  by auto
termination by (relation "measure length") (auto simp: char_width_def)

declare str_chars.simps [simp del]

text \<open>\<open>char::from_u32\<close> and the bytes \<open>String::push\<close> writes.\<close>

definition encode_utf8 :: "nat \<Rightarrow> bytes" where
  "encode_utf8 c =
     (if c < 0x80 then [of_nat c]
      else if c < 0x800 then [of_nat (0xC0 + c div 64), of_nat (0x80 + c mod 64)]
      else if c < 0x10000 then [of_nat (0xE0 + c div 4096), of_nat (0x80 + c div 64 mod 64), of_nat (0x80 + c mod 64)]
      else [of_nat (0xF0 + c div 262144), of_nat (0x80 + c div 4096 mod 64), of_nat (0x80 + c div 64 mod 64), of_nat (0x80 + c mod 64)])"

definition char_from_u32 :: "nat \<Rightarrow> bytes option" where
  "char_from_u32 c = (if c < 0xD800 \<or> 0xE000 \<le> c \<and> c \<le> 0x10FFFF then Some (encode_utf8 c) else None)"

section \<open>Parsing a document\<close>

definition is_json_ws :: "u8 \<Rightarrow> bool" where
  "is_json_ws b \<longleftrightarrow> unat b \<in> {32, 9, 10, 13}"

definition skip_ws :: "bytes \<Rightarrow> nat \<Rightarrow> nat" where
  "skip_ws bs pos = run_while is_json_ws bs pos"

definition json_literal :: "bytes \<Rightarrow> nat \<Rightarrow> bytes \<Rightarrow> json \<Rightarrow> (json \<times> nat) parsed" where
  "json_literal bs pos word v =
     (let en = pos + length word in if get_range bs pos en = Some word then Parsed (v, en) else Parse_Error)"

text \<open>The three parts of a number: each gives the position after it.\<close>

definition int_end :: "bytes \<Rightarrow> nat \<Rightarrow> nat parsed" where
  "int_end bs start =
     (let pos = (if get_at bs start = Some 45 then start + 1 else start) in
      case get_at bs pos of
        None \<Rightarrow> Parse_Error
      | Some b \<Rightarrow> if b = 48 then Parsed (pos + 1)
                  else if is_ascii_digit b then Parsed (run_while is_ascii_digit bs pos) else Parse_Error)"

definition frac_end :: "bytes \<Rightarrow> nat \<Rightarrow> nat parsed" where
  "frac_end bs pos =
     (if get_at bs pos = Some 46
      then let digits_start = pos + 1; p = run_while is_ascii_digit bs digits_start
           in if p = digits_start then Parse_Error else Parsed p
      else Parsed pos)"

definition exp_end :: "bytes \<Rightarrow> nat \<Rightarrow> nat parsed" where
  "exp_end bs pos =
     (if get_at bs pos = Some 101 \<or> get_at bs pos = Some 69
      then let digits_start = (if get_at bs (pos + 1) = Some 43 \<or> get_at bs (pos + 1) = Some 45 then pos + 2 else pos + 1);
               p = run_while is_ascii_digit bs digits_start
           in if p = digits_start then Parse_Error else Parsed p
      else Parsed pos)"

definition number_end :: "bytes \<Rightarrow> nat \<Rightarrow> nat parsed" where
  "number_end bs start = pbind (int_end bs start) (\<lambda>pos. pbind (frac_end bs pos) (exp_end bs))"

definition parse_number :: "float_lib \<Rightarrow> bytes \<Rightarrow> nat \<Rightarrow> (json \<times> nat) parsed" where
  "parse_number fl src start =
     pbind (number_end src start) (\<lambda>pos.
     pbind (str_slice src start pos) (\<lambda>span.
     pbind (case parse_i64 span of Some i \<Rightarrow> Parsed (JInt i)
            | None \<Rightarrow> pbind (or_error (parse_f64 fl span)) (\<lambda>r. Parsed (JReal r span))) (\<lambda>v.
     Parsed (v, pos))))"

definition hex_value :: "u8 \<Rightarrow> nat parsed" where
  "hex_value b =
     (if in_range 48 57 b then Parsed (unat b - 48)
      else if in_range 97 102 b then Parsed (unat b - 97 + 10)
      else if in_range 65 70 b then Parsed (unat b - 65 + 10)
      else Parse_Error)"

fun hex_fold :: "bytes \<Rightarrow> nat \<Rightarrow> nat parsed" where
  "hex_fold [] v = Parsed v"
| "hex_fold (b # bs) v = pbind (hex_value b) (\<lambda>d. hex_fold bs (v * 16 + d))"

definition hex4 :: "bytes \<Rightarrow> nat \<Rightarrow> nat parsed" where
  "hex4 bs pos = pbind (or_error (get_range bs pos (pos + 4))) (\<lambda>ds. hex_fold ds 0)"

text \<open>An escape whose letter is at \<open>pos\<close>: the character and the position of its last byte.\<close>

definition unicode_escape :: "bytes \<Rightarrow> nat \<Rightarrow> (bytes \<times> nat) parsed" where
  "unicode_escape bs pos =
     pbind (hex4 bs (pos + 1)) (\<lambda>cp.
     let pos = pos + 4 in
     if 0xD800 \<le> cp \<and> cp \<le> 0xDBFF
     then if get_at bs (pos + 1) \<noteq> Some 92 \<or> get_at bs (pos + 2) \<noteq> Some 117 then Parse_Error
          else pbind (hex4 bs (pos + 3)) (\<lambda>low.
            let pos = pos + 6 in
            if \<not> (0xDC00 \<le> low \<and> low \<le> 0xDFFF) then Parse_Error
            else pbind (or_error (char_from_u32 (0x10000 + (cp - 0xD800) * 0x400 + (low - 0xDC00)))) (\<lambda>c. Parsed (c, pos)))
     else pbind (or_error (char_from_u32 cp)) (\<lambda>c. Parsed (c, pos)))"

definition parse_escape :: "bytes \<Rightarrow> nat \<Rightarrow> (bytes \<times> nat) parsed" where
  "parse_escape bs pos =
     (case get_at bs pos of
        None \<Rightarrow> Parse_Error
      | Some b \<Rightarrow>
          if b = 34 \<or> b = 92 \<or> b = 47 then Parsed ([b], pos)
          else if b = 98 then Parsed ([8], pos)
          else if b = 102 then Parsed ([12], pos)
          else if b = 110 then Parsed ([10], pos)
          else if b = 114 then Parsed ([13], pos)
          else if b = 116 then Parsed ([9], pos)
          else if b = 117 then unicode_escape bs pos
          else Parse_Error)"

lemma unicode_escape_pos: "unicode_escape bs pos = Parsed (c, p) \<Longrightarrow> pos \<le> p"
  by (auto simp: unicode_escape_def Let_def split: if_splits)

lemma parse_escape_pos: "parse_escape bs pos = Parsed (c, p) \<Longrightarrow> pos \<le> p"
  by (auto simp: parse_escape_def split: option.splits if_splits dest: unicode_escape_pos)

text \<open>One round of the loop over a string: the closing quote, or a character and where the next begins.\<close>

definition string_step :: "bytes \<Rightarrow> nat \<Rightarrow> (bytes \<times> nat) option parsed" where
  "string_step src pos =
     (case get_at src pos of
        None \<Rightarrow> Parse_Error
      | Some b \<Rightarrow>
          if b = 34 then Parsed None
          else if b = 92 then pbind (parse_escape src (pos + 1)) (\<lambda>(c, pos). Parsed (Some (c, pos + 1)))
          else if unat b < 0x20 then Parse_Error
          else pbind (str_slice src pos (length src)) (\<lambda>rest.
               pbind (or_error (next_char rest)) (\<lambda>ch. Parsed (Some (ch, pos + length ch)))))"

lemma string_step_pos: "string_step src pos = Parsed (Some (c, q)) \<Longrightarrow> pos < q \<and> pos < length src"
  by (auto simp: string_step_def split: option.splits if_splits dest!: parse_escape_pos next_char_some)

function string_loop :: "bytes \<Rightarrow> nat \<Rightarrow> bytes \<Rightarrow> (bytes \<times> nat) parsed" where
  "string_loop src pos out = pbind (string_step src pos) (\<lambda>r. case r of
     None \<Rightarrow> Parsed (out, pos + 1)
   | Some (c, pos) \<Rightarrow> string_loop src pos (out @ c))"
  by auto
termination
  by (relation "measure (\<lambda>(src, pos, out). length src - pos)") (auto dest!: string_step_pos intro!: diff_less_mono2)

declare string_loop.simps [simp del]

definition parse_string :: "bytes \<Rightarrow> nat \<Rightarrow> (bytes \<times> nat) parsed" where
  "parse_string src start = (if get_at src start \<noteq> Some 34 then Parse_Panic else string_loop src (start + 1) [])"

text \<open>The parts of \<open>parse_value\<close> and of the two loops that call no value: a scalar, what follows an
  element (whether another one does, and where), and a member's key with its colon.\<close>

definition parse_scalar :: "float_lib \<Rightarrow> bytes \<Rightarrow> nat \<Rightarrow> u8 \<Rightarrow> (json \<times> nat) parsed" where
  "parse_scalar fl src pos b =
     (if b = 34 then pbind (parse_string src pos) (\<lambda>(s, nxt). Parsed (JText s, nxt))
      else if b = 116 then json_literal src pos (ascii ''true'') (JBool True)
      else if b = 102 then json_literal src pos (ascii ''false'') (JBool False)
      else if b = 110 then json_literal src pos (ascii ''null'') JNull
      else if b = 45 \<or> is_ascii_digit b then parse_number fl src pos
      else Parse_Error)"

definition after_element :: "bytes \<Rightarrow> nat \<Rightarrow> u8 \<Rightarrow> (bool \<times> nat) parsed" where
  "after_element src nxt close =
     (let pos = skip_ws src nxt in
      case get_at src pos of
        None \<Rightarrow> Parse_Error
      | Some b \<Rightarrow> if b = 44 then Parsed (True, skip_ws src (pos + 1))
                  else if b = close then Parsed (False, pos + 1) else Parse_Error)"

definition member_key :: "bytes \<Rightarrow> nat \<Rightarrow> (bytes \<times> nat) parsed" where
  "member_key src start =
     (if get_at src start \<noteq> Some 34 then Parse_Error
      else pbind (parse_string src start) (\<lambda>(key, nxt).
        let pos = skip_ws src nxt in
        if get_at src pos \<noteq> Some 58 then Parse_Error else Parsed (key, skip_ws src (pos + 1))))"

text \<open>
  Values, arrays and objects. The loops run behind an opening bracket, which the \<open>debug_assert\<close>s of
  the code state: a violated one panics.
\<close>

function parse_value :: "float_lib \<Rightarrow> bytes \<Rightarrow> nat \<Rightarrow> (json \<times> nat) parsed"
  and parse_array :: "float_lib \<Rightarrow> bytes \<Rightarrow> nat \<Rightarrow> (json \<times> nat) parsed"
  and array_loop :: "float_lib \<Rightarrow> bytes \<Rightarrow> nat \<Rightarrow> json list \<Rightarrow> (json \<times> nat) parsed"
  and parse_object :: "float_lib \<Rightarrow> bytes \<Rightarrow> nat \<Rightarrow> (json \<times> nat) parsed"
  and object_loop :: "float_lib \<Rightarrow> bytes \<Rightarrow> nat \<Rightarrow> (bytes \<times> json) list \<Rightarrow> (json \<times> nat) parsed" where
  "parse_value fl src start =
     (let pos = skip_ws src start in
      case get_at src pos of
        None \<Rightarrow> Parse_Error
      | Some b \<Rightarrow>
          if b = 123 then parse_object fl src pos
          else if b = 91 then parse_array fl src pos
          else parse_scalar fl src pos b)"
| "parse_array fl src start =
     (if get_at src start \<noteq> Some 91 then Parse_Panic
      else let pos = skip_ws src (start + 1) in
        if get_at src pos = Some 93 then Parsed (JArray [], pos + 1) else array_loop fl src pos [])"
| "array_loop fl src start items =
     pbind (parse_value fl src start) (\<lambda>(v, nxt).
     pbind (after_element src nxt 93) (\<lambda>(again, pos).
     if again then array_loop fl src pos (items @ [v]) else Parsed (JArray (items @ [v]), pos)))"
| "parse_object fl src start =
     (if get_at src start \<noteq> Some 123 then Parse_Panic
      else let pos = skip_ws src (start + 1) in
        if get_at src pos = Some 125 then Parsed (JObject [], pos + 1) else object_loop fl src pos [])"
| "object_loop fl src start members =
     pbind (member_key src start) (\<lambda>(key, pos).
     pbind (parse_value fl src pos) (\<lambda>(v, nxt).
     pbind (after_element src nxt 125) (\<lambda>(again, pos).
     if again then object_loop fl src pos (members @ [(key, v)]) else Parsed (JObject (members @ [(key, v)]), pos))))"
  by pat_completeness auto

text \<open>Every step moves on.\<close>

lemma run_while_ge: "i \<le> run_while p bs i"
  by (simp add: run_while_def)

lemma run_while_gt: "i < length bs \<Longrightarrow> p (bs ! i) \<Longrightarrow> i < run_while p bs i"
  by (simp add: run_while_def Cons_nth_drop_Suc [symmetric])

lemma skip_ws_ge: "pos \<le> skip_ws src pos"
  by (simp add: skip_ws_def run_while_ge)

lemma skip_ws_less:
  "skip_ws src i < length src \<Longrightarrow> length src - skip_ws src i \<noteq> length src - i \<Longrightarrow> length src - skip_ws src i < length src - i"
  "i < length src \<Longrightarrow> length src - skip_ws src (Suc i) < length src - i"
  using skip_ws_ge [of i src] skip_ws_ge [of "Suc i" src] by simp_all

lemma string_loop_cases:
  assumes "string_loop src pos out = Parsed (s, p)"
  obtains "string_step src pos = Parsed None" "s = out" "p = pos + 1"
    | c q where "string_step src pos = Parsed (Some (c, q))" "string_loop src q (out @ c) = Parsed (s, p)"
proof (cases "string_step src pos")
  case (Parsed r)
  then show ?thesis using assms [unfolded string_loop.simps [of src pos out]] that by (cases r) auto
qed (use assms in \<open>simp_all add: string_loop.simps [of src pos out]\<close>)

lemma string_loop_pos: "string_loop src pos out = Parsed (s, p) \<Longrightarrow> pos < p"
proof (induction src pos out rule: string_loop.induct)
  case (1 src pos out)
  from 1(2) show ?case
  proof (cases rule: string_loop_cases)
    case (2 c q)
    then show ?thesis using 1(1) [OF 2(1) refl refl 2(2)] string_step_pos [OF 2(1)] by simp
  qed simp
qed

lemma number_end_pos: "number_end bs start = Parsed p \<Longrightarrow> start < p"
proof -
  have i: "int_end bs start = Parsed p \<Longrightarrow> start < p" for p
    using run_while_gt [of _ bs is_ascii_digit] by (auto simp: int_end_def Let_def split: option.splits if_splits dest: Suc_lessD)
  have f: "frac_end bs i = Parsed p \<Longrightarrow> i \<le> p" "exp_end bs i = Parsed p \<Longrightarrow> i \<le> p" for i p
    by (auto simp: frac_end_def exp_end_def Let_def run_while_def split: if_splits)
  show "number_end bs start = Parsed p \<Longrightarrow> start < p"
    by (auto simp: number_end_def dest!: i f)
qed

lemma scalar_pos: "parse_scalar fl src pos b = Parsed (v, n) \<Longrightarrow> pos < n"
  by (auto simp: parse_scalar_def json_literal_def ascii_def parse_string_def parse_number_def Let_def
      split: if_splits option.splits dest!: string_loop_pos number_end_pos)

lemma after_element_pos: "after_element src i close = Parsed (again, n) \<Longrightarrow> i < n \<and> i < length src"
  using skip_ws_ge [of i src] skip_ws_ge [of "Suc (skip_ws src i)" src]
  by (auto simp: after_element_def Let_def split: option.splits if_splits)

lemma member_key_pos: "member_key src i = Parsed (key, n) \<Longrightarrow> i < n \<and> i < length src"
proof -
  assume "member_key src i = Parsed (key, n)"
  then obtain q where q: "string_loop src (i + 1) [] = Parsed (key, q)" "n = skip_ws src (Suc (skip_ws src q))" "i < length src"
    by (auto simp: member_key_def parse_string_def Let_def split: if_splits)
  then show ?thesis using string_loop_pos [OF q(1)] skip_ws_ge [of q src] skip_ws_ge [of "Suc (skip_ws src q)" src] by simp
qed

lemma value_moves:
  "parse_value_parse_array_array_loop_parse_object_object_loop_dom (Inl (Inl (fl, src, i))) \<Longrightarrow> parse_value fl src i = Parsed (v, n) \<Longrightarrow> i < n"
  "parse_value_parse_array_array_loop_parse_object_object_loop_dom (Inl (Inr (fl, src, i))) \<Longrightarrow> parse_array fl src i = Parsed (v, n) \<Longrightarrow> i < n"
  "parse_value_parse_array_array_loop_parse_object_object_loop_dom (Inr (Inl (fl, src, i, vs))) \<Longrightarrow> array_loop fl src i vs = Parsed (v, n) \<Longrightarrow> i < n"
  "parse_value_parse_array_array_loop_parse_object_object_loop_dom (Inr (Inr (Inl (fl, src, i)))) \<Longrightarrow> parse_object fl src i = Parsed (v, n) \<Longrightarrow> i < n"
  "parse_value_parse_array_array_loop_parse_object_object_loop_dom (Inr (Inr (Inr (fl, src, i, ms)))) \<Longrightarrow> object_loop fl src i ms = Parsed (v, n) \<Longrightarrow> i < n"
proof (induction fl src i and fl src i and fl src i vs and fl src i and fl src i ms arbitrary: v n and v n and v n and v n and v n
    rule: parse_value_parse_array_array_loop_parse_object_object_loop.pinduct)
  case (1 fl src start)
  from 1(4) [unfolded parse_value.psimps [OF 1(1)]] have "skip_ws src start < n"
    by (auto simp: Let_def split: option.splits if_splits intro: 1(2,3) scalar_pos)
  then show ?case using skip_ws_ge [of start src] by simp
next
  case (2 fl src start)
  from 2(3) [unfolded parse_array.psimps [OF 2(1)]] have "skip_ws src (start + 1) < n"
    by (auto simp: Let_def split: if_splits intro: 2(2))
  then show ?case using skip_ws_ge [of "start + 1" src] by simp
next
  case (3 fl src start items)
  from 3(4) [unfolded array_loop.psimps [OF 3(1)]] obtain u q again p where q: "parse_value fl src start = Parsed (u, q)"
    "after_element src q 93 = Parsed (again, p)" "if again then array_loop fl src p (items @ [u]) = Parsed (v, n) else n = p" by (auto split: if_splits)
  have "p \<le> n" using q(3) 3(3) [OF q(1) refl q(2) refl] by (cases again) fastforce+
  then show ?case using 3(2) [OF q(1)] after_element_pos [OF q(2)] by simp
next
  case (4 fl src start)
  from 4(3) [unfolded parse_object.psimps [OF 4(1)]] have "skip_ws src (start + 1) < n"
    by (auto simp: Let_def split: if_splits intro: 4(2))
  then show ?case using skip_ws_ge [of "start + 1" src] by simp
next
  case (5 fl src start members)
  from 5(4) [unfolded object_loop.psimps [OF 5(1)]] obtain key r u q again p where q: "member_key src start = Parsed (key, r)"
    "parse_value fl src r = Parsed (u, q)" "after_element src q 125 = Parsed (again, p)"
    "if again then object_loop fl src p (members @ [(key, u)]) = Parsed (v, n) else n = p" by (auto split: if_splits)
  have "p \<le> n" using q(4) 5(3) [OF q(1) refl q(2) refl q(3) refl] by (cases again) fastforce+
  then show ?case using member_key_pos [OF q(1)] 5(2) [OF q(1) refl q(2)] after_element_pos [OF q(3)] by simp
qed

termination parse_value
  by (relation "measures [\<lambda>x. case x of
         Inl (Inl (fl, src, i)) \<Rightarrow> length src - i | Inl (Inr (fl, src, i)) \<Rightarrow> length src - i
       | Inr (Inl (fl, src, i, vs)) \<Rightarrow> length src - i | Inr (Inr (Inl (fl, src, i))) \<Rightarrow> length src - i
       | Inr (Inr (Inr (fl, src, i, ms))) \<Rightarrow> length src - i,
     \<lambda>x. case x of Inl (Inl _) \<Rightarrow> 1 | Inr (Inl _) \<Rightarrow> 2 | Inr (Inr (Inr _)) \<Rightarrow> 2 | _ \<Rightarrow> 0]")
    (auto dest!: after_element_pos member_key_pos value_moves intro: skip_ws_less)

declare parse_value.simps [simp del] parse_array.simps [simp del] array_loop.simps [simp del] parse_object.simps [simp del] object_loop.simps [simp del]

definition json_parse :: "float_lib \<Rightarrow> bytes \<Rightarrow> json parsed" where
  "json_parse fl src =
     pbind (parse_value fl src (skip_ws src 0)) (\<lambda>(v, nxt). if skip_ws src nxt \<noteq> length src then Parse_Error else Parsed v)"

section \<open>Writing a document\<close>

definition json_hex_digit :: "nat \<Rightarrow> u8" where
  "json_hex_digit n = of_nat (if n < 10 then 48 + n else 87 + n)"

definition fmt_04x :: "nat \<Rightarrow> bytes" where
  "fmt_04x n = [json_hex_digit (n div 4096), json_hex_digit (n div 256 mod 16), json_hex_digit (n div 16 mod 16), json_hex_digit (n mod 16)]"

definition write_char :: "bytes \<Rightarrow> bytes" where
  "write_char ch =
     (if ch = [34] then [92, 34]
      else if ch = [92] then [92, 92]
      else if ch = [8] then [92, 98]
      else if ch = [12] then [92, 102]
      else if ch = [10] then [92, 110]
      else if ch = [13] then [92, 114]
      else if ch = [9] then [92, 116]
      else case ch of
        [b] \<Rightarrow> if unat b < 0x20 then [92, 117] @ fmt_04x (unat b) else ch
      | _ \<Rightarrow> ch)"

definition write_string :: "bytes \<Rightarrow> bytes \<Rightarrow> bytes" where
  "write_string s out = out @ [34] @ concat (map write_char (str_chars s)) @ [34]"

text \<open>The loops over items and members: \<open>first\<close> is \<open>i = 0\<close>.\<close>

fun write_into :: "json \<Rightarrow> bytes \<Rightarrow> bytes"
  and write_items :: "bool \<Rightarrow> json list \<Rightarrow> bytes \<Rightarrow> bytes"
  and write_members :: "bool \<Rightarrow> (bytes \<times> json) list \<Rightarrow> bytes \<Rightarrow> bytes" where
  "write_into JNull out = out @ ascii ''null''"
| "write_into (JBool True) out = out @ ascii ''true''"
| "write_into (JBool False) out = out @ ascii ''false''"
| "write_into (JInt i) out = out @ i64_to_text i"
| "write_into (JReal r s) out = out @ s"
| "write_into (JText s) out = write_string s out"
| "write_into (JArray items) out = write_items True items (out @ [91]) @ [93]"
| "write_into (JObject members) out = write_members True members (out @ [123]) @ [125]"
| "write_items first [] out = out"
| "write_items first (v # vs) out = write_items False vs (write_into v (if first then out else out @ [44]))"
| "write_members first [] out = out"
| "write_members first ((key, v) # ms) out =
     write_members False ms (write_into v (write_string key (if first then out else out @ [44]) @ [58]))"

definition json_write :: "json \<Rightarrow> bytes" where
  "json_write v = write_into v []"

section \<open>Paths\<close>

datatype index_spec = Exact nat | Append | From_End nat

datatype path_step = Key bytes | Index index_spec

fun resolve :: "index_spec \<Rightarrow> nat \<Rightarrow> nat option" where
  "resolve (Exact n) len = Some n"
| "resolve Append len = Some len"
| "resolve (From_End n) len = (if n \<le> len then Some (len - n) else None)"

text \<open>\<open>digits\<close>: the run of digits read as a \<open>usize\<close>.\<close>

definition path_digits :: "bytes \<Rightarrow> nat \<Rightarrow> (nat \<times> nat) parsed" where
  "path_digits bs start =
     (let pos = run_while is_ascii_digit bs start in
      if pos = start then Parse_Error
      else pbind (or_error (parse_int 0 (2 ^ 64 - 1) (slice start pos bs))) (\<lambda>n. Parsed (nat n, pos)))"

definition path_key :: "bytes \<Rightarrow> nat \<Rightarrow> (path_step \<times> nat) parsed" where
  "path_key src start =
     (if get_at src start = Some 34 then pbind (parse_string src start) (\<lambda>(key, nxt). Parsed (Key key, nxt))
      else let pos = run_while (\<lambda>b. b \<noteq> 46 \<and> b \<noteq> 91) src start in
        if pos = start then Parse_Error
        else pbind (str_slice src start pos) (\<lambda>key. Parsed (Key key, pos)))"

definition path_index :: "bytes \<Rightarrow> nat \<Rightarrow> (path_step \<times> nat) parsed" where
  "path_index src start =
     pbind (if get_at src start = Some 35
            then if get_at src (start + 1) = Some 45
                 then pbind (path_digits src (start + 2)) (\<lambda>(n, pos). Parsed (From_End n, pos))
                 else Parsed (Append, start + 1)
            else pbind (path_digits src start) (\<lambda>(n, pos). Parsed (Exact n, pos))) (\<lambda>(spec, pos).
     if get_at src pos \<noteq> Some 93 then Parse_Error else Parsed (Index spec, pos + 1))"

lemma path_digits_pos: "path_digits bs i = Parsed (n, p) \<Longrightarrow> i < p"
  using run_while_ge [of i is_ascii_digit bs] by (auto simp: path_digits_def Let_def split: if_splits)

lemma path_step_pos:
  "path_key src i = Parsed (st, n) \<Longrightarrow> i < n" "path_index src i = Parsed (st, n) \<Longrightarrow> i < n"
proof -
  show "path_key src i = Parsed (st, n) \<Longrightarrow> i < n"
    using run_while_ge [of i "\<lambda>b. b \<noteq> 46 \<and> b \<noteq> 91" src]
    by (auto simp: path_key_def parse_string_def Let_def split: if_splits dest!: string_loop_pos)
  show "path_index src i = Parsed (st, n) \<Longrightarrow> i < n"
    by (auto simp: path_index_def split: if_splits dest!: path_digits_pos)
qed

function path_loop :: "bytes \<Rightarrow> nat \<Rightarrow> path_step list \<Rightarrow> path_step list parsed" where
  "path_loop src pos steps =
     (if pos < length src
      then pbind (if src ! pos = 46 then path_key src (pos + 1)
                  else if src ! pos = 91 then path_index src (pos + 1) else Parse_Error) (\<lambda>(st, pos).
           path_loop src pos (steps @ [st]))
      else Parsed steps)"
  by auto
termination
  by (relation "measure (\<lambda>(src, pos, steps). length src - pos)") (auto split: if_splits dest!: path_step_pos intro!: diff_less_mono2)

declare path_loop.simps [simp del]

definition parse_path :: "bytes \<Rightarrow> path_step list parsed" where
  "parse_path src = (if get_at src 0 \<noteq> Some 36 then Parse_Error else path_loop src 1 [])"

definition is_root :: "path_step list \<Rightarrow> bool" where
  "is_root path \<longleftrightarrow> path = []"

section \<open>Reading and writing at a path\<close>

text \<open>\<open>iter().position(|(k, _)| k == key)\<close>.\<close>

fun member_at :: "bytes \<Rightarrow> (bytes \<times> json) list \<Rightarrow> nat option" where
  "member_at key [] = None"
| "member_at key ((k, v) # ms) = (if k = key then Some 0 else map_option Suc (member_at key ms))"

fun json_get :: "json \<Rightarrow> path_step list \<Rightarrow> json option" where
  "json_get doc [] = Some doc"
| "json_get doc (Key key # rest) = (case doc of
     JObject ms \<Rightarrow> (case find (\<lambda>(k, _). k = key) ms of None \<Rightarrow> None | Some (_, v) \<Rightarrow> json_get v rest)
   | _ \<Rightarrow> None)"
| "json_get doc (Index spec # rest) = (case doc of
     JArray vs \<Rightarrow> (case resolve spec (length vs) of None \<Rightarrow> None
       | Some i \<Rightarrow> (case get_at vs i of None \<Rightarrow> None | Some v \<Rightarrow> json_get v rest))
   | _ \<Rightarrow> None)"

datatype put_mode = Put_Set | Put_Insert | Put_Replace

fun apply_put :: "json option \<Rightarrow> path_step list \<Rightarrow> json \<Rightarrow> put_mode \<Rightarrow> json option" where
  "apply_put current [] v mode =
     (if current \<noteq> None \<and> mode = Put_Insert \<or> current = None \<and> mode = Put_Replace then None else Some v)"
| "apply_put current (Key key # rest) v mode = (case current of
     Some (JObject ms) \<Rightarrow>
       (case member_at key ms of
          Some pos \<Rightarrow> map_option (\<lambda>child. JObject (ms[pos := (fst (ms ! pos), child)])) (apply_put (Some (snd (ms ! pos))) rest v mode)
        | None \<Rightarrow> if mode = Put_Replace then None
                  else map_option (\<lambda>child. JObject (ms @ [(key, child)])) (apply_put None rest v mode))
   | None \<Rightarrow> if mode \<noteq> Put_Replace then map_option (\<lambda>child. JObject [(key, child)]) (apply_put None rest v mode) else None
   | _ \<Rightarrow> None)"
| "apply_put current (Index spec # rest) v mode = (case current of
     Some (JArray vs) \<Rightarrow>
       (case resolve spec (length vs) of
          None \<Rightarrow> None
        | Some i \<Rightarrow>
            if i < length vs then map_option (\<lambda>child. JArray (vs[i := child])) (apply_put (Some (vs ! i)) rest v mode)
            else if i = length vs \<and> mode \<noteq> Put_Replace then map_option (\<lambda>child. JArray (vs @ [child])) (apply_put None rest v mode)
            else None)
   | None \<Rightarrow> if mode \<noteq> Put_Replace \<and> resolve spec 0 = Some 0 then map_option (\<lambda>child. JArray [child]) (apply_put None rest v mode) else None
   | _ \<Rightarrow> None)"

definition json_put :: "json \<Rightarrow> path_step list \<Rightarrow> json \<Rightarrow> put_mode \<Rightarrow> json" where
  "json_put doc path v mode = (case apply_put (Some doc) path v mode of Some d \<Rightarrow> d | None \<Rightarrow> doc)"

text \<open>\<open>Vec::remove\<close> at an index inside the vector.\<close>

definition remove_nth :: "nat \<Rightarrow> 'a list \<Rightarrow> 'a list" where
  "remove_nth i xs = take i xs @ drop (Suc i) xs"

fun apply_remove :: "json \<Rightarrow> path_step list \<Rightarrow> json option" where
  "apply_remove current [] = None"
| "apply_remove current (Key key # rest) = (case current of
     JObject ms \<Rightarrow> (case member_at key ms of None \<Rightarrow> None
       | Some pos \<Rightarrow> if rest = [] then Some (JObject (remove_nth pos ms))
           else map_option (\<lambda>child. JObject (ms[pos := (fst (ms ! pos), child)])) (apply_remove (snd (ms ! pos)) rest))
   | _ \<Rightarrow> None)"
| "apply_remove current (Index spec # rest) = (case current of
     JArray vs \<Rightarrow> (case resolve spec (length vs) of None \<Rightarrow> None
       | Some i \<Rightarrow> if length vs \<le> i then None
           else if rest = [] then Some (JArray (remove_nth i vs))
           else map_option (\<lambda>child. JArray (vs[i := child])) (apply_remove (vs ! i) rest))
   | _ \<Rightarrow> None)"

definition json_remove :: "json \<Rightarrow> path_step list \<Rightarrow> json option" where
  "json_remove doc path = apply_remove doc path"

section \<open>SQL functions\<close>

text \<open>\<open>map_err\<close>: a parse error becomes the given error.\<close>

definition or_type_error :: "'a parsed \<Rightarrow> string \<Rightarrow> 'a result" where
  "or_type_error m msg = (case m of Parsed v \<Rightarrow> Ok v | Parse_Error \<Rightarrow> Err (Type msg) | Parse_Panic \<Rightarrow> Panic)"

definition json_doc :: "float_lib \<Rightarrow> sql_value \<Rightarrow> json option result" where
  "json_doc fl v =
     (if v = Null then Ok None
      else if as_vector v \<noteq> None then Err (Type ''a VECTOR value is not JSON'')
      else rbind (as_text fl v) (\<lambda>s. rbind (or_type_error (json_parse fl s) ''malformed JSON'') (\<lambda>d. Ok (Some d))))"

definition json_path_arg :: "float_lib \<Rightarrow> sql_value \<Rightarrow> path_step list option result" where
  "json_path_arg fl v =
     (if v = Null then Ok None
      else rbind (as_text fl v) (\<lambda>s.
        rbind (or_type_error (parse_path s) (''bad JSON path: '' @ [CHR 0x27] @ map (\<lambda>b. char_of (unat b)) s @ [CHR 0x27])) (\<lambda>p. Ok (Some p))))"

fun json_leaf :: "float_lib \<Rightarrow> sql_value \<Rightarrow> json result" where
  "json_leaf fl Null = Ok JNull"
| "json_leaf fl (Integer i) = Ok (JInt i)"
| "json_leaf fl (Real r) = Ok (JReal r (real_to_text fl r))"
| "json_leaf fl (Text s) = Ok (JText s)"
| "json_leaf fl (Blob _) = Err (Type ''JSON cannot hold BLOB values'')"
| "json_leaf fl (Vector _) = Err (Type ''JSON cannot hold VECTOR values'')"

fun json_to_value :: "json \<Rightarrow> sql_value" where
  "json_to_value JNull = Null"
| "json_to_value (JBool b) = Integer (if b then 1 else 0)"
| "json_to_value (JInt i) = Integer i"
| "json_to_value (JReal r _) = Real r"
| "json_to_value (JText s) = Text s"
| "json_to_value (JArray vs) = Text (json_write (JArray vs))"
| "json_to_value (JObject ms) = Text (json_write (JObject ms))"

definition json_fn :: "float_lib \<Rightarrow> sql_value \<Rightarrow> sql_value result" where
  "json_fn fl v = rbind (json_doc fl v) (\<lambda>d. Ok (case d of Some doc \<Rightarrow> Text (json_write doc) | None \<Rightarrow> Null))"

definition json_quote_fn :: "float_lib \<Rightarrow> sql_value \<Rightarrow> sql_value result" where
  "json_quote_fn fl v = rbind (json_leaf fl v) (\<lambda>d. Ok (Text (json_write d)))"

definition json_valid_fn :: "float_lib \<Rightarrow> sql_value \<Rightarrow> sql_value result" where
  "json_valid_fn fl v =
     (if v = Null then Ok Null
      else if as_vector v \<noteq> None then Ok (Integer 0)
      else case as_text fl v of
        Panic \<Rightarrow> Panic
      | Err _ \<Rightarrow> Ok (Integer 0)
      | Ok s \<Rightarrow> (case json_parse fl s of Parse_Panic \<Rightarrow> Panic | Parsed _ \<Rightarrow> Ok (Integer 1) | Parse_Error \<Rightarrow> Ok (Integer 0)))"

definition json_node_at :: "float_lib \<Rightarrow> sql_value list \<Rightarrow> json \<Rightarrow> json option option result" where
  "json_node_at fl vs doc = (case get_at vs 1 of
     Some p \<Rightarrow> rbind (json_path_arg fl p) (\<lambda>r. Ok (map_option (json_get doc) r))
   | None \<Rightarrow> Ok (Some (Some doc)))"

definition json_type_fn :: "float_lib \<Rightarrow> sql_value list \<Rightarrow> sql_value result" where
  "json_type_fn fl vs = rbind (index_at vs 0) (\<lambda>v. rbind (json_doc fl v) (\<lambda>d. case d of
     None \<Rightarrow> Ok Null
   | Some doc \<Rightarrow> rbind (json_node_at fl vs doc) (\<lambda>n. Ok (case n of Some (Some node) \<Rightarrow> Text (json_type_name node) | _ \<Rightarrow> Null))))"

definition json_array_length_fn :: "float_lib \<Rightarrow> sql_value list \<Rightarrow> sql_value result" where
  "json_array_length_fn fl vs = rbind (index_at vs 0) (\<lambda>v. rbind (json_doc fl v) (\<lambda>d. case d of
     None \<Rightarrow> Ok Null
   | Some doc \<Rightarrow> rbind (json_node_at fl vs doc) (\<lambda>n. Ok (case n of
       Some (Some (JArray items)) \<Rightarrow> Integer (of_nat (length items)) | Some (Some _) \<Rightarrow> Integer 0 | _ \<Rightarrow> Null))))"

fun json_paths :: "float_lib \<Rightarrow> sql_value list \<Rightarrow> path_step list list \<Rightarrow> path_step list list option result" where
  "json_paths fl [] paths = Ok (Some paths)"
| "json_paths fl (v # vs) paths = rbind (json_path_arg fl v) (\<lambda>r. case r of
     Some p \<Rightarrow> json_paths fl vs (paths @ [p])
   | None \<Rightarrow> Ok None)"

definition json_extract_fn :: "float_lib \<Rightarrow> sql_value list \<Rightarrow> sql_value result" where
  "json_extract_fn fl vs = rbind (index_at vs 0) (\<lambda>v. rbind (json_doc fl v) (\<lambda>d. case d of
     None \<Rightarrow> Ok Null
   | Some doc \<Rightarrow> rbind (json_paths fl (drop 1 vs) []) (\<lambda>ps. case ps of
       None \<Rightarrow> Ok Null
     | Some [p] \<Rightarrow> Ok (case json_get doc p of Some node \<Rightarrow> json_to_value node | None \<Rightarrow> Null)
     | Some paths \<Rightarrow> Ok (Text (json_write (JArray (map (\<lambda>p. case json_get doc p of Some n \<Rightarrow> n | None \<Rightarrow> JNull) paths)))))))"

fun json_remove_paths :: "float_lib \<Rightarrow> json \<Rightarrow> sql_value list \<Rightarrow> sql_value result" where
  "json_remove_paths fl doc [] = Ok (Text (json_write doc))"
| "json_remove_paths fl doc (v # vs) = rbind (json_path_arg fl v) (\<lambda>r. case r of
     None \<Rightarrow> Ok Null
   | Some p \<Rightarrow> if is_root p then Ok Null
       else json_remove_paths fl (case json_remove doc p of Some d \<Rightarrow> d | None \<Rightarrow> doc) vs)"

definition json_remove_fn :: "float_lib \<Rightarrow> sql_value list \<Rightarrow> sql_value result" where
  "json_remove_fn fl vs = rbind (index_at vs 0) (\<lambda>v. rbind (json_doc fl v) (\<lambda>d. case d of
     None \<Rightarrow> Ok Null
   | Some doc \<Rightarrow> json_remove_paths fl doc (drop 1 vs)))"

text \<open>\<open>->\<close> and \<open>->>\<close>; any other operator is unreachable.\<close>

definition json_arrow :: "float_lib \<Rightarrow> binary_op \<Rightarrow> sql_value \<Rightarrow> sql_value \<Rightarrow> sql_value result" where
  "json_arrow fl oper left right = rbind (json_doc fl left) (\<lambda>d. case d of
     None \<Rightarrow> Ok Null
   | Some doc \<Rightarrow> rbind (json_path_arg fl right) (\<lambda>r. case r of
       None \<Rightarrow> Ok Null
     | Some path \<Rightarrow> (case json_get doc path of
         None \<Rightarrow> Ok Null
       | Some node \<Rightarrow> (case oper of JsonExtractJson \<Rightarrow> Ok (Text (json_write node)) | JsonExtractText \<Rightarrow> Ok (json_to_value node) | _ \<Rightarrow> Panic))))"

end
