(* ===== verification/Json_Text.thy ===== *)
theory Json_Text
  imports Json
begin

text \<open>
  Characters and strings of JSON texts: where a valid text may be cut, that the string parser never
  cuts it elsewhere, and that a written string reads back.
\<close>

section \<open>Characters of a valid text\<close>

definition one_char :: "bytes \<Rightarrow> bool" where
  "one_char ch \<longleftrightarrow> ch \<noteq> [] \<and> length ch = char_width (hd ch) \<and> utf8_valid ch"

lemma char_width_cases:
  "unat a < 128 \<Longrightarrow> char_width a = 1" "utf8_two a b \<Longrightarrow> char_width a = 2"
  "utf8_three a b c \<Longrightarrow> char_width a = 3" "utf8_four a b c d \<Longrightarrow> char_width a = 4"
  by (auto simp: char_width_def utf8_two_def utf8_three_def utf8_four_def in_range_def)

lemma lead_bytes:
  "utf8_two a b \<Longrightarrow> 128 \<le> unat a" "utf8_three a b c \<Longrightarrow> 128 \<le> unat a \<and> \<not> utf8_two a b"
  "utf8_four a b c d \<Longrightarrow> 128 \<le> unat a \<and> \<not> utf8_two a b \<and> \<not> utf8_three a b c"
  by (auto simp: utf8_two_def utf8_three_def utf8_four_def in_range_def)

lemma valid_Cons:
  "unat a < 128 \<Longrightarrow> utf8_valid (a # r) \<longleftrightarrow> utf8_valid r" "utf8_two a b \<Longrightarrow> utf8_valid (a # b # r) \<longleftrightarrow> utf8_valid r"
  "utf8_three a b c \<Longrightarrow> utf8_valid (a # b # c # r) \<longleftrightarrow> utf8_valid r" "utf8_four a b c d \<Longrightarrow> utf8_valid (a # b # c # d # r) \<longleftrightarrow> utf8_valid r"
     apply (subst utf8_valid.simps(2), simp)
    apply (subst utf8_valid.simps(2), use lead_bytes(1) [of a b] in simp)
   apply (subst utf8_valid.simps(2), use lead_bytes(2) [of a b c] in simp)
  apply (subst utf8_valid.simps(2), use lead_bytes(3) [of a b c d] in simp)
  done

declare utf8_valid.simps(2) [simp del]

lemma valid_char_cases:
  assumes "utf8_valid s" "s \<noteq> []"
  obtains a r where "s = a # r" "unat a < 128" "utf8_valid r"
    | a b r where "s = a # b # r" "utf8_two a b" "utf8_valid r"
    | a b c r where "s = a # b # c # r" "utf8_three a b c" "utf8_valid r"
    | a b c d r where "s = a # b # c # d # r" "utf8_four a b c d" "utf8_valid r"
proof (cases s)
  case (Cons a r)
  then show ?thesis using assms(1) [unfolded Cons, unfolded utf8_valid.simps(2) [of a r]] that
    by (fastforce split: if_splits list.splits)
qed (use assms in simp)

lemma valid_head:
  assumes "utf8_valid (b # r)"
  shows "one_char (take (char_width b) (b # r))" "utf8_valid (drop (char_width b) (b # r))" "\<not> utf8_cont b"
proof -
  have "one_char (take (char_width b) (b # r)) \<and> utf8_valid (drop (char_width b) (b # r)) \<and> \<not> utf8_cont b"
    using assms
  proof (rule valid_char_cases)
    fix c t assume "b # r = c # t" "unat c < 128" "utf8_valid t"
    then show ?thesis by (auto simp: one_char_def char_width_cases valid_Cons in_range_def)
  next
    fix c d t assume "b # r = c # d # t" "utf8_two c d" "utf8_valid t"
    then show ?thesis by (auto simp: one_char_def char_width_cases(2) valid_Cons(2)) (auto simp: utf8_two_def in_range_def)
  next
    fix c d e t assume "b # r = c # d # e # t" "utf8_three c d e" "utf8_valid t"
    then show ?thesis by (auto simp: one_char_def char_width_cases(3) valid_Cons(3)) (auto simp: utf8_three_def in_range_def)
  next
    fix c d e f t assume "b # r = c # d # e # f # t" "utf8_four c d e f" "utf8_valid t"
    then show ?thesis by (auto simp: one_char_def char_width_cases(4) valid_Cons(4)) (auto simp: utf8_four_def in_range_def)
  qed simp
  then show "one_char (take (char_width b) (b # r))" "utf8_valid (drop (char_width b) (b # r))" "\<not> utf8_cont b" by auto
qed

lemma valid_tail: "utf8_valid (b # r) \<Longrightarrow> unat b < 128 \<Longrightarrow> utf8_valid r"
  by (simp add: valid_Cons)

lemma valid_append: "utf8_valid a \<Longrightarrow> utf8_valid b \<Longrightarrow> utf8_valid (a @ b)"
proof (induction "length a" arbitrary: a rule: less_induct)
  case less
  show ?case
  proof (cases "a = []")
    case False
    from less(2) False show ?thesis
      by (rule valid_char_cases) (use less(1) [OF _ _ less(3)] in \<open>auto simp: valid_Cons\<close>)
  qed (use less in simp)
qed

lemma valid_boundary: "utf8_valid (drop i s) \<Longrightarrow> i \<le> length s \<Longrightarrow> char_boundary s i"
  using valid_head(3) [of "s ! i" "drop (Suc i) s"] by (cases "i < length s") (auto simp: char_boundary_def Cons_nth_drop_Suc)

lemma valid_step: "utf8_valid (drop i s) \<Longrightarrow> i < length s \<Longrightarrow> unat (s ! i) < 128 \<Longrightarrow> utf8_valid (drop (Suc i) s)"
  using valid_tail [of "s ! i" "drop (Suc i) s"] by (simp add: Cons_nth_drop_Suc)

lemma valid_slice:
  assumes "utf8_valid (drop i s)" "utf8_valid (drop j s)" "i \<le> j" "j \<le> length s"
  shows "str_slice s i j = Parsed (slice i j s)"
  using assms valid_boundary [of i s] valid_boundary [of j s] by (simp add: str_slice_def)

lemma u8_of_nat: "n < 256 \<Longrightarrow> unat (of_nat n :: u8) = n"
  by (simp add: unat_of_nat)

lemma encode_utf8_valid: "char_from_u32 c = Some ch \<Longrightarrow> utf8_valid ch"
proof -
  assume "char_from_u32 c = Some ch"
  then have c: "c < 0xD800 \<or> 0xE000 \<le> c \<and> c \<le> 0x10FFFF" and ch: "ch = encode_utf8 c" by (auto simp: char_from_u32_def split: if_splits)
  have m: "n mod 64 < 64" for n :: nat by simp
  have q_le: "k \<le> c div 64 \<longleftrightarrow> k * 64 \<le> c" and q_less: "c div 64 < k \<longleftrightarrow> c < k * 64" for k
    by (simp_all add: less_eq_div_iff_mult_less_eq div_less_iff_less_mult)
  consider "c < 0x80" | "0x80 \<le> c" "c < 0x800" | "0x800 \<le> c" "c < 0x10000" | "0x10000 \<le> c" by linarith
  then show ?thesis
  proof cases
    case 1
    then show ?thesis by (simp add: ch encode_utf8_def valid_Cons u8_of_nat)
  next
    case 2
    then have "2 \<le> c div 64" "c div 64 < 32" by (auto simp: q_le q_less)
    then have "utf8_two (of_nat (0xC0 + c div 64)) (of_nat (0x80 + c mod 64))"
      using m [of c] by (simp add: utf8_two_def in_range_def u8_of_nat del: of_nat_add)
    then show ?thesis using 2 by (simp add: ch encode_utf8_def valid_Cons(2) del: of_nat_add)
  next
    case 3
    have d: "c div 4096 = c div 64 div 64" "c div 64 = 64 * (c div 64 div 64) + c div 64 mod 64" using div_mult2_eq [of c 64 64] by simp_all
    have e: "32 \<le> c div 64" "c div 64 < 1024" "c div 64 < 864 \<or> 896 \<le> c div 64"
      using 3 c by (auto simp: q_le q_less)
    have q: "c div 4096 \<le> 15" "c div 4096 = 0 \<Longrightarrow> 32 \<le> c div 64 mod 64" "c div 4096 \<le> 12 \<or> 14 \<le> c div 4096 \<or> c div 64 mod 64 \<le> 31 \<and> c div 4096 = 13"
      using d e m [of "c div 64"] by linarith+
    have "utf8_three (of_nat (0xE0 + c div 4096)) (of_nat (0x80 + c div 64 mod 64)) (of_nat (0x80 + c mod 64))"
      using q m [of c] m [of "c div 64"] by (auto simp: utf8_three_def in_range_def u8_of_nat simp del: of_nat_add)
    then show ?thesis using 3 by (simp add: ch encode_utf8_def valid_Cons(3) del: of_nat_add)
  next
    case 4
    have d: "c div 262144 = c div 4096 div 64" "c div 4096 = 64 * (c div 4096 div 64) + c div 4096 mod 64" using div_mult2_eq [of c 4096 64] by simp_all
    have e: "16 \<le> c div 4096" "c div 4096 \<le> 271" using 4 c less_eq_div_iff_mult_less_eq [of 4096 16 c] div_less_iff_less_mult [of 4096 c 272] by auto
    have q: "c div 262144 \<le> 4" "c div 262144 = 0 \<Longrightarrow> 16 \<le> c div 4096 mod 64" "c div 262144 \<le> 3 \<or> c div 4096 mod 64 \<le> 15 \<and> c div 262144 = 4"
      using d e m [of "c div 4096"] by linarith+
    have "utf8_four (of_nat (0xF0 + c div 262144)) (of_nat (0x80 + c div 4096 mod 64)) (of_nat (0x80 + c div 64 mod 64)) (of_nat (0x80 + c mod 64))"
      using q m [of c] m [of "c div 64"] m [of "c div 4096"] by (auto simp: utf8_four_def in_range_def u8_of_nat simp del: of_nat_add)
    then show ?thesis using 4 by (simp add: ch encode_utf8_def valid_Cons(4) del: of_nat_add)
  qed
qed

lemma str_chars_valid: "utf8_valid s \<Longrightarrow> list_all one_char (str_chars s) \<and> concat (str_chars s) = s"
proof (induction s rule: str_chars.induct)
  case (1 s)
  show ?case
  proof (cases s)
    case (Cons b r)
    then show ?thesis using 1 valid_head [of b r] by (subst (1 2) str_chars.simps) auto
  qed (simp add: str_chars.simps)
qed

section \<open>Parsing strings\<close>

lemma valid_skip: "utf8_valid (drop i s) \<Longrightarrow> i + n \<le> length s \<Longrightarrow> \<forall>j < n. unat (s ! (i + j)) < 128 \<Longrightarrow> utf8_valid (drop (i + n) s)"
proof (induction n)
  case (Suc n)
  then show ?case using valid_step [of "i + n" s] by simp
qed simp

lemma hex_fold_ascii: "hex_fold ds v = Parsed n \<Longrightarrow> \<forall>b \<in> set ds. unat b < 128"
  by (induction ds arbitrary: v) (auto simp: hex_value_def in_range_def split: if_splits)

lemma hex_fold_safe [simp]: "hex_fold ds v \<noteq> Parse_Panic" "hex4 s i \<noteq> Parse_Panic"
proof -
  show "hex_fold ds v \<noteq> Parse_Panic" for ds v by (induction ds arbitrary: v) (auto simp: hex_value_def)
  then show "hex4 s i \<noteq> Parse_Panic" by (simp add: hex4_def)
qed

lemma hex4_ascii:
  assumes "hex4 s i = Parsed n" "utf8_valid (drop i s)"
  shows "utf8_valid (drop (i + 4) s)" "i + 4 \<le> length s"
proof -
  from assms(1) have f: "hex_fold (slice i (i + 4) s) 0 = Parsed n" and l: "i + 4 \<le> length s" by (auto simp: hex4_def)
  have "unat (s ! (i + j)) < 128" if "j < 4" for j
    using hex_fold_ascii [OF f] l that nth_slice [of j "i + 4" i s] by (metis add_diff_cancel_left' length_slice nth_mem)
  then show "utf8_valid (drop (i + 4) s)" using valid_skip [OF assms(2) l] by blast
  show "i + 4 \<le> length s" by (rule l)
qed

lemma unicode_escape_valid:
  assumes v: "utf8_valid (drop (Suc i) s)" and u: "unicode_escape s i = Parsed (c, p)"
  shows "utf8_valid c" "utf8_valid (drop (Suc p) s)"
proof -
  from u obtain cp where cp: "hex4 s (Suc i) = Parsed cp" by (auto simp: unicode_escape_def)
  note h = hex4_ascii [OF cp v]
  have "utf8_valid c \<and> utf8_valid (drop (Suc p) s)"
  proof (cases "0xD800 \<le> cp \<and> cp \<le> 0xDBFF")
    case True
    with u cp obtain low where low: "hex4 s (7 + i) = Parsed low" "s ! (5 + i) = 92" "s ! (6 + i) = 117" "6 + i < length s" "p = 10 + i"
      "char_from_u32 (0x10000 + (cp - 0xD800) * 0x400 + (low - 0xDC00)) = Some c"
      by (auto simp: unicode_escape_def Let_def split: if_splits)
    have "utf8_valid (drop (6 + i) s)" using valid_step [of "5 + i" s] h low by simp
    then have "utf8_valid (drop (7 + i) s)" using valid_step [of "6 + i" s] low by simp
    then have "utf8_valid (drop (11 + i) s)" using hex4_ascii(1) [OF low(1)] by simp
    then show ?thesis using low encode_utf8_valid by simp
  next
    case False
    with u cp have "char_from_u32 cp = Some c" "p = i + 4" by (auto simp: unicode_escape_def Let_def split: if_splits)
    then show ?thesis using h encode_utf8_valid by simp
  qed
  then show "utf8_valid c" "utf8_valid (drop (Suc p) s)" by auto
qed

lemma escape_valid:
  assumes v: "utf8_valid (drop i s)"
  shows "parse_escape s i \<noteq> Parse_Panic" "parse_escape s i = Parsed (c, p) \<Longrightarrow> utf8_valid c \<and> utf8_valid (drop (Suc p) s)"
proof -
  show "parse_escape s i \<noteq> Parse_Panic" by (auto simp: parse_escape_def unicode_escape_def Let_def split: option.splits)
  assume e: "parse_escape s i = Parsed (c, p)"
  then have i: "i < length s" "unat (s ! i) < 128" by (auto simp: parse_escape_def split: option.splits if_splits)
  note t = valid_step [OF v i]
  show "utf8_valid c \<and> utf8_valid (drop (Suc p) s)"
  proof (cases "s ! i = 117")
    case True
    then show ?thesis using e i unicode_escape_valid [OF t] by (auto simp: parse_escape_def split: option.splits)
  next
    case False
    then show ?thesis using e i t by (auto simp: parse_escape_def valid_Cons split: option.splits if_splits)
  qed
qed

lemma step_valid:
  assumes v: "utf8_valid (drop i s)"
  shows "string_step s i \<noteq> Parse_Panic" "string_step s i = Parsed (Some (c, p)) \<Longrightarrow> utf8_valid c \<and> utf8_valid (drop p s)"
    "string_step s i = Parsed None \<Longrightarrow> utf8_valid (drop (Suc i) s)"
proof -
  have e: "i < length s \<Longrightarrow> s ! i = 92 \<Longrightarrow> utf8_valid (drop (Suc i) s)" using valid_step [OF v] by simp
  have n: "str_slice s i (length s) = Parsed (drop i s)" if "i < length s"
    using valid_slice [OF v, of "length s"] that by (simp add: slice_def)
  have h: "one_char (take (char_width (s ! i)) (drop i s)) \<and> utf8_valid (drop (char_width (s ! i)) (drop i s))" if "i < length s"
    using valid_head [of "s ! i" "drop (Suc i) s"] that v by (simp add: Cons_nth_drop_Suc)
  have c: "next_char (drop i s) = Some (take (char_width (s ! i)) (drop i s))" if "i < length s"
    using Cons_nth_drop_Suc [OF that] by (auto simp: next_char_def split: list.splits)
  show "string_step s i \<noteq> Parse_Panic"
    using e escape_valid(1) n by (auto simp: string_step_def split: option.splits)
  show "string_step s i = Parsed None \<Longrightarrow> utf8_valid (drop (Suc i) s)"
    using valid_step [OF v] by (auto simp: string_step_def split: option.splits if_splits)
  assume st: "string_step s i = Parsed (Some (c, p))"
  then have i: "i < length s" by (auto simp: string_step_def split: option.splits)
  show "utf8_valid c \<and> utf8_valid (drop p s)"
  proof (cases "s ! i = 92")
    case True
    with st i obtain q where "parse_escape s (Suc i) = Parsed (c, q)" "p = Suc q" by (auto simp: string_step_def split: option.splits)
    then show ?thesis using escape_valid(2) [OF e [OF i True]] by simp
  next
    case False
    with st i n [OF i] c [OF i] have "c = take (char_width (s ! i)) (drop i s)" "p = i + length c"
      by (auto simp: string_step_def split: option.splits if_splits)
    then show ?thesis using h [OF i] by (auto simp: one_char_def hd_drop_conv_nth i add.commute)
  qed
qed

lemma string_loop_valid:
  assumes "utf8_valid (drop i s)" "utf8_valid out"
  shows "string_loop s i out \<noteq> Parse_Panic \<and> (\<forall>t p. string_loop s i out = Parsed (t, p) \<longrightarrow> utf8_valid t \<and> utf8_valid (drop p s))"
  using assms
proof (induction s i out rule: string_loop.induct)
  case (1 s i out)
  note st = step_valid [OF 1(2)]
  show ?case
  proof (cases "string_step s i")
    case (Parsed r)
    show ?thesis
    proof (cases r)
      case None
      then have "string_loop s i out = Parsed (out, Suc i)" using Parsed by (subst string_loop.simps) simp
      then show ?thesis using None Parsed st(3) 1(3) by simp
    next
      case (Some cp)
      obtain c p where cp: "cp = (c, p)" by (cases cp)
      have "utf8_valid c" "utf8_valid (drop p s)" using st(2) Parsed Some cp by auto
      moreover have "string_loop s i out = string_loop s p (out @ c)" using Parsed Some cp by (subst string_loop.simps) simp
      ultimately show ?thesis using 1(1) [OF Parsed Some cp [symmetric]] valid_append [OF 1(3)] by metis
    qed
  next
    case Parse_Error
    then show ?thesis by (simp add: string_loop.simps [of s i out])
  qed (use st(1) in simp)
qed

lemma parse_string_valid:
  assumes "utf8_valid (drop i s)" "i < length s" "s ! i = 34"
  shows "parse_string s i \<noteq> Parse_Panic" "parse_string s i = Parsed (t, p) \<Longrightarrow> utf8_valid t \<and> utf8_valid (drop p s)"
  using string_loop_valid [OF valid_step [OF assms(1,2)], of "[]"] assms by (auto simp: parse_string_def)

section \<open>Reading a written string back\<close>

fun occurs :: "bytes \<Rightarrow> nat \<Rightarrow> bytes \<Rightarrow> bool" where
  "occurs src i [] \<longleftrightarrow> i \<le> length src"
| "occurs src i (a # s) \<longleftrightarrow> i < length src \<and> src ! i = a \<and> occurs src (Suc i) s"

lemma get_at_in [simp]: "i < length xs \<Longrightarrow> get_at xs i = Some (xs ! i)" "length xs \<le> i \<Longrightarrow> get_at xs i = None"
  by simp_all

lemma occurs_bound: "occurs src i s \<Longrightarrow> i + length s \<le> length src"
  by (induction s arbitrary: i) fastforce+

lemma occurs_append [simp]: "occurs src i (s @ t) \<longleftrightarrow> occurs src i s \<and> occurs src (i + length s) t"
  by (induction s arbitrary: i) (auto dest: occurs_bound)

lemma occurs_take: "occurs src i s \<longleftrightarrow> i \<le> length src \<and> take (length s) (drop i src) = s"
proof (induction s arbitrary: i)
  case (Cons a s)
  show ?case
  proof (cases "i < length src")
    case True
    then show ?thesis using Cons [of "Suc i"] by (simp add: Cons_nth_drop_Suc [OF True, symmetric])
  qed simp
qed simp

lemma occurs_whole: "occurs s 0 s"
  by (simp add: occurs_take)

lemma occurs_nth: "occurs src i s \<Longrightarrow> j < length s \<Longrightarrow> i + j < length src \<and> src ! (i + j) = s ! j"
proof (induction s arbitrary: i j)
  case (Cons a s)
  then show ?case using Cons.IH [of "Suc i" "j - 1"] by (cases j) auto
qed simp

lemma occurs_slice: "occurs src i s \<Longrightarrow> slice i (i + length s) src = s"
  by (simp add: occurs_take slice_def)

lemma hex_value_digit: "n < 16 \<Longrightarrow> hex_value (json_hex_digit n) = Parsed n"
  by (auto simp: hex_value_def json_hex_digit_def in_range_def u8_of_nat simp del: of_nat_add)

lemma fmt_04x_length: "length (fmt_04x n) = 4"
  by (simp add: fmt_04x_def)

lemma hex4_written: "n < 32 \<Longrightarrow> occurs src i (fmt_04x n) \<Longrightarrow> hex4 src i = Parsed n"
proof -
  assume n: "n < 32" and o: "occurs src i (fmt_04x n)"
  have r: "get_range src i (i + 4) = Some (fmt_04x n)"
    using occurs_slice [OF o] occurs_bound [OF o] fmt_04x_length [of n] by simp
  have z: "n div 4096 = 0" "n div 256 = 0" using n by simp_all
  have q: "n div 16 < 16" "n div 16 mod 16 = n div 16" "n mod 16 < 16" using n by simp_all
  show ?thesis unfolding hex4_def r fmt_04x_def z q(2) by (simp add: or_error_def hex_value_digit q(1))
qed

lemma short_escape:
  assumes "occurs src i [92, x]" "(b, x) \<in> {(34, 34), (92, 92), (8, 98), (12, 102), (10, 110), (13, 114), (9, 116)}"
  shows "string_step src i = Parsed (Some ([b], i + 2))"
  using assms by (auto simp: string_step_def parse_escape_def)

lemma long_escape:
  assumes "occurs src i ([92, 117] @ fmt_04x (unat b))" "unat b < 32"
  shows "string_step src i = Parsed (Some ([b], i + 6))"
proof -
  have h: "hex4 src (Suc (Suc i)) = Parsed (unat b)" using hex4_written [OF assms(2), of src "Suc (Suc i)"] assms(1) by simp
  have "char_from_u32 (unat b) = Some [b]" using assms(2) by (simp add: char_from_u32_def encode_utf8_def)
  then have "unicode_escape src (Suc i) = Parsed ([b], i + 5)" using h assms(2) by (simp add: unicode_escape_def or_error_def)
  then show ?thesis using assms(1) by (simp add: string_step_def parse_escape_def)
qed

lemma plain_char:
  assumes "one_char (b # r)" "occurs src i (b # r)" "b \<noteq> 34" "b \<noteq> 92" "32 \<le> unat b"
  shows "string_step src i = Parsed (Some (b # r, i + length (b # r)))"
proof -
  have i: "i < length src" "src ! i = b" using assms(2) by auto
  have t: "take (length (b # r)) (drop i src) = b # r" using assms(2) occurs_take by blast
  have "\<not> utf8_cont b" using valid_head(3) [of b r] assms(1) by (simp add: one_char_def)
  then have "str_slice src i (length src) = Parsed (drop i src)" using i by (simp add: str_slice_def char_boundary_def slice_def)
  moreover have "next_char (drop i src) = Some (b # r)"
    using assms(1) t Cons_nth_drop_Suc [OF i(1)] i(2) by (auto simp: next_char_def one_char_def split: list.splits)
  ultimately show ?thesis using i assms(3-5) by (simp add: string_step_def or_error_def)
qed

lemma write_char_step:
  assumes c: "one_char ch" and o: "occurs src i (write_char ch)"
  shows "string_step src i = Parsed (Some (ch, i + length (write_char ch)))"
proof -
  obtain b r where ch: "ch = b # r" using c by (cases ch) (auto simp: one_char_def)
  consider x where "ch = [b]" "write_char ch = [92, x]" "(b, x) \<in> {(34, 34), (92, 92), (8, 98), (12, 102), (10, 110), (13, 114), (9, 116)}"
    | "ch = [b]" "unat b < 32" "write_char ch = [92, 117] @ fmt_04x (unat b)"
    | "write_char ch = ch" "b \<noteq> 34" "b \<noteq> 92" "32 \<le> unat b"
  proof (cases "r = []")
    case True
    show thesis
    proof (cases "b \<in> {34, 92, 8, 12, 10, 13, 9}")
      case True
      then show thesis using that(1) \<open>r = []\<close> ch by (auto simp: write_char_def)
    next
      case False
      then show thesis using that(2,3) \<open>r = []\<close> ch by (cases "unat b < 32") (auto simp: write_char_def)
    qed
  next
    case False
    then have "128 \<le> unat b" using c ch by (auto simp: one_char_def char_width_def split: if_splits)
    then have "32 \<le> unat b" "b \<noteq> 34" "b \<noteq> 92" by auto
    moreover have "write_char ch = ch" using False ch by (cases r) (auto simp: write_char_def)
    ultimately show thesis using that(3) by auto
  qed
  then show ?thesis
  proof cases
    case 1
    then show ?thesis using short_escape [of src i x b] o by simp
  next
    case 2
    then show ?thesis using long_escape [of src i b] o by (simp add: fmt_04x_def)
  next
    case 3
    then show ?thesis using plain_char [of b r src i] c o ch by simp
  qed
qed

lemma string_loop_written:
  assumes "list_all one_char cs" "occurs src i (concat (map write_char cs) @ [34])"
  shows "string_loop src i out = Parsed (out @ concat cs, i + length (concat (map write_char cs)) + 1)"
  using assms
proof (induction cs arbitrary: i out)
  case Nil
  then show ?case by (subst string_loop.simps) (auto simp: string_step_def split: option.splits)
next
  case (Cons c cs)
  have "string_step src i = Parsed (Some (c, i + length (write_char c)))" using write_char_step [of c src i] Cons.prems by simp
  then show ?case using Cons.IH [of "i + length (write_char c)" "out @ c"] Cons.prems by (subst string_loop.simps) (auto simp: add.assoc)
qed

lemma write_string_append: "write_string s out = out @ write_string s []"
  by (simp add: write_string_def)

lemma parse_string_written:
  assumes "utf8_valid s" "occurs src i (write_string s [])"
  shows "parse_string src i = Parsed (s, i + length (write_string s []))"
  using assms str_chars_valid [OF assms(1)] string_loop_written [of "str_chars s" src "Suc i" "[]"]
  by (auto simp: parse_string_def write_string_def)

end
