(* ===== verification/Json_Doc.thy ===== *)
theory Json_Doc
  imports Json_Text
begin

text \<open>
  Documents: what the parser accepts is well formed, and writing a well-formed document and parsing
  the text gives the document back.
\<close>

section \<open>Numbers\<close>

text \<open>The bytes that may follow a number inside a written document.\<close>

definition stops :: "bytes \<Rightarrow> nat \<Rightarrow> bool" where
  "stops src i \<longleftrightarrow> i < length src \<longrightarrow> src ! i \<in> {44, 93, 125}"

lemma run_while_iff:
  assumes "j \<le> length xs"
  shows "run_while p xs j = k \<longleftrightarrow> j \<le> k \<and> k \<le> length xs \<and> (\<forall>m. j \<le> m \<and> m < k \<longrightarrow> p (xs ! m)) \<and> (k < length xs \<longrightarrow> \<not> p (xs ! k))"
  (is "_ \<longleftrightarrow> ?R k")
proof -
  let ?n = "run_while p xs j"
  have a: "\<forall>m. j \<le> m \<and> m < ?n \<longrightarrow> p (xs ! m)"
  proof (intro allI impI)
    fix m assume m: "j \<le> m \<and> m < ?n"
    then have l: "m - j < length (takeWhile p (drop j xs))" by (auto simp: run_while_def)
    then have "p (takeWhile p (drop j xs) ! (m - j))" using set_takeWhileD nth_mem by metis
    then show "p (xs ! m)" using m l assms by (simp add: takeWhile_nth)
  qed
  have l: "?n \<le> length xs" using length_takeWhile_le [of p "drop j xs"] assms by (simp add: run_while_def)
  have b: "?n < length xs \<longrightarrow> \<not> p (xs ! ?n)"
    using nth_length_takeWhile [of p "drop j xs"] assms by (auto simp: run_while_def)
  have r: "?R ?n" using a b l run_while_ge [of j p xs] by blast
  moreover have "k = ?n" if "?R k" for k
    using that r by (metis le_less_trans less_le_trans linorder_neqE_nat)
  ultimately show ?thesis by blast
qed

lemma run_while_occurs:
  assumes o: "occurs src i s" and j: "j \<le> length s"
  shows "stops src (i + length s) \<Longrightarrow> run_while is_ascii_digit src (i + j) = i + run_while is_ascii_digit s j"
    "run_while is_ascii_digit src (i + j) = i + k \<Longrightarrow> k \<le> length s \<Longrightarrow> run_while is_ascii_digit s j = k"
proof -
  note b = occurs_bound [OF o] and n = occurs_nth [OF o]
  have lj: "i + j \<le> length src" using b j by simp
  have sh: "(\<forall>m. i + j \<le> m \<and> m < i + k \<longrightarrow> is_ascii_digit (src ! m)) \<longleftrightarrow> (\<forall>m. j \<le> m \<and> m < k \<longrightarrow> is_ascii_digit (s ! m))" if "k \<le> length s" for k
  proof (intro iffI allI impI)
    fix m assume "\<forall>m. i + j \<le> m \<and> m < i + k \<longrightarrow> is_ascii_digit (src ! m)" "j \<le> m \<and> m < k"
    then show "is_ascii_digit (s ! m)" using n [of m] that by (auto dest: spec [of _ "i + m"])
  next
    fix m assume "\<forall>m. j \<le> m \<and> m < k \<longrightarrow> is_ascii_digit (s ! m)" "i + j \<le> m \<and> m < i + k"
    then show "is_ascii_digit (src ! m)" using n [of "m - i"] that by (auto dest: spec [of _ "m - i"])
  qed
  show "run_while is_ascii_digit s j = k" if r: "run_while is_ascii_digit src (i + j) = i + k" and k: "k \<le> length s"
    using r [unfolded run_while_iff [OF lj]] sh [OF k] n [of k] b k unfolding run_while_iff [OF j] by auto
  assume st: "stops src (i + length s)"
  let ?k = "run_while is_ascii_digit s j"
  from run_while_iff [OF j, of is_ascii_digit ?k] have r: "j \<le> ?k" "?k \<le> length s" "\<forall>m. j \<le> m \<and> m < ?k \<longrightarrow> is_ascii_digit (s ! m)"
    "?k < length s \<longrightarrow> \<not> is_ascii_digit (s ! ?k)" by auto
  have "\<not> is_ascii_digit (src ! (i + ?k))" if "i + ?k < length src"
    using r(2,4) n [of ?k] st that by (cases "?k < length s") (auto simp: stops_def is_ascii_digit_def)
  then show "run_while is_ascii_digit src (i + j) = i + ?k"
    unfolding run_while_iff [OF lj] using r sh [OF r(2)] b by auto
qed

lemma get_occurs:
  assumes "occurs src i s" "j \<le> length s"
  shows "j < length s \<Longrightarrow> get_at src (i + j) = get_at s j"
    "stops src (i + length s) \<Longrightarrow> b \<notin> {44, 93, 125} \<Longrightarrow> get_at src (i + j) = Some b \<longleftrightarrow> get_at s j = Some b"
proof -
  show "j < length s \<Longrightarrow> get_at src (i + j) = get_at s j" using occurs_nth [OF assms(1)] by simp
  then show "stops src (i + length s) \<Longrightarrow> b \<notin> {44, 93, 125} \<Longrightarrow> get_at src (i + j) = Some b \<longleftrightarrow> get_at s j = Some b"
    using assms(2) by (cases "j < length s") (auto simp: stops_def)
qed

text \<open>A number followed by a stop is read as it stands alone, and the span of a number is a number.\<close>

definition skip_minus :: "bytes \<Rightarrow> nat \<Rightarrow> nat" where
  "skip_minus xs p = (if get_at xs p = Some 45 then 1 else 0)"

lemma int_end_alt:
  "int_end xs p = (case get_at xs (p + skip_minus xs p) of None \<Rightarrow> Parse_Error
     | Some b \<Rightarrow> if b = 48 then Parsed (Suc (p + skip_minus xs p))
       else if is_ascii_digit b then Parsed (run_while is_ascii_digit xs (p + skip_minus xs p)) else Parse_Error)"
  by (cases "get_at xs p = Some 45") (simp_all del: get_at_Some_iff get_at_None_iff add: int_end_def skip_minus_def split: option.split)

lemma int_end_occurs:
  assumes o: "occurs src i s"
  shows "int_end s 0 = Parsed k \<Longrightarrow> stops src (i + length s) \<Longrightarrow> int_end src i = Parsed (i + k) \<and> k \<le> length s"
    "int_end src i = Parsed (i + k) \<Longrightarrow> k \<le> length s \<Longrightarrow> int_end s 0 = Parsed k"
proof -
  note g = get_occurs [OF o]
  show "int_end src i = Parsed (i + k) \<and> k \<le> length s" if f: "int_end s 0 = Parsed k" and st: "stops src (i + length s)"
  proof -
    let ?d = "skip_minus s 0"
    have de: "skip_minus src i = ?d" using g(2) [of 0, OF _ st, of 45] by (simp add: skip_minus_def)
    obtain b where b: "get_at s ?d = Some b" using f by (cases "get_at s ?d") (auto simp: int_end_alt)
    then have d: "?d < length s" by auto
    then have gb: "get_at src (i + ?d) = Some b" using g(1) [of ?d] b by simp
    have r: "run_while is_ascii_digit src (i + ?d) = i + run_while is_ascii_digit s ?d"
      using run_while_occurs(1) [OF o _ st, of ?d] d by simp
    have l: "run_while is_ascii_digit s ?d \<le> length s" using run_while_iff [of ?d s is_ascii_digit] d by (metis less_imp_le)
    have "b = 48 \<and> k = Suc ?d \<or> b \<noteq> 48 \<and> is_ascii_digit b \<and> k = run_while is_ascii_digit s ?d"
      using f unfolding int_end_alt by (simp add: b split: if_splits)
    then show ?thesis using d l unfolding int_end_alt de gb r by auto
  qed
  assume f: "int_end src i = Parsed (i + k)" and k: "k \<le> length s"
  let ?e = "skip_minus src i"
  obtain b where b: "get_at src (i + ?e) = Some b" using f by (cases "get_at src (i + ?e)") (auto simp: int_end_alt)
  have c: "b = 48 \<and> k = Suc ?e \<or> b \<noteq> 48 \<and> is_ascii_digit b \<and> run_while is_ascii_digit src (i + ?e) = i + k"
    using f unfolding int_end_alt by (auto simp: b simp del: get_at_Some_iff split: if_splits)
  then have "?e < k" using run_while_gt [of "i + ?e" src is_ascii_digit] b by auto
  then have e: "?e < length s" "0 < length s" using k by auto
  then have de: "skip_minus s 0 = ?e" using g(1) [of 0] by (simp add: skip_minus_def)
  have gb: "get_at s ?e = Some b" using g(1) [of ?e] b e by simp
  show "int_end s 0 = Parsed k"
    using c run_while_occurs(2) [OF o _ _ k, of ?e] e unfolding int_end_alt by (auto simp: de gb simp del: get_at_Some_iff get_at_in)
qed

lemma frac_end_occurs:
  assumes o: "occurs src i s" "j \<le> length s"
  shows "frac_end s j = Parsed k \<Longrightarrow> stops src (i + length s) \<Longrightarrow> frac_end src (i + j) = Parsed (i + k) \<and> k \<le> length s"
    "frac_end src (i + j) = Parsed (i + k) \<Longrightarrow> k \<le> length s \<Longrightarrow> frac_end s j = Parsed k"
proof -
  note g = get_occurs [OF o]
  show "frac_end src (i + j) = Parsed (i + k) \<and> k \<le> length s" if f: "frac_end s j = Parsed k" and st: "stops src (i + length s)"
  proof (cases "get_at s j = Some 46")
    case True
    then have j: "Suc j \<le> length s" by auto
    show ?thesis
      using True f g(2) [OF st, of 46] run_while_occurs(1) [OF o(1) j st] run_while_iff [OF j, of is_ascii_digit k]
      by (auto simp: frac_end_def Let_def split: if_splits)
  next
    case False
    then show ?thesis using f g(2) [OF st, of 46] o(2) by (auto simp: frac_end_def split: if_splits)
  qed
  assume f: "frac_end src (i + j) = Parsed (i + k)" and k: "k \<le> length s"
  show "frac_end s j = Parsed k"
  proof (cases "get_at src (i + j) = Some 46")
    case True
    then have r: "run_while is_ascii_digit src (i + Suc j) = i + k" "k \<noteq> Suc j" using f by (auto simp: frac_end_def Let_def split: if_splits)
    have "Suc j \<le> k" using run_while_ge [of "i + Suc j" is_ascii_digit src] r(1) by simp
    then have j: "j < length s" "Suc j \<le> length s" using k by auto
    show ?thesis using True g(1) [OF j(1)] run_while_occurs(2) [OF o(1) j(2) r(1) k] r(2) by (auto simp: frac_end_def Let_def)
  next
    case False
    then have "k = j" using f by (auto simp: frac_end_def)
    then show ?thesis using False g(1) by (cases "j < length s") (auto simp: frac_end_def)
  qed
qed

definition exp_here :: "bytes \<Rightarrow> nat \<Rightarrow> bool" where
  "exp_here xs p \<longleftrightarrow> get_at xs p = Some 101 \<or> get_at xs p = Some 69"

definition exp_skip :: "bytes \<Rightarrow> nat \<Rightarrow> nat" where
  "exp_skip xs p = (if get_at xs (p + 1) = Some 43 \<or> get_at xs (p + 1) = Some 45 then 2 else 1)"

lemma exp_end_alt:
  "exp_end xs p = (if exp_here xs p then
       if run_while is_ascii_digit xs (p + exp_skip xs p) = p + exp_skip xs p then Parse_Error
       else Parsed (run_while is_ascii_digit xs (p + exp_skip xs p))
     else Parsed p)"
  by (simp add: exp_end_def exp_here_def exp_skip_def)

lemma exp_end_occurs:
  assumes o: "occurs src i s" "j \<le> length s"
  shows "exp_end s j = Parsed k \<Longrightarrow> stops src (i + length s) \<Longrightarrow> exp_end src (i + j) = Parsed (i + k) \<and> k \<le> length s"
    "exp_end src (i + j) = Parsed (i + k) \<Longrightarrow> k \<le> length s \<Longrightarrow> exp_end s j = Parsed k"
proof -
  note g = get_occurs [OF o(1)]
  show "exp_end src (i + j) = Parsed (i + k) \<and> k \<le> length s" if f: "exp_end s j = Parsed k" and st: "stops src (i + length s)"
  proof -
    have e: "exp_here src (i + j) = exp_here s j" using g(2) [OF o(2) st, of 101] g(2) [OF o(2) st, of 69] by (simp add: exp_here_def)
    show ?thesis
    proof (cases "exp_here s j")
      case True
      then have j: "j + 1 \<le> length s" by (auto simp: exp_here_def)
      let ?d = "exp_skip s j"
      have d: "exp_skip src (i + j) = ?d" using g(2) [OF j st, of 43] g(2) [OF j st, of 45] by (simp add: exp_skip_def add.assoc)
      have jd: "j + ?d \<le> length s" using j by (auto simp: exp_skip_def)
      have r: "run_while is_ascii_digit src (i + j + ?d) = i + run_while is_ascii_digit s (j + ?d)"
        using run_while_occurs(1) [OF o(1) jd st] by (simp only: add.assoc)
      have l: "run_while is_ascii_digit s (j + ?d) \<le> length s" using run_while_iff [OF jd, of is_ascii_digit] by metis
      have k: "k = run_while is_ascii_digit s (j + ?d)" "k \<noteq> j + ?d" using f True by (auto simp: exp_end_alt split: if_splits)
      then show ?thesis using l True by (simp add: exp_end_alt e d r)
    next
      case False
      then show ?thesis using f o(2) e by (simp add: exp_end_alt)
    qed
  qed
  assume f: "exp_end src (i + j) = Parsed (i + k)" and k: "k \<le> length s"
  let ?d = "exp_skip src (i + j)"
  show "exp_end s j = Parsed k"
  proof (cases "exp_here src (i + j)")
    case True
    then have r: "run_while is_ascii_digit src (i + (j + ?d)) = i + k" "k \<noteq> j + ?d"
      using f by (auto simp: exp_end_alt add.assoc split: if_splits)
    have jk: "j + ?d < k" using run_while_ge [of "i + (j + ?d)" is_ascii_digit src] r by simp
    have "1 \<le> ?d" by (simp add: exp_skip_def)
    then have j: "j < length s" "j + 1 < length s" "j + ?d \<le> length s" using k jk by linarith+
    have e: "exp_here s j" using True g(1) [of j] j by (simp add: exp_here_def)
    have d: "exp_skip s j = ?d" using g(1) [of "j + 1"] j by (simp add: exp_skip_def add.assoc)
    show ?thesis using run_while_occurs(2) [OF o(1) j(3) r(1) k] e r(2) by (simp add: exp_end_alt d)
  next
    case False
    then have "k = j" using f by (simp add: exp_end_alt)
    moreover have "\<not> exp_here s j" using False g(1) [of j] by (cases "j < length s") (auto simp: exp_here_def)
    ultimately show ?thesis by (simp add: exp_end_alt)
  qed
qed

lemma stage_ge: "frac_end bs i = Parsed p \<Longrightarrow> i \<le> p" "exp_end bs i = Parsed p \<Longrightarrow> i \<le> p"
  by (auto simp: frac_end_def exp_end_def Let_def run_while_def split: if_splits)

lemma number_end_occurs:
  assumes o: "occurs src i s"
  shows "number_end s 0 = Parsed k \<Longrightarrow> stops src (i + length s) \<Longrightarrow> number_end src i = Parsed (i + k)"
    "number_end src i = Parsed (i + length s) \<Longrightarrow> number_end s 0 = Parsed (length s)"
proof -
  show "number_end src i = Parsed (i + k)" if n: "number_end s 0 = Parsed k" and st: "stops src (i + length s)"
  proof -
    from n obtain a b where ab: "int_end s 0 = Parsed a" "frac_end s a = Parsed b" "exp_end s b = Parsed k" by (auto simp: number_end_def)
    note a = int_end_occurs(1) [OF o ab(1) st]
    note b = frac_end_occurs(1) [OF o _ ab(2) st]
    show ?thesis using a b exp_end_occurs(1) [OF o _ ab(3) st] by (auto simp: number_end_def)
  qed
  assume "number_end src i = Parsed (i + length s)"
  then obtain a b where ab: "int_end src i = Parsed a" "frac_end src a = Parsed b" "exp_end src b = Parsed (i + length s)" by (auto simp: number_end_def)
  have "i \<le> a"
    using ab(1) run_while_ge [of "i + skip_minus src i" is_ascii_digit src] by (auto simp: int_end_alt split: option.splits if_splits)
  moreover have "a \<le> b" "b \<le> i + length s" using ab(2,3) stage_ge by blast+
  ultimately have pq: "a = i + (a - i)" "b = i + (b - i)" "a - i \<le> b - i" "b - i \<le> length s" by auto
  show "number_end s 0 = Parsed (length s)"
    using int_end_occurs(2) [OF o, of "a - i"] frac_end_occurs(2) [OF o, of "a - i" "b - i"] exp_end_occurs(2) [OF o, of "b - i" "length s"] ab pq
    by (simp add: number_end_def)
qed

section \<open>Well-formed documents\<close>

text \<open>Strings are valid, and a real carries the text of a number that is no \<open>i64\<close> and reads as it.\<close>

fun json_ok :: "float_lib \<Rightarrow> json \<Rightarrow> bool" where
  "json_ok fl (JReal r s) \<longleftrightarrow> number_end s 0 = Parsed (length s) \<and> parse_i64 s = None \<and> parse_f64 fl s = Some r"
| "json_ok fl (JText s) \<longleftrightarrow> utf8_valid s"
| "json_ok fl (JArray vs) \<longleftrightarrow> (\<forall>v \<in> set vs. json_ok fl v)"
| "json_ok fl (JObject ms) \<longleftrightarrow> (\<forall>(k, v) \<in> set ms. utf8_valid k \<and> json_ok fl v)"
| "json_ok fl JNull \<longleftrightarrow> True"
| "json_ok fl (JBool b) \<longleftrightarrow> True"
| "json_ok fl (JInt n) \<longleftrightarrow> True"

text \<open>What a parser does on the rest of a valid text: it does not panic, and it stops where a valid text remains.\<close>

definition sound :: "bytes \<Rightarrow> ('a \<Rightarrow> bool) \<Rightarrow> ('a \<times> nat) parsed \<Rightarrow> bool" where
  "sound src P m \<longleftrightarrow> m \<noteq> Parse_Panic \<and> (\<forall>v n. m = Parsed (v, n) \<longrightarrow> P v \<and> n \<le> length src \<and> utf8_valid (drop n src))"

lemma sound_bind:
  assumes "sound src P m" "\<And>v n. m = Parsed (v, n) \<Longrightarrow> P v \<Longrightarrow> n \<le> length src \<Longrightarrow> utf8_valid (drop n src) \<Longrightarrow> sound src Q (f (v, n))"
  shows "sound src Q (pbind m f)"
proof (cases m)
  case (Parsed r)
  then show ?thesis using assms by (cases r) (auto simp: sound_def)
qed (use assms in \<open>auto simp: sound_def\<close>)

lemma run_valid:
  assumes "utf8_valid (drop i src)" "i \<le> length src" "\<And>b. p b \<Longrightarrow> unat b < 128"
  shows "utf8_valid (drop (run_while p src i) src)" "run_while p src i \<le> length src"
proof -
  from run_while_iff [OF assms(2), of p "run_while p src i"]
  have r: "i \<le> run_while p src i" "run_while p src i \<le> length src" "\<forall>m. i \<le> m \<and> m < run_while p src i \<longrightarrow> p (src ! m)" by auto
  show "run_while p src i \<le> length src" by (rule r(2))
  show "utf8_valid (drop (run_while p src i) src)"
    using valid_skip [of i src "run_while p src i - i"] assms r by simp
qed

lemma skip_ws_valid:
  assumes "utf8_valid (drop i src)" "i \<le> length src"
  shows "utf8_valid (drop (skip_ws src i) src)" "skip_ws src i \<le> length src"
  unfolding skip_ws_def by (rule run_valid [OF assms]; auto simp: is_json_ws_def)+

lemma byte_valid:
  assumes "utf8_valid (drop i src)" "get_at src i = Some b" "unat b < 128"
  shows "utf8_valid (drop (Suc i) src)" "Suc i \<le> length src"
  using valid_step [of i src] assms by auto

lemma digits_valid:
  assumes "utf8_valid (drop i src)" "i \<le> length src"
  shows "utf8_valid (drop (run_while is_ascii_digit src i) src)" "run_while is_ascii_digit src i \<le> length src"
  by (rule run_valid [OF assms]; auto simp: is_ascii_digit_def)+

lemma number_valid:
  assumes v: "utf8_valid (drop i src)" and i: "i \<le> length src" and n: "number_end src i = Parsed n"
  shows "utf8_valid (drop n src)" "n \<le> length src"
proof -
  from n obtain a b where ab: "int_end src i = Parsed a" "frac_end src a = Parsed b" "exp_end src b = Parsed n" by (auto simp: number_end_def)
  let ?ok = "\<lambda>p. utf8_valid (drop p src) \<and> p \<le> length src"
  have step: "?ok p \<Longrightarrow> get_at src p = Some c \<Longrightarrow> unat c < 128 \<Longrightarrow> ?ok (Suc p)" for p c using byte_valid by blast
  have dig: "?ok p \<Longrightarrow> ?ok (run_while is_ascii_digit src p)" for p using digits_valid by blast
  have m: "?ok (i + skip_minus src i)" using v i step [of i 45] by (simp add: skip_minus_def)
  have a: "?ok a" using ab(1) dig [OF m] step [OF m, of 48] by (auto simp: int_end_alt split: option.splits if_splits)
  have b: "?ok b" using ab(2) a dig [of "Suc a"] step [OF a, of 46] by (auto simp: frac_end_def Let_def split: if_splits)
  have "?ok n"
  proof (cases "exp_here src b")
    case True
    then have s: "?ok (Suc b)" using step [OF b] by (auto simp: exp_here_def)
    have "?ok (b + exp_skip src b)" using s step [OF s, of 43] step [OF s, of 45] by (auto simp: exp_skip_def)
    then show ?thesis using ab(3) dig by (auto simp: exp_end_alt True split: if_splits)
  next
    case False
    then show ?thesis using ab(3) b by (simp add: exp_end_alt)
  qed
  then show "utf8_valid (drop n src)" "n \<le> length src" by auto
qed

lemma number_sound:
  assumes v: "utf8_valid (drop i src)" and i: "i \<le> length src"
  shows "sound src (json_ok fl) (parse_number fl src i)"
proof (cases "number_end src i")
  case (Parsed n)
  note nv = number_valid [OF v i Parsed]
  have le: "i \<le> n" using number_end_pos [OF Parsed] by simp
  have sl: "str_slice src i n = Parsed (slice i n src)" by (rule valid_slice [OF v nv(1) le nv(2)])
  have l: "length (slice i n src) = n - i" using nv(2) by simp
  have "occurs src i (slice i n src)" unfolding occurs_take l using i le nv(2) by (simp add: slice_def)
  then have "number_end (slice i n src) 0 = Parsed (length (slice i n src))" using number_end_occurs(2) [of src i] Parsed le l by simp
  then show ?thesis using Parsed sl nv by (auto simp: sound_def parse_number_def split: option.splits)
qed (auto simp: sound_def parse_number_def number_end_def int_end_def frac_end_def exp_end_def Let_def split: option.splits if_splits)

lemma string_loop_le: "string_loop src i out = Parsed (t, p) \<Longrightarrow> p \<le> length src"
proof (induction src i out rule: string_loop.induct)
  case (1 src pos out)
  from 1(2) show ?case
  proof (cases rule: string_loop_cases)
    case 1
    then show ?thesis by (auto simp: string_step_def split: option.splits if_splits)
  next
    case (2 c q)
    then show ?thesis using 1(1) [OF 2(1) refl refl 2(2)] by simp
  qed
qed

lemma string_sound:
  assumes "utf8_valid (drop i src)" "get_at src i = Some 34"
  shows "sound src utf8_valid (parse_string src i)"
  using parse_string_valid [OF assms(1)] assms(2) string_loop_le [of src "i + 1" "[]"]
  by (auto simp: sound_def parse_string_def)

lemma literal_sound:
  assumes v: "utf8_valid (drop i src)" and w: "\<forall>b \<in> set word. unat b < 128" and ok: "json_ok fl d"
  shows "sound src (json_ok fl) (json_literal src i word d)"
proof -
  have "utf8_valid (drop (i + length word) src)" if "slice i (i + length word) src = word" "i + length word \<le> length src"
    using valid_skip [OF v that(2)] w that nth_slice [of _ "i + length word" i src] by (metis add_diff_cancel_left' nth_mem)
  then show ?thesis using ok by (auto simp: sound_def json_literal_def Let_def)
qed

lemma scalar_sound:
  assumes v: "utf8_valid (drop i src)" and b: "get_at src i = Some b"
  shows "sound src (json_ok fl) (parse_scalar fl src i b)"
proof -
  have i: "i \<le> length src" using b by auto
  have w: "\<forall>b \<in> set (ascii ''true''). unat b < 128" "\<forall>b \<in> set (ascii ''false''). unat b < 128" "\<forall>b \<in> set (ascii ''null''). unat b < 128"
    by (simp_all add: ascii_def)
  have "sound src (json_ok fl) (pbind (parse_string src i) (\<lambda>(s, nxt). Parsed (JText s, nxt)))" if "b = 34"
    using string_sound [OF v] b that by (auto simp: sound_def)
  then show ?thesis
    using literal_sound [OF v w(1), of fl "JBool True"] literal_sound [OF v w(2), of fl "JBool False"] literal_sound [OF v w(3), of fl JNull]
      number_sound [OF v i, of fl]
    by (auto simp: parse_scalar_def) (simp add: sound_def)
qed

lemma after_sound:
  assumes "utf8_valid (drop i src)" "i \<le> length src" "unat close < 128"
  shows "sound src (\<lambda>_. True) (after_element src i close)"
proof -
  let ?p = "skip_ws src i"
  note w = skip_ws_valid [OF assms(1,2)]
  have s: "utf8_valid (drop (Suc ?p) src) \<and> Suc ?p \<le> length src" if "get_at src ?p = Some b" "unat b < 128" for b
    using byte_valid [OF w(1) that] by simp
  show ?thesis
  proof (cases "get_at src ?p")
    case (Some b)
    then show ?thesis
      using s [of b] skip_ws_valid [of "Suc ?p" src] assms(3) by (auto simp: after_element_def sound_def Let_def)
  qed (simp add: after_element_def sound_def Let_def)
qed

lemma key_sound:
  assumes "utf8_valid (drop i src)"
  shows "sound src utf8_valid (member_key src i)"
proof (cases "get_at src i = Some 34")
  case True
  note st = string_sound [OF assms True]
  show ?thesis
  proof (cases "parse_string src i")
    case (Parsed r)
    obtain k n where r: "r = (k, n)" by (cases r)
    have n: "utf8_valid k" "utf8_valid (drop n src)" "n \<le> length src" using st Parsed r by (auto simp: sound_def)
    note w = skip_ws_valid [OF n(2,3)]
    show ?thesis
      using True Parsed r n(1) byte_valid [OF w(1), of 58] skip_ws_valid [of "Suc (skip_ws src n)" src]
      by (auto simp: member_key_def sound_def Let_def)
  qed (use True st in \<open>auto simp: member_key_def sound_def\<close>)
qed (simp add: member_key_def sound_def)

lemma value_sound:
  "utf8_valid (drop i src) \<Longrightarrow> i \<le> length src \<Longrightarrow> sound src (json_ok fl) (parse_value fl src i)"
  "utf8_valid (drop i src) \<Longrightarrow> get_at src i = Some 91 \<Longrightarrow> sound src (json_ok fl) (parse_array fl src i)"
  "utf8_valid (drop i src) \<Longrightarrow> i \<le> length src \<Longrightarrow> \<forall>v \<in> set vs. json_ok fl v \<Longrightarrow> sound src (json_ok fl) (array_loop fl src i vs)"
  "utf8_valid (drop i src) \<Longrightarrow> get_at src i = Some 123 \<Longrightarrow> sound src (json_ok fl) (parse_object fl src i)"
  "utf8_valid (drop i src) \<Longrightarrow> i \<le> length src \<Longrightarrow> \<forall>(k, v) \<in> set ms. utf8_valid k \<and> json_ok fl v \<Longrightarrow> sound src (json_ok fl) (object_loop fl src i ms)"
proof (induction fl src i and fl src i and fl src i vs and fl src i and fl src i ms
    rule: parse_value_parse_array_array_loop_parse_object_object_loop.induct)
  case (1 fl src start)
  let ?p = "skip_ws src start"
  note w = skip_ws_valid [OF 1(3,4)]
  show ?case
  proof (cases "get_at src ?p")
    case (Some b)
    then show ?thesis using 1(1,2) [OF refl Some _ _ ] w scalar_sound [OF w(1) Some] by (simp add: parse_value.simps Let_def)
  qed (simp add: parse_value.simps sound_def)
next
  case (2 fl src start)
  note b = byte_valid [OF 2(2,3)]
  note w = skip_ws_valid [OF b]
  show ?case
    using 2(1) [OF _ refl] 2(3) w byte_valid [OF w(1), of 93] by (auto simp: parse_array.simps Let_def sound_def)
next
  case (3 fl src start items)
  show ?case unfolding array_loop.simps [of fl src start items]
  proof (rule sound_bind [OF 3(1) [OF 3(3,4)]], clarify)
    fix v n assume v: "parse_value fl src start = Parsed (v, n)" "json_ok fl v" "n \<le> length src" "utf8_valid (drop n src)"
    show "sound src (json_ok fl) (pbind (after_element src n 93) (\<lambda>(again, pos).
        if again then array_loop fl src pos (items @ [v]) else Parsed (JArray (items @ [v]), pos)))"
    proof (rule sound_bind [OF after_sound [OF v(4,3)]], simp, clarify)
      fix again p assume a: "after_element src n 93 = Parsed (again, p)" "p \<le> length src" "utf8_valid (drop p src)"
      show "sound src (json_ok fl) (if again then array_loop fl src p (items @ [v]) else Parsed (JArray (items @ [v]), p))"
        using 3(2) [OF v(1) refl a(1) refl _ a(3,2)] 3(5) v(2) a by (cases again) (auto simp: sound_def)
    qed
  qed
next
  case (4 fl src start)
  note b = byte_valid [OF 4(2,3)]
  note w = skip_ws_valid [OF b]
  show ?case
    using 4(1) [OF _ refl] 4(3) w byte_valid [OF w(1), of 125] by (auto simp: parse_object.simps Let_def sound_def)
next
  case (5 fl src start members)
  show ?case unfolding object_loop.simps [of fl src start members]
  proof (rule sound_bind [OF key_sound [OF 5(3)]], clarify)
    fix k q assume k: "member_key src start = Parsed (k, q)" "utf8_valid k" "q \<le> length src" "utf8_valid (drop q src)"
    show "sound src (json_ok fl) (pbind (parse_value fl src q) (\<lambda>(v, nxt). pbind (after_element src nxt 125) (\<lambda>(again, pos).
        if again then object_loop fl src pos (members @ [(k, v)]) else Parsed (JObject (members @ [(k, v)]), pos))))"
    proof (rule sound_bind [OF 5(1) [OF k(1) refl k(4,3)]], clarify)
      fix v n assume v: "parse_value fl src q = Parsed (v, n)" "json_ok fl v" "n \<le> length src" "utf8_valid (drop n src)"
      show "sound src (json_ok fl) (pbind (after_element src n 125) (\<lambda>(again, pos).
          if again then object_loop fl src pos (members @ [(k, v)]) else Parsed (JObject (members @ [(k, v)]), pos)))"
      proof (rule sound_bind [OF after_sound [OF v(4,3)]], simp, clarify)
        fix again p assume a: "after_element src n 125 = Parsed (again, p)" "p \<le> length src" "utf8_valid (drop p src)"
        show "sound src (json_ok fl) (if again then object_loop fl src p (members @ [(k, v)]) else Parsed (JObject (members @ [(k, v)]), p))"
          using 5(2) [OF k(1) refl v(1) refl a(1) refl _ a(3,2)] 5(5) k(2) v(2) a by (cases again) (auto simp: sound_def)
      qed
    qed
  qed
qed

section \<open>Reading a written document back\<close>

lemma write_append:
  "write_into v out = out @ json_write v" "write_items f vs out = out @ write_items f vs []" "write_members f ms out = out @ write_members f ms []"
proof -
  have a: "\<forall>pre. write_into v (pre @ out) = pre @ write_into v out" "\<forall>pre. write_items f vs (pre @ out) = pre @ write_items f vs out"
    "\<forall>pre. write_members f ms (pre @ out) = pre @ write_members f ms out" for v vs ms f out
    by (induction v out and f vs out and f ms out rule: write_into_write_items_write_members.induct)
      (auto simp: write_string_def split: if_splits)
  from a(1) [THEN spec, of v out "[]"] a(2) [THEN spec, of f vs out "[]"] a(3) [THEN spec, of f ms out "[]"]
  show "write_into v out = out @ json_write v" "write_items f vs out = out @ write_items f vs []" "write_members f ms out = out @ write_members f ms []"
    by (simp_all add: json_write_def)
qed

lemma json_write_simps:
  "json_write (JArray vs) = 91 # write_items True vs [] @ [93]" "json_write (JObject ms) = 123 # write_members True ms [] @ [125]"
  "write_items f (v # vs) [] = (if f then [] else [44]) @ json_write v @ write_items False vs []"
  "write_members f ((k, v) # ms) [] = (if f then [] else [44]) @ write_string k [] @ [58] @ json_write v @ write_members False ms []"
  "json_write (JText s) = write_string s []" "json_write (JInt n) = i64_to_text n" "json_write (JReal r s) = s"
  "json_write JNull = ascii ''null''" "json_write (JBool b) = ascii (if b then ''true'' else ''false'')"
  using write_append(2) [of True vs "[91]"] write_append(3) [of True ms "[123]"] write_append(2) [of False vs "json_write v"]
    write_append(2) [of False vs "44 # json_write v"] write_append(1) [of v "[44]"] write_string_append [of k "[44]"]
    write_append(1) [of v "write_string k [] @ [58]"] write_append(3) [of False ms "write_string k [] @ [58] @ json_write v"]
    write_append(1) [of v "44 # write_string k [] @ [58]"] write_append(3) [of False ms "44 # write_string k [] @ [58] @ json_write v"]
  by (simp_all add: json_write_def)

lemmas write_nil = write_items.simps(1) write_members.simps(1)
declare write_into.simps [simp del] write_items.simps [simp del] write_members.simps [simp del] write_nil [simp]

lemma skip_ws_here: "i < length src \<Longrightarrow> \<not> is_json_ws (src ! i) \<Longrightarrow> skip_ws src i = i" "skip_ws src (length src) = length src"
  by (simp_all add: skip_ws_def run_while_def Cons_nth_drop_Suc [symmetric])

lemma show_nat_lead: "0 < n \<Longrightarrow> hd (ascii (show_nat n)) \<noteq> 48"
proof (induction n rule: show_nat.induct)
  case (1 n)
  show ?case
  proof (cases "n < 10")
    case True
    then have "unat (hd (ascii (show_nat n))) = 48 + n" by (subst show_nat.simps) (simp add: ascii_def digit_byte)
    then show ?thesis using 1(2) by auto
  next
    case False
    have "show_nat n = show_nat (n div 10) @ [digit_char (n mod 10)]" using False by (subst show_nat.simps) simp
    moreover have "show_nat (n div 10) \<noteq> []" using show_nat_digits by blast
    ultimately show ?thesis using 1(1) [OF False] False by (simp add: ascii_def hd_append)
  qed
qed

lemma decimal_lead: "sint i \<noteq> 0 \<Longrightarrow> hd (decimal i) \<noteq> 48" "sint i = 0 \<Longrightarrow> decimal i = [48]"
  using show_nat_lead [of "nat \<bar>sint i\<bar>"] by (simp_all add: decimal_def) (simp add: show_nat.simps ascii_def digit_char_def)

lemma digits_end:
  assumes "list_all is_ascii_digit ds" "ds \<noteq> []" "hd ds \<noteq> 48 \<or> ds = [48]"
  shows "int_end ds 0 = Parsed (length ds)" "int_end (45 # ds) 0 = Parsed (Suc (length ds))"
proof -
  obtain d r where ds: "ds = d # r" using assms(2) by (cases ds) auto
  have d: "is_ascii_digit d" "d \<noteq> 45" "d = 48 \<Longrightarrow> r = []" using assms ds digit_not_space [of d] by auto
  have r: "run_while is_ascii_digit ds 0 = length ds" "run_while is_ascii_digit (45 # ds) (Suc 0) = Suc (length ds)"
    using assms(1) run_while_all [of is_ascii_digit 0 ds] run_while_all [of is_ascii_digit 1 "45 # ds"] by simp_all
  show "int_end ds 0 = Parsed (length ds)" "int_end (45 # ds) 0 = Parsed (Suc (length ds))"
    using d r ds by (auto simp: int_end_def)
qed

lemma integer_end: "number_end (i64_to_text i) 0 = Parsed (length (i64_to_text i))"
proof -
  have e: "frac_end xs (length xs) = Parsed (length xs)" "exp_end xs (length xs) = Parsed (length xs)" for xs
    by (simp_all add: frac_end_def exp_end_def)
  have "hd (decimal i) \<noteq> 48 \<or> decimal i = [48]" using decimal_lead by blast
  then have "int_end (i64_to_text i) 0 = Parsed (length (i64_to_text i))"
    using digits_end [OF decimal_spec(1,2) [of i]] by (simp add: i64_to_text_decimal)
  then show ?thesis by (simp add: number_end_def e)
qed

lemma number_first: "number_end s 0 = Parsed n \<Longrightarrow> s \<noteq> [] \<and> (hd s = 45 \<or> is_ascii_digit (hd s))"
  by (cases s) (auto simp: number_end_def int_end_def Let_def is_ascii_digit_def split: option.splits if_splits)

lemma number_written:
  assumes n: "number_end s 0 = Parsed (length s)" and o: "occurs src i s" and st: "stops src (i + length s)"
  shows "parse_value fl src i = pbind (case parse_i64 s of Some k \<Rightarrow> Parsed (JInt k)
     | None \<Rightarrow> pbind (or_error (parse_f64 fl s)) (\<lambda>r. Parsed (JReal r s))) (\<lambda>v. Parsed (v, i + length s))"
proof -
  obtain b r where s: "s = b # r" "b = 45 \<or> is_ascii_digit b" using number_first [OF n] by (cases s) auto
  have i: "i < length src" "src ! i = b" using o s by auto
  have nb: "\<not> is_json_ws b" "b \<noteq> 123" "b \<noteq> 91" "b \<noteq> 34" "b \<noteq> 116" "b \<noteq> 102" "b \<noteq> 110" "\<not> utf8_cont b"
    using s(2) by (auto simp: is_json_ws_def is_ascii_digit_def in_range_def)
  have "char_boundary src i" using i nb by (simp add: char_boundary_def)
  moreover have "char_boundary src (i + length s)"
    using st occurs_bound [OF o] by (cases "i + length s < length src") (auto simp: stops_def char_boundary_def in_range_def)
  ultimately have "str_slice src i (i + length s) = Parsed s" using occurs_bound [OF o] occurs_slice [OF o] by (simp add: str_slice_def)
  then have "parse_number fl src i = pbind (case parse_i64 s of Some k \<Rightarrow> Parsed (JInt k)
     | None \<Rightarrow> pbind (or_error (parse_f64 fl s)) (\<lambda>r. Parsed (JReal r s))) (\<lambda>v. Parsed (v, i + length s))"
    using number_end_occurs(1) [OF o n st] by (simp add: parse_number_def)
  then show ?thesis using i nb s(2) by (simp add: parse_value.simps [of fl src i] skip_ws_here parse_scalar_def)
qed

definition reads_back :: "float_lib \<Rightarrow> json \<Rightarrow> bool" where
  "reads_back fl v \<longleftrightarrow> (\<exists>b r. json_write v = b # r \<and> \<not> is_json_ws b \<and> b \<noteq> 93) \<and>
     (\<forall>src i. occurs src i (json_write v) \<longrightarrow> stops src (i + length (json_write v)) \<longrightarrow>
        parse_value fl src i = Parsed (v, i + length (json_write v)))"

lemma reads_back_first: "reads_back fl v \<Longrightarrow> occurs src i (json_write v) \<Longrightarrow> i < length src \<and> skip_ws src i = i \<and> src ! i \<noteq> 93"
  using skip_ws_here(1) [of i src] by (auto simp: reads_back_def)

lemma after_written:
  assumes "occurs src i [b]" "b = 44 \<or> b = close" "\<not> is_json_ws close"
  shows "after_element src i close = Parsed (if b = 44 then (True, skip_ws src (Suc i)) else (False, Suc i))"
  using assms skip_ws_here(1) [of i src] by (auto simp: after_element_def is_json_ws_def)

lemma items_written:
  assumes "\<forall>u \<in> set (v # vs). reads_back fl u" "occurs src i (json_write v @ write_items False vs [] @ [93])"
  shows "array_loop fl src i acc = Parsed (JArray (acc @ v # vs), i + length (json_write v @ write_items False vs []) + 1)"
  using assms
proof (induction vs arbitrary: v i acc)
  case Nil
  let ?n = "i + length (json_write v)"
  have o: "occurs src ?n [93]" and p: "occurs src i (json_write v)" using Nil.prems(2) by auto
  have "parse_value fl src i = Parsed (v, ?n)" using Nil.prems(1) o p by (auto simp: reads_back_def stops_def)
  then show ?case using after_written [OF o, of 93] by (simp add: array_loop.simps [of fl src i] is_json_ws_def)
next
  case (Cons u us)
  let ?n = "i + length (json_write v)"
  have p: "occurs src i (json_write v)" and o: "occurs src ?n [44]" and r: "occurs src (Suc ?n) (json_write u @ write_items False us [] @ [93])"
    using Cons.prems(2) by (auto simp: json_write_simps(3) add.assoc)
  have "parse_value fl src i = Parsed (v, ?n)" using Cons.prems(1) o p by (auto simp: reads_back_def stops_def)
  moreover have "skip_ws src (Suc ?n) = Suc ?n" using reads_back_first [of fl u src "Suc ?n"] Cons.prems(1) r by simp
  ultimately show ?case
    using after_written [OF o, of 93] Cons.IH [of u "Suc ?n" "acc @ [v]"] Cons.prems(1) r
    by (simp add: array_loop.simps [of fl src i] is_json_ws_def json_write_simps(3) add.assoc)
qed

lemma key_written:
  assumes k: "utf8_valid k" and v: "reads_back fl v" and o: "occurs src i (write_string k [] @ [58] @ json_write v)"
  shows "member_key src i = Parsed (k, i + length (write_string k []) + 1)"
proof -
  let ?n = "i + length (write_string k [])"
  have s: "parse_string src i = Parsed (k, ?n)" using parse_string_written [OF k] o by simp
  have i: "get_at src i = Some 34" using o by (simp add: write_string_def)
  have c: "?n < length src" "src ! ?n = 58" and w: "occurs src (Suc ?n) (json_write v)" using o by auto
  then have "skip_ws src ?n = ?n" using skip_ws_here(1) [of ?n src] by (simp add: is_json_ws_def)
  then show ?thesis using i s c reads_back_first [OF v w] by (simp add: member_key_def)
qed

lemma members_written:
  assumes "\<forall>(k, u) \<in> set ((k, v) # ms). utf8_valid k \<and> reads_back fl u"
    "occurs src i (write_string k [] @ [58] @ json_write v @ write_members False ms [] @ [125])"
  shows "object_loop fl src i acc = Parsed (JObject (acc @ (k, v) # ms), i + length (write_string k [] @ [58] @ json_write v @ write_members False ms []) + 1)"
  using assms
proof (induction ms arbitrary: k v i acc)
  case Nil
  let ?q = "i + length (write_string k []) + 1"
  let ?n = "?q + length (json_write v)"
  have o: "occurs src ?n [125]" and p: "occurs src ?q (json_write v)" using Nil.prems(2) by auto
  have m: "member_key src i = Parsed (k, ?q)" using key_written [of k fl v src i] Nil.prems by simp
  have "parse_value fl src ?q = Parsed (v, ?n)" using Nil.prems(1) o p by (auto simp: reads_back_def stops_def)
  then show ?case using m after_written [OF o, of 125] by (simp add: object_loop.simps [of fl src i] is_json_ws_def)
next
  case (Cons kv ms)
  obtain l u where kv: "kv = (l, u)" by (cases kv)
  let ?q = "i + length (write_string k []) + 1"
  let ?n = "?q + length (json_write v)"
  have p: "occurs src ?q (json_write v)" and o: "occurs src ?n [44]"
    and r: "occurs src (Suc ?n) (write_string l [] @ [58] @ json_write u @ write_members False ms [] @ [125])"
    using Cons.prems(2) by (auto simp: json_write_simps(4) kv add.assoc)
  have m: "member_key src i = Parsed (k, ?q)" using key_written [of k fl v src i] Cons.prems by simp
  have "parse_value fl src ?q = Parsed (v, ?n)" using Cons.prems(1) o p by (auto simp: reads_back_def stops_def)
  moreover have "skip_ws src (Suc ?n) = Suc ?n" using skip_ws_here(1) [of "Suc ?n" src] r by (simp add: write_string_def is_json_ws_def)
  ultimately show ?case
    using m after_written [OF o, of 125] Cons.IH [of l u "Suc ?n" "acc @ [(k, v)]"] Cons.prems(1) r
    by (simp add: object_loop.simps [of fl src i] is_json_ws_def json_write_simps(4) kv add.assoc)
qed

lemma literal_reads_back:
  assumes w: "json_write v = b # w" and p: "\<And>src i. parse_scalar fl src i b = json_literal src i (b # w) v" and b: "b \<in> {116, 102, 110}"
  shows "reads_back fl v"
proof -
  have "parse_value fl src i = Parsed (v, i + length (b # w))" if o: "occurs src i (b # w)" for src i
  proof -
    have i: "i < length src" "src ! i = b" using o by auto
    have "get_range src i (i + length (b # w)) = Some (b # w)" using occurs_slice [OF o] occurs_bound [OF o] by (metis get_range_Some_iff le_add1)
    then have "json_literal src i (b # w) v = Parsed (v, i + length (b # w))" by (simp add: json_literal_def del: get_range_Some_iff)
    then show ?thesis using i b p skip_ws_here(1) [of i src] by (auto simp: parse_value.simps [of fl src i] is_json_ws_def)
  qed
  then show ?thesis using b by (auto simp: reads_back_def w is_json_ws_def)
qed

lemma container_reads_back:
  "\<forall>v \<in> set vs. reads_back fl v \<Longrightarrow> reads_back fl (JArray vs)"
  "\<forall>(k, v) \<in> set ms. utf8_valid k \<and> reads_back fl v \<Longrightarrow> reads_back fl (JObject ms)"
proof -
  assume vs: "\<forall>v \<in> set vs. reads_back fl v"
  have "parse_value fl src i = Parsed (JArray vs, i + length (json_write (JArray vs)))" if o: "occurs src i (json_write (JArray vs))" for src i
  proof -
    have i: "i < length src" "src ! i = 91" "skip_ws src i = i" using o skip_ws_here(1) [of i src] by (auto simp: json_write_simps is_json_ws_def)
    have "parse_array fl src i = Parsed (JArray vs, i + length (json_write (JArray vs)))"
    proof (cases vs)
      case Nil
      then show ?thesis using o i skip_ws_here(1) [of "Suc i" src] by (simp add: parse_array.simps [of fl src i] json_write_simps is_json_ws_def)
    next
      case (Cons v us)
      have r: "occurs src (Suc i) (json_write v @ write_items False us [] @ [93])" using o Cons by (simp add: json_write_simps)
      have f: "Suc i < length src" "skip_ws src (Suc i) = Suc i" "src ! Suc i \<noteq> 93" using reads_back_first [of fl v src "Suc i"] vs r Cons by auto
      then show ?thesis using items_written [of v us fl src "Suc i" "[]"] vs r Cons i by (simp add: parse_array.simps [of fl src i] json_write_simps)
    qed
    then show ?thesis using i by (simp add: parse_value.simps [of fl src i])
  qed
  then show "reads_back fl (JArray vs)" by (auto simp: reads_back_def json_write_simps is_json_ws_def)
next
  assume ms: "\<forall>(k, v) \<in> set ms. utf8_valid k \<and> reads_back fl v"
  have "parse_value fl src i = Parsed (JObject ms, i + length (json_write (JObject ms)))" if o: "occurs src i (json_write (JObject ms))" for src i
  proof -
    have i: "i < length src" "src ! i = 123" "skip_ws src i = i" using o skip_ws_here(1) [of i src] by (auto simp: json_write_simps is_json_ws_def)
    have "parse_object fl src i = Parsed (JObject ms, i + length (json_write (JObject ms)))"
    proof (cases ms)
      case Nil
      then show ?thesis using o i skip_ws_here(1) [of "Suc i" src] by (simp add: parse_object.simps [of fl src i] json_write_simps is_json_ws_def)
    next
      case (Cons kv us)
      obtain k v where kv: "kv = (k, v)" by (cases kv)
      have r: "occurs src (Suc i) (write_string k [] @ [58] @ json_write v @ write_members False us [] @ [125])" using o Cons kv by (simp add: json_write_simps)
      have f: "Suc i < length src" "src ! Suc i = 34" using r by (auto simp: write_string_def)
      then have "skip_ws src (Suc i) = Suc i" using skip_ws_here(1) [of "Suc i" src] by (simp add: is_json_ws_def)
      then show ?thesis using f members_written [of k v us fl src "Suc i" "[]"] ms r Cons kv i
        by (simp add: parse_object.simps [of fl src i] json_write_simps)
    qed
    then show ?thesis using i by (simp add: parse_value.simps [of fl src i])
  qed
  then show "reads_back fl (JObject ms)" by (auto simp: reads_back_def json_write_simps is_json_ws_def)
qed

lemma number_reads_back:
  assumes "json_write v = s" "number_end s 0 = Parsed (length s)"
    "(case parse_i64 s of Some k \<Rightarrow> Parsed (JInt k) | None \<Rightarrow> pbind (or_error (parse_f64 fl s)) (\<lambda>r. Parsed (JReal r s))) = Parsed v"
  shows "reads_back fl v"
proof -
  obtain b r where "s = b # r" "b = 45 \<or> is_ascii_digit b" using number_first [OF assms(2)] by (cases s) auto
  moreover have "b = 45 \<or> is_ascii_digit b \<Longrightarrow> \<not> is_json_ws b \<and> b \<noteq> 93" for b by (auto simp: is_json_ws_def is_ascii_digit_def)
  ultimately show ?thesis using number_written [OF assms(2), of _ _ fl] assms(1,3) by (auto simp: reads_back_def)
qed

lemma text_reads_back: "utf8_valid s \<Longrightarrow> reads_back fl (JText s)"
proof -
  assume s: "utf8_valid s"
  have "parse_value fl src i = Parsed (JText s, i + length (write_string s []))" if o: "occurs src i (write_string s [])" for src i
  proof -
    have "i < length src" "src ! i = 34" using o by (auto simp: write_string_def)
    then show ?thesis using parse_string_written [OF s o] skip_ws_here(1) [of i src]
      by (simp add: parse_value.simps [of fl src i] is_json_ws_def parse_scalar_def)
  qed
  then show ?thesis by (auto simp: reads_back_def json_write_simps) (simp add: write_string_def is_json_ws_def)
qed

lemma ok_reads_back: "json_ok fl v \<Longrightarrow> reads_back fl v"
proof (induction fl v rule: json_ok.induct)
  case (1 fl r s)
  then show ?case by (intro number_reads_back [of _ s]) (auto simp: json_write_simps or_error_def)
next
  case (3 fl vs)
  then show ?case by (intro container_reads_back) auto
next
  case (4 fl ms)
  then show ?case by (intro container_reads_back) fastforce
next
  case (5 fl)
  show ?case by (rule literal_reads_back [of _ 110 "[117, 108, 108]"]) (simp_all add: json_write_simps ascii_def parse_scalar_def)
next
  case (6 fl b)
  show ?case
    by (cases b; rule literal_reads_back [of _ "if b then 116 else 102" "if b then [114, 117, 101] else [97, 108, 115, 101]"])
      (simp_all add: json_write_simps ascii_def parse_scalar_def)
next
  case (7 fl i)
  show ?case by (rule number_reads_back [OF _ integer_end]) (auto simp: json_write_simps parse_i64_roundtrip)
qed (simp add: text_reads_back)

lemma write_parse: "json_ok fl v \<Longrightarrow> json_parse fl (json_write v) = Parsed v"
proof -
  assume "json_ok fl v"
  then have r: "reads_back fl v" by (rule ok_reads_back)
  have o: "occurs (json_write v) 0 (json_write v)" by (rule occurs_whole)
  have "parse_value fl (json_write v) 0 = Parsed (v, length (json_write v))" using r o by (auto simp: reads_back_def stops_def)
  then show ?thesis using reads_back_first [OF r o] by (simp add: json_parse_def skip_ws_here)
qed

end
