(* ===== verification/Json_Props.thy ===== *)
theory Json_Props
  imports Json_Doc
begin

text \<open>
  The JSON functions: parsing is safe and survives a round trip, and writing at a path follows its
  mode.
\<close>

section \<open>Safety\<close>

lemma parse_safe: "utf8_valid s \<Longrightarrow> json_parse fl s \<noteq> Parse_Panic"
  and parse_ok: "utf8_valid s \<Longrightarrow> json_parse fl s = Parsed v \<Longrightarrow> json_ok fl v"
  using value_sound(1) [of "skip_ws s 0" s fl] skip_ws_valid [of 0 s]
  by (auto simp: json_parse_def sound_def split: if_splits)

lemma one_char_cont: "one_char ch \<Longrightarrow> 0 < m \<Longrightarrow> m < length ch \<Longrightarrow> utf8_cont (ch ! m)"
proof -
  assume c: "one_char ch" and m: "0 < m" "m < length ch"
  then have v: "utf8_valid ch" "ch \<noteq> []" "length ch = char_width (hd ch)" by (auto simp: one_char_def)
  from v(1,2) show ?thesis
  proof (rule valid_char_cases)
    fix a r assume "ch = a # r" "unat a < 128"
    then show ?thesis using v(3) m char_width_cases(1) by simp
  next
    fix a b r assume "ch = a # b # r" "utf8_two a b"
    then show ?thesis using v(3) m char_width_cases(2) by (auto simp: utf8_two_def less_Suc_eq)
  next
    fix a b c r assume "ch = a # b # c # r" "utf8_three a b c"
    then show ?thesis using v(3) m char_width_cases(3) by (auto simp: utf8_three_def in_range_def less_Suc_eq)
  next
    fix a b c d r assume "ch = a # b # c # d # r" "utf8_four a b c d"
    then show ?thesis using v(3) m char_width_cases(4) by (auto simp: utf8_four_def in_range_def less_Suc_eq)
  qed
qed

lemma valid_from: "utf8_valid (drop i s) \<Longrightarrow> i \<le> j \<Longrightarrow> j = length s \<or> j < length s \<and> \<not> utf8_cont (s ! j) \<Longrightarrow> utf8_valid (drop j s)"
proof (induction "j - i" arbitrary: i rule: less_induct)
  case less
  show ?case
  proof (cases "i = j \<or> length s \<le> i")
    case False
    then have i: "i < j" "i < length s" using less(3) by auto
    let ?w = "char_width (s ! i)"
    have d: "drop i s = s ! i # drop (Suc i) s" by (simp add: Cons_nth_drop_Suc i(2))
    note h = valid_head [OF less(2) [unfolded d], folded d]
    have w: "0 < ?w" by (simp add: char_width_def)
    let ?ch = "take ?w (drop i s)"
    have l: "length ?ch = ?w" using h(1) i(2) by (simp add: one_char_def hd_drop_conv_nth w)
    have "i + ?w \<le> j"
    proof (rule ccontr)
      assume "\<not> i + ?w \<le> j"
      then have m: "0 < j - i" "j - i < length ?ch" using i l by auto
      then have "utf8_cont (s ! j)" using one_char_cont [OF h(1) m] i by simp
      then show False using less(4) m(2) i by auto
    qed
    then show ?thesis using less(1) [of "i + ?w"] h(2) w less(4) i by (simp add: add.commute)
  qed (use less in auto)
qed

lemma sound_error [simp]: "sound src P Parse_Error"
  by (simp add: sound_def)

lemma sound_result: "sound src P (Parsed (v, n)) \<longleftrightarrow> P v \<and> n \<le> length src \<and> utf8_valid (drop n src)"
  by (simp add: sound_def)

lemma key_step_sound:
  assumes v: "utf8_valid (drop i s)" "i \<le> length s"
  shows "sound s (\<lambda>_. True) (path_key s i)"
proof (cases "get_at s i = Some 34")
  case True
  have "sound s (\<lambda>_. True) (pbind (parse_string s i) (\<lambda>(key, nxt). Parsed (Key key, nxt)))"
    by (rule sound_bind [OF string_sound [OF v(1) True]]) (simp add: sound_result)
  then show ?thesis using True by (simp add: path_key_def)
next
  case False
  let ?n = "run_while (\<lambda>b. b \<noteq> 46 \<and> b \<noteq> 91) s i"
  from run_while_iff [OF v(2), of "\<lambda>b. b \<noteq> 46 \<and> b \<noteq> 91" ?n]
  have n: "i \<le> ?n" "?n \<le> length s" "?n < length s \<longrightarrow> s ! ?n = 46 \<or> s ! ?n = 91" by auto
  have d: "utf8_valid (drop ?n s)" by (rule valid_from [OF v(1) n(1)]) (use n in \<open>auto simp: in_range_def\<close>)
  have "str_slice s i ?n = Parsed (slice i ?n s)" by (rule valid_slice [OF v(1) d n(1,2)])
  then show ?thesis using False d n(2) unfolding path_key_def by (simp add: sound_result Let_def del: get_at_Some_iff)
qed

lemma digits_step_sound:
  assumes v: "utf8_valid (drop i s)" "i \<le> length s"
  shows "sound s (\<lambda>_. True) (path_digits s i)"
  using digits_valid [OF v] by (cases "parse_int 0 (2 ^ 64 - 1) (slice i (run_while is_ascii_digit s i) s)")
    (auto simp: path_digits_def Let_def sound_result or_error_def)

lemma index_step_sound:
  assumes v: "utf8_valid (drop i s)" "i \<le> length s"
  shows "sound s (\<lambda>_. True) (path_index s i)"
proof -
  have spec: "sound s (\<lambda>_. True) (pbind (path_digits s p) (\<lambda>(n, pos). Parsed (f n, pos)))" if "utf8_valid (drop p s)" "p \<le> length s" for p and f :: "nat \<Rightarrow> index_spec"
    by (rule sound_bind [OF digits_step_sound [OF that]]) (simp add: sound_result)
  have "sound s (\<lambda>_. True) (if get_at s i = Some 35
            then if get_at s (i + 1) = Some 45
                 then pbind (path_digits s (i + 2)) (\<lambda>(n, pos). Parsed (From_End n, pos))
                 else Parsed (Append, i + 1)
            else pbind (path_digits s i) (\<lambda>(n, pos). Parsed (Exact n, pos)))"
  proof (cases "get_at s i = Some 35")
    case True
    have h: "utf8_valid (drop (Suc i) s)" "Suc i \<le> length s" using byte_valid [OF v(1) True] by simp_all
    have m: "utf8_valid (drop (Suc (Suc i)) s)" "Suc (Suc i) \<le> length s" if "get_at s (Suc i) = Some 45" using byte_valid [OF h(1) that] by simp_all
    show ?thesis
    proof (cases "get_at s (Suc i) = Some 45")
      case minus: True
      show ?thesis using True minus spec [OF m [OF minus], of From_End] by (simp only: add_2_eq_Suc' Suc_eq_plus1 [symmetric] if_True simp_thms)
    next
      case False
      then show ?thesis using True h by (simp only: Suc_eq_plus1 [symmetric] if_True if_False sound_result simp_thms)
    qed
  next
    case False
    then show ?thesis using spec [OF v, of Exact] by (simp only: if_False)
  qed
  then show ?thesis unfolding path_index_def
  proof (rule sound_bind, clarify)
    fix st p assume p: "p \<le> length s" "utf8_valid (drop p s)"
    show "sound s (\<lambda>_. True) (if get_at s p \<noteq> Some 93 then Parse_Error else Parsed (Index st, p + 1))"
      using byte_valid [OF p(2), of 93] by (cases "get_at s p = Some 93") (simp_all add: sound_result del: get_at_Some_iff)
  qed
qed

lemma path_loop_safe: "utf8_valid (drop i s) \<Longrightarrow> i \<le> length s \<Longrightarrow> path_loop s i steps \<noteq> Parse_Panic"
proof (induction s i steps rule: path_loop.induct)
  case (1 s i steps)
  let ?m = "if s ! i = 46 then path_key s (i + 1) else if s ! i = 91 then path_index s (i + 1) else Parse_Error"
  show ?case
  proof (cases "i < length s")
    case True
    have d: "utf8_valid (drop (i + 1) s)" "i + 1 \<le> length s" if "s ! i = 46 \<or> s ! i = 91" using valid_step [OF 1(2) True] that True by auto
    have m: "sound s (\<lambda>_. True) ?m" using key_step_sound [OF d] index_step_sound [OF d] by simp
    have e: "path_loop s i steps = pbind ?m (\<lambda>(st, pos). path_loop s pos (steps @ [st]))" using True by (subst path_loop.simps) simp
    show ?thesis
    proof (cases ?m)
      case (Parsed r)
      obtain st n where r: "r = (st, n)" by (cases r)
      have n: "utf8_valid (drop n s)" "n \<le> length s" using m [unfolded Parsed r sound_result] by auto
      have "path_loop s i steps = path_loop s n (steps @ [st])" unfolding e Parsed r by simp
      then show ?thesis using 1(1) [OF True Parsed r [symmetric] n] by simp
    next
      case Parse_Error
      then show ?thesis unfolding e by simp
    next
      case Parse_Panic
      then show ?thesis using m by (simp add: sound_def)
    qed
  qed (simp add: path_loop.simps)
qed

lemma parse_path_safe: "utf8_valid s \<Longrightarrow> parse_path s \<noteq> Parse_Panic"
  using path_loop_safe [of 1 s "[]"] valid_step [of 0 s] by (auto simp: parse_path_def Suc_le_eq)

section \<open>Writing at a path\<close>

lemma member_at_in: "member_at key ms = Some p \<Longrightarrow> p < length ms \<and> fst (ms ! p) = key"
  by (induction key ms arbitrary: p rule: member_at.induct) (auto split: if_splits)

lemma find_member: "find (\<lambda>(k, _). k = key) ms = map_option (nth ms) (member_at key ms)"
  by (induction key ms rule: member_at.induct) (auto simp: option.map_comp comp_def)

lemma get_key:
  "json_get (JObject ms) (Key key # rest) = (case member_at key ms of None \<Rightarrow> None | Some p \<Rightarrow> json_get (snd (ms ! p)) rest)"
  by (auto simp: find_member split: option.split prod.split)

lemma member_at_updated: "member_at key ms = Some p \<Longrightarrow> member_at k (ms[p := (key, c)]) = member_at k ms"
  by (induction key ms arbitrary: p rule: member_at.induct) (auto split: if_splits)

lemma member_at_append: "member_at k (ms @ [(key, c)]) = (case member_at k ms of Some p \<Rightarrow> Some p | None \<Rightarrow> if k = key then Some (length ms) else None)"
  by (induction k ms rule: member_at.induct) (auto split: option.splits)

lemmas path_simps = get_key member_at_updated member_at_append

declare json_get.simps(2) [simp del]

lemma get_key_other [simp]: "\<forall>ms. doc \<noteq> JObject ms \<Longrightarrow> json_get doc (Key key # rest) = None"
  by (cases doc) (auto simp: json_get.simps(2))

lemma put_existing:
  "json_get doc path \<noteq> None \<Longrightarrow> mode \<noteq> Put_Insert \<Longrightarrow> \<exists>d. apply_put (Some doc) path v mode = Some d \<and> json_get d path = Some v"
proof (induction path arbitrary: doc)
  case (Cons st path)
  show ?case
  proof (cases st)
    case (Key key)
    from Cons.prems(1) Key obtain ms where doc: "doc = JObject ms" by (cases doc) auto
    then obtain p where p: "member_at key ms = Some p" "json_get (snd (ms ! p)) path \<noteq> None"
      using Cons.prems(1) Key by (auto simp: get_key split: option.splits)
    then show ?thesis using Cons.IH [OF p(2) Cons.prems(2)] member_at_in [OF p(1)] Key doc by (auto simp: path_simps)
  next
    case (Index spec)
    from Cons.prems(1) Index obtain vs where doc: "doc = JArray vs" by (cases doc) auto
    then obtain i where i: "resolve spec (length vs) = Some i" "i < length vs" "json_get (vs ! i) path \<noteq> None"
      using Cons.prems(1) Index by (auto split: option.splits)
    then show ?thesis using Cons.IH [OF i(3) Cons.prems(2)] Index doc by auto
  qed
qed simp

lemma replace_nothing: "apply_put None path v Put_Replace = None"
  by (cases path; cases "hd path") auto

lemma replace_absent: "json_get doc path = None \<Longrightarrow> apply_put (Some doc) path v Put_Replace = None"
proof (induction path arbitrary: doc)
  case (Cons st path)
  then show ?case by (cases st; cases doc) (auto simp: get_key split: option.splits if_splits)
qed simp

lemma insert_present: "json_get doc path \<noteq> None \<Longrightarrow> apply_put (Some doc) path v Put_Insert = None"
proof (induction path arbitrary: doc)
  case (Cons st path)
  then show ?case by (cases st; cases doc) (auto simp: get_key split: option.splits if_splits)
qed simp

lemma set_is_insert:
  "apply_put None path v Put_Set = apply_put None path v Put_Insert"
  "json_get doc path = None \<Longrightarrow> apply_put (Some doc) path v Put_Set = apply_put (Some doc) path v Put_Insert"
proof -
  show n: "apply_put None path v Put_Set = apply_put None path v Put_Insert" for path
  proof (induction path)
    case (Cons st path)
    then show ?case by (cases st) auto
  qed simp
  show "json_get doc path = None \<Longrightarrow> apply_put (Some doc) path v Put_Set = apply_put (Some doc) path v Put_Insert"
  proof (induction path arbitrary: doc)
    case (Cons st path)
    then show ?case by (cases st; cases doc) (auto simp: get_key n split: option.splits if_splits)
  qed simp
qed

text \<open>A member added under a new key and removed again.\<close>

lemma remove_nth_last: "remove_nth (length xs) (xs @ [x]) = xs"
  by (simp add: remove_nth_def)

lemma add_then_remove:
  assumes "json_get doc path = Some (JObject ms)" "member_at key ms = None"
  shows "\<exists>d. apply_put (Some doc) (path @ [Key key]) v Put_Set = Some d \<and> apply_remove d (path @ [Key key]) = Some doc"
  using assms(1)
proof (induction path arbitrary: doc)
  case Nil
  then show ?case using assms(2) by (simp add: path_simps remove_nth_last)
next
  case (Cons st path)
  show ?case
  proof (cases st)
    case (Key k)
    from Cons.prems Key obtain ns where doc: "doc = JObject ns" by (cases doc) auto
    then obtain p where p: "member_at k ns = Some p" "json_get (snd (ns ! p)) path = Some (JObject ms)"
      using Cons.prems Key by (auto simp: get_key split: option.splits)
    note m = member_at_in [OF p(1)]
    have "ns[p := (k, snd (ns ! p))] = ns" using m by (metis list_update_id prod.collapse)
    then show ?thesis using Cons.IH [OF p(2)] p(1) m Key doc by (auto simp: path_simps)
  next
    case (Index spec)
    from Cons.prems Index obtain vs where doc: "doc = JArray vs" by (cases doc) auto
    then obtain i where i: "resolve spec (length vs) = Some i" "i < length vs" "json_get (vs ! i) path = Some (JObject ms)"
      using Cons.prems Index by (auto split: option.splits)
    then show ?thesis using Cons.IH [OF i(3)] Index doc by auto
  qed
qed

lemma remove_iff: "apply_remove doc path = None \<longleftrightarrow> path = [] \<or> json_get doc path = None"
proof (induction path arbitrary: doc)
  case (Cons st path)
  then show ?case by (cases st; cases doc) (auto simp: get_key split: option.splits if_splits)
qed simp

section \<open>SQL values as documents\<close>

lemma ascii_valid: "list_all (\<lambda>b. unat b < 128) s \<Longrightarrow> utf8_valid s"
  by (induction s) (auto simp: valid_Cons)

lemma i64_text_valid: "utf8_valid (i64_to_text i)"
proof -
  have "list_all (\<lambda>b. unat b < 128) (decimal i)" using decimal_spec(1) [of i] by (auto simp: list_all_iff is_ascii_digit_def)
  then show ?thesis by (intro ascii_valid) (simp add: i64_to_text_decimal)
qed

text \<open>The texts the standard library makes are \<open>str\<close>s.\<close>

definition lib_texts :: "float_lib \<Rightarrow> bool" where
  "lib_texts fl \<longleftrightarrow> (\<forall>b. utf8_valid (utf8_lossy fl b)) \<and> (\<forall>r. utf8_valid (real_to_text fl r))"

lemma as_text_valid: "lib_texts fl \<Longrightarrow> value_ok v \<Longrightarrow> as_text fl v \<noteq> Panic \<and> (\<forall>s. as_text fl v = Ok s \<longrightarrow> utf8_valid s)"
  by (cases v) (auto simp: lib_texts_def i64_text_valid)

lemma json_doc_safe: "lib_texts fl \<Longrightarrow> value_ok v \<Longrightarrow> json_doc fl v \<noteq> Panic"
  using as_text_valid [of fl v] parse_safe by (auto simp: json_doc_def or_type_error_def split: parsed.splits)

lemma json_path_safe: "lib_texts fl \<Longrightarrow> value_ok v \<Longrightarrow> json_path_arg fl v \<noteq> Panic"
  using as_text_valid [of fl v] parse_path_safe by (auto simp: json_path_arg_def or_type_error_def split: parsed.splits)

lemma json_paths_safe: "lib_texts fl \<Longrightarrow> list_all value_ok vs \<Longrightarrow> json_paths fl vs ps \<noteq> Panic"
  by (induction vs arbitrary: ps) (auto dest: json_path_safe split: option.splits)

lemma json_remove_safe: "lib_texts fl \<Longrightarrow> list_all value_ok vs \<Longrightarrow> json_remove_paths fl doc vs \<noteq> Panic"
  by (induction vs arbitrary: doc) (auto dest: json_path_safe split: option.splits)

definition plain_lib :: float_lib where
  "plain_lib = \<lparr>parse_f64 = (\<lambda>_. None), fmt_sci = (\<lambda>_ _. []), fmt_fixed = (\<lambda>_ _. []),
     utf8_lossy = map (\<lambda>b. if unat b < 128 then b else 63), f64_add = (\<lambda>a _. a), f64_sub = (\<lambda>a _. a),
     f64_mul = (\<lambda>a _. a), f64_div = (\<lambda>a _. a)\<rparr>"

lemma plain_lib_texts: "lib_texts plain_lib"
proof -
  have "utf8_valid (utf8_lossy plain_lib b)" for b
    by (intro ascii_valid) (auto simp: plain_lib_def list_all_iff)
  moreover have "utf8_valid (real_to_text plain_lib r)" for r
    by (intro ascii_valid) (simp add: plain_lib_def real_to_text_def format_g_def ascii_def trim_fraction_def split_once_def)
  ultimately show ?thesis by (simp add: lib_texts_def)
qed

section \<open>Properties\<close>

text \<open>
  C30: a document survives being written: parsing any text and writing the result gives a text that
  parses to the same document, the spelling of its numbers included, so the SQL function \<open>json\<close>
  changes nothing the second time.
\<close>

theorem json_reparse:
  assumes "utf8_valid s" "json_parse fl s = Parsed v"
  shows "json_parse fl (json_write v) = Parsed v \<and> json_fn fl (Text s) = Ok (Text (json_write v)) \<and>
    json_fn fl (Text (json_write v)) = Ok (Text (json_write v))"
  using write_parse [OF parse_ok [OF assms]] assms(2) by (simp add: json_fn_def json_doc_def or_type_error_def)

theorem json_reparse_witness:
  "json_parse plain_lib (json_write (JArray [JBool True, JNull])) = Parsed (JArray [JBool True, JNull]) \<and>
   json_fn plain_lib (Text (ascii '' [ true,null]'')) = Ok (Text (json_write (JArray [JBool True, JNull]))) \<and>
   json_fn plain_lib (Text (json_write (JArray [JBool True, JNull]))) = Ok (Text (json_write (JArray [JBool True, JNull])))"
  by (rule json_reparse) code_simp+




text \<open>
  C37: removal takes effect exactly at the paths below the root that name a node, and removing a
  member just added restores the document.
\<close>

theorem json_remove_undoes_add:
  "(json_remove doc path = None \<longleftrightarrow> is_root path \<or> json_get doc path = None) \<and>
   (json_get doc path = Some (JObject ms) \<longrightarrow> key \<notin> fst ` set ms \<longrightarrow>
     json_remove (json_put doc (path @ [Key key]) v Put_Set) (path @ [Key key]) = Some doc)"
proof -
  have "member_at key ms = None" if "key \<notin> fst ` set ms"
    using member_at_in [of key ms] that by (cases "member_at key ms") (auto dest: nth_mem)
  then show ?thesis using remove_iff [of doc path] add_then_remove [of doc path ms key v] by (auto simp: json_remove_def json_put_def is_root_def)
qed

theorem json_remove_undoes_add_witness:
  "(json_remove (JObject []) [] = None \<longleftrightarrow> is_root [] \<or> json_get (JObject []) [] = None) \<and>
   json_get (JObject []) [] = Some (JObject []) \<and> ([97] :: bytes) \<notin> fst ` set ([] :: (bytes \<times> json) list) \<and>
   json_remove (json_put (JObject []) ([] @ [Key [97]]) (JInt 1) Put_Set) ([] @ [Key [97]]) = Some (JObject [])"
  using json_remove_undoes_add [of "JObject []" "[]" "[]" "[97]" "JInt 1"] by simp


end
