(* ===== verification/Order_Laws.thy ===== *)
theory Order_Laws
  imports Compare
begin

text \<open>
  What a client of a three-way comparison may rely on, as a locale, and what follows for sorting
  by it; the collating sequences and the storage-class order \<open>mem_cmp\<close> are instances. The slice
  method \<open>sort_by\<close> of the standard library is modelled by a stable insertion sort: on a
  consistent comparison every stable sort gives the same list.
\<close>

section \<open>Comparisons\<close>

locale comparator =
  fixes ordf :: "'a \<Rightarrow> 'a \<Rightarrow> ordering" and carrier :: "'a \<Rightarrow> bool"
  assumes same: "carrier a \<Longrightarrow> ordf a a = Equal"
    and flip: "carrier a \<Longrightarrow> carrier b \<Longrightarrow> ordf a b = Less \<longleftrightarrow> ordf b a = Greater"
    and le_trans: "carrier a \<Longrightarrow> carrier b \<Longrightarrow> carrier d \<Longrightarrow> ordf a b \<noteq> Greater \<Longrightarrow> ordf b d \<noteq> Greater \<Longrightarrow> ordf a d \<noteq> Greater"
begin

lemma equal_sym: "carrier a \<Longrightarrow> carrier b \<Longrightarrow> ordf a b = Equal \<longleftrightarrow> ordf b a = Equal"
  using flip [of a b] flip [of b a] by (cases "ordf a b"; cases "ordf b a") auto

lemma not_greater_flip: "carrier a \<Longrightarrow> carrier b \<Longrightarrow> ordf a b = Greater \<Longrightarrow> ordf b a \<noteq> Greater"
  using flip [of b a] by auto

lemma equal_trans:
  assumes "carrier a" "carrier b" "carrier d" "ordf a b = Equal" "ordf b d = Equal"
  shows "ordf a d = Equal"
proof -
  have "ordf a d \<noteq> Greater" using le_trans [of a b d] assms by simp
  moreover have "ordf d a \<noteq> Greater" using le_trans [of d b a] assms equal_sym [of a b] equal_sym [of b d] by simp
  ultimately show ?thesis using flip [of a d] assms by (cases "ordf a d") auto
qed

lemma le_less_trans:
  assumes "carrier a" "carrier b" "carrier d" "ordf a b \<noteq> Greater" "ordf b d = Less"
  shows "ordf a d = Less"
proof -
  have "ordf a d \<noteq> Greater" using le_trans [of a b d] assms by simp
  moreover have "ordf a d \<noteq> Equal"
  proof
    assume "ordf a d = Equal"
    then have "ordf d b \<noteq> Greater" using le_trans [of d a b] assms equal_sym [of a d] by simp
    then show False using assms flip [of b d] by simp
  qed
  ultimately show ?thesis by (cases "ordf a d") auto
qed

lemma less_le_trans:
  assumes "carrier a" "carrier b" "carrier d" "ordf a b = Less" "ordf b d \<noteq> Greater"
  shows "ordf a d = Less"
proof -
  have "ordf a d \<noteq> Greater" using le_trans [of a b d] assms by simp
  moreover have "ordf a d \<noteq> Equal"
  proof
    assume "ordf a d = Equal"
    then have "ordf b a \<noteq> Greater" using le_trans [of b d a] assms equal_sym [of a d] by simp
    then show False using assms flip [of a b] by simp
  qed
  ultimately show ?thesis by (cases "ordf a d") auto
qed

end

section \<open>Sorting\<close>

fun insert_by :: "('a \<Rightarrow> 'a \<Rightarrow> ordering) \<Rightarrow> 'a \<Rightarrow> 'a list \<Rightarrow> 'a list" where
  "insert_by f x [] = [x]"
| "insert_by f x (y # ys) = (if f x y = Greater then y # insert_by f x ys else x # y # ys)"

fun sort_by :: "('a \<Rightarrow> 'a \<Rightarrow> ordering) \<Rightarrow> 'a list \<Rightarrow> 'a list" where
  "sort_by f [] = []"
| "sort_by f (x # xs) = insert_by f x (sort_by f xs)"

lemma set_insert_by [simp]: "set (insert_by f x ys) = insert x (set ys)"
  by (induction ys) auto

lemma set_sort_by [simp]: "set (sort_by f xs) = set xs"
  by (induction xs) simp_all

lemma distinct_insert_by: "distinct (insert_by f x ys) \<longleftrightarrow> x \<notin> set ys \<and> distinct ys"
  by (induction ys) auto

lemma distinct_sort_by [simp]: "distinct (sort_by f xs) \<longleftrightarrow> distinct xs"
  by (induction xs) (auto simp: distinct_insert_by)

definition then_cmp :: "ordering \<Rightarrow> ordering \<Rightarrow> ordering" where
  "then_cmp a b = (if a = Equal then b else a)"

context comparator
begin

lemma insert_by_sorted:
  "carrier x \<Longrightarrow> (\<And>y. y \<in> set ys \<Longrightarrow> carrier y) \<Longrightarrow> sorted_wrt (\<lambda>a b. ordf a b \<noteq> Greater) ys \<Longrightarrow>
   sorted_wrt (\<lambda>a b. ordf a b \<noteq> Greater) (insert_by ordf x ys)"
proof (induction ys)
  case (Cons y ys)
  show ?case
  proof (cases "ordf x y = Greater")
    case True
    then have "ordf y x \<noteq> Greater" using Cons.prems not_greater_flip [of x y] by simp
    then show ?thesis using True Cons by auto
  next
    case False
    have "ordf x z \<noteq> Greater" if "z \<in> set ys" for z
      by (rule le_trans [of x y z]) (use that False Cons.prems in auto)
    then show ?thesis using False Cons.prems by auto
  qed
qed simp

lemma sort_by_sorted: "(\<And>x. x \<in> set xs \<Longrightarrow> carrier x) \<Longrightarrow> sorted_wrt (\<lambda>a b. ordf a b \<noteq> Greater) (sort_by ordf xs)"
proof (induction xs)
  case (Cons x xs)
  have "sorted_wrt (\<lambda>a b. ordf a b \<noteq> Greater) (insert_by ordf x (sort_by ordf xs))"
    by (rule insert_by_sorted) (use Cons in auto)
  then show ?case by simp
qed simp

end

text \<open>Indices compared by the value they point at, ties by the index.\<close>

definition by_index :: "('a \<Rightarrow> 'a \<Rightarrow> ordering) \<Rightarrow> (nat \<Rightarrow> 'a) \<Rightarrow> nat \<Rightarrow> nat \<Rightarrow> ordering" where
  "by_index f v a b = then_cmp (f (v a) (v b)) (cmp a b)"

lemma by_index_le: "by_index f v a b \<noteq> Greater \<longleftrightarrow> f (v a) (v b) = Less \<or> f (v a) (v b) = Equal \<and> a \<le> b"
  by (cases "f (v a) (v b)") (auto simp: by_index_def then_cmp_def)

locale keyed_comparator = comparator ordf carrier
  for ordf :: "'a \<Rightarrow> 'a \<Rightarrow> ordering" and carrier :: "'a \<Rightarrow> bool" +
  fixes v :: "nat \<Rightarrow> 'a"

sublocale keyed_comparator \<subseteq> index: comparator "by_index ordf v" "\<lambda>i. carrier (v i)"
proof
  fix a b d
  assume c: "carrier (v a)" "carrier (v b)"
  show "by_index ordf v a a = Equal" using same [OF c(1)] by (simp add: by_index_def then_cmp_def)
  show "by_index ordf v a b = Less \<longleftrightarrow> by_index ordf v b a = Greater"
    using flip [OF c] flip [OF c(2,1)] equal_sym [OF c]
    by (cases "ordf (v a) (v b)") (auto simp: by_index_def then_cmp_def)
  assume d: "carrier (v d)" and "by_index ordf v a b \<noteq> Greater" "by_index ordf v b d \<noteq> Greater"
  then have ab: "ordf (v a) (v b) = Less \<or> ordf (v a) (v b) = Equal \<and> a \<le> b"
    and bd: "ordf (v b) (v d) = Less \<or> ordf (v b) (v d) = Equal \<and> b \<le> d" by (simp_all only: by_index_le)
  have "ordf (v a) (v d) = Less \<or> ordf (v a) (v d) = Equal \<and> a \<le> d"
    using ab bd le_trans [OF c d] less_le_trans [OF c d] le_less_trans [OF c d] equal_trans [OF c d] by auto
  then show "by_index ordf v a d \<noteq> Greater" by (simp only: by_index_le)
qed

section \<open>The orders of the program\<close>

interpretation collated: comparator "compare c" "\<lambda>_. True" for c
  by unfold_locales (auto simp: compare_eq_cmp_fold)

interpretation stored: comparator "\<lambda>a b. mem_cmp a b c" consistent for c
proof
  fix a b d
  show "mem_cmp a a c = Equal" by simp
  show "mem_cmp a b c = Less \<longleftrightarrow> mem_cmp b a c = Greater" by (rule mem_cmp_antisym(1))
  assume "consistent a" "consistent b" "consistent d" "mem_cmp a b c \<noteq> Greater" "mem_cmp b d c \<noteq> Greater"
  from mem_cmp_consistent_trans [OF this] show "mem_cmp a d c \<noteq> Greater" by blast
qed

interpretation stored_at: keyed_comparator "\<lambda>a b. mem_cmp a b c" consistent v for c v
  by unfold_locales

section \<open>Properties\<close>

text \<open>
  a collating sequence compares two texts as their folded bytes compare, so that an index over
  folded bytes orders and matches exactly as the comparison does; folding twice changes nothing
  and keeps valid UTF-8 valid; and the tag a collation is stored under reads back as it, no other
  tag being accepted.
\<close>

theorem collation_folds:
  "compare c l r = cmp (fold_bytes c l) (fold_bytes c r) \<and>
   (compare c l r = Equal \<longleftrightarrow> fold_bytes c l = fold_bytes c r) \<and>
   fold_bytes c (fold_bytes c l) = fold_bytes c l \<and>
   (utf8_valid (fold_bytes c l) \<longleftrightarrow> utf8_valid l) \<and>
   from_tag (collation_tag c) = Ok c \<and> (from_tag t = Ok c \<longleftrightarrow> collation_tag c = t)"
  using tag_from_tag [of t c] by (auto simp: compare_eq_cmp_fold fold_bytes_utf8)

text \<open>
  the storage-class order is a total preorder on values without NaN whose integers a double
  holds exactly: it is reflexive, antisymmetric in its verdicts, transitive, strictly so when one
  step is strict, and equality under it is an equivalence.
\<close>

theorem sort_order_total_preorder:
  assumes "consistent a" "consistent b" "consistent d"
  shows "mem_cmp a a c = Equal \<and> (mem_cmp a b c = Less \<longleftrightarrow> mem_cmp b a c = Greater) \<and>
    (mem_cmp a b c \<noteq> Greater \<and> mem_cmp b d c \<noteq> Greater \<longrightarrow> mem_cmp a d c \<noteq> Greater) \<and>
    (mem_cmp a b c = Less \<and> mem_cmp b d c \<noteq> Greater \<longrightarrow> mem_cmp a d c = Less) \<and>
    (mem_cmp a b c = Equal \<and> mem_cmp b d c = Equal \<longrightarrow> mem_cmp a d c = Equal) \<and>
    (mem_cmp a b c = Equal \<longleftrightarrow> mem_cmp b a c = Equal)"
  using stored.same [OF assms(1), of c] stored.flip [OF assms(1,2), of c] stored.le_trans [OF assms, of c]
    stored.less_le_trans [OF assms, of c] stored.equal_trans [OF assms, of c] stored.equal_sym [OF assms(1,2), of c]
  by blast

theorem sort_order_total_preorder_witness:
  "consistent (Integer 3) \<and> mem_cmp Null (Integer 3) Binary = Less \<and> mem_cmp (Integer 3) (Text []) Binary = Less \<and>
   mem_cmp Null (Text []) Binary = Less"
proof -
  have c: "consistent Null" "consistent (Integer 3)" "consistent (Text [])"
    by (simp_all add: consistent_def f64_exact_def)
  have m: "mem_cmp Null (Integer 3) Binary = Less" "mem_cmp (Integer 3) (Text []) Binary = Less"
    by (simp_all add: mem_cmp_def cmp_def)
  with sort_order_total_preorder [OF c, of Binary] c(2) show ?thesis by simp
qed

end
