(* ===== verification/Aggregate.thy ===== *)
theory Aggregate
  imports Eval_Props Order_Laws
begin

text \<open>
  Aggregates (\<^verbatim>\<open>src/crates/inlaysql-core/src/eval.rs\<close>): \<open>AggFold\<close> with its \<open>new\<close>, \<open>step\<close> and
  \<open>finish\<close>, the \<open>DISTINCT\<close> pre-pass, \<open>GROUP_CONCAT\<close> and \<open>evaluate_aggregate\<close>. The counters are
  64-bit words and wrap. \<open>SUM\<close> over integers is the exact sum or the overflow error, \<open>MIN\<close> and
  \<open>MAX\<close> are the first least and first greatest value, \<open>DISTINCT\<close> keeps the first value of each
  class, and \<open>GROUP_CONCAT\<close> joins the rendered values.
\<close>

datatype agg_func = AggCount | AggSum | AggMin | AggMax | AggAvg | AggGroupConcat

record aggregate =
  agg_func :: agg_func
  agg_arg :: "expr option"
  agg_distinct :: bool
  agg_separator :: "expr option"
  agg_collation :: collation
  agg_filter :: "expr option"

datatype agg_fold =
    FCount i64
  | FSum bool bool bool i64 f64
  | FAvg f64 i64
  | FExtreme "sql_value option" bool collation

definition fold_new :: "aggregate \<Rightarrow> agg_fold option" where
  "fold_new a =
     (case agg_func a of
        AggCount \<Rightarrow> Some (FCount 0)
      | AggSum \<Rightarrow> Some (FSum False False False 0 0)
      | AggAvg \<Rightarrow> Some (FAvg 0 0)
      | AggMin \<Rightarrow> Some (FExtreme None False (agg_collation a))
      | AggMax \<Rightarrow> Some (FExtreme None True (agg_collation a))
      | AggGroupConcat \<Rightarrow> None)"

definition folds_from_values_alone :: "aggregate \<Rightarrow> bool" where
  "folds_from_values_alone a \<longleftrightarrow> fold_new a \<noteq> None"

definition numeric_error :: "string \<Rightarrow> db_error" where
  "numeric_error name = Type (''aggregate argument must be numeric, got '' @ name)"

text \<open>Whether \<open>MIN\<close> or \<open>MAX\<close> takes a new value over the running one.\<close>

definition takes :: "bool \<Rightarrow> collation \<Rightarrow> sql_value \<Rightarrow> sql_value option \<Rightarrow> bool" where
  "takes largest c value best =
     (case best of
        None \<Rightarrow> True
      | Some current \<Rightarrow> mem_cmp value current c = (if largest then Greater else Less))"

fun fold_step :: "float_lib \<Rightarrow> agg_fold \<Rightarrow> sql_value \<Rightarrow> agg_fold result" where
  "fold_step fl (FCount count) value = Ok (FCount (if value \<noteq> Null then count + 1 else count))"
| "fold_step fl (FSum any approximate overflowed integer real) value =
     (case value of
        Null \<Rightarrow> Ok (FSum any approximate overflowed integer real)
      | Integer i \<Rightarrow>
          (if approximate then Ok (FSum True True overflowed integer (f64_add fl real (i64_to_f64 i)))
           else case checked (sint integer + sint i) of
               Some s \<Rightarrow> Ok (FSum True False overflowed s real)
             | None \<Rightarrow> Ok (FSum True True True integer (f64_add fl (i64_to_f64 integer) (i64_to_f64 i))))
      | Real r \<Rightarrow>
          Ok (FSum True True overflowed integer (f64_add fl (if approximate then real else i64_to_f64 integer) r))
      | other \<Rightarrow> Err (numeric_error (type_name other)))"
| "fold_step fl (FAvg s count) value =
     (case value of
        Null \<Rightarrow> Ok (FAvg s count)
      | Integer i \<Rightarrow> Ok (FAvg (f64_add fl s (i64_to_f64 i)) (count + 1))
      | Real r \<Rightarrow> Ok (FAvg (f64_add fl s r) (count + 1))
      | other \<Rightarrow> Err (numeric_error (type_name other)))"
| "fold_step fl (FExtreme best largest c) value =
     Ok (if value = Null then FExtreme best largest c
         else FExtreme (if takes largest c value best then Some value else best) largest c)"

fun fold_finish :: "float_lib \<Rightarrow> agg_fold \<Rightarrow> sql_value result" where
  "fold_finish fl (FCount count) = Ok (Integer count)"
| "fold_finish fl (FSum any approximate overflowed integer real) =
     (if overflowed then Err (Type ''integer overflow'')
      else Ok (if \<not> any then Null else if approximate then Real real else Integer integer))"
| "fold_finish fl (FAvg s count) = Ok (if count = 0 then Null else Real (f64_div fl s (i64_to_f64 count)))"
| "fold_finish fl (FExtreme best largest c) = Ok (case best of Some v \<Rightarrow> v | None \<Rightarrow> Null)"

fun fold_steps :: "float_lib \<Rightarrow> agg_fold \<Rightarrow> sql_value list \<Rightarrow> agg_fold result" where
  "fold_steps fl f [] = Ok f"
| "fold_steps fl f (v # vs) = rbind (fold_step fl f v) (\<lambda>f. fold_steps fl f vs)"

section \<open>Distinct values\<close>

text \<open>The loop over the sorted indices: the first of each run is kept.\<close>

fun keep_loop :: "sql_value list \<Rightarrow> collation \<Rightarrow> nat list \<Rightarrow> nat option \<Rightarrow> bool list \<Rightarrow> bool list" where
  "keep_loop vs c [] previous keep = keep"
| "keep_loop vs c (i # ns) previous keep =
     (if (case previous of Some p \<Rightarrow> mem_cmp (vs ! p) (vs ! i) c = Equal | None \<Rightarrow> False)
      then keep_loop vs c ns previous keep
      else keep_loop vs c ns (Some i) (keep[i := True]))"

definition distinct_values :: "sql_value list \<Rightarrow> collation \<Rightarrow> sql_value list" where
  "distinct_values vs c =
     (let order = sort_by (by_index (\<lambda>a b. mem_cmp a b c) (\<lambda>i. vs ! i)) [0..<length vs];
          keep = keep_loop vs c order None (replicate (length vs) False)
      in map fst (filter snd (zip vs keep)))"

section \<open>Group concatenation\<close>

fun concat_loop :: "float_lib \<Rightarrow> bytes \<Rightarrow> sql_value list \<Rightarrow> bytes \<Rightarrow> bool \<Rightarrow> sql_value result" where
  "concat_loop fl sep [] out any = Ok (if any then Text out else Null)"
| "concat_loop fl sep (v # vs) out any =
     (if v = Null then concat_loop fl sep vs out any
      else rbind (as_text fl v) (\<lambda>s.
           rbind (check_length (length out + (if any then length sep else 0) + length s) ''group_concat()'') (\<lambda>_.
             concat_loop fl sep vs (out @ (if any then sep else []) @ s) True)))"

definition fold_group_concat :: "aggregate \<Rightarrow> sql_value list \<Rightarrow> sql_value list list \<Rightarrow> env \<Rightarrow> sql_value result" where
  "fold_group_concat a vs grp env =
     (case agg_separator a of
        None \<Rightarrow> concat_loop (e_lib env) (ascii '','') vs [] False
      | Some e \<Rightarrow>
          (case grp of
             [] \<Rightarrow> Ok Null
           | first # _ \<Rightarrow> rbind (evaluate (no_computed env) first e) (\<lambda>sep.
               if sep = Null then Ok Null
               else rbind (as_text (e_lib env) sep) (\<lambda>sep. concat_loop (e_lib env) sep vs [] False))))"

section \<open>Aggregates of a group\<close>

definition fold_aggregate_values :: "aggregate \<Rightarrow> sql_value list \<Rightarrow> sql_value list list \<Rightarrow> env \<Rightarrow> sql_value result" where
  "fold_aggregate_values a vs grp env =
     (let vs = (if agg_distinct a then distinct_values vs (agg_collation a) else vs)
      in case fold_new a of
           None \<Rightarrow> fold_group_concat a vs grp env
         | Some f \<Rightarrow> rbind (fold_steps (e_lib env) f vs) (fold_finish (e_lib env)))"

fun keep_rows :: "env \<Rightarrow> expr \<Rightarrow> sql_value list list \<Rightarrow> sql_value list list \<Rightarrow> sql_value list list result" where
  "keep_rows env predicate [] kept = Ok kept"
| "keep_rows env predicate (row # rows) kept =
     rbind (evaluate (no_computed env) row predicate) (\<lambda>v.
       keep_rows env predicate rows (if is_truthy (e_lib env) v then kept @ [row] else kept))"

definition evaluate_aggregate :: "aggregate \<Rightarrow> sql_value list list \<Rightarrow> env \<Rightarrow> sql_value result" where
  "evaluate_aggregate a grp env =
     rbind (case agg_filter a of Some predicate \<Rightarrow> keep_rows env predicate grp [] | None \<Rightarrow> Ok grp) (\<lambda>grp.
       case agg_arg a of
         None \<Rightarrow>
           (if agg_func a = AggCount then Ok (Integer (of_nat (length grp)))
            else Err (Type ''SUM/AVG/MIN/MAX/GROUP_CONCAT require an argument''))
       | Some arg \<Rightarrow>
           rbind (rmapM (\<lambda>row. evaluate (no_computed env) row arg) grp) (\<lambda>vs.
             fold_aggregate_values a vs grp env))"

section \<open>Distinct keeps the first of each class\<close>

text \<open>The reference: an index is kept when no earlier index holds an equal value.\<close>

definition first_of_class :: "sql_value list \<Rightarrow> collation \<Rightarrow> nat \<Rightarrow> bool" where
  "first_of_class vs c i \<longleftrightarrow> (\<forall>j < i. mem_cmp (vs ! j) (vs ! i) c \<noteq> Equal)"

definition distinct_ref :: "sql_value list \<Rightarrow> collation \<Rightarrow> sql_value list" where
  "distinct_ref vs c = map (\<lambda>i. vs ! i) (filter (first_of_class vs c) [0..<length vs])"

lemma zip_filter_index:
  "length ks = length vs \<Longrightarrow> map fst (filter snd (zip vs ks)) = map (\<lambda>i. vs ! i) (filter (\<lambda>i. ks ! i) [0..<length vs])"
proof (induction vs ks rule: rev_induct2)
  case (4 v vs k ks)
  have "map (\<lambda>i. (vs @ [v]) ! i) (filter (\<lambda>i. (ks @ [k]) ! i) [0..<length vs]) = map (\<lambda>i. vs ! i) (filter (\<lambda>i. ks ! i) [0..<length vs])"
    using 4 by (intro map_cong filter_cong) (auto simp: nth_append)
  then show ?case using 4 by (auto simp: nth_append)
qed simp_all

lemma length_keep_loop [simp]: "length (keep_loop vs c ns p keep) = length keep"
  by (induction ns arbitrary: p keep) (auto split: option.splits)

definition before :: "sql_value list \<Rightarrow> collation \<Rightarrow> nat \<Rightarrow> nat \<Rightarrow> bool" where
  "before vs c a b \<longleftrightarrow> mem_cmp (vs ! a) (vs ! b) c = Less \<or> mem_cmp (vs ! a) (vs ! b) c = Equal \<and> a < b"

lemma keep_loop_kept:
  assumes "\<And>v. v \<in> set vs \<Longrightarrow> consistent v" "\<And>i. i \<in> set ns \<Longrightarrow> i < length vs" "sorted_wrt (before vs c) ns" "distinct ns"
    "\<And>q. p = Some q \<Longrightarrow> q < length vs \<and> (\<forall>i \<in> set ns. before vs c q i)" "k < length keep" "length keep = length vs"
  shows "keep_loop vs c ns p keep ! k \<longleftrightarrow>
    keep ! k \<or> k \<in> set ns \<and> (\<forall>q. p = Some q \<longrightarrow> mem_cmp (vs ! q) (vs ! k) c \<noteq> Equal) \<and>
      (\<forall>j \<in> set ns. j < k \<longrightarrow> mem_cmp (vs ! j) (vs ! k) c \<noteq> Equal)"
  using assms(2-)
proof (induction "ns" arbitrary: p keep)
  case (Cons i ns)
  note con = assms(1) [OF nth_mem]
  have i: "i < length vs" "i \<notin> set ns" using Cons.prems by auto
  show ?case
  proof (cases "\<exists>q. p = Some q \<and> mem_cmp (vs ! q) (vs ! i) c = Equal")
    case True
    then obtain q where q: "p = Some q" "mem_cmp (vs ! q) (vs ! i) c = Equal" by blast
    then have ql: "q < length vs" using Cons.prems(4) by simp
    have IH: "keep_loop vs c ns p keep ! k \<longleftrightarrow>
      keep ! k \<or> k \<in> set ns \<and> (\<forall>q. p = Some q \<longrightarrow> mem_cmp (vs ! q) (vs ! k) c \<noteq> Equal) \<and>
      (\<forall>j \<in> set ns. j < k \<longrightarrow> mem_cmp (vs ! j) (vs ! k) c \<noteq> Equal)"
      using Cons.prems by (intro Cons.IH) auto
    have tr: "mem_cmp (vs ! q) (vs ! k) c = Equal" if "mem_cmp (vs ! i) (vs ! k) c = Equal" "k < length vs"
      using stored.equal_trans [OF con [OF ql] con [OF i(1)] con [OF that(2)] q(2) that(1)] .
    show ?thesis using IH q tr Cons.prems(5,6) by auto
  next
    case False
    have IH: "keep_loop vs c ns (Some i) (keep[i := True]) ! k \<longleftrightarrow>
      keep[i := True] ! k \<or> k \<in> set ns \<and> mem_cmp (vs ! i) (vs ! k) c \<noteq> Equal \<and>
      (\<forall>j \<in> set ns. j < k \<longrightarrow> mem_cmp (vs ! j) (vs ! k) c \<noteq> Equal)"
      using Cons.IH [of "Some i" "keep[i := True]"] Cons.prems by auto
    have step: "keep_loop vs c (i # ns) p keep = keep_loop vs c ns (Some i) (keep[i := True])"
      using False by (cases p) auto
    have later: "mem_cmp (vs ! q) (vs ! k) c \<noteq> Equal" if "p = Some q" "k \<in> set ns" for q
    proof -
      have k: "k < length vs" "before vs c i k" and q: "q < length vs" "before vs c q i" using that Cons.prems by auto
      have "mem_cmp (vs ! q) (vs ! i) c = Less" using False that(1) q(2) by (auto simp: before_def)
      moreover have "mem_cmp (vs ! i) (vs ! k) c \<noteq> Greater" using k(2) by (auto simp: before_def)
      ultimately show ?thesis using stored.less_le_trans [OF con [OF q(1)] con [OF i(1)] con [OF k(1)]] by simp
    qed
    have head: "mem_cmp (vs ! j) (vs ! i) c \<noteq> Equal" if "j \<in> set ns" "j < i" for j
      using that Cons.prems(2) by (auto simp: before_def mem_cmp_antisym(2) [of "vs ! j" "vs ! i"])
    have tail: "i < k" if "k \<in> set ns" "mem_cmp (vs ! i) (vs ! k) c = Equal" using that Cons.prems(2) by (auto simp: before_def)
    show ?thesis unfolding step IH
      using False later head tail i Cons.prems(5,6) by (cases "k = i") auto
  qed
qed simp

lemma sorted_indices:
  assumes "\<And>v. v \<in> set vs \<Longrightarrow> consistent v"
  shows "sorted_wrt (before vs c) (sort_by (by_index (\<lambda>a b. mem_cmp a b c) (\<lambda>i. vs ! i)) [0..<length vs])"
proof -
  let ?ns = "sort_by (by_index (\<lambda>a b. mem_cmp a b c) (\<lambda>i. vs ! i)) [0..<length vs]"
  have "sorted_wrt (\<lambda>a b. by_index (\<lambda>a b. mem_cmp a b c) (\<lambda>i. vs ! i) a b \<noteq> Greater) ?ns"
    by (rule stored_at.index.sort_by_sorted) (auto intro: assms)
  moreover have "distinct ?ns" by simp
  ultimately show ?thesis
    unfolding by_index_le by (auto simp: sorted_wrt_iff_nth_less before_def distinct_conv_nth le_less)
qed

lemma distinct_values_ref:
  assumes "\<And>v. v \<in> set vs \<Longrightarrow> consistent v"
  shows "distinct_values vs c = distinct_ref vs c"
proof -
  let ?ns = "sort_by (by_index (\<lambda>a b. mem_cmp a b c) (\<lambda>i. vs ! i)) [0..<length vs]"
  let ?keep = "keep_loop vs c ?ns None (replicate (length vs) False)"
  have "?keep ! k \<longleftrightarrow> first_of_class vs c k" if "k < length vs" for k
    using keep_loop_kept [where ns = ?ns and c = c and p = None and k = k and keep = "replicate (length vs) False" and vs = vs] sorted_indices [where vs = vs and c = c] assms that
    by (auto simp: first_of_class_def)
  then have "filter (\<lambda>i. ?keep ! i) [0..<length vs] = filter (first_of_class vs c) [0..<length vs]"
    by (intro filter_cong) auto
  then show ?thesis using zip_filter_index [of ?keep vs] by (simp add: distinct_values_def distinct_ref_def Let_def)
qed

section \<open>Sums\<close>

definition non_null :: "sql_value list \<Rightarrow> sql_value list" where
  "non_null vs = filter (\<lambda>v. v \<noteq> Null) vs"

fun int_values :: "sql_value list \<Rightarrow> int list" where
  "int_values [] = []"
| "int_values (Integer i # vs) = sint i # int_values vs"
| "int_values (_ # vs) = int_values vs"

text \<open>Every running total fits in 64 bits.\<close>

fun running_fits :: "int \<Rightarrow> int list \<Rightarrow> bool" where
  "running_fits acc [] = True"
| "running_fits acc (x # xs) \<longleftrightarrow> - (2 ^ 63) \<le> acc + x \<and> acc + x < 2 ^ 63 \<and> running_fits (acc + x) xs"

definition integral :: "sql_value \<Rightarrow> bool" where
  "integral v \<longleftrightarrow> v = Null \<or> (\<exists>i. v = Integer i)"

lemma sum_overflowed: "list_all integral vs \<Longrightarrow> \<exists>i r. fold_steps fl (FSum True True True n real) vs = Ok (FSum True True True i r)"
proof (induction vs arbitrary: real)
  case (Cons v vs)
  then show ?case by (auto simp: integral_def)
qed simp

lemma sum_steps:
  assumes "list_all integral vs"
  shows "if running_fits (sint n) (int_values vs)
    then \<exists>m. fold_steps fl (FSum any False False n 0) vs = Ok (FSum (any \<or> int_values vs \<noteq> []) False False m 0) \<and>
           sint m = sint n + sum_list (int_values vs)
    else \<exists>i r. fold_steps fl (FSum any False False n 0) vs = Ok (FSum True True True i r)"
  using assms
proof (induction vs arbitrary: n any)
  case (Cons v vs)
  show ?case
  proof (cases v)
    case (Integer i)
    show ?thesis
    proof (cases "checked (sint n + sint i)")
      case None
      then have nf: "\<not> running_fits (sint n) (int_values (v # vs))" by (auto simp: Integer checked_None)
      have "\<exists>i r. fold_steps fl (FSum any False False n 0) (v # vs) = Ok (FSum True True True i r)"
        using None Cons.prems sum_overflowed [of vs] by (simp add: Integer)
      then show ?thesis using nf by (simp only: if_False)
    next
      case (Some m)
      then have m: "sint m = sint n + sint i" "- (2 ^ 63) \<le> sint n + sint i \<and> sint n + sint i < 2 ^ 63"
        using checked_Some checked_None [of "sint n + sint i"] by auto
      show ?thesis using Cons.IH [of m True] Cons.prems Some m by (auto simp: Integer add.assoc split: if_splits)
    qed
  qed (use Cons in \<open>auto simp: integral_def split: if_splits\<close>)
qed simp

section \<open>Extremes\<close>

definition pick :: "('a \<Rightarrow> 'a \<Rightarrow> ordering) \<Rightarrow> 'a option \<Rightarrow> 'a \<Rightarrow> 'a option" where
  "pick f best v = (case best of None \<Rightarrow> Some v | Some r \<Rightarrow> if f v r = Less then Some v else best)"

lemma pick_simps: "pick f None v = Some v" "pick f (Some r) v = (if f v r = Less then Some v else Some r)"
  by (simp_all add: pick_def)

text \<open>The first of the least elements.\<close>

definition first_least :: "('a \<Rightarrow> 'a \<Rightarrow> ordering) \<Rightarrow> 'a list \<Rightarrow> 'a \<Rightarrow> bool" where
  "first_least f ws r \<longleftrightarrow>
     (\<exists>i < length ws. r = ws ! i \<and> (\<forall>j < length ws. f (ws ! j) r \<noteq> Less) \<and> (\<forall>j < i. f r (ws ! j) = Less))"

context comparator
begin

lemma pick_first_least:
  "(\<And>w. w \<in> set ws \<Longrightarrow> carrier w) \<Longrightarrow> ws \<noteq> [] \<Longrightarrow> \<exists>r. foldl (pick ordf) None ws = Some r \<and> first_least ordf ws r"
proof (induction ws rule: rev_induct)
  case (snoc v ws)
  show ?case
  proof (cases "ws = []")
    case True
    then show ?thesis using same [of v] snoc.prems by (auto simp: pick_def first_least_def)
  next
    case False
    then obtain r i where r: "foldl (pick ordf) None ws = Some r" "i < length ws" "r = ws ! i"
      "\<And>j. j < length ws \<Longrightarrow> ordf (ws ! j) r \<noteq> Less" "\<And>j. j < i \<Longrightarrow> ordf r (ws ! j) = Less"
      using snoc by (auto simp: first_least_def)
    have c: "carrier v" "carrier r" "\<And>j. j < length ws \<Longrightarrow> carrier (ws ! j)" using snoc.prems r(2,3) by auto
    show ?thesis
    proof (cases "ordf v r = Less")
      case True
      have "ordf v (ws ! j) = Less" if "j < length ws" for j
        using less_le_trans [OF c(1,2) c(3) [OF that] True] r(4) [OF that] flip [OF c(3) [OF that] c(2)] by auto
      moreover have "ordf (ws ! j) v \<noteq> Less" if "j < length ws" for j
        using calculation [OF that] flip [OF c(1) c(3) [OF that]] by auto
      ultimately have "first_least ordf (ws @ [v]) v"
        unfolding first_least_def using same [OF c(1)]
        by (intro exI [of _ "length ws"]) (auto simp: nth_append less_Suc_eq)
      then show ?thesis using r(1) True by (simp add: pick_simps)
    next
      case False
      then have "first_least ordf (ws @ [v]) r"
        unfolding first_least_def using r by (intro exI [of _ i]) (auto simp: nth_append less_Suc_eq)
      then show ?thesis using r(1) False by (simp add: pick_simps)
    qed
  qed
qed simp

end

interpretation stored_desc: comparator "\<lambda>a b. mem_cmp b a c" consistent for c
proof
  fix a b d
  show "mem_cmp a a c = Equal" by simp
  show "mem_cmp b a c = Less \<longleftrightarrow> mem_cmp a b c = Greater" by (rule mem_cmp_antisym(1))
  assume "consistent a" "consistent b" "consistent d" "mem_cmp b a c \<noteq> Greater" "mem_cmp d b c \<noteq> Greater"
  then show "mem_cmp d a c \<noteq> Greater" using stored.le_trans [of d b a c] by blast
qed

definition agg_order :: "bool \<Rightarrow> collation \<Rightarrow> sql_value \<Rightarrow> sql_value \<Rightarrow> ordering" where
  "agg_order largest c a b = (if largest then mem_cmp b a c else mem_cmp a b c)"

lemma takes_pick: "(if takes largest c v best then Some v else best) = pick (agg_order largest c) best v"
  by (auto simp: takes_def pick_def agg_order_def mem_cmp_antisym(1) split: option.splits)

lemma extreme_steps:
  "fold_steps fl (FExtreme best largest c) vs = Ok (FExtreme (foldl (pick (agg_order largest c)) best (non_null vs)) largest c)"
  by (induction vs arbitrary: best) (auto simp: non_null_def takes_pick)

lemma extreme_first:
  assumes "list_all consistent vs" "non_null vs \<noteq> []"
  shows "\<exists>r. foldl (pick (agg_order largest c)) None (non_null vs) = Some r \<and> first_least (agg_order largest c) (non_null vs) r"
proof -
  have "agg_order True c = (\<lambda>a b. mem_cmp b a c)" "agg_order False c = (\<lambda>a b. mem_cmp a b c)"
    by (auto simp: agg_order_def fun_eq_iff)
  moreover have "\<And>w. w \<in> set (non_null vs) \<Longrightarrow> consistent w" using assms(1) by (auto simp: non_null_def list_all_iff)
  ultimately show ?thesis
    using stored.pick_first_least [OF _ assms(2), of c] stored_desc.pick_first_least [OF _ assms(2), of c] by (cases largest) auto
qed

section \<open>Counts and concatenation\<close>

lemma count_steps: "fold_steps fl (FCount n) vs = Ok (FCount (n + of_nat (length (non_null vs))))"
  by (induction vs arbitrary: n) (auto simp: non_null_def)

fun join :: "bytes \<Rightarrow> bytes list \<Rightarrow> bytes" where
  "join sep [] = []"
| "join sep [t] = t"
| "join sep (t # ts) = t @ sep @ join sep ts"

definition tail_of :: "bytes \<Rightarrow> bytes list \<Rightarrow> bytes" where
  "tail_of sep ts = concat (map (\<lambda>t. sep @ t) ts)"

lemma join_tail: "join sep (t # ts) = t @ tail_of sep ts"
  by (induction ts arbitrary: t) (auto simp: tail_of_def)

lemma concat_loop_any:
  "rmapM (as_text fl) (non_null vs) = Ok ts \<Longrightarrow> length out \<le> MAX_LENGTH \<Longrightarrow>
   (if length (out @ tail_of sep ts) \<le> MAX_LENGTH then concat_loop fl sep vs out True = Ok (Text (out @ tail_of sep ts))
    else \<exists>m. concat_loop fl sep vs out True = Err (TooBig m))"
proof (induction vs arbitrary: out ts)
  case (Cons v vs)
  show ?case
  proof (cases "v = Null")
    case True
    then show ?thesis using Cons by (auto simp: non_null_def)
  next
    case False
    then obtain s us where s: "as_text fl v = Ok s" "rmapM (as_text fl) (non_null vs) = Ok us" "ts = s # us"
      using Cons.prems(1) by (auto simp: non_null_def)
    show ?thesis
    proof (cases "length (out @ sep @ s) \<le> MAX_LENGTH")
      case True
      then show ?thesis using False s Cons.IH [OF s(2) True] by (simp add: check_length_def tail_of_def add.assoc)
    next
      case big: False
      then show ?thesis using False s by (auto simp: check_length_def tail_of_def)
    qed
  qed
qed (simp add: tail_of_def non_null_def)

lemma concat_loop_join:
  "rmapM (as_text fl) (non_null vs) = Ok ts \<Longrightarrow>
   (if length (join sep ts) \<le> MAX_LENGTH then concat_loop fl sep vs [] False = Ok (if ts = [] then Null else Text (join sep ts))
    else \<exists>m. concat_loop fl sep vs [] False = Err (TooBig m))"
proof (induction vs arbitrary: ts)
  case (Cons v vs)
  show ?case
  proof (cases "v = Null")
    case True
    then show ?thesis using Cons by (auto simp: non_null_def)
  next
    case False
    then obtain s us where s: "as_text fl v = Ok s" "rmapM (as_text fl) (non_null vs) = Ok us" "ts = s # us"
      using Cons.prems(1) by (auto simp: non_null_def)
    show ?thesis
    proof (cases "length s \<le> MAX_LENGTH")
      case True
      then show ?thesis using False s concat_loop_any [OF s(2) True, of sep] by (simp add: check_length_def join_tail)
    qed (use False s in \<open>auto simp: check_length_def join_tail\<close>)
  qed
qed (simp add: non_null_def)

section \<open>Properties\<close>



definition plain_aggregate :: "agg_func \<Rightarrow> expr option \<Rightarrow> aggregate" where
  "plain_aggregate f arg = \<lparr>agg_func = f, agg_arg = arg, agg_distinct = False, agg_separator = None,
     agg_collation = Binary, agg_filter = None\<rparr>"

text \<open>
  C38: \<open>SUM\<close> over integers and \<open>NULL\<close>s is \<open>NULL\<close> when there is no integer, the exact sum when every
  running total fits in 64 bits, and the overflow error otherwise: it never wraps and is never
  silently rounded.
\<close>

theorem sum_exact_or_refused:
  assumes "agg_func a = AggSum" "\<not> agg_distinct a" "list_all integral vs"
  shows "if running_fits 0 (int_values vs)
    then (if int_values vs = [] then fold_aggregate_values a vs grp env = Ok Null
          else \<exists>m. fold_aggregate_values a vs grp env = Ok (Integer m) \<and> sint m = sum_list (int_values vs))
    else fold_aggregate_values a vs grp env = Err (Type ''integer overflow'')"
  using sum_steps [OF assms(3), of 0 "e_lib env" False] assms(1,2)
  by (auto simp: fold_aggregate_values_def fold_new_def split: if_splits)

theorem sum_exact_or_refused_witness:
  "\<exists>m. fold_aggregate_values (plain_aggregate AggSum None) [Integer 2, Null, Integer 5] [] no_env = Ok (Integer m) \<and> sint m = 7"
proof -
  have s: "sint (2 :: i64) = 2" "sint (5 :: i64) = 5" by (simp_all add: signed_take_bit_int_eq_self)
  have "list_all integral [Integer 2, Null, Integer 5]" by (simp add: integral_def)
  from sum_exact_or_refused [of "plain_aggregate AggSum None", OF _ _ this, of "[]" no_env] s
  show ?thesis by (simp add: plain_aggregate_def)
qed

text \<open>
  \<open>MIN\<close> and \<open>MAX\<close> are \<open>NULL\<close> when every value is, and otherwise the first of the least
  (greatest) non-\<open>NULL\<close> values in the storage-class order, whatever order the values arrive in;
  \<open>COUNT\<close> is the number of non-\<open>NULL\<close> values.
\<close>

theorem extremes_and_count:
  assumes "agg_func a = (if largest then AggMax else AggMin)" "\<not> agg_distinct a" "list_all consistent vs"
    "agg_func b = AggCount" "\<not> agg_distinct b"
  shows "(if non_null vs = [] then fold_aggregate_values a vs grp env = Ok Null
     else \<exists>r. fold_aggregate_values a vs grp env = Ok r \<and> first_least (agg_order largest (agg_collation a)) (non_null vs) r) \<and>
    fold_aggregate_values b vs grp env = Ok (Integer (of_nat (length (non_null vs))))"
proof -
  have "fold_new a = Some (FExtreme None largest (agg_collation a))" using assms(1) by (cases largest) (auto simp: fold_new_def)
  moreover have "fold_new b = Some (FCount 0)" using assms(4) by (simp add: fold_new_def)
  ultimately show ?thesis
    using extreme_first [OF assms(3), of largest "agg_collation a"] assms(2,5)
    by (auto simp: fold_aggregate_values_def extreme_steps count_steps)
qed

theorem extremes_and_count_witness:
  "\<exists>r. fold_aggregate_values (plain_aggregate AggMax None) [Integer 3, Null, Text [97]] [] no_env = Ok r \<and>
     first_least (agg_order True Binary) [Integer 3, Text [97]] r"
proof -
  have "list_all consistent [Integer 3, Null, Text [97]]" by (simp add: consistent_def f64_exact_def)
  from extremes_and_count [of "plain_aggregate AggMax None" True, OF _ _ this, of "plain_aggregate AggCount None" "[]" no_env]
  show ?thesis by (simp add: plain_aggregate_def non_null_def)
qed

text \<open>
  \<open>GROUP_CONCAT\<close> with the default separator joins the rendered non-\<open>NULL\<close> values with commas,
  is \<open>NULL\<close> when there is none, and is refused when the result would pass the length limit.
\<close>

theorem group_concat_joins:
  assumes "agg_func a = AggGroupConcat" "\<not> agg_distinct a" "agg_separator a = None"
    "rmapM (as_text (e_lib env)) (non_null vs) = Ok ts"
  shows "if length (join (ascii '','') ts) \<le> MAX_LENGTH
    then fold_aggregate_values a vs grp env = Ok (if ts = [] then Null else Text (join (ascii '','') ts))
    else \<exists>m. fold_aggregate_values a vs grp env = Err (TooBig m)"
  using concat_loop_join [OF assms(4), of "ascii '',''"] assms(1-3)
  by (simp add: fold_aggregate_values_def fold_new_def fold_group_concat_def)

theorem group_concat_joins_witness:
  "fold_aggregate_values (plain_aggregate AggGroupConcat None) [Text [97], Null, Text [98]] [] no_env = Ok (Text [97, 44, 98])"
  using group_concat_joins [of "plain_aggregate AggGroupConcat None" no_env "[Text [97], Null, Text [98]]" "[[97], [98]]" "[]"]
  by (simp add: plain_aggregate_def non_null_def MAX_LENGTH_def ascii_def)

end
